(* ===== verification/Prelude.thy ===== *)
theory Prelude
  imports Main "HOL-Library.Word" "HOL-Library.Sublist"
begin

unbundle bit_operations_syntax

text \<open>
  What every component shares: the machine types of the Rust sources, results with the
  codec's errors (\<open>CodecError\<close> of \<open>crates/logit-proto/src/lib.rs\<close>), the sequencing of
  fallible readers (\<open>?\<close> of Rust), carving a slice off a byte buffer
  (\<open>Bytes::split_to\<close>), little-endian and big-endian integers, bounded repetition
  (\<open>for _ in 0..count\<close>).
\<close>

section \<open>Machine types\<close>

type_synonym u8 = "8 word"
type_synonym u16 = "16 word"
type_synonym u32 = "32 word"
type_synonym u64 = "64 word"

text \<open>
  A signed integer is its two's complement bit pattern (\<open>sint\<close> reads it); a double is its
  IEEE 754 bit pattern (\<open>f64::to_bits\<close>), since the wire carries exactly these bits.
\<close>

type_synonym i64 = "64 word"
type_synonym i32 = "32 word"
type_synonym f64 = "64 word"

type_synonym bytes = "u8 list"

definition USIZE_MAX :: nat where
  "USIZE_MAX = 2 ^ 64 - 1"

text \<open>\<open>u64::saturating_mul\<close> and \<open>usize::saturating_add\<close>, on the naturals they denote.\<close>

definition saturating_mul :: "nat \<Rightarrow> nat \<Rightarrow> nat" where
  "saturating_mul a b = min (a * b) USIZE_MAX"

definition saturating_add :: "nat \<Rightarrow> nat \<Rightarrow> nat" where
  "saturating_add a b = min (a + b) USIZE_MAX"

section \<open>Results and their sequencing\<close>

text \<open>
  \<open>CodecError\<close>. The text of a \<open>Malformed\<close> or \<open>Unsupported\<close> error is the constant part of
  the source's message; the numbers the source formats into it are left out.
\<close>

datatype codec_error =
    Malformed string
  | Io string
  | Truncated nat
  | Unsupported string
  | BudgetExceeded nat

type_synonym 'a result = "codec_error + 'a"

text \<open>The \<open>?\<close> operator: an error returns at once.\<close>

definition bnd :: "'e + 'a \<Rightarrow> ('a \<Rightarrow> 'e + 'b) \<Rightarrow> 'e + 'b" where
  "bnd m k = (case m of Inl e \<Rightarrow> Inl e | Inr x \<Rightarrow> k x)"

lemma bnd_simps [simp]:
  "bnd (Inl e) k = Inl e"
  "bnd (Inr x) k = k x"
  by (simp_all add: bnd_def)

lemma bnd_cong [fundef_cong]:
  "m = m' \<Longrightarrow> (\<And>x. m' = Inr x \<Longrightarrow> k x = k' x) \<Longrightarrow> bnd m k = bnd m' k'"
  by (cases m') (auto simp: bnd_def)

lemma bnd_eq_Inr: "bnd m k = Inr y \<longleftrightarrow> (\<exists>x. m = Inr x \<and> k x = Inr y)"
  by (cases m) auto

lemma bnd_InrE [elim!]:
  assumes "bnd m k = Inr y"
  obtains x where "m = Inr x" and "k x = Inr y"
  using assms by (auto simp: bnd_eq_Inr)

lemma bnd_assoc: "bnd (bnd m k) l = bnd m (\<lambda>x. bnd (k x) l)"
  by (cases m) auto

text \<open>A guard: \<open>if c { return Err(e) }\<close>.\<close>

definition reject_if :: "bool \<Rightarrow> 'e \<Rightarrow> 'e + unit" where
  "reject_if c e = (if c then Inl e else Inr ())"

lemma reject_if_simps [simp]:
  "reject_if True e = Inl e"
  "reject_if False e = Inr ()"
  by (simp_all add: reject_if_def)

lemma reject_if_eq_Inr [simp]: "reject_if c e = Inr u \<longleftrightarrow> \<not> c"
  by (simp add: reject_if_def)

text \<open>\<open>Option::ok_or\<close>.\<close>

definition ok_or :: "'e \<Rightarrow> 'a option \<Rightarrow> 'e + 'a" where
  "ok_or e x = (case x of Some y \<Rightarrow> Inr y | None \<Rightarrow> Inl e)"

lemma ok_or_simps [simp]: "ok_or e (Some x) = Inr x" "ok_or e None = Inl e"
  by (simp_all add: ok_or_def)

lemma ok_or_eq_Inr [simp]: "ok_or e x = Inr y \<longleftrightarrow> x = Some y"
  by (auto simp: ok_or_def split: option.splits)

section \<open>Carving a buffer\<close>

text \<open>
  \<open>bytes.split_to(len)\<close> behind the length check every caller makes first: the carved slice
  and what follows it, or the caller's error when fewer than \<open>len\<close> bytes remain.
\<close>

definition split_to :: "'e \<Rightarrow> nat \<Rightarrow> bytes \<Rightarrow> 'e + bytes \<times> bytes" where
  "split_to e n bs = (if length bs < n then Inl e else Inr (take n bs, drop n bs))"

lemma split_to_append [simp]:
  "length p = n \<Longrightarrow> split_to e n (p @ rest) = Inr (p, rest)"
  by (simp add: split_to_def)

lemma split_to_all [simp]: "length p = n \<Longrightarrow> split_to e n p = Inr (p, [])"
  by (simp add: split_to_def)

lemma split_to_eq_Inr:
  "split_to e n bs = Inr (p, rest) \<longleftrightarrow> bs = p @ rest \<and> length p = n"
  by (auto simp: split_to_def)

text \<open>\<open>Buf::get_u8\<close> and \<open>read_u8\<close> differ only in what an empty buffer does.\<close>

definition next_u8 :: "'e \<Rightarrow> bytes \<Rightarrow> 'e + u8 \<times> bytes" where
  "next_u8 e bs = (case bs of [] \<Rightarrow> Inl e | b # rest \<Rightarrow> Inr (b, rest))"

lemma next_u8_simps [simp]:
  "next_u8 e [] = Inl e"
  "next_u8 e (b # rest) = Inr (b, rest)"
  by (simp_all add: next_u8_def)

lemma next_u8_eq_Inr: "next_u8 e bs = Inr (b, rest) \<longleftrightarrow> bs = b # rest"
  by (cases bs) auto

section \<open>Fixed-width integers\<close>

text \<open>\<open>to_le_bytes\<close> and \<open>from_le_bytes\<close> for a value of \<open>n\<close> bytes, and the big-endian pair.\<close>

fun le_bytes :: "nat \<Rightarrow> 'a::len word \<Rightarrow> bytes" where
  "le_bytes 0 w = []"
| "le_bytes (Suc n) w = ucast w # le_bytes n (drop_bit 8 w)"

fun from_le_bytes :: "bytes \<Rightarrow> 'a::len word" where
  "from_le_bytes [] = 0"
| "from_le_bytes (b # bs) = ucast b OR push_bit 8 (from_le_bytes bs)"

definition be_bytes :: "nat \<Rightarrow> 'a::len word \<Rightarrow> bytes" where
  "be_bytes n w = rev (le_bytes n w)"

definition from_be_bytes :: "bytes \<Rightarrow> 'a::len word" where
  "from_be_bytes bs = from_le_bytes (rev bs)"

lemma length_le_bytes [simp]: "length (le_bytes n w) = n"
  by (induction n arbitrary: w) auto

lemma length_be_bytes [simp]: "length (be_bytes n w) = n"
  by (simp add: be_bytes_def)

lemma from_le_bytes_le_bytes:
  "LENGTH('a) \<le> 8 * n \<Longrightarrow> from_le_bytes (le_bytes n w) = (w :: 'a::len word)"
proof -
  have gen: "from_le_bytes (le_bytes n w) = take_bit (8 * n) w" for w :: "'a word"
  proof (induction n arbitrary: w)
    case 0
    show ?case by simp
  next
    case (Suc n)
    show ?case
      by (rule bit_word_eqI)
        (auto simp: Suc.IH bit_or_iff bit_take_bit_iff bit_push_bit_iff bit_ucast_iff
          bit_drop_bit_eq dest: bit_imp_le_length)
  qed
  assume "LENGTH('a) \<le> 8 * n"
  then show ?thesis
    by (simp add: gen take_bit_word_eq_self)
qed

lemma from_be_bytes_be_bytes:
  "LENGTH('a) \<le> 8 * n \<Longrightarrow> from_be_bytes (be_bytes n w) = (w :: 'a::len word)"
  by (simp add: from_be_bytes_def be_bytes_def from_le_bytes_le_bytes)

section \<open>Bounded repetition\<close>

lemma ucast_scast_i32 [simp]: "(ucast (scast (i :: i32) :: i64) :: i32) = i"
  by (rule bit_word_eqI) (simp add: bit_ucast_iff bit_signed_iff)

text \<open>
  \<open>for _ in 0..count { items.push(read()?) }\<close> over a threaded state.
\<close>

fun repeat_read :: "nat \<Rightarrow> ('s \<Rightarrow> 'e + 'a \<times> 's) \<Rightarrow> 's \<Rightarrow> 'e + 'a list \<times> 's" where
  "repeat_read 0 r s = Inr ([], s)"
| "repeat_read (Suc n) r s =
     bnd (r s) (\<lambda>(x, s). bnd (repeat_read n r s) (\<lambda>(xs, s). Inr (x # xs, s)))"

lemma repeat_read_cong [fundef_cong]:
  "n = n' \<Longrightarrow> s = s' \<Longrightarrow> (\<And>s. r s = r' s) \<Longrightarrow> repeat_read n r s = repeat_read n' r' s'"
  by (metis ext)

lemma repeat_read_length:
  "repeat_read n r s = Inr (xs, s') \<Longrightarrow> length xs = n"
  by (induction n arbitrary: s xs) auto

end
