(* ===== verification/Varint.thy ===== *)
theory Varint
  imports Prelude
begin

text \<open>
  \<open>crates/logit-proto/src/native/varint.rs\<close>: LEB128 unsigned varints, zigzag signed ones,
  and the two checks every carve of the payload makes (\<open>read_u8\<close>, \<open>ensure_consumed\<close>).
\<close>

section \<open>Writing\<close>

lemma unat_drop_bit_7: "unat (drop_bit 7 (v :: u64)) = unat v div 128"
  by (subst unat_drop_bit_eq) (simp add: drop_bit_eq_div)

function write_uvarint :: "u64 \<Rightarrow> bytes" where
  "write_uvarint v =
     (let byte = ucast (v AND 0x7f) :: u8; v = drop_bit 7 v
      in if v \<noteq> 0 then (byte OR 0x80) # write_uvarint v else [byte])"
  by pat_completeness auto
termination
proof (relation "measure unat", simp, clarsimp)
  fix v :: u64
  assume "drop_bit 7 v \<noteq> 0"
  then have "unat v \<noteq> 0" by (metis drop_bit_of_0 unsigned_eq_0_iff)
  then show "unat (drop_bit 7 v) < unat v"
    by (simp add: unat_drop_bit_7)
qed

declare write_uvarint.simps [simp del]

text \<open>\<open>uvarint_len\<close>: \<open>(64 - (v | 1).leading_zeros()).div_ceil(7)\<close>.\<close>

definition leading_zeros :: "u64 \<Rightarrow> nat" where
  "leading_zeros v = length (takeWhile (\<lambda>i. \<not> bit v i) (rev [0..<64]))"

definition uvarint_len :: "u64 \<Rightarrow> nat" where
  "uvarint_len v = (64 - leading_zeros (v OR 1) + 6) div 7"

definition zigzag_encode :: "i64 \<Rightarrow> u64" where
  "zigzag_encode v = push_bit 1 v XOR signed_drop_bit 63 v"

definition zigzag_decode :: "u64 \<Rightarrow> i64" where
  "zigzag_decode v = drop_bit 1 v XOR - (v AND 1)"

definition write_ivarint :: "i64 \<Rightarrow> bytes" where
  "write_ivarint v = write_uvarint (zigzag_encode v)"

section \<open>Reading\<close>

text \<open>The loop of \<open>read_uvarint\<close> from its \<open>i\<close>-th byte on, with the bits read so far.\<close>

fun read_uvarint_from :: "nat \<Rightarrow> u64 \<Rightarrow> bytes \<Rightarrow> (u64 \<times> bytes) result" where
  "read_uvarint_from i result [] =
     (if i < 10 then Inl (Malformed ''truncated varint'')
      else Inl (Malformed ''varint longer than 10 bytes''))"
| "read_uvarint_from i result (byte # bytes) =
     (if i < 10 then
        (let result = result OR push_bit (i * 7) (ucast (byte AND 0x7f))
         in if byte AND 0x80 = 0 then
              (if i = 9 \<and> byte > 1
               then Inl (Malformed ''varint's 10th byte overflows a u64'')
               else Inr (result, bytes))
            else read_uvarint_from (i + 1) result bytes)
      else Inl (Malformed ''varint longer than 10 bytes''))"

definition read_uvarint :: "bytes \<Rightarrow> (u64 \<times> bytes) result" where
  "read_uvarint bytes = read_uvarint_from 0 0 bytes"

definition read_ivarint :: "bytes \<Rightarrow> (i64 \<times> bytes) result" where
  "read_ivarint bytes = bnd (read_uvarint bytes) (\<lambda>(v, bytes). Inr (zigzag_decode v, bytes))"

definition read_u8 :: "bytes \<Rightarrow> (u8 \<times> bytes) result" where
  "read_u8 bytes = next_u8 (Malformed ''unexpected end of input reading a byte'') bytes"

definition ensure_consumed :: "bytes \<Rightarrow> unit result" where
  "ensure_consumed bytes = reject_if (bytes \<noteq> []) (Malformed ''had trailing bytes'')"

text \<open>\<open>read_uvarint(bytes)? as usize\<close> on a 64-bit target: the value as a length.\<close>

definition read_len :: "bytes \<Rightarrow> (nat \<times> bytes) result" where
  "read_len bytes = bnd (read_uvarint bytes) (\<lambda>(v, bytes). Inr (unat v, bytes))"

abbreviation write_len :: "nat \<Rightarrow> bytes" where
  "write_len n \<equiv> write_uvarint (of_nat n)"

lemma read_u8_simps [simp]:
  "read_u8 (b # rest) = Inr (b, rest)"
  "read_u8 [] = Inl (Malformed ''unexpected end of input reading a byte'')"
  by (simp_all add: read_u8_def)

lemma ensure_consumed_simps [simp]:
  "ensure_consumed [] = Inr ()"
  "ensure_consumed bytes = Inr u \<longleftrightarrow> bytes = []"
  by (simp_all add: ensure_consumed_def)

section \<open>Round trips\<close>

lemma bit_times_2: "bit (v * 2 :: u64) n \<longleftrightarrow> 0 < n \<and> n < 64 \<and> bit v (n - 1)"
  by (cases n) (auto simp: mult.commute [of v] bit_double_iff dest: bit_imp_le_length)

lemma zigzag_decode_encode [simp]: "zigzag_decode (zigzag_encode v) = v"
proof (rule bit_word_eqI)
  fix n assume n: "n < LENGTH(64)"
  have sign: "(push_bit 1 v XOR signed_drop_bit 63 v) AND 1 = (if bit v 63 then 1 else 0)"
    by (intro bit_word_eqI)
      (auto simp: bit_and_iff bit_xor_iff bit_times_2 bit_signed_drop_bit_iff bit_1_iff Suc_le_eq)
  from n have top: "n = 63" if "\<not> n < 63"
    using that by simp
  show "bit (zigzag_decode (zigzag_encode v)) n \<longleftrightarrow> bit v n"
    unfolding zigzag_decode_def zigzag_encode_def sign using n
    by (auto simp: bit_xor_iff bit_drop_bit_eq bit_times_2 bit_signed_drop_bit_iff
        dest: bit_imp_le_length top)
qed

lemma zigzag_encode_decode [simp]: "zigzag_encode (zigzag_decode v) = v"
proof (rule bit_word_eqI)
  fix n assume n: "n < LENGTH(64)"
  have low: "v AND 1 = (if bit v 0 then 1 else 0)"
    by (intro bit_word_eqI) (auto simp: bit_and_iff bit_1_iff intro: Suc_leI gr0I)
  show "bit (zigzag_encode (zigzag_decode v)) n \<longleftrightarrow> bit v n"
    unfolding zigzag_decode_def zigzag_encode_def low using n
    by (cases n) (auto simp: bit_xor_iff bit_drop_bit_eq bit_times_2 bit_signed_drop_bit_iff
        dest: bit_imp_le_length)
qed

lemma bit_0x7f: "bit (0x7f :: 'a::len word) n \<longleftrightarrow> n < 7 \<and> n < LENGTH('a)"
proof -
  have "0x7f = (mask 7 :: 'a word)" by (simp add: mask_eq_exp_minus_1)
  then show ?thesis by (metis bit_mask_iff possible_bit_word)
qed

lemma bit_0x80: "bit (0x80 :: 'a::len word) n \<longleftrightarrow> n = 7 \<and> n < LENGTH('a)"
proof -
  have "0x80 = (2 ^ 7 :: 'a word)" by simp
  then show ?thesis by (metis bit_exp_iff possible_bit_word)
qed

lemma seven_bits_split:
  "push_bit (i * 7) (ucast (ucast (v AND 0x7f) :: u8)) OR push_bit (i * 7 + 7) (drop_bit 7 v)
     = push_bit (i * 7) (v :: u64)"
proof (rule bit_word_eqI)
  fix n assume "n < LENGTH(64)"
  moreover have "7 + (n - (i * 7 + 7)) = n - i * 7 \<or> n - i * 7 < 7" if "i * 7 \<le> n"
    using that by arith
  ultimately show "bit (push_bit (i * 7) (ucast (ucast (v AND 0x7f) :: u8))
      OR push_bit (i * 7 + 7) (drop_bit 7 v)) n = bit (push_bit (i * 7) v) n"
    by (simp only: bit_or_iff bit_push_bit_iff bit_ucast_iff bit_and_iff bit_0x7f bit_drop_bit_eq
        possible_bit_word o_def) (auto, (metis less_SucI numeral_eq_Suc)?)
qed

lemma uvarint_byte_bits:
  fixes v :: u64
  defines "b \<equiv> ucast (v AND 0x7f) :: u8"
  shows "(b OR 0x80) AND 0x80 \<noteq> 0" and "b AND 0x80 = 0"
    and "(b OR 0x80) AND 0x7f = b" and "b AND 0x7f = b"
proof -
  show "(b OR 0x80) AND 0x80 \<noteq> 0"
  proof
    assume "(b OR 0x80) AND 0x80 = 0"
    then have "\<not> bit ((b OR 0x80) AND 0x80) 7" by (metis bit_0_eq bot_apply bot_bool_def)
    then show False by (simp add: bit_and_iff bit_or_iff bit_0x80)
  qed
  show "b AND 0x80 = 0" "(b OR 0x80) AND 0x7f = b" "b AND 0x7f = b"
    unfolding b_def
    by (rule bit_word_eqI, simp only: bit_and_iff bit_or_iff bit_ucast_iff bit_0x7f bit_0x80
        bit_0_eq bot_apply, auto)+
qed

lemma read_uvarint_from_write:
  assumes "i < 10" and "unat v < 2 ^ (64 - i * 7)"
  shows "read_uvarint_from i r (write_uvarint v @ rest) = Inr (r OR push_bit (i * 7) v, rest)"
  using assms
proof (induction v arbitrary: i r rule: write_uvarint.induct)
  case (1 v)
  let ?b = "ucast (v AND 0x7f) :: u8"
  note bits = uvarint_byte_bits [of v]
  show ?case
  proof (cases "drop_bit 7 v = 0")
    case False
    note shifted = unat_drop_bit_7 [of v]
    have i9: "i < 9"
    proof (rule ccontr)
      assume "\<not> i < 9"
      with "1.prems"(1) have "i = 9" by simp
      with "1.prems"(2) have "unat v < 2" by simp
      then have "unat (drop_bit 7 v) = 0" by (simp add: shifted)
      with False show False by (simp add: unsigned_eq_0_iff)
    qed
    have "unat v < 2 ^ 7 * 2 ^ (64 - (i + 1) * 7)"
      using "1.prems"(2) i9 by (subst power_add [symmetric]) simp
    then have small: "unat (drop_bit 7 v) < 2 ^ (64 - (i + 1) * 7)"
      unfolding shifted by (simp add: less_mult_imp_div_less mult.commute)
    have eq: "(r OR push_bit (i * 7) (ucast ?b)) OR push_bit ((i + 1) * 7) (drop_bit 7 v)
        = r OR push_bit (i * 7) v"
      using seven_bits_split [of i v] by (simp add: or.assoc add.commute)
    show ?thesis
      using "1.IH" [OF refl refl False, of "i + 1" "r OR push_bit (i * 7) (ucast ?b)"] i9 small
        "1.prems"(1) False
      by (simp add: write_uvarint.simps [of v] bits eq [simplified])
  next
    case True
    have "push_bit (i * 7) (ucast ?b) = push_bit (i * 7) v"
      using seven_bits_split [of i v] True by simp
    moreover have "\<not> (i = 9 \<and> ?b > 1)"
    proof
      assume "i = 9 \<and> ?b > 1"
      moreover from this "1.prems"(2) have "unat v < 2" by simp
      then have "v = 0 \<or> v = 1"
        by (metis One_nat_def less_2_cases unsigned_0 unsigned_1 unsigned_word_eqI)
      ultimately show False by auto
    qed
    ultimately show ?thesis
      using "1.prems"(1) True by (simp add: write_uvarint.simps [of v] bits)
  qed
qed

lemma read_write_uvarint [simp]: "read_uvarint (write_uvarint v @ rest) = Inr (v, rest)"
  using read_uvarint_from_write [of 0 v 0 rest] unsigned_less [of v]
  by (simp add: read_uvarint_def)

lemma read_write_ivarint [simp]: "read_ivarint (write_ivarint v @ rest) = Inr (v, rest)"
  by (simp add: read_ivarint_def write_ivarint_def)

lemma read_write_len [simp]:
  "n < 2 ^ 64 \<Longrightarrow> read_len (write_len n @ rest) = Inr (n, rest)"
  by (simp add: read_len_def unat_of_nat take_bit_nat_eq_self)

lemma read_write_uvarint_nil [simp]: "read_uvarint (write_uvarint v) = Inr (v, [])"
  using read_write_uvarint [of v "[]"] by (simp del: read_write_uvarint)

lemma read_write_ivarint_nil [simp]: "read_ivarint (write_ivarint v) = Inr (v, [])"
  using read_write_ivarint [of v "[]"] by (simp del: read_write_ivarint)

section \<open>What the readers consume\<close>

text \<open>
  The mathematical value of a LEB128 byte string; \<open>read_uvarint\<close> returns exactly it, without
  a bit lost to the width of the accumulator, and consumes between one and ten bytes.
\<close>

fun leb128 :: "bytes \<Rightarrow> nat" where
  "leb128 [] = 0"
| "leb128 (b # bs) = unat b mod 128 + 128 * leb128 bs"

lemma read_uvarint_from_shorter:
  "read_uvarint_from i r bs = Inr (v, rest) \<Longrightarrow> length rest < length bs"
  by (induction i r bs rule: read_uvarint_from.induct)
    (auto simp: Let_def less_Suc_eq split: if_splits)

lemma read_uvarint_shorter: "read_uvarint bs = Inr (v, rest) \<Longrightarrow> length rest < length bs"
  by (simp add: read_uvarint_def read_uvarint_from_shorter)

lemma read_len_shorter: "read_len bs = Inr (n, rest) \<Longrightarrow> length rest < length bs"
  by (auto simp: read_len_def dest: read_uvarint_shorter)

lemma read_u8_shorter: "read_u8 bs = Inr (n, rest) \<Longrightarrow> length rest < length bs"
  by (auto simp: read_u8_def next_u8_eq_Inr)

section \<open>The length of a varint\<close>

lemma le_length_takeWhile:
  "k \<le> length (takeWhile P xs) \<longleftrightarrow> k \<le> length xs \<and> (\<forall>j < k. P (xs ! j))"
proof (induction xs arbitrary: k)
  case (Cons x xs)
  show ?case
  proof (cases k)
    case (Suc k')
    then show ?thesis
      using Cons.IH [of k'] by (auto simp: less_Suc_eq_0_disj)
  qed simp
qed auto

definition bit_len :: "u64 \<Rightarrow> nat" where
  "bit_len v = 64 - leading_zeros v"

lemma bit_len_le: "bit_len v \<le> n \<longleftrightarrow> (\<forall>i \<ge> n. \<not> bit v i)"
proof (cases "n \<le> 64")
  case True
  have "bit_len v \<le> n \<longleftrightarrow> 64 - n \<le> leading_zeros v"
    using True by (auto simp: bit_len_def)
  also have "\<dots> \<longleftrightarrow> (\<forall>j < 64 - n. \<not> bit v (63 - j))"
    unfolding leading_zeros_def le_length_takeWhile by (auto simp: rev_nth)
  also have "\<dots> \<longleftrightarrow> (\<forall>i \<ge> n. \<not> bit v i)"
  proof safe
    fix i assume a: "\<forall>j < 64 - n. \<not> bit v (63 - j)" and "n \<le> i" and b: "bit v i"
    then have "i < 64" by (auto dest: bit_imp_le_length)
    then have "63 - i < 64 - n" using \<open>n \<le> i\<close> by arith
    with a have "\<not> bit v (63 - (63 - i))" by blast
    then show False using b \<open>i < 64\<close> by simp
  next
    fix j assume a: "\<forall>i \<ge> n. \<not> bit v i" and j: "j < 64 - n" and b: "bit v (63 - j)"
    have "n \<le> 63 - j" using j by simp
    with a b show False by blast
  qed
  finally show ?thesis .
next
  case False
  then show ?thesis by (auto simp: bit_len_def dest: bit_imp_le_length)
qed

lemma bit_len_eqI: "(\<And>n. bit_len v \<le> n \<longleftrightarrow> k \<le> n) \<Longrightarrow> bit_len v = k"
  by (metis order_antisym order_refl)

lemma bit_len_shift:
  assumes "drop_bit 7 v \<noteq> 0"
  shows "bit_len (v OR 1) = bit_len (drop_bit 7 v OR 1) + 7"
proof -
  obtain i where i: "bit v (i + 7)"
  proof -
    from assms obtain i where "bit (drop_bit 7 v) i"
      by (metis bit_eq_iff bit_0_eq bot_apply bot_bool_def)
    then have "bit v (i + 7)" by (simp add: bit_drop_bit_eq add.commute)
    then show thesis by (rule that)
  qed
  show ?thesis
  proof (rule bit_len_eqI)
    fix n
    show "bit_len (v OR 1) \<le> n \<longleftrightarrow> bit_len (drop_bit 7 v OR 1) + 7 \<le> n"
    proof (cases "n \<le> 7")
      case True
      have "\<not> bit_len (v OR 1) \<le> n"
        unfolding bit_len_le using i True by (auto simp: bit_or_iff intro!: exI [of _ "i + 7"])
      moreover have "\<not> bit_len (drop_bit 7 v OR 1) \<le> n - 7"
        unfolding bit_len_le using True by (auto simp: bit_or_iff intro!: exI [of _ 0])
      ultimately show ?thesis using True by auto
    next
      case False
      have "bit_len (drop_bit 7 v OR 1) + 7 \<le> n \<longleftrightarrow> bit_len (drop_bit 7 v OR 1) \<le> n - 7"
        using False by auto
      also have "\<dots> \<longleftrightarrow> (\<forall>i \<ge> n - 7. \<not> bit v (i + 7))"
        unfolding bit_len_le using False
        by (auto simp: bit_or_iff bit_drop_bit_eq bit_1_iff add.commute)
      also have "\<dots> \<longleftrightarrow> (\<forall>i \<ge> n. \<not> bit v i)"
      proof safe
        fix i assume "\<forall>i \<ge> n - 7. \<not> bit v (i + 7)" "n \<le> i" "bit v i"
        then show False using False by (metis diff_le_mono le_add_diff_inverse2 nat_le_linear order_trans)
      qed auto
      also have "\<dots> \<longleftrightarrow> bit_len (v OR 1) \<le> n"
        unfolding bit_len_le using False by (auto simp: bit_or_iff bit_1_iff)
      finally show ?thesis by simp
    qed
  qed
qed

lemma uvarint_len_eq: "uvarint_len v = length (write_uvarint v)"
proof (induction v rule: write_uvarint.induct)
  case (1 v)
  have len: "uvarint_len w = (bit_len (w OR 1) + 6) div 7" for w
    by (simp add: uvarint_len_def bit_len_def)
  show ?case
  proof (cases "drop_bit 7 v = 0")
    case False
    with 1 have "uvarint_len (drop_bit 7 v) = length (write_uvarint (drop_bit 7 v))" by simp
    with False show ?thesis
      by (simp add: len bit_len_shift write_uvarint.simps [of v])
  next
    case True
    have bits: "\<not> bit (v OR 1) i" if "7 \<le> i" for i
    proof -
      have "\<not> bit (drop_bit 7 v) (i - 7)" using True by simp
      with that show ?thesis by (simp add: bit_drop_bit_eq bit_or_iff bit_1_iff)
    qed
    then have "bit_len (v OR 1) \<le> 7" by (simp add: bit_len_le)
    moreover have "\<not> bit_len (v OR 1) \<le> 0"
      unfolding bit_len_le by (auto simp: bit_or_iff intro!: exI [of _ 0])
    ultimately have "(bit_len (v OR 1) + 6) div 7 = 1" by arith
    with True show ?thesis by (simp add: len write_uvarint.simps [of v])
  qed
qed

lemma uvarint_len_bounds: "1 \<le> uvarint_len v" "uvarint_len v \<le> 10"
proof -
  have "bit_len (v OR 1) \<le> 64" by (simp add: bit_len_def)
  then show "uvarint_len v \<le> 10" by (simp add: uvarint_len_def flip: bit_len_def)
  show "1 \<le> uvarint_len v"
    by (simp add: uvarint_len_eq Suc_le_eq write_uvarint.simps [of v] Let_def)
qed

lemma length_uvarint_le: "unat v < 128 ^ Suc k \<Longrightarrow> length (write_uvarint v) \<le> Suc k"
proof (induction k arbitrary: v)
  case 0
  then have "drop_bit 7 v = 0" by (simp add: unat_drop_bit_7 flip: unat_eq_0)
  then show ?case by (simp add: write_uvarint.simps [of v])
next
  case (Suc k)
  then have "unat (drop_bit 7 v) < 128 ^ Suc k" by (simp add: unat_drop_bit_7 less_mult_imp_div_less)
  from Suc.IH [OF this] show ?case by (simp add: write_uvarint.simps [of v] Let_def)
qed

section \<open>What the reader accepts\<close>

lemma leb128_append: "leb128 (a @ b) = leb128 a + 128 ^ length a * leb128 b"
  by (induction a) (simp_all add: algebra_simps)

text \<open>
  Read from the \<open>i\<close>-th byte on, with an accumulator of fewer than \<open>7 i\<close> bits, the loop adds
  exactly the mathematical value of the bytes it consumes.
\<close>

lemma or_push_bit_add:
  fixes r x :: u64
  assumes r: "unat r < 2 ^ n" and x: "unat x * 2 ^ n < 2 ^ 64"
  shows "unat (r OR push_bit n x) = unat r + unat x * 2 ^ n"
proof -
  have shift: "unat (push_bit n x) = push_bit n (unat x)"
    using x unfolding unsigned_push_bit_eq
    by (simp add: push_bit_eq_mult take_bit_nat_eq_self)
  have "unat r AND push_bit n (unat x) = 0"
  proof (rule bit_eqI)
    fix i
    have "take_bit n (unat r) = unat r" using r by (simp add: take_bit_nat_eq_self)
    then have "\<not> bit (unat r) i" if "\<not> i < n" using that by (metis bit_take_bit_iff)
    then show "bit (unat r AND push_bit n (unat x)) i = bit 0 i"
      by (cases "i < n") (simp_all add: bit_and_iff bit_push_bit_iff)
  qed
  then have "unat r OR push_bit n (unat x) = unat r + push_bit n (unat x)"
    by (simp add: disjunctive_add_eq_or)
  then show ?thesis
    by (simp only: unsigned_or_eq shift) (simp add: push_bit_eq_mult)
qed

lemma unat_and_0x7f: "unat (b AND 0x7f :: u8) = unat b mod 128"
proof -
  have "(0x7f :: u8) = mask 7" by (simp add: mask_eq_exp_minus_1)
  then have "b AND 0x7f = take_bit 7 b" by (simp only: take_bit_eq_mask)
  then show ?thesis by (simp only: unsigned_take_bit_eq) (simp add: take_bit_eq_mod)
qed

lemma read_uvarint_from_exact:
  assumes "read_uvarint_from i r bs = Inr (v, rest)" and "i < 10" and "unat r < 2 ^ (i * 7)"
  shows "\<exists>p. bs = p @ rest \<and> p \<noteq> [] \<and> i + length p \<le> 10 \<and>
    unat v = unat r + leb128 p * 2 ^ (i * 7)"
  using assms
proof (induction i r bs rule: read_uvarint_from.induct)
  case (2 i r byte bs)
  let ?x = "ucast (byte AND 0x7f) :: u64"
  let ?r = "r OR push_bit (i * 7) ?x"
  have x: "unat ?x = unat byte mod 128"
    by (simp add: unat_and_0x7f unsigned_ucast_eq take_bit_nat_eq_self)
  show ?case
  proof (cases "byte AND 0x80 = 0")
    case True
    with "2.prems" have v: "v = ?r" "rest = bs" and last: "\<not> (i = 9 \<and> byte > 1)"
      by (auto simp: Let_def split: if_splits)
    have "unat ?x * 2 ^ (i * 7) < 2 ^ 64"
    proof (cases "i = 9")
      case True
      with last have "unat byte \<le> 1" by (simp add: word_less_nat_alt not_less)
      then have "unat ?x \<le> 1" by (simp add: x)
      with True show ?thesis by simp
    next
      case False
      have "unat ?x * 2 ^ (i * 7) < 128 * 2 ^ (i * 7)" by (simp add: x)
      also have "\<dots> = 2 ^ (i * 7 + 7)" by (simp add: power_add)
      also have "\<dots> \<le> 2 ^ 64" using False "2.prems"(2) by (intro power_increasing) simp_all
      finally show ?thesis .
    qed
    from or_push_bit_add [OF "2.prems"(3) this] v "2.prems"(2) show ?thesis
      by (intro exI [of _ "[byte]"]) (simp add: x)
  next
    case False
    have rd: "read_uvarint_from (i + 1) ?r bs = Inr (v, rest)"
      using "2.prems" False by (simp add: Let_def)
    have i: "i < 9"
    proof (rule ccontr)
      assume "\<not> i < 9"
      with "2.prems"(2) rd show False by (cases bs) auto
    qed
    have "unat ?x * 2 ^ (i * 7) < 128 * 2 ^ (i * 7)" by (simp add: x)
    also have "\<dots> = 2 ^ (i * 7 + 7)" by (simp add: power_add)
    also have "\<dots> \<le> 2 ^ 63" using i by (intro power_increasing) simp_all
    finally have "unat ?x * 2 ^ (i * 7) < 2 ^ 64" by simp
    note r = or_push_bit_add [OF "2.prems"(3) this]
    have "unat ?r < 2 ^ ((i + 1) * 7)"
    proof -
      have "unat byte mod 128 + 1 \<le> 128" by (simp add: Suc_le_eq)
      then have "(unat byte mod 128 + 1) * 2 ^ (i * 7) \<le> 128 * 2 ^ (i * 7)" by (rule mult_le_mono1)
      then have "2 ^ (i * 7) + unat byte mod 128 * 2 ^ (i * 7) \<le> 128 * 2 ^ (i * 7)"
        unfolding distrib_right by simp
      with "2.prems"(3) have "unat r + unat byte mod 128 * 2 ^ (i * 7) < 128 * 2 ^ (i * 7)"
        by linarith
      then show ?thesis unfolding r x by (simp add: power_add)
    qed
    from "2.IH" [OF "2.prems"(2) refl False rd _ this] i obtain p where
      p: "bs = p @ rest" "p \<noteq> []" "i + 1 + length p \<le> 10"
        "unat v = unat ?r + leb128 p * 2 ^ ((i + 1) * 7)" by auto
    have "unat v = unat r + leb128 (byte # p) * 2 ^ (i * 7)"
      unfolding p(4) r x by (simp add: power_add algebra_simps)
    with p show ?thesis
      by (intro exI [of _ "byte # p"]) simp
  qed
qed (simp split: if_splits)

lemma read_uvarint_exact:
  assumes "read_uvarint bs = Inr (v, rest)"
  shows "\<exists>p. bs = p @ rest \<and> 1 \<le> length p \<and> length p \<le> 10 \<and> unat v = leb128 p"
  using read_uvarint_from_exact [OF assms [unfolded read_uvarint_def]]
  by (auto simp: Suc_le_eq)

section \<open>Properties of the integer codec\<close>

text \<open>
  Every 64-bit integer, unsigned or signed, reads back from its varint whatever follows it, and
  \<open>uvarint_len\<close>, computed from the leading zeros alone, is the length the writer produces: between
  one and ten bytes.
\<close>

theorem varint_round_trip:
  "read_uvarint (write_uvarint v @ rest) = Inr (v, rest) \<and>
   read_ivarint (write_ivarint i @ rest) = Inr (i, rest) \<and>
   uvarint_len v = length (write_uvarint v) \<and> 1 \<le> uvarint_len v \<and> uvarint_len v \<le> 10"
  using uvarint_len_bounds [of v] by (simp add: uvarint_len_eq)

text \<open>
  The varint reader accepts nothing but a value that fits: what it accepts is one to ten bytes
  off the front whose base-128 value is exactly the result, so nothing wraps around at 64 bits.
\<close>

theorem varint_never_wraps:
  assumes "read_uvarint bs = Inr (v, rest)"
  shows "\<exists>p. bs = p @ rest \<and> 1 \<le> length p \<and> length p \<le> 10 \<and> unat v = leb128 p"
  using assms by (rule read_uvarint_exact)

theorem varint_never_wraps_witness:
  "\<exists>p. [0xac, 0x02, 0x55] = p @ [0x55] \<and> 1 \<le> length p \<and> length p \<le> 10 \<and> unat (300 :: u64) = leb128 p"
  by (rule varint_never_wraps) code_simp

end
