(* ===== verification/Utf8.thy ===== *)
theory Utf8
  imports Prelude
begin

text \<open>
  The part of Rust's standard library the codecs use for text: \<open>str::from_utf8\<close> (is a byte
  string valid UTF-8), \<open>String::from_utf8_lossy\<close> (each maximal ill-formed subpart becomes
  U+FFFD) and \<open>str::is_char_boundary\<close>.
\<close>

definition utf8_cont :: "u8 \<Rightarrow> bool" where
  "utf8_cont b \<longleftrightarrow> 0x80 \<le> b \<and> b \<le> 0xBF"

text \<open>The second byte a three-byte or four-byte lead admits (Unicode table 3-7).\<close>

definition utf8_second3 :: "u8 \<Rightarrow> u8 \<Rightarrow> bool" where
  "utf8_second3 b c \<longleftrightarrow>
     (if b = 0xE0 then 0xA0 \<le> c \<and> c \<le> 0xBF
      else if b = 0xED then 0x80 \<le> c \<and> c \<le> 0x9F
      else utf8_cont c)"

definition utf8_second4 :: "u8 \<Rightarrow> u8 \<Rightarrow> bool" where
  "utf8_second4 b c \<longleftrightarrow>
     (if b = 0xF0 then 0x90 \<le> c \<and> c \<le> 0xBF
      else if b = 0xF4 then 0x80 \<le> c \<and> c \<le> 0x8F
      else utf8_cont c)"

text \<open>
  One step over the front of the buffer: how many bytes it takes, and whether they are a
  well-formed scalar value (otherwise they are a maximal ill-formed subpart).
\<close>

fun utf8_step :: "bytes \<Rightarrow> bool \<times> nat" where
  "utf8_step [] = (True, 0)"
| "utf8_step (b # bs) =
     (if b < 0x80 then (True, 1)
      else if 0xC2 \<le> b \<and> b \<le> 0xDF then
        (case bs of c # _ \<Rightarrow> if utf8_cont c then (True, 2) else (False, 1) | [] \<Rightarrow> (False, 1))
      else if 0xE0 \<le> b \<and> b \<le> 0xEF then
        (case bs of
           c # bs' \<Rightarrow>
             (if utf8_second3 b c
              then (case bs' of d # _ \<Rightarrow> if utf8_cont d then (True, 3) else (False, 2)
                    | [] \<Rightarrow> (False, 2))
              else (False, 1))
         | [] \<Rightarrow> (False, 1))
      else if 0xF0 \<le> b \<and> b \<le> 0xF4 then
        (case bs of
           c # bs' \<Rightarrow>
             (if utf8_second4 b c
              then (case bs' of
                      d # bs'' \<Rightarrow>
                        (if utf8_cont d
                         then (case bs'' of e # _ \<Rightarrow> if utf8_cont e then (True, 4) else (False, 3)
                               | [] \<Rightarrow> (False, 3))
                         else (False, 2))
                    | [] \<Rightarrow> (False, 2))
              else (False, 1))
         | [] \<Rightarrow> (False, 1))
      else (False, 1))"

lemma utf8_step_pos: "bs \<noteq> [] \<Longrightarrow> 0 < snd (utf8_step bs)"
  by (cases bs) (auto split: list.splits)

lemma utf8_step_shrinks:
  "bs \<noteq> [] \<Longrightarrow> (ok, n) = utf8_step bs \<Longrightarrow> length (drop n bs) < length bs"
  using utf8_step_pos [of bs] by (metis diff_less length_drop length_greater_0_conv snd_conv)

function utf8_valid :: "bytes \<Rightarrow> bool" where
  "utf8_valid bs =
     (if bs = [] then True
      else case utf8_step bs of (ok, n) \<Rightarrow> ok \<and> utf8_valid (drop n bs))"
  by pat_completeness auto
termination
  by (relation "measure length") (auto simp: utf8_step_shrinks [simplified])

definition REPLACEMENT :: bytes where
  "REPLACEMENT = [0xEF, 0xBF, 0xBD]"

function from_utf8_lossy :: "bytes \<Rightarrow> bytes" where
  "from_utf8_lossy bs =
     (if bs = [] then []
      else case utf8_step bs of
        (ok, n) \<Rightarrow> (if ok then take n bs else REPLACEMENT) @ from_utf8_lossy (drop n bs))"
  by pat_completeness auto
termination
  by (relation "measure length") (auto simp: utf8_step_shrinks [simplified])

definition is_char_boundary :: "bytes \<Rightarrow> nat \<Rightarrow> bool" where
  "is_char_boundary s i \<longleftrightarrow>
     i = 0 \<or> i = length s \<or> (i < length s \<and> \<not> utf8_cont (s ! i))"

declare utf8_valid.simps [simp del] from_utf8_lossy.simps [simp del]

lemma utf8_valid_Nil [simp]: "utf8_valid []"
  by (simp add: utf8_valid.simps)

lemma from_utf8_lossy_Nil [simp]: "from_utf8_lossy [] = []"
  by (simp add: from_utf8_lossy.simps)

text \<open>A well-formed scalar is self-delimiting: what follows it does not matter.\<close>

lemma utf8_step_append:
  "bs \<noteq> [] \<Longrightarrow> utf8_step bs = (True, n) \<Longrightarrow> utf8_step (bs @ cs) = (True, n)"
  by (cases bs) (auto split: list.splits if_splits)

lemma utf8_step_le: "utf8_step bs = (ok, n) \<Longrightarrow> n \<le> length bs"
  by (cases bs) (auto split: list.splits if_splits)

lemma utf8_step_take:
  "bs \<noteq> [] \<Longrightarrow> utf8_step bs = (True, n) \<Longrightarrow> utf8_step (take n bs) = (True, n)"
  by (cases bs) (auto split: list.splits if_splits)

lemma utf8_valid_append_char:
  assumes "bs \<noteq> []" and "utf8_step bs = (True, n)" and "n = length bs"
  shows "utf8_valid (bs @ cs) = utf8_valid cs"
  using assms utf8_step_append [OF assms(1,2), of cs]
  by (subst utf8_valid.simps) simp

lemma utf8_valid_REPLACEMENT [simp]: "utf8_valid (REPLACEMENT @ cs) = utf8_valid cs"
  by (rule utf8_valid_append_char [where n = 3])
    (simp_all add: REPLACEMENT_def utf8_second3_def utf8_cont_def)

lemma from_utf8_lossy_valid: "utf8_valid (from_utf8_lossy bs)"
proof (induction bs rule: from_utf8_lossy.induct)
  case (1 bs)
  show ?case
  proof (cases "bs = []")
    case True
    then show ?thesis by simp
  next
    case False
    obtain ok n where st: "utf8_step bs = (ok, n)" by (cases "utf8_step bs")
    from "1.IH" [OF False st [symmetric]] have IH: "utf8_valid (from_utf8_lossy (drop n bs))" .
    have "utf8_valid (take n bs @ cs) = utf8_valid cs" if ok for cs
      using that st False utf8_step_pos [OF False] utf8_step_le [OF st]
      by (intro utf8_valid_append_char [where n = n]) (auto simp: utf8_step_take)
    with False st IH show ?thesis
      by (subst from_utf8_lossy.simps) simp
  qed
qed

lemma from_utf8_lossy_id: "utf8_valid bs \<Longrightarrow> from_utf8_lossy bs = bs"
proof (induction bs rule: from_utf8_lossy.induct)
  case (1 bs)
  show ?case
  proof (cases "bs = []")
    case True
    then show ?thesis by simp
  next
    case False
    obtain ok n where st: "utf8_step bs = (ok, n)" by (cases "utf8_step bs")
    from "1.prems" False st have "ok" and v: "utf8_valid (drop n bs)"
      by (simp_all add: utf8_valid.simps [of bs])
    with "1.IH" [OF False st [symmetric] v] False st show ?thesis
      by (simp add: from_utf8_lossy.simps [of bs])
  qed
qed

lemma utf8_step_conts:
  "utf8_step bs = (True, n) \<Longrightarrow> 0 < i \<Longrightarrow> i < n \<Longrightarrow> utf8_cont (bs ! i)"
proof (cases bs)
  case (Cons b cs)
  assume st: "utf8_step bs = (True, n)" and i: "0 < i" "i < n"
  have sec: "utf8_second3 b c \<Longrightarrow> utf8_cont c" "utf8_second4 b c \<Longrightarrow> utf8_cont c" for b c
    by (auto simp: utf8_second3_def utf8_second4_def utf8_cont_def split: if_splits
        simp: word_le_nat_alt)
  have "i < 4" using st i Cons by (auto split: list.splits if_splits)
  with i have "i = 1 \<or> i = 2 \<or> i = 3" by auto
  with st i Cons show ?thesis
    by (auto split: list.splits if_splits intro: sec)
qed simp

text \<open>Cutting valid text at a char boundary leaves valid text.\<close>

lemma utf8_valid_take:
  "utf8_valid s \<Longrightarrow> is_char_boundary s i \<Longrightarrow> utf8_valid (take i s)"
proof (induction s arbitrary: i rule: utf8_valid.induct)
  case (1 s)
  show ?case
  proof (cases "s = [] \<or> i = 0")
    case True
    then show ?thesis by auto
  next
    case False
    obtain ok n where st: "utf8_step s = (ok, n)" by (cases "utf8_step s")
    from "1.prems"(1) False st have ok: "ok" and v: "utf8_valid (drop n s)"
      by (simp_all add: utf8_valid.simps [of s])
    have n: "0 < n" "n \<le> length s"
      using utf8_step_pos [of s] utf8_step_le [OF st] st False by auto
    have ge: "n \<le> i"
    proof (rule ccontr)
      assume "\<not> n \<le> i"
      with ok st False have "utf8_cont (s ! i)" by (intro utf8_step_conts) auto
      with "1.prems"(2) False n \<open>\<not> n \<le> i\<close> show False by (auto simp: is_char_boundary_def)
    qed
    have "is_char_boundary (drop n s) (i - n)"
      using "1.prems"(2) ge n by (auto simp: is_char_boundary_def)
    with "1.IH" [OF _ st [symmetric] v] False have IH: "utf8_valid (take (i - n) (drop n s))"
      by simp
    have "take i s = take n s @ take (i - n) (drop n s)"
      using ge by (metis le_add_diff_inverse take_add)
    moreover have "utf8_valid (take n s @ cs) = utf8_valid cs" for cs
      using ok st False n
      by (intro utf8_valid_append_char [where n = n]) (auto simp: utf8_step_take)
    ultimately show ?thesis using IH by simp
  qed
qed

end
