(* ===== verification/Control.thy ===== *)
theory Control
  imports Varint Utf8
begin

text \<open>
  \<open>crates/logit-proto/src/native/control.rs\<close>: the messages of the \<open>logit_in\<close>/\<open>logit_out\<close>
  handshake and of acknowledgement. A message is its type byte and TLV fields; a missing, a
  repeated or an unknown field is an error. Text (\<open>String\<close>) is its UTF-8 bytes.
\<close>

definition PROTOCOL_VERSION :: u16 where "PROTOCOL_VERSION = 1"
definition REJECT_VERSION_MISMATCH :: u16 where "REJECT_VERSION_MISMATCH = 1"
definition REJECT_NO_COMMON_CODEC :: u16 where "REJECT_NO_COMMON_CODEC = 2"
definition REJECT_FRAME_TOO_LARGE :: u16 where "REJECT_FRAME_TOO_LARGE = 3"
definition REJECT_GOING_AWAY :: u16 where "REJECT_GOING_AWAY = 4"
definition REJECT_INTERNAL :: u16 where "REJECT_INTERNAL = 5"
definition MAX_REJECT_MESSAGE_BYTES :: nat where "MAX_REJECT_MESSAGE_BYTES = 1024"
definition MAX_CHOICE_LIST_ENTRIES :: nat where "MAX_CHOICE_LIST_ENTRIES = 16"
definition MAX_HELLO_SENDERS :: nat where "MAX_HELLO_SENDERS = 16"
definition SENDER_ID_BYTES :: nat where "SENDER_ID_BYTES = 16"
definition MARK_ENTRY_BYTES :: nat where "MARK_ENTRY_BYTES = SENDER_ID_BYTES + 8"
definition MAX_CONTROL_MESSAGE_BYTES :: nat where "MAX_CONTROL_MESSAGE_BYTES = 4096"
definition MSG_HELLO :: u8 where "MSG_HELLO = 1"
definition MSG_HELLO_ACK :: u8 where "MSG_HELLO_ACK = 2"
definition MSG_ACK :: u8 where "MSG_ACK = 3"
definition MSG_REJECT :: u8 where "MSG_REJECT = 4"

lemmas message_types = MSG_HELLO_def MSG_HELLO_ACK_def MSG_ACK_def MSG_REJECT_def

section \<open>Field helpers\<close>

definition control_field :: "u8 \<Rightarrow> bytes \<Rightarrow> bytes" where
  "control_field tag tmp = tag # write_len (length tmp) @ tmp"

definition write_u16 :: "u8 \<Rightarrow> u16 \<Rightarrow> bytes" where
  "write_u16 tag v = control_field tag (write_uvarint (ucast v))"

definition write_u32 :: "u8 \<Rightarrow> u32 \<Rightarrow> bytes" where
  "write_u32 tag v = control_field tag (write_uvarint (ucast v))"

definition read_field :: "bytes \<Rightarrow> ((u8 \<times> bytes) option \<times> bytes) result" where
  "read_field body =
     (if body = [] then Inr (None, body)
      else
        bnd (read_u8 body) (\<lambda>(tag, body).
        bnd (read_len body) (\<lambda>(len, body).
        bnd (split_to (Malformed ''control field declares more bytes than remain'') len body)
          (\<lambda>(field, body).
        Inr (Some (tag, field), body)))))"

lemma read_field_shorter:
  "read_field body = Inr (Some x, rest) \<Longrightarrow> length rest < length body"
  by (auto simp: read_field_def split_to_eq_Inr split: if_splits
      dest!: read_u8_shorter read_len_shorter)

text \<open>\<open>while let Some((tag, field)) = read_field(&mut body)?\<close>.\<close>

function control_fields :: "('s \<Rightarrow> u8 \<Rightarrow> bytes \<Rightarrow> 's result) \<Rightarrow> 's \<Rightarrow> bytes \<Rightarrow> 's result" where
  "control_fields visit s body =
     bnd (read_field body) (\<lambda>(x, rest).
     case x of
       None \<Rightarrow> Inr s
     | Some (tag, field) \<Rightarrow> bnd (visit s tag field) (\<lambda>s. control_fields visit s rest))"
  by pat_completeness auto
termination
  by (relation "measure (\<lambda>(visit, s, body). length body)") (auto dest: read_field_shorter)

declare control_fields.simps [simp del]

text \<open>The integer a field holds; what follows the varint in it is not looked at.\<close>

definition read_u16_field :: "bytes \<Rightarrow> u16 result" where
  "read_u16_field field =
     bnd (read_uvarint field) (\<lambda>(v, field).
     if unat v < 2 ^ 16 then Inr (ucast v) else Inl (Malformed ''field value doesn't fit u16''))"

definition read_u32_field :: "bytes \<Rightarrow> u32 result" where
  "read_u32_field field =
     bnd (read_uvarint field) (\<lambda>(v, field).
     if unat v < 2 ^ 32 then Inr (ucast v) else Inl (Malformed ''field value doesn't fit u32''))"

definition set_once ::
    "string \<Rightarrow> ('s \<Rightarrow> 'a option) \<Rightarrow> (('a option \<Rightarrow> 'a option) \<Rightarrow> 's \<Rightarrow> 's) \<Rightarrow> 's \<Rightarrow> 'a \<Rightarrow> 's result" where
  "set_once msg slot upd s v =
     (if slot s \<noteq> None then Inl (Malformed msg) else Inr (upd (\<lambda>_. Some v) s))"

definition required :: "string \<Rightarrow> 'a option \<Rightarrow> 'a result" where
  "required msg slot = (case slot of Some v \<Rightarrow> Inr v | None \<Rightarrow> Inl (Malformed msg))"

text \<open>\<open>truncate_to_cap\<close>: step back from the cap to a character boundary; 0 is one.\<close>

fun boundary_below :: "bytes \<Rightarrow> nat \<Rightarrow> nat" where
  "boundary_below text 0 = 0"
| "boundary_below text (Suc n) =
     (if is_char_boundary text (Suc n) then Suc n else boundary_below text n)"

definition truncate_to_cap :: "bytes \<Rightarrow> bytes" where
  "truncate_to_cap text = take (boundary_below text (min (length text) MAX_REJECT_MESSAGE_BYTES)) text"

definition read_message_field :: "bytes \<Rightarrow> bytes result" where
  "read_message_field field =
     bnd (reject_if (length field > MAX_REJECT_MESSAGE_BYTES)
            (Malformed ''message is over the sanity cap'')) (\<lambda>_.
     Inr (truncate_to_cap (from_utf8_lossy field)))"

definition read_window_field :: "bytes \<Rightarrow> u32 result" where
  "read_window_field field =
     bnd (read_u32_field field) (\<lambda>window.
     bnd (reject_if (window = 0) (Malformed ''window is 0; it must be at least 1'')) (\<lambda>_.
     Inr window))"

text \<open>\<open>field.as_chunks::<n>()\<close>.\<close>

definition chunks :: "nat \<Rightarrow> bytes \<Rightarrow> bytes list" where
  "chunks n bs = map (\<lambda>i. take n (drop (i * n) bs)) [0..<length bs div n]"

definition read_senders_field :: "bytes \<Rightarrow> bytes list result" where
  "read_senders_field field =
     bnd (reject_if (length field mod SENDER_ID_BYTES \<noteq> 0)
            (Malformed ''Hello.senders is not a multiple of the id width'')) (\<lambda>_.
     bnd (reject_if (length field div SENDER_ID_BYTES > MAX_HELLO_SENDERS)
            (Malformed ''Hello.senders is over the cap'')) (\<lambda>_.
     Inr (chunks SENDER_ID_BYTES field)))"

definition read_marks_field :: "bytes \<Rightarrow> (bytes \<times> u64) list result" where
  "read_marks_field field =
     bnd (reject_if (length field mod MARK_ENTRY_BYTES \<noteq> 0)
            (Malformed ''HelloAck.marks is not a multiple of the entry width'')) (\<lambda>_.
     bnd (reject_if (length field div MARK_ENTRY_BYTES > MAX_HELLO_SENDERS)
            (Malformed ''HelloAck.marks is over the cap'')) (\<lambda>_.
     Inr (map (\<lambda>entry. (take SENDER_ID_BYTES entry, from_be_bytes (drop SENDER_ID_BYTES entry)))
            (chunks MARK_ENTRY_BYTES field))))"

definition read_choice_list :: "bytes \<Rightarrow> bytes result" where
  "read_choice_list field =
     bnd (reject_if (length field > MAX_CHOICE_LIST_ENTRIES)
            (Malformed ''declares entries over the sanity cap'')) (\<lambda>_.
     Inr field)"

section \<open>Hello\<close>

record hello =
  h_version :: u16
  h_codecs :: bytes
  h_compressions :: bytes
  h_max_frame_bytes :: u32
  h_window :: u32
  h_senders :: "bytes list"

definition HELLO_FIELD_VERSION :: u8 where "HELLO_FIELD_VERSION = 1"
definition HELLO_FIELD_CODECS :: u8 where "HELLO_FIELD_CODECS = 2"
definition HELLO_FIELD_COMPRESSIONS :: u8 where "HELLO_FIELD_COMPRESSIONS = 3"
definition HELLO_FIELD_MAX_FRAME_BYTES :: u8 where "HELLO_FIELD_MAX_FRAME_BYTES = 4"
definition HELLO_FIELD_WINDOW :: u8 where "HELLO_FIELD_WINDOW = 5"
definition HELLO_FIELD_SENDERS :: u8 where "HELLO_FIELD_SENDERS = 6"

lemmas hello_tags = HELLO_FIELD_VERSION_def HELLO_FIELD_CODECS_def HELLO_FIELD_COMPRESSIONS_def
  HELLO_FIELD_MAX_FRAME_BYTES_def HELLO_FIELD_WINDOW_def HELLO_FIELD_SENDERS_def

definition hello_encode :: "hello \<Rightarrow> bytes" where
  "hello_encode m =
     [MSG_HELLO] @ write_u16 HELLO_FIELD_VERSION (h_version m) @
     control_field HELLO_FIELD_CODECS (h_codecs m) @
     control_field HELLO_FIELD_COMPRESSIONS (h_compressions m) @
     write_u32 HELLO_FIELD_MAX_FRAME_BYTES (h_max_frame_bytes m) @
     write_u32 HELLO_FIELD_WINDOW (h_window m) @
     control_field HELLO_FIELD_SENDERS (concat (h_senders m))"

record hello_slots =
  hs_version :: "u16 option"
  hs_codecs :: "bytes option"
  hs_compressions :: "bytes option"
  hs_max_frame_bytes :: "u32 option"
  hs_window :: "u32 option"
  hs_senders :: "bytes list option"

definition visit_hello :: "hello_slots \<Rightarrow> u8 \<Rightarrow> bytes \<Rightarrow> hello_slots result" where
  "visit_hello s tag field =
     (if tag = HELLO_FIELD_VERSION then
        bnd (read_u16_field field) (set_once ''Hello repeats version'' hs_version hs_version_update s)
      else if tag = HELLO_FIELD_CODECS then
        bnd (read_choice_list field) (set_once ''Hello repeats codecs'' hs_codecs hs_codecs_update s)
      else if tag = HELLO_FIELD_COMPRESSIONS then
        bnd (read_choice_list field)
          (set_once ''Hello repeats compressions'' hs_compressions hs_compressions_update s)
      else if tag = HELLO_FIELD_MAX_FRAME_BYTES then
        bnd (read_u32_field field)
          (set_once ''Hello repeats max_frame_bytes'' hs_max_frame_bytes hs_max_frame_bytes_update s)
      else if tag = HELLO_FIELD_WINDOW then
        bnd (read_window_field field) (set_once ''Hello repeats window'' hs_window hs_window_update s)
      else if tag = HELLO_FIELD_SENDERS then
        bnd (read_senders_field field)
          (set_once ''Hello repeats senders'' hs_senders hs_senders_update s)
      else Inl (Malformed ''Hello has an unknown field tag''))"

definition hello_slots_empty :: hello_slots where
  "hello_slots_empty = \<lparr>hs_version = None, hs_codecs = None, hs_compressions = None,
     hs_max_frame_bytes = None, hs_window = None, hs_senders = None\<rparr>"

definition hello_decode_fields :: "bytes \<Rightarrow> hello result" where
  "hello_decode_fields body =
     bnd (control_fields visit_hello hello_slots_empty body) (\<lambda>s.
     bnd (required ''Hello is missing version'' (hs_version s)) (\<lambda>version.
     bnd (required ''Hello is missing codecs'' (hs_codecs s)) (\<lambda>codecs.
     bnd (required ''Hello is missing compressions'' (hs_compressions s)) (\<lambda>compressions.
     bnd (required ''Hello is missing max_frame_bytes'' (hs_max_frame_bytes s)) (\<lambda>max_frame_bytes.
     bnd (required ''Hello is missing window'' (hs_window s)) (\<lambda>window.
     bnd (required ''Hello is missing senders'' (hs_senders s)) (\<lambda>senders.
     Inr \<lparr>h_version = version, h_codecs = codecs, h_compressions = compressions,
           h_max_frame_bytes = max_frame_bytes, h_window = window, h_senders = senders\<rparr>)))))))"

section \<open>HelloAck\<close>

record hello_ack =
  ha_version :: u16
  ha_codec :: u8
  ha_compression :: u8
  ha_max_frame_bytes :: u32
  ha_window :: u32
  ha_marks :: "(bytes \<times> u64) list"

definition HELLO_ACK_FIELD_VERSION :: u8 where "HELLO_ACK_FIELD_VERSION = 1"
definition HELLO_ACK_FIELD_CODEC :: u8 where "HELLO_ACK_FIELD_CODEC = 2"
definition HELLO_ACK_FIELD_COMPRESSION :: u8 where "HELLO_ACK_FIELD_COMPRESSION = 3"
definition HELLO_ACK_FIELD_MAX_FRAME_BYTES :: u8 where "HELLO_ACK_FIELD_MAX_FRAME_BYTES = 4"
definition HELLO_ACK_FIELD_WINDOW :: u8 where "HELLO_ACK_FIELD_WINDOW = 5"
definition HELLO_ACK_FIELD_MARKS :: u8 where "HELLO_ACK_FIELD_MARKS = 6"

lemmas hello_ack_tags = HELLO_ACK_FIELD_VERSION_def HELLO_ACK_FIELD_CODEC_def
  HELLO_ACK_FIELD_COMPRESSION_def HELLO_ACK_FIELD_MAX_FRAME_BYTES_def HELLO_ACK_FIELD_WINDOW_def
  HELLO_ACK_FIELD_MARKS_def

definition write_mark :: "bytes \<times> u64 \<Rightarrow> bytes" where
  "write_mark = (\<lambda>(i, mark). i @ be_bytes 8 mark)"

definition hello_ack_encode :: "hello_ack \<Rightarrow> bytes" where
  "hello_ack_encode m =
     [MSG_HELLO_ACK] @ write_u16 HELLO_ACK_FIELD_VERSION (ha_version m) @
     control_field HELLO_ACK_FIELD_CODEC [ha_codec m] @
     control_field HELLO_ACK_FIELD_COMPRESSION [ha_compression m] @
     write_u32 HELLO_ACK_FIELD_MAX_FRAME_BYTES (ha_max_frame_bytes m) @
     write_u32 HELLO_ACK_FIELD_WINDOW (ha_window m) @
     control_field HELLO_ACK_FIELD_MARKS (concat (map write_mark (ha_marks m)))"

record hello_ack_slots =
  has_version :: "u16 option"
  has_codec :: "u8 option"
  has_compression :: "u8 option"
  has_max_frame_bytes :: "u32 option"
  has_window :: "u32 option"
  has_marks :: "(bytes \<times> u64) list option"

text \<open>\<open>read_u8(&mut field)?\<close>: the rest of the field is dropped with it.\<close>

definition read_u8_field :: "bytes \<Rightarrow> u8 result" where
  "read_u8_field field = bnd (read_u8 field) (\<lambda>(v, field). Inr v)"

definition visit_hello_ack :: "hello_ack_slots \<Rightarrow> u8 \<Rightarrow> bytes \<Rightarrow> hello_ack_slots result" where
  "visit_hello_ack s tag field =
     (if tag = HELLO_ACK_FIELD_VERSION then
        bnd (read_u16_field field)
          (set_once ''HelloAck repeats version'' has_version has_version_update s)
      else if tag = HELLO_ACK_FIELD_CODEC then
        bnd (read_u8_field field) (set_once ''HelloAck repeats codec'' has_codec has_codec_update s)
      else if tag = HELLO_ACK_FIELD_COMPRESSION then
        bnd (read_u8_field field)
          (set_once ''HelloAck repeats compression'' has_compression has_compression_update s)
      else if tag = HELLO_ACK_FIELD_MAX_FRAME_BYTES then
        bnd (read_u32_field field)
          (set_once ''HelloAck repeats max_frame_bytes'' has_max_frame_bytes
             has_max_frame_bytes_update s)
      else if tag = HELLO_ACK_FIELD_WINDOW then
        bnd (read_window_field field)
          (set_once ''HelloAck repeats window'' has_window has_window_update s)
      else if tag = HELLO_ACK_FIELD_MARKS then
        bnd (read_marks_field field)
          (set_once ''HelloAck repeats marks'' has_marks has_marks_update s)
      else Inl (Malformed ''HelloAck has an unknown field tag''))"

definition hello_ack_slots_empty :: hello_ack_slots where
  "hello_ack_slots_empty = \<lparr>has_version = None, has_codec = None, has_compression = None,
     has_max_frame_bytes = None, has_window = None, has_marks = None\<rparr>"

definition hello_ack_decode_fields :: "bytes \<Rightarrow> hello_ack result" where
  "hello_ack_decode_fields body =
     bnd (control_fields visit_hello_ack hello_ack_slots_empty body) (\<lambda>s.
     bnd (required ''HelloAck is missing version'' (has_version s)) (\<lambda>version.
     bnd (required ''HelloAck is missing codec'' (has_codec s)) (\<lambda>codec.
     bnd (required ''HelloAck is missing compression'' (has_compression s)) (\<lambda>compression.
     bnd (required ''HelloAck is missing max_frame_bytes'' (has_max_frame_bytes s))
       (\<lambda>max_frame_bytes.
     bnd (required ''HelloAck is missing window'' (has_window s)) (\<lambda>window.
     bnd (required ''HelloAck is missing marks'' (has_marks s)) (\<lambda>marks.
     Inr \<lparr>ha_version = version, ha_codec = codec, ha_compression = compression,
           ha_max_frame_bytes = max_frame_bytes, ha_window = window, ha_marks = marks\<rparr>)))))))"

section \<open>Ack\<close>

datatype ack_status =
    Accepted
  | Rejected u16 "bytes option"

record ack =
  ack_id :: bytes
  ack_seq :: u64
  ack_status :: ack_status

definition ACK_REJECTED_TOO_LARGE :: u16 where "ACK_REJECTED_TOO_LARGE = 1"
definition ACK_REJECTED_DECODE_BUDGET :: u16 where "ACK_REJECTED_DECODE_BUDGET = 2"
definition ACK_REJECTED_MALFORMED :: u16 where "ACK_REJECTED_MALFORMED = 3"
definition ACK_FIELD_ID :: u8 where "ACK_FIELD_ID = 1"
definition ACK_FIELD_SEQ :: u8 where "ACK_FIELD_SEQ = 2"
definition ACK_FIELD_STATUS :: u8 where "ACK_FIELD_STATUS = 3"
definition ACK_FIELD_REASON :: u8 where "ACK_FIELD_REASON = 4"
definition ACK_FIELD_MESSAGE :: u8 where "ACK_FIELD_MESSAGE = 5"
definition ACK_STATUS_ACCEPTED :: u8 where "ACK_STATUS_ACCEPTED = 0"
definition ACK_STATUS_REJECTED :: u8 where "ACK_STATUS_REJECTED = 1"

lemmas ack_tags = ACK_FIELD_ID_def ACK_FIELD_SEQ_def ACK_FIELD_STATUS_def ACK_FIELD_REASON_def
  ACK_FIELD_MESSAGE_def ACK_STATUS_ACCEPTED_def ACK_STATUS_REJECTED_def

definition ack_status_rejected :: "u16 \<Rightarrow> bytes \<Rightarrow> ack_status" where
  "ack_status_rejected reason message = Rejected reason (Some (truncate_to_cap message))"

definition ack_accepted :: "bytes \<Rightarrow> u64 \<Rightarrow> ack" where
  "ack_accepted i seq = \<lparr>ack_id = i, ack_seq = seq, ack_status = Accepted\<rparr>"

definition ack_encode :: "ack \<Rightarrow> bytes" where
  "ack_encode m =
     [MSG_ACK] @ control_field ACK_FIELD_ID (ack_id m) @
     control_field ACK_FIELD_SEQ (write_uvarint (ack_seq m)) @
     (case ack_status m of
        Accepted \<Rightarrow> control_field ACK_FIELD_STATUS [ACK_STATUS_ACCEPTED]
      | Rejected reason message \<Rightarrow>
          control_field ACK_FIELD_STATUS [ACK_STATUS_REJECTED] @
          write_u16 ACK_FIELD_REASON reason @
          (case message of Some text \<Rightarrow> control_field ACK_FIELD_MESSAGE text | None \<Rightarrow> []))"

record ack_slots =
  as_id :: "bytes option"
  as_seq :: "u64 option"
  as_status :: "u8 option"
  as_reason :: "u16 option"
  as_message :: "bytes option"

definition read_ack_id :: "bytes \<Rightarrow> bytes result" where
  "read_ack_id field =
     bnd (reject_if (length field \<noteq> SENDER_ID_BYTES) (Malformed ''Ack.id has another length''))
       (\<lambda>_. Inr field)"

definition read_ack_seq :: "bytes \<Rightarrow> u64 result" where
  "read_ack_seq field =
     bnd (read_uvarint field) (\<lambda>(v, field).
     bnd (reject_if (v = 0) (Malformed ''Ack.seq is 0'')) (\<lambda>_. Inr v))"

definition read_ack_status :: "bytes \<Rightarrow> u8 result" where
  "read_ack_status field =
     (if field = [ACK_STATUS_ACCEPTED] then Inr ACK_STATUS_ACCEPTED
      else if field = [ACK_STATUS_REJECTED] then Inr ACK_STATUS_REJECTED
      else Inl (Malformed ''Ack.status is not one byte of 0 or 1''))"

definition visit_ack :: "ack_slots \<Rightarrow> u8 \<Rightarrow> bytes \<Rightarrow> ack_slots result" where
  "visit_ack s tag field =
     (if tag = ACK_FIELD_ID then
        bnd (read_ack_id field) (set_once ''Ack repeats id'' as_id as_id_update s)
      else if tag = ACK_FIELD_SEQ then
        bnd (read_ack_seq field) (set_once ''Ack repeats seq'' as_seq as_seq_update s)
      else if tag = ACK_FIELD_STATUS then
        bnd (read_ack_status field) (set_once ''Ack repeats status'' as_status as_status_update s)
      else if tag = ACK_FIELD_REASON then
        bnd (read_u16_field field) (set_once ''Ack repeats reason'' as_reason as_reason_update s)
      else if tag = ACK_FIELD_MESSAGE then
        bnd (read_message_field field)
          (set_once ''Ack repeats message'' as_message as_message_update s)
      else Inl (Malformed ''Ack has an unknown field tag''))"

definition ack_slots_empty :: ack_slots where
  "ack_slots_empty = \<lparr>as_id = None, as_seq = None, as_status = None, as_reason = None,
     as_message = None\<rparr>"

definition ack_decode_fields :: "bytes \<Rightarrow> ack result" where
  "ack_decode_fields body =
     bnd (control_fields visit_ack ack_slots_empty body) (\<lambda>s.
     bnd (required ''Ack is missing id'' (as_id s)) (\<lambda>i.
     bnd (required ''Ack is missing seq'' (as_seq s)) (\<lambda>seq.
     bnd (required ''Ack is missing status'' (as_status s)) (\<lambda>status.
     bnd (if status = ACK_STATUS_ACCEPTED then
            bnd (reject_if (as_reason s \<noteq> None \<or> as_message s \<noteq> None)
                   (Malformed ''an accepted Ack carries a reason or a message'')) (\<lambda>_.
            Inr Accepted)
          else
            bnd (required ''Ack is missing reason'' (as_reason s)) (\<lambda>reason.
            Inr (Rejected reason (as_message s)))) (\<lambda>status.
     Inr \<lparr>ack_id = i, ack_seq = seq, ack_status = status\<rparr>)))))"

section \<open>Reject\<close>

record reject =
  rj_code :: u16
  rj_message :: bytes

definition REJECT_FIELD_CODE :: u8 where "REJECT_FIELD_CODE = 1"
definition REJECT_FIELD_MESSAGE :: u8 where "REJECT_FIELD_MESSAGE = 2"

definition reject_encode :: "reject \<Rightarrow> bytes" where
  "reject_encode m =
     [MSG_REJECT] @ write_u16 REJECT_FIELD_CODE (rj_code m) @
     control_field REJECT_FIELD_MESSAGE (rj_message m)"

record reject_slots =
  rs_code :: "u16 option"
  rs_message :: "bytes option"

definition visit_reject :: "reject_slots \<Rightarrow> u8 \<Rightarrow> bytes \<Rightarrow> reject_slots result" where
  "visit_reject s tag field =
     (if tag = REJECT_FIELD_CODE then
        bnd (read_u16_field field) (set_once ''Reject repeats code'' rs_code rs_code_update s)
      else if tag = REJECT_FIELD_MESSAGE then
        bnd (read_message_field field)
          (set_once ''Reject repeats message'' rs_message rs_message_update s)
      else Inl (Malformed ''Reject has an unknown field tag''))"

definition reject_decode_fields :: "bytes \<Rightarrow> reject result" where
  "reject_decode_fields body =
     bnd (control_fields visit_reject \<lparr>rs_code = None, rs_message = None\<rparr> body) (\<lambda>s.
     bnd (required ''Reject is missing code'' (rs_code s)) (\<lambda>code.
     bnd (required ''Reject is missing message'' (rs_message s)) (\<lambda>message.
     Inr \<lparr>rj_code = code, rj_message = message\<rparr>)))"

section \<open>Dispatch\<close>

datatype control_message =
    CM_Hello hello
  | CM_HelloAck hello_ack
  | CM_Ack ack
  | CM_Reject reject

fun control_encode :: "control_message \<Rightarrow> bytes" where
  "control_encode (CM_Hello m) = hello_encode m"
| "control_encode (CM_HelloAck m) = hello_ack_encode m"
| "control_encode (CM_Ack m) = ack_encode m"
| "control_encode (CM_Reject m) = reject_encode m"

definition control_decode :: "bytes \<Rightarrow> control_message result" where
  "control_decode bytes =
     bnd (read_u8 bytes) (\<lambda>(msg_type, body).
     if msg_type = MSG_HELLO then bnd (hello_decode_fields body) (\<lambda>m. Inr (CM_Hello m))
     else if msg_type = MSG_HELLO_ACK then
       bnd (hello_ack_decode_fields body) (\<lambda>m. Inr (CM_HelloAck m))
     else if msg_type = MSG_ACK then bnd (ack_decode_fields body) (\<lambda>m. Inr (CM_Ack m))
     else if msg_type = MSG_REJECT then bnd (reject_decode_fields body) (\<lambda>m. Inr (CM_Reject m))
     else Inl (Malformed ''unknown control message type''))"

text \<open>\<open>expect_msg_type\<close> and the four typed \<open>decode\<close>s.\<close>

definition expect_msg_type :: "bytes \<Rightarrow> u8 \<Rightarrow> bytes result" where
  "expect_msg_type bytes expected =
     bnd (read_u8 bytes) (\<lambda>(msg_type, bytes).
     bnd (reject_if (msg_type \<noteq> expected) (Malformed ''expected another control message'')) (\<lambda>_.
     Inr bytes))"

definition hello_decode :: "bytes \<Rightarrow> hello result" where
  "hello_decode bytes = bnd (expect_msg_type bytes MSG_HELLO) hello_decode_fields"

definition hello_ack_decode :: "bytes \<Rightarrow> hello_ack result" where
  "hello_ack_decode bytes = bnd (expect_msg_type bytes MSG_HELLO_ACK) hello_ack_decode_fields"

definition ack_decode :: "bytes \<Rightarrow> ack result" where
  "ack_decode bytes = bnd (expect_msg_type bytes MSG_ACK) ack_decode_fields"

definition reject_decode :: "bytes \<Rightarrow> reject result" where
  "reject_decode bytes = bnd (expect_msg_type bytes MSG_REJECT) reject_decode_fields"

section \<open>Fields read back\<close>

lemma control_fields_Nil [simp]: "control_fields visit s [] = Inr s"
  by (simp add: control_fields.simps read_field_def)

lemma control_fields_step:
  assumes "length p < 2 ^ 64"
  shows "control_fields visit s (control_field tag p @ rest) =
    bnd (visit s tag p) (\<lambda>s. control_fields visit s rest)"
  using assms by (subst control_fields.simps) (simp add: read_field_def control_field_def)

lemma control_fields_last:
  "length p < 2 ^ 64 \<Longrightarrow> control_fields visit s (control_field tag p) = visit s tag p"
  using control_fields_step [of p visit s tag "[]"] by (cases "visit s tag p") simp_all

lemma set_once_simps [simp]:
  "slot s = None \<Longrightarrow> set_once msg slot upd s v = Inr (upd (\<lambda>_. Some v) s)"
  "set_once msg slot upd s v = Inr s' \<longleftrightarrow> slot s = None \<and> s' = upd (\<lambda>_. Some v) s"
  by (auto simp: set_once_def)

lemma required_simps [simp]: "required msg (Some v) = Inr v" "required msg None = Inl (Malformed msg)"
  by (simp_all add: required_def)

lemma read_u16_written [simp]: "read_u16_field (write_uvarint (ucast v)) = Inr v"
proof -
  have "unat v < 2 ^ 16" by (rule order_less_le_trans [OF unsigned_less]) simp
  then have "unat (ucast v :: u64) < 2 ^ 16"
    by (simp add: unsigned_ucast_eq take_bit_nat_eq_self)
  moreover have "(ucast (ucast v :: u64) :: u16) = v"
    by (rule bit_word_eqI) (simp add: bit_ucast_iff)
  ultimately show ?thesis by (simp add: read_u16_field_def)
qed

lemma read_u32_written [simp]: "read_u32_field (write_uvarint (ucast v)) = Inr v"
proof -
  have "unat v < 2 ^ 32" by (rule order_less_le_trans [OF unsigned_less]) simp
  then have "unat (ucast v :: u64) < 2 ^ 32"
    by (simp add: unsigned_ucast_eq take_bit_nat_eq_self)
  moreover have "(ucast (ucast v :: u64) :: u32) = v"
    by (rule bit_word_eqI) (simp add: bit_ucast_iff)
  ultimately show ?thesis by (simp add: read_u32_field_def)
qed

lemma length_uvarint_small: "length (write_uvarint v) < 2 ^ 64"
  using uvarint_len_bounds(2) [of v] by (simp add: uvarint_len_eq)

lemma drop_concat_chunks:
  assumes "\<forall>x \<in> set xs. length x = n" and "i < length xs"
  shows "take n (drop (i * n) (concat xs)) = xs ! i"
  using assms
proof (induction xs arbitrary: i)
  case (Cons x xs)
  then show ?case by (cases i) auto
qed simp

lemma length_concat_chunks: "\<forall>x \<in> set xs. length x = n \<Longrightarrow> length (concat xs) = length xs * n"
  by (induction xs) auto

lemma chunks_concat:
  assumes "\<forall>x \<in> set xs. length x = n" and "0 < n"
  shows "chunks n (concat xs) = xs"
proof (rule nth_equalityI)
  have len: "length (concat xs) div n = length xs"
    using assms by (simp only: length_concat_chunks) simp
  then show "length (chunks n (concat xs)) = length xs" by (simp add: chunks_def)
  show "chunks n (concat xs) ! i = xs ! i" if "i < length (chunks n (concat xs))" for i
    using that drop_concat_chunks [OF assms(1)] by (simp add: chunks_def len)
qed

lemma read_senders_written:
  assumes "\<forall>i \<in> set ids. length i = SENDER_ID_BYTES" and "length ids \<le> MAX_HELLO_SENDERS"
  shows "read_senders_field (concat ids) = Inr ids"
  using assms chunks_concat [OF assms(1)] length_concat_chunks [OF assms(1)]
  by (simp add: read_senders_field_def SENDER_ID_BYTES_def del: length_concat)

lemma read_marks_written:
  assumes "\<forall>(i, m) \<in> set marks. length i = SENDER_ID_BYTES" and "length marks \<le> MAX_HELLO_SENDERS"
  shows "read_marks_field (concat (map write_mark marks)) = Inr marks"
proof -
  have len: "\<forall>x \<in> set (map write_mark marks). length x = MARK_ENTRY_BYTES"
    using assms(1) by (auto simp: write_mark_def MARK_ENTRY_BYTES_def)
  have "(take SENDER_ID_BYTES (write_mark x), from_be_bytes (drop SENDER_ID_BYTES (write_mark x))) = x"
    if "x \<in> set marks" for x
    using assms(1) that by (cases x) (auto simp: write_mark_def from_be_bytes_be_bytes)
  then have "map (\<lambda>e. (take SENDER_ID_BYTES e, from_be_bytes (drop SENDER_ID_BYTES e)))
      (map write_mark marks) = marks"
    by (simp add: map_idI comp_def)
  with assms(2) chunks_concat [OF len] length_concat_chunks [OF len] show ?thesis
    by (simp add: read_marks_field_def MARK_ENTRY_BYTES_def SENDER_ID_BYTES_def del: length_concat)
qed

text \<open>A message field: always UTF-8 and within the cap, and untouched when it already was.\<close>

lemma boundary_below_le: "boundary_below t n \<le> n"
  by (induction n) (auto intro: le_SucI)

lemma boundary_below_boundary: "is_char_boundary t (boundary_below t n)"
  by (induction n) (simp_all add: is_char_boundary_def)

lemma length_truncate_to_cap: "length (truncate_to_cap t) \<le> MAX_REJECT_MESSAGE_BYTES"
  using boundary_below_le [of t "min (length t) MAX_REJECT_MESSAGE_BYTES"]
  by (simp add: truncate_to_cap_def)

lemma truncate_to_cap_valid: "utf8_valid t \<Longrightarrow> utf8_valid (truncate_to_cap t)"
  unfolding truncate_to_cap_def by (simp add: utf8_valid_take boundary_below_boundary)

lemma truncate_to_cap_short:
  "length t \<le> MAX_REJECT_MESSAGE_BYTES \<Longrightarrow> truncate_to_cap t = t"
  by (cases "length t") (simp_all add: truncate_to_cap_def is_char_boundary_def)

definition text_ok :: "bytes \<Rightarrow> bool" where
  "text_ok t \<longleftrightarrow> utf8_valid t \<and> length t \<le> MAX_REJECT_MESSAGE_BYTES"

lemma read_message_written: "text_ok t \<Longrightarrow> read_message_field t = Inr t"
  by (simp add: text_ok_def read_message_field_def from_utf8_lossy_id truncate_to_cap_short)

lemma read_message_ok: "read_message_field field = Inr t \<Longrightarrow> text_ok t"
  by (auto simp: read_message_field_def text_ok_def length_truncate_to_cap truncate_to_cap_valid
      from_utf8_lossy_valid)

section \<open>Round trips\<close>

lemmas control_simps = control_fields_step control_fields_last length_uvarint_small [simplified]

definition hello_ok :: "hello \<Rightarrow> bool" where
  "hello_ok m \<longleftrightarrow> length (h_codecs m) \<le> MAX_CHOICE_LIST_ENTRIES \<and>
     length (h_compressions m) \<le> MAX_CHOICE_LIST_ENTRIES \<and> h_window m \<noteq> 0 \<and>
     (\<forall>i \<in> set (h_senders m). length i = SENDER_ID_BYTES) \<and>
     length (h_senders m) \<le> MAX_HELLO_SENDERS"

lemma hello_decode_fields_written:
  assumes "hello_ok m"
  shows "hello_encode m = MSG_HELLO # tl (hello_encode m)"
    and "hello_decode_fields (tl (hello_encode m)) = Inr m"
proof -
  show "hello_encode m = MSG_HELLO # tl (hello_encode m)" by (simp add: hello_encode_def)
  have small: "length (h_codecs m) < 2 ^ 64" "length (h_compressions m) < 2 ^ 64"
    "length (concat (h_senders m)) < 2 ^ 64"
    using assms length_concat_chunks [of "h_senders m" SENDER_ID_BYTES]
    by (auto simp: hello_ok_def MAX_CHOICE_LIST_ENTRIES_def SENDER_ID_BYTES_def MAX_HELLO_SENDERS_def
        simp del: length_concat)
  have "read_choice_list (h_codecs m) = Inr (h_codecs m)"
    "read_choice_list (h_compressions m) = Inr (h_compressions m)"
    "read_window_field (write_uvarint (ucast (h_window m))) = Inr (h_window m)"
    "read_senders_field (concat (h_senders m)) = Inr (h_senders m)"
    using assms by (simp_all add: hello_ok_def read_choice_list_def read_window_field_def
        read_senders_written)
  with small show "hello_decode_fields (tl (hello_encode m)) = Inr m"
    by (simp add: hello_decode_fields_def hello_encode_def control_simps write_u16_def write_u32_def
        visit_hello_def hello_tags hello_slots_empty_def del: length_concat)
qed

definition hello_ack_ok :: "hello_ack \<Rightarrow> bool" where
  "hello_ack_ok m \<longleftrightarrow> ha_window m \<noteq> 0 \<and> (\<forall>(i, k) \<in> set (ha_marks m). length i = SENDER_ID_BYTES) \<and>
     length (ha_marks m) \<le> MAX_HELLO_SENDERS"

lemma hello_ack_decode_fields_written:
  assumes "hello_ack_ok m"
  shows "hello_ack_encode m = MSG_HELLO_ACK # tl (hello_ack_encode m)"
    and "hello_ack_decode_fields (tl (hello_ack_encode m)) = Inr m"
proof -
  show "hello_ack_encode m = MSG_HELLO_ACK # tl (hello_ack_encode m)"
    by (simp add: hello_ack_encode_def)
  have "\<forall>x \<in> set (map write_mark (ha_marks m)). length x = MARK_ENTRY_BYTES"
    using assms by (auto simp: hello_ack_ok_def write_mark_def MARK_ENTRY_BYTES_def)
  from length_concat_chunks [OF this]
  have small: "length (concat (map write_mark (ha_marks m))) < 2 ^ 64"
    using assms by (simp add: hello_ack_ok_def MAX_HELLO_SENDERS_def MARK_ENTRY_BYTES_def
        SENDER_ID_BYTES_def del: length_concat)
  have "read_window_field (write_uvarint (ucast (ha_window m))) = Inr (ha_window m)"
    "read_marks_field (concat (map write_mark (ha_marks m))) = Inr (ha_marks m)"
    using assms by (simp_all add: hello_ack_ok_def read_window_field_def read_marks_written)
  with small show "hello_ack_decode_fields (tl (hello_ack_encode m)) = Inr m"
    by (simp add: hello_ack_decode_fields_def hello_ack_encode_def control_simps write_u16_def
        write_u32_def visit_hello_ack_def hello_ack_tags hello_ack_slots_empty_def read_u8_field_def
        del: length_concat)
qed

definition ack_ok :: "ack \<Rightarrow> bool" where
  "ack_ok m \<longleftrightarrow> length (ack_id m) = SENDER_ID_BYTES \<and> ack_seq m \<noteq> 0 \<and>
     (case ack_status m of
        Rejected reason (Some t) \<Rightarrow> text_ok t | _ \<Rightarrow> True)"

lemma ack_decode_fields_written:
  assumes "ack_ok m"
  shows "ack_encode m = MSG_ACK # tl (ack_encode m)"
    and "ack_decode_fields (tl (ack_encode m)) = Inr m"
proof -
  show "ack_encode m = MSG_ACK # tl (ack_encode m)" by (simp add: ack_encode_def)
  have "length (ack_id m) < 2 ^ 64" "read_ack_id (ack_id m) = Inr (ack_id m)"
    "read_ack_seq (write_uvarint (ack_seq m)) = Inr (ack_seq m)"
    using assms by (simp_all add: ack_ok_def read_ack_id_def read_ack_seq_def SENDER_ID_BYTES_def)
  moreover have "length t < 2 ^ 64 \<and> read_message_field t = Inr t"
    if "ack_status m = Rejected reason (Some t)" for reason t
    using assms that
    by (simp add: ack_ok_def read_message_written)
      (simp add: text_ok_def MAX_REJECT_MESSAGE_BYTES_def)
  ultimately show "ack_decode_fields (tl (ack_encode m)) = Inr m"
    by (cases "ack_status m"; cases m)
      (auto simp: ack_decode_fields_def ack_encode_def control_simps write_u16_def visit_ack_def
        ack_tags ack_slots_empty_def read_ack_status_def split: option.split)
qed

lemma reject_decode_fields_written:
  assumes "text_ok (rj_message m)"
  shows "reject_encode m = MSG_REJECT # tl (reject_encode m)"
    and "reject_decode_fields (tl (reject_encode m)) = Inr m"
proof -
  show "reject_encode m = MSG_REJECT # tl (reject_encode m)" by (simp add: reject_encode_def)
  have "length (rj_message m) < 2 ^ 64"
    using assms by (simp add: text_ok_def MAX_REJECT_MESSAGE_BYTES_def)
  with read_message_written [OF assms] show "reject_decode_fields (tl (reject_encode m)) = Inr m"
    by (simp add: reject_decode_fields_def reject_encode_def control_simps write_u16_def
        visit_reject_def REJECT_FIELD_CODE_def REJECT_FIELD_MESSAGE_def)
qed

fun message_ok :: "control_message \<Rightarrow> bool" where
  "message_ok (CM_Hello m) = hello_ok m"
| "message_ok (CM_HelloAck m) = hello_ack_ok m"
| "message_ok (CM_Ack m) = ack_ok m"
| "message_ok (CM_Reject m) = text_ok (rj_message m)"

lemma control_decode_dispatch:
  "control_decode (MSG_HELLO # body) = bnd (hello_decode_fields body) (\<lambda>m. Inr (CM_Hello m))"
  "control_decode (MSG_HELLO_ACK # body) = bnd (hello_ack_decode_fields body) (\<lambda>m. Inr (CM_HelloAck m))"
  "control_decode (MSG_ACK # body) = bnd (ack_decode_fields body) (\<lambda>m. Inr (CM_Ack m))"
  "control_decode (MSG_REJECT # body) = bnd (reject_decode_fields body) (\<lambda>m. Inr (CM_Reject m))"
  by (simp_all add: control_decode_def message_types)

lemma control_decode_written:
  assumes "message_ok m"
  shows "control_decode (control_encode m) = Inr m"
proof (cases m)
  case (CM_Hello x)
  with assms have "hello_ok x" by simp
  note w = hello_decode_fields_written [OF this]
  show ?thesis unfolding CM_Hello control_encode.simps
    by (subst w(1)) (simp only: control_decode_dispatch w(2) bnd_simps)
next
  case (CM_HelloAck x)
  with assms have "hello_ack_ok x" by simp
  note w = hello_ack_decode_fields_written [OF this]
  show ?thesis unfolding CM_HelloAck control_encode.simps
    by (subst w(1)) (simp only: control_decode_dispatch w(2) bnd_simps)
next
  case (CM_Ack x)
  with assms have "ack_ok x" by simp
  note w = ack_decode_fields_written [OF this]
  show ?thesis unfolding CM_Ack control_encode.simps
    by (subst w(1)) (simp only: control_decode_dispatch w(2) bnd_simps)
next
  case (CM_Reject x)
  with assms have "text_ok (rj_message x)" by simp
  note w = reject_decode_fields_written [OF this]
  show ?thesis unfolding CM_Reject control_encode.simps
    by (subst w(1)) (simp only: control_decode_dispatch w(2) bnd_simps)
qed

section \<open>What a decoded message satisfies\<close>

text \<open>
  The contract of a field visitor: the slots it fills keep their invariant. The field loop then
  keeps it too, whatever the body holds.
\<close>

locale control_visitor =
  fixes visit :: "'s \<Rightarrow> u8 \<Rightarrow> bytes \<Rightarrow> 's result" and filled :: "'s \<Rightarrow> bool" and empty :: 's
  assumes visit_filled: "filled s \<Longrightarrow> visit s tag field = Inr s' \<Longrightarrow> filled s'"
    and empty_filled: "filled empty"
begin

lemma fields_filled: "filled s \<Longrightarrow> control_fields visit s body = Inr s' \<Longrightarrow> filled s'"
proof (induction body arbitrary: s rule: length_induct)
  case (1 body)
  from 1(3) obtain x rest where x: "read_field body = Inr (x, rest)"
    "(case x of None \<Rightarrow> Inr s
      | Some (tag, field) \<Rightarrow> bnd (visit s tag field) (\<lambda>s. control_fields visit s rest)) = Inr s'"
    by (subst (asm) control_fields.simps) auto
  show ?case
  proof (cases x)
    case (Some f)
    with x read_field_shorter have "length rest < length body" by blast
    with 1(1,2) Some x(2) show ?thesis by (auto split: prod.splits dest: visit_filled)
  qed (use 1(2) x(2) in simp)
qed

lemma body_filled: "control_fields visit empty body = Inr s \<Longrightarrow> filled s"
  by (rule fields_filled [OF empty_filled])

end

lemma length_chunks: "length (chunks n bs) = length bs div n"
  by (simp add: chunks_def)

lemma chunks_length: "x \<in> set (chunks n bs) \<Longrightarrow> length x = n"
proof -
  assume "x \<in> set (chunks n bs)"
  then obtain i where i: "i < length bs div n" "x = take n (drop (i * n) bs)"
    by (auto simp: chunks_def)
  then have "Suc i * n \<le> length bs div n * n" by (intro mult_le_mono1) simp
  also have "\<dots> \<le> length bs" by simp
  finally have "n \<le> length bs - i * n" by simp
  with i show ?thesis by simp
qed

definition senders_ok :: "bytes list \<Rightarrow> bool" where
  "senders_ok ids \<longleftrightarrow> (\<forall>i \<in> set ids. length i = SENDER_ID_BYTES) \<and> length ids \<le> MAX_HELLO_SENDERS"

definition marks_ok :: "(bytes \<times> u64) list \<Rightarrow> bool" where
  "marks_ok marks \<longleftrightarrow> (\<forall>(i, k) \<in> set marks. length i = SENDER_ID_BYTES) \<and>
     length marks \<le> MAX_HELLO_SENDERS"

lemma read_window_ok: "read_window_field field = Inr w \<Longrightarrow> w \<noteq> 0"
  by (auto simp: read_window_field_def)

lemma read_choice_ok: "read_choice_list field = Inr cs \<Longrightarrow> length cs \<le> MAX_CHOICE_LIST_ENTRIES"
  by (auto simp: read_choice_list_def)

lemma read_senders_ok: "read_senders_field field = Inr ids \<Longrightarrow> senders_ok ids"
  by (auto simp: read_senders_field_def senders_ok_def simp flip: length_chunks dest!: chunks_length)

lemma read_marks_ok: "read_marks_field field = Inr marks \<Longrightarrow> marks_ok marks"
  by (auto simp: read_marks_field_def marks_ok_def MARK_ENTRY_BYTES_def simp flip: length_chunks
      dest!: chunks_length)

lemmas field_ok = read_window_ok read_choice_ok read_senders_ok read_marks_ok read_message_ok

definition hello_filled :: "hello_slots \<Rightarrow> bool" where
  "hello_filled s \<longleftrightarrow>
     pred_option (\<lambda>cs. length cs \<le> MAX_CHOICE_LIST_ENTRIES) (hs_codecs s) \<and>
     pred_option (\<lambda>cs. length cs \<le> MAX_CHOICE_LIST_ENTRIES) (hs_compressions s) \<and>
     pred_option (\<lambda>w. w \<noteq> 0) (hs_window s) \<and> pred_option senders_ok (hs_senders s)"

interpretation hello_fields: control_visitor visit_hello hello_filled hello_slots_empty
  by unfold_locales
    (auto simp: visit_hello_def hello_filled_def hello_slots_empty_def split: if_splits dest: field_ok)

definition hello_ack_filled :: "hello_ack_slots \<Rightarrow> bool" where
  "hello_ack_filled s \<longleftrightarrow>
     pred_option (\<lambda>w. w \<noteq> 0) (has_window s) \<and> pred_option marks_ok (has_marks s)"

interpretation hello_ack_fields: control_visitor visit_hello_ack hello_ack_filled hello_ack_slots_empty
  by unfold_locales
    (auto simp: visit_hello_ack_def hello_ack_filled_def hello_ack_slots_empty_def split: if_splits
      dest: field_ok)

definition ack_filled :: "ack_slots \<Rightarrow> bool" where
  "ack_filled s \<longleftrightarrow>
     pred_option (\<lambda>i. length i = SENDER_ID_BYTES) (as_id s) \<and> pred_option (\<lambda>n. n \<noteq> 0) (as_seq s) \<and>
     pred_option text_ok (as_message s)"

interpretation ack_fields: control_visitor visit_ack ack_filled ack_slots_empty
  by unfold_locales
    (auto simp: visit_ack_def ack_filled_def ack_slots_empty_def read_ack_id_def read_ack_seq_def
      split: if_splits dest: field_ok)

interpretation reject_fields: control_visitor visit_reject "\<lambda>s. pred_option text_ok (rs_message s)"
    "\<lparr>rs_code = None, rs_message = None\<rparr>"
  by unfold_locales (auto simp: visit_reject_def split: if_splits dest: field_ok)

lemma required_eq_Inr [simp]: "required msg slot = Inr v \<longleftrightarrow> slot = Some v"
  by (cases slot) simp_all

lemma hello_decode_fields_ok: "hello_decode_fields body = Inr m \<Longrightarrow> hello_ok m"
  by (auto simp: hello_decode_fields_def hello_filled_def hello_ok_def senders_ok_def
      dest!: hello_fields.body_filled)

lemma hello_ack_decode_fields_ok: "hello_ack_decode_fields body = Inr m \<Longrightarrow> hello_ack_ok m"
  by (auto simp: hello_ack_decode_fields_def hello_ack_filled_def hello_ack_ok_def marks_ok_def
      dest!: hello_ack_fields.body_filled)

lemma ack_decode_fields_ok: "ack_decode_fields body = Inr m \<Longrightarrow> ack_ok m"
  by (auto simp: ack_decode_fields_def ack_filled_def ack_ok_def split: if_splits option.splits
      dest!: ack_fields.body_filled)

lemma reject_decode_fields_ok: "reject_decode_fields body = Inr m \<Longrightarrow> text_ok (rj_message m)"
  by (auto simp: reject_decode_fields_def dest!: reject_fields.body_filled)

lemma control_decode_ok: "control_decode bytes = Inr m \<Longrightarrow> message_ok m"
  using hello_decode_fields_ok hello_ack_decode_fields_ok ack_decode_fields_ok
    reject_decode_fields_ok
  by (auto simp: control_decode_def split: if_splits)

section \<open>The longest message\<close>

lemma length_write_len_le: "n < 128 ^ Suc k \<Longrightarrow> length (write_len n) \<le> Suc k"
  by (rule length_uvarint_le) (rule order_le_less_trans [OF _ iffD2], auto simp: unat_of_nat)

lemma length_control_field:
  "length p \<le> n \<Longrightarrow> n < 128 ^ Suc k \<Longrightarrow> length (control_field tag p) \<le> 2 + k + n"
  using length_write_len_le [of "length p" k] by (simp add: control_field_def)

lemma length_write_u16: "length (write_u16 tag v) \<le> 5"
proof -
  have "unat v < 2 ^ 16" by (rule order_less_le_trans [OF unsigned_less]) simp
  then have "length (write_uvarint (ucast v)) \<le> Suc 2"
    by (intro length_uvarint_le) (simp add: unsigned_ucast_eq take_bit_nat_eq_self)
  from length_control_field [OF this, of 0 tag] show ?thesis by (simp add: write_u16_def)
qed

lemma length_write_u32: "length (write_u32 tag v) \<le> 7"
proof -
  have "unat v < 2 ^ 32" by (rule order_less_le_trans [OF unsigned_less]) simp
  then have "length (write_uvarint (ucast v)) \<le> Suc 4"
    by (intro length_uvarint_le) (simp add: unsigned_ucast_eq take_bit_nat_eq_self)
  from length_control_field [OF this, of 0 tag] show ?thesis by (simp add: write_u32_def)
qed

lemma length_hello: "hello_ok m \<Longrightarrow> length (hello_encode m) \<le> 315"
  using length_write_u16 [of HELLO_FIELD_VERSION "h_version m"]
    length_control_field [of "h_codecs m" 16 0 HELLO_FIELD_CODECS]
    length_control_field [of "h_compressions m" 16 0 HELLO_FIELD_COMPRESSIONS]
    length_write_u32 [of HELLO_FIELD_MAX_FRAME_BYTES "h_max_frame_bytes m"]
    length_write_u32 [of HELLO_FIELD_WINDOW "h_window m"]
    length_control_field [of "concat (h_senders m)" 256 1 HELLO_FIELD_SENDERS]
    length_concat_chunks [of "h_senders m" SENDER_ID_BYTES]
  by (simp add: hello_encode_def hello_ok_def MAX_CHOICE_LIST_ENTRIES_def SENDER_ID_BYTES_def
      MAX_HELLO_SENDERS_def del: length_concat)

lemma length_hello_ack:
  assumes "hello_ack_ok m"
  shows "length (hello_ack_encode m) \<le> 413"
proof -
  have "\<forall>x \<in> set (map write_mark (ha_marks m)). length x = MARK_ENTRY_BYTES"
    using assms by (auto simp: hello_ack_ok_def write_mark_def MARK_ENTRY_BYTES_def)
  from length_concat_chunks [OF this]
  have "length (concat (map write_mark (ha_marks m))) \<le> 384"
    using assms by (simp add: hello_ack_ok_def MAX_HELLO_SENDERS_def MARK_ENTRY_BYTES_def
        SENDER_ID_BYTES_def del: length_concat)
  from length_control_field [OF this, of 1 HELLO_ACK_FIELD_MARKS]
    length_write_u16 [of HELLO_ACK_FIELD_VERSION "ha_version m"]
    length_control_field [of "[ha_codec m]" 1 0 HELLO_ACK_FIELD_CODEC]
    length_control_field [of "[ha_compression m]" 1 0 HELLO_ACK_FIELD_COMPRESSION]
    length_write_u32 [of HELLO_ACK_FIELD_MAX_FRAME_BYTES "ha_max_frame_bytes m"]
    length_write_u32 [of HELLO_ACK_FIELD_WINDOW "ha_window m"]
  show ?thesis by (simp add: hello_ack_encode_def del: length_concat)
qed

lemma length_text_field: "text_ok t \<Longrightarrow> length (control_field tag t) \<le> 1027"
  using length_control_field [of t 1024 1 tag] by (simp add: text_ok_def MAX_REJECT_MESSAGE_BYTES_def)

lemma length_status: "ack_ok m \<Longrightarrow> length (case ack_status m of
        Accepted \<Rightarrow> control_field ACK_FIELD_STATUS [ACK_STATUS_ACCEPTED]
      | Rejected reason message \<Rightarrow>
          control_field ACK_FIELD_STATUS [ACK_STATUS_REJECTED] @
          write_u16 ACK_FIELD_REASON reason @
          (case message of Some text \<Rightarrow> control_field ACK_FIELD_MESSAGE text | None \<Rightarrow> [])) \<le> 1035"
  using length_control_field [of "[ACK_STATUS_ACCEPTED]" 1 0 ACK_FIELD_STATUS]
    length_control_field [of "[ACK_STATUS_REJECTED]" 1 0 ACK_FIELD_STATUS]
  by (auto simp: ack_ok_def split: ack_status.split option.split
      intro!: order_trans [OF add_mono [OF _ length_write_u16], of _ 3]
      order_trans [OF add_mono [OF _ add_mono [OF length_write_u16 length_text_field]], of _ 3])

lemma length_ack: "ack_ok m \<Longrightarrow> length (ack_encode m) \<le> 1066"
  using length_control_field [of "ack_id m" 16 0 ACK_FIELD_ID]
    length_control_field [of "write_uvarint (ack_seq m)" 10 0 ACK_FIELD_SEQ]
    uvarint_len_bounds(2) [of "ack_seq m"] length_status [of m]
  by (simp add: ack_encode_def ack_ok_def SENDER_ID_BYTES_def uvarint_len_eq)

lemma length_reject: "text_ok (rj_message m) \<Longrightarrow> length (reject_encode m) \<le> 1033"
  using length_write_u16 [of REJECT_FIELD_CODE "rj_code m"]
    length_text_field [of "rj_message m" REJECT_FIELD_MESSAGE]
  by (simp add: reject_encode_def)

section \<open>Properties of control messages\<close>

text \<open>
  Every control message within the protocol's limits decodes to itself.
\<close>

theorem control_round_trip:
  assumes "message_ok m"
  shows "control_decode (control_encode m) = Inr m"
  using assms by (rule control_decode_written)

definition sample_ack :: ack where
  "sample_ack = \<lparr>ack_id = replicate 16 7, ack_seq = 300, ack_status = Rejected 2 (Some [0x6e, 0x6f])\<rparr>"

lemma sample_ack_ok: "message_ok (CM_Ack sample_ack)"
proof -
  have "utf8_valid [0x6e, 0x6f]" by code_simp
  then show ?thesis
    by (simp add: sample_ack_def ack_ok_def SENDER_ID_BYTES_def text_ok_def MAX_REJECT_MESSAGE_BYTES_def)
qed

theorem control_round_trip_witness:
  "control_decode (control_encode (CM_Ack sample_ack)) = Inr (CM_Ack sample_ack)"
  by (rule control_round_trip [OF sample_ack_ok])

text \<open>
  Whatever bytes a peer sends, a message that decodes is within the protocol's limits: the
  lists within their caps and made of whole identities, a window of at least one, a sequence
  number that is not zero, and every message text valid UTF-8 of at most 1024 bytes.
\<close>

theorem decoded_control_within_limits:
  assumes "control_decode bytes = Inr m"
  shows "message_ok m"
  using assms by (rule control_decode_ok)

theorem decoded_control_within_limits_witness: "message_ok (CM_Ack sample_ack)"
  by (rule decoded_control_within_limits [OF control_decode_written [OF sample_ack_ok]])

text \<open>
  No message is longer than the table in the source says: 315 bytes for a \<open>Hello\<close>, 413 for a
  \<open>HelloAck\<close>, 1066 for an \<open>Ack\<close> and 1033 for a \<open>Reject\<close>; all fit \<open>MAX_CONTROL_MESSAGE_BYTES\<close>.
\<close>

theorem control_message_length:
  assumes "message_ok m"
  shows "length (control_encode m) \<le>
      (case m of CM_Hello _ \<Rightarrow> 315 | CM_HelloAck _ \<Rightarrow> 413 | CM_Ack _ \<Rightarrow> 1066 | CM_Reject _ \<Rightarrow> 1033) \<and>
    length (control_encode m) \<le> MAX_CONTROL_MESSAGE_BYTES"
proof -
  have "length (control_encode m) \<le>
      (case m of CM_Hello _ \<Rightarrow> 315 | CM_HelloAck _ \<Rightarrow> 413 | CM_Ack _ \<Rightarrow> 1066 | CM_Reject _ \<Rightarrow> 1033)"
    using assms length_hello length_hello_ack length_ack length_reject by (cases m) auto
  then show ?thesis
    by (cases m) (auto simp: MAX_CONTROL_MESSAGE_BYTES_def)
qed

theorem control_message_length_witness:
  "length (control_encode (CM_Ack sample_ack)) \<le>
      (case CM_Ack sample_ack of
         CM_Hello _ \<Rightarrow> 315 | CM_HelloAck _ \<Rightarrow> 413 | CM_Ack _ \<Rightarrow> 1066 | CM_Reject _ \<Rightarrow> 1033) \<and>
    length (control_encode (CM_Ack sample_ack)) \<le> MAX_CONTROL_MESSAGE_BYTES"
  by (rule control_message_length [OF sample_ack_ok])

end
