(* ===== verification/Budget.thy ===== *)
theory Budget
  imports Varint
begin

text \<open>
  \<open>crates/logit-proto/src/native/budget.rs\<close>: the ceiling on what one payload may be charged for as it
  is decoded: list entries at the size of a slot, dictionary strings at their bytes and a symbol. The counter is a \<open>u64\<close>; it only ever goes down from the limit, by amounts checked
  against it, so it is a natural number here. The sizes of the in-memory types
  (\<open>std::mem::size_of\<close>) are the compiler's: they are a parameter, \<open>layout\<close>.
\<close>

record budget =
  limit :: nat
  remaining :: nat

definition MAX_SANE_UNCOMPRESSED_LEN :: nat where
  "MAX_SANE_UNCOMPRESSED_LEN = 64 * 1024 * 1024"

definition DECODE_BUDGET_PER_FRAME_BYTE :: nat where
  "DECODE_BUDGET_PER_FRAME_BYTE = 4"

definition DEFAULT_DECODE_BUDGET :: nat where
  "DEFAULT_DECODE_BUDGET = DECODE_BUDGET_PER_FRAME_BYTE * MAX_SANE_UNCOMPRESSED_LEN"

definition budget_new :: "nat \<Rightarrow> budget" where
  "budget_new n = \<lparr>limit = n, remaining = n\<rparr>"

definition for_frame_cap :: "u32 \<Rightarrow> budget" where
  "for_frame_cap max_frame_bytes =
     budget_new (DECODE_BUDGET_PER_FRAME_BYTE * min (unat max_frame_bytes) MAX_SANE_UNCOMPRESSED_LEN)"

definition unlimited :: budget where
  "unlimited = budget_new (2 ^ 64 - 1)"

definition charged :: "budget \<Rightarrow> nat" where
  "charged b = limit b - remaining b"

definition charge :: "nat \<Rightarrow> budget \<Rightarrow> budget result" where
  "charge n b =
     (if n > remaining b then Inl (BudgetExceeded (limit b))
      else Inr (b\<lparr>remaining := remaining b - n\<rparr>))"

definition charge_list :: "nat \<Rightarrow> nat \<Rightarrow> nat \<Rightarrow> nat \<Rightarrow> budget \<Rightarrow> budget result" where
  "charge_list count min_wire available sz b =
     (if count > available div min_wire
      then Inl (Malformed ''declares more entries than bytes remain'')
      else charge (saturating_mul count sz) b)"

record layout =
  sz_symbol :: nat
  sz_value :: nat
  sz_attr_entry :: nat
  sz_attr_map :: nat
  sz_bytes :: nat
  sz_exemplar :: nat
  sz_metric_record :: nat
  sz_span_event :: nat
  sz_span_link :: nat
  sz_event :: nat

text \<open>Spending an amount the budget covers.\<close>

definition spend :: "nat \<Rightarrow> budget \<Rightarrow> budget" where
  "spend n b = b\<lparr>remaining := remaining b - n\<rparr>"

lemma spend_simps [simp]:
  "remaining (spend n b) = remaining b - n"
  "limit (spend n b) = limit b"
  "spend 0 b = b"
  by (simp_all add: spend_def)

lemma spend_spend [simp]: "spend n (spend m b) = spend (m + n) b"
  by (simp add: spend_def)

lemma charge_enough [simp]: "n \<le> remaining b \<Longrightarrow> charge n b = Inr (spend n b)"
  by (simp add: charge_def spend_def)

lemma charge_list_enough [simp]:
  "count \<le> available div min_wire \<Longrightarrow> saturating_mul count sz \<le> remaining b \<Longrightarrow>
     charge_list count min_wire available sz b = Inr (spend (saturating_mul count sz) b)"
  by (simp add: charge_list_def)

lemma charge_eq_Inr: "charge n b = Inr b' \<longleftrightarrow> n \<le> remaining b \<and> b' = spend n b"
  by (auto simp: charge_def spend_def)

lemma charge_list_eq_Inr:
  "charge_list count min_wire available sz b = Inr b' \<longleftrightarrow>
     count \<le> available div min_wire \<and> saturating_mul count sz \<le> remaining b \<and>
     b' = spend (saturating_mul count sz) b"
  by (auto simp: charge_list_def charge_eq_Inr)

text \<open>A declared count is bounded by the bytes that are left, before anything is reserved.\<close>

lemma charge_list_mono:
  "charge_list count min_wire available sz b = Inr b' \<Longrightarrow> available \<le> available' \<Longrightarrow>
     charge_list count min_wire available' sz b = Inr b'"
  by (auto simp: charge_list_eq_Inr intro: order_trans div_le_mono)

end
