(* ===== verification/Interner.thy ===== *)
theory Interner
  imports Prelude
begin

text \<open>
  \<open>crates/logit-core/src/interner.rs\<close>: the process-wide table of key strings and the memo
  \<open>KeyCache\<close> in front of it. The table is the list of distinct strings in interning order;
  a \<open>Symbol\<close> is a position in it, and \<open>Symbol\<close>'s order is the order of positions
  (\<open>index\<close>). The concurrent table itself is the \<open>lasso\<close> crate; what is used of it is its
  documented behaviour, that a string keeps the symbol it was first given.

  The locale \<open>string_table\<close> states that contract, and is interpreted on the functions below.
\<close>

type_synonym symbol = nat
type_synonym interner = "bytes list"

fun position :: "'a \<Rightarrow> 'a list \<Rightarrow> nat option" where
  "position x [] = None"
| "position x (y # ys) = (if x = y then Some 0 else map_option Suc (position x ys))"

definition lookup :: "interner \<Rightarrow> bytes \<Rightarrow> symbol option" where
  "lookup t s = position s t"

definition intern :: "bytes \<Rightarrow> interner \<Rightarrow> symbol \<times> interner" where
  "intern s t = (case lookup t s of Some i \<Rightarrow> (i, t) | None \<Rightarrow> (length t, t @ [s]))"

text \<open>\<open>resolve\<close> panics on a symbol the table did not give out (\<open>None\<close>).\<close>

definition resolve :: "interner \<Rightarrow> symbol \<Rightarrow> bytes option" where
  "resolve t sy = (if sy < length t then Some (t ! sy) else None)"

section \<open>The table\<close>

lemma position_Some: "position x xs = Some i \<Longrightarrow> i < length xs \<and> xs ! i = x"
  by (induction xs arbitrary: i) (auto split: if_splits)

lemma position_None: "position x xs = None \<longleftrightarrow> x \<notin> set xs"
  by (induction xs) auto

lemma position_nth: "distinct xs \<Longrightarrow> i < length xs \<Longrightarrow> position (xs ! i) xs = Some i"
  by (induction xs arbitrary: i) (auto simp: nth_Cons split: nat.splits)

lemma position_append: "position x xs = Some i \<Longrightarrow> position x (xs @ ys) = Some i"
  by (induction xs arbitrary: i) (auto split: if_splits)

lemma intern_prefix: "intern s t = (i, t') \<Longrightarrow> \<exists>ext. t' = t @ ext"
  by (auto simp: intern_def split: option.splits)

lemma intern_distinct: "distinct t \<Longrightarrow> intern s t = (i, t') \<Longrightarrow> distinct t'"
  by (auto simp: intern_def lookup_def position_None split: option.splits)

lemma intern_resolve: "intern s t = (i, t') \<Longrightarrow> resolve t' i = Some s"
  by (auto simp: intern_def lookup_def resolve_def dest: position_Some split: option.splits)

lemma intern_known:
  assumes "distinct t" and "resolve t i = Some s"
  shows "intern s t = (i, t)"
proof -
  from assms have "lookup t s = Some i"
    by (auto simp: resolve_def lookup_def position_nth split: if_splits)
  then show ?thesis by (simp add: intern_def)
qed

lemma resolve_append: "resolve t i = Some s \<Longrightarrow> resolve (t @ ext) i = Some s"
  by (auto simp: resolve_def nth_append split: if_splits)

lemma resolve_inj: "distinct t \<Longrightarrow> resolve t i = Some s \<Longrightarrow> resolve t j = Some s \<Longrightarrow> i = j"
  by (auto simp: resolve_def nth_eq_iff_index_eq split: if_splits)

section \<open>The contract of the table\<close>

locale string_table =
  fixes intern :: "'s \<Rightarrow> 't \<Rightarrow> 'i \<times> 't"
    and resolve :: "'t \<Rightarrow> 'i \<Rightarrow> 's option"
    and invar :: "'t \<Rightarrow> bool"
    and extends :: "'t \<Rightarrow> 't \<Rightarrow> bool"
  assumes extends_refl: "extends t t"
    and extends_trans: "extends t u \<Longrightarrow> extends u w \<Longrightarrow> extends t w"
    and invar_intern: "invar t \<Longrightarrow> invar (snd (intern s t))"
    and extends_intern: "extends t (snd (intern s t))"
    and resolve_intern: "resolve (snd (intern s t)) (fst (intern s t)) = Some s"
    and resolve_extends: "extends t u \<Longrightarrow> resolve t i = Some s \<Longrightarrow> resolve u i = Some s"
    and resolve_unique: "invar t \<Longrightarrow> resolve t i = Some s \<Longrightarrow> resolve t j = Some s \<Longrightarrow> i = j"
begin

text \<open>Interning a string twice gives the symbol of the first time, whatever came between.\<close>

lemma intern_stable:
  assumes "invar u" and "extends (snd (intern s t)) u"
  shows "fst (intern s u) = fst (intern s t)"
proof -
  have "resolve (snd (intern s u)) (fst (intern s t)) = Some s"
    using resolve_extends [OF extends_trans [OF assms(2) extends_intern]] resolve_intern by blast
  moreover have "resolve (snd (intern s u)) (fst (intern s u)) = Some s"
    by (rule resolve_intern)
  ultimately show ?thesis
    using resolve_unique [OF invar_intern [OF assms(1)]] by blast
qed

lemma intern_inj:
  assumes "fst (intern s t) = fst (intern s' u)" and "extends (snd (intern s t)) w"
    and "extends (snd (intern s' u)) w"
  shows "s = s'"
  using assms resolve_extends resolve_intern by (metis option.inject)

end

interpretation table: string_table intern resolve distinct prefix
proof
  show "distinct (snd (intern s t))" if "distinct t" for s t
    using that by (cases "intern s t") (simp add: intern_distinct)
  show "prefix t (snd (intern s t))" for s t
    using intern_prefix [of s t] by (cases "intern s t") (auto simp: prefix_def)
  show "resolve (snd (intern s t)) (fst (intern s t)) = Some s" for s t
    by (cases "intern s t") (simp add: intern_resolve)
  show "resolve u i = Some s" if "prefix t u" "resolve t i = Some s" for t u i s
    using that by (auto simp: prefix_def resolve_append)
qed (auto intro: prefix_order.trans resolve_inj)

section \<open>The memo in front of it\<close>

record key_cache =
  entries :: "(bytes \<times> symbol) list"
  cursor :: nat

definition MAX_ENTRIES :: nat where "MAX_ENTRIES = 64"
definition MAX_KEY_LEN :: nat where "MAX_KEY_LEN = 128"

definition key_cache_new :: key_cache where
  "key_cache_new = \<lparr>entries = [], cursor = 0\<rparr>"

text \<open>The scan \<open>for offset in 1..len\<close> from \<open>start\<close>, wrapping around.\<close>

fun cache_scan :: "(bytes \<times> symbol) list \<Rightarrow> bytes \<Rightarrow> nat \<Rightarrow> nat list \<Rightarrow> nat option" where
  "cache_scan es s start [] = None"
| "cache_scan es s start (offset # offsets) =
     (let i = (start + offset) mod length es
      in if fst (es ! i) = s then Some i else cache_scan es s start offsets)"

text \<open>The steady path (the key at the cursor), then the resync scan: the entry that holds \<open>s\<close>.\<close>

definition cache_probe :: "bytes \<Rightarrow> key_cache \<Rightarrow> nat option" where
  "cache_probe s c =
     (let len = length (entries c) in
      if len > 0 then
        (let start = (if cursor c < len then cursor c else 0) in
         if fst (entries c ! start) = s then Some start
         else cache_scan (entries c) s start [1..<len])
      else None)"

definition get_or_intern :: "bytes \<Rightarrow> key_cache \<Rightarrow> interner \<Rightarrow> symbol \<times> key_cache \<times> interner" where
  "get_or_intern s c t =
     (case cache_probe s c of
        Some i \<Rightarrow> (snd (entries c ! i), c\<lparr>cursor := i + 1\<rparr>, t)
      | None \<Rightarrow>
          (let (sy, t) = intern s t; len = length (entries c)
           in if len < MAX_ENTRIES \<and> length s \<le> MAX_KEY_LEN
              then (sy, \<lparr>entries = entries c @ [(s, sy)], cursor = len + 1\<rparr>, t)
              else (sy, c, t)))"

text \<open>
  What a cache must satisfy: every memoised pair is one the table resolves, within the bounds.
\<close>

definition cache_ok :: "key_cache \<Rightarrow> interner \<Rightarrow> bool" where
  "cache_ok c t \<longleftrightarrow>
     (\<forall>(s, sy) \<in> set (entries c). resolve t sy = Some s \<and> length s \<le> MAX_KEY_LEN) \<and>
     length (entries c) \<le> MAX_ENTRIES"

lemma cache_scan_Some:
  "cache_scan es s start offs = Some i \<Longrightarrow> es \<noteq> [] \<Longrightarrow> i < length es \<and> fst (es ! i) = s"
  by (induction offs) (auto simp: Let_def split: if_splits)

lemma cache_hit_resolves:
  assumes "cache_ok c t" and "i < length (entries c)" and "fst (entries c ! i) = s"
  shows "resolve t (snd (entries c ! i)) = Some s"
  using assms nth_mem [OF assms(2)] by (fastforce simp: cache_ok_def)

lemma cache_ok_table:
  "cache_ok c t \<Longrightarrow> prefix t t' \<Longrightarrow> cache_ok c t'"
  by (fastforce simp: cache_ok_def intro: table.resolve_extends)

lemma cache_probe_Some:
  "cache_probe s c = Some i \<Longrightarrow> i < length (entries c) \<and> fst (entries c ! i) = s"
  by (auto simp: cache_probe_def Let_def dest: cache_scan_Some split: if_splits)

lemma get_or_intern_correct:
  assumes ok: "cache_ok c t" and dist: "distinct t"
    and res: "get_or_intern s c t = (sy, c', t')"
  shows "(sy, t') = intern s t" and "cache_ok c' t'"
proof -
  have "(sy, t') = intern s t \<and> cache_ok c' t'"
  proof (cases "cache_probe s c")
    case (Some i)
    then have i: "i < length (entries c)" "fst (entries c ! i) = s"
      using cache_probe_Some by auto
    from Some res have "sy = snd (entries c ! i)" "c' = c\<lparr>cursor := i + 1\<rparr>" "t' = t"
      by (simp_all add: get_or_intern_def)
    with intern_known [OF dist cache_hit_resolves [OF ok i]] ok show ?thesis
      by (simp add: cache_ok_def)
  next
    case None
    obtain j u where iu: "intern s t = (j, u)" by (cases "intern s t")
    have "cache_ok c u"
      using ok table.extends_intern [of t s] iu by (auto intro: cache_ok_table)
    with None res iu intern_resolve [OF iu] show ?thesis
      by (auto simp: get_or_intern_def cache_ok_def Let_def split: if_splits)
  qed
  then show "(sy, t') = intern s t" and "cache_ok c' t'" by auto
qed

section \<open>Properties of the key cache\<close>

text \<open>
  The memo in front of the interner is invisible: it gives the symbol the interner gives and
  leaves the table the interner leaves, on a hit, on a miss and when it is full, and it stays
  within its bound with only true entries.
\<close>

theorem key_cache_transparent:
  assumes "cache_ok c t" and "distinct t" and "get_or_intern s c t = (sy, c', t')"
  shows "intern s t = (sy, t') \<and> cache_ok c' t'"
  using get_or_intern_correct [OF assms] by simp

theorem key_cache_transparent_witness:
  "intern [7] [[1], [7]] = (1, [[1], [7]]) \<and> cache_ok \<lparr>entries = [([7], 1)], cursor = 1\<rparr> [[1], [7]]"
  by (rule key_cache_transparent [of key_cache_new])
    (simp_all add: cache_ok_def key_cache_new_def get_or_intern_def cache_probe_def intern_def
      lookup_def MAX_ENTRIES_def MAX_KEY_LEN_def)

end
