(* ===== verification/Dict.thy ===== *)
theory Dict
  imports Budget Utf8 Interner
begin

text \<open>
  \<open>crates/logit-proto/src/native/dict.rs\<close>: the wire dictionary. The writer collects the
  distinct symbols of a batch in first-use order and writes their strings; the reader interns
  the strings into its own table, so a position in the dictionary is all that crosses the wire.
\<close>

record 'k dict_builder =
  db_symbols :: "'k list"
  db_index :: "'k \<Rightarrow> u32 option"

definition dict_default :: "'k dict_builder" where
  "dict_default = \<lparr>db_symbols = [], db_index = (\<lambda>_. None)\<rparr>"

definition dict_intern :: "'k \<Rightarrow> 'k dict_builder \<Rightarrow> u32 \<times> 'k dict_builder" where
  "dict_intern s d =
     (case db_index d s of
        Some i \<Rightarrow> (i, d)
      | None \<Rightarrow>
          (let i = of_nat (length (db_symbols d)) :: u32
           in (i, d\<lparr>db_symbols := db_symbols d @ [s], db_index := (db_index d)(s \<mapsto> i)\<rparr>)))"

text \<open>\<open>DictBuilder::write\<close>; \<open>res\<close> is \<open>interner::resolve\<close> on the table in force.\<close>

definition dict_write :: "('k \<Rightarrow> bytes) \<Rightarrow> 'k dict_builder \<Rightarrow> bytes" where
  "dict_write res d =
     write_len (length (db_symbols d)) @
     concat (map (\<lambda>s. write_len (length (res s)) @ res s) (db_symbols d))"

definition MAX_SANE_DICT_ENTRIES :: nat where
  "MAX_SANE_DICT_ENTRIES = 16 * 1024 * 1024"

text \<open>One entry of \<open>Dict::read\<close>: charge, carve, check UTF-8, intern.\<close>

definition read_dict_entry ::
    "layout \<Rightarrow> bytes \<times> budget \<times> interner \<Rightarrow> (symbol \<times> bytes \<times> budget \<times> interner) result" where
  "read_dict_entry L = (\<lambda>(bytes, b, t).
     bnd (read_len bytes) (\<lambda>(len, bytes).
     bnd (reject_if (length bytes < len)
            (Malformed ''dictionary entry declares more bytes than remain'')) (\<lambda>_.
     bnd (charge (len + sz_symbol L) b) (\<lambda>b.
     bnd (split_to (Malformed '''') len bytes) (\<lambda>(raw, bytes).
     bnd (reject_if (\<not> utf8_valid raw) (Malformed ''dictionary entry not utf-8'')) (\<lambda>_.
     (let (s, t) = intern raw t in Inr (s, bytes, b, t))))))))"

definition dict_read ::
    "layout \<Rightarrow> bytes \<Rightarrow> budget \<Rightarrow> interner \<Rightarrow> (symbol list \<times> bytes \<times> budget \<times> interner) result" where
  "dict_read L bytes b t =
     bnd (read_len bytes) (\<lambda>(count, bytes).
     bnd (reject_if (count > MAX_SANE_DICT_ENTRIES)
            (Malformed ''dictionary declares entries over the sanity cap'')) (\<lambda>_.
     repeat_read count (read_dict_entry L) (bytes, b, t)))"

definition dict_get :: "'k list \<Rightarrow> u32 \<Rightarrow> 'k result" where
  "dict_get symbols idx =
     (if unat idx < length symbols then Inr (symbols ! unat idx)
      else Inl (Malformed ''dictionary index out of range''))"

section \<open>The builder\<close>

text \<open>
  The index agrees with the symbol list, as long as the list's length fits the \<open>u32\<close> an index
  is written as.
\<close>

definition dict_inv :: "'k dict_builder \<Rightarrow> bool" where
  "dict_inv d \<longleftrightarrow> distinct (db_symbols d) \<and>
     (\<forall>s. db_index d s = map_option of_nat (position s (db_symbols d)))"

lemma dict_inv_default [simp]: "dict_inv dict_default"
  by (simp add: dict_inv_def dict_default_def)

lemma position_snoc:
  "position x (xs @ [y]) =
     (case position x xs of Some i \<Rightarrow> Some i | None \<Rightarrow> if x = y then Some (length xs) else None)"
  by (induction xs) (auto split: option.splits)

lemma dict_intern_cases:
  assumes "dict_inv d"
  obtains n where "position s (db_symbols d) = Some n" and "dict_intern s d = (of_nat n, d)"
  | "s \<notin> set (db_symbols d)"
    and "dict_intern s d = (of_nat (length (db_symbols d)),
           d\<lparr>db_symbols := db_symbols d @ [s],
             db_index := (db_index d)(s \<mapsto> of_nat (length (db_symbols d)))\<rparr>)"
proof (cases "position s (db_symbols d)")
  case None
  then have "s \<notin> set (db_symbols d)" by (simp add: position_None)
  moreover have "db_index d s = None" using assms None by (simp add: dict_inv_def)
  ultimately show ?thesis
    by (intro that(2)) (simp_all add: dict_intern_def Let_def)
next
  case (Some n)
  then have "db_index d s = Some (of_nat n)" using assms by (simp add: dict_inv_def)
  with Some show ?thesis
    by (intro that(1)) (simp_all add: dict_intern_def)
qed

lemma dict_inv_extend:
  assumes "dict_inv d" and "s \<notin> set (db_symbols d)"
  shows "dict_inv (d\<lparr>db_symbols := db_symbols d @ [s],
           db_index := (db_index d)(s \<mapsto> of_nat (length (db_symbols d)))\<rparr>)"
  using assms position_None [of s "db_symbols d"]
  by (auto simp: dict_inv_def position_snoc split: option.split)

lemma dict_intern_inv:
  assumes "dict_inv d" and "dict_intern s d = (i, d')"
  shows "dict_inv d'" and "prefix (db_symbols d) (db_symbols d')"
    and "set (db_symbols d') = insert s (set (db_symbols d))"
    and "\<exists>n. position s (db_symbols d') = Some n \<and> i = of_nat n"
proof -
  have "dict_inv d' \<and> prefix (db_symbols d) (db_symbols d') \<and>
      set (db_symbols d') = insert s (set (db_symbols d)) \<and>
      (\<exists>n. position s (db_symbols d') = Some n \<and> i = of_nat n)"
  proof (cases rule: dict_intern_cases [OF assms(1), of s])
    case (1 n)
    with assms position_Some [OF 1(1)] show ?thesis
      by (auto intro: nth_mem)
  next
    case 2
    with assms have d': "i = of_nat (length (db_symbols d))"
      "d' = d\<lparr>db_symbols := db_symbols d @ [s],
         db_index := (db_index d)(s \<mapsto> of_nat (length (db_symbols d)))\<rparr>" by auto
    moreover have "position s (db_symbols d) = None" using 2 by (simp add: position_None)
    ultimately show ?thesis
      using dict_inv_extend [OF assms(1) 2(1)] by (simp add: position_snoc)
  qed
  then show "dict_inv d'" and "prefix (db_symbols d) (db_symbols d')"
    and "set (db_symbols d') = insert s (set (db_symbols d))"
    and "\<exists>n. position s (db_symbols d') = Some n \<and> i = of_nat n" by auto
qed

text \<open>
  A reader's dictionary serves a builder's when every symbol the builder has seen stands at its
  index, translated by \<open>f\<close>: the reader's list continues the translated builder's.
\<close>

definition serves :: "('k \<Rightarrow> 'j) \<Rightarrow> 'k dict_builder \<Rightarrow> 'j list \<Rightarrow> bool" where
  "serves f d R \<longleftrightarrow> prefix (map f (db_symbols d)) R \<and> length R < 2 ^ 32"

lemma serves_prefix:
  "serves f d' R \<Longrightarrow> prefix (db_symbols d) (db_symbols d') \<Longrightarrow> serves f d R"
  by (auto simp: serves_def intro: prefix_order.trans map_mono_prefix)

lemma dict_intern_get:
  assumes "dict_inv d" and "dict_intern s d = (i, d')" and "serves f d' R"
  shows "dict_get R i = Inr (f s)"
proof -
  note inv = dict_intern_inv [OF assms(1,2)]
  obtain n where n: "position s (db_symbols d') = Some n" "i = of_nat n"
    using inv(4) by blast
  have bound: "n < length (db_symbols d')" "db_symbols d' ! n = s"
    using position_Some [OF n(1)] by auto
  obtain ext where R: "R = map f (db_symbols d') @ ext"
    using assms(3) by (auto simp: serves_def prefix_def)
  have "n < 2 ^ 32"
    using bound(1) assms(3) R by (simp add: serves_def)
  then have "unat i = n"
    by (simp add: n(2) unat_of_nat take_bit_nat_eq_self)
  with bound R show ?thesis
    by (simp add: dict_get_def nth_append)
qed

section \<open>Reading back what was written\<close>

text \<open>The symbols a table gives a list of strings, in order.\<close>

fun intern_all :: "bytes list \<Rightarrow> interner \<Rightarrow> symbol list \<times> interner" where
  "intern_all [] t = ([], t)"
| "intern_all (s # ss) t =
     (let (i, t) = intern s t; (is, t) = intern_all ss t in (i # is, t))"

definition dict_cost :: "layout \<Rightarrow> bytes list \<Rightarrow> nat" where
  "dict_cost L ss = sum_list (map (\<lambda>s. length s + sz_symbol L) ss)"

lemma read_dict_entry_written:
  assumes "length s < 2 ^ 64" and "utf8_valid s" and "length s + sz_symbol L \<le> remaining b"
  shows "read_dict_entry L (write_len (length s) @ s @ rest, b, t) =
    Inr (fst (intern s t), rest, spend (length s + sz_symbol L) b, snd (intern s t))"
  using assms by (simp add: read_dict_entry_def case_prod_beta Let_def)

lemma read_dict_entries_written:
  assumes "\<forall>s \<in> set ss. length s < 2 ^ 64 \<and> utf8_valid s" and "dict_cost L ss \<le> remaining b"
  shows "repeat_read (length ss) (read_dict_entry L)
      (concat (map (\<lambda>s. write_len (length s) @ s) ss) @ rest, b, t) =
    Inr (fst (intern_all ss t), rest, spend (dict_cost L ss) b, snd (intern_all ss t))"
  using assms
proof (induction ss arbitrary: b t)
  case Nil
  then show ?case by (simp add: dict_cost_def)
next
  case (Cons s ss)
  have "dict_cost L ss \<le> remaining (spend (length s + sz_symbol L) b)"
    using Cons.prems(2) by (simp add: dict_cost_def)
  with Cons show ?case
    by (simp add: read_dict_entry_written dict_cost_def case_prod_beta Let_def add.assoc)
qed

lemma intern_all_table:
  "distinct t \<Longrightarrow> distinct (snd (intern_all ss t)) \<and> prefix t (snd (intern_all ss t)) \<and>
     list_all2 (\<lambda>i s. resolve (snd (intern_all ss t)) i = Some s) (fst (intern_all ss t)) ss"
proof (induction ss arbitrary: t)
  case (Cons s ss)
  define u where "u = snd (intern s t)"
  have u: "distinct u" "prefix t u" "resolve u (fst (intern s t)) = Some s"
    unfolding u_def using Cons.prems
    by (simp_all add: table.invar_intern table.extends_intern table.resolve_intern)
  from Cons.IH [OF u(1)] u show ?case
    by (auto simp: case_prod_beta Let_def simp flip: u_def
        intro: prefix_order.trans table.resolve_extends)
qed auto

text \<open>The symbol a table holds for a string it knows.\<close>

definition symbol_of :: "interner \<Rightarrow> bytes \<Rightarrow> symbol" where
  "symbol_of t s = (case lookup t s of Some i \<Rightarrow> i | None \<Rightarrow> length t)"

lemma symbol_of_resolve: "distinct t \<Longrightarrow> resolve t i = Some s \<Longrightarrow> symbol_of t s = i"
  by (auto simp: symbol_of_def resolve_def lookup_def position_nth split: if_splits)

lemma fst_intern_all:
  assumes "distinct t"
  shows "fst (intern_all ss t) = map (symbol_of (snd (intern_all ss t))) ss"
proof -
  let ?u = "snd (intern_all ss t)"
  have "distinct ?u" and all: "list_all2 (\<lambda>i s. resolve ?u i = Some s) (fst (intern_all ss t)) ss"
    using intern_all_table [OF assms] by auto
  from all \<open>distinct ?u\<close> show ?thesis
    by (auto simp: list_all2_conv_all_nth symbol_of_resolve intro!: nth_equalityI)
qed

theorem dict_read_write:
  assumes res: "\<forall>s \<in> set (db_symbols d). utf8_valid (res s) \<and> length (res s) < 2 ^ 64"
    and count: "length (db_symbols d) \<le> MAX_SANE_DICT_ENTRIES"
    and cost: "dict_cost L (map res (db_symbols d)) \<le> remaining b"
  shows "dict_read L (dict_write res d @ rest) b t =
    (let (is, t') = intern_all (map res (db_symbols d)) t
     in Inr (is, rest, spend (dict_cost L (map res (db_symbols d))) b, t'))"
  using assms read_dict_entries_written [of "map res (db_symbols d)" L b rest t]
  by (simp add: dict_read_def dict_write_def MAX_SANE_DICT_ENTRIES_def case_prod_beta Let_def
      comp_def)

end
