(* ===== verification/Attrs.thy ===== *)
theory Attrs
  imports Prelude
begin

text \<open>
  \<open>crates/logit-core/src/value.rs\<close> and \<open>attrs.rs\<close>: the value type and \<open>AttrMap\<close>, the
  association list sorted by interned key that binary search looks up. The type of keys is a
  parameter (\<open>'k\<close>): a \<open>Symbol\<close> of a process is a natural number (see \<open>Interner\<close>), and the
  same maps keyed by the strings themselves are what two processes can compare.

  The locale \<open>attr_store\<close> is the contract the codecs and transforms rely on (what a lookup
  returns after an insert or a remove, what keeps the invariant); its interpretation at the end
  shows that the binary-search operations keep it.
\<close>

section \<open>Values\<close>

datatype 'k attr_value =
    V_Null
  | V_Bool bool
  | V_I64 i64
  | V_U64 u64
  | V_F64 f64
  | V_Bytes bytes
  | V_Str bytes
  | V_Timestamp i64
  | V_Array "'k attr_value list"
  | V_Map "('k \<times> 'k attr_value) list"

type_synonym 'k attr_map = "('k \<times> 'k attr_value) list"

text \<open>\<open>Value::as_str\<close>, whose \<open>expect\<close> relies on \<open>Str\<close> being valid UTF-8.\<close>

fun as_str :: "'k attr_value \<Rightarrow> bytes option" where
  "as_str (V_Str b) = Some b"
| "as_str _ = None"

section \<open>Binary search\<close>

datatype ordering = Less | Equal | Greater

definition compare :: "'a::linorder \<Rightarrow> 'a \<Rightarrow> ordering" where
  "compare a b = (if a < b then Less else if a = b then Equal else Greater)"

text \<open>
  The loop of \<open>slice::binary_search_by\<close>: the half-open window \<open>[base, base + sz)\<close> shrinks to
  one element.
\<close>

function bsearch_loop :: "('a \<Rightarrow> ordering) \<Rightarrow> 'a list \<Rightarrow> nat \<Rightarrow> nat \<Rightarrow> nat" where
  "bsearch_loop cmp xs base sz =
     (if sz > 1 then
        (let half = sz div 2; mid = base + half
         in bsearch_loop cmp xs (if cmp (xs ! mid) = Greater then base else mid) (sz - half))
      else base)"
  by pat_completeness auto
termination
  by (relation "measure (\<lambda>(cmp, xs, base, sz). sz)") auto

declare bsearch_loop.simps [simp del]

definition binary_search_by :: "('a \<Rightarrow> ordering) \<Rightarrow> 'a list \<Rightarrow> nat + nat" where
  "binary_search_by cmp xs =
     (if xs = [] then Inl 0
      else let base = bsearch_loop cmp xs 0 (length xs)
           in case cmp (xs ! base) of
                Equal \<Rightarrow> Inr base | Less \<Rightarrow> Inl (base + 1) | Greater \<Rightarrow> Inl base)"

definition search_key :: "('k::linorder \<times> 'v) list \<Rightarrow> 'k \<Rightarrow> nat + nat" where
  "search_key m key = binary_search_by (\<lambda>(k, _). compare k key) m"

definition partition_point :: "('a \<Rightarrow> bool) \<Rightarrow> 'a list \<Rightarrow> nat" where
  "partition_point p xs =
     (case binary_search_by (\<lambda>x. if p x then Less else Greater) xs of Inl i \<Rightarrow> i | Inr i \<Rightarrow> i)"

section \<open>AttrMap\<close>

definition get_sym :: "'k::linorder \<Rightarrow> ('k \<times> 'v) list \<Rightarrow> 'v option" where
  "get_sym key m = (case search_key m key of Inr i \<Rightarrow> Some (snd (m ! i)) | Inl _ \<Rightarrow> None)"

definition insert_sym :: "'k::linorder \<Rightarrow> 'v \<Rightarrow> ('k \<times> 'v) list \<Rightarrow> ('k \<times> 'v) list" where
  "insert_sym key v m =
     (case search_key m key of
        Inr i \<Rightarrow> m[i := (fst (m ! i), v)]
      | Inl i \<Rightarrow> take i m @ (key, v) # drop i m)"

definition remove_sym :: "'k::linorder \<Rightarrow> ('k \<times> 'v) list \<Rightarrow> 'v option \<times> ('k \<times> 'v) list" where
  "remove_sym key m =
     (case search_key m key of
        Inr i \<Rightarrow> (Some (snd (m ! i)), take i m @ drop (i + 1) m)
      | Inl _ \<Rightarrow> (None, m))"

definition entry_after :: "'k::linorder option \<Rightarrow> ('k \<times> 'v) list \<Rightarrow> ('k \<times> 'v) option" where
  "entry_after after m =
     (let i = (case after of None \<Rightarrow> 0 | Some a \<Rightarrow> partition_point (\<lambda>(k, _). k \<le> a) m)
      in if i < length m then Some (m ! i) else None)"

definition last_key :: "('k \<times> 'v) list \<Rightarrow> 'k option" where
  "last_key m = (if m = [] then None else Some (fst (last m)))"

text \<open>
  \<open>merged\<close>: the merge-join of a resource's and an event's attributes, the event's value winning
  on an equal key.
\<close>

fun merged :: "('k::linorder \<times> 'v) list \<Rightarrow> ('k \<times> 'v) list \<Rightarrow> ('k \<times> 'v) list" where
  "merged ((r, rv) # rs) ((e, ev) # es) =
     (if r < e then (r, rv) # merged rs ((e, ev) # es)
      else if e < r then (e, ev) # merged ((r, rv) # rs) es
      else (e, ev) # merged rs es)"
| "merged rs [] = rs"
| "merged [] es = es"

text \<open>The invariant: strictly ascending keys.\<close>

abbreviation attrs_sorted :: "('k::linorder \<times> 'v) list \<Rightarrow> bool" where
  "attrs_sorted m \<equiv> sorted_wrt (<) (map fst m)"

section \<open>The search finds what a linear scan finds\<close>

lemma compare_simps [simp]:
  "compare a b = Less \<longleftrightarrow> a < b"
  "compare a b = Equal \<longleftrightarrow> a = b"
  "compare a b = Greater \<longleftrightarrow> b < (a :: 'a::linorder)"
  by (auto simp: compare_def)

text \<open>
  A comparator is monotone when once it says \<open>Greater\<close> it keeps saying so, and once it stops
  saying \<open>Less\<close> it never says so again.
\<close>

definition cmp_mono :: "('a \<Rightarrow> ordering) \<Rightarrow> 'a list \<Rightarrow> bool" where
  "cmp_mono cmp xs \<longleftrightarrow>
     (\<forall>i j. i < j \<and> j < length xs \<longrightarrow>
        (cmp (xs ! i) = Greater \<longrightarrow> cmp (xs ! j) = Greater) \<and>
        (cmp (xs ! j) \<noteq> Greater \<longrightarrow> cmp (xs ! i) = Less))"

lemma cmp_monoD:
  assumes "cmp_mono cmp xs" and "i < j" and "j < length xs"
  shows "cmp (xs ! i) = Greater \<Longrightarrow> cmp (xs ! j) = Greater"
    and "cmp (xs ! j) \<noteq> Greater \<Longrightarrow> cmp (xs ! i) = Less"
  using assms by (auto simp: cmp_mono_def)

definition bsearch_post :: "('a \<Rightarrow> ordering) \<Rightarrow> 'a list \<Rightarrow> nat \<Rightarrow> bool" where
  "bsearch_post cmp xs b \<longleftrightarrow>
     b < length xs \<and> (b = 0 \<or> cmp (xs ! b) \<noteq> Greater) \<and>
     (\<forall>j. b < j \<and> j < length xs \<longrightarrow> cmp (xs ! j) = Greater)"

lemma bsearch_loop_window:
  assumes "cmp_mono cmp xs" and "0 < sz" and "base + sz \<le> length xs"
    and "base = 0 \<or> cmp (xs ! base) \<noteq> Greater"
    and "\<And>j. base + sz \<le> j \<Longrightarrow> j < length xs \<Longrightarrow> cmp (xs ! j) = Greater"
  shows "bsearch_post cmp xs (bsearch_loop cmp xs base sz)"
  using assms
proof (induction cmp xs base sz rule: bsearch_loop.induct)
  case (1 cmp xs base sz)
  show ?case
  proof (cases "sz > 1")
    case True
    let ?mid = "base + sz div 2"
    let ?base = "if cmp (xs ! ?mid) = Greater then base else ?mid"
    have step: "bsearch_loop cmp xs base sz = bsearch_loop cmp xs ?base (sz - sz div 2)"
      using True by (subst bsearch_loop.simps) (simp add: Let_def)
    have above: "cmp (xs ! j) = Greater"
      if "cmp (xs ! ?mid) = Greater" "?mid \<le> j" "j < length xs" for j
      using that cmp_monoD(1) [OF "1.prems"(1), of ?mid j] by (cases "j = ?mid") auto
    show ?thesis
      unfolding step
    proof (rule "1.IH" [OF True refl refl "1.prems"(1)])
      fix j assume j: "?base + (sz - sz div 2) \<le> j" "j < length xs"
      show "cmp (xs ! j) = Greater"
      proof (cases "cmp (xs ! ?mid) = Greater")
        case True
        moreover from True j(1) have "?mid \<le> j" by simp
        ultimately show ?thesis using j(2) by (rule above)
      next
        case False
        with j "1.prems"(5) show ?thesis by simp
      qed
    qed (use True "1.prems"(3,4) in auto)
  next
    case False
    with "1.prems"(2) have "sz = 1" by simp
    with "1.prems" show ?thesis
      by (subst bsearch_loop.simps) (auto simp: bsearch_post_def)
  qed
qed

lemma sorted_keys_nth:
  "attrs_sorted m \<Longrightarrow> i < j \<Longrightarrow> j < length m \<Longrightarrow> fst (m ! i) < fst (m ! j)"
  by (simp add: sorted_wrt_iff_nth_less)

lemma binary_search_by_spec:
  assumes mono: "cmp_mono cmp xs"
  shows "case binary_search_by cmp xs of
           Inr i \<Rightarrow> i < length xs \<and> cmp (xs ! i) = Equal
         | Inl i \<Rightarrow> i \<le> length xs \<and> (\<forall>j < i. cmp (xs ! j) = Less) \<and>
             (\<forall>j. i \<le> j \<and> j < length xs \<longrightarrow> cmp (xs ! j) = Greater)"
proof (cases "xs = []")
  case True
  then show ?thesis by (simp add: binary_search_by_def)
next
  case False
  let ?b = "bsearch_loop cmp xs 0 (length xs)"
  have b: "?b < length xs" "?b = 0 \<or> cmp (xs ! ?b) \<noteq> Greater"
    "\<And>j. ?b < j \<Longrightarrow> j < length xs \<Longrightarrow> cmp (xs ! j) = Greater"
    using bsearch_loop_window [OF mono, of "length xs" 0] False by (auto simp: bsearch_post_def)
  have below: "cmp (xs ! j) = Less" if "j < ?b" for j
    using b(1,2) that cmp_monoD(2) [OF mono, of j ?b] by auto
  show ?thesis
  proof (cases "cmp (xs ! ?b)")
    case Less
    with b below False show ?thesis
      by (auto simp: binary_search_by_def less_Suc_eq Suc_le_eq)
  next
    case Equal
    with b False show ?thesis by (simp add: binary_search_by_def)
  next
    case Greater
    with b(2) have "?b = 0" by simp
    with b Greater False show ?thesis
      by (auto simp: binary_search_by_def)
        (metis gr_zeroI)
  qed
qed

lemma cmp_mono_key: "attrs_sorted m \<Longrightarrow> cmp_mono (\<lambda>(k, _). compare k key) m"
  unfolding cmp_mono_def
  by (auto simp: case_prod_beta dest!: sorted_keys_nth)

lemma search_key_Inr:
  assumes "attrs_sorted m" and "search_key m key = Inr i"
  shows "i < length m" and "fst (m ! i) = key"
  using binary_search_by_spec [OF cmp_mono_key [OF assms(1)], of key] assms(2)
  by (auto simp: search_key_def case_prod_beta)

lemma search_key_Inl:
  assumes "attrs_sorted m" and "search_key m key = Inl i"
  shows "i \<le> length m" and "\<forall>x \<in> set (take i m). fst x < key"
    and "\<forall>x \<in> set (drop i m). key < fst x"
  using binary_search_by_spec [OF cmp_mono_key [OF assms(1)], of key] assms(2)
  by (auto simp: search_key_def case_prod_beta all_set_conv_all_nth)

section \<open>The operations against their map\<close>

lemma attrs_sorted_distinct: "attrs_sorted m \<Longrightarrow> distinct (map fst m)"
  by (simp add: strict_sorted_iff)

lemma map_of_sorted_nth:
  "attrs_sorted m \<Longrightarrow> i < length m \<Longrightarrow> map_of m (fst (m ! i)) = Some (snd (m ! i))"
  by (simp add: map_of_eq_Some_iff attrs_sorted_distinct)

lemma map_of_not_in_keys: "\<forall>x \<in> set m. fst x \<noteq> k \<Longrightarrow> map_of m k = None"
  by (auto simp: map_of_eq_None_iff)

lemma search_key_Inl_map_of:
  assumes "attrs_sorted m" and "search_key m key = Inl i"
  shows "map_of (take i m) key = None" and "map_of (drop i m) key = None" and "map_of m key = None"
proof -
  note bounds = search_key_Inl [OF assms]
  show t: "map_of (take i m) key = None" and d: "map_of (drop i m) key = None"
    using bounds by (intro map_of_not_in_keys; fastforce)+
  have "map_of (take i m @ drop i m) key = None"
    unfolding map_of_append map_add_def using t d by simp
  then show "map_of m key = None" by simp
qed

theorem get_sym_map_of: "attrs_sorted m \<Longrightarrow> get_sym key m = map_of m key"
  using search_key_Inl_map_of(3) [of m key] search_key_Inr [of m key] map_of_sorted_nth [of m]
  by (auto simp: get_sym_def split: sum.split)

lemma map_of_insert_sym:
  assumes "attrs_sorted m"
  shows "map_of (insert_sym key v m) = (map_of m)(key \<mapsto> v)"
proof (cases "search_key m key")
  case (Inl i)
  note none = search_key_Inl_map_of [OF assms Inl]
  have "map_of m = map_of (drop i m) ++ map_of (take i m)"
    by (simp flip: map_of_append)
  with none(1) show ?thesis
    by (auto simp: insert_sym_def Inl fun_eq_iff map_add_def split: option.splits)
next
  case (Inr i)
  note i = search_key_Inr [OF assms Inr]
  have "m = take i m @ (key, snd (m ! i)) # drop (Suc i) m"
    using i by (metis id_take_nth_drop prod.collapse)
  moreover have "insert_sym key v m = take i m @ (key, v) # drop (Suc i) m"
    using i by (simp add: insert_sym_def Inr upd_conv_take_nth_drop)
  moreover have "map_of (take i m) key = None"
    using i sorted_keys_nth [OF assms, of _ i]
    by (intro map_of_not_in_keys) (fastforce simp: in_set_conv_nth)
  ultimately show ?thesis
    by (metis (no_types, lifting) fun_upd_upd map_add_upd_left map_of.simps(2) map_of_append
        domIff fst_conv snd_conv)
qed

lemma attrs_sorted_insert_sym:
  assumes "attrs_sorted m"
  shows "attrs_sorted (insert_sym key v m)"
proof (cases "search_key m key")
  case (Inl i)
  note b = search_key_Inl [OF assms Inl]
  have parts: "attrs_sorted (take i m @ drop i m)" using assms by simp
  then show ?thesis
    using b unfolding map_append sorted_wrt_append
    by (auto simp: insert_sym_def Inl sorted_wrt_append)
next
  case (Inr i)
  then have "map fst (insert_sym key v m) = map fst m"
    using search_key_Inr [OF assms Inr]
    by (simp add: insert_sym_def map_update list_update_same_conv)
  with assms show ?thesis by simp
qed

lemma map_of_remove_sym:
  assumes "attrs_sorted m"
  shows "map_of (snd (remove_sym key m)) = (map_of m)(key := None)"
    and "fst (remove_sym key m) = map_of m key"
    and "attrs_sorted (snd (remove_sym key m))"
proof -
  have "map_of (snd (remove_sym key m)) = (map_of m)(key := None) \<and>
      fst (remove_sym key m) = map_of m key \<and> attrs_sorted (snd (remove_sym key m))"
  proof (cases "search_key m key")
    case (Inl i)
    with search_key_Inl_map_of(3) [OF assms Inl] assms show ?thesis
      by (auto simp: remove_sym_def)
  next
    case (Inr i)
    note i = search_key_Inr [OF assms Inr]
    have m: "m = take i m @ (key, snd (m ! i)) # drop (Suc i) m"
      using i by (metis id_take_nth_drop prod.collapse)
    have sorted: "attrs_sorted (take i m @ (key, snd (m ! i)) # drop (Suc i) m)"
      using assms m by simp
    have "map_of (take i m) key = None" "map_of (drop (Suc i) m) key = None"
      using sorted by (intro map_of_not_in_keys; fastforce simp: sorted_wrt_append)+
    moreover have "attrs_sorted (take i m @ drop (Suc i) m)"
      using sorted by (auto simp: sorted_wrt_append)
    moreover have "map_of m = map_of (take i m @ (key, snd (m ! i)) # drop (Suc i) m)"
      using m by simp
    ultimately show ?thesis
      using map_of_sorted_nth [OF assms i(1)] i(2)
      by (auto simp: remove_sym_def Inr fun_eq_iff map_add_def split: option.splits)
  qed
  then show "map_of (snd (remove_sym key m)) = (map_of m)(key := None)"
    and "fst (remove_sym key m) = map_of m key"
    and "attrs_sorted (snd (remove_sym key m))" by auto
qed

text \<open>A sorted map is determined by its lookups, so two ways to build one agree.\<close>

lemma attrs_sorted_unique:
  assumes "attrs_sorted m" and "attrs_sorted m'" and "map_of m = map_of m'"
  shows "m = m'"
proof -
  have "set m = set m'"
    using assms by (simp add: map_of_inject_set attrs_sorted_distinct)
  moreover have "inj_on fst (set m \<union> set m')"
    using attrs_sorted_distinct [OF assms(1)] \<open>set m = set m'\<close> by (simp add: distinct_map)
  ultimately show ?thesis
    using assms(1,2) by (intro map_sorted_distinct_set_unique [of fst])
      (auto simp: strict_sorted_iff)
qed

section \<open>The contract of an attribute store\<close>

locale attr_store =
  fixes empty :: 'm
    and get :: "'k \<Rightarrow> 'm \<Rightarrow> 'v option"
    and insert :: "'k \<Rightarrow> 'v \<Rightarrow> 'm \<Rightarrow> 'm"
    and remove :: "'k \<Rightarrow> 'm \<Rightarrow> 'v option \<times> 'm"
    and invar :: "'m \<Rightarrow> bool"
  assumes invar_empty: "invar empty"
    and invar_insert: "invar m \<Longrightarrow> invar (insert k v m)"
    and invar_remove: "invar m \<Longrightarrow> invar (snd (remove k m))"
    and get_empty: "get k empty = None"
    and get_insert: "invar m \<Longrightarrow> get j (insert k v m) = (if j = k then Some v else get j m)"
    and get_remove: "invar m \<Longrightarrow> get j (snd (remove k m)) = (if j = k then None else get j m)"
    and fst_remove: "invar m \<Longrightarrow> fst (remove k m) = get k m"
begin

lemma invar_inserts: "invar m \<Longrightarrow> invar (foldl (\<lambda>m (k, v). insert k v m) m kvs)"
  by (induction kvs arbitrary: m) (auto intro: invar_insert)

lemma get_inserts:
  "invar m \<Longrightarrow> get j (foldl (\<lambda>m (k, v). insert k v m) m kvs) =
     (case map_of (rev kvs) j of Some v \<Rightarrow> Some v | None \<Rightarrow> get j m)"
  by (induction kvs rule: rev_induct)
    (auto simp: get_insert invar_inserts split: option.splits)

lemma insert_then_remove:
  "invar m \<Longrightarrow> get k m = None \<Longrightarrow>
     fst (remove k (insert k v m)) = Some v \<and> get j (snd (remove k (insert k v m))) = get j m"
  by (simp add: fst_remove get_remove get_insert invar_insert)

end

interpretation attrs: attr_store "[]" get_sym insert_sym remove_sym attrs_sorted
proof
  show "get_sym j (insert_sym k v m) = (if j = k then Some v else get_sym j m)"
    if "attrs_sorted m" for j k :: "'k::linorder" and v :: 'v and m
    using that by (simp add: get_sym_map_of map_of_insert_sym attrs_sorted_insert_sym)
  show "get_sym j (snd (remove_sym k m)) = (if j = k then None else get_sym j m)"
    if "attrs_sorted m" for j k :: "'k::linorder" and m :: "('k \<times> 'v) list"
    using that by (simp add: get_sym_map_of map_of_remove_sym)
qed (simp_all add: attrs_sorted_insert_sym map_of_remove_sym get_sym_map_of)

section \<open>Maps built by inserting\<close>

text \<open>
  \<open>AttrMap::from_iter\<close>, and the loop of the native decoder's \<open>read_attr_map_at\<close>: each entry is
  inserted in turn, a later one overwriting an earlier one of the same key.
\<close>

definition attrs_of :: "('k::linorder \<times> 'v) list \<Rightarrow> ('k \<times> 'v) list" where
  "attrs_of kvs = foldl (\<lambda>m (k, v). insert_sym k v m) [] kvs"

lemma attrs_sorted_attrs_of [simp]: "attrs_sorted (attrs_of kvs)"
  unfolding attrs_of_def by (rule attrs.invar_inserts) simp

lemma map_of_attrs_of: "map_of (attrs_of kvs) = map_of (rev kvs)"
proof
  fix j
  have "map_of (attrs_of kvs) j = get_sym j (attrs_of kvs)"
    by (simp add: get_sym_map_of)
  also have "\<dots> = map_of (rev kvs) j"
    unfolding attrs_of_def
    by (subst attrs.get_inserts) (simp_all add: attrs.get_empty split: option.split)
  finally show "map_of (attrs_of kvs) j = map_of (rev kvs) j" .
qed

lemma map_of_rev_distinct: "distinct (map fst kvs) \<Longrightarrow> map_of (rev kvs) = map_of kvs"
  by (rule map_of_inject_set [THEN iffD2]) (simp_all flip: rev_map)

lemma attrs_of_sorted: "attrs_sorted m \<Longrightarrow> attrs_of m = m"
  by (rule attrs_sorted_unique)
    (simp_all add: map_of_attrs_of map_of_rev_distinct attrs_sorted_distinct)

lemma set_attrs_of_subset: "set (attrs_of kvs) \<subseteq> set kvs"
proof
  fix x assume "x \<in> set (attrs_of kvs)"
  then have "map_of (attrs_of kvs) (fst x) = Some (snd x)"
    by (simp add: map_of_eq_Some_iff attrs_sorted_distinct)
  then have "(fst x, snd x) \<in> set (rev kvs)"
    unfolding map_of_attrs_of by (rule map_of_SomeD)
  then show "x \<in> set kvs" by simp
qed

lemma length_attrs_of: "length (attrs_of kvs) \<le> length kvs"
proof -
  have "length (attrs_of kvs) = card (set (map fst (attrs_of kvs)))"
    using distinct_card [OF attrs_sorted_distinct, of "attrs_of kvs"] by simp
  also have "\<dots> \<le> card (set (map fst kvs))"
    using set_attrs_of_subset [of kvs] by (intro card_mono) auto
  also have "\<dots> \<le> length kvs"
    by (metis card_length length_map)
  finally show ?thesis .
qed

section \<open>The merge-join\<close>

lemma merged_keys: "fst ` set (merged rs es) = fst ` set rs \<union> fst ` set es"
  by (induction rs es rule: merged.induct) (simp_all, blast+)

lemma merged_above:
  "\<forall>k \<in> fst ` set rs \<union> fst ` set es. a < k \<Longrightarrow> \<forall>k \<in> set (map fst (merged rs es)). a < k"
  by (simp only: set_map merged_keys)

lemma attrs_sorted_merged:
  "attrs_sorted rs \<Longrightarrow> attrs_sorted es \<Longrightarrow> attrs_sorted (merged rs es)"
proof (induction rs es rule: merged.induct)
  case (1 r rv rs e ev es)
  consider "r < e" | "e < r" | "e = r" by fastforce
  then show ?case
  proof cases
    case 1
    then have "\<forall>k \<in> set (map fst (merged rs ((e, ev) # es))). r < k"
      using "1.prems" by (intro merged_above) auto
    with 1 "1.IH"(1) "1.prems" show ?thesis by simp
  next
    case 2
    then have "\<forall>k \<in> set (map fst (merged ((r, rv) # rs) es)). e < k"
      using "1.prems" by (intro merged_above) auto
    moreover have "\<not> r < e" using 2 by simp
    ultimately show ?thesis using 2 "1.IH"(2) "1.prems" by simp
  next
    case 3
    then have "\<forall>k \<in> set (map fst (merged rs es)). e < k"
      using "1.prems" by (intro merged_above) auto
    with 3 "1.IH"(3) "1.prems" show ?thesis by simp
  qed
qed auto

lemma map_of_merged:
  "attrs_sorted rs \<Longrightarrow> attrs_sorted es \<Longrightarrow> map_of (merged rs es) = map_of rs ++ map_of es"
proof (induction rs es rule: merged.induct)
  case (1 r rv rs e ev es)
  have none: "map_of ((e, ev) # es) r = None" if "r < e"
    using that "1.prems" by (intro map_of_not_in_keys) auto
  show ?case
    using "1" none
    by (auto simp: map_add_upd fun_upd_twist map_add_upd_left fun_eq_iff map_add_def
        split: option.splits)
qed auto

section \<open>Renaming keys\<close>

text \<open>
  What a decoder builds from a map whose keys another process named: every key through \<open>f\<close>,
  every map sorted again by the new keys, at every depth.
\<close>

fun rename_value :: "('k \<Rightarrow> 'j::linorder) \<Rightarrow> 'k attr_value \<Rightarrow> 'j attr_value" where
  "rename_value f V_Null = V_Null"
| "rename_value f (V_Bool b) = V_Bool b"
| "rename_value f (V_I64 v) = V_I64 v"
| "rename_value f (V_U64 v) = V_U64 v"
| "rename_value f (V_F64 v) = V_F64 v"
| "rename_value f (V_Bytes b) = V_Bytes b"
| "rename_value f (V_Str b) = V_Str b"
| "rename_value f (V_Timestamp v) = V_Timestamp v"
| "rename_value f (V_Array vs) = V_Array (map (rename_value f) vs)"
| "rename_value f (V_Map m) = V_Map (attrs_of (map (\<lambda>(k, v). (f k, rename_value f v)) m))"

definition rename_attrs :: "('k \<Rightarrow> 'j::linorder) \<Rightarrow> 'k attr_map \<Rightarrow> 'j attr_map" where
  "rename_attrs f m = attrs_of (map (\<lambda>(k, v). (f k, rename_value f v)) m)"

text \<open>Every map inside the value is sorted; every key inside it lies in a set.\<close>

fun value_sorted :: "'k::linorder attr_value \<Rightarrow> bool" where
  "value_sorted (V_Array vs) = list_all value_sorted vs"
| "value_sorted (V_Map m) = (attrs_sorted m \<and> list_all (\<lambda>(k, v). value_sorted v) m)"
| "value_sorted _ = True"

definition attr_map_sorted :: "'k::linorder attr_map \<Rightarrow> bool" where
  "attr_map_sorted m \<longleftrightarrow> attrs_sorted m \<and> list_all (\<lambda>(k, v). value_sorted v) m"

fun value_keys :: "'k attr_value \<Rightarrow> 'k set" where
  "value_keys (V_Array vs) = (\<Union>v \<in> set vs. value_keys v)"
| "value_keys (V_Map m) = (\<Union>(k, v) \<in> set m. insert k (value_keys v))"
| "value_keys _ = {}"

definition attr_map_keys :: "'k attr_map \<Rightarrow> 'k set" where
  "attr_map_keys m = (\<Union>(k, v) \<in> set m. insert k (value_keys v))"

lemma rename_value_id:
  "value_sorted v \<Longrightarrow> \<forall>k \<in> value_keys v. f k = k \<Longrightarrow> rename_value f v = v"
proof (induction v)
  case (V_Array vs)
  then show ?case by (auto simp: list_all_iff intro!: map_idI)
next
  case (V_Map m)
  have "map (\<lambda>(k, v). (f k, rename_value f v)) m = m"
    using V_Map by (intro map_idI) (fastforce simp: list_all_iff snds.simps)
  with V_Map.prems(1) show ?case by (simp add: attrs_of_sorted)
qed auto

lemma rename_attrs_id:
  "attr_map_sorted m \<Longrightarrow> \<forall>k \<in> attr_map_keys m. f k = k \<Longrightarrow> rename_attrs f m = m"
  using rename_value_id [of "V_Map m" f]
  by (simp add: attr_map_sorted_def attr_map_keys_def rename_attrs_def)

lemma value_sorted_rename [simp]: "value_sorted (rename_value f v)"
proof (induction v)
  case (V_Map m)
  have "value_sorted w" if "(k, w) \<in> set (attrs_of (map (\<lambda>(k, v). (f k, rename_value f v)) m))" for k w
    using that set_attrs_of_subset V_Map by (fastforce simp: snds.simps)
  then show ?case by (auto simp: list_all_iff)
qed (auto simp: list_all_iff)

lemma attr_map_sorted_rename [simp]: "attr_map_sorted (rename_attrs f m)"
  using value_sorted_rename [of f "V_Map m"] by (simp add: attr_map_sorted_def rename_attrs_def)

text \<open>Renaming along injections composes: the order in between leaves no trace.\<close>

lemma map_of_map_inj:
  assumes "inj_on f (fst ` set m \<union> {k})"
  shows "map_of (map (\<lambda>(k, v). (f k, h v)) m) (f k) = map_option h (map_of m k)"
  using assms by (induction m) (auto simp: inj_on_def)

lemma attrs_of_map_compose:
  assumes g: "inj_on g (f ` (fst ` set m))"
  shows "attrs_of (map (\<lambda>(j, v). (g j, h v)) (attrs_of (map (\<lambda>(k, v). (f k, r v)) m)))
       = attrs_of (map (\<lambda>(k, v). (g (f k), h (r v))) m)" (is "attrs_of (map ?G (attrs_of ?X)) = attrs_of ?Y")
proof (rule attrs_sorted_unique)
  have keys: "fst ` set (attrs_of ?X) \<subseteq> f ` (fst ` set m)"
    using image_mono [OF set_attrs_of_subset, of fst ?X]
    by (simp add: image_image case_prod_beta)
  have dist: "distinct (map fst (map ?G (attrs_of ?X)))"
  proof -
    have "map fst (map ?G (attrs_of ?X)) = map g (map fst (attrs_of ?X))"
      by (simp add: case_prod_beta)
    moreover have "distinct (map g (map fst (attrs_of ?X)))"
      using attrs_sorted_distinct [OF attrs_sorted_attrs_of, of ?X] inj_on_subset [OF g keys]
      unfolding distinct_map [of g] by simp
    ultimately show ?thesis by (simp only:)
  qed
  show "map_of (attrs_of (map ?G (attrs_of ?X))) = map_of (attrs_of ?Y)"
  proof
    fix j
    have "map_of (map ?G (attrs_of ?X)) j = map_of (rev ?Y) j"
    proof (cases "j \<in> g ` f ` (fst ` set m)")
      case False
      have "j \<notin> fst ` set (map ?G (attrs_of ?X))"
        using False keys by (fastforce simp: image_iff)
      moreover have "j \<notin> fst ` set (rev ?Y)"
        using False by (fastforce simp: image_iff)
      ultimately show ?thesis by (simp add: map_of_eq_None_iff [THEN iffD2] del: set_map)
    next
      case True
      then obtain i where i: "i \<in> f ` (fst ` set m)" "j = g i" by auto
      have "map_of (map ?G (attrs_of ?X)) j = map_option h (map_of (attrs_of ?X) i)"
        unfolding i(2) using keys i(1) by (intro map_of_map_inj inj_on_subset [OF g]) auto
      also have "\<dots> = map_option h (map_of (rev ?X) i)" by (simp add: map_of_attrs_of)
      also have "\<dots> = map_of (map ?G (rev ?X)) j"
        unfolding i(2) using i(1)
        by (intro map_of_map_inj [symmetric] inj_on_subset [OF g])
          (simp add: image_image case_prod_beta)
      also have "map ?G (rev ?X) = rev ?Y" by (simp add: rev_map case_prod_beta)
      finally show ?thesis .
    qed
    then show "map_of (attrs_of (map ?G (attrs_of ?X))) j = map_of (attrs_of ?Y) j"
      by (simp add: map_of_attrs_of map_of_rev_distinct [OF dist])
  qed
qed simp_all

lemma rename_value_compose:
  "inj_on g (f ` value_keys v) \<Longrightarrow> rename_value g (rename_value f v) = rename_value (\<lambda>k. g (f k)) v"
proof (induction v)
  case (V_Array vs)
  have "rename_value g (rename_value f v) = rename_value (\<lambda>k. g (f k)) v" if "v \<in> set vs" for v
    using that V_Array.prems by (intro V_Array.IH) (auto intro: inj_on_subset)
  then show ?case by (simp add: comp_def)
next
  case (V_Map m)
  have "inj_on g (f ` (fst ` set m))"
    using V_Map.prems by (rule inj_on_subset) (auto simp: image_iff)
  then have "rename_value g (rename_value f (V_Map m)) =
      V_Map (attrs_of (map (\<lambda>(k, v). (g (f k), rename_value g (rename_value f v))) m))"
    by (simp add: attrs_of_map_compose)
  also have "map (\<lambda>(k, v). (g (f k), rename_value g (rename_value f v))) m
      = map (\<lambda>(k, v). (g (f k), rename_value (\<lambda>k. g (f k)) v)) m"
  proof (rule map_cong [OF refl], clarsimp)
    fix k v assume kv: "(k, v) \<in> set m"
    then have "f ` value_keys v \<subseteq> f ` value_keys (V_Map m)" by auto
    with V_Map.prems have "inj_on g (f ` value_keys v)" by (rule inj_on_subset)
    with V_Map.IH [OF kv] show "rename_value g (rename_value f v) = rename_value (\<lambda>k. g (f k)) v"
      by (simp add: snds.simps)
  qed
  finally show ?case by simp
qed auto

lemma rename_attrs_compose:
  "inj_on g (f ` attr_map_keys m) \<Longrightarrow> rename_attrs g (rename_attrs f m) = rename_attrs (\<lambda>k. g (f k)) m"
  using rename_value_compose [of g f "V_Map m"] by (simp add: attr_map_keys_def rename_attrs_def)

lemma rename_value_cong:
  "\<forall>k \<in> value_keys v. f k = g k \<Longrightarrow> rename_value f v = rename_value g v"
proof (induction v)
  case (V_Map m)
  have "map (\<lambda>(k, v). (f k, rename_value f v)) m = map (\<lambda>(k, v). (g k, rename_value g v)) m"
    using V_Map by (intro map_cong) (fastforce simp: snds.simps)+
  then show ?case by (simp only: rename_value.simps)
qed auto

lemma rename_attrs_cong:
  "\<forall>k \<in> attr_map_keys m. f k = g k \<Longrightarrow> rename_attrs f m = rename_attrs g m"
  using rename_value_cong [of "V_Map m" f g] by (simp add: attr_map_keys_def rename_attrs_def)

section \<open>Properties of attribute maps\<close>

text \<open>
  The sorted vector behind \<open>AttrMap\<close> implements a finite map: looking up, inserting and
  removing a key do what they do on the map it stands for, every operation keeps the keys sorted
  and distinct, and removing returns the value that was there.
\<close>

theorem attr_map_refines:
  assumes "attrs_sorted m"
  shows "get_sym key m = map_of m key \<and>
    map_of (insert_sym key v m) = (map_of m)(key \<mapsto> v) \<and> attrs_sorted (insert_sym key v m) \<and>
    map_of (snd (remove_sym key m)) = (map_of m)(key := None) \<and>
    fst (remove_sym key m) = map_of m key \<and> attrs_sorted (snd (remove_sym key m))"
  using assms
  by (simp add: get_sym_map_of map_of_insert_sym attrs_sorted_insert_sym map_of_remove_sym)

theorem attr_map_refines_witness:
  "let m = [(1 :: nat, True), (3, False)] in
   get_sym 3 m = map_of m 3 \<and> map_of (insert_sym 3 True m) = (map_of m)(3 \<mapsto> True) \<and>
   attrs_sorted (insert_sym 3 True m) \<and> map_of (snd (remove_sym 3 m)) = (map_of m)(3 := None) \<and>
   fst (remove_sym 3 m) = map_of m 3 \<and> attrs_sorted (snd (remove_sym 3 m))"
  unfolding Let_def by (rule attr_map_refines) simp

text \<open>
  The merge of a resource's and an event's attributes is the union in which the event wins, in
  key order and with every key once.
\<close>

theorem merged_prefers_event:
  assumes "attrs_sorted rs" and "attrs_sorted es"
  shows "attrs_sorted (merged rs es) \<and> map_of (merged rs es) = map_of rs ++ map_of es"
  using assms by (simp add: attrs_sorted_merged map_of_merged)

theorem merged_prefers_event_witness:
  "let rs = [(1 :: nat, 10 :: nat), (2, 20)]; es = [(2, 21), (3, 30)] in
   attrs_sorted (merged rs es) \<and> map_of (merged rs es) = map_of rs ++ map_of es"
  unfolding Let_def by (rule merged_prefers_event) simp_all

end
