(* ===== verification/Wire.thy ===== *)
theory Wire
  imports Dict Attrs
begin

text \<open>
  The shapes every record of the native payload is made of
  (\<open>crates/logit-proto/src/native/record.rs\<close>, "Shared TLV framing helpers"): fields of
  \<open>tag + length + payload\<close>, and counted lists of length-prefixed records. A writer appends
  bytes and grows the dictionary (\<open>'k writer\<close>); a reader takes the dictionary, the buffer and
  the decode budget. \<open>round_trip\<close> relates the two; the lemmas below carry it through the
  shapes, so that each record's proof is a list of its fields.
\<close>

section \<open>Writers\<close>

type_synonym 'k writer = "'k dict_builder \<Rightarrow> bytes \<times> 'k dict_builder"

definition w_bytes :: "bytes \<Rightarrow> 'k writer" where
  "w_bytes bs d = (bs, d)"

fun w_seq :: "'k writer list \<Rightarrow> 'k writer" where
  "w_seq [] d = ([], d)"
| "w_seq (w # ws) d = (let (b1, d) = w d; (b2, d) = w_seq ws d in (b1 @ b2, d))"

definition w_when :: "bool \<Rightarrow> 'k writer \<Rightarrow> 'k writer" where
  "w_when c w = (if c then w else w_bytes [])"

definition w_opt :: "'a option \<Rightarrow> ('a \<Rightarrow> 'k writer) \<Rightarrow> 'k writer" where
  "w_opt x w = (case x of Some y \<Rightarrow> w y | None \<Rightarrow> w_bytes [])"

text \<open>\<open>write_field\<close>: the payload is built first, in a buffer of its own.\<close>

definition write_field :: "u8 \<Rightarrow> 'k writer \<Rightarrow> 'k writer" where
  "write_field tag build d = (let (tmp, d) = build d in (tag # write_len (length tmp) @ tmp, d))"

text \<open>\<open>write_scalar_field\<close>: the caller declares the length; the payload must have it.\<close>

definition write_scalar_field :: "u8 \<Rightarrow> nat \<Rightarrow> bytes \<Rightarrow> 'k writer" where
  "write_scalar_field tag len payload d = (tag # write_len len @ payload, d)"

definition write_bytes_field :: "u8 \<Rightarrow> bytes \<Rightarrow> 'k writer" where
  "write_bytes_field tag bytes = write_scalar_field tag (length bytes) bytes"

definition write_symbol_field :: "u8 \<Rightarrow> 'k \<Rightarrow> 'k writer" where
  "write_symbol_field tag s d =
     (let (idx, d) = dict_intern s d in write_scalar_field tag 4 (le_bytes 4 idx) d)"

definition write_record_list :: "('a \<Rightarrow> 'k writer) \<Rightarrow> 'a list \<Rightarrow> 'k writer" where
  "write_record_list write_one items =
     w_seq (w_bytes (write_len (length items)) #
       map (\<lambda>item d. let (tmp, d) = write_one item d in (write_len (length tmp) @ tmp, d)) items)"

section \<open>Readers\<close>

type_synonym ('j, 'a) reader = "'j list \<Rightarrow> bytes \<Rightarrow> budget \<Rightarrow> ('a \<times> bytes \<times> budget) result"

text \<open>A reader that needs neither the dictionary nor the budget.\<close>

definition plain :: "(bytes \<Rightarrow> ('a \<times> bytes) result) \<Rightarrow> ('j, 'a) reader" where
  "plain r = (\<lambda>dict bytes b. bnd (r bytes) (\<lambda>(x, bytes). Inr (x, bytes, b)))"

text \<open>
  \<open>for_each_field\<close>: \<open>visit\<close> folds a tag and its carved payload into the record under
  construction, and must leave nothing of the payload. Each field takes at least a byte, so the
  buffer's length bounds the number of iterations.
\<close>

function for_each_field ::
    "('s \<Rightarrow> u8 \<Rightarrow> bytes \<Rightarrow> budget \<Rightarrow> ('s \<times> bytes \<times> budget) result) \<Rightarrow>
     's \<Rightarrow> bytes \<Rightarrow> budget \<Rightarrow> ('s \<times> budget) result" where
  "for_each_field visit s body b =
     (if body = [] then Inr (s, b)
      else
        bnd (read_u8 body) (\<lambda>(tag, body1).
        bnd (read_len body1) (\<lambda>(len, body2).
        bnd (split_to (Malformed ''field declares more bytes than remain'') len body2)
          (\<lambda>(field, body3).
        bnd (visit s tag field b) (\<lambda>(s, field, b).
        bnd (reject_if (field \<noteq> []) (Malformed ''field had trailing bytes'')) (\<lambda>_.
        for_each_field visit s body3 b))))))"
  by pat_completeness auto
termination
  by (relation "measure (\<lambda>(visit, s, body, b). length body)")
    (auto simp: split_to_eq_Inr dest!: read_u8_shorter read_len_shorter)

declare for_each_field.simps [simp del]

text \<open>\<open>_unknown => field.clear()\<close>: an unrecognized tag is skipped whole.\<close>

definition skip_field :: "'s \<Rightarrow> budget \<Rightarrow> ('s \<times> bytes \<times> budget) result" where
  "skip_field s b = Inr (s, [], b)"

definition read_list_entry ::
    "(bytes \<Rightarrow> budget \<Rightarrow> ('a \<times> bytes \<times> budget) result) \<Rightarrow>
     bytes \<times> budget \<Rightarrow> ('a \<times> bytes \<times> budget) result" where
  "read_list_entry read_one = (\<lambda>(bytes, b).
     bnd (read_len bytes) (\<lambda>(len, bytes).
     bnd (split_to (Malformed ''list entry declares more bytes than remain'') len bytes)
       (\<lambda>(item, bytes).
     bnd (read_one item b) (\<lambda>(value, item, b).
     bnd (reject_if (item \<noteq> []) (Malformed ''list entry had trailing bytes'')) (\<lambda>_.
     Inr (value, bytes, b))))))"

text \<open>\<open>read_record_list\<close>, charging \<open>sz\<close> (a \<open>T\<close>) per entry up front.\<close>

definition read_record_list ::
    "nat \<Rightarrow> (bytes \<Rightarrow> budget \<Rightarrow> ('a \<times> bytes \<times> budget) result) \<Rightarrow>
     bytes \<Rightarrow> budget \<Rightarrow> ('a list \<times> bytes \<times> budget) result" where
  "read_record_list sz read_one bytes b =
     bnd (read_len bytes) (\<lambda>(count, bytes).
     bnd (charge_list count 1 (length bytes) sz b) (\<lambda>b.
     repeat_read count (read_list_entry read_one) (bytes, b)))"

definition read_exact_u32 :: "bytes \<Rightarrow> (u32 \<times> bytes) result" where
  "read_exact_u32 bytes =
     (if length bytes \<noteq> 4 then Inl (Malformed ''expected 4 bytes for a u32'')
      else Inr (from_le_bytes bytes, []))"

definition read_exact_i64 :: "bytes \<Rightarrow> (i64 \<times> bytes) result" where
  "read_exact_i64 bytes =
     (if length bytes \<noteq> 8 then Inl (Malformed ''expected 8 bytes for an i64'')
      else Inr (from_le_bytes bytes, []))"

definition read_symbol_field :: "'j list \<Rightarrow> bytes \<Rightarrow> ('j \<times> bytes) result" where
  "read_symbol_field dict field =
     bnd (read_exact_u32 field) (\<lambda>(idx, field). bnd (dict_get dict idx) (\<lambda>s. Inr (s, field)))"

text \<open>Reading a field into one component of the record under construction.\<close>

definition set_field ::
    "('a \<Rightarrow> 's \<Rightarrow> 's) \<Rightarrow> 's \<Rightarrow> budget \<Rightarrow> ('a \<times> bytes) result \<Rightarrow> ('s \<times> bytes \<times> budget) result" where
  "set_field upd s b r = bnd r (\<lambda>(x, field). Inr (upd x s, field, b))"

definition set_field_b ::
    "('a \<Rightarrow> 's \<Rightarrow> 's) \<Rightarrow> 's \<Rightarrow> ('a \<times> bytes \<times> budget) result \<Rightarrow> ('s \<times> bytes \<times> budget) result" where
  "set_field_b upd s r = bnd r (\<lambda>(x, field, b). Inr (upd x s, field, b))"

lemma set_field_simps [simp]:
  "set_field upd s b (Inr (x, field)) = Inr (upd x s, field, b)"
  "set_field_b upd s (Inr (x, field, b)) = Inr (upd x s, field, b)"
  by (simp_all add: set_field_def set_field_b_def)

section \<open>What a writer does to the dictionary\<close>

text \<open>
  A writer keeps the builder's invariant, only appends to its symbols, and has put the symbols
  \<open>K\<close> into it when it is done.
\<close>

definition collects :: "'k set \<Rightarrow> 'k writer \<Rightarrow> bool" where
  "collects K w \<longleftrightarrow>
     (\<forall>d. dict_inv d \<longrightarrow> dict_inv (snd (w d)) \<and> prefix (db_symbols d) (db_symbols (snd (w d))) \<and>
        K \<subseteq> set (db_symbols (snd (w d))))"

named_theorems collects_intros

lemma collectsD:
  assumes "collects K w" and "dict_inv d"
  shows "dict_inv (snd (w d))" and "prefix (db_symbols d) (db_symbols (snd (w d)))"
    and "K \<subseteq> set (db_symbols (snd (w d)))"
  using assms by (auto simp: collects_def)

lemma collects_mono: "collects K w \<Longrightarrow> K' \<subseteq> K \<Longrightarrow> collects K' w"
  by (auto simp: collects_def)

lemma collects_bytes [collects_intros]: "collects {} (w_bytes bs)"
  by (simp add: collects_def w_bytes_def)

lemma collects_Nil: "collects {} (w_seq [])"
  by (simp add: collects_def)

lemma collects_Cons:
  assumes "collects K w" and "collects Ks (w_seq ws)"
  shows "collects (K \<union> Ks) (w_seq (w # ws))"
  unfolding collects_def
proof (intro allI impI)
  fix d :: "'a dict_builder" assume "dict_inv d"
  note a = collectsD [OF assms(1) this]
  note b = collectsD [OF assms(2) a(1)]
  have "K \<subseteq> set (db_symbols (snd (w_seq ws (snd (w d)))))"
    using a(3) set_mono_prefix [OF b(2)] by blast
  with a b show "dict_inv (snd (w_seq (w # ws) d)) \<and>
      prefix (db_symbols d) (db_symbols (snd (w_seq (w # ws) d))) \<and>
      K \<union> Ks \<subseteq> set (db_symbols (snd (w_seq (w # ws) d)))"
    by (auto simp: case_prod_beta Let_def intro: prefix_order.trans)
qed

lemma collects_seq_map:
  "(\<And>x. x \<in> set xs \<Longrightarrow> collects (K x) (w x)) \<Longrightarrow> collects (\<Union>x \<in> set xs. K x) (w_seq (map w xs))"
  by (induction xs) (auto intro: collects_Nil collects_Cons)

lemma collects_when [collects_intros]:
  "collects K w \<Longrightarrow> collects (if c then K else {}) (w_when c w)"
  by (simp add: w_when_def collects_bytes)

lemma collects_opt [collects_intros]:
  "(\<And>y. collects (K y) (w y)) \<Longrightarrow>
     collects (case x of Some y \<Rightarrow> K y | None \<Rightarrow> {}) (w_opt x w)"
  by (simp add: w_opt_def collects_bytes split: option.split)

lemma collects_field [collects_intros]: "collects K w \<Longrightarrow> collects K (write_field tag w)"
  by (simp add: collects_def write_field_def case_prod_beta Let_def)

lemma collects_scalar [collects_intros]: "collects {} (write_scalar_field tag len p)"
  by (simp add: collects_def write_scalar_field_def)

lemma collects_bytes_field [collects_intros]: "collects {} (write_bytes_field tag p)"
  unfolding write_bytes_field_def by (rule collects_scalar)

lemma collects_symbol [collects_intros]: "collects {s} (write_symbol_field tag s)"
  unfolding collects_def
proof (intro allI impI)
  fix d :: "'a dict_builder" assume d: "dict_inv d"
  obtain i d' where i: "dict_intern s d = (i, d')" by (cases "dict_intern s d")
  from dict_intern_inv [OF d i] show "dict_inv (snd (write_symbol_field tag s d)) \<and>
      prefix (db_symbols d) (db_symbols (snd (write_symbol_field tag s d))) \<and>
      {s} \<subseteq> set (db_symbols (snd (write_symbol_field tag s d)))"
    by (auto simp: write_symbol_field_def write_scalar_field_def i)
qed

lemma collects_record_list [collects_intros]:
  assumes "\<And>x. collects (K x) (w x)"
  shows "collects (\<Union>x \<in> set xs. K x) (write_record_list w xs)"
proof -
  have "collects (\<Union>x \<in> set xs. K x) (w_seq (map (\<lambda>item d.
      let (tmp, d) = w item d in (write_len (length tmp) @ tmp, d)) xs))"
    using assms by (intro collects_seq_map) (simp add: collects_def case_prod_beta Let_def)
  from collects_Cons [OF collects_bytes this] show ?thesis
    by (simp add: write_record_list_def)
qed

section \<open>Round trips\<close>

text \<open>
  Reading back what \<open>w\<close> wrote gives \<open>x\<close>, leaves what follows, and spends exactly \<open>c\<close>: for
  every builder the writer may start from and every dictionary of the reader that serves the
  builder it ends with. The length bound is the width of a length field.
\<close>

definition round_trip :: "('k \<Rightarrow> 'j) \<Rightarrow> 'k writer \<Rightarrow> ('j, 'a) reader \<Rightarrow> 'a \<Rightarrow> nat \<Rightarrow> bool" where
  "round_trip f w r x c \<longleftrightarrow>
     (\<forall>d R rest b. dict_inv d \<longrightarrow> serves f (snd (w d)) R \<longrightarrow> length (fst (w d)) < 2 ^ 64 \<longrightarrow>
        c \<le> remaining b \<longrightarrow> r R (fst (w d) @ rest) b = Inr (x, rest, spend c b))"

text \<open>The same for a payload the reader is handed whole.\<close>

definition whole_trip :: "('k \<Rightarrow> 'j) \<Rightarrow> 'k writer \<Rightarrow> ('j, 'a) reader \<Rightarrow> 'a \<Rightarrow> nat \<Rightarrow> bool" where
  "whole_trip f w r x c \<longleftrightarrow>
     (\<forall>d R b. dict_inv d \<longrightarrow> serves f (snd (w d)) R \<longrightarrow> length (fst (w d)) < 2 ^ 64 \<longrightarrow>
        c \<le> remaining b \<longrightarrow> r R (fst (w d)) b = Inr (x, [], spend c b))"

lemma round_tripD:
  assumes "round_trip f w r x c" and "dict_inv d" and "serves f (snd (w d)) R"
    and "length (fst (w d)) < 2 ^ 64" and "c \<le> remaining b"
  shows "r R (fst (w d) @ rest) b = Inr (x, rest, spend c b)"
  using assms by (simp add: round_trip_def)

lemma whole_tripD:
  assumes "whole_trip f w r x c" and "dict_inv d" and "serves f (snd (w d)) R"
    and "length (fst (w d)) < 2 ^ 64" and "c \<le> remaining b"
  shows "r R (fst (w d)) b = Inr (x, [], spend c b)"
  using assms by (simp add: whole_trip_def)

lemma round_trip_whole: "round_trip f w r x c \<Longrightarrow> whole_trip f w r x c"
  unfolding round_trip_def whole_trip_def by (metis append_Nil2)

text \<open>A sequence of \<open>n\<close> items, read by \<open>repeat_read\<close>.\<close>

lemma round_trip_repeat:
  assumes "\<And>x. x \<in> set xs \<Longrightarrow> round_trip f (w x) r (g x) (c x)"
    and "\<And>x. x \<in> set xs \<Longrightarrow> collects {} (w x)"
  shows "round_trip f (w_seq (map w xs))
      (\<lambda>R bytes b. repeat_read (length xs) (\<lambda>(bytes, b). r R bytes b) (bytes, b))
      (map g xs) (sum_list (map c xs))"
  using assms
proof (induction xs)
  case Nil
  then show ?case by (simp add: round_trip_def)
next
  case (Cons x xs)
  have IH: "round_trip f (w_seq (map w xs))
      (\<lambda>R bytes b. repeat_read (length xs) (\<lambda>(bytes, b). r R bytes b) (bytes, b))
      (map g xs) (sum_list (map c xs))"
    by (rule Cons.IH) (simp_all add: Cons.prems)
  have rest_ok: "collects (\<Union>x \<in> set xs. {}) (w_seq (map w xs))"
    by (rule collects_seq_map) (simp add: Cons.prems(2))
  show ?case
    unfolding round_trip_def
  proof (intro allI impI)
    fix d R rest and b :: budget
    assume d: "dict_inv d" and s: "serves f (snd (w_seq (map w (x # xs)) d)) R"
      and len: "length (fst (w_seq (map w (x # xs)) d)) < 2 ^ 64"
      and c: "sum_list (map c (x # xs)) \<le> remaining b"
    let ?d = "snd (w x d)"
    have d1: "dict_inv ?d" by (rule collectsD [OF Cons.prems(2) d]) simp
    have s2: "serves f (snd (w_seq (map w xs) ?d)) R"
      using s by (simp add: case_prod_beta Let_def)
    then have s1: "serves f ?d R"
      by (rule serves_prefix) (rule collectsD(2) [OF rest_ok d1])
    have "r R (fst (w x d) @ fst (w_seq (map w xs) ?d) @ rest) b
        = Inr (g x, fst (w_seq (map w xs) ?d) @ rest, spend (c x) b)"
      using len c by (intro round_tripD [OF Cons.prems(1) d s1]) (auto simp: case_prod_beta Let_def)
    moreover have "repeat_read (length xs) (\<lambda>(bytes, b). r R bytes b)
        (fst (w_seq (map w xs) ?d) @ rest, spend (c x) b)
        = Inr (map g xs, rest, spend (sum_list (map c xs)) (spend (c x) b))"
      using len c by (intro round_tripD [OF IH d1 s2]) (auto simp: case_prod_beta Let_def)
    ultimately show "repeat_read (length (x # xs)) (\<lambda>(bytes, b). r R bytes b)
        (fst (w_seq (map w (x # xs)) d) @ rest, b)
        = Inr (map g (x # xs), rest, spend (sum_list (map c (x # xs))) b)"
      by (simp add: case_prod_beta Let_def)
  qed
qed

lemma length_w_seq_ge:
  "(\<And>x d. x \<in> set xs \<Longrightarrow> n \<le> length (fst (w x d))) \<Longrightarrow>
     length xs * n \<le> length (fst (w_seq (map w xs) d))"
  by (induction xs arbitrary: d) (auto simp: case_prod_beta Let_def add_mono)

lemma length_write_len_pos [simp]: "0 < length (write_uvarint v)"
  by (subst write_uvarint.simps) (simp add: Let_def)

lemma write_uvarint_nonempty [simp]: "write_uvarint v \<noteq> []"
  by (subst write_uvarint.simps) (simp add: Let_def)

text \<open>
  A counted sequence: the count, the charge for it, then the items. The count passes the check
  against the bytes left because each item takes at least \<open>m\<close> of them.
\<close>

lemma round_trip_counted:
  assumes items: "round_trip f (w_seq (map w xs))
      (\<lambda>R bytes b. repeat_read (length xs) (rd R) (bytes, b)) ys c"
    and min: "\<And>x d. x \<in> set xs \<Longrightarrow> m \<le> length (fst (w x d))" and "0 < m"
  shows "round_trip f (w_seq (w_bytes (write_len (length xs)) # map w xs))
      (\<lambda>R bytes b. bnd (read_len bytes) (\<lambda>(count, bytes).
         bnd (charge_list count m (length bytes) sz b) (\<lambda>b. repeat_read count (rd R) (bytes, b))))
      ys (saturating_mul (length xs) sz + c)"
  unfolding round_trip_def
proof (intro allI impI)
  fix d R rest and b :: budget
  let ?ws = "w_seq (w_bytes (write_len (length xs)) # map w xs)"
  let ?n = "length xs"
  assume d: "dict_inv d" and s: "serves f (snd (?ws d)) R"
    and len: "length (fst (?ws d)) < 2 ^ 64" and cost: "saturating_mul ?n sz + c \<le> remaining b"
  have ge: "?n * m \<le> length (fst (w_seq (map w xs) d))"
    by (rule length_w_seq_ge [OF min])
  then have "?n \<le> length (fst (w_seq (map w xs) d))"
    using \<open>0 < m\<close> by (cases m) auto
  then have n: "?n < 2 ^ 64"
    using len by (simp add: case_prod_beta Let_def w_bytes_def)
  have avail: "?n \<le> length (fst (w_seq (map w xs) d) @ rest) div m"
    using ge \<open>0 < m\<close> by (simp add: less_eq_div_iff_mult_less_eq)
  have rd: "repeat_read ?n (rd R) (fst (w_seq (map w xs) d) @ rest, spend (saturating_mul ?n sz) b)
      = Inr (ys, rest, spend c (spend (saturating_mul ?n sz) b))"
    using s len cost
    by (intro round_tripD [OF items d]) (simp_all add: case_prod_beta Let_def w_bytes_def)
  show "bnd (read_len (fst (?ws d) @ rest)) (\<lambda>(count, bytes).
         bnd (charge_list count m (length bytes) sz b) (\<lambda>b. repeat_read count (rd R) (bytes, b)))
      = Inr (ys, rest, spend (saturating_mul ?n sz + c) b)"
    using n avail rd cost by (simp add: case_prod_beta Let_def w_bytes_def)
qed

lemma round_trip_list_entry:
  assumes "whole_trip f w r x c"
  shows "round_trip f (\<lambda>d. let (tmp, d) = w d in (write_len (length tmp) @ tmp, d))
      (\<lambda>R bytes b. read_list_entry (r R) (bytes, b)) x c"
  unfolding round_trip_def
proof (intro allI impI)
  fix d R rest and b :: budget
  let ?w = "\<lambda>d. let (tmp, d) = w d in (write_len (length tmp) @ tmp, d)"
  assume "dict_inv d" and "serves f (snd (?w d)) R" and len: "length (fst (?w d)) < 2 ^ 64"
    and "c \<le> remaining b"
  then have "r R (fst (w d)) b = Inr (x, [], spend c b)"
    by (intro whole_tripD [OF assms]) (simp_all add: case_prod_beta Let_def)
  with len show "read_list_entry (r R) (fst (?w d) @ rest, b) = Inr (x, rest, spend c b)"
    by (simp add: read_list_entry_def case_prod_beta Let_def)
qed

lemma round_trip_record_list:
  assumes "\<And>x. x \<in> set xs \<Longrightarrow> whole_trip f (w x) r (g x) (c x)"
    and "\<And>x. x \<in> set xs \<Longrightarrow> collects {} (w x)"
  shows "round_trip f (write_record_list w xs) (\<lambda>R. read_record_list sz (r R))
      (map g xs) (saturating_mul (length xs) sz + sum_list (map c xs))"
proof -
  let ?e = "\<lambda>x d. let (tmp, d) = w x d in (write_len (length tmp) @ tmp, d)"
  have "round_trip f (w_seq (map ?e xs))
      (\<lambda>R bytes b. repeat_read (length xs) (\<lambda>(bytes, b). read_list_entry (r R) (bytes, b)) (bytes, b))
      (map g xs) (sum_list (map c xs))"
  proof (rule round_trip_repeat)
    show "collects {} (?e x)" if "x \<in> set xs" for x
      using assms(2) [OF that] by (simp add: collects_def case_prod_beta Let_def)
  qed (rule round_trip_list_entry [OF assms(1)])
  then have items: "round_trip f (w_seq (map ?e xs))
      (\<lambda>R bytes b. repeat_read (length xs) (read_list_entry (r R)) (bytes, b))
      (map g xs) (sum_list (map c xs))"
    by simp
  have "1 \<le> length (fst (?e x d))" for x d
    using length_write_len_pos by (simp add: case_prod_beta Let_def Suc_le_eq)
  from round_trip_counted [OF items this, of sz] show ?thesis
    by (simp add: write_record_list_def read_record_list_def [abs_def])
qed

section \<open>Fields\<close>

text \<open>
  The fields \<open>w\<close> writes take the record under construction from \<open>s\<close> to \<open>s'\<close>.
\<close>

definition field_trip ::
    "('k \<Rightarrow> 'j) \<Rightarrow> 'k writer \<Rightarrow>
     ('j list \<Rightarrow> 's \<Rightarrow> u8 \<Rightarrow> bytes \<Rightarrow> budget \<Rightarrow> ('s \<times> bytes \<times> budget) result) \<Rightarrow>
     's \<Rightarrow> 's \<Rightarrow> nat \<Rightarrow> bool" where
  "field_trip f w visit s s' c \<longleftrightarrow>
     (\<forall>d R rest b. dict_inv d \<longrightarrow> serves f (snd (w d)) R \<longrightarrow> length (fst (w d)) < 2 ^ 64 \<longrightarrow>
        c \<le> remaining b \<longrightarrow>
        for_each_field (visit R) s (fst (w d) @ rest) b = for_each_field (visit R) s' rest (spend c b))"

lemma for_each_field_Nil [simp]: "for_each_field visit s [] b = Inr (s, b)"
  by (simp add: for_each_field.simps)

lemma for_each_field_step:
  assumes "length p < 2 ^ 64" and "visit s tag p b = Inr (s', [], b')"
  shows "for_each_field visit s (tag # write_len (length p) @ p @ rest) b
       = for_each_field visit s' rest b'"
  using assms by (subst for_each_field.simps) simp

lemma field_trip_field:
  assumes "whole_trip f w (\<lambda>R. visit R s tag) s' c"
  shows "field_trip f (write_field tag w) visit s s' c"
  unfolding field_trip_def
proof (intro allI impI)
  fix d R rest and b :: budget
  assume "dict_inv d" and "serves f (snd (write_field tag w d)) R"
    and len: "length (fst (write_field tag w d)) < 2 ^ 64" and "c \<le> remaining b"
  then have "visit R s tag (fst (w d)) b = Inr (s', [], spend c b)"
    by (intro whole_tripD [OF assms, simplified]) (simp_all add: write_field_def case_prod_beta Let_def)
  with len show "for_each_field (visit R) s (fst (write_field tag w d) @ rest) b
      = for_each_field (visit R) s' rest (spend c b)"
    by (simp add: write_field_def case_prod_beta Let_def for_each_field_step)
qed

lemma field_trip_scalar:
  assumes "length p = len" and "\<And>R b. visit R s tag p b = Inr (s', [], b)"
  shows "field_trip f (write_scalar_field tag len p) visit s s' 0"
  using assms by (auto simp: field_trip_def write_scalar_field_def for_each_field_step)

lemma field_trip_bytes:
  assumes "\<And>R b. visit R s tag p b = Inr (s', [], b)"
  shows "field_trip f (write_bytes_field tag p) visit s s' 0"
  using assms unfolding write_bytes_field_def by (intro field_trip_scalar) auto

lemma read_symbol_field_written:
  "dict_get R idx = Inr s \<Longrightarrow> read_symbol_field R (le_bytes 4 idx) = Inr (s, [])"
  by (simp add: read_symbol_field_def read_exact_u32_def from_le_bytes_le_bytes)

lemma field_trip_symbol:
  assumes "\<And>R p b. read_symbol_field R p = Inr (f k, []) \<Longrightarrow> visit R s tag p b = Inr (s', [], b)"
  shows "field_trip f (write_symbol_field tag k) visit s s' 0"
  unfolding field_trip_def
proof (intro allI impI)
  fix d R rest and b :: budget
  assume d: "dict_inv d" and s: "serves f (snd (write_symbol_field tag k d)) R"
  obtain i d' where i: "dict_intern k d = (i, d')" by (cases "dict_intern k d")
  with s have "serves f d' R" by (simp add: write_symbol_field_def write_scalar_field_def)
  from dict_intern_get [OF d i this]
  have "visit R s tag (le_bytes 4 i) b = Inr (s', [], b)"
    by (intro assms read_symbol_field_written)
  then show "for_each_field (visit R) s (fst (write_symbol_field tag k d) @ rest) b
      = for_each_field (visit R) s' rest (spend 0 b)"
    using for_each_field_step [of "le_bytes 4 i"]
    by (simp add: write_symbol_field_def write_scalar_field_def i)
qed

lemma field_trip_when:
  assumes "c \<Longrightarrow> field_trip f w visit s s' n" and "\<not> c \<Longrightarrow> s' = s \<and> n = 0"
  shows "field_trip f (w_when c w) visit s s' n"
  using assms by (cases c) (auto simp: w_when_def field_trip_def w_bytes_def)

lemma field_trip_opt:
  assumes "\<And>y. x = Some y \<Longrightarrow> field_trip f (w y) visit s s' n" and "x = None \<Longrightarrow> s' = s \<and> n = 0"
  shows "field_trip f (w_opt x w) visit s s' n"
  using assms by (cases x) (auto simp: w_opt_def field_trip_def w_bytes_def)

lemma field_trip_Nil: "field_trip f (w_seq []) visit s s 0"
  by (simp add: field_trip_def)

lemma field_trip_Cons:
  assumes "field_trip f w visit s s1 c1" and "collects {} w"
    and "field_trip f (w_seq ws) visit s1 s2 c2" and "collects {} (w_seq ws)"
  shows "field_trip f (w_seq (w # ws)) visit s s2 (c1 + c2)"
  unfolding field_trip_def
proof (intro allI impI)
  fix d R rest and b :: budget
  assume d: "dict_inv d" and s: "serves f (snd (w_seq (w # ws) d)) R"
    and len: "length (fst (w_seq (w # ws) d)) < 2 ^ 64" and cost: "c1 + c2 \<le> remaining b"
  let ?d = "snd (w d)"
  have d1: "dict_inv ?d" by (rule collectsD [OF assms(2) d])
  have s2: "serves f (snd (w_seq ws ?d)) R" using s by (simp add: case_prod_beta Let_def)
  then have s1: "serves f ?d R" by (rule serves_prefix) (rule collectsD(2) [OF assms(4) d1])
  have "for_each_field (visit R) s (fst (w d) @ fst (w_seq ws ?d) @ rest) b
      = for_each_field (visit R) s1 (fst (w_seq ws ?d) @ rest) (spend c1 b)"
    using assms(1) d s1 len cost by (simp add: field_trip_def case_prod_beta Let_def)
  also have "\<dots> = for_each_field (visit R) s2 rest (spend c2 (spend c1 b))"
    using assms(3) d1 s2 len cost by (simp add: field_trip_def case_prod_beta Let_def)
  finally show "for_each_field (visit R) s (fst (w_seq (w # ws) d) @ rest) b
      = for_each_field (visit R) s2 rest (spend (c1 + c2) b)"
    by (simp add: case_prod_beta Let_def)
qed

text \<open>A record: all its fields, then what the reader makes of the completed state.\<close>

lemma whole_trip_record:
  assumes "field_trip f w visit s s' c" and "\<And>b. finish (s', b) = Inr (x, [], b)"
  shows "whole_trip f w (\<lambda>R bytes b. bnd (for_each_field (visit R) s bytes b) finish) x c"
  unfolding whole_trip_def
proof (intro allI impI)
  fix d R and b :: budget
  assume "dict_inv d" and "serves f (snd (w d)) R" and "length (fst (w d)) < 2 ^ 64"
    and "c \<le> remaining b"
  then have "for_each_field (visit R) s (fst (w d) @ []) b = for_each_field (visit R) s' [] (spend c b)"
    using assms(1) unfolding field_trip_def by blast
  with assms(2) show "bnd (for_each_field (visit R) s (fst (w d)) b) finish = Inr (x, [], spend c b)"
    by simp
qed

section \<open>Writers that only append to the dictionary\<close>

lemma collects_empty: "collects K w \<Longrightarrow> collects {} w"
  by (rule collects_mono) simp_all

lemma keeps_simps [simp]:
  "collects {} (w_bytes bs)"
  "collects {} w \<Longrightarrow> collects {} (w_when c w)"
  "collects {} w \<Longrightarrow> collects {} (write_field tag w)"
  "collects {} (write_scalar_field tag len p)"
  "collects {} (write_bytes_field tag p)"
  "collects {} (write_symbol_field tag k)"
  "collects {} (w_seq [])"
  by (auto intro: collects_empty [OF collects_bytes] collects_empty [OF collects_when]
      collects_field collects_scalar collects_bytes_field collects_empty [OF collects_symbol]
      collects_Nil)

lemma keeps_Cons [simp]:
  "collects {} w \<Longrightarrow> collects {} (w_seq ws) \<Longrightarrow> collects {} (w_seq (w # ws))"
  using collects_Cons [of "{}" w "{}" ws] by simp

lemma keeps_opt [simp]: "(\<And>y. collects {} (w y)) \<Longrightarrow> collects {} (w_opt x w)"
  by (cases x) (simp_all add: w_opt_def)

lemma keeps_record_list [simp]: "(\<And>x. collects {} (w x)) \<Longrightarrow> collects {} (write_record_list w xs)"
  using collects_record_list [of "\<lambda>_. {}" w xs] by simp

section \<open>Fields by their reader\<close>

text \<open>
  \<open>visit\<close>'s branch for a tag reads the payload with \<open>r\<close> and stores the value with \<open>F\<close>, the
  update function of a component of the record under construction; \<open>branch_some\<close> stores
  \<open>Some\<close> of it. One rule per way a field is written: a field that may be absent needs the
  update at the default to be a no-op.
\<close>

definition branch ::
    "('j list \<Rightarrow> 's \<Rightarrow> u8 \<Rightarrow> bytes \<Rightarrow> budget \<Rightarrow> ('s \<times> bytes \<times> budget) result) \<Rightarrow> 's \<Rightarrow> u8 \<Rightarrow>
     (('a \<Rightarrow> 'a) \<Rightarrow> 's \<Rightarrow> 's) \<Rightarrow> ('j, 'a) reader \<Rightarrow> bool" where
  "branch visit s tag F r \<longleftrightarrow>
     (\<forall>R p b. visit R s tag p b = set_field_b (\<lambda>v. F (\<lambda>_. v)) s (r R p b))"

definition branch_some ::
    "('j list \<Rightarrow> 's \<Rightarrow> u8 \<Rightarrow> bytes \<Rightarrow> budget \<Rightarrow> ('s \<times> bytes \<times> budget) result) \<Rightarrow> 's \<Rightarrow> u8 \<Rightarrow>
     (('a option \<Rightarrow> 'a option) \<Rightarrow> 's \<Rightarrow> 's) \<Rightarrow> ('j, 'a) reader \<Rightarrow> bool" where
  "branch_some visit s tag F r \<longleftrightarrow>
     (\<forall>R p b. visit R s tag p b = set_field_b (\<lambda>v. F (\<lambda>_. Some v)) s (r R p b))"

lemma set_field_b_plain [simp]: "set_field_b upd s (plain r R p b) = set_field upd s b (r p)"
  by (cases "r p") (auto simp: set_field_b_def set_field_def plain_def bnd_def)

text \<open>\<open>std::mem::take(field)\<close>.\<close>

definition take_field :: "bytes \<Rightarrow> (bytes \<times> bytes) result" where
  "take_field field = Inr (field, [])"

definition symbol_reader :: "('j, 'j) reader" where
  "symbol_reader R = plain (read_symbol_field R) R"

lemma read_exact_written [simp]:
  "read_exact_i64 (le_bytes 8 v) = Inr (v, [])"
  "read_exact_u32 (le_bytes 4 w) = Inr (w, [])"
  by (simp_all add: read_exact_i64_def read_exact_u32_def from_le_bytes_le_bytes)

lemma field_plain:
  assumes "branch visit s tag F (plain r)" and "r p = Inr (v, [])" and "length p = len"
  shows "field_trip f (write_scalar_field tag len p) visit s (F (\<lambda>_. v) s) 0"
  using assms by (intro field_trip_scalar) (simp_all add: branch_def)

lemma field_plain_some:
  assumes "branch_some visit s tag F (plain r)" and "r p = Inr (v, [])" and "length p = len"
  shows "field_trip f (write_scalar_field tag len p) visit s (F (\<lambda>_. Some v) s) 0"
  using assms by (intro field_trip_scalar) (simp_all add: branch_some_def)

lemma field_plain_when:
  assumes "branch visit s tag F (plain r)" and "r p = Inr (v, [])" and "length p = len"
    and "\<not> c \<Longrightarrow> F (\<lambda>_. v) s = s"
  shows "field_trip f (w_when c (write_scalar_field tag len p)) visit s (F (\<lambda>_. v) s) 0"
  using assms(4) by (intro field_trip_when field_plain [OF assms(1-3)]) simp

lemma field_plain_opt:
  assumes "branch_some visit s tag F (plain r)"
    and "\<And>y. x = Some y \<Longrightarrow> r (enc y) = Inr (y, [])" and "\<And>y. x = Some y \<Longrightarrow> length (enc y) = len y"
    and "F (\<lambda>_. None) s = s"
  shows "field_trip f (w_opt x (\<lambda>y. write_scalar_field tag (len y) (enc y))) visit s (F (\<lambda>_. x) s) 0"
  using assms(2-) by (intro field_trip_opt) (auto intro!: field_plain_some [OF assms(1)])

lemma field_bytes_when:
  assumes "branch visit s tag F (plain take_field)" and "\<not> c \<Longrightarrow> F (\<lambda>_. p) s = s"
  shows "field_trip f (w_when c (write_bytes_field tag p)) visit s (F (\<lambda>_. p) s) 0"
  unfolding write_bytes_field_def using assms(2)
  by (intro field_plain_when [OF assms(1)]) (simp_all add: take_field_def)

lemma field_bytes_opt:
  assumes "branch_some visit s tag F (plain take_field)" and "F (\<lambda>_. None) s = s"
  shows "field_trip f (w_opt x (write_bytes_field tag)) visit s (F (\<lambda>_. x) s) 0"
proof -
  have eq: "write_bytes_field tag = (\<lambda>y. write_scalar_field tag (length y) y)"
    by (simp add: fun_eq_iff write_bytes_field_def)
  show ?thesis
    unfolding eq using assms(2) by (intro field_plain_opt [OF assms(1)]) (simp_all add: take_field_def)
qed

lemma field_i64:
  assumes "branch visit s tag F (plain read_exact_i64)"
  shows "field_trip f (write_scalar_field tag 8 (le_bytes 8 v)) visit s (F (\<lambda>_. v) s) 0"
  by (rule field_plain [OF assms]) simp_all

lemma field_i64_nonzero:
  assumes "branch visit s tag F (plain read_exact_i64)" and "F (\<lambda>_. 0) s = s"
  shows "field_trip f (w_when (v \<noteq> 0) (write_scalar_field tag 8 (le_bytes 8 v))) visit s
    (F (\<lambda>_. v) s) 0"
  using assms(2) by (intro field_plain_when [OF assms(1)]) auto

lemma field_u32_nonzero:
  assumes "branch visit s tag F (plain read_exact_u32)" and "F (\<lambda>_. 0) s = s"
  shows "field_trip f (w_when (v \<noteq> 0) (write_scalar_field tag 4 (le_bytes 4 v))) visit s
    (F (\<lambda>_. v) s) 0"
  using assms(2) by (intro field_plain_when [OF assms(1)]) auto

lemma field_symbol_some:
  assumes "branch_some visit s tag F symbol_reader"
  shows "field_trip f (write_symbol_field tag k) visit s (F (\<lambda>_. Some (f k)) s) 0"
  using assms by (intro field_trip_symbol) (simp add: branch_some_def symbol_reader_def)

lemma field_symbol_opt:
  assumes "branch_some visit s tag F symbol_reader" and "F (\<lambda>_. None) s = s"
  shows "field_trip f (w_opt k (write_symbol_field tag)) visit s (F (\<lambda>_. map_option f k) s) 0"
  using assms(2) by (intro field_trip_opt) (auto intro: field_symbol_some [OF assms(1)])

lemma field_nested:
  assumes "branch visit s tag F r" and "whole_trip f w r x c"
  shows "field_trip f (write_field tag w) visit s (F (\<lambda>_. x) s) c"
  using assms by (intro field_trip_field) (simp add: whole_trip_def branch_def)

lemma field_nested_some:
  assumes "branch_some visit s tag F r" and "whole_trip f w r x c"
  shows "field_trip f (write_field tag w) visit s (F (\<lambda>_. Some x) s) c"
  using assms by (intro field_trip_field) (simp add: whole_trip_def branch_some_def)

lemma field_nested_when:
  assumes "branch visit s tag F r" and "whole_trip f w r x c"
    and "\<not> k \<Longrightarrow> F (\<lambda>_. x) s = s \<and> c = 0"
  shows "field_trip f (w_when k (write_field tag w)) visit s (F (\<lambda>_. x) s) c"
  using assms(3) by (intro field_trip_when field_nested [OF assms(1,2)])

lemma field_nested_opt:
  assumes "branch_some visit s tag F r"
    and "\<And>y. x = Some y \<Longrightarrow> whole_trip f (w y) r (g y) (c y)" and "F (\<lambda>_. None) s = s"
  shows "field_trip f (w_opt x (\<lambda>y. write_field tag (w y))) visit s (F (\<lambda>_. map_option g x) s)
    (case x of Some y \<Rightarrow> c y | None \<Rightarrow> 0)"
  using assms(2,3) by (intro field_trip_opt) (auto intro: field_nested_some [OF assms(1)])

lemma whole_trip_plain:
  "r bs = Inr (x, []) \<Longrightarrow> whole_trip f (w_bytes bs) (plain r) x 0"
  by (simp add: whole_trip_def plain_def w_bytes_def)

lemma field_trip_end: "s = s' \<Longrightarrow> field_trip f (w_seq []) visit s s' 0"
  by (simp add: field_trip_Nil)

lemma field_trip_cost: "field_trip f w visit s s' c \<Longrightarrow> c = c' \<Longrightarrow> field_trip f w visit s s' c'"
  by simp

end
