(* ===== verification/Native_Value.thy ===== *)
theory Native_Value
  imports Wire
begin

text \<open>
  \<open>crates/logit-proto/src/native/value.rs\<close>: attribute values and attribute maps on the wire.
  Every value is \<open>tag(1) + len(varint) + payload\<close>; arrays and maps nest, to a depth the decoder
  caps; a map's keys are indices into the payload's dictionary.
\<close>

definition TAG_NULL :: u8 where "TAG_NULL = 0"
definition TAG_BOOL :: u8 where "TAG_BOOL = 1"
definition TAG_I64 :: u8 where "TAG_I64 = 2"
definition TAG_U64 :: u8 where "TAG_U64 = 3"
definition TAG_F64 :: u8 where "TAG_F64 = 4"
definition TAG_BYTES :: u8 where "TAG_BYTES = 5"
definition TAG_STR :: u8 where "TAG_STR = 6"
definition TAG_TIMESTAMP :: u8 where "TAG_TIMESTAMP = 7"
definition TAG_ARRAY :: u8 where "TAG_ARRAY = 8"
definition TAG_MAP :: u8 where "TAG_MAP = 9"

lemmas value_tags = TAG_NULL_def TAG_BOOL_def TAG_I64_def TAG_U64_def TAG_F64_def TAG_BYTES_def
  TAG_STR_def TAG_TIMESTAMP_def TAG_ARRAY_def TAG_MAP_def

definition MAX_VALUE_DEPTH :: nat where "MAX_VALUE_DEPTH = 128"

section \<open>Writing\<close>

text \<open>\<open>write_uvarint(out, dict.intern(key) as u64)\<close>.\<close>

definition write_key :: "'k \<Rightarrow> 'k writer" where
  "write_key key d = (let (idx, d) = dict_intern key d in (write_uvarint (ucast idx), d))"

fun write_value :: "'k attr_value \<Rightarrow> 'k writer" where
  "write_value V_Null = write_scalar_field TAG_NULL 0 []"
| "write_value (V_Bool b) = write_scalar_field TAG_BOOL 1 [of_bool b]"
| "write_value (V_I64 v) = write_field TAG_I64 (w_bytes (write_ivarint v))"
| "write_value (V_U64 v) = write_field TAG_U64 (w_bytes (write_uvarint v))"
| "write_value (V_F64 v) = write_scalar_field TAG_F64 8 (le_bytes 8 v)"
| "write_value (V_Bytes b) = write_scalar_field TAG_BYTES (length b) b"
| "write_value (V_Str b) = write_scalar_field TAG_STR (length b) b"
| "write_value (V_Timestamp v) = write_field TAG_TIMESTAMP (w_bytes (write_ivarint v))"
| "write_value (V_Array items) =
     write_field TAG_ARRAY (w_seq (w_bytes (write_len (length items)) # map write_value items))"
| "write_value (V_Map m) =
     write_field TAG_MAP (w_seq (w_bytes (write_len (length m)) #
       map (\<lambda>(key, value). w_seq [write_key key, write_value value]) m))"

definition write_attr_map :: "'k attr_map \<Rightarrow> 'k writer" where
  "write_attr_map m =
     w_seq (w_bytes (write_len (length m)) #
       map (\<lambda>(key, value). w_seq [write_key key, write_value value]) m)"

text \<open>\<open>res\<close> is \<open>interner::resolve\<close>: the entries whose key starts with \<open>omit\<close> are left out.\<close>

definition kept_attrs :: "('k \<Rightarrow> bytes) \<Rightarrow> bytes \<Rightarrow> 'k attr_map \<Rightarrow> 'k attr_map" where
  "kept_attrs res omit m = filter (\<lambda>(key, value). \<not> prefix omit (res key)) m"

definition write_attr_map_omitting :: "('k \<Rightarrow> bytes) \<Rightarrow> bytes \<Rightarrow> 'k attr_map \<Rightarrow> 'k writer" where
  "write_attr_map_omitting res omit m =
     w_seq (w_bytes (write_len (length (kept_attrs res omit m))) #
       map (\<lambda>(key, value). w_seq [write_key key, write_value value]) (kept_attrs res omit m))"

section \<open>Reading\<close>

text \<open>
  One entry of \<open>read_attr_map_at\<close>; \<open>read_one\<close> is \<open>read_value_at\<close> at the map's depth. The index
  is a varint cut to 32 bits (\<open>as u32\<close>).
\<close>

definition read_attr_entry ::
    "'j list \<Rightarrow> (bytes \<Rightarrow> budget \<Rightarrow> ('j attr_value \<times> bytes \<times> budget) result) \<Rightarrow>
     bytes \<times> budget \<Rightarrow> (('j \<times> 'j attr_value) \<times> bytes \<times> budget) result" where
  "read_attr_entry dict read_one = (\<lambda>(bytes, b).
     bnd (read_uvarint bytes) (\<lambda>(idx, bytes).
     bnd (dict_get dict (ucast idx)) (\<lambda>key.
     bnd (read_one bytes b) (\<lambda>(value, bytes, b).
     Inr ((key, value), bytes, b)))))"

definition read_attr_map_with ::
    "layout \<Rightarrow> 'j::linorder list \<Rightarrow>
     (bytes \<Rightarrow> budget \<Rightarrow> ('j attr_value \<times> bytes \<times> budget) result) \<Rightarrow>
     bytes \<Rightarrow> budget \<Rightarrow> ('j attr_map \<times> bytes \<times> budget) result" where
  "read_attr_map_with L dict read_one bytes b =
     bnd (bnd (read_len bytes) (\<lambda>(count, bytes).
          bnd (charge_list count 3 (length bytes) (sz_attr_entry L) b) (\<lambda>b.
          repeat_read count (read_attr_entry dict read_one) (bytes, b))))
       (\<lambda>(kvs, bytes, b). Inr (attrs_of kvs, bytes, b))"

definition read_array_with ::
    "layout \<Rightarrow> (bytes \<Rightarrow> budget \<Rightarrow> ('j attr_value \<times> bytes \<times> budget) result) \<Rightarrow>
     bytes \<Rightarrow> budget \<Rightarrow> ('j attr_value list \<times> bytes \<times> budget) result" where
  "read_array_with L read_one bytes b =
     bnd (read_len bytes) (\<lambda>(count, bytes).
     bnd (charge_list count 2 (length bytes) (sz_value L) b) (\<lambda>b.
     repeat_read count (\<lambda>(bytes, b). read_one bytes b) (bytes, b)))"

text \<open>
  The branches of \<open>read_value_at\<close>'s match that go on to \<open>ensure_consumed\<close>; \<open>read_one\<close> is
  \<open>read_value_at\<close> one level down.
\<close>

definition read_value_payload ::
    "layout \<Rightarrow> 'j::linorder list \<Rightarrow>
     (bytes \<Rightarrow> budget \<Rightarrow> ('j attr_value \<times> bytes \<times> budget) result) \<Rightarrow>
     u8 \<Rightarrow> bytes \<Rightarrow> budget \<Rightarrow> ('j attr_value \<times> bytes \<times> budget) result" where
  "read_value_payload L dict read_one tag payload b =
     (if tag = TAG_NULL then Inr (V_Null, payload, b)
      else if tag = TAG_BOOL then
        bnd (next_u8 (Malformed ''Bool value has no payload byte'') payload) (\<lambda>(v, payload).
        Inr (V_Bool (v \<noteq> 0), payload, b))
      else if tag = TAG_I64 then
        bnd (read_ivarint payload) (\<lambda>(v, payload). Inr (V_I64 v, payload, b))
      else if tag = TAG_U64 then
        bnd (read_uvarint payload) (\<lambda>(v, payload). Inr (V_U64 v, payload, b))
      else if tag = TAG_F64 then
        bnd (reject_if (length payload \<noteq> 8) (Malformed ''F64 value declared, expected 8'')) (\<lambda>_.
        Inr (V_F64 (from_le_bytes payload), [], b))
      else if tag = TAG_TIMESTAMP then
        bnd (read_ivarint payload) (\<lambda>(v, payload). Inr (V_Timestamp v, payload, b))
      else if tag = TAG_ARRAY then
        bnd (read_array_with L read_one payload b) (\<lambda>(items, payload, b).
        Inr (V_Array items, payload, b))
      else
        bnd (charge (sz_attr_map L) b) (\<lambda>b.
        bnd (read_attr_map_with L dict read_one payload b) (\<lambda>(m, payload, b).
        Inr (V_Map m, payload, b))))"

lemma read_value_payload_cong [fundef_cong]:
  assumes "L = L'" "dict = dict'" "tag = tag'" "payload = payload'" "b = b'"
    and "\<And>bytes b. read_one bytes b = read_one' bytes b"
  shows "read_value_payload L dict read_one tag payload b =
    read_value_payload L' dict' read_one' tag' payload' b'"
proof -
  have "read_one = read_one'" using assms(6) by blast
  with assms show ?thesis by simp
qed

function read_value_at :: "layout \<Rightarrow> nat \<Rightarrow> ('j::linorder, 'j attr_value) reader" where
  "read_value_at L depth dict bytes b =
     bnd (reject_if (depth > MAX_VALUE_DEPTH)
            (Malformed ''value nesting deeper than the cap'')) (\<lambda>_.
     bnd (read_u8 bytes) (\<lambda>(tag, bytes).
     bnd (read_len bytes) (\<lambda>(len, bytes).
     bnd (split_to (Malformed ''value declares more bytes than remain'') len bytes)
       (\<lambda>(payload, bytes).
     if tag = TAG_BYTES then Inr (V_Bytes payload, bytes, b)
     else if tag = TAG_STR then
       bnd (reject_if (\<not> utf8_valid payload) (Malformed ''Str value not utf-8'')) (\<lambda>_.
       Inr (V_Str payload, bytes, b))
     else if tag > TAG_MAP then Inr (V_Null, bytes, b)
     else
       bnd (read_value_payload L dict (\<lambda>bytes b. read_value_at L (depth + 1) dict bytes b)
              tag payload b) (\<lambda>(value, payload, b).
       bnd (ensure_consumed payload) (\<lambda>_.
       Inr (value, bytes, b)))))))"
  by pat_completeness auto
termination
  by (relation "measure (\<lambda>(L, depth, dict, bytes, b). Suc MAX_VALUE_DEPTH - depth)") auto

declare read_value_at.simps [simp del]

definition read_value :: "layout \<Rightarrow> ('j::linorder, 'j attr_value) reader" where
  "read_value L dict = read_value_at L 0 dict"

definition read_attr_map :: "layout \<Rightarrow> ('j::linorder, 'j attr_map) reader" where
  "read_attr_map L dict = read_attr_map_with L dict (read_value_at L 0 dict)"

section \<open>What decoding a written value spends, and when it is accepted\<close>

fun value_cost :: "layout \<Rightarrow> 'k attr_value \<Rightarrow> nat" where
  "value_cost L (V_Array items) =
     saturating_mul (length items) (sz_value L) + sum_list (map (value_cost L) items)"
| "value_cost L (V_Map m) =
     sz_attr_map L + (saturating_mul (length m) (sz_attr_entry L) +
       sum_list (map (\<lambda>(key, value). value_cost L value) m))"
| "value_cost L _ = 0"

definition attrs_cost :: "layout \<Rightarrow> 'k attr_map \<Rightarrow> nat" where
  "attrs_cost L m = saturating_mul (length m) (sz_attr_entry L) +
     sum_list (map (\<lambda>(key, value). value_cost L value) m)"

text \<open>
  At \<open>depth\<close> levels already, the nesting stays under the cap and every \<open>Str\<close> is UTF-8 (the
  invariant \<open>Value::Str\<close> documents).
\<close>

fun value_ok :: "nat \<Rightarrow> 'k attr_value \<Rightarrow> bool" where
  "value_ok depth (V_Str s) = (depth \<le> MAX_VALUE_DEPTH \<and> utf8_valid s)"
| "value_ok depth (V_Array items) =
     (depth \<le> MAX_VALUE_DEPTH \<and> list_all (value_ok (Suc depth)) items)"
| "value_ok depth (V_Map m) =
     (depth \<le> MAX_VALUE_DEPTH \<and> list_all (\<lambda>(key, value). value_ok (Suc depth) value) m)"
| "value_ok depth _ = (depth \<le> MAX_VALUE_DEPTH)"

definition attrs_ok :: "nat \<Rightarrow> 'k attr_map \<Rightarrow> bool" where
  "attrs_ok depth m \<longleftrightarrow> list_all (\<lambda>(key, value). value_ok depth value) m"

lemma value_ok_depth: "value_ok depth v \<Longrightarrow> depth \<le> MAX_VALUE_DEPTH"
  by (cases v) auto

section \<open>Writers and the dictionary\<close>

lemma collects_key [collects_intros]: "collects {k} (write_key k)"
  unfolding collects_def
proof (intro allI impI)
  fix d :: "'a dict_builder" assume d: "dict_inv d"
  obtain i d' where i: "dict_intern k d = (i, d')" by (cases "dict_intern k d")
  from dict_intern_inv [OF d i] show "dict_inv (snd (write_key k d)) \<and>
      prefix (db_symbols d) (db_symbols (snd (write_key k d))) \<and>
      {k} \<subseteq> set (db_symbols (snd (write_key k d)))"
    by (auto simp: write_key_def i)
qed

lemma collects_entry:
  assumes "collects K (write_value v)"
  shows "collects (insert k K) (w_seq [write_key k, write_value v])"
  using collects_Cons [OF collects_key collects_Cons [OF assms collects_Nil], of k] by simp

lemma collects_counted:
  "collects K (w_seq ws) \<Longrightarrow> collects K (w_seq (w_bytes bs # ws))"
  using collects_Cons [OF collects_bytes] by fastforce

lemma collects_entries:
  assumes "\<And>k v. (k, v) \<in> set m \<Longrightarrow> collects (value_keys v) (write_value v)"
  shows "collects (\<Union>(k, v) \<in> set m. insert k (value_keys v))
    (w_seq (map (\<lambda>(key, value). w_seq [write_key key, write_value value]) m))"
proof -
  have "collects (\<Union>x \<in> set m. case x of (k, v) \<Rightarrow> insert k (value_keys v))
    (w_seq (map (\<lambda>(key, value). w_seq [write_key key, write_value value]) m))"
    using assms by (intro collects_seq_map) (auto intro!: collects_entry)
  then show ?thesis .
qed

lemma collects_value [collects_intros]: "collects (value_keys v) (write_value v)"
proof (induction v)
  case (V_Array vs)
  then show ?case by (auto intro!: collects_field collects_counted collects_seq_map)
next
  case (V_Map m)
  have "collects (value_keys v) (write_value v)" if "(k, v) \<in> set m" for k v
    using V_Map [of "(k, v)" v] that by (simp add: snds.simps)
  then show ?case
    by (simp only: write_value.simps value_keys.simps)
      (intro collects_field collects_counted collects_entries)
qed (simp_all add: collects_scalar collects_field collects_bytes)

lemma collects_attr_map [collects_intros]: "collects (attr_map_keys m) (write_attr_map m)"
  unfolding write_attr_map_def attr_map_keys_def
  by (intro collects_counted collects_entries collects_value)

lemma write_attr_map_omitting_eq:
  "write_attr_map_omitting res omit m = write_attr_map (kept_attrs res omit m)"
  by (simp add: write_attr_map_omitting_def write_attr_map_def)

lemma length_field_ge: "2 \<le> length (fst (write_field tag w d))"
  using length_write_len_pos by (simp add: write_field_def case_prod_beta Let_def Suc_le_eq)

lemma length_scalar_ge: "2 \<le> length (fst (write_scalar_field tag len p d))"
  using length_write_len_pos by (simp add: write_scalar_field_def Suc_le_eq)

lemma length_write_value: "2 \<le> length (fst (write_value v d))"
  by (cases v) (simp_all only: write_value.simps length_field_ge length_scalar_ge)

lemma length_entry: "3 \<le> length (fst (w_seq [write_key k, write_value v] d))"
proof -
  have "2 \<le> length (fst (write_value v (snd (write_key k d))))" by (rule length_write_value)
  moreover have "1 \<le> length (fst (write_key k d))"
    using length_write_len_pos by (simp add: write_key_def case_prod_beta Let_def Suc_le_eq)
  ultimately show ?thesis by (simp add: case_prod_beta Let_def)
qed

section \<open>Round trips\<close>

text \<open>A map's keys: an index written as a varint comes back to its entry.\<close>

lemma ucast_u32_u64 [simp]: "(ucast (ucast (i :: u32) :: u64) :: u32) = i"
  by (rule bit_word_eqI) (simp add: bit_ucast_iff)

lemma round_trip_entry:
  assumes "round_trip f (write_value v) r (g v) c"
  shows "round_trip f (w_seq [write_key k, write_value v])
      (\<lambda>R bytes b. read_attr_entry R (r R) (bytes, b)) (f k, g v) c"
  unfolding round_trip_def
proof (intro allI impI)
  fix d R rest and b :: budget
  let ?w = "w_seq [write_key k, write_value v]"
  assume d: "dict_inv d" and s: "serves f (snd (?w d)) R"
    and len: "length (fst (?w d)) < 2 ^ 64" and c: "c \<le> remaining b"
  obtain i d' where i: "dict_intern k d = (i, d')" by (cases "dict_intern k d")
  have s2: "serves f (snd (write_value v d')) R"
    using s by (simp add: case_prod_beta Let_def write_key_def i)
  have d': "dict_inv d'" by (rule dict_intern_inv [OF d i])
  have "serves f d' R"
    by (rule serves_prefix [OF s2 collectsD(2) [OF collects_value d']])
  then have get: "dict_get R i = Inr (f k)" by (rule dict_intern_get [OF d i])
  have rd: "r R (fst (write_value v d') @ rest) b = Inr (g v, rest, spend c b)"
    using len by (intro round_tripD [OF assms d' s2 _ c])
      (simp add: case_prod_beta Let_def write_key_def i)
  then show "read_attr_entry R (r R) (fst (?w d) @ rest, b) = Inr ((f k, g v), rest, spend c b)"
    by (simp add: read_attr_entry_def case_prod_beta Let_def write_key_def i get)
qed

lemma round_trip_attr_map_with:
  assumes "\<And>k v. (k, v) \<in> set m \<Longrightarrow> round_trip f (write_value v) r (g v) (c v)"
  shows "round_trip f (write_attr_map m) (\<lambda>R. read_attr_map_with L R (r R))
      (attrs_of (map (\<lambda>(k, v). (f k, g v)) m))
      (saturating_mul (length m) (sz_attr_entry L) + sum_list (map (\<lambda>(k, v). c v) m))"
proof -
  let ?e = "\<lambda>(key, value). w_seq [write_key key, write_value value]"
  have "round_trip f (w_seq (map ?e m))
      (\<lambda>R bytes b. repeat_read (length m) (\<lambda>(bytes, b). read_attr_entry R (r R) (bytes, b)) (bytes, b))
      (map (\<lambda>(k, v). (f k, g v)) m) (sum_list (map (\<lambda>(k, v). c v) m))"
    using assms by (intro round_trip_repeat)
      (auto intro!: round_trip_entry collects_empty [OF collects_entry [OF collects_value]])
  then have items: "round_trip f (w_seq (map ?e m))
      (\<lambda>R bytes b. repeat_read (length m) (read_attr_entry R (r R)) (bytes, b))
      (map (\<lambda>(k, v). (f k, g v)) m) (sum_list (map (\<lambda>(k, v). c v) m))"
    by simp
  have "3 \<le> length (fst (?e x d))" for x d
    using length_entry by (cases x) (simp only: prod.case)
  from round_trip_counted [OF items this] show ?thesis
    by (simp add: round_trip_def write_attr_map_def read_attr_map_with_def)
qed

lemma round_trip_array_with:
  assumes "\<And>v. v \<in> set vs \<Longrightarrow> round_trip f (write_value v) r (g v) (c v)"
  shows "round_trip f (w_seq (w_bytes (write_len (length vs)) # map write_value vs))
      (\<lambda>R. read_array_with L (r R)) (map g vs)
      (saturating_mul (length vs) (sz_value L) + sum_list (map c vs))"
  unfolding read_array_with_def [abs_def]
  using assms by (intro round_trip_counted round_trip_repeat length_write_value
      collects_empty [OF collects_value]) simp_all

lemma round_trip_payload:
  assumes "whole_trip f w (\<lambda>R. read_value_payload L R (read_value_at L (Suc depth) R) tag) x c"
    and "depth \<le> MAX_VALUE_DEPTH" and "tag \<noteq> TAG_BYTES" and "tag \<noteq> TAG_STR" and "\<not> TAG_MAP < tag"
  shows "round_trip f (write_field tag w) (read_value_at L depth) x c"
  unfolding round_trip_def
proof (intro allI impI)
  fix d R rest and b :: budget
  assume "dict_inv d" and "serves f (snd (write_field tag w d)) R"
    and len: "length (fst (write_field tag w d)) < 2 ^ 64" and "c \<le> remaining b"
  then have "read_value_payload L R (read_value_at L (Suc depth) R) tag (fst (w d)) b
      = Inr (x, [], spend c b)"
    by (intro whole_tripD [OF assms(1), simplified])
      (simp_all add: write_field_def case_prod_beta Let_def)
  with len assms(2-) show "read_value_at L depth R (fst (write_field tag w d) @ rest) b
      = Inr (x, rest, spend c b)"
    by (subst read_value_at.simps) (simp add: write_field_def case_prod_beta Let_def)
qed

lemma write_scalar_field_eq: "len = length p \<Longrightarrow> write_scalar_field tag len p = write_field tag (w_bytes p)"
  by (simp add: fun_eq_iff write_scalar_field_def write_field_def w_bytes_def)

lemma whole_trip_bytes:
  "(\<And>R b. r R p b = Inr (x, [], b)) \<Longrightarrow> whole_trip f (w_bytes p) r x 0"
  by (simp add: whole_trip_def w_bytes_def)

lemma round_trip_value:
  "value_ok depth v \<Longrightarrow>
     round_trip f (write_value v) (read_value_at L depth) (rename_value f v) (value_cost L v)"
proof (induction v arbitrary: depth)
  case (V_Str s)
  then show ?case
    by (auto simp: round_trip_def read_value_at.simps [of L depth] write_scalar_field_def value_tags)
next
  case (V_Bytes s)
  then show ?case
    by (auto simp: round_trip_def read_value_at.simps [of L depth] write_scalar_field_def value_tags)
next
  case (V_Array vs)
  let ?w = "w_seq (w_bytes (write_len (length vs)) # map write_value vs)"
  have "round_trip f ?w (\<lambda>R. read_array_with L (read_value_at L (Suc depth) R))
      (map (rename_value f) vs) (value_cost L (V_Array vs))"
    unfolding value_cost.simps using V_Array
    by (intro round_trip_array_with) (auto simp: list_all_iff)
  then have "whole_trip f ?w
      (\<lambda>R. read_value_payload L R (read_value_at L (Suc depth) R) TAG_ARRAY)
      (rename_value f (V_Array vs)) (value_cost L (V_Array vs))"
    by (auto dest!: round_trip_whole simp: whole_trip_def read_value_payload_def value_tags)
  with V_Array.prems show ?case
    unfolding write_value.simps by (intro round_trip_payload) (simp_all add: value_tags)
next
  case (V_Map m)
  have "round_trip f (write_value v) (read_value_at L (Suc depth)) (rename_value f v) (value_cost L v)"
    if "(k, v) \<in> set m" for k v
    using V_Map that by (intro V_Map.IH [of "(k, v)"]) (auto simp: list_all_iff snds.simps)
  then have "round_trip f (write_attr_map m)
      (\<lambda>R. read_attr_map_with L R (read_value_at L (Suc depth) R))
      (rename_attrs f m) (attrs_cost L m)"
    unfolding rename_attrs_def attrs_cost_def by (rule round_trip_attr_map_with)
  then have "whole_trip f (write_attr_map m)
      (\<lambda>R. read_value_payload L R (read_value_at L (Suc depth) R) TAG_MAP)
      (rename_value f (V_Map m)) (value_cost L (V_Map m))"
    by (auto dest!: round_trip_whole
        simp: whole_trip_def read_value_payload_def value_tags rename_attrs_def attrs_cost_def)
  with V_Map.prems show ?case
    unfolding write_value.simps write_attr_map_def
    by (intro round_trip_payload) (simp_all add: value_tags)
qed (auto simp: write_scalar_field_eq read_value_payload_def value_tags from_le_bytes_le_bytes
    intro!: round_trip_payload whole_trip_bytes)

lemma round_trip_attr_map:
  assumes "attrs_ok 0 m"
  shows "round_trip f (write_attr_map m) (read_attr_map L) (rename_attrs f m) (attrs_cost L m)"
proof -
  have "round_trip f (write_attr_map m) (\<lambda>R. read_attr_map_with L R (read_value_at L 0 R))
      (rename_attrs f m) (attrs_cost L m)"
    unfolding rename_attrs_def attrs_cost_def using assms
    by (intro round_trip_attr_map_with round_trip_value) (auto simp: attrs_ok_def list_all_iff)
  then show ?thesis
    by (simp add: round_trip_def read_attr_map_def)
qed

end
