(* ===== verification/Event_Model.thy ===== *)
theory Event_Model
  imports Attrs
begin

text \<open>
  The event model of \<open>crates/logit-core/src\<close>: \<open>metric.rs\<close>, \<open>lib.rs\<close> (logs), \<open>trace.rs\<close>,
  \<open>span.rs\<close>, \<open>resource.rs\<close>, \<open>event.rs\<close> and \<open>provenance.rs\<close>. Record fields carry the
  source's names behind the prefix the wire format gives the record (\<open>mr_\<close>, \<open>lr_\<close>,
  \<open>sr_\<close>, ...). The type of symbols (\<open>'k\<close>) and the types of the two summaries whose bytes
  the wire carries opaquely, \<open>DdSketch\<close> (\<open>'d\<close>) and \<open>HyperLogLog\<close> (\<open>'h\<close>), are parameters.

  The second half is the arithmetic of \<open>MetricValue\<close> (\<open>checked_add\<close>): an integer sum is exact
  at its width, or it widens.
\<close>

section \<open>Enumerations\<close>

datatype temporality = Delta | Cumulative

datatype severity = Sev_Trace | Sev_Debug | Sev_Info | Sev_Warn | Sev_Error | Sev_Fatal

datatype body_format = Raw | Json | Structured

datatype span_kind = Internal | Server | Client | Producer | Consumer

datatype span_status = Status_Unset | Status_Ok | Status_Error

fun severity_as_str :: "severity \<Rightarrow> string" where
  "severity_as_str Sev_Trace = ''trace''"
| "severity_as_str Sev_Debug = ''debug''"
| "severity_as_str Sev_Info = ''info''"
| "severity_as_str Sev_Warn = ''warn''"
| "severity_as_str Sev_Error = ''error''"
| "severity_as_str Sev_Fatal = ''fatal''"

definition severity_from_name :: "string \<Rightarrow> severity option" where
  "severity_from_name name =
     (if name = ''trace'' then Some Sev_Trace
      else if name = ''debug'' then Some Sev_Debug
      else if name = ''info'' then Some Sev_Info
      else if name = ''warn'' then Some Sev_Warn
      else if name = ''error'' then Some Sev_Error
      else if name = ''fatal'' then Some Sev_Fatal
      else None)"

fun span_kind_as_str :: "span_kind \<Rightarrow> string" where
  "span_kind_as_str Internal = ''internal''"
| "span_kind_as_str Server = ''server''"
| "span_kind_as_str Client = ''client''"
| "span_kind_as_str Producer = ''producer''"
| "span_kind_as_str Consumer = ''consumer''"

definition span_kind_from_name :: "string \<Rightarrow> span_kind option" where
  "span_kind_from_name name =
     (if name = ''internal'' then Some Internal
      else if name = ''server'' then Some Server
      else if name = ''client'' then Some Client
      else if name = ''producer'' then Some Producer
      else if name = ''consumer'' then Some Consumer
      else None)"

section \<open>Metrics\<close>

datatype metric_value = MV_F64 f64 | MV_I64 i64 | MV_U64 u64 | MV_Bool bool

record sum_point =
  sum_value :: metric_value
  sum_temporality :: temporality
  sum_monotonic :: bool

record samples =
  smp_values :: "f64 list"
  smp_sample_rate :: f64

record histogram =
  h_buckets :: "(f64 \<times> u64) list"
  h_temporality :: temporality
  h_sum :: "f64 option"
  h_min :: "f64 option"
  h_max :: "f64 option"

record exp_histogram =
  eh_scale :: i32
  eh_zero_count :: u64
  eh_zero_threshold :: f64
  eh_positive :: "i32 \<times> u64 list"
  eh_negative :: "i32 \<times> u64 list"
  eh_temporality :: temporality
  eh_count :: u64
  eh_sum :: "f64 option"
  eh_min :: "f64 option"
  eh_max :: "f64 option"

record summary =
  sy_quantiles :: "(f64 \<times> f64) list"
  sy_count :: u64
  sy_sum :: f64
  sy_temporality :: temporality

datatype ('d, 'h) metric_kind =
    MK_Sum sum_point
  | MK_Gauge metric_value
  | MK_GaugeDelta metric_value
  | MK_Samples samples
  | MK_Distribution 'd
  | MK_SetMembers "bytes list"
  | MK_Set 'h
  | MK_Histogram histogram
  | MK_ExponentialHistogram exp_histogram
  | MK_Summary summary

record trace_ref =
  tr_trace_id :: bytes
  tr_span_id :: "bytes option"
  tr_flags :: u8

record 'k exemplar =
  ex_timestamp :: i64
  ex_value :: metric_value
  ex_trace :: "trace_ref option"
  ex_filtered_attributes :: "'k attr_map"

record ('k, 'd, 'h) metric_record =
  mr_name :: 'k
  mr_unit :: "'k option"
  mr_description :: "'k option"
  mr_start_timestamp :: i64
  mr_exemplars :: "'k exemplar list"
  mr_flags :: u32
  mr_kind :: "('d, 'h) metric_kind"

text \<open>\<open>MetricRecord::is_no_recorded_value\<close>.\<close>

definition FLAG_NO_RECORDED_VALUE :: u32 where
  "FLAG_NO_RECORDED_VALUE = 1"

definition is_no_recorded_value :: "('k, 'd, 'h) metric_record \<Rightarrow> bool" where
  "is_no_recorded_value r \<longleftrightarrow> mr_flags r AND FLAG_NO_RECORDED_VALUE \<noteq> 0"

section \<open>Logs and spans\<close>

record 'k log_record =
  lr_message :: "'k attr_value"
  lr_severity :: "severity option"
  lr_body_format :: body_format
  lr_trace :: "trace_ref option"
  lr_event_name :: "'k option"
  lr_observed_timestamp :: i64
  lr_dropped_attributes_count :: u32

record 'k span_event =
  se_timestamp :: i64
  se_name :: "'k attr_value"
  se_attributes :: "'k attr_map"
  se_dropped_attributes_count :: u32

record 'k span_link =
  sl_trace_id :: bytes
  sl_span_id :: bytes
  sl_attributes :: "'k attr_map"
  sl_flags :: u32
  sl_trace_state :: "bytes option"
  sl_dropped_attributes_count :: u32

record span_ext =
  sx_status_message :: "bytes option"
  sx_trace_state :: "bytes option"
  sx_dropped_attributes_count :: u32
  sx_dropped_events_count :: u32
  sx_dropped_links_count :: u32

record 'k span_record =
  sr_trace_id :: bytes
  sr_span_id :: bytes
  sr_parent_span_id :: "bytes option"
  sr_name :: "'k attr_value"
  sr_kind :: span_kind
  sr_status :: span_status
  sr_events :: "'k span_event list"
  sr_links :: "'k span_link list"
  sr_end_timestamp :: i64
  sr_flags :: u32
  sr_ext :: "span_ext option"

section \<open>Events and batches\<close>

record ('k, 'd, 'h) event =
  ev_timestamp :: i64
  ev_attributes :: "'k attr_map"
  ev_log :: "'k log_record option"
  ev_metrics :: "('k, 'd, 'h) metric_record list"
  ev_span :: "'k span_record option"

record 'k resource =
  res_attributes :: "'k attr_map"
  res_dropped_attributes_count :: u32
  res_schema_url :: "bytes option"

record 'k scope =
  scope_name :: bytes
  scope_version :: bytes
  scope_attributes :: "'k attr_map"
  scope_dropped_attributes_count :: u32
  scope_schema_url :: "bytes option"

record ('k, 'd, 'h) event_batch =
  b_resource :: "'k resource"
  b_scope :: "'k scope option"
  b_events :: "('k, 'd, 'h) event list"

record 'k provenance =
  pv_origin :: "'k option"
  pv_previous :: "'k option"

section \<open>Names of the enumerations\<close>

lemma severity_from_name_as_str: "severity_from_name (severity_as_str s) = Some s"
  by (cases s) (simp_all add: severity_from_name_def)

lemma severity_from_name_Some: "severity_from_name n = Some s \<Longrightarrow> severity_as_str s = n"
  by (auto simp: severity_from_name_def split: if_splits)

lemma span_kind_from_name_as_str: "span_kind_from_name (span_kind_as_str k) = Some k"
  by (cases k) (simp_all add: span_kind_from_name_def)

lemma span_kind_from_name_Some: "span_kind_from_name n = Some k \<Longrightarrow> span_kind_as_str k = n"
  by (auto simp: span_kind_from_name_def split: if_splits)

section \<open>Adding metric values\<close>

text \<open>
  The floating-point operations \<open>checked_add\<close> falls back to: IEEE addition and the conversions
  \<open>v as f64\<close>. Nothing below depends on what they compute.
\<close>

record f64_ops =
  fl_add :: "f64 \<Rightarrow> f64 \<Rightarrow> f64"
  fl_of_i64 :: "i64 \<Rightarrow> f64"
  fl_of_u64 :: "u64 \<Rightarrow> f64"

fun as_f64 :: "f64_ops \<Rightarrow> metric_value \<Rightarrow> f64" where
  "as_f64 fl (MV_F64 v) = v"
| "as_f64 fl (MV_I64 v) = fl_of_i64 fl v"
| "as_f64 fl (MV_U64 v) = fl_of_u64 fl v"
| "as_f64 fl (MV_Bool b) = fl_of_u64 fl (if b then 1 else 0)"

text \<open>\<open>i64::checked_add\<close>, \<open>u64::checked_add\<close>, \<open>i64::try_from\<close> and \<open>u64::try_from\<close>.\<close>

definition i64_try_from :: "int \<Rightarrow> i64 option" where
  "i64_try_from n = (if - (2 ^ 63) \<le> n \<and> n < 2 ^ 63 then Some (of_int n) else None)"

definition u64_try_from :: "int \<Rightarrow> u64 option" where
  "u64_try_from n = (if 0 \<le> n \<and> n < 2 ^ 64 then Some (of_int n) else None)"

definition i64_checked_add :: "i64 \<Rightarrow> i64 \<Rightarrow> i64 option" where
  "i64_checked_add a b = i64_try_from (sint a + sint b)"

definition u64_checked_add :: "u64 \<Rightarrow> u64 \<Rightarrow> u64 option" where
  "u64_checked_add a b = u64_try_from (uint a + uint b)"

text \<open>\<open>int_as_i128\<close>; unreachable on a float or a bool.\<close>

fun int_as_i128 :: "metric_value \<Rightarrow> int option" where
  "int_as_i128 (MV_I64 v) = Some (sint v)"
| "int_as_i128 (MV_U64 v) = Some (uint v)"
| "int_as_i128 _ = None"

definition add_float :: "f64_ops \<Rightarrow> metric_value \<Rightarrow> metric_value \<Rightarrow> metric_value" where
  "add_float fl a b = MV_F64 (fl_add fl (as_f64 fl a) (as_f64 fl b))"

text \<open>The mixed-sign row of the table: \<open>I64\<close> if the sum fits, else \<open>U64\<close>, else a float.\<close>

definition add_wide :: "f64_ops \<Rightarrow> metric_value \<Rightarrow> metric_value \<Rightarrow> int \<Rightarrow> metric_value" where
  "add_wide fl a b wide =
     (case i64_try_from wide of
        Some v \<Rightarrow> MV_I64 v
      | None \<Rightarrow> (case u64_try_from wide of Some v \<Rightarrow> MV_U64 v | None \<Rightarrow> add_float fl a b))"

definition add_i64 :: "f64_ops \<Rightarrow> i64 \<Rightarrow> i64 \<Rightarrow> metric_value" where
  "add_i64 fl a b =
     (case i64_checked_add a b of Some v \<Rightarrow> MV_I64 v | None \<Rightarrow> add_float fl (MV_I64 a) (MV_I64 b))"

definition add_u64 :: "f64_ops \<Rightarrow> u64 \<Rightarrow> u64 \<Rightarrow> metric_value" where
  "add_u64 fl a b =
     (case u64_checked_add a b of Some v \<Rightarrow> MV_U64 v | None \<Rightarrow> add_float fl (MV_U64 a) (MV_U64 b))"

fun add_result :: "f64_ops \<Rightarrow> metric_value \<Rightarrow> metric_value \<Rightarrow> metric_value" where
  "add_result fl (MV_F64 a) (MV_F64 b) = MV_F64 (fl_add fl a b)"
| "add_result fl (MV_F64 a) y = add_float fl (MV_F64 a) y"
| "add_result fl x (MV_F64 b) = add_float fl x (MV_F64 b)"
| "add_result fl (MV_I64 a) (MV_I64 b) = add_i64 fl a b"
| "add_result fl (MV_U64 a) (MV_U64 b) = add_u64 fl a b"
| "add_result fl (MV_I64 a) (MV_U64 b) = add_wide fl (MV_I64 a) (MV_U64 b) (sint a + uint b)"
| "add_result fl (MV_U64 a) (MV_I64 b) = add_wide fl (MV_U64 a) (MV_I64 b) (uint a + sint b)"
| "add_result fl (MV_Bool a) (MV_Bool b) = MV_I64 (of_bool a + of_bool b)"
| "add_result fl (MV_Bool a) (MV_I64 b) = add_i64 fl (of_bool a) b"
| "add_result fl (MV_I64 a) (MV_Bool b) = add_i64 fl a (of_bool b)"
| "add_result fl (MV_Bool a) (MV_U64 b) = add_u64 fl (of_bool a) b"
| "add_result fl (MV_U64 a) (MV_Bool b) = add_u64 fl a (of_bool b)"

text \<open>\<open>std::mem::discriminant\<close> equality.\<close>

fun same_type :: "metric_value \<Rightarrow> metric_value \<Rightarrow> bool" where
  "same_type (MV_F64 _) (MV_F64 _) = True"
| "same_type (MV_I64 _) (MV_I64 _) = True"
| "same_type (MV_U64 _) (MV_U64 _) = True"
| "same_type (MV_Bool _) (MV_Bool _) = True"
| "same_type _ _ = False"

definition checked_add :: "f64_ops \<Rightarrow> metric_value \<Rightarrow> metric_value \<Rightarrow> metric_value \<times> bool" where
  "checked_add fl a b =
     (let result = add_result fl a b
      in (result, \<not> same_type result a \<or> \<not> same_type result b))"

text \<open>The number an integer or boolean value denotes.\<close>

fun int_val :: "metric_value \<Rightarrow> int option" where
  "int_val (MV_I64 v) = Some (sint v)"
| "int_val (MV_U64 v) = Some (uint v)"
| "int_val (MV_Bool b) = Some (of_bool b)"
| "int_val (MV_F64 _) = None"

lemma sint_of_int_fits:
  "- (2 ^ 63) \<le> n \<Longrightarrow> n < 2 ^ 63 \<Longrightarrow> sint (of_int n :: i64) = n"
  by (simp add: signed_of_int signed_take_bit_int_eq_self)

lemma uint_of_int_fits: "0 \<le> n \<Longrightarrow> n < 2 ^ 64 \<Longrightarrow> uint (of_int n :: u64) = n"
  by (simp add: unsigned_of_int take_bit_int_eq_self)

lemma i64_try_from_Some: "i64_try_from n = Some v \<Longrightarrow> sint v = n"
  by (auto simp: i64_try_from_def sint_of_int_fits split: if_splits)

lemma u64_try_from_Some: "u64_try_from n = Some v \<Longrightarrow> uint v = n"
  by (auto simp: u64_try_from_def uint_of_int_fits split: if_splits)

lemma of_bool_val [simp]:
  "sint (of_bool b :: i64) = of_bool b" "uint (of_bool b :: u64) = of_bool b"
  by (cases b; simp)+

lemma add_i64_exact: "int_val (add_i64 fl a b) = Some n \<Longrightarrow> n = sint a + sint b"
  by (auto simp: add_i64_def i64_checked_add_def add_float_def dest: i64_try_from_Some
      split: option.splits)

lemma add_u64_exact: "int_val (add_u64 fl a b) = Some n \<Longrightarrow> n = uint a + uint b"
  by (auto simp: add_u64_def u64_checked_add_def add_float_def dest: u64_try_from_Some
      split: option.splits)

lemma add_wide_exact: "int_val (add_wide fl a b w) = Some n \<Longrightarrow> n = w"
  by (auto simp: add_wide_def add_float_def dest: i64_try_from_Some u64_try_from_Some
      split: option.splits)

lemma bool_sum_val: "sint (of_bool a + of_bool b :: i64) = of_bool a + of_bool b"
  by (cases a; cases b) simp_all

lemmas add_exacts = add_i64_exact add_u64_exact add_wide_exact

section \<open>Properties of metric addition\<close>

text \<open>
  Adding two integer or boolean metric values is exact or becomes a float: when the result is
  an integer it is the mathematical sum, whatever the widths and signs, and the flag says whether
  the result has another type than an operand.
\<close>

theorem checked_add_exact:
  assumes "int_val a = Some m" and "int_val b = Some n" and "checked_add fl a b = (r, widened)"
  shows "(case int_val r of Some k \<Rightarrow> k = m + n | None \<Rightarrow> True) \<and>
    (widened \<longleftrightarrow> \<not> (same_type r a \<and> same_type r b))"
proof -
  have r: "r = add_result fl a b" "widened \<longleftrightarrow> \<not> (same_type r a \<and> same_type r b)"
    using assms(3) by (auto simp: checked_add_def Let_def)
  have "k = m + n" if "int_val r = Some k" for k
    using that assms(1,2) unfolding r(1)
    by (cases a; cases b) (auto simp: bool_sum_val dest: add_exacts)
  with r(2) show ?thesis by (auto split: option.split)
qed

theorem checked_add_exact_witness:
  "(case int_val (MV_U64 9223372036854775808) of
      Some k \<Rightarrow> k = 9223372036854775807 + 1 | None \<Rightarrow> True) \<and>
   (True \<longleftrightarrow> \<not> (same_type (MV_U64 9223372036854775808) (MV_I64 9223372036854775807) \<and>
               same_type (MV_U64 9223372036854775808) (MV_U64 1)))"
  by (rule checked_add_exact [where
        fl = "\<lparr>fl_add = (\<lambda>a b. a), fl_of_i64 = id, fl_of_u64 = id\<rparr>"])
    (simp_all add: checked_add_def add_wide_def i64_try_from_def u64_try_from_def)

end
