(* ===== verification/Native_Metric.thy ===== *)
theory Native_Metric
  imports Native_Value Event_Model
begin

text \<open>
  The metric half of \<open>crates/logit-proto/src/native/record.rs\<close>: scalars, metric kinds, trace
  references, exemplars and metric records. A metric kind is a tag, a length and a fixed,
  sequential body; the records around it are TLV-framed. The bytes of the two summaries
  (\<open>DdSketch::to_bytes\<close>, \<open>HyperLogLog::to_bytes\<close>) travel as opaque blobs, so their codecs are
  a parameter.
\<close>

section \<open>The blob codecs\<close>

record ('d, 'h) blob_codec =
  dd_to_bytes :: "'d \<Rightarrow> bytes"
  dd_from_bytes :: "bytes \<Rightarrow> 'd option"
  hll_to_bytes :: "'h \<Rightarrow> bytes"
  hll_from_bytes :: "bytes \<Rightarrow> 'h option"

text \<open>What the format relies on: the summary a metric carries survives its own codec.\<close>

fun kind_ok :: "('d, 'h) blob_codec \<Rightarrow> ('d, 'h) metric_kind \<Rightarrow> bool" where
  "kind_ok B (MK_Distribution d) \<longleftrightarrow> dd_from_bytes B (dd_to_bytes B d) = Some d"
| "kind_ok B (MK_Set h) \<longleftrightarrow> hll_from_bytes B (hll_to_bytes B h) = Some h"
| "kind_ok B _ \<longleftrightarrow> True"

section \<open>Scalars\<close>

definition METRIC_SUM :: u8 where "METRIC_SUM = 0"
definition METRIC_GAUGE :: u8 where "METRIC_GAUGE = 1"
definition METRIC_GAUGE_DELTA :: u8 where "METRIC_GAUGE_DELTA = 2"
definition METRIC_SAMPLES :: u8 where "METRIC_SAMPLES = 3"
definition METRIC_DISTRIBUTION :: u8 where "METRIC_DISTRIBUTION = 4"
definition METRIC_SET_MEMBERS :: u8 where "METRIC_SET_MEMBERS = 5"
definition METRIC_SET :: u8 where "METRIC_SET = 6"
definition METRIC_HISTOGRAM :: u8 where "METRIC_HISTOGRAM = 7"
definition METRIC_EXPONENTIAL_HISTOGRAM :: u8 where "METRIC_EXPONENTIAL_HISTOGRAM = 8"
definition METRIC_SUMMARY :: u8 where "METRIC_SUMMARY = 9"

lemmas metric_tags = METRIC_SUM_def METRIC_GAUGE_def METRIC_GAUGE_DELTA_def METRIC_SAMPLES_def
  METRIC_DISTRIBUTION_def METRIC_SET_MEMBERS_def METRIC_SET_def METRIC_HISTOGRAM_def
  METRIC_EXPONENTIAL_HISTOGRAM_def METRIC_SUMMARY_def

fun temporality_tag :: "temporality \<Rightarrow> u8" where
  "temporality_tag Delta = 0"
| "temporality_tag Cumulative = 1"

definition temporality_from_tag :: "u8 \<Rightarrow> temporality result" where
  "temporality_from_tag tag =
     (if tag = 0 then Inr Delta else if tag = 1 then Inr Cumulative
      else Inl (Malformed ''unknown temporality tag''))"

definition SCALAR_F64 :: u8 where "SCALAR_F64 = 0"
definition SCALAR_I64 :: u8 where "SCALAR_I64 = 1"
definition SCALAR_U64 :: u8 where "SCALAR_U64 = 2"
definition SCALAR_BOOL :: u8 where "SCALAR_BOOL = 3"
definition SCALAR_LEN :: nat where "SCALAR_LEN = 9"

lemmas scalar_tags = SCALAR_F64_def SCALAR_I64_def SCALAR_U64_def SCALAR_BOOL_def

fun write_scalar :: "metric_value \<Rightarrow> bytes" where
  "write_scalar (MV_F64 v) = SCALAR_F64 # le_bytes 8 v"
| "write_scalar (MV_I64 v) = SCALAR_I64 # le_bytes 8 v"
| "write_scalar (MV_U64 v) = SCALAR_U64 # le_bytes 8 v"
| "write_scalar (MV_Bool b) = SCALAR_BOOL # le_bytes 8 (of_bool b :: u64)"

definition read_scalar :: "bytes \<Rightarrow> (metric_value \<times> bytes) result" where
  "read_scalar bytes =
     bnd (read_u8 bytes) (\<lambda>(tag, bytes).
     bnd (split_to (Malformed ''expected 8 bytes for a metric value'') 8 bytes) (\<lambda>(buf, bytes).
     if tag = SCALAR_F64 then Inr (MV_F64 (from_le_bytes buf), bytes)
     else if tag = SCALAR_I64 then Inr (MV_I64 (from_le_bytes buf), bytes)
     else if tag = SCALAR_U64 then Inr (MV_U64 (from_le_bytes buf), bytes)
     else if tag = SCALAR_BOOL then
       (let v = from_le_bytes buf :: u64
        in if v = 0 then Inr (MV_Bool False, bytes)
           else if v = 1 then Inr (MV_Bool True, bytes)
           else Inl (Malformed ''metric value bool holds another value''))
     else Inl (Malformed ''unknown metric value type'')))"

definition write_scalar_kind :: "u8 \<Rightarrow> metric_value \<Rightarrow> bytes" where
  "write_scalar_kind tag v = tag # write_len SCALAR_LEN @ write_scalar v"

definition read_f64 :: "bytes \<Rightarrow> (f64 \<times> bytes) result" where
  "read_f64 bytes =
     bnd (split_to (Malformed ''expected 8 bytes for an f64'') 8 bytes) (\<lambda>(buf, bytes).
     Inr (from_le_bytes buf, bytes))"

definition write_option_f64 :: "f64 option \<Rightarrow> bytes" where
  "write_option_f64 v = (case v of Some x \<Rightarrow> 1 # le_bytes 8 x | None \<Rightarrow> [0])"

definition read_option_f64 :: "bytes \<Rightarrow> (f64 option \<times> bytes) result" where
  "read_option_f64 bytes =
     bnd (read_u8 bytes) (\<lambda>(p, bytes).
     if p = 0 then Inr (None, bytes)
     else if p = 1 then bnd (read_f64 bytes) (\<lambda>(x, bytes). Inr (Some x, bytes))
     else Inl (Malformed ''bad Option<f64> presence byte''))"

text \<open>
  A counted list inside a kind's body: the count, the charge against the bytes left, then that
  many items.
\<close>

definition read_counted ::
    "nat \<Rightarrow> nat \<Rightarrow> (bytes \<Rightarrow> ('a \<times> bytes) result) \<Rightarrow>
     bytes \<Rightarrow> budget \<Rightarrow> ('a list \<times> bytes \<times> budget) result" where
  "read_counted min_wire sz read_one bytes b =
     bnd (read_len bytes) (\<lambda>(count, bytes).
     bnd (charge_list count min_wire (length bytes) sz b) (\<lambda>b.
     bnd (repeat_read count read_one bytes) (\<lambda>(items, bytes).
     Inr (items, bytes, b))))"

definition write_exponential_buckets :: "i32 \<times> u64 list \<Rightarrow> bytes" where
  "write_exponential_buckets = (\<lambda>(offset, counts).
     write_ivarint (scast offset) @ write_len (length counts) @ concat (map write_uvarint counts))"

definition read_exponential_buckets ::
    "bytes \<Rightarrow> budget \<Rightarrow> ((i32 \<times> u64 list) \<times> bytes \<times> budget) result" where
  "read_exponential_buckets bytes b =
     bnd (read_ivarint bytes) (\<lambda>(offset, bytes).
     bnd (read_counted 1 8 read_uvarint bytes b) (\<lambda>(counts, bytes, b).
     Inr ((ucast offset, counts), bytes, b)))"

section \<open>Metric kinds\<close>

text \<open>The framing shared by every branch that builds its body first.\<close>

definition kind_frame :: "u8 \<Rightarrow> bytes \<Rightarrow> bytes" where
  "kind_frame tag tmp = tag # write_len (length tmp) @ tmp"

definition write_member :: "bytes \<Rightarrow> bytes" where
  "write_member m = write_len (length m) @ m"

definition read_member :: "bytes \<Rightarrow> (bytes \<times> bytes) result" where
  "read_member body =
     bnd (read_len body) (\<lambda>(len, body).
     split_to (Malformed ''set member blob truncated'') len body)"

definition write_bucket :: "f64 \<times> u64 \<Rightarrow> bytes" where
  "write_bucket = (\<lambda>(bound, count). le_bytes 8 bound @ write_uvarint count)"

definition read_bucket :: "bytes \<Rightarrow> ((f64 \<times> u64) \<times> bytes) result" where
  "read_bucket body =
     bnd (read_f64 body) (\<lambda>(bound, body).
     bnd (read_uvarint body) (\<lambda>(n, body).
     Inr ((bound, n), body)))"

definition write_quantile :: "f64 \<times> f64 \<Rightarrow> bytes" where
  "write_quantile = (\<lambda>(q, v). le_bytes 8 q @ le_bytes 8 v)"

definition read_quantile :: "bytes \<Rightarrow> ((f64 \<times> f64) \<times> bytes) result" where
  "read_quantile body =
     bnd (read_f64 body) (\<lambda>(q, body).
     bnd (read_f64 body) (\<lambda>(v, body).
     Inr ((q, v), body)))"

fun write_metric_kind :: "('d, 'h) blob_codec \<Rightarrow> ('d, 'h) metric_kind \<Rightarrow> bytes" where
  "write_metric_kind B (MK_Sum s) =
     METRIC_SUM # write_len (SCALAR_LEN + 2) @ write_scalar (sum_value s) @
       [temporality_tag (sum_temporality s), of_bool (sum_monotonic s)]"
| "write_metric_kind B (MK_Gauge v) = write_scalar_kind METRIC_GAUGE v"
| "write_metric_kind B (MK_GaugeDelta v) = write_scalar_kind METRIC_GAUGE_DELTA v"
| "write_metric_kind B (MK_Samples s) =
     kind_frame METRIC_SAMPLES
       (write_len (length (smp_values s)) @ concat (map (le_bytes 8) (smp_values s)) @
        le_bytes 8 (smp_sample_rate s))"
| "write_metric_kind B (MK_Distribution sketch) =
     kind_frame METRIC_DISTRIBUTION (dd_to_bytes B sketch)"
| "write_metric_kind B (MK_SetMembers members) =
     kind_frame METRIC_SET_MEMBERS
       (write_len (length members) @ concat (map write_member members))"
| "write_metric_kind B (MK_Set hll) = kind_frame METRIC_SET (hll_to_bytes B hll)"
| "write_metric_kind B (MK_Histogram h) =
     kind_frame METRIC_HISTOGRAM
       (write_len (length (h_buckets h)) @ concat (map write_bucket (h_buckets h)) @
        [temporality_tag (h_temporality h)] @ write_option_f64 (h_sum h) @
        write_option_f64 (h_min h) @ write_option_f64 (h_max h))"
| "write_metric_kind B (MK_ExponentialHistogram e) =
     kind_frame METRIC_EXPONENTIAL_HISTOGRAM
       (write_ivarint (scast (eh_scale e)) @ write_uvarint (eh_zero_count e) @
        le_bytes 8 (eh_zero_threshold e) @ write_exponential_buckets (eh_positive e) @
        write_exponential_buckets (eh_negative e) @ [temporality_tag (eh_temporality e)] @
        write_uvarint (eh_count e) @ write_option_f64 (eh_sum e) @
        write_option_f64 (eh_min e) @ write_option_f64 (eh_max e))"
| "write_metric_kind B (MK_Summary s) =
     kind_frame METRIC_SUMMARY
       (write_len (length (sy_quantiles s)) @ concat (map write_quantile (sy_quantiles s)) @
        write_uvarint (sy_count s) @ le_bytes 8 (sy_sum s) @
        [temporality_tag (sy_temporality s)])"

definition read_temporality :: "bytes \<Rightarrow> (temporality \<times> bytes) result" where
  "read_temporality body =
     bnd (read_u8 body) (\<lambda>(tag, body). bnd (temporality_from_tag tag) (\<lambda>t. Inr (t, body)))"

definition read_histogram_body :: "bytes \<Rightarrow> budget \<Rightarrow> (histogram \<times> bytes \<times> budget) result" where
  "read_histogram_body body b =
     bnd (read_counted 9 16 read_bucket body b) (\<lambda>(buckets, body, b).
     bnd (read_temporality body) (\<lambda>(temporality, body).
     bnd (read_option_f64 body) (\<lambda>(sum, body).
     bnd (read_option_f64 body) (\<lambda>(min, body).
     bnd (read_option_f64 body) (\<lambda>(max, body).
     Inr (\<lparr>h_buckets = buckets, h_temporality = temporality, h_sum = sum, h_min = min,
            h_max = max\<rparr>, body, b))))))"

definition read_exp_histogram_body ::
    "bytes \<Rightarrow> budget \<Rightarrow> (exp_histogram \<times> bytes \<times> budget) result" where
  "read_exp_histogram_body body b =
     bnd (read_ivarint body) (\<lambda>(scale, body).
     bnd (read_uvarint body) (\<lambda>(zero_count, body).
     bnd (read_f64 body) (\<lambda>(zero_threshold, body).
     bnd (read_exponential_buckets body b) (\<lambda>(positive, body, b).
     bnd (read_exponential_buckets body b) (\<lambda>(negative, body, b).
     bnd (read_temporality body) (\<lambda>(temporality, body).
     bnd (read_uvarint body) (\<lambda>(count, body).
     bnd (read_option_f64 body) (\<lambda>(sum, body).
     bnd (read_option_f64 body) (\<lambda>(min, body).
     bnd (read_option_f64 body) (\<lambda>(max, body).
     Inr (\<lparr>eh_scale = ucast scale, eh_zero_count = zero_count,
            eh_zero_threshold = zero_threshold, eh_positive = positive,
            eh_negative = negative, eh_temporality = temporality, eh_count = count,
            eh_sum = sum, eh_min = min, eh_max = max\<rparr>, body, b)))))))))))"

definition read_summary_body :: "bytes \<Rightarrow> budget \<Rightarrow> (summary \<times> bytes \<times> budget) result" where
  "read_summary_body body b =
     bnd (read_counted 16 16 read_quantile body b) (\<lambda>(quantiles, body, b).
     bnd (read_uvarint body) (\<lambda>(record_count, body).
     bnd (read_f64 body) (\<lambda>(sum, body).
     bnd (read_temporality body) (\<lambda>(temporality, body).
     Inr (\<lparr>sy_quantiles = quantiles, sy_count = record_count, sy_sum = sum,
            sy_temporality = temporality\<rparr>, body, b)))))"

text \<open>The match of \<open>read_metric_kind\<close> on the kind's tag.\<close>

definition read_kind_body ::
    "('d, 'h) blob_codec \<Rightarrow> layout \<Rightarrow> u8 \<Rightarrow> bytes \<Rightarrow> budget \<Rightarrow>
     (('d, 'h) metric_kind \<times> bytes \<times> budget) result" where
  "read_kind_body B L kind_tag body b =
     (if kind_tag = METRIC_SUM then
        bnd (read_scalar body) (\<lambda>(value, body).
        bnd (read_temporality body) (\<lambda>(temporality, body).
        bnd (read_u8 body) (\<lambda>(m, body).
        Inr (MK_Sum \<lparr>sum_value = value, sum_temporality = temporality,
                     sum_monotonic = (m \<noteq> 0)\<rparr>, body, b))))
      else if kind_tag = METRIC_GAUGE then
        bnd (read_scalar body) (\<lambda>(v, body). Inr (MK_Gauge v, body, b))
      else if kind_tag = METRIC_GAUGE_DELTA then
        bnd (read_scalar body) (\<lambda>(v, body). Inr (MK_GaugeDelta v, body, b))
      else if kind_tag = METRIC_SAMPLES then
        bnd (read_counted 8 8 read_f64 body b) (\<lambda>(values, body, b).
        bnd (read_f64 body) (\<lambda>(rate, body).
        Inr (MK_Samples \<lparr>smp_values = values, smp_sample_rate = rate\<rparr>, body, b)))
      else if kind_tag = METRIC_DISTRIBUTION then
        bnd (ok_or (Malformed ''bad distribution blob'') (dd_from_bytes B body)) (\<lambda>sketch.
        Inr (MK_Distribution sketch, [], b))
      else if kind_tag = METRIC_SET_MEMBERS then
        bnd (read_counted 1 (sz_bytes L) read_member body b) (\<lambda>(members, body, b).
        Inr (MK_SetMembers members, body, b))
      else if kind_tag = METRIC_SET then
        bnd (ok_or (Malformed ''bad set blob'') (hll_from_bytes B body)) (\<lambda>hll.
        Inr (MK_Set hll, [], b))
      else if kind_tag = METRIC_HISTOGRAM then
        bnd (read_histogram_body body b) (\<lambda>(h, body, b). Inr (MK_Histogram h, body, b))
      else if kind_tag = METRIC_EXPONENTIAL_HISTOGRAM then
        bnd (read_exp_histogram_body body b) (\<lambda>(e, body, b).
        Inr (MK_ExponentialHistogram e, body, b))
      else if kind_tag = METRIC_SUMMARY then
        bnd (read_summary_body body b) (\<lambda>(s, body, b). Inr (MK_Summary s, body, b))
      else Inl (Malformed ''unknown metric kind tag''))"

definition read_metric_kind ::
    "('d, 'h) blob_codec \<Rightarrow> layout \<Rightarrow> bytes \<Rightarrow> budget \<Rightarrow>
     (('d, 'h) metric_kind \<times> bytes \<times> budget) result" where
  "read_metric_kind B L bytes b =
     bnd (read_u8 bytes) (\<lambda>(kind_tag, bytes).
     bnd (read_len bytes) (\<lambda>(len, bytes).
     bnd (split_to (Malformed ''metric kind declares more bytes than remain'') len bytes)
       (\<lambda>(body, bytes).
     bnd (read_kind_body B L kind_tag body b) (\<lambda>(kind, body, b).
     bnd (reject_if (body \<noteq> []) (Malformed ''metric kind had trailing bytes'')) (\<lambda>_.
     Inr (kind, bytes, b))))))"

section \<open>Round trip of a metric kind\<close>

lemma read_scalar_written [simp]: "read_scalar (write_scalar v @ rest) = Inr (v, rest)"
  by (cases v) (simp_all add: read_scalar_def scalar_tags from_le_bytes_le_bytes)

lemma read_scalar_written_nil [simp]: "read_scalar (write_scalar v) = Inr (v, [])"
  using read_scalar_written [of v "[]"] by (simp del: read_scalar_written)

lemma length_write_scalar [simp]: "length (write_scalar v) = SCALAR_LEN"
  by (cases v) (simp_all add: SCALAR_LEN_def)

lemma read_f64_written [simp]: "read_f64 (le_bytes 8 v @ rest) = Inr (v, rest)"
  by (simp add: read_f64_def from_le_bytes_le_bytes)

lemma read_f64_written_nil [simp]: "read_f64 (le_bytes 8 v) = Inr (v, [])"
  using read_f64_written [of v "[]"] by (simp del: read_f64_written)

lemma read_option_f64_written [simp]:
  "read_option_f64 (write_option_f64 v @ rest) = Inr (v, rest)"
  by (cases v) (simp_all add: read_option_f64_def write_option_f64_def)

lemma read_option_f64_written_nil [simp]: "read_option_f64 (write_option_f64 v) = Inr (v, [])"
  using read_option_f64_written [of v "[]"] by (simp del: read_option_f64_written)

lemma temporality_tag_inverse [simp]: "temporality_from_tag (temporality_tag t) = Inr t"
  by (cases t) (simp_all add: temporality_from_tag_def)

lemma read_temporality_written [simp]:
  "read_temporality (temporality_tag t # rest) = Inr (t, rest)"
  by (simp add: read_temporality_def)

lemma read_member_written [simp]:
  "length m < 2 ^ 64 \<Longrightarrow> read_member (write_member m @ rest) = Inr (m, rest)"
  by (simp add: read_member_def write_member_def)

lemma read_bucket_written [simp]: "read_bucket (write_bucket x @ rest) = Inr (x, rest)"
  by (simp add: read_bucket_def write_bucket_def split: prod.split)

lemma read_quantile_written [simp]: "read_quantile (write_quantile x @ rest) = Inr (x, rest)"
  by (simp add: read_quantile_def write_quantile_def split: prod.split)

text \<open>A sign-extended \<open>i32\<close> survives the cut back to 32 bits.\<close>

lemma repeat_read_written:
  assumes "\<And>x rest. x \<in> set xs \<Longrightarrow> r (p x @ rest) = Inr (x, rest)"
  shows "repeat_read (length xs) r (concat (map p xs) @ rest) = Inr (xs, rest)"
  using assms by (induction xs) auto

lemma length_concat_map_ge:
  "(\<And>x. x \<in> set xs \<Longrightarrow> m \<le> length (p x)) \<Longrightarrow> length xs * m \<le> length (concat (map p xs))"
  by (induction xs) (auto simp: add_mono)

lemma read_counted_written:
  assumes rd: "\<And>x rest. x \<in> set xs \<Longrightarrow> r (p x @ rest) = Inr (x, rest)"
    and min: "\<And>x. x \<in> set xs \<Longrightarrow> m \<le> length (p x)" and "0 < m"
    and len: "length (concat (map p xs)) < 2 ^ 64"
    and cost: "saturating_mul (length xs) sz \<le> remaining b"
  shows "read_counted m sz r (write_len (length xs) @ concat (map p xs) @ rest) b
       = Inr (xs, rest, spend (saturating_mul (length xs) sz) b)"
proof -
  have ge: "length xs * m \<le> length (concat (map p xs))" by (rule length_concat_map_ge [OF min])
  then have "length xs \<le> length (concat (map p xs))" using \<open>0 < m\<close> by (cases m) auto
  then have "length xs < 2 ^ 64" using len by simp
  moreover have "length xs \<le> length (concat (map p xs) @ rest) div m"
    unfolding less_eq_div_iff_mult_less_eq [OF \<open>0 < m\<close>] length_append using ge by (rule trans_le_add1)
  ultimately show ?thesis
    using cost by (simp add: read_counted_def repeat_read_written [OF rd] del: length_concat)
qed

lemmas read_counted_written_nil = read_counted_written [where rest = "[]", unfolded append_Nil2]

fun kind_cost :: "layout \<Rightarrow> ('d, 'h) metric_kind \<Rightarrow> nat" where
  "kind_cost L (MK_Samples s) = saturating_mul (length (smp_values s)) 8"
| "kind_cost L (MK_SetMembers members) = saturating_mul (length members) (sz_bytes L)"
| "kind_cost L (MK_Histogram h) = saturating_mul (length (h_buckets h)) 16"
| "kind_cost L (MK_ExponentialHistogram e) =
     saturating_mul (length (snd (eh_positive e))) 8 + saturating_mul (length (snd (eh_negative e))) 8"
| "kind_cost L (MK_Summary s) = saturating_mul (length (sy_quantiles s)) 16"
| "kind_cost L _ = 0"

lemma read_exponential_buckets_written:
  assumes "length (write_exponential_buckets x) < 2 ^ 64"
    and "saturating_mul (length (snd x)) 8 \<le> remaining b"
  shows "read_exponential_buckets (write_exponential_buckets x @ rest) b
       = Inr (x, rest, spend (saturating_mul (length (snd x)) 8) b)"
proof -
  obtain offset counts where x: "x = (offset, counts)" by (cases x)
  have "read_counted 1 8 read_uvarint
      (write_len (length counts) @ concat (map write_uvarint counts) @ rest) b
      = Inr (counts, rest, spend (saturating_mul (length counts) 8) b)"
    using assms by (intro read_counted_written)
      (simp_all add: x write_exponential_buckets_def Suc_le_eq)
  then show ?thesis
    by (simp add: x read_exponential_buckets_def write_exponential_buckets_def)
qed

lemma length_write_bucket: "9 \<le> length (write_bucket x)"
  using length_write_len_pos by (cases x) (simp add: write_bucket_def Suc_le_eq)

lemma length_write_quantile: "16 \<le> length (write_quantile x)"
  by (cases x) (simp add: write_quantile_def)

lemma length_write_member: "1 \<le> length (write_member x)"
  using length_write_len_pos by (simp add: write_member_def Suc_le_eq)

lemma read_histogram_body_written:
  assumes "length (concat (map write_bucket (h_buckets h))) < 2 ^ 64"
    and "saturating_mul (length (h_buckets h)) 16 \<le> remaining b"
  shows "read_histogram_body
      (write_len (length (h_buckets h)) @ concat (map write_bucket (h_buckets h)) @
        [temporality_tag (h_temporality h)] @ write_option_f64 (h_sum h) @
        write_option_f64 (h_min h) @ write_option_f64 (h_max h)) b
    = Inr (h, [], spend (saturating_mul (length (h_buckets h)) 16) b)"
  unfolding read_histogram_body_def
  by (subst read_counted_written [OF read_bucket_written length_write_bucket _ assms]) simp_all

lemma read_summary_body_written:
  assumes "length (concat (map write_quantile (sy_quantiles s))) < 2 ^ 64"
    and "saturating_mul (length (sy_quantiles s)) 16 \<le> remaining b"
  shows "read_summary_body
      (write_len (length (sy_quantiles s)) @ concat (map write_quantile (sy_quantiles s)) @
        write_uvarint (sy_count s) @ le_bytes 8 (sy_sum s) @
        [temporality_tag (sy_temporality s)]) b
    = Inr (s, [], spend (saturating_mul (length (sy_quantiles s)) 16) b)"
  unfolding read_summary_body_def
  by (subst read_counted_written [OF read_quantile_written length_write_quantile _ assms]) simp_all

lemma read_exp_histogram_body_written:
  assumes "length (write_exponential_buckets (eh_positive e)) < 2 ^ 64"
    and "length (write_exponential_buckets (eh_negative e)) < 2 ^ 64"
    and "kind_cost L (MK_ExponentialHistogram e) \<le> remaining b"
  shows "read_exp_histogram_body
      (write_ivarint (scast (eh_scale e)) @ write_uvarint (eh_zero_count e) @
        le_bytes 8 (eh_zero_threshold e) @ write_exponential_buckets (eh_positive e) @
        write_exponential_buckets (eh_negative e) @ [temporality_tag (eh_temporality e)] @
        write_uvarint (eh_count e) @ write_option_f64 (eh_sum e) @
        write_option_f64 (eh_min e) @ write_option_f64 (eh_max e)) b
    = Inr (e, [], spend (kind_cost L (MK_ExponentialHistogram e)) b)"
  unfolding read_exp_histogram_body_def using assms
  by (simp add: read_exponential_buckets_written)

lemma read_metric_kind_frame:
  assumes "read_kind_body B L tag body b = Inr (kind, [], b')" and "length body < 2 ^ 64"
  shows "read_metric_kind B L (kind_frame tag body @ rest) b = Inr (kind, rest, b')"
  using assms by (simp add: read_metric_kind_def kind_frame_def)

text \<open>The property of one kind, for the lemmas that establish it kind by kind.\<close>

definition kind_trip :: "('d, 'h) blob_codec \<Rightarrow> layout \<Rightarrow> ('d, 'h) metric_kind \<Rightarrow> bool" where
  "kind_trip B L kind \<longleftrightarrow>
     (\<forall>b rest. length (write_metric_kind B kind) < 2 ^ 64 \<longrightarrow> kind_cost L kind \<le> remaining b \<longrightarrow>
        read_metric_kind B L (write_metric_kind B kind @ rest) b
          = Inr (kind, rest, spend (kind_cost L kind) b))"

lemma kind_tripI:
  assumes "write_metric_kind B kind = kind_frame tag body"
    and "\<And>b. length body < 2 ^ 64 \<Longrightarrow> kind_cost L kind \<le> remaining b \<Longrightarrow>
      read_kind_body B L tag body b = Inr (kind, [], spend (kind_cost L kind) b)"
  shows "kind_trip B L kind"
  unfolding kind_trip_def assms(1)
proof (intro allI impI)
  fix rest and b :: budget
  assume "length (kind_frame tag body) < 2 ^ 64" and "kind_cost L kind \<le> remaining b"
  then show "read_metric_kind B L (kind_frame tag body @ rest) b
      = Inr (kind, rest, spend (kind_cost L kind) b)"
    by (intro read_metric_kind_frame assms(2)) (simp_all add: kind_frame_def)
qed

lemma kind_trip_scalars:
  "kind_trip B L (MK_Sum s)" "kind_trip B L (MK_Gauge v)" "kind_trip B L (MK_GaugeDelta v)"
proof -
  show "kind_trip B L (MK_Sum s)"
    by (rule kind_tripI [where tag = METRIC_SUM and body = "write_scalar (sum_value s) @
          [temporality_tag (sum_temporality s), of_bool (sum_monotonic s)]"])
      (simp_all add: kind_frame_def read_kind_body_def)
  show "kind_trip B L (MK_Gauge v)"
    by (rule kind_tripI [where tag = METRIC_GAUGE and body = "write_scalar v"])
      (simp_all add: kind_frame_def write_scalar_kind_def read_kind_body_def metric_tags)
  show "kind_trip B L (MK_GaugeDelta v)"
    by (rule kind_tripI [where tag = METRIC_GAUGE_DELTA and body = "write_scalar v"])
      (simp_all add: kind_frame_def write_scalar_kind_def read_kind_body_def metric_tags)
qed

lemma kind_trip_blobs:
  "kind_ok B (MK_Distribution d) \<Longrightarrow> kind_trip B L (MK_Distribution d)"
  "kind_ok B (MK_Set h) \<Longrightarrow> kind_trip B L (MK_Set h)"
  by (auto intro!: kind_tripI [OF write_metric_kind.simps(5)]
      kind_tripI [OF write_metric_kind.simps(7)] simp: read_kind_body_def metric_tags)

lemma kind_trip_samples: "kind_trip B L (MK_Samples s)"
proof (rule kind_tripI [OF write_metric_kind.simps(4)])
  let ?p = "concat (map (le_bytes 8) (smp_values s))"
  fix b :: budget assume len: "length (write_len (length (smp_values s)) @ ?p @
      le_bytes 8 (smp_sample_rate s)) < 2 ^ 64" and c: "kind_cost L (MK_Samples s) \<le> remaining b"
  have "read_counted 8 8 read_f64
      (write_len (length (smp_values s)) @ ?p @ le_bytes 8 (smp_sample_rate s)) b
    = Inr (smp_values s, le_bytes 8 (smp_sample_rate s),
        spend (saturating_mul (length (smp_values s)) 8) b)"
    using len c by (intro read_counted_written) simp_all
  then show "read_kind_body B L METRIC_SAMPLES
      (write_len (length (smp_values s)) @ ?p @ le_bytes 8 (smp_sample_rate s)) b
    = Inr (MK_Samples s, [], spend (kind_cost L (MK_Samples s)) b)"
    by (simp add: read_kind_body_def metric_tags)
qed

lemma length_write_member_concat:
  "m \<in> set ms \<Longrightarrow> length m \<le> length (concat (map write_member ms))"
  by (induction ms) (auto simp: write_member_def)

lemma kind_trip_members: "kind_trip B L (MK_SetMembers ms)"
proof (rule kind_tripI [OF write_metric_kind.simps(6)])
  let ?p = "concat (map write_member ms)"
  fix b :: budget assume len: "length (write_len (length ms) @ ?p) < 2 ^ 64"
    and c: "kind_cost L (MK_SetMembers ms :: ('a, 'b) metric_kind) \<le> remaining b"
  have "length m < 2 ^ 64" if "m \<in> set ms" for m
    using len length_write_member_concat [OF that] by simp
  then have "read_counted 1 (sz_bytes L) read_member (write_len (length ms) @ ?p) b
      = Inr (ms, [], spend (saturating_mul (length ms) (sz_bytes L)) b)"
    using len c
    by (intro read_counted_written_nil read_member_written length_write_member) simp_all
  then show "read_kind_body B L METRIC_SET_MEMBERS (write_len (length ms) @ ?p) b
      = Inr (MK_SetMembers ms, [], spend (kind_cost L (MK_SetMembers ms :: ('a, 'b) metric_kind)) b)"
    by (simp add: read_kind_body_def metric_tags)
qed

lemma kind_trip_tables:
  "kind_trip B L (MK_Histogram h)" "kind_trip B L (MK_ExponentialHistogram e)"
  "kind_trip B L (MK_Summary s)"
  by (rule kind_tripI [OF write_metric_kind.simps(8)],
      simp add: read_kind_body_def metric_tags read_histogram_body_written [simplified],
      rule kind_tripI [OF write_metric_kind.simps(9)],
      simp add: read_kind_body_def metric_tags read_exp_histogram_body_written [simplified],
      rule kind_tripI [OF write_metric_kind.simps(10)],
      simp add: read_kind_body_def metric_tags read_summary_body_written [simplified])

lemma kind_trip: "kind_ok B kind \<Longrightarrow> kind_trip B L kind"
  by (cases kind) (simp_all add: kind_trip_scalars kind_trip_blobs kind_trip_samples
      kind_trip_members kind_trip_tables)

section \<open>Trace references\<close>

definition write_trace_ref :: "trace_ref \<Rightarrow> bytes" where
  "write_trace_ref trace =
     tr_trace_id trace @
     (case tr_span_id trace of Some span_id \<Rightarrow> 1 # span_id | None \<Rightarrow> [0]) @
     [tr_flags trace]"

definition read_span_presence :: "bytes \<Rightarrow> (bytes option \<times> bytes) result" where
  "read_span_presence bytes =
     bnd (read_u8 bytes) (\<lambda>(has_span, bytes).
     if has_span = 0 then Inr (None, bytes)
     else if has_span = 1 then
       bnd (split_to (Malformed ''truncated span_id'') 8 bytes) (\<lambda>(span_id, bytes).
       Inr (Some span_id, bytes))
     else Inl (Malformed ''bad span_id presence byte''))"

definition read_trace_ref :: "bytes \<Rightarrow> (trace_ref \<times> bytes) result" where
  "read_trace_ref bytes =
     bnd (split_to (Malformed ''truncated trace_id'') 16 bytes) (\<lambda>(trace_id, bytes).
     bnd (read_span_presence bytes) (\<lambda>(span_id, bytes).
     bnd (read_u8 bytes) (\<lambda>(flags, bytes).
     Inr (\<lparr>tr_trace_id = trace_id, tr_span_id = span_id, tr_flags = flags\<rparr>, bytes))))"

text \<open>The ids are \<open>[u8; 16]\<close> and \<open>[u8; 8]\<close> in the source: their lengths are part of the type.\<close>

definition trace_ok :: "trace_ref \<Rightarrow> bool" where
  "trace_ok t \<longleftrightarrow> length (tr_trace_id t) = 16 \<and>
     (case tr_span_id t of Some i \<Rightarrow> length i = 8 | None \<Rightarrow> True)"

lemma read_trace_ref_written:
  "trace_ok t \<Longrightarrow> read_trace_ref (write_trace_ref t) = Inr (t, [])"
  by (cases t) (auto simp: trace_ok_def read_trace_ref_def write_trace_ref_def
      read_span_presence_def split: option.splits)

section \<open>Exemplars\<close>

definition EX_TIMESTAMP :: u8 where "EX_TIMESTAMP = 1"
definition EX_VALUE :: u8 where "EX_VALUE = 2"
definition EX_TRACE :: u8 where "EX_TRACE = 3"
definition EX_FILTERED_ATTRIBUTES :: u8 where "EX_FILTERED_ATTRIBUTES = 4"

lemmas exemplar_tags = EX_TIMESTAMP_def EX_VALUE_def EX_TRACE_def EX_FILTERED_ATTRIBUTES_def

text \<open>
  \<open>value == MetricValue::F64(0.0)\<close>: the derived comparison is the float's own, for which the
  two zeros are equal.
\<close>

definition NEG_ZERO :: f64 where "NEG_ZERO = 0x8000000000000000"

definition eq_f64_zero :: "metric_value \<Rightarrow> bool" where
  "eq_f64_zero v \<longleftrightarrow> v = MV_F64 0 \<or> v = MV_F64 NEG_ZERO"

definition write_exemplar :: "'k exemplar \<Rightarrow> 'k writer" where
  "write_exemplar exemplar = w_seq [
     w_when (ex_timestamp exemplar \<noteq> 0)
       (write_scalar_field EX_TIMESTAMP 8 (le_bytes 8 (ex_timestamp exemplar))),
     w_when (\<not> eq_f64_zero (ex_value exemplar))
       (write_scalar_field EX_VALUE SCALAR_LEN (write_scalar (ex_value exemplar))),
     w_opt (ex_trace exemplar) (\<lambda>trace. write_field EX_TRACE (w_bytes (write_trace_ref trace))),
     w_when (ex_filtered_attributes exemplar \<noteq> [])
       (write_field EX_FILTERED_ATTRIBUTES (write_attr_map (ex_filtered_attributes exemplar)))]"

definition read_exemplar_value :: "bytes \<Rightarrow> (metric_value \<times> bytes) result" where
  "read_exemplar_value field =
     bnd (read_scalar field) (\<lambda>(value, field).
     bnd (reject_if (field \<noteq> []) (Malformed ''exemplar value had trailing bytes'')) (\<lambda>_.
     Inr (value, field)))"

definition visit_exemplar ::
    "layout \<Rightarrow> 'j::linorder list \<Rightarrow> 'j exemplar \<Rightarrow> u8 \<Rightarrow> bytes \<Rightarrow> budget \<Rightarrow>
     ('j exemplar \<times> bytes \<times> budget) result" where
  "visit_exemplar L dict s tag field b =
     (if tag = EX_TIMESTAMP then
        set_field (\<lambda>v s. s\<lparr>ex_timestamp := v\<rparr>) s b (read_exact_i64 field)
      else if tag = EX_VALUE then
        set_field (\<lambda>v s. s\<lparr>ex_value := v\<rparr>) s b (read_exemplar_value field)
      else if tag = EX_TRACE then
        set_field (\<lambda>v s. s\<lparr>ex_trace := Some v\<rparr>) s b (read_trace_ref field)
      else if tag = EX_FILTERED_ATTRIBUTES then
        set_field_b (\<lambda>v s. s\<lparr>ex_filtered_attributes := v\<rparr>) s (read_attr_map L dict field b)
      else skip_field s b)"

definition exemplar_default :: "'j exemplar" where
  "exemplar_default = \<lparr>ex_timestamp = 0, ex_value = MV_F64 0, ex_trace = None,
     ex_filtered_attributes = []\<rparr>"

definition read_exemplar :: "layout \<Rightarrow> ('j::linorder, 'j exemplar) reader" where
  "read_exemplar L dict bytes b =
     bnd (for_each_field (visit_exemplar L dict) exemplar_default bytes b) (\<lambda>(s, b).
     Inr (s, [], b))"

text \<open>What the decoder makes of a written exemplar, what it spends, and what it accepts.\<close>

definition rename_exemplar :: "('k \<Rightarrow> 'j::linorder) \<Rightarrow> 'k exemplar \<Rightarrow> 'j exemplar" where
  "rename_exemplar f e = \<lparr>ex_timestamp = ex_timestamp e, ex_value = ex_value e,
     ex_trace = ex_trace e, ex_filtered_attributes = rename_attrs f (ex_filtered_attributes e)\<rparr>"

definition exemplar_cost :: "layout \<Rightarrow> 'k exemplar \<Rightarrow> nat" where
  "exemplar_cost L e = attrs_cost L (ex_filtered_attributes e)"

definition exemplar_keys :: "'k exemplar \<Rightarrow> 'k set" where
  "exemplar_keys e = attr_map_keys (ex_filtered_attributes e)"

definition exemplar_ok :: "'k exemplar \<Rightarrow> bool" where
  "exemplar_ok e \<longleftrightarrow> ex_value e \<noteq> MV_F64 NEG_ZERO \<and>
     (case ex_trace e of Some t \<Rightarrow> trace_ok t | None \<Rightarrow> True) \<and> attrs_ok 0 (ex_filtered_attributes e)"

lemma exemplar_branches:
  "branch (visit_exemplar L) s EX_TIMESTAMP ex_timestamp_update (plain read_exact_i64)"
  "branch (visit_exemplar L) s EX_VALUE ex_value_update (plain read_exemplar_value)"
  "branch_some (visit_exemplar L) s EX_TRACE ex_trace_update (plain read_trace_ref)"
  "branch (visit_exemplar L) s EX_FILTERED_ATTRIBUTES ex_filtered_attributes_update (read_attr_map L)"
  by (simp_all add: branch_def branch_some_def visit_exemplar_def exemplar_tags)

lemma field_trace_opt:
  assumes "branch_some visit s tag F (plain read_trace_ref)"
    and "case x of Some t \<Rightarrow> trace_ok t | None \<Rightarrow> True" and "F (\<lambda>_. None) s = s"
  shows "field_trip f (w_opt x (\<lambda>t. write_field tag (w_bytes (write_trace_ref t)))) visit s
    (F (\<lambda>_. x) s) 0"
proof -
  have "field_trip f (w_opt x (\<lambda>t. write_field tag (w_bytes (write_trace_ref t)))) visit s
    (F (\<lambda>_. map_option (\<lambda>t. t) x) s) (case x of Some y \<Rightarrow> 0 | None \<Rightarrow> 0)"
    using assms(2,3) by (intro field_nested_opt [OF assms(1)] whole_trip_plain)
      (auto simp: read_trace_ref_written)
  then show ?thesis by (cases x) (simp_all add: map_option.identity)
qed

lemma field_attrs_when:
  assumes "branch visit s tag F (read_attr_map L)" and "attrs_ok 0 m" and "F (\<lambda>_. []) s = s"
  shows "field_trip f (w_when (m \<noteq> []) (write_field tag (write_attr_map m))) visit s
    (F (\<lambda>_. rename_attrs f m) s) (attrs_cost L m)"
  using assms(2,3)
  by (intro field_nested_when [OF assms(1) round_trip_whole [OF round_trip_attr_map]])
    (simp_all add: rename_attrs_def attrs_cost_def attrs_of_def saturating_mul_def)

lemma keeps_values [simp]:
  "collects {} (write_value v)" "collects {} (write_attr_map m)"
  by (rule collects_empty [OF collects_value], rule collects_empty [OF collects_attr_map])

lemma collects_exemplar [collects_intros]: "collects (exemplar_keys e) (write_exemplar e)"
  unfolding write_exemplar_def
  by (rule collects_mono, (rule collects_Cons collects_Nil collects_intros)+)
    (auto simp: exemplar_keys_def attr_map_keys_def)

lemma keeps_exemplar [simp]: "collects {} (write_exemplar e)"
  by (rule collects_empty [OF collects_exemplar])

lemma whole_trip_exemplar:
  assumes "exemplar_ok e"
  shows "whole_trip f (write_exemplar e) (read_exemplar L) (rename_exemplar f e) (exemplar_cost L e)"
proof -
  note br = exemplar_branches [of L]
  have v: "read_exemplar_value (write_scalar (ex_value e)) = Inr (ex_value e, [])"
    by (simp add: read_exemplar_value_def)
  have "field_trip f (write_exemplar e) (visit_exemplar L) exemplar_default
      (rename_exemplar f e) (exemplar_cost L e)"
    unfolding write_exemplar_def
    by (rule field_trip_cost, (rule field_trip_Cons field_trip_end field_i64_nonzero [OF br(1)]
        field_plain_when [OF br(2) v] field_trace_opt [OF br(3)] field_attrs_when [OF br(4)]
      | simp add: exemplar_default_def assms [unfolded exemplar_ok_def] eq_f64_zero_def
          rename_exemplar_def exemplar_cost_def)+)
  then show ?thesis
    unfolding read_exemplar_def [abs_def] by (rule whole_trip_record) simp
qed

section \<open>Metric records\<close>

definition MR_NAME :: u8 where "MR_NAME = 1"
definition MR_UNIT :: u8 where "MR_UNIT = 2"
definition MR_DESCRIPTION :: u8 where "MR_DESCRIPTION = 3"
definition MR_START_TIMESTAMP :: u8 where "MR_START_TIMESTAMP = 4"
definition MR_EXEMPLARS :: u8 where "MR_EXEMPLARS = 5"
definition MR_KIND :: u8 where "MR_KIND = 6"
definition MR_FLAGS :: u8 where "MR_FLAGS = 7"

lemmas metric_record_tags = MR_NAME_def MR_UNIT_def MR_DESCRIPTION_def MR_START_TIMESTAMP_def
  MR_EXEMPLARS_def MR_KIND_def MR_FLAGS_def

definition write_metric_record ::
    "('d, 'h) blob_codec \<Rightarrow> ('k, 'd, 'h) metric_record \<Rightarrow> 'k writer" where
  "write_metric_record B record = w_seq [
     write_symbol_field MR_NAME (mr_name record),
     w_opt (mr_unit record) (write_symbol_field MR_UNIT),
     w_opt (mr_description record) (write_symbol_field MR_DESCRIPTION),
     w_when (mr_start_timestamp record \<noteq> 0)
       (write_scalar_field MR_START_TIMESTAMP 8 (le_bytes 8 (mr_start_timestamp record))),
     w_when (mr_exemplars record \<noteq> [])
       (write_field MR_EXEMPLARS (write_record_list write_exemplar (mr_exemplars record))),
     w_when (mr_flags record \<noteq> 0)
       (write_scalar_field MR_FLAGS 4 (le_bytes 4 (mr_flags record))),
     write_field MR_KIND (w_bytes (write_metric_kind B (mr_kind record)))]"

text \<open>The locals of \<open>read_metric_record\<close>.\<close>

record ('k, 'd, 'h) metric_fields =
  mf_name :: "'k option"
  mf_unit :: "'k option"
  mf_description :: "'k option"
  mf_start_timestamp :: i64
  mf_exemplars :: "'k exemplar list"
  mf_flags :: u32
  mf_kind :: "('d, 'h) metric_kind option"

definition visit_metric_record ::
    "('d, 'h) blob_codec \<Rightarrow> layout \<Rightarrow> 'j::linorder list \<Rightarrow> ('j, 'd, 'h) metric_fields \<Rightarrow> u8 \<Rightarrow>
     bytes \<Rightarrow> budget \<Rightarrow> (('j, 'd, 'h) metric_fields \<times> bytes \<times> budget) result" where
  "visit_metric_record B L dict s tag field b =
     (if tag = MR_NAME then
        set_field (\<lambda>v s. s\<lparr>mf_name := Some v\<rparr>) s b (read_symbol_field dict field)
      else if tag = MR_UNIT then
        set_field (\<lambda>v s. s\<lparr>mf_unit := Some v\<rparr>) s b (read_symbol_field dict field)
      else if tag = MR_DESCRIPTION then
        set_field (\<lambda>v s. s\<lparr>mf_description := Some v\<rparr>) s b (read_symbol_field dict field)
      else if tag = MR_START_TIMESTAMP then
        set_field (\<lambda>v s. s\<lparr>mf_start_timestamp := v\<rparr>) s b (read_exact_i64 field)
      else if tag = MR_EXEMPLARS then
        set_field_b (\<lambda>v s. s\<lparr>mf_exemplars := v\<rparr>) s
          (read_record_list (sz_exemplar L) (read_exemplar L dict) field b)
      else if tag = MR_FLAGS then
        set_field (\<lambda>v s. s\<lparr>mf_flags := v\<rparr>) s b (read_exact_u32 field)
      else if tag = MR_KIND then
        set_field_b (\<lambda>v s. s\<lparr>mf_kind := Some v\<rparr>) s (read_metric_kind B L field b)
      else skip_field s b)"

definition metric_fields_default :: "('j, 'd, 'h) metric_fields" where
  "metric_fields_default = \<lparr>mf_name = None, mf_unit = None, mf_description = None,
     mf_start_timestamp = 0, mf_exemplars = [], mf_flags = 0, mf_kind = None\<rparr>"

definition read_metric_record ::
    "('d, 'h) blob_codec \<Rightarrow> layout \<Rightarrow> ('j::linorder, ('j, 'd, 'h) metric_record) reader" where
  "read_metric_record B L dict bytes b =
     bnd (for_each_field (visit_metric_record B L dict) metric_fields_default bytes b) (\<lambda>(s, b).
     bnd (ok_or (Malformed ''metric record missing name'') (mf_name s)) (\<lambda>name.
     bnd (ok_or (Malformed ''metric record missing kind'') (mf_kind s)) (\<lambda>kind.
     Inr (\<lparr>mr_name = name, mr_unit = mf_unit s, mr_description = mf_description s,
            mr_start_timestamp = mf_start_timestamp s, mr_exemplars = mf_exemplars s,
            mr_flags = mf_flags s, mr_kind = kind\<rparr>, [], b))))"

definition rename_metric ::
    "('k \<Rightarrow> 'j::linorder) \<Rightarrow> ('k, 'd, 'h) metric_record \<Rightarrow> ('j, 'd, 'h) metric_record" where
  "rename_metric f m = \<lparr>mr_name = f (mr_name m), mr_unit = map_option f (mr_unit m),
     mr_description = map_option f (mr_description m), mr_start_timestamp = mr_start_timestamp m,
     mr_exemplars = map (rename_exemplar f) (mr_exemplars m), mr_flags = mr_flags m,
     mr_kind = mr_kind m\<rparr>"

definition list_cost :: "nat \<Rightarrow> ('a \<Rightarrow> nat) \<Rightarrow> 'a list \<Rightarrow> nat" where
  "list_cost sz c xs = saturating_mul (length xs) sz + sum_list (map c xs)"

lemma list_cost_Nil [simp]: "list_cost sz c [] = 0"
  by (simp add: list_cost_def saturating_mul_def)

definition metric_cost :: "layout \<Rightarrow> ('k, 'd, 'h) metric_record \<Rightarrow> nat" where
  "metric_cost L m =
     list_cost (sz_exemplar L) (exemplar_cost L) (mr_exemplars m) + kind_cost L (mr_kind m)"

definition metric_keys :: "('k, 'd, 'h) metric_record \<Rightarrow> 'k set" where
  "metric_keys m = insert (mr_name m) (set_option (mr_unit m) \<union> set_option (mr_description m) \<union>
     (\<Union>e \<in> set (mr_exemplars m). exemplar_keys e))"

definition metric_ok :: "('d, 'h) blob_codec \<Rightarrow> ('k, 'd, 'h) metric_record \<Rightarrow> bool" where
  "metric_ok B m \<longleftrightarrow> list_all exemplar_ok (mr_exemplars m) \<and> kind_ok B (mr_kind m)"

lemma metric_record_branches:
  "branch_some (visit_metric_record B L) s MR_NAME mf_name_update symbol_reader"
  "branch_some (visit_metric_record B L) s MR_UNIT mf_unit_update symbol_reader"
  "branch_some (visit_metric_record B L) s MR_DESCRIPTION mf_description_update symbol_reader"
  "branch (visit_metric_record B L) s MR_START_TIMESTAMP mf_start_timestamp_update
     (plain read_exact_i64)"
  "branch (visit_metric_record B L) s MR_EXEMPLARS mf_exemplars_update
     (\<lambda>R. read_record_list (sz_exemplar L) (read_exemplar L R))"
  "branch (visit_metric_record B L) s MR_FLAGS mf_flags_update (plain read_exact_u32)"
  "branch_some (visit_metric_record B L) s MR_KIND mf_kind_update (\<lambda>R. read_metric_kind B L)"
  by (simp_all add: branch_def branch_some_def visit_metric_record_def metric_record_tags
      symbol_reader_def)

text \<open>A list of records, in a field written only when it is not empty.\<close>

lemma field_list_when:
  assumes "branch visit s tag F (\<lambda>R. read_record_list sz (r R))"
    and "\<And>x. x \<in> set xs \<Longrightarrow> whole_trip f (w x) r (g x) (c x)" and "\<And>x. collects {} (w x)"
    and "F (\<lambda>_. []) s = s"
  shows "field_trip f (w_when (xs \<noteq> []) (write_field tag (write_record_list w xs))) visit s
    (F (\<lambda>_. map g xs) s) (list_cost sz c xs)"
  unfolding list_cost_def using assms(2-)
  by (intro field_nested_when [OF assms(1) round_trip_whole [OF round_trip_record_list]])
    (simp_all add: saturating_mul_def)

lemma whole_trip_kind:
  assumes "kind_ok B kind"
  shows "whole_trip f (w_bytes (write_metric_kind B kind)) (\<lambda>R. read_metric_kind B L) kind
    (kind_cost L kind)"
  using kind_trip [OF assms, of L, unfolded kind_trip_def, rule_format, where rest = "[]"]
  by (simp add: whole_trip_def w_bytes_def)

lemma collects_metric_record [collects_intros]: "collects (metric_keys m) (write_metric_record B m)"
  unfolding write_metric_record_def
  by (rule collects_mono, (rule collects_Cons collects_Nil collects_intros)+)
    (auto simp: metric_keys_def)

lemma keeps_metric_record [simp]: "collects {} (write_metric_record B m)"
  by (rule collects_empty [OF collects_metric_record])

lemma whole_trip_metric_record:
  assumes "metric_ok B m"
  shows "whole_trip f (write_metric_record B m) (read_metric_record B L) (rename_metric f m)
    (metric_cost L m)"
proof -
  note br = metric_record_branches [of B L]
  let ?s = "\<lparr>mf_name = Some (f (mr_name m)), mf_unit = map_option f (mr_unit m),
     mf_description = map_option f (mr_description m), mf_start_timestamp = mr_start_timestamp m,
     mf_exemplars = map (rename_exemplar f) (mr_exemplars m), mf_flags = mr_flags m,
     mf_kind = Some (mr_kind m)\<rparr>"
  have ex: "whole_trip f (write_exemplar e) (read_exemplar L) (rename_exemplar f e) (exemplar_cost L e)"
    if "e \<in> set (mr_exemplars m)" for e
    using assms that by (intro whole_trip_exemplar) (simp add: metric_ok_def list_all_iff)
  have kind: "kind_ok B (mr_kind m)" using assms by (simp add: metric_ok_def)
  have "field_trip f (write_metric_record B m) (visit_metric_record B L) metric_fields_default
      ?s (metric_cost L m)"
    unfolding write_metric_record_def
    by (rule field_trip_cost, (rule field_trip_Cons field_trip_end field_symbol_some [OF br(1)]
        field_symbol_opt [OF br(2)] field_symbol_opt [OF br(3)] field_i64_nonzero [OF br(4)]
        field_list_when [OF br(5) ex] field_u32_nonzero [OF br(6)]
        field_nested_some [OF br(7) whole_trip_kind [OF kind]]
      | simp add: metric_fields_default_def metric_cost_def)+)
  then show ?thesis
    unfolding read_metric_record_def [abs_def]
    by (rule whole_trip_record) (simp add: rename_metric_def)
qed

end
