(* ===== verification/Native_Record.thy ===== *)
theory Native_Record
  imports Native_Metric
begin

text \<open>
  The rest of \<open>crates/logit-proto/src/native/record.rs\<close>: log records, span events, links,
  extensions and records, whole events, and the batch's resource and scope. Each record has its
  writer, the branches of its reader's \<open>match tag\<close> (\<open>visit_*\<close>), its reader, what the reader
  makes of a written record (\<open>rename_*\<close>), what that spends (\<open>*_cost\<close>), the symbols it mentions
  (\<open>*_keys\<close>) and what the Rust types guarantee of it (\<open>*_ok\<close>).
\<close>

section \<open>Enumerations on the wire\<close>

fun severity_tag :: "severity \<Rightarrow> u8" where
  "severity_tag Sev_Trace = 0"
| "severity_tag Sev_Debug = 1"
| "severity_tag Sev_Info = 2"
| "severity_tag Sev_Warn = 3"
| "severity_tag Sev_Error = 4"
| "severity_tag Sev_Fatal = 5"

definition severity_from_tag :: "u8 \<Rightarrow> severity result" where
  "severity_from_tag tag =
     (if tag = 0 then Inr Sev_Trace else if tag = 1 then Inr Sev_Debug
      else if tag = 2 then Inr Sev_Info else if tag = 3 then Inr Sev_Warn
      else if tag = 4 then Inr Sev_Error else if tag = 5 then Inr Sev_Fatal
      else Inl (Malformed ''unknown severity tag''))"

fun body_format_tag :: "body_format \<Rightarrow> u8" where
  "body_format_tag Raw = 0"
| "body_format_tag Json = 1"
| "body_format_tag Structured = 2"

definition body_format_from_tag :: "u8 \<Rightarrow> body_format result" where
  "body_format_from_tag tag =
     (if tag = 0 then Inr Raw else if tag = 1 then Inr Json else if tag = 2 then Inr Structured
      else Inl (Malformed ''unknown body_format tag''))"

fun span_kind_tag :: "span_kind \<Rightarrow> u8" where
  "span_kind_tag Internal = 0"
| "span_kind_tag Server = 1"
| "span_kind_tag Client = 2"
| "span_kind_tag Producer = 3"
| "span_kind_tag Consumer = 4"

definition span_kind_from_tag :: "u8 \<Rightarrow> span_kind result" where
  "span_kind_from_tag tag =
     (if tag = 0 then Inr Internal else if tag = 1 then Inr Server else if tag = 2 then Inr Client
      else if tag = 3 then Inr Producer else if tag = 4 then Inr Consumer
      else Inl (Malformed ''unknown span kind tag''))"

fun span_status_tag :: "span_status \<Rightarrow> u8" where
  "span_status_tag Status_Unset = 0"
| "span_status_tag Status_Ok = 1"
| "span_status_tag Status_Error = 2"

definition span_status_from_tag :: "u8 \<Rightarrow> span_status result" where
  "span_status_from_tag tag =
     (if tag = 0 then Inr Status_Unset else if tag = 1 then Inr Status_Ok
      else if tag = 2 then Inr Status_Error
      else Inl (Malformed ''unknown span status tag''))"

lemma enum_tags_inverse [simp]:
  "severity_from_tag (severity_tag s) = Inr s"
  "body_format_from_tag (body_format_tag f) = Inr f"
  "span_kind_from_tag (span_kind_tag k) = Inr k"
  "span_status_from_tag (span_status_tag t) = Inr t"
proof -
  show "severity_from_tag (severity_tag s) = Inr s"
    by (cases s) (simp_all add: severity_from_tag_def)
  show "body_format_from_tag (body_format_tag f) = Inr f"
    by (cases f) (simp_all add: body_format_from_tag_def)
  show "span_kind_from_tag (span_kind_tag k) = Inr k"
    by (cases k) (simp_all add: span_kind_from_tag_def)
  show "span_status_from_tag (span_status_tag t) = Inr t"
    by (cases t) (simp_all add: span_status_from_tag_def)
qed

text \<open>\<open>x_from_tag(read_u8(field)?)?\<close>, and an id field of a fixed width.\<close>

definition read_enum :: "(u8 \<Rightarrow> 'a result) \<Rightarrow> bytes \<Rightarrow> ('a \<times> bytes) result" where
  "read_enum from_tag field =
     bnd (read_u8 field) (\<lambda>(tag, field). bnd (from_tag tag) (\<lambda>x. Inr (x, field)))"

definition read_id :: "codec_error \<Rightarrow> nat \<Rightarrow> bytes \<Rightarrow> (bytes \<times> bytes) result" where
  "read_id e n field = (if length field \<noteq> n then Inl e else Inr (field, []))"

lemma read_enum_written [simp]: "from_tag t = Inr x \<Longrightarrow> read_enum from_tag [t] = Inr (x, [])"
  by (simp add: read_enum_def)

lemma read_id_written [simp]: "length i = n \<Longrightarrow> read_id e n i = Inr (i, [])"
  by (simp add: read_id_def)

lemma whole_trip_value:
  "value_ok 0 v \<Longrightarrow> whole_trip f (write_value v) (read_value L) (rename_value f v) (value_cost L v)"
  using round_trip_whole [OF round_trip_value, of 0 v f L]
  by (simp add: whole_trip_def read_value_def)

lemma field_enum_when:
  assumes "branch visit s tag F (plain (read_enum from_tag))" and "from_tag (t x) = Inr x"
    and "F (\<lambda>_. d) s = s"
  shows "field_trip f (w_when (x \<noteq> d) (write_scalar_field tag 1 [t x])) visit s (F (\<lambda>_. x) s) 0"
  using assms(2,3) by (intro field_plain_when [OF assms(1)]) auto

lemma field_enum_opt:
  assumes "branch_some visit s tag F (plain (read_enum from_tag))"
    and "\<And>x. from_tag (t x) = Inr x" and "F (\<lambda>_. None) s = s"
  shows "field_trip f (w_opt x (\<lambda>y. write_scalar_field tag 1 [t y])) visit s (F (\<lambda>_. x) s) 0"
  using field_plain_opt [OF assms(1), where enc = "\<lambda>y. [t y]" and len = "\<lambda>_. 1"] assms(2,3) by simp

lemma field_id_some:
  assumes "branch_some visit s tag F (plain (read_id e n))" and "length i = n"
  shows "field_trip f (write_scalar_field tag n i) visit s (F (\<lambda>_. Some i) s) 0"
  using assms(2) by (intro field_plain_some [OF assms(1)]) auto

lemma field_id_opt:
  assumes "branch_some visit s tag F (plain (read_id e n))"
    and "case x of Some i \<Rightarrow> length i = n | None \<Rightarrow> True" and "F (\<lambda>_. None) s = s"
  shows "field_trip f (w_opt x (\<lambda>i. write_scalar_field tag n i)) visit s (F (\<lambda>_. x) s) 0"
  using assms(2,3) by (intro field_plain_opt [OF assms(1), where enc = "\<lambda>y. y" and len = "\<lambda>_. n"]) auto
section \<open>Log records\<close>

definition LR_MESSAGE :: u8 where "LR_MESSAGE = 1"
definition LR_SEVERITY :: u8 where "LR_SEVERITY = 2"
definition LR_BODY_FORMAT :: u8 where "LR_BODY_FORMAT = 3"
definition LR_TRACE :: u8 where "LR_TRACE = 4"
definition LR_EVENT_NAME :: u8 where "LR_EVENT_NAME = 5"
definition LR_OBSERVED_TIMESTAMP :: u8 where "LR_OBSERVED_TIMESTAMP = 6"
definition LR_DROPPED_ATTRIBUTES_COUNT :: u8 where "LR_DROPPED_ATTRIBUTES_COUNT = 7"

lemmas log_tags = LR_MESSAGE_def LR_SEVERITY_def LR_BODY_FORMAT_def LR_TRACE_def
  LR_EVENT_NAME_def LR_OBSERVED_TIMESTAMP_def LR_DROPPED_ATTRIBUTES_COUNT_def

definition write_log_record :: "'k log_record \<Rightarrow> 'k writer" where
  "write_log_record log = w_seq [
     write_field LR_MESSAGE (write_value (lr_message log)),
     w_opt (lr_severity log) (\<lambda>s. write_scalar_field LR_SEVERITY 1 [severity_tag s]),
     w_when (lr_body_format log \<noteq> Raw)
       (write_scalar_field LR_BODY_FORMAT 1 [body_format_tag (lr_body_format log)]),
     w_opt (lr_trace log) (\<lambda>trace. write_field LR_TRACE (w_bytes (write_trace_ref trace))),
     w_opt (lr_event_name log) (write_symbol_field LR_EVENT_NAME),
     w_when (lr_observed_timestamp log \<noteq> 0)
       (write_scalar_field LR_OBSERVED_TIMESTAMP 8 (le_bytes 8 (lr_observed_timestamp log))),
     w_when (lr_dropped_attributes_count log \<noteq> 0)
       (write_scalar_field LR_DROPPED_ATTRIBUTES_COUNT 4
          (le_bytes 4 (lr_dropped_attributes_count log)))]"

record 'k log_fields =
  lf_message :: "'k attr_value option"
  lf_severity :: "severity option"
  lf_body_format :: body_format
  lf_trace :: "trace_ref option"
  lf_event_name :: "'k option"
  lf_observed_timestamp :: i64
  lf_dropped_attributes_count :: u32

definition visit_log_record ::
    "layout \<Rightarrow> 'j::linorder list \<Rightarrow> 'j log_fields \<Rightarrow> u8 \<Rightarrow> bytes \<Rightarrow> budget \<Rightarrow>
     ('j log_fields \<times> bytes \<times> budget) result" where
  "visit_log_record L dict s tag field b =
     (if tag = LR_MESSAGE then
        set_field_b (\<lambda>v s. s\<lparr>lf_message := Some v\<rparr>) s (read_value L dict field b)
      else if tag = LR_SEVERITY then
        set_field (\<lambda>v s. s\<lparr>lf_severity := Some v\<rparr>) s b (read_enum severity_from_tag field)
      else if tag = LR_BODY_FORMAT then
        set_field (\<lambda>v s. s\<lparr>lf_body_format := v\<rparr>) s b (read_enum body_format_from_tag field)
      else if tag = LR_TRACE then
        set_field (\<lambda>v s. s\<lparr>lf_trace := Some v\<rparr>) s b (read_trace_ref field)
      else if tag = LR_EVENT_NAME then
        set_field (\<lambda>v s. s\<lparr>lf_event_name := Some v\<rparr>) s b (read_symbol_field dict field)
      else if tag = LR_OBSERVED_TIMESTAMP then
        set_field (\<lambda>v s. s\<lparr>lf_observed_timestamp := v\<rparr>) s b (read_exact_i64 field)
      else if tag = LR_DROPPED_ATTRIBUTES_COUNT then
        set_field (\<lambda>v s. s\<lparr>lf_dropped_attributes_count := v\<rparr>) s b (read_exact_u32 field)
      else skip_field s b)"

definition log_fields_default :: "'j log_fields" where
  "log_fields_default = \<lparr>lf_message = None, lf_severity = None, lf_body_format = Raw,
     lf_trace = None, lf_event_name = None, lf_observed_timestamp = 0,
     lf_dropped_attributes_count = 0\<rparr>"

definition read_log_record :: "layout \<Rightarrow> ('j::linorder, 'j log_record) reader" where
  "read_log_record L dict bytes b =
     bnd (for_each_field (visit_log_record L dict) log_fields_default bytes b) (\<lambda>(s, b).
     bnd (ok_or (Malformed ''log record missing message'') (lf_message s)) (\<lambda>message.
     Inr (\<lparr>lr_message = message, lr_severity = lf_severity s, lr_body_format = lf_body_format s,
            lr_trace = lf_trace s, lr_event_name = lf_event_name s,
            lr_observed_timestamp = lf_observed_timestamp s,
            lr_dropped_attributes_count = lf_dropped_attributes_count s\<rparr>, [], b)))"

definition rename_log :: "('k \<Rightarrow> 'j::linorder) \<Rightarrow> 'k log_record \<Rightarrow> 'j log_record" where
  "rename_log f l = \<lparr>lr_message = rename_value f (lr_message l), lr_severity = lr_severity l,
     lr_body_format = lr_body_format l, lr_trace = lr_trace l,
     lr_event_name = map_option f (lr_event_name l),
     lr_observed_timestamp = lr_observed_timestamp l,
     lr_dropped_attributes_count = lr_dropped_attributes_count l\<rparr>"

definition log_cost :: "layout \<Rightarrow> 'k log_record \<Rightarrow> nat" where
  "log_cost L l = value_cost L (lr_message l)"

definition log_keys :: "'k log_record \<Rightarrow> 'k set" where
  "log_keys l = value_keys (lr_message l) \<union> set_option (lr_event_name l)"

definition opt_trace_ok :: "trace_ref option \<Rightarrow> bool" where
  "opt_trace_ok x \<longleftrightarrow> (case x of Some t \<Rightarrow> trace_ok t | None \<Rightarrow> True)"

definition log_ok :: "'k log_record \<Rightarrow> bool" where
  "log_ok l \<longleftrightarrow> value_ok 0 (lr_message l) \<and> opt_trace_ok (lr_trace l)"

lemma log_branches:
  "branch_some (visit_log_record L) s LR_MESSAGE lf_message_update (read_value L)"
  "branch_some (visit_log_record L) s LR_SEVERITY lf_severity_update
     (plain (read_enum severity_from_tag))"
  "branch (visit_log_record L) s LR_BODY_FORMAT lf_body_format_update
     (plain (read_enum body_format_from_tag))"
  "branch_some (visit_log_record L) s LR_TRACE lf_trace_update (plain read_trace_ref)"
  "branch_some (visit_log_record L) s LR_EVENT_NAME lf_event_name_update symbol_reader"
  "branch (visit_log_record L) s LR_OBSERVED_TIMESTAMP lf_observed_timestamp_update
     (plain read_exact_i64)"
  "branch (visit_log_record L) s LR_DROPPED_ATTRIBUTES_COUNT lf_dropped_attributes_count_update
     (plain read_exact_u32)"
  by (simp_all add: branch_def branch_some_def visit_log_record_def log_tags symbol_reader_def)

lemma collects_log_record [collects_intros]: "collects (log_keys l) (write_log_record l)"
  unfolding write_log_record_def
  by (rule collects_mono, (rule collects_Cons collects_Nil collects_intros)+)
    (auto simp: log_keys_def)

lemma keeps_log_record [simp]: "collects {} (write_log_record l)"
  by (rule collects_empty [OF collects_log_record])

lemma whole_trip_log_record:
  assumes "log_ok l"
  shows "whole_trip f (write_log_record l) (read_log_record L) (rename_log f l) (log_cost L l)"
proof -
  note br = log_branches [of L]
  let ?s = "\<lparr>lf_message = Some (rename_value f (lr_message l)), lf_severity = lr_severity l,
     lf_body_format = lr_body_format l, lf_trace = lr_trace l,
     lf_event_name = map_option f (lr_event_name l),
     lf_observed_timestamp = lr_observed_timestamp l,
     lf_dropped_attributes_count = lr_dropped_attributes_count l\<rparr>"
  have "field_trip f (write_log_record l) (visit_log_record L) log_fields_default ?s (log_cost L l)"
    unfolding write_log_record_def
    by (rule field_trip_cost, (rule field_trip_Cons field_trip_end
        field_nested_some [OF br(1) whole_trip_value] field_enum_opt [OF br(2)]
        field_enum_when [OF br(3)] field_trace_opt [OF br(4)] field_symbol_opt [OF br(5)]
        field_i64_nonzero [OF br(6)] field_u32_nonzero [OF br(7)]
      | simp add: log_fields_default_def log_cost_def assms [unfolded log_ok_def opt_trace_ok_def])+)
  then show ?thesis
    unfolding read_log_record_def [abs_def]
    by (rule whole_trip_record) (simp add: rename_log_def)
qed

section \<open>Span events\<close>

definition SE_TIMESTAMP :: u8 where "SE_TIMESTAMP = 1"
definition SE_NAME :: u8 where "SE_NAME = 2"
definition SE_ATTRIBUTES :: u8 where "SE_ATTRIBUTES = 3"
definition SE_DROPPED_ATTRIBUTES_COUNT :: u8 where "SE_DROPPED_ATTRIBUTES_COUNT = 4"

lemmas span_event_tags = SE_TIMESTAMP_def SE_NAME_def SE_ATTRIBUTES_def
  SE_DROPPED_ATTRIBUTES_COUNT_def

definition write_span_event :: "'k span_event \<Rightarrow> 'k writer" where
  "write_span_event event = w_seq [
     write_scalar_field SE_TIMESTAMP 8 (le_bytes 8 (se_timestamp event)),
     write_field SE_NAME (write_value (se_name event)),
     w_when (se_attributes event \<noteq> [])
       (write_field SE_ATTRIBUTES (write_attr_map (se_attributes event))),
     w_when (se_dropped_attributes_count event \<noteq> 0)
       (write_scalar_field SE_DROPPED_ATTRIBUTES_COUNT 4
          (le_bytes 4 (se_dropped_attributes_count event)))]"

record 'k span_event_fields =
  sef_timestamp :: i64
  sef_name :: "'k attr_value option"
  sef_attributes :: "'k attr_map"
  sef_dropped_attributes_count :: u32

definition visit_span_event ::
    "layout \<Rightarrow> 'j::linorder list \<Rightarrow> 'j span_event_fields \<Rightarrow> u8 \<Rightarrow> bytes \<Rightarrow> budget \<Rightarrow>
     ('j span_event_fields \<times> bytes \<times> budget) result" where
  "visit_span_event L dict s tag field b =
     (if tag = SE_TIMESTAMP then
        set_field (\<lambda>v s. s\<lparr>sef_timestamp := v\<rparr>) s b (read_exact_i64 field)
      else if tag = SE_NAME then
        set_field_b (\<lambda>v s. s\<lparr>sef_name := Some v\<rparr>) s (read_value L dict field b)
      else if tag = SE_ATTRIBUTES then
        set_field_b (\<lambda>v s. s\<lparr>sef_attributes := v\<rparr>) s (read_attr_map L dict field b)
      else if tag = SE_DROPPED_ATTRIBUTES_COUNT then
        set_field (\<lambda>v s. s\<lparr>sef_dropped_attributes_count := v\<rparr>) s b (read_exact_u32 field)
      else skip_field s b)"

definition span_event_fields_default :: "'j span_event_fields" where
  "span_event_fields_default = \<lparr>sef_timestamp = 0, sef_name = None, sef_attributes = [],
     sef_dropped_attributes_count = 0\<rparr>"

definition read_span_event :: "layout \<Rightarrow> ('j::linorder, 'j span_event) reader" where
  "read_span_event L dict bytes b =
     bnd (for_each_field (visit_span_event L dict) span_event_fields_default bytes b) (\<lambda>(s, b).
     bnd (ok_or (Malformed ''span event missing name'') (sef_name s)) (\<lambda>name.
     Inr (\<lparr>se_timestamp = sef_timestamp s, se_name = name, se_attributes = sef_attributes s,
            se_dropped_attributes_count = sef_dropped_attributes_count s\<rparr>, [], b)))"

definition rename_span_event :: "('k \<Rightarrow> 'j::linorder) \<Rightarrow> 'k span_event \<Rightarrow> 'j span_event" where
  "rename_span_event f e = \<lparr>se_timestamp = se_timestamp e, se_name = rename_value f (se_name e),
     se_attributes = rename_attrs f (se_attributes e),
     se_dropped_attributes_count = se_dropped_attributes_count e\<rparr>"

definition span_event_cost :: "layout \<Rightarrow> 'k span_event \<Rightarrow> nat" where
  "span_event_cost L e = value_cost L (se_name e) + attrs_cost L (se_attributes e)"

definition span_event_keys :: "'k span_event \<Rightarrow> 'k set" where
  "span_event_keys e = value_keys (se_name e) \<union> attr_map_keys (se_attributes e)"

definition span_event_ok :: "'k span_event \<Rightarrow> bool" where
  "span_event_ok e \<longleftrightarrow> value_ok 0 (se_name e) \<and> attrs_ok 0 (se_attributes e)"

lemma span_event_branches:
  "branch (visit_span_event L) s SE_TIMESTAMP sef_timestamp_update (plain read_exact_i64)"
  "branch_some (visit_span_event L) s SE_NAME sef_name_update (read_value L)"
  "branch (visit_span_event L) s SE_ATTRIBUTES sef_attributes_update (read_attr_map L)"
  "branch (visit_span_event L) s SE_DROPPED_ATTRIBUTES_COUNT sef_dropped_attributes_count_update
     (plain read_exact_u32)"
  by (simp_all add: branch_def branch_some_def visit_span_event_def span_event_tags)

lemma attr_map_keys_Nil [simp]: "attr_map_keys [] = {}"
  by (simp add: attr_map_keys_def)

lemma collects_span_event [collects_intros]: "collects (span_event_keys e) (write_span_event e)"
  unfolding write_span_event_def
  by (rule collects_mono, (rule collects_Cons collects_Nil collects_intros)+)
    (auto simp: span_event_keys_def)

lemma keeps_span_event [simp]: "collects {} (write_span_event e)"
  by (rule collects_empty [OF collects_span_event])

lemma whole_trip_span_event:
  assumes "span_event_ok e"
  shows "whole_trip f (write_span_event e) (read_span_event L) (rename_span_event f e)
    (span_event_cost L e)"
proof -
  note br = span_event_branches [of L]
  let ?s = "\<lparr>sef_timestamp = se_timestamp e, sef_name = Some (rename_value f (se_name e)),
     sef_attributes = rename_attrs f (se_attributes e),
     sef_dropped_attributes_count = se_dropped_attributes_count e\<rparr>"
  have "field_trip f (write_span_event e) (visit_span_event L) span_event_fields_default ?s
      (span_event_cost L e)"
    unfolding write_span_event_def
    by (rule field_trip_cost, (rule field_trip_Cons field_trip_end field_i64 [OF br(1)]
        field_nested_some [OF br(2) whole_trip_value] field_attrs_when [OF br(3)]
        field_u32_nonzero [OF br(4)]
      | simp add: span_event_fields_default_def span_event_cost_def
          assms [unfolded span_event_ok_def])+)
  then show ?thesis
    unfolding read_span_event_def [abs_def]
    by (rule whole_trip_record) (simp add: rename_span_event_def)
qed

section \<open>Span links\<close>

definition SL_TRACE_ID :: u8 where "SL_TRACE_ID = 1"
definition SL_SPAN_ID :: u8 where "SL_SPAN_ID = 2"
definition SL_ATTRIBUTES :: u8 where "SL_ATTRIBUTES = 3"
definition SL_FLAGS :: u8 where "SL_FLAGS = 4"
definition SL_TRACE_STATE :: u8 where "SL_TRACE_STATE = 5"
definition SL_DROPPED_ATTRIBUTES_COUNT :: u8 where "SL_DROPPED_ATTRIBUTES_COUNT = 6"

lemmas span_link_tags = SL_TRACE_ID_def SL_SPAN_ID_def SL_ATTRIBUTES_def SL_FLAGS_def
  SL_TRACE_STATE_def SL_DROPPED_ATTRIBUTES_COUNT_def

definition write_span_link :: "'k span_link \<Rightarrow> 'k writer" where
  "write_span_link link = w_seq [
     write_scalar_field SL_TRACE_ID 16 (sl_trace_id link),
     write_scalar_field SL_SPAN_ID 8 (sl_span_id link),
     w_when (sl_attributes link \<noteq> [])
       (write_field SL_ATTRIBUTES (write_attr_map (sl_attributes link))),
     w_when (sl_flags link \<noteq> 0) (write_scalar_field SL_FLAGS 4 (le_bytes 4 (sl_flags link))),
     w_opt (sl_trace_state link) (write_bytes_field SL_TRACE_STATE),
     w_when (sl_dropped_attributes_count link \<noteq> 0)
       (write_scalar_field SL_DROPPED_ATTRIBUTES_COUNT 4
          (le_bytes 4 (sl_dropped_attributes_count link)))]"

record 'k span_link_fields =
  slf_trace_id :: "bytes option"
  slf_span_id :: "bytes option"
  slf_attributes :: "'k attr_map"
  slf_flags :: u32
  slf_trace_state :: "bytes option"
  slf_dropped_attributes_count :: u32

definition visit_span_link ::
    "layout \<Rightarrow> 'j::linorder list \<Rightarrow> 'j span_link_fields \<Rightarrow> u8 \<Rightarrow> bytes \<Rightarrow> budget \<Rightarrow>
     ('j span_link_fields \<times> bytes \<times> budget) result" where
  "visit_span_link L dict s tag field b =
     (if tag = SL_TRACE_ID then
        set_field (\<lambda>v s. s\<lparr>slf_trace_id := Some v\<rparr>) s b
          (read_id (Malformed ''bad span link trace_id length'') 16 field)
      else if tag = SL_SPAN_ID then
        set_field (\<lambda>v s. s\<lparr>slf_span_id := Some v\<rparr>) s b
          (read_id (Malformed ''bad span link span_id length'') 8 field)
      else if tag = SL_ATTRIBUTES then
        set_field_b (\<lambda>v s. s\<lparr>slf_attributes := v\<rparr>) s (read_attr_map L dict field b)
      else if tag = SL_FLAGS then
        set_field (\<lambda>v s. s\<lparr>slf_flags := v\<rparr>) s b (read_exact_u32 field)
      else if tag = SL_TRACE_STATE then
        set_field (\<lambda>v s. s\<lparr>slf_trace_state := Some v\<rparr>) s b (take_field field)
      else if tag = SL_DROPPED_ATTRIBUTES_COUNT then
        set_field (\<lambda>v s. s\<lparr>slf_dropped_attributes_count := v\<rparr>) s b (read_exact_u32 field)
      else skip_field s b)"

definition span_link_fields_default :: "'j span_link_fields" where
  "span_link_fields_default = \<lparr>slf_trace_id = None, slf_span_id = None, slf_attributes = [],
     slf_flags = 0, slf_trace_state = None, slf_dropped_attributes_count = 0\<rparr>"

definition read_span_link :: "layout \<Rightarrow> ('j::linorder, 'j span_link) reader" where
  "read_span_link L dict bytes b =
     bnd (for_each_field (visit_span_link L dict) span_link_fields_default bytes b) (\<lambda>(s, b).
     bnd (ok_or (Malformed ''span link missing trace_id'') (slf_trace_id s)) (\<lambda>trace_id.
     bnd (ok_or (Malformed ''span link missing span_id'') (slf_span_id s)) (\<lambda>span_id.
     Inr (\<lparr>sl_trace_id = trace_id, sl_span_id = span_id, sl_attributes = slf_attributes s,
            sl_flags = slf_flags s, sl_trace_state = slf_trace_state s,
            sl_dropped_attributes_count = slf_dropped_attributes_count s\<rparr>, [], b))))"

definition rename_span_link :: "('k \<Rightarrow> 'j::linorder) \<Rightarrow> 'k span_link \<Rightarrow> 'j span_link" where
  "rename_span_link f l = \<lparr>sl_trace_id = sl_trace_id l, sl_span_id = sl_span_id l,
     sl_attributes = rename_attrs f (sl_attributes l), sl_flags = sl_flags l,
     sl_trace_state = sl_trace_state l,
     sl_dropped_attributes_count = sl_dropped_attributes_count l\<rparr>"

definition span_link_cost :: "layout \<Rightarrow> 'k span_link \<Rightarrow> nat" where
  "span_link_cost L l = attrs_cost L (sl_attributes l)"

definition span_link_keys :: "'k span_link \<Rightarrow> 'k set" where
  "span_link_keys l = attr_map_keys (sl_attributes l)"

definition span_link_ok :: "'k span_link \<Rightarrow> bool" where
  "span_link_ok l \<longleftrightarrow> length (sl_trace_id l) = 16 \<and> length (sl_span_id l) = 8 \<and>
     attrs_ok 0 (sl_attributes l)"

lemma span_link_branches:
  "branch_some (visit_span_link L) s SL_TRACE_ID slf_trace_id_update
     (plain (read_id (Malformed ''bad span link trace_id length'') 16))"
  "branch_some (visit_span_link L) s SL_SPAN_ID slf_span_id_update
     (plain (read_id (Malformed ''bad span link span_id length'') 8))"
  "branch (visit_span_link L) s SL_ATTRIBUTES slf_attributes_update (read_attr_map L)"
  "branch (visit_span_link L) s SL_FLAGS slf_flags_update (plain read_exact_u32)"
  "branch_some (visit_span_link L) s SL_TRACE_STATE slf_trace_state_update (plain take_field)"
  "branch (visit_span_link L) s SL_DROPPED_ATTRIBUTES_COUNT slf_dropped_attributes_count_update
     (plain read_exact_u32)"
  by (simp_all add: branch_def branch_some_def visit_span_link_def span_link_tags)

lemma collects_span_link [collects_intros]: "collects (span_link_keys l) (write_span_link l)"
  unfolding write_span_link_def
  by (rule collects_mono, (rule collects_Cons collects_Nil collects_intros)+)
    (auto simp: span_link_keys_def)

lemma keeps_span_link [simp]: "collects {} (write_span_link l)"
  by (rule collects_empty [OF collects_span_link])

lemma whole_trip_span_link:
  assumes "span_link_ok l"
  shows "whole_trip f (write_span_link l) (read_span_link L) (rename_span_link f l)
    (span_link_cost L l)"
proof -
  note br = span_link_branches [of L]
  let ?s = "\<lparr>slf_trace_id = Some (sl_trace_id l), slf_span_id = Some (sl_span_id l),
     slf_attributes = rename_attrs f (sl_attributes l), slf_flags = sl_flags l,
     slf_trace_state = sl_trace_state l,
     slf_dropped_attributes_count = sl_dropped_attributes_count l\<rparr>"
  have "field_trip f (write_span_link l) (visit_span_link L) span_link_fields_default ?s
      (span_link_cost L l)"
    unfolding write_span_link_def
    by (rule field_trip_cost, (rule field_trip_Cons field_trip_end field_id_some [OF br(1)]
        field_id_some [OF br(2)] field_attrs_when [OF br(3)] field_u32_nonzero [OF br(4)]
        field_bytes_opt [OF br(5)] field_u32_nonzero [OF br(6)]
      | simp add: span_link_fields_default_def span_link_cost_def assms [unfolded span_link_ok_def])+)
  then show ?thesis
    unfolding read_span_link_def [abs_def]
    by (rule whole_trip_record) (simp add: rename_span_link_def)
qed

section \<open>Span extensions\<close>

definition SX_STATUS_MESSAGE :: u8 where "SX_STATUS_MESSAGE = 1"
definition SX_TRACE_STATE :: u8 where "SX_TRACE_STATE = 2"
definition SX_DROPPED_ATTRIBUTES_COUNT :: u8 where "SX_DROPPED_ATTRIBUTES_COUNT = 3"
definition SX_DROPPED_EVENTS_COUNT :: u8 where "SX_DROPPED_EVENTS_COUNT = 4"
definition SX_DROPPED_LINKS_COUNT :: u8 where "SX_DROPPED_LINKS_COUNT = 5"

lemmas span_ext_tags = SX_STATUS_MESSAGE_def SX_TRACE_STATE_def SX_DROPPED_ATTRIBUTES_COUNT_def
  SX_DROPPED_EVENTS_COUNT_def SX_DROPPED_LINKS_COUNT_def

definition write_span_ext :: "span_ext \<Rightarrow> 'k writer" where
  "write_span_ext ext = w_seq [
     w_opt (sx_status_message ext) (write_bytes_field SX_STATUS_MESSAGE),
     w_opt (sx_trace_state ext) (write_bytes_field SX_TRACE_STATE),
     w_when (sx_dropped_attributes_count ext \<noteq> 0)
       (write_scalar_field SX_DROPPED_ATTRIBUTES_COUNT 4
          (le_bytes 4 (sx_dropped_attributes_count ext))),
     w_when (sx_dropped_events_count ext \<noteq> 0)
       (write_scalar_field SX_DROPPED_EVENTS_COUNT 4 (le_bytes 4 (sx_dropped_events_count ext))),
     w_when (sx_dropped_links_count ext \<noteq> 0)
       (write_scalar_field SX_DROPPED_LINKS_COUNT 4 (le_bytes 4 (sx_dropped_links_count ext)))]"

definition visit_span_ext ::
    "'j list \<Rightarrow> span_ext \<Rightarrow> u8 \<Rightarrow> bytes \<Rightarrow> budget \<Rightarrow> (span_ext \<times> bytes \<times> budget) result" where
  "visit_span_ext dict ext tag field b =
     (if tag = SX_STATUS_MESSAGE then
        set_field (\<lambda>v s. s\<lparr>sx_status_message := Some v\<rparr>) ext b (take_field field)
      else if tag = SX_TRACE_STATE then
        set_field (\<lambda>v s. s\<lparr>sx_trace_state := Some v\<rparr>) ext b (take_field field)
      else if tag = SX_DROPPED_ATTRIBUTES_COUNT then
        set_field (\<lambda>v s. s\<lparr>sx_dropped_attributes_count := v\<rparr>) ext b (read_exact_u32 field)
      else if tag = SX_DROPPED_EVENTS_COUNT then
        set_field (\<lambda>v s. s\<lparr>sx_dropped_events_count := v\<rparr>) ext b (read_exact_u32 field)
      else if tag = SX_DROPPED_LINKS_COUNT then
        set_field (\<lambda>v s. s\<lparr>sx_dropped_links_count := v\<rparr>) ext b (read_exact_u32 field)
      else skip_field ext b)"

definition span_ext_default :: span_ext where
  "span_ext_default = \<lparr>sx_status_message = None, sx_trace_state = None,
     sx_dropped_attributes_count = 0, sx_dropped_events_count = 0, sx_dropped_links_count = 0\<rparr>"

definition read_span_ext :: "('j, span_ext) reader" where
  "read_span_ext dict bytes b =
     bnd (for_each_field (visit_span_ext dict) span_ext_default bytes b) (\<lambda>(ext, b).
     Inr (ext, [], b))"

lemma span_ext_branches:
  "branch_some visit_span_ext s SX_STATUS_MESSAGE sx_status_message_update (plain take_field)"
  "branch_some visit_span_ext s SX_TRACE_STATE sx_trace_state_update (plain take_field)"
  "branch visit_span_ext s SX_DROPPED_ATTRIBUTES_COUNT sx_dropped_attributes_count_update
     (plain read_exact_u32)"
  "branch visit_span_ext s SX_DROPPED_EVENTS_COUNT sx_dropped_events_count_update
     (plain read_exact_u32)"
  "branch visit_span_ext s SX_DROPPED_LINKS_COUNT sx_dropped_links_count_update
     (plain read_exact_u32)"
  by (simp_all add: branch_def branch_some_def visit_span_ext_def span_ext_tags)

lemma keeps_span_ext [simp]: "collects {} (write_span_ext x)"
  by (simp add: write_span_ext_def)

lemma whole_trip_span_ext: "whole_trip f (write_span_ext x) read_span_ext x 0"
proof -
  note br = span_ext_branches
  have "field_trip f (write_span_ext x) visit_span_ext span_ext_default x 0"
    unfolding write_span_ext_def
    by (rule field_trip_cost, (rule field_trip_Cons field_trip_end field_bytes_opt [OF br(1)]
        field_bytes_opt [OF br(2)] field_u32_nonzero [OF br(3)] field_u32_nonzero [OF br(4)]
        field_u32_nonzero [OF br(5)]
      | simp add: span_ext_default_def)+)
  then show ?thesis
    unfolding read_span_ext_def [abs_def] by (rule whole_trip_record) simp
qed

section \<open>Span records\<close>

definition SR_TRACE_ID :: u8 where "SR_TRACE_ID = 1"
definition SR_SPAN_ID :: u8 where "SR_SPAN_ID = 2"
definition SR_PARENT_SPAN_ID :: u8 where "SR_PARENT_SPAN_ID = 3"
definition SR_NAME :: u8 where "SR_NAME = 4"
definition SR_KIND :: u8 where "SR_KIND = 5"
definition SR_STATUS :: u8 where "SR_STATUS = 6"
definition SR_EVENTS :: u8 where "SR_EVENTS = 7"
definition SR_LINKS :: u8 where "SR_LINKS = 8"
definition SR_END_TIMESTAMP :: u8 where "SR_END_TIMESTAMP = 9"
definition SR_FLAGS :: u8 where "SR_FLAGS = 10"
definition SR_EXT :: u8 where "SR_EXT = 11"

lemmas span_record_tags = SR_TRACE_ID_def SR_SPAN_ID_def SR_PARENT_SPAN_ID_def SR_NAME_def
  SR_KIND_def SR_STATUS_def SR_EVENTS_def SR_LINKS_def SR_END_TIMESTAMP_def SR_FLAGS_def SR_EXT_def

definition write_span_record :: "'k span_record \<Rightarrow> 'k writer" where
  "write_span_record span = w_seq [
     write_scalar_field SR_TRACE_ID 16 (sr_trace_id span),
     write_scalar_field SR_SPAN_ID 8 (sr_span_id span),
     w_opt (sr_parent_span_id span) (\<lambda>parent. write_scalar_field SR_PARENT_SPAN_ID 8 parent),
     write_field SR_NAME (write_value (sr_name span)),
     w_when (sr_kind span \<noteq> Internal)
       (write_scalar_field SR_KIND 1 [span_kind_tag (sr_kind span)]),
     w_when (sr_status span \<noteq> Status_Unset)
       (write_scalar_field SR_STATUS 1 [span_status_tag (sr_status span)]),
     w_when (sr_events span \<noteq> [])
       (write_field SR_EVENTS (write_record_list write_span_event (sr_events span))),
     w_when (sr_links span \<noteq> [])
       (write_field SR_LINKS (write_record_list write_span_link (sr_links span))),
     write_scalar_field SR_END_TIMESTAMP 8 (le_bytes 8 (sr_end_timestamp span)),
     w_when (sr_flags span \<noteq> 0) (write_scalar_field SR_FLAGS 4 (le_bytes 4 (sr_flags span))),
     w_opt (sr_ext span) (\<lambda>ext. write_field SR_EXT (write_span_ext ext))]"

record 'k span_fields =
  sf_trace_id :: "bytes option"
  sf_span_id :: "bytes option"
  sf_parent_span_id :: "bytes option"
  sf_name :: "'k attr_value option"
  sf_kind :: span_kind
  sf_status :: span_status
  sf_events :: "'k span_event list"
  sf_links :: "'k span_link list"
  sf_end_timestamp :: i64
  sf_flags :: u32
  sf_ext :: "span_ext option"

definition visit_span_record ::
    "layout \<Rightarrow> 'j::linorder list \<Rightarrow> 'j span_fields \<Rightarrow> u8 \<Rightarrow> bytes \<Rightarrow> budget \<Rightarrow>
     ('j span_fields \<times> bytes \<times> budget) result" where
  "visit_span_record L dict s tag field b =
     (if tag = SR_TRACE_ID then
        set_field (\<lambda>v s. s\<lparr>sf_trace_id := Some v\<rparr>) s b
          (read_id (Malformed ''bad span record trace_id length'') 16 field)
      else if tag = SR_SPAN_ID then
        set_field (\<lambda>v s. s\<lparr>sf_span_id := Some v\<rparr>) s b
          (read_id (Malformed ''bad span record span_id length'') 8 field)
      else if tag = SR_PARENT_SPAN_ID then
        set_field (\<lambda>v s. s\<lparr>sf_parent_span_id := Some v\<rparr>) s b
          (read_id (Malformed ''bad span record parent_span_id length'') 8 field)
      else if tag = SR_NAME then
        set_field_b (\<lambda>v s. s\<lparr>sf_name := Some v\<rparr>) s (read_value L dict field b)
      else if tag = SR_KIND then
        set_field (\<lambda>v s. s\<lparr>sf_kind := v\<rparr>) s b (read_enum span_kind_from_tag field)
      else if tag = SR_STATUS then
        set_field (\<lambda>v s. s\<lparr>sf_status := v\<rparr>) s b (read_enum span_status_from_tag field)
      else if tag = SR_EVENTS then
        set_field_b (\<lambda>v s. s\<lparr>sf_events := v\<rparr>) s
          (read_record_list (sz_span_event L) (read_span_event L dict) field b)
      else if tag = SR_LINKS then
        set_field_b (\<lambda>v s. s\<lparr>sf_links := v\<rparr>) s
          (read_record_list (sz_span_link L) (read_span_link L dict) field b)
      else if tag = SR_END_TIMESTAMP then
        set_field (\<lambda>v s. s\<lparr>sf_end_timestamp := v\<rparr>) s b (read_exact_i64 field)
      else if tag = SR_FLAGS then
        set_field (\<lambda>v s. s\<lparr>sf_flags := v\<rparr>) s b (read_exact_u32 field)
      else if tag = SR_EXT then
        set_field_b (\<lambda>v s. s\<lparr>sf_ext := Some v\<rparr>) s (read_span_ext dict field b)
      else skip_field s b)"

definition span_fields_default :: "'j span_fields" where
  "span_fields_default = \<lparr>sf_trace_id = None, sf_span_id = None, sf_parent_span_id = None,
     sf_name = None, sf_kind = Internal, sf_status = Status_Unset, sf_events = [], sf_links = [],
     sf_end_timestamp = 0, sf_flags = 0, sf_ext = None\<rparr>"

definition read_span_record :: "layout \<Rightarrow> ('j::linorder, 'j span_record) reader" where
  "read_span_record L dict bytes b =
     bnd (for_each_field (visit_span_record L dict) span_fields_default bytes b) (\<lambda>(s, b).
     bnd (ok_or (Malformed ''span record missing trace_id'') (sf_trace_id s)) (\<lambda>trace_id.
     bnd (ok_or (Malformed ''span record missing span_id'') (sf_span_id s)) (\<lambda>span_id.
     bnd (ok_or (Malformed ''span record missing name'') (sf_name s)) (\<lambda>name.
     Inr (\<lparr>sr_trace_id = trace_id, sr_span_id = span_id,
            sr_parent_span_id = sf_parent_span_id s, sr_name = name, sr_kind = sf_kind s,
            sr_status = sf_status s, sr_events = sf_events s, sr_links = sf_links s,
            sr_end_timestamp = sf_end_timestamp s, sr_flags = sf_flags s,
            sr_ext = sf_ext s\<rparr>, [], b)))))"

definition rename_span :: "('k \<Rightarrow> 'j::linorder) \<Rightarrow> 'k span_record \<Rightarrow> 'j span_record" where
  "rename_span f s = \<lparr>sr_trace_id = sr_trace_id s, sr_span_id = sr_span_id s,
     sr_parent_span_id = sr_parent_span_id s, sr_name = rename_value f (sr_name s),
     sr_kind = sr_kind s, sr_status = sr_status s,
     sr_events = map (rename_span_event f) (sr_events s),
     sr_links = map (rename_span_link f) (sr_links s),
     sr_end_timestamp = sr_end_timestamp s, sr_flags = sr_flags s, sr_ext = sr_ext s\<rparr>"

definition span_cost :: "layout \<Rightarrow> 'k span_record \<Rightarrow> nat" where
  "span_cost L s = value_cost L (sr_name s) +
     list_cost (sz_span_event L) (span_event_cost L) (sr_events s) +
     list_cost (sz_span_link L) (span_link_cost L) (sr_links s)"

definition span_keys :: "'k span_record \<Rightarrow> 'k set" where
  "span_keys s = value_keys (sr_name s) \<union> (\<Union>e \<in> set (sr_events s). span_event_keys e) \<union>
     (\<Union>l \<in> set (sr_links s). span_link_keys l)"

definition span_ok :: "'k span_record \<Rightarrow> bool" where
  "span_ok s \<longleftrightarrow> length (sr_trace_id s) = 16 \<and> length (sr_span_id s) = 8 \<and>
     (case sr_parent_span_id s of Some i \<Rightarrow> length i = 8 | None \<Rightarrow> True) \<and>
     value_ok 0 (sr_name s) \<and> list_all span_event_ok (sr_events s) \<and>
     list_all span_link_ok (sr_links s)"

lemma span_record_branches:
  "branch_some (visit_span_record L) s SR_TRACE_ID sf_trace_id_update
     (plain (read_id (Malformed ''bad span record trace_id length'') 16))"
  "branch_some (visit_span_record L) s SR_SPAN_ID sf_span_id_update
     (plain (read_id (Malformed ''bad span record span_id length'') 8))"
  "branch_some (visit_span_record L) s SR_PARENT_SPAN_ID sf_parent_span_id_update
     (plain (read_id (Malformed ''bad span record parent_span_id length'') 8))"
  "branch_some (visit_span_record L) s SR_NAME sf_name_update (read_value L)"
  "branch (visit_span_record L) s SR_KIND sf_kind_update (plain (read_enum span_kind_from_tag))"
  "branch (visit_span_record L) s SR_STATUS sf_status_update
     (plain (read_enum span_status_from_tag))"
  "branch (visit_span_record L) s SR_EVENTS sf_events_update
     (\<lambda>R. read_record_list (sz_span_event L) (read_span_event L R))"
  "branch (visit_span_record L) s SR_LINKS sf_links_update
     (\<lambda>R. read_record_list (sz_span_link L) (read_span_link L R))"
  "branch (visit_span_record L) s SR_END_TIMESTAMP sf_end_timestamp_update (plain read_exact_i64)"
  "branch (visit_span_record L) s SR_FLAGS sf_flags_update (plain read_exact_u32)"
  "branch_some (visit_span_record L) s SR_EXT sf_ext_update read_span_ext"
  by (simp_all add: branch_def branch_some_def visit_span_record_def span_record_tags)

lemma collects_span_ext [collects_intros]: "collects {} (write_span_ext x)"
  by simp

lemma collects_span_record [collects_intros]: "collects (span_keys s) (write_span_record s)"
  unfolding write_span_record_def
  by (rule collects_mono, (rule collects_Cons collects_Nil collects_intros)+)
    (auto simp: span_keys_def)

lemma keeps_span_record [simp]: "collects {} (write_span_record s)"
  by (rule collects_empty [OF collects_span_record])

lemma field_span_ext_opt:
  assumes "branch_some visit s tag F read_span_ext" and "F (\<lambda>_. None) s = s"
  shows "field_trip f (w_opt x (\<lambda>y. write_field tag (write_span_ext y))) visit s (F (\<lambda>_. x) s) 0"
  using field_nested_opt [OF assms(1), where w = write_span_ext and x = x and g = "\<lambda>y. y"
      and c = "\<lambda>_. 0", OF whole_trip_span_ext assms(2)]
  by (cases x) simp_all

lemma whole_trip_span_record:
  assumes "span_ok s"
  shows "whole_trip f (write_span_record s) (read_span_record L) (rename_span f s) (span_cost L s)"
proof -
  note br = span_record_branches [of L]
  note ok = assms [unfolded span_ok_def list_all_iff]
  let ?s = "\<lparr>sf_trace_id = Some (sr_trace_id s), sf_span_id = Some (sr_span_id s),
     sf_parent_span_id = sr_parent_span_id s, sf_name = Some (rename_value f (sr_name s)),
     sf_kind = sr_kind s, sf_status = sr_status s,
     sf_events = map (rename_span_event f) (sr_events s),
     sf_links = map (rename_span_link f) (sr_links s),
     sf_end_timestamp = sr_end_timestamp s, sf_flags = sr_flags s, sf_ext = sr_ext s\<rparr>"
  have "field_trip f (write_span_record s) (visit_span_record L) span_fields_default ?s
      (span_cost L s)"
    unfolding write_span_record_def
    by (rule field_trip_cost, (rule field_trip_Cons field_trip_end field_id_some [OF br(1)]
        field_id_some [OF br(2)] field_id_opt [OF br(3)]
        field_nested_some [OF br(4) whole_trip_value] field_enum_when [OF br(5)]
        field_enum_when [OF br(6)] field_list_when [OF br(7) whole_trip_span_event]
        field_list_when [OF br(8) whole_trip_span_link] field_i64 [OF br(9)]
        field_u32_nonzero [OF br(10)] field_span_ext_opt [OF br(11)]
      | simp add: span_fields_default_def span_cost_def ok)+)
  then show ?thesis
    unfolding read_span_record_def [abs_def]
    by (rule whole_trip_record) (simp add: rename_span_def)
qed

section \<open>Events\<close>

definition FIELD_TIMESTAMP :: u8 where "FIELD_TIMESTAMP = 1"
definition FIELD_ATTRIBUTES :: u8 where "FIELD_ATTRIBUTES = 2"
definition FIELD_LOG :: u8 where "FIELD_LOG = 3"
definition FIELD_METRICS :: u8 where "FIELD_METRICS = 4"
definition FIELD_SPAN :: u8 where "FIELD_SPAN = 5"

lemmas event_tags = FIELD_TIMESTAMP_def FIELD_ATTRIBUTES_def FIELD_LOG_def FIELD_METRICS_def
  FIELD_SPAN_def

definition write_event_attributes :: "('k \<Rightarrow> bytes) \<Rightarrow> bytes option \<Rightarrow> 'k attr_map \<Rightarrow> 'k writer" where
  "write_event_attributes res omit attrs =
     (case omit of
        None \<Rightarrow> w_when (attrs \<noteq> []) (write_field FIELD_ATTRIBUTES (write_attr_map attrs))
      | Some pre \<Rightarrow>
          w_when (list_ex (\<lambda>(key, _). \<not> prefix pre (res key)) attrs)
            (write_field FIELD_ATTRIBUTES (write_attr_map_omitting res pre attrs)))"

definition write_event_omitting ::
    "('d, 'h) blob_codec \<Rightarrow> ('k \<Rightarrow> bytes) \<Rightarrow> bytes option \<Rightarrow> ('k, 'd, 'h) event \<Rightarrow> 'k writer" where
  "write_event_omitting B res omit event = w_seq [
     write_field FIELD_TIMESTAMP (w_bytes (write_ivarint (ev_timestamp event))),
     write_event_attributes res omit (ev_attributes event),
     w_opt (ev_log event) (\<lambda>log. write_field FIELD_LOG (write_log_record log)),
     w_when (ev_metrics event \<noteq> [])
       (write_field FIELD_METRICS (write_record_list (write_metric_record B) (ev_metrics event))),
     w_opt (ev_span event) (\<lambda>span. write_field FIELD_SPAN (write_span_record span))]"

text \<open>With nothing to omit, no key is resolved.\<close>

definition write_event :: "('d, 'h) blob_codec \<Rightarrow> ('k, 'd, 'h) event \<Rightarrow> 'k writer" where
  "write_event B event = write_event_omitting B (\<lambda>_. []) None event"

text \<open>
  A metrics field appends to the event's list (\<open>read_record_list_into\<close> decodes into it), where
  every other field overwrites.
\<close>

definition visit_event ::
    "('d, 'h) blob_codec \<Rightarrow> layout \<Rightarrow> 'j::linorder list \<Rightarrow> ('j, 'd, 'h) event \<Rightarrow> u8 \<Rightarrow> bytes \<Rightarrow>
     budget \<Rightarrow> (('j, 'd, 'h) event \<times> bytes \<times> budget) result" where
  "visit_event B L dict s tag field b =
     (if tag = FIELD_TIMESTAMP then
        set_field (\<lambda>v s. s\<lparr>ev_timestamp := v\<rparr>) s b (read_ivarint field)
      else if tag = FIELD_ATTRIBUTES then
        set_field_b (\<lambda>v s. s\<lparr>ev_attributes := v\<rparr>) s (read_attr_map L dict field b)
      else if tag = FIELD_LOG then
        set_field_b (\<lambda>v s. s\<lparr>ev_log := Some v\<rparr>) s (read_log_record L dict field b)
      else if tag = FIELD_METRICS then
        set_field_b (\<lambda>v s. s\<lparr>ev_metrics := ev_metrics s @ v\<rparr>) s
          (read_record_list (sz_metric_record L) (read_metric_record B L dict) field b)
      else if tag = FIELD_SPAN then
        set_field_b (\<lambda>v s. s\<lparr>ev_span := Some v\<rparr>) s (read_span_record L dict field b)
      else skip_field s b)"

definition event_default :: "('j, 'd, 'h) event" where
  "event_default = \<lparr>ev_timestamp = 0, ev_attributes = [], ev_log = None, ev_metrics = [],
     ev_span = None\<rparr>"

definition read_event ::
    "('d, 'h) blob_codec \<Rightarrow> layout \<Rightarrow> ('j::linorder, ('j, 'd, 'h) event) reader" where
  "read_event B L dict body b =
     bnd (for_each_field (visit_event B L dict) event_default body b) (\<lambda>(s, b). Inr (s, [], b))"

definition rename_event ::
    "('k \<Rightarrow> 'j::linorder) \<Rightarrow> ('k, 'd, 'h) event \<Rightarrow> ('j, 'd, 'h) event" where
  "rename_event f e = \<lparr>ev_timestamp = ev_timestamp e,
     ev_attributes = rename_attrs f (ev_attributes e), ev_log = map_option (rename_log f) (ev_log e),
     ev_metrics = map (rename_metric f) (ev_metrics e),
     ev_span = map_option (rename_span f) (ev_span e)\<rparr>"

definition event_cost :: "layout \<Rightarrow> ('k, 'd, 'h) event \<Rightarrow> nat" where
  "event_cost L e = attrs_cost L (ev_attributes e) +
     (case ev_log e of Some l \<Rightarrow> log_cost L l | None \<Rightarrow> 0) +
     list_cost (sz_metric_record L) (metric_cost L) (ev_metrics e) +
     (case ev_span e of Some s \<Rightarrow> span_cost L s | None \<Rightarrow> 0)"

definition event_keys :: "('k, 'd, 'h) event \<Rightarrow> 'k set" where
  "event_keys e = attr_map_keys (ev_attributes e) \<union>
     (case ev_log e of Some l \<Rightarrow> log_keys l | None \<Rightarrow> {}) \<union>
     (\<Union>m \<in> set (ev_metrics e). metric_keys m) \<union>
     (case ev_span e of Some s \<Rightarrow> span_keys s | None \<Rightarrow> {})"

definition event_ok :: "('d, 'h) blob_codec \<Rightarrow> ('k, 'd, 'h) event \<Rightarrow> bool" where
  "event_ok B e \<longleftrightarrow> attrs_ok 0 (ev_attributes e) \<and>
     (case ev_log e of Some l \<Rightarrow> log_ok l | None \<Rightarrow> True) \<and> list_all (metric_ok B) (ev_metrics e) \<and>
     (case ev_span e of Some s \<Rightarrow> span_ok s | None \<Rightarrow> True)"

lemma event_branches:
  "branch (visit_event B L) s FIELD_TIMESTAMP ev_timestamp_update (plain read_ivarint)"
  "branch (visit_event B L) s FIELD_ATTRIBUTES ev_attributes_update (read_attr_map L)"
  "branch_some (visit_event B L) s FIELD_LOG ev_log_update (read_log_record L)"
  "ev_metrics s = [] \<Longrightarrow> branch (visit_event B L) s FIELD_METRICS ev_metrics_update
     (\<lambda>R. read_record_list (sz_metric_record L) (read_metric_record B L R))"
  "branch_some (visit_event B L) s FIELD_SPAN ev_span_update (read_span_record L)"
proof -
  show "branch (visit_event B L) s FIELD_METRICS ev_metrics_update
      (\<lambda>R. read_record_list (sz_metric_record L) (read_metric_record B L R))" if "ev_metrics s = []"
    using that by (simp add: branch_def visit_event_def event_tags set_field_b_def)
qed (simp_all add: branch_def branch_some_def visit_event_def event_tags)

text \<open>Omitting attributes while writing is writing the event without them.\<close>

definition omit_attributes ::
    "('k \<Rightarrow> bytes) \<Rightarrow> bytes option \<Rightarrow> ('k, 'd, 'h) event \<Rightarrow> ('k, 'd, 'h) event" where
  "omit_attributes res omit e =
     (case omit of None \<Rightarrow> e | Some pre \<Rightarrow> e\<lparr>ev_attributes := kept_attrs res pre (ev_attributes e)\<rparr>)"

lemma kept_attrs_nonempty:
  "kept_attrs res pre m \<noteq> [] \<longleftrightarrow> list_ex (\<lambda>(key, _). \<not> prefix pre (res key)) m"
  by (auto simp: kept_attrs_def list_ex_iff filter_empty_conv case_prod_beta)

lemma write_event_omitting_eq:
  "write_event_omitting B res omit e = write_event B (omit_attributes res omit e)"
  by (cases omit) (simp_all add: write_event_def write_event_omitting_def omit_attributes_def
      write_event_attributes_def write_attr_map_omitting_eq flip: kept_attrs_nonempty)

lemma collects_event [collects_intros]: "collects (event_keys e) (write_event B e)"
  unfolding write_event_def write_event_omitting_def write_event_attributes_def option.case
  by (rule collects_mono, (rule collects_Cons collects_Nil collects_intros)+)
    (auto simp: event_keys_def)

lemma keeps_event [simp]: "collects {} (write_event B e)"
  by (rule collects_empty [OF collects_event])

lemma whole_trip_event:
  assumes "event_ok B e"
  shows "whole_trip f (write_event B e) (read_event B L) (rename_event f e) (event_cost L e)"
proof -
  note br = event_branches [where B = B and L = L]
  have ok: "attrs_ok 0 (ev_attributes e)" "\<And>l. ev_log e = Some l \<Longrightarrow> log_ok l"
    "\<And>m. m \<in> set (ev_metrics e) \<Longrightarrow> metric_ok B m" "\<And>s. ev_span e = Some s \<Longrightarrow> span_ok s"
    using assms by (auto simp: event_ok_def list_all_iff)
  have "field_trip f (write_event B e) (visit_event B L) event_default (rename_event f e)
      (event_cost L e)"
    unfolding write_event_def write_event_omitting_def write_event_attributes_def option.case
    by (rule field_trip_cost, (rule field_trip_Cons field_trip_end
        field_nested [OF br(1) whole_trip_plain] field_attrs_when [OF br(2)]
        field_nested_opt [OF br(3) whole_trip_log_record]
        field_list_when [OF br(4) whole_trip_metric_record]
        field_nested_opt [OF br(5) whole_trip_span_record]
      | simp add: event_default_def event_cost_def rename_event_def ok)+)
  then show ?thesis
    unfolding read_event_def [abs_def] by (rule whole_trip_record) simp
qed

section \<open>Resources\<close>

definition RES_ATTRIBUTES :: u8 where "RES_ATTRIBUTES = 1"
definition RES_DROPPED_ATTRIBUTES_COUNT :: u8 where "RES_DROPPED_ATTRIBUTES_COUNT = 2"
definition RES_SCHEMA_URL :: u8 where "RES_SCHEMA_URL = 3"

lemmas resource_tags = RES_ATTRIBUTES_def RES_DROPPED_ATTRIBUTES_COUNT_def RES_SCHEMA_URL_def

definition write_resource :: "'k resource \<Rightarrow> 'k writer" where
  "write_resource resource = w_seq [
     w_when (res_attributes resource \<noteq> [])
       (write_field RES_ATTRIBUTES (write_attr_map (res_attributes resource))),
     w_when (res_dropped_attributes_count resource \<noteq> 0)
       (write_scalar_field RES_DROPPED_ATTRIBUTES_COUNT 4
          (le_bytes 4 (res_dropped_attributes_count resource))),
     w_opt (res_schema_url resource) (write_bytes_field RES_SCHEMA_URL)]"

definition visit_resource ::
    "layout \<Rightarrow> 'j::linorder list \<Rightarrow> 'j resource \<Rightarrow> u8 \<Rightarrow> bytes \<Rightarrow> budget \<Rightarrow>
     ('j resource \<times> bytes \<times> budget) result" where
  "visit_resource L dict s tag field b =
     (if tag = RES_ATTRIBUTES then
        set_field_b (\<lambda>v s. s\<lparr>res_attributes := v\<rparr>) s (read_attr_map L dict field b)
      else if tag = RES_DROPPED_ATTRIBUTES_COUNT then
        set_field (\<lambda>v s. s\<lparr>res_dropped_attributes_count := v\<rparr>) s b (read_exact_u32 field)
      else if tag = RES_SCHEMA_URL then
        set_field (\<lambda>v s. s\<lparr>res_schema_url := Some v\<rparr>) s b (take_field field)
      else skip_field s b)"

definition resource_default :: "'j resource" where
  "resource_default = \<lparr>res_attributes = [], res_dropped_attributes_count = 0, res_schema_url = None\<rparr>"

definition read_resource :: "layout \<Rightarrow> ('j::linorder, 'j resource) reader" where
  "read_resource L dict bytes b =
     bnd (for_each_field (visit_resource L dict) resource_default bytes b) (\<lambda>(s, b). Inr (s, [], b))"

definition rename_resource :: "('k \<Rightarrow> 'j::linorder) \<Rightarrow> 'k resource \<Rightarrow> 'j resource" where
  "rename_resource f r = \<lparr>res_attributes = rename_attrs f (res_attributes r),
     res_dropped_attributes_count = res_dropped_attributes_count r,
     res_schema_url = res_schema_url r\<rparr>"

lemma resource_branches:
  "branch (visit_resource L) s RES_ATTRIBUTES res_attributes_update (read_attr_map L)"
  "branch (visit_resource L) s RES_DROPPED_ATTRIBUTES_COUNT res_dropped_attributes_count_update
     (plain read_exact_u32)"
  "branch_some (visit_resource L) s RES_SCHEMA_URL res_schema_url_update (plain take_field)"
  by (simp_all add: branch_def branch_some_def visit_resource_def resource_tags)

lemma collects_resource [collects_intros]:
  "collects (attr_map_keys (res_attributes r)) (write_resource r)"
  unfolding write_resource_def
  by (rule collects_mono, (rule collects_Cons collects_Nil collects_intros)+) auto

lemma keeps_resource [simp]: "collects {} (write_resource r)"
  by (rule collects_empty [OF collects_resource])

lemma whole_trip_resource:
  assumes "attrs_ok 0 (res_attributes r)"
  shows "whole_trip f (write_resource r) (read_resource L) (rename_resource f r)
    (attrs_cost L (res_attributes r))"
proof -
  note br = resource_branches [where L = L]
  have "field_trip f (write_resource r) (visit_resource L) resource_default (rename_resource f r)
      (attrs_cost L (res_attributes r))"
    unfolding write_resource_def
    by (rule field_trip_cost, (rule field_trip_Cons field_trip_end field_attrs_when [OF br(1)]
        field_u32_nonzero [OF br(2)] field_bytes_opt [OF br(3)]
      | simp add: resource_default_def rename_resource_def assms)+)
  then show ?thesis
    unfolding read_resource_def [abs_def] by (rule whole_trip_record) simp
qed

section \<open>Scopes\<close>

definition SCOPE_NAME :: u8 where "SCOPE_NAME = 1"
definition SCOPE_VERSION :: u8 where "SCOPE_VERSION = 2"
definition SCOPE_ATTRIBUTES :: u8 where "SCOPE_ATTRIBUTES = 3"
definition SCOPE_DROPPED_ATTRIBUTES_COUNT :: u8 where "SCOPE_DROPPED_ATTRIBUTES_COUNT = 4"
definition SCOPE_SCHEMA_URL :: u8 where "SCOPE_SCHEMA_URL = 5"

lemmas scope_tags = SCOPE_NAME_def SCOPE_VERSION_def SCOPE_ATTRIBUTES_def
  SCOPE_DROPPED_ATTRIBUTES_COUNT_def SCOPE_SCHEMA_URL_def

definition write_scope :: "'k scope \<Rightarrow> 'k writer" where
  "write_scope scope = w_seq [
     w_when (scope_name scope \<noteq> []) (write_bytes_field SCOPE_NAME (scope_name scope)),
     w_when (scope_version scope \<noteq> []) (write_bytes_field SCOPE_VERSION (scope_version scope)),
     w_when (scope_attributes scope \<noteq> [])
       (write_field SCOPE_ATTRIBUTES (write_attr_map (scope_attributes scope))),
     w_when (scope_dropped_attributes_count scope \<noteq> 0)
       (write_scalar_field SCOPE_DROPPED_ATTRIBUTES_COUNT 4
          (le_bytes 4 (scope_dropped_attributes_count scope))),
     w_opt (scope_schema_url scope) (write_bytes_field SCOPE_SCHEMA_URL)]"

definition visit_scope ::
    "layout \<Rightarrow> 'j::linorder list \<Rightarrow> 'j scope \<Rightarrow> u8 \<Rightarrow> bytes \<Rightarrow> budget \<Rightarrow>
     ('j scope \<times> bytes \<times> budget) result" where
  "visit_scope L dict s tag field b =
     (if tag = SCOPE_NAME then
        set_field (\<lambda>v s. s\<lparr>scope_name := v\<rparr>) s b (take_field field)
      else if tag = SCOPE_VERSION then
        set_field (\<lambda>v s. s\<lparr>scope_version := v\<rparr>) s b (take_field field)
      else if tag = SCOPE_ATTRIBUTES then
        set_field_b (\<lambda>v s. s\<lparr>scope_attributes := v\<rparr>) s (read_attr_map L dict field b)
      else if tag = SCOPE_DROPPED_ATTRIBUTES_COUNT then
        set_field (\<lambda>v s. s\<lparr>scope_dropped_attributes_count := v\<rparr>) s b (read_exact_u32 field)
      else if tag = SCOPE_SCHEMA_URL then
        set_field (\<lambda>v s. s\<lparr>scope_schema_url := Some v\<rparr>) s b (take_field field)
      else skip_field s b)"

definition scope_default :: "'j scope" where
  "scope_default = \<lparr>scope_name = [], scope_version = [], scope_attributes = [],
     scope_dropped_attributes_count = 0, scope_schema_url = None\<rparr>"

definition read_scope :: "layout \<Rightarrow> ('j::linorder, 'j scope) reader" where
  "read_scope L dict bytes b =
     bnd (for_each_field (visit_scope L dict) scope_default bytes b) (\<lambda>(s, b). Inr (s, [], b))"

definition rename_scope :: "('k \<Rightarrow> 'j::linorder) \<Rightarrow> 'k scope \<Rightarrow> 'j scope" where
  "rename_scope f s = \<lparr>scope_name = scope_name s, scope_version = scope_version s,
     scope_attributes = rename_attrs f (scope_attributes s),
     scope_dropped_attributes_count = scope_dropped_attributes_count s,
     scope_schema_url = scope_schema_url s\<rparr>"

lemma scope_branches:
  "branch (visit_scope L) s SCOPE_NAME scope_name_update (plain take_field)"
  "branch (visit_scope L) s SCOPE_VERSION scope_version_update (plain take_field)"
  "branch (visit_scope L) s SCOPE_ATTRIBUTES scope_attributes_update (read_attr_map L)"
  "branch (visit_scope L) s SCOPE_DROPPED_ATTRIBUTES_COUNT scope_dropped_attributes_count_update
     (plain read_exact_u32)"
  "branch_some (visit_scope L) s SCOPE_SCHEMA_URL scope_schema_url_update (plain take_field)"
  by (simp_all add: branch_def branch_some_def visit_scope_def scope_tags)

lemma collects_scope [collects_intros]:
  "collects (attr_map_keys (scope_attributes s)) (write_scope s)"
  unfolding write_scope_def
  by (rule collects_mono, (rule collects_Cons collects_Nil collects_intros)+) auto

lemma keeps_scope [simp]: "collects {} (write_scope s)"
  by (rule collects_empty [OF collects_scope])

lemma whole_trip_scope:
  assumes "attrs_ok 0 (scope_attributes s)"
  shows "whole_trip f (write_scope s) (read_scope L) (rename_scope f s)
    (attrs_cost L (scope_attributes s))"
proof -
  note br = scope_branches [where L = L]
  have "field_trip f (write_scope s) (visit_scope L) scope_default (rename_scope f s)
      (attrs_cost L (scope_attributes s))"
    unfolding write_scope_def
    by (rule field_trip_cost, (rule field_trip_Cons field_trip_end field_bytes_when [OF br(1)]
        field_bytes_when [OF br(2)] field_attrs_when [OF br(3)] field_u32_nonzero [OF br(4)]
        field_bytes_opt [OF br(5)]
      | simp add: scope_default_def rename_scope_def assms)+)
  then show ?thesis
    unfolding read_scope_def [abs_def] by (rule whole_trip_record) simp
qed

end
