(* ===== verification/Native_Batch.thy ===== *)
theory Native_Batch
  imports Native_Record
begin

text \<open>
  \<open>crates/logit-proto/src/native/mod.rs\<close>: a whole batch as one payload (dictionary, resource,
  scope, events), and the hop payload around it (the sender's identity and sequence in front, a
  trailer with the batch's provenance and trace behind). \<open>res\<close> is \<open>interner::resolve\<close> on the
  encoding process's table; decoding threads the decoding process's own table.
\<close>

definition CODEC_BATCH :: u8 where "CODEC_BATCH = 1"
definition CODEC_HOP_BATCH :: u8 where "CODEC_HOP_BATCH = 2"
definition HOP_PREFIX_MAX_LEN :: nat where "HOP_PREFIX_MAX_LEN = 16 + 10"
definition TRAILER_TAG_ORIGIN :: u8 where "TRAILER_TAG_ORIGIN = 1"
definition TRAILER_TAG_PREVIOUS :: u8 where "TRAILER_TAG_PREVIOUS = 2"
definition TRAILER_TAG_TRACE :: u8 where "TRAILER_TAG_TRACE = 5"
definition HOP_TRACE_LEN :: nat where "HOP_TRACE_LEN = 24"
definition MAX_SANE_TRAILER_FIELD_BYTES :: nat where "MAX_SANE_TRAILER_FIELD_BYTES = 4096"
definition MAX_SANE_EVENT_COUNT :: nat where "MAX_SANE_EVENT_COUNT = 16 * 1024 * 1024"

record seq_id =
  sq_id :: bytes
  sq_seq :: u64

record hop_trace =
  ht_trace_id :: bytes
  ht_span_id :: bytes

section \<open>Encoding a batch\<close>

definition len_prefixed :: "'k writer \<Rightarrow> 'k writer" where
  "len_prefixed w d = (let (tmp, d) = w d in (write_len (length tmp) @ tmp, d))"

definition write_scope_section :: "'k scope option \<Rightarrow> 'k writer" where
  "write_scope_section scope =
     (case scope of
        Some scope \<Rightarrow> w_seq [w_bytes [1], len_prefixed (write_scope scope)]
      | None \<Rightarrow> w_bytes [0])"

definition write_sections ::
    "('d, 'h) blob_codec \<Rightarrow> ('k \<Rightarrow> bytes) \<Rightarrow> 'k resource \<Rightarrow> 'k scope option \<Rightarrow>
     ('k, 'd, 'h) event list \<Rightarrow> bytes option \<Rightarrow> 'k writer" where
  "write_sections B res resource scope events omit = w_seq [
     len_prefixed (write_resource resource),
     write_scope_section scope,
     write_record_list (write_event_omitting B res omit) events]"

text \<open>The dictionary is written first but built last.\<close>

definition encode_events_inner ::
    "('d, 'h) blob_codec \<Rightarrow> ('k \<Rightarrow> bytes) \<Rightarrow> 'k resource \<Rightarrow> 'k scope option \<Rightarrow>
     ('k, 'd, 'h) event list \<Rightarrow> bytes option \<Rightarrow> bytes" where
  "encode_events_inner B res resource scope events omit =
     (let (sections, dict) = write_sections B res resource scope events omit dict_default
      in dict_write res dict @ sections)"

definition encode_events where
  "encode_events B res resource scope events = encode_events_inner B res resource scope events None"

definition encode_events_omitting where
  "encode_events_omitting B res resource scope events omit =
     encode_events_inner B res resource scope events (Some omit)"

definition encode_batch ::
    "('d, 'h) blob_codec \<Rightarrow> ('k \<Rightarrow> bytes) \<Rightarrow> ('k, 'd, 'h) event_batch \<Rightarrow> bytes" where
  "encode_batch B res batch = encode_events B res (b_resource batch) (b_scope batch) (b_events batch)"

section \<open>Decoding a batch\<close>

text \<open>A length-prefixed section; what its reader leaves of the section is dropped with it.\<close>

definition read_section ::
    "string \<Rightarrow> (bytes \<Rightarrow> budget \<Rightarrow> ('a \<times> bytes \<times> budget) result) \<Rightarrow>
     bytes \<Rightarrow> budget \<Rightarrow> ('a \<times> bytes \<times> budget) result" where
  "read_section what read_one bytes b =
     bnd (read_len bytes) (\<lambda>(len, bytes).
     bnd (split_to (Malformed what) len bytes) (\<lambda>(body, bytes).
     bnd (read_one body b) (\<lambda>(x, _, b).
     Inr (x, bytes, b))))"

definition read_scope_section :: "layout \<Rightarrow> ('j::linorder, 'j scope option) reader" where
  "read_scope_section L dict bytes b =
     bnd (read_u8 bytes) (\<lambda>(p, bytes).
     if p = 0 then Inr (None, bytes, b)
     else if p = 1 then
       bnd (read_section ''scope section declares more bytes than remain'' (read_scope L dict) bytes b)
         (\<lambda>(scope, bytes, b). Inr (Some scope, bytes, b))
     else Inl (Malformed ''bad scope presence byte''))"

definition read_events ::
    "('d, 'h) blob_codec \<Rightarrow> layout \<Rightarrow> ('j::linorder, ('j, 'd, 'h) event list) reader" where
  "read_events B L dict bytes b =
     bnd (read_len bytes) (\<lambda>(event_count, bytes).
     bnd (reject_if (event_count > MAX_SANE_EVENT_COUNT)
            (Malformed ''batch declares events over the sanity cap'')) (\<lambda>_.
     bnd (charge_list event_count 1 (length bytes) (sz_event L) b) (\<lambda>b.
     repeat_read event_count (\<lambda>(bytes, b).
       read_section ''event declares more bytes than remain'' (read_event B L dict) bytes b)
       (bytes, b))))"

definition read_sections ::
    "('d, 'h) blob_codec \<Rightarrow> layout \<Rightarrow> ('j::linorder, ('j, 'd, 'h) event_batch) reader" where
  "read_sections B L dict bytes b =
     bnd (read_section ''resource section declares more bytes than remain'' (read_resource L dict)
            bytes b) (\<lambda>(resource, bytes, b).
     bnd (read_scope_section L dict bytes b) (\<lambda>(scope, bytes, b).
     bnd (read_events B L dict bytes b) (\<lambda>(events, bytes, b).
     Inr (\<lparr>b_resource = resource, b_scope = scope, b_events = events\<rparr>, bytes, b))))"

definition decode_batch_body ::
    "('d, 'h) blob_codec \<Rightarrow> layout \<Rightarrow> bytes \<Rightarrow> budget \<Rightarrow> interner \<Rightarrow>
     ((symbol, 'd, 'h) event_batch \<times> bytes \<times> budget \<times> interner) result" where
  "decode_batch_body B L bytes b t =
     bnd (dict_read L bytes b t) (\<lambda>(dict, bytes, b, t).
     bnd (read_sections B L dict bytes b) (\<lambda>(batch, bytes, b).
     Inr (batch, bytes, b, t)))"

definition decode_batch ::
    "('d, 'h) blob_codec \<Rightarrow> layout \<Rightarrow> bytes \<Rightarrow> budget \<Rightarrow> interner \<Rightarrow>
     ((symbol, 'd, 'h) event_batch \<times> bytes \<times> budget \<times> interner) result" where
  "decode_batch B L bytes b t =
     bnd (decode_batch_body B L bytes b t) (\<lambda>(batch, bytes, b, t).
     bnd (ensure_consumed bytes) (\<lambda>_.
     Inr (batch, bytes, b, t)))"

section \<open>The hop payload\<close>

definition write_trailer_field :: "u8 \<Rightarrow> bytes \<Rightarrow> bytes" where
  "write_trailer_field tag value = tag # write_len (length value) @ value"

definition field_len :: "nat \<Rightarrow> nat" where
  "field_len len = 1 + uvarint_len (of_nat len) + len"

text \<open>\<open>map_or(0, |s| field_len(s.len()))\<close> and \<open>if let Some(x) = x { write(x) }\<close>.\<close>

definition map_or :: "'b \<Rightarrow> ('a \<Rightarrow> 'b) \<Rightarrow> 'a option \<Rightarrow> 'b" where
  "map_or z f x = (case x of Some y \<Rightarrow> f y | None \<Rightarrow> z)"

definition encode_hop_batch ::
    "('d, 'h) blob_codec \<Rightarrow> ('k \<Rightarrow> bytes) \<Rightarrow> ('k, 'd, 'h) event_batch \<Rightarrow> 'k provenance \<Rightarrow>
     hop_trace option \<Rightarrow> seq_id \<Rightarrow> bytes" where
  "encode_hop_batch B res batch provenance trace seq =
     (let body = encode_batch B res batch;
          origin = map_option res (pv_origin provenance);
          previous = map_option res (pv_previous provenance);
          trailer_len = map_or 0 (\<lambda>s. field_len (length s)) origin
            + map_or 0 (\<lambda>s. field_len (length s)) previous
            + map_or 0 (\<lambda>_. field_len HOP_TRACE_LEN) trace
      in sq_id seq @ write_uvarint (sq_seq seq) @ body @ write_len trailer_len @
         map_or [] (write_trailer_field TRAILER_TAG_ORIGIN) origin @
         map_or [] (write_trailer_field TRAILER_TAG_PREVIOUS) previous @
         map_or [] (\<lambda>t. TRAILER_TAG_TRACE # write_len HOP_TRACE_LEN @ ht_trace_id t @ ht_span_id t)
           trace)"

definition read_hop_prefix :: "bytes \<Rightarrow> (seq_id \<times> bytes) result" where
  "read_hop_prefix bytes =
     bnd (split_to (Malformed ''hop prefix needs a 16-byte sender identity'') 16 bytes)
       (\<lambda>(i, bytes).
     bnd (case read_uvarint bytes of
            Inl e \<Rightarrow> Inl (Malformed ''hop prefix sequence'') | Inr r \<Rightarrow> Inr r) (\<lambda>(seq, bytes).
     bnd (reject_if (seq = 0) (Malformed ''hop prefix sequence is 0'')) (\<lambda>_.
     Inr (\<lparr>sq_id = i, sq_seq = seq\<rparr>, bytes))))"

text \<open>The locals of \<open>decode_hop_body\<close>'s trailer loop, with the table \<open>intern\<close> grows.\<close>

record trailer_state =
  ts_provenance :: "symbol provenance"
  ts_trace :: "hop_trace option"
  ts_table :: interner

definition trailer_str :: "bytes \<Rightarrow> bytes result" where
  "trailer_str bytes =
     bnd (reject_if (\<not> utf8_valid bytes) (Malformed ''provenance trailer field not utf-8''))
       (\<lambda>_. Inr bytes)"

definition trailer_field :: "trailer_state \<Rightarrow> u8 \<Rightarrow> bytes \<Rightarrow> trailer_state result" where
  "trailer_field s tag field =
     (if tag = TRAILER_TAG_ORIGIN then
        bnd (trailer_str field) (\<lambda>str.
        let (sy, t) = intern str (ts_table s)
        in Inr (s\<lparr>ts_provenance := (ts_provenance s)\<lparr>pv_origin := Some sy\<rparr>, ts_table := t\<rparr>))
      else if tag = TRAILER_TAG_PREVIOUS then
        bnd (trailer_str field) (\<lambda>str.
        let (sy, t) = intern str (ts_table s)
        in Inr (s\<lparr>ts_provenance := (ts_provenance s)\<lparr>pv_previous := Some sy\<rparr>, ts_table := t\<rparr>))
      else if tag = TRAILER_TAG_TRACE then
        bnd (reject_if (length field \<noteq> HOP_TRACE_LEN)
               (Malformed ''trace context trailer field has another length'')) (\<lambda>_.
        Inr (s\<lparr>ts_trace := Some \<lparr>ht_trace_id = take 16 field, ht_span_id = drop 16 field\<rparr>\<rparr>))
      else Inr s)"

function read_trailer :: "trailer_state \<Rightarrow> bytes \<Rightarrow> trailer_state result" where
  "read_trailer s trailer =
     (if trailer = [] then Inr s
      else
        bnd (read_u8 trailer) (\<lambda>(tag, trailer1).
        bnd (read_len trailer1) (\<lambda>(len, trailer2).
        bnd (reject_if (len > MAX_SANE_TRAILER_FIELD_BYTES)
               (Malformed ''provenance trailer field over the sanity cap'')) (\<lambda>_.
        bnd (split_to (Malformed ''provenance trailer field declares more bytes than remain'')
               len trailer2) (\<lambda>(field, trailer3).
        bnd (trailer_field s tag field) (\<lambda>s.
        read_trailer s trailer3))))))"
  by pat_completeness auto
termination
  by (relation "measure (\<lambda>(s, trailer). length trailer)")
    (auto simp: split_to_eq_Inr dest!: read_u8_shorter read_len_shorter)

declare read_trailer.simps [simp del]

definition decode_hop_body ::
    "('d, 'h) blob_codec \<Rightarrow> layout \<Rightarrow> bytes \<Rightarrow> budget \<Rightarrow> interner \<Rightarrow>
     (((symbol, 'd, 'h) event_batch \<times> symbol provenance \<times> hop_trace option) \<times> budget \<times> interner)
     result" where
  "decode_hop_body B L bytes b t =
     bnd (decode_batch_body B L bytes b t) (\<lambda>(batch, bytes, b, t).
     bnd (read_len bytes) (\<lambda>(trailer_len, bytes).
     bnd (split_to (Malformed ''provenance trailer declares more bytes than remain'')
            trailer_len bytes) (\<lambda>(trailer, bytes).
     bnd (read_trailer \<lparr>ts_provenance = \<lparr>pv_origin = None, pv_previous = None\<rparr>, ts_trace = None,
            ts_table = t\<rparr> trailer) (\<lambda>s.
     bnd (ensure_consumed bytes) (\<lambda>_.
     Inr ((batch, ts_provenance s, ts_trace s), b, ts_table s))))))"

definition decode_hop_batch ::
    "('d, 'h) blob_codec \<Rightarrow> layout \<Rightarrow> bytes \<Rightarrow> budget \<Rightarrow> interner \<Rightarrow>
     (((symbol, 'd, 'h) event_batch \<times> symbol provenance \<times> hop_trace option \<times> seq_id) \<times> budget \<times>
      interner) result" where
  "decode_hop_batch B L bytes b t =
     bnd (read_hop_prefix bytes) (\<lambda>(seq, bytes).
     bnd (decode_hop_body B L bytes b t) (\<lambda>((batch, provenance, trace), b, t).
     Inr ((batch, provenance, trace, seq), b, t)))"

section \<open>Round trip of a batch\<close>

lemma round_trip_section:
  assumes "whole_trip f w r x c"
  shows "round_trip f (len_prefixed w) (\<lambda>R. read_section e (r R)) x c"
  unfolding round_trip_def
proof (intro allI impI)
  fix d R rest and b :: budget
  assume "dict_inv d" and "serves f (snd (len_prefixed w d)) R"
    and len: "length (fst (len_prefixed w d)) < 2 ^ 64" and "c \<le> remaining b"
  then have "r R (fst (w d)) b = Inr (x, [], spend c b)"
    by (intro whole_tripD [OF assms]) (simp_all add: len_prefixed_def case_prod_beta Let_def)
  with len show "read_section e (r R) (fst (len_prefixed w d) @ rest) b = Inr (x, rest, spend c b)"
    by (simp add: read_section_def len_prefixed_def case_prod_beta Let_def)
qed

text \<open>Sections in sequence: what one reads decides how the rest is read.\<close>

lemma round_trip_then:
  assumes "round_trip f w r x c1" and "collects {} w"
    and "round_trip f (w_seq ws) (k x) y c2" and "collects {} (w_seq ws)"
  shows "round_trip f (w_seq (w # ws))
    (\<lambda>R bytes b. bnd (r R bytes b) (\<lambda>(x, bytes, b). k x R bytes b)) y (c1 + c2)"
  unfolding round_trip_def
proof (intro allI impI)
  fix d R rest and b :: budget
  assume d: "dict_inv d" and s: "serves f (snd (w_seq (w # ws) d)) R"
    and len: "length (fst (w_seq (w # ws) d)) < 2 ^ 64" and cost: "c1 + c2 \<le> remaining b"
  let ?d = "snd (w d)"
  have d1: "dict_inv ?d" by (rule collectsD [OF assms(2) d])
  have s2: "serves f (snd (w_seq ws ?d)) R" using s by (simp add: case_prod_beta Let_def)
  then have s1: "serves f ?d R" by (rule serves_prefix) (rule collectsD(2) [OF assms(4) d1])
  have "r R (fst (w d) @ fst (w_seq ws ?d) @ rest) b
      = Inr (x, fst (w_seq ws ?d) @ rest, spend c1 b)"
    using len cost by (intro round_tripD [OF assms(1) d s1]) (simp_all add: case_prod_beta Let_def)
  moreover have "k x R (fst (w_seq ws ?d) @ rest) (spend c1 b)
      = Inr (y, rest, spend c2 (spend c1 b))"
    using len cost by (intro round_tripD [OF assms(3) d1 s2]) (simp_all add: case_prod_beta Let_def)
  ultimately show "bnd (r R (fst (w_seq (w # ws) d) @ rest) b) (\<lambda>(x, bytes, b). k x R bytes b)
      = Inr (y, rest, spend (c1 + c2) b)"
    by (simp add: case_prod_beta Let_def)
qed

lemma round_trip_done: "round_trip f (w_seq []) (\<lambda>R bytes b. Inr (x, bytes, b)) x 0"
  by (simp add: round_trip_def)

lemma keeps_len_prefixed [simp]: "collects K w \<Longrightarrow> collects K (len_prefixed w)"
  by (simp add: collects_def len_prefixed_def case_prod_beta Let_def)

lemma keeps_scope_section [simp]: "collects {} (write_scope_section s)"
  by (cases s) (simp_all add: write_scope_section_def)

definition batch_scope_cost :: "layout \<Rightarrow> 'k scope option \<Rightarrow> nat" where
  "batch_scope_cost L s = (case s of Some s \<Rightarrow> attrs_cost L (scope_attributes s) | None \<Rightarrow> 0)"

lemma round_trip_scope_section:
  assumes "case s of Some s \<Rightarrow> attrs_ok 0 (scope_attributes s) | None \<Rightarrow> True"
  shows "round_trip f (write_scope_section s) (read_scope_section L) (map_option (rename_scope f) s)
    (batch_scope_cost L s)"
proof (cases s)
  case None
  then show ?thesis
    by (simp add: round_trip_def write_scope_section_def read_scope_section_def w_bytes_def
        batch_scope_cost_def)
next
  case (Some sc)
  have "round_trip f (len_prefixed (write_scope sc))
      (\<lambda>R. read_section ''scope section declares more bytes than remain'' (read_scope L R))
      (rename_scope f sc) (attrs_cost L (scope_attributes sc))"
    using assms Some by (intro round_trip_section whole_trip_scope) simp
  then show ?thesis
    by (simp add: Some round_trip_def write_scope_section_def read_scope_section_def w_bytes_def
        batch_scope_cost_def case_prod_beta Let_def)
qed

text \<open>The sanity cap on the event count, in front of a counted list.\<close>

lemma round_trip_capped:
  assumes "round_trip f (w_seq (w_bytes (write_len n) # ws))
      (\<lambda>R bytes b. bnd (read_len bytes) (\<lambda>(count, bytes). k R count bytes b)) x c"
    and "n \<le> cap" and "n < 2 ^ 64"
  shows "round_trip f (w_seq (w_bytes (write_len n) # ws))
      (\<lambda>R bytes b. bnd (read_len bytes) (\<lambda>(count, bytes).
         bnd (reject_if (count > cap) e) (\<lambda>_. k R count bytes b))) x c"
  using assms by (simp add: round_trip_def w_bytes_def case_prod_beta Let_def)

lemma round_trip_events:
  assumes "\<And>e. e \<in> set es \<Longrightarrow> event_ok B e" and "length es \<le> MAX_SANE_EVENT_COUNT"
  shows "round_trip f (write_record_list (write_event B) es) (read_events B L)
    (map (rename_event f) es) (list_cost (sz_event L) (event_cost L) es)"
proof -
  let ?e = "\<lambda>x d. let (tmp, d) = write_event B x d in (write_len (length tmp) @ tmp, d)"
  let ?r = "\<lambda>R bytes b. read_section ''event declares more bytes than remain'' (read_event B L R) bytes b"
  have eq: "?e x = len_prefixed (write_event B x)" for x
    by (simp add: fun_eq_iff len_prefixed_def)
  have items: "round_trip f (w_seq (map ?e es))
      (\<lambda>R bytes b. repeat_read (length es) (\<lambda>(bytes, b). ?r R bytes b) (bytes, b))
      (map (rename_event f) es) (sum_list (map (event_cost L) es))"
    unfolding eq using assms(1)
    by (intro round_trip_repeat round_trip_section whole_trip_event) simp_all
  have "1 \<le> length (fst (?e x d))" for x d
    using length_write_len_pos by (simp add: case_prod_beta Let_def Suc_le_eq)
  from round_trip_counted [OF items this, of "sz_event L"] show ?thesis
    unfolding list_cost_def write_record_list_def read_events_def [abs_def]
    using assms(2) by (intro round_trip_capped) (simp_all add: MAX_SANE_EVENT_COUNT_def)
qed

definition rename_batch ::
    "('k \<Rightarrow> 'j::linorder) \<Rightarrow> ('k, 'd, 'h) event_batch \<Rightarrow> ('j, 'd, 'h) event_batch" where
  "rename_batch f b = \<lparr>b_resource = rename_resource f (b_resource b),
     b_scope = map_option (rename_scope f) (b_scope b),
     b_events = map (rename_event f) (b_events b)\<rparr>"

text \<open>What the sections of a batch are charged: every list entry and nested map at the size of its slot.\<close>

definition sections_cost :: "layout \<Rightarrow> ('k, 'd, 'h) event_batch \<Rightarrow> nat" where
  "sections_cost L b = attrs_cost L (res_attributes (b_resource b)) + batch_scope_cost L (b_scope b) +
     list_cost (sz_event L) (event_cost L) (b_events b)"

definition batch_keys :: "('k, 'd, 'h) event_batch \<Rightarrow> 'k set" where
  "batch_keys b = attr_map_keys (res_attributes (b_resource b)) \<union>
     (case b_scope b of Some s \<Rightarrow> attr_map_keys (scope_attributes s) | None \<Rightarrow> {}) \<union>
     (\<Union>e \<in> set (b_events b). event_keys e)"

text \<open>What the Rust types and their documented invariants guarantee of a batch.\<close>

definition batch_ok :: "('d, 'h) blob_codec \<Rightarrow> ('k, 'd, 'h) event_batch \<Rightarrow> bool" where
  "batch_ok B b \<longleftrightarrow> attrs_ok 0 (res_attributes (b_resource b)) \<and>
     (case b_scope b of Some s \<Rightarrow> attrs_ok 0 (scope_attributes s) | None \<Rightarrow> True) \<and>
     list_all (event_ok B) (b_events b)"

lemma write_event_fun: "write_event_omitting B res None = write_event B"
  by (simp add: fun_eq_iff write_event_omitting_eq omit_attributes_def)

lemma round_trip_sections:
  assumes "batch_ok B b" and "length (b_events b) \<le> MAX_SANE_EVENT_COUNT"
  shows "round_trip f (write_sections B res (b_resource b) (b_scope b) (b_events b) None)
    (read_sections B L) (rename_batch f b) (sections_cost L b)"
proof -
  note ok = assms(1) [unfolded batch_ok_def list_all_iff]
  have "round_trip f (write_sections B res (b_resource b) (b_scope b) (b_events b) None)
    (read_sections B L) (rename_batch f b)
    (attrs_cost L (res_attributes (b_resource b)) + (batch_scope_cost L (b_scope b) +
      (list_cost (sz_event L) (event_cost L) (b_events b) + 0)))"
    unfolding write_sections_def read_sections_def [abs_def] write_event_fun rename_batch_def
    by (rule round_trip_then [OF round_trip_section [OF whole_trip_resource]],
        simp add: ok, simp, rule round_trip_then [OF round_trip_scope_section], simp add: ok, simp,
        rule round_trip_then [OF round_trip_events], simp add: ok, rule assms(2), simp,
        rule round_trip_done, simp_all)
  then show ?thesis by (simp add: sections_cost_def add.assoc)
qed

lemma collects_sections:
  "collects (batch_keys b) (write_sections B res (b_resource b) (b_scope b) (b_events b) None)"
proof -
  have scope: "collects (case b_scope b of Some s \<Rightarrow> attr_map_keys (scope_attributes s) | None \<Rightarrow> {})
      (write_scope_section (b_scope b))"
    using collects_Cons [OF collects_bytes collects_Cons [OF keeps_len_prefixed [OF collects_scope]
        collects_Nil]]
    by (auto simp: write_scope_section_def split: option.split)
  have "collects (attr_map_keys (res_attributes (b_resource b)) \<union>
      ((case b_scope b of Some s \<Rightarrow> attr_map_keys (scope_attributes s) | None \<Rightarrow> {}) \<union>
      ((\<Union>e \<in> set (b_events b). event_keys e) \<union> {})))
      (write_sections B res (b_resource b) (b_scope b) (b_events b) None)"
    unfolding write_sections_def write_event_fun
    by (intro collects_Cons collects_Nil scope keeps_len_prefixed collects_resource
        collects_record_list collects_event)
  then show ?thesis by (rule collects_mono) (auto simp: batch_keys_def)
qed

text \<open>The dictionary a batch is written with, and what decoding the whole payload spends.\<close>

definition batch_symbols :: "('d, 'h) blob_codec \<Rightarrow> ('k, 'd, 'h) event_batch \<Rightarrow> 'k list" where
  "batch_symbols B b = db_symbols (snd
     (write_sections B (\<lambda>_. []) (b_resource b) (b_scope b) (b_events b) None dict_default))"

definition batch_cost ::
    "('d, 'h) blob_codec \<Rightarrow> layout \<Rightarrow> ('k \<Rightarrow> bytes) \<Rightarrow> ('k, 'd, 'h) event_batch \<Rightarrow> nat" where
  "batch_cost B L res b = dict_cost L (map res (batch_symbols B b)) + sections_cost L b"

text \<open>
  What a batch must satisfy for its payload to be accepted under a budget: the caps on the
  dictionary and the event count, the width of a length, and the budget itself.
\<close>

definition decodable ::
    "('d, 'h) blob_codec \<Rightarrow> layout \<Rightarrow> ('k \<Rightarrow> bytes) \<Rightarrow> budget \<Rightarrow> ('k, 'd, 'h) event_batch \<Rightarrow> bool" where
  "decodable B L res b batch \<longleftrightarrow>
     batch_ok B batch \<and> length (b_events batch) \<le> MAX_SANE_EVENT_COUNT \<and>
     length (batch_symbols B batch) \<le> MAX_SANE_DICT_ENTRIES \<and>
     length (encode_batch B res batch) < 2 ^ 64 \<and> batch_cost B L res batch \<le> remaining b"

text \<open>The table after decoding, and the symbol it holds for a key of the encoder's.\<close>

definition table_after ::
    "('d, 'h) blob_codec \<Rightarrow> ('k \<Rightarrow> bytes) \<Rightarrow> interner \<Rightarrow> ('k, 'd, 'h) event_batch \<Rightarrow> interner" where
  "table_after B res t batch = snd (intern_all (map res (batch_symbols B batch)) t)"

definition translate ::
    "('d, 'h) blob_codec \<Rightarrow> ('k \<Rightarrow> bytes) \<Rightarrow> interner \<Rightarrow> ('k, 'd, 'h) event_batch \<Rightarrow> 'k \<Rightarrow> symbol" where
  "translate B res t batch k = symbol_of (table_after B res t batch) (res k)"

lemma sections_res:
  "write_sections B res r s es None = write_sections B (\<lambda>_. []) r s es None"
  by (simp add: write_sections_def write_event_fun)

lemma batch_keys_symbols: "batch_keys b \<subseteq> set (batch_symbols B b)"
  unfolding batch_symbols_def by (rule collectsD(3) [OF collects_sections]) simp

lemma encode_batch_eq:
  "encode_batch B res batch =
     (let (sections, dict) = write_sections B (\<lambda>_. []) (b_resource batch) (b_scope batch)
        (b_events batch) None dict_default in dict_write res dict @ sections)"
  by (simp only: encode_batch_def encode_events_def encode_events_inner_def sections_res [of B res])

lemma length_concat_map_elem: "x \<in> set xs \<Longrightarrow> length (p x) \<le> length (concat (map p xs))"
  by (induction xs) auto

lemma length_dict_write:
  assumes "k \<in> set (db_symbols d)"
  shows "length (res k) \<le> length (dict_write res d)"
  using length_concat_map_elem [OF assms, of "\<lambda>s. write_len (length (res s)) @ res s"]
  by (simp add: dict_write_def)

lemma decode_batch_body_written:
  assumes "\<And>k. utf8_valid (res k)" and "distinct t"
    and dec: "decodable B L res b batch"
  shows "decode_batch_body B L (encode_batch B res batch @ rest) b t
    = Inr (rename_batch (translate B res t batch) batch, rest,
        spend (batch_cost B L res batch) b, table_after B res t batch)"
proof -
  note dec = dec [unfolded decodable_def batch_cost_def]
  let ?w = "write_sections B (\<lambda>_. []) (b_resource batch) (b_scope batch) (b_events batch) None"
  let ?d = "snd (?w dict_default)"
  let ?S = "map res (batch_symbols B batch)"
  let ?R = "fst (intern_all ?S t)"
  have S: "batch_symbols B batch = db_symbols ?d" by (simp add: batch_symbols_def)
  have enc: "encode_batch B res batch = dict_write res ?d @ fst (?w dict_default)"
    by (simp add: encode_batch_eq case_prod_beta Let_def)
  have R: "?R = map (translate B res t batch) (db_symbols ?d)"
    using fst_intern_all [OF assms(2), of ?S] by (simp add: S translate_def table_after_def comp_def)
  have short: "length (res k) < 2 ^ 64" if "k \<in> set (db_symbols ?d)" for k
    using dec length_dict_write [OF that, of res] unfolding enc by simp
  have dict: "dict_read L (dict_write res ?d @ fst (?w dict_default) @ rest) b t =
      Inr (?R, fst (?w dict_default) @ rest, spend (dict_cost L ?S) b, table_after B res t batch)"
    unfolding table_after_def S using assms(1) dec short
    by (subst dict_read_write) (simp_all add: S case_prod_beta Let_def)
  have "serves (translate B res t batch) ?d ?R"
    unfolding serves_def R using dec by (simp add: S MAX_SANE_DICT_ENTRIES_def)
  then have "read_sections B L ?R (fst (?w dict_default) @ rest) (spend (dict_cost L ?S) b)
      = Inr (rename_batch (translate B res t batch) batch, rest,
          spend (sections_cost L batch) (spend (dict_cost L ?S) b))"
    using dec by (intro round_tripD [OF round_trip_sections]) (auto simp: enc)
  then show ?thesis
    by (simp add: decode_batch_body_def enc dict batch_cost_def)
qed

text \<open>Every key of the batch keeps its text across the two tables.\<close>

lemma translate_text:
  assumes "distinct t" and "k \<in> batch_keys batch"
  shows "resolve (table_after B res t batch) (translate B res t batch k) = Some (res k)"
proof -
  let ?S = "map res (batch_symbols B batch)"
  let ?u = "table_after B res t batch"
  have all: "list_all2 (\<lambda>i s. resolve ?u i = Some s) (fst (intern_all ?S t)) ?S" and "distinct ?u"
    using intern_all_table [OF assms(1), of ?S] by (simp_all add: table_after_def)
  have "res k \<in> set ?S" using assms(2) batch_keys_symbols by fastforce
  then obtain n where n: "n < length ?S" "?S ! n = res k" unfolding in_set_conv_nth by blast
  have "resolve ?u (fst (intern_all ?S t) ! n) = Some (?S ! n)"
    using all n(1) by (rule list_all2_nthD2)
  then obtain i where "resolve ?u i = Some (res k)" using n(2) by auto
  with \<open>distinct ?u\<close> show ?thesis by (simp add: translate_def symbol_of_resolve)
qed

section \<open>Round trip of a hop payload\<close>

definition intern_opt :: "bytes option \<Rightarrow> interner \<Rightarrow> symbol option \<times> interner" where
  "intern_opt x t = (case x of Some s \<Rightarrow> (let (i, t) = intern s t in (Some i, t)) | None \<Rightarrow> (None, t))"

definition trailer_bytes :: "('k \<Rightarrow> bytes) \<Rightarrow> 'k provenance \<Rightarrow> hop_trace option \<Rightarrow> bytes" where
  "trailer_bytes res provenance trace =
     map_or [] (write_trailer_field TRAILER_TAG_ORIGIN) (map_option res (pv_origin provenance)) @
     map_or [] (write_trailer_field TRAILER_TAG_PREVIOUS) (map_option res (pv_previous provenance)) @
     map_or [] (\<lambda>t. TRAILER_TAG_TRACE # write_len HOP_TRACE_LEN @ ht_trace_id t @ ht_span_id t) trace"

definition hop_trace_ok :: "hop_trace option \<Rightarrow> bool" where
  "hop_trace_ok x \<longleftrightarrow>
     (case x of Some t \<Rightarrow> length (ht_trace_id t) = 16 \<and> length (ht_span_id t) = 8 | None \<Rightarrow> True)"

text \<open>The provenance a decoder ends with, and its table.\<close>

definition decoded_provenance ::
    "('k \<Rightarrow> bytes) \<Rightarrow> 'k provenance \<Rightarrow> interner \<Rightarrow> symbol provenance \<times> interner" where
  "decoded_provenance res p t =
     (let (origin, t) = intern_opt (map_option res (pv_origin p)) t;
          (previous, t) = intern_opt (map_option res (pv_previous p)) t
      in (\<lparr>pv_origin = origin, pv_previous = previous\<rparr>, t))"

lemma length_trailer_field: "length (write_trailer_field tag v) = field_len (length v)"
  by (simp add: write_trailer_field_def field_len_def uvarint_len_eq)

text \<open>The declared trailer length, computed before anything is written, is what is written.\<close>

lemma length_trailer_bytes:
  assumes "hop_trace_ok trace"
  shows "length (trailer_bytes res p trace) =
      map_or 0 (\<lambda>s. field_len (length s)) (map_option res (pv_origin p))
    + map_or 0 (\<lambda>s. field_len (length s)) (map_option res (pv_previous p))
    + map_or 0 (\<lambda>_. field_len HOP_TRACE_LEN) trace"
  using assms
  by (auto simp: trailer_bytes_def map_or_def length_trailer_field hop_trace_ok_def field_len_def
      uvarint_len_eq HOP_TRACE_LEN_def split: option.split)

lemma encode_hop_batch_eq:
  "hop_trace_ok trace \<Longrightarrow> encode_hop_batch B res batch p trace seq =
     sq_id seq @ write_uvarint (sq_seq seq) @ encode_batch B res batch @
     write_len (length (trailer_bytes res p trace)) @ trailer_bytes res p trace"
  unfolding length_trailer_bytes
  by (simp add: encode_hop_batch_def trailer_bytes_def Let_def)

lemma read_trailer_Nil [simp]: "read_trailer s [] = Inr s"
  by (simp add: read_trailer.simps)

lemma read_trailer_step:
  assumes "length v \<le> MAX_SANE_TRAILER_FIELD_BYTES" and "trailer_field s tag v = Inr s'"
  shows "read_trailer s (tag # write_len (length v) @ v @ rest) = read_trailer s' rest"
  using assms by (subst read_trailer.simps) (simp add: MAX_SANE_TRAILER_FIELD_BYTES_def)

lemma read_trailer_trace:
  assumes "hop_trace_ok trace" and "ts_trace s = None"
  shows "read_trailer s (map_or [] (\<lambda>t. TRAILER_TAG_TRACE # write_len HOP_TRACE_LEN @
      ht_trace_id t @ ht_span_id t) trace) = Inr (s\<lparr>ts_trace := trace\<rparr>)"
proof (cases trace)
  case None
  then show ?thesis using assms(2) by (simp add: map_or_def)
next
  case (Some t)
  let ?v = "ht_trace_id t @ ht_span_id t"
  have len: "length ?v = 24" "length (ht_trace_id t) = 16"
    using assms(1) by (simp_all add: hop_trace_ok_def Some)
  have "trailer_field s TRAILER_TAG_TRACE ?v = Inr (s\<lparr>ts_trace := Some t\<rparr>)"
    using len by (simp add: trailer_field_def TRAILER_TAG_ORIGIN_def TRAILER_TAG_PREVIOUS_def
        TRAILER_TAG_TRACE_def HOP_TRACE_LEN_def)
  from read_trailer_step [OF _ this, of "[]"] len show ?thesis
    by (simp add: Some map_or_def MAX_SANE_TRAILER_FIELD_BYTES_def HOP_TRACE_LEN_def)
qed

definition provenance_ok :: "('k \<Rightarrow> bytes) \<Rightarrow> 'k provenance \<Rightarrow> bool" where
  "provenance_ok res p \<longleftrightarrow> (\<forall>k \<in> set_option (pv_origin p) \<union> set_option (pv_previous p).
     utf8_valid (res k) \<and> length (res k) \<le> MAX_SANE_TRAILER_FIELD_BYTES)"

lemma read_trailer_origin:
  assumes "\<And>k. x = Some k \<Longrightarrow> utf8_valid (res k) \<and> length (res k) \<le> MAX_SANE_TRAILER_FIELD_BYTES"
    and "pv_origin (ts_provenance s) = None"
  shows "read_trailer s (map_or [] (write_trailer_field TRAILER_TAG_ORIGIN) (map_option res x) @ rest)
    = read_trailer (s\<lparr>ts_provenance := (ts_provenance s)\<lparr>pv_origin :=
          fst (intern_opt (map_option res x) (ts_table s))\<rparr>,
        ts_table := snd (intern_opt (map_option res x) (ts_table s))\<rparr>) rest"
proof (cases x)
  case None
  have "s = s\<lparr>ts_provenance := (ts_provenance s)\<lparr>pv_origin := None\<rparr>\<rparr>"
    using assms(2) by simp
  with None show ?thesis by (simp add: map_or_def intern_opt_def)
next
  case (Some k)
  with assms(1) show ?thesis
    by (auto simp: map_or_def write_trailer_field_def intern_opt_def case_prod_beta Let_def
        trailer_field_def trailer_str_def intro!: read_trailer_step)
qed

lemma read_trailer_previous:
  assumes "\<And>k. x = Some k \<Longrightarrow> utf8_valid (res k) \<and> length (res k) \<le> MAX_SANE_TRAILER_FIELD_BYTES"
    and "pv_previous (ts_provenance s) = None"
  shows "read_trailer s (map_or [] (write_trailer_field TRAILER_TAG_PREVIOUS) (map_option res x) @ rest)
    = read_trailer (s\<lparr>ts_provenance := (ts_provenance s)\<lparr>pv_previous :=
          fst (intern_opt (map_option res x) (ts_table s))\<rparr>,
        ts_table := snd (intern_opt (map_option res x) (ts_table s))\<rparr>) rest"
proof (cases x)
  case None
  have "s = s\<lparr>ts_provenance := (ts_provenance s)\<lparr>pv_previous := None\<rparr>\<rparr>"
    using assms(2) by simp
  with None show ?thesis by (simp add: map_or_def intern_opt_def)
next
  case (Some k)
  with assms(1) show ?thesis
    by (auto simp: map_or_def write_trailer_field_def intern_opt_def case_prod_beta Let_def
        trailer_field_def trailer_str_def TRAILER_TAG_ORIGIN_def TRAILER_TAG_PREVIOUS_def
        intro!: read_trailer_step)
qed

lemma read_trailer_written:
  assumes "provenance_ok res p" and "hop_trace_ok trace"
  shows "read_trailer \<lparr>ts_provenance = \<lparr>pv_origin = None, pv_previous = None\<rparr>, ts_trace = None,
      ts_table = t\<rparr> (trailer_bytes res p trace)
    = Inr \<lparr>ts_provenance = fst (decoded_provenance res p t), ts_trace = trace,
        ts_table = snd (decoded_provenance res p t)\<rparr>"
  unfolding trailer_bytes_def using assms
  by (simp add: read_trailer_origin read_trailer_previous read_trailer_trace provenance_ok_def
      decoded_provenance_def case_prod_beta Let_def)

lemma read_hop_prefix_written:
  assumes "length (sq_id seq) = 16" and "sq_seq seq \<noteq> 0"
  shows "read_hop_prefix (sq_id seq @ write_uvarint (sq_seq seq) @ rest) = Inr (seq, rest)"
  using assms by (simp add: read_hop_prefix_def)

lemma field_len_le: "n \<le> 4096 \<Longrightarrow> field_len n \<le> 4107"
  using uvarint_len_bounds(2) [of "of_nat n"] by (simp add: field_len_def)

lemma decode_hop_batch_written:
  assumes "\<And>k. utf8_valid (res k)" and "distinct t"
    and "decodable B L res b batch" and "provenance_ok res p" and "hop_trace_ok trace"
    and "length (sq_id seq) = 16" and "sq_seq seq \<noteq> 0"
  shows "decode_hop_batch B L (encode_hop_batch B res batch p trace seq) b t =
    (let t1 = table_after B res t batch
     in Inr ((rename_batch (translate B res t batch) batch, fst (decoded_provenance res p t1), trace,
          seq), spend (batch_cost B L res batch) b, snd (decoded_provenance res p t1)))"
proof -
  have small: "map_or 0 (\<lambda>s. field_len (length s)) (map_option res x) \<le> 4107"
    if "x = pv_origin p \<or> x = pv_previous p" for x
    using that assms(4)
    by (cases x) (force simp: map_or_def provenance_ok_def MAX_SANE_TRAILER_FIELD_BYTES_def
        intro: field_len_le)+
  have "map_or 0 (\<lambda>_. field_len HOP_TRACE_LEN) trace \<le> 4107"
    by (cases trace) (simp_all add: map_or_def HOP_TRACE_LEN_def field_len_le)
  with small [of "pv_origin p"] small [of "pv_previous p"]
  have "length (trailer_bytes res p trace) < 2 ^ 64"
    unfolding length_trailer_bytes [OF assms(5)] by simp
  then show ?thesis
    using assms
    by (simp add: decode_hop_batch_def encode_hop_batch_eq read_hop_prefix_written decode_hop_body_def
        decode_batch_body_written read_trailer_written Let_def)
qed

end
