(* ===== verification/Rename.thy ===== *)
theory Rename
  imports Native_Batch "HOL-Library.List_Lexorder"
begin

text \<open>
  Renaming the symbols of whole records. A decoder gives a batch the symbols of its own table;
  these laws say that nothing else changes: renaming along an injection and on to a third naming
  is renaming at once (\<open>*_compose\<close>), only the symbols a record mentions matter (\<open>*_cong\<close>), and
  a renaming that fixes them is the identity on records whose maps are sorted (\<open>*_id\<close>).
\<close>

section \<open>Composition\<close>

lemma rename_exemplar_compose:
  "inj_on g (f ` exemplar_keys e) \<Longrightarrow>
     rename_exemplar g (rename_exemplar f e) = rename_exemplar (\<lambda>k. g (f k)) e"
  by (simp add: rename_exemplar_def exemplar_keys_def rename_attrs_compose)

lemma inj_on_image_mono: "inj_on g (f ` A) \<Longrightarrow> B \<subseteq> A \<Longrightarrow> inj_on g (f ` B)"
  by (meson image_mono inj_on_subset)

lemma rename_metric_compose:
  assumes "inj_on g (f ` metric_keys m)"
  shows "rename_metric g (rename_metric f m) = rename_metric (\<lambda>k. g (f k)) m"
proof -
  have "rename_exemplar g (rename_exemplar f e) = rename_exemplar (\<lambda>k. g (f k)) e"
    if "e \<in> set (mr_exemplars m)" for e
    using that by (intro rename_exemplar_compose inj_on_image_mono [OF assms])
      (auto simp: metric_keys_def)
  then show ?thesis by (simp add: rename_metric_def option.map_comp comp_def)
qed

lemma rename_log_compose:
  assumes "inj_on g (f ` log_keys l)"
  shows "rename_log g (rename_log f l) = rename_log (\<lambda>k. g (f k)) l"
proof -
  have "rename_value g (rename_value f (lr_message l)) = rename_value (\<lambda>k. g (f k)) (lr_message l)"
    by (intro rename_value_compose inj_on_image_mono [OF assms]) (simp add: log_keys_def)
  then show ?thesis by (simp add: rename_log_def option.map_comp comp_def)
qed

lemma rename_span_event_compose:
  assumes "inj_on g (f ` span_event_keys e)"
  shows "rename_span_event g (rename_span_event f e) = rename_span_event (\<lambda>k. g (f k)) e"
proof -
  have "rename_value g (rename_value f (se_name e)) = rename_value (\<lambda>k. g (f k)) (se_name e)"
    by (intro rename_value_compose inj_on_image_mono [OF assms]) (simp add: span_event_keys_def)
  moreover have "rename_attrs g (rename_attrs f (se_attributes e))
      = rename_attrs (\<lambda>k. g (f k)) (se_attributes e)"
    by (intro rename_attrs_compose inj_on_image_mono [OF assms]) (simp add: span_event_keys_def)
  ultimately show ?thesis by (simp add: rename_span_event_def)
qed

lemma rename_span_link_compose:
  "inj_on g (f ` span_link_keys l) \<Longrightarrow>
     rename_span_link g (rename_span_link f l) = rename_span_link (\<lambda>k. g (f k)) l"
  by (simp add: rename_span_link_def span_link_keys_def rename_attrs_compose)

lemma rename_span_compose:
  assumes "inj_on g (f ` span_keys s)"
  shows "rename_span g (rename_span f s) = rename_span (\<lambda>k. g (f k)) s"
proof -
  have "rename_value g (rename_value f (sr_name s)) = rename_value (\<lambda>k. g (f k)) (sr_name s)"
    by (intro rename_value_compose inj_on_image_mono [OF assms]) (auto simp: span_keys_def)
  moreover have "rename_span_event g (rename_span_event f e) = rename_span_event (\<lambda>k. g (f k)) e"
    if "e \<in> set (sr_events s)" for e
    using that by (intro rename_span_event_compose inj_on_image_mono [OF assms])
      (auto simp: span_keys_def)
  moreover have "rename_span_link g (rename_span_link f l) = rename_span_link (\<lambda>k. g (f k)) l"
    if "l \<in> set (sr_links s)" for l
    using that by (intro rename_span_link_compose inj_on_image_mono [OF assms])
      (auto simp: span_keys_def)
  ultimately show ?thesis by (simp add: rename_span_def)
qed

lemma rename_event_compose:
  assumes "inj_on g (f ` event_keys e)"
  shows "rename_event g (rename_event f e) = rename_event (\<lambda>k. g (f k)) e"
proof -
  have "rename_attrs g (rename_attrs f (ev_attributes e))
      = rename_attrs (\<lambda>k. g (f k)) (ev_attributes e)"
    by (intro rename_attrs_compose inj_on_image_mono [OF assms]) (auto simp: event_keys_def)
  moreover have "rename_log g (rename_log f l) = rename_log (\<lambda>k. g (f k)) l" if "ev_log e = Some l" for l
    using that by (intro rename_log_compose inj_on_image_mono [OF assms]) (auto simp: event_keys_def)
  moreover have "rename_metric g (rename_metric f m) = rename_metric (\<lambda>k. g (f k)) m"
    if "m \<in> set (ev_metrics e)" for m
    using that by (intro rename_metric_compose inj_on_image_mono [OF assms])
      (auto simp: event_keys_def)
  moreover have "rename_span g (rename_span f s) = rename_span (\<lambda>k. g (f k)) s"
    if "ev_span e = Some s" for s
    using that by (intro rename_span_compose inj_on_image_mono [OF assms]) (auto simp: event_keys_def)
  ultimately show ?thesis
    by (cases "ev_log e"; cases "ev_span e") (simp_all add: rename_event_def)
qed

lemma rename_batch_compose:
  assumes "inj_on g (f ` batch_keys b)"
  shows "rename_batch g (rename_batch f b) = rename_batch (\<lambda>k. g (f k)) b"
proof -
  have "rename_attrs g (rename_attrs f (res_attributes (b_resource b)))
      = rename_attrs (\<lambda>k. g (f k)) (res_attributes (b_resource b))"
    by (intro rename_attrs_compose inj_on_image_mono [OF assms]) (auto simp: batch_keys_def)
  moreover have "rename_attrs g (rename_attrs f (scope_attributes s))
      = rename_attrs (\<lambda>k. g (f k)) (scope_attributes s)" if "b_scope b = Some s" for s
    using that by (intro rename_attrs_compose inj_on_image_mono [OF assms]) (auto simp: batch_keys_def)
  moreover have "rename_event g (rename_event f e) = rename_event (\<lambda>k. g (f k)) e"
    if "e \<in> set (b_events b)" for e
    using that by (intro rename_event_compose inj_on_image_mono [OF assms])
      (auto simp: batch_keys_def)
  ultimately show ?thesis
    by (cases "b_scope b") (simp_all add: rename_batch_def rename_resource_def rename_scope_def)
qed

section \<open>Congruence\<close>

lemma rename_exemplar_cong:
  "\<forall>k \<in> exemplar_keys e. f k = g k \<Longrightarrow> rename_exemplar f e = rename_exemplar g e"
  by (simp add: rename_exemplar_def exemplar_keys_def rename_attrs_cong [of _ f g])

lemma rename_metric_cong:
  "\<forall>k \<in> metric_keys m. f k = g k \<Longrightarrow> rename_metric f m = rename_metric g m"
  by (auto simp: rename_metric_def metric_keys_def intro!: rename_exemplar_cong option.map_cong)

lemma rename_log_cong: "\<forall>k \<in> log_keys l. f k = g k \<Longrightarrow> rename_log f l = rename_log g l"
  by (auto simp: rename_log_def log_keys_def intro!: rename_value_cong option.map_cong)

lemma rename_span_event_cong:
  "\<forall>k \<in> span_event_keys e. f k = g k \<Longrightarrow> rename_span_event f e = rename_span_event g e"
  by (auto simp: rename_span_event_def span_event_keys_def intro!: rename_value_cong rename_attrs_cong)

lemma rename_span_link_cong:
  "\<forall>k \<in> span_link_keys l. f k = g k \<Longrightarrow> rename_span_link f l = rename_span_link g l"
  by (auto simp: rename_span_link_def span_link_keys_def intro!: rename_attrs_cong)

lemma rename_span_cong: "\<forall>k \<in> span_keys s. f k = g k \<Longrightarrow> rename_span f s = rename_span g s"
  by (auto simp: rename_span_def span_keys_def
      intro!: rename_value_cong rename_span_event_cong rename_span_link_cong)

lemma rename_event_cong: "\<forall>k \<in> event_keys e. f k = g k \<Longrightarrow> rename_event f e = rename_event g e"
  by (auto simp: rename_event_def event_keys_def
      intro!: rename_attrs_cong rename_metric_cong option.map_cong rename_log_cong rename_span_cong)

lemma rename_batch_cong: "\<forall>k \<in> batch_keys b. f k = g k \<Longrightarrow> rename_batch f b = rename_batch g b"
  by (auto simp: rename_batch_def batch_keys_def rename_resource_def rename_scope_def
      intro!: rename_attrs_cong rename_event_cong option.map_cong)

section \<open>Identity\<close>

text \<open>Every attribute map of the record is sorted, the invariant of \<open>AttrMap\<close>.\<close>

definition metric_sorted :: "('k::linorder, 'd, 'h) metric_record \<Rightarrow> bool" where
  "metric_sorted m \<longleftrightarrow> list_all (\<lambda>e. attr_map_sorted (ex_filtered_attributes e)) (mr_exemplars m)"

definition span_sorted :: "'k::linorder span_record \<Rightarrow> bool" where
  "span_sorted s \<longleftrightarrow> value_sorted (sr_name s) \<and>
     list_all (\<lambda>e. value_sorted (se_name e) \<and> attr_map_sorted (se_attributes e)) (sr_events s) \<and>
     list_all (\<lambda>l. attr_map_sorted (sl_attributes l)) (sr_links s)"

definition event_sorted :: "('k::linorder, 'd, 'h) event \<Rightarrow> bool" where
  "event_sorted e \<longleftrightarrow> attr_map_sorted (ev_attributes e) \<and>
     (case ev_log e of Some l \<Rightarrow> value_sorted (lr_message l) | None \<Rightarrow> True) \<and>
     list_all metric_sorted (ev_metrics e) \<and>
     (case ev_span e of Some s \<Rightarrow> span_sorted s | None \<Rightarrow> True)"

definition batch_sorted :: "('k::linorder, 'd, 'h) event_batch \<Rightarrow> bool" where
  "batch_sorted b \<longleftrightarrow> attr_map_sorted (res_attributes (b_resource b)) \<and>
     (case b_scope b of Some s \<Rightarrow> attr_map_sorted (scope_attributes s) | None \<Rightarrow> True) \<and>
     list_all event_sorted (b_events b)"

lemma rename_exemplar_id:
  "attr_map_sorted (ex_filtered_attributes e) \<Longrightarrow> \<forall>k \<in> exemplar_keys e. f k = k \<Longrightarrow>
     rename_exemplar f e = e"
  by (simp add: rename_exemplar_def exemplar_keys_def rename_attrs_id)

lemma map_option_idI: "(\<And>x. y = Some x \<Longrightarrow> f x = x) \<Longrightarrow> map_option f y = y"
  by (cases y) auto

lemma rename_metric_id:
  "metric_sorted m \<Longrightarrow> \<forall>k \<in> metric_keys m. f k = k \<Longrightarrow> rename_metric f m = m"
  by (cases m) (auto simp: rename_metric_def metric_sorted_def metric_keys_def list_all_iff
      intro!: map_idI rename_exemplar_id map_option_idI)

lemma rename_log_id:
  "value_sorted (lr_message l) \<Longrightarrow> \<forall>k \<in> log_keys l. f k = k \<Longrightarrow> rename_log f l = l"
  by (cases l) (auto simp: rename_log_def log_keys_def intro!: rename_value_id map_option_idI)

lemma rename_span_event_id:
  "value_sorted (se_name e) \<Longrightarrow> attr_map_sorted (se_attributes e) \<Longrightarrow>
     \<forall>k \<in> span_event_keys e. f k = k \<Longrightarrow> rename_span_event f e = e"
  by (cases e) (auto simp: rename_span_event_def span_event_keys_def
      intro!: rename_value_id rename_attrs_id)

lemma rename_span_link_id:
  "attr_map_sorted (sl_attributes l) \<Longrightarrow> \<forall>k \<in> span_link_keys l. f k = k \<Longrightarrow> rename_span_link f l = l"
  by (cases l) (auto simp: rename_span_link_def span_link_keys_def intro!: rename_attrs_id)

lemma rename_span_id:
  "span_sorted s \<Longrightarrow> \<forall>k \<in> span_keys s. f k = k \<Longrightarrow> rename_span f s = s"
  by (cases s) (auto simp: rename_span_def span_sorted_def span_keys_def list_all_iff
      intro!: rename_value_id map_idI rename_span_event_id rename_span_link_id)

lemma rename_event_id:
  "event_sorted e \<Longrightarrow> \<forall>k \<in> event_keys e. f k = k \<Longrightarrow> rename_event f e = e"
  by (cases e) (auto simp: rename_event_def event_sorted_def event_keys_def list_all_iff
      intro!: rename_attrs_id map_option_idI rename_log_id map_idI rename_metric_id rename_span_id)

lemma rename_scope_id:
  "attr_map_sorted (scope_attributes s) \<Longrightarrow> \<forall>k \<in> attr_map_keys (scope_attributes s). f k = k \<Longrightarrow>
     rename_scope f s = s"
  by (simp add: rename_scope_def rename_attrs_id)

lemma rename_resource_id:
  "attr_map_sorted (res_attributes r) \<Longrightarrow> \<forall>k \<in> attr_map_keys (res_attributes r). f k = k \<Longrightarrow>
     rename_resource f r = r"
  by (simp add: rename_resource_def rename_attrs_id)

lemma rename_batch_id:
  "batch_sorted b \<Longrightarrow> \<forall>k \<in> batch_keys b. f k = k \<Longrightarrow> rename_batch f b = b"
  by (cases b) (auto simp: rename_batch_def batch_sorted_def batch_keys_def list_all_iff
      intro!: rename_resource_id map_option_idI map_idI rename_event_id rename_scope_id)

section \<open>The text of a batch\<close>

text \<open>
  A batch with its symbols replaced by the strings they stand for in a table: what two processes
  can compare.
\<close>

definition resolve_str :: "interner \<Rightarrow> symbol \<Rightarrow> bytes" where
  "resolve_str t k = (case resolve t k of Some s \<Rightarrow> s | None \<Rightarrow> [])"

definition batch_text :: "interner \<Rightarrow> (symbol, 'd, 'h) event_batch \<Rightarrow> (bytes, 'd, 'h) event_batch" where
  "batch_text t b = rename_batch (resolve_str t) b"

text \<open>Every symbol of the batch came from the table.\<close>

definition known_to :: "interner \<Rightarrow> (symbol, 'd, 'h) event_batch \<Rightarrow> bool" where
  "known_to t b \<longleftrightarrow> (\<forall>k \<in> batch_keys b. k < length t)"

definition interner_ok :: "interner \<Rightarrow> bool" where
  "interner_ok t \<longleftrightarrow> distinct t \<and> list_all utf8_valid t"

lemma utf8_valid_resolve_str: "interner_ok t \<Longrightarrow> utf8_valid (resolve_str t k)"
  by (simp add: interner_ok_def resolve_str_def resolve_def list_all_iff)

lemma resolve_str_extends:
  "prefix t u \<Longrightarrow> resolve t k = Some s \<Longrightarrow> resolve_str u k = s"
  by (simp add: resolve_str_def table.resolve_extends)

text \<open>The text stays what it was however the table grows afterwards.\<close>

lemma batch_text_translate:
  assumes "distinct t" and "prefix (table_after B res t batch) u"
  shows "batch_text u (rename_batch (translate B res t batch) batch) = rename_batch res batch"
proof -
  have res: "resolve_str u (translate B res t batch k) = res k" if "k \<in> batch_keys batch" for k
    using assms(2) translate_text [OF assms(1) that] by (rule resolve_str_extends)
  have "inj_on (resolve_str u) (translate B res t batch ` batch_keys batch)"
  proof (rule inj_onI, clarify)
    fix j k assume "j \<in> batch_keys batch" and "k \<in> batch_keys batch"
      and "resolve_str u (translate B res t batch j) = resolve_str u (translate B res t batch k)"
    then have "res j = res k" by (simp add: res)
    then show "translate B res t batch j = translate B res t batch k" by (simp add: translate_def)
  qed
  then show ?thesis
    unfolding batch_text_def rename_batch_compose [OF \<open>inj_on _ _\<close>]
    by (intro rename_batch_cong) (simp add: res)
qed

definition provenance_text :: "interner \<Rightarrow> symbol provenance \<Rightarrow> bytes provenance" where
  "provenance_text t p = \<lparr>pv_origin = map_option (resolve_str t) (pv_origin p),
     pv_previous = map_option (resolve_str t) (pv_previous p)\<rparr>"

lemma intern_opt_table:
  assumes "intern_opt x t = (i, u)"
  shows "prefix t u" and "distinct t \<Longrightarrow> distinct u"
    and "prefix u w \<Longrightarrow> map_option (resolve_str w) i = x"
proof -
  show "prefix t u" "distinct t \<Longrightarrow> distinct u"
    using assms table.extends_intern table.invar_intern
    by (auto simp: intern_opt_def split: option.splits prod.splits) (metis snd_conv)+
  show "map_option (resolve_str w) i = x" if "prefix u w"
    using assms that
    by (auto simp: intern_opt_def split: option.splits prod.splits
        intro: resolve_str_extends [OF _ intern_resolve])
qed

lemma decoded_provenance_text:
  assumes "distinct t" and "decoded_provenance res p t = (p', u)"
  shows "provenance_text u p' = \<lparr>pv_origin = map_option res (pv_origin p),
      pv_previous = map_option res (pv_previous p)\<rparr>" and "distinct u" and "prefix t u"
proof -
  obtain o1 t1 where 1: "intern_opt (map_option res (pv_origin p)) t = (o1, t1)" by fastforce
  obtain o2 t2 where 2: "intern_opt (map_option res (pv_previous p)) t1 = (o2, t2)" by fastforce
  have p: "p' = \<lparr>pv_origin = o1, pv_previous = o2\<rparr>" "u = t2"
    using assms(2) by (simp_all add: decoded_provenance_def 1 2)
  note i1 = intern_opt_table [OF 1] and i2 = intern_opt_table [OF 2]
  show "provenance_text u p' = \<lparr>pv_origin = map_option res (pv_origin p),
      pv_previous = map_option res (pv_previous p)\<rparr>"
    using i1(3) [OF i2(1)] i2(3) by (simp add: provenance_text_def p)
  show "distinct u" and "prefix t u" using assms(1) i1 i2 p by (auto intro: prefix_order.trans)
qed

text \<open>In the process that encoded it, a decoded batch is the batch.\<close>

lemma translate_same_table:
  assumes "distinct t" and "known_to t batch" and "k \<in> batch_keys batch"
  shows "translate B (resolve_str t) t batch k = k"
proof -
  let ?u = "table_after B (resolve_str t) t batch"
  have u: "distinct ?u" "prefix t ?u"
    using intern_all_table [OF assms(1)] by (auto simp: table_after_def)
  have "resolve t k = Some (resolve_str t k)"
    using assms by (simp add: known_to_def resolve_str_def resolve_def)
  with u(2) have "resolve ?u k = Some (resolve_str t k)" by (rule table.resolve_extends)
  with u(1) show ?thesis by (simp add: translate_def symbol_of_resolve)
qed

lemma rename_same_table:
  assumes "distinct t" and "known_to t batch" and "batch_sorted batch"
  shows "rename_batch (translate B (resolve_str t) t batch) batch = batch"
  using assms by (intro rename_batch_id) (simp_all add: translate_same_table)

lemma hop_batch_crosses:
  assumes "interner_ok s" and "distinct t" and "decodable B L (resolve_str s) b batch"
    and "provenance_ok (resolve_str s) p" and "hop_trace_ok trace"
    and "length (sq_id seq) = 16" and "sq_seq seq \<noteq> 0"
  shows "\<exists>batch' p' t'.
    decode_hop_batch B L (encode_hop_batch B (resolve_str s) batch p trace seq) b t
      = Inr ((batch', p', trace, seq), spend (batch_cost B L (resolve_str s) batch) b, t') \<and>
    batch_text t' batch' = batch_text s batch \<and> provenance_text t' p' = provenance_text s p \<and>
    distinct t' \<and> prefix t t'"
proof -
  let ?t1 = "table_after B (resolve_str s) t batch"
  have t1: "distinct ?t1" "prefix t ?t1"
    using intern_all_table [OF assms(2)] by (simp_all add: table_after_def)
  obtain p' u where d: "decoded_provenance (resolve_str s) p ?t1 = (p', u)" by fastforce
  note prov = decoded_provenance_text [OF t1(1) d]
  note dec = decode_hop_batch_written [OF utf8_valid_resolve_str [OF assms(1)] assms(2-7)]
  show ?thesis
    using batch_text_translate [OF assms(2) prov(3)] prov t1(2)
    by (auto simp: dec d batch_text_def provenance_text_def intro: prefix_order.trans)
qed

end
