(* ===== verification/Decoded.thy ===== *)
theory Decoded
  imports Rename
begin

text \<open>
  What any accepted payload decodes to, whoever wrote it: a batch in which every invariant of the
  event model holds (attribute maps sorted, nesting under the cap, strings valid UTF-8, ids of
  their width, every key from the payload's dictionary) and whose memory the budget has paid for.
\<close>

section \<open>Sound readers\<close>

text \<open>
  On success the value satisfies \<open>Q\<close>, and the budget has gone down by at least the value's cost.
\<close>

definition sound ::
    "('a \<Rightarrow> bool) \<Rightarrow> ('a \<Rightarrow> nat) \<Rightarrow> (bytes \<Rightarrow> budget \<Rightarrow> ('a \<times> bytes \<times> budget) result) \<Rightarrow> bool" where
  "sound Q c r \<longleftrightarrow> (\<forall>bytes b x rest b'. r bytes b = Inr (x, rest, b') \<longrightarrow>
     Q x \<and> remaining b' + c x \<le> remaining b \<and> limit b' = limit b)"

lemma soundD:
  assumes "sound Q c r" and "r bytes b = Inr (x, rest, b')"
  shows "Q x \<and> remaining b' + c x \<le> remaining b \<and> limit b' = limit b"
  using assms by (auto simp: sound_def)

lemma soundI:
  "(\<And>bytes b x rest b'. r bytes b = Inr (x, rest, b') \<Longrightarrow>
     Q x \<and> remaining b' + c x \<le> remaining b \<and> limit b' = limit b) \<Longrightarrow> sound Q c r"
  by (simp add: sound_def)

lemma repeat_read_sound:
  assumes "\<And>bytes b x rest b'. r (bytes, b) = Inr (x, rest, b') \<Longrightarrow>
      Q x \<and> remaining b' + c x \<le> remaining b \<and> limit b' = limit b"
    and "repeat_read n r (bytes, b) = Inr (xs, rest, b')"
  shows "list_all Q xs \<and> remaining b' + sum_list (map c xs) \<le> remaining b \<and> limit b' = limit b"
  using assms(2)
proof (induction n arbitrary: bytes b xs)
  case (Suc n)
  then obtain x bytes1 b1 ys where
    x: "r (bytes, b) = Inr (x, bytes1, b1)" and xs: "xs = x # ys"
    and ys: "repeat_read n r (bytes1, b1) = Inr (ys, rest, b')"
    by (auto simp: case_prod_beta)
  from assms(1) [OF x] Suc.IH [OF ys] show ?case by (auto simp: xs)
qed simp

text \<open>\<open>for_each_field\<close> over a record: what one field keeps, the whole record keeps.\<close>

locale field_visitor =
  fixes visit :: "'s \<Rightarrow> u8 \<Rightarrow> bytes \<Rightarrow> budget \<Rightarrow> ('s \<times> bytes \<times> budget) result"
    and wf :: "'s \<Rightarrow> bool"
    and cost :: "'s \<Rightarrow> nat"
    and init :: 's
  assumes visit_keeps: "visit s tag field b = Inr (s', rest, b') \<Longrightarrow> wf s \<Longrightarrow>
      wf s' \<and> remaining b' + cost s' \<le> remaining b + cost s \<and> limit b' = limit b"
    and init_wf: "wf init"
    and init_cost: "cost init = 0"
begin

lemma fields_keep:
  "for_each_field visit s body b = Inr (s', b') \<Longrightarrow> wf s \<Longrightarrow>
     wf s' \<and> remaining b' + cost s' \<le> remaining b + cost s \<and> limit b' = limit b"
proof (induction "length body" arbitrary: s body b rule: less_induct)
  case less
  show ?case
  proof (cases "body = []")
    case True
    then show ?thesis using less.prems by (simp add: for_each_field.simps)
  next
    case False
    with less.prems(1) obtain tag body1 len body2 field body3 s1 b1 where
      len: "read_u8 body = Inr (tag, body1)" "read_len body1 = Inr (len, body2)"
        "split_to (Malformed ''field declares more bytes than remain'') len body2 = Inr (field, body3)"
      and one: "visit s tag field b = Inr (s1, [], b1)"
      and rest: "for_each_field visit s1 body3 b1 = Inr (s', b')"
      by (subst (asm) for_each_field.simps) (auto simp: case_prod_beta)
    have "length body3 < length body"
      using len by (auto simp: split_to_eq_Inr dest!: read_u8_shorter read_len_shorter)
    moreover note step = visit_keeps [OF one less.prems(2)]
    ultimately show ?thesis using less.hyps [OF _ rest] by auto
  qed
qed

lemma record_sound:
  "for_each_field visit init body b = Inr (s, b') \<Longrightarrow>
     wf s \<and> remaining b' + cost s \<le> remaining b \<and> limit b' = limit b"
  using fields_keep [of init body b s b'] init_wf init_cost by simp

end

section \<open>Values and attribute maps\<close>

definition value_wf :: "nat \<Rightarrow> 'j::linorder list \<Rightarrow> 'j attr_value \<Rightarrow> bool" where
  "value_wf depth R v \<longleftrightarrow> value_ok depth v \<and> value_sorted v \<and> value_keys v \<subseteq> set R"

definition entries_wf :: "nat \<Rightarrow> 'j::linorder list \<Rightarrow> 'j attr_map \<Rightarrow> bool" where
  "entries_wf depth R m \<longleftrightarrow> list_all (\<lambda>(k, v). k \<in> set R \<and> value_wf depth R v) m"

definition attrs_wf :: "nat \<Rightarrow> 'j::linorder list \<Rightarrow> 'j attr_map \<Rightarrow> bool" where
  "attrs_wf depth R m \<longleftrightarrow> attrs_sorted m \<and> entries_wf depth R m"

lemma saturating_mul_mono: "m \<le> n \<Longrightarrow> saturating_mul m k \<le> saturating_mul n k"
  by (simp add: saturating_mul_def min.coboundedI1 min_le_iff_disj)

lemma sum_list_distinct_subset:
  fixes g :: "'a \<Rightarrow> nat"
  assumes "distinct xs" and "set xs \<subseteq> set ys"
  shows "sum_list (map g xs) \<le> sum_list (map g ys)"
proof -
  have "sum_list (map g xs) = sum g (set xs)"
    using assms(1) by (simp add: sum_list_distinct_conv_sum_set)
  also have "\<dots> \<le> sum g (set ys)"
    using assms(2) by (rule sum_mono2 [rotated]) simp_all
  also have "\<dots> \<le> sum_list (map g ys)"
    by (induction ys) (auto simp: sum.insert_if)
  finally show ?thesis .
qed

lemma distinct_attrs_of: "distinct (attrs_of kvs)"
  using attrs_sorted_distinct [OF attrs_sorted_attrs_of, of kvs] by (simp add: distinct_map)

lemma attrs_cost_attrs_of: "attrs_cost L (attrs_of kvs) \<le> attrs_cost L kvs"
  unfolding attrs_cost_def
  by (intro add_mono saturating_mul_mono length_attrs_of sum_list_distinct_subset set_attrs_of_subset
      distinct_attrs_of)

lemma attrs_wf_attrs_of: "entries_wf depth R kvs \<Longrightarrow> attrs_wf depth R (attrs_of kvs)"
  using set_attrs_of_subset by (fastforce simp: attrs_wf_def entries_wf_def list_all_iff)

lemma dict_get_set: "dict_get R i = Inr k \<Longrightarrow> k \<in> set R"
  by (auto simp: dict_get_def split: if_splits)

lemma attr_map_with_sound:
  assumes "sound (value_wf depth R) (value_cost L) r"
  shows "sound (attrs_wf depth R) (attrs_cost L) (read_attr_map_with L R r)"
proof (rule soundI)
  fix bytes b m rest b'
  assume "read_attr_map_with L R r bytes b = Inr (m, rest, b')"
  then obtain count bytes1 b1 kvs where
    charge: "charge_list count 3 (length bytes1) (sz_attr_entry L) b = Inr b1"
    and kvs: "repeat_read count (read_attr_entry R r) (bytes1, b1) = Inr (kvs, rest, b')"
    and m: "m = attrs_of kvs"
    by (auto simp: read_attr_map_with_def case_prod_beta)
  have "list_all (\<lambda>(k, v). k \<in> set R \<and> value_wf depth R v) kvs \<and>
      remaining b' + sum_list (map (\<lambda>(k, v). value_cost L v) kvs) \<le> remaining b1 \<and> limit b' = limit b1"
    by (rule repeat_read_sound [OF _ kvs])
      (auto simp: read_attr_entry_def dest!: dict_get_set soundD [OF assms])
  moreover have "remaining b1 + saturating_mul (length kvs) (sz_attr_entry L) = remaining b \<and>
      limit b1 = limit b"
    using charge repeat_read_length [OF kvs] by (auto simp: charge_list_eq_Inr)
  ultimately show "attrs_wf depth R m \<and> remaining b' + attrs_cost L m \<le> remaining b \<and>
      limit b' = limit b"
    using attrs_wf_attrs_of [of depth R kvs] attrs_cost_attrs_of [of L kvs]
    by (auto simp: m entries_wf_def attrs_cost_def)
qed

lemma array_with_sound:
  assumes "sound (value_wf depth R) (value_cost L) r"
  shows "sound (list_all (value_wf depth R))
    (\<lambda>vs. saturating_mul (length vs) (sz_value L) + sum_list (map (value_cost L) vs))
    (read_array_with L r)"
proof (rule soundI)
  fix bytes b vs rest b'
  assume "read_array_with L r bytes b = Inr (vs, rest, b')"
  then obtain count bytes1 b1 where
    charge: "charge_list count 2 (length bytes1) (sz_value L) b = Inr b1"
    and vs: "repeat_read count (\<lambda>(bytes, b). r bytes b) (bytes1, b1) = Inr (vs, rest, b')"
    by (auto simp: read_array_with_def case_prod_beta)
  have "list_all (value_wf depth R) vs \<and>
      remaining b' + sum_list (map (value_cost L) vs) \<le> remaining b1 \<and> limit b' = limit b1"
    by (rule repeat_read_sound [OF _ vs]) (auto dest!: soundD [OF assms])
  moreover have "remaining b1 + saturating_mul (length vs) (sz_value L) = remaining b \<and>
      limit b1 = limit b"
    using charge repeat_read_length [OF vs] by (auto simp: charge_list_eq_Inr)
  ultimately show "list_all (value_wf depth R) vs \<and> remaining b' +
      (saturating_mul (length vs) (sz_value L) + sum_list (map (value_cost L) vs)) \<le> remaining b \<and>
      limit b' = limit b" by auto
qed

lemma value_wf_Array: "value_wf depth R (V_Array vs) \<longleftrightarrow>
    depth \<le> MAX_VALUE_DEPTH \<and> list_all (value_wf (Suc depth) R) vs"
  by (auto simp: value_wf_def list_all_iff)

lemma value_wf_Map: "value_wf depth R (V_Map m) \<longleftrightarrow>
    depth \<le> MAX_VALUE_DEPTH \<and> attrs_wf (Suc depth) R m"
  by (auto simp: value_wf_def attrs_wf_def entries_wf_def list_all_iff)

lemma value_payload_sound:
  assumes "depth \<le> MAX_VALUE_DEPTH" and "sound (value_wf (Suc depth) R) (value_cost L) r"
  shows "sound (value_wf depth R) (value_cost L) (read_value_payload L R r tag)"
proof (rule soundI)
  fix payload b v rest b'
  assume "read_value_payload L R r tag payload b = Inr (v, rest, b')"
  with assms(1) show "value_wf depth R v \<and> remaining b' + value_cost L v \<le> remaining b \<and>
      limit b' = limit b"
    by (auto simp: read_value_payload_def value_wf_Array value_wf_Map charge_eq_Inr attrs_cost_def
        split: if_splits dest!: soundD [OF array_with_sound [OF assms(2)]]
        soundD [OF attr_map_with_sound [OF assms(2)]])
      (simp_all add: value_wf_def)
qed

lemma value_at_sound: "sound (value_wf depth R) (value_cost L) (read_value_at L depth R)"
proof (induction "Suc MAX_VALUE_DEPTH - depth" arbitrary: depth rule: less_induct)
  case less
  show ?case
  proof (rule soundI)
    fix bytes b v rest b'
    assume v: "read_value_at L depth R bytes b = Inr (v, rest, b')"
    then have depth: "depth \<le> MAX_VALUE_DEPTH" by (subst (asm) read_value_at.simps) auto
    then have "sound (value_wf (Suc depth) R) (value_cost L) (read_value_at L (Suc depth) R)"
      using less [of "Suc depth"] by simp
    note payload = soundD [OF value_payload_sound [OF depth this]]
    from v depth show "value_wf depth R v \<and> remaining b' + value_cost L v \<le> remaining b \<and>
        limit b' = limit b"
      by (subst (asm) read_value_at.simps)
        (auto simp: value_wf_def split: if_splits dest!: payload [unfolded value_wf_def])
  qed
qed

lemma value_sound: "sound (value_wf 0 R) (value_cost L) (read_value L R)"
  unfolding read_value_def by (rule value_at_sound)

lemma attr_map_sound: "sound (attrs_wf 0 R) (attrs_cost L) (read_attr_map L R)"
  unfolding read_attr_map_def by (rule attr_map_with_sound [OF value_at_sound])

section \<open>Lists and the plain readers\<close>

lemma record_list_sound:
  assumes "sound Q c r"
  shows "sound (list_all Q) (list_cost sz c) (read_record_list sz r)"
proof (rule soundI)
  fix bytes b xs rest b'
  assume "read_record_list sz r bytes b = Inr (xs, rest, b')"
  then obtain count bytes1 b1 where
    charge: "charge_list count 1 (length bytes1) sz b = Inr b1"
    and xs: "repeat_read count (read_list_entry r) (bytes1, b1) = Inr (xs, rest, b')"
    by (auto simp: read_record_list_def case_prod_beta)
  have "list_all Q xs \<and> remaining b' + sum_list (map c xs) \<le> remaining b1 \<and> limit b' = limit b1"
    by (rule repeat_read_sound [OF _ xs]) (auto simp: read_list_entry_def dest!: soundD [OF assms])
  moreover have "remaining b1 + saturating_mul (length xs) sz = remaining b \<and> limit b1 = limit b"
    using charge repeat_read_length [OF xs] by (auto simp: charge_list_eq_Inr)
  ultimately show "list_all Q xs \<and> remaining b' + list_cost sz c xs \<le> remaining b \<and>
      limit b' = limit b" by (auto simp: list_cost_def)
qed

lemma read_symbol_set: "read_symbol_field R field = Inr (k, rest) \<Longrightarrow> k \<in> set R"
  by (auto simp: read_symbol_field_def dest: dict_get_set)

lemma read_id_length: "read_id e n field = Inr (i, rest) \<Longrightarrow> length i = n"
  by (auto simp: read_id_def split: if_splits)

lemma read_trace_ref_ok: "read_trace_ref field = Inr (t, rest) \<Longrightarrow> trace_ok t"
  by (auto simp: read_trace_ref_def read_span_presence_def trace_ok_def split_to_eq_Inr
      split: if_splits)

lemma read_counted_pays:
  "read_counted w sz r bytes b = Inr (xs, rest, b') \<Longrightarrow>
     remaining b' + saturating_mul (length xs) sz \<le> remaining b \<and> limit b' = limit b"
  by (auto simp: read_counted_def charge_list_eq_Inr dest!: repeat_read_length)

lemma exponential_buckets_pay:
  "read_exponential_buckets bytes b = Inr ((offset, counts), rest, b') \<Longrightarrow>
     remaining b' + saturating_mul (length counts) 8 \<le> remaining b \<and> limit b' = limit b"
  by (auto simp: read_exponential_buckets_def dest!: read_counted_pays)

text \<open>A summary is one the blob codec made.\<close>

fun kind_decoded :: "('d, 'h) blob_codec \<Rightarrow> ('d, 'h) metric_kind \<Rightarrow> bool" where
  "kind_decoded B (MK_Distribution d) \<longleftrightarrow> (\<exists>body. dd_from_bytes B body = Some d)"
| "kind_decoded B (MK_Set h) \<longleftrightarrow> (\<exists>body. hll_from_bytes B body = Some h)"
| "kind_decoded B _ \<longleftrightarrow> True"

lemma kind_body_sound: "sound (kind_decoded B) (kind_cost L) (read_kind_body B L tag)"
proof (rule soundI)
  fix body b kind rest b'
  assume "read_kind_body B L tag body b = Inr (kind, rest, b')"
  then show "kind_decoded B kind \<and> remaining b' + kind_cost L kind \<le> remaining b \<and> limit b' = limit b"
    by (auto simp: read_kind_body_def read_histogram_body_def read_exp_histogram_body_def
        read_summary_body_def split: if_splits
        dest!: read_counted_pays exponential_buckets_pay)
qed

lemma metric_kind_sound: "sound (kind_decoded B) (kind_cost L) (read_metric_kind B L)"
  by (rule soundI) (auto simp: read_metric_kind_def dest!: soundD [OF kind_body_sound])

section \<open>Exemplars and metrics\<close>

lemma map_or_simps [simp]: "map_or z f None = z" "map_or z f (Some x) = f x"
  by (simp_all add: map_or_def)

lemma opt_trace_ok_simps [simp]: "opt_trace_ok None" "opt_trace_ok (Some t) \<longleftrightarrow> trace_ok t"
  by (simp_all add: opt_trace_ok_def)

lemma attrs_wf_Nil [simp]: "attrs_wf depth R []" "attrs_cost L [] = 0"
  by (simp_all add: attrs_wf_def entries_wf_def attrs_cost_def saturating_mul_def)

lemmas visit_simps = set_field_def set_field_b_def skip_field_def take_field_def

definition exemplar_wf :: "'j::linorder list \<Rightarrow> 'j exemplar \<Rightarrow> bool" where
  "exemplar_wf R e \<longleftrightarrow> opt_trace_ok (ex_trace e) \<and> attrs_wf 0 R (ex_filtered_attributes e)"

interpretation exemplar_fields:
    field_visitor "visit_exemplar L R" "exemplar_wf R" "exemplar_cost L" exemplar_default for L R
  by unfold_locales (auto simp: visit_exemplar_def visit_simps exemplar_wf_def exemplar_cost_def
      exemplar_default_def split: if_splits dest!: read_trace_ref_ok soundD [OF attr_map_sound])

lemma exemplar_sound: "sound (exemplar_wf R) (exemplar_cost L) (read_exemplar L R)"
  by (rule soundI) (auto simp: read_exemplar_def dest!: exemplar_fields.record_sound)

definition metric_fields_wf ::
    "('d, 'h) blob_codec \<Rightarrow> 'j::linorder list \<Rightarrow> ('j, 'd, 'h) metric_fields \<Rightarrow> bool" where
  "metric_fields_wf B R s \<longleftrightarrow> set_option (mf_name s) \<subseteq> set R \<and> set_option (mf_unit s) \<subseteq> set R \<and>
     set_option (mf_description s) \<subseteq> set R \<and> list_all (exemplar_wf R) (mf_exemplars s) \<and>
     pred_option (kind_decoded B) (mf_kind s)"

definition metric_fields_cost :: "layout \<Rightarrow> ('j, 'd, 'h) metric_fields \<Rightarrow> nat" where
  "metric_fields_cost L s = list_cost (sz_exemplar L) (exemplar_cost L) (mf_exemplars s) +
     map_or 0 (kind_cost L) (mf_kind s)"

interpretation metric_fields:
    field_visitor "visit_metric_record B L R" "metric_fields_wf B R" "metric_fields_cost L"
      metric_fields_default for B L R
  by unfold_locales (auto simp: visit_metric_record_def visit_simps metric_fields_wf_def
      metric_fields_cost_def metric_fields_default_def split: if_splits
      dest!: read_symbol_set soundD [OF record_list_sound [OF exemplar_sound]]
      soundD [OF metric_kind_sound])

definition metric_wf ::
    "('d, 'h) blob_codec \<Rightarrow> 'j::linorder list \<Rightarrow> ('j, 'd, 'h) metric_record \<Rightarrow> bool" where
  "metric_wf B R m \<longleftrightarrow> insert (mr_name m) (set_option (mr_unit m) \<union> set_option (mr_description m))
       \<subseteq> set R \<and> list_all (exemplar_wf R) (mr_exemplars m) \<and> kind_decoded B (mr_kind m)"

lemma metric_sound: "sound (metric_wf B R) (metric_cost L) (read_metric_record B L R)"
  by (rule soundI) (auto simp: read_metric_record_def metric_wf_def metric_cost_def
      metric_fields_wf_def metric_fields_cost_def dest!: metric_fields.record_sound)

section \<open>Logs and spans\<close>

definition log_fields_wf :: "'j::linorder list \<Rightarrow> 'j log_fields \<Rightarrow> bool" where
  "log_fields_wf R s \<longleftrightarrow> pred_option (value_wf 0 R) (lf_message s) \<and> opt_trace_ok (lf_trace s) \<and>
     set_option (lf_event_name s) \<subseteq> set R"

interpretation log_fields:
    field_visitor "visit_log_record L R" "log_fields_wf R"
      "\<lambda>s. map_or 0 (value_cost L) (lf_message s)" log_fields_default for L R
  by unfold_locales (auto simp: visit_log_record_def visit_simps log_fields_wf_def
      log_fields_default_def split: if_splits
      dest!: read_symbol_set read_trace_ref_ok soundD [OF value_sound])

definition log_wf :: "'j::linorder list \<Rightarrow> 'j log_record \<Rightarrow> bool" where
  "log_wf R l \<longleftrightarrow> value_wf 0 R (lr_message l) \<and> opt_trace_ok (lr_trace l) \<and>
     set_option (lr_event_name l) \<subseteq> set R"

lemma log_sound: "sound (log_wf R) (log_cost L) (read_log_record L R)"
  by (rule soundI) (auto simp: read_log_record_def log_wf_def log_cost_def log_fields_wf_def
      dest!: log_fields.record_sound)

definition span_event_fields_wf :: "'j::linorder list \<Rightarrow> 'j span_event_fields \<Rightarrow> bool" where
  "span_event_fields_wf R s \<longleftrightarrow> pred_option (value_wf 0 R) (sef_name s) \<and>
     attrs_wf 0 R (sef_attributes s)"

interpretation span_event_fields:
    field_visitor "visit_span_event L R" "span_event_fields_wf R"
      "\<lambda>s. map_or 0 (value_cost L) (sef_name s) + attrs_cost L (sef_attributes s)"
      span_event_fields_default for L R
  by unfold_locales (auto simp: visit_span_event_def visit_simps span_event_fields_wf_def
      span_event_fields_default_def split: if_splits
      dest!: soundD [OF value_sound] soundD [OF attr_map_sound])

definition span_event_wf :: "'j::linorder list \<Rightarrow> 'j span_event \<Rightarrow> bool" where
  "span_event_wf R e \<longleftrightarrow> value_wf 0 R (se_name e) \<and> attrs_wf 0 R (se_attributes e)"

lemma span_event_sound: "sound (span_event_wf R) (span_event_cost L) (read_span_event L R)"
  by (rule soundI) (auto simp: read_span_event_def span_event_wf_def span_event_cost_def
      span_event_fields_wf_def dest!: span_event_fields.record_sound)

definition span_link_fields_wf :: "'j::linorder list \<Rightarrow> 'j span_link_fields \<Rightarrow> bool" where
  "span_link_fields_wf R s \<longleftrightarrow> pred_option (\<lambda>i. length i = 16) (slf_trace_id s) \<and>
     pred_option (\<lambda>i. length i = 8) (slf_span_id s) \<and> attrs_wf 0 R (slf_attributes s)"

interpretation span_link_fields:
    field_visitor "visit_span_link L R" "span_link_fields_wf R"
      "\<lambda>s. attrs_cost L (slf_attributes s)" span_link_fields_default for L R
  by unfold_locales (auto simp: visit_span_link_def visit_simps span_link_fields_wf_def
      span_link_fields_default_def split: if_splits
      dest!: read_id_length soundD [OF attr_map_sound])

definition span_link_wf :: "'j::linorder list \<Rightarrow> 'j span_link \<Rightarrow> bool" where
  "span_link_wf R l \<longleftrightarrow> length (sl_trace_id l) = 16 \<and> length (sl_span_id l) = 8 \<and>
     attrs_wf 0 R (sl_attributes l)"

lemma span_link_sound: "sound (span_link_wf R) (span_link_cost L) (read_span_link L R)"
  by (rule soundI) (auto simp: read_span_link_def span_link_wf_def span_link_cost_def
      span_link_fields_wf_def dest!: span_link_fields.record_sound)

interpretation span_ext_fields:
    field_visitor "visit_span_ext R" "\<lambda>_. True" "\<lambda>_. 0" span_ext_default for R
  by unfold_locales (auto simp: visit_span_ext_def visit_simps split: if_splits)

lemma span_ext_sound: "sound (\<lambda>_. True) (\<lambda>_. 0) (read_span_ext R)"
  by (rule soundI) (auto simp: read_span_ext_def dest!: span_ext_fields.record_sound)

definition span_fields_wf :: "'j::linorder list \<Rightarrow> 'j span_fields \<Rightarrow> bool" where
  "span_fields_wf R s \<longleftrightarrow> pred_option (\<lambda>i. length i = 16) (sf_trace_id s) \<and>
     pred_option (\<lambda>i. length i = 8) (sf_span_id s) \<and>
     pred_option (\<lambda>i. length i = 8) (sf_parent_span_id s) \<and>
     pred_option (value_wf 0 R) (sf_name s) \<and> list_all (span_event_wf R) (sf_events s) \<and>
     list_all (span_link_wf R) (sf_links s)"

definition span_fields_cost :: "layout \<Rightarrow> 'j span_fields \<Rightarrow> nat" where
  "span_fields_cost L s = map_or 0 (value_cost L) (sf_name s) +
     list_cost (sz_span_event L) (span_event_cost L) (sf_events s) +
     list_cost (sz_span_link L) (span_link_cost L) (sf_links s)"

interpretation span_fields:
    field_visitor "visit_span_record L R" "span_fields_wf R" "span_fields_cost L"
      span_fields_default for L R
  by unfold_locales (auto simp: visit_span_record_def visit_simps span_fields_wf_def
      span_fields_cost_def span_fields_default_def split: if_splits
      dest!: read_id_length soundD [OF value_sound] soundD [OF span_ext_sound]
      soundD [OF record_list_sound [OF span_event_sound]]
      soundD [OF record_list_sound [OF span_link_sound]])

definition span_wf :: "'j::linorder list \<Rightarrow> 'j span_record \<Rightarrow> bool" where
  "span_wf R s \<longleftrightarrow> length (sr_trace_id s) = 16 \<and> length (sr_span_id s) = 8 \<and>
     pred_option (\<lambda>i. length i = 8) (sr_parent_span_id s) \<and> value_wf 0 R (sr_name s) \<and>
     list_all (span_event_wf R) (sr_events s) \<and> list_all (span_link_wf R) (sr_links s)"

lemma span_sound: "sound (span_wf R) (span_cost L) (read_span_record L R)"
  by (rule soundI) (auto simp: read_span_record_def span_wf_def span_cost_def span_fields_wf_def
      span_fields_cost_def dest!: span_fields.record_sound)

section \<open>Events, resources and scopes\<close>

definition event_wf ::
    "('d, 'h) blob_codec \<Rightarrow> 'j::linorder list \<Rightarrow> ('j, 'd, 'h) event \<Rightarrow> bool" where
  "event_wf B R e \<longleftrightarrow> attrs_wf 0 R (ev_attributes e) \<and> pred_option (log_wf R) (ev_log e) \<and>
     list_all (metric_wf B R) (ev_metrics e) \<and> pred_option (span_wf R) (ev_span e)"

lemma saturating_mul_add: "saturating_mul (m + n) k \<le> saturating_mul m k + saturating_mul n k"
  by (simp add: saturating_mul_def min_def algebra_simps)

lemma list_cost_append:
  "r + list_cost sz c ys \<le> m \<Longrightarrow> r + list_cost sz c (xs @ ys) \<le> m + list_cost sz c xs"
  using saturating_mul_add [of "length xs" "length ys" sz] by (simp add: list_cost_def)

lemma event_visit_keeps:
  assumes "visit_event B L R s tag field b = Inr (s', rest, b')" and "event_wf B R s"
  shows "event_wf B R s' \<and> remaining b' + event_cost L s' \<le> remaining b + event_cost L s \<and>
    limit b' = limit b"
  using assms
  by (auto simp: visit_event_def visit_simps event_wf_def event_cost_def split: if_splits
      dest!: soundD [OF attr_map_sound] soundD [OF log_sound] soundD [OF span_sound]
      soundD [OF record_list_sound [OF metric_sound]]
      intro: list_cost_append)

interpretation event_fields:
    field_visitor "visit_event B L R" "event_wf B R" "event_cost L" event_default for B L R
proof
  show "event_wf B R event_default" and "event_cost L event_default = 0"
    by (simp_all add: event_wf_def event_cost_def event_default_def)
qed (rule event_visit_keeps)

lemma event_sound: "sound (event_wf B R) (event_cost L) (read_event B L R)"
  by (rule soundI) (auto simp: read_event_def dest!: event_fields.record_sound)

interpretation resource_fields:
    field_visitor "visit_resource L R" "\<lambda>r. attrs_wf 0 R (res_attributes r)"
      "\<lambda>r. attrs_cost L (res_attributes r)" resource_default for L R
  by unfold_locales (auto simp: visit_resource_def visit_simps resource_default_def split: if_splits
      dest!: soundD [OF attr_map_sound])

lemma resource_sound:
  "sound (\<lambda>r. attrs_wf 0 R (res_attributes r)) (\<lambda>r. attrs_cost L (res_attributes r)) (read_resource L R)"
  by (rule soundI) (auto simp: read_resource_def dest!: resource_fields.record_sound)

interpretation scope_fields:
    field_visitor "visit_scope L R" "\<lambda>s. attrs_wf 0 R (scope_attributes s)"
      "\<lambda>s. attrs_cost L (scope_attributes s)" scope_default for L R
  by unfold_locales (auto simp: visit_scope_def visit_simps scope_default_def split: if_splits
      dest!: soundD [OF attr_map_sound])

lemma scope_sound:
  "sound (\<lambda>s. attrs_wf 0 R (scope_attributes s)) (\<lambda>s. attrs_cost L (scope_attributes s)) (read_scope L R)"
  by (rule soundI) (auto simp: read_scope_def dest!: scope_fields.record_sound)

section \<open>Batches\<close>

definition batch_wf ::
    "('d, 'h) blob_codec \<Rightarrow> 'j::linorder list \<Rightarrow> ('j, 'd, 'h) event_batch \<Rightarrow> bool" where
  "batch_wf B R b \<longleftrightarrow> attrs_wf 0 R (res_attributes (b_resource b)) \<and>
     pred_option (\<lambda>s. attrs_wf 0 R (scope_attributes s)) (b_scope b) \<and>
     list_all (event_wf B R) (b_events b)"

lemma section_sound: "sound Q c r \<Longrightarrow> sound Q c (read_section what r)"
  by (rule soundI) (auto simp: read_section_def dest!: soundD)

lemma scope_section_sound:
  "sound (pred_option (\<lambda>s. attrs_wf 0 R (scope_attributes s))) (batch_scope_cost L)
     (read_scope_section L R)"
  by (rule soundI) (auto simp: read_scope_section_def batch_scope_cost_def split: if_splits
      dest!: soundD [OF section_sound [OF scope_sound]])

lemma events_sound:
  "sound (\<lambda>es. list_all (event_wf B R) es \<and> length es \<le> MAX_SANE_EVENT_COUNT)
     (list_cost (sz_event L) (event_cost L)) (read_events B L R)"
proof (rule soundI)
  fix bytes b es rest b'
  let ?r = "\<lambda>(bytes, b).
    read_section ''event declares more bytes than remain'' (read_event B L R) bytes b"
  assume "read_events B L R bytes b = Inr (es, rest, b')"
  then obtain count bytes1 b1 where
    charge: "charge_list count 1 (length bytes1) (sz_event L) b = Inr b1"
    and cap: "count \<le> MAX_SANE_EVENT_COUNT"
    and es: "repeat_read count ?r (bytes1, b1) = Inr (es, rest, b')"
    by (auto simp: read_events_def case_prod_beta)
  have "list_all (event_wf B R) es \<and>
      remaining b' + sum_list (map (event_cost L) es) \<le> remaining b1 \<and> limit b' = limit b1"
    by (rule repeat_read_sound [OF _ es]) (auto dest!: soundD [OF section_sound [OF event_sound]])
  moreover have "remaining b1 + saturating_mul (length es) (sz_event L) = remaining b \<and>
      limit b1 = limit b"
    using charge repeat_read_length [OF es] by (auto simp: charge_list_eq_Inr)
  ultimately show "(list_all (event_wf B R) es \<and> length es \<le> MAX_SANE_EVENT_COUNT) \<and>
      remaining b' + list_cost (sz_event L) (event_cost L) es \<le> remaining b \<and> limit b' = limit b"
    using cap repeat_read_length [OF es] by (auto simp: list_cost_def)
qed

lemma sections_sound:
  "sound (\<lambda>x. batch_wf B R x \<and> length (b_events x) \<le> MAX_SANE_EVENT_COUNT) (sections_cost L)
     (read_sections B L R)"
  by (rule soundI) (auto simp: read_sections_def batch_wf_def sections_cost_def
      dest!: soundD [OF section_sound [OF resource_sound]] soundD [OF scope_section_sound]
      soundD [OF events_sound])

text \<open>The dictionary: each entry is valid UTF-8, interned, and paid for.\<close>

lemma intern_ok: "interner_ok t \<Longrightarrow> utf8_valid s \<Longrightarrow> interner_ok (snd (intern s t))"
  by (auto simp: interner_ok_def intern_def lookup_def position_None split: option.splits)

lemma read_dict_entryE:
  assumes "read_dict_entry L (bytes, b, t) = Inr (i, rest, b', t')"
  obtains raw where "utf8_valid raw" and "length raw + sz_symbol L \<le> remaining b"
    and "b' = spend (length raw + sz_symbol L) b" and "intern raw t = (i, t')"
  using assms by (auto simp: read_dict_entry_def charge_eq_Inr split_to_eq_Inr Let_def
      split: prod.splits)

lemma dict_entries_sound:
  assumes "interner_ok t" and "repeat_read n (read_dict_entry L) (bytes, b, t) = Inr (R, rest, b', t')"
  shows "interner_ok t' \<and> prefix t t' \<and> set R \<subseteq> {..<length t'} \<and>
    remaining b' + dict_cost L (map (resolve_str t') R) \<le> remaining b \<and> limit b' = limit b"
  using assms
proof (induction n arbitrary: bytes b t R)
  case 0
  then show ?case by (simp add: dict_cost_def)
next
  case (Suc n)
  then obtain i bytes1 b1 t1 Q where one: "read_dict_entry L (bytes, b, t) = Inr (i, bytes1, b1, t1)"
    and R: "R = i # Q" and rec: "repeat_read n (read_dict_entry L) (bytes1, b1, t1) = Inr (Q, rest, b', t')"
    by auto
  from one obtain raw where raw: "utf8_valid raw" "length raw + sz_symbol L \<le> remaining b"
    "b1 = spend (length raw + sz_symbol L) b" "intern raw t = (i, t1)"
    by (rule read_dict_entryE)
  note IH = Suc.IH [OF intern_ok [OF Suc.prems(1) raw(1), unfolded raw(4) snd_conv] rec]
  have "prefix t t'"
    using IH table.extends_intern [of t raw] by (auto simp: raw(4) intro: prefix_order.trans)
  moreover have "resolve t' i = Some raw"
    using IH table.resolve_intern [of raw t] by (auto simp: raw(4) intro: table.resolve_extends)
  ultimately show ?case
    using IH raw(2,3) by (auto simp: R dict_cost_def resolve_str_def resolve_def split: if_splits)
qed

lemma dict_read_sound:
  assumes "interner_ok t" and "dict_read L bytes b t = Inr (R, rest, b', t')"
  shows "interner_ok t' \<and> prefix t t' \<and> set R \<subseteq> {..<length t'} \<and>
    remaining b' + dict_cost L (map (resolve_str t') R) \<le> remaining b \<and> limit b' = limit b \<and>
    length R \<le> MAX_SANE_DICT_ENTRIES"
  using assms by (auto simp: dict_read_def dest: dict_entries_sound repeat_read_length)

lemma decode_batch_body_sound:
  assumes "interner_ok t" and "decode_batch_body B L bytes b t = Inr (batch, rest, b', t')"
  obtains R where "batch_wf B R batch" and "set R \<subseteq> {..<length t'}" and "interner_ok t'"
    and "prefix t t'" and "length (b_events batch) \<le> MAX_SANE_EVENT_COUNT"
    and "length R \<le> MAX_SANE_DICT_ENTRIES"
    and "remaining b' + (dict_cost L (map (resolve_str t') R) + sections_cost L batch) \<le> remaining b"
    and "limit b' = limit b"
  using assms(2)
  by (auto simp: decode_batch_body_def dest!: dict_read_sound [OF assms(1)] soundD [OF sections_sound])

section \<open>From well-formed to what the round trip asks for\<close>

lemma attrs_wfD:
  assumes "attrs_wf 0 R m"
  shows "attr_map_sorted m" and "attr_map_keys m \<subseteq> set R" and "attrs_ok 0 m"
  using assms by (auto simp: attrs_wf_def entries_wf_def attr_map_sorted_def attr_map_keys_def
      attrs_ok_def value_wf_def list_all_iff)

text \<open>
  What the event model allows and the format does not carry exactly: an exemplar with value
  \<open>-0.0\<close>, a summary its own codec does not give back.
\<close>

definition metric_exact :: "('d, 'h) blob_codec \<Rightarrow> ('k, 'd, 'h) metric_record \<Rightarrow> bool" where
  "metric_exact B m \<longleftrightarrow> kind_ok B (mr_kind m) \<and>
     list_all (\<lambda>e. ex_value e \<noteq> MV_F64 NEG_ZERO) (mr_exemplars m)"

definition batch_exact :: "('d, 'h) blob_codec \<Rightarrow> ('k, 'd, 'h) event_batch \<Rightarrow> bool" where
  "batch_exact B b \<longleftrightarrow> list_all (\<lambda>e. list_all (metric_exact B) (ev_metrics e)) (b_events b)"

lemma exemplar_wfD:
  assumes "exemplar_wf R e"
  shows "attr_map_sorted (ex_filtered_attributes e)" and "exemplar_keys e \<subseteq> set R"
    and "ex_value e \<noteq> MV_F64 NEG_ZERO \<Longrightarrow> exemplar_ok e"
  using assms
  by (auto simp: exemplar_wf_def exemplar_keys_def exemplar_ok_def opt_trace_ok_def
      dest: attrs_wfD(1,3) subsetD [OF attrs_wfD(2)])

lemma metric_wfD:
  assumes "metric_wf B R m"
  shows "metric_sorted m" and "metric_keys m \<subseteq> set R" and "metric_exact B m \<Longrightarrow> metric_ok B m"
  using assms by (auto simp: metric_wf_def metric_sorted_def metric_keys_def metric_exact_def
      metric_ok_def list_all_iff dest: exemplar_wfD(1) subsetD [OF exemplar_wfD(2)] intro: exemplar_wfD(3))

lemma log_wfD:
  assumes "log_wf R l"
  shows "value_sorted (lr_message l)" and "log_keys l \<subseteq> set R" and "log_ok l"
  using assms by (auto simp: log_wf_def value_wf_def log_keys_def log_ok_def)

lemma span_event_wfD:
  assumes "span_event_wf R e"
  shows "value_sorted (se_name e) \<and> attr_map_sorted (se_attributes e)"
    and "span_event_keys e \<subseteq> set R" and "span_event_ok e"
  using assms
  by (auto simp: span_event_wf_def value_wf_def span_event_keys_def span_event_ok_def
      dest: attrs_wfD(1,3) subsetD [OF attrs_wfD(2)])

lemma span_link_wfD:
  assumes "span_link_wf R l"
  shows "attr_map_sorted (sl_attributes l)" and "span_link_keys l \<subseteq> set R" and "span_link_ok l"
  using assms by (auto simp: span_link_wf_def span_link_keys_def span_link_ok_def
      dest: attrs_wfD(1,3) subsetD [OF attrs_wfD(2)])

lemma span_wfD:
  assumes "span_wf R s"
  shows "span_sorted s" and "span_keys s \<subseteq> set R" and "span_ok s"
  using assms by (auto simp: span_wf_def value_wf_def span_sorted_def span_keys_def span_ok_def
      list_all_iff pred_option_def split: option.splits
      dest: span_event_wfD(1,3) subsetD [OF span_event_wfD(2)] span_link_wfD(1,3)
      subsetD [OF span_link_wfD(2)])

lemma event_wfD:
  assumes "event_wf B R e"
  shows "event_sorted e" and "event_keys e \<subseteq> set R"
    and "list_all (metric_exact B) (ev_metrics e) \<Longrightarrow> event_ok B e"
  using assms by (auto simp: event_wf_def event_sorted_def event_keys_def event_ok_def list_all_iff
      pred_option_def split: option.splits
      dest: attrs_wfD(1,3) subsetD [OF attrs_wfD(2)] log_wfD(1,3) subsetD [OF log_wfD(2)]
      span_wfD(1,3) subsetD [OF span_wfD(2)] metric_wfD(1) subsetD [OF metric_wfD(2)]
      intro: metric_wfD(3))

lemma batch_wfD:
  assumes "batch_wf B R b"
  shows "batch_sorted b" and "batch_keys b \<subseteq> set R" and "batch_exact B b \<Longrightarrow> batch_ok B b"
  using assms by (auto simp: batch_wf_def batch_sorted_def batch_keys_def batch_ok_def
      batch_exact_def list_all_iff [of "event_wf B R"] list_all_iff [of event_sorted]
      list_all_iff [of "event_ok B"] list_all_iff [where xs = "b_events b"]
      pred_option_def split: option.splits
      dest: attrs_wfD(1,3) subsetD [OF attrs_wfD(2)] event_wfD(1) subsetD [OF event_wfD(2)]
      intro: event_wfD(3))

text \<open>A blob codec that gives back every summary it has itself decoded.\<close>

definition recodes :: "('d, 'h) blob_codec \<Rightarrow> bool" where
  "recodes B \<longleftrightarrow> (\<forall>kind. kind_decoded B kind \<longrightarrow> kind_ok B kind)"

definition no_negative_zero :: "('k, 'd, 'h) event_batch \<Rightarrow> bool" where
  "no_negative_zero b \<longleftrightarrow> list_all (\<lambda>e. list_all (\<lambda>m.
     list_all (\<lambda>x. ex_value x \<noteq> MV_F64 NEG_ZERO) (mr_exemplars m)) (ev_metrics e)) (b_events b)"

lemma batch_exactI:
  "recodes B \<Longrightarrow> batch_wf B R b \<Longrightarrow> no_negative_zero b \<Longrightarrow> batch_exact B b"
  by (auto simp: recodes_def batch_wf_def event_wf_def metric_wf_def no_negative_zero_def
      batch_exact_def metric_exact_def list_all_iff)

end
