(* ===== verification/Frame.thy ===== *)
theory Frame
  imports Budget
begin

text \<open>
  \<open>crates/logit-proto/src/frame.rs\<close>: the 24-byte header with a CRC-32C around one payload, the
  sanity caps, reading a whole frame, reading only the front of one, and finding the next frame
  in a torn file. The CRC and the lz4 block codec are the crates \<open>crc32c\<close> and \<open>lz4_flex\<close>: they
  are the parameter \<open>frame_env\<close>, with what the code relies on in \<open>frame_laws\<close>. The block decoder
  the module writes itself, \<open>lz4_prefix\<close>, is modelled.
\<close>

section \<open>The header\<close>

definition MAGIC :: bytes where "MAGIC = [0x4c, 0x47, 0x49, 0x54]"
definition VERSION :: u16 where "VERSION = 1"
definition FLAG_CONTROL :: u16 where "FLAG_CONTROL = 1"
definition HEADER_LEN :: nat where "HEADER_LEN = 24"
definition U32_MAX :: nat where "U32_MAX = 2 ^ 32 - 1"

definition saturating_add_u32 :: "nat \<Rightarrow> nat \<Rightarrow> nat" where
  "saturating_add_u32 a b = min (a + b) U32_MAX"

definition compressed_bound :: "nat \<Rightarrow> nat" where
  "compressed_bound uncompressed_bound =
     saturating_add_u32 (saturating_add_u32 uncompressed_bound (uncompressed_bound div 255)) 16"

definition MAX_SANE_COMPRESSED_LEN :: nat where
  "MAX_SANE_COMPRESSED_LEN = compressed_bound MAX_SANE_UNCOMPRESSED_LEN"

datatype compression = Compression_None | Compression_Lz4 | Compression_Zstd

fun compression_byte :: "compression \<Rightarrow> u8" where
  "compression_byte Compression_None = 0"
| "compression_byte Compression_Lz4 = 1"
| "compression_byte Compression_Zstd = 2"

definition compression_from_u8 :: "u8 \<Rightarrow> compression result" where
  "compression_from_u8 b =
     (if b = 0 then Inr Compression_None else if b = 1 then Inr Compression_Lz4
      else if b = 2 then Inr Compression_Zstd
      else Inl (Malformed ''unknown compression byte''))"

record frame_header =
  fh_version :: u16
  fh_flags :: u16
  fh_codec :: u8
  fh_compression :: compression
  fh_uncompressed_len :: u32
  fh_compressed_len :: u32
  fh_crc32c :: u32

definition header_write :: "frame_header \<Rightarrow> bytes" where
  "header_write h = MAGIC @ le_bytes 2 (fh_version h) @ le_bytes 2 (fh_flags h) @ [fh_codec h] @
     [compression_byte (fh_compression h)] @ le_bytes 2 (0 :: u16) @
     le_bytes 4 (fh_uncompressed_len h) @ le_bytes 4 (fh_compressed_len h) @
     le_bytes 4 (fh_crc32c h)"

text \<open>
  \<open>Buf::get_u16_le\<close> and friends, on a buffer \<open>FrameHeader::read\<close> has checked to be long enough.
\<close>

definition get_le :: "nat \<Rightarrow> bytes \<Rightarrow> 'a::len word \<times> bytes" where
  "get_le n bytes = (from_le_bytes (take n bytes), drop n bytes)"

definition header_read :: "bytes \<Rightarrow> (frame_header \<times> bytes) result" where
  "header_read bytes =
     bnd (reject_if (length bytes < HEADER_LEN) (Truncated (HEADER_LEN - length bytes))) (\<lambda>_.
     bnd (reject_if (take 4 bytes \<noteq> MAGIC) (Malformed ''bad magic'')) (\<lambda>_.
     let (version, bytes) = get_le 2 (drop 4 bytes) in
     bnd (reject_if (version \<noteq> VERSION) (Unsupported ''frame version'')) (\<lambda>_.
     let (flags, bytes) = get_le 2 bytes; (codec, bytes) = get_le 1 bytes;
         (c, bytes) = get_le 1 bytes in
     bnd (compression_from_u8 c) (\<lambda>compression.
     let (reserved :: u16, bytes) = get_le 2 bytes;
         (uncompressed_len, bytes) = get_le 4 bytes; (compressed_len, bytes) = get_le 4 bytes;
         (crc, bytes) = get_le 4 bytes in
     Inr (\<lparr>fh_version = version, fh_flags = flags, fh_codec = codec,
            fh_compression = compression, fh_uncompressed_len = uncompressed_len,
            fh_compressed_len = compressed_len, fh_crc32c = crc\<rparr>, bytes)))))"

section \<open>The environment\<close>

record frame_env =
  fe_crc32c :: "bytes \<Rightarrow> u32"
  fe_lz4_compress :: "bytes \<Rightarrow> bytes"
  fe_lz4_decompress :: "bytes \<Rightarrow> nat \<Rightarrow> bytes option"

text \<open>
  What \<open>lz4_flex\<close> documents: a block decompresses to what was compressed, in a buffer of its
  size, and grows by at most lz4's worst case.
\<close>

definition frame_laws :: "frame_env \<Rightarrow> bool" where
  "frame_laws E \<longleftrightarrow>
     (\<forall>p. fe_lz4_decompress E (fe_lz4_compress E p) (length p) = Some p) \<and>
     (\<forall>p. length (fe_lz4_compress E p) \<le> length p + length p div 255 + 16)"

section \<open>Writing a frame\<close>

definition write_frame_with_flags ::
    "frame_env \<Rightarrow> u8 \<Rightarrow> compression \<Rightarrow> u16 \<Rightarrow> bytes \<Rightarrow> bytes result" where
  "write_frame_with_flags E codec compression flags payload =
     bnd (reject_if (length payload > MAX_SANE_UNCOMPRESSED_LEN)
            (Malformed ''frame payload is over the uncompressed cap'')) (\<lambda>_.
     bnd (case compression of
            Compression_None \<Rightarrow> Inr payload
          | Compression_Lz4 \<Rightarrow> Inr (fe_lz4_compress E payload)
          | Compression_Zstd \<Rightarrow> Inl (Unsupported ''zstd frames are not encodable yet''))
       (\<lambda>compressed.
     let header = \<lparr>fh_version = VERSION, fh_flags = flags, fh_codec = codec,
           fh_compression = compression, fh_uncompressed_len = of_nat (length payload),
           fh_compressed_len = of_nat (length compressed), fh_crc32c = fe_crc32c E compressed\<rparr>
     in Inr (header_write header @ compressed)))"

definition write_frame :: "frame_env \<Rightarrow> u8 \<Rightarrow> compression \<Rightarrow> bytes \<Rightarrow> bytes result" where
  "write_frame E codec compression payload = write_frame_with_flags E codec compression 0 payload"

section \<open>Reading a frame\<close>

text \<open>The payload of a carved frame: the CRC check, the decompression, the length check.\<close>

definition open_frame :: "frame_env \<Rightarrow> frame_header \<Rightarrow> bytes \<Rightarrow> bytes result" where
  "open_frame E header compressed =
     bnd (reject_if (fe_crc32c E compressed \<noteq> fh_crc32c header) (Malformed ''crc32c mismatch'')) (\<lambda>_.
     bnd (case fh_compression header of
            Compression_None \<Rightarrow> Inr compressed
          | Compression_Lz4 \<Rightarrow>
              (case fe_lz4_decompress E compressed (unat (fh_uncompressed_len header)) of
                 Some p \<Rightarrow> Inr p | None \<Rightarrow> Inl (Malformed ''lz4 decompress''))
          | Compression_Zstd \<Rightarrow> Inl (Unsupported ''zstd frames are not decodable yet''))
       (\<lambda>payload.
     bnd (reject_if (length payload \<noteq> unat (fh_uncompressed_len header))
            (Malformed ''decompressed to another length than the header declared'')) (\<lambda>_.
     Inr payload)))"

definition read_frame_with_header ::
    "frame_env \<Rightarrow> bytes \<Rightarrow> ((frame_header \<times> bytes) \<times> bytes) result" where
  "read_frame_with_header E bytes =
     bnd (header_read bytes) (\<lambda>(header, bytes).
     bnd (reject_if (unat (fh_uncompressed_len header) > MAX_SANE_UNCOMPRESSED_LEN)
            (Malformed ''frame declares uncompressed bytes over the sanity cap'')) (\<lambda>_.
     bnd (reject_if (unat (fh_compressed_len header) > MAX_SANE_COMPRESSED_LEN)
            (Malformed ''frame declares compressed bytes over the sanity cap'')) (\<lambda>_.
     bnd (split_to (Truncated (unat (fh_compressed_len header) - length bytes))
            (unat (fh_compressed_len header)) bytes) (\<lambda>(compressed, bytes).
     bnd (open_frame E header compressed) (\<lambda>payload.
     Inr ((header, payload), bytes))))))"

definition read_frame :: "frame_env \<Rightarrow> bytes \<Rightarrow> ((u8 \<times> bytes) \<times> bytes) result" where
  "read_frame E bytes =
     bnd (read_frame_with_header E bytes) (\<lambda>((header, payload), bytes).
     Inr ((fh_codec header, payload), bytes))"

section \<open>The front of an lz4 block\<close>

text \<open>
  \<open>run_len\<close>'s loop over the extension bytes, from the block's position on.
\<close>

fun run_len_ext :: "nat \<Rightarrow> bytes \<Rightarrow> (nat \<times> bytes) result" where
  "run_len_ext len [] = Inl (Malformed ''lz4 block prefix: truncated run length'')"
| "run_len_ext len (byte # rest) =
     (let len = saturating_add len (unat byte)
      in if byte \<noteq> 255 then Inr (len, rest) else run_len_ext len rest)"

definition run_len :: "bytes \<Rightarrow> u8 \<Rightarrow> (nat \<times> bytes) result" where
  "run_len rest nibble =
     (if nibble = 15 then run_len_ext (unat nibble) rest else Inr (unat nibble, rest))"

text \<open>\<open>for i in 0..n { out.push(out[start + i]) }\<close>.\<close>

fun copy_match :: "nat \<Rightarrow> nat \<Rightarrow> bytes \<Rightarrow> bytes" where
  "copy_match start 0 out = out"
| "copy_match start (Suc n) out = copy_match (Suc start) n (out @ [out ! start])"

lemma length_copy_match [simp]: "length (copy_match start n out) = length out + n"
  by (induction n arbitrary: start out) auto

lemma run_len_ext_shorter: "run_len_ext len bs = Inr (n, rest) \<Longrightarrow> length rest < length bs"
  by (induction len bs rule: run_len_ext.induct) (auto simp: Let_def split: if_splits)

lemma run_len_shorter: "run_len bs k = Inr (n, rest) \<Longrightarrow> length rest \<le> length bs"
  by (auto simp: run_len_def split: if_splits dest: run_len_ext_shorter)

text \<open>
  The loop of \<open>lz4_prefix\<close>: \<open>rest\<close> is the block from the position \<open>at\<close> on. Each round takes at
  least the token off it.
\<close>

function lz4_loop :: "nat \<Rightarrow> bytes \<Rightarrow> bytes \<Rightarrow> bytes result" where
  "lz4_loop want out rest =
     (if \<not> length out < want then Inr out
      else
        bnd (next_u8 (Malformed ''lz4 block prefix: block ends before the prefix'') rest)
          (\<lambda>(token, rest1).
        bnd (run_len rest1 (drop_bit 4 token)) (\<lambda>(literals, rest2).
        bnd (split_to (Malformed ''lz4 block prefix: truncated literals'')
               (min literals (want - length out)) rest2) (\<lambda>(run, rest3).
        if length (out @ run) = want then Inr (out @ run)
        else
          bnd (split_to (Malformed ''lz4 block prefix: block ends before the prefix'') 2 rest3)
            (\<lambda>(lohi, rest4).
          bnd (reject_if (unat (from_le_bytes lohi :: u16) = 0 \<or>
                 unat (from_le_bytes lohi :: u16) > length (out @ run))
                 (Malformed ''lz4 block prefix: match offset outside the output'')) (\<lambda>_.
          bnd (run_len rest4 (token AND 0x0f)) (\<lambda>(matched, rest5).
          lz4_loop want
            (copy_match (length (out @ run) - unat (from_le_bytes lohi :: u16))
               (min (saturating_add matched 4) (want - length (out @ run))) (out @ run))
            rest5)))))))"
  by pat_completeness auto
termination
  by (relation "measure (\<lambda>(want, out, rest). length rest)")
    (auto simp: next_u8_eq_Inr split_to_eq_Inr dest!: run_len_shorter)

declare lz4_loop.simps [simp del]

definition lz4_prefix :: "bytes \<Rightarrow> nat \<Rightarrow> bytes result" where
  "lz4_prefix block want = lz4_loop want [] block"

definition read_frame_prefix ::
    "frame_env \<Rightarrow> bytes \<Rightarrow> nat \<Rightarrow> ((frame_header \<times> bytes) \<times> bytes) result" where
  "read_frame_prefix E bytes maxlen =
     bnd (header_read bytes) (\<lambda>(header, bytes).
     bnd (reject_if (unat (fh_compressed_len header) > MAX_SANE_COMPRESSED_LEN)
            (Malformed ''frame declares compressed bytes over the sanity cap'')) (\<lambda>_.
     bnd (split_to (Truncated (unat (fh_compressed_len header) - length bytes))
            (unat (fh_compressed_len header)) bytes) (\<lambda>(compressed, bytes).
     bnd (reject_if (fe_crc32c E compressed \<noteq> fh_crc32c header) (Malformed ''crc32c mismatch'')) (\<lambda>_.
     let want = min maxlen (unat (fh_uncompressed_len header)) in
     bnd (case fh_compression header of
            Compression_None \<Rightarrow>
              (if length compressed < want
               then Inl (Malformed ''frame carries fewer payload bytes than its header implies'')
               else Inr (take want compressed))
          | Compression_Lz4 \<Rightarrow> lz4_prefix compressed want
          | Compression_Zstd \<Rightarrow> Inl (Unsupported ''zstd frames are not decodable yet''))
       (\<lambda>pre. Inr ((header, pre), bytes))))))"

section \<open>Finding a frame's extent, and the next frame\<close>

definition frame_extent :: "bytes \<Rightarrow> nat" where
  "frame_extent bytes =
     (if length bytes < 20 then length bytes
      else
        (let compressed_len = unat (from_le_bytes (take 4 (drop 16 bytes)) :: u32);
             body = (if compressed_len > MAX_SANE_COMPRESSED_LEN then 0 else compressed_len)
         in min (HEADER_LEN + body) (length bytes)))"

text \<open>\<open>bytes.windows(4).position(|w| w == MAGIC)\<close>.\<close>

fun resync_from :: "nat \<Rightarrow> bytes \<Rightarrow> nat option" where
  "resync_from i bytes =
     (if length bytes < 4 then None
      else if take 4 bytes = MAGIC then Some i
      else resync_from (Suc i) (tl bytes))"

declare resync_from.simps [simp del]

definition resync :: "bytes \<Rightarrow> nat option" where
  "resync bytes = resync_from 0 bytes"

section \<open>Properties of headers and frames\<close>

lemma compression_byte_inverse [simp]: "compression_from_u8 (compression_byte c) = Inr c"
  by (cases c) (simp_all add: compression_from_u8_def)

lemma get_le_written:
  "LENGTH('a) \<le> 8 * n \<Longrightarrow> get_le n (le_bytes n (w :: 'a::len word) @ rest) = (w, rest)"
  by (simp add: get_le_def from_le_bytes_le_bytes)

lemma get_le_byte [simp]: "get_le (Suc 0) (b # rest) = (b :: u8, rest)"
  by (simp add: get_le_def)

lemma length_header_write [simp]: "length (header_write h) = HEADER_LEN"
  by (simp add: header_write_def MAGIC_def HEADER_LEN_def)

lemma header_read_written:
  "fh_version h = VERSION \<Longrightarrow> header_read (header_write h @ rest) = Inr (h, rest)"
  by (cases h) (simp add: header_read_def header_write_def get_le_written MAGIC_def HEADER_LEN_def
      VERSION_def)

lemma compressed_cap_eq: "MAX_SANE_COMPRESSED_LEN = 67372052"
  by (simp add: MAX_SANE_COMPRESSED_LEN_def compressed_bound_def saturating_add_u32_def U32_MAX_def
      MAX_SANE_UNCOMPRESSED_LEN_def)

lemma lz4_within_cap:
  assumes "frame_laws E" and "length p \<le> MAX_SANE_UNCOMPRESSED_LEN"
  shows "length (fe_lz4_compress E p) \<le> MAX_SANE_COMPRESSED_LEN"
proof -
  have "length (fe_lz4_compress E p) \<le> length p + length p div 255 + 16"
    using assms(1) by (simp add: frame_laws_def)
  also have "\<dots> \<le> MAX_SANE_COMPRESSED_LEN"
    using assms(2) div_le_mono [OF assms(2), of 255]
    by (simp add: compressed_cap_eq MAX_SANE_UNCOMPRESSED_LEN_def)
  finally show ?thesis .
qed

text \<open>The bytes a frame carries for a payload.\<close>

definition frame_body :: "frame_env \<Rightarrow> compression \<Rightarrow> bytes \<Rightarrow> bytes" where
  "frame_body E c p = (if c = Compression_Lz4 then fe_lz4_compress E p else p)"

definition frame_header_of :: "frame_env \<Rightarrow> u8 \<Rightarrow> compression \<Rightarrow> u16 \<Rightarrow> bytes \<Rightarrow> frame_header" where
  "frame_header_of E codec c flags p =
     \<lparr>fh_version = VERSION, fh_flags = flags, fh_codec = codec, fh_compression = c,
      fh_uncompressed_len = of_nat (length p), fh_compressed_len = of_nat (length (frame_body E c p)),
      fh_crc32c = fe_crc32c E (frame_body E c p)\<rparr>"

lemma write_frame_eq:
  "write_frame_with_flags E codec c flags p = Inr f \<longleftrightarrow>
     length p \<le> MAX_SANE_UNCOMPRESSED_LEN \<and> c \<noteq> Compression_Zstd \<and>
     f = header_write (frame_header_of E codec c flags p) @ frame_body E c p"
  by (cases c) (auto simp: write_frame_with_flags_def frame_header_of_def frame_body_def Let_def)

lemma frame_body_within_cap:
  assumes "frame_laws E" and "length p \<le> MAX_SANE_UNCOMPRESSED_LEN"
  shows "length (frame_body E c p) \<le> MAX_SANE_COMPRESSED_LEN"
  using lz4_within_cap [OF assms] assms(2)
  by (simp add: frame_body_def compressed_cap_eq MAX_SANE_UNCOMPRESSED_LEN_def)

lemma unat_of_nat_u32: "n < 2 ^ 32 \<Longrightarrow> unat (of_nat n :: u32) = n"
  by (simp add: unat_of_nat take_bit_nat_eq_self)

lemma read_frame_written:
  assumes "frame_laws E" and "write_frame_with_flags E codec c flags p = Inr f"
  shows "read_frame_with_header E (f @ rest) = Inr ((frame_header_of E codec c flags p, p), rest)"
proof -
  from assms(2) have p: "length p \<le> MAX_SANE_UNCOMPRESSED_LEN" "c \<noteq> Compression_Zstd"
    and f: "f = header_write (frame_header_of E codec c flags p) @ frame_body E c p"
    by (auto simp: write_frame_eq)
  have lens: "unat (of_nat (length p) :: u32) = length p"
    "unat (of_nat (length (frame_body E c p)) :: u32) = length (frame_body E c p)"
    using p(1) frame_body_within_cap [OF assms(1) p(1), of c]
    by (simp_all add: unat_of_nat_u32 compressed_cap_eq MAX_SANE_UNCOMPRESSED_LEN_def)
  have "fh_version (frame_header_of E codec c flags p) = VERSION"
    by (simp add: frame_header_of_def)
  note rd = header_read_written [OF this]
  have lz4: "fe_lz4_decompress E (fe_lz4_compress E p) (length p) = Some p"
    using assms(1) by (simp add: frame_laws_def)
  from p(1) frame_body_within_cap [OF assms(1) p(1), of c] show ?thesis
    unfolding read_frame_with_header_def f append_assoc rd
    using p(2) lens by (cases c) (simp_all add: frame_header_of_def frame_body_def lz4 open_frame_def)
qed

text \<open>The slice \<open>frame_extent\<close> measures is all \<open>read_frame_with_header\<close> looks at.\<close>

lemma header_read_take:
  assumes "HEADER_LEN \<le> n"
  shows "header_read (take n bs) =
    bnd (header_read bs) (\<lambda>(h, rest). Inr (h, take (n - HEADER_LEN) rest))"
proof (cases "length bs < HEADER_LEN")
  case True
  with assms show ?thesis by (simp add: header_read_def)
next
  case False
  then obtain hd rest where bs: "bs = hd @ rest" "length hd = HEADER_LEN"
    by (metis append_take_drop_id length_take min.absorb2 not_less)
  have "take n bs = hd @ take (n - HEADER_LEN) rest" using assms bs by simp
  with bs show ?thesis
    by (auto simp: header_read_def HEADER_LEN_def get_le_def bnd_def reject_if_def
        split: sum.splits)
qed

lemma header_read_fields:
  assumes "header_read bs = Inr (h, rest)"
  shows "length bs = HEADER_LEN + length rest" and "rest = drop HEADER_LEN bs"
    and "fh_compressed_len h = from_le_bytes (take 4 (drop 16 bs))"
  using assms by (auto simp: header_read_def HEADER_LEN_def get_le_def Let_def drop_take)

lemma frame_extent_header:
  assumes "header_read bs = Inr (h, rest)"
  shows "frame_extent bs = min (HEADER_LEN +
    (if unat (fh_compressed_len h) > MAX_SANE_COMPRESSED_LEN then 0 else unat (fh_compressed_len h)))
    (length bs)"
  using header_read_fields [OF assms]
  by (simp add: frame_extent_def Let_def HEADER_LEN_def)

lemma read_frame_extent:
  "map_sum id fst (read_frame_with_header E (take (frame_extent bs) bs))
     = map_sum id fst (read_frame_with_header E bs)"
proof (cases "header_read bs")
  case (Inl e)
  show ?thesis
  proof (cases "length bs < HEADER_LEN")
    case True
    then have "frame_extent bs = length bs"
      by (auto simp: frame_extent_def HEADER_LEN_def Let_def)
    then show ?thesis by simp
  next
    case False
    then have "HEADER_LEN \<le> frame_extent bs"
      by (simp add: frame_extent_def HEADER_LEN_def Let_def)
    from header_read_take [OF this, of bs] Inl show ?thesis
      by (simp add: read_frame_with_header_def)
  qed
next
  case (Inr x)
  then obtain h rest where h: "header_read bs = Inr (h, rest)" by (cases x) auto
  note ext = frame_extent_header [OF h] header_read_fields(1) [OF h]
  define n where "n = frame_extent bs - HEADER_LEN"
  let ?c = "unat (fh_compressed_len h)"
  have n: "n = min (if ?c > MAX_SANE_COMPRESSED_LEN then 0 else ?c) (length rest)"
    using ext by (simp add: n_def)
  have "header_read (take (frame_extent bs) bs) = Inr (h, take n rest)"
    using header_read_take [of "frame_extent bs" bs] ext h by (simp add: n_def)
  note slice = this
  consider "?c > MAX_SANE_COMPRESSED_LEN" | "?c \<le> MAX_SANE_COMPRESSED_LEN" "length rest < ?c"
    | "?c \<le> MAX_SANE_COMPRESSED_LEN" "?c \<le> length rest" by linarith
  then show ?thesis
  proof cases
    case 1
    then show ?thesis by (simp add: read_frame_with_header_def h slice reject_if_def)
  next
    case 2
    then have "take n rest = rest" by (simp add: n)
    then show ?thesis by (simp add: read_frame_with_header_def h slice)
  next
    case 3
    then have "n = ?c" by (simp add: n)
    with 3(2) show ?thesis
      by (cases "open_frame E h (take ?c rest)")
        (simp_all add: read_frame_with_header_def h slice split_to_def reject_if_def)
  qed
qed

section \<open>Reading the front of an lz4 block\<close>

lemma copy_match_add: "copy_match start (n + k) out = copy_match (start + n) k (copy_match start n out)"
  by (induction n arbitrary: start out) auto

lemma copy_match_extends: "prefix out (copy_match start n out)"
proof (induction n arbitrary: start out)
  case (Suc n)
  have "prefix out (out @ [out ! start])" by simp
  also have "prefix \<dots> (copy_match start (Suc n) out)" using Suc by simp
  finally show ?case .
qed simp

lemma copy_match_prefix: "n \<le> m \<Longrightarrow> prefix (copy_match start n out) (copy_match start m out)"
  by (metis copy_match_add copy_match_extends le_add_diff_inverse)

lemma lz4_loop_done: "length out = want \<Longrightarrow> lz4_loop want out rest = Inr out"
  by (subst lz4_loop.simps) simp

text \<open>One round of the loop that does not end it.\<close>

lemma lz4_loop_step:
  assumes "lz4_loop want out rest = Inr res" and "length out < want"
  obtains token rest1 literals rest2 where "rest = token # rest1"
    and "run_len rest1 (drop_bit 4 token) = Inr (literals, rest2)"
    and "want - length out \<le> literals" and "want - length out \<le> length rest2"
    and "res = out @ take (want - length out) rest2"
  | token rest1 literals rest2 lohi rest4 matched rest5 where "rest = token # rest1"
    and "run_len rest1 (drop_bit 4 token) = Inr (literals, rest2)"
    and "literals < want - length out" and "literals \<le> length rest2"
    and "split_to (Malformed ''lz4 block prefix: block ends before the prefix'') 2
           (drop literals rest2) = Inr (lohi, rest4)"
    and "unat (from_le_bytes lohi :: u16) \<noteq> 0"
    and "unat (from_le_bytes lohi :: u16) \<le> length out + literals"
    and "run_len rest4 (token AND 0x0f) = Inr (matched, rest5)"
    and "lz4_loop want (copy_match (length out + literals - unat (from_le_bytes lohi :: u16))
           (min (saturating_add matched 4) (want - (length out + literals)))
           (out @ take literals rest2)) rest5 = Inr res"
proof -
  from assms obtain token rest1 literals rest2 where
    a: "rest = token # rest1" "run_len rest1 (drop_bit 4 token) = Inr (literals, rest2)"
      "min literals (want - length out) \<le> length rest2"
    by (subst (asm) lz4_loop.simps) (auto simp: next_u8_eq_Inr split_to_def split: if_splits)
  show thesis
  proof (cases "want - length out \<le> literals")
    case True
    with assms a show thesis
      by (intro that(1) [OF a(1,2)]) (subst (asm) lz4_loop.simps, simp add: split_to_def)+
  next
    case False
    have lits: "split_to e (min literals (want - length out)) rest2
        = Inr (take literals rest2, drop literals rest2)" for e :: codec_error
      using False a(3) by (simp add: split_to_def)
    have len: "length (out @ take literals rest2) = length out + literals"
      "length out + literals \<noteq> want" using False a(3) by auto
    from assms a have
      "bnd (split_to (Malformed ''lz4 block prefix: block ends before the prefix'') 2
            (drop literals rest2)) (\<lambda>(lohi, rest4).
       bnd (reject_if (unat (from_le_bytes lohi :: u16) = 0 \<or>
              length out + literals < unat (from_le_bytes lohi :: u16))
              (Malformed ''lz4 block prefix: match offset outside the output'')) (\<lambda>_.
       bnd (run_len rest4 (token AND 0x0f)) (\<lambda>(matched, rest5).
       lz4_loop want (copy_match (length out + literals - unat (from_le_bytes lohi :: u16))
           (min (saturating_add matched 4) (want - (length out + literals)))
           (out @ take literals rest2)) rest5))) = Inr res"
      by (subst (asm) lz4_loop.simps) (simp only: len lits a bnd_simps next_u8_simps prod.case
          if_False if_True not_True_eq_False simp_thms)
    with False a(3) show thesis
      by (elim bnd_InrE) (auto intro!: that(2) [OF a(1,2)] simp: not_le)
  qed
qed

lemma lz4_loop_extends: "lz4_loop want out rest = Inr res \<Longrightarrow> prefix out res"
proof (induction "length rest" arbitrary: out rest rule: less_induct)
  case less
  show ?case
  proof (cases "length out < want")
    case False
    with less.prems show ?thesis by (subst (asm) lz4_loop.simps) simp
  next
    case True
    from less.prems True show ?thesis
    proof (cases rule: lz4_loop_step)
      case (2 token rest1 literals rest2 lohi rest4 matched rest5)
      have "length rest5 < length rest"
        using 2(1,2,5,8) by (auto simp: split_to_eq_Inr dest!: run_len_shorter
            dest: arg_cong [where f = length])
      from less.hyps [OF this 2(9)] copy_match_extends show ?thesis
        by (metis append_prefixD prefix_order.trans)
    qed simp
  qed
qed

lemma lz4_loop_length:
  "lz4_loop want out rest = Inr res \<Longrightarrow> length out \<le> want \<Longrightarrow> length res = want"
proof (induction "length rest" arbitrary: out rest rule: less_induct)
  case less
  show ?case
  proof (cases "length out < want")
    case False
    with less.prems show ?thesis by (subst (asm) lz4_loop.simps) simp
  next
    case True
    from less.prems(1) True show ?thesis
    proof (cases rule: lz4_loop_step)
      case (2 token rest1 literals rest2 lohi rest4 matched rest5)
      have "length rest5 < length rest"
        using 2(1,2,5,8) by (auto simp: split_to_eq_Inr dest!: run_len_shorter
            dest: arg_cong [where f = length])
      from less.hyps [OF this 2(9)] 2(3,4) show ?thesis by simp
    qed (use True in simp)
  qed
qed

text \<open>A round run the other way: what makes the loop go on.\<close>

lemma lz4_loop_continue:
  assumes "length out < want" and "rest = token # rest1"
    and "run_len rest1 (drop_bit 4 token) = Inr (literals, rest2)"
    and "literals < want - length out" and "literals \<le> length rest2"
    and "split_to (Malformed ''lz4 block prefix: block ends before the prefix'') 2
           (drop literals rest2) = Inr (lohi, rest4)"
    and "unat (from_le_bytes lohi :: u16) \<noteq> 0"
    and "unat (from_le_bytes lohi :: u16) \<le> length out + literals"
    and "run_len rest4 (token AND 0x0f) = Inr (matched, rest5)"
  shows "lz4_loop want out rest =
    lz4_loop want (copy_match (length out + literals - unat (from_le_bytes lohi :: u16))
      (min (saturating_add matched 4) (want - (length out + literals)))
      (out @ take literals rest2)) rest5"
proof -
  have lits: "split_to e (min literals (want - length out)) rest2
      = Inr (take literals rest2, drop literals rest2)" for e :: codec_error
    using assms(4,5) by (simp add: split_to_def)
  have len: "length (out @ take literals rest2) = length out + literals"
    "length out + literals \<noteq> want" using assms(4,5) by auto
  show ?thesis
    using assms(1,7,8)
    by (subst lz4_loop.simps) (simp add: assms(2,3,6,9) lits len del: length_append)
qed

lemma lz4_loop_stop:
  assumes "length out < want" and "rest = token # rest1"
    and "run_len rest1 (drop_bit 4 token) = Inr (literals, rest2)"
    and "want - length out \<le> literals" and "want - length out \<le> length rest2"
  shows "lz4_loop want out rest = Inr (out @ take (want - length out) rest2)"
  using assms by (subst lz4_loop.simps) (simp add: split_to_def)

text \<open>
  Asking for fewer bytes of a block gives the front of what asking for more gives: where the
  loop stops changes nothing of what it has decoded.
\<close>

lemma lz4_loop_prefix:
  assumes "lz4_loop m out rest = Inr res" and "length out \<le> n" and "n \<le> m"
  shows "lz4_loop n out rest = Inr (take n res)"
  using assms
proof (induction "length rest" arbitrary: out rest rule: less_induct)
  case less
  note ext = lz4_loop_extends [OF less.prems(1)]
  show ?case
  proof (cases "length out = n")
    case True
    with ext show ?thesis by (auto simp: lz4_loop_done prefix_def)
  next
    case False
    then have n: "length out < n" using less.prems(2) by simp
    then have m: "length out < m" using less.prems(3) by simp
    from less.prems(1) m show ?thesis
    proof (cases rule: lz4_loop_step)
      case (1 token rest1 literals rest2)
      have "lz4_loop n out rest = Inr (out @ take (n - length out) rest2)"
        using 1 n less.prems(3) by (intro lz4_loop_stop) auto
      with 1 n less.prems(3) show ?thesis by (simp add: min_absorb1)
    next
      case (2 token rest1 literals rest2 lohi rest4 matched rest5)
      let ?out = "out @ take literals rest2"
      let ?start = "length out + literals - unat (from_le_bytes lohi :: u16)"
      let ?copy = "\<lambda>w. copy_match ?start (min (saturating_add matched 4) (w - (length out + literals))) ?out"
      have len: "length ?out = length out + literals" using 2(4) by simp
      have shorter: "length rest5 < length rest"
        using 2(1,2,5,8) by (auto simp: split_to_eq_Inr dest!: run_len_shorter
            dest: arg_cong [where f = length])
      note after = lz4_loop_extends [OF 2(9)]
      show ?thesis
      proof (cases "n - length out \<le> literals")
        case True
        have "lz4_loop n out rest = Inr (out @ take (n - length out) rest2)"
          using 2 n True by (intro lz4_loop_stop) auto
        moreover have "prefix ?out res"
          using copy_match_extends after by (rule prefix_order.trans)
        then obtain zs where "res = ?out @ zs" by (auto simp: prefix_def)
        then have "take n res = out @ take (n - length out) rest2"
          using True n len by (simp add: min_absorb1)
        ultimately show ?thesis by simp
      next
        case cont: False
        have step: "lz4_loop n out rest = lz4_loop n (?copy n) rest5"
          using 2 n cont by (intro lz4_loop_continue) auto
        show ?thesis
        proof (cases "saturating_add matched 4 \<le> n - (length out + literals)")
          case True
          then have "?copy n = ?copy m" using less.prems(3) by simp
          moreover have "length (?copy m) \<le> n"
            using True len cont less.prems(3) by simp
          ultimately show ?thesis
            unfolding step using less.hyps [OF shorter 2(9)] less.prems(3) by simp
        next
          case False
          then have "length (?copy n) = n" using len cont by (simp add: min_def)
          moreover have "prefix (?copy n) (?copy m)"
            using less.prems(3) by (intro copy_match_prefix min.mono diff_le_mono) simp_all
          then have "prefix (?copy n) res" using after by (rule prefix_order.trans)
          then obtain zs where "res = ?copy n @ zs" by (auto simp: prefix_def)
          ultimately show ?thesis
            unfolding step by (metis append_eq_conv_conj lz4_loop_done)
        qed
      qed
    qed
  qed
qed

section \<open>The next frame\<close>

lemma resync_from_spec:
  "resync_from i bs = r \<Longrightarrow>
     (case r of
        Some k \<Rightarrow> i \<le> k \<and> take 4 (drop (k - i) bs) = MAGIC \<and>
          (\<forall>j < k - i. take 4 (drop j bs) \<noteq> MAGIC)
      | None \<Rightarrow> \<forall>j. take 4 (drop j bs) \<noteq> MAGIC)"
proof (induction i bs arbitrary: r rule: resync_from.induct)
  case (1 i bs)
  have short: "take 4 (drop j bs) \<noteq> MAGIC" if "length bs < 4" for j
  proof -
    have "length (take 4 (drop j bs)) < length MAGIC" using that by (simp add: MAGIC_def)
    then show ?thesis by (metis nat_neq_iff)
  qed
  consider "length bs < 4" | "\<not> length bs < 4" "take 4 bs = MAGIC"
    | b bs' where "\<not> length bs < 4" "take 4 bs \<noteq> MAGIC" "bs = b # bs'"
    by (cases bs) auto
  then show ?case
  proof cases
    case 1
    with "1.prems" short show ?thesis by (auto simp: resync_from.simps [of i])
  next
    case 2
    with "1.prems" show ?thesis by (auto simp: resync_from.simps [of i])
  next
    case 3
    with "1.prems" have r: "resync_from (Suc i) bs' = r"
      by (simp add: resync_from.simps [of i])
    have step: "take 4 (drop j bs) = MAGIC \<longleftrightarrow> j \<noteq> 0 \<and> take 4 (drop (j - 1) bs') = MAGIC" for j
      using 3 by (cases j) auto
    have "tl bs = bs'" using 3(3) by simp
    with "1.IH" [OF 3(1,2)] r have IH: "case r of
        Some k \<Rightarrow> Suc i \<le> k \<and> take 4 (drop (k - Suc i) bs') = MAGIC \<and>
          (\<forall>j < k - Suc i. take 4 (drop j bs') \<noteq> MAGIC)
      | None \<Rightarrow> \<forall>j. take 4 (drop j bs') \<noteq> MAGIC" by (simp only:)
    show ?thesis
    proof (cases r)
      case None
      with IH show ?thesis by (simp add: step)
    next
      case (Some k)
      with IH have k: "Suc i \<le> k" "take 4 (drop (k - Suc i) bs') = MAGIC"
        "\<And>j. j < k - Suc i \<Longrightarrow> take 4 (drop j bs') \<noteq> MAGIC" by auto
      have "take 4 (drop j bs) \<noteq> MAGIC" if "j < k - i" for j
        using k(3) [of "j - 1"] that 3(2) by (cases j) (auto simp: step less_diff_conv)
      with k(1,2) Some show ?thesis by (auto simp: step)
    qed
  qed
qed

section \<open>A file of frames\<close>

text \<open>Frames read one after the other off a concatenation of frames.\<close>

lemma read_frames_written:
  assumes "frame_laws E" and "list_all2 (\<lambda>p f. write_frame E codec c p = Inr f) ps fs"
  shows "repeat_read (length ps) (read_frame E) (concat fs @ rest) = Inr (map (Pair codec) ps, rest)"
  using assms(2)
proof (induction rule: list_all2_induct)
  case (Cons p ps f fs)
  from read_frame_written [OF assms(1) Cons.hyps(1) [unfolded write_frame_def], of "concat fs @ rest"]
  have "read_frame E (f @ concat fs @ rest) = Inr ((codec, p), concat fs @ rest)"
    by (simp add: read_frame_def frame_header_of_def)
  with Cons.IH show ?case by simp
qed simp

section \<open>What a reader accepts, and what it waits for\<close>

lemma header_read_accepts:
  assumes "header_read bs = Inr (h, rest)"
  shows "take 4 bs = MAGIC \<and> fh_version h = VERSION"
  using assms by (auto simp: header_read_def Let_def get_le_def)

lemma frame_cut_short:
  assumes "frame_laws E" and f: "write_frame_with_flags E codec c flags p = Inr f"
    and "n < length f"
  shows "read_frame_with_header E (take n f) =
    Inl (Truncated ((if n < HEADER_LEN then HEADER_LEN else length f) - n))"
proof (cases "n < HEADER_LEN")
  case True
  with assms(3) show ?thesis by (simp add: read_frame_with_header_def header_read_def)
next
  case False
  let ?h = "frame_header_of E codec c flags p" and ?body = "frame_body E c p"
  from f have p: "length p \<le> MAX_SANE_UNCOMPRESSED_LEN" and eq: "f = header_write ?h @ ?body"
    by (auto simp: write_frame_eq)
  have rd: "header_read (take n f) = Inr (?h, take (n - HEADER_LEN) ?body)"
    using header_read_take [of n f] False header_read_written [of ?h ?body]
    by (simp add: eq frame_header_of_def)
  have lens: "unat (fh_uncompressed_len ?h) = length p" "unat (fh_compressed_len ?h) = length ?body"
    using p frame_body_within_cap [OF assms(1) p, of c]
    by (simp_all add: frame_header_of_def unat_of_nat_u32 compressed_cap_eq
        MAX_SANE_UNCOMPRESSED_LEN_def)
  from False assms(3) show ?thesis
    using p frame_body_within_cap [OF assms(1) p, of c]
    unfolding read_frame_with_header_def rd by (auto simp: lens split_to_def eq)
qed

text \<open>A concrete environment: blocks stored as they are, and a byte sum for a CRC.\<close>

definition stored_env :: frame_env where
  "stored_env = \<lparr>fe_crc32c = (\<lambda>bs. of_nat (sum_list (map unat bs))), fe_lz4_compress = id,
     fe_lz4_decompress = (\<lambda>bs n. if length bs = n then Some bs else None)\<rparr>"

lemma stored_env_laws: "frame_laws stored_env"
  by (simp add: frame_laws_def stored_env_def)

definition stored_frame :: bytes where
  "stored_frame = header_write (frame_header_of stored_env 1 Compression_Lz4 0 [5, 6, 7]) @ [5, 6, 7]"

lemma stored_frame_written: "write_frame_with_flags stored_env 1 Compression_Lz4 0 [5, 6, 7] = Inr stored_frame"
  unfolding write_frame_eq
  by (simp add: stored_frame_def frame_body_def stored_env_def MAX_SANE_UNCOMPRESSED_LEN_def)

text \<open>
  Frames written one after the other read back one after the other: every payload with its
  codec byte, and the reader left exactly behind the last frame.
\<close>

theorem frames_read_back:
  assumes "frame_laws E" and "list_all2 (\<lambda>p f. write_frame E codec c p = Inr f) ps fs"
  shows "repeat_read (length ps) (read_frame E) (concat fs @ rest) = Inr (map (Pair codec) ps, rest)"
  using assms by (rule read_frames_written)

theorem frames_read_back_witness:
  "repeat_read (length [[5, 6, 7 :: u8], [5, 6, 7]]) (read_frame stored_env)
     (concat [stored_frame, stored_frame] @ [9]) = Inr (map (Pair 1) [[5, 6, 7], [5, 6, 7]], [9])"
  by (rule frames_read_back [where c = Compression_Lz4, OF stored_env_laws])
    (simp add: write_frame_def stored_frame_written)

text \<open>
  A frame cut short is reported as truncated, with the number of bytes still missing: those
  of the header while the header is not complete, those of the frame afterwards. A reader that
  waits for that many more bytes never waits too long.
\<close>

theorem truncated_frame_waits_exactly:
  assumes "frame_laws E" and f: "write_frame_with_flags E codec c flags p = Inr f"
    and "n < length f"
  shows "read_frame_with_header E (take n f) =
    Inl (Truncated ((if n < HEADER_LEN then HEADER_LEN else length f) - n))"
  using assms by (rule frame_cut_short)

theorem truncated_frame_waits_exactly_witness:
  "read_frame_with_header stored_env (take 25 stored_frame) =
     Inl (Truncated ((if 25 < HEADER_LEN then HEADER_LEN else length stored_frame) - 25))"
  by (rule truncated_frame_waits_exactly [OF stored_env_laws stored_frame_written])
    (simp add: stored_frame_def HEADER_LEN_def)

text \<open>
  Nothing but an intact frame is accepted: it starts with the magic and carries this version,
  its body is as long as the header says and has the header's CRC, and the payload has the
  declared length, within the sanity cap.
\<close>

theorem accepted_frame_intact:
  assumes "read_frame_with_header E bs = Inr ((h, payload), rest)"
  shows "take 4 bs = MAGIC \<and> fh_version h = VERSION \<and>
    (\<exists>body. bs = take HEADER_LEN bs @ body @ rest \<and> length body = unat (fh_compressed_len h) \<and>
       fe_crc32c E body = fh_crc32c h) \<and>
    length payload = unat (fh_uncompressed_len h) \<and> length payload \<le> MAX_SANE_UNCOMPRESSED_LEN"
proof -
  from assms obtain rest1 body where h: "header_read bs = Inr (h, rest1)"
    and small: "unat (fh_uncompressed_len h) \<le> MAX_SANE_UNCOMPRESSED_LEN"
    and body: "rest1 = body @ rest" "length body = unat (fh_compressed_len h)"
    and op: "open_frame E h body = Inr payload"
    by (auto simp: read_frame_with_header_def split_to_eq_Inr not_less)
  have "bs = take HEADER_LEN bs @ body @ rest"
    using header_read_fields(2) [OF h] body(1) by (metis append_take_drop_id)
  moreover have "fe_crc32c E body = fh_crc32c h" "length payload = unat (fh_uncompressed_len h)"
    using op by (auto simp: open_frame_def)
  ultimately show ?thesis using header_read_accepts [OF h] small body(2) by auto
qed

lemma stored_frame_read:
  "read_frame_with_header stored_env (stored_frame @ [9]) =
     Inr ((frame_header_of stored_env 1 Compression_Lz4 0 [5, 6, 7], [5, 6, 7]), [9])"
  by (rule read_frame_written [OF stored_env_laws stored_frame_written])

theorem accepted_frame_intact_witness:
  "let h = frame_header_of stored_env 1 Compression_Lz4 0 [5, 6, 7]; bs = stored_frame @ [9] in
   take 4 bs = MAGIC \<and> fh_version h = VERSION \<and>
    (\<exists>body. bs = take HEADER_LEN bs @ body @ [9] \<and> length body = unat (fh_compressed_len h) \<and>
       fe_crc32c stored_env body = fh_crc32c h) \<and>
    length [5, 6, 7 :: u8] = unat (fh_uncompressed_len h) \<and>
    length [5, 6, 7 :: u8] \<le> MAX_SANE_UNCOMPRESSED_LEN"
  unfolding Let_def by (rule accepted_frame_intact [OF stored_frame_read])

text \<open>
  Reading the slice \<open>frame_extent\<close> measures gives what reading the whole buffer gives, success
  or error, so a caller may hand over the slice alone.
\<close>

theorem extent_is_enough:
  "map_sum id fst (read_frame_with_header E (take (frame_extent bs) bs))
     = map_sum id fst (read_frame_with_header E bs)"
  by (rule read_frame_extent)

text \<open>
  The front of an lz4 block: asked for \<open>m\<close> bytes the decoder gives exactly \<open>m\<close>, and asked
  for fewer it gives the front of them.
\<close>

theorem lz4_prefix_front:
  assumes "lz4_prefix block m = Inr out" and "n \<le> m"
  shows "length out = m \<and> lz4_prefix block n = Inr (take n out)"
  using assms lz4_loop_length [of m "[]" block out] lz4_loop_prefix [of m "[]" block out n]
  by (simp add: lz4_prefix_def)

text \<open>A block of two literals and a match of ten bytes at offset one.\<close>

lemma lz4_sample: "lz4_prefix [0x26, 1, 2, 1, 0] 6 = Inr [1, 2, 2, 2, 2, 2]"
  unfolding lz4_prefix_def
  by (subst lz4_loop.simps)
    (simp add: run_len_def split_to_def saturating_add_def USIZE_MAX_def lz4_loop_done,
     simp add: numeral_eq_Suc)

theorem lz4_prefix_front_witness:
  "length [1, 2, 2, 2, 2, 2 :: u8] = 6 \<and>
   lz4_prefix [0x26, 1, 2, 1, 0] 4 = Inr (take 4 [1, 2, 2, 2, 2, 2])"
  by (rule lz4_prefix_front [OF lz4_sample]) simp

text \<open>
  Resynchronising finds the first place a frame can start: the magic is there and at no
  earlier position, and when it finds none there is none.
\<close>

theorem resync_finds_first:
  "case resync bs of
     Some k \<Rightarrow> take 4 (drop k bs) = MAGIC \<and> (\<forall>j < k. take 4 (drop j bs) \<noteq> MAGIC)
   | None \<Rightarrow> \<forall>j. take 4 (drop j bs) \<noteq> MAGIC"
  using resync_from_spec [of 0 bs "resync bs"] by (auto simp: resync_def split: option.splits)

lemma resync_sample: "resync (7 # MAGIC) = Some 1"
  by code_simp

theorem resync_finds_first_witness:
  "take 4 (drop 1 (7 # MAGIC)) = MAGIC \<and> take 4 (drop 0 (7 # MAGIC)) \<noteq> MAGIC"
  using resync_finds_first [of "7 # MAGIC"] by (simp add: resync_sample)

end
