(* ===== verification/Float64.thy ===== *)
theory Float64
  imports Event_Model
begin

text \<open>
  IEEE 754 doubles as the 64-bit words Rust's \<open>to_bits\<close> gives: classification, comparison,
  \<open>min\<close> and \<open>max\<close> are exact here, read off the bits. Arithmetic and the functions of the C math
  library round, and are operations of an environment \<open>float_ops\<close>; what a proof needs of them is
  stated where it is used.
\<close>

definition F64_ONE :: f64 where "F64_ONE = 0x3ff0000000000000"
definition F64_TWO :: f64 where "F64_TWO = 0x4000000000000000"
definition F64_INFINITY :: f64 where "F64_INFINITY = 0x7ff0000000000000"
definition F64_NEG_INFINITY :: f64 where "F64_NEG_INFINITY = 0xfff0000000000000"
definition F64_MAX :: f64 where "F64_MAX = 0x7fefffffffffffff"

definition f64_abs :: "f64 \<Rightarrow> f64" where
  "f64_abs x = x AND 0x7fffffffffffffff"

definition f64_neg :: "f64 \<Rightarrow> f64" where
  "f64_neg x = x XOR 0x8000000000000000"

definition is_finite :: "f64 \<Rightarrow> bool" where
  "is_finite x \<longleftrightarrow> f64_abs x < F64_INFINITY"

definition is_nan :: "f64 \<Rightarrow> bool" where
  "is_nan x \<longleftrightarrow> F64_INFINITY < f64_abs x"

text \<open>
  The order of the numbers two non-\<open>NaN\<close> words denote: the magnitude bits compare as an integer,
  and the two zeros are equal.
\<close>

definition f64_rank :: "f64 \<Rightarrow> int" where
  "f64_rank x = (if bit x 63 then - uint (f64_abs x) else uint (f64_abs x))"

definition f64_lt :: "f64 \<Rightarrow> f64 \<Rightarrow> bool" where
  "f64_lt a b \<longleftrightarrow> \<not> is_nan a \<and> \<not> is_nan b \<and> f64_rank a < f64_rank b"

definition f64_le :: "f64 \<Rightarrow> f64 \<Rightarrow> bool" where
  "f64_le a b \<longleftrightarrow> \<not> is_nan a \<and> \<not> is_nan b \<and> f64_rank a \<le> f64_rank b"

definition f64_eq :: "f64 \<Rightarrow> f64 \<Rightarrow> bool" where
  "f64_eq a b \<longleftrightarrow> \<not> is_nan a \<and> \<not> is_nan b \<and> f64_rank a = f64_rank b"

text \<open>\<open>f64::min\<close> and \<open>f64::max\<close>: a \<open>NaN\<close> argument gives the other one.\<close>

definition f64_min :: "f64 \<Rightarrow> f64 \<Rightarrow> f64" where
  "f64_min a b = (if is_nan a then b else if is_nan b then a else if f64_lt b a then b else a)"

definition f64_max :: "f64 \<Rightarrow> f64 \<Rightarrow> f64" where
  "f64_max a b = (if is_nan a then b else if is_nan b then a else if f64_lt a b then b else a)"

text \<open>Arithmetic, the math library, and the conversions \<open>as\<close>.\<close>

record float_ops = f64_ops +
  fl_sub :: "f64 \<Rightarrow> f64 \<Rightarrow> f64"
  fl_mul :: "f64 \<Rightarrow> f64 \<Rightarrow> f64"
  fl_div :: "f64 \<Rightarrow> f64 \<Rightarrow> f64"
  fl_ln :: "f64 \<Rightarrow> f64"
  fl_ln_1p :: "f64 \<Rightarrow> f64"
  fl_exp :: "f64 \<Rightarrow> f64"
  fl_powf :: "f64 \<Rightarrow> f64 \<Rightarrow> f64"
  fl_floor :: "f64 \<Rightarrow> f64"
  fl_round :: "f64 \<Rightarrow> f64"
  fl_round_ties_even :: "f64 \<Rightarrow> f64"
  fl_of_i32 :: "i32 \<Rightarrow> f64"
  fl_to_i32 :: "f64 \<Rightarrow> i32"
  fl_to_u64 :: "f64 \<Rightarrow> u64"

section \<open>Order\<close>

definition positive_finite :: "f64 \<Rightarrow> bool" where
  "positive_finite x \<longleftrightarrow> is_finite x \<and> f64_lt 0 x"

lemma f64_constants [simp]:
  "\<not> is_nan 0" "is_finite 0" "f64_rank 0 = 0" "\<not> is_nan F64_MAX" "is_finite F64_MAX"
  by (simp_all add: is_nan_def is_finite_def f64_abs_def f64_rank_def F64_INFINITY_def F64_MAX_def)

lemma finite_not_nan: "is_finite x \<Longrightarrow> \<not> is_nan x"
  by (simp add: is_finite_def is_nan_def)

lemma rank_max: "f64_rank F64_MAX = 0x7fefffffffffffff"
  by (simp add: f64_rank_def F64_MAX_def f64_abs_def bit_numeral_rec)

lemma rank_lt_max:
  assumes "\<not> is_nan x" and "\<not> f64_lt F64_MAX x" and "f64_lt 0 x"
  shows "is_finite x"
proof -
  have "0 < f64_rank x" and "f64_rank x \<le> 0x7fefffffffffffff"
    using assms by (simp_all add: f64_lt_def rank_max)
  then have "uint (f64_abs x) < 0x7ff0000000000000"
    using uint_nonnegative [of "f64_abs x"] unfolding f64_rank_def
    by (cases "bit x 63") simp_all
  then show ?thesis by (simp add: is_finite_def F64_INFINITY_def word_less_def)
qed

lemma f64_le_refl: "\<not> is_nan x \<Longrightarrow> f64_le x x"
  by (simp add: f64_le_def)

text \<open>Clamping by \<open>max\<close> then \<open>min\<close>, whatever is clamped, \<open>NaN\<close> included.\<close>

lemma clamp_between:
  assumes "f64_le lo hi"
  shows "f64_le lo (f64_min (f64_max x lo) hi) \<and> f64_le (f64_min (f64_max x lo) hi) hi"
  using assms by (auto simp: f64_min_def f64_max_def f64_le_def f64_lt_def)

end
