(* ===== verification/Sketch.thy ===== *)
theory Sketch
  imports Float64 Varint
begin

text \<open>
  \<open>crates/logit-core/src/sketch.rs\<close>: \<open>DdSketch\<close>, its two bin mappings, its stores (sorted bins
  collapsed from the lowest key), merging, quantiles and the byte form the native format carries
  for a distribution. Every function takes the floating-point environment \<open>fl\<close>.
\<close>

section \<open>Mappings\<close>

datatype mapping_kind = MK_Agent | MK_Logarithmic

record mapping =
  mp_kind :: mapping_kind
  mp_gamma :: f64
  mp_gamma_ln :: f64
  mp_offset :: f64
  mp_bin_limit :: u32

text \<open>\<open>1.015625\<close>, \<open>1e-9\<close>, \<open>1.0 / 64.0\<close> and \<open>32766.0\<close> as bits.\<close>

definition AGENT_GAMMA :: f64 where "AGENT_GAMMA = 0x3ff0400000000000"
definition AGENT_MIN :: f64 where "AGENT_MIN = 0x3e112e0be826d695"
definition AGENT_EPS :: f64 where "AGENT_EPS = 0x3f90000000000000"
definition AGENT_BIN_LIMIT :: u32 where "AGENT_BIN_LIMIT = 4096"
definition AGENT_MAX_KEY :: i32 where "AGENT_MAX_KEY = 32766"
definition AGENT_INF_KEY :: i32 where "AGENT_INF_KEY = 32767"
definition MAX_BIN_LIMIT :: u32 where "MAX_BIN_LIMIT = AGENT_BIN_LIMIT"

definition mapping_agent :: "float_ops \<Rightarrow> mapping" where
  "mapping_agent fl =
     (let gamma_ln = fl_ln_1p fl AGENT_EPS;
          emin = fl_floor fl (fl_div fl (fl_ln fl AGENT_MIN) gamma_ln)
      in \<lparr>mp_kind = MK_Agent, mp_gamma = AGENT_GAMMA, mp_gamma_ln = gamma_ln,
          mp_offset = fl_sub fl F64_ONE emin, mp_bin_limit = AGENT_BIN_LIMIT\<rparr>)"

definition try_logarithmic :: "float_ops \<Rightarrow> f64 \<Rightarrow> f64 \<Rightarrow> u32 \<Rightarrow> mapping option" where
  "try_logarithmic fl gamma index_offset bin_limit =
     (if \<not> (is_finite gamma \<and> f64_lt F64_ONE gamma \<and> is_finite index_offset \<and>
             2 \<le> bin_limit \<and> bin_limit \<le> MAX_BIN_LIMIT)
      then None
      else Some \<lparr>mp_kind = MK_Logarithmic, mp_gamma = gamma, mp_gamma_ln = fl_ln fl gamma,
                 mp_offset = index_offset, mp_bin_limit = bin_limit\<rparr>)"

definition mapping_logarithmic :: "float_ops \<Rightarrow> f64 \<Rightarrow> f64 \<Rightarrow> u32 \<Rightarrow> mapping" where
  "mapping_logarithmic fl gamma index_offset bin_limit =
     (case try_logarithmic fl gamma index_offset (min (max bin_limit 2) MAX_BIN_LIMIT) of
        Some m \<Rightarrow> m | None \<Rightarrow> mapping_agent fl)"

definition agent_min :: "float_ops \<Rightarrow> mapping \<Rightarrow> f64" where
  "agent_min fl m = fl_powf fl (mp_gamma m) (fl_sub fl F64_ONE (mp_offset m))"

definition mapping_is_zero :: "float_ops \<Rightarrow> mapping \<Rightarrow> f64 \<Rightarrow> bool" where
  "mapping_is_zero fl m magnitude =
     (case mp_kind m of
        MK_Agent \<Rightarrow> f64_lt magnitude (agent_min fl m)
      | MK_Logarithmic \<Rightarrow> f64_lt magnitude AGENT_MIN)"

text \<open>\<open>key_range\<close>, as membership.\<close>

definition key_in_range :: "mapping \<Rightarrow> i32 \<Rightarrow> bool" where
  "key_in_range m k =
     (case mp_kind m of
        MK_Agent \<Rightarrow> 1 \<le> sint k \<and> sint k \<le> sint AGENT_INF_KEY
      | MK_Logarithmic \<Rightarrow> True)"

definition saturating_sub_1 :: "i32 \<Rightarrow> i32" where
  "saturating_sub_1 k = (if sint k = - (2 ^ 31) then k else k - 1)"

definition mapping_key :: "float_ops \<Rightarrow> mapping \<Rightarrow> f64 \<Rightarrow> i32" where
  "mapping_key fl m magnitude =
     (let log_gamma = fl_div fl (fl_ln fl magnitude) (mp_gamma_ln m) in
      case mp_kind m of
        MK_Agent \<Rightarrow>
          (let i = fl_add fl (fl_round_ties_even fl log_gamma) (mp_offset m) in
           if f64_lt (fl_of_i32 fl AGENT_MAX_KEY) i then AGENT_INF_KEY
           else if f64_lt i F64_ONE then 1
           else fl_to_i32 fl i)
      | MK_Logarithmic \<Rightarrow>
          (let index = fl_add fl log_gamma (mp_offset m) in
           if f64_le 0 index then fl_to_i32 fl index
           else saturating_sub_1 (fl_to_i32 fl index)))"

definition lower_bound :: "float_ops \<Rightarrow> mapping \<Rightarrow> i32 \<Rightarrow> f64" where
  "lower_bound fl m key =
     (case mp_kind m of
        MK_Agent \<Rightarrow>
          (if sint AGENT_INF_KEY \<le> sint key then F64_INFINITY
           else fl_powf fl (mp_gamma m) (fl_sub fl (fl_of_i32 fl key) (mp_offset m)))
      | MK_Logarithmic \<Rightarrow>
          fl_exp fl (fl_mul fl (fl_sub fl (fl_of_i32 fl key) (mp_offset m)) (mp_gamma_ln m)))"

definition representative :: "float_ops \<Rightarrow> mapping \<Rightarrow> i32 \<Rightarrow> f64" where
  "representative fl m key =
     (case mp_kind m of
        MK_Agent \<Rightarrow> lower_bound fl m key
      | MK_Logarithmic \<Rightarrow>
          fl_mul fl (lower_bound fl m key)
            (fl_div fl (fl_mul fl F64_TWO (mp_gamma m)) (fl_add fl F64_ONE (mp_gamma m))))"

text \<open>The derived \<open>PartialEq\<close>: floats compare as floats.\<close>

definition mapping_eq :: "mapping \<Rightarrow> mapping \<Rightarrow> bool" where
  "mapping_eq a b \<longleftrightarrow> mp_kind a = mp_kind b \<and> f64_eq (mp_gamma a) (mp_gamma b) \<and>
     f64_eq (mp_gamma_ln a) (mp_gamma_ln b) \<and> f64_eq (mp_offset a) (mp_offset b) \<and>
     mp_bin_limit a = mp_bin_limit b"

section \<open>Stores\<close>

record bin =
  bin_key :: i32
  bin_count :: f64

definition add_counts :: "float_ops \<Rightarrow> f64 \<Rightarrow> f64 \<Rightarrow> f64" where
  "add_counts fl a b = f64_min (fl_add fl a b) F64_MAX"

definition collapse :: "float_ops \<Rightarrow> u32 \<Rightarrow> bin list \<Rightarrow> bin list" where
  "collapse fl bin_limit store =
     (let limit = unat bin_limit in
      if length store \<le> limit then store
      else
        (let remove = length store - limit;
             folded = foldl (\<lambda>sum b. add_counts fl sum (bin_count b)) 0 (take remove store);
             b = store ! remove
         in drop remove
              (store[remove := b\<lparr>bin_count := add_counts fl (bin_count b) folded\<rparr>])))"

definition insert_bin :: "float_ops \<Rightarrow> u32 \<Rightarrow> i32 \<Rightarrow> f64 \<Rightarrow> bin list \<Rightarrow> bin list" where
  "insert_bin fl bin_limit key count store =
     (case binary_search_by (\<lambda>b. compare (sint (bin_key b)) (sint key)) store of
        Inr i \<Rightarrow> store[i := (store ! i)\<lparr>bin_count := add_counts fl (bin_count (store ! i)) count\<rparr>]
      | Inl i \<Rightarrow> collapse fl bin_limit
          (take i store @ \<lparr>bin_key = key, bin_count = count\<rparr> # drop i store))"

text \<open>The two-finger loop of \<open>merge_bins\<close>, and the tails it appends.\<close>

fun merge_loop :: "float_ops \<Rightarrow> bin list \<Rightarrow> bin list \<Rightarrow> bin list" where
  "merge_loop fl (a # as) (b # bs) =
     (case compare (sint (bin_key a)) (sint (bin_key b)) of
        Less \<Rightarrow> a # merge_loop fl as (b # bs)
      | Greater \<Rightarrow> b # merge_loop fl (a # as) bs
      | Equal \<Rightarrow>
          \<lparr>bin_key = bin_key a, bin_count = add_counts fl (bin_count a) (bin_count b)\<rparr> #
          merge_loop fl as bs)"
| "merge_loop fl as [] = as"
| "merge_loop fl [] bs = bs"

definition merge_bins :: "float_ops \<Rightarrow> u32 \<Rightarrow> bin list \<Rightarrow> bin list \<Rightarrow> bin list" where
  "merge_bins fl bin_limit a b =
     (if b = [] then a else collapse fl bin_limit (merge_loop fl a b))"

text \<open>The fold of repeated keys in \<open>normalize_bins\<close>, over the sorted bins.\<close>

definition push_bin :: "float_ops \<Rightarrow> bin list \<Rightarrow> bin \<Rightarrow> bin list" where
  "push_bin fl out b =
     (if out \<noteq> [] \<and> bin_key (last out) = bin_key b
      then butlast out @
        [(last out)\<lparr>bin_count := add_counts fl (bin_count (last out)) (bin_count b)\<rparr>]
      else out @ [b])"

definition normalize_bins :: "float_ops \<Rightarrow> u32 \<Rightarrow> bin list \<Rightarrow> bin list" where
  "normalize_bins fl bin_limit bins =
     (let kept = filter (\<lambda>b. is_finite (bin_count b) \<and> f64_lt 0 (bin_count b)) bins;
          sorted = sort_key (\<lambda>b. sint (bin_key b)) kept
      in collapse fl bin_limit (foldl (push_bin fl) [] sorted))"

fun key_at_rank_from :: "float_ops \<Rightarrow> f64 \<Rightarrow> bin list \<Rightarrow> f64 \<Rightarrow> i32 option" where
  "key_at_rank_from fl seen [] rank = None"
| "key_at_rank_from fl seen (b # store) rank =
     (let seen = fl_add fl seen (bin_count b)
      in if f64_lt rank seen then Some (bin_key b) else key_at_rank_from fl seen store rank)"

definition key_at_rank :: "float_ops \<Rightarrow> bin list \<Rightarrow> f64 \<Rightarrow> i32" where
  "key_at_rank fl store rank =
     (case key_at_rank_from fl 0 store rank of
        Some k \<Rightarrow> k
      | None \<Rightarrow> if store = [] then 0 else bin_key (last store))"

section \<open>Sketches\<close>

record sketch_stats =
  ss_count :: f64
  ss_min :: f64
  ss_max :: f64
  ss_sum :: f64

record dd_sketch =
  dd_mapping :: mapping
  dd_positive :: "bin list"
  dd_negative :: "bin list"
  dd_zero_count :: f64
  dd_count :: f64
  dd_min :: f64
  dd_max :: f64
  dd_sum :: f64
  dd_exact_stats :: bool

definition with_mapping :: "mapping \<Rightarrow> dd_sketch" where
  "with_mapping m = \<lparr>dd_mapping = m, dd_positive = [], dd_negative = [], dd_zero_count = 0,
     dd_count = 0, dd_min = F64_INFINITY, dd_max = F64_NEG_INFINITY, dd_sum = 0,
     dd_exact_stats = True\<rparr>"

definition dd_new :: "float_ops \<Rightarrow> dd_sketch" where
  "dd_new fl = with_mapping (mapping_agent fl)"

text \<open>One bin of the two loops of \<open>derive_stats\<close>; \<open>v\<close> is the bin's signed representative.\<close>

definition derive_bin :: "float_ops \<Rightarrow> (i32 \<Rightarrow> f64) \<Rightarrow> sketch_stats \<Rightarrow> bin \<Rightarrow> sketch_stats" where
  "derive_bin fl val s b =
     (let v = val (bin_key b)
      in \<lparr>ss_count = fl_add fl (ss_count s) (bin_count b), ss_min = f64_min (ss_min s) v,
          ss_max = f64_max (ss_max s) v,
          ss_sum = fl_add fl (ss_sum s) (fl_mul fl v (bin_count b))\<rparr>)"

definition derived_stats ::
    "float_ops \<Rightarrow> mapping \<Rightarrow> bin list \<Rightarrow> bin list \<Rightarrow> f64 \<Rightarrow> sketch_stats" where
  "derived_stats fl m positive negative zero_count =
     (let zero = f64_lt 0 zero_count;
          s = \<lparr>ss_count = zero_count, ss_min = (if zero then 0 else F64_INFINITY),
               ss_max = (if zero then 0 else F64_NEG_INFINITY), ss_sum = 0\<rparr>;
          s = foldl (derive_bin fl (representative fl m)) s positive
      in foldl (derive_bin fl (\<lambda>k. f64_neg (representative fl m k))) s negative)"

definition set_stats :: "sketch_stats \<Rightarrow> bool \<Rightarrow> dd_sketch \<Rightarrow> dd_sketch" where
  "set_stats s exact d = d\<lparr>dd_count := ss_count s, dd_min := ss_min s, dd_max := ss_max s,
     dd_sum := ss_sum s, dd_exact_stats := exact\<rparr>"

definition derive_stats :: "float_ops \<Rightarrow> dd_sketch \<Rightarrow> dd_sketch" where
  "derive_stats fl d =
     set_stats (derived_stats fl (dd_mapping d) (dd_positive d) (dd_negative d) (dd_zero_count d))
       False d"

definition from_parts ::
    "float_ops \<Rightarrow> mapping \<Rightarrow> bin list \<Rightarrow> bin list \<Rightarrow> f64 \<Rightarrow> sketch_stats option \<Rightarrow> dd_sketch" where
  "from_parts fl m positive negative zero_count stats =
     (let d = (with_mapping m)\<lparr>
            dd_positive := normalize_bins fl (mp_bin_limit m) positive,
            dd_negative := normalize_bins fl (mp_bin_limit m) negative,
            dd_zero_count := (if is_finite zero_count \<and> f64_lt 0 zero_count then zero_count else 0)\<rparr>
      in case stats of
           Some s \<Rightarrow> if is_finite (ss_count s) \<and> f64_le 0 (ss_count s) then set_stats s True d
                     else derive_stats fl d
         | None \<Rightarrow> derive_stats fl d)"

definition from_stored ::
    "float_ops \<Rightarrow> mapping \<Rightarrow> bin list \<Rightarrow> bin list \<Rightarrow> f64 \<Rightarrow> sketch_stats \<Rightarrow> bool \<Rightarrow> dd_sketch" where
  "from_stored fl m positive negative zero_count stats stats_exact =
     (from_parts fl m positive negative zero_count (Some stats))\<lparr>dd_exact_stats := stats_exact\<rparr>"

definition stored_stats :: "dd_sketch \<Rightarrow> sketch_stats" where
  "stored_stats d = \<lparr>ss_count = dd_count d, ss_min = dd_min d, ss_max = dd_max d, ss_sum = dd_sum d\<rparr>"

definition sketch_insert :: "float_ops \<Rightarrow> f64 \<Rightarrow> f64 \<Rightarrow> dd_sketch \<Rightarrow> dd_sketch" where
  "sketch_insert fl value count d =
     (let magnitude = f64_abs value in
      if mapping_is_zero fl (dd_mapping d) magnitude
      then d\<lparr>dd_zero_count := add_counts fl (dd_zero_count d) count\<rparr>
      else
        (let key = mapping_key fl (dd_mapping d) magnitude; limit = mp_bin_limit (dd_mapping d) in
         if f64_lt 0 value
         then d\<lparr>dd_positive := insert_bin fl limit key count (dd_positive d)\<rparr>
         else d\<lparr>dd_negative := insert_bin fl limit key count (dd_negative d)\<rparr>))"

definition add_count :: "float_ops \<Rightarrow> f64 \<Rightarrow> f64 \<Rightarrow> dd_sketch \<Rightarrow> dd_sketch" where
  "add_count fl value count d =
     (if \<not> is_finite value \<or> \<not> (is_finite count \<and> f64_lt 0 count) then d
      else
        (let d = sketch_insert fl value count d
         in d\<lparr>dd_count := fl_add fl (dd_count d) count,
              dd_sum := fl_add fl (dd_sum d) (fl_mul fl value count),
              dd_min := (if f64_lt value (dd_min d) then value else dd_min d),
              dd_max := (if f64_lt (dd_max d) value then value else dd_max d)\<rparr>))"

definition sketch_add :: "float_ops \<Rightarrow> f64 \<Rightarrow> dd_sketch \<Rightarrow> dd_sketch" where
  "sketch_add fl value d = add_count fl value F64_ONE d"

definition add_weighted :: "float_ops \<Rightarrow> f64 \<Rightarrow> u64 \<Rightarrow> dd_sketch \<Rightarrow> dd_sketch" where
  "add_weighted fl value count d = add_count fl value (fl_of_u64 fl count) d"

text \<open>The key a bin of another mapping lands in.\<close>

definition rebin :: "float_ops \<Rightarrow> mapping \<Rightarrow> mapping \<Rightarrow> i32 \<Rightarrow> i32" where
  "rebin fl into other key =
     (let v = representative fl other key
      in mapping_key fl into (if is_finite v then v else F64_MAX))"

definition merge_mapped ::
    "float_ops \<Rightarrow> mapping \<Rightarrow> mapping \<Rightarrow> bin list \<Rightarrow> bin list \<Rightarrow> bin list" where
  "merge_mapped fl into other store bins =
     foldl (\<lambda>store b. insert_bin fl (mp_bin_limit into) (rebin fl into other (bin_key b))
              (bin_count b) store) store bins"

definition merge_stores :: "float_ops \<Rightarrow> dd_sketch \<Rightarrow> dd_sketch \<Rightarrow> dd_sketch" where
  "merge_stores fl d other =
     (let m = dd_mapping d in
      if mapping_eq m (dd_mapping other)
      then d\<lparr>dd_positive := merge_bins fl (mp_bin_limit m) (dd_positive d) (dd_positive other),
             dd_negative := merge_bins fl (mp_bin_limit m) (dd_negative d) (dd_negative other)\<rparr>
      else d\<lparr>dd_positive := merge_mapped fl m (dd_mapping other) (dd_positive d) (dd_positive other),
             dd_negative := merge_mapped fl m (dd_mapping other) (dd_negative d) (dd_negative other)\<rparr>)"

definition sketch_merge :: "float_ops \<Rightarrow> dd_sketch \<Rightarrow> dd_sketch \<Rightarrow> dd_sketch" where
  "sketch_merge fl d other =
     (if f64_eq (dd_count other) 0 \<and> f64_eq (dd_zero_count other) 0 then d
      else
        (let d = (if \<not> mapping_eq (dd_mapping d) (dd_mapping other) \<and> f64_eq (dd_count d) 0 \<and>
                     f64_eq (dd_zero_count d) 0 \<and> dd_positive d = [] \<and> dd_negative d = []
                  then d\<lparr>dd_mapping := dd_mapping other\<rparr> else d);
             d = merge_stores fl d other
         in d\<lparr>dd_zero_count := add_counts fl (dd_zero_count d) (dd_zero_count other),
              dd_count := fl_add fl (dd_count d) (dd_count other),
              dd_sum := fl_add fl (dd_sum d) (dd_sum other),
              dd_min := (if f64_lt (dd_min other) (dd_min d) then dd_min other else dd_min d),
              dd_max := (if f64_lt (dd_max d) (dd_max other) then dd_max other else dd_max d),
              dd_exact_stats := (dd_exact_stats d \<and> dd_exact_stats other)\<rparr>))"

definition sketch_count :: "float_ops \<Rightarrow> dd_sketch \<Rightarrow> u64" where
  "sketch_count fl d = fl_to_u64 fl (fl_round fl (dd_count d))"

definition sketch_min :: "dd_sketch \<Rightarrow> f64 option" where
  "sketch_min d = (if f64_lt 0 (dd_count d) then Some (dd_min d) else None)"

definition sketch_max :: "dd_sketch \<Rightarrow> f64 option" where
  "sketch_max d = (if f64_lt 0 (dd_count d) then Some (dd_max d) else None)"

text \<open>The estimate of \<open>quantile\<close> at a rank, before the clamp to the exact extremes.\<close>

definition rank_estimate :: "float_ops \<Rightarrow> dd_sketch \<Rightarrow> f64 \<Rightarrow> f64" where
  "rank_estimate fl d rank =
     (let negative_count = foldl (\<lambda>s b. fl_add fl s (bin_count b)) 0 (dd_negative d) in
      if f64_lt rank negative_count then
        f64_neg (representative fl (dd_mapping d)
          (key_at_rank fl (dd_negative d) (fl_sub fl (fl_sub fl negative_count F64_ONE) rank)))
      else if f64_lt rank (fl_add fl negative_count (dd_zero_count d)) then 0
      else
        representative fl (dd_mapping d)
          (key_at_rank fl (dd_positive d)
             (fl_sub fl (fl_sub fl rank negative_count) (dd_zero_count d))))"

definition quantile :: "float_ops \<Rightarrow> f64 \<Rightarrow> dd_sketch \<Rightarrow> f64 option" where
  "quantile fl q d =
     (if f64_le (dd_count d) 0 \<or> is_nan q then None
      else
        (let q = (if f64_lt q 0 then 0 else if f64_lt F64_ONE q then F64_ONE else q) in
         if f64_le q 0 then Some (dd_min d)
         else if f64_le F64_ONE q then Some (dd_max d)
         else
           (let rank = f64_max (fl_mul fl q (fl_sub fl (dd_count d) F64_ONE)) 0;
                rank = (case mp_kind (dd_mapping d) of
                          MK_Agent \<Rightarrow> fl_round_ties_even fl rank | MK_Logarithmic \<Rightarrow> rank)
            in Some (f64_min (f64_max (rank_estimate fl d rank) (dd_min d)) (dd_max d)))))"

section \<open>The byte form\<close>

definition BYTES_VERSION :: u8 where "BYTES_VERSION = 1"

datatype sketch_error = SK_Version | SK_Truncated | SK_Malformed

text \<open>The module's own varint writer: \<open>while v >= 0x80\<close>.\<close>

function sketch_write_uvarint :: "u64 \<Rightarrow> bytes" where
  "sketch_write_uvarint v =
     (if v \<ge> 0x80 then (ucast v OR 0x80) # sketch_write_uvarint (drop_bit 7 v) else [ucast v])"
  by pat_completeness auto
termination
  by (relation "measure unat") (auto simp: unat_drop_bit_7 word_le_nat_alt)

declare sketch_write_uvarint.simps [simp del]

definition write_bin :: "i64 \<Rightarrow> bin \<Rightarrow> bytes" where
  "write_bin previous b =
     sketch_write_uvarint (zigzag_encode (scast (bin_key b) - previous)) @ le_bytes 8 (bin_count b)"

fun write_bins_from :: "i64 \<Rightarrow> bin list \<Rightarrow> bytes" where
  "write_bins_from previous [] = []"
| "write_bins_from previous (b # bins) =
     write_bin previous b @ write_bins_from (scast (bin_key b)) bins"

definition write_bins :: "bin list \<Rightarrow> bytes" where
  "write_bins bins = sketch_write_uvarint (of_nat (length bins)) @ write_bins_from 0 bins"

definition dd_to_bytes_of :: "dd_sketch \<Rightarrow> bytes" where
  "dd_to_bytes_of d =
     [BYTES_VERSION] @
     (case mp_kind (dd_mapping d) of
        MK_Agent \<Rightarrow> [0]
      | MK_Logarithmic \<Rightarrow>
          1 # le_bytes 8 (mp_gamma (dd_mapping d)) @ le_bytes 8 (mp_offset (dd_mapping d)) @
          le_bytes 4 (mp_bin_limit (dd_mapping d))) @
     [of_bool (dd_exact_stats d)] @
     concat (map (le_bytes 8) [dd_count d, dd_min d, dd_max d, dd_sum d, dd_zero_count d]) @
     write_bins (dd_positive d) @ write_bins (dd_negative d)"

text \<open>\<open>Reader\<close>: the bytes from its position on. \<open>take\<close> and the fixed-width reads over it.\<close>

definition sk_u8 :: "bytes \<Rightarrow> sketch_error + u8 \<times> bytes" where
  "sk_u8 r = next_u8 SK_Truncated r"

definition sk_word :: "nat \<Rightarrow> bytes \<Rightarrow> sketch_error + 'a::len word \<times> bytes" where
  "sk_word n r = bnd (split_to SK_Truncated n r) (\<lambda>(buf, r). Inr (from_le_bytes buf, r))"

definition sk_u32 :: "bytes \<Rightarrow> sketch_error + u32 \<times> bytes" where
  "sk_u32 r = sk_word 4 r"

definition sk_f64 :: "bytes \<Rightarrow> sketch_error + f64 \<times> bytes" where
  "sk_f64 r = sk_word 8 r"

text \<open>\<open>for shift in (0..64).step_by(7)\<close>, from its \<open>i\<close>-th round on.\<close>

fun sk_uvarint_from :: "nat \<Rightarrow> u64 \<Rightarrow> bytes \<Rightarrow> sketch_error + u64 \<times> bytes" where
  "sk_uvarint_from i value [] = (if i * 7 < 64 then Inl SK_Truncated else Inl SK_Malformed)"
| "sk_uvarint_from i value (byte # r) =
     (if i * 7 < 64 then
        (let value = value OR push_bit (i * 7) (ucast (byte AND 0x7f))
         in if byte AND 0x80 = 0 then Inr (value, r) else sk_uvarint_from (i + 1) value r)
      else Inl SK_Malformed)"

definition sk_uvarint :: "bytes \<Rightarrow> sketch_error + u64 \<times> bytes" where
  "sk_uvarint r = sk_uvarint_from 0 0 r"

definition i32_try_from :: "i64 \<Rightarrow> i32 option" where
  "i32_try_from k = (if - (2 ^ 31) \<le> sint k \<and> sint k < 2 ^ 31 then Some (ucast k) else None)"

fun read_bins_from ::
    "(i32 \<Rightarrow> bool) \<Rightarrow> nat \<Rightarrow> i64 \<Rightarrow> bytes \<Rightarrow> sketch_error + bin list \<times> bytes" where
  "read_bins_from keys 0 previous r = Inr ([], r)"
| "read_bins_from keys (Suc n) previous r =
     bnd (sk_uvarint r) (\<lambda>(zigzag, r).
     bnd (ok_or SK_Malformed (i64_checked_add previous (zigzag_decode zigzag))) (\<lambda>wide.
     bnd (ok_or SK_Malformed (i32_try_from wide)) (\<lambda>key.
     bnd (reject_if (\<not> keys key) SK_Malformed) (\<lambda>_.
     bnd (sk_f64 r) (\<lambda>(count, r).
     bnd (read_bins_from keys n wide r) (\<lambda>(bins, r).
     Inr (\<lparr>bin_key = key, bin_count = count\<rparr> # bins, r)))))))"

text \<open>\<open>read_bins\<close>; \<open>blob_len\<close> is the length of the whole blob.\<close>

definition read_bins ::
    "nat \<Rightarrow> (i32 \<Rightarrow> bool) \<Rightarrow> bytes \<Rightarrow> sketch_error + bin list \<times> bytes" where
  "read_bins blob_len keys r =
     bnd (sk_uvarint r) (\<lambda>(n, r).
     bnd (reject_if (unat n > blob_len div 9) SK_Malformed) (\<lambda>_.
     read_bins_from keys (unat n) 0 r))"

definition read_mapping :: "float_ops \<Rightarrow> bytes \<Rightarrow> sketch_error + mapping \<times> bytes" where
  "read_mapping fl r =
     bnd (sk_u8 r) (\<lambda>(tag, r).
     if tag = 0 then Inr (mapping_agent fl, r)
     else if tag = 1 then
       bnd (sk_f64 r) (\<lambda>(gamma, r).
       bnd (sk_f64 r) (\<lambda>(offset, r).
       bnd (sk_u32 r) (\<lambda>(bin_limit, r).
       bnd (ok_or SK_Malformed (try_logarithmic fl gamma offset bin_limit)) (\<lambda>m.
       Inr (m, r)))))
     else Inl SK_Malformed)"

definition dd_from_bytes_of :: "float_ops \<Rightarrow> bytes \<Rightarrow> sketch_error + dd_sketch" where
  "dd_from_bytes_of fl bytes =
     bnd (sk_u8 bytes) (\<lambda>(version, r).
     bnd (reject_if (version \<noteq> BYTES_VERSION) SK_Version) (\<lambda>_.
     bnd (read_mapping fl r) (\<lambda>(m, r).
     bnd (sk_u8 r) (\<lambda>(exact, r).
     bnd (sk_f64 r) (\<lambda>(count, r).
     bnd (sk_f64 r) (\<lambda>(min, r).
     bnd (sk_f64 r) (\<lambda>(max, r).
     bnd (sk_f64 r) (\<lambda>(sum, r).
     bnd (sk_f64 r) (\<lambda>(zero_count, r).
     bnd (read_bins (length bytes) (key_in_range m) r) (\<lambda>(positive, r).
     bnd (read_bins (length bytes) (key_in_range m) r) (\<lambda>(negative, r).
     bnd (reject_if (r \<noteq> []) SK_Malformed) (\<lambda>_.
     Inr (from_stored fl m positive negative zero_count
            \<lparr>ss_count = count, ss_min = min, ss_max = max, ss_sum = sum\<rparr> (exact \<noteq> 0))))))))))))))"

end
