(* ===== verification/Sketch_Store.thy ===== *)
theory Sketch_Store
  imports Sketch
begin

text \<open>
  The invariant of a sketch's stores (ascending keys, one bin a key, positive finite counts, at
  most \<open>bin_limit\<close> bins), that every operation keeps it, and that the byte form gives a sketch
  back.
\<close>

section \<open>The store invariant\<close>

abbreviation key_of :: "bin \<Rightarrow> int" where
  "key_of b \<equiv> sint (bin_key b)"

lemma sint_eq_iff [simp]: "sint a = sint b \<longleftrightarrow> a = b" for a b :: i32
  by (auto intro: signed_word_eqI)

lemma compare_eqs [simp]:
  "a < b \<Longrightarrow> compare a b = Less" "compare a a = Equal" "b < a \<Longrightarrow> compare a b = Greater"
  by (auto simp: compare_def)

definition ascending :: "bin list \<Rightarrow> bool" where
  "ascending store \<longleftrightarrow> sorted_wrt (\<lambda>a b. key_of a < key_of b) store"

definition counts_ok :: "bin list \<Rightarrow> bool" where
  "counts_ok store \<longleftrightarrow> list_all (\<lambda>b. positive_finite (bin_count b)) store"

definition store_ok :: "u32 \<Rightarrow> bin list \<Rightarrow> bool" where
  "store_ok limit store \<longleftrightarrow> ascending store \<and> counts_ok store \<and> length store \<le> unat limit"

text \<open>
  What the stores need of IEEE addition: the sum of a positive number and a non-negative one is a
  positive number (infinite when it overflows), whichever comes first, and zero is neutral for
  itself.
\<close>

definition addition_laws :: "float_ops \<Rightarrow> bool" where
  "addition_laws fl \<longleftrightarrow> fl_add fl 0 0 = 0 \<and>
     (\<forall>a b. positive_finite a \<and> (b = 0 \<or> positive_finite b) \<longrightarrow>
        f64_lt 0 (fl_add fl a b) \<and> f64_lt 0 (fl_add fl b a))"

lemma add_counts_positive:
  assumes "addition_laws fl" and "positive_finite a" and "b = 0 \<or> positive_finite b"
  shows "positive_finite (add_counts fl a b)" and "positive_finite (add_counts fl b a)"
proof -
  have clamp: "positive_finite (f64_min s F64_MAX)" if "f64_lt 0 s" for s
  proof (cases "f64_lt F64_MAX s")
    case True
    then show ?thesis
      by (simp add: f64_min_def f64_lt_def positive_finite_def rank_max)
  next
    case False
    with that show ?thesis
      using rank_lt_max [of s] by (auto simp: f64_min_def positive_finite_def f64_lt_def)
  qed
  from assms show "positive_finite (add_counts fl a b)" "positive_finite (add_counts fl b a)"
    unfolding add_counts_def addition_laws_def by (simp_all add: clamp)
qed

lemma folded_counts:
  assumes "addition_laws fl" and "counts_ok store" and "z = 0 \<or> positive_finite z"
  shows "foldl (\<lambda>sum b. add_counts fl sum (bin_count b)) z store = z \<and> store = [] \<or>
    positive_finite (foldl (\<lambda>sum b. add_counts fl sum (bin_count b)) z store)"
  using assms(2,3)
proof (induction store arbitrary: z)
  case (Cons b store)
  then have "positive_finite (add_counts fl z (bin_count b))"
    using add_counts_positive [OF assms(1)] by (auto simp: counts_ok_def)
  with Cons.IH [of "add_counts fl z (bin_count b)"] Cons.prems show ?case
    by (auto simp: counts_ok_def)
qed simp

lemma ascending_drop: "ascending store \<Longrightarrow> ascending (drop n store)"
  by (simp add: ascending_def sorted_wrt_drop)

lemma ascending_update:
  assumes "bin_key b = bin_key (store ! i)"
  shows "ascending (store[i := b]) \<longleftrightarrow> ascending store"
proof (cases "i < length store")
  case True
  have "key_of (store[i := b] ! j) = key_of (store ! j)" if "j < length store" for j
    using assms True that by (cases "i = j") auto
  then show ?thesis
    by (auto simp: ascending_def sorted_wrt_iff_nth_less)
qed (simp add: list_update_beyond)

lemma counts_ok_update:
  "counts_ok store \<Longrightarrow> positive_finite (bin_count b) \<Longrightarrow> counts_ok (store[i := b])"
  using set_update_subset_insert by (fastforce simp: counts_ok_def list_all_iff)

lemma counts_ok_nth: "counts_ok store \<Longrightarrow> i < length store \<Longrightarrow> positive_finite (bin_count (store ! i))"
  by (simp add: counts_ok_def list_all_length)

lemma collapse_short: "length store \<le> unat limit \<Longrightarrow> collapse fl limit store = store"
  by (simp add: collapse_def)

lemma collapse_ok:
  assumes "addition_laws fl" and "0 < limit" and "ascending store" and "counts_ok store"
  shows "store_ok limit (collapse fl limit store)"
proof (cases "length store \<le> unat limit")
  case True
  with assms show ?thesis by (simp add: collapse_short store_ok_def)
next
  case False
  let ?r = "length store - unat limit"
  let ?f = "foldl (\<lambda>sum b. add_counts fl sum (bin_count b)) 0 (take ?r store)"
  let ?b = "(store ! ?r)\<lparr>bin_count := add_counts fl (bin_count (store ! ?r)) ?f\<rparr>"
  have r: "?r < length store" using False assms(2) by (simp add: word_less_nat_alt)
  have "counts_ok (take ?r store)"
    using assms(4) by (auto simp: counts_ok_def list_all_iff dest: in_set_takeD)
  then have "?f = 0 \<or> positive_finite ?f"
    using folded_counts [OF assms(1), of "take ?r store" 0] by auto
  then have "positive_finite (bin_count ?b)"
    using add_counts_positive(1) [OF assms(1) counts_ok_nth [OF assms(4) r]] by simp
  then have "counts_ok (store[?r := ?b])" by (rule counts_ok_update [OF assms(4)])
  then have "counts_ok (drop ?r (store[?r := ?b]))"
    by (auto simp: counts_ok_def list_all_iff dest: in_set_dropD)
  moreover have "ascending (drop ?r (store[?r := ?b]))"
    using assms(3) by (simp add: ascending_drop ascending_update)
  ultimately show ?thesis
    using False by (simp add: collapse_def store_ok_def Let_def)
qed

section \<open>Inserting\<close>

lemma ascending_nth:
  "ascending store \<Longrightarrow> i < j \<Longrightarrow> j < length store \<Longrightarrow> key_of (store ! i) < key_of (store ! j)"
  by (simp add: ascending_def sorted_wrt_iff_nth_less)

lemma cmp_mono_bins: "ascending store \<Longrightarrow> cmp_mono (\<lambda>b. compare (key_of b) k) store"
  unfolding cmp_mono_def by (auto dest!: ascending_nth)

lemma insert_bin_ok:
  assumes "addition_laws fl" and "0 < limit" and "store_ok limit store" and "positive_finite count"
  shows "store_ok limit (insert_bin fl limit key count store)"
proof (cases "binary_search_by (\<lambda>b. compare (key_of b) (sint key)) store")
  case (Inr i)
  have "ascending store" using assms(3) by (simp add: store_ok_def)
  from binary_search_by_spec [OF cmp_mono_bins [OF this], of "sint key"] Inr
  have "i < length store" by simp
  then show ?thesis
    using Inr assms add_counts_positive(1) [OF assms(1)]
    by (simp add: insert_bin_def store_ok_def ascending_update counts_ok_update counts_ok_nth)
next
  case (Inl i)
  let ?new = "\<lparr>bin_key = key, bin_count = count\<rparr>"
  have asc: "ascending store" and counts: "counts_ok store"
    using assms(3) by (simp_all add: store_ok_def)
  from binary_search_by_spec [OF cmp_mono_bins [OF asc], of "sint key"] Inl
  have i: "\<forall>b \<in> set (take i store). key_of b < sint key"
    "\<forall>b \<in> set (drop i store). sint key < key_of b"
    by (auto simp: all_set_conv_all_nth)
  have "ascending (take i store @ drop i store)" using asc by simp
  with i have "ascending (take i store @ ?new # drop i store)"
    unfolding ascending_def sorted_wrt_append by auto
  moreover have "counts_ok (take i store @ ?new # drop i store)"
    using counts assms(4)
    by (auto simp: counts_ok_def list_all_iff dest: in_set_takeD in_set_dropD)
  ultimately show ?thesis
    using Inl collapse_ok [OF assms(1,2)] by (simp add: insert_bin_def)
qed

section \<open>Merging\<close>

definition count_at :: "bin list \<Rightarrow> i32 \<Rightarrow> f64 option" where
  "count_at store = map_of (map (\<lambda>b. (bin_key b, bin_count b)) store)"

lemma count_at_simps [simp]:
  "count_at [] k = None"
  "count_at (b # store) k = (if k = bin_key b then Some (bin_count b) else count_at store k)"
  by (auto simp: count_at_def)

lemma ascending_Cons:
  "ascending (b # store) \<longleftrightarrow> (\<forall>c \<in> set store. key_of b < key_of c) \<and> ascending store"
  by (simp add: ascending_def)

lemma counts_ok_Cons: "counts_ok (b # store) \<longleftrightarrow> positive_finite (bin_count b) \<and> counts_ok store"
  by (simp add: counts_ok_def)

lemma count_at_below: "\<forall>c \<in> set store. sint k < key_of c \<Longrightarrow> count_at store k = None"
  by (induction store) auto

lemma merge_loop_keys: "bin_key ` set (merge_loop fl a b) = bin_key ` set a \<union> bin_key ` set b"
proof (induction fl a b rule: merge_loop.induct)
  case (1 fl a as b bs)
  then show ?case by (cases "key_of a" "key_of b" rule: linorder_cases) auto
qed auto

lemma merge_loop_key_of: "key_of ` set (merge_loop fl a b) = key_of ` set a \<union> key_of ` set b"
  using arg_cong [OF merge_loop_keys, of "image sint" fl a b] by (simp add: image_Un image_image)

lemma merge_loop_above:
  "(\<forall>c \<in> set (merge_loop fl a b). k < key_of c) \<longleftrightarrow>
     (\<forall>c \<in> set a. k < key_of c) \<and> (\<forall>c \<in> set b. k < key_of c)"
proof -
  have "(\<forall>c \<in> set (merge_loop fl a b). k < key_of c) \<longleftrightarrow>
      (\<forall>x \<in> key_of ` set (merge_loop fl a b). k < x)" by blast
  then show ?thesis unfolding merge_loop_key_of by blast
qed

lemma merge_loop_ascending:
  "ascending a \<Longrightarrow> ascending b \<Longrightarrow> ascending (merge_loop fl a b)"
proof (induction fl a b rule: merge_loop.induct)
  case (1 fl a as b bs)
  then show ?case
    by (cases "key_of a" "key_of b" rule: linorder_cases)
      (auto simp: ascending_Cons merge_loop_above)
qed auto

lemma merge_loop_counts:
  "addition_laws fl \<Longrightarrow> counts_ok a \<Longrightarrow> counts_ok b \<Longrightarrow> counts_ok (merge_loop fl a b)"
proof (induction fl a b rule: merge_loop.induct)
  case (1 fl a as b bs)
  then show ?case
    by (cases "key_of a" "key_of b" rule: linorder_cases)
      (auto simp: counts_ok_Cons intro: add_counts_positive)
qed auto

text \<open>A key of one store keeps its count; a key of both gets the saturating sum.\<close>

definition combine_counts :: "float_ops \<Rightarrow> f64 option \<Rightarrow> f64 option \<Rightarrow> f64 option" where
  "combine_counts fl x y =
     (case x of None \<Rightarrow> y
      | Some c \<Rightarrow> (case y of None \<Rightarrow> Some c | Some d \<Rightarrow> Some (add_counts fl c d)))"

lemma combine_counts_simps [simp]:
  "combine_counts fl None y = y" "combine_counts fl x None = x"
  "combine_counts fl (Some c) (Some d) = Some (add_counts fl c d)"
  by (simp_all add: combine_counts_def split: option.split)

lemma merge_loop_count_at:
  "ascending a \<Longrightarrow> ascending b \<Longrightarrow>
     count_at (merge_loop fl a b) k = combine_counts fl (count_at a k) (count_at b k)"
proof (induction fl a b rule: merge_loop.induct)
  case (1 fl a as b bs)
  show ?case
  proof (cases "key_of a" "key_of b" rule: linorder_cases)
    case less
    then have "k = bin_key a \<Longrightarrow> count_at (b # bs) k = None"
      using "1.prems"(2) by (intro count_at_below) (auto simp: ascending_Cons)
    with less 1 show ?thesis by (auto simp: ascending_Cons)
  next
    case equal
    with 1 show ?thesis by (auto simp: ascending_Cons)
  next
    case greater
    then have "k = bin_key b \<Longrightarrow> count_at (a # as) k = None"
      using "1.prems"(1) by (intro count_at_below) (auto simp: ascending_Cons)
    with greater 1 show ?thesis by (auto simp: ascending_Cons)
  qed
qed auto

lemma merge_bins_ok:
  assumes "addition_laws fl" and "0 < limit" and "store_ok limit a" and "store_ok limit b"
  shows "store_ok limit (merge_bins fl limit a b)"
  using assms merge_loop_ascending merge_loop_counts collapse_ok
  by (simp add: merge_bins_def store_ok_def)

section \<open>Normalizing\<close>

lemma push_bin_keys: "bin_key ` set (push_bin fl out b) = insert (bin_key b) (bin_key ` set out)"
  by (cases out rule: rev_cases) (auto simp: push_bin_def)

lemma push_bins_ok:
  assumes "addition_laws fl"
  shows "sorted (map key_of bins) \<Longrightarrow> counts_ok bins \<Longrightarrow> ascending out \<Longrightarrow> counts_ok out \<Longrightarrow>
    \<forall>a \<in> set out. \<forall>b \<in> set bins. key_of a \<le> key_of b \<Longrightarrow>
    ascending (foldl (push_bin fl) out bins) \<and> counts_ok (foldl (push_bin fl) out bins)"
proof (induction bins arbitrary: out)
  case (Cons b bins)
  have keys: "\<forall>a \<in> set (push_bin fl out b). \<forall>c \<in> set bins. key_of a \<le> key_of c"
  proof (intro ballI)
    fix a c assume "a \<in> set (push_bin fl out b)" and c: "c \<in> set bins"
    then have "bin_key a \<in> insert (bin_key b) (bin_key ` set out)"
      using push_bin_keys [of fl out b] by blast
    then show "key_of a \<le> key_of c" using Cons.prems(1,5) c by auto
  qed
  have "ascending (push_bin fl out b) \<and> counts_ok (push_bin fl out b)"
  proof (cases out rule: rev_cases)
    case Nil
    then show ?thesis using Cons.prems(2) by (simp add: push_bin_def ascending_def counts_ok_def)
  next
    case (snoc xs x)
    have x: "ascending (xs @ [x])" "positive_finite (bin_count x)" "counts_ok xs"
      "positive_finite (bin_count b)" "key_of x \<le> key_of b"
      using Cons.prems by (auto simp: snoc counts_ok_def)
    show ?thesis
    proof (cases "bin_key x = bin_key b")
      case True
      then show ?thesis
        using x add_counts_positive(1) [OF assms]
        by (simp add: snoc push_bin_def ascending_def counts_ok_def sorted_wrt_append)
    next
      case False
      then have "key_of x < key_of b" using x(5) by (simp add: order.not_eq_order_implies_strict)
      moreover have "\<forall>a \<in> set xs. key_of a < key_of x"
        using x(1) by (auto simp: ascending_def sorted_wrt_append)
      ultimately show ?thesis
        using False x by (auto simp: snoc push_bin_def ascending_def counts_ok_def sorted_wrt_append)
    qed
  qed
  with Cons.IH [of "push_bin fl out b"] Cons.prems(1,2) keys show ?case
    by (simp add: counts_ok_def)
qed simp

lemma normalize_bins_ok:
  assumes "addition_laws fl" and "0 < limit"
  shows "store_ok limit (normalize_bins fl limit bins)"
proof -
  let ?s = "sort_key key_of (filter (\<lambda>b. is_finite (bin_count b) \<and> f64_lt 0 (bin_count b)) bins)"
  have "counts_ok ?s" by (simp add: counts_ok_def list_all_iff positive_finite_def)
  then have "ascending (foldl (push_bin fl) [] ?s) \<and> counts_ok (foldl (push_bin fl) [] ?s)"
    by (intro push_bins_ok [OF assms(1)]) (simp_all add: ascending_def counts_ok_def)
  then show ?thesis
    unfolding normalize_bins_def Let_def by (intro collapse_ok [OF assms]) simp_all
qed

lemma push_bins_ascending:
  "ascending (out @ bins) \<Longrightarrow> foldl (push_bin fl) out bins = out @ bins"
proof (induction bins arbitrary: out)
  case (Cons b bins)
  have "push_bin fl out b = out @ [b]"
    using Cons.prems
    by (cases out rule: rev_cases) (auto simp: push_bin_def ascending_def sorted_wrt_append)
  with Cons.IH [of "out @ [b]"] Cons.prems show ?case by simp
qed simp

lemma normalize_bins_id:
  assumes "store_ok limit store"
  shows "normalize_bins fl limit store = store"
proof -
  have ok: "ascending store" "counts_ok store" "length store \<le> unat limit"
    using assms by (simp_all add: store_ok_def)
  have "filter (\<lambda>b. is_finite (bin_count b) \<and> f64_lt 0 (bin_count b)) store = store"
    using ok(2) by (simp add: counts_ok_def list_all_iff positive_finite_def filter_id_conv)
  moreover have "sorted (map key_of store)"
    using ok(1) by (auto simp: ascending_def sorted_map intro: sorted_wrt_mono_rel [rotated])
  then have "sort_key key_of store = store" by (rule sort_key_id_if_sorted)
  ultimately show ?thesis
    using ok push_bins_ascending [of "[]" store fl] by (simp add: normalize_bins_def collapse_short)
qed

section \<open>The byte form of a store\<close>

lemma low_seven_bits: "v AND 0x7f = take_bit 7 v" for v :: u64
  by (simp add: take_bit_eq_mask mask_eq_exp_minus_1)

lemma high_bits_zero: "drop_bit 7 v = 0 \<longleftrightarrow> v < 0x80" for v :: u64
proof -
  have "drop_bit 7 v = 0 \<longleftrightarrow> unat (drop_bit 7 v) = 0" by (simp add: unsigned_eq_0_iff)
  then show ?thesis unfolding unat_drop_bit_7 by (simp add: word_less_nat_alt div_eq_0_iff)
qed

lemma sketch_uvarint_eq: "sketch_write_uvarint v = write_uvarint v"
proof (induction v rule: sketch_write_uvarint.induct)
  case (1 v)
  have byte: "ucast v OR 0x80 = (ucast (v AND 0x7f) OR 0x80 :: u8)"
    by (rule bit_word_eqI, simp only: bit_or_iff bit_and_iff bit_ucast_iff bit_0x7f bit_0x80) auto
  show ?case
  proof (cases "v \<ge> 0x80")
    case True
    then show ?thesis
      using 1 byte high_bits_zero [of v]
      by (simp add: sketch_write_uvarint.simps [of v] write_uvarint.simps [of v] Let_def not_less)
  next
    case False
    then have "take_bit 7 v = v"
      using bits_ident [of 7 v] high_bits_zero [of v] by (simp add: not_le)
    with False show ?thesis
      using high_bits_zero [of v]
      by (auto simp: sketch_write_uvarint.simps [of v] write_uvarint.simps [of v] low_seven_bits)
  qed
qed

lemma sk_uvarint_from_agrees:
  "read_uvarint_from i v bs = Inr x \<Longrightarrow> sk_uvarint_from i v bs = Inr x"
  by (induction i v bs rule: read_uvarint_from.induct) (auto simp: Let_def split: if_splits)

lemma sk_uvarint_written [simp]: "sk_uvarint (write_uvarint v @ rest) = Inr (v, rest)"
  using read_write_uvarint [of v rest] unfolding read_uvarint_def sk_uvarint_def
  by (rule sk_uvarint_from_agrees)

lemma sk_reads_written [simp]:
  "sk_u8 (b # rest) = Inr (b, rest)"
  "sk_f64 (le_bytes 8 x @ rest) = Inr (x, rest)"
  "sk_u32 (le_bytes 4 y @ rest) = Inr (y, rest)"
  by (simp_all add: sk_u8_def sk_f64_def sk_u32_def sk_word_def from_le_bytes_le_bytes)

lemma sint_scast_i32: "sint (scast (k :: i32) :: i64) = sint k"
  by (simp add: signed_scast_eq signed_take_bit_int_eq_self_iff)
    (use sint_range_size [of k] in \<open>auto simp: word_size\<close>)

lemma i32_bounds: "- (2 ^ 31) \<le> sint k" "sint k < 2 ^ 31" for k :: i32
  using sint_range_size [of k] by (auto simp: word_size)

lemma checked_delta:
  fixes j k :: i32
  shows "i64_checked_add (scast j) (scast k - scast j) = Some (scast k)"
proof -
  have "sint (scast k - scast j :: i64) = sint k - sint j"
    using i32_bounds [of j] i32_bounds [of k]
    by (simp add: sint_word_ariths sint_scast_i32 signed_take_bit_int_eq_self)
  then have "sint (scast j :: i64) + sint (scast k - scast j :: i64) = sint k"
    by (simp add: sint_scast_i32)
  moreover have "of_int (sint k) = (scast k :: i64)" by simp
  ultimately show ?thesis
    using i32_bounds [of k] by (simp add: i64_checked_add_def i64_try_from_def)
qed

lemma i32_try_from_scast: "i32_try_from (scast k) = Some k"
  using i32_bounds [of k] by (simp add: i32_try_from_def sint_scast_i32)

lemma read_bins_from_written:
  "list_all (\<lambda>b. keys (bin_key b)) bins \<Longrightarrow>
     read_bins_from keys (length bins) (scast (j :: i32)) (write_bins_from (scast j) bins @ rest)
       = Inr (bins, rest)"
proof (induction bins arbitrary: j)
  case (Cons b bins)
  then show ?case
    by (simp add: write_bin_def sketch_uvarint_eq checked_delta i32_try_from_scast)
qed simp

lemma length_write_bins_from: "9 * length bins \<le> length (write_bins_from j bins)"
proof (induction bins arbitrary: j)
  case (Cons b bins)
  have "1 \<le> length (write_uvarint v)" for v
    using uvarint_len_bounds(1) [of v] by (simp add: uvarint_len_eq)
  then have "9 \<le> length (write_bin j b)" by (simp add: write_bin_def sketch_uvarint_eq)
  with Cons.IH [of "scast (bin_key b)"] show ?case by simp
qed simp

lemma read_bins_written:
  assumes "list_all (\<lambda>b. keys (bin_key b)) bins" and "length bins < 2 ^ 32"
    and "length (write_bins bins) \<le> blob_len"
  shows "read_bins blob_len keys (write_bins bins @ rest) = Inr (bins, rest)"
proof -
  have "unat (of_nat (length bins) :: u64) = length bins"
    using assms(2) by (simp add: unat_of_nat take_bit_nat_eq_self)
  moreover have "length bins \<le> blob_len div 9"
    using assms(3) length_write_bins_from [of bins 0] by (simp add: write_bins_def)
  ultimately show ?thesis
    using read_bins_from_written [OF assms(1), of 0]
    by (simp add: read_bins_def write_bins_def sketch_uvarint_eq)
qed

section \<open>The byte form of a sketch\<close>

definition mapping_ok :: "float_ops \<Rightarrow> mapping \<Rightarrow> bool" where
  "mapping_ok fl m \<longleftrightarrow> m = mapping_agent fl \<or>
     try_logarithmic fl (mp_gamma m) (mp_offset m) (mp_bin_limit m) = Some m"

definition bins_ok :: "mapping \<Rightarrow> bin list \<Rightarrow> bool" where
  "bins_ok m store \<longleftrightarrow> store_ok (mp_bin_limit m) store \<and> list_all (\<lambda>b. key_in_range m (bin_key b)) store"

text \<open>
  The invariant of \<open>DdSketch\<close>'s private fields. The summary is either one \<open>from_parts\<close> takes as
  written (a finite, non-negative count) or the one it derives from the bins.
\<close>

definition sketch_ok :: "float_ops \<Rightarrow> dd_sketch \<Rightarrow> bool" where
  "sketch_ok fl d \<longleftrightarrow> mapping_ok fl (dd_mapping d) \<and> bins_ok (dd_mapping d) (dd_positive d) \<and>
     bins_ok (dd_mapping d) (dd_negative d) \<and>
     (dd_zero_count d = 0 \<or> positive_finite (dd_zero_count d)) \<and>
     (is_finite (dd_count d) \<and> f64_le 0 (dd_count d) \<or>
      stored_stats d =
        derived_stats fl (dd_mapping d) (dd_positive d) (dd_negative d) (dd_zero_count d))"

lemma set_stats_stored: "(set_stats (stored_stats d) e
    ((with_mapping (dd_mapping d))\<lparr>dd_positive := dd_positive d, dd_negative := dd_negative d,
      dd_zero_count := dd_zero_count d\<rparr>))\<lparr>dd_exact_stats := dd_exact_stats d\<rparr> = d"
  by (cases d) (simp add: set_stats_def stored_stats_def with_mapping_def)

lemma from_stored_ok:
  assumes "sketch_ok fl d"
  shows "from_stored fl (dd_mapping d) (dd_positive d) (dd_negative d) (dd_zero_count d)
    (stored_stats d) (dd_exact_stats d) = d"
proof -
  let ?d = "(with_mapping (dd_mapping d))\<lparr>dd_positive := dd_positive d,
    dd_negative := dd_negative d, dd_zero_count := dd_zero_count d\<rparr>"
  have zero: "(if is_finite (dd_zero_count d) \<and> f64_lt 0 (dd_zero_count d)
      then dd_zero_count d else 0) = dd_zero_count d"
    using assms by (auto simp: sketch_ok_def positive_finite_def)
  have stores: "normalize_bins fl (mp_bin_limit (dd_mapping d)) (dd_positive d) = dd_positive d"
    "normalize_bins fl (mp_bin_limit (dd_mapping d)) (dd_negative d) = dd_negative d"
    using assms by (auto simp: sketch_ok_def bins_ok_def intro: normalize_bins_id)
  have parts: "from_parts fl (dd_mapping d) (dd_positive d) (dd_negative d) (dd_zero_count d)
      (Some (stored_stats d)) =
      (if is_finite (dd_count d) \<and> f64_le 0 (dd_count d) then set_stats (stored_stats d) True ?d
       else derive_stats fl ?d)"
    unfolding from_parts_def zero stores Let_def by (simp add: stored_stats_def)
  show ?thesis
  proof (cases "is_finite (dd_count d) \<and> f64_le 0 (dd_count d)")
    case True
    then show ?thesis unfolding from_stored_def parts by (simp only: set_stats_stored if_True simp_thms)
  next
    case False
    with assms have "derive_stats fl ?d = set_stats (stored_stats d) False ?d"
      by (auto simp: sketch_ok_def derive_stats_def with_mapping_def)
    with False show ?thesis unfolding from_stored_def parts by (simp only: set_stats_stored if_False simp_thms)
  qed
qed

lemma mapping_kinds:
  "mp_kind (mapping_agent fl) = MK_Agent"
  "try_logarithmic fl g k l = Some m \<Longrightarrow> mp_kind m = MK_Logarithmic"
  by (auto simp: mapping_agent_def try_logarithmic_def Let_def split: if_splits)

definition write_mapping :: "mapping \<Rightarrow> bytes" where
  "write_mapping m =
     (case mp_kind m of
        MK_Agent \<Rightarrow> [0]
      | MK_Logarithmic \<Rightarrow>
          1 # le_bytes 8 (mp_gamma m) @ le_bytes 8 (mp_offset m) @ le_bytes 4 (mp_bin_limit m))"

lemma read_mapping_written:
  "mapping_ok fl m \<Longrightarrow> read_mapping fl (write_mapping m @ rest) = Inr (m, rest)"
  by (auto simp: mapping_ok_def read_mapping_def write_mapping_def mapping_kinds
      dest: mapping_kinds(2))

lemma store_small: "bins_ok m store \<Longrightarrow> length store < 2 ^ 32"
proof -
  have "unat (mp_bin_limit m) < 2 ^ LENGTH(32)" by (rule unsigned_less)
  then show "bins_ok m store \<Longrightarrow> ?thesis" by (simp add: bins_ok_def store_ok_def)
qed

lemma dd_from_bytes_written:
  assumes "sketch_ok fl d"
  shows "dd_from_bytes_of fl (dd_to_bytes_of d) = Inr d"
proof -
  let ?m = "dd_mapping d"
  have ok: "mapping_ok fl ?m" "bins_ok ?m (dd_positive d)" "bins_ok ?m (dd_negative d)"
    using assms by (simp_all add: sketch_ok_def)
  have bytes: "dd_to_bytes_of d = BYTES_VERSION # write_mapping ?m @ of_bool (dd_exact_stats d) #
      le_bytes 8 (dd_count d) @ le_bytes 8 (dd_min d) @ le_bytes 8 (dd_max d) @
      le_bytes 8 (dd_sum d) @ le_bytes 8 (dd_zero_count d) @ write_bins (dd_positive d) @
      write_bins (dd_negative d)" (is "_ = ?B")
    by (simp add: dd_to_bytes_of_def write_mapping_def)
  have bins: "read_bins (length ?B) (key_in_range ?m) (write_bins store @ rest) = Inr (store, rest)"
    if "bins_ok ?m store" and "length (write_bins store) \<le> length ?B" for store rest
    using that store_small [of ?m store] by (intro read_bins_written) (simp_all add: bins_ok_def)
  from bins [OF ok(2)] bins [OF ok(3), of "[]"] show ?thesis
    unfolding bytes dd_from_bytes_of_def
    using from_stored_ok [OF assms] by (simp add: read_mapping_written [OF ok(1)] stored_stats_def)
qed

section \<open>What a blob decodes to\<close>

lemma map_key_update:
  assumes "bin_key b = bin_key (store ! i)"
  shows "map bin_key (store[i := b]) = map bin_key store"
proof (cases "i < length store")
  case True
  then have "(map bin_key store)[i := bin_key b] = map bin_key store"
    unfolding assms by (metis list_update_id nth_map)
  then show ?thesis by (simp add: map_update)
qed (simp add: list_update_beyond)

lemma collapse_keys: "bin_key ` set (collapse fl limit store) \<subseteq> bin_key ` set store"
proof (cases "length store \<le> unat limit")
  case False
  let ?r = "length store - unat limit"
  let ?b = "(store ! ?r)\<lparr>bin_count := add_counts fl (bin_count (store ! ?r))
    (foldl (\<lambda>sum b. add_counts fl sum (bin_count b)) 0 (take ?r store))\<rparr>"
  have "map bin_key (store[?r := ?b]) = map bin_key store" by (rule map_key_update) simp
  from arg_cong [OF this, of set] have "bin_key ` set (store[?r := ?b]) = bin_key ` set store"
    by (simp only: list.set_map)
  moreover have "set (drop ?r (store[?r := ?b])) \<subseteq> set (store[?r := ?b])" by (rule set_drop_subset)
  ultimately show ?thesis using False by (simp add: collapse_def Let_def) blast
qed (simp add: collapse_short)

lemma push_bins_keys:
  "bin_key ` set (foldl (push_bin fl) out bins) = bin_key ` set out \<union> bin_key ` set bins"
  by (induction bins arbitrary: out) (auto simp: push_bin_keys)

lemma normalize_bins_keys: "bin_key ` set (normalize_bins fl limit bins) \<subseteq> bin_key ` set bins"
proof -
  let ?s = "sort_key key_of (filter (\<lambda>b. is_finite (bin_count b) \<and> f64_lt 0 (bin_count b)) bins)"
  have "bin_key ` set (normalize_bins fl limit bins) \<subseteq> bin_key ` set (foldl (push_bin fl) [] ?s)"
    unfolding normalize_bins_def Let_def by (rule collapse_keys)
  also have "\<dots> \<subseteq> bin_key ` set bins" by (auto simp: push_bins_keys)
  finally show ?thesis .
qed

lemma read_bins_from_keys:
  "read_bins_from keys n j r = Inr (bins, rest) \<Longrightarrow> list_all (\<lambda>b. keys (bin_key b)) bins"
  by (induction n arbitrary: j r bins) (auto simp: case_prod_beta)

lemma read_bins_keys: "read_bins blob_len keys r = Inr (bins, rest) \<Longrightarrow> list_all (\<lambda>b. keys (bin_key b)) bins"
  by (auto simp: read_bins_def dest: read_bins_from_keys)

lemma read_mapping_ok: "read_mapping fl r = Inr (m, rest) \<Longrightarrow> mapping_ok fl m \<and> 0 < mp_bin_limit m"
  by (auto simp: read_mapping_def mapping_ok_def try_logarithmic_def mapping_agent_def Let_def
      AGENT_BIN_LIMIT_def word_gt_0 split: if_splits)

lemma normalize_bins_bins_ok:
  assumes "addition_laws fl" and "0 < mp_bin_limit m" and "list_all (\<lambda>b. key_in_range m (bin_key b)) bins"
  shows "bins_ok m (normalize_bins fl (mp_bin_limit m) bins)"
  using normalize_bins_ok [OF assms(1,2), of bins] assms(3)
    normalize_bins_keys [of fl "mp_bin_limit m" bins]
  by (fastforce simp: bins_ok_def list_all_iff)

lemma from_stored_sketch_ok:
  assumes "addition_laws fl" and "mapping_ok fl m" and "0 < mp_bin_limit m"
    and "list_all (\<lambda>b. key_in_range m (bin_key b)) positive"
    and "list_all (\<lambda>b. key_in_range m (bin_key b)) negative"
  shows "sketch_ok fl (from_stored fl m positive negative zero_count stats exact)"
  using assms(2) normalize_bins_bins_ok [OF assms(1,3,4)] normalize_bins_bins_ok [OF assms(1,3,5)]
  by (auto simp: sketch_ok_def from_stored_def from_parts_def with_mapping_def set_stats_def
      derive_stats_def stored_stats_def positive_finite_def Let_def)

lemma dd_from_bytes_ok:
  assumes "addition_laws fl" and "dd_from_bytes_of fl bytes = Inr d"
  shows "sketch_ok fl d"
  using assms(2)
  by (auto simp: dd_from_bytes_of_def dest!: read_mapping_ok read_bins_keys
      intro!: from_stored_sketch_ok [OF assms(1)])

section \<open>Adding and merging\<close>

definition zero_ok :: "f64 \<Rightarrow> bool" where
  "zero_ok z \<longleftrightarrow> z = 0 \<or> positive_finite z"

definition stores_ok :: "dd_sketch \<Rightarrow> bool" where
  "stores_ok d \<longleftrightarrow> 0 < mp_bin_limit (dd_mapping d) \<and>
     store_ok (mp_bin_limit (dd_mapping d)) (dd_positive d) \<and>
     store_ok (mp_bin_limit (dd_mapping d)) (dd_negative d) \<and> zero_ok (dd_zero_count d)"

lemma store_ok_Nil [simp]: "store_ok limit []"
  by (simp add: store_ok_def ascending_def counts_ok_def)

lemma stores_ok_new: "0 < mp_bin_limit m \<Longrightarrow> stores_ok (with_mapping m)"
  by (simp add: stores_ok_def with_mapping_def zero_ok_def)

lemma sketch_insert_ok:
  assumes "addition_laws fl" and "stores_ok d" and "positive_finite count"
  shows "stores_ok (sketch_insert fl value count d)"
  using assms(2) insert_bin_ok [OF assms(1) _ _ assms(3)]
    add_counts_positive(2) [OF assms(1) assms(3), of "dd_zero_count d"]
  by (auto simp: sketch_insert_def stores_ok_def zero_ok_def Let_def)

lemma add_count_ok:
  assumes "addition_laws fl" and "stores_ok d"
  shows "stores_ok (add_count fl value count d)"
proof (cases "is_finite value \<and> is_finite count \<and> f64_lt 0 count")
  case True
  then have "stores_ok (sketch_insert fl value count d)"
    by (intro sketch_insert_ok [OF assms]) (simp add: positive_finite_def)
  with True show ?thesis by (simp add: add_count_def stores_ok_def Let_def)
qed (use assms(2) in \<open>auto simp: add_count_def\<close>)

lemma merge_mapped_ok:
  assumes "addition_laws fl" and "0 < mp_bin_limit m"
  shows "counts_ok bins \<Longrightarrow> store_ok (mp_bin_limit m) store \<Longrightarrow>
    store_ok (mp_bin_limit m) (merge_mapped fl m other store bins)"
proof (induction bins arbitrary: store)
  case (Cons b bins)
  then show ?case
    using insert_bin_ok [OF assms, of store "bin_count b"]
    by (simp add: merge_mapped_def counts_ok_Cons)
qed (simp add: merge_mapped_def)

lemma merge_stores_ok:
  assumes "addition_laws fl" and "stores_ok d" and "stores_ok other"
  shows "stores_ok (merge_stores fl d other)"
proof (cases "mapping_eq (dd_mapping d) (dd_mapping other)")
  case True
  then have "mp_bin_limit (dd_mapping other) = mp_bin_limit (dd_mapping d)"
    by (simp add: mapping_eq_def)
  with assms True show ?thesis
    by (auto simp: merge_stores_def stores_ok_def Let_def intro: merge_bins_ok)
next
  case False
  have "counts_ok (dd_positive other)" "counts_ok (dd_negative other)"
    using assms(3) by (simp_all add: stores_ok_def store_ok_def)
  with assms False show ?thesis
    by (auto simp: merge_stores_def stores_ok_def Let_def intro: merge_mapped_ok)
qed

lemma add_counts_zero_ok:
  assumes "addition_laws fl" and "zero_ok x" and "zero_ok y"
  shows "zero_ok (add_counts fl x y)"
proof (cases "x = 0 \<and> y = 0")
  case True
  with assms(1) have "add_counts fl x y = 0"
    by (simp add: addition_laws_def add_counts_def f64_min_def f64_lt_def rank_max)
  then show ?thesis by (simp add: zero_ok_def)
next
  case False
  with assms(2,3) show ?thesis using add_counts_positive [OF assms(1)] by (auto simp: zero_ok_def)
qed

lemma sketch_merge_ok:
  assumes "addition_laws fl" and "stores_ok d" and "stores_ok other"
  shows "stores_ok (sketch_merge fl d other)"
proof -
  have merged: "stores_ok (d'\<lparr>dd_zero_count := add_counts fl (dd_zero_count d') (dd_zero_count other),
      dd_count := c, dd_sum := s, dd_min := lo, dd_max := hi, dd_exact_stats := e\<rparr>)"
    if "stores_ok d'" for d' c s lo hi e
    using that assms(3) add_counts_zero_ok [OF assms(1)] by (simp add: stores_ok_def)
  have adopt: "stores_ok (d\<lparr>dd_mapping := dd_mapping other\<rparr>)"
    if "dd_positive d = []" "dd_negative d = []"
    using that assms(2,3) by (simp add: stores_ok_def)
  let ?a = "if \<not> mapping_eq (dd_mapping d) (dd_mapping other) \<and> f64_eq (dd_count d) 0 \<and>
      f64_eq (dd_zero_count d) 0 \<and> dd_positive d = [] \<and> dd_negative d = []
    then d\<lparr>dd_mapping := dd_mapping other\<rparr> else d"
  have a: "stores_ok ?a" using adopt assms(2) by simp
  show ?thesis
  proof (cases "f64_eq (dd_count other) 0 \<and> f64_eq (dd_zero_count other) 0")
    case True
    with assms(2) show ?thesis by (simp add: sketch_merge_def)
  next
    case False
    show ?thesis
      unfolding sketch_merge_def Let_def if_not_P [OF False]
      by (intro merged merge_stores_ok [OF assms(1) a assms(3)])
  qed
qed

lemma quantile_between:
  assumes "f64_le (dd_min d) (dd_max d)" and "quantile fl q d = Some x"
  shows "f64_le (dd_min d) x \<and> f64_le x (dd_max d)"
  using assms clamp_between [OF assms(1)]
  by (auto simp: quantile_def Let_def f64_le_refl f64_le_def split: if_splits)

end
