(* ===== verification/Native_File.thy ===== *)
theory Native_File
  imports Decoded Frame Sketch_Store
begin

text \<open>
  The blob codec a metric's summary goes through, with \<open>DdSketch\<close>'s own byte form, and the file
  format of \<open>crates/logit-proto/src/native/mod.rs\<close>: \<open>NativeEncoder\<close> and \<open>NativeDecoder\<close>, one
  framed batch.
\<close>

section \<open>The summaries of a metric\<close>

text \<open>
  \<open>HyperLogLog\<close> wraps the \<open>cardinality_estimator\<close> crate, so its codec stays a parameter.
\<close>

record 'h hll_codec =
  hc_to_bytes :: "'h \<Rightarrow> bytes"
  hc_from_bytes :: "bytes \<Rightarrow> 'h option"

definition summary_codec :: "float_ops \<Rightarrow> 'h hll_codec \<Rightarrow> (dd_sketch, 'h) blob_codec" where
  "summary_codec fl H =
     \<lparr>dd_to_bytes = dd_to_bytes_of,
      dd_from_bytes = (\<lambda>body. case dd_from_bytes_of fl body of Inr d \<Rightarrow> Some d | Inl _ \<Rightarrow> None),
      hll_to_bytes = hc_to_bytes H,
      hll_from_bytes = hc_from_bytes H\<rparr>"

lemma distribution_ok: "sketch_ok fl d \<Longrightarrow> kind_ok (summary_codec fl H) (MK_Distribution d)"
  by (simp add: summary_codec_def dd_from_bytes_written)

text \<open>A decoded distribution survives its codec: encoding it again and decoding gives it back.\<close>

lemma decoded_distribution_ok:
  assumes "addition_laws fl" and "dd_from_bytes (summary_codec fl H) body = Some d"
  shows "kind_ok (summary_codec fl H) (MK_Distribution d)"
proof -
  have "dd_from_bytes_of fl body = Inr d"
    using assms(2) by (auto simp: summary_codec_def split: sum.splits)
  then show ?thesis by (intro distribution_ok dd_from_bytes_ok [OF assms(1)])
qed

text \<open>
  What \<open>HyperLogLog::from_bytes\<close> documents: \<open>to_bytes\<close> is a fixed point across a round trip, so a
  decoded estimator is the one its bytes decode to.
\<close>

definition hll_laws :: "'h hll_codec \<Rightarrow> bool" where
  "hll_laws H \<longleftrightarrow> (\<forall>body h. hc_from_bytes H body = Some h \<longrightarrow>
     hc_from_bytes H (hc_to_bytes H h) = Some h)"

lemma summary_codec_recodes:
  assumes "addition_laws fl" and "hll_laws H"
  shows "recodes (summary_codec fl H)"
  unfolding recodes_def
proof (intro allI impI)
  fix kind assume k: "kind_decoded (summary_codec fl H) kind"
  show "kind_ok (summary_codec fl H) kind"
  proof (cases kind)
    case (MK_Distribution d)
    with k decoded_distribution_ok [OF assms(1)] show ?thesis by auto
  next
    case (MK_Set h)
    with k assms(2) show ?thesis by (auto simp: hll_laws_def summary_codec_def)
  qed simp_all
qed

section \<open>The file format\<close>

definition native_encode ::
    "frame_env \<Rightarrow> ('d, 'h) blob_codec \<Rightarrow> ('k \<Rightarrow> bytes) \<Rightarrow> compression \<Rightarrow> ('k, 'd, 'h) event_batch \<Rightarrow>
     bytes result" where
  "native_encode E B res compression batch =
     (let payload = encode_batch B res batch in write_frame E CODEC_BATCH compression payload)"

definition native_decode_into ::
    "frame_env \<Rightarrow> ('d, 'h) blob_codec \<Rightarrow> layout \<Rightarrow> bytes \<Rightarrow> (symbol, 'd, 'h) event list \<Rightarrow> interner \<Rightarrow>
     ((symbol resource \<times> symbol scope option) \<times> (symbol, 'd, 'h) event list \<times> interner) result" where
  "native_decode_into E B L bytes out t =
     bnd (read_frame E bytes) (\<lambda>((codec, payload), bytes).
     bnd (reject_if (codec \<noteq> CODEC_BATCH)
            (Unsupported ''frame codec byte, expected the bare native batch'')) (\<lambda>_.
     bnd (decode_batch B L payload (budget_new DEFAULT_DECODE_BUDGET) t) (\<lambda>(batch, _, _, t).
     Inr ((b_resource batch, b_scope batch),
          (if out = [] then b_events batch else out @ b_events batch), t))))"

lemma native_decode_written:
  assumes "frame_laws E" and "\<And>k. utf8_valid (res k)" and "distinct t"
    and "decodable B L res (budget_new DEFAULT_DECODE_BUDGET) batch"
    and "native_encode E B res c batch = Inr f"
  shows "native_decode_into E B L (f @ rest) out t =
    (let batch' = rename_batch (translate B res t batch) batch
     in Inr ((b_resource batch', b_scope batch'), out @ b_events batch', table_after B res t batch))"
proof -
  have f: "write_frame_with_flags E CODEC_BATCH c 0 (encode_batch B res batch) = Inr f"
    using assms(5) by (simp add: native_encode_def write_frame_def Let_def)
  have "read_frame E (f @ rest) = Inr ((CODEC_BATCH, encode_batch B res batch), rest)"
    by (simp add: read_frame_def read_frame_written [OF assms(1) f] frame_header_of_def)
  then show ?thesis
    using decode_batch_body_written [OF assms(2-4), of "[]"]
    by (simp add: native_decode_into_def decode_batch_def Let_def)
qed

end
