(* ===== verification/Ieee_Addition.thy ===== *)
theory Ieee_Addition
  imports Sketch_Store "HOL-Library.Log_Nat"
begin

text \<open>
  IEEE 754 addition of doubles, rounding to nearest with ties to even, which is what Rust's
  \<open>f64 + f64\<close> computes: it satisfies the laws the sketch's stores rely on (\<open>addition_laws\<close>). A
  finite double is a whole number of units of the smallest subnormal, so the exact sum is an
  integer and only one rounding happens.
\<close>

definition f64_units :: "f64 \<Rightarrow> int" where
  "f64_units x =
     (let e = unat (drop_bit 52 (f64_abs x)); m = uint (take_bit 52 x);
          n = (if e = 0 then m else (2 ^ 52 + m) * 2 ^ (e - 1))
      in if bit x 63 then - n else n)"

text \<open>
  The magnitude bits of \<open>n\<close> units. The exponent field is the number \<open>s\<close> of bits dropped plus
  one, and the implicit bit of the 53-bit significand \<open>q\<close> supplies that one; a significand that
  rounds up to \<open>2 ^ 53\<close> carries into the exponent, and the largest exponent is infinity.
\<close>

definition round_units :: "nat \<Rightarrow> nat" where
  "round_units n =
     (let s = floorlog 2 n - 53; q = n div 2 ^ s; r = n mod 2 ^ s;
          up = (2 * r > 2 ^ s \<or> 2 * r = 2 ^ s \<and> odd q)
      in min (s * 2 ^ 52 + q + (if up then 1 else 0)) 0x7ff0000000000000)"

definition F64_NAN :: f64 where "F64_NAN = 0x7ff8000000000000"
definition F64_NEG_ZERO :: f64 where "F64_NEG_ZERO = 0x8000000000000000"

definition ieee_add :: "f64 \<Rightarrow> f64 \<Rightarrow> f64" where
  "ieee_add a b =
     (if is_nan a \<or> is_nan b then F64_NAN
      else if \<not> is_finite a then (if \<not> is_finite b \<and> a \<noteq> b then F64_NAN else a)
      else if \<not> is_finite b then b
      else
        (let n = f64_units a + f64_units b in
         if n = 0 then (if a = F64_NEG_ZERO \<and> b = F64_NEG_ZERO then F64_NEG_ZERO else 0)
         else if n < 0 then f64_neg (of_nat (round_units (nat (- n))))
         else of_nat (round_units (nat n))))"

lemma round_units_bounds: "0 < n \<Longrightarrow> 0 < round_units n" "round_units n \<le> 0x7ff0000000000000"
proof -
  assume n: "0 < n"
  have "(2::nat) ^ (floorlog 2 n - 53) \<le> 2 ^ (floorlog 2 n - 1)" by (intro power_increasing) auto
  also have "\<dots> \<le> n" using floorlog_bounds [OF n, of 2] by simp
  finally have "0 < n div 2 ^ (floorlog 2 n - 53)" by (simp add: div_greater_zero_iff)
  then show "0 < round_units n" by (simp add: round_units_def Let_def)
qed (simp add: round_units_def Let_def)

lemma small_word:
  fixes w :: f64
  assumes "uint w < 2 ^ 63"
  shows "\<not> bit w 63" and "f64_abs w = w"
proof -
  have "\<not> bit (uint w) 63" using assms by (simp add: bit_iff_odd div_pos_pos_trivial)
  then show "\<not> bit w 63" by (simp add: bit_uint_iff)
  have "f64_abs w = take_bit 63 w" by (simp add: f64_abs_def take_bit_eq_mask mask_numeral)
  also have "uint \<dots> = uint w" using assms by (simp add: unsigned_take_bit_eq take_bit_int_eq_self)
  finally show "f64_abs w = w" by (simp add: word_uint_eq_iff)
qed

lemma rounded_positive:
  assumes "0 < n"
  shows "f64_lt 0 (of_nat (round_units n))"
proof -
  let ?r = "of_nat (round_units n) :: f64"
  have "uint ?r = take_bit 64 (int (round_units n))" by (simp add: unsigned_of_nat of_nat_take_bit)
  then have u: "uint ?r = int (round_units n)"
    using round_units_bounds(2) [of n] by (simp add: take_bit_int_eq_self)
  then have small: "uint ?r < 2 ^ 63" using round_units_bounds(2) [of n] by simp
  from small_word [OF small] show ?thesis
    using u round_units_bounds(2) [of n] round_units_bounds(1) [OF assms]
    by (simp add: f64_lt_def f64_rank_def is_nan_def F64_INFINITY_def word_less_def)
      (simp add: f64_abs_def)
qed

lemma positive_units:
  assumes "positive_finite x"
  shows "0 < f64_units x"
proof -
  have r: "0 < f64_rank x" using assms by (simp add: positive_finite_def f64_lt_def)
  then have b: "\<not> bit x 63" and "f64_abs x \<noteq> 0"
    using uint_nonnegative [of "f64_abs x"] by (auto simp: f64_rank_def split: if_splits)
  have "0 < uint (take_bit 52 x)" if "drop_bit 52 (f64_abs x) = 0"
  proof -
    have "f64_abs x = take_bit 63 x" by (simp add: f64_abs_def take_bit_eq_mask mask_numeral)
    with that have "f64_abs x = take_bit 52 (f64_abs x)"
      by (metis bits_ident add_0 push_bit_of_0)
    with \<open>f64_abs x = take_bit 63 x\<close> have "f64_abs x = take_bit 52 x" by simp
    with \<open>f64_abs x \<noteq> 0\<close> show ?thesis by (simp add: uint_0_iff order_less_le)
  qed
  then have "0 < uint (take_bit 52 x)" if "unat (drop_bit 52 (f64_abs x)) = 0"
    using that by (simp add: unat_eq_zero)
  with b show ?thesis
    by (auto simp: f64_units_def Let_def add_pos_nonneg)
qed

lemma ieee_add_positive:
  assumes "positive_finite a" and "b = 0 \<or> positive_finite b"
  shows "f64_lt 0 (ieee_add a b)" and "f64_lt 0 (ieee_add b a)"
proof -
  have zero: "f64_units 0 = 0" by (simp add: f64_units_def f64_abs_def)
  have fin: "is_finite a" "is_finite b" using assms by (auto simp: positive_finite_def)
  have "0 < f64_units a + f64_units b"
    using positive_units [OF assms(1)] positive_units [of b] assms(2) zero by fastforce
  with rounded_positive [of "nat (f64_units a + f64_units b)"]
  show "f64_lt 0 (ieee_add a b)" and "f64_lt 0 (ieee_add b a)"
    using fin finite_not_nan by (simp_all add: ieee_add_def Let_def add.commute)
qed

lemma ieee_addition_laws: "fl_add fl = ieee_add \<Longrightarrow> addition_laws fl"
proof -
  assume "fl_add fl = ieee_add"
  moreover have "ieee_add 0 0 = 0"
    by (simp add: ieee_add_def f64_units_def f64_abs_def F64_NEG_ZERO_def)
  ultimately show ?thesis using ieee_add_positive by (simp add: addition_laws_def)
qed

end
