(* ===== verification/Sketch_Runs.thy ===== *)
theory Sketch_Runs
  imports Ieee_Addition
begin

text \<open>
  The sketches a process can hold: everything that is built from empty sketches by adding values
  and merging, and, with \<open>blobs\<close>, sketches decoded from bytes a peer sent. What holds of all of
  them is proved by rule induction over how they were built.
\<close>

inductive sketch_built :: "float_ops \<Rightarrow> bool \<Rightarrow> dd_sketch \<Rightarrow> bool" for fl and blobs where
  built_new: "mapping_ok fl m \<Longrightarrow> sketch_built fl blobs (with_mapping m)"
| built_add: "sketch_built fl blobs d \<Longrightarrow> sketch_built fl blobs (add_count fl v count d)"
| built_merge: "sketch_built fl blobs d \<Longrightarrow> sketch_built fl blobs other \<Longrightarrow>
     sketch_built fl blobs (sketch_merge fl d other)"
| built_blob: "blobs \<Longrightarrow> dd_from_bytes_of fl bytes = Inr d \<Longrightarrow> sketch_built fl blobs d"

section \<open>Stores\<close>

lemma mapping_ok_limit: "mapping_ok fl m \<Longrightarrow> 0 < mp_bin_limit m"
  by (auto simp: mapping_ok_def mapping_agent_def Let_def AGENT_BIN_LIMIT_def try_logarithmic_def
      word_le_nat_alt word_less_nat_alt split: if_splits dest!: arg_cong [where f = mp_bin_limit])

lemma sketch_ok_stores: "sketch_ok fl d \<Longrightarrow> stores_ok d"
  by (auto simp: sketch_ok_def stores_ok_def bins_ok_def zero_ok_def mapping_ok_limit)

lemma built_stores_ok:
  assumes "addition_laws fl" and "sketch_built fl blobs d"
  shows "stores_ok d"
  using assms(2)
proof (induction rule: sketch_built.induct)
  case (built_new m)
  then show ?case by (simp add: stores_ok_new mapping_ok_limit)
next
  case (built_add d v count)
  then show ?case by (simp add: add_count_ok assms(1))
next
  case (built_merge d other)
  then show ?case by (simp add: sketch_merge_ok assms(1))
next
  case (built_blob bytes d)
  then show ?case using dd_from_bytes_ok [OF assms(1)] sketch_ok_stores by blast
qed

section \<open>Extremes\<close>

text \<open>Nothing was added yet, or the extremes are finite and in order.\<close>

definition untouched :: "dd_sketch \<Rightarrow> bool" where
  "untouched d \<longleftrightarrow> dd_min d = F64_INFINITY \<and> dd_max d = F64_NEG_INFINITY \<and> dd_count d = 0 \<and>
     dd_zero_count d = 0"

definition ordered :: "dd_sketch \<Rightarrow> bool" where
  "ordered d \<longleftrightarrow> is_finite (dd_min d) \<and> is_finite (dd_max d) \<and> f64_le (dd_min d) (dd_max d)"

lemma infinity_rank [simp]:
  "\<not> is_nan F64_INFINITY" "\<not> is_nan F64_NEG_INFINITY"
  "f64_rank F64_INFINITY = 0x7ff0000000000000" "f64_rank F64_NEG_INFINITY = - 0x7ff0000000000000"
  by (simp_all add: is_nan_def f64_abs_def f64_rank_def F64_INFINITY_def F64_NEG_INFINITY_def
      bit_numeral_rec)

lemma finite_rank:
  assumes "is_finite x"
  shows "- 0x7ff0000000000000 < f64_rank x" and "f64_rank x < 0x7ff0000000000000"
proof -
  have u: "0 \<le> uint (f64_abs x)" "uint (f64_abs x) < 0x7ff0000000000000"
    using assms by (simp_all add: is_finite_def F64_INFINITY_def word_less_def)
  have "f64_rank x = uint (f64_abs x) \<or> f64_rank x = - uint (f64_abs x)"
    by (simp add: f64_rank_def)
  with u show "- 0x7ff0000000000000 < f64_rank x" by linarith
  from \<open>f64_rank x = _ \<or> _\<close> u show "f64_rank x < 0x7ff0000000000000" by linarith
qed

text \<open>The two conditional updates of \<open>add_count\<close> and \<open>merge\<close>, with an ordered pair.\<close>

definition widen_min :: "f64 \<Rightarrow> f64 \<Rightarrow> f64" where
  "widen_min v lo = (if f64_lt v lo then v else lo)"

definition widen_max :: "f64 \<Rightarrow> f64 \<Rightarrow> f64" where
  "widen_max v hi = (if f64_lt hi v then v else hi)"

lemma widen_ordered:
  assumes "is_finite a" and "is_finite b" and "f64_le a b"
    and "lo = F64_INFINITY \<and> hi = F64_NEG_INFINITY \<or> is_finite lo \<and> is_finite hi \<and> f64_le lo hi"
  shows "is_finite (widen_min a lo) \<and> is_finite (widen_max b hi) \<and>
    f64_le (widen_min a lo) (widen_max b hi)"
  using assms finite_rank [of a] finite_rank [of b]
  by (auto simp: widen_min_def widen_max_def f64_lt_def f64_le_def finite_not_nan)

lemma add_count_extremes:
  assumes "untouched d \<or> ordered d"
  shows "untouched (add_count fl v count d) \<or> ordered (add_count fl v count d)"
proof (cases "is_finite v \<and> is_finite count \<and> f64_lt 0 count")
  case True
  have same: "dd_min (sketch_insert fl v count d) = dd_min d"
    "dd_max (sketch_insert fl v count d) = dd_max d"
    by (simp_all add: sketch_insert_def Let_def)
  have "dd_min (add_count fl v count d) = widen_min v (dd_min d)"
    "dd_max (add_count fl v count d) = widen_max v (dd_max d)"
    using True by (simp_all add: add_count_def Let_def same widen_min_def widen_max_def)
  moreover have "f64_le v v" using True by (simp add: f64_le_refl finite_not_nan)
  ultimately have "ordered (add_count fl v count d)"
    using True assms widen_ordered [of v v "dd_min d" "dd_max d"]
    by (auto simp: ordered_def untouched_def)
  then show ?thesis ..
qed (use assms in \<open>auto simp: add_count_def\<close>)

lemma merge_stores_frame:
  "dd_min (merge_stores fl d other) = dd_min d" "dd_max (merge_stores fl d other) = dd_max d"
  by (simp_all add: merge_stores_def Let_def)

lemma sketch_merge_extremes:
  assumes "untouched d \<or> ordered d" and "untouched other \<or> ordered other"
  shows "untouched (sketch_merge fl d other) \<or> ordered (sketch_merge fl d other)"
proof (cases "f64_eq (dd_count other) 0 \<and> f64_eq (dd_zero_count other) 0")
  case True
  with assms(1) show ?thesis by (simp add: sketch_merge_def)
next
  case False
  then have "\<not> untouched other" by (auto simp: untouched_def f64_eq_def)
  with assms(2) have "ordered other" by simp
  moreover have "dd_min (sketch_merge fl d other) = widen_min (dd_min other) (dd_min d)"
    "dd_max (sketch_merge fl d other) = widen_max (dd_max other) (dd_max d)"
    using False by (auto simp: sketch_merge_def Let_def merge_stores_frame widen_min_def widen_max_def)
  ultimately have "ordered (sketch_merge fl d other)"
    using assms(1) widen_ordered [of "dd_min other" "dd_max other" "dd_min d" "dd_max d"]
    by (auto simp: ordered_def untouched_def)
  then show ?thesis ..
qed

lemma built_extremes:
  assumes "sketch_built fl False d"
  shows "untouched d \<or> ordered d"
  using assms
proof (induction rule: sketch_built.induct)
  case (built_new m)
  then show ?case by (simp add: untouched_def with_mapping_def)
qed (simp_all add: add_count_extremes sketch_merge_extremes)

section \<open>Merging stores\<close>

lemma merge_bins_count_at:
  assumes "ascending a" and "ascending b" and "length (merge_loop fl a b) \<le> unat limit"
  shows "count_at (merge_bins fl limit a b) k = combine_counts fl (count_at a k) (count_at b k)"
  using merge_loop_count_at [OF assms(1,2)] assms(3) by (simp add: merge_bins_def collapse_short)

section \<open>A concrete environment\<close>

text \<open>
  A floating-point environment with IEEE addition; the other operations play no part in what is
  evaluated with it.
\<close>

definition sample_floats :: float_ops where
  "sample_floats = \<lparr>fl_add = ieee_add, fl_of_i64 = id, fl_of_u64 = id, fl_sub = (\<lambda>a b. a),
     fl_mul = (\<lambda>a b. a), fl_div = (\<lambda>a b. a), fl_ln = id, fl_ln_1p = id, fl_exp = id,
     fl_powf = (\<lambda>a b. a), fl_floor = id, fl_round = id, fl_round_ties_even = id,
     fl_of_i32 = ucast, fl_to_i32 = ucast, fl_to_u64 = id\<rparr>"

lemma sample_floats_laws: "addition_laws sample_floats"
  by (simp add: ieee_addition_laws sample_floats_def)

definition sample_sketch :: dd_sketch where
  "sample_sketch = sketch_add sample_floats F64_TWO (dd_new sample_floats)"

lemma sample_sketch_built: "sketch_built sample_floats blobs sample_sketch"
  unfolding sample_sketch_def sketch_add_def dd_new_def
  by (intro built_add built_new) (simp add: mapping_ok_def)

section \<open>Properties of sketches\<close>

text \<open>
  C39. Every sketch the program can hold, whether it was built here by adding and merging or came
  in as bytes, keeps its stores in order: bins with strictly ascending keys and positive finite
  counts, never more than the mapping's bin limit, and a zero count that is zero or positive.
\<close>

theorem sketch_stores_invariant:
  assumes "addition_laws fl" and "sketch_built fl blobs d"
  shows "stores_ok d"
  using assms by (rule built_stores_ok)

theorem sketch_stores_invariant_witness: "stores_ok sample_sketch"
  by (rule sketch_stores_invariant [OF sample_floats_laws sample_sketch_built [of True]])

text \<open>
  A sketch's bytes decode to the sketch. Decoding accepts any bytes that are well-formed and
  normalises them, so what it gives is always such a sketch: decoding, encoding and decoding again
  changes nothing.
\<close>

theorem decoded_sketch_fixed_point:
  assumes "addition_laws fl" and "dd_from_bytes_of fl bytes = Inr d"
  shows "sketch_ok fl d \<and> dd_from_bytes_of fl (dd_to_bytes_of d) = Inr d"
  using dd_from_bytes_ok [OF assms] by (simp add: dd_from_bytes_written)

lemma empty_sketch_ok: "sketch_ok fl (dd_new fl)"
  by (simp add: sketch_ok_def dd_new_def with_mapping_def mapping_ok_def bins_ok_def f64_le_refl)

theorem decoded_sketch_fixed_point_witness:
  "sketch_ok sample_floats (dd_new sample_floats) \<and>
   dd_from_bytes_of sample_floats (dd_to_bytes_of (dd_new sample_floats)) = Inr (dd_new sample_floats)"
  by (rule decoded_sketch_fixed_point
      [OF sample_floats_laws dd_from_bytes_written [OF empty_sketch_ok]])

text \<open>
  The byte form of a sketch is lossless: mapping, bins, exact statistics and the flag that says
  whether they are exact all read back.
\<close>

theorem sketch_bytes_round_trip:
  assumes "sketch_ok fl d"
  shows "dd_from_bytes_of fl (dd_to_bytes_of d) = Inr d"
  using assms by (rule dd_from_bytes_written)

theorem sketch_bytes_round_trip_witness:
  "dd_from_bytes_of sample_floats (dd_to_bytes_of (dd_new sample_floats)) = Inr (dd_new sample_floats)"
  by (rule sketch_bytes_round_trip [OF empty_sketch_ok])

text \<open>
  Merging two stores adds the counts key by key, as long as the result fits the bin limit: a
  key of one store keeps its count, a key of both gets their sum.
\<close>

theorem merge_adds_counts:
  assumes "ascending a" and "ascending b" and "length (merge_loop fl a b) \<le> unat limit"
  shows "count_at (merge_bins fl limit a b) k = combine_counts fl (count_at a k) (count_at b k)"
  using assms by (rule merge_bins_count_at)

theorem merge_adds_counts_witness:
  "let a = [\<lparr>bin_key = 1, bin_count = F64_ONE\<rparr>]; b = [\<lparr>bin_key = 3, bin_count = F64_TWO\<rparr>] in
   count_at (merge_bins sample_floats 4096 a b) 3 =
     combine_counts sample_floats (count_at a 3) (count_at b 3)"
  unfolding Let_def by (rule merge_adds_counts) (simp_all add: ascending_def compare_def)

text \<open>
  The quantile of a sketch built here is never outside the values that were added: whatever
  the floating-point estimate of the rank gives, the result is between the exact minimum and the
  exact maximum.
\<close>

theorem quantile_within_extremes:
  assumes "sketch_built fl False d" and "quantile fl q d = Some x"
  shows "f64_le (dd_min d) x \<and> f64_le x (dd_max d)"
proof -
  have "\<not> untouched d" using assms(2) by (auto simp: untouched_def quantile_def f64_le_refl)
  with built_extremes [OF assms(1)] have "f64_le (dd_min d) (dd_max d)" by (simp add: ordered_def)
  then show ?thesis using assms(2) by (rule quantile_between)
qed

lemma sample_stats: "dd_min sample_sketch = F64_TWO" "dd_count sample_sketch = ieee_add 0 F64_ONE"
  by (simp_all add: sample_sketch_def sketch_add_def add_count_def dd_new_def with_mapping_def
      sketch_insert_def Let_def sample_floats_def is_finite_def f64_abs_def F64_TWO_def F64_ONE_def
      F64_INFINITY_def f64_lt_def is_nan_def f64_rank_def)

lemma sample_quantile: "quantile sample_floats 0 sample_sketch = Some F64_TWO"
proof -
  have "positive_finite F64_ONE"
    by (simp add: positive_finite_def is_finite_def f64_lt_def is_nan_def f64_abs_def f64_rank_def
        F64_ONE_def F64_INFINITY_def bit_numeral_rec)
  then have "f64_lt 0 (ieee_add 0 F64_ONE)" by (rule ieee_add_positive(2)) simp
  then have "\<not> f64_le (ieee_add 0 F64_ONE) 0" by (simp add: f64_lt_def f64_le_def)
  then show ?thesis by (simp add: quantile_def sample_stats f64_lt_def f64_le_def)
qed

theorem quantile_within_extremes_witness:
  "f64_le (dd_min sample_sketch) F64_TWO \<and> f64_le F64_TWO (dd_max sample_sketch)"
  by (rule quantile_within_extremes [OF sample_sketch_built sample_quantile])

end
