(* ===== verification/Truncation.thy ===== *)
theory Truncation
  imports Native_Batch
begin

text \<open>
  No proper prefix of a payload decodes. A reader that succeeds is not changed by bytes appended
  to what it read (\<open>*_append\<close>): it only carves lengths it has seen, and more bytes never make a
  charge fail. So if a prefix decoded, decoding the whole would stop at the same place and leave
  the rest over, which both decoders reject.
\<close>

lemma read_uvarint_from_append:
  "read_uvarint_from i r bs = Inr (v, rest) \<Longrightarrow> read_uvarint_from i r (bs @ ext) = Inr (v, rest @ ext)"
  by (induction i r bs rule: read_uvarint_from.induct) (auto simp: Let_def split: if_splits)

lemma read_uvarint_append:
  "read_uvarint bs = Inr (v, rest) \<Longrightarrow> read_uvarint (bs @ ext) = Inr (v, rest @ ext)"
  by (simp add: read_uvarint_def read_uvarint_from_append)

lemma read_len_append: "read_len bs = Inr (n, rest) \<Longrightarrow> read_len (bs @ ext) = Inr (n, rest @ ext)"
  by (auto simp: read_len_def read_uvarint_append)

lemma read_u8_append: "read_u8 bs = Inr (b, rest) \<Longrightarrow> read_u8 (bs @ ext) = Inr (b, rest @ ext)"
  by (cases bs) simp_all

lemma split_to_append_right:
  "split_to e n bs = Inr (p, rest) \<Longrightarrow> split_to e n (bs @ ext) = Inr (p, rest @ ext)"
  by (auto simp: split_to_eq_Inr)

lemmas reads_append = read_uvarint_append read_len_append read_u8_append split_to_append_right

lemma read_section_append:
  "read_section what r bs b = Inr (x, rest, b') \<Longrightarrow>
     read_section what r (bs @ ext) b = Inr (x, rest @ ext, b')"
  by (auto simp: read_section_def reads_append)

lemma repeat_read_append:
  assumes "\<And>s x s'. r s = Inr (x, s') \<Longrightarrow> r (f s) = Inr (x, f s')"
    and "repeat_read n r s = Inr (xs, s')"
  shows "repeat_read n r (f s) = Inr (xs, f s')"
  using assms(2) by (induction n arbitrary: s xs) (auto simp: assms(1))

abbreviation longer :: "bytes \<Rightarrow> bytes \<times> 's \<Rightarrow> bytes \<times> 's" where
  "longer ext \<equiv> (\<lambda>(bs, s). (bs @ ext, s))"

lemma read_dict_entry_append:
  "read_dict_entry L s = Inr (x, s') \<Longrightarrow> read_dict_entry L (longer ext s) = Inr (x, longer ext s')"
  by (cases s) (auto simp: read_dict_entry_def reads_append split: prod.splits)

lemma dict_read_append:
  assumes "dict_read L bs b t = Inr (R, rest, b', t')"
  shows "dict_read L (bs @ ext) b t = Inr (R, rest @ ext, b', t')"
proof -
  from assms obtain count r1 where "read_len bs = Inr (count, r1)" "count \<le> MAX_SANE_DICT_ENTRIES"
    "repeat_read count (read_dict_entry L) (r1, b, t) = Inr (R, rest, b', t')"
    by (auto simp: dict_read_def)
  moreover from this(3) have "repeat_read count (read_dict_entry L) (longer ext (r1, b, t))
      = Inr (R, longer ext (rest, b', t'))"
    by (rule repeat_read_append [rotated]) (rule read_dict_entry_append)
  ultimately show ?thesis by (simp add: dict_read_def reads_append)
qed

lemma read_scope_section_append:
  "read_scope_section L R bs b = Inr (x, rest, b') \<Longrightarrow>
     read_scope_section L R (bs @ ext) b = Inr (x, rest @ ext, b')"
  by (auto simp: read_scope_section_def reads_append read_section_append split: if_splits)

lemma read_events_append:
  assumes "read_events B L R bs b = Inr (es, rest, b')"
  shows "read_events B L R (bs @ ext) b = Inr (es, rest @ ext, b')"
proof -
  let ?r = "\<lambda>(bytes, b). read_section ''event declares more bytes than remain'' (read_event B L R) bytes b"
  from assms obtain count r1 b1 where "read_len bs = Inr (count, r1)" "count \<le> MAX_SANE_EVENT_COUNT"
    "charge_list count 1 (length r1) (sz_event L) b = Inr b1"
    "repeat_read count ?r (r1, b1) = Inr (es, rest, b')"
    by (auto simp: read_events_def)
  moreover have "charge_list count 1 (length (r1 @ ext)) (sz_event L) b = Inr b1"
    using calculation(3) by (rule charge_list_mono) simp
  moreover have "?r (longer ext s) = Inr (x, longer ext s')" if "?r s = Inr (x, s')" for s x s'
    using that by (cases s; cases s') (simp add: read_section_append)
  then have "repeat_read count ?r (longer ext (r1, b1)) = Inr (es, longer ext (rest, b'))"
    by (rule repeat_read_append [where f = "longer ext"]) (assumption, rule calculation(4))
  ultimately show ?thesis by (simp add: read_events_def reads_append)
qed

lemma read_sections_append:
  "read_sections B L R bs b = Inr (x, rest, b') \<Longrightarrow>
     read_sections B L R (bs @ ext) b = Inr (x, rest @ ext, b')"
  by (auto simp: read_sections_def read_section_append read_scope_section_append read_events_append)

lemma decode_batch_body_append:
  assumes "decode_batch_body B L bs b t = Inr (x, rest, b', t')"
  shows "decode_batch_body B L (bs @ ext) b t = Inr (x, rest @ ext, b', t')"
  using assms by (auto simp: decode_batch_body_def dict_read_append read_sections_append)

lemma read_hop_prefix_append:
  "read_hop_prefix bs = Inr (x, rest) \<Longrightarrow> read_hop_prefix (bs @ ext) = Inr (x, rest @ ext)"
  by (auto simp: read_hop_prefix_def reads_append split: sum.splits)

lemma decode_batch_rejects_longer:
  assumes "decode_batch B L bs b t = Inr x" and "ext \<noteq> []"
  shows "\<exists>e. decode_batch B L (bs @ ext) b t = Inl e"
  using assms by (auto simp: decode_batch_def decode_batch_body_append ensure_consumed_def)

lemma decode_hop_rejects_longer:
  assumes "decode_hop_batch B L bs b t = Inr x" and "ext \<noteq> []"
  shows "\<exists>e. decode_hop_batch B L (bs @ ext) b t = Inl e"
  using assms
  by (auto simp: decode_hop_batch_def decode_hop_body_def read_hop_prefix_append
      decode_batch_body_append reads_append ensure_consumed_def)

lemma take_append_rest: "n < length xs \<Longrightarrow> \<exists>ext. xs = take n xs @ ext \<and> ext \<noteq> []"
  by (rule exI [of _ "drop n xs"]) simp

lemma prefix_rejected:
  fixes dec :: "bytes \<Rightarrow> 'a result"
  assumes "\<And>bs x ext. dec bs = Inr x \<Longrightarrow> ext \<noteq> [] \<Longrightarrow> \<exists>e. dec (bs @ ext) = Inl e"
    and "dec xs = Inr y" and "n < length xs"
  shows "\<exists>e. dec (take n xs) = Inl e"
proof (cases "dec (take n xs)")
  case (Inr x)
  obtain ext where "xs = take n xs @ ext" "ext \<noteq> []" using take_append_rest [OF assms(3)] by blast
  with assms(1) [OF Inr] assms(2) show ?thesis by force
qed simp

lemma decode_batch_prefix_rejected:
  "decode_batch B L xs b t = Inr y \<Longrightarrow> n < length xs \<Longrightarrow>
     \<exists>e. decode_batch B L (take n xs) b t = Inl e"
  by (rule prefix_rejected [where dec = "\<lambda>bs. decode_batch B L bs b t"])
    (rule decode_batch_rejects_longer)

lemma decode_hop_prefix_rejected:
  "decode_hop_batch B L xs b t = Inr y \<Longrightarrow> n < length xs \<Longrightarrow>
     \<exists>e. decode_hop_batch B L (take n xs) b t = Inl e"
  by (rule prefix_rejected [where dec = "\<lambda>bs. decode_hop_batch B L bs b t"])
    (rule decode_hop_rejects_longer)

end
