(* ===== verification/Logit_Out.thy ===== *)
theory Logit_Out
  imports Native_Batch Frame Control
begin

text \<open>
  \<open>crates/logit-outputs/src/logit.rs\<close>: the native sink, with the bounded write of
  \<open>crates/logit-outputs/src/stream.rs\<close> and the fault classes of
  \<open>crates/logit-pipeline/src/output.rs\<close>. As in \<open>Logit_In\<close>, what the sink meets is an environment:
  the \<open>n\<close>-th dial, write, probe or timeout has the \<open>n\<close>-th answer. A dialled stream is the bytes the
  peer sends on it. Errors keep their fault, their head-only mark and the constant part of their
  message.
\<close>

section \<open>Fault classes\<close>

datatype fault = Clean | Ambiguous | Rejected_Batch | Refused

datatype delivery_posture = At_Least_Once | At_Most_Once

record send_error =
  er_fault :: "fault option"
  er_head_only :: bool
  er_message :: string

definition with_fault :: "fault \<Rightarrow> string \<Rightarrow> send_error" where
  "with_fault f m = \<lparr>er_fault = Some f, er_head_only = False, er_message = m\<rparr>"

definition classify :: "send_error \<Rightarrow> fault" where
  "classify e = (case er_fault e of Some f \<Rightarrow> f | None \<Rightarrow> Rejected_Batch)"

definition is_head_only :: "send_error \<Rightarrow> bool" where
  "is_head_only e = er_head_only e"

fun is_retryable :: "fault \<Rightarrow> delivery_posture \<Rightarrow> bool" where
  "is_retryable Clean _ = True"
| "is_retryable Refused _ = True"
| "is_retryable Ambiguous At_Least_Once = True"
| "is_retryable Ambiguous At_Most_Once = False"
| "is_retryable Rejected_Batch _ = False"

section \<open>The sink's state\<close>

record in_flight =
  fl_seq :: seq_id
  fl_acked :: bool

record out_conn =
  oc_input :: bytes
  oc_written :: bytes
  oc_peer_max_frame_bytes :: u32
  oc_compression :: compression
  oc_window :: nat
  oc_in_flight :: "in_flight list"
  oc_broken :: bool
  oc_marks :: "(bytes \<times> u64) list"

record batch_context =
  bc_trace :: hop_trace
  bc_provenance :: "symbol provenance"

datatype out_effect =
    Ox_Count string string
  | Ox_Gauge string nat
  | Ox_Warn string

record logit_output =
  lo_compression :: compression
  lo_window :: u32
  lo_stream :: "out_conn option"
  lo_has_connected_once :: bool
  lo_pending_ctx :: batch_context
  lo_pending_seq :: "seq_id option"
  lo_resend_senders :: "bytes list"
  lo_clock :: nat
  lo_log :: "out_effect list"

text \<open>One \<open>write\<close> call: the bytes it accepted, or nothing within the bound, or an error.\<close>

datatype write_step = Takes nat | Stalls | Write_Error

record ('d, 'h) out_env =
  oe_dial :: "nat \<Rightarrow> bytes option"
  oe_write :: "nat \<Rightarrow> write_step"
  oe_flush :: "nat \<Rightarrow> bool"
  oe_probe_open :: "nat \<Rightarrow> bool"
  oe_times_out :: "nat \<Rightarrow> bool"
  oe_samples_trace :: "bytes \<Rightarrow> bool"
  oe_frame :: frame_env
  oe_blobs :: "('d, 'h) blob_codec"
  oe_resolve :: "symbol \<Rightarrow> bytes"

definition o_tick :: "logit_output \<Rightarrow> logit_output" where
  "o_tick lo = lo\<lparr>lo_clock := lo_clock lo + 1\<rparr>"

definition o_emit :: "out_effect \<Rightarrow> logit_output \<Rightarrow> logit_output" where
  "o_emit x lo = lo\<lparr>lo_log := lo_log lo @ [x]\<rparr>"

text \<open>\<open>Drop for Conn\<close>.\<close>

definition drop_conn :: "logit_output \<Rightarrow> logit_output" where
  "drop_conn lo = o_emit (Ox_Gauge ''logit.output.window'' 1) (o_emit (Ox_Gauge ''logit.output.in_flight'' 0) lo)"

definition record_in_flight :: "nat \<Rightarrow> logit_output \<Rightarrow> logit_output" where
  "record_in_flight n lo = o_emit (Ox_Gauge ''logit.output.in_flight'' n) lo"

definition DEFAULT_WINDOW :: u32 where "DEFAULT_WINDOW = 32"

definition no_context :: batch_context where
  "no_context = \<lparr>bc_trace = \<lparr>ht_trace_id = replicate 16 0, ht_span_id = replicate 8 0\<rparr>,
     bc_provenance = \<lparr>pv_origin = None, pv_previous = None\<rparr>\<rparr>"

definition output_new :: logit_output where
  "output_new = \<lparr>lo_compression = Compression_None, lo_window = DEFAULT_WINDOW, lo_stream = None,
     lo_has_connected_once = False, lo_pending_ctx = no_context, lo_pending_seq = None,
     lo_resend_senders = [], lo_clock = 0, lo_log = []\<rparr>"

definition with_concurrency :: "u32 \<Rightarrow> logit_output \<Rightarrow> logit_output" where
  "with_concurrency concurrency lo = lo\<lparr>lo_window := concurrency\<rparr>"

definition with_compression :: "compression \<Rightarrow> logit_output \<Rightarrow> logit_output" where
  "with_compression compression lo = lo\<lparr>lo_compression := compression\<rparr>"

section \<open>The in-flight list\<close>

definition conn_nothing_in_flight :: "out_conn \<Rightarrow> bool" where
  "conn_nothing_in_flight c \<longleftrightarrow> oc_in_flight c = []"

text \<open>\<open>HashMap::get\<close> on the collected pairs: a later pair of one key replaces an earlier.\<close>

definition covers :: "out_conn \<Rightarrow> seq_id \<Rightarrow> bool" where
  "covers c s \<longleftrightarrow> (case map_of (rev (oc_marks c)) (sq_id s) of Some mark \<Rightarrow> sq_seq s \<le> mark | None \<Rightarrow> False)"

fun collect_senders :: "in_flight list \<Rightarrow> bytes list \<Rightarrow> bytes list" where
  "collect_senders [] senders = senders"
| "collect_senders (entry # es) senders =
     (if length senders = MAX_HELLO_SENDERS then senders
      else collect_senders es
        (if sq_id (fl_seq entry) \<in> set senders then senders else senders @ [sq_id (fl_seq entry)]))"

definition resend_senders :: "out_conn \<Rightarrow> bytes list" where
  "resend_senders c = collect_senders (oc_in_flight c) []"

text \<open>The marking loop: the es it leaves, and whether one carries the named sequence.\<close>

fun mark_run :: "ack \<Rightarrow> in_flight list \<Rightarrow> bool \<Rightarrow> in_flight list \<times> bool" where
  "mark_run a [] named = ([], named)"
| "mark_run a (entry # es) named =
     (if sq_id (fl_seq entry) \<noteq> ack_id a \<or> sq_seq (fl_seq entry) > ack_seq a then (entry # es, named)
      else
        (let (es, named) = mark_run a es (named \<or> sq_seq (fl_seq entry) = ack_seq a)
         in (entry\<lparr>fl_acked := True\<rparr> # es, named)))"

definition mark_acked :: "in_flight list \<Rightarrow> ack \<Rightarrow> string + in_flight list" where
  "mark_acked q a =
     (case q of
        [] \<Rightarrow> Inl ''logit_in acked with no frame in flight''
      | front # _ \<Rightarrow>
          if sq_id (fl_seq front) \<noteq> ack_id a then Inl ''logit_in acked another identity''
          else
            (let (q, named) = mark_run a q False
             in if \<not> named then Inl ''logit_in acked a sequence no frame in flight carries'' else Inr q))"

definition settle_rejected :: "in_flight list \<Rightarrow> bytes \<Rightarrow> u64 \<Rightarrow> string + in_flight list" where
  "settle_rejected q i seq =
     (case q of
        front # rest \<Rightarrow>
          if fl_seq front = \<lparr>sq_id = i, sq_seq = seq\<rparr> \<and> \<not> fl_acked front then Inr rest
          else Inl ''logit_in rejected another sequence''
      | [] \<Rightarrow> Inl ''logit_in rejected a sequence with no frame in flight'')"

definition rejected_head :: "u16 \<Rightarrow> send_error" where
  "rejected_head reason =
     (let reason = (if reason = ACK_REJECTED_TOO_LARGE then ''too_large''
                    else if reason = ACK_REJECTED_DECODE_BUDGET then ''decode_budget''
                    else if reason = ACK_REJECTED_MALFORMED then ''malformed'' else ''code'')
      in \<lparr>er_fault = Some Rejected_Batch, er_head_only = True,
          er_message = ''logit_in rejected sequence: '' @ reason\<rparr>)"

section \<open>The wire\<close>

definition WRITE_CHUNK :: nat where "WRITE_CHUNK = 64 * 1024"

text \<open>\<open>write_counting\<close>: the bytes that left, and whether the write and its flush finished.\<close>

function write_counting :: "('d, 'h) out_env \<Rightarrow> bytes \<Rightarrow> bytes \<Rightarrow> nat \<Rightarrow> bool \<times> bytes \<times> nat" where
  "write_counting E bytes sent clock =
     (if bytes \<noteq> [] then
        (case oe_write E clock of
           Takes n \<Rightarrow>
             (let n = min n (min (length bytes) WRITE_CHUNK)
              in if n = 0 then (False, sent, clock + 1)
                 else write_counting E (drop n bytes) (sent @ take n bytes) (clock + 1))
         | _ \<Rightarrow> (False, sent, clock + 1))
      else (oe_flush E clock, sent, clock + 1))"
  by pat_completeness auto
termination
  by (relation "measure (\<lambda>(E, bytes, sent, clock). length bytes)") auto

declare write_counting.simps [simp del]

definition write_with_progress ::
    "('d, 'h) out_env \<Rightarrow> bytes \<Rightarrow> logit_output \<Rightarrow> bool \<times> bytes \<times> logit_output" where
  "write_with_progress E bytes lo =
     (let (done, sent, clock) = write_counting E bytes [] (lo_clock lo) in (done, sent, lo\<lparr>lo_clock := clock\<rparr>))"

text \<open>\<open>read_exact\<close>, on the bytes the peer sends before it closes.\<close>

definition read_exact :: "nat \<Rightarrow> bytes \<Rightarrow> string + bytes \<times> bytes" where
  "read_exact n input = (if length input < n then Inl ''early eof'' else Inr (take n input, drop n input))"

definition read_control :: "frame_env \<Rightarrow> bytes \<Rightarrow> string + control_message \<times> bytes" where
  "read_control F input =
     bnd (read_exact HEADER_LEN input) (\<lambda>(header_buf, input).
     bnd (case header_read header_buf of
            Inl _ \<Rightarrow> Inl ''reading a control frame header'' | Inr (h, _) \<Rightarrow> Inr h) (\<lambda>header.
     bnd (reject_if (unat (fh_uncompressed_len header) > MAX_CONTROL_MESSAGE_BYTES \<or>
                     unat (fh_compressed_len header) > MAX_CONTROL_MESSAGE_BYTES)
            ''control frame declares bytes over the control message cap'') (\<lambda>_.
     bnd (read_exact (unat (fh_compressed_len header)) input) (\<lambda>(body, input).
     bnd (case read_frame_with_header F (header_buf @ body) of
            Inl _ \<Rightarrow> Inl ''reading a control frame'' | Inr (r, _) \<Rightarrow> Inr r) (\<lambda>(header, payload).
     bnd (reject_if (fh_flags header AND FLAG_CONTROL = 0)
            ''expected a control frame, got a data frame'') (\<lambda>_.
     case control_decode payload of
       Inl _ \<Rightarrow> Inl ''decoding a control message'' | Inr m \<Rightarrow> Inr (m, input)))))))"

section \<open>The handshake\<close>

definition sink_compression_from_u8 :: "u8 \<Rightarrow> compression option" where
  "sink_compression_from_u8 b =
     (if b = 0 then Some Compression_None else if b = 1 then Some Compression_Lz4 else None)"

text \<open>The loop over the marks: each listed, none twice.\<close>

definition marks_answer :: "hello_ack \<Rightarrow> hello \<Rightarrow> string + unit" where
  "marks_answer a m =
     (case find (\<lambda>k. fst (ha_marks a ! k) \<notin> set (h_senders m) \<or>
                     fst (ha_marks a ! k) \<in> fst ` set (take k (ha_marks a))) [0..<length (ha_marks a)] of
        Some k \<Rightarrow>
          Inl (if fst (ha_marks a ! k) \<notin> set (h_senders m)
               then ''logit_in answered a mark for an identity this sink's Hello didn't list''
               else ''logit_in answered two marks for an identity'')
      | None \<Rightarrow> Inr ())"

definition validate_hello_ack :: "hello_ack \<Rightarrow> hello \<Rightarrow> string + compression" where
  "validate_hello_ack a m =
     bnd (reject_if (ha_version a \<noteq> h_version m) ''logit_in answered another HelloAck version'') (\<lambda>_.
     bnd (reject_if (ha_codec a \<notin> set (h_codecs m)) ''logit_in acked a codec never offered'') (\<lambda>_.
     bnd (marks_answer a m) (\<lambda>_.
     case sink_compression_from_u8 (ha_compression a) of
       Some compression \<Rightarrow>
         if ha_compression a \<in> set (h_compressions m) then Inr compression
         else Inl ''logit_in acked a compression never offered''
     | None \<Rightarrow> Inl ''logit_in acked a compression never offered'')))"

definition reject_fault :: "u16 \<Rightarrow> fault option" where
  "reject_fault code =
     (if code = REJECT_VERSION_MISMATCH \<or> code = REJECT_NO_COMMON_CODEC then Some Refused
      else if code = REJECT_FRAME_TOO_LARGE then Some Rejected_Batch else None)"

definition reject_in_place_of_ack :: "reject \<Rightarrow> send_error" where
  "reject_in_place_of_ack r =
     with_fault
       (case reject_fault (rj_code r) of
          Some f \<Rightarrow> f
        | None \<Rightarrow> if rj_code r = REJECT_GOING_AWAY then Clean else Ambiguous)
       ''logit_in rejected this connection''"

definition hello_of :: "logit_output \<Rightarrow> hello" where
  "hello_of lo = \<lparr>h_version = PROTOCOL_VERSION, h_codecs = [CODEC_HOP_BATCH],
     h_compressions = [compression_byte Compression_None, compression_byte (lo_compression lo)],
     h_max_frame_bytes = of_nat MAX_SANE_UNCOMPRESSED_LEN, h_window = lo_window lo,
     h_senders = lo_resend_senders lo\<rparr>"

definition hello_frame :: "('d, 'h) out_env \<Rightarrow> hello \<Rightarrow> bytes result" where
  "hello_frame E m =
     write_frame_with_flags (oe_frame E) 0 Compression_None FLAG_CONTROL (hello_encode m)"

text \<open>What a validated \<open>HelloAck\<close> makes of the stream and the sink.\<close>

definition conn_of :: "logit_output \<Rightarrow> hello_ack \<Rightarrow> compression \<Rightarrow> bytes \<Rightarrow> bytes \<Rightarrow> out_conn" where
  "conn_of lo a compression written input =
     \<lparr>oc_input = input, oc_written = written, oc_peer_max_frame_bytes = ha_max_frame_bytes a,
      oc_compression = compression, oc_window = unat (min (lo_window lo) (ha_window a)),
      oc_in_flight = [], oc_broken = False, oc_marks = ha_marks a\<rparr>"

definition handshaken :: "nat \<Rightarrow> logit_output \<Rightarrow> logit_output" where
  "handshaken window lo =
     (let lo = o_emit (Ox_Gauge ''logit.output.window'' window) lo;
          lo = (if lo_has_connected_once lo then o_emit (Ox_Count ''logit.output.reconnects'' []) lo
                else lo\<lparr>lo_has_connected_once := True\<rparr>)
      in lo\<lparr>lo_resend_senders := []\<rparr>)"

definition out_handshake ::
    "('d, 'h) out_env \<Rightarrow> bytes \<Rightarrow> logit_output \<Rightarrow> (send_error + out_conn) \<times> logit_output" where
  "out_handshake E input lo =
     (case hello_frame E (hello_of lo) of
        Inl _ \<Rightarrow> (Inl (with_fault Clean ''framing Hello''), lo)
      | Inr framed \<Rightarrow>
          (let (done, sent, lo) = write_with_progress E framed lo in
           if \<not> done then (Inl (with_fault Clean ''writing Hello to logit_in''), lo)
           else if oe_times_out E (lo_clock lo) then
             (Inl (with_fault Clean ''timed out waiting for HelloAck''), o_tick lo)
           else
             (case read_control (oe_frame E) input of
                Inl m \<Rightarrow> (Inl (with_fault Clean m), o_tick lo)
              | Inr (CM_HelloAck a, input) \<Rightarrow>
                  (case validate_hello_ack a (hello_of lo) of
                     Inl m \<Rightarrow> (Inl (with_fault Refused m), o_tick lo)
                   | Inr compression \<Rightarrow>
                       (let conn = conn_of lo a compression sent input
                        in (Inr conn, handshaken (oc_window conn) (o_tick lo))))
              | Inr (CM_Reject r, _) \<Rightarrow>
                  (Inl (with_fault (case reject_fault (rj_code r) of Some f \<Rightarrow> f | None \<Rightarrow> Clean)
                          ''logit_in rejected this connection''), o_tick lo)
              | Inr _ \<Rightarrow> (Inl (with_fault Clean ''expected HelloAck or Reject''), o_tick lo))))"

definition connect_and_handshake ::
    "('d, 'h) out_env \<Rightarrow> logit_output \<Rightarrow> (send_error + out_conn) \<times> logit_output" where
  "connect_and_handshake E lo =
     (case oe_dial E (lo_clock lo) of
        None \<Rightarrow> (Inl (with_fault Clean ''connecting to logit_in''), o_tick lo)
      | Some input \<Rightarrow> out_handshake E input (o_tick lo))"

section \<open>Submitting a frame\<close>

definition nothing_in_flight :: "logit_output \<Rightarrow> bool" where
  "nothing_in_flight lo = (case lo_stream lo of None \<Rightarrow> True | Some c \<Rightarrow> conn_nothing_in_flight c)"

definition warn_at_head :: "logit_output \<Rightarrow> logit_output" where
  "warn_at_head lo = (if nothing_in_flight lo then o_emit (Ox_Warn ''frame_too_large'') lo else lo)"

fun out_compression_tag :: "compression \<Rightarrow> string" where
  "out_compression_tag Compression_None = ''none''"
| "out_compression_tag Compression_Lz4 = ''lz4''"
| "out_compression_tag Compression_Zstd = ''zstd''"

text \<open>The connection the frame is written on: the pooled one, or a new one behind a closed probe.\<close>

definition take_conn ::
    "('d, 'h) out_env \<Rightarrow> bool \<Rightarrow> logit_output \<Rightarrow> (send_error + out_conn) \<times> logit_output" where
  "take_conn E fresh lo =
     (case lo_stream lo of
        Some conn \<Rightarrow>
          (if oc_broken conn then
             (Inl \<lparr>er_fault = None, er_head_only = False,
                   er_message = ''this connection stopped taking frames''\<rparr>, lo)
           else if fresh \<or> \<not> conn_nothing_in_flight conn then (Inr conn, lo\<lparr>lo_stream := None\<rparr>)
           else if oe_probe_open E (lo_clock lo) then (Inr conn, (o_tick lo)\<lparr>lo_stream := None\<rparr>)
           else connect_and_handshake E (drop_conn ((o_tick lo)\<lparr>lo_stream := None\<rparr>)))
      | None \<Rightarrow> connect_and_handshake E lo)"

text \<open>The frame itself, with the write it costs; a write that fails at the head drops the connection.\<close>

definition write_frame_on ::
    "('d, 'h) out_env \<Rightarrow> out_conn \<Rightarrow> bytes \<Rightarrow> seq_id \<Rightarrow> logit_output \<Rightarrow> (send_error + unit) \<times> logit_output" where
  "write_frame_on E conn framed s lo =
     (let (done, sent, lo) = write_with_progress E framed lo;
          conn = conn\<lparr>oc_written := oc_written conn @ sent\<rparr>
      in if done then
           (let lo = o_emit (Ox_Count ''logit.proto.frames'' (out_compression_tag (oc_compression conn))) lo;
                lo = o_emit (Ox_Count ''logit.proto.frame.bytes'' ''out'') lo;
                conn = conn\<lparr>oc_in_flight := oc_in_flight conn @ [\<lparr>fl_seq = s, fl_acked = False\<rparr>]\<rparr>;
                lo = record_in_flight (length (oc_in_flight conn)) lo
            in (Inr (), lo\<lparr>lo_stream := Some conn\<rparr>))
         else if conn_nothing_in_flight conn then
           (Inl (with_fault Clean ''writing a frame to logit_in''), drop_conn lo)
         else
           (Inl \<lparr>er_fault = None, er_head_only = False, er_message = ''writing a frame to logit_in''\<rparr>,
            lo\<lparr>lo_stream := Some (conn\<lparr>oc_broken := True\<rparr>)\<rparr>))"

definition frame_on_conn ::
    "('d, 'h) out_env \<Rightarrow> out_conn \<Rightarrow> bytes \<Rightarrow> seq_id \<Rightarrow> logit_output \<Rightarrow> (send_error + unit) \<times> logit_output" where
  "frame_on_conn E conn payload s lo =
     (let bound = min (unat (oc_peer_max_frame_bytes conn)) MAX_SANE_UNCOMPRESSED_LEN;
          kept = lo\<lparr>lo_stream := Some conn\<rparr>
      in if length payload > bound then
           (Inl (with_fault Rejected_Batch ''batch too large for this connection''), warn_at_head kept)
         else
           (case write_frame_with_flags (oe_frame E) CODEC_HOP_BATCH (oc_compression conn) 0 payload of
              Inl _ \<Rightarrow> (Inl (with_fault Rejected_Batch ''framing the batch''), kept)
            | Inr framed \<Rightarrow>
                if length framed - HEADER_LEN > compressed_bound bound then
                  (Inl (with_fault Rejected_Batch ''compressed batch too large for this connection''),
                   warn_at_head kept)
                else write_frame_on E conn framed s lo))"

definition hop_payload ::
    "('d, 'h) out_env \<Rightarrow> (symbol, 'd, 'h) event_batch \<Rightarrow> batch_context \<Rightarrow> seq_id \<Rightarrow> bytes" where
  "hop_payload E batch ctx s =
     encode_hop_batch (oe_blobs E) (oe_resolve E) batch (bc_provenance ctx)
       (if oe_samples_trace E (ht_trace_id (bc_trace ctx)) then Some (bc_trace ctx) else None) s"

definition submit_frame ::
    "('d, 'h) out_env \<Rightarrow> (symbol, 'd, 'h) event_batch \<Rightarrow> batch_context \<Rightarrow> seq_id \<Rightarrow> logit_output \<Rightarrow>
     (send_error + unit) \<times> logit_output" where
  "submit_frame E batch ctx s lo =
     (let fresh = (lo_stream lo = None \<and> lo_resend_senders lo \<noteq> []) in
      case (if fresh then
              (case connect_and_handshake E lo of
                 (Inl e, lo) \<Rightarrow> (Inl e, lo)
               | (Inr conn, lo) \<Rightarrow> (Inr (), lo\<lparr>lo_stream := Some conn\<rparr>))
            else (Inr (), lo)) of
        (Inl e, lo) \<Rightarrow> (Inl e, lo)
      | (Inr _, lo) \<Rightarrow>
          (case (case lo_stream lo of
                   Some conn \<Rightarrow> if \<not> oc_broken conn \<and> covers conn s then Some conn else None
                 | None \<Rightarrow> None) of
             Some conn \<Rightarrow>
               (let conn = conn\<lparr>oc_in_flight := oc_in_flight conn @ [\<lparr>fl_seq = s, fl_acked = True\<rparr>]\<rparr>;
                    lo = o_emit (Ox_Count ''logit.output.batches.resumed'' []) (lo\<lparr>lo_stream := Some conn\<rparr>)
                in (Inr (), record_in_flight (length (oc_in_flight conn)) lo))
           | None \<Rightarrow>
               (let payload = hop_payload E batch ctx s in
                if length payload > MAX_SANE_UNCOMPRESSED_LEN then
                  (Inl (with_fault Rejected_Batch ''batch too large to send''), warn_at_head lo)
                else
                  (case take_conn E fresh lo of
                     (Inl e, lo) \<Rightarrow> (Inl e, lo)
                   | (Inr conn, lo) \<Rightarrow> frame_on_conn E conn payload s lo))))"

section \<open>Awaiting an acknowledgment\<close>

text \<open>A broken connection is kept only for the answers it still owes.\<close>

definition keep_conn :: "out_conn \<Rightarrow> logit_output \<Rightarrow> logit_output" where
  "keep_conn conn lo =
     (if \<not> (oc_broken conn \<and> oc_in_flight conn = []) then lo\<lparr>lo_stream := Some conn\<rparr> else drop_conn lo)"

text \<open>The wire's answer for the head: settled alone, marked, or an error that drops the connection.\<close>

definition apply_answer ::
    "string + control_message \<Rightarrow> out_conn \<Rightarrow> send_error + (out_conn \<times> send_error option)" where
  "apply_answer answer conn =
     (case answer of
        Inl m \<Rightarrow> Inl (with_fault Ambiguous m)
      | Inr (CM_Ack a) \<Rightarrow>
          (case ack_status a of
             Rejected reason _ \<Rightarrow>
               (case settle_rejected (oc_in_flight conn) (ack_id a) (ack_seq a) of
                  Inr q \<Rightarrow> Inr (conn\<lparr>oc_in_flight := q\<rparr>, Some (rejected_head reason))
                | Inl m \<Rightarrow> Inl (with_fault Ambiguous m))
           | Accepted \<Rightarrow>
               (case mark_acked (oc_in_flight conn) a of
                  Inr q \<Rightarrow> Inr (conn\<lparr>oc_in_flight := q\<rparr>, None)
                | Inl m \<Rightarrow> Inl (with_fault Ambiguous m)))
      | Inr (CM_Reject r) \<Rightarrow> Inl (reject_in_place_of_ack r)
      | Inr _ \<Rightarrow> Inl (with_fault Ambiguous ''expected Ack''))"

definition pop_head :: "out_conn \<Rightarrow> logit_output \<Rightarrow> (send_error + unit) \<times> logit_output" where
  "pop_head conn lo =
     (let conn = conn\<lparr>oc_in_flight := tl (oc_in_flight conn)\<rparr>
      in (Inr (), keep_conn conn (record_in_flight (length (oc_in_flight conn)) lo)))"

text \<open>Every error but a refused head drops the connection and leaves its identities to resume with.\<close>

definition settle_answer ::
    "string + control_message \<Rightarrow> out_conn \<Rightarrow> logit_output \<Rightarrow> (send_error + unit) \<times> logit_output" where
  "settle_answer answer conn lo =
     (case apply_answer answer conn of
        Inl e \<Rightarrow>
          (Inl e, drop_conn (record_in_flight 0 (lo\<lparr>lo_resend_senders := resend_senders conn\<rparr>)))
      | Inr (conn, Some e) \<Rightarrow>
          (Inl e, keep_conn conn (record_in_flight (length (oc_in_flight conn)) lo))
      | Inr (conn, None) \<Rightarrow> pop_head conn lo)"

definition read_ack :: "('d, 'h) out_env \<Rightarrow> logit_output \<Rightarrow> (send_error + unit) \<times> logit_output" where
  "read_ack E lo =
     (case lo_stream lo of
        None \<Rightarrow> (Inr (), lo)
      | Some conn \<Rightarrow>
          if conn_nothing_in_flight conn then (Inr (), lo)
          else
            (let lo = lo\<lparr>lo_stream := None\<rparr> in
             if fl_acked (hd (oc_in_flight conn)) then pop_head conn lo
             else
               (let timed_out = oe_times_out E (lo_clock lo);
                    lo = o_tick lo;
                    (answer, conn) =
                      (if timed_out then (Inl ''timed out waiting for the ack'', conn)
                       else case read_control (oe_frame E) (oc_input conn) of
                              Inl m \<Rightarrow> (Inl m, conn)
                            | Inr (m, input) \<Rightarrow> (Inr m, conn\<lparr>oc_input := input\<rparr>))
                in settle_answer answer conn lo)))"

section \<open>The \<open>Output\<close> trait\<close>

definition count_request :: "(send_error + unit) \<Rightarrow> logit_output \<Rightarrow> logit_output" where
  "count_request r lo =
     (let cls = (case r of Inr _ \<Rightarrow> ''ok''
                 | Inl e \<Rightarrow> (case classify e of Clean \<Rightarrow> ''clean'' | Ambiguous \<Rightarrow> ''ambiguous''
                             | Rejected_Batch \<Rightarrow> ''rejected'' | Refused \<Rightarrow> ''refused''))
      in o_emit (Ox_Count ''logit.output.requests'' cls) lo)"

definition observe_batch :: "batch_context \<Rightarrow> seq_id \<Rightarrow> logit_output \<Rightarrow> logit_output" where
  "observe_batch ctx s lo = lo\<lparr>lo_pending_ctx := ctx, lo_pending_seq := Some s\<rparr>"

definition output_window :: "logit_output \<Rightarrow> nat" where
  "output_window lo = (case lo_stream lo of None \<Rightarrow> 1 | Some conn \<Rightarrow> oc_window conn)"

definition submit ::
    "('d, 'h) out_env \<Rightarrow> (symbol, 'd, 'h) event_batch \<Rightarrow> batch_context \<Rightarrow> seq_id \<Rightarrow> logit_output \<Rightarrow>
     (send_error + unit) \<times> logit_output" where
  "submit E batch ctx s lo =
     (let at_head = nothing_in_flight lo;
          (r, lo) = submit_frame E batch ctx s lo;
          counted = (case r of
              Inr _ \<Rightarrow> False
            | Inl e \<Rightarrow> (case er_fault e of
                None \<Rightarrow> False | Some Rejected_Batch \<Rightarrow> at_head | Some Refused \<Rightarrow> at_head | Some _ \<Rightarrow> True))
      in (r, if counted then count_request r lo else lo))"

definition await_ack :: "('d, 'h) out_env \<Rightarrow> logit_output \<Rightarrow> (send_error + unit) \<times> logit_output" where
  "await_ack E lo = (let (r, lo) = read_ack E lo in (r, count_request r lo))"

definition send_batch ::
    "('d, 'h) out_env \<Rightarrow> (symbol, 'd, 'h) event_batch \<Rightarrow> logit_output \<Rightarrow> (send_error + unit) \<times> logit_output" where
  "send_batch E batch lo =
     (case lo_pending_seq lo of
        None \<Rightarrow>
          (Inl \<lparr>er_fault = None, er_head_only = False, er_message = ''logit_out: send before observe_batch''\<rparr>, lo)
      | Some s \<Rightarrow>
          (case submit E batch (lo_pending_ctx lo) s lo of
             (Inl e, lo) \<Rightarrow> (Inl e, lo)
           | (Inr _, lo) \<Rightarrow>
               (case await_ack E lo of
                  (Inl e, lo) \<Rightarrow> (Inl e, lo)
                | (Inr _, lo) \<Rightarrow> (Inr (), lo\<lparr>lo_pending_seq := None\<rparr>))))"

definition output_flush :: "logit_output \<Rightarrow> logit_output" where
  "output_flush lo = (case lo_stream lo of None \<Rightarrow> lo | Some _ \<Rightarrow> drop_conn (lo\<lparr>lo_stream := None\<rparr>))"

end
