(* ===== verification/Senders.thy ===== *)
theory Senders
  imports Native_Batch
begin

text \<open>
  \<open>crates/logit-inputs/src/logit/senders.rs\<close>: a listener's table of sender high-water marks, by
  which it recognises a resent frame. The hash map is an association list with distinct keys; the
  eviction scan meets no tie, so the order of its entries does not matter. The logical clock is a
  natural number: it advances once per touch, and \<open>2 ^ 64\<close> touches are out of reach. The gauge and
  the eviction counter the table publishes are fields of its state.
\<close>

type_synonym sender_id = bytes

record sender_entry =
  se_mark :: u64
  se_last_seen :: nat

record sender_table =
  st_capacity :: nat
  st_entries :: "(sender_id \<times> sender_entry) list"
  st_tick :: nat
  st_senders_gauge :: "nat option"
  st_evicted :: nat

definition table_new :: "nat \<Rightarrow> sender_table" where
  "table_new max_connections =
     \<lparr>st_capacity = max (max_connections + max_connections div 4) 1, st_entries = [], st_tick = 0,
      st_senders_gauge = None, st_evicted = 0\<rparr>"

definition next_tick :: "sender_table \<Rightarrow> nat \<times> sender_table" where
  "next_tick t = (st_tick t + 1, t\<lparr>st_tick := st_tick t + 1\<rparr>)"

text \<open>\<open>HashMap::get_mut\<close> followed by the update of the entry.\<close>

definition update_entry ::
    "sender_id \<Rightarrow> (sender_entry \<Rightarrow> sender_entry) \<Rightarrow> (sender_id \<times> sender_entry) list \<Rightarrow>
     (sender_id \<times> sender_entry) list" where
  "update_entry i f es = map (\<lambda>(j, e). if j = i then (j, f e) else (j, e)) es"

definition is_resend :: "seq_id \<Rightarrow> sender_table \<Rightarrow> bool \<times> sender_table" where
  "is_resend s t =
     (let (tick, t) = next_tick t in
      case map_of (st_entries t) (sq_id s) of
        Some e \<Rightarrow>
          (sq_seq s \<le> se_mark e,
           t\<lparr>st_entries := update_entry (sq_id s) (\<lambda>e. e\<lparr>se_last_seen := tick\<rparr>) (st_entries t)\<rparr>)
      | None \<Rightarrow> (False, t))"

text \<open>\<open>iter().min_by_key(|(_, entry)| entry.last_seen)\<close>.\<close>

fun min_by_last_seen :: "(sender_id \<times> sender_entry) list \<Rightarrow> (sender_id \<times> sender_entry) option" where
  "min_by_last_seen [] = None"
| "min_by_last_seen (x # xs) =
     (case min_by_last_seen xs of
        None \<Rightarrow> Some x
      | Some y \<Rightarrow> if se_last_seen (snd x) \<le> se_last_seen (snd y) then Some x else Some y)"

definition evict_oldest :: "sender_table \<Rightarrow> sender_table" where
  "evict_oldest t =
     (case min_by_last_seen (st_entries t) of
        Some (oldest, _) \<Rightarrow>
          t\<lparr>st_entries := filter (\<lambda>(i, _). i \<noteq> oldest) (st_entries t), st_evicted := st_evicted t + 1\<rparr>
      | None \<Rightarrow> t)"

definition raise_mark :: "seq_id \<Rightarrow> sender_table \<Rightarrow> sender_table" where
  "raise_mark s t =
     (let (tick, t) = next_tick t in
      case map_of (st_entries t) (sq_id s) of
        Some e \<Rightarrow>
          t\<lparr>st_entries := update_entry (sq_id s)
              (\<lambda>e. \<lparr>se_mark = max (se_mark e) (sq_seq s), se_last_seen = tick\<rparr>) (st_entries t)\<rparr>
      | None \<Rightarrow>
          (let full = length (st_entries t) \<ge> st_capacity t;
               t = (if full then evict_oldest t else t);
               t = t\<lparr>st_entries := (sq_id s, \<lparr>se_mark = sq_seq s, se_last_seen = tick\<rparr>) # st_entries t\<rparr>
           in if full then t else t\<lparr>st_senders_gauge := Some (length (st_entries t))\<rparr>))"

definition table_marks :: "sender_id list \<Rightarrow> sender_table \<Rightarrow> (sender_id \<times> u64) list" where
  "table_marks ids t =
     List.map_filter (\<lambda>i. map_option (\<lambda>e. (i, se_mark e)) (map_of (st_entries t) i)) ids"

section \<open>The invariant of the table\<close>

text \<open>What a caller does to the table; \<open>marks\<close> only reads it.\<close>

datatype table_op = Op_Is_Resend seq_id | Op_Raise seq_id

fun op_seq :: "table_op \<Rightarrow> seq_id" where
  "op_seq (Op_Is_Resend s) = s"
| "op_seq (Op_Raise s) = s"

fun apply_op :: "table_op \<Rightarrow> sender_table \<Rightarrow> sender_table" where
  "apply_op (Op_Is_Resend s) t = snd (is_resend s t)"
| "apply_op (Op_Raise s) t = raise_mark s t"

definition run_ops :: "table_op list \<Rightarrow> sender_table \<Rightarrow> sender_table" where
  "run_ops ops t = fold apply_op ops t"

definition table_inv :: "sender_table \<Rightarrow> bool" where
  "table_inv t \<longleftrightarrow> 0 < st_capacity t \<and> length (st_entries t) \<le> st_capacity t \<and>
     distinct (map fst (st_entries t)) \<and> distinct (map (\<lambda>x. se_last_seen (snd x)) (st_entries t)) \<and>
     (\<forall>(i, e) \<in> set (st_entries t). se_last_seen e \<le> st_tick t)"

lemma table_inv_new: "table_inv (table_new n)"
  by (simp add: table_inv_def table_new_def)

lemma map_of_update_entry:
  "map_of (update_entry i f es) j = (if j = i then map_option f (map_of es j) else map_of es j)"
  by (induction es) (auto simp: update_entry_def)

lemma update_entry_simps [simp]:
  "map fst (update_entry i f es) = map fst es" "length (update_entry i f es) = length es"
  by (auto simp: update_entry_def intro!: map_cong)

lemma update_entry_absent: "i \<notin> fst ` set es \<Longrightarrow> update_entry i f es = es"
  by (force simp: update_entry_def intro!: map_idI)

lemma distinct_touched:
  assumes "distinct (map (\<lambda>x. se_last_seen (snd x)) es)" and "distinct (map fst es)"
    and "\<forall>(j, e) \<in> set es. se_last_seen e < n" and touch: "\<And>e. se_last_seen (f e) = n"
  shows "distinct (map (\<lambda>x. se_last_seen (snd x)) (update_entry i f es))"
  using assms(1-3)
proof (induction es)
  case (Cons x es)
  obtain j e where x: "x = (j, e)" by (cases x)
  have step: "update_entry i f (x # es) = (j, if j = i then f e else e) # update_entry i f es"
    by (simp add: update_entry_def x)
  have IH: "distinct (map (\<lambda>x. se_last_seen (snd x)) (update_entry i f es))"
    by (rule Cons.IH) (use Cons.prems in auto)
  show ?case
  proof (cases "j = i")
    case True
    then have same: "update_entry i f es = es"
      using Cons.prems(2) x by (auto intro!: update_entry_absent)
    have "n \<notin> (\<lambda>x. se_last_seen (snd x)) ` set es" using Cons.prems(3) by auto
    then show ?thesis using IH True by (simp add: step touch same)
  next
    case False
    have "se_last_seen e \<notin> (\<lambda>x. se_last_seen (snd x)) ` set es" "se_last_seen e \<noteq> n"
      using Cons.prems(1,3) x by auto
    then have "se_last_seen e \<notin> (\<lambda>x. se_last_seen (snd x)) ` set (update_entry i f es)"
      by (force simp: update_entry_def touch split: if_splits)
    then show ?thesis using IH False by (simp add: step)
  qed
qed (simp add: update_entry_def)

lemma update_entry_last_seen_le:
  assumes "\<forall>(j, e) \<in> set es. se_last_seen e \<le> n" and "\<And>e. se_last_seen (f e) = Suc n"
  shows "\<forall>(j, e) \<in> set (update_entry i f es). se_last_seen e \<le> Suc n"
  using assms by (fastforce simp: update_entry_def split: if_splits)

lemma table_inv_touch:
  assumes "table_inv t" and "\<And>e. se_last_seen (f e) = Suc (st_tick t)"
  shows "table_inv (t\<lparr>st_tick := Suc (st_tick t), st_entries := update_entry i f (st_entries t)\<rparr>)"
proof -
  have "distinct (map (\<lambda>x. se_last_seen (snd x)) (update_entry i f (st_entries t)))"
    using assms by (intro distinct_touched[where n = "Suc (st_tick t)"]) (auto simp: table_inv_def)
  moreover have "\<forall>(j, e) \<in> set (update_entry i f (st_entries t)). se_last_seen e \<le> Suc (st_tick t)"
    using assms by (intro update_entry_last_seen_le) (auto simp: table_inv_def)
  ultimately show ?thesis using assms(1) by (simp add: table_inv_def)
qed

lemma min_by_last_seen_None [simp]: "min_by_last_seen es = None \<longleftrightarrow> es = []"
  by (cases es) (auto split: option.splits)

lemma min_by_last_seen_Some:
  "min_by_last_seen es = Some x \<Longrightarrow> x \<in> set es \<and> (\<forall>y \<in> set es. se_last_seen (snd x) \<le> se_last_seen (snd y))"
  by (induction es arbitrary: x) (fastforce split: option.splits if_splits)+

lemma map_of_without: "i \<noteq> a \<Longrightarrow> map_of (filter (\<lambda>(j, _). j \<noteq> a) es) i = map_of es i"
  by (induction es) auto

lemma length_without_key:
  assumes "x \<in> set es" shows "length (filter (\<lambda>(i, _). i \<noteq> fst x) es) < length es"
  using assms by (intro length_filter_less) (auto simp: case_prod_beta)

lemma is_resend_table:
  "snd (is_resend s t) =
     t\<lparr>st_tick := Suc (st_tick t),
       st_entries := update_entry (sq_id s) (\<lambda>e. e\<lparr>se_last_seen := Suc (st_tick t)\<rparr>) (st_entries t)\<rparr>"
  by (auto simp: is_resend_def next_tick_def map_of_eq_None_iff update_entry_absent split: option.splits)

lemma is_resend_answer:
  "fst (is_resend s t) \<longleftrightarrow> (\<exists>e. map_of (st_entries t) (sq_id s) = Some e \<and> sq_seq s \<le> se_mark e)"
  by (auto simp: is_resend_def next_tick_def split: option.splits)

lemma raise_mark_held:
  "map_of (st_entries t) (sq_id s) = Some e \<Longrightarrow> raise_mark s t =
     t\<lparr>st_tick := Suc (st_tick t),
       st_entries := update_entry (sq_id s)
         (\<lambda>e. \<lparr>se_mark = max (se_mark e) (sq_seq s), se_last_seen = Suc (st_tick t)\<rparr>) (st_entries t)\<rparr>"
  by (simp add: raise_mark_def next_tick_def)

text \<open>The entries a new identity finds once it has room.\<close>

definition kept_entries :: "sender_table \<Rightarrow> (sender_id \<times> sender_entry) list" where
  "kept_entries t =
     (if st_capacity t \<le> length (st_entries t) then st_entries (evict_oldest t) else st_entries t)"

lemma raise_mark_new:
  assumes "map_of (st_entries t) (sq_id s) = None"
  shows "st_entries (raise_mark s t) =
      (sq_id s, \<lparr>se_mark = sq_seq s, se_last_seen = Suc (st_tick t)\<rparr>) # kept_entries t"
    and "st_tick (raise_mark s t) = Suc (st_tick t)"
    and "st_capacity (raise_mark s t) = st_capacity t"
  using assms
  by (auto simp: raise_mark_def next_tick_def evict_oldest_def kept_entries_def Let_def split: option.splits)

lemma kept_entries_filter: "\<exists>P. kept_entries t = filter P (st_entries t)"
proof -
  have all: "\<exists>P. st_entries t = filter P (st_entries t)" by (rule exI[of _ "\<lambda>_. True"]) simp
  then show ?thesis
    by (cases "min_by_last_seen (st_entries t)") (auto simp: kept_entries_def evict_oldest_def)
qed

lemma distinct_map_filter: "distinct (map f xs) \<Longrightarrow> distinct (map f (filter P xs))"
  by (induction xs) auto

lemma length_kept_entries:
  assumes "table_inv t" shows "length (kept_entries t) < st_capacity t"
proof (cases "st_capacity t \<le> length (st_entries t)")
  case True
  with assms have ne: "st_entries t \<noteq> []" by (auto simp: table_inv_def)
  then obtain x where x: "min_by_last_seen (st_entries t) = Some x"
    by (cases "min_by_last_seen (st_entries t)") auto
  have "x \<in> set (st_entries t)" using min_by_last_seen_Some[OF x] by simp
  from length_without_key[OF this] show ?thesis
    using assms True x by (cases x) (simp add: kept_entries_def evict_oldest_def table_inv_def)
next
  case False
  then show ?thesis by (simp add: kept_entries_def)
qed

lemma table_inv_is_resend: "table_inv t \<Longrightarrow> table_inv (snd (is_resend s t))"
  unfolding is_resend_table by (rule table_inv_touch) auto

lemma table_inv_raise_mark:
  assumes "table_inv t" shows "table_inv (raise_mark s t)"
proof (cases "map_of (st_entries t) (sq_id s)")
  case None
  obtain P where P: "kept_entries t = filter P (st_entries t)" using kept_entries_filter by blast
  have "sq_id s \<notin> fst ` set (kept_entries t)" using None P by (auto simp: map_of_eq_None_iff)
  moreover have "Suc (st_tick t) \<notin> (\<lambda>x. se_last_seen (snd x)) ` set (kept_entries t)"
    using assms P by (fastforce simp: table_inv_def)
  moreover have "\<forall>(i, e) \<in> set (kept_entries t). se_last_seen e \<le> Suc (st_tick t)"
    using assms P by (fastforce simp: table_inv_def)
  ultimately show ?thesis
    using assms length_kept_entries[OF assms]
    by (simp add: table_inv_def raise_mark_new[OF None] P distinct_map_filter)
next
  case (Some e)
  show ?thesis unfolding raise_mark_held[OF Some] using assms by (rule table_inv_touch) simp
qed

lemma table_inv_apply_op: "table_inv t \<Longrightarrow> table_inv (apply_op p t)"
  by (cases p) (simp_all add: table_inv_is_resend table_inv_raise_mark)

lemma table_inv_run_ops: "table_inv t \<Longrightarrow> table_inv (run_ops ops t)"
  by (induction ops arbitrary: t) (simp_all add: run_ops_def table_inv_apply_op)

section \<open>What a mark stands for\<close>

text \<open>No mark is above every sequence raised for its identity.\<close>

definition marks_raised :: "(seq_id \<Rightarrow> bool) \<Rightarrow> sender_table \<Rightarrow> bool" where
  "marks_raised R t \<longleftrightarrow> (\<forall>(i, e) \<in> set (st_entries t). R \<lparr>sq_id = i, sq_seq = se_mark e\<rparr>)"

lemma marks_raised_mono: "marks_raised R t \<Longrightarrow> (\<And>s. R s \<Longrightarrow> R' s) \<Longrightarrow> marks_raised R' t"
  by (auto simp: marks_raised_def)

lemma marks_raised_kept:
  "marks_raised R t \<Longrightarrow> \<forall>(i, e) \<in> set (kept_entries t). R \<lparr>sq_id = i, sq_seq = se_mark e\<rparr>"
  using kept_entries_filter[of t] by (fastforce simp: marks_raised_def)

lemma marks_raised_is_resend: "marks_raised R t \<Longrightarrow> marks_raised R (snd (is_resend s t))"
  by (fastforce simp: is_resend_table marks_raised_def update_entry_def split: if_splits)

lemma marks_raised_raise_mark:
  assumes "marks_raised R t" and "R s" shows "marks_raised R (raise_mark s t)"
proof (cases "map_of (st_entries t) (sq_id s)")
  case None
  then show ?thesis using marks_raised_kept[OF assms(1)] assms(2)
    by (cases s) (auto simp: marks_raised_def raise_mark_new)
next
  case (Some e)
  have "R \<lparr>sq_id = sq_id s, sq_seq = max m (sq_seq s)\<rparr>" if "R \<lparr>sq_id = sq_id s, sq_seq = m\<rparr>" for m
    using that assms(2) by (cases s) (auto simp: max_def)
  then show ?thesis using assms
    by (fastforce simp: raise_mark_held[OF Some] marks_raised_def update_entry_def split: if_splits)
qed

lemma marks_raised_run_ops:
  "marks_raised R t \<Longrightarrow> (\<And>s. Op_Raise s \<in> set ops \<Longrightarrow> R s) \<Longrightarrow> marks_raised R (run_ops ops t)"
proof (induction ops arbitrary: t)
  case (Cons p ops)
  have "marks_raised R (apply_op p t)"
    using Cons.prems by (cases p) (auto intro: marks_raised_is_resend marks_raised_raise_mark)
  with Cons show ?case by (simp add: run_ops_def)
qed (simp add: run_ops_def)

lemma marks_raised_resend:
  assumes "marks_raised R t" and "fst (is_resend s t)"
  shows "\<exists>m. R \<lparr>sq_id = sq_id s, sq_seq = m\<rparr> \<and> sq_seq s \<le> m"
  using assms by (auto simp: is_resend_answer marks_raised_def dest!: map_of_SomeD)

section \<open>How long a mark is kept\<close>

text \<open>
  Sender \<open>i\<close> is held with a mark of at least \<open>m\<close>, and only the identities of \<open>A\<close> were touched
  after it.
\<close>

definition held_since :: "sender_id \<Rightarrow> u64 \<Rightarrow> sender_id set \<Rightarrow> sender_table \<Rightarrow> bool" where
  "held_since i m A t \<longleftrightarrow>
     (\<exists>e. map_of (st_entries t) i = Some e \<and> m \<le> se_mark e \<and>
        (\<forall>(j, e') \<in> set (st_entries t). se_last_seen e < se_last_seen e' \<longrightarrow> j \<in> A))"

lemma held_since_touch:
  assumes "held_since i m A t" and inv: "table_inv t"
    and f: "\<And>e. se_last_seen (f e) = Suc (st_tick t)" "\<And>e. se_mark e \<le> se_mark (f e)"
  shows "held_since i m (A \<union> ({j} - {i}))
    (t\<lparr>st_tick := Suc (st_tick t), st_entries := update_entry j f (st_entries t)\<rparr>)"
proof -
  obtain e where e: "map_of (st_entries t) i = Some e" "m \<le> se_mark e"
      "\<forall>(k, e') \<in> set (st_entries t). se_last_seen e < se_last_seen e' \<longrightarrow> k \<in> A"
    using assms(1) by (auto simp: held_since_def)
  have le: "\<forall>(k, e') \<in> set (st_entries t). se_last_seen e' \<le> st_tick t"
    using inv by (simp add: table_inv_def)
  show ?thesis
  proof (cases "j = i")
    case True
    then have "\<forall>(k, e') \<in> set (update_entry j f (st_entries t)). se_last_seen e' \<le> Suc (st_tick t)"
      using le f(1) by (fastforce simp: update_entry_def split: if_splits)
    moreover have "m \<le> se_mark (f e)" using e(2) f(2) order_trans by blast
    ultimately show ?thesis using e True f(1) by (force simp: held_since_def map_of_update_entry)
  next
    case False
    have "k \<in> A \<union> ({j} - {i})"
      if "(k, e') \<in> set (update_entry j f (st_entries t))" "se_last_seen e < se_last_seen e'" for k e'
      using that e(3) False by (auto simp: update_entry_def split: if_splits)
    then show ?thesis
      using e False by (auto simp: held_since_def map_of_update_entry)
  qed
qed

lemma held_since_is_resend:
  "held_since i m A t \<Longrightarrow> table_inv t \<Longrightarrow>
   held_since i m (A \<union> ({sq_id s} - {i})) (snd (is_resend s t))"
  unfolding is_resend_table by (rule held_since_touch) auto

lemma st_capacity_ops:
  "st_capacity (snd (is_resend s t)) = st_capacity t" "st_capacity (raise_mark s t) = st_capacity t"
  using raise_mark_new(3)[of t s] raise_mark_held[of t s]
  by (simp add: is_resend_table, cases "map_of (st_entries t) (sq_id s)", auto)

lemma st_capacity_apply_op: "st_capacity (apply_op p t) = st_capacity t"
  by (cases p) (simp_all add: st_capacity_ops)

lemma eviction_spares:
  assumes held: "held_since i m A t" and inv: "table_inv t" and A: "finite A" "i \<notin> A"
    and new: "map_of (st_entries t) j = None" and room: "card (insert j A) < st_capacity t"
  shows "map_of (kept_entries t) i = map_of (st_entries t) i"
proof (cases "st_capacity t \<le> length (st_entries t)")
  case True
  obtain e where e: "map_of (st_entries t) i = Some e"
      "\<forall>(k, e') \<in> set (st_entries t). se_last_seen e < se_last_seen e' \<longrightarrow> k \<in> A"
    using held by (auto simp: held_since_def)
  obtain x where x: "min_by_last_seen (st_entries t) = Some x"
    using e(1) by (cases "min_by_last_seen (st_entries t)") auto
  have "fst x \<noteq> i"
  proof
    assume "fst x = i"
    then have xe: "x = (i, e)"
      using min_by_last_seen_Some[OF x] e(1) inv
      by (cases x) (metis (no_types, lifting) fst_conv map_of_is_SomeI option.inject table_inv_def)
    have "k \<in> A" if "(k, e') \<in> set (st_entries t)" "k \<noteq> i" for k e'
    proof -
      have "se_last_seen e \<le> se_last_seen e'" using min_by_last_seen_Some[OF x] xe that by force
      moreover have "se_last_seen e \<noteq> se_last_seen e'"
        using inv that map_of_SomeD[OF e(1)] by (fastforce simp: table_inv_def distinct_map inj_on_def)
      ultimately show ?thesis using e(2) that by auto
    qed
    then have "fst ` set (st_entries t) - {i} \<subseteq> A" by force
    moreover have "j \<notin> fst ` set (st_entries t)" using new by (simp add: map_of_eq_None_iff)
    ultimately have "insert j (fst ` set (st_entries t) - {i}) \<subseteq> insert j A" by auto
    then have "card (insert j (fst ` set (st_entries t) - {i})) \<le> card (insert j A)"
      using A(1) by (intro card_mono) auto
    moreover have "card (fst ` set (st_entries t)) = length (st_entries t)"
      using inv distinct_card[of "map fst (st_entries t)"] by (simp add: table_inv_def)
    moreover have "i \<in> fst ` set (st_entries t)" using map_of_SomeD[OF e(1)] by force
    moreover have "j \<notin> fst ` set (st_entries t) - {i}" using new by (auto simp: map_of_eq_None_iff)
    ultimately show False using True room by (simp add: card_Diff_singleton)
  qed
  then show ?thesis
    using True x by (cases x) (simp add: kept_entries_def evict_oldest_def map_of_without)
next
  case False
  then show ?thesis by (simp add: kept_entries_def)
qed

lemma held_since_raise_mark:
  assumes held: "held_since i m A t" and inv: "table_inv t" and A: "finite A" "i \<notin> A"
    and room: "card (A \<union> ({sq_id s} - {i})) < st_capacity t"
  shows "held_since i m (A \<union> ({sq_id s} - {i})) (raise_mark s t)"
proof (cases "map_of (st_entries t) (sq_id s)")
  case (Some e)
  show ?thesis unfolding raise_mark_held[OF Some] using held inv by (rule held_since_touch) auto
next
  case None
  obtain e where e: "map_of (st_entries t) i = Some e" "m \<le> se_mark e"
      "\<forall>(k, e') \<in> set (st_entries t). se_last_seen e < se_last_seen e' \<longrightarrow> k \<in> A"
    using held by (auto simp: held_since_def)
  then have ne: "sq_id s \<noteq> i" using None by auto
  then have "card (insert (sq_id s) A) < st_capacity t" using room by (simp add: Un_commute)
  then have "map_of (kept_entries t) i = Some e"
    using eviction_spares[OF held inv A None] e(1) by simp
  moreover have "\<forall>(k, e') \<in> set (kept_entries t). se_last_seen e < se_last_seen e' \<longrightarrow> k \<in> A"
    using e(3) kept_entries_filter[of t] by auto
  ultimately show ?thesis
    using e(2) ne by (auto simp: held_since_def raise_mark_new[OF None])
qed

lemma held_since_run_ops:
  assumes "held_since i m A t" and "table_inv t" and "finite A" and "i \<notin> A"
    and "card (A \<union> (sq_id ` op_seq ` set ops - {i})) < st_capacity t"
  shows "held_since i m (A \<union> (sq_id ` op_seq ` set ops - {i})) (run_ops ops t)"
  using assms
proof (induction ops arbitrary: A t)
  case (Cons p ops)
  let ?A = "A \<union> ({sq_id (op_seq p)} - {i})"
  have split: "A \<union> (sq_id ` op_seq ` set (p # ops) - {i}) = ?A \<union> (sq_id ` op_seq ` set ops - {i})"
    by auto
  have "card ?A \<le> card (A \<union> (sq_id ` op_seq ` set (p # ops) - {i}))"
    using Cons.prems(3) by (intro card_mono) auto
  then have "card ?A < st_capacity t" using Cons.prems(5) by simp
  then have "held_since i m ?A (apply_op p t)"
    using Cons.prems(1-4) by (cases p) (simp_all add: held_since_is_resend held_since_raise_mark)
  moreover note st_capacity_apply_op[of p t]
  ultimately have "held_since i m (?A \<union> (sq_id ` op_seq ` set ops - {i})) (run_ops ops (apply_op p t))"
    using Cons.prems unfolding split by (intro Cons.IH) (auto simp: table_inv_apply_op)
  then show ?case unfolding split by (simp add: run_ops_def)
qed (simp add: run_ops_def)

lemma held_since_raised:
  assumes "table_inv t" shows "held_since (sq_id s) (sq_seq s) {} (raise_mark s t)"
proof (cases "map_of (st_entries t) (sq_id s)")
  case None
  obtain P where P: "kept_entries t = filter P (st_entries t)" using kept_entries_filter by blast
  then have "\<forall>(j, e) \<in> set (kept_entries t). se_last_seen e \<le> st_tick t"
    using assms by (auto simp: table_inv_def)
  then show ?thesis by (fastforce simp: held_since_def raise_mark_new[OF None])
next
  case (Some e)
  have "\<forall>(j, e) \<in> set (st_entries (raise_mark s t)). se_last_seen e \<le> Suc (st_tick t)"
    unfolding raise_mark_held[OF Some] using assms
    by (simp, intro update_entry_last_seen_le) (auto simp: table_inv_def)
  then show ?thesis using Some by (fastforce simp: held_since_def raise_mark_held map_of_update_entry)
qed

lemma held_since_resend: "held_since i m A t \<Longrightarrow> n \<le> m \<Longrightarrow> fst (is_resend \<lparr>sq_id = i, sq_seq = n\<rparr> t)"
  by (auto simp: held_since_def is_resend_answer)

section \<open>Properties\<close>

text \<open>
  C33. The table never takes a frame for a resend that no one had handled: after any calls of
  \<open>is_resend\<close> and \<open>raise\<close>, in any order and from any number of connections, the answer is yes only
  when a sequence at or above the asked one had been raised for the same identity.
\<close>

theorem no_false_resend:
  assumes "fst (is_resend s (run_ops ops (table_new max_connections)))"
  shows "\<exists>m \<ge> sq_seq s. Op_Raise \<lparr>sq_id = sq_id s, sq_seq = m\<rparr> \<in> set ops"
proof -
  have "marks_raised (\<lambda>r. Op_Raise r \<in> set ops) (table_new max_connections)"
    by (simp add: marks_raised_def table_new_def)
  then have "marks_raised (\<lambda>r. Op_Raise r \<in> set ops) (run_ops ops (table_new max_connections))"
    by (rule marks_raised_run_ops)
  from marks_raised_resend[OF this assms] show ?thesis by auto
qed

theorem no_false_resend_witness:
  "\<exists>m \<ge> 3. Op_Raise \<lparr>sq_id = [1], sq_seq = m\<rparr>
     \<in> set [Op_Raise \<lparr>sq_id = [2], sq_seq = 9\<rparr>, Op_Raise \<lparr>sq_id = [1], sq_seq = 5\<rparr>]"
  using no_false_resend[of "\<lparr>sq_id = [1], sq_seq = 3\<rparr>"
      "[Op_Raise \<lparr>sq_id = [2], sq_seq = 9\<rparr>, Op_Raise \<lparr>sq_id = [1], sq_seq = 5\<rparr>]" 4]
  by (simp add: run_ops_def table_new_def is_resend_def raise_mark_def next_tick_def)

text \<open>
  C37. A handled frame is recognised when it comes back: once a sequence is raised, every frame of
  that identity up to it is a resend as long as fewer other identities than the table holds have
  been touched since, whatever the table's state was and however often each was touched.
\<close>

theorem resend_recognised:
  assumes "table_inv t" and "n \<le> sq_seq s"
    and "card (sq_id ` op_seq ` set ops - {sq_id s}) < st_capacity t"
  shows "fst (is_resend \<lparr>sq_id = sq_id s, sq_seq = n\<rparr> (run_ops ops (raise_mark s t)))"
proof -
  have "held_since (sq_id s) (sq_seq s) ({} \<union> (sq_id ` op_seq ` set ops - {sq_id s}))
      (run_ops ops (raise_mark s t))"
    using assms by (intro held_since_run_ops held_since_raised table_inv_raise_mark)
      (auto simp: st_capacity_ops)
  then show ?thesis using assms(2) by (rule held_since_resend)
qed

theorem resend_recognised_witness:
  "fst (is_resend \<lparr>sq_id = [1], sq_seq = 4\<rparr>
     (run_ops [Op_Raise \<lparr>sq_id = [2], sq_seq = 9\<rparr>] (raise_mark \<lparr>sq_id = [1], sq_seq = 5\<rparr> (table_new 2))))"
  using resend_recognised[of "table_new 2" 4 "\<lparr>sq_id = [1], sq_seq = 5\<rparr>"
      "[Op_Raise \<lparr>sq_id = [2], sq_seq = 9\<rparr>]"]
  by (simp add: table_inv_new) (simp add: table_new_def)

text \<open>
  The table stays within its bound: it holds one entry per identity, at most the capacity it
  was created with, and no two entries were last seen at the same tick, so the eviction scan never
  meets a tie.
\<close>

theorem table_bounded:
  "length (st_entries (run_ops ops (table_new max_connections)))
      \<le> max (max_connections + max_connections div 4) 1 \<and>
   distinct (map fst (st_entries (run_ops ops (table_new max_connections)))) \<and>
   distinct (map (\<lambda>x. se_last_seen (snd x)) (st_entries (run_ops ops (table_new max_connections))))"
proof -
  have "st_capacity (run_ops ops t) = st_capacity t" for t
    by (induction ops arbitrary: t) (simp_all add: run_ops_def st_capacity_apply_op)
  with table_inv_run_ops[OF table_inv_new, of ops max_connections] show ?thesis
    by (simp add: table_inv_def) (simp add: table_new_def)
qed

end
