(* ===== verification/Logit_In.thy ===== *)
theory Logit_In
  imports Senders Frame Control
begin

text \<open>
  \<open>crates/logit-inputs/src/logit.rs\<close>: one connection of the native listener, from its handshake
  to its close. What the connection meets is the environment \<open>in_env\<close>: at the \<open>n\<close>-th point where
  the code waits, writes, hands a batch on or takes the table's lock, the \<open>n\<close>-th answer of the
  matching field. So a theorem over every environment holds for every schedule of arrivals,
  stalls, failures, shutdowns and other connections. What the connection does is its log of
  effects. Durations are the environment's: a deadline is an answer that never came. The effect
  that hands a batch on names the frame's sender pair, which the call itself does not carry.
\<close>

section \<open>The environment of a connection\<close>

definition ACK_COALESCE_MAX :: nat where "ACK_COALESCE_MAX = 32"
definition RECEIVER_MAX_WINDOW :: u32 where "RECEIVER_MAX_WINDOW = 1024"

text \<open>\<open>io::ErrorKind\<close>, as far as the code tells kinds apart.\<close>

datatype io_kind = Unexpected_Eof | Other_Io

text \<open>A read that returned: at most so many bytes, or an error.\<close>

datatype read_outcome = Ready nat | Failed io_kind

datatype write_outcome = Written | Write_Stalled | Write_Failed

datatype ('d, 'h) in_effect =
    Fx_Count string nat string
  | Fx_Warn string
  | Fx_Write control_message write_outcome
  | Fx_Is_Resend seq_id bool
  | Fx_Raise seq_id
  | Fx_Relayed seq_id "(symbol, 'd, 'h) event_batch" "symbol provenance" "hop_trace option" bool

record ('d, 'h) in_env =
  ie_poll :: "nat \<Rightarrow> read_outcome option"
  ie_wait :: "nat \<Rightarrow> read_outcome option"
  ie_shutdown :: "nat \<Rightarrow> bool"
  ie_write :: "nat \<Rightarrow> write_outcome"
  ie_take :: "nat \<Rightarrow> bool"
  ie_others :: "nat \<Rightarrow> table_op list"
  ie_interner :: "nat \<Rightarrow> interner"
  ie_frame :: frame_env
  ie_blobs :: "('d, 'h) blob_codec"
  ie_layout :: layout
  ie_max_frame_bytes :: u32
  ie_idle_timeout :: bool

text \<open>\<open>PendingAck\<close>, and a connection: the peer's bytes it has not read, its clock, its state.\<close>

record pending_ack =
  pa_seq :: seq_id
  pa_frames :: nat

record ('d, 'h) in_conn =
  ic_input :: bytes
  ic_clock :: nat
  ic_pending :: "pending_ack option"
  ic_senders :: sender_table
  ic_log :: "('d, 'h) in_effect list"

text \<open>\<open>anyhow::Error\<close>: a codec error, a failed or stalled write, a failed read, or a message.\<close>

datatype conn_error =
    CE_Codec codec_error
  | CE_Write
  | CE_Stalled
  | CE_Read io_kind
  | CE_Msg string

text \<open>How a wait ends: with a value, cut by the future it races, or never.\<close>

datatype 'a waited = Done 'a | Cut | Never

definition ic_tick :: "('d, 'h) in_conn \<Rightarrow> ('d, 'h) in_conn" where
  "ic_tick c = c\<lparr>ic_clock := ic_clock c + 1\<rparr>"

definition emit :: "('d, 'h) in_effect \<Rightarrow> ('d, 'h) in_conn \<Rightarrow> ('d, 'h) in_conn" where
  "emit x c = c\<lparr>ic_log := ic_log c @ [x]\<rparr>"

text \<open>The constant part of a formatted message: a Rust string holds its characters as UTF-8.\<close>

definition char_utf8 :: "char \<Rightarrow> bytes" where
  "char_utf8 ch =
     (let b = of_char ch
      in if b < 0x80 then [b] else if b < 0xC0 then [0xC2, b] else [0xC3, b - 0x40])"

definition str_bytes :: "string \<Rightarrow> bytes" where
  "str_bytes s = concat (map char_utf8 s)"

lemma utf8_valid_str_bytes: "utf8_valid (str_bytes s)"
proof (induction s)
  case (Cons ch s)
  let ?b = "of_char ch :: u8"
  have "utf8_step (char_utf8 ch) = (True, length (char_utf8 ch))"
  proof (cases "?b < 0xC0")
    case False
    moreover have "unat ?b < 256" using unsigned_less[of ?b] by simp
    ultimately have "0x80 \<le> ?b - 0x40 \<and> ?b - 0x40 \<le> 0xBF"
      by (auto simp: word_le_nat_alt word_less_nat_alt unat_sub_if_size word_size)
    then show ?thesis using False by (auto simp: char_utf8_def Let_def utf8_cont_def not_less)
  qed (auto simp: char_utf8_def Let_def utf8_cont_def word_le_nat_alt word_less_nat_alt)
  moreover have "char_utf8 ch \<noteq> []" by (simp add: char_utf8_def Let_def)
  ultimately show ?case using Cons.IH by (simp add: str_bytes_def utf8_valid_append_char)
qed (simp add: str_bytes_def)

text \<open>\<open>CodecError\<close>'s \<open>Display\<close>.\<close>

fun error_text :: "codec_error \<Rightarrow> bytes" where
  "error_text (Malformed m) = str_bytes (''malformed input: '' @ m)"
| "error_text (Io m) = str_bytes (''i/o error: '' @ m)"
| "error_text (Unsupported m) = str_bytes (''unsupported: '' @ m)"
| "error_text (Truncated _) = str_bytes ''truncated input: need more byte(s)''"
| "error_text (BudgetExceeded _) = str_bytes ''payload decodes past its decode budget''"

section \<open>Writes\<close>

definition write_control ::
    "('d, 'h) in_env \<Rightarrow> control_message \<Rightarrow> ('d, 'h) in_conn \<Rightarrow> (conn_error + unit) \<times> ('d, 'h) in_conn" where
  "write_control E m c =
     (case write_frame_with_flags (ie_frame E) 0 Compression_None FLAG_CONTROL (control_encode m) of
        Inl e \<Rightarrow> (Inl (CE_Codec e), c)
      | Inr framed \<Rightarrow>
          (let w = ie_write E (ic_clock c); c = emit (Fx_Write m w) (ic_tick c)
           in (case w of Written \<Rightarrow> Inr () | Write_Stalled \<Rightarrow> Inl CE_Stalled | Write_Failed \<Rightarrow> Inl CE_Write,
               c)))"

definition write_reject ::
    "('d, 'h) in_env \<Rightarrow> reject \<Rightarrow> ('d, 'h) in_conn \<Rightarrow> (conn_error + unit) \<times> ('d, 'h) in_conn" where
  "write_reject E r c =
     (let (res, c) = write_control E (CM_Reject r) c in
      (res, if res = Inl CE_Stalled then emit (Fx_Count ''logit.proto.errors'' 1 ''reject_write_stalled'') c
            else c))"

definition write_ack ::
    "('d, 'h) in_env \<Rightarrow> ack \<Rightarrow> ('d, 'h) in_conn \<Rightarrow> (conn_error + unit) \<times> ('d, 'h) in_conn" where
  "write_ack E a c =
     (case write_control E (CM_Ack a) c of
        (Inl e, c) \<Rightarrow>
          (Inl e, if e = CE_Stalled then emit (Fx_Count ''logit.proto.errors'' 1 ''ack_write_stalled'') c else c)
      | (Inr _, c) \<Rightarrow> (Inr (), emit (Fx_Count ''logit.input.acks'' 1 []) c))"

definition flush_ack ::
    "('d, 'h) in_env \<Rightarrow> ('d, 'h) in_conn \<Rightarrow> (conn_error + unit) \<times> ('d, 'h) in_conn" where
  "flush_ack E c =
     (case ic_pending c of
        None \<Rightarrow> (Inr (), c)
      | Some run \<Rightarrow>
          write_ack E (ack_accepted (sq_id (pa_seq run)) (sq_seq (pa_seq run))) (c\<lparr>ic_pending := None\<rparr>))"

text \<open>
  A call into the shared table, under its lock: the other connections' calls since this one's last
  come first.
\<close>

definition with_senders ::
    "('d, 'h) in_env \<Rightarrow> (sender_table \<Rightarrow> 'a \<times> sender_table) \<Rightarrow> ('d, 'h) in_conn \<Rightarrow>
     'a \<times> ('d, 'h) in_conn" where
  "with_senders E f c =
     (let (x, t) = f (run_ops (ie_others E (ic_clock c)) (ic_senders c))
      in (x, (ic_tick c)\<lparr>ic_senders := t\<rparr>))"

definition senders_is_resend :: "('d, 'h) in_env \<Rightarrow> seq_id \<Rightarrow> ('d, 'h) in_conn \<Rightarrow> bool \<times> ('d, 'h) in_conn" where
  "senders_is_resend E s c =
     (let (resend, c) = with_senders E (is_resend s) c in (resend, emit (Fx_Is_Resend s resend) c))"

definition senders_raise :: "('d, 'h) in_env \<Rightarrow> seq_id \<Rightarrow> ('d, 'h) in_conn \<Rightarrow> ('d, 'h) in_conn" where
  "senders_raise E s c = emit (Fx_Raise s) (snd (with_senders E (\<lambda>t. ((), raise_mark s t)) c))"

definition ack_rejected ::
    "('d, 'h) in_env \<Rightarrow> seq_id \<Rightarrow> ack_status \<Rightarrow> ('d, 'h) in_conn \<Rightarrow>
     (conn_error + unit) \<times> ('d, 'h) in_conn" where
  "ack_rejected E s status c =
     (let c = senders_raise E s (emit (Fx_Count ''logit.input.batches.dropped'' 1 ''rejected'') c) in
      case flush_ack E c of
        (Inl e, c) \<Rightarrow> (Inl e, c)
      | (Inr _, c) \<Rightarrow> write_ack E \<lparr>ack_id = sq_id s, ack_seq = sq_seq s, ack_status = status\<rparr> c)"

definition flush_then_reject ::
    "('d, 'h) in_env \<Rightarrow> reject \<Rightarrow> ('d, 'h) in_conn \<Rightarrow> ('d, 'h) in_conn" where
  "flush_then_reject E r c =
     (case flush_ack E c of
        (Inl _, c) \<Rightarrow> c
      | (Inr _, c) \<Rightarrow> snd (write_reject E r c))"

definition going_away :: "('d, 'h) in_env \<Rightarrow> string \<Rightarrow> ('d, 'h) in_conn \<Rightarrow> ('d, 'h) in_conn" where
  "going_away E why c =
     flush_then_reject E \<lparr>rj_code = REJECT_GOING_AWAY, rj_message = str_bytes why\<rparr> c"

definition reject_too_large :: "('d, 'h) in_env \<Rightarrow> string \<Rightarrow> ('d, 'h) in_conn \<Rightarrow> ('d, 'h) in_conn" where
  "reject_too_large E message c =
     flush_then_reject E \<lparr>rj_code = REJECT_FRAME_TOO_LARGE, rj_message = str_bytes message\<rparr> c"

definition close_idle :: "('d, 'h) in_env \<Rightarrow> ('d, 'h) in_conn \<Rightarrow> ('d, 'h) in_conn" where
  "close_idle E c =
     emit (Fx_Count ''logit.input.connections.closed'' 1 ''idle'') (going_away E ''idle'' c)"

section \<open>Reads\<close>

text \<open>What \<open>poll_read\<close> or \<open>read\<close> puts into a buffer of \<open>space\<close> bytes; no byte is the peer's close.\<close>

definition stream_read ::
    "read_outcome \<Rightarrow> nat \<Rightarrow> ('d, 'h) in_conn \<Rightarrow> (io_kind + bytes) \<times> ('d, 'h) in_conn" where
  "stream_read r space c =
     (case r of
        Failed k \<Rightarrow> (Inl k, c)
      | Ready n \<Rightarrow>
          (Inr (take (min n space) (ic_input c)), c\<lparr>ic_input := drop (min n space) (ic_input c)\<rparr>))"

definition read_ready_or_ack ::
    "('d, 'h) in_env \<Rightarrow> nat \<Rightarrow> ('d, 'h) in_conn \<Rightarrow>
     (conn_error + (io_kind + bytes) option) \<times> ('d, 'h) in_conn" where
  "read_ready_or_ack E space c =
     (if ic_pending c = None then (Inr None, c)
      else
        (case ie_poll E (ic_clock c) of
           Some r \<Rightarrow> (let (read, c) = stream_read r space (ic_tick c) in (Inr (Some read), c))
         | None \<Rightarrow>
             (case flush_ack E (ic_tick c) of
                (Inl e, c) \<Rightarrow> (Inl e, c)
              | (Inr _, c) \<Rightarrow> (Inr None, c))))"

datatype header_error =
    HE_Io conn_error
  | HE_Truncated conn_error
  | HE_Idle
  | HE_AckWrite conn_error

definition header_into_inner :: "header_error \<Rightarrow> conn_error" where
  "header_into_inner e =
     (case e of HE_Io e \<Rightarrow> e | HE_Truncated e \<Rightarrow> e | HE_AckWrite e \<Rightarrow> e
      | HE_Idle \<Rightarrow> CE_Msg ''a frame header stopped arriving'')"

definition header_progress :: "io_kind + bytes \<Rightarrow> nat \<Rightarrow> header_error + bytes option" where
  "header_progress read filled =
     (case read of
        Inl k \<Rightarrow>
          (if filled = 0 \<and> k = Unexpected_Eof then Inr None
           else if filled = 0 then Inl (HE_Io (CE_Read k))
           else Inl (HE_Truncated (CE_Read k)))
      | Inr bs \<Rightarrow>
          (if bs = [] then
             (if filled = 0 then Inr None
              else Inl (HE_Truncated (CE_Msg ''connection closed mid-header'')))
           else Inr (Some bs)))"

text \<open>What bounds a wait: nothing, the idle timeout, or the handshake's deadline around it.\<close>

datatype wait_bound = Unbounded | Idle_Bound | Deadline

definition idle_bound :: "('d, 'h) in_env \<Rightarrow> wait_bound" where
  "idle_bound E = (if ie_idle_timeout E then Idle_Bound else Unbounded)"

text \<open>What a wait in which nothing arrives comes to; \<open>idle\<close> is the caller's idle error.\<close>

fun nothing_arrives :: "'e \<Rightarrow> wait_bound \<Rightarrow> ('e + 'a) waited" where
  "nothing_arrives idle Unbounded = Never"
| "nothing_arrives idle Idle_Bound = Done (Inl idle)"
| "nothing_arrives idle Deadline = Cut"

text \<open>
  The header read so far is \<open>buf\<close>, its length the source's \<open>filled\<close>. \<open>outer\<close> is the shutdown the
  frame loop races the read against.
\<close>

function read_header_rest ::
    "('d, 'h) in_env \<Rightarrow> wait_bound \<Rightarrow> (nat \<Rightarrow> bool) \<Rightarrow> bytes \<Rightarrow> ('d, 'h) in_conn \<Rightarrow>
     (header_error + bytes option) waited \<times> ('d, 'h) in_conn" where
  "read_header_rest E bounds outer buf c =
     (if length buf < HEADER_LEN then
        if outer (ic_clock c) then (Cut, ic_tick c)
        else
          (case ie_wait E (ic_clock c) of
             None \<Rightarrow> (nothing_arrives HE_Idle bounds, ic_tick c)
           | Some r \<Rightarrow>
               (let (read, c) = stream_read r (HEADER_LEN - length buf) (ic_tick c) in
                case header_progress read (length buf) of
                  Inl e \<Rightarrow> (Done (Inl e), c)
                | Inr None \<Rightarrow> (Done (Inr None), c)
                | Inr (Some bs) \<Rightarrow> read_header_rest E bounds outer (buf @ bs) c))
      else (Done (Inr (Some buf)), c))"
  by pat_completeness auto

lemma header_progress_Some: "header_progress read filled = Inr (Some bs) \<longleftrightarrow> read = Inr bs \<and> bs \<noteq> []"
  by (auto simp: header_progress_def split: sum.splits if_splits)

termination read_header_rest
  by (relation "measure (\<lambda>(E, bounds, outer, buf, c). HEADER_LEN - length buf)")
    (auto simp: header_progress_Some intro: diff_less_mono2)

declare read_header_rest.simps [simp del]

function read_ready_header ::
    "('d, 'h) in_env \<Rightarrow> bytes \<Rightarrow> ('d, 'h) in_conn \<Rightarrow> (header_error + bytes option) \<times> ('d, 'h) in_conn" where
  "read_ready_header E buf c =
     (if length buf < HEADER_LEN then
        (case read_ready_or_ack E (HEADER_LEN - length buf) c of
           (Inl e, c) \<Rightarrow> (Inl (HE_AckWrite e), c)
         | (Inr None, c) \<Rightarrow> (Inr (Some buf), c)
         | (Inr (Some read), c) \<Rightarrow>
             (case header_progress read (length buf) of
                Inl e \<Rightarrow> (Inl e, c)
              | Inr None \<Rightarrow> (Inr None, c)
              | Inr (Some bs) \<Rightarrow> read_ready_header E (buf @ bs) c))
      else (Inr (Some buf), c))"
  by pat_completeness auto
termination read_ready_header
  by (relation "measure (\<lambda>(E, buf, c). HEADER_LEN - length buf)")
    (auto simp: header_progress_Some intro: diff_less_mono2)

declare read_ready_header.simps [simp del]

datatype frame_error =
    FE_TooLarge conn_error
  | FE_Truncated conn_error
  | FE_Crc conn_error
  | FE_Malformed string conn_error
  | FE_Stalled
  | FE_AckWrite conn_error

definition frame_into_inner :: "frame_error \<Rightarrow> conn_error" where
  "frame_into_inner e =
     (case e of FE_TooLarge e \<Rightarrow> e | FE_Truncated e \<Rightarrow> e | FE_Crc e \<Rightarrow> e | FE_Malformed _ e \<Rightarrow> e
      | FE_AckWrite e \<Rightarrow> e | FE_Stalled \<Rightarrow> CE_Msg ''a frame body stopped arriving'')"

datatype frame_payload = Whole bytes | Oversize bytes bytes

text \<open>One read of the body: ready without a wait while an \<open>Ack\<close> is owed, waited for otherwise.\<close>

definition read_body ::
    "('d, 'h) in_env \<Rightarrow> wait_bound \<Rightarrow> bool \<Rightarrow> nat \<Rightarrow> ('d, 'h) in_conn \<Rightarrow>
     (frame_error + (io_kind + bytes)) waited \<times> ('d, 'h) in_conn" where
  "read_body E stall owed space c =
     (case (if owed then read_ready_or_ack E space c else (Inr None, c)) of
        (Inl e, c) \<Rightarrow> (Done (Inl (FE_AckWrite e)), c)
      | (Inr (Some read), c) \<Rightarrow> (Done (Inr read), c)
      | (Inr None, c) \<Rightarrow>
          (case ie_wait E (ic_clock c) of
             None \<Rightarrow> (nothing_arrives FE_Stalled stall, ic_tick c)
           | Some r \<Rightarrow> (let (read, c) = stream_read r space (ic_tick c) in (Done (Inr read), c))))"

text \<open>The fill loop of \<open>read_frame_body\<close>: \<open>body\<close> is what it has read, of \<open>n\<close> bytes.\<close>

function fill_body ::
    "('d, 'h) in_env \<Rightarrow> wait_bound \<Rightarrow> bool \<Rightarrow> nat \<Rightarrow> bytes \<Rightarrow> ('d, 'h) in_conn \<Rightarrow>
     (frame_error + bytes) waited \<times> ('d, 'h) in_conn" where
  "fill_body E stall owed n body c =
     (if length body < n then
        (case read_body E stall owed (n - length body) c of
           (Cut, c) \<Rightarrow> (Cut, c)
         | (Never, c) \<Rightarrow> (Never, c)
         | (Done (Inl e), c) \<Rightarrow> (Done (Inl e), c)
         | (Done (Inr (Inl k)), c) \<Rightarrow> (Done (Inl (FE_Truncated (CE_Read k))), c)
         | (Done (Inr (Inr bs)), c) \<Rightarrow>
             (if bs = [] then (Done (Inl (FE_Truncated (CE_Msg ''connection closed mid-body''))), c)
              else fill_body E stall owed n (body @ bs) c))
      else (Done (Inr body), c))"
  by pat_completeness auto
termination fill_body
  by (relation "measure (\<lambda>(E, stall, owed, n, body, c). n - length body)")
    (auto intro: diff_less_mono2)

declare fill_body.simps [simp del]

definition read_frame_body ::
    "('d, 'h) in_env \<Rightarrow> bytes \<Rightarrow> nat \<Rightarrow> wait_bound \<Rightarrow> bool \<Rightarrow> ('d, 'h) in_conn \<Rightarrow>
     (frame_error + frame_header \<times> frame_payload) waited \<times> ('d, 'h) in_conn" where
  "read_frame_body E header_buf max_frame_bytes stall owed c =
     (case header_read header_buf of
        Inl e \<Rightarrow>
          (let reason = (if take 4 header_buf \<noteq> MAGIC then ''magic''
                         else case e of Unsupported _ \<Rightarrow> ''version'' | _ \<Rightarrow> ''malformed'')
           in (Done (Inl (FE_Malformed reason (CE_Codec e))), c))
      | Inr (header, _) \<Rightarrow>
          (let bound = min max_frame_bytes MAX_SANE_UNCOMPRESSED_LEN in
           if unat (fh_compressed_len header) > compressed_bound bound then
             (Done (Inl (FE_TooLarge (CE_Msg ''frame declares bytes over the bound''))), c)
           else
             (case fill_body E stall owed (unat (fh_compressed_len header)) [] c of
                (Cut, c) \<Rightarrow> (Cut, c)
              | (Never, c) \<Rightarrow> (Never, c)
              | (Done (Inl e), c) \<Rightarrow> (Done (Inl e), c)
              | (Done (Inr body), c) \<Rightarrow>
                  (case (if unat (fh_uncompressed_len header) > bound then
                           bnd (read_frame_prefix (ie_frame E) (header_buf @ body) HOP_PREFIX_MAX_LEN)
                             (\<lambda>((header, prefix), _). Inr (header,
                                Oversize prefix (str_bytes ''frame declares uncompressed bytes over the bound'')))
                         else
                           bnd (read_frame_with_header (ie_frame E) (header_buf @ body))
                             (\<lambda>((header, payload), _). Inr (header, Whole payload))) of
                     Inr r \<Rightarrow> (Done (Inr r), c)
                   | Inl (Malformed msg) \<Rightarrow>
                       (Done (Inl (if sublist ''crc32c'' msg
                                   then FE_Crc (CE_Msg ''crc32c mismatch -- frame is corrupt'')
                                   else FE_Malformed ''malformed'' (CE_Codec (Malformed msg)))), c)
                   | Inl e \<Rightarrow> (Done (Inl (FE_Malformed ''malformed'' (CE_Codec e))), c)))))"

section \<open>The frame loop\<close>

datatype ended = Peer_Closed | Closing

text \<open>One turn of the loop: it goes on, or ends with the loop's result, or waits forever.\<close>

datatype turn = Go_On | Stop "conn_error + ended" | Hangs

definition decode_error_reason :: "codec_error \<Rightarrow> string" where
  "decode_error_reason e = (case e of BudgetExceeded _ \<Rightarrow> ''decode_budget'' | _ \<Rightarrow> ''malformed'')"

fun compression_tag :: "compression \<Rightarrow> string" where
  "compression_tag Compression_None = ''none''"
| "compression_tag Compression_Lz4 = ''lz4''"
| "compression_tag Compression_Zstd = ''zstd''"

text \<open>The refusal of one frame by name, and the turn it leaves.\<close>

definition refuse_frame ::
    "('d, 'h) in_env \<Rightarrow> seq_id \<Rightarrow> ack_status \<Rightarrow> ('d, 'h) in_conn \<Rightarrow> turn \<times> ('d, 'h) in_conn" where
  "refuse_frame E s status c =
     (case ack_rejected E s status c of
        (Inl e, c) \<Rightarrow> (Stop (Inl e), c)
      | (Inr _, c) \<Rightarrow> (Go_On, c))"

text \<open>The frame joins the pending run, which is written once it is full.\<close>

definition extend_run :: "('d, 'h) in_env \<Rightarrow> seq_id \<Rightarrow> ('d, 'h) in_conn \<Rightarrow> turn \<times> ('d, 'h) in_conn" where
  "extend_run E s c =
     (let run = (case ic_pending c of Some run \<Rightarrow> run | None \<Rightarrow> \<lparr>pa_seq = s, pa_frames = 0\<rparr>);
          run = \<lparr>pa_seq = s, pa_frames = pa_frames run + 1\<rparr>;
          c = c\<lparr>ic_pending := Some run\<rparr>
      in if pa_frames run \<ge> ACK_COALESCE_MAX then
           (case flush_ack E c of (Inl e, c) \<Rightarrow> (Stop (Inl e), c) | (Inr _, c) \<Rightarrow> (Go_On, c))
         else (Go_On, c))"

text \<open>A decoded frame: the run of another identity is written first, then the mark decides.\<close>

definition take_frame ::
    "('d, 'h) in_env \<Rightarrow> seq_id \<Rightarrow> (symbol, 'd, 'h) event_batch \<Rightarrow> symbol provenance \<Rightarrow>
     hop_trace option \<Rightarrow> ('d, 'h) in_conn \<Rightarrow> turn \<times> ('d, 'h) in_conn" where
  "take_frame E s batch provenance trace c =
     (case (case ic_pending c of
              Some run \<Rightarrow> if sq_id (pa_seq run) \<noteq> sq_id s then flush_ack E c else (Inr (), c)
            | None \<Rightarrow> (Inr (), c)) of
        (Inl e, c) \<Rightarrow> (Stop (Inl e), c)
      | (Inr _, c) \<Rightarrow>
          (let (resend, c) = senders_is_resend E s c in
           if resend then extend_run E s (emit (Fx_Count ''logit.input.batches.resends'' 1 []) c)
           else
             (let took = ie_take E (ic_clock c);
                  c = emit (Fx_Relayed s batch provenance trace took) (ic_tick c)
              in if \<not> took then
                   (Stop (Inr Closing),
                    going_away E ''no consumer took the batch''
                      (emit (Fx_Warn ''closed_consumer'')
                        (emit (Fx_Count ''logit.input.batches.dropped'' 1 ''closed_consumer'') c)))
                 else extend_run E s (senders_raise E s c))))"

text \<open>A frame read off the stream.\<close>

definition handle_frame ::
    "('d, 'h) in_env \<Rightarrow> compression \<Rightarrow> frame_header \<Rightarrow> frame_payload \<Rightarrow> ('d, 'h) in_conn \<Rightarrow>
     turn \<times> ('d, 'h) in_conn" where
  "handle_frame E negotiated header body c =
     (if fh_flags header AND FLAG_CONTROL \<noteq> 0 then
        (Stop (Inl (CE_Msg ''received an unexpected control frame after the handshake'')), c)
      else if fh_codec header \<noteq> CODEC_HOP_BATCH then
        (Stop (Inl (CE_Msg ''frame codec byte, expected the hop batch'')),
         emit (Fx_Count ''logit.proto.errors'' 1 ''codec'') c)
      else
        (let (payload, oversize) = (case body of
               Whole payload \<Rightarrow> (payload, None) | Oversize front message \<Rightarrow> (front, Some message)) in
         case read_hop_prefix payload of
           Inl e \<Rightarrow> (Stop (Inl (CE_Codec e)), emit (Fx_Count ''logit.proto.errors'' 1 ''malformed'') c)
         | Inr (s, payload) \<Rightarrow>
             (case oversize of
                Some message \<Rightarrow>
                  refuse_frame E s (ack_status_rejected ACK_REJECTED_TOO_LARGE message)
                    (emit (Fx_Warn ''frame_rejected'')
                      (emit (Fx_Count ''logit.proto.errors'' 1 ''too_large'') c))
              | None \<Rightarrow>
                  (case decode_hop_body (ie_blobs E) (ie_layout E) payload
                          (for_frame_cap (ie_max_frame_bytes E)) (ie_interner E (ic_clock c)) of
                     Inl e \<Rightarrow>
                       (let c = emit (Fx_Count ''logit.proto.errors'' 1 (decode_error_reason e)) (ic_tick c);
                            (code, c) = (case e of
                              BudgetExceeded _ \<Rightarrow>
                                (ACK_REJECTED_DECODE_BUDGET, emit (Fx_Warn ''decode_budget'') c)
                            | _ \<Rightarrow> (ACK_REJECTED_MALFORMED, emit (Fx_Warn ''frame_rejected'') c))
                        in refuse_frame E s (ack_status_rejected code (error_text e)) c)
                   | Inr ((batch, provenance, trace), _, _) \<Rightarrow>
                       take_frame E s batch provenance trace
                         (emit (Fx_Count ''logit.proto.frame.bytes'' (unat (fh_compressed_len header)) ''in'')
                           (emit (Fx_Count ''logit.proto.frames'' 1 (compression_tag negotiated))
                             (ic_tick c)))))))"

text \<open>The answer to a frame that was not read whole.\<close>

definition frame_failed ::
    "('d, 'h) in_env \<Rightarrow> frame_error \<Rightarrow> ('d, 'h) in_conn \<Rightarrow> turn \<times> ('d, 'h) in_conn" where
  "frame_failed E e c =
     (case e of
        FE_Stalled \<Rightarrow> (Stop (Inr Closing), close_idle E c)
      | FE_TooLarge err \<Rightarrow>
          (Stop (Inl err),
           reject_too_large E ''frame declares bytes over the bound''
             (emit (Fx_Count ''logit.proto.errors'' 1 ''too_large'') c))
      | FE_Truncated err \<Rightarrow> (Stop (Inl err), emit (Fx_Count ''logit.proto.errors'' 1 ''truncated'') c)
      | FE_Crc err \<Rightarrow> (Stop (Inl err), emit (Fx_Count ''logit.proto.errors'' 1 ''crc'') c)
      | FE_Malformed reason err \<Rightarrow> (Stop (Inl err), emit (Fx_Count ''logit.proto.errors'' 1 reason) c)
      | FE_AckWrite err \<Rightarrow> (Stop (Inl err), c))"

text \<open>The header of the next frame, read ready or waited for beside the shutdown.\<close>

definition next_header ::
    "('d, 'h) in_env \<Rightarrow> ('d, 'h) in_conn \<Rightarrow> (header_error + bytes option) waited \<times> ('d, 'h) in_conn" where
  "next_header E c =
     (case read_ready_header E [] c of
        (Inr (Some buf), c) \<Rightarrow>
          if length buf = HEADER_LEN then (Done (Inr (Some buf)), c)
          else read_header_rest E (idle_bound E) (ie_shutdown E) buf c
      | (Inr None, c) \<Rightarrow> (Done (Inr None), c)
      | (Inl e, c) \<Rightarrow> (Done (Inl e), c))"

definition frame_turn ::
    "('d, 'h) in_env \<Rightarrow> compression \<Rightarrow> ('d, 'h) in_conn \<Rightarrow> turn \<times> ('d, 'h) in_conn" where
  "frame_turn E negotiated c =
     (if ie_shutdown E (ic_clock c) then
        (Stop (Inr Closing), going_away E ''listener shutting down'' (ic_tick c))
      else
        (case next_header E (ic_tick c) of
           (Cut, c) \<Rightarrow> (Stop (Inr Closing), going_away E ''listener shutting down'' c)
         | (Never, c) \<Rightarrow> (Hangs, c)
         | (Done (Inr None), c) \<Rightarrow> (Stop (Inr Peer_Closed), c)
         | (Done (Inl HE_Idle), c) \<Rightarrow> (Stop (Inr Closing), close_idle E c)
         | (Done (Inl (HE_Truncated e)), c) \<Rightarrow>
             (Stop (Inl e), emit (Fx_Count ''logit.proto.errors'' 1 ''truncated_header'') c)
         | (Done (Inl e), c) \<Rightarrow> (Stop (Inl (header_into_inner e)), c)
         | (Done (Inr (Some header_buf)), c) \<Rightarrow>
             (case read_frame_body E header_buf (unat (ie_max_frame_bytes E)) (idle_bound E) True c of
                (Done (Inr (header, body)), c) \<Rightarrow> handle_frame E negotiated header body c
              | (Done (Inl e), c) \<Rightarrow> frame_failed E e c
              | (_, c) \<Rightarrow> (Hangs, c))))"

text \<open>At most so many turns of \<open>frame_loop\<close>.\<close>

fun frame_loop ::
    "nat \<Rightarrow> ('d, 'h) in_env \<Rightarrow> compression \<Rightarrow> ('d, 'h) in_conn \<Rightarrow> turn \<times> ('d, 'h) in_conn" where
  "frame_loop 0 E negotiated c = (Go_On, c)"
| "frame_loop (Suc n) E negotiated c =
     (case frame_turn E negotiated c of
        (Go_On, c) \<Rightarrow> frame_loop n E negotiated c
      | (r, c) \<Rightarrow> (r, c))"

definition serve_frames ::
    "nat \<Rightarrow> ('d, 'h) in_env \<Rightarrow> compression \<Rightarrow> ('d, 'h) in_conn \<Rightarrow> turn \<times> ('d, 'h) in_conn" where
  "serve_frames n E negotiated c =
     (case frame_loop n E negotiated (c\<lparr>ic_pending := None\<rparr>) of
        (Stop r, c) \<Rightarrow> (Stop r, snd (flush_ack E c))
      | (r, c) \<Rightarrow> (r, c))"

section \<open>The handshake\<close>

text \<open>The reply to a decoded \<open>Hello\<close>: a reject and the error it ends with, or the acknowledgment.\<close>

definition hello_reply ::
    "u32 \<Rightarrow> sender_table \<Rightarrow> hello \<Rightarrow> (reject \<times> conn_error) + (hello_ack \<times> compression)" where
  "hello_reply max_frame_bytes senders m =
     (if h_version m \<noteq> PROTOCOL_VERSION then
        Inl (\<lparr>rj_code = REJECT_VERSION_MISMATCH,
              rj_message = str_bytes ''this listener speaks connection-protocol version''\<rparr>,
             CE_Msg ''version mismatch'')
      else if CODEC_HOP_BATCH \<notin> set (h_codecs m) then
        Inl (\<lparr>rj_code = REJECT_NO_COMMON_CODEC,
              rj_message = str_bytes ''this listener speaks the native hop codec''\<rparr>,
             CE_Msg ''client offered no codec this listener speaks'')
      else
        (let compression = (if compression_byte Compression_Lz4 \<in> set (h_compressions m)
                            then Compression_Lz4 else Compression_None)
         in Inr (\<lparr>ha_version = PROTOCOL_VERSION, ha_codec = CODEC_HOP_BATCH,
                  ha_compression = compression_byte compression, ha_max_frame_bytes = max_frame_bytes,
                  ha_window = min (h_window m) RECEIVER_MAX_WINDOW,
                  ha_marks = table_marks (h_senders m) senders\<rparr>, compression)))"

text \<open>The bytes of a \<open>Hello\<close> frame, read inside the handshake's deadline.\<close>

definition read_hello ::
    "('d, 'h) in_env \<Rightarrow> bytes \<Rightarrow> ('d, 'h) in_conn \<Rightarrow>
     (conn_error + frame_header \<times> bytes) waited \<times> ('d, 'h) in_conn" where
  "read_hello E first c =
     (case read_header_rest E Deadline (\<lambda>_. False) first c of
        (Cut, c) \<Rightarrow> (Done (Inl (CE_Msg ''timed out waiting for Hello'')), c)
      | (Never, c) \<Rightarrow> (Never, c)
      | (Done (Inl e), c) \<Rightarrow> (Done (Inl (header_into_inner e)), c)
      | (Done (Inr None), c) \<Rightarrow> (Done (Inl (CE_Msg ''connection closed before sending Hello'')), c)
      | (Done (Inr (Some header_buf)), c) \<Rightarrow>
          (if (case header_read header_buf of
                 Inr (header, _) \<Rightarrow> unat (fh_compressed_len header) > MAX_CONTROL_MESSAGE_BYTES
               | Inl _ \<Rightarrow> False)
           then (Done (Inl (CE_Msg ''Hello declares compressed bytes over the control message cap'')), c)
           else
             (case read_frame_body E header_buf MAX_CONTROL_MESSAGE_BYTES Deadline False c of
                (Done (Inr (header, Whole payload)), c) \<Rightarrow> (Done (Inr (header, payload)), c)
              | (Done (Inr (_, Oversize _ _)), c) \<Rightarrow>
                  (Done (Inl (CE_Msg ''Hello is over the control message cap'')), c)
              | (Done (Inl e), c) \<Rightarrow> (Done (Inl (frame_into_inner e)), c)
              | (Cut, c) \<Rightarrow> (Done (Inl (CE_Msg ''timed out waiting for Hello'')), c)
              | (Never, c) \<Rightarrow> (Never, c))))"

text \<open>\<open>Ok(None)\<close> is a peer silent past the deadline; \<open>Ok(Some _)\<close> is what was negotiated.\<close>

definition handshake ::
    "('d, 'h) in_env \<Rightarrow> ('d, 'h) in_conn \<Rightarrow>
     (conn_error + compression option) waited \<times> ('d, 'h) in_conn" where
  "handshake E c =
     (case ie_wait E (ic_clock c) of
           None \<Rightarrow> (Done (Inr None), ic_tick c)
         | Some r \<Rightarrow>
             (let (read, c) = stream_read r HEADER_LEN (ic_tick c) in
              case header_progress read 0 of
                Inl e \<Rightarrow> (Done (Inl (header_into_inner e)), c)
              | Inr None \<Rightarrow> (Done (Inl (CE_Msg ''connection closed before sending Hello'')), c)
              | Inr (Some first) \<Rightarrow>
                  (case read_hello E first c of
                     (Never, c) \<Rightarrow> (Never, c)
                   | (Cut, c) \<Rightarrow> (Cut, c)
                   | (Done (Inl e), c) \<Rightarrow> (Done (Inl e), c)
                   | (Done (Inr (header, payload)), c) \<Rightarrow>
                       if fh_flags header AND FLAG_CONTROL = 0 then
                         (Done (Inl (CE_Msg ''expected a control frame (Hello) first, got a data frame'')), c)
                       else
                         (case hello_decode payload of
                            Inl e \<Rightarrow> (Done (Inl (CE_Codec e)), c)
                          | Inr m \<Rightarrow>
                              (let (reply, c) = with_senders E
                                     (\<lambda>t. (hello_reply (ie_max_frame_bytes E) t m, t)) c in
                               case reply of
                                 Inl (reject, e) \<Rightarrow> (Done (Inl e), snd (write_reject E reject c))
                               | Inr (ack, compression) \<Rightarrow>
                                   (case write_control E (CM_HelloAck ack) c of
                                      (Inl e, c) \<Rightarrow> (Done (Inl e), c)
                                    | (Inr _, c) \<Rightarrow> (Done (Inr (Some compression)), c)))))))"

definition serve_connection ::
    "nat \<Rightarrow> ('d, 'h) in_env \<Rightarrow> ('d, 'h) in_conn \<Rightarrow> turn \<times> ('d, 'h) in_conn" where
  "serve_connection n E c =
     (case handshake E c of
        (Done (Inr (Some negotiated)), c) \<Rightarrow> serve_frames n E negotiated c
      | (Done (Inr None), c) \<Rightarrow>
          (Stop (Inr Closing), emit (Fx_Count ''logit.input.connections.closed'' 1 ''handshake_timeout'') c)
      | (Done (Inl e), c) \<Rightarrow> (Stop (Inl e), emit (Fx_Count ''logit.proto.errors'' 1 ''handshake'') c)
      | (_, c) \<Rightarrow> (Hangs, c))"

text \<open>Past the connection cap (no permit) the listener only writes its reject.\<close>

definition reject_or_serve ::
    "nat \<Rightarrow> ('d, 'h) in_env \<Rightarrow> bool \<Rightarrow> ('d, 'h) in_conn \<Rightarrow> turn \<times> ('d, 'h) in_conn" where
  "reject_or_serve n E permit c =
     (if \<not> permit then
        (case write_reject E \<lparr>rj_code = REJECT_INTERNAL,
               rj_message = str_bytes ''connection limit reached, retry later''\<rparr> c of
           (Inl e, c) \<Rightarrow> (Stop (Inl e), c)
         | (Inr _, c) \<Rightarrow> (Stop (Inr Closing), c))
      else serve_connection n E c)"

end
