(* ===== verification/Sender.thy ===== *)
theory Sender
  imports Logit_Out Logit_In
begin

text \<open>
  What the native sink (\<open>crates/logit-outputs/src/logit.rs\<close>) keeps and promises: its reading of an
  \<open>Ack\<close> against the in-flight list, the identities it resumes with, and a handshake that the
  listener of \<open>Logit_In\<close> always answers in a way the sink accepts.
\<close>

section \<open>Reading an Ack\<close>

definition within :: "ack \<Rightarrow> in_flight \<Rightarrow> bool" where
  "within a e \<longleftrightarrow> sq_id (fl_seq e) = ack_id a \<and> sq_seq (fl_seq e) \<le> ack_seq a"

definition acked_entry :: "in_flight \<Rightarrow> in_flight" where
  "acked_entry e = e\<lparr>fl_acked := True\<rparr>"

definition names_entry :: "ack \<Rightarrow> in_flight \<Rightarrow> bool" where
  "names_entry a e \<longleftrightarrow> fl_seq e = \<lparr>sq_id = ack_id a, sq_seq = ack_seq a\<rparr>"

lemma mark_run_eq:
  "mark_run a q named =
     (map acked_entry (takeWhile (within a) q) @ dropWhile (within a) q,
      named \<or> (\<exists>e \<in> set (takeWhile (within a) q). names_entry a e))"
proof (induction q arbitrary: named)
  case (Cons e q)
  obtain i k where e: "fl_seq e = \<lparr>sq_id = i, sq_seq = k\<rparr>" by (cases "fl_seq e")
  then show ?case using Cons.IH
    by (auto simp: within_def acked_entry_def names_entry_def not_less)
qed simp

lemma mark_acked_eq_Inr:
  "mark_acked q a = Inr q' \<longleftrightarrow>
     (\<exists>e \<in> set (takeWhile (within a) q). names_entry a e) \<and>
     q' = map acked_entry (takeWhile (within a) q) @ dropWhile (within a) q"
proof (cases q)
  case (Cons e es)
  have "takeWhile (within a) q = []" if "sq_id (fl_seq e) \<noteq> ack_id a"
    using that Cons by (simp add: within_def)
  then show ?thesis
    using Cons by (auto simp: mark_acked_def mark_run_eq simp del: mark_run.simps)
qed (simp add: mark_acked_def)

lemma mark_acked_seqs:
  assumes "mark_acked q a = Inr q'" shows "map fl_seq q' = map fl_seq q"
proof -
  have "map fl_seq q = map fl_seq (takeWhile (within a) q) @ map fl_seq (dropWhile (within a) q)"
    by (simp flip: map_append)
  then show ?thesis using assms by (auto simp: mark_acked_eq_Inr acked_entry_def comp_def)
qed

section \<open>The identities to resume with\<close>

text \<open>Each identity once, in the order of its first frame.\<close>

definition first_seen :: "'a list \<Rightarrow> 'a list" where
  "first_seen xs = rev (remdups (rev xs))"

lemma first_seen_snoc: "first_seen (xs @ [x]) = (if x \<in> set xs then first_seen xs else first_seen xs @ [x])"
  by (simp add: first_seen_def)

lemma set_first_seen [simp]: "set (first_seen xs) = set xs"
  by (simp add: first_seen_def)

lemma distinct_first_seen [simp]: "distinct (first_seen xs)"
  by (simp add: first_seen_def)

lemma first_seen_prefix: "prefix (first_seen xs) (first_seen (xs @ ys))"
proof (induction ys rule: rev_induct)
  case (snoc y ys)
  then show ?case using first_seen_snoc[of "xs @ ys" y] by (auto intro: prefix_order.trans)
qed simp

lemma collect_senders_eq:
  assumes "length (first_seen ids) \<le> MAX_HELLO_SENDERS"
  shows "collect_senders q (first_seen ids) =
    take MAX_HELLO_SENDERS (first_seen (ids @ map (\<lambda>e. sq_id (fl_seq e)) q))"
  using assms
proof (induction q arbitrary: ids)
  case (Cons e q)
  let ?i = "sq_id (fl_seq e)"
  show ?case
  proof (cases "length (first_seen ids) = MAX_HELLO_SENDERS")
    case True
    then show ?thesis using first_seen_prefix[of ids "map (\<lambda>e. sq_id (fl_seq e)) (e # q)"]
      by (auto simp: prefix_def)
  next
    case False
    then have "length (first_seen (ids @ [?i])) \<le> MAX_HELLO_SENDERS"
      using Cons.prems by (simp add: first_seen_snoc)
    from Cons.IH[OF this] False show ?thesis by (simp add: first_seen_snoc)
  qed
qed simp

lemma resend_senders_eq:
  "resend_senders c = take MAX_HELLO_SENDERS (first_seen (map (\<lambda>e. sq_id (fl_seq e)) (oc_in_flight c)))"
  using collect_senders_eq[of "[]" "oc_in_flight c"] by (simp add: resend_senders_def first_seen_def)

section \<open>The handshake is answered\<close>

lemma length_table_marks: "length (table_marks ids t) \<le> length ids"
  by (induction ids) (auto simp: table_marks_def map_filter_simps split: option.splits)

lemma table_marks_keys:
  "map fst (table_marks ids t) = filter (\<lambda>i. map_of (st_entries t) i \<noteq> None) ids"
  by (induction ids) (auto simp: table_marks_def map_filter_simps split: option.splits)

lemma marks_answer_ok:
  assumes "distinct (map fst (ha_marks a))" and "fst ` set (ha_marks a) \<subseteq> set (h_senders m)"
  shows "marks_answer a m = Inr ()"
proof -
  have "fst (ha_marks a ! k) \<in> set (h_senders m) \<and> fst (ha_marks a ! k) \<notin> fst ` set (take k (ha_marks a))"
    if k: "k < length (ha_marks a)" for k
  proof -
    have "fst (ha_marks a ! k) \<notin> set (take k (map fst (ha_marks a)))"
      using assms(1) k by (auto simp: in_set_conv_nth distinct_conv_nth)
    then show ?thesis using assms(2) k by (auto simp: take_map)
  qed
  then have "find (\<lambda>k. fst (ha_marks a ! k) \<notin> set (h_senders m) \<or>
      fst (ha_marks a ! k) \<in> fst ` set (take k (ha_marks a))) [0..<length (ha_marks a)] = None"
    by (auto simp: find_None_iff)
  then show ?thesis by (simp add: marks_answer_def)
qed

section \<open>The invariant of the sink\<close>

definition senders_listed :: "bytes list \<Rightarrow> bool" where
  "senders_listed ids \<longleftrightarrow> distinct ids \<and> length ids \<le> MAX_HELLO_SENDERS \<and>
     (\<forall>i \<in> set ids. length i = SENDER_ID_BYTES)"

definition conn_inv :: "out_conn \<Rightarrow> bool" where
  "conn_inv c \<longleftrightarrow> 1 \<le> oc_window c \<and> oc_compression c \<noteq> Compression_Zstd \<and>
     (\<forall>s \<in> set (map fl_seq (oc_in_flight c)). length (sq_id s) = SENDER_ID_BYTES)"

definition out_inv :: "logit_output \<Rightarrow> bool" where
  "out_inv lo \<longleftrightarrow> lo_window lo \<noteq> 0 \<and> senders_listed (lo_resend_senders lo) \<and>
     (case lo_stream lo of None \<Rightarrow> True | Some c \<Rightarrow> conn_inv c)"

lemma o_simps [simp]:
  "lo_stream (o_emit x lo) = lo_stream lo" "lo_window (o_emit x lo) = lo_window lo"
  "lo_resend_senders (o_emit x lo) = lo_resend_senders lo"
  "lo_stream (o_tick lo) = lo_stream lo" "lo_window (o_tick lo) = lo_window lo"
  "lo_resend_senders (o_tick lo) = lo_resend_senders lo"
  by (simp_all add: o_emit_def o_tick_def)

lemma drop_conn_simps [simp]:
  "lo_stream (drop_conn lo) = lo_stream lo" "lo_window (drop_conn lo) = lo_window lo"
  "lo_resend_senders (drop_conn lo) = lo_resend_senders lo"
  by (simp_all add: drop_conn_def)

lemma record_simps [simp]:
  "lo_stream (record_in_flight n lo) = lo_stream lo" "lo_window (record_in_flight n lo) = lo_window lo"
  "lo_resend_senders (record_in_flight n lo) = lo_resend_senders lo"
  "lo_stream (count_request r lo) = lo_stream lo" "lo_window (count_request r lo) = lo_window lo"
  "lo_resend_senders (count_request r lo) = lo_resend_senders lo"
  by (simp_all add: record_in_flight_def count_request_def)

lemma warn_simps [simp]:
  "lo_stream (warn_at_head lo) = lo_stream lo" "lo_window (warn_at_head lo) = lo_window lo"
  "lo_resend_senders (warn_at_head lo) = lo_resend_senders lo"
  by (simp_all add: warn_at_head_def)

lemma senders_listed_resend: "conn_inv c \<Longrightarrow> senders_listed (resend_senders c)"
  by (auto simp: senders_listed_def resend_senders_eq conn_inv_def dest!: in_set_takeD)

lemma write_with_progress_simps:
  "write_with_progress E bytes lo = (done, sent, lo') \<Longrightarrow>
   lo_stream lo' = lo_stream lo \<and> lo_window lo' = lo_window lo \<and>
   lo_resend_senders lo' = lo_resend_senders lo \<and> lo_compression lo' = lo_compression lo"
  by (auto simp: write_with_progress_def split: prod.splits)

lemma handshaken_simps [simp]:
  "lo_stream (handshaken n lo) = lo_stream lo" "lo_window (handshaken n lo) = lo_window lo"
  "lo_resend_senders (handshaken n lo) = []"
  by (simp_all add: handshaken_def Let_def)

lemma sink_compression_not_zstd: "sink_compression_from_u8 b = Some z \<Longrightarrow> z \<noteq> Compression_Zstd"
  by (auto simp: sink_compression_from_u8_def split: if_splits)

lemma validated_compression: "validate_hello_ack a m = Inr z \<Longrightarrow> z \<noteq> Compression_Zstd"
  by (auto simp: validate_hello_ack_def split: option.splits if_splits dest: sink_compression_not_zstd)

lemma unat_min_pos: "a \<noteq> 0 \<Longrightarrow> b \<noteq> 0 \<Longrightarrow> 1 \<le> unat (min a b)" for a b :: "'a::len word"
  by (simp add: min_def Suc_leI unat_gt_0)

lemma read_control_ok: "read_control F input = Inr (m, rest) \<Longrightarrow> message_ok m"
  by (auto simp: read_control_def split: sum.splits dest!: control_decode_ok)

lemma out_handshake_inv:
  assumes "lo_window lo \<noteq> 0" and "senders_listed (lo_resend_senders lo)"
    and "out_handshake E input lo = (r, lo')"
  shows "lo_window lo' \<noteq> 0 \<and> senders_listed (lo_resend_senders lo') \<and> lo_stream lo' = lo_stream lo \<and>
    (\<forall>c. r = Inr c \<longrightarrow> conn_inv c)"
proof (cases "hello_frame E (hello_of lo)")
  case (Inl e)
  then show ?thesis using assms by (auto simp: out_handshake_def)
next
  case (Inr framed)
  obtain d sent lo1 where w: "write_with_progress E framed lo = (d, sent, lo1)"
    by (cases "write_with_progress E framed lo")
  note simps = write_with_progress_simps[OF w]
  have "ha_window a \<noteq> 0" if "read_control (oe_frame E) input = Inr (CM_HelloAck a, rest)" for a rest
    using read_control_ok[OF that] by (simp add: hello_ack_ok_def)
  then have "conn_inv (conn_of lo1 a z sent rest)"
    if "read_control (oe_frame E) input = Inr (CM_HelloAck a, rest)" "validate_hello_ack a (hello_of lo1) = Inr z"
    for a rest z
    using that simps assms(1) unat_min_pos[of "lo_window lo" "ha_window a"]
    by (auto simp: conn_inv_def conn_of_def dest: validated_compression)
  then show ?thesis using assms Inr w simps
    by (auto simp: out_handshake_def Let_def senders_listed_def split: if_splits sum.splits prod.splits control_message.splits)
qed

lemma connect_inv:
  assumes "lo_window lo \<noteq> 0" and "senders_listed (lo_resend_senders lo)"
    and "connect_and_handshake E lo = (r, lo')"
  shows "lo_window lo' \<noteq> 0 \<and> senders_listed (lo_resend_senders lo') \<and> lo_stream lo' = lo_stream lo \<and>
    (\<forall>c. r = Inr c \<longrightarrow> conn_inv c)"
  using assms out_handshake_inv[of "o_tick lo" E _ r lo']
  by (auto simp: connect_and_handshake_def split: option.splits)

lemma conn_inv_push:
  "conn_inv c \<Longrightarrow> length (sq_id s) = SENDER_ID_BYTES \<Longrightarrow>
   conn_inv (c\<lparr>oc_in_flight := oc_in_flight c @ [\<lparr>fl_seq = s, fl_acked = b\<rparr>]\<rparr>)"
  by (auto simp: conn_inv_def)

lemma conn_inv_written [simp]:
  "conn_inv (c\<lparr>oc_written := w\<rparr>) = conn_inv c" "conn_inv (c\<lparr>oc_broken := b\<rparr>) = conn_inv c"
  "conn_inv (c\<lparr>oc_input := i\<rparr>) = conn_inv c"
  by (simp_all add: conn_inv_def)

lemma take_conn_inv:
  assumes "out_inv lo" and "take_conn E fresh lo = (r, lo')"
  shows "out_inv lo' \<and> (\<forall>c. r = Inr c \<longrightarrow> conn_inv c \<and> lo_stream lo' = None)"
proof (cases "lo_stream lo")
  case None
  then show ?thesis using assms connect_inv[of lo E r lo'] by (auto simp: take_conn_def out_inv_def)
next
  case (Some conn)
  then show ?thesis
    using assms connect_inv[of "drop_conn ((o_tick lo)\<lparr>lo_stream := None\<rparr>)" E r lo']
    by (auto simp: take_conn_def out_inv_def split: if_splits)
qed

lemma write_frame_on_inv:
  assumes "out_inv lo" and "lo_stream lo = None" and "conn_inv conn" and "length (sq_id s) = SENDER_ID_BYTES"
    and "write_frame_on E conn framed s lo = (r, lo')"
  shows "out_inv lo'"
proof -
  obtain d sent lo1 where w: "write_with_progress E framed lo = (d, sent, lo1)"
    by (cases "write_with_progress E framed lo")
  show ?thesis using assms w write_with_progress_simps[OF w]
      conn_inv_push[of "conn\<lparr>oc_written := oc_written conn @ sent\<rparr>" s False]
    by (auto simp: write_frame_on_def Let_def out_inv_def split: if_splits)
qed

lemma frame_on_conn_inv:
  assumes "out_inv lo" and "lo_stream lo = None" and "conn_inv conn" and "length (sq_id s) = SENDER_ID_BYTES"
    and "frame_on_conn E conn payload s lo = (r, lo')"
  shows "out_inv lo'"
  using assms write_frame_on_inv[OF assms(1-4), of E _ r lo']
  by (auto simp: frame_on_conn_def Let_def out_inv_def split: if_splits sum.splits)

lemma submit_frame_inv:
  assumes "out_inv lo" and "length (sq_id s) = SENDER_ID_BYTES"
    and "submit_frame E batch ctx s lo = (r, lo')"
  shows "out_inv lo'"
proof -
  let ?fresh = "lo_stream lo = None \<and> lo_resend_senders lo \<noteq> []"
  obtain x lo1 where x: "(if ?fresh then
        (case connect_and_handshake E lo of
           (Inl e, lo) \<Rightarrow> (Inl e, lo) | (Inr conn, lo) \<Rightarrow> (Inr (), lo\<lparr>lo_stream := Some conn\<rparr>))
      else (Inr (), lo)) = (x, lo1)"
    by (cases "if ?fresh then
        (case connect_and_handshake E lo of
           (Inl e, lo) \<Rightarrow> (Inl e, lo) | (Inr conn, lo) \<Rightarrow> (Inr (), lo\<lparr>lo_stream := Some conn\<rparr>))
      else (Inr (), lo)") auto
  have lo1: "out_inv lo1"
    using x assms(1) connect_inv[of lo E] by (fastforce simp: out_inv_def split: if_splits prod.splits sum.splits)
  obtain y lo2 where y: "take_conn E ?fresh lo1 = (y, lo2)" by (cases "take_conn E ?fresh lo1")
  note tc = take_conn_inv[OF lo1 y]
  have fc: "frame_on_conn E conn (hop_payload E batch ctx s) s lo2 = (r, lo') \<Longrightarrow> y = Inr conn \<Longrightarrow> out_inv lo'"
    for conn using tc frame_on_conn_inv[of lo2 conn s E] assms(2) by simp
  show ?thesis using assms(2,3) x y lo1 tc fc conn_inv_push
    by (auto simp: submit_frame_def Let_def out_inv_def split: sum.splits option.splits if_splits)
qed

lemma keep_conn_inv:
  "out_inv lo \<Longrightarrow> lo_stream lo = None \<Longrightarrow> conn_inv c \<Longrightarrow> out_inv (keep_conn c lo)"
  by (auto simp: keep_conn_def out_inv_def)

lemma apply_answer_inv:
  assumes "conn_inv c" and "apply_answer answer c = Inr (c', e)"
  shows "conn_inv c'"
  using assms
  by (auto simp: apply_answer_def conn_inv_def settle_rejected_def
      split: sum.splits control_message.splits ack_status.splits list.splits if_splits
      simp del: set_map simp flip: set_map dest!: mark_acked_seqs)

lemma pop_head_inv:
  assumes "out_inv lo" and "lo_stream lo = None" and "conn_inv c" and "pop_head c lo = (r, lo')"
  shows "out_inv lo'"
proof -
  have "conn_inv (c\<lparr>oc_in_flight := tl (oc_in_flight c)\<rparr>)"
    using assms(3) by (cases "oc_in_flight c") (auto simp: conn_inv_def)
  moreover have "out_inv (record_in_flight n lo)" for n using assms(1) by (simp add: out_inv_def)
  ultimately show ?thesis using assms(2,4) by (auto simp: pop_head_def Let_def intro!: keep_conn_inv)
qed

lemma settle_answer_inv:
  assumes "out_inv lo" and "lo_stream lo = None" and "conn_inv c" and "settle_answer answer c lo = (r, lo')"
  shows "out_inv lo'"
proof (cases "apply_answer answer c")
  case (Inl e)
  then show ?thesis using assms senders_listed_resend[OF assms(3)]
    by (auto simp: settle_answer_def out_inv_def)
next
  case (Inr p)
  obtain c' e where p: "p = (c', e)" by (cases p)
  have c': "conn_inv c'" using apply_answer_inv[OF assms(3)] Inr p by simp
  have "out_inv (record_in_flight n lo)" for n using assms(1) by (simp add: out_inv_def)
  then show ?thesis using assms(2,4) Inr p c' pop_head_inv[OF assms(1,2) c']
    by (cases e) (auto simp: settle_answer_def intro: keep_conn_inv)
qed

lemma read_ack_inv:
  assumes "out_inv lo" and "read_ack E lo = (r, lo')"
  shows "out_inv lo'"
proof (cases "lo_stream lo")
  case None
  then show ?thesis using assms by (simp add: read_ack_def)
next
  case (Some conn)
  have conn: "conn_inv conn" using assms(1) Some by (simp add: out_inv_def)
  have base: "out_inv (lo\<lparr>lo_stream := None\<rparr>)" "out_inv (o_tick (lo\<lparr>lo_stream := None\<rparr>))"
    using assms(1) by (simp_all add: out_inv_def)
  show ?thesis
    using assms Some conn base pop_head_inv[OF base(1) _ conn, of r lo']
      settle_answer_inv[OF base(2), of conn] settle_answer_inv[OF base(2), of "conn\<lparr>oc_input := i\<rparr>" for i]
    by (auto simp: read_ack_def Let_def split: if_splits sum.splits prod.splits)
qed

section \<open>Any use of the sink\<close>

datatype ('d, 'h) out_call =
    Call_Observe batch_context seq_id
  | Call_Send "(symbol, 'd, 'h) event_batch"
  | Call_Submit "(symbol, 'd, 'h) event_batch" batch_context seq_id
  | Call_Await_Ack
  | Call_Flush

fun apply_call :: "('d, 'h) out_env \<Rightarrow> ('d, 'h) out_call \<Rightarrow> logit_output \<Rightarrow> logit_output" where
  "apply_call E (Call_Observe ctx s) lo = observe_batch ctx s lo"
| "apply_call E (Call_Send batch) lo = snd (send_batch E batch lo)"
| "apply_call E (Call_Submit batch ctx s) lo = snd (submit E batch ctx s lo)"
| "apply_call E Call_Await_Ack lo = snd (await_ack E lo)"
| "apply_call E Call_Flush lo = output_flush lo"

definition run_calls :: "('d, 'h) out_env \<Rightarrow> ('d, 'h) out_call list \<Rightarrow> logit_output \<Rightarrow> logit_output" where
  "run_calls E calls lo = fold (apply_call E) calls lo"

fun call_names :: "('d, 'h) out_call \<Rightarrow> bool" where
  "call_names (Call_Observe ctx s) = (length (sq_id s) = SENDER_ID_BYTES)"
| "call_names (Call_Submit batch ctx s) = (length (sq_id s) = SENDER_ID_BYTES)"
| "call_names _ = True"

lemma submit_inv:
  "out_inv lo \<Longrightarrow> length (sq_id s) = SENDER_ID_BYTES \<Longrightarrow> submit E batch ctx s lo = (r, lo') \<Longrightarrow> out_inv lo'"
  using submit_frame_inv[of lo s E batch ctx]
  by (auto simp: submit_def Let_def out_inv_def split: prod.splits if_splits)

lemma await_ack_inv: "out_inv lo \<Longrightarrow> await_ack E lo = (r, lo') \<Longrightarrow> out_inv lo'"
  using read_ack_inv[of lo E] by (auto simp: await_ack_def out_inv_def split: prod.splits)

text \<open>The pair a \<open>send\<close> uses is the one observed, so it is part of the invariant of a run.\<close>

definition run_inv :: "logit_output \<Rightarrow> bool" where
  "run_inv lo \<longleftrightarrow> out_inv lo \<and> (\<forall>s. lo_pending_seq lo = Some s \<longrightarrow> length (sq_id s) = SENDER_ID_BYTES)"

lemma pending_seq_simps [simp]:
  "lo_pending_seq (o_emit x lo) = lo_pending_seq lo" "lo_pending_seq (o_tick lo) = lo_pending_seq lo"
  "lo_pending_seq (drop_conn lo) = lo_pending_seq lo"
  "lo_pending_seq (record_in_flight n lo) = lo_pending_seq lo"
  "lo_pending_seq (count_request r lo) = lo_pending_seq lo"
  "lo_pending_seq (warn_at_head lo) = lo_pending_seq lo"
  "lo_pending_seq (handshaken n lo) = lo_pending_seq lo"
  "lo_pending_seq (keep_conn c lo) = lo_pending_seq lo"
  "lo_pending_seq (output_flush lo) = lo_pending_seq lo"
  by (simp_all add: o_emit_def o_tick_def drop_conn_def record_in_flight_def count_request_def
      warn_at_head_def handshaken_def keep_conn_def output_flush_def Let_def split: option.splits)

lemma write_pending: "write_with_progress E bytes lo = (d, sent, lo') \<Longrightarrow> lo_pending_seq lo' = lo_pending_seq lo"
  by (auto simp: write_with_progress_def split: prod.splits)

lemma connect_pending: "connect_and_handshake E lo = (r, lo') \<Longrightarrow> lo_pending_seq lo' = lo_pending_seq lo"
  by (auto simp: connect_and_handshake_def out_handshake_def Let_def dest!: write_pending
      split: option.splits sum.splits prod.splits if_splits control_message.splits)

lemma take_conn_pending: "take_conn E fresh lo = (r, lo') \<Longrightarrow> lo_pending_seq lo' = lo_pending_seq lo"
  by (auto simp: take_conn_def dest!: connect_pending split: option.splits if_splits)

lemma frame_on_conn_pending:
  "frame_on_conn E conn payload s lo = (r, lo') \<Longrightarrow> lo_pending_seq lo' = lo_pending_seq lo"
  by (auto simp: frame_on_conn_def write_frame_on_def Let_def dest!: write_pending
      split: sum.splits prod.splits if_splits)

lemma submit_pending: "submit E batch ctx s lo = (r, lo') \<Longrightarrow> lo_pending_seq lo' = lo_pending_seq lo"
  by (auto simp: submit_def submit_frame_def Let_def
      dest!: connect_pending take_conn_pending frame_on_conn_pending
      split: option.splits sum.splits prod.splits if_splits)

lemma await_ack_pending: "await_ack E lo = (r, lo') \<Longrightarrow> lo_pending_seq lo' = lo_pending_seq lo"
  by (auto simp: await_ack_def read_ack_def settle_answer_def pop_head_def Let_def
      split: option.splits sum.splits prod.splits if_splits)

lemma run_inv_call:
  assumes "run_inv lo" and "call_names k" shows "run_inv (apply_call E k lo)"
proof (cases k)
  case (Call_Send batch)
  show ?thesis
  proof (cases "lo_pending_seq lo")
    case None
    then show ?thesis using assms Call_Send by (simp add: send_batch_def)
  next
    case (Some s)
    obtain r lo1 where s1: "submit E batch (lo_pending_ctx lo) s lo = (r, lo1)"
      by (cases "submit E batch (lo_pending_ctx lo) s lo")
    obtain r2 lo2 where s2: "await_ack E lo1 = (r2, lo2)" by (cases "await_ack E lo1")
    have "run_inv lo1"
      using assms(1) Some submit_inv[OF _ _ s1] submit_pending[OF s1] by (simp add: run_inv_def)
    moreover then have "run_inv lo2"
      using await_ack_inv[OF _ s2] await_ack_pending[OF s2] by (simp add: run_inv_def)
    moreover then have "run_inv (lo2\<lparr>lo_pending_seq := None\<rparr>)" by (simp add: run_inv_def out_inv_def)
    ultimately show ?thesis using Call_Send Some s1 s2
      by (auto simp: send_batch_def split: sum.splits)
  qed
next
  case (Call_Submit batch ctx s)
  then show ?thesis using assms submit_inv[of lo s E batch ctx] submit_pending[of E batch ctx s lo]
    by (cases "submit E batch ctx s lo") (simp add: run_inv_def)
next
  case Call_Await_Ack
  then show ?thesis using assms await_ack_inv[of lo E] await_ack_pending[of E lo]
    by (cases "await_ack E lo") (simp add: run_inv_def)
qed (use assms in \<open>auto simp: run_inv_def out_inv_def observe_batch_def output_flush_def split: option.splits\<close>)

lemma run_inv_calls: "run_inv lo \<Longrightarrow> list_all call_names calls \<Longrightarrow> run_inv (run_calls E calls lo)"
  by (induction calls arbitrary: lo) (simp_all add: run_calls_def run_inv_call)

lemma run_inv_new: "w \<noteq> 0 \<Longrightarrow> run_inv (with_concurrency w (with_compression z output_new))"
  by (simp add: run_inv_def out_inv_def output_new_def with_concurrency_def with_compression_def senders_listed_def)

section \<open>Control messages on the wire\<close>

definition control_frame :: "frame_env \<Rightarrow> control_message \<Rightarrow> bytes" where
  "control_frame F m =
     header_write (frame_header_of F 0 Compression_None FLAG_CONTROL (control_encode m)) @ control_encode m"

lemma control_encode_small:
  "message_ok m \<Longrightarrow> length (control_encode m) \<le> MAX_CONTROL_MESSAGE_BYTES"
  using length_hello length_hello_ack length_ack length_reject
  by (cases m) (force simp: MAX_CONTROL_MESSAGE_BYTES_def)+

lemma control_frame_written:
  "message_ok m \<Longrightarrow>
   write_frame_with_flags F 0 Compression_None FLAG_CONTROL (control_encode m) = Inr (control_frame F m)"
  using control_encode_small[of m] unfolding write_frame_eq
  by (simp add: control_frame_def frame_body_def MAX_CONTROL_MESSAGE_BYTES_def MAX_SANE_UNCOMPRESSED_LEN_def)

lemma read_control_written:
  assumes "frame_laws F" and "message_ok m"
  shows "read_control F (control_frame F m @ rest) = Inr (m, rest)"
proof -
  let ?p = "control_encode m"
  let ?h = "frame_header_of F 0 Compression_None FLAG_CONTROL ?p"
  have len: "unat (fh_compressed_len ?h) = length ?p" "unat (fh_uncompressed_len ?h) = length ?p"
    using control_encode_small[OF assms(2)]
    by (simp_all add: frame_header_of_def frame_body_def MAX_CONTROL_MESSAGE_BYTES_def unat_of_nat_u32)
  have hr: "header_read (header_write ?h) = Inr (?h, [])"
    using header_read_written[of ?h "[]"] by (simp add: frame_header_of_def)
  have rd: "read_frame_with_header F (header_write ?h @ ?p) = Inr ((?h, ?p), [])"
    using read_frame_written[OF assms(1) control_frame_written[OF assms(2), of F], of "[]"]
    by (simp add: control_frame_def)
  have flag: "fh_flags ?h AND FLAG_CONTROL \<noteq> 0" by (simp add: frame_header_of_def FLAG_CONTROL_def)
  show ?thesis
    using control_encode_small[OF assms(2)] flag control_decode_written[OF assms(2)]
    by (simp add: read_control_def control_frame_def read_exact_def hr len rd)
qed

section \<open>Properties\<close>

lemma hello_of_ok: "run_inv lo \<Longrightarrow> hello_ok (hello_of lo) \<and> distinct (h_senders (hello_of lo))"
  by (auto simp: hello_ok_def hello_of_def run_inv_def out_inv_def senders_listed_def MAX_CHOICE_LIST_ENTRIES_def)

lemma reply_validates:
  assumes "hello_ok m" and "distinct (h_senders m)" and "h_version m = PROTOCOL_VERSION"
    and "CODEC_HOP_BATCH \<in> set (h_codecs m)" and "0 \<in> set (h_compressions m)"
  shows "\<exists>a z. hello_reply cap t m = Inr (a, z) \<and> hello_ack_ok a \<and> validate_hello_ack a m = Inr z"
proof -
  let ?z = "if compression_byte Compression_Lz4 \<in> set (h_compressions m) then Compression_Lz4 else Compression_None"
  obtain a where a: "hello_reply cap t m = Inr (a, ?z)"
      "a = \<lparr>ha_version = PROTOCOL_VERSION, ha_codec = CODEC_HOP_BATCH, ha_compression = compression_byte ?z,
            ha_max_frame_bytes = cap, ha_window = min (h_window m) RECEIVER_MAX_WINDOW,
            ha_marks = table_marks (h_senders m) t\<rparr>"
    using assms(3,4) by (simp add: hello_reply_def)
  have keys: "fst ` set (ha_marks a) \<subseteq> set (h_senders m)" "distinct (map fst (ha_marks a))"
    using table_marks_keys[of "h_senders m" t] assms(2) by (auto simp: a(2) simp flip: set_map)
  have "hello_ack_ok a"
    using assms(1) keys(1) length_table_marks[of "h_senders m" t]
    by (auto simp: hello_ack_ok_def hello_ok_def a(2) RECEIVER_MAX_WINDOW_def min_def)
  moreover have "validate_hello_ack a m = Inr ?z"
    using assms(3-5) marks_answer_ok[OF keys(2,1)]
    by (simp add: validate_hello_ack_def a(2) sink_compression_from_u8_def)
  ultimately show ?thesis using a(1) by blast
qed

text \<open>
  C32. The handshake always succeeds between a sink and a listener: whatever a sink with a window of
  at least 1 has been through, its \<open>Hello\<close> decodes at the listener to itself, the listener answers
  it with a \<open>HelloAck\<close> whatever its table holds, that answer decodes at the sink to itself, and
  the sink's validation accepts it with the compression the listener chose.
\<close>

theorem handshake_interoperates:
  assumes "w \<noteq> 0" and "list_all call_names calls"
    and "m = hello_of (run_calls E calls (with_concurrency w (with_compression z output_new)))"
  shows "hello_decode (hello_encode m) = Inr m \<and>
    (\<exists>a z'. hello_reply max_frame_bytes t m = Inr (a, z') \<and>
       control_decode (control_encode (CM_HelloAck a)) = Inr (CM_HelloAck a) \<and>
       validate_hello_ack a m = Inr z')"
proof -
  have "run_inv (run_calls E calls (with_concurrency w (with_compression z output_new)))"
    using assms(1,2) by (intro run_inv_calls run_inv_new)
  then have ok: "hello_ok m" "distinct (h_senders m)" using hello_of_ok assms(3) by auto
  have "hello_decode (hello_encode m) = Inr m"
    unfolding hello_decode_def using hello_decode_fields_written(2)[OF ok(1)]
    by (subst hello_decode_fields_written(1)[OF ok(1)]) (simp add: expect_msg_type_def read_u8_def)
  moreover obtain a z' where "hello_reply max_frame_bytes t m = Inr (a, z')" "hello_ack_ok a"
      "validate_hello_ack a m = Inr z'"
    using reply_validates[OF ok, of max_frame_bytes t] by (auto simp: assms(3) hello_of_def)
  moreover from this(2) have "control_decode (control_encode (CM_HelloAck a)) = Inr (CM_HelloAck a)"
    by (intro control_decode_written) simp
  ultimately show ?thesis by blast
qed

definition idle_out_env :: "(unit, unit) out_env" where
  "idle_out_env = \<lparr>oe_dial = \<lambda>_. None, oe_write = \<lambda>_. Stalls, oe_flush = \<lambda>_. False, oe_probe_open = \<lambda>_. True,
     oe_times_out = \<lambda>_. False, oe_samples_trace = \<lambda>_. False, oe_frame = stored_env,
     oe_blobs = \<lparr>dd_to_bytes = \<lambda>_. [], dd_from_bytes = \<lambda>_. None, hll_to_bytes = \<lambda>_. [],
       hll_from_bytes = \<lambda>_. None\<rparr>, oe_resolve = \<lambda>_. []\<rparr>"

theorem handshake_interoperates_witness:
  "hello_decode (hello_encode (hello_of (run_calls idle_out_env [Call_Await_Ack, Call_Flush]
       (with_concurrency 8 (with_compression Compression_Lz4 output_new))))) =
     Inr (hello_of (run_calls idle_out_env [Call_Await_Ack, Call_Flush]
       (with_concurrency 8 (with_compression Compression_Lz4 output_new))))"
  using handshake_interoperates[OF _ _ refl, of 8 "[Call_Await_Ack, Call_Flush]" idle_out_env Compression_Lz4]
  by simp

text \<open>
  C36. The sink commits a batch only on the listener's word: when \<open>await_ack\<close> succeeds with a frame
  in flight, the frame at the head was already marked, by an earlier \<open>Ack\<close> or by the listener's
  own mark at the handshake, or the next message on the wire is an accepted \<open>Ack\<close> of the head's
  sender that covers the head and names a frame in flight.
\<close>

theorem commit_needs_answer:
  assumes "lo_stream lo = Some c" and "oc_in_flight c = head # rest" and "read_ack E lo = (Inr (), lo')"
  shows "fl_acked head \<or>
    (\<exists>a input. read_control (oe_frame E) (oc_input c) = Inr (CM_Ack a, input) \<and> ack_status a = Accepted \<and>
       within a head \<and> (\<exists>e \<in> set (head # rest). names_entry a e))"
proof (cases "fl_acked head")
  case False
  then obtain m input where m: "read_control (oe_frame E) (oc_input c) = Inr (m, input)"
      "\<exists>c'. apply_answer (Inr m) (c\<lparr>oc_input := input\<rparr>) = Inr (c', None)"
    using assms by (auto simp: read_ack_def conn_nothing_in_flight_def Let_def settle_answer_def apply_answer_def
        split: if_splits sum.splits prod.splits option.splits)
  then obtain a where a: "m = CM_Ack a" "ack_status a = Accepted" "\<exists>q. mark_acked (head # rest) a = Inr q"
    using assms(2) by (auto simp: apply_answer_def split: control_message.splits ack_status.splits sum.splits)
  then obtain e where "e \<in> set (takeWhile (within a) (head # rest))" "names_entry a e"
    by (auto simp: mark_acked_eq_Inr)
  then have "within a head \<and> (\<exists>e \<in> set (head # rest). names_entry a e)"
    by (auto split: if_splits dest: set_takeWhileD)
  then show ?thesis using m a by blast
qed simp

definition waiting_ack :: ack where
  "waiting_ack = ack_accepted (replicate 16 3) 6"

definition waiting_conn :: out_conn where
  "waiting_conn = \<lparr>oc_input = control_frame stored_env (CM_Ack waiting_ack), oc_written = [],
     oc_peer_max_frame_bytes = 1000, oc_compression = Compression_None, oc_window = 8,
     oc_in_flight = [\<lparr>fl_seq = \<lparr>sq_id = replicate 16 3, sq_seq = 5\<rparr>, fl_acked = False\<rparr>,
       \<lparr>fl_seq = \<lparr>sq_id = replicate 16 3, sq_seq = 6\<rparr>, fl_acked = False\<rparr>],
     oc_broken = False, oc_marks = []\<rparr>"

lemma waiting_reads: "read_control stored_env (oc_input waiting_conn) = Inr (CM_Ack waiting_ack, [])"
  using read_control_written[OF stored_env_laws, of "CM_Ack waiting_ack" "[]"]
  by (simp add: waiting_conn_def waiting_ack_def ack_ok_def ack_accepted_def SENDER_ID_BYTES_def)

theorem commit_needs_answer_witness:
  "within waiting_ack \<lparr>fl_seq = \<lparr>sq_id = replicate 16 3, sq_seq = 5\<rparr>, fl_acked = False\<rparr>"
proof -
  let ?lo = "output_new\<lparr>lo_stream := Some waiting_conn\<rparr>"
  have "fst (read_ack idle_out_env ?lo) = Inr ()"
    using waiting_reads
    by (simp add: read_ack_def idle_out_env_def conn_nothing_in_flight_def settle_answer_def)
      (simp add: waiting_conn_def waiting_ack_def ack_accepted_def mark_acked_def settle_answer_def apply_answer_def
        pop_head_def Let_def)
  then obtain lo' where "read_ack idle_out_env ?lo = (Inr (), lo')"
    by (cases "read_ack idle_out_env ?lo") simp
  moreover have "lo_stream ?lo = Some waiting_conn" by simp
  moreover have "oc_in_flight waiting_conn = [\<lparr>fl_seq = \<lparr>sq_id = replicate 16 3, sq_seq = 5\<rparr>, fl_acked = False\<rparr>,
      \<lparr>fl_seq = \<lparr>sq_id = replicate 16 3, sq_seq = 6\<rparr>, fl_acked = False\<rparr>]"
    by (simp add: waiting_conn_def)
  ultimately show ?thesis
    using commit_needs_answer[of ?lo waiting_conn _ _ idle_out_env lo'] waiting_reads
    by (simp add: idle_out_env_def)
qed

end
