(* ===== verification/Ack_Discipline.thy ===== *)
theory Ack_Discipline
  imports Logit_In
begin

text \<open>
  The promise a listener's connection makes, as an automaton over its effects, and the proof that
  the connection of \<open>Logit_In\<close> keeps it in every environment. The automaton's state holds the
  frames handled and not yet answered.
\<close>

section \<open>The abstract listener\<close>

datatype lstate =
    L_Open "seq_id list"
  | L_New "seq_id list" seq_id
  | L_Took "seq_id list" seq_id
  | L_Dropped "seq_id list"
  | L_Refusing "seq_id list" seq_id
  | L_Over

text \<open>An accepted \<open>Ack\<close> answers a whole run of handled frames: it names the last of them.\<close>

definition answers_run :: "ack \<Rightarrow> seq_id list \<Rightarrow> bool" where
  "answers_run a owed \<longleftrightarrow>
     owed \<noteq> [] \<and> ack_status a = Accepted \<and> last owed = \<lparr>sq_id = ack_id a, sq_seq = ack_seq a\<rparr>"

definition joins :: "seq_id list \<Rightarrow> seq_id \<Rightarrow> bool" where
  "joins owed s \<longleftrightarrow> length owed < ACK_COALESCE_MAX \<and> list_all (\<lambda>q. sq_id q = sq_id s) owed"

definition after_write :: "write_outcome \<Rightarrow> lstate \<Rightarrow> lstate" where
  "after_write w st = (if w = Written then st else L_Over)"

definition l_write_open :: "seq_id list \<Rightarrow> control_message \<Rightarrow> write_outcome \<Rightarrow> lstate option" where
  "l_write_open owed m w =
     (case m of
        CM_Ack a \<Rightarrow> if answers_run a owed then Some (after_write w (L_Open [])) else None
      | CM_Reject r \<Rightarrow> if owed = [] then Some L_Over else None
      | _ \<Rightarrow> None)"

definition l_write_dropped :: "seq_id list \<Rightarrow> control_message \<Rightarrow> write_outcome \<Rightarrow> lstate option" where
  "l_write_dropped owed m w =
     (case m of
        CM_Ack a \<Rightarrow> if answers_run a owed then Some (after_write w (L_Dropped [])) else None
      | CM_Reject r \<Rightarrow> if owed = [] \<and> rj_code r = REJECT_GOING_AWAY then Some L_Over else None
      | _ \<Rightarrow> None)"

definition l_write_refusing ::
    "seq_id list \<Rightarrow> seq_id \<Rightarrow> control_message \<Rightarrow> write_outcome \<Rightarrow> lstate option" where
  "l_write_refusing owed s m w =
     (case m of
        CM_Ack a \<Rightarrow>
          if answers_run a owed then Some (after_write w (L_Refusing [] s))
          else if owed = [] \<and> ack_status a \<noteq> Accepted \<and> s = \<lparr>sq_id = ack_id a, sq_seq = ack_seq a\<rparr>
          then Some (after_write w (L_Open [])) else None
      | _ \<Rightarrow> None)"

fun l_write :: "lstate \<Rightarrow> control_message \<Rightarrow> write_outcome \<Rightarrow> lstate option" where
  "l_write (L_Open owed) m w = l_write_open owed m w"
| "l_write (L_Dropped owed) m w = l_write_dropped owed m w"
| "l_write (L_Refusing owed s) m w = l_write_refusing owed s m w"
| "l_write _ m w = None"

fun l_next :: "lstate \<Rightarrow> ('d, 'h) in_effect \<Rightarrow> lstate option" where
  "l_next st (Fx_Count _ _ _) = Some st"
| "l_next st (Fx_Warn _) = Some st"
| "l_next (L_Open owed) (Fx_Is_Resend s resend) =
     (if joins owed s then Some (if resend then L_Open (owed @ [s]) else L_New owed s) else None)"
| "l_next (L_New owed s) (Fx_Relayed q _ _ _ took) =
     (if q = s then Some (if took then L_Took owed s else L_Dropped owed) else None)"
| "l_next (L_Took owed s) (Fx_Raise q) = (if q = s then Some (L_Open (owed @ [s])) else None)"
| "l_next (L_Open owed) (Fx_Raise s) = Some (L_Refusing owed s)"
| "l_next st (Fx_Write m w) = l_write st m w"
| "l_next _ _ = None"

fun l_run :: "lstate \<Rightarrow> ('d, 'h) in_effect list \<Rightarrow> lstate option" where
  "l_run st [] = Some st"
| "l_run st (x # xs) = Option.bind (l_next st x) (\<lambda>st. l_run st xs)"

lemma l_run_append: "l_run st (xs @ ys) = Option.bind (l_run st xs) (\<lambda>st. l_run st ys)"
  by (induction xs arbitrary: st) (simp_all add: bind_assoc)

section \<open>The connection against the automaton\<close>

abbreviation state_of :: "('d, 'h) in_conn \<Rightarrow> lstate option" where
  "state_of c \<equiv> l_run (L_Open []) (ic_log c)"

definition matches :: "pending_ack option \<Rightarrow> seq_id list \<Rightarrow> bool" where
  "matches p owed \<longleftrightarrow>
     (case p of
        None \<Rightarrow> owed = []
      | Some run \<Rightarrow>
          owed \<noteq> [] \<and> pa_seq run = last owed \<and> pa_frames run = length owed \<and>
          length owed < ACK_COALESCE_MAX \<and> list_all (\<lambda>q. sq_id q = sq_id (pa_seq run)) owed \<and>
          length (sq_id (pa_seq run)) = SENDER_ID_BYTES)"

definition open_conn :: "('d, 'h) in_conn \<Rightarrow> bool" where
  "open_conn c \<longleftrightarrow> (\<exists>owed. state_of c = Some (L_Open owed) \<and> matches (ic_pending c) owed)"

text \<open>A connection that dropped a frame has said its farewell before it is closed.\<close>

definition at_rest :: "lstate option \<Rightarrow> bool" where
  "at_rest st \<longleftrightarrow> st \<noteq> None \<and> (\<forall>owed. st \<noteq> Some (L_Dropped owed))"

lemma at_rest_simps [simp]:
  "\<not> at_rest None" "at_rest (Some (L_Open owed))" "at_rest (Some (L_Refusing owed s))" "at_rest (Some L_Over)"
  "\<not> at_rest (Some (L_Dropped owed))"
  by (simp_all add: at_rest_def)

definition closed_conn :: "('d, 'h) in_conn \<Rightarrow> bool" where
  "closed_conn c \<longleftrightarrow> at_rest (state_of c) \<and> ic_pending c = None"

lemma state_of_emit: "state_of (emit x c) = Option.bind (state_of c) (\<lambda>st. l_next st x)"
  by (cases "state_of c") (auto simp: emit_def l_run_append)

lemma emit_simps [simp]:
  "ic_pending (emit x c) = ic_pending c" "ic_input (emit x c) = ic_input c"
  "ic_clock (emit x c) = ic_clock c" "ic_senders (emit x c) = ic_senders c"
  by (simp_all add: emit_def)

lemma tick_simps [simp]:
  "ic_pending (ic_tick c) = ic_pending c" "ic_input (ic_tick c) = ic_input c"
  "ic_log (ic_tick c) = ic_log c" "ic_senders (ic_tick c) = ic_senders c"
  by (simp_all add: ic_tick_def)

lemma state_of_count [simp]:
  "state_of (emit (Fx_Count n v t) c) = state_of c" "state_of (emit (Fx_Warn k) c) = state_of c"
  by (auto simp: state_of_emit bind_eq_None_conv split: Option.bind_split)

lemma open_conn_count [simp]:
  "open_conn (emit (Fx_Count n v t) c) = open_conn c" "open_conn (emit (Fx_Warn k) c) = open_conn c"
  "open_conn (ic_tick c) = open_conn c"
  by (simp_all add: open_conn_def)

lemma closed_conn_count [simp]:
  "closed_conn (emit (Fx_Count n v t) c) = closed_conn c"
  "closed_conn (emit (Fx_Warn k) c) = closed_conn c" "closed_conn (ic_tick c) = closed_conn c"
  by (simp_all add: closed_conn_def)

text \<open>The states in which a run is written: the automaton moves as the state does.\<close>

definition owes :: "(seq_id list \<Rightarrow> lstate) \<Rightarrow> bool" where
  "owes K \<longleftrightarrow> K \<in> {L_Open, L_Dropped} \<or> (\<exists>s. K = (\<lambda>owed. L_Refusing owed s))"

lemma owes_simps [simp]: "owes L_Open" "owes L_Dropped" "owes (\<lambda>owed. L_Refusing owed s)"
  by (auto simp: owes_def)

lemma owes_next:
  "owes K \<Longrightarrow> answers_run a owed \<Longrightarrow>
   l_write (K owed) (CM_Ack a) w = Some (after_write w (K []))"
  by (auto simp: owes_def l_write_open_def l_write_dropped_def l_write_refusing_def)

lemma write_control_cases:
  obtains e where "write_control E m c = (Inl (CE_Codec e), c)"
  | w where "snd (write_control E m c) = emit (Fx_Write m w) (ic_tick c)"
      "(\<exists>u. fst (write_control E m c) = Inr u) \<longleftrightarrow> w = Written"
  by (cases "write_frame_with_flags (ie_frame E) 0 Compression_None FLAG_CONTROL (control_encode m)")
    (auto simp: write_control_def Let_def split: write_outcome.splits)

lemma length_message: "message_ok m \<Longrightarrow> length (control_encode m) \<le> MAX_SANE_UNCOMPRESSED_LEN"
  using length_hello length_hello_ack length_ack length_reject
  by (cases m) (force simp: MAX_SANE_UNCOMPRESSED_LEN_def)+

text \<open>A message a frame can carry.\<close>

definition sendable :: "control_message \<Rightarrow> bool" where
  "sendable m \<longleftrightarrow> length (control_encode m) \<le> MAX_SANE_UNCOMPRESSED_LEN"

lemma sendable_accepted: "length sender = SENDER_ID_BYTES \<Longrightarrow> sendable (CM_Ack (ack_accepted sender seq))"
  using length_control_field [of sender 16 0 ACK_FIELD_ID]
    length_control_field [of "write_uvarint seq" 10 0 ACK_FIELD_SEQ]
    length_control_field [of "[ACK_STATUS_ACCEPTED]" 1 0 ACK_FIELD_STATUS] uvarint_len_bounds(2) [of seq]
  by (simp add: sendable_def ack_encode_def ack_accepted_def SENDER_ID_BYTES_def uvarint_len_eq MAX_SANE_UNCOMPRESSED_LEN_def)

lemma sendable_reject: "text_ok (rj_message rj) \<Longrightarrow> sendable (CM_Reject rj)"
  using length_message[of "CM_Reject rj"] by (simp add: sendable_def)

lemma write_control_encodes: "sendable m \<Longrightarrow> write_control E m c \<noteq> (Inl (CE_Codec e), c')"
  unfolding sendable_def
  by (auto simp: write_control_def Let_def write_frame_with_flags_def split: sum.splits write_outcome.splits)

lemma write_ack_state:
  assumes "state_of c = Some st" and "ic_pending c = None"
    and "\<And>w. l_write st (CM_Ack a) w = Some (after_write w st')"
    and "write_ack E a c = (r, c')"
  shows "ic_pending c' = None \<and> (\<forall>u. r = Inr u \<longrightarrow> state_of c' = Some st') \<and>
    (\<forall>e. r = Inl e \<longrightarrow> state_of c' = Some L_Over \<or> state_of c' = Some st \<and> \<not> sendable (CM_Ack a))"
proof (cases rule: write_control_cases[of E "CM_Ack a" c])
  case (1 e)
  then show ?thesis using assms write_control_encodes[of "CM_Ack a" E c e c] by (auto simp: write_ack_def)
next
  case (2 w)
  then have "state_of (snd (write_control E (CM_Ack a) c)) = Some (after_write w st')"
    using assms(1,3) by (simp add: state_of_emit)
  moreover have "ic_pending (snd (write_control E (CM_Ack a) c)) = None"
    using assms(2) 2(1) by simp
  ultimately show ?thesis using 2(2) assms(4)
    by (cases "write_control E (CM_Ack a) c")
      (auto simp: write_ack_def after_write_def split: sum.splits if_splits)
qed

lemma flush_ack_state:
  assumes "state_of c = Some (K owed)" and "matches (ic_pending c) owed" and "owes K"
    and "flush_ack E c = (r, c')"
  shows "ic_pending c' = None \<and> (\<forall>u. r = Inr u \<longrightarrow> state_of c' = Some (K [])) \<and> (\<forall>e. r = Inl e \<longrightarrow> state_of c' = Some L_Over)"
proof (cases "ic_pending c")
  case None
  then show ?thesis using assms by (auto simp: flush_ack_def matches_def)
next
  case (Some run)
  let ?a = "ack_accepted (sq_id (pa_seq run)) (sq_seq (pa_seq run))"
  have "answers_run ?a owed" "sendable (CM_Ack ?a)"
    using assms(2) Some sendable_accepted by (auto simp: matches_def answers_run_def ack_accepted_def)
  then have "l_write (K owed) (CM_Ack ?a) w = Some (after_write w (K []))" for w
    using assms(3) by (auto intro: owes_next)
  then show ?thesis
    using write_ack_state[of "c\<lparr>ic_pending := None\<rparr>" "K owed" ?a "K []" E r c'] assms(1,4) Some \<open>sendable (CM_Ack ?a)\<close>
    by (auto simp add: flush_ack_def)
qed

lemma write_reject_state:
  assumes "state_of c = Some st" and "ic_pending c = None" and "at_rest (Some st) \<or> sendable (CM_Reject rj)"
    and "\<And>w. l_write st (CM_Reject rj) w = Some L_Over"
  shows "closed_conn (snd (write_reject E rj c))"
proof (cases rule: write_control_cases[of E "CM_Reject rj" c])
  case (1 e)
  then have "at_rest (Some st)" using assms(3) write_control_encodes[of "CM_Reject rj" E c e c] by blast
  then show ?thesis using assms(1,2) 1 by (simp add: write_reject_def closed_conn_def)
next
  case (2 w)
  then have "closed_conn (snd (write_control E (CM_Reject rj) c))"
    using assms by (simp add: closed_conn_def state_of_emit)
  then show ?thesis by (cases "write_control E (CM_Reject rj) c") (simp add: write_reject_def)
qed

lemma flush_then_reject_closed:
  assumes "state_of c = Some (K owed)" and "matches (ic_pending c) owed" and "owes K"
    and "at_rest (Some (K [])) \<or> sendable (CM_Reject rj)"
    and "\<And>w. l_write (K []) (CM_Reject rj) w = Some L_Over"
  shows "closed_conn (flush_then_reject E rj c)"
proof (cases "flush_ack E c")
  case (Pair r c')
  note fl = flush_ack_state[OF assms(1-3) Pair]
  show ?thesis
  proof (cases r)
    case (Inl e)
    then show ?thesis using fl Pair by (simp add: flush_then_reject_def closed_conn_def)
  next
    case (Inr u)
    then have "closed_conn (snd (write_reject E rj c'))"
      using fl by (intro write_reject_state[OF _ _ assms(4,5)]) simp_all
    then show ?thesis using Pair Inr by (simp add: flush_then_reject_def)
  qed
qed

lemma reject_open: "l_write (L_Open []) (CM_Reject rj) w = Some L_Over"
  by (simp add: l_write_open_def)

lemma flush_then_reject_open: "open_conn c \<Longrightarrow> closed_conn (flush_then_reject E rj c)"
  by (auto simp: open_conn_def intro!: flush_then_reject_closed[OF _ _ owes_simps(1) _ reject_open])

lemma going_away_open: "open_conn c \<Longrightarrow> closed_conn (going_away E why c)"
  by (simp add: going_away_def flush_then_reject_open)

lemma close_idle_open: "open_conn c \<Longrightarrow> closed_conn (close_idle E c)"
  by (simp add: close_idle_def going_away_open)

lemma reject_too_large_open: "open_conn c \<Longrightarrow> closed_conn (reject_too_large E why c)"
  by (simp add: reject_too_large_def flush_then_reject_open)

lemma going_away_dropped:
  assumes "state_of c = Some (L_Dropped owed)" and "matches (ic_pending c) owed" and "text_ok (str_bytes why)"
  shows "closed_conn (going_away E why c)"
  unfolding going_away_def
  by (rule flush_then_reject_closed[OF assms(1,2) owes_simps(2)]) (use sendable_reject assms(3) in \<open>simp_all add: l_write_dropped_def\<close>)

lemma with_senders_simps [simp]:
  "ic_pending (snd (with_senders E f c)) = ic_pending c"
  "ic_log (snd (with_senders E f c)) = ic_log c"
  "ic_input (snd (with_senders E f c)) = ic_input c"
  by (simp_all add: with_senders_def case_prod_beta)

lemma senders_raise_simps [simp]:
  "ic_pending (senders_raise E s c) = ic_pending c"
  "state_of (senders_raise E s c) = Option.bind (state_of c) (\<lambda>st. l_next st (Fx_Raise s :: ('d, 'h) in_effect))"
  for c :: "('d, 'h) in_conn"
  by (simp_all add: senders_raise_def state_of_emit)

lemma senders_is_resend_simps:
  fixes c :: "('d, 'h) in_conn"
  assumes "senders_is_resend E s c = (resend, c')"
  shows "ic_pending c' = ic_pending c" and "ic_input c' = ic_input c"
    and "state_of c' = Option.bind (state_of c) (\<lambda>st. l_next st (Fx_Is_Resend s resend :: ('d, 'h) in_effect))"
  using assms with_senders_simps[of E "is_resend s" c]
  by (auto simp: senders_is_resend_def state_of_emit simp del: with_senders_simps split: prod.splits)

section \<open>What a turn leaves\<close>

text \<open>A turn that goes on leaves the connection open; one that ends leaves it answered.\<close>

definition turn_ok :: "turn \<times> ('d, 'h) in_conn \<Rightarrow> bool" where
  "turn_ok = (\<lambda>(r, c). case r of Go_On \<Rightarrow> open_conn c | _ \<Rightarrow> open_conn c \<or> closed_conn c)"

lemma turn_ok_simps [simp]:
  "turn_ok (Go_On, c) \<longleftrightarrow> open_conn c"
  "turn_ok (Stop r, c) \<longleftrightarrow> open_conn c \<or> closed_conn c"
  "turn_ok (Hangs, c) \<longleftrightarrow> open_conn c \<or> closed_conn c"
  by (simp_all add: turn_ok_def)

lemma open_conn_empty: "state_of c = Some (L_Open []) \<Longrightarrow> ic_pending c = None \<Longrightarrow> open_conn c"
  by (auto simp: open_conn_def matches_def)

lemma refuse_frame_ok:
  assumes "open_conn c" and "status \<noteq> Accepted"
  shows "turn_ok (refuse_frame E s status c)"
proof -
  obtain owed where owed: "state_of c = Some (L_Open owed)" "matches (ic_pending c) owed"
    using assms(1) by (auto simp: open_conn_def)
  define c1 where "c1 = senders_raise E s (emit (Fx_Count ''logit.input.batches.dropped'' 1 ''rejected'') c)"
  have c1: "state_of c1 = Some (L_Refusing owed s)" "matches (ic_pending c1) owed"
    using owed by (simp_all add: c1_def)
  obtain r c2 where fl: "flush_ack E c1 = (r, c2)" by (cases "flush_ack E c1")
  note st = flush_ack_state[OF c1 owes_simps(3) fl]
  let ?a = "\<lparr>ack_id = sq_id s, ack_seq = sq_seq s, ack_status = status\<rparr>"
  have rf: "refuse_frame E s status c =
      (case (case flush_ack E c1 of (Inl e, c) \<Rightarrow> (Inl e, c) | (Inr _, c) \<Rightarrow> write_ack E ?a c) of
         (Inl e, c) \<Rightarrow> (Stop (Inl e), c) | (Inr _, c) \<Rightarrow> (Go_On, c))"
    by (simp add: refuse_frame_def ack_rejected_def c1_def Let_def)
  have nx: "l_write (L_Refusing [] s) (CM_Ack ?a) w = Some (after_write w (L_Open []))" for w
    using assms(2) by (simp add: l_write_refusing_def answers_run_def)
  show ?thesis
  proof (cases r)
    case (Inl e)
    then show ?thesis using st fl by (simp add: rf closed_conn_def)
  next
    case (Inr u)
    obtain r' c3 where wr: "write_ack E ?a c2 = (r', c3)" by (cases "write_ack E ?a c2")
    have "ic_pending c3 = None" "r' = Inr u' \<Longrightarrow> state_of c3 = Some (L_Open [])" "r' = Inl e \<Longrightarrow> at_rest (state_of c3)" for u' e
      using write_ack_state[OF _ _ nx wr] st Inr by auto
    then show ?thesis using wr fl Inr
      by (cases r') (auto simp: rf closed_conn_def intro: open_conn_empty)
  qed
qed

lemma matches_extend:
  assumes "matches p owed" and "joins owed s" and "length (sq_id s) = SENDER_ID_BYTES" and "Suc (length owed) < ACK_COALESCE_MAX"
  shows "matches (Some \<lparr>pa_seq = s, pa_frames = Suc (length owed)\<rparr>) (owed @ [s])"
  using assms by (auto simp: matches_def joins_def)

lemma pending_frames:
  "matches p owed \<Longrightarrow>
   pa_frames (case p of Some run \<Rightarrow> run | None \<Rightarrow> \<lparr>pa_seq = s, pa_frames = 0\<rparr>) = length owed"
  by (auto simp: matches_def split: option.splits)

text \<open>A run that reached its bound is written at once.\<close>

lemma flush_full_run:
  assumes "state_of c = Some (L_Open (owed @ [s]))" and "pa_seq run = s"
    and "flush_ack E (c\<lparr>ic_pending := Some run\<rparr>) = (r, c')"
  shows "ic_pending c' = None \<and> at_rest (state_of c') \<and> (\<forall>u. r = Inr u \<longrightarrow> state_of c' = Some (L_Open []))"
proof -
  let ?a = "ack_accepted (sq_id s) (sq_seq s)"
  have "l_write (L_Open (owed @ [s])) (CM_Ack ?a) w = Some (after_write w (L_Open []))" for w
    by (simp add: l_write_open_def answers_run_def ack_accepted_def)
  then show ?thesis
    using write_ack_state[of "c\<lparr>ic_pending := None\<rparr>" "L_Open (owed @ [s])" ?a "L_Open []" E r c'] assms
    by (cases r) (auto simp: flush_ack_def at_rest_def)
qed

lemma extend_run_ok:
  assumes "state_of c = Some (L_Open (owed @ [s]))" and "matches (ic_pending c) owed" and "joins owed s" and "length (sq_id s) = SENDER_ID_BYTES"
  shows "turn_ok (extend_run E s c)"
proof -
  let ?run = "\<lparr>pa_seq = s, pa_frames = Suc (length owed)\<rparr>"
  have ex: "extend_run E s c =
      (if Suc (length owed) \<ge> ACK_COALESCE_MAX then
         (case flush_ack E (c\<lparr>ic_pending := Some ?run\<rparr>) of
            (Inl e, c) \<Rightarrow> (Stop (Inl e), c) | (Inr _, c) \<Rightarrow> (Go_On, c))
       else (Go_On, c\<lparr>ic_pending := Some ?run\<rparr>))"
    using pending_frames[OF assms(2), of s] by (simp add: extend_run_def Let_def)
  show ?thesis
  proof (cases "Suc (length owed) \<ge> ACK_COALESCE_MAX")
    case True
    obtain r c' where fl: "flush_ack E (c\<lparr>ic_pending := Some ?run\<rparr>) = (r, c')"
      by (cases "flush_ack E (c\<lparr>ic_pending := Some ?run\<rparr>)")
    have "ic_pending c' = None \<and> at_rest (state_of c') \<and> (\<forall>u. r = Inr u \<longrightarrow> state_of c' = Some (L_Open []))"
      by (rule flush_full_run[OF assms(1) _ fl]) simp
    then show ?thesis using True fl ex
      by (cases r) (auto simp: closed_conn_def intro: open_conn_empty)
  next
    case False
    then have "open_conn (c\<lparr>ic_pending := Some ?run\<rparr>)"
      using matches_extend[OF assms(2-4)] assms(1) by (auto simp: open_conn_def)
    then show ?thesis using False ex by simp
  qed
qed

lemma take_frame_tail:
  assumes st: "state_of c = Some (L_Open owed)" and pend: "matches (ic_pending c) owed" and "joins owed s"
    and id: "length (sq_id s) = SENDER_ID_BYTES" and why: "text_ok (str_bytes why)"
  shows "turn_ok
    (case senders_is_resend E s c of (resend, c) \<Rightarrow>
     if resend then extend_run E s (emit (Fx_Count ''logit.input.batches.resends'' n []) c)
     else
       (let took = ie_take E (ic_clock c);
            c = emit (Fx_Relayed s batch provenance trace took) (ic_tick c)
        in if \<not> took then
             (Stop (Inr Closing),
              going_away E why (emit (Fx_Warn k) (emit (Fx_Count m v t) c)))
           else extend_run E s (senders_raise E s c)))"
proof -
  obtain resend c1 where r: "senders_is_resend E s c = (resend, c1)" by (cases "senders_is_resend E s c")
  note c1 = senders_is_resend_simps[OF r]
  show ?thesis
  proof (cases resend)
    case True
    then have "state_of c1 = Some (L_Open (owed @ [s]))" using c1(3) st assms(3) by simp
    then show ?thesis using r True c1(1) pend assms(3) id
      by (simp add: extend_run_ok)
  next
    case False
    then have new: "state_of c1 = Some (L_New owed s)" using c1(3) st assms(3) by simp
    show ?thesis
    proof (cases "ie_take E (ic_clock c1)")
      case True
      let ?c = "senders_raise E s (emit (Fx_Relayed s batch provenance trace True) (ic_tick c1))"
      have "state_of ?c = Some (L_Open (owed @ [s]))" using new by (simp add: state_of_emit)
      then have "turn_ok (extend_run E s ?c)"
        by (rule extend_run_ok) (use c1(1) pend assms(3) id in simp_all)
      then show ?thesis using r False True by (simp add: Let_def)
    next
      case drop: False
      let ?c = "emit (Fx_Warn k) (emit (Fx_Count m v t)
        (emit (Fx_Relayed s batch provenance trace False) (ic_tick c1)))"
      have "state_of ?c = Some (L_Dropped owed)" using new by (simp add: state_of_emit)
      then have "closed_conn (going_away E why ?c)"
        by (rule going_away_dropped) (use c1(1) pend why in simp_all)
      then show ?thesis using r False drop by (simp add: Let_def)
    qed
  qed
qed

lemma matches_joins:
  "matches (Some run) owed \<Longrightarrow> sq_id (pa_seq run) = sq_id s \<Longrightarrow> joins owed s"
  by (simp add: matches_def joins_def)

lemma no_consumer_text: "text_ok (str_bytes ''no consumer took the batch'')"
  unfolding text_ok_def by code_simp

lemma take_frame_ok:
  assumes "open_conn c" and "length (sq_id s) = SENDER_ID_BYTES" shows "turn_ok (take_frame E s batch provenance trace c)"
proof -
  obtain owed where owed: "state_of c = Some (L_Open owed)" "matches (ic_pending c) owed"
    using assms(1) by (auto simp: open_conn_def)
  define before where "before =
    (case ic_pending c of
       Some run \<Rightarrow> if sq_id (pa_seq run) \<noteq> sq_id s then flush_ack E c else (Inr (), c)
     | None \<Rightarrow> (Inr (), c))"
  obtain r c1 where b: "before = (r, c1)" by (cases before)
  have empty: "joins [] s" by (simp add: joins_def ACK_COALESCE_MAX_def)
  have "(\<exists>e. r = Inl e) \<and> closed_conn c1 \<or>
    (\<exists>u owed. r = Inr u \<and> state_of c1 = Some (L_Open owed) \<and> matches (ic_pending c1) owed \<and> joins owed s)"
  proof (cases "ic_pending c")
    case None
    then have "owed = []" using owed(2) by (simp add: matches_def)
    then show ?thesis using None owed b empty by (auto simp: before_def)
  next
    case (Some run)
    show ?thesis
    proof (cases "sq_id (pa_seq run) = sq_id s")
      case True
      then show ?thesis using Some owed b matches_joins[of run owed s] by (auto simp: before_def)
    next
      case False
      then have fl: "flush_ack E c = (r, c1)" using Some b by (simp add: before_def)
      show ?thesis using flush_ack_state[OF owed owes_simps(1) fl] empty
        by (cases r) (auto simp: closed_conn_def matches_def)
    qed
  qed
  then show ?thesis
    using b assms(2) no_consumer_text unfolding take_frame_def before_def[symmetric]
    by (auto intro: take_frame_tail)
qed

lemma hop_prefix_id: "read_hop_prefix payload = Inr (s, rest) \<Longrightarrow> length (sq_id s) = SENDER_ID_BYTES"
  by (auto simp: read_hop_prefix_def split_to_def bnd_eq_Inr SENDER_ID_BYTES_def split: if_splits sum.splits)

lemma handle_frame_ok:
  assumes "open_conn c" shows "turn_ok (handle_frame E negotiated header body c)"
  using assms hop_prefix_id
  by (simp add: handle_frame_def Let_def refuse_frame_ok take_frame_ok ack_status_rejected_def
      split: prod.splits frame_payload.splits sum.splits option.splits codec_error.splits)

section \<open>Reads keep the discipline\<close>

lemma stream_read_simps [simp]:
  "ic_pending (snd (stream_read r n c)) = ic_pending c"
  "ic_log (snd (stream_read r n c)) = ic_log c"
  by (simp_all add: stream_read_def split: read_outcome.splits)

lemma open_conn_read [simp]: "open_conn (snd (stream_read r n c)) = open_conn c"
  by (simp add: open_conn_def)

lemma flush_ack_open:
  assumes "open_conn c" and "flush_ack E c = (r, c')"
  shows "closed_conn c' \<and> (\<forall>u. r = Inr u \<longrightarrow> open_conn c')"
proof -
  obtain owed where "state_of c = Some (L_Open owed)" "matches (ic_pending c) owed"
    using assms(1) by (auto simp: open_conn_def)
  from flush_ack_state[OF this owes_simps(1) assms(2)] show ?thesis
    by (cases r) (auto simp: closed_conn_def intro: open_conn_empty)
qed

lemma read_ready_or_ack_ok:
  assumes "open_conn c" and "read_ready_or_ack E n c = (r, c')"
  shows "case r of Inl e \<Rightarrow> closed_conn c' | Inr _ \<Rightarrow> open_conn c'"
  using assms flush_ack_open[of "ic_tick c" E] open_conn_read[of _ n "ic_tick c"]
  by (auto simp: read_ready_or_ack_def simp del: open_conn_read
      split: if_splits option.splits prod.splits sum.splits)
    (metis open_conn_count(3) snd_conv)+

lemma header_progress_no_ack: "header_progress read n \<noteq> Inl (HE_AckWrite e)"
  by (auto simp: header_progress_def split: sum.splits)

lemma read_ready_header_ok:
  "open_conn c \<Longrightarrow> read_ready_header E buf c = (r, c') \<Longrightarrow>
   case r of Inl (HE_AckWrite _) \<Rightarrow> closed_conn c' | _ \<Rightarrow> open_conn c'"
proof (induction E buf c arbitrary: r c' rule: read_ready_header.induct)
  case (1 E buf c)
  show ?case
  proof (cases "length buf < HEADER_LEN")
    case True
    obtain x c1 where x: "read_ready_or_ack E (HEADER_LEN - length buf) c = (x, c1)"
      by (cases "read_ready_or_ack E (HEADER_LEN - length buf) c")
    note ok = read_ready_or_ack_ok[OF 1(2) x]
    have IH: "case r of Inl (HE_AckWrite _) \<Rightarrow> closed_conn c' | _ \<Rightarrow> open_conn c'"
      if "x = Inr (Some read)" "header_progress read (length buf) = Inr (Some bs)"
        "read_ready_header E (buf @ bs) c1 = (r, c')" for read bs
      using 1(1)[OF True x[symmetric] that(1) refl that(2) refl _ that(3)] ok that(1) by simp
    show ?thesis
    proof (cases "\<exists>read bs. x = Inr (Some read) \<and> header_progress read (length buf) = Inr (Some bs)")
      case more: True
      then obtain read bs where rb: "x = Inr (Some read)" "header_progress read (length buf) = Inr (Some bs)"
        by blast
      then have "read_ready_header E (buf @ bs) c1 = (r, c')"
        using 1(3) x True by (simp add: read_ready_header.simps[of E buf])
      then show ?thesis by (rule IH[OF rb])
    next
      case more: False
      then show ?thesis using 1(3) x True ok header_progress_no_ack
        by (auto simp: read_ready_header.simps[of E buf] split: sum.splits option.splits header_error.splits)
    qed
  next
    case False
    then show ?thesis using 1(2,3) by (auto simp: read_ready_header.simps)
  qed
qed

lemma read_header_rest_ok:
  "open_conn c \<Longrightarrow> open_conn (snd (read_header_rest E bounds outer buf c))"
proof (induction E bounds outer buf c rule: read_header_rest.induct)
  case (1 E bounds outer buf c)
  show ?case
  proof (cases "length buf < HEADER_LEN \<and> \<not> outer (ic_clock c)")
    case True
    show ?thesis
    proof (cases "ie_wait E (ic_clock c)")
      case (Some r)
      obtain read c1 where rd: "stream_read r (HEADER_LEN - length buf) (ic_tick c) = (read, c1)"
        by (cases "stream_read r (HEADER_LEN - length buf) (ic_tick c)")
      have "open_conn c1" using open_conn_read[of r "HEADER_LEN - length buf" "ic_tick c"] rd 1(2) by simp
      then show ?thesis using 1(1)[OF _ _ Some rd[symmetric]] True Some rd
        by (subst read_header_rest.simps) (auto split: sum.splits option.splits)
    qed (use 1(2) True in \<open>simp add: read_header_rest.simps\<close>)
  qed (use 1(2) in \<open>auto simp: read_header_rest.simps\<close>)
qed

lemma read_header_rest_no_ack: "fst (read_header_rest E bounds outer buf c) \<noteq> Done (Inl (HE_AckWrite e))"
proof (induction E bounds outer buf c rule: read_header_rest.induct)
  case (1 E bounds outer buf c)
  show ?case
    by (subst read_header_rest.simps)
      (use 1 header_progress_no_ack in
        \<open>cases bounds; auto split: option.splits prod.splits sum.splits\<close>)
qed

lemma next_header_ok:
  assumes "open_conn c" and "next_header E c = (r, c')"
  shows "case r of Done (Inl (HE_AckWrite _)) \<Rightarrow> closed_conn c' | _ \<Rightarrow> open_conn c'"
proof -
  obtain x c1 where x: "read_ready_header E [] c = (x, c1)" by (cases "read_ready_header E [] c")
  note ok = read_ready_header_ok[OF assms(1) x]
  show ?thesis
  proof (cases "\<exists>buf. x = Inr (Some buf) \<and> length buf \<noteq> HEADER_LEN")
    case True
    then obtain buf where buf: "x = Inr (Some buf)" "length buf \<noteq> HEADER_LEN" by blast
    then have "read_header_rest E (idle_bound E) (ie_shutdown E) buf c1 = (r, c')"
      using assms(2) x by (simp add: next_header_def)
    then have "open_conn c'"
      using read_header_rest_ok[of c1 E "idle_bound E" "ie_shutdown E" buf] ok buf by simp
    moreover have "r \<noteq> Done (Inl (HE_AckWrite e))" for e
      using read_header_rest_no_ack \<open>read_header_rest E _ _ buf c1 = _\<close> by (metis fst_conv)
    ultimately show ?thesis by (auto split: waited.splits sum.splits header_error.splits)
  next
    case False
    then show ?thesis using assms(2) x ok
      by (auto simp: next_header_def split: sum.splits option.splits header_error.splits if_splits)
  qed
qed

lemma stream_read_open: "stream_read r n c = (read, c') \<Longrightarrow> open_conn c' = open_conn c"
  using open_conn_read[of r n c] by simp

lemma read_body_ok:
  assumes "open_conn c" and "read_body E stall owed n c = (r, c')"
  shows "case r of Done (Inl (FE_AckWrite _)) \<Rightarrow> closed_conn c' | _ \<Rightarrow> open_conn c'"
proof -
  obtain x c1 where x: "(if owed then read_ready_or_ack E n c else (Inr None, c)) = (x, c1)"
    by (cases "if owed then read_ready_or_ack E n c else (Inr None, c)")
  have ok: "case x of Inl e \<Rightarrow> closed_conn c1 | Inr _ \<Rightarrow> open_conn c1"
    using read_ready_or_ack_ok[OF assms(1), of E n] x assms(1) by (auto split: if_splits sum.splits)
  show ?thesis using assms(2) x ok
    by (cases stall) (auto simp: read_body_def split: sum.splits option.splits prod.splits dest!: stream_read_open)
qed

lemma fill_body_ok:
  "open_conn c \<Longrightarrow> fill_body E stall owed n body c = (r, c') \<Longrightarrow>
   case r of Done (Inl (FE_AckWrite _)) \<Rightarrow> closed_conn c' | _ \<Rightarrow> open_conn c'"
proof (induction E stall owed n body c arbitrary: r c' rule: fill_body.induct)
  case (1 E stall owed n body c)
  obtain y c1 where y: "read_body E stall owed (n - length body) c = (y, c1)"
    by (cases "read_body E stall owed (n - length body) c")
  note ok = read_body_ok[OF 1(2) y]
  show ?case
  proof (cases "length body < n \<and> (\<exists>bs. y = Done (Inr (Inr bs)) \<and> bs \<noteq> [])")
    case True
    then obtain bs where bs: "length body < n" "y = Done (Inr (Inr bs))" "bs \<noteq> []" by blast
    then have "fill_body E stall owed n (body @ bs) c1 = (r, c')"
      using 1(3) y by (simp add: fill_body.simps[of E _ _ _ body])
    then show ?thesis using 1(1)[OF bs(1) y[symmetric] bs(2) refl refl bs(3)] ok bs by simp
  next
    case False
    then show ?thesis using 1(2,3) y ok
      by (auto simp: fill_body.simps[of E _ _ _ body] split: waited.splits sum.splits if_splits frame_error.splits)
  qed
qed

lemma read_frame_body_ok:
  assumes "open_conn c" and "read_frame_body E header_buf m stall owed c = (r, c')"
  shows "case r of Done (Inl (FE_AckWrite _)) \<Rightarrow> closed_conn c' | _ \<Rightarrow> open_conn c'"
proof (cases "header_read header_buf")
  case (Inl e)
  then show ?thesis using assms by (auto simp: read_frame_body_def Let_def)
next
  case (Inr hr)
  obtain header rest where hr: "hr = (header, rest)" by (cases hr)
  obtain x c1 where x: "fill_body E stall owed (unat (fh_compressed_len header)) [] c = (x, c1)"
    by (cases "fill_body E stall owed (unat (fh_compressed_len header)) [] c")
  show ?thesis using assms Inr hr x fill_body_ok[OF assms(1) x]
    by (auto simp: read_frame_body_def Let_def split: waited.splits sum.splits if_splits codec_error.splits
        frame_error.splits)
qed

lemma frame_failed_ok:
  assumes "case e of FE_AckWrite _ \<Rightarrow> closed_conn c | _ \<Rightarrow> open_conn c"
  shows "turn_ok (frame_failed E e c)"
  using assms
  by (cases e) (simp_all add: frame_failed_def close_idle_open reject_too_large_open)

lemma frame_turn_ok:
  assumes "open_conn c" shows "turn_ok (frame_turn E negotiated c)"
proof (cases "ie_shutdown E (ic_clock c)")
  case True
  then show ?thesis using assms by (simp add: frame_turn_def going_away_open)
next
  case False
  obtain x c1 where x: "next_header E (ic_tick c) = (x, c1)" by (cases "next_header E (ic_tick c)")
  have ok: "case x of Done (Inl (HE_AckWrite _)) \<Rightarrow> closed_conn c1 | _ \<Rightarrow> open_conn c1"
    by (rule next_header_ok[OF _ x]) (use assms in simp)
  show ?thesis
  proof (cases "\<exists>buf. x = Done (Inr (Some buf))")
    case True
    then obtain buf where buf: "x = Done (Inr (Some buf))" by blast
    obtain y c2 where y:
        "read_frame_body E buf (unat (ie_max_frame_bytes E)) (idle_bound E) True c1 = (y, c2)"
      by (cases "read_frame_body E buf (unat (ie_max_frame_bytes E)) (idle_bound E) True c1")
    have "case y of Done (Inl (FE_AckWrite _)) \<Rightarrow> closed_conn c2 | _ \<Rightarrow> open_conn c2"
      by (rule read_frame_body_ok[OF _ y]) (use ok buf in simp)
    then show ?thesis using False x buf y
      by (auto simp: frame_turn_def intro: handle_frame_ok frame_failed_ok split: waited.splits sum.splits)
  next
    case none: False
    then show ?thesis using False x ok
      by (auto simp: frame_turn_def going_away_open close_idle_open
          split: waited.splits sum.splits option.splits header_error.splits)
  qed
qed

lemma frame_loop_ok: "open_conn c \<Longrightarrow> turn_ok (frame_loop n E negotiated c)"
proof (induction n arbitrary: c)
  case (Suc n)
  have "turn_ok (frame_turn E negotiated c)" by (rule frame_turn_ok[OF Suc.prems])
  then show ?case using Suc.IH by (auto split: turn.splits prod.splits)
qed simp

lemma serve_frames_rests: "at_rest (state_of (snd (serve_frames n E negotiated (c\<lparr>ic_log := []\<rparr>))))"
proof -
  let ?c = "c\<lparr>ic_log := [], ic_pending := None\<rparr>"
  have "open_conn ?c" by (rule open_conn_empty) simp_all
  then have ok: "turn_ok (frame_loop n E negotiated ?c)" by (rule frame_loop_ok)
  obtain r c1 where r: "frame_loop n E negotiated ?c = (r, c1)" by (cases "frame_loop n E negotiated ?c")
  have "at_rest (state_of c1) \<and> at_rest (state_of (snd (flush_ack E c1)))" if oc: "open_conn c1 \<or> closed_conn c1"
  proof (cases "open_conn c1")
    case True
    from flush_ack_open[OF True] True show ?thesis
      by (cases "flush_ack E c1") (auto simp: closed_conn_def open_conn_def)
  next
    case False
    then show ?thesis using oc by (auto simp: closed_conn_def flush_ack_def)
  qed
  then show ?thesis using ok r by (cases r) (auto simp: serve_frames_def)
qed

lemma serve_frames_state: "state_of (snd (serve_frames n E negotiated (c\<lparr>ic_log := []\<rparr>))) \<noteq> None"
  using serve_frames_rests[of n E negotiated c] by (auto simp: at_rest_def)

section \<open>What the automaton promises\<close>

text \<open>The frames a state still owes an answer.\<close>

fun unanswered :: "lstate \<Rightarrow> seq_id list" where
  "unanswered (L_Open owed) = owed"
| "unanswered (L_New owed s) = owed"
| "unanswered (L_Took owed s) = owed @ [s]"
| "unanswered (L_Dropped owed) = owed"
| "unanswered (L_Refusing owed s) = owed"
| "unanswered L_Over = []"

text \<open>A frame this connection handled: a consumer took it, or its sender's mark covers it.\<close>

definition handled :: "seq_id \<Rightarrow> ('d, 'h) in_effect list \<Rightarrow> bool" where
  "handled s xs \<longleftrightarrow> (\<exists>x \<in> set xs. x = Fx_Is_Resend s True \<or> (\<exists>b p t. x = Fx_Relayed s b p t True))"

text \<open>A written accepted \<open>Ack\<close>, after the frame was handled, names the frame's sender.\<close>

definition answered :: "seq_id \<Rightarrow> ('d, 'h) in_effect list \<Rightarrow> bool" where
  "answered s xs \<longleftrightarrow>
     (\<exists>us a vs. xs = us @ Fx_Write (CM_Ack a) Written # vs \<and> ack_status a = Accepted \<and>
        ack_id a = sq_id s \<and> handled s us)"

definition state_ok :: "('d, 'h) in_effect list \<Rightarrow> lstate \<Rightarrow> bool" where
  "state_ok xs st \<longleftrightarrow>
     (\<forall>s \<in> set (unanswered st). handled s xs \<and> sq_id s = sq_id (last (unanswered st))) \<and>
     (\<forall>owed s. st = L_New owed s \<longrightarrow> joins owed s) \<and>
     (st \<noteq> L_Over \<longrightarrow> (\<forall>s. handled s xs \<longrightarrow> s \<in> set (unanswered st) \<or> answered s xs))"

lemma handled_snoc:
  "handled s (xs @ [x]) \<longleftrightarrow>
     handled s xs \<or> x = Fx_Is_Resend s True \<or> (\<exists>b p t. x = Fx_Relayed s b p t True)"
  by (auto simp: handled_def)

lemma answered_snoc: "answered s xs \<Longrightarrow> answered s (xs @ [x])"
  unfolding answered_def by (metis append_Cons append_assoc)

lemma answered_now:
  "handled s xs \<Longrightarrow> ack_status a = Accepted \<Longrightarrow> ack_id a = sq_id s \<Longrightarrow>
   answered s (xs @ [Fx_Write (CM_Ack a) Written])"
  unfolding answered_def by blast

text \<open>A step that handles nothing new and owes the same keeps what is owed and answered.\<close>

lemma state_ok_same:
  assumes "state_ok xs st" and "unanswered st' = unanswered st" and "st \<noteq> L_Over"
    and "\<And>s. handled s (xs @ [x]) \<longleftrightarrow> handled s xs" and "\<And>owed s. st' = L_New owed s \<Longrightarrow> joins owed s"
  shows "state_ok (xs @ [x]) st'"
  using assms(1-3,5) unfolding state_ok_def assms(4) by (auto intro: answered_snoc)

lemma state_ok_joined:
  assumes "state_ok xs st" and "unanswered st' = unanswered st @ [s]" and "joins (unanswered st) s"
    and "st \<noteq> L_Over" and "\<And>q. handled q (xs @ [x]) \<longleftrightarrow> handled q xs \<or> q = s"
    and "\<And>owed s. st' = L_New owed s \<Longrightarrow> joins owed s"
  shows "state_ok (xs @ [x]) st'"
proof -
  have "\<forall>q \<in> set (unanswered st). sq_id q = sq_id s" using assms(3) by (simp add: joins_def list_all_iff)
  then show ?thesis
    using assms(1,4,6) unfolding state_ok_def assms(2,5) by (auto intro: answered_snoc)
qed

lemma state_ok_written:
  assumes "state_ok xs st" and "answers_run a (unanswered st)" and "unanswered st' = []"
    and "\<And>owed s. st' \<noteq> L_New owed s" and "st \<noteq> L_Over"
  shows "state_ok (xs @ [Fx_Write (CM_Ack a) w]) (after_write w st')"
proof -
  have "answered s (xs @ [Fx_Write (CM_Ack a) Written])" if "handled s xs" for s
  proof (cases "s \<in> set (unanswered st)")
    case True
    then have "sq_id s = ack_id a" "ack_status a = Accepted"
      using assms(1,2) by (auto simp: state_ok_def answers_run_def)
    then show ?thesis using that by (intro answered_now) simp_all
  next
    case False
    then have "answered s xs" using assms(1,5) that by (auto simp: state_ok_def)
    then show ?thesis by (rule answered_snoc)
  qed
  then show ?thesis using assms(3,4) by (auto simp: state_ok_def after_write_def handled_snoc)
qed

lemma state_ok_over: "state_ok xs L_Over"
  by (simp add: state_ok_def)

lemma state_ok_quiet:
  assumes "state_ok xs st" and "\<And>s. handled s (xs @ [x]) \<longleftrightarrow> handled s xs"
  shows "state_ok (xs @ [x]) st"
proof (cases "st = L_Over")
  case False
  with assms show ?thesis by (intro state_ok_same[OF assms(1)]) (auto simp: state_ok_def)
qed (simp add: state_ok_over)

lemma l_write_ok:
  assumes "state_ok xs st" and "l_write st m w = Some st'"
  shows "state_ok (xs @ [Fx_Write m w]) st'"
proof (cases "st' = L_Over")
  case False
  then obtain a where m: "m = CM_Ack a" and w: "w = Written"
    using assms(2)
    by (cases st) (auto simp: l_write_open_def l_write_dropped_def l_write_refusing_def after_write_def
        split: control_message.splits if_splits)
  show ?thesis
  proof (cases "answers_run a (unanswered st)")
    case True
    then have "\<exists>K. st' = after_write w (K []) \<and> unanswered (K []) = [] \<and> (\<forall>owed s. K [] \<noteq> L_New owed s)"
      using assms(2) m
      by (cases st) (auto simp: l_write_open_def l_write_dropped_def l_write_refusing_def
          intro: exI[of _ L_Open] exI[of _ L_Dropped] exI[of _ "\<lambda>owed. L_Refusing owed s" for s])
    then show ?thesis using state_ok_written[OF assms(1) True, of _ w] m assms(2) by (cases st) auto
  next
    case False
    then have "unanswered st' = unanswered st" "st \<noteq> L_Over" "\<And>owed s. st' \<noteq> L_New owed s"
      using assms(2) m w
      by (cases st; auto simp: l_write_open_def l_write_dropped_def l_write_refusing_def after_write_def
          split: if_splits)+
    then show ?thesis by (intro state_ok_same[OF assms(1)]) (auto simp: handled_snoc)
  qed
qed (simp add: state_ok_over)

lemma l_next_ok:
  assumes ok: "state_ok xs st" and nx: "l_next st x = Some st'"
  shows "state_ok (xs @ [x]) st'"
proof (cases x)
  case (Fx_Count n v t)
  then have "st' = st" using nx by simp
  then show ?thesis using Fx_Count state_ok_quiet[OF ok] by (simp add: handled_snoc)
next
  case (Fx_Warn k)
  then have "st' = st" using nx by simp
  then show ?thesis using Fx_Warn state_ok_quiet[OF ok] by (simp add: handled_snoc)
next
  case (Fx_Write m w)
  then show ?thesis using nx l_write_ok[OF ok] by simp
next
  case (Fx_Is_Resend s resend)
  then obtain owed where st: "st = L_Open owed" "joins owed s"
      "st' = (if resend then L_Open (owed @ [s]) else L_New owed s)"
    using nx by (cases st) (auto split: if_splits)
  show ?thesis
  proof (cases resend)
    case True
    then show ?thesis using st Fx_Is_Resend
      by (intro state_ok_joined[OF ok, of _ s]) (auto simp: handled_snoc)
  next
    case False
    then show ?thesis using st Fx_Is_Resend
      by (intro state_ok_same[OF ok]) (auto simp: handled_snoc)
  qed
next
  case (Fx_Raise s)
  then show ?thesis using nx
    by (cases st) (auto intro!: state_ok_same[OF ok] simp: handled_snoc split: if_splits)
next
  case (Fx_Relayed s b p t took)
  then obtain owed where st: "st = L_New owed s" "st' = (if took then L_Took owed s else L_Dropped owed)"
    using nx by (cases st) (auto split: if_splits)
  have "joins owed s" using ok st by (simp add: state_ok_def)
  then show ?thesis
  proof (cases took)
    case True
    then show ?thesis using st Fx_Relayed \<open>joins owed s\<close>
      by (intro state_ok_joined[OF ok, of _ s]) (auto simp: handled_snoc)
  next
    case False
    then show ?thesis using st Fx_Relayed
      by (intro state_ok_same[OF ok]) (auto simp: handled_snoc)
  qed
qed

lemma l_run_ok: "l_run (L_Open []) xs = Some st \<Longrightarrow> state_ok xs st"
proof (induction xs arbitrary: st rule: rev_induct)
  case Nil
  then show ?case by (auto simp: state_ok_def handled_def)
next
  case (snoc x xs)
  then obtain st0 where "l_run (L_Open []) xs = Some st0" "l_next st0 x = Some st"
    by (auto simp: l_run_append bind_eq_Some_conv)
  then show ?case using snoc.IH l_next_ok by blast
qed

lemma l_run_over: "l_run L_Over ys \<noteq> None \<Longrightarrow> x \<in> set ys \<Longrightarrow> (\<exists>n v t. x = Fx_Count n v t) \<or> (\<exists>k. x = Fx_Warn k)"
proof (induction ys)
  case (Cons y ys)
  then show ?case by (cases y) (auto split: if_splits)
qed simp

text \<open>The log of a run, split at one effect.\<close>

lemma serve_frames_split:
  assumes "ic_log (snd (serve_frames n E negotiated (c\<lparr>ic_log := []\<rparr>))) = xs @ x # ys"
  obtains st st' where "l_run (L_Open []) xs = Some st" and "l_next st x = Some st'"
    and "l_run st' ys \<noteq> None" and "state_ok xs st" and "at_rest (l_run st' ys)"
proof -
  have r: "at_rest (l_run (L_Open []) (xs @ x # ys))" using serve_frames_rests[of n E negotiated c] assms by simp
  then have "l_run (L_Open []) (xs @ x # ys) \<noteq> None" by (auto simp: at_rest_def)
  then obtain st st' where st: "l_run (L_Open []) xs = Some st" "l_next st x = Some st'" "l_run st' ys \<noteq> None"
    by (auto simp: l_run_append bind_eq_Some_conv)
  then have "at_rest (l_run st' ys)" using r by (simp add: l_run_append)
  with st l_run_ok show ?thesis by (intro that) auto
qed

section \<open>Every run ends\<close>

text \<open>A turn that goes on has read at least a header, so a finite stream has finitely many.\<close>

lemma write_control_input [simp]: "ic_input (snd (write_control E m c)) = ic_input c"
  by (cases rule: write_control_cases[of E m c]) simp_all

lemma write_ack_input [simp]: "ic_input (snd (write_ack E a c)) = ic_input c"
  using write_control_input[of E "CM_Ack a" c]
  by (cases "write_control E (CM_Ack a) c") (auto simp: write_ack_def split: sum.splits)

lemma flush_ack_input [simp]: "ic_input (snd (flush_ack E c)) = ic_input c"
  by (simp add: flush_ack_def split: option.splits)

lemma senders_raise_input [simp]: "ic_input (senders_raise E s c) = ic_input c"
  by (simp add: senders_raise_def)

lemma input_eqs:
  "flush_ack E c = (r, c') \<Longrightarrow> ic_input c' = ic_input c"
  "write_ack E a c = (r, c') \<Longrightarrow> ic_input c' = ic_input c"
  using flush_ack_input[of E c] write_ack_input[of E a c] by auto

lemma refuse_frame_input:
  "refuse_frame E s status c = (t, c') \<Longrightarrow> ic_input c' = ic_input c"
  by (auto simp: refuse_frame_def ack_rejected_def Let_def split: prod.splits sum.splits dest!: input_eqs)

lemma extend_run_input: "extend_run E s c = (t, c') \<Longrightarrow> ic_input c' = ic_input c"
  by (auto simp: extend_run_def Let_def split: prod.splits sum.splits if_splits dest!: input_eqs)

lemma turn_go_on_input:
  "take_frame E s batch provenance trace c = (Go_On, c') \<Longrightarrow> ic_input c' = ic_input c"
proof -
  assume t: "take_frame E s batch provenance trace c = (Go_On, c')"
  define before where "before =
    (case ic_pending c of
       Some run \<Rightarrow> if sq_id (pa_seq run) \<noteq> sq_id s then flush_ack E c else (Inr (), c)
     | None \<Rightarrow> (Inr (), c))"
  obtain r c1 where b: "before = (r, c1)" by (cases before)
  have c1: "ic_input c1 = ic_input c"
    using b by (auto simp: before_def split: option.splits if_splits dest!: input_eqs)
  obtain resend c2 where r2: "senders_is_resend E s c1 = (resend, c2)" by (cases "senders_is_resend E s c1")
  have c2: "ic_input c2 = ic_input c" using senders_is_resend_simps(2)[OF r2] c1 by simp
  show ?thesis using t b r2 c2 unfolding take_frame_def before_def[symmetric]
    by (auto simp: Let_def split: sum.splits if_splits dest!: extend_run_input)
qed

lemma handle_frame_input:
  "handle_frame E negotiated header body c = (Go_On, c') \<Longrightarrow> ic_input c' = ic_input c"
  by (auto simp: handle_frame_def Let_def dest!: turn_go_on_input refuse_frame_input
      split: if_splits prod.splits frame_payload.splits sum.splits option.splits codec_error.splits)

lemma stream_read_input:
  "stream_read r n c = (read, c') \<Longrightarrow>
   case read of Inl _ \<Rightarrow> ic_input c' = ic_input c | Inr bs \<Rightarrow> ic_input c = bs @ ic_input c' \<and> length bs \<le> n"
  by (auto simp: stream_read_def split: read_outcome.splits)

lemma read_ready_or_ack_input:
  "read_ready_or_ack E n c = (r, c') \<Longrightarrow>
   case r of Inr (Some (Inr bs)) \<Rightarrow> ic_input c = bs @ ic_input c' \<and> length bs \<le> n
     | _ \<Rightarrow> ic_input c' = ic_input c"
  using stream_read_input[of _ n "ic_tick c"]
  by (auto simp: read_ready_or_ack_def split: if_splits option.splits prod.splits sum.splits dest!: input_eqs)
    fastforce+

text \<open>
  What the reads return is the stream's own bytes in order, however they arrived: the header is
  its first 24, the body the ones after.
\<close>

lemma read_ready_header_input:
  "read_ready_header E buf c = (Inr (Some buf'), c') \<Longrightarrow> length buf \<le> HEADER_LEN \<Longrightarrow>
   buf @ ic_input c = buf' @ ic_input c' \<and> length buf' \<le> HEADER_LEN"
proof (induction E buf c arbitrary: buf' c' rule: read_ready_header.induct)
  case (1 E buf c)
  show ?case
  proof (cases "length buf < HEADER_LEN")
    case True
    obtain x c1 where x: "read_ready_or_ack E (HEADER_LEN - length buf) c = (x, c1)"
      by (cases "read_ready_or_ack E (HEADER_LEN - length buf) c")
    note inp = read_ready_or_ack_input[OF x]
    show ?thesis
    proof (cases "\<exists>bs. x = Inr (Some (Inr bs)) \<and> bs \<noteq> []")
      case more: True
      then obtain bs where bs: "x = Inr (Some (Inr bs))" "bs \<noteq> []" by blast
      then have hp: "header_progress (Inr bs) (length buf) = Inr (Some bs)"
        by (simp add: header_progress_def)
      have "read_ready_header E (buf @ bs) c1 = (Inr (Some buf'), c')"
        using 1(2) x True bs hp by (simp add: read_ready_header.simps[of E buf])
      then show ?thesis
        using 1(1)[OF True x[symmetric] bs(1) refl hp refl] inp bs True by auto
    next
      case more: False
      then show ?thesis using 1(2) x True inp
        by (auto simp: read_ready_header.simps[of E buf] header_progress_def
            split: sum.splits option.splits if_splits)
    qed
  next
    case False
    then show ?thesis using 1(2,3) by (auto simp: read_ready_header.simps)
  qed
qed

lemma read_header_rest_input:
  "read_header_rest E bounds outer buf c = (Done (Inr (Some buf')), c') \<Longrightarrow> length buf \<le> HEADER_LEN \<Longrightarrow>
   buf @ ic_input c = buf' @ ic_input c' \<and> length buf' = HEADER_LEN"
proof (induction E bounds outer buf c arbitrary: buf' c' rule: read_header_rest.induct)
  case (1 E bounds outer buf c)
  show ?case
  proof (cases "length buf < HEADER_LEN")
    case True
    then have out: "\<not> outer (ic_clock c)" using 1(2) by (auto simp: read_header_rest.simps[of E] split: if_splits)
    obtain r where r: "ie_wait E (ic_clock c) = Some r"
      using 1(2) True out by (cases bounds) (auto simp: read_header_rest.simps[of E] split: option.splits)
    obtain read c1 where rd: "stream_read r (HEADER_LEN - length buf) (ic_tick c) = (read, c1)"
      by (cases "stream_read r (HEADER_LEN - length buf) (ic_tick c)")
    have "\<exists>bs. header_progress read (length buf) = Inr (Some bs)"
      using 1(2) True out r rd by (auto simp: read_header_rest.simps[of E] split: sum.splits option.splits)
    then obtain bs where bs: "header_progress read (length buf) = Inr (Some bs)" by blast
    have "read_header_rest E bounds outer (buf @ bs) c1 = (Done (Inr (Some buf')), c')"
      using 1(2) True out r rd bs by (simp add: read_header_rest.simps[of E _ _ buf])
    then show ?thesis
      using 1(1)[OF True out r rd[symmetric] refl bs refl] stream_read_input[OF rd] bs True
      by (auto simp: header_progress_Some)
  next
    case False
    then show ?thesis using 1(2,3) by (auto simp: read_header_rest.simps)
  qed
qed

lemma next_header_input:
  assumes "next_header E c = (Done (Inr (Some buf)), c')"
  shows "ic_input c = buf @ ic_input c' \<and> length buf = HEADER_LEN"
proof -
  obtain x c1 where x: "read_ready_header E [] c = (x, c1)" by (cases "read_ready_header E [] c")
  then obtain first where first: "x = Inr (Some first)"
    using assms by (auto simp: next_header_def split: sum.splits option.splits)
  have f: "ic_input c = first @ ic_input c1" "length first \<le> HEADER_LEN"
    using read_ready_header_input[of E "[]" c first c1] x first by auto
  show ?thesis
  proof (cases "length first = HEADER_LEN")
    case True
    then show ?thesis using assms x first f by (simp add: next_header_def)
  next
    case False
    then have "read_header_rest E (idle_bound E) (ie_shutdown E) first c1 = (Done (Inr (Some buf)), c')"
      using assms x first by (simp add: next_header_def)
    from read_header_rest_input[OF this f(2)] f show ?thesis by simp
  qed
qed

lemma read_body_input:
  assumes "read_body E stall owed n c = (r, c')"
  shows "case r of Done (Inr (Inr bs)) \<Rightarrow> ic_input c = bs @ ic_input c' \<and> length bs \<le> n
    | _ \<Rightarrow> ic_input c' = ic_input c"
proof -
  obtain x c1 where x: "(if owed then read_ready_or_ack E n c else (Inr None, c)) = (x, c1)"
    by (cases "if owed then read_ready_or_ack E n c else (Inr None, c)")
  have inp: "case x of Inr (Some (Inr bs)) \<Rightarrow> ic_input c = bs @ ic_input c1 \<and> length bs \<le> n
      | _ \<Rightarrow> ic_input c1 = ic_input c"
    using x read_ready_or_ack_input[of E n c x c1] by (auto split: if_splits)
  show ?thesis using assms x inp
    by (cases stall) (auto simp: read_body_def split: sum.splits option.splits prod.splits dest!: stream_read_input)
qed

lemma fill_body_input:
  "fill_body E stall owed n body c = (r, c') \<Longrightarrow>
   length (ic_input c') \<le> length (ic_input c) \<and>
   (\<forall>body'. r = Done (Inr body') \<longrightarrow> length body \<le> n \<longrightarrow>
      body @ ic_input c = body' @ ic_input c' \<and> length body' = n)"
proof (induction E stall owed n body c arbitrary: r c' rule: fill_body.induct)
  case (1 E stall owed n body c)
  obtain y c1 where y: "read_body E stall owed (n - length body) c = (y, c1)"
    by (cases "read_body E stall owed (n - length body) c")
  note inp = read_body_input[OF y]
  show ?case
  proof (cases "length body < n \<and> (\<exists>bs. y = Done (Inr (Inr bs)) \<and> bs \<noteq> [])")
    case True
    then obtain bs where bs: "length body < n" "y = Done (Inr (Inr bs))" "bs \<noteq> []" by blast
    then have "fill_body E stall owed n (body @ bs) c1 = (r, c')"
      using 1(2) y by (simp add: fill_body.simps[of E _ _ _ body])
    then show ?thesis using 1(1)[OF bs(1) y[symmetric] bs(2) refl refl bs(3)] inp bs by auto
  next
    case False
    then show ?thesis using 1(2) y inp
      by (auto simp: fill_body.simps[of E _ _ _ body] split: waited.splits sum.splits if_splits)
  qed
qed

lemma read_frame_body_input:
  "read_frame_body E buf m stall owed c = (r, c') \<Longrightarrow> length (ic_input c') \<le> length (ic_input c)"
  using fill_body_input[of E stall owed _ "[]" c]
  by (auto simp: read_frame_body_def Let_def split: sum.splits prod.splits waited.splits if_splits codec_error.splits)

lemma frame_turn_input:
  assumes "frame_turn E negotiated c = (Go_On, c')"
  shows "length (ic_input c') + HEADER_LEN \<le> length (ic_input c)"
proof -
  obtain x c1 where x: "next_header E (ic_tick c) = (x, c1)" by (cases "next_header E (ic_tick c)")
  obtain buf where buf: "x = Done (Inr (Some buf))"
    using assms x by (auto simp: frame_turn_def split: if_splits waited.splits sum.splits option.splits header_error.splits)
  obtain y c2 where y:
      "read_frame_body E buf (unat (ie_max_frame_bytes E)) (idle_bound E) True c1 = (y, c2)"
    by (cases "read_frame_body E buf (unat (ie_max_frame_bytes E)) (idle_bound E) True c1")
  have "ic_input c = buf @ ic_input c1 \<and> length buf = HEADER_LEN"
    using next_header_input[of E "ic_tick c" buf c1] x buf by simp
  moreover have "length (ic_input c2) \<le> length (ic_input c1)" by (rule read_frame_body_input[OF y])
  moreover have "ic_input c' = ic_input c2"
    using assms x buf y
    by (auto simp: frame_turn_def frame_failed_def dest: handle_frame_input
        split: if_splits waited.splits sum.splits frame_error.splits)
  ultimately show ?thesis by simp
qed

lemma frame_loop_ends:
  "length (ic_input c) < n * HEADER_LEN \<Longrightarrow> fst (frame_loop n E negotiated c) \<noteq> Go_On"
proof (induction n arbitrary: c)
  case (Suc n)
  obtain r c1 where r: "frame_turn E negotiated c = (r, c1)" by (cases "frame_turn E negotiated c")
  show ?case
  proof (cases r)
    case Go_On
    then have "length (ic_input c1) < n * HEADER_LEN"
      using frame_turn_input[of E negotiated c c1] r Suc.prems by simp
    then show ?thesis using Suc.IH r Go_On by simp
  qed (use r in auto)
qed simp

end
