(* ===== verification/Listener.thy ===== *)
theory Listener
  imports Ack_Discipline
begin

text \<open>
  What a peer of the native listener can rely on (\<open>crates/logit-inputs/src/logit.rs\<close>), from the
  discipline of \<open>Ack_Discipline\<close>, and one connection run to its end: a frame arrives, a
  consumer takes its batch, the process shuts down.
\<close>

section \<open>A connection run\<close>

definition quiet_batch :: "('k, 'd, 'h) event_batch" where
  "quiet_batch = \<lparr>b_resource = resource_default, b_scope = None, b_events = []\<rparr>"

definition quiet_payload :: bytes where
  "quiet_payload = replicate 16 3 @ [5, 0, 0, 0, 0, 0]"

definition quiet_frame :: bytes where
  "quiet_frame =
     header_write (frame_header_of stored_env CODEC_HOP_BATCH Compression_None 0 quiet_payload) @ quiet_payload"

definition quiet_env :: "(nat \<Rightarrow> bool) \<Rightarrow> (unit, unit) in_env" where
  "quiet_env takes = \<lparr>ie_poll = \<lambda>_. None, ie_wait = \<lambda>_. Some (Ready 100), ie_shutdown = \<lambda>n. 3 < n,
     ie_write = \<lambda>_. Written, ie_take = takes, ie_others = \<lambda>_. [], ie_interner = \<lambda>_. [],
     ie_frame = stored_env,
     ie_blobs = \<lparr>dd_to_bytes = \<lambda>_. [], dd_from_bytes = \<lambda>_. None, hll_to_bytes = \<lambda>_. [],
       hll_from_bytes = \<lambda>_. None\<rparr>,
     ie_layout = \<lparr>sz_symbol = 4, sz_value = 32, sz_attr_entry = 40, sz_attr_map = 24, sz_bytes = 32,
       sz_exemplar = 64, sz_metric_record = 128, sz_span_event = 64, sz_span_link = 64, sz_event = 256\<rparr>,
     ie_max_frame_bytes = 1000, ie_idle_timeout = True\<rparr>"

definition quiet_conn :: "(unit, unit) in_conn" where
  "quiet_conn = \<lparr>ic_input = quiet_frame, ic_clock = 0, ic_pending = None, ic_senders = table_new 4,
     ic_log = []\<rparr>"

definition quiet_seq :: seq_id where
  "quiet_seq = \<lparr>sq_id = replicate 16 3, sq_seq = 5\<rparr>"

lemma quiet_env_simps [simp]:
  "ie_poll (quiet_env takes) n = None" "ie_wait (quiet_env takes) n = Some (Ready 100)"
  "ie_shutdown (quiet_env takes) n \<longleftrightarrow> 3 < n" "ie_write (quiet_env takes) n = Written"
  "ie_take (quiet_env takes) = takes" "ie_others (quiet_env takes) n = []"
  "ie_frame (quiet_env takes) = stored_env" "ie_max_frame_bytes (quiet_env takes) = 1000"
  "idle_bound (quiet_env takes) = Idle_Bound"
  by (simp_all add: quiet_env_def idle_bound_def)

lemma read_len_zero: "read_len (0 # r) = Inr (0, r)"
  by (simp add: read_len_def read_uvarint_def)

lemma quiet_decodes:
  "decode_hop_body B L [0, 0, 0, 0, 0] b t =
     Inr ((quiet_batch, \<lparr>pv_origin = None, pv_previous = None\<rparr>, None), b, t)"
proof -
  have "dict_read L (0 # r) b t = Inr ([], r, b, t)" for r
    by (simp add: dict_read_def read_len_zero)
  moreover have "read_sections B L ([] :: symbol list) (0 # 0 # 0 # r) b = Inr (quiet_batch, r, b)" for r
    by (simp add: read_sections_def read_section_def read_len_zero split_to_def read_resource_def
        for_each_field.simps read_scope_section_def read_u8_def read_events_def charge_list_def charge_def saturating_mul_def
        quiet_batch_def)
  ultimately show ?thesis
    by (simp add: decode_hop_body_def decode_batch_body_def read_len_zero split_to_def
        read_trailer.simps ensure_consumed_def)
qed

lemma read_header_whole:
  assumes "ie_wait E (ic_clock c) = Some (Ready n)" and "\<not> outer (ic_clock c)"
    and "ic_input c = h @ rest" and "length h = HEADER_LEN" and "HEADER_LEN \<le> n"
  shows "read_header_rest E bounds outer [] c = (Done (Inr (Some h)), (ic_tick c)\<lparr>ic_input := rest\<rparr>)"
proof -
  have "h \<noteq> []" "0 < HEADER_LEN" using assms(4) by (auto simp: HEADER_LEN_def)
  then show ?thesis
    using assms by (simp add: read_header_rest.simps[of E] stream_read_def header_progress_def)
qed

lemma fill_body_whole:
  assumes "ie_wait E (ic_clock c) = Some (Ready n)" and "ic_pending c = None"
    and "ic_input c = body @ rest" and "length body = k" and "k \<le> n" and "0 < k"
  shows "fill_body E stall owed k [] c = (Done (Inr body), (ic_tick c)\<lparr>ic_input := rest\<rparr>)"
  using assms
  by (auto simp: fill_body.simps[of E] read_body_def read_ready_or_ack_def stream_read_def)

lemma quiet_frame_reads:
  "read_frame_body (quiet_env takes) (take HEADER_LEN quiet_frame) 1000 Idle_Bound True
     (quiet_conn\<lparr>ic_input := quiet_payload, ic_clock := 2\<rparr>) =
   (Done (Inr (frame_header_of stored_env CODEC_HOP_BATCH Compression_None 0 quiet_payload, Whole quiet_payload)),
    quiet_conn\<lparr>ic_input := [], ic_clock := 3\<rparr>)"
proof -
  let ?h = "frame_header_of stored_env CODEC_HOP_BATCH Compression_None 0 quiet_payload"
  have h: "take HEADER_LEN quiet_frame = header_write ?h" by (simp add: quiet_frame_def)
  have hr: "header_read (header_write ?h) = Inr (?h, [])"
    using header_read_written[of ?h "[]"] by (simp add: frame_header_of_def)
  have len: "unat (fh_compressed_len ?h) = 22" "unat (fh_uncompressed_len ?h) = 22"
    by (simp_all add: frame_header_of_def frame_body_def quiet_payload_def)
  have fr: "write_frame_with_flags stored_env CODEC_HOP_BATCH Compression_None 0 quiet_payload = Inr quiet_frame"
    unfolding write_frame_eq
    by (simp add: quiet_frame_def frame_body_def quiet_payload_def MAX_SANE_UNCOMPRESSED_LEN_def)
  have rd: "read_frame_with_header stored_env (header_write ?h @ quiet_payload) = Inr ((?h, quiet_payload), [])"
    using read_frame_written[OF stored_env_laws fr, of "[]"] by (simp add: quiet_frame_def)
  have fb: "fill_body (quiet_env takes) Idle_Bound True 22 [] (quiet_conn\<lparr>ic_input := quiet_payload, ic_clock := 2\<rparr>)
      = (Done (Inr quiet_payload), quiet_conn\<lparr>ic_input := [], ic_clock := 3\<rparr>)"
    using fill_body_whole[of "quiet_env takes" "quiet_conn\<lparr>ic_input := quiet_payload, ic_clock := 2\<rparr>" 100
        quiet_payload "[]" 22 Idle_Bound True]
    by (simp add: quiet_conn_def quiet_payload_def ic_tick_def)
  show ?thesis
    unfolding h read_frame_body_def hr
    by (simp add: len fb rd MAX_SANE_UNCOMPRESSED_LEN_def compressed_bound_def saturating_add_u32_def
        U32_MAX_def Let_def)
qed

definition quiet_taken :: "(unit, unit) in_effect list" where
  "quiet_taken = [Fx_Count ''logit.proto.frames'' 1 ''none'', Fx_Count ''logit.proto.frame.bytes'' 22 ''in'',
     Fx_Is_Resend quiet_seq False,
     Fx_Relayed quiet_seq quiet_batch \<lparr>pv_origin = None, pv_previous = None\<rparr> None True, Fx_Raise quiet_seq]"

definition quiet_going_away :: "string \<Rightarrow> reject" where
  "quiet_going_away why = \<lparr>rj_code = REJECT_GOING_AWAY, rj_message = str_bytes why\<rparr>"

lemma quiet_prefix: "read_hop_prefix quiet_payload = Inr (quiet_seq, [0, 0, 0, 0, 0])"
  by (simp add: read_hop_prefix_def quiet_payload_def quiet_seq_def split_to_def read_uvarint_def)

lemma quiet_first_turn:
  "frame_turn (quiet_env takes) Compression_None quiet_conn =
     take_frame (quiet_env takes) quiet_seq quiet_batch \<lparr>pv_origin = None, pv_previous = None\<rparr> None
       (quiet_conn\<lparr>ic_input := [], ic_clock := 4, ic_log := take 2 quiet_taken\<rparr>)"
proof -
  let ?h = "header_write (frame_header_of stored_env CODEC_HOP_BATCH Compression_None 0 quiet_payload)"
  have "read_header_rest (quiet_env takes) Idle_Bound (ie_shutdown (quiet_env takes)) []
      (quiet_conn\<lparr>ic_clock := 1\<rparr>)
      = (Done (Inr (Some ?h)), quiet_conn\<lparr>ic_input := quiet_payload, ic_clock := 2\<rparr>)"
    using read_header_whole[of "quiet_env takes" "quiet_conn\<lparr>ic_clock := 1\<rparr>" 100
        "ie_shutdown (quiet_env takes)" ?h quiet_payload Idle_Bound]
    by (simp add: quiet_conn_def quiet_frame_def HEADER_LEN_def ic_tick_def)
  then have nh: "next_header (quiet_env takes) (quiet_conn\<lparr>ic_clock := 1\<rparr>)
      = (Done (Inr (Some ?h)), quiet_conn\<lparr>ic_input := quiet_payload, ic_clock := 2\<rparr>)"
    by (simp add: next_header_def read_ready_header.simps read_ready_or_ack_def)
      (simp add: quiet_conn_def HEADER_LEN_def)
  have "take HEADER_LEN quiet_frame = ?h" by (simp add: quiet_frame_def)
  note rb = quiet_frame_reads[of takes, unfolded this]
  have "ic_tick quiet_conn = quiet_conn\<lparr>ic_clock := 1\<rparr>" "ic_clock quiet_conn = 0"
    by (simp_all add: quiet_conn_def ic_tick_def)
  then have "frame_turn (quiet_env takes) Compression_None quiet_conn =
      handle_frame (quiet_env takes) Compression_None
        (frame_header_of stored_env CODEC_HOP_BATCH Compression_None 0 quiet_payload) (Whole quiet_payload)
        (quiet_conn\<lparr>ic_input := [], ic_clock := 3\<rparr>)"
    using nh rb by (simp add: frame_turn_def)
  also have "\<dots> = take_frame (quiet_env takes) quiet_seq quiet_batch \<lparr>pv_origin = None, pv_previous = None\<rparr> None
       (quiet_conn\<lparr>ic_input := [], ic_clock := 4, ic_log := take 2 quiet_taken\<rparr>)"
    by (simp add: handle_frame_def quiet_prefix quiet_decodes frame_header_of_def quiet_taken_def)
      (simp add: quiet_conn_def ic_tick_def emit_def frame_body_def quiet_payload_def)
  finally show ?thesis .
qed

lemma quiet_not_resend: "is_resend s (table_new n) = (False, (table_new n)\<lparr>st_tick := 1\<rparr>)"
  by (simp add: is_resend_def next_tick_def table_new_def)

lemma quiet_writes:
  "message_ok m \<Longrightarrow> write_control (quiet_env takes) m c = (Inr (), emit (Fx_Write m Written) (ic_tick c))"
  using length_message[of m]
  by (auto simp: write_control_def Let_def write_frame_with_flags_def split: sum.splits)

lemma quiet_ack_ok: "message_ok (CM_Ack (ack_accepted (sq_id quiet_seq) (sq_seq quiet_seq)))"
  by (simp add: ack_ok_def ack_accepted_def quiet_seq_def SENDER_ID_BYTES_def)

lemma quiet_reject_ok:
  "message_ok (CM_Reject (quiet_going_away ''listener shutting down''))"
  "message_ok (CM_Reject (quiet_going_away ''no consumer took the batch''))"
  unfolding message_ok.simps text_ok_def quiet_going_away_def by code_simp+

definition quiet_answered :: "(unit, unit) in_effect list" where
  "quiet_answered = quiet_taken @
     [Fx_Write (CM_Ack (ack_accepted (sq_id quiet_seq) (sq_seq quiet_seq))) Written,
      Fx_Count ''logit.input.acks'' 1 []]"

definition quiet_log :: "(unit, unit) in_effect list" where
  "quiet_log = quiet_answered @ [Fx_Write (CM_Reject (quiet_going_away ''listener shutting down'')) Written]"

lemma quiet_run:
  "ic_log (snd (serve_frames 2 (quiet_env (\<lambda>_. True)) Compression_None (quiet_conn\<lparr>ic_log := []\<rparr>))) = quiet_log"
proof -
  let ?E = "quiet_env (\<lambda>_. True)"
  have "fst (frame_turn ?E Compression_None quiet_conn) = Go_On \<and>
      ic_log (snd (frame_turn ?E Compression_None quiet_conn)) = quiet_taken \<and>
      ic_clock (snd (frame_turn ?E Compression_None quiet_conn)) = 7 \<and>
      ic_pending (snd (frame_turn ?E Compression_None quiet_conn)) = Some \<lparr>pa_seq = quiet_seq, pa_frames = 1\<rparr>"
    unfolding quiet_first_turn
    by (simp add: take_frame_def senders_is_resend_def with_senders_def run_ops_def
        quiet_not_resend quiet_conn_def emit_def ic_tick_def senders_raise_def extend_run_def
        ACK_COALESCE_MAX_def quiet_taken_def)
  then obtain c1 where c1: "frame_turn ?E Compression_None quiet_conn = (Go_On, c1)" "ic_log c1 = quiet_taken"
      "ic_clock c1 = 7" "ic_pending c1 = Some \<lparr>pa_seq = quiet_seq, pa_frames = 1\<rparr>"
    by (cases "frame_turn ?E Compression_None quiet_conn") auto
  have "frame_turn ?E Compression_None c1 = (Stop (Inr Closing), going_away ?E ''listener shutting down'' (ic_tick c1))"
    using c1 by (simp add: frame_turn_def)
  moreover have "ic_log (going_away ?E ''listener shutting down'' (ic_tick c1)) = quiet_log \<and>
      ic_pending (going_away ?E ''listener shutting down'' (ic_tick c1)) = None"
    using c1 quiet_ack_ok quiet_reject_ok(1)
    by (simp add: going_away_def flush_then_reject_def flush_ack_def write_ack_def quiet_writes
        write_reject_def quiet_going_away_def[symmetric] quiet_log_def quiet_answered_def emit_def
        del: message_ok.simps)
  moreover have "quiet_conn\<lparr>ic_log := [], ic_pending := None\<rparr> = quiet_conn" by (simp add: quiet_conn_def)
  ultimately show ?thesis using c1 by (simp add: serve_frames_def numeral_2_eq_2 flush_ack_def)
qed

text \<open>The same frame with no consumer left to take it.\<close>

definition quiet_farewell :: "(unit, unit) in_effect list" where
  "quiet_farewell = [Fx_Count ''logit.input.batches.dropped'' 1 ''closed_consumer'', Fx_Warn ''closed_consumer'',
     Fx_Write (CM_Reject (quiet_going_away ''no consumer took the batch'')) Written]"

lemma quiet_drop_run:
  "ic_log (snd (serve_frames 2 (quiet_env (\<lambda>_. False)) Compression_None (quiet_conn\<lparr>ic_log := []\<rparr>))) =
     take 3 quiet_taken @
     Fx_Relayed quiet_seq quiet_batch \<lparr>pv_origin = None, pv_previous = None\<rparr> None False # quiet_farewell"
proof -
  let ?E = "quiet_env (\<lambda>_. False)"
  have "fst (frame_turn ?E Compression_None quiet_conn) = Stop (Inr Closing) \<and>
      ic_pending (snd (frame_turn ?E Compression_None quiet_conn)) = None \<and>
      ic_log (snd (frame_turn ?E Compression_None quiet_conn)) = take 3 quiet_taken @
        Fx_Relayed quiet_seq quiet_batch \<lparr>pv_origin = None, pv_previous = None\<rparr> None False # quiet_farewell"
    unfolding quiet_first_turn using quiet_reject_ok(2)
    by (simp add: take_frame_def senders_is_resend_def with_senders_def run_ops_def quiet_not_resend
        quiet_conn_def emit_def ic_tick_def going_away_def flush_then_reject_def flush_ack_def
        write_reject_def quiet_writes quiet_going_away_def[symmetric] quiet_taken_def quiet_farewell_def
        del: message_ok.simps)
  moreover have "quiet_conn\<lparr>ic_log := [], ic_pending := None\<rparr> = quiet_conn" by (simp add: quiet_conn_def)
  ultimately show ?thesis
    by (cases "frame_turn ?E Compression_None quiet_conn") (simp add: serve_frames_def numeral_2_eq_2 flush_ack_def)
qed

section \<open>After a dropped frame\<close>

fun is_write :: "('d, 'h) in_effect \<Rightarrow> bool" where
  "is_write (Fx_Write _ _) = True"
| "is_write _ = False"

fun is_report :: "('d, 'h) in_effect \<Rightarrow> bool" where
  "is_report (Fx_Count _ _ _) = True"
| "is_report (Fx_Warn _) = True"
| "is_report _ = False"

lemma l_run_over_reports: "l_run L_Over xs \<noteq> None \<Longrightarrow> list_all is_report xs \<and> filter is_write xs = []"
proof (induction xs)
  case (Cons x xs)
  then show ?case by (cases x) auto
qed simp

text \<open>The farewell: the \<open>Ack\<close> of the run that was owed, if one was, and \<open>GOING_AWAY\<close>, unless the first write failed.\<close>

definition farewell :: "seq_id list \<Rightarrow> ('d, 'h) in_effect list \<Rightarrow> bool" where
  "farewell owed ws \<longleftrightarrow>
     (\<exists>acks r w. ws = acks @ [Fx_Write (CM_Reject r) w] \<and> rj_code r = REJECT_GOING_AWAY \<and>
        (if owed = [] then acks = [] else \<exists>a. acks = [Fx_Write (CM_Ack a) Written] \<and> answers_run a owed)) \<or>
     (\<exists>a w. ws = [Fx_Write (CM_Ack a) w] \<and> w \<noteq> Written \<and> answers_run a owed)"

lemma l_run_farewell:
  "at_rest (l_run (L_Dropped owed) xs) \<Longrightarrow> list_all (\<lambda>x. is_write x \<or> is_report x) xs \<and> farewell owed (filter is_write xs)"
proof (induction xs arbitrary: owed)
  case (Cons x xs)
  show ?case
  proof (cases x)
    case (Fx_Write m w)
    have "l_write_dropped owed m w \<noteq> None" using Cons.prems Fx_Write by (cases "l_write_dropped owed m w") auto
    then consider (ack) a where "m = CM_Ack a" "answers_run a owed" "w = Written" | (failed) a where "m = CM_Ack a" "answers_run a owed" "w \<noteq> Written"
      | (reject) r where "m = CM_Reject r" "owed = []" "rj_code r = REJECT_GOING_AWAY"
      by (auto simp: l_write_dropped_def split: control_message.splits if_splits)
    then show ?thesis
    proof cases
      case ack
      then have "at_rest (l_run (L_Dropped []) xs)" using Cons.prems Fx_Write by (simp add: l_write_dropped_def after_write_def)
      from Cons.IH[OF this] have t: "list_all (\<lambda>x. is_write x \<or> is_report x) xs" "farewell [] (filter is_write xs)" by simp_all
      have "owed \<noteq> []" using ack(2) by (simp add: answers_run_def)
      moreover obtain r w' where "filter is_write xs = [Fx_Write (CM_Reject r) w']" "rj_code r = REJECT_GOING_AWAY"
        using t(2) by (auto simp: farewell_def answers_run_def)
      ultimately have "farewell owed (x # filter is_write xs)" using ack Fx_Write unfolding farewell_def
        by (intro disjI1 exI[of _ "[x]"] exI[of _ r] exI[of _ w']) auto
      then show ?thesis using t(1) Fx_Write by simp
    next
      case failed
      then have "l_run L_Over xs \<noteq> None" using Cons.prems Fx_Write by (auto simp: l_write_dropped_def after_write_def at_rest_def)
      from l_run_over_reports[OF this] show ?thesis using failed Fx_Write by (auto simp: farewell_def list_all_iff)
    next
      case reject
      then have "l_run L_Over xs \<noteq> None" using Cons.prems Fx_Write by (auto simp: l_write_dropped_def at_rest_def)
      from l_run_over_reports[OF this] show ?thesis using reject Fx_Write by (auto simp: farewell_def list_all_iff)
    qed
  qed (use Cons in \<open>auto simp: at_rest_def\<close>)
qed simp

section \<open>Properties\<close>

text \<open>
  C4. The native listener refines the abstract one: whatever arrives, stalls, fails or is shut
  down, and whatever the other connections do to the shared table, the effects of a connection are
  a run of the automaton \<open>l_next\<close>. So each batch is offered to the consumers only when its
  sender's mark is below it, the mark is raised only after a consumer took it or to refuse it, an
  accepted \<open>Ack\<close> answers one whole run of at most 32 handled frames of one sender, and nothing
  follows a failed write or a \<open>Reject\<close>.
\<close>

theorem listener_refines_discipline:
  "\<exists>st. l_run (L_Open []) (ic_log (snd (serve_frames n E negotiated (c\<lparr>ic_log := []\<rparr>)))) = Some st"
  using serve_frames_state[of n E negotiated c] by auto

text \<open>
  C31. \<open>GOING_AWAY\<close> and forwarding exclude each other: when the listener writes a \<open>Reject\<close>, every
  frame a consumer took, and every frame acknowledged on its mark, was answered by an accepted
  \<open>Ack\<close> of its sender written before, and nothing is forwarded, raised or written after. So a
  frame its sender still holds unanswered never landed.
\<close>

theorem reject_leaves_nothing_forwarded:
  assumes "ic_log (snd (serve_frames n E negotiated (c\<lparr>ic_log := []\<rparr>))) = xs @ Fx_Write (CM_Reject r) w # ys"
  shows "(\<forall>s. handled s xs \<longrightarrow> answered s xs) \<and>
    list_all (\<lambda>x. (\<exists>n v t. x = Fx_Count n v t) \<or> (\<exists>k. x = Fx_Warn k)) ys"
proof -
  obtain st st' where st: "l_next st (Fx_Write (CM_Reject r) w :: ('a, 'b) in_effect) = Some st'"
      "l_run st' ys \<noteq> None" "state_ok xs st"
    using serve_frames_split[OF assms] by metis
  then have "st' = L_Over" "unanswered st = []" "st \<noteq> L_Over"
    by (cases st; auto simp: l_write_open_def l_write_dropped_def l_write_refusing_def split: if_splits)+
  with st show ?thesis using l_run_over[of ys] by (auto simp: state_ok_def list_all_iff)
qed

theorem reject_leaves_nothing_forwarded_witness:
  "answered quiet_seq quiet_answered"
proof -
  have "handled quiet_seq quiet_answered"
    by (auto simp: handled_def quiet_answered_def quiet_taken_def)
  then show ?thesis
    using reject_leaves_nothing_forwarded[OF quiet_run[unfolded quiet_log_def]] by blast
qed

text \<open>
  An accepted \<open>Ack\<close> never claims a frame the listener did not handle: the pair it names was
  taken by a consumer, or found at or below its sender's mark, on this connection, before.
\<close>

theorem accepted_ack_names_handled:
  assumes "ic_log (snd (serve_frames n E negotiated (c\<lparr>ic_log := []\<rparr>))) = xs @ Fx_Write (CM_Ack a) w # ys"
    and "ack_status a = Accepted"
  shows "handled \<lparr>sq_id = ack_id a, sq_seq = ack_seq a\<rparr> xs"
proof -
  obtain st st' where st: "l_next st (Fx_Write (CM_Ack a) w :: ('a, 'b) in_effect) = Some st'" "state_ok xs st"
    using serve_frames_split[OF assms(1)] by metis
  then have "answers_run a (unanswered st)"
    using assms(2)
    by (cases st) (auto simp: l_write_open_def l_write_dropped_def l_write_refusing_def split: if_splits)
  then have "\<lparr>sq_id = ack_id a, sq_seq = ack_seq a\<rparr> \<in> set (unanswered st)"
    by (metis answers_run_def last_in_set)
  then show ?thesis using st(2) by (simp add: state_ok_def)
qed

theorem accepted_ack_names_handled_witness:
  "handled \<lparr>sq_id = ack_id (ack_accepted (sq_id quiet_seq) (sq_seq quiet_seq)),
            sq_seq = ack_seq (ack_accepted (sq_id quiet_seq) (sq_seq quiet_seq))\<rparr> quiet_taken"
  by (rule accepted_ack_names_handled[OF quiet_run[unfolded quiet_log_def quiet_answered_def append_assoc append_Cons]])
    (simp add: ack_accepted_def)

text \<open>
  C35. A batch no consumer took is neither marked nor acknowledged. After it the listener looks up and
  raises no mark and forwards nothing: besides counts and warnings it writes, and that always, the \<open>Ack\<close>
  of the run it already owed, which names a frame handled before and answers every frame handled
  before, and behind it \<open>GOING_AWAY\<close>; only when that \<open>Ack\<close> fails to be written does the rest stay away.
\<close>

theorem dropped_batch_never_marked:
  assumes "ic_log (snd (serve_frames n E negotiated (c\<lparr>ic_log := []\<rparr>))) = xs @ Fx_Relayed s b p t False # ys"
  shows "list_all (\<lambda>x. is_write x \<or> is_report x) ys \<and>
    ((\<exists>acks r w. filter is_write ys = acks @ [Fx_Write (CM_Reject r) w] \<and> rj_code r = REJECT_GOING_AWAY \<and>
        length acks \<le> 1 \<and> (\<forall>q. handled q xs \<longrightarrow> answered q (xs @ acks)) \<and>
        (\<forall>x \<in> set acks. \<exists>a. x = Fx_Write (CM_Ack a) Written \<and> ack_status a = Accepted \<and> handled \<lparr>sq_id = ack_id a, sq_seq = ack_seq a\<rparr> xs)) \<or>
     (\<exists>a w. filter is_write ys = [Fx_Write (CM_Ack a) w] \<and> w \<noteq> Written \<and> ack_status a = Accepted \<and>
        handled \<lparr>sq_id = ack_id a, sq_seq = ack_seq a\<rparr> xs))"
proof -
  obtain st st' where st: "l_next st (Fx_Relayed s b p t False) = Some st'" "state_ok xs st" "at_rest (l_run st' ys)"
    using serve_frames_split[OF assms] by metis
  then obtain owed where ow: "st' = L_Dropped owed" "unanswered st = owed" "st \<noteq> L_Over" by (cases st) (auto split: if_splits)
  have names: "ack_status a = Accepted \<and> handled \<lparr>sq_id = ack_id a, sq_seq = ack_seq a\<rparr> xs" if a: "answers_run a owed" for a
  proof -
    have "\<lparr>sq_id = ack_id a, sq_seq = ack_seq a\<rparr> \<in> set owed" using a by (metis answers_run_def last_in_set)
    then show ?thesis using st(2) ow(2) a by (auto simp: state_ok_def answers_run_def)
  qed
  have all: "answered q (xs @ [Fx_Write (CM_Ack a) Written])" if a: "answers_run a owed" and q: "handled q xs" for a q
  proof -
    have "handled q (xs @ [Fx_Write (CM_Ack a) Written :: ('a, 'b) in_effect])" using q by (simp add: handled_snoc)
    moreover have "state_ok (xs @ [Fx_Write (CM_Ack a) Written]) (after_write Written (L_Open []))"
      using state_ok_written[OF st(2), of a "L_Open []" Written] a ow by simp
    ultimately show ?thesis by (auto simp: state_ok_def after_write_def)
  qed
  have none: "answered q xs" if "owed = []" "handled q xs" for q using st(2) ow that by (auto simp: state_ok_def)
  have f: "list_all (\<lambda>x. is_write x \<or> is_report x) ys" "farewell owed (filter is_write ys)"
    using l_run_farewell[OF st(3)[unfolded ow(1)]] by simp_all
  from f(2) show ?thesis unfolding farewell_def
  proof (elim disjE exE conjE)
    fix acks r w
    assume k: "filter is_write ys = acks @ [Fx_Write (CM_Reject r) w]" "rj_code r = REJECT_GOING_AWAY"
      "if owed = [] then acks = [] else \<exists>a. acks = [Fx_Write (CM_Ack a) Written] \<and> answers_run a owed"
    then have "length acks \<le> 1" "\<forall>q. handled q xs \<longrightarrow> answered q (xs @ acks)"
      "\<forall>x \<in> set acks. \<exists>a. x = Fx_Write (CM_Ack a) Written \<and> ack_status a = Accepted \<and> handled \<lparr>sq_id = ack_id a, sq_seq = ack_seq a\<rparr> xs"
      using names all none by (auto split: if_splits)
    with f(1) k(1,2) show ?thesis by blast
  next
    fix a w
    assume "filter is_write ys = [Fx_Write (CM_Ack a) w]" "w \<noteq> Written" "answers_run a owed"
    with f(1) names show ?thesis by blast
  qed
qed

theorem dropped_batch_never_marked_witness:
  "list_all (\<lambda>x. is_write x \<or> is_report x) quiet_farewell \<and>
   (\<exists>r w. filter is_write quiet_farewell = [Fx_Write (CM_Reject r) w] \<and> rj_code r = REJECT_GOING_AWAY)"
proof -
  have "filter is_write quiet_farewell = [Fx_Write (CM_Reject (quiet_going_away ''no consumer took the batch'')) Written]"
    by (simp add: quiet_farewell_def)
  then show ?thesis using dropped_batch_never_marked[OF quiet_drop_run] by auto
qed

text \<open>
  C38. A connection's frame loop ends: every turn that goes on has consumed at least a frame header
  of the stream, so one turn more than the headers the stream has room for always suffices, after
  which the loop has returned or waits on a peer that sends nothing under no timeout.
\<close>

theorem frame_loop_terminates:
  "fst (serve_frames (Suc (length (ic_input c) div HEADER_LEN)) E negotiated c) \<noteq> Go_On"
proof -
  have "length (ic_input c) < Suc (length (ic_input c) div HEADER_LEN) * HEADER_LEN"
    using dividend_less_times_div[of HEADER_LEN "length (ic_input c)"] by (simp add: HEADER_LEN_def)
  then have "fst (frame_loop (Suc (length (ic_input c) div HEADER_LEN)) E negotiated (c\<lparr>ic_pending := None\<rparr>)) \<noteq> Go_On"
    by (intro frame_loop_ends) simp
  then show ?thesis by (auto simp: serve_frames_def split: prod.splits turn.splits)
qed

end
