(* ===== verification/Native_Hop.thy ===== *)
theory Native_Hop
  imports Sender Listener
begin

text \<open>
  The two ends of the native hop together: the sink of \<open>Logit_Out\<close> writes frames, the listener of
  \<open>Logit_In\<close> reads them and answers, and the sink reads the answers.
\<close>

section \<open>The sink reading a listener's answers\<close>

definition unacked :: "seq_id \<Rightarrow> in_flight" where
  "unacked s = \<lparr>fl_seq = s, fl_acked = False\<rparr>"

text \<open>A store numbers the frames of one sender upwards.\<close>

definition increasing :: "seq_id list \<Rightarrow> bool" where
  "increasing fs \<longleftrightarrow> sorted_wrt (\<lambda>p q. sq_id p = sq_id q \<longrightarrow> sq_seq p < sq_seq q) fs"

fun drain :: "('d, 'h) out_env \<Rightarrow> nat \<Rightarrow> logit_output \<Rightarrow> (send_error + unit) list \<times> logit_output" where
  "drain E 0 lo = ([], lo)"
| "drain E (Suc n) lo =
     (let (r, lo) = read_ack E lo; (rs, lo) = drain E n lo in (r # rs, lo))"

definition sink_at :: "frame_env \<Rightarrow> control_message list \<Rightarrow> in_flight list \<Rightarrow> logit_output \<Rightarrow> bool" where
  "sink_at F ms q lo \<longleftrightarrow>
     (\<exists>c. lo_stream lo = Some c \<and> \<not> oc_broken c \<and> oc_in_flight c = q \<and>
        oc_input c = concat (map (control_frame F) ms))"

lemma drain_append:
  "drain E m lo = (rs, lo1) \<Longrightarrow> drain E n lo1 = (rs', lo2) \<Longrightarrow> drain E (m + n) lo = (rs @ rs', lo2)"
  by (induction m arbitrary: lo rs) (auto split: prod.splits)

lemma keep_conn_at:
  "\<not> oc_broken c \<Longrightarrow> lo_stream (keep_conn c lo) = Some c"
  by (simp add: keep_conn_def)

lemma read_ack_marked:
  assumes "sink_at F ms (e # q) lo" and "fl_acked e"
  shows "\<exists>lo'. read_ack E lo = (Inr (), lo') \<and> sink_at F ms q lo'"
proof -
  obtain c where c: "lo_stream lo = Some c" "\<not> oc_broken c" "oc_in_flight c = e # q"
      "oc_input c = concat (map (control_frame F) ms)"
    using assms(1) by (auto simp: sink_at_def)
  then show ?thesis using assms(2)
    by (auto simp: read_ack_def conn_nothing_in_flight_def pop_head_def Let_def sink_at_def keep_conn_at)
qed

lemma fl_acked_entry [simp]: "fl_acked (acked_entry e)"
  by (simp add: acked_entry_def)

lemma drain_marked:
  "sink_at F ms (map acked_entry es @ q) lo \<Longrightarrow>
   \<exists>lo'. drain E (length es) lo = (replicate (length es) (Inr ()), lo') \<and> sink_at F ms q lo'"
proof (induction es arbitrary: lo)
  case (Cons e es)
  obtain lo1 where lo1: "read_ack E lo = (Inr (), lo1)" "sink_at F ms (map acked_entry es @ q) lo1"
    using read_ack_marked[of F ms "acked_entry e" "map acked_entry es @ q" lo E] Cons.prems by auto
  from Cons.IH[OF this(2)] lo1(1) show ?case by auto
qed simp

text \<open>What the sink needs of its side: no timeout, and the frame codec's laws.\<close>

definition patient :: "('d, 'h) out_env \<Rightarrow> bool" where
  "patient E \<longleftrightarrow> frame_laws (oe_frame E) \<and> (\<forall>n. \<not> oe_times_out E n)"

lemma read_ack_reads:
  assumes "patient E" and "message_ok m" and "sink_at (oe_frame E) (m # ms) (unacked s # q) lo"
  shows "\<exists>c. oc_in_flight c = unacked s # q \<and> \<not> oc_broken c \<and>
    oc_input c = concat (map (control_frame (oe_frame E)) ms) \<and>
    read_ack E lo = settle_answer (Inr m) c (o_tick (lo\<lparr>lo_stream := None\<rparr>))"
proof -
  obtain c where c: "lo_stream lo = Some c" "\<not> oc_broken c" "oc_in_flight c = unacked s # q"
      "oc_input c = control_frame (oe_frame E) m @ concat (map (control_frame (oe_frame E)) ms)"
    using assms(3) by (auto simp: sink_at_def)
  have rd: "read_control (oe_frame E) (oc_input c) = Inr (m, concat (map (control_frame (oe_frame E)) ms))"
    unfolding c(4) using assms(1,2) by (intro read_control_written) (simp_all add: patient_def)
  have "read_ack E lo = settle_answer (Inr m) (c\<lparr>oc_input := concat (map (control_frame (oe_frame E)) ms)\<rparr>)
      (o_tick (lo\<lparr>lo_stream := None\<rparr>))"
    using assms(1) c rd by (simp add: read_ack_def conn_nothing_in_flight_def unacked_def patient_def Let_def)
  then show ?thesis using c by (intro exI[of _ "c\<lparr>oc_input := concat (map (control_frame (oe_frame E)) ms)\<rparr>"]) simp
qed

lemma within_run:
  assumes "increasing (owed @ rest)" and "owed \<noteq> []" and "\<forall>s \<in> set owed. sq_id s = sq_id (last owed)"
    and "last owed = \<lparr>sq_id = ack_id a, sq_seq = ack_seq a\<rparr>"
  shows "takeWhile (within a) (map unacked (owed @ rest)) = map unacked owed"
    and "dropWhile (within a) (map unacked (owed @ rest)) = map unacked rest"
proof -
  obtain xs where xs: "owed = xs @ [last owed]" using assms(2) by (metis append_butlast_last_id)
  have lt: "sq_seq s < sq_seq (last owed)" if "s \<in> set xs" for s
  proof -
    have "sq_id s = sq_id (last owed) \<longrightarrow> sq_seq s < sq_seq (last owed)"
      using assms(1) that unfolding increasing_def by (subst (asm) xs) (auto simp: sorted_wrt_append)
    moreover have "sq_id s = sq_id (last owed)" using assms(3) that xs by (metis Un_iff set_append)
    ultimately show ?thesis by simp
  qed
  have all: "within a e" if "e \<in> set (map unacked owed)" for e
  proof -
    obtain s where s: "s \<in> set owed" "e = unacked s" using \<open>e \<in> set _\<close> by auto
    have "s \<in> set xs \<or> s = last owed" using s(1) xs by (metis Un_iff empty_iff empty_set insert_iff list.set(2) set_append)
    then show ?thesis using lt assms(3,4) s by (force simp: within_def unacked_def)
  qed
  have stop: "rest = [] \<or> \<not> within a (hd (map unacked rest))"
  proof (cases rest)
    case (Cons r rs)
    have "sq_id (last owed) = sq_id r \<longrightarrow> sq_seq (last owed) < sq_seq r"
      using assms(1,2) Cons by (auto simp: increasing_def sorted_wrt_append)
    then show ?thesis using assms(4) Cons by (auto simp: within_def unacked_def)
  qed simp
  have "takeWhile (within a) (map unacked owed @ map unacked rest) = map unacked owed @ takeWhile (within a) (map unacked rest)"
    by (rule takeWhile_append2) (rule all)
  then show "takeWhile (within a) (map unacked (owed @ rest)) = map unacked owed"
    using stop by (cases rest) auto
  have "dropWhile (within a) (map unacked owed @ map unacked rest) = dropWhile (within a) (map unacked rest)"
    by (rule dropWhile_append2) (rule all)
  then show "dropWhile (within a) (map unacked (owed @ rest)) = map unacked rest"
    using stop by (cases rest) auto
qed

text \<open>An accepted \<open>Ack\<close> for a whole run commits exactly that run.\<close>

lemma drain_accepted:
  assumes "patient E" and "message_ok (CM_Ack a)" and "answers_run a owed"
    and "\<forall>s \<in> set owed. sq_id s = sq_id (last owed)" and "increasing (owed @ rest)"
    and "sink_at (oe_frame E) (CM_Ack a # ms) (map unacked (owed @ rest)) lo"
  shows "\<exists>lo'. drain E (length owed) lo = (replicate (length owed) (Inr ()), lo') \<and>
    sink_at (oe_frame E) ms (map unacked rest) lo'"
proof -
  have ne: "owed \<noteq> []" and last: "last owed = \<lparr>sq_id = ack_id a, sq_seq = ack_seq a\<rparr>"
    and acc: "ack_status a = Accepted"
    using assms(3) by (auto simp: answers_run_def)
  obtain s ss where owed: "owed = s # ss" using ne by (cases owed) auto
  note run = within_run[OF assms(5) ne assms(4) last]
  have "unacked (last owed) \<in> set (map unacked owed)" "names_entry a (unacked (last owed))"
    using ne last last_in_set[of owed] by (auto simp: names_entry_def unacked_def simp del: last_in_set)
  then have mark: "mark_acked (map unacked (owed @ rest)) a
      = Inr (map acked_entry (map unacked owed) @ map unacked rest)"
    unfolding mark_acked_eq_Inr run by blast
  have at: "sink_at (oe_frame E) (CM_Ack a # ms) (unacked s # map unacked (ss @ rest)) lo"
    using assms(6) owed by simp
  obtain c where c: "oc_in_flight c = unacked s # map unacked (ss @ rest)" "\<not> oc_broken c"
      "oc_input c = concat (map (control_frame (oe_frame E)) ms)"
      "read_ack E lo = settle_answer (Inr (CM_Ack a)) c (o_tick (lo\<lparr>lo_stream := None\<rparr>))"
    using read_ack_reads[OF assms(1,2) at] by blast
  let ?c = "c\<lparr>oc_in_flight := map acked_entry (map unacked owed) @ map unacked rest\<rparr>"
  have "apply_answer (Inr (CM_Ack a)) c = Inr (?c, None)"
    using acc c(1) mark owed by (simp add: apply_answer_def)
  then obtain lo1 where lo1: "read_ack E lo = (Inr (), lo1)"
      "sink_at (oe_frame E) ms (map acked_entry (map unacked ss) @ map unacked rest) lo1"
    using c owed by (simp add: settle_answer_def pop_head_def Let_def sink_at_def keep_conn_at)
  from drain_marked[OF this(2), of E] lo1(1) owed show ?thesis by auto
qed

text \<open>A rejected \<open>Ack\<close> naming the head settles the head alone.\<close>

lemma drain_rejected:
  assumes "patient E" and "message_ok (CM_Ack a)" and "ack_status a = Rejected reason m"
    and "s = \<lparr>sq_id = ack_id a, sq_seq = ack_seq a\<rparr>"
    and "sink_at (oe_frame E) (CM_Ack a # ms) (map unacked (s # rest)) lo"
  shows "\<exists>lo'. drain E 1 lo = ([Inl (rejected_head reason)], lo') \<and>
    sink_at (oe_frame E) ms (map unacked rest) lo'"
proof -
  have at: "sink_at (oe_frame E) (CM_Ack a # ms) (unacked s # map unacked rest) lo" using assms(5) by simp
  obtain c where c: "oc_in_flight c = unacked s # map unacked rest" "\<not> oc_broken c"
      "oc_input c = concat (map (control_frame (oe_frame E)) ms)"
      "read_ack E lo = settle_answer (Inr (CM_Ack a)) c (o_tick (lo\<lparr>lo_stream := None\<rparr>))"
    using read_ack_reads[OF assms(1,2) at] by blast
  have "apply_answer (Inr (CM_Ack a)) c = Inr (c\<lparr>oc_in_flight := map unacked rest\<rparr>, Some (rejected_head reason))"
    using assms(3,4) c(1) by (simp add: apply_answer_def settle_rejected_def unacked_def)
  then show ?thesis using c by (simp add: settle_answer_def sink_at_def keep_conn_at)
qed

section \<open>A whole connection's answers\<close>

text \<open>
  The frames a log shows arriving, in order: each is looked up in the table, or refused by raising
  its mark. The flag says that a taken frame's own raise is still to come.
\<close>

fun arrivals :: "bool \<Rightarrow> ('d, 'h) in_effect list \<Rightarrow> seq_id list" where
  "arrivals took [] = []"
| "arrivals took (x # xs) =
     (case x of
        Fx_Is_Resend s _ \<Rightarrow> s # arrivals False xs
      | Fx_Relayed _ _ _ _ t \<Rightarrow> arrivals t xs
      | Fx_Raise s \<Rightarrow> if took then arrivals False xs else s # arrivals False xs
      | _ \<Rightarrow> arrivals took xs)"

fun replies :: "('d, 'h) in_effect list \<Rightarrow> control_message list" where
  "replies [] = []"
| "replies (x # xs) = (case x of Fx_Write m Written \<Rightarrow> m # replies xs | _ \<Rightarrow> replies xs)"

text \<open>What the listener's written \<open>Ack\<close>s say of its frames, in order; a reason refuses one.\<close>

definition verdict_of :: "seq_id list \<Rightarrow> ack \<Rightarrow> (seq_id \<times> u16 option) list" where
  "verdict_of owed a =
     (case ack_status a of
        Accepted \<Rightarrow> map (\<lambda>s. (s, None)) owed
      | Rejected reason _ \<Rightarrow> [(\<lparr>sq_id = ack_id a, sq_seq = ack_seq a\<rparr>, Some reason)])"

fun verdicts :: "lstate \<Rightarrow> ('d, 'h) in_effect list \<Rightarrow> (seq_id \<times> u16 option) list" where
  "verdicts st [] = []"
| "verdicts st (x # xs) =
     (case x of Fx_Write (CM_Ack a) Written \<Rightarrow> verdict_of (unanswered st) a | _ \<Rightarrow> []) @
     (case l_next st x of Some st \<Rightarrow> verdicts st xs | None \<Rightarrow> [])"

definition verdict_result :: "seq_id \<times> u16 option \<Rightarrow> send_error + unit" where
  "verdict_result v = (case snd v of None \<Rightarrow> Inr () | Some reason \<Rightarrow> Inl (rejected_head reason))"

fun took_one :: "lstate \<Rightarrow> bool" where
  "took_one (L_Took _ _) = True"
| "took_one _ = False"

text \<open>The frames that arrived and still wait for their answer.\<close>

fun waiting :: "lstate \<Rightarrow> seq_id list" where
  "waiting (L_Open owed) = owed"
| "waiting (L_New owed s) = owed @ [s]"
| "waiting (L_Took owed s) = owed @ [s]"
| "waiting (L_Dropped owed) = owed"
| "waiting (L_Refusing owed s) = owed @ [s]"
| "waiting L_Over = []"

fun run_same :: "lstate \<Rightarrow> bool" where
  "run_same (L_New owed s) = joins owed s"
| "run_same (L_Took owed s) = joins owed s"
| "run_same st = (\<forall>s \<in> set (unanswered st). sq_id s = sq_id (last (unanswered st)))"

lemma over_quiet:
  "l_run L_Over xs \<noteq> None \<Longrightarrow> arrivals False xs = [] \<and> replies xs = [] \<and> verdicts L_Over xs = []"
proof (induction xs)
  case (Cons x xs)
  then show ?case by (cases x) auto
qed simp

lemma dropped_no_arrivals: "l_run (L_Dropped owed) xs \<noteq> None \<Longrightarrow> arrivals False xs = []"
proof (induction xs arbitrary: owed)
  case (Cons x xs)
  show ?case
  proof (cases x)
    case (Fx_Write m w)
    then show ?thesis using Cons over_quiet[of xs]
      by (auto simp: l_write_dropped_def after_write_def split: control_message.splits if_splits)
  qed (use Cons in auto)
qed simp

lemma joins_same:
  "joins owed s \<Longrightarrow> \<forall>q \<in> set (owed @ [s]). sq_id q = sq_id (last (owed @ [s]))"
  by (auto simp: joins_def list_all_iff)

text \<open>The sink stands where the listener's unanswered frames begin.\<close>

definition in_step :: "('a, 'b) out_env \<Rightarrow> lstate \<Rightarrow> ('d, 'h) in_effect list \<Rightarrow> seq_id list \<Rightarrow> logit_output \<Rightarrow> bool" where
  "in_step E st xs rest lo \<longleftrightarrow>
     l_run st xs \<noteq> None \<and> run_same st \<and> increasing (waiting st @ rest) \<and>
     prefix (arrivals (took_one st) xs) rest \<and> list_all message_ok (replies xs) \<and>
     sink_at (oe_frame E) (replies xs) (map unacked (waiting st @ rest)) lo"

definition drained :: "('a, 'b) out_env \<Rightarrow> lstate \<Rightarrow> ('d, 'h) in_effect list \<Rightarrow> seq_id list \<Rightarrow> logit_output \<Rightarrow> bool" where
  "drained E st xs rest lo \<longleftrightarrow>
     (\<exists>lo' ms rest'. drain E (length (verdicts st xs)) lo = (map verdict_result (verdicts st xs), lo') \<and>
        map fst (verdicts st xs) @ rest' = waiting st @ rest \<and>
        sink_at (oe_frame E) ms (map unacked rest') lo' \<and> list_all (\<lambda>m. \<exists>r. m = CM_Reject r) ms)"

lemma drained_skip:
  assumes "drained E st' xs rest' lo" and "l_next st x = Some st'" and "waiting st @ rest = waiting st' @ rest'"
    and "\<And>a. x \<noteq> Fx_Write (CM_Ack a) Written"
  shows "drained E st (x # xs) rest lo"
proof -
  have "verdicts st (x # xs) = verdicts st' xs"
    using assms(2,4) by (auto split: in_effect.splits control_message.splits write_outcome.splits)
  then show ?thesis using assms(1,3) by (simp add: drained_def)
qed

lemma drained_answer:
  fixes xs :: "('d, 'h) in_effect list"
  assumes "drain E (length vs) lo = (map verdict_result vs, lo1)"
    and "verdict_of (unanswered st) a = vs" and "l_next st (Fx_Write (CM_Ack a) Written :: ('d, 'h) in_effect) = Some st'"
    and "map fst vs @ waiting st' = waiting st" and "drained E st' xs rest lo1"
  shows "drained E st (Fx_Write (CM_Ack a) Written # xs) rest lo"
proof -
  have v: "verdicts st (Fx_Write (CM_Ack a) Written # xs) = vs @ verdicts st' xs"
    using assms(2,3) by simp
  obtain lo' ms rest' where "drain E (length (verdicts st' xs)) lo1 = (map verdict_result (verdicts st' xs), lo')"
      "map fst (verdicts st' xs) @ rest' = waiting st' @ rest"
      "sink_at (oe_frame E) ms (map unacked rest') lo'" "list_all (\<lambda>m. \<exists>r. m = CM_Reject r) ms"
    using assms(5) by (auto simp: drained_def)
  moreover from drain_append[OF assms(1) this(1)]
  have "drain E (length (vs @ verdicts st' xs)) lo = (map verdict_result (vs @ verdicts st' xs), lo')" by simp
  moreover have "waiting st @ rest = map fst vs @ waiting st' @ rest" using assms(4) by (metis append_assoc)
  ultimately show ?thesis unfolding drained_def v
    by (intro exI[of _ lo'] exI[of _ ms] exI[of _ rest']) simp
qed

text \<open>A write: an answer the sink reads at once, or the end of the connection.\<close>

lemma write_over:
  assumes "in_step E st (Fx_Write m w # xs) rest lo" and "l_write st m w = Some L_Over"
    and "\<And>a. \<not> (m = CM_Ack a \<and> w = Written)"
  shows "drained E st (Fx_Write m w # xs) rest lo"
proof -
  have quiet: "replies xs = []" "verdicts L_Over xs = []"
    using assms(1,2) over_quiet[of xs] by (auto simp: in_step_def)
  then have v: "verdicts st (Fx_Write m w # xs) = []"
    using assms(2,3) by (auto split: control_message.splits write_outcome.splits)
  have "list_all (\<lambda>m. \<exists>r. m = CM_Reject r) (replies (Fx_Write m w # xs))"
    using quiet assms(2,3)
    by (cases st; cases w) (auto simp: l_write_open_def l_write_dropped_def l_write_refusing_def
        split: control_message.splits)
  then show ?thesis unfolding drained_def v using assms(1) by (auto simp: in_step_def)
qed

lemma write_drained:
  fixes xs :: "('d, 'h) in_effect list"
  assumes "patient E"
    and IH: "\<And>st rest lo. in_step E st xs rest lo \<Longrightarrow> drained E st xs rest lo"
    and step: "in_step E st (Fx_Write m w # xs) rest lo"
  shows "drained E st (Fx_Write m w # xs) rest lo"
proof (cases "\<exists>a. m = CM_Ack a \<and> w = Written")
  case False
  obtain st' where st': "l_write st m w = Some st'" using step by (auto simp: in_step_def bind_eq_Some_conv)
  have "st' = L_Over"
    using st' False
    by (cases st; cases m) (auto simp: l_write_open_def l_write_dropped_def l_write_refusing_def after_write_def
        split: if_splits)
  then show ?thesis using write_over[OF step] st' False by blast
next
  case True
  then obtain a where m: "m = CM_Ack a" "w = Written" by blast
  obtain st' where st': "l_write st m w = Some st'" "l_run st' xs \<noteq> None"
    using step by (auto simp: in_step_def bind_eq_Some_conv)
  have ok: "message_ok (CM_Ack a)" and inc: "increasing (waiting st @ rest)"
    and at: "sink_at (oe_frame E) (CM_Ack a # replies xs) (map unacked (waiting st @ rest)) lo"
    and oks: "list_all message_ok (replies xs)" and arr: "prefix (arrivals (took_one st) xs) rest"
    and same: "run_same st"
    using step m by (simp_all add: in_step_def)
  show ?thesis
  proof (cases "answers_run a (unanswered st)")
    case True
    let ?o = "unanswered st"
    have st'_cases: "\<exists>K. owes K \<and> st = K ?o \<and> st' = K []"
      using st' m True
      by (cases st) (auto simp: l_write_open_def l_write_dropped_def l_write_refusing_def after_write_def
          owes_def)
    then have w: "waiting st = ?o @ waiting st'" "took_one st = took_one st'" "run_same st'"
        "\<forall>s \<in> set ?o. sq_id s = sq_id (last ?o)"
      using same by (cases st; auto simp: owes_def)+
    obtain lo1 where lo1: "drain E (length ?o) lo = (replicate (length ?o) (Inr ()), lo1)"
        "sink_at (oe_frame E) (replies xs) (map unacked (waiting st' @ rest)) lo1"
      using drain_accepted[OF assms(1) ok True w(4)] inc at w(1) by fastforce
    have acc: "ack_status a = Accepted" using True by (simp add: answers_run_def)
    have "in_step E st' xs rest lo1"
      using st' w oks arr lo1(2) inc by (auto simp: in_step_def increasing_def sorted_wrt_append)
    from IH[OF this] lo1(1) show ?thesis unfolding m
      by (intro drained_answer[where vs = "map (\<lambda>s. (s, None)) ?o"])
        (use acc st' m w in \<open>auto simp: verdict_of_def verdict_result_def comp_def map_replicate_const\<close>)
  next
    case False
    then obtain s where s: "st = L_Refusing [] s" "ack_status a \<noteq> Accepted" "s = \<lparr>sq_id = ack_id a, sq_seq = ack_seq a\<rparr>"
        "st' = L_Open []"
      using st' m
      by (cases st) (auto simp: l_write_open_def l_write_dropped_def l_write_refusing_def after_write_def
          split: if_splits)
    obtain reason t where r: "ack_status a = Rejected reason t" using s(2) by (cases "ack_status a") auto
    obtain lo1 where lo1: "drain E 1 lo = ([Inl (rejected_head reason)], lo1)"
        "sink_at (oe_frame E) (replies xs) (map unacked rest) lo1"
      using drain_rejected[OF assms(1) ok r s(3), of "replies xs" rest lo] at s(1) by auto
    have "in_step E st' xs rest lo1"
      using st' s oks arr lo1(2) inc by (auto simp: in_step_def increasing_def)
    from IH[OF this] lo1(1) show ?thesis unfolding m
      by (intro drained_answer[where vs = "[(s, Some reason)]"])
        (use r s st' m in \<open>auto simp: verdict_of_def verdict_result_def\<close>)
  qed
qed

lemma in_step_drained:
  fixes xs :: "('d, 'h) in_effect list"
  assumes "patient E" and "in_step E st xs rest lo"
  shows "drained E st xs rest lo"
  using assms(2)
proof (induction xs arbitrary: st rest lo)
  case Nil
  then show ?case by (auto simp: drained_def in_step_def)
next
  case (Cons x xs)
  have run: "l_run st (x # xs) \<noteq> None" and same: "run_same st" and inc: "increasing (waiting st @ rest)"
    and arr: "prefix (arrivals (took_one st) (x # xs)) rest" and oks: "list_all message_ok (replies (x # xs))"
    and at: "sink_at (oe_frame E) (replies (x # xs)) (map unacked (waiting st @ rest)) lo"
    using Cons.prems by (simp_all add: in_step_def)
  obtain st' where st': "l_next st x = Some st'" "l_run st' xs \<noteq> None" using run by (auto simp: bind_eq_Some_conv)
  show ?case
  proof (cases x)
    case (Fx_Count n v t)
    then show ?thesis using st' same inc arr oks at
      by (intro drained_skip[OF Cons.IH _ _, OF _ st'(1)]) (auto simp: in_step_def)
  next
    case (Fx_Warn k)
    then show ?thesis using st' same inc arr oks at
      by (intro drained_skip[OF Cons.IH _ _, OF _ st'(1)]) (auto simp: in_step_def)
  next
    case (Fx_Is_Resend s r)
    then obtain owed where o: "st = L_Open owed" "joins owed s"
        "st' = (if r then L_Open (owed @ [s]) else L_New owed s)"
      using st' by (cases st) (auto split: if_splits)
    obtain rest1 where rest: "rest = s # rest1" "prefix (arrivals False xs) rest1"
      using arr Fx_Is_Resend by (cases rest) (auto simp: prefix_def)
    have "in_step E st' xs rest1 lo"
      using st' o rest inc oks at Fx_Is_Resend joins_same[OF o(2)] by (auto simp: in_step_def)
    from drained_skip[OF Cons.IH[OF this] st'(1)] show ?thesis using o rest Fx_Is_Resend by auto
  next
    case (Fx_Relayed s b p t took)
    then obtain owed where o: "st = L_New owed s" "st' = (if took then L_Took owed s else L_Dropped owed)"
      using st' by (cases st) (auto split: if_splits)
    let ?rest = "if took then rest else s # rest"
    have "prefix (arrivals took xs) ?rest"
      using arr Fx_Relayed st'(2) o dropped_no_arrivals[of owed xs] by auto
    moreover have "\<forall>q \<in> set owed. sq_id q = sq_id (last owed)"
      using same o by (cases "owed = []") (auto simp: joins_def list_all_iff)
    ultimately have "in_step E st' xs ?rest lo"
      using st' o inc oks at Fx_Relayed same by (cases took) (auto simp: in_step_def)
    from drained_skip[OF Cons.IH[OF this] st'(1)] show ?thesis using o Fx_Relayed by auto
  next
    case (Fx_Raise s)
    then consider owed where "st = L_Took owed s" "st' = L_Open (owed @ [s])"
      | owed where "st = L_Open owed" "st' = L_Refusing owed s"
      using st' by (cases st) (auto split: if_splits)
    then show ?thesis
    proof cases
      case (1 owed)
      then have "in_step E st' xs rest lo"
        using st' inc arr oks at Fx_Raise same joins_same[of owed s] by (auto simp: in_step_def)
      from drained_skip[OF Cons.IH[OF this] st'(1)] show ?thesis using 1 Fx_Raise by auto
    next
      case (2 owed)
      obtain rest1 where rest: "rest = s # rest1" "prefix (arrivals False xs) rest1"
        using arr Fx_Raise 2 by (cases rest) (auto simp: prefix_def)
      have "in_step E st' xs rest1 lo"
        using st' 2 rest inc oks at Fx_Raise same by (auto simp: in_step_def)
      from drained_skip[OF Cons.IH[OF this] st'(1)] show ?thesis using 2 rest Fx_Raise by auto
    qed
  next
    case (Fx_Write m w)
    show ?thesis using Cons.prems unfolding Fx_Write by (rule write_drained[OF assms(1), rotated]) (rule Cons.IH)
  qed
qed

text \<open>A frame the listener's answers accept was handled.\<close>

lemma handled_append: "handled s xs \<Longrightarrow> handled s (xs @ ys)"
  unfolding handled_def set_append by (elim bexE) (rule bexI, assumption, simp)

lemma accepted_verdict_handled:
  assumes "l_run (L_Open []) pre = Some st" and "l_run st xs \<noteq> None" and "(s, None) \<in> set (verdicts st xs)"
  shows "handled s (pre @ xs)"
  using assms
proof (induction xs arbitrary: pre st)
  case (Cons x xs)
  obtain st' where st': "l_next st x = Some st'" "l_run st' xs \<noteq> None" using Cons.prems(2) by (auto simp: bind_eq_Some_conv)
  have pre': "l_run (L_Open []) (pre @ [x]) = Some st'" using Cons.prems(1) st'(1) by (simp add: l_run_append)
  have here: "s \<in> set (unanswered st)" if "(s, None) \<in> set (verdict_of (unanswered st) a)" for a
    using that by (auto simp: verdict_of_def split: ack_status.splits)
  show ?case
  proof (cases "s \<in> set (unanswered st)")
    case True
    then have "handled s pre" using l_run_ok[OF Cons.prems(1)] by (simp add: state_ok_def)
    then show ?thesis by (rule handled_append)
  next
    case False
    then have "(s, None) \<in> set (verdicts st' xs)" using Cons.prems(3) st'(1) here
      by (auto split: in_effect.splits control_message.splits write_outcome.splits)
    from Cons.IH[OF pre' st'(2) this] show ?thesis by simp
  qed
qed simp

section \<open>What the sink relies on\<close>

text \<open>
  The listener as the sink sees it: \<open>serves fs xs\<close> when a connection that was sent the frames \<open>fs\<close>
  has the effects \<open>xs\<close>. It keeps the acknowledgment discipline, takes the frames in the order they
  were sent, and writes messages the sink can read.
\<close>

locale answering_listener =
  fixes serves :: "seq_id list \<Rightarrow> ('d, 'h) in_effect list \<Rightarrow> bool"
  assumes keeps_discipline: "serves fs xs \<Longrightarrow> l_run (L_Open []) xs \<noteq> None"
    and in_order: "serves fs xs \<Longrightarrow> prefix (arrivals False xs) fs"
    and readable: "serves fs xs \<Longrightarrow> list_all message_ok (replies xs)"
begin

lemma answers_settle:
  assumes "patient E" and "serves fs xs" and "increasing fs"
    and "sink_at (oe_frame E) (replies xs) (map unacked fs) lo"
  shows "drained E (L_Open []) xs fs lo"
  using assms keeps_discipline in_order readable
  by (intro in_step_drained) (auto simp: in_step_def)

lemma accepted_handled:
  "serves fs xs \<Longrightarrow> (s, None) \<in> set (verdicts (L_Open []) xs) \<Longrightarrow> handled s xs"
  using accepted_verdict_handled[of "[]" "L_Open []" xs s] keeps_discipline by simp

end

end
