(* ===== verification/Hop_Frames.thy ===== *)
theory Hop_Frames
  imports Listener
begin

text \<open>
  What a listener's connection does with a stream of well-formed hop frames
  (\<open>crates/logit-inputs/src/logit.rs\<close>): it reads them whole and in order however they arrive, and
  each turn's effects are those of one frame.
\<close>

section \<open>Effects that handle no frame\<close>

definition seq_ok :: "seq_id \<Rightarrow> bool" where
  "seq_ok s \<longleftrightarrow> length (sq_id s) = SENDER_ID_BYTES \<and> sq_seq s \<noteq> 0"

fun quiet_fx :: "('d, 'h) in_effect \<Rightarrow> bool" where
  "quiet_fx (Fx_Count _ _ _) = True"
| "quiet_fx (Fx_Warn _) = True"
| "quiet_fx (Fx_Write m _) = message_ok m"
| "quiet_fx _ = False"

definition pending_ok :: "('d, 'h) in_conn \<Rightarrow> bool" where
  "pending_ok c \<longleftrightarrow> (\<forall>run. ic_pending c = Some run \<longrightarrow> seq_ok (pa_seq run))"

definition adds_quiet :: "('d, 'h) in_conn \<Rightarrow> ('d, 'h) in_conn \<Rightarrow> bool" where
  "adds_quiet c c' \<longleftrightarrow> (\<exists>ys. ic_log c' = ic_log c @ ys \<and> list_all quiet_fx ys) \<and> (pending_ok c \<longrightarrow> pending_ok c')"

lemma adds_quiet_refl [simp]: "adds_quiet c c"
  by (simp add: adds_quiet_def)

lemma adds_quiet_trans [trans]: "adds_quiet a b \<Longrightarrow> adds_quiet b c \<Longrightarrow> adds_quiet a c"
  unfolding adds_quiet_def by (metis append_assoc list_all_append)

lemma adds_quiet_emit: "quiet_fx x \<Longrightarrow> adds_quiet c (emit x c)"
  by (auto simp: adds_quiet_def emit_def pending_ok_def)

lemma adds_quiet_step: "adds_quiet c d \<Longrightarrow> quiet_fx x \<Longrightarrow> adds_quiet c (emit x d)"
  by (rule adds_quiet_trans[OF _ adds_quiet_emit])

lemma adds_quiet_tick [simp]: "adds_quiet c (ic_tick c)"
  by (auto simp: adds_quiet_def pending_ok_def)

lemma adds_quiet_update: "ic_log c' = ic_log c \<Longrightarrow> (pending_ok c \<Longrightarrow> pending_ok c') \<Longrightarrow> adds_quiet c c'"
  by (simp add: adds_quiet_def)

lemma write_control_quiet:
  assumes "message_ok m" and "write_control E m c = (r, c')" shows "adds_quiet c c'"
proof (cases rule: write_control_cases[of E m c])
  case (1 e)
  then show ?thesis using assms(2) by simp
next
  case (2 w)
  then have "c' = emit (Fx_Write m w) (ic_tick c)" using assms(2) by simp
  then show ?thesis using assms(1) by (simp add: adds_quiet_step)
qed

lemma write_ack_quiet:
  assumes "ack_ok a" and "write_ack E a c = (r, c')" shows "adds_quiet c c'"
proof -
  obtain x c1 where x: "write_control E (CM_Ack a) c = (x, c1)" by (cases "write_control E (CM_Ack a) c")
  have "adds_quiet c c1" by (rule write_control_quiet[OF _ x]) (use assms(1) in simp)
  moreover have "adds_quiet c1 c'" using assms(2) x
    by (auto simp: write_ack_def split: sum.splits if_splits intro: adds_quiet_emit)
  ultimately show ?thesis by (rule adds_quiet_trans)
qed

lemma ack_ok_accepted: "seq_ok s \<Longrightarrow> ack_ok (ack_accepted (sq_id s) (sq_seq s))"
  by (simp add: ack_ok_def ack_accepted_def seq_ok_def)

lemma flush_ack_quiet:
  assumes "pending_ok c" and "flush_ack E c = (r, c')" shows "adds_quiet c c'"
proof (cases "ic_pending c")
  case None
  then show ?thesis using assms by (simp add: flush_ack_def)
next
  case (Some run)
  have "adds_quiet c (c\<lparr>ic_pending := None\<rparr>)" by (rule adds_quiet_update) (simp_all add: pending_ok_def)
  also have "adds_quiet (c\<lparr>ic_pending := None\<rparr>) c'"
    by (rule write_ack_quiet[OF ack_ok_accepted]) (use assms Some in \<open>auto simp: flush_ack_def pending_ok_def\<close>)
  finally show ?thesis .
qed

lemma flush_then_reject_quiet:
  assumes "pending_ok c" and "text_ok (rj_message rj)" shows "adds_quiet c (flush_then_reject E rj c)"
proof -
  obtain x c1 where x: "flush_ack E c = (x, c1)" by (cases "flush_ack E c")
  obtain y c2 where y: "write_control E (CM_Reject rj) c1 = (y, c2)" by (cases "write_control E (CM_Reject rj) c1")
  have "adds_quiet c1 c2" by (rule write_control_quiet[OF _ y]) (use assms(2) in simp)
  then have "adds_quiet c1 (snd (write_reject E rj c1))"
    using y by (simp add: write_reject_def adds_quiet_step)
  then show ?thesis using flush_ack_quiet[OF assms(1) x] x
    by (auto simp: flush_then_reject_def split: sum.splits intro: adds_quiet_trans)
qed

lemma ascii_text_ok:
  "text_ok (str_bytes ''listener shutting down'')" "text_ok (str_bytes ''idle'')"
  "text_ok (str_bytes ''no consumer took the batch'')"
  "text_ok (str_bytes ''frame declares bytes over the bound'')"
  unfolding text_ok_def by code_simp+

lemma farewell_quiet:
  assumes "pending_ok c"
  shows "adds_quiet c (going_away E ''listener shutting down'' c)"
    and "adds_quiet c (going_away E ''no consumer took the batch'' c)"
    and "adds_quiet c (close_idle E c)"
    and "adds_quiet c (reject_too_large E ''frame declares bytes over the bound'' c)"
proof -
  note ft = flush_then_reject_quiet[OF assms]
  show "adds_quiet c (going_away E ''listener shutting down'' c)"
    "adds_quiet c (going_away E ''no consumer took the batch'' c)"
    "adds_quiet c (reject_too_large E ''frame declares bytes over the bound'' c)"
    by (simp_all add: going_away_def reject_too_large_def ft ascii_text_ok)
  have "adds_quiet c (going_away E ''idle'' c)" by (simp add: going_away_def ft ascii_text_ok)
  then show "adds_quiet c (close_idle E c)"
    by (simp add: close_idle_def adds_quiet_step)
qed

section \<open>Reads are quiet\<close>

lemma stream_read_quiet: "stream_read r n c = (read, c') \<Longrightarrow> adds_quiet c c'"
  by (auto simp: stream_read_def adds_quiet_def pending_ok_def split: read_outcome.splits)

lemma read_ready_or_ack_quiet:
  assumes "pending_ok c" and "read_ready_or_ack E n c = (r, c')" shows "adds_quiet c c'"
proof -
  have "pending_ok (ic_tick c)" using assms(1) by (simp add: pending_ok_def)
  then show ?thesis using assms(2)
    by (auto simp: read_ready_or_ack_def split: if_splits option.splits prod.splits sum.splits
        dest!: stream_read_quiet flush_ack_quiet intro: adds_quiet_trans[OF adds_quiet_tick])
qed

lemma pending_ok_quiet: "adds_quiet c c' \<Longrightarrow> pending_ok c \<Longrightarrow> pending_ok c'"
  by (simp add: adds_quiet_def)

lemma read_ready_header_quiet:
  "pending_ok c \<Longrightarrow> read_ready_header E buf c = (r, c') \<Longrightarrow> adds_quiet c c'"
proof (induction E buf c arbitrary: r c' rule: read_ready_header.induct)
  case (1 E buf c)
  obtain x c1 where x: "read_ready_or_ack E (HEADER_LEN - length buf) c = (x, c1)"
    by (cases "read_ready_or_ack E (HEADER_LEN - length buf) c")
  note q = read_ready_or_ack_quiet[OF 1(2) x]
  show ?case
  proof (cases "length buf < HEADER_LEN \<and> (\<exists>read bs. x = Inr (Some read) \<and> header_progress read (length buf) = Inr (Some bs))")
    case True
    then obtain read bs where rb: "length buf < HEADER_LEN" "x = Inr (Some read)"
        "header_progress read (length buf) = Inr (Some bs)" by blast
    then have "read_ready_header E (buf @ bs) c1 = (r, c')"
      using 1(3) x by (simp add: read_ready_header.simps[of E buf])
    from 1(1)[OF rb(1) x[symmetric] rb(2) refl rb(3) refl pending_ok_quiet[OF q 1(2)] this] q
    show ?thesis by (rule adds_quiet_trans[rotated])
  next
    case False
    then show ?thesis using 1(3) x q
      by (auto simp: read_ready_header.simps[of E buf] split: sum.splits option.splits if_splits)
  qed
qed

lemma read_header_rest_quiet:
  "read_header_rest E bounds outer buf c = (r, c') \<Longrightarrow> adds_quiet c c'"
proof (induction E bounds outer buf c arbitrary: r c' rule: read_header_rest.induct)
  case (1 E bounds outer buf c)
  show ?case
  proof (cases "length buf < HEADER_LEN \<and> \<not> outer (ic_clock c) \<and> ie_wait E (ic_clock c) \<noteq> None")
    case True
    then obtain r0 where r0: "length buf < HEADER_LEN" "\<not> outer (ic_clock c)" "ie_wait E (ic_clock c) = Some r0"
      by auto
    obtain read c1 where rd: "stream_read r0 (HEADER_LEN - length buf) (ic_tick c) = (read, c1)"
      by (cases "stream_read r0 (HEADER_LEN - length buf) (ic_tick c)")
    have q: "adds_quiet c c1" by (rule adds_quiet_trans[OF adds_quiet_tick stream_read_quiet[OF rd]])
    then show ?thesis using 1(1)[OF r0(1,2,3) rd[symmetric]] 1(2) r0 rd
      by (auto simp: read_header_rest.simps[of E _ _ buf] split: sum.splits option.splits
          intro: adds_quiet_trans)
  next
    case False
    then show ?thesis using 1(2) by (auto simp: read_header_rest.simps[of E _ _ buf] split: if_splits option.splits)
  qed
qed

lemma next_header_quiet:
  assumes "pending_ok c" and "next_header E c = (r, c')" shows "adds_quiet c c'"
proof -
  obtain x c1 where x: "read_ready_header E [] c = (x, c1)" by (cases "read_ready_header E [] c")
  note q = read_ready_header_quiet[OF assms(1) x]
  show ?thesis using assms(2) x q
    by (auto simp: next_header_def split: sum.splits option.splits if_splits
        dest!: read_header_rest_quiet intro: adds_quiet_trans)
qed

lemma read_body_quiet:
  assumes "pending_ok c" and "read_body E stall owed n c = (r, c')" shows "adds_quiet c c'"
proof -
  obtain x c1 where x: "(if owed then read_ready_or_ack E n c else (Inr None, c)) = (x, c1)"
    by (cases "if owed then read_ready_or_ack E n c else (Inr None, c)")
  have "adds_quiet c c1" using x read_ready_or_ack_quiet[OF assms(1)] by (auto split: if_splits)
  then show ?thesis using assms(2) x
    by (auto simp: read_body_def split: sum.splits option.splits prod.splits
        dest!: stream_read_quiet intro: adds_quiet_trans adds_quiet_trans[OF adds_quiet_tick])
qed

lemma fill_body_quiet:
  "pending_ok c \<Longrightarrow> fill_body E stall owed n body c = (r, c') \<Longrightarrow> adds_quiet c c'"
proof (induction E stall owed n body c arbitrary: r c' rule: fill_body.induct)
  case (1 E stall owed n body c)
  obtain y c1 where y: "read_body E stall owed (n - length body) c = (y, c1)"
    by (cases "read_body E stall owed (n - length body) c")
  note q = read_body_quiet[OF 1(2) y]
  show ?case
  proof (cases "length body < n \<and> (\<exists>bs. y = Done (Inr (Inr bs)) \<and> bs \<noteq> [])")
    case True
    then obtain bs where bs: "length body < n" "y = Done (Inr (Inr bs))" "bs \<noteq> []" by blast
    then have "fill_body E stall owed n (body @ bs) c1 = (r, c')"
      using 1(3) y by (simp add: fill_body.simps[of E _ _ _ body])
    from 1(1)[OF bs(1) y[symmetric] bs(2) refl refl bs(3) pending_ok_quiet[OF q 1(2)] this] q
    show ?thesis by (rule adds_quiet_trans[rotated])
  next
    case False
    then show ?thesis using 1(3) y q
      by (auto simp: fill_body.simps[of E _ _ _ body] split: waited.splits sum.splits if_splits)
  qed
qed

lemma read_frame_body_quiet:
  assumes "pending_ok c" and "read_frame_body E buf m stall owed c = (r, c')" shows "adds_quiet c c'"
  using assms(2) fill_body_quiet[OF assms(1), of E stall owed]
  by (auto simp: read_frame_body_def Let_def split: sum.splits prod.splits waited.splits if_splits codec_error.splits)

section \<open>The effects of one frame\<close>

text \<open>
  A payload's frame that does not decode is refused by name, any other decoded against the interner of the moment and then
  found a resend, dropped, or taken and marked.
\<close>

inductive frame_core ::
    "('d, 'h) in_env \<Rightarrow> bytes \<Rightarrow> seq_id \<Rightarrow> ('d, 'h) in_effect list \<Rightarrow> bool" for E payload s where
  refused: "read_hop_prefix payload = Inr (s, body) \<Longrightarrow>
    decode_hop_body (ie_blobs E) (ie_layout E) body (for_frame_cap (ie_max_frame_bytes E)) (ie_interner E k) = Inl e \<Longrightarrow>
    frame_core E payload s [Fx_Raise s]"
| resent: "read_hop_prefix payload = Inr (s, body) \<Longrightarrow> frame_core E payload s [Fx_Is_Resend s True]"
| offered: "read_hop_prefix payload = Inr (s, body) \<Longrightarrow>
    decode_hop_body (ie_blobs E) (ie_layout E) body (for_frame_cap (ie_max_frame_bytes E)) (ie_interner E k)
      = Inr ((batch, provenance, trace), b', t') \<Longrightarrow>
    frame_core E payload s
      ([Fx_Is_Resend s False, Fx_Relayed s batch provenance trace took] @ (if took then [Fx_Raise s] else []))"

inductive_cases frame_coreE: "frame_core E payload s core"

definition adds_frame ::
    "('d, 'h) in_env \<Rightarrow> bytes \<Rightarrow> seq_id \<Rightarrow> ('d, 'h) in_conn \<Rightarrow> ('d, 'h) in_conn \<Rightarrow> bool" where
  "adds_frame E payload s c c' \<longleftrightarrow>
     (\<exists>us core vs. ic_log c' = ic_log c @ us @ core @ vs \<and> list_all quiet_fx us \<and> list_all quiet_fx vs \<and>
        frame_core E payload s core) \<and> pending_ok c'"

lemma adds_frame_before:
  assumes "adds_quiet c d" and "adds_frame E payload s d e" shows "adds_frame E payload s c e"
proof -
  obtain ys us core vs where "ic_log d = ic_log c @ ys" "list_all quiet_fx ys"
      "ic_log e = ic_log d @ us @ core @ vs" "list_all quiet_fx us" "list_all quiet_fx vs"
      "frame_core E payload s core" "pending_ok e"
    using assms by (auto simp: adds_quiet_def adds_frame_def)
  then show ?thesis unfolding adds_frame_def
    by (intro conjI exI[of _ "ys @ us"] exI[of _ core] exI[of _ vs]) simp_all
qed

lemma adds_frame_after:
  assumes "adds_frame E payload s c d" and "adds_quiet d e" shows "adds_frame E payload s c e"
proof -
  obtain ys us core vs where "ic_log e = ic_log d @ ys" "list_all quiet_fx ys"
      "ic_log d = ic_log c @ us @ core @ vs" "list_all quiet_fx us" "list_all quiet_fx vs"
      "frame_core E payload s core" "pending_ok e"
    using assms by (auto simp: adds_quiet_def adds_frame_def)
  then show ?thesis unfolding adds_frame_def
    by (intro conjI exI[of _ us] exI[of _ core] exI[of _ "vs @ ys"]) simp_all
qed

lemma adds_frame_core:
  "frame_core E payload s core \<Longrightarrow> ic_log d = ic_log c @ core \<Longrightarrow> pending_ok d \<Longrightarrow> adds_frame E payload s c d"
  unfolding adds_frame_def by (intro conjI exI[of _ "[]"] exI[of _ core]) simp_all

lemma prefix_seq_ok: "read_hop_prefix payload = Inr (s, body) \<Longrightarrow> seq_ok s"
  by (auto simp: read_hop_prefix_def seq_ok_def SENDER_ID_BYTES_def split_to_eq_Inr)

lemma status_ok:
  "utf8_valid m \<Longrightarrow> seq_ok s \<Longrightarrow>
   ack_ok \<lparr>ack_id = sq_id s, ack_seq = sq_seq s, ack_status = ack_status_rejected code m\<rparr>"
  by (simp add: ack_ok_def seq_ok_def ack_status_rejected_def text_ok_def truncate_to_cap_valid length_truncate_to_cap)

lemma error_text_valid: "utf8_valid (error_text e)"
  by (cases e) (simp_all add: utf8_valid_str_bytes)

lemma senders_raise_log: "ic_log (senders_raise E s c) = ic_log c @ [Fx_Raise s]"
  by (simp add: senders_raise_def emit_def)

lemma refuse_frame_adds:
  assumes "pending_ok c" and "read_hop_prefix payload = Inr (s, body)" and "utf8_valid m"
    and "refuse_frame E s (ack_status_rejected code m) c = (r, c')"
    and "decode_hop_body (ie_blobs E) (ie_layout E) body (for_frame_cap (ie_max_frame_bytes E)) (ie_interner E k) = Inl e"
  shows "adds_frame E payload s c c'"
proof -
  define c1 where "c1 = emit (Fx_Count ''logit.input.batches.dropped'' 1 ''rejected'') c"
  have q1: "adds_quiet c c1" by (simp add: c1_def adds_quiet_step)
  then have p1: "pending_ok c1" using assms(1) by (rule pending_ok_quiet)
  let ?c2 = "senders_raise E s c1"
  have p2: "pending_ok ?c2" using p1 by (simp add: pending_ok_def)
  have f2: "adds_frame E payload s c1 ?c2"
    by (rule adds_frame_core[OF frame_core.refused[OF assms(2,5)] senders_raise_log p2])
  obtain x c3 where x: "flush_ack E ?c2 = (x, c3)" by (cases "flush_ack E ?c2")
  let ?a = "\<lparr>ack_id = sq_id s, ack_seq = sq_seq s, ack_status = ack_status_rejected code m\<rparr>"
  obtain y c4 where y: "write_ack E ?a c3 = (y, c4)" by (cases "write_ack E ?a c3")
  have q3: "adds_quiet ?c2 c3" by (rule flush_ack_quiet[OF p2 x])
  have "adds_quiet c3 c4"
    by (rule write_ack_quiet[OF status_ok[OF assms(3) prefix_seq_ok[OF assms(2)]] y])
  then have "c' = c3 \<or> c' = c4" "adds_quiet ?c2 c4"
    using assms(4) x y adds_quiet_trans[OF q3]
    unfolding refuse_frame_def ack_rejected_def c1_def[symmetric] Let_def
    by (auto split: sum.splits)
  then show ?thesis
    using adds_frame_before[OF q1 adds_frame_after[OF f2]] q3 by blast
qed

lemma extend_run_quiet:
  assumes "seq_ok s" and "extend_run E s c = (r, c')" shows "adds_quiet c c'"
proof -
  define run where "run = \<lparr>pa_seq = s, pa_frames =
    pa_frames (case ic_pending c of Some run \<Rightarrow> run | None \<Rightarrow> \<lparr>pa_seq = s, pa_frames = 0\<rparr>) + 1\<rparr>"
  have p: "pending_ok (c\<lparr>ic_pending := Some run\<rparr>)" using assms(1) by (simp add: pending_ok_def run_def)
  then have q: "adds_quiet c (c\<lparr>ic_pending := Some run\<rparr>)" by (intro adds_quiet_update) simp_all
  obtain x c1 where x: "flush_ack E (c\<lparr>ic_pending := Some run\<rparr>) = (x, c1)"
    by (cases "flush_ack E (c\<lparr>ic_pending := Some run\<rparr>)")
  have "c' = c\<lparr>ic_pending := Some run\<rparr> \<or> c' = c1"
    using assms(2) x unfolding extend_run_def Let_def run_def by (auto split: if_splits sum.splits)
  then show ?thesis using q adds_quiet_trans[OF q flush_ack_quiet[OF p x]] by blast
qed

lemma senders_is_resend_log:
  assumes "senders_is_resend E s c = (resend, c')"
  shows "ic_log c' = ic_log c @ [Fx_Is_Resend s resend] \<and> ic_pending c' = ic_pending c"
  using assms with_senders_simps[of E "is_resend s" c]
  by (auto simp: senders_is_resend_def emit_def simp del: with_senders_simps split: prod.splits)

lemma take_frame_adds:
  assumes pend: "pending_ok c" and pre: "read_hop_prefix payload = Inr (s, body)"
    and dec: "decode_hop_body (ie_blobs E) (ie_layout E) body (for_frame_cap (ie_max_frame_bytes E)) (ie_interner E k)
      = Inr ((batch, provenance, trace), b', t')"
    and run: "take_frame E s batch provenance trace c = (r, c')"
  shows "adds_frame E payload s c c' \<or> adds_quiet c c' \<and> r \<noteq> Go_On"
proof -
  define before where "before =
    (case ic_pending c of
       Some run \<Rightarrow> if sq_id (pa_seq run) \<noteq> sq_id s then flush_ack E c else (Inr (), c)
     | None \<Rightarrow> (Inr (), c))"
  obtain x c1 where b: "before = (x, c1)" by (cases before)
  have q1: "adds_quiet c c1"
    using b flush_ack_quiet[OF pend] by (auto simp: before_def split: option.splits if_splits)
  obtain resend c2 where r2: "senders_is_resend E s c1 = (resend, c2)" by (cases "senders_is_resend E s c1")
  note c2 = senders_is_resend_log[OF r2]
  have p2: "pending_ok c2" using pending_ok_quiet[OF q1 pend] c2 by (simp add: pending_ok_def)
  have ext: "adds_quiet d d'" if "extend_run E s d = (t, d')" for d t d'
    by (rule extend_run_quiet[OF prefix_seq_ok[OF pre] that])
  show ?thesis
  proof (cases x)
    case (Inl e)
    then show ?thesis using run b q1 unfolding take_frame_def before_def[symmetric] by auto
  next
    case (Inr u)
    define relayed where "relayed = emit (Fx_Relayed s batch provenance trace (ie_take E (ic_clock c2))) (ic_tick c2)"
    have tail: "(if resend then extend_run E s (emit (Fx_Count ''logit.input.batches.resends'' 1 []) c2)
        else if \<not> ie_take E (ic_clock c2) then
          (Stop (Inr Closing), going_away E ''no consumer took the batch'' (emit (Fx_Warn ''closed_consumer'')
             (emit (Fx_Count ''logit.input.batches.dropped'' 1 ''closed_consumer'') relayed)))
        else extend_run E s (senders_raise E s relayed)) = (r, c')"
      using run b Inr r2 unfolding take_frame_def before_def[symmetric] relayed_def Let_def
      by (cases resend; cases "ie_take E (ic_clock c2)") auto
    have prel: "pending_ok relayed" using p2 by (simp add: relayed_def pending_ok_def)
    have "adds_frame E payload s c1 c'"
    proof (cases resend)
      case True
      have "adds_frame E payload s c1 c2"
        using c2 p2 True by (intro adds_frame_core[OF frame_core.resent[OF pre]]) simp_all
      moreover have "adds_quiet c2 c'"
        using tail True adds_quiet_trans[OF adds_quiet_emit ext, of "Fx_Count ''logit.input.batches.resends'' 1 []" c2]
        by simp
      ultimately show ?thesis by (rule adds_frame_after)
    next
      case nr: False
      note core = frame_core.offered[OF pre dec, of "ie_take E (ic_clock c2)"]
      show ?thesis
      proof (cases "ie_take E (ic_clock c2)")
        case True
        have "adds_frame E payload s c1 (senders_raise E s relayed)"
          using c2 nr True prel by (intro adds_frame_core[OF core])
            (simp_all add: senders_raise_log relayed_def emit_def pending_ok_def)
        moreover have "adds_quiet (senders_raise E s relayed) c'" using tail nr True ext by simp
        ultimately show ?thesis by (rule adds_frame_after)
      next
        case False
        have "adds_frame E payload s c1 relayed"
          using c2 nr False prel by (intro adds_frame_core[OF core]) (simp_all add: relayed_def emit_def)
        moreover have "adds_quiet relayed c'"
        proof -
          let ?d = "emit (Fx_Warn ''closed_consumer'')
             (emit (Fx_Count ''logit.input.batches.dropped'' 1 ''closed_consumer'') relayed)"
          have "adds_quiet relayed ?d" by (simp add: adds_quiet_step)
          moreover then have "adds_quiet ?d (going_away E ''no consumer took the batch'' ?d)"
            using farewell_quiet(2) pending_ok_quiet prel by blast
          moreover have "c' = going_away E ''no consumer took the batch'' ?d" using tail nr False by simp
          ultimately show ?thesis using adds_quiet_trans by blast
        qed
        ultimately show ?thesis by (rule adds_frame_after)
      qed
    qed
    then show ?thesis using adds_frame_before[OF q1] by blast
  qed
qed

lemma handle_frame_adds:
  assumes pend: "pending_ok c" and run: "handle_frame E negotiated header (Whole payload) c = (r, c')"
  shows "(\<exists>s. adds_frame E payload s c c') \<or> adds_quiet c c' \<and> r \<noteq> Go_On"
proof (cases "fh_flags header AND FLAG_CONTROL \<noteq> 0 \<or> fh_codec header \<noteq> CODEC_HOP_BATCH \<or>
    (\<exists>e. read_hop_prefix payload = Inl e)")
  case True
  then show ?thesis using run
    by (auto simp: handle_frame_def adds_quiet_emit split: if_splits)
next
  case False
  then obtain s body where pre: "read_hop_prefix payload = Inr (s, body)"
    by (cases "read_hop_prefix payload") auto
  let ?dec = "decode_hop_body (ie_blobs E) (ie_layout E) body (for_frame_cap (ie_max_frame_bytes E))
    (ie_interner E (ic_clock c))"
  have tick: "pending_ok (ic_tick c)" using pend by (simp add: pending_ok_def)
  show ?thesis
  proof (cases ?dec)
    case (Inl e)
    define d where "d = (case e of
        BudgetExceeded _ \<Rightarrow> emit (Fx_Warn ''decode_budget'')
          (emit (Fx_Count ''logit.proto.errors'' 1 (decode_error_reason e)) (ic_tick c))
      | _ \<Rightarrow> emit (Fx_Warn ''frame_rejected'')
          (emit (Fx_Count ''logit.proto.errors'' 1 (decode_error_reason e)) (ic_tick c)))"
    have q: "adds_quiet c d" by (cases e) (simp_all add: d_def adds_quiet_step)
    have "\<exists>code. refuse_frame E s (ack_status_rejected code (error_text e)) d = (r, c')"
      using run False pre Inl by (cases e) (auto simp: handle_frame_def d_def Let_def)
    then show ?thesis
      using refuse_frame_adds[OF pending_ok_quiet[OF q pend] pre error_text_valid _ Inl] adds_frame_before[OF q] by blast
  next
    case (Inr res)
    obtain batch provenance trace b' t' where res: "res = ((batch, provenance, trace), b', t')"
      by (metis surj_pair)
    define d where "d = emit (Fx_Count ''logit.proto.frame.bytes'' (unat (fh_compressed_len header)) ''in'')
      (emit (Fx_Count ''logit.proto.frames'' 1 (compression_tag negotiated)) (ic_tick c))"
    have q: "adds_quiet c d" by (simp add: d_def adds_quiet_step)
    have "take_frame E s batch provenance trace d = (r, c')"
      using run False pre Inr res by (simp add: handle_frame_def d_def Let_def)
    from take_frame_adds[OF pending_ok_quiet[OF q pend] pre _ this, of "ic_clock c" b' t'] Inr res
    show ?thesis using adds_frame_before[OF q] adds_quiet_trans[OF q] by blast
  qed
qed

lemma frame_failed_quiet:
  "pending_ok c \<Longrightarrow> frame_failed E e c = (r, c') \<Longrightarrow> adds_quiet c c' \<and> r \<noteq> Go_On"
  using farewell_quiet(3)[of c E]
    adds_quiet_trans[OF adds_quiet_emit farewell_quiet(4)[OF pending_ok_quiet[OF adds_quiet_emit]],
      of "Fx_Count ''logit.proto.errors'' 1 ''too_large''" c E]
  by (auto simp: frame_failed_def adds_quiet_emit split: frame_error.splits)

section \<open>A stream of frames\<close>

text \<open>
  A frame as \<open>logit_out\<close> puts a payload on a connection whose peer announced \<open>peer_max\<close>: within the
  bound before and after compression.
\<close>

definition framed :: "frame_env \<Rightarrow> compression \<Rightarrow> u32 \<Rightarrow> bytes \<Rightarrow> bytes \<Rightarrow> bool" where
  "framed F z peer_max p w \<longleftrightarrow>
     length p \<le> min (unat peer_max) MAX_SANE_UNCOMPRESSED_LEN \<and>
     write_frame_with_flags F CODEC_HOP_BATCH z 0 p = Inr w \<and>
     length w - HEADER_LEN \<le> compressed_bound (min (unat peer_max) MAX_SANE_UNCOMPRESSED_LEN)"

lemma framed_parts:
  assumes "frame_laws F" and "framed F z peer_max p w"
  shows "w = header_write (frame_header_of F CODEC_HOP_BATCH z 0 p) @ frame_body F z p"
    and "unat (fh_compressed_len (frame_header_of F CODEC_HOP_BATCH z 0 p)) = length (frame_body F z p)"
    and "unat (fh_uncompressed_len (frame_header_of F CODEC_HOP_BATCH z 0 p)) = length p"
    and "length (frame_body F z p) \<le> compressed_bound (min (unat peer_max) MAX_SANE_UNCOMPRESSED_LEN)"
proof -
  have p: "length p \<le> MAX_SANE_UNCOMPRESSED_LEN" using assms(2) by (simp add: framed_def)
  show w: "w = header_write (frame_header_of F CODEC_HOP_BATCH z 0 p) @ frame_body F z p"
    using assms(2) by (simp add: framed_def write_frame_eq)
  show "unat (fh_compressed_len (frame_header_of F CODEC_HOP_BATCH z 0 p)) = length (frame_body F z p)"
    "unat (fh_uncompressed_len (frame_header_of F CODEC_HOP_BATCH z 0 p)) = length p"
    using p frame_body_within_cap[OF assms(1) p, of z]
    by (simp_all add: frame_header_of_def unat_of_nat_u32 compressed_cap_eq MAX_SANE_UNCOMPRESSED_LEN_def)
  show "length (frame_body F z p) \<le> compressed_bound (min (unat peer_max) MAX_SANE_UNCOMPRESSED_LEN)"
    using assms(2) w by (simp add: framed_def)
qed

lemma prefix_split: "prefix (a @ x) (b @ y) \<Longrightarrow> length a = length b \<Longrightarrow> a = b \<and> prefix x y"
  by (auto simp: prefix_def)

text \<open>However the bytes arrive, the body read after a frame's header is that frame's payload.\<close>

lemma read_frame_body_framed:
  assumes laws: "frame_laws (ie_frame E)" and fr: "framed (ie_frame E) z (ie_max_frame_bytes E) p w"
    and pre: "prefix (buf @ ic_input c) (w @ rest)" and len: "length buf = HEADER_LEN"
    and run: "read_frame_body E buf (unat (ie_max_frame_bytes E)) stall owed c = (Done (Inr (header, body)), c')"
  shows "header = frame_header_of (ie_frame E) CODEC_HOP_BATCH z 0 p \<and> body = Whole p \<and> prefix (ic_input c') rest"
proof -
  let ?F = "ie_frame E"
  let ?h = "frame_header_of ?F CODEC_HOP_BATCH z 0 p"
  note w = framed_parts[OF laws fr]
  have buf: "buf = header_write ?h" and inp: "prefix (ic_input c) (frame_body ?F z p @ rest)"
    using prefix_split[of buf "ic_input c" "header_write ?h" "frame_body ?F z p @ rest"] pre len w(1) by simp_all
  have hr: "header_read buf = Inr (?h, [])"
    unfolding buf using header_read_written[of ?h "[]"] by (simp add: frame_header_of_def)
  obtain y c1 where y: "fill_body E stall owed (length (frame_body ?F z p)) [] c = (y, c1)"
    by (cases "fill_body E stall owed (length (frame_body ?F z p)) [] c")
  obtain got where got: "y = Done (Inr got)"
    using run hr w(2,4) y by (auto simp: read_frame_body_def Let_def split: waited.splits sum.splits)
  have g: "ic_input c = got @ ic_input c1" "length got = length (frame_body ?F z p)"
    using fill_body_input[OF y] got by auto
  then have got_eq: "got = frame_body ?F z p" and rest: "prefix (ic_input c1) rest"
    using prefix_split[of got "ic_input c1" "frame_body ?F z p" rest] inp by simp_all
  have "read_frame_with_header ?F (w @ []) = Inr ((?h, p), [])"
    using fr by (intro read_frame_written[OF laws]) (simp add: framed_def)
  then have "read_frame_with_header ?F (buf @ got) = Inr ((?h, p), [])" unfolding w(1) buf got_eq by simp
  then show ?thesis using run hr w(2,3,4) y got fr rest
    by (auto simp: read_frame_body_def Let_def framed_def split: if_splits)
qed

lemma frame_turn_adds:
  assumes laws: "frame_laws (ie_frame E)" and pend: "pending_ok c"
    and frs: "list_all2 (framed (ie_frame E) z (ie_max_frame_bytes E)) ps ws"
    and pre: "prefix (ic_input c) (concat ws)" and run: "frame_turn E negotiated c = (r, c')"
  shows "adds_quiet c c' \<and> r \<noteq> Go_On \<or>
    (\<exists>p ps' w ws' s. ps = p # ps' \<and> ws = w # ws' \<and> adds_frame E p s c c' \<and>
       (r = Go_On \<longrightarrow> prefix (ic_input c') (concat ws')))"
proof (cases "ie_shutdown E (ic_clock c)")
  case True
  have "pending_ok (ic_tick c)" using pend by (simp add: pending_ok_def)
  then show ?thesis using run True farewell_quiet(1)[of "ic_tick c" E]
    by (auto simp: frame_turn_def intro: adds_quiet_trans[OF adds_quiet_tick])
next
  case up: False
  obtain x c1 where x: "next_header E (ic_tick c) = (x, c1)" by (cases "next_header E (ic_tick c)")
  have "pending_ok (ic_tick c)" using pend by (simp add: pending_ok_def)
  from next_header_quiet[OF this x] have q1: "adds_quiet c c1" by (rule adds_quiet_trans[OF adds_quiet_tick])
  have p1: "pending_ok c1" by (rule pending_ok_quiet[OF q1 pend])
  note bye = farewell_quiet[OF p1, of E]
  show ?thesis
  proof (cases "\<exists>buf. x = Done (Inr (Some buf))")
    case False
    have "adds_quiet c1 c' \<and> r \<noteq> Go_On" using False run up x bye
      by (auto simp: frame_turn_def adds_quiet_emit split: waited.splits sum.splits option.splits header_error.splits)
    then show ?thesis using adds_quiet_trans[OF q1] by blast
  next
    case True
    then obtain buf where buf: "x = Done (Inr (Some buf))" by blast
    have b: "ic_input c = buf @ ic_input c1" "length buf = HEADER_LEN"
      using next_header_input[of E "ic_tick c" buf c1] x buf by simp_all
    then obtain w ws' where ws: "ws = w # ws'" using pre by (cases ws) (auto simp: HEADER_LEN_def)
    then obtain p ps' where ps: "ps = p # ps'" "framed (ie_frame E) z (ie_max_frame_bytes E) p w"
      using frs by (auto simp: list_all2_Cons2)
    let ?rd = "read_frame_body E buf (unat (ie_max_frame_bytes E)) (idle_bound E) True c1"
    obtain y c2 where y: "?rd = (y, c2)" by (cases ?rd)
    have q2: "adds_quiet c c2" by (rule adds_quiet_trans[OF q1 read_frame_body_quiet[OF p1 y]])
    have p2: "pending_ok c2" by (rule pending_ok_quiet[OF q2 pend])
    show ?thesis
    proof (cases "\<exists>header body. y = Done (Inr (header, body))")
      case False
      have "adds_quiet c2 c' \<and> r \<noteq> Go_On" using False run up x buf y frame_failed_quiet[OF p2, of E]
        by (auto simp: frame_turn_def split: waited.splits sum.splits)
      then show ?thesis using adds_quiet_trans[OF q2] by blast
    next
      case True
      then obtain header body where hb: "y = Done (Inr (header, body))" by blast
      have "prefix (buf @ ic_input c1) (w @ concat ws')" using pre b(1) ws by simp
      from read_frame_body_framed[OF laws ps(2) this b(2) y[unfolded hb]]
      have whole: "body = Whole p" "prefix (ic_input c2) (concat ws')" by simp_all
      have run': "handle_frame E negotiated header (Whole p) c2 = (r, c')"
        using run up x buf y hb whole by (simp add: frame_turn_def)
      have "r = Go_On \<longrightarrow> prefix (ic_input c') (concat ws')"
        using whole(2) handle_frame_input[of E negotiated header "Whole p" c2] run' by auto
      moreover from handle_frame_adds[OF p2 run']
      have "(\<exists>s. adds_frame E p s c c') \<or> adds_quiet c c' \<and> r \<noteq> Go_On"
        using adds_quiet_trans[OF q2] adds_frame_before[OF q2] by meson
      ultimately show ?thesis using ps(1) ws by auto
    qed
  qed
qed

section \<open>The effects of a stream of frames\<close>

inductive frames_log :: "('d, 'h) in_env \<Rightarrow> bytes list \<Rightarrow> ('d, 'h) in_effect list \<Rightarrow> bool" for E where
  quiet: "list_all quiet_fx us \<Longrightarrow> frames_log E ps us"
| frame: "list_all quiet_fx us \<Longrightarrow> frame_core E p s core \<Longrightarrow> frames_log E ps vs \<Longrightarrow>
    frames_log E (p # ps) (us @ core @ vs)"

lemma frames_log_before:
  "frames_log E ps vs \<Longrightarrow> list_all quiet_fx us \<Longrightarrow> frames_log E ps (us @ vs)"
proof (induction arbitrary: us rule: frames_log.induct)
  case (frame us' p s core ps vs)
  then show ?case using frames_log.frame[of "us @ us'" E p s core ps vs] by simp
qed (simp add: frames_log.quiet)

lemma frames_log_after:
  "frames_log E ps us \<Longrightarrow> list_all quiet_fx vs \<Longrightarrow> frames_log E ps (us @ vs)"
proof (induction rule: frames_log.induct)
  case (frame us' p s core ps vs')
  then show ?case using frames_log.frame[of us' E p s core ps "vs' @ vs"] by simp
qed (simp add: frames_log.quiet)

lemma frame_loop_adds:
  assumes "frame_laws (ie_frame E)"
  shows "pending_ok c \<Longrightarrow> list_all2 (framed (ie_frame E) z (ie_max_frame_bytes E)) ps ws \<Longrightarrow>
    prefix (ic_input c) (concat ws) \<Longrightarrow> frame_loop n E negotiated c = (r, c') \<Longrightarrow>
    (\<exists>zs. ic_log c' = ic_log c @ zs \<and> frames_log E ps zs) \<and> pending_ok c'"
proof (induction n arbitrary: c ps ws)
  case 0
  then show ?case by (simp add: frames_log.quiet)
next
  case (Suc n)
  obtain t c1 where t: "frame_turn E negotiated c = (t, c1)" by (cases "frame_turn E negotiated c")
  from frame_turn_adds[OF assms Suc.prems(1-3) t] show ?case
  proof (elim disjE exE conjE)
    assume q: "adds_quiet c c1" "t \<noteq> Go_On"
    then have "c' = c1" using t Suc.prems(4) by (cases t) auto
    then show ?thesis using q(1) Suc.prems(1) by (auto simp: adds_quiet_def intro: frames_log.quiet)
  next
    fix p ps' w ws' s
    assume ps: "ps = p # ps'" "ws = w # ws'" and f: "adds_frame E p s c c1" "t = Go_On \<longrightarrow> prefix (ic_input c1) (concat ws')"
    obtain us core vs where l: "ic_log c1 = ic_log c @ us @ core @ vs" "list_all quiet_fx us" "list_all quiet_fx vs"
        "frame_core E p s core" "pending_ok c1"
      using f(1) by (auto simp: adds_frame_def)
    show ?thesis
    proof (cases "t = Go_On")
      case True
      then obtain zs where "ic_log c' = ic_log c1 @ zs" "frames_log E ps' zs" "pending_ok c'"
        using Suc.IH[OF l(5), of ps' ws'] f(2) Suc.prems(2,4) ps t by auto
      then show ?thesis using l ps frames_log.frame[OF l(2,4) frames_log_before[of E ps' zs vs]] by auto
    next
      case False
      then have "c' = c1" using t Suc.prems(4) by (cases t) auto
      then show ?thesis using l ps frames_log.frame[OF l(2,4) frames_log.quiet[OF l(3)]] by auto
    qed
  qed
qed

lemma serve_frames_adds:
  assumes "frame_laws (ie_frame E)" and "list_all2 (framed (ie_frame E) z (ie_max_frame_bytes E)) ps ws"
    and "prefix (ic_input c) (concat ws)"
  shows "frames_log E ps (ic_log (snd (serve_frames n E negotiated (c\<lparr>ic_log := []\<rparr>))))"
proof -
  let ?c = "c\<lparr>ic_log := [], ic_pending := None\<rparr>"
  obtain r c1 where r: "frame_loop n E negotiated ?c = (r, c1)" by (cases "frame_loop n E negotiated ?c")
  have l: "frames_log E ps (ic_log c1)" "pending_ok c1"
    using frame_loop_adds[OF assms(1) _ assms(2) _ r] assms(3) by (auto simp: pending_ok_def)
  obtain ys where "ic_log (snd (flush_ack E c1)) = ic_log c1 @ ys" "list_all quiet_fx ys"
    using flush_ack_quiet[OF l(2), of E] by (cases "flush_ack E c1") (auto simp: adds_quiet_def)
  then show ?thesis using r l frames_log_after[OF l(1)] by (cases r) (auto simp: serve_frames_def)
qed

end
