(* ===== verification/Hop_Session.thy ===== *)
theory Hop_Session
  imports Native_Hop Hop_Frames Rename
begin

text \<open>
  A session of the native hop from end to end: \<open>logit_out\<close> submits batches, \<open>logit_in\<close> serves any
  prefix of the bytes that left, and the sink awaits the answers.
\<close>

section \<open>What the listener did with a stream of frames\<close>

lemma arrivals_quiet: "list_all quiet_fx us \<Longrightarrow> arrivals took (us @ xs) = arrivals took xs"
proof (induction us)
  case (Cons u us)
  then show ?case by (cases u) auto
qed simp

lemma frame_core_prefix: "frame_core E p s core \<Longrightarrow> \<exists>body. read_hop_prefix p = Inr (s, body)"
  by (erule frame_coreE) auto

lemma frame_core_arrivals: "frame_core E p s core \<Longrightarrow> arrivals False (core @ xs) = s # arrivals False xs"
  by (erule frame_coreE) auto

lemma frames_log_arrivals:
  "frames_log E ps xs \<Longrightarrow> list_all2 (\<lambda>p s. \<exists>body. read_hop_prefix p = Inr (s, body)) ps ss \<Longrightarrow>
   prefix (arrivals False xs) ss"
proof (induction arbitrary: ss rule: frames_log.induct)
  case (quiet us ps)
  then show ?case using arrivals_quiet[of us False "[]"] by simp
next
  case (frame us p s core ps vs)
  then obtain s' ss' where "ss = s' # ss'" "prefix (arrivals False vs) ss'" "\<exists>body. read_hop_prefix p = Inr (s', body)"
    by (auto simp: list_all2_Cons1)
  then show ?case using frame frame_core_prefix[OF frame(2)]
    by (auto simp: arrivals_quiet frame_core_arrivals)
qed

lemma replies_append [simp]: "replies (xs @ ys) = replies xs @ replies ys"
proof (induction xs)
  case (Cons x xs)
  then show ?case by (cases x) (auto split: write_outcome.splits)
qed simp

lemma replies_quiet: "list_all quiet_fx us \<Longrightarrow> list_all message_ok (replies us)"
proof (induction us)
  case (Cons u us)
  then show ?case by (cases u) (auto split: write_outcome.splits)
qed simp

lemma frames_log_replies: "frames_log E ps xs \<Longrightarrow> list_all message_ok (replies xs)"
proof (induction rule: frames_log.induct)
  case (frame us p s core ps vs)
  have "replies core = []" using frame(2) by (rule frame_coreE) auto
  then show ?case using frame by (simp add: replies_quiet)
qed (simp add: replies_quiet)

text \<open>Every effect but the quiet ones belongs to a frame of the stream.\<close>

lemma frames_log_effect:
  "frames_log E ps xs \<Longrightarrow> x \<in> set xs \<Longrightarrow>
   quiet_fx x \<or> (\<exists>p \<in> set ps. \<exists>s core. frame_core E p s core \<and> x \<in> set core)"
proof (induction rule: frames_log.induct)
  case (quiet us ps)
  then show ?case by (simp add: list_all_iff)
next
  case (frame us p s core ps vs)
  then show ?case by (auto simp: list_all_iff)
qed

lemma frames_log_relayed:
  assumes "frames_log E ps xs" and "Fx_Relayed s batch provenance trace took \<in> set xs"
  shows "\<exists>p body k b' t'. p \<in> set ps \<and> read_hop_prefix p = Inr (s, body) \<and>
    decode_hop_body (ie_blobs E) (ie_layout E) body (for_frame_cap (ie_max_frame_bytes E)) (ie_interner E k)
      = Inr ((batch, provenance, trace), b', t')"
proof -
  obtain p s' core where p: "p \<in> set ps" "frame_core E p s' core" "Fx_Relayed s batch provenance trace took \<in> set core"
    using frames_log_effect[OF assms] by auto
  from p(2) show ?thesis
  proof cases
    case (offered body k batch' provenance' trace' b' t' took')
    then have "s' = s" "batch' = batch" "provenance' = provenance" "trace' = trace"
      using p(3) by (auto split: if_splits)
    then show ?thesis using p(1) offered(2,3) by blast
  qed (use p(3) in auto)
qed

section \<open>The sink submitting\<close>

type_synonym ('d, 'h) submission = "(symbol, 'd, 'h) event_batch \<times> batch_context \<times> seq_id"

fun submit_all ::
    "('d, 'h) out_env \<Rightarrow> ('d, 'h) submission list \<Rightarrow> logit_output \<Rightarrow> (send_error + unit) list \<times> logit_output" where
  "submit_all E [] lo = ([], lo)"
| "submit_all E ((batch, ctx, s) # subs) lo =
     (let (r, lo) = submit E batch ctx s lo; (rs, lo) = submit_all E subs lo in (r # rs, lo))"

definition payload_of :: "('d, 'h) out_env \<Rightarrow> ('d, 'h) submission \<Rightarrow> bytes" where
  "payload_of E sub = (case sub of (batch, ctx, s) \<Rightarrow> hop_payload E batch ctx s)"

definition seq_of :: "('d, 'h) submission \<Rightarrow> seq_id" where
  "seq_of sub = snd (snd sub)"

text \<open>A write that finished wrote every byte it was given.\<close>

lemma write_counting_done:
  "write_counting E bs sent clock = (True, sent', clock') \<Longrightarrow> sent' = sent @ bs"
proof (induction E bs sent clock arbitrary: sent' clock' rule: write_counting.induct)
  case (1 E bs sent clock)
  show ?case
  proof (cases "bs = []")
    case True
    then show ?thesis using 1(2) by (simp add: write_counting.simps)
  next
    case False
    then obtain n where n: "oe_write E clock = Takes n" "min n (min (length bs) WRITE_CHUNK) \<noteq> 0"
        "write_counting E (drop (min n (min (length bs) WRITE_CHUNK)) bs)
          (sent @ take (min n (min (length bs) WRITE_CHUNK)) bs) (clock + 1) = (True, sent', clock')"
      using 1(2) by (auto simp: write_counting.simps[of E bs] Let_def split: write_step.splits if_splits)
    from 1(1)[OF False n(1) refl n(2,3)] show ?thesis by simp
  qed
qed

lemma write_frame_on_done:
  assumes "write_frame_on E conn w s lo = (Inr (), lo')"
  shows "lo_stream lo' = Some (conn\<lparr>oc_written := oc_written conn @ w, oc_in_flight := oc_in_flight conn @ [unacked s]\<rparr>)"
proof -
  obtain d sent lo1 where "write_with_progress E w lo = (d, sent, lo1)" by (cases "write_with_progress E w lo")
  then show ?thesis using assms write_counting_done[of E w "[]" "lo_clock lo" sent]
    by (auto simp: write_frame_on_def Let_def unacked_def write_with_progress_def split: if_splits prod.splits)
qed

lemma frame_on_conn_done:
  assumes "frame_on_conn E conn payload s lo = (Inr (), lo')"
  shows "\<exists>w. framed (oe_frame E) (oc_compression conn) (oc_peer_max_frame_bytes conn) payload w \<and>
    lo_stream lo' = Some (conn\<lparr>oc_written := oc_written conn @ w, oc_in_flight := oc_in_flight conn @ [unacked s]\<rparr>)"
  using assms
  by (auto simp: frame_on_conn_def Let_def framed_def split: if_splits sum.splits dest!: write_frame_on_done)

text \<open>A pooled connection that is never found closed keeps taking the frames its marks do not cover.\<close>

lemma submit_on_conn:
  assumes "\<forall>n. oe_probe_open E n" and "lo_stream lo = Some conn" and "\<not> oc_broken conn" and "\<not> covers conn s"
    and "submit E batch ctx s lo = (Inr (), lo')"
  shows "\<exists>w. framed (oe_frame E) (oc_compression conn) (oc_peer_max_frame_bytes conn) (hop_payload E batch ctx s) w \<and>
    lo_stream lo' = Some (conn\<lparr>oc_written := oc_written conn @ w, oc_in_flight := oc_in_flight conn @ [unacked s]\<rparr>)"
proof -
  have "submit_frame E batch ctx s lo = (Inr (), lo')"
    using assms(5) by (auto simp: submit_def Let_def split: prod.splits sum.splits)
  then have "\<exists>lo1. frame_on_conn E conn (hop_payload E batch ctx s) s lo1 = (Inr (), lo')"
    using assms(1-4) by (auto simp: submit_frame_def take_conn_def Let_def split: if_splits)
  then show ?thesis using frame_on_conn_done by blast
qed

lemma submit_all_on_conn:
  assumes "\<forall>n. oe_probe_open E n"
  shows "lo_stream lo = Some conn \<Longrightarrow> \<not> oc_broken conn \<Longrightarrow> list_all (\<lambda>sub. \<not> covers conn (seq_of sub)) subs \<Longrightarrow>
    submit_all E subs lo = (replicate (length subs) (Inr ()), lo') \<Longrightarrow>
    \<exists>ws. list_all2 (framed (oe_frame E) (oc_compression conn) (oc_peer_max_frame_bytes conn)) (map (payload_of E) subs) ws \<and>
      lo_stream lo' = Some (conn\<lparr>oc_written := oc_written conn @ concat ws,
        oc_in_flight := oc_in_flight conn @ map unacked (map seq_of subs)\<rparr>)"
proof (induction subs arbitrary: lo conn)
  case (Cons sub subs)
  obtain batch ctx s where sub: "sub = (batch, ctx, s)" by (cases sub)
  obtain lo1 where lo1: "submit E batch ctx s lo = (Inr (), lo1)"
      "submit_all E subs lo1 = (replicate (length subs) (Inr ()), lo')"
    using Cons.prems(4) by (auto simp: sub split: prod.splits)
  obtain w where w: "framed (oe_frame E) (oc_compression conn) (oc_peer_max_frame_bytes conn) (hop_payload E batch ctx s) w"
      "lo_stream lo1 = Some (conn\<lparr>oc_written := oc_written conn @ w, oc_in_flight := oc_in_flight conn @ [unacked s]\<rparr>)"
    using submit_on_conn[OF assms Cons.prems(1,2) _ lo1(1)] Cons.prems(3) by (auto simp: sub seq_of_def)
  from Cons.IH[OF w(2) _ _ lo1(2)] Cons.prems(2,3) obtain ws where
      "list_all2 (framed (oe_frame E) (oc_compression conn) (oc_peer_max_frame_bytes conn)) (map (payload_of E) subs) ws"
      "lo_stream lo' = Some (conn\<lparr>oc_written := (oc_written conn @ w) @ concat ws,
        oc_in_flight := (oc_in_flight conn @ [unacked s]) @ map unacked (map seq_of subs)\<rparr>)"
    by (auto simp: covers_def)
  moreover have "payload_of E sub = hop_payload E batch ctx s" "seq_of sub = s"
    by (simp_all add: sub payload_of_def seq_of_def)
  ultimately show ?case using w(1) by (intro exI[of _ "w # ws"]) simp
qed simp

section \<open>What a frame carries\<close>

definition sent_trace :: "('d, 'h) out_env \<Rightarrow> batch_context \<Rightarrow> hop_trace option" where
  "sent_trace E ctx = (if oe_samples_trace E (ht_trace_id (bc_trace ctx)) then Some (bc_trace ctx) else None)"

text \<open>
  A submission the listener can decode: its batch fits the decode budget of the listener's frame
  cap, and its names and identities have their lengths.
\<close>

definition sendable :: "('d, 'h) out_env \<Rightarrow> ('d, 'h) in_env \<Rightarrow> ('d, 'h) submission \<Rightarrow> bool" where
  "sendable E L sub \<longleftrightarrow>
     (case sub of (batch, ctx, s) \<Rightarrow>
        decodable (oe_blobs E) (ie_layout L) (oe_resolve E) (for_frame_cap (ie_max_frame_bytes L)) batch \<and>
        provenance_ok (oe_resolve E) (bc_provenance ctx) \<and> hop_trace_ok (sent_trace E ctx) \<and> seq_ok s)"

text \<open>Both ends use the same framing, sketches and strings; the listener's table holds each string once.\<close>

definition wired :: "('d, 'h) out_env \<Rightarrow> ('d, 'h) in_env \<Rightarrow> interner \<Rightarrow> bool" where
  "wired E L names \<longleftrightarrow>
     ie_frame L = oe_frame E \<and> ie_blobs L = oe_blobs E \<and> frame_laws (oe_frame E) \<and>
     interner_ok names \<and> oe_resolve E = resolve_str names \<and> (\<forall>k. distinct (ie_interner L k))"

lemma sendable_decodes:
  assumes "wired E L names" and "sendable E L sub" and "sub = (batch, ctx, s)"
  shows "\<exists>body. read_hop_prefix (payload_of E sub) = Inr (s, body) \<and>
    (\<forall>k. \<exists>batch' p' b' t'.
       decode_hop_body (ie_blobs L) (ie_layout L) body (for_frame_cap (ie_max_frame_bytes L)) (ie_interner L k)
         = Inr ((batch', p', sent_trace E ctx), b', t') \<and>
       batch_text t' batch' = batch_text names batch \<and>
       provenance_text t' p' = provenance_text names (bc_provenance ctx) \<and>
       distinct t' \<and> prefix (ie_interner L k) t')"
proof -
  have p: "payload_of E sub = encode_hop_batch (oe_blobs E) (resolve_str names) batch (bc_provenance ctx) (sent_trace E ctx) s"
    using assms by (simp add: payload_of_def hop_payload_def sent_trace_def wired_def)
  have ok: "interner_ok names" "\<And>k. distinct (ie_interner L k)" "ie_blobs L = oe_blobs E"
      "decodable (oe_blobs E) (ie_layout L) (resolve_str names) (for_frame_cap (ie_max_frame_bytes L)) batch"
      "provenance_ok (resolve_str names) (bc_provenance ctx)" "hop_trace_ok (sent_trace E ctx)"
      "length (sq_id s) = 16" "sq_seq s \<noteq> 0"
    using assms by (simp_all add: wired_def sendable_def seq_ok_def SENDER_ID_BYTES_def)
  obtain body where body: "read_hop_prefix (payload_of E sub) = Inr (s, body)"
    unfolding p encode_hop_batch_eq[OF ok(6)] using read_hop_prefix_written[OF ok(7,8)] by blast
  have "\<exists>batch' p' b' t'.
       decode_hop_body (ie_blobs L) (ie_layout L) body (for_frame_cap (ie_max_frame_bytes L)) (ie_interner L k)
         = Inr ((batch', p', sent_trace E ctx), b', t') \<and>
       batch_text t' batch' = batch_text names batch \<and>
       provenance_text t' p' = provenance_text names (bc_provenance ctx) \<and>
       distinct t' \<and> prefix (ie_interner L k) t'" for k
    using hop_batch_crosses[OF ok(1,2,4-8), of k] body unfolding p ok(3) decode_hop_batch_def
    by (auto split: sum.splits simp: bnd_eq_Inr)
  with body show ?thesis by blast
qed

section \<open>No frame is refused\<close>

text \<open>The frames a log shows refused by name; the flag is that of \<open>arrivals\<close>.\<close>

fun refusals :: "bool \<Rightarrow> ('d, 'h) in_effect list \<Rightarrow> seq_id list" where
  "refusals took [] = []"
| "refusals took (x # xs) =
     (case x of
        Fx_Is_Resend _ _ \<Rightarrow> refusals False xs
      | Fx_Relayed _ _ _ _ t \<Rightarrow> refusals t xs
      | Fx_Raise s \<Rightarrow> if took then refusals False xs else s # refusals False xs
      | _ \<Rightarrow> refusals took xs)"

lemma refusals_quiet: "list_all quiet_fx us \<Longrightarrow> refusals took (us @ xs) = refusals took xs"
proof (induction us)
  case (Cons u us)
  then show ?case by (cases u) auto
qed simp

lemma frames_log_no_refusal:
  "frames_log E ps xs \<Longrightarrow>
   (\<And>p s body k. p \<in> set ps \<Longrightarrow> read_hop_prefix p = Inr (s, body) \<Longrightarrow>
      \<exists>y. decode_hop_body (ie_blobs E) (ie_layout E) body (for_frame_cap (ie_max_frame_bytes E)) (ie_interner E k) = Inr y) \<Longrightarrow>
   refusals False xs = []"
proof (induction rule: frames_log.induct)
  case (quiet us ps)
  then show ?case using refusals_quiet[of us False "[]"] by simp
next
  case (frame us p s core ps vs)
  have "refusals False vs = []" by (rule frame.IH) (meson frame.prems list.set_intros(2))
  moreover have "refusals False (core @ vs) = refusals False vs"
    using frame(2)
  proof cases
    case (refused body k e)
    then show ?thesis using frame.prems[of p s body k] by auto
  qed auto
  ultimately show ?case using frame(1) by (simp add: refusals_quiet)
qed

fun refusing :: "lstate \<Rightarrow> bool" where
  "refusing (L_Refusing _ _) = True"
| "refusing _ = False"

lemma verdict_of_run: "answers_run a owed \<Longrightarrow> verdict_of owed a = map (\<lambda>s. (s, None)) owed"
  by (simp add: answers_run_def verdict_of_def)

lemma unrefused_verdicts:
  assumes "l_run st xs \<noteq> None" and "\<not> refusing st" and "refusals (took_one st) xs = []"
    and "v \<in> set (verdicts st xs)"
  shows "snd v = None"
  using assms
proof (induction xs arbitrary: st)
  case (Cons x xs)
  obtain st' where st': "l_next st x = Some st'" "l_run st' xs \<noteq> None" using Cons.prems(1) by (auto simp: bind_eq_Some_conv)
  have next': "\<not> refusing st' \<and> refusals (took_one st') xs = []"
    using st' Cons.prems(2,3) over_quiet
    by (cases st; cases x)
      (auto simp: l_write_open_def l_write_dropped_def after_write_def split: if_splits control_message.splits)
  have "snd v = None" if "x = Fx_Write (CM_Ack a) Written" "v \<in> set (verdict_of (unanswered st) a)" for a
  proof -
    have "answers_run a (unanswered st)"
      using st'(1) that(1) Cons.prems(2)
      by (cases st) (auto simp: l_write_open_def l_write_dropped_def split: if_splits)
    then show ?thesis using that(2) by (auto simp: verdict_of_run)
  qed
  then show ?case using Cons.IH[OF st'(2)] next' Cons.prems(4) st'(1)
    by (auto split: in_effect.splits control_message.splits write_outcome.splits)
qed simp

section \<open>A session\<close>

text \<open>
  The sink's connection is up and idle, agrees with the listener on the frame bound and has no mark
  that covers a submission; the submissions are decodable, numbered upwards, and all were taken.
\<close>

definition session ::
    "('d, 'h) out_env \<Rightarrow> ('d, 'h) in_env \<Rightarrow> interner \<Rightarrow> logit_output \<Rightarrow> ('d, 'h) submission list \<Rightarrow> logit_output \<Rightarrow> bool" where
  "session E L names lo subs lo' \<longleftrightarrow>
     patient E \<and> (\<forall>n. oe_probe_open E n) \<and> wired E L names \<and>
     (\<exists>conn. lo_stream lo = Some conn \<and> \<not> oc_broken conn \<and> oc_in_flight conn = [] \<and> oc_written conn = [] \<and>
        oc_peer_max_frame_bytes conn = ie_max_frame_bytes L \<and> list_all (\<lambda>sub. \<not> covers conn (seq_of sub)) subs) \<and>
     list_all (sendable E L) subs \<and> increasing (map seq_of subs) \<and>
     submit_all E subs lo = (replicate (length subs) (Inr ()), lo')"

definition bytes_sent :: "logit_output \<Rightarrow> bytes" where
  "bytes_sent lo = (case lo_stream lo of Some c \<Rightarrow> oc_written c | None \<Rightarrow> [])"

definition answered_with :: "('d, 'h) out_env \<Rightarrow> control_message list \<Rightarrow> logit_output \<Rightarrow> logit_output" where
  "answered_with E ms lo =
     lo\<lparr>lo_stream := map_option (\<lambda>c. c\<lparr>oc_input := concat (map (control_frame (oe_frame E)) ms)\<rparr>) (lo_stream lo)\<rparr>"

lemma session_log:
  assumes "session E L names lo subs lo'" and "prefix (ic_input c) (bytes_sent lo')"
  shows "frames_log L (map (payload_of E) subs) (ic_log (snd (serve_frames n L negotiated (c\<lparr>ic_log := []\<rparr>))))"
    and "\<exists>conn. lo_stream lo' = Some conn \<and> \<not> oc_broken conn \<and> oc_in_flight conn = map unacked (map seq_of subs)"
proof -
  obtain conn where conn: "lo_stream lo = Some conn" "\<not> oc_broken conn" "oc_in_flight conn = []" "oc_written conn = []"
      "oc_peer_max_frame_bytes conn = ie_max_frame_bytes L" "list_all (\<lambda>sub. \<not> covers conn (seq_of sub)) subs"
    using assms(1) by (auto simp: session_def)
  have probe: "\<forall>n. oe_probe_open E n" and w: "wired E L names"
    and sub: "submit_all E subs lo = (replicate (length subs) (Inr ()), lo')"
    using assms(1) by (simp_all add: session_def)
  from submit_all_on_conn[OF probe conn(1,2,6) sub] obtain ws where
      ws: "list_all2 (framed (oe_frame E) (oc_compression conn) (oc_peer_max_frame_bytes conn)) (map (payload_of E) subs) ws"
      "lo_stream lo' = Some (conn\<lparr>oc_written := concat ws, oc_in_flight := map unacked (map seq_of subs)\<rparr>)"
    using conn(3,4) by auto
  then show "\<exists>conn. lo_stream lo' = Some conn \<and> \<not> oc_broken conn \<and> oc_in_flight conn = map unacked (map seq_of subs)"
    using conn(2) by simp
  have laws: "ie_frame L = oe_frame E" "frame_laws (ie_frame L)" using w by (simp_all add: wired_def)
  have "list_all2 (framed (ie_frame L) (oc_compression conn) (ie_max_frame_bytes L)) (map (payload_of E) subs) ws"
    using ws(1) unfolding laws(1) conn(5) .
  moreover have "prefix (ic_input c) (concat ws)" using assms(2) ws(2) by (simp add: bytes_sent_def)
  ultimately show "frames_log L (map (payload_of E) subs)
      (ic_log (snd (serve_frames n L negotiated (c\<lparr>ic_log := []\<rparr>))))"
    by (rule serve_frames_adds[OF laws(2)])
qed

lemma session_decodes:
  assumes "session E L names lo subs lo'" and "sub \<in> set subs"
  shows "\<exists>body. read_hop_prefix (payload_of E sub) = Inr (seq_of sub, body) \<and>
    (\<forall>k. \<exists>batch' p' b' t'.
       decode_hop_body (ie_blobs L) (ie_layout L) body (for_frame_cap (ie_max_frame_bytes L)) (ie_interner L k)
         = Inr ((batch', p', sent_trace E (fst (snd sub))), b', t') \<and>
       batch_text t' batch' = batch_text names (fst sub) \<and>
       provenance_text t' p' = provenance_text names (bc_provenance (fst (snd sub))) \<and>
       distinct t' \<and> prefix (ie_interner L k) t')"
proof -
  have "wired E L names" "sendable E L sub" using assms by (auto simp: session_def list_all_iff)
  from sendable_decodes[OF this, of "fst sub" "fst (snd sub)" "seq_of sub"] show ?thesis by (simp add: seq_of_def)
qed

text \<open>The connections of a session answer the way the sink relies on.\<close>

definition session_serves :: "seq_id list \<Rightarrow> ('d, 'h) in_effect list \<Rightarrow> bool" where
  "session_serves fs xs \<longleftrightarrow>
     (\<exists>(E :: ('d, 'h) out_env) L names lo subs lo' c n negotiated.
        session E L names lo subs lo' \<and> prefix (ic_input c) (bytes_sent lo') \<and> fs = map seq_of subs \<and>
        xs = ic_log (snd (serve_frames n L negotiated (c\<lparr>ic_log := []\<rparr>))))"

lemma session_prefixes:
  "session E L names lo subs lo' \<Longrightarrow>
   list_all2 (\<lambda>p s. \<exists>body. read_hop_prefix p = Inr (s, body)) (map (payload_of E) subs) (map seq_of subs)"
  unfolding list_all2_map1 list_all2_map2 list_all2_same using session_decodes by blast

interpretation hop: answering_listener session_serves
proof unfold_locales
  fix fs and xs :: "('d, 'h) in_effect list"
  assume "session_serves fs xs"
  then obtain E :: "('d, 'h) out_env" and L names lo subs lo' c n negotiated where
      s: "session E L names lo subs lo'" "prefix (ic_input c) (bytes_sent lo')" "fs = map seq_of subs"
    and xs: "xs = ic_log (snd (serve_frames n L negotiated (c\<lparr>ic_log := []\<rparr>)))"
    unfolding session_serves_def by blast
  note log = session_log(1)[OF s(1,2), of n negotiated, folded xs]
  show "l_run (L_Open []) xs \<noteq> None" unfolding xs by (rule serve_frames_state)
  show "prefix (arrivals False xs) fs"
    unfolding s(3) by (rule frames_log_arrivals[OF log session_prefixes[OF s(1)]])
  show "list_all message_ok (replies xs)" by (rule frames_log_replies[OF log])
qed

lemma session_unrefused:
  assumes s: "session E L names lo subs lo'" and pre: "prefix (ic_input c) (bytes_sent lo')"
    and xs: "xs = ic_log (snd (serve_frames n L negotiated (c\<lparr>ic_log := []\<rparr>)))"
    and v: "v \<in> set (verdicts (L_Open []) xs)"
  shows "snd v = None"
proof -
  have log: "frames_log L (map (payload_of E) subs) xs" unfolding xs by (rule session_log(1)[OF s pre])
  have "refusals False xs = []"
  proof (rule frames_log_no_refusal[OF log])
    fix p q body k
    assume "p \<in> set (map (payload_of E) subs)" and pb: "read_hop_prefix p = Inr (q, body)"
    then obtain sub where "sub \<in> set subs" "p = payload_of E sub" by auto
    with session_decodes[OF s this(1)] pb
    show "\<exists>y. decode_hop_body (ie_blobs L) (ie_layout L) body (for_frame_cap (ie_max_frame_bytes L)) (ie_interner L k) = Inr y"
      by (metis Inr_inject prod.inject)
  qed
  moreover have "l_run (L_Open []) xs \<noteq> None" unfolding xs by (rule serve_frames_state)
  ultimately show ?thesis using unrefused_verdicts[OF _ _ _ v] by simp
qed

section \<open>A sample session\<close>

definition hop_out_env :: "(unit, unit) out_env" where
  "hop_out_env = idle_out_env\<lparr>oe_write := \<lambda>_. Takes 100, oe_flush := \<lambda>_. True, oe_resolve := resolve_str []\<rparr>"

definition hop_conn :: out_conn where
  "hop_conn = \<lparr>oc_input = [], oc_written = [], oc_peer_max_frame_bytes = 1000, oc_compression = Compression_None,
     oc_window = 8, oc_in_flight = [], oc_broken = False, oc_marks = []\<rparr>"

definition hop_sink :: logit_output where
  "hop_sink = output_new\<lparr>lo_stream := Some hop_conn\<rparr>"

definition hop_subs :: "(unit, unit) submission list" where
  "hop_subs = [(quiet_batch, no_context, quiet_seq)]"

definition hop_sent :: logit_output where
  "hop_sent = snd (submit_all hop_out_env hop_subs hop_sink)"

lemma hop_out_env_simps [simp]:
  "oe_write hop_out_env n = Takes 100" "oe_flush hop_out_env n" "oe_probe_open hop_out_env n"
  "\<not> oe_times_out hop_out_env n" "\<not> oe_samples_trace hop_out_env i" "oe_frame hop_out_env = stored_env"
  "oe_resolve hop_out_env = resolve_str []"
  by (simp_all add: hop_out_env_def idle_out_env_def)

lemma hop_payload_quiet: "hop_payload hop_out_env quiet_batch no_context quiet_seq = quiet_payload"
  unfolding hop_payload_def hop_out_env_simps if_False by code_simp

lemma quiet_frame_framed: "framed stored_env Compression_None 1000 quiet_payload quiet_frame"
  by (simp add: framed_def write_frame_eq quiet_frame_def frame_body_def quiet_payload_def
      MAX_SANE_UNCOMPRESSED_LEN_def compressed_bound_def saturating_add_u32_def U32_MAX_def)

lemma length_quiet_frame: "length quiet_frame = 46"
  by (simp add: quiet_frame_def quiet_payload_def HEADER_LEN_def)

lemma hop_submitted:
  "fst (submit_all hop_out_env hop_subs hop_sink) = [Inr ()] \<and> bytes_sent hop_sent = quiet_frame"
proof -
  have "write_counting hop_out_env quiet_frame [] n = (True, quiet_frame, n + 2)" for n
    using length_quiet_frame
    by (subst write_counting.simps, subst write_counting.simps) (auto simp: WRITE_CHUNK_def)
  moreover have "length quiet_payload = 22" by (simp add: quiet_payload_def)
  ultimately show ?thesis
    using quiet_frame_framed
    by (simp add: hop_sent_def hop_subs_def hop_sink_def bytes_sent_def submit_def submit_frame_def output_new_def
        hop_conn_def covers_def take_conn_def hop_payload_quiet frame_on_conn_def framed_def write_frame_on_def
        write_with_progress_def conn_nothing_in_flight_def MAX_SANE_UNCOMPRESSED_LEN_def Let_def record_in_flight_def
        o_emit_def o_tick_def)
qed

lemma hop_session: "session hop_out_env (quiet_env takes) [] hop_sink hop_subs hop_sent"
proof -
  have blobs: "oe_blobs hop_out_env = ie_blobs (quiet_env takes)"
    by (simp add: hop_out_env_def idle_out_env_def quiet_env_def)
  have "submit_all hop_out_env hop_subs hop_sink = (replicate (length hop_subs) (Inr ()), hop_sent)"
    using hop_submitted by (simp add: hop_sent_def prod_eq_iff) (simp add: hop_subs_def)
  moreover have "wired hop_out_env (quiet_env takes) []"
    using blobs stored_env_laws by (simp add: wired_def interner_ok_def quiet_env_def)
  moreover have "patient hop_out_env" using stored_env_laws by (simp add: patient_def)
  moreover have "sendable hop_out_env (quiet_env takes) (quiet_batch, no_context, quiet_seq)"
  proof -
    have sym: "batch_symbols (oe_blobs hop_out_env) (quiet_batch :: (symbol, unit, unit) event_batch) = []" by code_simp
    have "batch_ok (oe_blobs hop_out_env) (quiet_batch :: (symbol, unit, unit) event_batch)"
      "length (batch_symbols (oe_blobs hop_out_env) (quiet_batch :: (symbol, unit, unit) event_batch)) = 0"
      "length (encode_batch (oe_blobs hop_out_env) (resolve_str []) quiet_batch) = 4"
      "batch_cost (oe_blobs hop_out_env) (ie_layout (quiet_env takes)) (resolve_str []) quiet_batch = 0"
      subgoal by (simp add: batch_ok_def quiet_batch_def resource_default_def attrs_ok_def)
      subgoal by code_simp
      subgoal by code_simp
      subgoal unfolding batch_cost_def using sym by (simp add: sections_cost_def quiet_batch_def resource_default_def batch_scope_cost_def dict_cost_def list_cost_def
          attrs_cost_def saturating_mul_def)
      done
    then show ?thesis
      by (simp add: sendable_def decodable_def provenance_ok_def no_context_def sent_trace_def hop_trace_ok_def
          seq_ok_def quiet_seq_def SENDER_ID_BYTES_def) (simp add: quiet_batch_def)
  qed
  ultimately show ?thesis
    by (simp add: session_def hop_sink_def hop_subs_def hop_conn_def covers_def increasing_def seq_of_def quiet_env_def)
qed

section \<open>Properties\<close>

text \<open>
  C2. A session settles: after the sink's submissions went out on one connection, a listener that
  reads any prefix of the bytes, in any pieces and with any timing, writes answers the sink always
  trusts. Awaiting them commits the frames from the oldest on, in order and without an error; every
  committed frame was handled by the listener; the frames left are exactly the other submissions,
  still in flight, and nothing but a \<open>Reject\<close> can be left on the wire.
\<close>

theorem hop_session_settles:
  assumes s: "session E L names lo subs lo'" and pre: "prefix (ic_input c) (bytes_sent lo')"
    and xs: "xs = ic_log (snd (serve_frames n L negotiated (c\<lparr>ic_log := []\<rparr>)))"
  shows "\<exists>settled rest lo2 ms. map seq_of subs = settled @ rest \<and> list_all (\<lambda>q. handled q xs) settled \<and>
    drain E (length settled) (answered_with E (replies xs) lo') = (replicate (length settled) (Inr ()), lo2) \<and>
    sink_at (oe_frame E) ms (map unacked rest) lo2 \<and> list_all (\<lambda>m. \<exists>r. m = CM_Reject r) ms"
proof -
  have serves: "session_serves (map seq_of subs) xs" using s pre xs unfolding session_serves_def by blast
  obtain conn where "lo_stream lo' = Some conn" "\<not> oc_broken conn" "oc_in_flight conn = map unacked (map seq_of subs)"
    using session_log(2)[OF s pre] by blast
  then have at: "sink_at (oe_frame E) (replies xs) (map unacked (map seq_of subs)) (answered_with E (replies xs) lo')"
    by (simp add: sink_at_def answered_with_def)
  have ok: "patient E" "increasing (map seq_of subs)" using s by (simp_all add: session_def)
  let ?vs = "verdicts (L_Open []) xs"
  from hop.answers_settle[OF ok(1) serves ok(2) at] obtain lo2 ms rest where d:
      "drain E (length ?vs) (answered_with E (replies xs) lo') = (map verdict_result ?vs, lo2)"
      "map fst ?vs @ rest = map seq_of subs"
      "sink_at (oe_frame E) ms (map unacked rest) lo2" "list_all (\<lambda>m. \<exists>r. m = CM_Reject r) ms"
    by (auto simp: drained_def)
  note none = session_unrefused[OF s pre xs]
  then have "map verdict_result ?vs = replicate (length (map fst ?vs)) (Inr ())"
    by (intro replicate_eqI) (auto simp: verdict_result_def)
  moreover have "list_all (\<lambda>q. handled q xs) (map fst ?vs)"
    using hop.accepted_handled[OF serves] none by (force simp: list_all_iff)
  ultimately show ?thesis using d
    by (intro exI[of _ "map fst ?vs"] exI[of _ rest] exI[of _ lo2] exI[of _ ms]) simp
qed

theorem hop_session_settles_witness:
  "\<exists>settled rest lo2 ms. map seq_of hop_subs = settled @ rest \<and> list_all (\<lambda>q. handled q quiet_log) settled \<and>
    drain hop_out_env (length settled) (answered_with hop_out_env (replies quiet_log) hop_sent)
      = (replicate (length settled) (Inr ()), lo2) \<and>
    sink_at (oe_frame hop_out_env) ms (map unacked rest) lo2 \<and> list_all (\<lambda>m. \<exists>r. m = CM_Reject r) ms"
proof (rule hop_session_settles[OF hop_session])
  show "prefix (ic_input quiet_conn) (bytes_sent hop_sent)" using hop_submitted by (simp add: quiet_conn_def)
  show "quiet_log = ic_log (snd (serve_frames 2 (quiet_env (\<lambda>_. True)) Compression_None (quiet_conn\<lparr>ic_log := []\<rparr>)))"
    by (rule quiet_run[symmetric])
qed

text \<open>
  C11. What a session delivers is what was submitted: every batch the listener offers to its
  consumers carries the sequence number, the text, the provenance and the sampled trace context of
  one of the sink's submissions, read through a string table that extends the listener's own.
\<close>

theorem hop_session_delivers:
  assumes s: "session E L names lo subs lo'" and pre: "prefix (ic_input c) (bytes_sent lo')"
    and relayed: "Fx_Relayed q batch' p' trace' took
      \<in> set (ic_log (snd (serve_frames n L negotiated (c\<lparr>ic_log := []\<rparr>))))"
  shows "\<exists>batch ctx k t'. (batch, ctx, q) \<in> set subs \<and> batch_text t' batch' = batch_text names batch \<and>
    provenance_text t' p' = provenance_text names (bc_provenance ctx) \<and> trace' = sent_trace E ctx \<and>
    distinct t' \<and> prefix (ie_interner L k) t'"
proof -
  obtain p body k b' t' where p: "p \<in> set (map (payload_of E) subs)" "read_hop_prefix p = Inr (q, body)"
      "decode_hop_body (ie_blobs L) (ie_layout L) body (for_frame_cap (ie_max_frame_bytes L)) (ie_interner L k)
        = Inr ((batch', p', trace'), b', t')"
    using frames_log_relayed[OF session_log(1)[OF s pre] relayed] by blast
  then obtain sub where sub: "sub \<in> set subs" "p = payload_of E sub" by auto
  obtain batch ctx q' where parts: "sub = (batch, ctx, q')" by (cases sub)
  from session_decodes[OF s sub(1)] p(2) have "q' = q" by (auto simp: sub(2) parts seq_of_def)
  moreover from session_decodes[OF s sub(1)] p(2,3)
  have "batch_text t' batch' = batch_text names batch \<and> provenance_text t' p' = provenance_text names (bc_provenance ctx) \<and>
      trace' = sent_trace E ctx \<and> distinct t' \<and> prefix (ie_interner L k) t'"
    unfolding sub(2) parts by (auto dest: spec[of _ k])
  ultimately show ?thesis using sub(1) parts by blast
qed

theorem hop_session_delivers_witness:
  "\<exists>batch ctx k t'. (batch, ctx, quiet_seq) \<in> set hop_subs \<and> batch_text t' quiet_batch = batch_text [] batch \<and>
    provenance_text t' \<lparr>pv_origin = None, pv_previous = None\<rparr> = provenance_text [] (bc_provenance ctx) \<and>
    None = sent_trace hop_out_env ctx \<and> distinct t' \<and> prefix (ie_interner (quiet_env (\<lambda>_. True)) k) t'"
proof (rule hop_session_delivers[OF hop_session])
  show "prefix (ic_input quiet_conn) (bytes_sent hop_sent)" using hop_submitted by (simp add: quiet_conn_def)
  show "Fx_Relayed quiet_seq quiet_batch \<lparr>pv_origin = None, pv_previous = None\<rparr> None True
      \<in> set (ic_log (snd (serve_frames 2 (quiet_env (\<lambda>_. True)) Compression_None (quiet_conn\<lparr>ic_log := []\<rparr>))))"
    unfolding quiet_run by (simp add: quiet_log_def quiet_answered_def quiet_taken_def)
qed

end
