(* ===== verification/Mem_Buffer.thy ===== *)
theory Mem_Buffer
  imports Prelude
begin

text \<open>
  The bounded buffer a consumer acknowledges (\<open>crates/logit-proto/src/buffer.rs\<close>): the contract of
  the trait \<open>Buffer\<close> as a locale, what its client may conclude from it, and \<open>InMemoryBuffer\<close>, which
  provides it. Weights are \<open>u64\<close>, kept as naturals with the saturation written out.
\<close>

section \<open>The buffer\<close>

datatype 'a push_outcome = Outcome_Accepted | Outcome_Evicted "'a list" | Outcome_Rejected 'a

datatype drop_policy = Evict_Oldest | Reject_Newest

record 'a mem_buffer =
  mb_items :: "('a \<times> nat) list"
  mb_max_len :: nat
  mb_max_weight :: nat
  mb_weight :: nat
  mb_overflow :: drop_policy
  mb_reserved :: nat

definition buffer_new :: "nat \<Rightarrow> nat \<Rightarrow> drop_policy \<Rightarrow> 'a mem_buffer" where
  "buffer_new max_len max_weight overflow =
     \<lparr>mb_items = [], mb_max_len = max_len, mb_max_weight = max_weight, mb_weight = 0, mb_overflow = overflow,
      mb_reserved = 0\<rparr>"

definition buffer_would_overflow :: "nat \<Rightarrow> 'a mem_buffer \<Rightarrow> bool" where
  "buffer_would_overflow w b \<longleftrightarrow>
     length (mb_items b) \<ge> mb_max_len b \<or> saturating_add (mb_weight b) w > mb_max_weight b"

text \<open>\<open>VecDeque::remove\<close> of the first item past the reserved ones, with its weight.\<close>

definition remove_unreserved :: "'a mem_buffer \<Rightarrow> 'a mem_buffer" where
  "remove_unreserved b =
     b\<lparr>mb_items := take (mb_reserved b) (mb_items b) @ drop (Suc (mb_reserved b)) (mb_items b),
       mb_weight := mb_weight b - snd (mb_items b ! mb_reserved b)\<rparr>"

function evict_to_fit :: "nat \<Rightarrow> 'a mem_buffer \<Rightarrow> 'a list \<times> 'a mem_buffer" where
  "evict_to_fit w b =
     (if buffer_would_overflow w b \<and> mb_reserved b < length (mb_items b) then
        (let (evicted, b') = evict_to_fit w (remove_unreserved b)
         in (fst (mb_items b ! mb_reserved b) # evicted, b'))
      else ([], b))"
  by pat_completeness auto
termination
  by (relation "measure (\<lambda>(w, b). length (mb_items b))") (auto simp: remove_unreserved_def)

declare evict_to_fit.simps [simp del]

definition append_item :: "'a \<Rightarrow> nat \<Rightarrow> 'a mem_buffer \<Rightarrow> 'a mem_buffer" where
  "append_item item w b = b\<lparr>mb_items := mb_items b @ [(item, w)], mb_weight := saturating_add (mb_weight b) w\<rparr>"

definition buffer_push :: "'a \<Rightarrow> nat \<Rightarrow> 'a mem_buffer \<Rightarrow> 'a push_outcome \<times> 'a mem_buffer" where
  "buffer_push item w b =
     (if \<not> buffer_would_overflow w b then (Outcome_Accepted, append_item item w b)
      else
        (case mb_overflow b of
           Evict_Oldest \<Rightarrow> (let (evicted, b') = evict_to_fit w b in (Outcome_Evicted evicted, append_item item w b'))
         | Reject_Newest \<Rightarrow> (Outcome_Rejected item, b)))"

definition buffer_peek_at :: "nat \<Rightarrow> 'a mem_buffer \<Rightarrow> 'a option \<times> 'a mem_buffer" where
  "buffer_peek_at n b =
     (if n < length (mb_items b) then (Some (fst (mb_items b ! n)), b\<lparr>mb_reserved := max (mb_reserved b) (n + 1)\<rparr>)
      else (None, b))"

definition buffer_peek :: "'a mem_buffer \<Rightarrow> 'a option \<times> 'a mem_buffer" where
  "buffer_peek b = buffer_peek_at 0 b"

definition buffer_commit :: "'a mem_buffer \<Rightarrow> 'a option \<times> 'a mem_buffer" where
  "buffer_commit b =
     (let b = b\<lparr>mb_reserved := mb_reserved b - 1\<rparr> in
      case mb_items b of
        [] \<Rightarrow> (None, b)
      | (item, w) # rest \<Rightarrow> (Some item, b\<lparr>mb_items := rest, mb_weight := mb_weight b - w\<rparr>))"

section \<open>The contract of a buffer\<close>

text \<open>
  \<open>contents\<close> is the queue the buffer stands for and \<open>reserved\<close> how many of its front items a
  consumer holds. A push adds its item at the back, or hands it back; it may evict, but only what
  stands behind the reserved items, oldest first.
\<close>

definition pushed :: "'a \<Rightarrow> nat \<Rightarrow> 'a list \<Rightarrow> 'a push_outcome \<Rightarrow> 'a list \<Rightarrow> bool" where
  "pushed item res before result after \<longleftrightarrow>
     (case result of
        Outcome_Accepted \<Rightarrow> after = before @ [item]
      | Outcome_Evicted evicted \<Rightarrow> \<exists>rest. drop res before = evicted @ rest \<and> after = take res before @ rest @ [item]
      | Outcome_Rejected item' \<Rightarrow> item' = item \<and> after = before)"

locale ack_buffer =
  fixes inv :: "'b \<Rightarrow> bool"
    and contents :: "'b \<Rightarrow> 'a list"
    and reserved :: "'b \<Rightarrow> nat"
    and push :: "'a \<Rightarrow> nat \<Rightarrow> 'b \<Rightarrow> 'a push_outcome \<times> 'b"
    and peek_at :: "nat \<Rightarrow> 'b \<Rightarrow> 'a option \<times> 'b"
    and commit :: "'b \<Rightarrow> 'a option \<times> 'b"
  assumes reserved_le: "inv b \<Longrightarrow> reserved b \<le> length (contents b)"
    and push_law: "inv b \<Longrightarrow> push item w b = (result, b') \<Longrightarrow>
      inv b' \<and> reserved b' = reserved b \<and> pushed item (reserved b) (contents b) result (contents b')"
    and peek_law: "inv b \<Longrightarrow> peek_at n b = (shown, b') \<Longrightarrow>
      inv b' \<and> contents b' = contents b \<and>
      (if n < length (contents b) then shown = Some (contents b ! n) \<and> reserved b' = max (reserved b) (n + 1)
       else shown = None \<and> reserved b' = reserved b)"
    and commit_law: "inv b \<Longrightarrow> commit b = (taken, b') \<Longrightarrow>
      inv b' \<and> reserved b' = reserved b - 1 \<and> contents b' = tl (contents b) \<and>
      taken = (case contents b of [] \<Rightarrow> None | x # _ \<Rightarrow> Some x)"
begin

text \<open>Pushes one after the other.\<close>

abbreviation pushes :: "('a \<times> nat) list \<Rightarrow> 'b \<Rightarrow> 'b" where
  "pushes xs b \<equiv> fold (\<lambda>(item, w) b. snd (push item w b)) xs b"

lemma push_keeps:
  assumes "inv b" and "push item w b = (r, b')"
  shows "take (reserved b) (contents b') = take (reserved b) (contents b)"
  using push_law[OF assms] reserved_le[OF assms(1)] by (auto simp: pushed_def split: push_outcome.splits)

lemma pushes_keep:
  "inv b \<Longrightarrow> inv (pushes xs b) \<and> reserved (pushes xs b) = reserved b \<and>
     take (reserved b) (contents (pushes xs b)) = take (reserved b) (contents b)"
proof (induction xs arbitrary: b)
  case (Cons x xs)
  obtain item w r b' where p: "x = (item, w)" "push item w b = (r, b')" by (metis prod.collapse)
  note l = push_law[OF Cons.prems p(2)] push_keeps[OF Cons.prems p(2)]
  from Cons.IH[of b'] l p show ?case by simp
qed simp

text \<open>What a consumer was shown is what it commits, whatever is pushed in between.\<close>

lemma shown_is_committed:
  assumes ok: "inv b" and shown: "peek_at 0 b = (Some item, b1)"
  shows "fst (commit (pushes xs b1)) = Some item"
proof -
  have c: "contents b \<noteq> []" "item = contents b ! 0" "inv b1" "contents b1 = contents b" "reserved b1 = max (reserved b) 1"
    using peek_law[OF ok shown] by (auto split: if_splits)
  note k = pushes_keep[OF c(3), of xs]
  have "take 1 (contents (pushes xs b1)) = take 1 (contents b)"
    using arg_cong[where f = "take 1", OF conjunct2[OF conjunct2[OF k]]] c by (simp add: min_def split: if_splits)
  then have "contents (pushes xs b1) \<noteq> []" "hd (contents (pushes xs b1)) = item"
    using c by (cases "contents b"; cases "contents (pushes xs b1)"; simp)+
  moreover obtain r b' where "commit (pushes xs b1) = (r, b')" by (cases "commit (pushes xs b1)")
  ultimately show ?thesis using commit_law[of "pushes xs b1" r b'] k by (auto split: list.splits)
qed

end

section \<open>The in-memory buffer provides it\<close>

abbreviation buffer_contents :: "'a mem_buffer \<Rightarrow> 'a list" where
  "buffer_contents b \<equiv> map fst (mb_items b)"

abbreviation weights :: "('a \<times> nat) list \<Rightarrow> nat" where
  "weights xs \<equiv> sum_list (map snd xs)"

text \<open>The reserved items are there, and the weight kept is at most that of the items.\<close>

definition buffer_ok :: "'a mem_buffer \<Rightarrow> bool" where
  "buffer_ok b \<longleftrightarrow> mb_reserved b \<le> length (mb_items b) \<and> mb_weight b \<le> weights (mb_items b)"

text \<open>The buffer after its first \<open>k\<close> unreserved items are gone.\<close>

definition without :: "nat \<Rightarrow> 'a mem_buffer \<Rightarrow> 'a mem_buffer" where
  "without k b =
     b\<lparr>mb_items := take (mb_reserved b) (mb_items b) @ drop (mb_reserved b + k) (mb_items b),
       mb_weight := mb_weight b - weights (take k (drop (mb_reserved b) (mb_items b)))\<rparr>"

lemma without_simps [simp]:
  "mb_reserved (without k b) = mb_reserved b" "mb_max_len (without k b) = mb_max_len b"
  "mb_max_weight (without k b) = mb_max_weight b" "mb_overflow (without k b) = mb_overflow b"
  by (simp_all add: without_def)

lemma without_0 [simp]: "without 0 b = b"
  by (simp add: without_def)

lemma without_Suc:
  assumes "mb_reserved b < length (mb_items b)"
  shows "without k (remove_unreserved b) = without (Suc k) b"
proof -
  let ?r = "mb_reserved b" and ?xs = "mb_items b"
  have "drop ?r ?xs = ?xs ! ?r # drop (Suc ?r) ?xs" using assms by (simp add: Cons_nth_drop_Suc)
  then show ?thesis using assms by (simp add: without_def remove_unreserved_def min_def add.commute)
qed

text \<open>Eviction stops as soon as the item fits, or when only reserved items are left.\<close>

lemma evict_to_fit_spec:
  assumes "mb_reserved b \<le> length (mb_items b)"
  shows "\<exists>k \<le> length (mb_items b) - mb_reserved b.
    evict_to_fit w b = (map fst (take k (drop (mb_reserved b) (mb_items b))), without k b) \<and>
    (\<not> buffer_would_overflow w (without k b) \<or> k = length (mb_items b) - mb_reserved b) \<and>
    (\<forall>j < k. buffer_would_overflow w (without j b))"
  using assms
proof (induction w b rule: evict_to_fit.induct)
  case (1 w b)
  let ?r = "mb_reserved b" and ?xs = "mb_items b"
  show ?case
  proof (cases "buffer_would_overflow w b \<and> ?r < length ?xs")
    case False
    then show ?thesis using "1.prems" by (intro exI[of _ 0]) (auto simp: evict_to_fit.simps[of w b])
  next
    case True
    let ?b = "remove_unreserved b"
    have r: "mb_reserved ?b = ?r" "mb_items ?b = take ?r ?xs @ drop (Suc ?r) ?xs" by (simp_all add: remove_unreserved_def)
    have len: "length (mb_items ?b) - ?r = length ?xs - ?r - 1" using True r by simp
    have tail: "drop ?r (mb_items ?b) = drop (Suc ?r) ?xs" using True r by simp
    have hd: "drop ?r ?xs = ?xs ! ?r # drop (Suc ?r) ?xs" using True by (simp add: Cons_nth_drop_Suc)
    have le: "mb_reserved ?b \<le> length (mb_items ?b)" using conjunct2[OF True] r by simp
    from "1.IH"[OF True le] obtain k where k: "k \<le> length ?xs - ?r - 1"
        "evict_to_fit w ?b = (map fst (take k (drop (Suc ?r) ?xs)), without (Suc k) b)"
        "\<not> buffer_would_overflow w (without (Suc k) b) \<or> k = length ?xs - ?r - 1"
        "\<forall>j < k. buffer_would_overflow w (without (Suc j) b)"
      unfolding r(1) len tail using without_Suc[OF conjunct2[OF True]] by auto
    have "\<forall>j < Suc k. buffer_would_overflow w (without j b)" using k(4) True by (auto simp: less_Suc_eq_0_disj)
    moreover have "evict_to_fit w b = (map fst (take (Suc k) (drop ?r ?xs)), without (Suc k) b)"
      unfolding evict_to_fit.simps[of w b] hd using True k(2) by simp
    ultimately show ?thesis using k True by (intro exI[of _ "Suc k"]) auto
  qed
qed

lemma weights_without:
  assumes "mb_reserved b \<le> length (mb_items b)"
  shows "weights (mb_items b) = weights (mb_items (without k b)) + weights (take k (drop (mb_reserved b) (mb_items b)))"
proof -
  let ?r = "mb_reserved b" and ?xs = "mb_items b"
  have "mb_items (without k b) = take ?r ?xs @ drop (?r + k) ?xs" by (simp add: without_def)
  moreover have "?xs = take ?r ?xs @ take k (drop ?r ?xs) @ drop (?r + k) ?xs"
    by (metis append_take_drop_id drop_drop add.commute)
  then have "weights ?xs = weights (take ?r ?xs @ take k (drop ?r ?xs) @ drop (?r + k) ?xs)" by (rule arg_cong)
  ultimately show ?thesis by simp
qed

lemma without_ok: "buffer_ok b \<Longrightarrow> k \<le> length (mb_items b) - mb_reserved b \<Longrightarrow> buffer_ok (without k b)"
  using weights_without[of b k] by (simp add: buffer_ok_def) (simp add: without_def, linarith)

lemma append_ok: "buffer_ok b \<Longrightarrow> buffer_ok (append_item item w b)"
  by (auto simp: buffer_ok_def append_item_def saturating_add_def)

text \<open>A push in full: what is evicted, and when a bound is passed.\<close>

lemma buffer_push_cases:
  assumes ok: "buffer_ok b"
  obtains (accepted) "\<not> buffer_would_overflow w b" "buffer_push item w b = (Outcome_Accepted, append_item item w b)"
  | (evicted) k where "buffer_would_overflow w b" "mb_overflow b = Evict_Oldest" "k \<le> length (mb_items b) - mb_reserved b"
      "buffer_push item w b = (Outcome_Evicted (map fst (take k (drop (mb_reserved b) (mb_items b)))), append_item item w (without k b))"
      "\<not> buffer_would_overflow w (without k b) \<or> k = length (mb_items b) - mb_reserved b"
      "\<forall>j < k. buffer_would_overflow w (without j b)"
  | (rejected) "buffer_would_overflow w b" "mb_overflow b = Reject_Newest" "buffer_push item w b = (Outcome_Rejected item, b)"
proof (cases "buffer_would_overflow w b")
  case True
  have r: "mb_reserved b \<le> length (mb_items b)" using ok by (simp add: buffer_ok_def)
  show ?thesis
  proof (cases "mb_overflow b")
    case Evict_Oldest
    from evict_to_fit_spec[OF r, of w] obtain k where "k \<le> length (mb_items b) - mb_reserved b"
      "evict_to_fit w b = (map fst (take k (drop (mb_reserved b) (mb_items b))), without k b)"
      "\<not> buffer_would_overflow w (without k b) \<or> k = length (mb_items b) - mb_reserved b"
      "\<forall>j < k. buffer_would_overflow w (without j b)" by blast
    then show ?thesis using True Evict_Oldest by (intro evicted[of k]) (simp_all add: buffer_push_def)
  qed (use True in \<open>auto intro!: rejected simp: buffer_push_def\<close>)
qed (auto intro: accepted simp: buffer_push_def)

interpretation mem_buffer: ack_buffer buffer_ok buffer_contents mb_reserved buffer_push buffer_peek_at buffer_commit
proof unfold_locales
  fix b b' :: "'a mem_buffer" and item w result
  assume ok: "buffer_ok b" and p: "buffer_push item w b = (result, b')"
  from ok show "buffer_ok b' \<and> mb_reserved b' = mb_reserved b \<and>
      pushed item (mb_reserved b) (buffer_contents b) result (buffer_contents b')"
  proof (cases rule: buffer_push_cases[of b w item])
    case (evicted k)
    let ?r = "mb_reserved b" and ?xs = "mb_items b"
    have "drop (?r + k) ?xs = drop k (drop ?r ?xs)" by (simp add: add.commute)
    then have split: "drop ?r (buffer_contents b) = map fst (take k (drop ?r ?xs)) @ map fst (drop (?r + k) ?xs)"
      unfolding map_append[symmetric] by (simp only: append_take_drop_id drop_map)
    have res: "result = Outcome_Evicted (map fst (take k (drop ?r ?xs)))" "b' = append_item item w (without k b)" using p evicted(4) by simp_all
    have "pushed item ?r (buffer_contents b) result (buffer_contents b')"
      unfolding pushed_def res push_outcome.case
      by (rule exI, rule conjI, rule split) (simp add: append_item_def without_def take_map)
    then show ?thesis using res append_ok[OF without_ok[OF ok evicted(3)]] by (simp add: append_item_def)
  qed (use p ok append_ok[OF ok] in \<open>auto simp: pushed_def append_item_def\<close>)
next
  fix b b' :: "'a mem_buffer" and n shown
  assume "buffer_ok b" and "buffer_peek_at n b = (shown, b')"
  then show "buffer_ok b' \<and> buffer_contents b' = buffer_contents b \<and>
      (if n < length (buffer_contents b) then shown = Some (buffer_contents b ! n) \<and> mb_reserved b' = max (mb_reserved b) (n + 1)
       else shown = None \<and> mb_reserved b' = mb_reserved b)"
    by (auto simp: buffer_peek_at_def buffer_ok_def split: if_splits)
next
  fix b b' :: "'a mem_buffer" and taken
  assume "buffer_ok b" and "buffer_commit b = (taken, b')"
  then show "buffer_ok b' \<and> mb_reserved b' = mb_reserved b - 1 \<and> buffer_contents b' = tl (buffer_contents b) \<and>
      taken = (case buffer_contents b of [] \<Rightarrow> None | x # _ \<Rightarrow> Some x)"
    by (auto simp: buffer_commit_def buffer_ok_def Let_def split: list.splits)
qed (simp add: buffer_ok_def)

section \<open>Properties\<close>

text \<open>
  What a consumer was shown is what it commits: once \<open>peek\<close> has returned an item, a commit
  removes that item, whatever was pushed in between and under either policy.
\<close>

theorem peeked_is_committed:
  assumes "buffer_ok b" and "buffer_peek_at 0 b = (Some item, b1)"
  shows "fst (buffer_commit (fold (\<lambda>(x, w) b. snd (buffer_push x w b)) xs b1)) = Some item"
  by (rule mem_buffer.shown_is_committed[OF assms])

definition full_buffer :: "nat mem_buffer" where
  "full_buffer = \<lparr>mb_items = [(4, 1), (5, 1)], mb_max_len = 2, mb_max_weight = 10, mb_weight = 2, mb_overflow = Evict_Oldest, mb_reserved = 0\<rparr>"

lemma full_buffer_ok: "buffer_ok full_buffer"
  by (simp add: buffer_ok_def full_buffer_def)

theorem peeked_is_committed_witness:
  "fst (buffer_commit (fold (\<lambda>(x, w) b. snd (buffer_push x w b)) [(6, 1), (7, 1)] (full_buffer\<lparr>mb_reserved := 1\<rparr>))) = Some 4"
  by (rule peeked_is_committed[OF full_buffer_ok]) (simp add: buffer_peek_at_def full_buffer_def)

text \<open>
  A push keeps the bounds: after it the buffer is within both, or it handed the item back and
  changed nothing, or the item stands behind the reserved ones alone, over the bound because nothing
  else was left to evict. It evicts no more than it has to: with one item fewer gone the new one would
  not have fitted.
\<close>

theorem push_keeps_bounds:
  assumes ok: "buffer_ok b" and p: "buffer_push item w b = (r, b')"
  shows "(length (mb_items b') \<le> mb_max_len b \<and> mb_weight b' \<le> mb_max_weight b \<or>
      r = Outcome_Rejected item \<and> b' = b \<or> mb_items b' = take (mb_reserved b) (mb_items b) @ [(item, w)]) \<and>
    (\<forall>evicted. r = Outcome_Evicted evicted \<longrightarrow> (\<forall>j < length evicted. buffer_would_overflow w (without j b)))"
  using ok
proof (cases rule: buffer_push_cases[of b w item])
  case (evicted k)
  let ?b = "without k b"
  have e: "r = Outcome_Evicted (map fst (take k (drop (mb_reserved b) (mb_items b))))" "b' = append_item item w ?b" using p evicted(4) by simp_all
  show ?thesis
  proof (cases "buffer_would_overflow w ?b")
    case True
    then have "k = length (mb_items b) - mb_reserved b" using evicted(5) by simp
    then have "mb_items b' = take (mb_reserved b) (mb_items b) @ [(item, w)]" by (simp add: e append_item_def without_def)
    then show ?thesis using e evicted(6) by simp
  next
    case False
    then show ?thesis using e evicted(6) by (simp add: append_item_def buffer_would_overflow_def)
  qed
qed (use p in \<open>auto simp: append_item_def buffer_would_overflow_def\<close>)

theorem push_keeps_bounds_witness:
  "\<exists>r b'. buffer_push 6 1 full_buffer = (r, b') \<and>
    (length (mb_items b') \<le> mb_max_len full_buffer \<and> mb_weight b' \<le> mb_max_weight full_buffer \<or>
      r = Outcome_Rejected 6 \<and> b' = full_buffer \<or> mb_items b' = take (mb_reserved full_buffer) (mb_items full_buffer) @ [(6, 1)]) \<and>
    (\<forall>evicted. r = Outcome_Evicted evicted \<longrightarrow> (\<forall>j < length evicted. buffer_would_overflow 1 (without j full_buffer)))"
proof -
  obtain r b' where p: "buffer_push 6 1 full_buffer = (r, b')" by (cases "buffer_push 6 1 full_buffer")
  show ?thesis by (rule exI, rule exI, rule conjI, rule p, rule push_keeps_bounds[OF full_buffer_ok p])
qed

text \<open>
  The weight kept is exact until a sum passes \<open>u64::MAX\<close>. It saturates there, and the items removed
  later take their full weight off it: from then on it may stay below the weight of what is held,
  even when that fits a \<open>u64\<close> again.
\<close>

lemma weight_exact:
  assumes "buffer_ok b" and "mb_weight b = weights (mb_items b)" and "weights (mb_items b) + w \<le> USIZE_MAX"
  shows "mb_weight (snd (buffer_push item w b)) = weights (mb_items (snd (buffer_push item w b)))"
    "mb_weight (snd (buffer_commit b)) = weights (mb_items (snd (buffer_commit b)))"
proof -
  show "mb_weight (snd (buffer_commit b)) = weights (mb_items (snd (buffer_commit b)))"
    using assms(2) by (auto simp: buffer_commit_def Let_def split: list.splits)
  have r: "mb_reserved b \<le> length (mb_items b)" using assms(1) by (simp add: buffer_ok_def)
  show "mb_weight (snd (buffer_push item w b)) = weights (mb_items (snd (buffer_push item w b)))"
    using assms(1)
  proof (cases rule: buffer_push_cases[of b w item])
    case (evicted k)
    have "mb_weight (without k b) = weights (mb_items (without k b))"
      using weights_without[OF r, of k] assms(2) by (simp add: without_def)
    moreover have "weights (mb_items (without k b)) \<le> weights (mb_items b)" using weights_without[OF r, of k] by simp
    ultimately show ?thesis using evicted(4) assms(3) by (simp add: append_item_def saturating_add_def)
  qed (use assms(2,3) in \<open>simp_all add: append_item_def saturating_add_def\<close>)
qed

lemma weight_lags:
  fixes b :: "nat mem_buffer"
  defines "b \<equiv> snd (buffer_commit (snd (buffer_push 2 5 (snd (buffer_push 1 USIZE_MAX (buffer_new 10 USIZE_MAX Evict_Oldest))))))"
  shows "mb_items b = [(2, 5)] \<and> mb_weight b = 0"
proof -
  have "buffer_push 1 USIZE_MAX (buffer_new 10 USIZE_MAX Evict_Oldest) =
      (Outcome_Accepted, append_item 1 USIZE_MAX (buffer_new 10 USIZE_MAX Evict_Oldest :: nat mem_buffer))"
    by (simp add: buffer_push_def buffer_would_overflow_def buffer_new_def saturating_add_def)
  moreover have "buffer_push 2 5 (append_item 1 USIZE_MAX (buffer_new 10 USIZE_MAX Evict_Oldest :: nat mem_buffer)) =
      (Outcome_Accepted, append_item 2 5 (append_item 1 USIZE_MAX (buffer_new 10 USIZE_MAX Evict_Oldest)))"
    by (simp add: buffer_push_def buffer_would_overflow_def buffer_new_def append_item_def saturating_add_def)
  ultimately show ?thesis
    by (simp add: b_def buffer_commit_def append_item_def buffer_new_def saturating_add_def)
qed

end
