(* ===== verification/Full_Watch.thy ===== *)
theory Full_Watch
  imports Float64
begin

text \<open>
  \<open>FullWatch\<close> (\<open>crates/logit-pipeline/src/buffer_full.rs\<close>): the episodes in which a bounded queue was
  full, the lines written about them, and the store-pressure signal. Instants and durations are
  nanoseconds; a line is what it prints, and its wording is left out.
\<close>

section \<open>Bounds and the cause of a full buffer\<close>

datatype overflow_policy = Block | Drop_Oldest | Drop_Newest

datatype queue_bound = Bound_Items | Bound_Weight

definition REPEAT_INTERVAL :: nat where "REPEAT_INTERVAL = 60 * 1000000000"

record send_limit =
  sl_limit :: nat
  sl_in_flight :: nat
  sl_last_send_nanos :: nat

definition send_limit_set :: "nat \<Rightarrow> nat \<Rightarrow> send_limit \<Rightarrow> send_limit" where
  "send_limit_set n in_flight s = s\<lparr>sl_limit := n, sl_in_flight := in_flight\<rparr>"

definition send_limit_answered :: "nat \<Rightarrow> send_limit \<Rightarrow> send_limit" where
  "send_limit_answered took s = s\<lparr>sl_last_send_nanos := max (min took USIZE_MAX) 1\<rparr>"

definition send_limit_cause :: "send_limit \<Rightarrow> (nat \<times> nat option) option" where
  "send_limit_cause s =
     (if sl_limit s = 0 \<or> sl_in_flight s < sl_limit s then None
      else Some (sl_limit s, if sl_last_send_nanos s = 0 then None else Some (sl_last_send_nanos s)))"

section \<open>Episodes\<close>

record totals =
  to_episodes :: nat
  to_items :: nat
  to_units :: nat
  to_blocked :: nat

definition totals_default :: totals where
  "totals_default = \<lparr>to_episodes = 0, to_items = 0, to_units = 0, to_blocked = 0\<rparr>"

definition totals_add :: "totals \<Rightarrow> totals \<Rightarrow> totals" where
  "totals_add t other =
     \<lparr>to_episodes = to_episodes t + to_episodes other, to_items = to_items t + to_items other,
      to_units = to_units t + to_units other, to_blocked = to_blocked t + to_blocked other\<rparr>"

record episode =
  ep_started :: nat
  ep_bound :: queue_bound
  ep_totals :: totals
  ep_shed :: "string option"
  ep_blocked_since :: "nat option"
  ep_announced :: bool

definition blocked_so_far :: "nat \<Rightarrow> episode \<Rightarrow> nat" where
  "blocked_so_far now ep =
     to_blocked (ep_totals ep) + (case ep_blocked_since ep of Some since \<Rightarrow> now - since | None \<Rightarrow> 0)"

text \<open>An episode's totals with its blocked time up to now.\<close>

definition totals_now :: "nat \<Rightarrow> episode \<Rightarrow> totals" where
  "totals_now now ep = (ep_totals ep)\<lparr>to_blocked := blocked_so_far now ep\<rparr>"

datatype happened = Shedding_Oldest | Shedding_New | Holding_Intake | So_Far totals

definition what_happened :: "nat \<Rightarrow> bool \<Rightarrow> episode \<Rightarrow> happened" where
  "what_happened now with_totals ep =
     (if with_totals then So_Far (totals_now now ep)
      else
        (case ep_shed ep of
           Some reason \<Rightarrow> if reason = ''overflow_oldest'' then Shedding_Oldest else Shedding_New
         | None \<Rightarrow> Holding_Intake))"

text \<open>A \<open>buffer_full\<close> line also carries the unannounced episodes before it.\<close>

datatype watch_line =
    Line_Full queue_bound bool nat happened "(nat \<times> nat option) option" "totals option"
  | Line_Recovered nat totals
  | Line_Full_At_Shutdown nat totals
  | Line_Shed_Unannounced bool totals

datatype watch_effect = Wx_Blocked bool | Wx_Line nat watch_line

section \<open>The watch\<close>

record full_watch =
  fw_recover_below :: f64
  fw_open :: bool
  fw_waiters :: nat
  fw_episode :: "episode option"
  fw_last_warn :: "nat option"
  fw_unannounced :: totals
  fw_send_limit :: send_limit
  fw_pressure :: bool
  fw_log :: "watch_effect list"

definition watch_new :: "f64 \<Rightarrow> full_watch" where
  "watch_new recover_below =
     \<lparr>fw_recover_below = recover_below, fw_open = False, fw_waiters = 0, fw_episode = None, fw_last_warn = None,
      fw_unannounced = totals_default, fw_send_limit = \<lparr>sl_limit = 0, sl_in_flight = 0, sl_last_send_nanos = 0\<rparr>,
      fw_pressure = False, fw_log = []\<rparr>"

definition fw_emit :: "watch_effect \<Rightarrow> full_watch \<Rightarrow> full_watch" where
  "fw_emit x w = w\<lparr>fw_log := fw_log w @ [x]\<rparr>"

definition raise_pressure :: "full_watch \<Rightarrow> full_watch" where
  "raise_pressure w = w\<lparr>fw_pressure := True\<rparr>"

definition over_bound :: "full_watch \<Rightarrow> full_watch" where
  "over_bound w = raise_pressure w"

definition ease_pressure :: "f64 \<Rightarrow> full_watch \<Rightarrow> full_watch" where
  "ease_pressure ratio w =
     (if f64_lt ratio F64_ONE \<and> fw_waiters w = 0 \<and> fw_pressure w then w\<lparr>fw_pressure := False\<rparr> else w)"

definition open_episode :: "nat \<Rightarrow> queue_bound \<Rightarrow> full_watch \<Rightarrow> episode \<times> full_watch" where
  "open_episode now bound w =
     (case fw_episode w of
        Some ep \<Rightarrow> (ep, w)
      | None \<Rightarrow>
          (\<lparr>ep_started = now, ep_bound = bound, ep_totals = totals_default, ep_shed = None, ep_blocked_since = None,
            ep_announced = False\<rparr>, w\<lparr>fw_open := True\<rparr>))"

definition due_warn :: "nat \<Rightarrow> full_watch \<Rightarrow> full_watch" where
  "due_warn now w =
     (if (case fw_last_warn w of Some at \<Rightarrow> now - at < REPEAT_INTERVAL | None \<Rightarrow> False) then w
      else
        (case fw_episode w of
           None \<Rightarrow> w
         | Some ep \<Rightarrow>
             (let elapsed = now - ep_started ep;
                  earlier = fw_unannounced w
              in fw_emit (Wx_Line now (Line_Full (ep_bound ep) (ep_announced ep) elapsed
                     (what_happened now (ep_announced ep \<or> elapsed \<noteq> 0) ep) (send_limit_cause (fw_send_limit w))
                     (if to_episodes earlier > 0 then Some earlier else None)))
                   (w\<lparr>fw_unannounced := totals_default, fw_last_warn := Some now,
                      fw_episode := Some (ep\<lparr>ep_announced := True\<rparr>)\<rparr>))))"

definition watch_dropped :: "nat \<Rightarrow> string \<Rightarrow> nat \<Rightarrow> queue_bound \<Rightarrow> full_watch \<Rightarrow> full_watch" where
  "watch_dropped now reason units bound w =
     (let (ep, w) = open_episode now bound (raise_pressure w);
          t = (ep_totals ep)\<lparr>to_items := to_items (ep_totals ep) + 1, to_units := saturating_add (to_units (ep_totals ep)) units\<rparr>
      in due_warn now (w\<lparr>fw_episode := Some (ep\<lparr>ep_totals := t, ep_shed := Some reason\<rparr>)\<rparr>))"

definition watch_waiting :: "nat \<Rightarrow> queue_bound \<Rightarrow> full_watch \<Rightarrow> full_watch" where
  "watch_waiting now bound w =
     (let w = (if fw_waiters w = 0 then fw_emit (Wx_Blocked True) w else w);
          (ep, w) = open_episode now bound (raise_pressure (w\<lparr>fw_waiters := fw_waiters w + 1\<rparr>));
          since = (case ep_blocked_since ep of None \<Rightarrow> Some now | Some s \<Rightarrow> Some s)
      in due_warn now (w\<lparr>fw_episode := Some (ep\<lparr>ep_blocked_since := since\<rparr>)\<rparr>))"

text \<open>\<open>Drop\<close> of the guard \<open>Waiting\<close>: the last waiter lowers the gauge and adds its wait to the episode.\<close>

definition waiting_drop :: "nat \<Rightarrow> full_watch \<Rightarrow> full_watch" where
  "waiting_drop now w =
     (if fw_waiters w \<noteq> 1 then w\<lparr>fw_waiters := fw_waiters w - 1\<rparr>
      else
        (let w = fw_emit (Wx_Blocked False) (w\<lparr>fw_waiters := 0\<rparr>) in
         case fw_episode w of
           None \<Rightarrow> w
         | Some ep \<Rightarrow>
             (case ep_blocked_since ep of
                None \<Rightarrow> w
              | Some since \<Rightarrow>
                  w\<lparr>fw_episode := Some (ep\<lparr>ep_blocked_since := None,
                      ep_totals := (ep_totals ep)\<lparr>to_blocked := to_blocked (ep_totals ep) + (now - since)\<rparr>\<rparr>)\<rparr>)))"

text \<open>The tick of \<open>wait\<close>.\<close>

definition watch_tick :: "nat \<Rightarrow> full_watch \<Rightarrow> full_watch" where
  "watch_tick now w = due_warn now (if fw_waiters w > 0 then fw_emit (Wx_Blocked True) w else w)"

definition watch_utilization :: "nat \<Rightarrow> f64 \<Rightarrow> full_watch \<Rightarrow> full_watch" where
  "watch_utilization now ratio w =
     (let w = ease_pressure ratio w in
      if \<not> fw_open w \<or> f64_le (fw_recover_below w) ratio \<or> fw_waiters w > 0 then w
      else
        (case fw_episode w of
           None \<Rightarrow> w
         | Some ep \<Rightarrow>
             (let w = w\<lparr>fw_episode := None, fw_open := False\<rparr> in
              if ep_announced ep then
                fw_emit (Wx_Line now (Line_Recovered (now - ep_started ep) (totals_now now ep))) w
              else w\<lparr>fw_unannounced := totals_add (fw_unannounced w) ((totals_now now ep)\<lparr>to_episodes := 1\<rparr>)\<rparr>)))"

definition watch_finish :: "nat \<Rightarrow> full_watch \<Rightarrow> full_watch" where
  "watch_finish now w =
     (let opened = fw_episode w;
          unannounced = fw_unannounced w;
          w = w\<lparr>fw_episode := None, fw_open := False, fw_unannounced := totals_default\<rparr>;
          shut = (\<lambda>still_open t.
            if to_items t > 0 then fw_emit (Wx_Line now (Line_Shed_Unannounced still_open t)) w else w)
      in case opened of
           None \<Rightarrow> shut False unannounced
         | Some ep \<Rightarrow>
             if ep_announced ep then
               fw_emit (Wx_Line now (Line_Full_At_Shutdown (now - ep_started ep) (totals_now now ep))) w
             else shut True (totals_add unannounced ((totals_now now ep)\<lparr>to_episodes := 1\<rparr>)))"

section \<open>What the lines tell\<close>

datatype watch_op =
    Op_Dropped nat string nat queue_bound
  | Op_Waiting nat queue_bound
  | Op_Waiting_Drop nat
  | Op_Tick nat
  | Op_Utilization nat f64
  | Op_Ease f64
  | Op_Over_Bound
  | Op_Limit nat nat
  | Op_Answered nat
  | Op_Finish nat

fun watch_step :: "watch_op \<Rightarrow> full_watch \<Rightarrow> full_watch" where
  "watch_step (Op_Dropped now reason units bound) w = watch_dropped now reason units bound w"
| "watch_step (Op_Waiting now bound) w = watch_waiting now bound w"
| "watch_step (Op_Waiting_Drop now) w = waiting_drop now w"
| "watch_step (Op_Tick now) w = watch_tick now w"
| "watch_step (Op_Utilization now ratio) w = watch_utilization now ratio w"
| "watch_step (Op_Ease ratio) w = ease_pressure ratio w"
| "watch_step Op_Over_Bound w = over_bound w"
| "watch_step (Op_Limit n in_flight) w = w\<lparr>fw_send_limit := send_limit_set n in_flight (fw_send_limit w)\<rparr>"
| "watch_step (Op_Answered took) w = w\<lparr>fw_send_limit := send_limit_answered took (fw_send_limit w)\<rparr>"
| "watch_step (Op_Finish now) w = watch_finish now w"

definition items_shed :: "watch_op list \<Rightarrow> nat" where
  "items_shed ops = length (filter (\<lambda>x. case x of Op_Dropped _ _ _ _ \<Rightarrow> True | _ \<Rightarrow> False) ops)"

text \<open>The items a line reports for good: those of the episodes it closes or carries.\<close>

fun line_items :: "watch_effect \<Rightarrow> nat" where
  "line_items (Wx_Line now (Line_Full bound announced elapsed happened cause earlier)) =
     (case earlier of Some t \<Rightarrow> to_items t | None \<Rightarrow> 0)"
| "line_items (Wx_Line now (Line_Recovered elapsed t)) = to_items t"
| "line_items (Wx_Line now (Line_Full_At_Shutdown elapsed t)) = to_items t"
| "line_items (Wx_Line now (Line_Shed_Unannounced still_open t)) = to_items t"
| "line_items (Wx_Blocked b) = 0"

abbreviation reported :: "full_watch \<Rightarrow> nat" where
  "reported w \<equiv> sum_list (map line_items (fw_log w))"

definition unreported :: "full_watch \<Rightarrow> nat" where
  "unreported w = to_items (fw_unannounced w) + (case fw_episode w of Some ep \<Rightarrow> to_items (ep_totals ep) | None \<Rightarrow> 0)"

text \<open>
  While an announced episode is open nothing else waits to be reported; unannounced episodes are
  counted; and the flag the consumer reads says whether an episode is open.
\<close>

definition watch_ok :: "full_watch \<Rightarrow> bool" where
  "watch_ok w \<longleftrightarrow> (fw_open w \<longleftrightarrow> fw_episode w \<noteq> None) \<and>
     (\<forall>ep. fw_episode w = Some ep \<and> ep_announced ep \<longrightarrow> fw_unannounced w = totals_default) \<and>
     (to_episodes (fw_unannounced w) = 0 \<longrightarrow> to_items (fw_unannounced w) = 0)"

text \<open>The times of the \<open>buffer_full\<close> lines.\<close>

fun full_time :: "watch_effect \<Rightarrow> nat option" where
  "full_time (Wx_Line now (Line_Full bound announced elapsed happened cause earlier)) = Some now"
| "full_time _ = None"

definition full_times :: "full_watch \<Rightarrow> nat list" where
  "full_times w = List.map_filter full_time (fw_log w)"

definition paced :: "full_watch \<Rightarrow> bool" where
  "paced w \<longleftrightarrow>
     sorted_wrt (\<lambda>a b. a + REPEAT_INTERVAL \<le> b) (full_times w) \<and>
     fw_last_warn w = (if full_times w = [] then None else Some (last (full_times w)))"

lemma fw_emit_simps [simp]:
  "fw_log (fw_emit x w) = fw_log w @ [x]" "fw_open (fw_emit x w) = fw_open w" "fw_episode (fw_emit x w) = fw_episode w"
  "fw_unannounced (fw_emit x w) = fw_unannounced w" "fw_last_warn (fw_emit x w) = fw_last_warn w"
  "fw_waiters (fw_emit x w) = fw_waiters w" "fw_send_limit (fw_emit x w) = fw_send_limit w"
  by (simp_all add: fw_emit_def)

lemma totals_items [simp]:
  "to_items totals_default = 0" "to_episodes totals_default = 0" "to_items (totals_add s t) = to_items s + to_items t"
  "to_episodes (totals_add s t) = to_episodes s + to_episodes t" "to_items (totals_now now ep) = to_items (ep_totals ep)"
  by (simp_all add: totals_default_def totals_add_def totals_now_def)

text \<open>The account of a watch: invariant, items reported or unreported, and pacing.\<close>

definition watch_account :: "nat \<Rightarrow> full_watch \<Rightarrow> bool" where
  "watch_account n w \<longleftrightarrow> watch_ok w \<and> reported w + unreported w = n \<and> paced w"

lemma due_warn_account:
  assumes "watch_account n w" shows "watch_account n (due_warn now w)"
proof (cases "(case fw_last_warn w of Some at \<Rightarrow> now - at < REPEAT_INTERVAL | None \<Rightarrow> False) \<or> fw_episode w = None")
  case False
  then obtain ep where ep: "fw_episode w = Some ep" by auto
  have "watch_ok (due_warn now w) \<and> reported (due_warn now w) + unreported (due_warn now w) = n"
    using assms False ep by (auto simp: watch_account_def watch_ok_def unreported_def due_warn_def Let_def)
  moreover have "paced (due_warn now w)"
  proof -
    have t: "full_times (due_warn now w) = full_times w @ [now]" "fw_last_warn (due_warn now w) = Some now"
      using False ep by (simp_all add: due_warn_def Let_def full_times_def map_filter_def)
    have p: "sorted_wrt (\<lambda>a b. a + REPEAT_INTERVAL \<le> b) (full_times w)"
      "fw_last_warn w = (if full_times w = [] then None else Some (last (full_times w)))"
      using assms by (simp_all add: watch_account_def paced_def)
    have "x + REPEAT_INTERVAL \<le> now" if "x \<in> set (full_times w)" for x
    proof -
      have "fw_last_warn w = Some (last (full_times w))" using that p(2) by (auto split: if_splits)
      then have l: "last (full_times w) + REPEAT_INTERVAL \<le> now" using False by (auto simp: REPEAT_INTERVAL_def)
      have "full_times w = butlast (full_times w) @ [last (full_times w)]" using that by (intro append_butlast_last_id[symmetric]) auto
      then have "x = last (full_times w) \<or> x + REPEAT_INTERVAL \<le> last (full_times w)"
        using that p(1) by (metis in_set_conv_decomp sorted_wrt_append Un_iff list.set_intros(1) set_append set_ConsD empty_iff list.set(1))
      then show ?thesis using l by auto
    qed
    then show ?thesis using p(1) t by (simp add: paced_def sorted_wrt_append)
  qed
  ultimately show ?thesis by (simp add: watch_account_def)
qed (use assms in \<open>auto simp: due_warn_def\<close>)

text \<open>What a step does not look at, and an effect that is no line.\<close>

lemma account_same:
  assumes "watch_account n w" and "fw_open w' = fw_open w" "fw_episode w' = fw_episode w" "fw_unannounced w' = fw_unannounced w"
    "fw_last_warn w' = fw_last_warn w" "fw_log w' = fw_log w"
  shows "watch_account n w'"
  using assms by (simp add: watch_account_def watch_ok_def unreported_def paced_def full_times_def)

lemma account_blocked:
  assumes "watch_account n w" shows "watch_account n (fw_emit (Wx_Blocked b) w)"
  using assms by (simp add: watch_account_def watch_ok_def unreported_def paced_def full_times_def map_filter_def)

text \<open>An episode opened or updated, with \<open>k\<close> more items.\<close>

lemma open_episode_eq:
  assumes "open_episode now bound w = (ep, w')"
  shows "w' = w\<lparr>fw_open := fw_open w'\<rparr>" "fw_open w' = (fw_open w \<or> fw_episode w = None)"
    "fw_episode w = Some ep \<or> fw_episode w = None \<and> to_items (ep_totals ep) = 0 \<and> \<not> ep_announced ep"
  using assms by (auto simp: open_episode_def split: option.splits)

lemma account_episode:
  assumes a: "watch_account n w" and o: "open_episode now bound w = (ep, w')"
    and ep': "to_items (ep_totals ep') = to_items (ep_totals ep) + k" "ep_announced ep' = ep_announced ep"
  shows "watch_account (n + k) (w'\<lparr>fw_episode := Some ep'\<rparr>)"
proof -
  note eq = open_episode_eq[OF o]
  have same: "fw_unannounced w' = fw_unannounced w" "fw_log w' = fw_log w" "fw_last_warn w' = fw_last_warn w"
    by (subst eq(1), simp)+
  show ?thesis
    using a eq(2,3) ep' same
    by (auto simp: watch_account_def watch_ok_def unreported_def paced_def full_times_def split: option.splits)
qed

lemma watch_step_account:
  assumes a: "watch_account n w"
  shows "watch_account (n + items_shed [x]) (watch_step x w)"
proof (cases x)
  case (Op_Dropped now reason units bound)
  obtain ep w' where o: "open_episode now bound (raise_pressure w) = (ep, w')" by (cases "open_episode now bound (raise_pressure w)")
  have "watch_account n (raise_pressure w)" by (rule account_same[OF a]) (simp_all add: raise_pressure_def)
  from account_episode[OF this o, where k = 1] show ?thesis
    using Op_Dropped o by (auto simp: watch_dropped_def items_shed_def intro!: due_warn_account)
next
  case (Op_Waiting now bound)
  let ?w = "if fw_waiters w = 0 then fw_emit (Wx_Blocked True) w else w"
  let ?r = "raise_pressure (?w\<lparr>fw_waiters := fw_waiters ?w + 1\<rparr>)"
  obtain ep w' where o: "open_episode now bound ?r = (ep, w')" by (cases "open_episode now bound ?r")
  have "watch_account n ?w" using a account_blocked by simp
  then have "watch_account n ?r" by (rule account_same) (simp_all add: raise_pressure_def)
  from account_episode[OF this o, where k = 0] show ?thesis
    using Op_Waiting o by (auto simp: watch_waiting_def Let_def items_shed_def intro!: due_warn_account)
next
  case (Op_Waiting_Drop now)
  have "watch_account n (waiting_drop now w)"
  proof (cases "fw_waiters w = 1")
    case False
    then show ?thesis by (auto simp: waiting_drop_def intro: account_same[OF a])
  next
    case True
    let ?w = "fw_emit (Wx_Blocked False) (w\<lparr>fw_waiters := 0\<rparr>)"
    have "watch_account n (w\<lparr>fw_waiters := 0\<rparr>)" by (rule account_same[OF a]) simp_all
    from account_blocked[OF this] have "watch_account n ?w" .
    then show ?thesis
      using True
      by (auto simp: waiting_drop_def Let_def watch_account_def watch_ok_def unreported_def paced_def full_times_def split: option.splits)
  qed
  then show ?thesis using Op_Waiting_Drop by (simp add: items_shed_def)
next
  case (Op_Tick now)
  then show ?thesis using a account_blocked[OF a] by (auto simp: watch_tick_def items_shed_def intro!: due_warn_account)
next
  case (Op_Utilization now ratio)
  let ?w = "ease_pressure ratio w"
  have "watch_account n ?w" by (rule account_same[OF a]) (simp_all add: ease_pressure_def)
  then have "watch_account n (watch_utilization now ratio w)"
    unfolding watch_utilization_def Let_def
    by (auto simp: watch_account_def watch_ok_def unreported_def paced_def full_times_def map_filter_def split: option.splits)
  then show ?thesis using Op_Utilization by (simp add: items_shed_def)
next
  case (Op_Finish now)
  have "watch_account n (watch_finish now w)"
    using a unfolding watch_finish_def Let_def
    by (auto simp: watch_account_def watch_ok_def unreported_def paced_def full_times_def map_filter_def split: option.splits)
  then show ?thesis using Op_Finish by (simp add: items_shed_def)
qed (auto intro!: account_same[OF a] simp: items_shed_def ease_pressure_def over_bound_def raise_pressure_def)

lemma watch_run_account: "watch_account n w \<Longrightarrow> watch_account (n + items_shed ops) (fold watch_step ops w)"
proof (induction ops arbitrary: n w)
  case (Cons x ops)
  from Cons.IH[OF watch_step_account[OF Cons.prems, of x]] show ?case by (simp add: items_shed_def add.assoc split: watch_op.splits)
qed (simp add: items_shed_def)

lemma watch_new_account: "watch_account 0 (watch_new recover_below)"
  by (simp add: watch_account_def watch_new_def watch_ok_def unreported_def paced_def full_times_def map_filter_def)

section \<open>Properties\<close>

text \<open>
  Nothing a queue sheds goes unreported. After any operations of a watch and its finish, the
  lines it wrote report every item an overflow policy shed exactly once, in the episode they close
  or carry; and whatever happens, two \<open>buffer_full\<close> lines are at least a minute apart.
\<close>

theorem every_shed_item_reported:
  "sum_list (map line_items (fw_log (fold watch_step (ops @ [Op_Finish now]) (watch_new recover_below)))) = items_shed ops \<and>
   sorted_wrt (\<lambda>a b. a + REPEAT_INTERVAL \<le> b) (full_times (fold watch_step ops (watch_new recover_below)))"
proof -
  let ?w = "fold watch_step ops (watch_new recover_below)"
  have a: "watch_account (items_shed ops) ?w" using watch_run_account[OF watch_new_account] by simp
  have "watch_account (items_shed ops) (watch_finish now ?w)"
    using watch_step_account[OF a, of "Op_Finish now"] by (simp add: items_shed_def)
  moreover have "unreported (watch_finish now ?w) = 0"
    by (simp add: watch_finish_def Let_def unreported_def split: option.split)
  ultimately show ?thesis using a by (simp add: watch_account_def paced_def)
qed

end
