(* ===== verification/Bounded_Queue.thy ===== *)
theory Bounded_Queue
  imports Mem_Buffer Full_Watch
begin

text \<open>
  \<open>BoundedQueue\<close> (\<open>crates/logit-pipeline/src/queue.rs\<close>): the buffer with its overflow policies,
  counters and full-buffer watch. A call that has to wait is a turn that ends parked, tried again
  with what it holds; \<open>Notify\<close> only decides when. A future dropped while it waits is an operation of
  its own. The trait \<open>Queued\<close> is a record of its two functions.
\<close>

section \<open>The queue\<close>

record 'a queued =
  qd_weight :: "'a \<Rightarrow> nat"
  qd_units :: "'a \<Rightarrow> nat"

record queue_config =
  qc_max_items :: nat
  qc_max_weight :: nat
  qc_overflow :: overflow_policy
  qc_recover_below :: f64

text \<open>What the queue writes, by the field of \<open>QueueMetrics\<close> that names it, and the line of a cut push.\<close>

datatype q_effect =
    Qx_Items_Dropped string nat
  | Qx_Units_Dropped string nat
  | Qx_Depth nat
  | Qx_Bytes nat
  | Qx_Utilization f64
  | Qx_Push_Blocked
  | Qx_Push_Cut nat nat

record 'a bounded_queue =
  bq_inner :: "'a mem_buffer"
  bq_closed :: bool
  bq_block_when_full :: bool
  bq_max_items :: nat
  bq_max_weight :: nat
  bq_watch :: full_watch
  bq_log :: "q_effect list"

definition with_metrics :: "queue_config \<Rightarrow> 'a bounded_queue" where
  "with_metrics config =
     \<lparr>bq_inner = buffer_new (qc_max_items config) (qc_max_weight config)
        (case qc_overflow config of Drop_Newest \<Rightarrow> Reject_Newest | _ \<Rightarrow> Evict_Oldest),
      bq_closed = False, bq_block_when_full = (qc_overflow config = Block), bq_max_items = qc_max_items config,
      bq_max_weight = qc_max_weight config, bq_watch = watch_new (qc_recover_below config), bq_log = []\<rparr>"

definition bq_emit :: "q_effect list \<Rightarrow> 'a bounded_queue \<Rightarrow> 'a bounded_queue" where
  "bq_emit xs q = q\<lparr>bq_log := bq_log q @ xs\<rparr>"

definition on_watch :: "(full_watch \<Rightarrow> full_watch) \<Rightarrow> 'a bounded_queue \<Rightarrow> 'a bounded_queue" where
  "on_watch f q = q\<lparr>bq_watch := f (bq_watch q)\<rparr>"

definition finish_full_episode :: "nat \<Rightarrow> 'a bounded_queue \<Rightarrow> 'a bounded_queue" where
  "finish_full_episode now q = on_watch (watch_finish now) q"

definition queue_would_overflow :: "nat \<Rightarrow> 'a mem_buffer \<Rightarrow> 'a bounded_queue \<Rightarrow> bool" where
  "queue_would_overflow w inner q \<longleftrightarrow>
     length (mb_items inner) \<ge> bq_max_items q \<or> saturating_add (mb_weight inner) w > bq_max_weight q"

definition bound_hit :: "'a mem_buffer \<Rightarrow> nat \<Rightarrow> queue_bound" where
  "bound_hit inner max_items = (if length (mb_items inner) \<ge> max_items then Bound_Items else Bound_Weight)"

definition count_shed :: "'a queued \<Rightarrow> nat \<Rightarrow> string \<times> 'a \<times> queue_bound \<Rightarrow> 'a bounded_queue \<Rightarrow> 'a bounded_queue" where
  "count_shed Q now what q =
     (case what of (reason, item, bound) \<Rightarrow>
        on_watch (watch_dropped now reason (qd_units Q item) bound)
          (bq_emit [Qx_Items_Dropped reason 1, Qx_Units_Dropped reason (qd_units Q item)] q))"

definition ratio_of :: "float_ops \<Rightarrow> nat \<Rightarrow> nat \<Rightarrow> f64" where
  "ratio_of F n most = (if most = 0 then 0 else fl_div F (fl_of_u64 F (of_nat n)) (fl_of_u64 F (of_nat most)))"

definition update_gauges :: "float_ops \<Rightarrow> nat \<Rightarrow> nat \<Rightarrow> 'a bounded_queue \<Rightarrow> f64 \<times> 'a bounded_queue" where
  "update_gauges F len w q =
     (let utilization = f64_max (ratio_of F len (bq_max_items q)) (ratio_of F w (bq_max_weight q))
      in (utilization, bq_emit [Qx_Depth len, Qx_Bytes w, Qx_Utilization utilization] q))"

definition consumed :: "float_ops \<Rightarrow> nat \<Rightarrow> 'a bounded_queue \<Rightarrow> 'a bounded_queue" where
  "consumed F now q =
     (let (utilization, q) = update_gauges F (length (mb_items (bq_inner q))) (mb_weight (bq_inner q)) q
      in on_watch (watch_utilization now utilization) q)"

section \<open>Pushing\<close>

definition never_fits :: "nat \<Rightarrow> 'a bounded_queue \<Rightarrow> bool" where
  "never_fits w q \<longleftrightarrow> w > bq_max_weight q \<or> bq_max_items q = 0"

definition must_wait :: "nat \<Rightarrow> 'a mem_buffer \<Rightarrow> 'a bounded_queue \<Rightarrow> bool" where
  "must_wait w inner q \<longleftrightarrow>
     bq_block_when_full q \<and> queue_would_overflow w inner q \<and> \<not> never_fits w q \<and> \<not> bq_closed q"

text \<open>What an outcome sheds, with its reason.\<close>

fun outcome_shed :: "'a push_outcome \<Rightarrow> (string \<times> 'a) list" where
  "outcome_shed Outcome_Accepted = []"
| "outcome_shed (Outcome_Evicted evicted) = map (Pair ''overflow_oldest'') evicted"
| "outcome_shed (Outcome_Rejected item) = [(''overflow_newest'', item)]"

text \<open>The guard \<open>waiting\<close> and its timer, dropped if the call waited.\<close>

definition drop_waiting :: "nat \<Rightarrow> bool \<Rightarrow> 'a bounded_queue \<Rightarrow> 'a bounded_queue" where
  "drop_waiting now waited q = (if waited then bq_emit [Qx_Push_Blocked] (on_watch (waiting_drop now) q) else q)"

definition park :: "nat \<Rightarrow> queue_bound \<Rightarrow> bool \<Rightarrow> 'a bounded_queue \<Rightarrow> 'a bounded_queue" where
  "park now bound waited q = (if waited then q else on_watch (watch_waiting now bound) q)"

text \<open>A turn of \<open>push\<close>: \<open>None\<close> when it has to wait.\<close>

definition queue_push ::
    "'a queued \<Rightarrow> float_ops \<Rightarrow> nat \<Rightarrow> 'a \<Rightarrow> bool \<Rightarrow> 'a bounded_queue \<Rightarrow> 'a push_outcome option \<times> 'a bounded_queue" where
  "queue_push Q F now item waited q =
     (let w = qd_weight Q item; bound = bound_hit (bq_inner q) (bq_max_items q) in
      if must_wait w (bq_inner q) q then (None, park now bound waited q)
      else
        (let (result, inner) = buffer_push item w (bq_inner q);
             len = length (mb_items inner); total_weight = mb_weight inner;
             shed = outcome_shed result;
             q = fold (count_shed Q now) (map (\<lambda>(reason, x). (reason, x, bound)) shed) (q\<lparr>bq_inner := inner\<rparr>);
             (utilization, q) = update_gauges F len total_weight (drop_waiting now waited q)
         in (Some result,
             if len > bq_max_items q \<or> total_weight > bq_max_weight q then on_watch over_bound q
             else if shed = [] then on_watch (ease_pressure utilization) q
             else q)))"

text \<open>The future of a push, dropped while it waits.\<close>

definition queue_push_dropped :: "nat \<Rightarrow> 'a bounded_queue \<Rightarrow> 'a bounded_queue" where
  "queue_push_dropped now q = drop_waiting now True q"

text \<open>The run of items \<open>push_many\<close> admits under one lock: what bound it stopped at, what is left, what was shed.\<close>

fun admit_run ::
    "'a queued \<Rightarrow> 'a bounded_queue \<Rightarrow> 'a list \<Rightarrow> 'a mem_buffer \<Rightarrow>
     queue_bound option \<times> 'a list \<times> (string \<times> 'a \<times> queue_bound) list \<times> 'a mem_buffer" where
  "admit_run Q q [] inner = (None, [], [], inner)"
| "admit_run Q q (item # items) inner =
     (let w = qd_weight Q item; bound = bound_hit inner (bq_max_items q) in
      if must_wait w inner q then (Some bound, item # items, [], inner)
      else
        (let (result, inner) = buffer_push item w inner;
             (stop, rest, shed, inner) = admit_run Q q items inner
         in (stop, rest, map (\<lambda>(reason, x). (reason, x, bound)) (outcome_shed result) @ shed, inner)))"

text \<open>A turn of \<open>push_many\<close>: the items it still holds, none when it is through.\<close>

definition queue_push_many ::
    "'a queued \<Rightarrow> float_ops \<Rightarrow> nat \<Rightarrow> 'a list \<Rightarrow> bool \<Rightarrow> 'a bounded_queue \<Rightarrow> 'a list \<times> 'a bounded_queue" where
  "queue_push_many Q F now items waited q =
     (if items = [] then ([], q)
      else
        (let (stop, rest, shed, inner) = admit_run Q q items (bq_inner q);
             q = fold (count_shed Q now) shed (q\<lparr>bq_inner := inner\<rparr>)
         in case stop of
              Some bound \<Rightarrow> (rest, park now bound waited q)
            | None \<Rightarrow> ([], snd (update_gauges F (length (mb_items inner)) (mb_weight inner) (drop_waiting now waited q)))))"

text \<open>\<open>Drop\<close> of a \<open>CountedDrain\<close>: what it never yielded is counted.\<close>

definition drain_dropped :: "'a queued \<Rightarrow> bool \<Rightarrow> string \<Rightarrow> 'a list \<Rightarrow> 'a bounded_queue \<Rightarrow> 'a bounded_queue" where
  "drain_dropped Q push_cut reason items q =
     (if items = [] then q
      else
        (let n = length items; units = fold (\<lambda>item u. saturating_add u (qd_units Q item)) items 0 in
         bq_emit ([Qx_Items_Dropped reason n, Qx_Units_Dropped reason units] @ (if push_cut then [Qx_Push_Cut n units] else [])) q))"

definition queue_push_many_dropped :: "'a queued \<Rightarrow> nat \<Rightarrow> 'a list \<Rightarrow> 'a bounded_queue \<Rightarrow> 'a bounded_queue" where
  "queue_push_many_dropped Q now items q = drop_waiting now True (drain_dropped Q True ''shutdown'' items q)"

section \<open>Consuming\<close>

definition queue_commit :: "float_ops \<Rightarrow> nat \<Rightarrow> 'a bounded_queue \<Rightarrow> 'a option \<times> 'a bounded_queue" where
  "queue_commit F now q =
     (let (item, inner) = buffer_commit (bq_inner q) in (item, consumed F now (q\<lparr>bq_inner := inner\<rparr>)))"

datatype 'a taken = Taken 'a | Take_Ended | Take_Parked

definition queue_pop :: "float_ops \<Rightarrow> nat \<Rightarrow> 'a bounded_queue \<Rightarrow> 'a taken \<times> 'a bounded_queue" where
  "queue_pop F now q =
     (case buffer_peek (bq_inner q) of
        (Some _, inner) \<Rightarrow>
          (case buffer_commit inner of
             (Some item, inner) \<Rightarrow> (Taken item, consumed F now (q\<lparr>bq_inner := inner\<rparr>))
           | (None, inner) \<Rightarrow> (Take_Parked, q\<lparr>bq_inner := inner\<rparr>))
      | (None, inner) \<Rightarrow> (if bq_closed q then Take_Ended else Take_Parked, q\<lparr>bq_inner := inner\<rparr>))"

text \<open>Commits until \<open>max\<close> items are out, or all are.\<close>

fun commit_some :: "nat \<Rightarrow> 'a mem_buffer \<Rightarrow> 'a list \<times> 'a mem_buffer" where
  "commit_some 0 b = ([], b)"
| "commit_some (Suc n) b =
     (case buffer_commit b of
        (None, b) \<Rightarrow> ([], b)
      | (Some item, b) \<Rightarrow> (let (items, b) = commit_some n b in (item # items, b)))"

text \<open>\<open>None\<close> when it has to wait; no items when the queue is closed and empty.\<close>

definition queue_pop_many :: "float_ops \<Rightarrow> nat \<Rightarrow> nat \<Rightarrow> 'a bounded_queue \<Rightarrow> 'a list option \<times> 'a bounded_queue" where
  "queue_pop_many F now most q =
     (let (items, inner) = commit_some (max most 1) (bq_inner q); q = q\<lparr>bq_inner := inner\<rparr> in
      if items \<noteq> [] then (Some items, consumed F now q)
      else if bq_closed q then (Some [], q)
      else (None, q))"

definition take_all :: "float_ops \<Rightarrow> nat \<Rightarrow> 'a bounded_queue \<Rightarrow> 'a list \<times> 'a bounded_queue" where
  "take_all F now q =
     (let (items, inner) = commit_some (Suc (length (mb_items (bq_inner q)))) (bq_inner q); q = q\<lparr>bq_inner := inner\<rparr>
      in (items, if items \<noteq> [] then consumed F now q else q))"

definition queue_close :: "'a bounded_queue \<Rightarrow> 'a bounded_queue" where
  "queue_close q = q\<lparr>bq_closed := True\<rparr>"

definition queue_len :: "'a bounded_queue \<Rightarrow> nat" where
  "queue_len q = length (mb_items (bq_inner q))"

definition queue_peek_at :: "nat \<Rightarrow> 'a bounded_queue \<Rightarrow> 'a option \<times> 'a bounded_queue" where
  "queue_peek_at n q = (let (item, inner) = buffer_peek_at n (bq_inner q) in (item, q\<lparr>bq_inner := inner\<rparr>))"

definition queue_peek :: "'a bounded_queue \<Rightarrow> 'a taken \<times> 'a bounded_queue" where
  "queue_peek q =
     (case queue_peek_at 0 q of
        (Some item, q) \<Rightarrow> (Taken item, q)
      | (None, q) \<Rightarrow> (if bq_closed q then Take_Ended else Take_Parked, q))"

datatype 'a store_wait = Wait_Item 'a | Wait_Closed | Wait_Deadline | Wait_Pressure | Wait_Parked

definition queue_wait_at :: "nat \<Rightarrow> nat \<Rightarrow> nat \<Rightarrow> 'a bounded_queue \<Rightarrow> 'a store_wait \<times> 'a bounded_queue" where
  "queue_wait_at now n deadline q =
     (case queue_peek_at n q of
        (Some item, q) \<Rightarrow> (Wait_Item item, q)
      | (None, q) \<Rightarrow>
          (if fw_pressure (bq_watch q) then Wait_Pressure
           else if bq_closed q then Wait_Closed
           else if now \<ge> deadline then Wait_Deadline
           else Wait_Parked, q))"

end
