(* ===== verification/Spool_Record.thy ===== *)
theory Spool_Record
  imports Logit_Out Rename
begin

text \<open>
  The records of the disk spool (\<open>crates/logit-pipeline/src/disk_queue.rs\<close>): 24 bytes of trace
  context and a native frame, the walk over a segment's records, and its resynchronisation past
  bytes that are not a record. Offsets and counts are \<open>u64\<close> or \<open>usize\<close> in the source and stay
  far below their limits; they are natural numbers here. The string table a decoder interns into
  is the one of the moment, \<open>tab\<close> at the offset of the read.
\<close>

section \<open>A record\<close>

definition CONTEXT_LEN :: nat where "CONTEXT_LEN = 24"

record ('d, 'h) record_env =
  re_frame :: frame_env
  re_blobs :: "('d, 'h) blob_codec"
  re_layout :: layout

type_synonym ('d, 'h) store_item = "(symbol, 'd, 'h) event_batch \<times> batch_context \<times> seq_id"

definition encode_context :: "hop_trace \<Rightarrow> bytes" where
  "encode_context ctx = ht_trace_id ctx @ ht_span_id ctx"

definition decode_context :: "bytes \<Rightarrow> hop_trace" where
  "decode_context buf = \<lparr>ht_trace_id = take 16 buf, ht_span_id = take 8 (drop 16 buf)\<rparr>"

text \<open>\<open>Truncated\<close> when the buffer does not hold a whole record yet; any other error is corruption.\<close>

definition parse_record ::
    "('d, 'h) record_env \<Rightarrow> interner \<Rightarrow> bytes \<Rightarrow> (('d, 'h) store_item \<times> nat) result" where
  "parse_record R t buf =
     (if length buf < CONTEXT_LEN then Inl (Truncated (CONTEXT_LEN - length buf))
      else
        (let trace = decode_context (take CONTEXT_LEN buf);
             frame_bytes = drop CONTEXT_LEN buf;
             frame_bytes = take (frame_extent frame_bytes) frame_bytes
         in bnd (read_frame (re_frame R) frame_bytes) (\<lambda>((codec, payload), rest).
            bnd (reject_if (codec \<noteq> CODEC_HOP_BATCH)
                   (Malformed ''disk record declares another codec, expected the hop batch'')) (\<lambda>_.
            bnd (decode_hop_batch (re_blobs R) (re_layout R) payload unlimited t)
              (\<lambda>((batch, provenance, _, seq), _, _).
            Inr ((batch, \<lparr>bc_trace = trace, bc_provenance = provenance\<rparr>, seq),
                 CONTEXT_LEN + (length frame_bytes - length rest)))))))"

lemma parse_record_len: "parse_record R t buf = Inr (item, n) \<Longrightarrow> CONTEXT_LEN \<le> n \<and> CONTEXT_LEN \<le> length buf"
  by (auto simp: parse_record_def Let_def split: if_splits)

section \<open>Walking a segment\<close>

lemma resync_Some:
  assumes "resync bs = Some k" shows "k + 4 \<le> length bs" and "take 4 (drop k bs) = MAGIC"
proof -
  show m: "take 4 (drop k bs) = MAGIC"
    using resync_from_spec[of 0 bs "Some k"] assms by (simp add: resync_def)
  then have "length (take 4 (drop k bs)) = 4" by (simp add: MAGIC_def)
  then show "k + 4 \<le> length bs" by simp
qed

text \<open>The candidates of \<open>resync_after\<close>, from \<open>scan_from\<close> on.\<close>

function resync_scan ::
    "('d, 'h) record_env \<Rightarrow> (nat \<Rightarrow> interner) \<Rightarrow> bytes \<Rightarrow> nat \<Rightarrow> nat option" where
  "resync_scan R tab bytes scan_from =
     (if scan_from < length bytes then
        (case resync (drop scan_from bytes) of
           None \<Rightarrow> None
         | Some k \<Rightarrow>
             (let magic_at = scan_from + k;
                  candidate = magic_at - CONTEXT_LEN
              in case parse_record R (tab candidate) (drop candidate bytes) of
                   Inr _ \<Rightarrow> Some candidate
                 | Inl _ \<Rightarrow> resync_scan R tab bytes (magic_at + 1)))
      else None)"
  by pat_completeness auto
termination
  by (relation "measure (\<lambda>(R, tab, bytes, scan_from). length bytes - scan_from)") auto

declare resync_scan.simps [simp del]

definition resync_after ::
    "('d, 'h) record_env \<Rightarrow> (nat \<Rightarrow> interner) \<Rightarrow> bytes \<Rightarrow> nat \<Rightarrow> nat option" where
  "resync_after R tab bytes pos = resync_scan R tab bytes (pos + CONTEXT_LEN + 1)"

lemma resync_scan_Some:
  "resync_scan R tab bytes scan_from = Some next \<Longrightarrow>
   scan_from \<le> next + CONTEXT_LEN \<and> next < length bytes \<and>
   (\<exists>x. parse_record R (tab next) (drop next bytes) = Inr x)"
proof (induction R tab bytes scan_from rule: resync_scan.induct)
  case (1 R tab bytes scan_from)
  obtain k where k: "scan_from < length bytes" "resync (drop scan_from bytes) = Some k"
    using "1.prems" by (auto simp: resync_scan.simps[of R] split: if_splits option.splits)
  let ?cand = "scan_from + k - CONTEXT_LEN"
  show ?case
  proof (cases "parse_record R (tab ?cand) (drop ?cand bytes)")
    case (Inl e)
    then have "resync_scan R tab bytes (scan_from + k + 1) = Some next"
      using "1.prems" k by (simp add: resync_scan.simps[of R _ _ scan_from] Let_def)
    from "1.IH"[OF k refl refl Inl this] show ?thesis by simp
  next
    case (Inr x)
    then have "next = ?cand" using "1.prems" k by (simp add: resync_scan.simps[of R _ _ scan_from] Let_def)
    then show ?thesis using Inr resync_Some(1)[OF k(2)] k(1) by (auto simp: CONTEXT_LEN_def)
  qed
qed

lemma resync_after_Some:
  "resync_after R tab bytes pos = Some next \<Longrightarrow>
   pos < next \<and> next < length bytes \<and> (\<exists>x. parse_record R (tab next) (drop next bytes) = Inr x)"
  using resync_scan_Some[of R tab bytes "pos + CONTEXT_LEN + 1" "next"] by (auto simp: resync_after_def)

record ('d, 'h) walk_outcome =
  wo_good_len :: nat
  wo_valid_count :: nat
  wo_corrupt_skipped :: nat
  wo_records :: "(nat \<times> ('d, 'h) store_item \<times> nat) list"

text \<open>The calls of \<open>on_record\<close> are collected in \<open>wo_records\<close>.\<close>

function walk_from ::
    "('d, 'h) record_env \<Rightarrow> (nat \<Rightarrow> interner) \<Rightarrow> bytes \<Rightarrow> nat \<Rightarrow> ('d, 'h) walk_outcome \<Rightarrow> ('d, 'h) walk_outcome" where
  "walk_from R tab bytes pos w =
     (if pos < length bytes then
        (case parse_record R (tab pos) (drop pos bytes) of
           Inr (item, consumed) \<Rightarrow>
             walk_from R tab bytes (pos + consumed)
               (w\<lparr>wo_valid_count := wo_valid_count w + 1, wo_records := wo_records w @ [(pos, item, consumed)]\<rparr>)
         | Inl err \<Rightarrow>
             (case resync_after R tab bytes pos of
                Some next \<Rightarrow> walk_from R tab bytes next (w\<lparr>wo_corrupt_skipped := wo_corrupt_skipped w + 1\<rparr>)
              | None \<Rightarrow>
                  (case err of
                     Truncated _ \<Rightarrow> w\<lparr>wo_good_len := pos\<rparr>
                   | _ \<Rightarrow> w\<lparr>wo_good_len := length bytes, wo_corrupt_skipped := wo_corrupt_skipped w + 1\<rparr>)))
      else w\<lparr>wo_good_len := pos\<rparr>)"
  by pat_completeness auto
termination
  by (relation "measure (\<lambda>(R, tab, bytes, pos, w). length bytes - pos)")
    (auto dest: resync_after_Some parse_record_len simp: CONTEXT_LEN_def)

declare walk_from.simps [simp del]

definition walk_segment ::
    "('d, 'h) record_env \<Rightarrow> (nat \<Rightarrow> interner) \<Rightarrow> bytes \<Rightarrow> nat \<Rightarrow> ('d, 'h) walk_outcome" where
  "walk_segment R tab bytes start_offset =
     walk_from R tab bytes start_offset
       \<lparr>wo_good_len = 0, wo_valid_count = 0, wo_corrupt_skipped = 0, wo_records = []\<rparr>"

section \<open>Writing a record\<close>

text \<open>The bytes \<open>push\<close> appends for a batch; \<open>write_frame\<close> fails only past its size limit or for zstd.\<close>

definition record_bytes ::
    "('d, 'h) record_env \<Rightarrow> (symbol \<Rightarrow> bytes) \<Rightarrow> compression \<Rightarrow> ('d, 'h) store_item \<Rightarrow> bytes result" where
  "record_bytes R res z item =
     (case item of (batch, ctx, seq) \<Rightarrow>
        bnd (write_frame (re_frame R) CODEC_HOP_BATCH z
               (encode_hop_batch (re_blobs R) res batch (bc_provenance ctx) None seq))
          (\<lambda>framed. Inr (encode_context (bc_trace ctx) @ framed)))"

text \<open>What a batch must satisfy for its record to read back.\<close>

definition storable :: "('d, 'h) record_env \<Rightarrow> interner \<Rightarrow> ('d, 'h) store_item \<Rightarrow> bool" where
  "storable R names item \<longleftrightarrow>
     (case item of (batch, ctx, seq) \<Rightarrow>
        decodable (re_blobs R) (re_layout R) (resolve_str names) unlimited batch \<and>
        provenance_ok (resolve_str names) (bc_provenance ctx) \<and>
        length (ht_trace_id (bc_trace ctx)) = 16 \<and> length (ht_span_id (bc_trace ctx)) = 8 \<and>
        length (sq_id seq) = 16 \<and> sq_seq seq \<noteq> 0)"

text \<open>The item a reader gets for one that was written: the same text, read through table \<open>t'\<close>.\<close>

definition carries :: "interner \<Rightarrow> ('d, 'h) store_item \<Rightarrow> ('d, 'h) store_item \<Rightarrow> bool" where
  "carries names item item' \<longleftrightarrow>
     (case (item, item') of ((batch, ctx, seq), (batch', ctx', seq')) \<Rightarrow>
        seq' = seq \<and> bc_trace ctx' = bc_trace ctx \<and>
        (\<exists>t'. distinct t' \<and> batch_text t' batch' = batch_text names batch \<and>
           provenance_text t' (bc_provenance ctx') = provenance_text names (bc_provenance ctx)))"

lemma encode_context_inverse:
  "length (ht_trace_id ctx) = 16 \<Longrightarrow> length (ht_span_id ctx) = 8 \<Longrightarrow>
   decode_context (encode_context ctx) = ctx \<and> length (encode_context ctx) = CONTEXT_LEN"
  by (simp add: encode_context_def decode_context_def CONTEXT_LEN_def)

lemma frame_extent_written:
  assumes "frame_laws F" and "write_frame F codec z p = Inr f"
  shows "frame_extent (f @ rest) = length f"
proof -
  have f: "f = header_write (frame_header_of F codec z 0 p) @ frame_body F z p" and p: "length p \<le> MAX_SANE_UNCOMPRESSED_LEN"
    using assms(2) by (auto simp: write_frame_def write_frame_eq)
  note cap = frame_body_within_cap[OF assms(1) p, of z]
  have len: "unat (fh_compressed_len (frame_header_of F codec z 0 p)) = length (frame_body F z p)"
    using cap by (simp add: frame_header_of_def unat_of_nat_u32 compressed_cap_eq)
  have "header_read (f @ rest) = Inr (frame_header_of F codec z 0 p, frame_body F z p @ rest)"
    unfolding f append_assoc by (rule header_read_written) (simp add: frame_header_of_def)
  from frame_extent_header[OF this] len cap show ?thesis by (simp add: f)
qed

lemma record_bytes_eq:
  "record_bytes R res z (batch, ctx, seq) = Inr r \<longleftrightarrow>
   (\<exists>f. write_frame (re_frame R) CODEC_HOP_BATCH z
          (encode_hop_batch (re_blobs R) res batch (bc_provenance ctx) None seq) = Inr f \<and>
        r = encode_context (bc_trace ctx) @ f)"
  by (auto simp: record_bytes_def bnd_eq_Inr)

text \<open>A record reads back behind anything: the item with the same text, and its own length.\<close>

lemma parse_record_written:
  assumes laws: "frame_laws (re_frame R)" and ok: "interner_ok names" "distinct t" "storable R names item"
    and r: "record_bytes R (resolve_str names) z item = Inr r"
  shows "\<exists>item'. parse_record R t (r @ rest) = Inr (item', length r) \<and> carries names item item'"
proof -
  obtain batch ctx seq where item: "item = (batch, ctx, seq)" by (cases item)
  obtain f where f: "write_frame (re_frame R) CODEC_HOP_BATCH z
      (encode_hop_batch (re_blobs R) (resolve_str names) batch (bc_provenance ctx) None seq) = Inr f"
    and rf: "r = encode_context (bc_trace ctx) @ f"
    using r item record_bytes_eq by blast
  have st: "decodable (re_blobs R) (re_layout R) (resolve_str names) unlimited batch"
      "provenance_ok (resolve_str names) (bc_provenance ctx)" "length (sq_id seq) = 16" "sq_seq seq \<noteq> 0"
    and ctx: "decode_context (encode_context (bc_trace ctx)) = bc_trace ctx"
      "length (encode_context (bc_trace ctx)) = CONTEXT_LEN"
    using ok(3) item encode_context_inverse[of "bc_trace ctx"] by (auto simp: storable_def)
  have "hop_trace_ok None" by (simp add: hop_trace_ok_def)
  from hop_batch_crosses[OF ok(1,2) st(1,2) this st(3,4)] obtain batch' p' b' t' where dec:
      "decode_hop_batch (re_blobs R) (re_layout R)
         (encode_hop_batch (re_blobs R) (resolve_str names) batch (bc_provenance ctx) None seq) unlimited t
        = Inr ((batch', p', None, seq), b', t')"
      "batch_text t' batch' = batch_text names batch" "provenance_text t' p' = provenance_text names (bc_provenance ctx)"
      "distinct t'"
    by blast
  have "read_frame (re_frame R) f = Inr ((CODEC_HOP_BATCH,
      encode_hop_batch (re_blobs R) (resolve_str names) batch (bc_provenance ctx) None seq), [])"
    using read_frame_written[OF laws f[unfolded write_frame_def], of "[]"]
    by (simp add: read_frame_def frame_header_of_def)
  then have "parse_record R t (r @ rest) = Inr ((batch', \<lparr>bc_trace = bc_trace ctx, bc_provenance = p'\<rparr>, seq), length r)"
    using ctx dec(1) frame_extent_written[OF laws f, of rest]
    by (simp add: parse_record_def rf Let_def)
  then show ?thesis using dec(2-4) by (auto simp: carries_def item)
qed

text \<open>A record cut short reads as truncated, and never asks for more than its missing bytes.\<close>

lemma parse_record_cut:
  assumes laws: "frame_laws (re_frame R)" and st: "storable R names item"
    and r: "record_bytes R (resolve_str names) z item = Inr r" and n: "n < length r"
  shows "\<exists>k. parse_record R t (take n r) = Inl (Truncated k) \<and> 0 < k \<and> k \<le> length r - n"
proof -
  obtain batch ctx seq where item: "item = (batch, ctx, seq)" by (cases item)
  obtain f where f: "write_frame (re_frame R) CODEC_HOP_BATCH z
      (encode_hop_batch (re_blobs R) (resolve_str names) batch (bc_provenance ctx) None seq) = Inr f"
    and rf: "r = encode_context (bc_trace ctx) @ f"
    using r item record_bytes_eq by blast
  have ctx: "length (encode_context (bc_trace ctx)) = CONTEXT_LEN"
    using st item encode_context_inverse[of "bc_trace ctx"] by (auto simp: storable_def)
  have hdr: "HEADER_LEN \<le> length f" using f by (auto simp: write_frame_def write_frame_eq)
  show ?thesis
  proof (cases "n < CONTEXT_LEN")
    case True
    then show ?thesis using n ctx rf by (auto simp: parse_record_def)
  next
    case False
    let ?n = "n - CONTEXT_LEN"
    let ?k = "(if ?n < HEADER_LEN then HEADER_LEN else length f) - ?n"
    have nf: "?n < length f" using n False ctx rf by simp
    have tr: "take n r = encode_context (bc_trace ctx) @ take ?n f" using False ctx rf by simp
    have "read_frame_with_header (re_frame R) (take ?n f) = Inl (Truncated ?k)"
      using f nf by (intro frame_cut_short[OF laws]) (simp_all add: write_frame_def)
    then have "read_frame_with_header (re_frame R) (take (frame_extent (take ?n f)) (take ?n f)) = Inl (Truncated ?k)"
      using read_frame_extent[of "re_frame R" "take ?n f"]
      by (cases "read_frame_with_header (re_frame R) (take (frame_extent (take ?n f)) (take ?n f))") auto
    then have "parse_record R t (take n r) = Inl (Truncated ?k)"
      unfolding tr using ctx by (simp add: parse_record_def read_frame_def Let_def)
    then show ?thesis using nf hdr ctx rf by auto
  qed
qed

section \<open>Whole records\<close>

text \<open>What the spool needs of the bytes of a record: they read back in any process, and no part of them does.\<close>

definition whole :: "('d, 'h) record_env \<Rightarrow> bytes \<Rightarrow> bool" where
  "whole R r \<longleftrightarrow>
     (\<forall>t rest. distinct t \<longrightarrow> (\<exists>item. parse_record R t (r @ rest) = Inr (item, length r))) \<and>
     (\<forall>t n. n < length r \<longrightarrow> (\<exists>k. parse_record R t (take n r) = Inl (Truncated k) \<and> 0 < k \<and> k \<le> length r - n))"

lemma whole_parse: "whole R r \<Longrightarrow> distinct t \<Longrightarrow> \<exists>item. parse_record R t (r @ rest) = Inr (item, length r)"
  by (simp add: whole_def)

lemma whole_cut:
  "whole R r \<Longrightarrow> n < length r \<Longrightarrow>
   \<exists>k. parse_record R t (take n r) = Inl (Truncated k) \<and> 0 < k \<and> k \<le> length r - n"
  by (simp add: whole_def)

lemma whole_len: "whole R r \<Longrightarrow> CONTEXT_LEN \<le> length r"
  using whole_parse[of R r "[]" "[]"] parse_record_len[of R "[]" r] by fastforce

lemma record_whole:
  assumes "frame_laws (re_frame R)" and "interner_ok names" and "storable R names item"
    and "record_bytes R (resolve_str names) z item = Inr r"
  shows "whole R r"
  unfolding whole_def
  using parse_record_written[OF assms(1,2) _ assms(3,4)] parse_record_cut[OF assms(1,3,4)] by meson

section \<open>The walk over whole records\<close>

text \<open>Bytes behind the last whole record: cut short, and no record in them.\<close>

definition torn :: "('d, 'h) record_env \<Rightarrow> (nat \<Rightarrow> interner) \<Rightarrow> bytes \<Rightarrow> bytes \<Rightarrow> bool" where
  "torn R tab good tail \<longleftrightarrow> tail = [] \<or>
     (\<exists>k. parse_record R (tab (length good)) tail = Inl (Truncated k)) \<and>
     resync_after R tab (good @ tail) (length good) = None"

lemma walk_from_records:
  assumes parses: "\<And>r p rest. r \<in> set rs \<Longrightarrow> \<exists>item. parse_record R (tab p) (r @ rest) = Inr (item, length r)"
    and torn: "torn R tab (good @ concat rs) tail"
  shows "\<exists>found. walk_from R tab (good @ concat rs @ tail) (length good) w =
      w\<lparr>wo_good_len := length good + length (concat rs), wo_valid_count := wo_valid_count w + length rs,
        wo_records := wo_records w @ found\<rparr> \<and>
      list_all2 (\<lambda>r (pos, item, n). n = length r \<and> (\<exists>rest. parse_record R (tab pos) (r @ rest) = Inr (item, n))) rs found"
  using parses torn
proof (induction rs arbitrary: good w)
  case Nil
  then show ?case
    by (cases "tail = []") (auto simp: walk_from.simps[of R tab _ "length good"] torn_def)
next
  case (Cons r rs)
  obtain item where item: "parse_record R (tab (length good)) (r @ concat rs @ tail) = Inr (item, length r)"
    using Cons.prems(1)[of r] by fastforce
  have "24 \<le> length r" using parse_record_len[OF item] by (simp add: CONTEXT_LEN_def)
  then have ne: "0 < length r" by linarith
  let ?w = "w\<lparr>wo_valid_count := wo_valid_count w + 1, wo_records := wo_records w @ [(length good, item, length r)]\<rparr>"
  have step: "walk_from R tab (good @ concat (r # rs) @ tail) (length good) w
      = walk_from R tab ((good @ r) @ concat rs @ tail) (length (good @ r)) ?w"
    using item ne by (simp add: walk_from.simps[of R tab _ "length good"])
  have "torn R tab ((good @ r) @ concat rs) tail" using Cons.prems(2) by simp
  from Cons.IH[OF _ this, of ?w] Cons.prems(1) obtain found where f:
      "walk_from R tab ((good @ r) @ concat rs @ tail) (length (good @ r)) ?w =
        ?w\<lparr>wo_good_len := length (good @ r) + length (concat rs), wo_valid_count := wo_valid_count ?w + length rs,
          wo_records := wo_records ?w @ found\<rparr>"
      "list_all2 (\<lambda>r (pos, item, n). n = length r \<and> (\<exists>rest. parse_record R (tab pos) (r @ rest) = Inr (item, n))) rs found"
    by auto
  show ?case unfolding step f(1)
    using f(2) item by (intro exI[of _ "(length good, item, length r) # found"]) auto
qed

end
