(* ===== verification/Disk_Queue.thy ===== *)
theory Disk_Queue
  imports Spool_Record Full_Watch "HOL-Library.AList"
begin

text \<open>
  The disk spool (\<open>crates/logit-pipeline/src/disk_queue.rs\<close>, \<open>atomic_write.rs\<close>, and \<open>Numbering\<close>
  of \<open>queue.rs\<close>): a queue of records in numbered segment files with a persisted read cursor. The
  state holds the process's view and the files themselves, so that a crash is the loss of the
  former. Every file operation takes its outcome from the environment at the state's clock; a push
  whose future is dropped at a wait leaves what the operation had done by then. The operations of
  the producer and the consumer run one after the other, as their one task polls them; the persist
  worker runs its jobs at any time between. \<open>Notify\<close> and the full-buffer watch only decide when a
  parked operation is tried again, and are left out.
\<close>

section \<open>The environment\<close>

datatype io_step = Io_Ok | Io_Fails bool | Io_Dropped

text \<open>The steps of \<open>write_file_durably\<close>.\<close>

datatype atomic_step = Step_Write | Step_Sync_File | Step_Rename | Step_Sync_Dir

definition replaced :: "atomic_step \<Rightarrow> bool" where
  "replaced step \<longleftrightarrow> step = Step_Sync_Dir"

record ('d, 'h) spool_env =
  sv_record :: "('d, 'h) record_env"
  sv_names :: "nat \<Rightarrow> interner"
  sv_table :: "nat \<Rightarrow> nat \<Rightarrow> interner"
  sv_io :: "nat \<Rightarrow> io_step"
  sv_landed :: "nat \<Rightarrow> nat"
  sv_happened :: "nat \<Rightarrow> bool"
  sv_durable :: "nat \<Rightarrow> atomic_step option"
  sv_unlinks :: "nat \<Rightarrow> bool"
  sv_now :: "nat \<Rightarrow> nat"
  sv_identity :: "nat \<Rightarrow> bytes"

section \<open>The state\<close>

record segment =
  seg_seq :: nat
  seg_len :: nat

record ('d, 'h) read_ahead =
  ra_item :: "('d, 'h) store_item"
  ra_seg :: nat
  ra_offset :: nat
  ra_len :: nat

record persist_job =
  pj_cursor :: "nat \<times> nat"
  pj_unlink :: "nat list"

datatype cursor_file = No_Cursor | Bad_Cursor | Cursor_Doc nat nat nat

datatype dq_effect =
    Dx_Count string nat string
  | Dx_Gauge string nat
  | Dx_Warn string

record spool_config =
  cf_max_bytes :: nat
  cf_segment_bytes :: nat
  cf_overflow :: overflow_policy
  cf_compression :: compression
  cf_checkpoint_interval :: nat

record ('d, 'h) disk_queue =
  dq_config :: spool_config
  dq_segments :: "segment list"
  dq_read_seq :: nat
  dq_read_offset :: nat
  dq_total_bytes :: nat
  dq_queued_records :: nat
  dq_read_ahead :: "('d, 'h) read_ahead list"
  dq_write_file :: bool
  dq_needs_repair :: "nat option"
  dq_rotation_started :: bool
  dq_read_file :: "nat option"
  dq_last_checkpoint :: nat
  dq_worker :: bool
  dq_jobs :: "persist_job list"
  dq_closed :: bool
  dq_id :: bytes
  dq_next :: u64
  dq_files :: "(nat \<times> bytes) list"
  dq_cursor :: cursor_file
  dq_clock :: nat
  dq_log :: "dq_effect list"

definition dq_tick :: "('d, 'h) disk_queue \<Rightarrow> ('d, 'h) disk_queue" where
  "dq_tick q = q\<lparr>dq_clock := dq_clock q + 1\<rparr>"

definition dq_emit :: "dq_effect \<Rightarrow> ('d, 'h) disk_queue \<Rightarrow> ('d, 'h) disk_queue" where
  "dq_emit x q = q\<lparr>dq_log := dq_log q @ [x]\<rparr>"

definition put_file :: "nat \<Rightarrow> bytes \<Rightarrow> ('d, 'h) disk_queue \<Rightarrow> ('d, 'h) disk_queue" where
  "put_file seq bs q = q\<lparr>dq_files := AList.update seq bs (dq_files q)\<rparr>"

definition file_bytes :: "nat \<Rightarrow> ('d, 'h) disk_queue \<Rightarrow> bytes option" where
  "file_bytes seq q = map_of (dq_files q) seq"

text \<open>\<open>state.segments.back()\<close>, and the first segment of a number.\<close>

definition active_segment :: "('d, 'h) disk_queue \<Rightarrow> segment" where
  "active_segment q = last (dq_segments q)"

definition find_len :: "nat \<Rightarrow> segment list \<Rightarrow> nat option" where
  "find_len seq segs = map_option seg_len (find (\<lambda>s. seg_seq s = seq) segs)"

definition next_seq :: "nat \<Rightarrow> segment list \<Rightarrow> nat option" where
  "next_seq seq segs = find (\<lambda>s. s > seq) (map seg_seq segs)"

definition count_dropped :: "string \<Rightarrow> nat \<Rightarrow> ('d, 'h) disk_queue \<Rightarrow> ('d, 'h) disk_queue" where
  "count_dropped reason units q =
     dq_emit (Dx_Count ''events.dropped'' units reason) (dq_emit (Dx_Count ''batches.dropped'' 1 reason) q)"

definition count_fs_error :: "string \<Rightarrow> ('d, 'h) disk_queue \<Rightarrow> ('d, 'h) disk_queue" where
  "count_fs_error op q =
     dq_emit (Dx_Warn ''disk_fs_error'') (dq_emit (Dx_Count ''logit.component.buffer.disk.errors'' 1 op) q)"

definition after_change :: "('d, 'h) disk_queue \<Rightarrow> ('d, 'h) disk_queue" where
  "after_change q =
     dq_emit (Dx_Gauge ''logit.component.buffer.disk.segments'' (length (dq_segments q)))
       (dq_emit (Dx_Gauge ''bytes'' (dq_total_bytes q)) (dq_emit (Dx_Gauge ''depth'' (dq_queued_records q)) q))"

definition numbering_next :: "('d, 'h) disk_queue \<Rightarrow> seq_id \<times> ('d, 'h) disk_queue" where
  "numbering_next q = (\<lparr>sq_id = dq_id q, sq_seq = dq_next q\<rparr>, q\<lparr>dq_next := dq_next q + 1\<rparr>)"

section \<open>The persist worker\<close>

definition persist_cursor ::
    "('d, 'h) spool_env \<Rightarrow> nat \<times> nat \<Rightarrow> ('d, 'h) disk_queue \<Rightarrow> ('d, 'h) disk_queue" where
  "persist_cursor E at q =
     (let doc = Cursor_Doc 1 (fst at) (snd at) in
      case sv_durable E (dq_clock q) of
        None \<Rightarrow> (dq_tick q)\<lparr>dq_cursor := doc\<rparr>
      | Some step \<Rightarrow>
          dq_emit (Dx_Warn ''cursor_error'')
            (dq_emit (Dx_Count ''logit.component.buffer.disk.errors'' 1 ''cursor'')
              (if replaced step then (dq_tick q)\<lparr>dq_cursor := doc\<rparr> else dq_tick q)))"

definition unlink_segment :: "('d, 'h) spool_env \<Rightarrow> nat \<Rightarrow> ('d, 'h) disk_queue \<Rightarrow> ('d, 'h) disk_queue" where
  "unlink_segment E seq q =
     (if sv_unlinks E (dq_clock q) \<and> file_bytes seq q \<noteq> None
      then (dq_tick q)\<lparr>dq_files := AList.delete seq (dq_files q)\<rparr>
      else count_fs_error ''unlink'' (dq_tick q))"

definition run_persist_job ::
    "('d, 'h) spool_env \<Rightarrow> persist_job \<Rightarrow> ('d, 'h) disk_queue \<Rightarrow> ('d, 'h) disk_queue" where
  "run_persist_job E job q = fold (unlink_segment E) (pj_unlink job) (persist_cursor E (pj_cursor job) q)"

text \<open>With no worker, after \<open>finish\<close>, the job runs inline.\<close>

definition queue_persist ::
    "('d, 'h) spool_env \<Rightarrow> persist_job \<Rightarrow> ('d, 'h) disk_queue \<Rightarrow> ('d, 'h) disk_queue" where
  "queue_persist E job q =
     (if dq_worker q then q\<lparr>dq_jobs := dq_jobs q @ [job]\<rparr> else run_persist_job E job q)"

text \<open>The worker's thread takes the next job.\<close>

definition worker_turn :: "('d, 'h) spool_env \<Rightarrow> ('d, 'h) disk_queue \<Rightarrow> ('d, 'h) disk_queue" where
  "worker_turn E q =
     (case dq_jobs q of [] \<Rightarrow> q | job # jobs \<Rightarrow> run_persist_job E job (q\<lparr>dq_jobs := jobs\<rparr>))"

section \<open>The read cursor\<close>

lemma next_seq_Some: "next_seq seq segs = Some nxt \<Longrightarrow> seq < nxt \<and> (\<exists>s \<in> set segs. seg_seq s = nxt)"
  unfolding next_seq_def find_Some_iff by (metis length_map nth_map nth_mem)

lemma length_filter_above:
  assumes "s \<in> set segs" and "seq < seg_seq s"
  shows "length (filter (\<lambda>x. seg_seq s < seg_seq x) segs) < length (filter (\<lambda>x. seq < seg_seq x) segs)"
proof -
  have "filter (\<lambda>x. seg_seq s < seg_seq x) segs = filter (\<lambda>x. seg_seq s < seg_seq x) (filter (\<lambda>x. seq < seg_seq x) segs)"
    using assms(2) by (auto simp: intro: filter_cong)
  then show ?thesis
    using assms length_filter_less[of s "filter (\<lambda>x. seq < seg_seq x) segs" "\<lambda>x. seg_seq s < seg_seq x"] by simp
qed

function roll_loop :: "segment list \<Rightarrow> nat \<Rightarrow> nat \<Rightarrow> nat list \<Rightarrow> nat \<times> nat \<times> nat list" where
  "roll_loop segs seq offset to_delete =
     (case find_len seq segs of
        None \<Rightarrow> (seq, offset, to_delete)
      | Some len \<Rightarrow>
          if (segs \<noteq> [] \<and> seg_seq (last segs) = seq) \<or> offset < len then (seq, offset, to_delete)
          else
            (case next_seq seq segs of
               None \<Rightarrow> (seq, offset, to_delete)
             | Some nxt \<Rightarrow> roll_loop segs nxt (offset - len) (to_delete @ [seq])))"
  by pat_completeness auto
termination
  by (relation "measure (\<lambda>(segs, seq, offset, to_delete). length (filter (\<lambda>s. seq < seg_seq s) segs))")
    (auto dest!: next_seq_Some intro: length_filter_above)

declare roll_loop.simps [simp del]

definition remove_segment :: "nat \<Rightarrow> ('d, 'h) disk_queue \<Rightarrow> ('d, 'h) disk_queue" where
  "remove_segment seq q =
     (let q = (case find (\<lambda>s. seg_seq s = seq) (dq_segments q) of
                 None \<Rightarrow> q
               | Some s \<Rightarrow> q\<lparr>dq_segments := remove1 s (dq_segments q), dq_total_bytes := dq_total_bytes q - seg_len s\<rparr>)
      in if dq_read_file q = Some seq then q\<lparr>dq_read_file := None\<rparr> else q)"

definition readable :: "('d, 'h) disk_queue \<Rightarrow> bool" where
  "readable q = (case find_len (dq_read_seq q) (dq_segments q) of Some len \<Rightarrow> dq_read_offset q < len | None \<Rightarrow> False)"

definition roll_read_cursor :: "('d, 'h) spool_env \<Rightarrow> ('d, 'h) disk_queue \<Rightarrow> bool \<times> ('d, 'h) disk_queue" where
  "roll_read_cursor E q =
     (let (seq, offset, to_delete) = roll_loop (dq_segments q) (dq_read_seq q) (dq_read_offset q) [];
          q = fold remove_segment to_delete (q\<lparr>dq_read_seq := seq, dq_read_offset := offset\<rparr>)
      in if to_delete = [] then (readable q, q)
         else (readable q,
               queue_persist E \<lparr>pj_cursor = (seq, offset), pj_unlink = to_delete\<rparr>
                 (q\<lparr>dq_last_checkpoint := sv_now E (dq_clock q)\<rparr>)))"

definition after_cursor_advance :: "('d, 'h) spool_env \<Rightarrow> ('d, 'h) disk_queue \<Rightarrow> ('d, 'h) disk_queue" where
  "after_cursor_advance E q =
     (let q = snd (roll_read_cursor E q); now = sv_now E (dq_clock q) in
      if now - dq_last_checkpoint q \<ge> cf_checkpoint_interval (dq_config q) then
        queue_persist E \<lparr>pj_cursor = (dq_read_seq q, dq_read_offset q), pj_unlink = []\<rparr>
          (q\<lparr>dq_last_checkpoint := now\<rparr>)
      else q)"

definition advance_read_cursor ::
    "('d, 'h) spool_env \<Rightarrow> nat \<Rightarrow> ('d, 'h) disk_queue \<Rightarrow> ('d, 'h) disk_queue" where
  "advance_read_cursor E n q = after_cursor_advance E (q\<lparr>dq_read_offset := dq_read_offset q + n\<rparr>)"

section \<open>Reading a record\<close>

definition READ_CHUNK_INITIAL :: nat where "READ_CHUNK_INITIAL = 8 * 1024"

text \<open>A read that fails, or whose future is dropped, gives up the cached handle.\<close>

definition read_at ::
    "('d, 'h) spool_env \<Rightarrow> nat \<Rightarrow> nat \<Rightarrow> nat \<Rightarrow> ('d, 'h) disk_queue \<Rightarrow> bytes option \<times> ('d, 'h) disk_queue" where
  "read_at E seq offset n q =
     (case (sv_io E (dq_clock q), file_bytes seq q) of
        (Io_Ok, Some bs) \<Rightarrow> (Some (take n (drop offset bs)), (dq_tick q)\<lparr>dq_read_file := Some seq\<rparr>)
      | _ \<Rightarrow> (None, (dq_tick q)\<lparr>dq_read_file := None\<rparr>))"

datatype ('d, 'h) read_outcome =
    Read_Record "('d, 'h) store_item" nat
  | Read_Skip nat
  | Read_Unavailable
  | Read_Spins

datatype ('d, 'h) grown =
    Grown_Record "('d, 'h) store_item" nat
  | Grown_Bytes bytes
  | Grown_Nothing
  | Grown_Spins

text \<open>
  The read grows by what \<open>Truncated\<close> says is missing. A record that asked for no more bytes would
  be read again and again: \<open>Grown_Spins\<close>.
\<close>

function read_grow ::
    "('d, 'h) spool_env \<Rightarrow> nat \<Rightarrow> nat \<Rightarrow> nat \<Rightarrow> nat \<Rightarrow> ('d, 'h) disk_queue \<Rightarrow>
     ('d, 'h) grown \<times> ('d, 'h) disk_queue" where
  "read_grow E seq offset left chunk_len q =
     (case read_at E seq offset chunk_len q of
        (None, q) \<Rightarrow> (Grown_Nothing, q)
      | (Some buf, q) \<Rightarrow>
          if length buf < chunk_len then (Grown_Nothing, q)
          else
            (case parse_record (sv_record E) (sv_table E (dq_clock q) offset) buf of
               Inr (item, consumed) \<Rightarrow> (Grown_Record item consumed, q)
             | Inl (Truncated needed) \<Rightarrow>
                 if length buf < left then
                   (let grown = min (length buf + needed) left in
                    if chunk_len < grown then read_grow E seq offset left grown q
                    else (Grown_Spins, q))
                 else (Grown_Bytes buf, q)
             | Inl _ \<Rightarrow> (Grown_Bytes buf, q)))"
  by pat_completeness auto
termination
  by (relation "measure (\<lambda>(E, seq, offset, left, chunk_len, q). left - chunk_len)") auto

declare read_grow.simps [simp del]

text \<open>The corrupt bytes are walked for a record behind them.\<close>

definition read_past_corruption ::
    "('d, 'h) spool_env \<Rightarrow> nat \<Rightarrow> nat \<Rightarrow> nat \<Rightarrow> bytes \<Rightarrow> ('d, 'h) disk_queue \<Rightarrow>
     ('d, 'h) read_outcome \<times> ('d, 'h) disk_queue" where
  "read_past_corruption E seq offset left buf q =
     (case (if length buf = left then (Some buf, q) else read_at E seq offset left q) of
        (None, q) \<Rightarrow> (Read_Unavailable, q)
      | (Some bs, q) \<Rightarrow>
          if length bs \<noteq> left then (Read_Unavailable, q)
          else
            (let w = walk_segment (sv_record E) (sv_table E (dq_clock q)) bs 0 in
             case wo_records w of
               [] \<Rightarrow> (Read_Skip left, q)
             | (pos, item, n) # _ \<Rightarrow>
                 (Read_Record item (pos + n),
                  dq_emit (Dx_Warn ''disk_corrupt'')
                    (count_dropped ''disk_corrupt'' (max (wo_corrupt_skipped w) 1) q))))"

definition read_record_at ::
    "('d, 'h) spool_env \<Rightarrow> nat \<Rightarrow> nat \<Rightarrow> ('d, 'h) disk_queue \<Rightarrow> ('d, 'h) read_outcome \<times> ('d, 'h) disk_queue" where
  "read_record_at E seq offset q =
     (case find_len seq (dq_segments q) of
        None \<Rightarrow> (Read_Unavailable, q)
      | Some len \<Rightarrow>
          if len \<le> offset then (Read_Unavailable, q)
          else
            (let left = len - offset in
             case read_grow E seq offset left (min READ_CHUNK_INITIAL left) q of
               (Grown_Record item n, q) \<Rightarrow> (Read_Record item n, q)
             | (Grown_Nothing, q) \<Rightarrow> (Read_Unavailable, q)
             | (Grown_Spins, q) \<Rightarrow> (Read_Spins, q)
             | (Grown_Bytes buf, q) \<Rightarrow> read_past_corruption E seq offset left buf q))"

definition at_head :: "nat \<Rightarrow> nat \<Rightarrow> ('d, 'h) disk_queue \<Rightarrow> bool" where
  "at_head seq offset q \<longleftrightarrow> dq_read_ahead q = [] \<and> dq_read_seq q = seq \<and> dq_read_offset q = offset"

definition skip_corrupt ::
    "('d, 'h) spool_env \<Rightarrow> nat \<Rightarrow> nat \<Rightarrow> nat \<Rightarrow> ('d, 'h) disk_queue \<Rightarrow> bool \<times> ('d, 'h) disk_queue" where
  "skip_corrupt E seq offset delta q =
     (if \<not> at_head seq offset q then (False, q)
      else
        (True, after_change (after_cursor_advance E
           (dq_emit (Dx_Warn ''disk_corrupt'')
             (count_dropped ''disk_corrupt'' 0 (q\<lparr>dq_read_offset := dq_read_offset q + delta\<rparr>))))))"

definition evict_oldest_record :: "('d, 'h) spool_env \<Rightarrow> ('d, 'h) disk_queue \<Rightarrow> bool \<times> ('d, 'h) disk_queue" where
  "evict_oldest_record E q =
     (if dq_read_ahead q \<noteq> [] then (False, q)
      else
        (let seq = dq_read_seq q; offset = dq_read_offset q in
         case read_record_at E seq offset q of
           (Read_Record item n, q) \<Rightarrow>
             if \<not> at_head seq offset q then (False, q)
             else
               (let q = count_dropped ''overflow_oldest'' (length (b_events (fst item))) (advance_read_cursor E n q)
                in (True, q\<lparr>dq_queued_records := dq_queued_records q - 1\<rparr>))
         | (Read_Skip delta, q) \<Rightarrow> skip_corrupt E seq offset delta q
         | (_, q) \<Rightarrow> (False, q)))"

section \<open>The consumer\<close>

text \<open>Where the next record past \<open>read_ahead\<close> starts.\<close>

function next_position_from :: "segment list \<Rightarrow> nat \<Rightarrow> nat \<Rightarrow> (nat \<times> nat) option" where
  "next_position_from segs seg offset =
     (case find_len seg segs of
        None \<Rightarrow> None
      | Some len \<Rightarrow>
          if offset < len then Some (seg, offset)
          else if segs \<noteq> [] \<and> seg_seq (last segs) = seg then None
          else
            (case next_seq seg segs of
               None \<Rightarrow> None
             | Some nxt \<Rightarrow> next_position_from segs nxt (offset - len)))"
  by pat_completeness auto
termination
  by (relation "measure (\<lambda>(segs, seg, offset). length (filter (\<lambda>s. seg < seg_seq s) segs))")
    (auto dest!: next_seq_Some intro: length_filter_above)

declare next_position_from.simps [simp del]

definition next_read_position :: "('d, 'h) disk_queue \<Rightarrow> (nat \<times> nat) option" where
  "next_read_position q =
     (if dq_read_ahead q = [] then next_position_from (dq_segments q) (dq_read_seq q) (dq_read_offset q)
      else
        (let l = last (dq_read_ahead q) in
         next_position_from (dq_segments q) (ra_seg l) (ra_offset l + ra_len l)))"

datatype ('d, 'h) peeked = Peeked "('d, 'h) store_item" | Peek_Ended | Peek_Parked | Peek_Again | Peek_Spins

text \<open>One turn of the loop of \<open>peek\<close>.\<close>

definition peek_turn :: "('d, 'h) spool_env \<Rightarrow> ('d, 'h) disk_queue \<Rightarrow> ('d, 'h) peeked \<times> ('d, 'h) disk_queue" where
  "peek_turn E q =
     (let q = snd (roll_read_cursor E q) in
      case dq_read_ahead q of
        head # _ \<Rightarrow> (Peeked (ra_item head), q)
      | [] \<Rightarrow>
          if \<not> readable q then
            (if dq_closed q then (Peek_Ended, q)
             else
               (let (still, q) = roll_read_cursor E q in
                if \<not> still \<and> \<not> dq_closed q then (Peek_Parked, q) else (Peek_Again, q)))
          else
            (let seq = dq_read_seq q; offset = dq_read_offset q in
             case read_record_at E seq offset q of
               (Read_Record item n, q) \<Rightarrow>
                 (Peek_Again,
                  if at_head seq offset q
                  then q\<lparr>dq_read_ahead := [\<lparr>ra_item = item, ra_seg = seq, ra_offset = offset, ra_len = n\<rparr>]\<rparr>
                  else q)
             | (Read_Skip delta, q) \<Rightarrow> (Peek_Again, snd (skip_corrupt E seq offset delta q))
             | (Read_Unavailable, q) \<Rightarrow> (Peek_Again, dq_tick q)
             | (Read_Spins, q) \<Rightarrow> (Peek_Spins, q)))"

text \<open>At most so many turns.\<close>

fun peek :: "nat \<Rightarrow> ('d, 'h) spool_env \<Rightarrow> ('d, 'h) disk_queue \<Rightarrow> ('d, 'h) peeked \<times> ('d, 'h) disk_queue" where
  "peek 0 E q = (Peek_Again, q)"
| "peek (Suc n) E q =
     (case peek_turn E q of (Peek_Again, q) \<Rightarrow> peek n E q | (r, q) \<Rightarrow> (r, q))"

definition peek_at ::
    "('d, 'h) spool_env \<Rightarrow> nat \<Rightarrow> ('d, 'h) disk_queue \<Rightarrow> ('d, 'h) store_item option \<times> ('d, 'h) disk_queue" where
  "peek_at E n q =
     (let q = (if n = 0 \<and> dq_read_ahead q = [] then snd (roll_read_cursor E q) else q) in
      if n < length (dq_read_ahead q) then (Some (ra_item (dq_read_ahead q ! n)), q)
      else if n > length (dq_read_ahead q) then (None, q)
      else
        (case next_read_position q of
           None \<Rightarrow> (None, q)
         | Some (seg, offset) \<Rightarrow>
             (case read_record_at E seg offset q of
                (Read_Record item len, q) \<Rightarrow>
                  if length (dq_read_ahead q) \<noteq> n \<or> next_read_position q \<noteq> Some (seg, offset) then (None, q)
                  else
                    (Some item,
                     q\<lparr>dq_read_ahead := dq_read_ahead q @
                         [\<lparr>ra_item = item, ra_seg = seg, ra_offset = offset, ra_len = len\<rparr>]\<rparr>)
              | (Read_Skip delta, q) \<Rightarrow> (None, if n = 0 then snd (skip_corrupt E seg offset delta q) else q)
              | (_, q) \<Rightarrow> (None, q))))"

definition commit :: "('d, 'h) spool_env \<Rightarrow> ('d, 'h) disk_queue \<Rightarrow> ('d, 'h) store_item option \<times> ('d, 'h) disk_queue" where
  "commit E q =
     (let q = snd (roll_read_cursor E q) in
      case dq_read_ahead q of
        [] \<Rightarrow> (None, q)
      | head # rest \<Rightarrow>
          (Some (ra_item head),
           after_change (advance_read_cursor E (ra_len head)
             (q\<lparr>dq_read_ahead := rest, dq_queued_records := dq_queued_records q - 1\<rparr>))))"

definition close :: "('d, 'h) disk_queue \<Rightarrow> ('d, 'h) disk_queue" where
  "close q = q\<lparr>dq_closed := True\<rparr>"

section \<open>The producer's write\<close>

text \<open>A step of the write path: it ran, the push failed with it (on a full disk or not), or the push's future was dropped at it.\<close>

datatype 'a attempt = Ran 'a | Write_Error_At bool | Push_Gone

definition and_then ::
    "'a attempt \<times> ('d, 'h) disk_queue \<Rightarrow> ('a \<Rightarrow> ('d, 'h) disk_queue \<Rightarrow> 'b attempt \<times> ('d, 'h) disk_queue) \<Rightarrow>
     'b attempt \<times> ('d, 'h) disk_queue" where
  "and_then m k =
     (case m of
        (Ran x, q) \<Rightarrow> k x q
      | (Write_Error_At disk_full, q) \<Rightarrow> (Write_Error_At disk_full, q)
      | (Push_Gone, q) \<Rightarrow> (Push_Gone, q))"

definition contents :: "nat \<Rightarrow> ('d, 'h) disk_queue \<Rightarrow> bytes" where
  "contents seq q = (case file_bytes seq q of Some bs \<Rightarrow> bs | None \<Rightarrow> [])"

definition set_len :: "nat \<Rightarrow> bytes \<Rightarrow> bytes" where
  "set_len n bs = take n bs @ replicate (n - length bs) 0"

text \<open>An operation whose failure is counted and otherwise ignored.\<close>

definition try_step ::
    "('d, 'h) spool_env \<Rightarrow> string \<Rightarrow> ('d, 'h) disk_queue \<Rightarrow> unit attempt \<times> ('d, 'h) disk_queue" where
  "try_step E op q =
     (case sv_io E (dq_clock q) of
        Io_Ok \<Rightarrow> (Ran (), dq_tick q)
      | Io_Fails _ \<Rightarrow> (Ran (), count_fs_error op (dq_tick q))
      | Io_Dropped \<Rightarrow> (Push_Gone, dq_tick q))"

definition truncate_tail ::
    "('d, 'h) spool_env \<Rightarrow> nat \<Rightarrow> nat \<Rightarrow> ('d, 'h) disk_queue \<Rightarrow> unit attempt \<times> ('d, 'h) disk_queue" where
  "truncate_tail E seq before q =
     (let cut = put_file seq (set_len before (contents seq q)) (dq_tick q) in
      case sv_io E (dq_clock q) of
        Io_Ok \<Rightarrow> (Ran (), cut\<lparr>dq_needs_repair := None\<rparr>)
      | Io_Fails disk_full \<Rightarrow> (Write_Error_At disk_full, count_fs_error ''truncate'' (dq_tick q))
      | Io_Dropped \<Rightarrow> (Push_Gone, if sv_happened E (dq_clock q) then cut else dq_tick q))"

definition repair_torn_tail ::
    "('d, 'h) spool_env \<Rightarrow> nat \<Rightarrow> nat \<Rightarrow> ('d, 'h) disk_queue \<Rightarrow> unit attempt \<times> ('d, 'h) disk_queue" where
  "repair_torn_tail E seq before q =
     (if dq_write_file q then and_then (try_step E ''flush'' q) (\<lambda>_. truncate_tail E seq before)
      else
        (case sv_io E (dq_clock q) of
           Io_Ok \<Rightarrow> truncate_tail E seq before ((dq_tick q)\<lparr>dq_write_file := True\<rparr>)
         | Io_Fails disk_full \<Rightarrow> (Write_Error_At disk_full, count_fs_error ''truncate'' (dq_tick q))
         | Io_Dropped \<Rightarrow> (Push_Gone, dq_tick q)))"

text \<open>Opened with \<open>create\<close> and \<open>append\<close>: a file that exists keeps its bytes.\<close>

definition create_file :: "nat \<Rightarrow> ('d, 'h) disk_queue \<Rightarrow> ('d, 'h) disk_queue" where
  "create_file seq q = put_file seq (contents seq q) q"

definition open_append ::
    "('d, 'h) spool_env \<Rightarrow> nat \<Rightarrow> ('d, 'h) disk_queue \<Rightarrow> unit attempt \<times> ('d, 'h) disk_queue" where
  "open_append E seq q =
     (case sv_io E (dq_clock q) of
        Io_Ok \<Rightarrow> (Ran (), create_file seq ((dq_tick q)\<lparr>dq_write_file := True\<rparr>))
      | Io_Fails disk_full \<Rightarrow> (Write_Error_At disk_full, dq_emit (Dx_Warn ''disk_io_error'') (dq_tick q))
      | Io_Dropped \<Rightarrow> (Push_Gone, if sv_happened E (dq_clock q) then create_file seq (dq_tick q) else dq_tick q))"

definition rotate_segment ::
    "('d, 'h) spool_env \<Rightarrow> ('d, 'h) disk_queue \<Rightarrow> unit attempt \<times> ('d, 'h) disk_queue" where
  "rotate_segment E q =
     (let q = q\<lparr>dq_rotation_started := True\<rparr>; new_seq = seg_seq (active_segment q) + 1 in
      and_then (if dq_write_file q then try_step E ''flush'' q else (Ran (), q)) (\<lambda>_ q.
      and_then (try_step E ''fsync'' q) (\<lambda>_ q.
      case sv_io E (dq_clock q) of
        Io_Ok \<Rightarrow>
          and_then (try_step E ''fsync'' (create_file new_seq (dq_tick q))) (\<lambda>_ q.
            (Ran (), q\<lparr>dq_write_file := True, dq_rotation_started := False,
               dq_segments := dq_segments q @ [\<lparr>seg_seq = new_seq, seg_len = 0\<rparr>]\<rparr>))
      | Io_Fails disk_full \<Rightarrow>
          (let q = count_fs_error ''create'' (dq_tick q) in
           if file_bytes new_seq q \<noteq> None then (Write_Error_At disk_full, q)
           else (Ran (), q\<lparr>dq_rotation_started := False\<rparr>))
      | Io_Dropped \<Rightarrow>
          (Push_Gone, if sv_happened E (dq_clock q) then create_file new_seq (dq_tick q) else dq_tick q))))"

text \<open>The write and its flush; of one that does not finish, a prefix lands.\<close>

definition append_record ::
    "('d, 'h) spool_env \<Rightarrow> bytes \<Rightarrow> ('d, 'h) disk_queue \<Rightarrow> unit attempt \<times> ('d, 'h) disk_queue" where
  "append_record E rec q =
     (let seq = seg_seq (active_segment q);
          landed = (\<lambda>n q. put_file seq (contents seq q @ take n rec) q);
          written = sv_io E (dq_clock q);
          q = dq_tick q;
          flushed = sv_io E (dq_clock q)
      in case (if written = Io_Ok then flushed else written) of
           Io_Ok \<Rightarrow>
             (Ran (), (landed (length rec) (dq_tick q))\<lparr>dq_needs_repair := None,
                dq_segments := butlast (dq_segments q) @
                  [(active_segment q)\<lparr>seg_len := seg_len (active_segment q) + length rec\<rparr>],
                dq_total_bytes := dq_total_bytes q + length rec,
                dq_queued_records := dq_queued_records q + 1\<rparr>)
         | Io_Fails disk_full \<Rightarrow>
             (Write_Error_At disk_full,
              dq_emit (Dx_Warn ''disk_io_error'') (landed (sv_landed E (dq_clock q)) (dq_tick q)))
         | Io_Dropped \<Rightarrow> (Push_Gone, landed (sv_landed E (dq_clock q)) (dq_tick q)))"

definition repair_if_needed ::
    "('d, 'h) spool_env \<Rightarrow> ('d, 'h) disk_queue \<Rightarrow> unit attempt \<times> ('d, 'h) disk_queue" where
  "repair_if_needed E q =
     (case dq_needs_repair q of
        Some before \<Rightarrow> repair_torn_tail E (seg_seq (active_segment q)) before q
      | None \<Rightarrow> (Ran (), q))"

definition write_record ::
    "('d, 'h) spool_env \<Rightarrow> bytes \<Rightarrow> ('d, 'h) disk_queue \<Rightarrow> unit attempt \<times> ('d, 'h) disk_queue" where
  "write_record E rec q =
     and_then (repair_if_needed E q) (\<lambda>_ q.
     and_then
       (if dq_rotation_started q \<or> seg_len (active_segment q) \<ge> cf_segment_bytes (dq_config q)
        then rotate_segment E q else (Ran (), q)) (\<lambda>_ q.
     and_then
       (if dq_write_file q then (Ran (), q) else open_append E (seg_seq (active_segment q)) q) (\<lambda>_ q.
     append_record E rec (q\<lparr>dq_needs_repair := Some (seg_len (active_segment q))\<rparr>))))"

definition rotate_consumed_active_segment ::
    "('d, 'h) spool_env \<Rightarrow> ('d, 'h) disk_queue \<Rightarrow> unit attempt \<times> ('d, 'h) disk_queue" where
  "rotate_consumed_active_segment E q =
     and_then (repair_if_needed E q) (\<lambda>_ q.
     and_then (rotate_segment E q) (\<lambda>_ q. (Ran (), snd (roll_read_cursor E q))))"

section \<open>Pushing\<close>

datatype push_action = Act_Write | Act_Block | Act_Evict | Act_Drop_Newest | Act_Make_Room

definition nothing_queued :: "('d, 'h) disk_queue \<Rightarrow> bool" where
  "nothing_queued q \<longleftrightarrow>
     dq_read_ahead q = [] \<and> dq_read_seq q = seg_seq (active_segment q) \<and>
     dq_read_offset q \<ge> seg_len (active_segment q)"

definition push_action :: "nat \<Rightarrow> bool \<Rightarrow> ('d, 'h) disk_queue \<Rightarrow> push_action" where
  "push_action record_len made_room q =
     (let full = dq_total_bytes q + record_len > cf_max_bytes (dq_config q);
          impossible_to_ever_fit = record_len > cf_max_bytes (dq_config q);
          overflow = cf_overflow (dq_config q)
      in if \<not> full \<or> impossible_to_ever_fit \<or> dq_closed q then Act_Write
         else if nothing_queued q \<and> \<not> made_room then Act_Make_Room
         else if nothing_queued q then (if overflow = Drop_Newest then Act_Drop_Newest else Act_Write)
         else
           (case overflow of
              Block \<Rightarrow> Act_Block
            | Drop_Newest \<Rightarrow> Act_Drop_Newest
            | Drop_Oldest \<Rightarrow> if dq_read_ahead q \<noteq> [] then Act_Drop_Newest else Act_Evict))"

datatype push_end = Pushed | Push_Dropped | Push_Parked bool | Push_Cancelled | Push_Unfinished

definition write_reason :: "bool \<Rightarrow> string" where
  "write_reason disk_full = (if disk_full then ''disk_full'' else ''disk_io_error'')"

definition push_write ::
    "('d, 'h) spool_env \<Rightarrow> bytes \<Rightarrow> nat \<Rightarrow> ('d, 'h) disk_queue \<Rightarrow> push_end \<times> ('d, 'h) disk_queue" where
  "push_write E rec events q =
     (case write_record E rec q of
        (Ran _, q) \<Rightarrow> (Pushed, after_change q)
      | (Write_Error_At disk_full, q) \<Rightarrow> (Push_Dropped, count_dropped (write_reason disk_full) events q)
      | (Push_Gone, q) \<Rightarrow> (Push_Cancelled, q))"

text \<open>
  At most so many turns of the loop. A push that has to wait is parked with what it remembers, and
  tried again from there.
\<close>

fun push_loop ::
    "nat \<Rightarrow> ('d, 'h) spool_env \<Rightarrow> bytes \<Rightarrow> nat \<Rightarrow> bool \<Rightarrow> ('d, 'h) disk_queue \<Rightarrow> push_end \<times> ('d, 'h) disk_queue" where
  "push_loop 0 E rec events made_room q = (Push_Unfinished, q)"
| "push_loop (Suc n) E rec events made_room q =
     (let q = snd (roll_read_cursor E q) in
      case push_action (length rec) made_room q of
        Act_Write \<Rightarrow> push_write E rec events q
      | Act_Drop_Newest \<Rightarrow> (Push_Dropped, count_dropped ''overflow_newest'' events q)
      | Act_Make_Room \<Rightarrow>
          (case rotate_consumed_active_segment E q of
             (Ran _, q) \<Rightarrow> push_loop n E rec events True q
           | (Write_Error_At disk_full, q) \<Rightarrow> (Push_Dropped, count_dropped (write_reason disk_full) events q)
           | (Push_Gone, q) \<Rightarrow> (Push_Cancelled, q))
      | Act_Evict \<Rightarrow>
          (case evict_oldest_record E q of
             (True, q) \<Rightarrow> push_loop n E rec events made_room q
           | (False, q) \<Rightarrow> push_write E rec events q)
      | Act_Block \<Rightarrow> (Push_Parked made_room, q))"

text \<open>The record of a push: its number is taken first, whatever becomes of it.\<close>

definition push_record ::
    "('d, 'h) spool_env \<Rightarrow> (symbol, 'd, 'h) event_batch \<times> batch_context \<Rightarrow> ('d, 'h) disk_queue \<Rightarrow>
     bytes result \<times> ('d, 'h) disk_queue" where
  "push_record E item q =
     (let (seq, q) = numbering_next q; (batch, ctx) = item in
      case record_bytes (sv_record E) (resolve_str (sv_names E (dq_clock q))) (cf_compression (dq_config q)) (batch, ctx, seq) of
        Inl e \<Rightarrow>
          (Inl e, dq_emit (Dx_Warn ''frame_too_large'') (count_dropped ''frame_too_large'' (length (b_events batch)) q))
      | Inr rec \<Rightarrow> (Inr rec, q))"

definition push ::
    "nat \<Rightarrow> ('d, 'h) spool_env \<Rightarrow> (symbol, 'd, 'h) event_batch \<times> batch_context \<Rightarrow> ('d, 'h) disk_queue \<Rightarrow>
     push_end \<times> ('d, 'h) disk_queue" where
  "push n E item q =
     (case push_record E item q of
        (Inl _, q) \<Rightarrow> (Push_Dropped, q)
      | (Inr rec, q) \<Rightarrow> push_loop n E rec (length (b_events (fst item))) False q)"

section \<open>Shutting down\<close>

text \<open>
  \<open>finish\<close>: the worker runs every job still queued, then is released; the active segment and the
  directory are synced and the handles closed.
\<close>

definition finish_step :: "('d, 'h) spool_env \<Rightarrow> string \<Rightarrow> ('d, 'h) disk_queue \<Rightarrow> ('d, 'h) disk_queue" where
  "finish_step E op q =
     (if sv_io E (dq_clock q) = Io_Ok then dq_tick q else count_fs_error op (dq_tick q))"

definition finish :: "('d, 'h) spool_env \<Rightarrow> ('d, 'h) disk_queue \<Rightarrow> ('d, 'h) disk_queue" where
  "finish E q =
     (let q = q\<lparr>dq_last_checkpoint := sv_now E (dq_clock q)\<rparr>;
          q = queue_persist E \<lparr>pj_cursor = (dq_read_seq q, dq_read_offset q), pj_unlink = []\<rparr> q;
          q = (fold (run_persist_job E) (dq_jobs q) (q\<lparr>dq_jobs := []\<rparr>))\<lparr>dq_worker := False, dq_read_file := None\<rparr>;
          q = (if dq_write_file q then finish_step E ''flush'' q else q);
          q = finish_step E ''fsync'' (finish_step E ''fsync'' q)
      in q\<lparr>dq_write_file := False\<rparr>)"

end
