(* ===== verification/Disk_Open.thy ===== *)
theory Disk_Open
  imports Disk_Queue
begin

text \<open>
  Opening a spool (\<open>DiskQueue::open\<close> of \<open>crates/logit-pipeline/src/disk_queue.rs\<close>): the segments a
  previous process left are listed, the highest is walked and cut back to its last whole record,
  the cursor is loaded and clamped, and what is queued is counted. The lock only keeps a second
  process out: taking it is one more step that may fail.
\<close>

definition CURSOR_VERSION :: nat where "CURSOR_VERSION = 1"

section \<open>What is found on disk\<close>

definition list_segments :: "('d, 'h) disk_queue \<Rightarrow> nat list" where
  "list_segments q = sort (map fst (dq_files q))"

definition load_cursor :: "('d, 'h) disk_queue \<Rightarrow> (nat \<times> nat) option \<times> ('d, 'h) disk_queue" where
  "load_cursor q =
     (case dq_cursor q of
        No_Cursor \<Rightarrow> (None, q)
      | Bad_Cursor \<Rightarrow> (None, dq_emit (Dx_Warn ''cursor_error'') q)
      | Cursor_Doc version seg offset \<Rightarrow>
          if version = CURSOR_VERSION then (Some (seg, offset), q)
          else (None, dq_emit (Dx_Warn ''cursor_error'') q))"

text \<open>A step whose failure fails the open.\<close>

definition open_step :: "('d, 'h) spool_env \<Rightarrow> string \<Rightarrow> ('d, 'h) disk_queue \<Rightarrow> string + ('d, 'h) disk_queue" where
  "open_step E what q = (if sv_io E (dq_clock q) = Io_Ok then Inr (dq_tick q) else Inl what)"

text \<open>The active segment, walked and cut back when its end is torn.\<close>

definition recover_active ::
    "('d, 'h) spool_env \<Rightarrow> nat \<Rightarrow> ('d, 'h) disk_queue \<Rightarrow>
     string + (segment \<times> (nat \<times> nat) option \<times> ('d, 'h) disk_queue)" where
  "recover_active E seq q =
     bnd (open_step E ''reading segment'' q) (\<lambda>q.
     let bs = contents seq q;
         good = wo_good_len (walk_segment (sv_record E) (sv_table E (dq_clock q)) bs 0)
     in if good < length bs then
          bnd (open_step E ''truncating torn segment'' q) (\<lambda>q.
          Inr (\<lparr>seg_seq = seq, seg_len = good\<rparr>, Some (seq, good), put_file seq (set_len good bs) q))
        else Inr (\<lparr>seg_seq = seq, seg_len = good\<rparr>, None, q))"

fun scan_segments ::
    "('d, 'h) spool_env \<Rightarrow> nat \<Rightarrow> nat list \<Rightarrow> ('d, 'h) disk_queue \<Rightarrow>
     string + (segment list \<times> (nat \<times> nat) option \<times> ('d, 'h) disk_queue)" where
  "scan_segments E active [] q = Inr ([], None, q)"
| "scan_segments E active (seq # seqs) q =
     bnd (open_step E ''stat-ing segment'' q) (\<lambda>q.
     bnd (if seq = active then recover_active E seq q
          else Inr (\<lparr>seg_seq = seq, seg_len = length (contents seq q)\<rparr>, None, q)) (\<lambda>(s, torn_at, q).
     bnd (scan_segments E active seqs q) (\<lambda>(segs, torn_at', q).
     Inr (s # segs, (case torn_at' of None \<Rightarrow> torn_at | Some _ \<Rightarrow> torn_at'), q))))"

definition clamp_cursor ::
    "segment list \<Rightarrow> (nat \<times> nat) option \<Rightarrow> ('d, 'h) disk_queue \<Rightarrow> (nat \<times> nat) \<times> ('d, 'h) disk_queue" where
  "clamp_cursor segs loaded q =
     (let oldest = seg_seq (hd segs);
          (cur_seq, cur_offset) = (case loaded of Some at \<Rightarrow> at | None \<Rightarrow> (oldest, 0))
      in case find_len cur_seq segs of
           None \<Rightarrow> ((oldest, 0), if loaded \<noteq> None then dq_emit (Dx_Warn ''cursor_error'') q else q)
         | Some len \<Rightarrow>
             if cur_seq < oldest then ((oldest, 0), if loaded \<noteq> None then dq_emit (Dx_Warn ''cursor_error'') q else q)
             else if cur_offset > len then ((cur_seq, len), dq_emit (Dx_Warn ''cursor_error'') q)
             else ((cur_seq, cur_offset), q))"

definition torn_lost :: "(nat \<times> nat) option \<Rightarrow> (nat \<times> nat) option \<Rightarrow> bool" where
  "torn_lost torn_at loaded \<longleftrightarrow>
     (case torn_at of
        None \<Rightarrow> False
      | Some (seq, good_len) \<Rightarrow>
          \<not> (case loaded of Some (cur_seq, cur_offset) \<Rightarrow> cur_seq = seq \<and> cur_offset > good_len | None \<Rightarrow> False))"

text \<open>The replay count: the records from the resume point on, and the corrupt regions among them.\<close>

fun count_replayed ::
    "('d, 'h) spool_env \<Rightarrow> nat \<Rightarrow> segment list \<Rightarrow> ('d, 'h) disk_queue \<Rightarrow> string + (nat \<times> nat \<times> ('d, 'h) disk_queue)" where
  "count_replayed E start [] q = Inr (0, 0, q)"
| "count_replayed E start (s # segs) q =
     bnd (open_step E ''reading segment'' q) (\<lambda>q.
     let w = walk_segment (sv_record E) (sv_table E (dq_clock q)) (take (seg_len s) (contents (seg_seq s) q)) start
     in bnd (count_replayed E 0 segs q) (\<lambda>(replayed, corrupt, q).
        Inr (wo_valid_count w + replayed, wo_corrupt_skipped w + corrupt, q)))"

section \<open>Opening\<close>

text \<open>What is found, or the first segment created: the segments, the cursor, and where a tail was torn off.\<close>

definition find_segments ::
    "('d, 'h) spool_env \<Rightarrow> ('d, 'h) disk_queue \<Rightarrow>
     string + (segment list \<times> (nat \<times> nat) \<times> (nat \<times> nat) option \<times> bool \<times> ('d, 'h) disk_queue)" where
  "find_segments E q =
     (let seqs = list_segments q in
      if seqs = [] then
        bnd (open_step E ''creating segment'' q) (\<lambda>q.
        Inr ([\<lparr>seg_seq = 0, seg_len = 0\<rparr>], (0, 0), None, False, put_file 0 [] q))
      else
        bnd (scan_segments E (last seqs) seqs q) (\<lambda>(segs, torn_at, q).
        let (loaded, q) = load_cursor q; (at, q) = clamp_cursor segs loaded q
        in Inr (segs, at, torn_at, torn_lost torn_at loaded, q)))"

definition report_opened ::
    "(nat \<times> nat) option \<Rightarrow> bool \<Rightarrow> nat \<Rightarrow> nat \<Rightarrow> ('d, 'h) disk_queue \<Rightarrow> ('d, 'h) disk_queue" where
  "report_opened torn_at lost corrupt replayed q =
     (let q = (if torn_at \<noteq> None then dq_emit (Dx_Count ''logit.component.buffer.disk.truncated'' 1 []) q else q);
          q = (if lost then dq_emit (Dx_Warn ''disk_torn'') (dq_emit (Dx_Count ''batches.dropped'' 1 ''disk_torn'') q) else q);
          q = (if corrupt > 0 then
                 dq_emit (Dx_Warn ''disk_corrupt'')
                   (dq_emit (Dx_Count ''events.dropped'' corrupt ''disk_corrupt'')
                     (dq_emit (Dx_Count ''batches.dropped'' corrupt ''disk_corrupt'') q))
               else q)
      in if replayed > 0 then dq_emit (Dx_Count ''logit.component.buffer.disk.replayed'' replayed []) q else q)"

text \<open>A process that holds nothing yet: the files and the clock are all it has.\<close>

definition before_open :: "spool_config \<Rightarrow> ('d, 'h) disk_queue \<Rightarrow> ('d, 'h) disk_queue" where
  "before_open config q =
     \<lparr>dq_config = config, dq_segments = [], dq_read_seq = 0, dq_read_offset = 0, dq_total_bytes = 0,
      dq_queued_records = 0, dq_read_ahead = [], dq_write_file = False, dq_needs_repair = None,
      dq_rotation_started = False, dq_read_file = None, dq_last_checkpoint = 0, dq_worker = False, dq_jobs = [],
      dq_closed = False, dq_id = [], dq_next = 1, dq_files = dq_files q, dq_cursor = dq_cursor q,
      dq_clock = dq_clock q, dq_log = []\<rparr>"

definition disk_open ::
    "('d, 'h) spool_env \<Rightarrow> spool_config \<Rightarrow> ('d, 'h) disk_queue \<Rightarrow> string + ('d, 'h) disk_queue" where
  "disk_open E config q =
     bnd (open_step E ''creating disk buffer directory'' (before_open config q)) (\<lambda>q.
     bnd (open_step E ''opening lock file'' q) (\<lambda>q.
     bnd (open_step E ''already in use by another component or process'' q) (\<lambda>q.
     bnd (open_step E ''listing segments'' q) (\<lambda>q.
     bnd (find_segments E q) (\<lambda>(segs, at, torn_at, lost, q).
     let leaked = map seg_seq (takeWhile (\<lambda>s. seg_seq s < fst at) segs);
         segs = dropWhile (\<lambda>s. seg_seq s < fst at) segs
     in bnd (count_replayed E (snd at) segs q) (\<lambda>(replayed, corrupt, q).
        let q = report_opened torn_at lost corrupt replayed q;
            q = fold (unlink_segment E) leaked (persist_cursor E at q)
        in bnd (open_step E ''starting the persist thread'' q) (\<lambda>q.
           let total = sum_list (map seg_len segs) in
           Inr (after_change (q\<lparr>dq_segments := segs, dq_read_seq := fst at, dq_read_offset := snd at,
             dq_total_bytes := total, dq_queued_records := replayed,
             dq_last_checkpoint := sv_now E (dq_clock q), dq_worker := True,
             dq_id := sv_identity E (dq_clock q), dq_next := 1\<rparr>)))))))))"

end
