(* ===== verification/Sink_Store.thy ===== *)
theory Sink_Store
  imports Bounded_Queue Disk_Open
begin

text \<open>
  The store of a sink (\<open>SinkQueue\<close>, \<open>SinkStore\<close> of \<open>crates/logit-pipeline/src/queue.rs\<close>): the
  in-memory queue that numbers its batches, the choice between it and the disk spool, and the
  operations that dispatch to either. A push that has to wait is parked with what it holds and tried
  again from there. The heap estimate of a batch is a function of the environment, and so is the
  pressure signal of a disk spool.
\<close>

section \<open>The environment\<close>

record ('d, 'h) store_env =
  st_spool :: "('d, 'h) spool_env"
  st_floats :: float_ops
  st_weigh :: "(symbol, 'd, 'h) event_batch \<Rightarrow> nat"
  st_turns :: nat
  st_pressure :: "nat \<Rightarrow> bool"
  st_identity :: bytes

definition batch_queued :: "('d, 'h) store_env \<Rightarrow> ('d, 'h) store_item queued" where
  "batch_queued T = \<lparr>qd_weight = (\<lambda>(batch, ctx, seq). st_weigh T batch), qd_units = (\<lambda>(batch, ctx, seq). length (b_events batch))\<rparr>"

section \<open>The numbered queue\<close>

record sink_queue_config =
  sc_max_batches :: nat
  sc_max_bytes :: nat
  sc_overflow :: overflow_policy
  sc_recover_below :: f64

definition into_queue_config :: "sink_queue_config \<Rightarrow> queue_config" where
  "into_queue_config c =
     \<lparr>qc_max_items = sc_max_batches c, qc_max_weight = sc_max_bytes c, qc_overflow = sc_overflow c,
      qc_recover_below = sc_recover_below c\<rparr>"

record ('d, 'h) sink_queue =
  mq_queue :: "('d, 'h) store_item bounded_queue"
  mq_id :: bytes
  mq_next :: u64

definition sink_queue_new :: "('d, 'h) store_env \<Rightarrow> sink_queue_config \<Rightarrow> ('d, 'h) sink_queue" where
  "sink_queue_new T config =
     \<lparr>mq_queue = with_metrics (into_queue_config config), mq_id = st_identity T, mq_next = 1\<rparr>"

definition number_batch :: "('d, 'h) sink_queue \<Rightarrow> seq_id \<times> ('d, 'h) sink_queue" where
  "number_batch m = (\<lparr>sq_id = mq_id m, sq_seq = mq_next m\<rparr>, m\<lparr>mq_next := mq_next m + 1\<rparr>)"

section \<open>The store\<close>

datatype ('d, 'h) sink_store = Store_Memory "('d, 'h) sink_queue" | Store_Disk "('d, 'h) disk_queue"

text \<open>A disk store is opened on what its directory holds.\<close>

datatype ('d, 'h) store_config = Memory_Config sink_queue_config | Disk_Config spool_config "('d, 'h) disk_queue"

definition store_open :: "('d, 'h) store_env \<Rightarrow> ('d, 'h) store_config \<Rightarrow> string + ('d, 'h) sink_store" where
  "store_open T config =
     (case config of
        Memory_Config c \<Rightarrow> Inr (Store_Memory (sink_queue_new T c))
      | Disk_Config c on_disk \<Rightarrow>
          (case disk_open (st_spool T) c on_disk of Inl e \<Rightarrow> Inl e | Inr q \<Rightarrow> Inr (Store_Disk q)))"

subsection \<open>Pushing\<close>

text \<open>A push that waits, with whether it has waited before; a disk push has its record already.\<close>

datatype ('d, 'h) parked_push = Waits_Memory "('d, 'h) store_item" bool | Waits_Disk bytes nat bool

datatype ('d, 'h) store_push = Push_Done | Push_Waits "('d, 'h) parked_push" | Push_Cut

text \<open>A turn of a push: \<open>Push_Cut\<close> when its future was dropped at a disk operation.\<close>

definition store_push_turn ::
    "('d, 'h) store_env \<Rightarrow> nat \<Rightarrow> ('d, 'h) parked_push \<Rightarrow> ('d, 'h) sink_store \<Rightarrow> ('d, 'h) store_push \<times> ('d, 'h) sink_store" where
  "store_push_turn T now p s =
     (case (p, s) of
        (Waits_Memory item waited, Store_Memory m) \<Rightarrow>
          (case queue_push (batch_queued T) (st_floats T) now item waited (mq_queue m) of
             (Some _, q) \<Rightarrow> (Push_Done, Store_Memory (m\<lparr>mq_queue := q\<rparr>))
           | (None, q) \<Rightarrow> (Push_Waits (Waits_Memory item True), Store_Memory (m\<lparr>mq_queue := q\<rparr>)))
      | (Waits_Disk rec events made_room, Store_Disk q) \<Rightarrow>
          (case push_loop (st_turns T) (st_spool T) rec events made_room q of
             (Push_Parked made_room, q) \<Rightarrow> (Push_Waits (Waits_Disk rec events made_room), Store_Disk q)
           | (Push_Cancelled, q) \<Rightarrow> (Push_Cut, Store_Disk q)
           | (Push_Unfinished, q) \<Rightarrow> (Push_Cut, Store_Disk q)
           | (_, q) \<Rightarrow> (Push_Done, Store_Disk q))
      | _ \<Rightarrow> (Push_Done, s))"

definition store_push ::
    "('d, 'h) store_env \<Rightarrow> nat \<Rightarrow> (symbol, 'd, 'h) event_batch \<times> batch_context \<Rightarrow> ('d, 'h) sink_store \<Rightarrow>
     ('d, 'h) store_push \<times> ('d, 'h) sink_store" where
  "store_push T now item s =
     (case s of
        Store_Memory m \<Rightarrow>
          (let (seq, m) = number_batch m; (batch, ctx) = item
           in store_push_turn T now (Waits_Memory (batch, ctx, seq) False) (Store_Memory m))
      | Store_Disk q \<Rightarrow>
          (case push_record (st_spool T) item q of
             (Inl _, q) \<Rightarrow> (Push_Done, Store_Disk q)
           | (Inr rec, q) \<Rightarrow> store_push_turn T now (Waits_Disk rec (length (b_events (fst item))) False) (Store_Disk q)))"

text \<open>The future of a waiting push, dropped.\<close>

definition push_dropped :: "nat \<Rightarrow> ('d, 'h) parked_push \<Rightarrow> ('d, 'h) sink_store \<Rightarrow> ('d, 'h) sink_store" where
  "push_dropped now p s =
     (case (p, s) of
        (Waits_Memory _ True, Store_Memory m) \<Rightarrow> Store_Memory (m\<lparr>mq_queue := queue_push_dropped now (mq_queue m)\<rparr>)
      | _ \<Rightarrow> s)"

subsection \<open>Consuming\<close>

definition store_peek :: "('d, 'h) store_env \<Rightarrow> ('d, 'h) sink_store \<Rightarrow> ('d, 'h) store_item taken \<times> ('d, 'h) sink_store" where
  "store_peek T s =
     (case s of
        Store_Memory m \<Rightarrow> (let (r, q) = queue_peek (mq_queue m) in (r, Store_Memory (m\<lparr>mq_queue := q\<rparr>)))
      | Store_Disk q \<Rightarrow>
          (case peek (st_turns T) (st_spool T) q of
             (Peeked item, q) \<Rightarrow> (Taken item, Store_Disk q)
           | (Peek_Ended, q) \<Rightarrow> (Take_Ended, Store_Disk q)
           | (_, q) \<Rightarrow> (Take_Parked, Store_Disk q)))"

definition store_peek_at ::
    "('d, 'h) store_env \<Rightarrow> nat \<Rightarrow> ('d, 'h) sink_store \<Rightarrow> ('d, 'h) store_item option \<times> ('d, 'h) sink_store" where
  "store_peek_at T n s =
     (case s of
        Store_Memory m \<Rightarrow> (let (r, q) = queue_peek_at n (mq_queue m) in (r, Store_Memory (m\<lparr>mq_queue := q\<rparr>)))
      | Store_Disk q \<Rightarrow> (let (r, q) = peek_at (st_spool T) n q in (r, Store_Disk q)))"

definition disk_wait_at ::
    "('d, 'h) store_env \<Rightarrow> nat \<Rightarrow> nat \<Rightarrow> nat \<Rightarrow> ('d, 'h) disk_queue \<Rightarrow> ('d, 'h) store_item store_wait \<times> ('d, 'h) disk_queue" where
  "disk_wait_at T now n deadline q =
     (case peek_at (st_spool T) n q of
        (Some item, q) \<Rightarrow> (Wait_Item item, q)
      | (None, q) \<Rightarrow>
          (if st_pressure T now then Wait_Pressure
           else if dq_closed q then Wait_Closed
           else if now \<ge> deadline then Wait_Deadline
           else Wait_Parked, q))"

definition store_wait_at ::
    "('d, 'h) store_env \<Rightarrow> nat \<Rightarrow> nat \<Rightarrow> nat \<Rightarrow> ('d, 'h) sink_store \<Rightarrow> ('d, 'h) store_item store_wait \<times> ('d, 'h) sink_store" where
  "store_wait_at T now n deadline s =
     (case s of
        Store_Memory m \<Rightarrow> (let (r, q) = queue_wait_at now n deadline (mq_queue m) in (r, Store_Memory (m\<lparr>mq_queue := q\<rparr>)))
      | Store_Disk q \<Rightarrow> (let (r, q) = disk_wait_at T now n deadline q in (r, Store_Disk q)))"

definition max_in_flight :: "('d, 'h) sink_store \<Rightarrow> nat" where
  "max_in_flight s = (case s of Store_Memory m \<Rightarrow> max (bq_max_items (mq_queue m)) 1 | Store_Disk _ \<Rightarrow> USIZE_MAX)"

text \<open>The write loop's note for the \<open>buffer_full\<close> line, which a memory store keeps in its watch.\<close>

definition on_send_limit :: "(send_limit \<Rightarrow> send_limit) \<Rightarrow> ('d, 'h) sink_store \<Rightarrow> ('d, 'h) sink_store" where
  "on_send_limit f s =
     (case s of
        Store_Memory m \<Rightarrow>
          Store_Memory (m\<lparr>mq_queue := on_watch (\<lambda>w. w\<lparr>fw_send_limit := f (fw_send_limit w)\<rparr>) (mq_queue m)\<rparr>)
      | Store_Disk q \<Rightarrow> s)"

definition store_commit ::
    "('d, 'h) store_env \<Rightarrow> nat \<Rightarrow> ('d, 'h) sink_store \<Rightarrow> ('d, 'h) store_item option \<times> ('d, 'h) sink_store" where
  "store_commit T now s =
     (case s of
        Store_Memory m \<Rightarrow> (let (r, q) = queue_commit (st_floats T) now (mq_queue m) in (r, Store_Memory (m\<lparr>mq_queue := q\<rparr>)))
      | Store_Disk q \<Rightarrow> (let (r, q) = commit (st_spool T) q in (r, Store_Disk q)))"

definition store_queued :: "('d, 'h) sink_store \<Rightarrow> nat" where
  "store_queued s = (case s of Store_Memory m \<Rightarrow> queue_len (mq_queue m) | Store_Disk q \<Rightarrow> min (dq_queued_records q) USIZE_MAX)"

definition store_close :: "('d, 'h) sink_store \<Rightarrow> ('d, 'h) sink_store" where
  "store_close s =
     (case s of
        Store_Memory m \<Rightarrow> Store_Memory (m\<lparr>mq_queue := queue_close (mq_queue m)\<rparr>)
      | Store_Disk q \<Rightarrow> Store_Disk (close q))"

subsection \<open>Shutting down\<close>

text \<open>The loop of \<open>finish\<close> over a memory store: everything still held, committed one by one.\<close>

fun commit_rest ::
    "nat \<Rightarrow> ('d, 'h) store_env \<Rightarrow> nat \<Rightarrow> ('d, 'h) sink_queue \<Rightarrow> ('d, 'h) store_item list \<times> ('d, 'h) sink_queue" where
  "commit_rest 0 T now m = ([], m)"
| "commit_rest (Suc n) T now m =
     (case queue_commit (st_floats T) now (mq_queue m) of
        (None, q) \<Rightarrow> ([], m\<lparr>mq_queue := q\<rparr>)
      | (Some item, q) \<Rightarrow> (let (items, m) = commit_rest n T now (m\<lparr>mq_queue := q\<rparr>) in (item # items, m)))"

definition events_of :: "('d, 'h) store_item list \<Rightarrow> nat" where
  "events_of items = sum_list (map (\<lambda>(batch, ctx, seq). length (b_events batch)) items)"

definition store_finish :: "('d, 'h) store_env \<Rightarrow> nat \<Rightarrow> ('d, 'h) sink_store \<Rightarrow> (nat \<times> nat) \<times> ('d, 'h) sink_store" where
  "store_finish T now s =
     (case s of
        Store_Memory m \<Rightarrow>
          (let (items, m) = commit_rest (Suc (queue_len (mq_queue m))) T now (m\<lparr>mq_queue := finish_full_episode now (mq_queue m)\<rparr>)
           in ((length items, events_of items), Store_Memory m))
      | Store_Disk q \<Rightarrow> ((0, 0), Store_Disk (finish (st_spool T) q)))"

end
