(* ===== verification/Write_Loop.thy ===== *)
theory Write_Loop
  imports Sink_Store
begin

text \<open>
  Delivery from a sink's store (\<open>crates/logit-pipeline/src/runtime.rs\<close>): \<open>drain_inbox\<close>, which moves
  batches from the inbox into the store, and \<open>write_loop\<close>, which hands them to the sink one at a time
  or through a window, retries, and settles each. Both run in one task: whenever the write loop
  awaits, the environment says what arrived in the inbox, how many turns \<open>drain_inbox\<close> takes, and
  whether the await is still pending when the shutdown grace ends, which drops it. A sink is the
  record of its trait's methods over a state of its own; a call that is dropped has its own function.
  Instants and durations are nanoseconds. Spans and the wording of the lines are left out.
\<close>

section \<open>The sink\<close>

record ('d, 'h, 'o) output_ops =
  op_send :: "(symbol, 'd, 'h) event_batch \<Rightarrow> 'o \<Rightarrow> (send_error + unit) \<times> 'o"
  op_observe_batch :: "batch_context \<Rightarrow> seq_id \<Rightarrow> 'o \<Rightarrow> 'o"
  op_window :: "'o \<Rightarrow> nat"
  op_collecting :: "'o \<Rightarrow> nat option"
  op_reached_destination :: "nat \<Rightarrow> 'o \<Rightarrow> nat"
  op_send_duration_per_batch :: "'o \<Rightarrow> bool"
  op_answered_send_duration :: "'o \<Rightarrow> nat option"
  op_submit :: "(symbol, 'd, 'h) event_batch \<Rightarrow> batch_context \<Rightarrow> seq_id \<Rightarrow> 'o \<Rightarrow> (send_error + unit) \<times> 'o"
  op_await_ack :: "'o \<Rightarrow> (send_error + unit) \<times> 'o"
  op_flush :: "'o \<Rightarrow> (send_error + unit) \<times> 'o"
  op_default_posture :: "'o \<Rightarrow> delivery_posture"
  op_observe_posture :: "delivery_posture \<Rightarrow> 'o \<Rightarrow> 'o"
  op_send_cut :: "(symbol, 'd, 'h) event_batch \<Rightarrow> 'o \<Rightarrow> 'o"
  op_submit_cut :: "(symbol, 'd, 'h) event_batch \<Rightarrow> batch_context \<Rightarrow> seq_id \<Rightarrow> 'o \<Rightarrow> 'o"
  op_await_ack_cut :: "'o \<Rightarrow> 'o"

section \<open>Configuration and state\<close>

record write_config =
  wc_base_delay :: nat
  wc_max_delay :: nat
  wc_shutdown_grace :: nat
  wc_delivery_override :: "delivery_posture option"
  wc_retrying_log_interval :: nat
  wc_window_max_bytes :: nat

definition RETRYING_GAUGE :: string where "RETRYING_GAUGE = ''logit.component.retrying''"

text \<open>\<open>Delivered\<close>, as \<open>drain_inbox\<close> receives it.\<close>

datatype ('d, 'h) delivered =
    Owned "(symbol, 'd, 'h) event_batch" batch_context
  | Shared "(symbol, 'd, 'h) event_batch" batch_context

fun unwrap_batch_arc :: "('d, 'h) delivered \<Rightarrow> (symbol, 'd, 'h) event_batch \<times> batch_context" where
  "unwrap_batch_arc (Owned batch ctx) = (batch, ctx)"
| "unwrap_batch_arc (Shared batch ctx) = (batch, ctx)"

datatype answer = Answer_Ok | Answer_Err send_error | Answer_Cut

text \<open>Why a batch left the store.\<close>

datatype settled = Settled_Delivered | Settled_Dropped fault | Settled_Shutdown

datatype ('d, 'h) wl_effect =
    Wl_Observe "('d, 'h) store_item"
  | Wl_Send "('d, 'h) store_item" answer
  | Wl_Submit "('d, 'h) store_item" answer
  | Wl_Await answer
  | Wl_Commit "('d, 'h) store_item option" settled
  | Wl_Flush answer
  | Wl_Count string nat string
  | Wl_Gauge string nat
  | Wl_Timing string nat
  | Wl_Line string
  | Wl_Retrying fault nat nat nat
  | Wl_Backoff nat

record window_state =
  ws_outstanding :: nat
  ws_observed :: nat
  ws_submitting :: bool
  ws_at_fault :: nat
  ws_submitted :: "nat list"
  ws_head_answered :: "nat option"
  ws_collecting :: bool
  ws_staged_bytes :: nat
  ws_closed_window :: bool

definition window_default :: window_state where
  "window_default =
     \<lparr>ws_outstanding = 0, ws_observed = 0, ws_submitting = False, ws_at_fault = 0, ws_submitted = [], ws_head_answered = None,
      ws_collecting = False, ws_staged_bytes = 0, ws_closed_window = False\<rparr>"

record retrying =
  rt_failures :: nat
  rt_since :: "nat option"
  rt_last_line :: "nat option"

text \<open>A push of \<open>drain_inbox\<close> that was cut at a disk operation goes no further.\<close>

datatype ('d, 'h) drain_state = Drain_Idle | Drain_Pushing "('d, 'h) parked_push" | Drain_Stuck | Drain_Over

record ('d, 'h, 'o) sink_run =
  sr_output :: 'o
  sr_store :: "('d, 'h) sink_store"
  sr_window :: window_state
  sr_retrying :: retrying
  sr_deadline :: "nat option"
  sr_degraded :: bool
  sr_sending :: bool
  sr_inbox :: "('d, 'h) delivered list"
  sr_hung_up :: bool
  sr_in_hand :: "((symbol, 'd, 'h) event_batch \<times> batch_context) option"
  sr_drain :: "('d, 'h) drain_state"
  sr_shutdown_dropped :: nat
  sr_clock :: nat
  sr_log :: "('d, 'h) wl_effect list"

record ('d, 'h, 'o) run_env =
  rn_store :: "('d, 'h) store_env"
  rn_ops :: "('d, 'h, 'o) output_ops"
  rn_config :: write_config
  rn_now :: "nat \<Rightarrow> nat"
  rn_arrives :: "nat \<Rightarrow> ('d, 'h) delivered list"
  rn_hangs_up :: "nat \<Rightarrow> bool"
  rn_drains :: "nat \<Rightarrow> nat"
  rn_signal :: "nat \<Rightarrow> bool"
  rn_grace_polled :: "nat \<Rightarrow> bool"
  rn_pending :: "nat \<Rightarrow> bool"
  rn_signal_first :: "nat \<Rightarrow> bool"

definition wl_emit :: "('d, 'h) wl_effect list \<Rightarrow> ('d, 'h, 'o) sink_run \<Rightarrow> ('d, 'h, 'o) sink_run" where
  "wl_emit xs s = s\<lparr>sr_log := sr_log s @ xs\<rparr>"

definition on_window :: "(window_state \<Rightarrow> window_state) \<Rightarrow> ('d, 'h, 'o) sink_run \<Rightarrow> ('d, 'h, 'o) sink_run" where
  "on_window f s = s\<lparr>sr_window := f (sr_window s)\<rparr>"

definition wl_now :: "('d, 'h, 'o) run_env \<Rightarrow> ('d, 'h, 'o) sink_run \<Rightarrow> nat" where
  "wl_now W s = rn_now W (sr_clock s)"

definition set_limit :: "nat \<Rightarrow> nat \<Rightarrow> ('d, 'h, 'o) sink_run \<Rightarrow> ('d, 'h, 'o) sink_run" where
  "set_limit n in_flight s = s\<lparr>sr_store := on_send_limit (send_limit_set n in_flight) (sr_store s)\<rparr>"

definition limit_answered :: "nat \<Rightarrow> ('d, 'h, 'o) sink_run \<Rightarrow> ('d, 'h, 'o) sink_run" where
  "limit_answered took s = s\<lparr>sr_store := on_send_limit (send_limit_answered took) (sr_store s)\<rparr>"

section \<open>Draining the inbox\<close>

definition after_push ::
    "('d, 'h) store_push \<times> ('d, 'h) sink_store \<Rightarrow> ('d, 'h, 'o) sink_run \<Rightarrow> ('d, 'h, 'o) sink_run" where
  "after_push r s =
     (case r of
        (Push_Done, st) \<Rightarrow> s\<lparr>sr_store := st, sr_in_hand := None, sr_drain := Drain_Idle\<rparr>
      | (Push_Waits p, st) \<Rightarrow> s\<lparr>sr_store := st, sr_drain := Drain_Pushing p\<rparr>
      | (Push_Cut, st) \<Rightarrow> s\<lparr>sr_store := st, sr_drain := Drain_Stuck\<rparr>)"

definition count_received :: "(symbol, 'd, 'h) event_batch \<Rightarrow> ('d, 'h) wl_effect list" where
  "count_received batch =
     [Wl_Count ''logit.component.batches.received'' 1 [], Wl_Count ''logit.component.events.received'' (length (b_events batch)) []]"

text \<open>A turn of \<open>drain_inbox\<close>.\<close>

definition drain_turn :: "('d, 'h, 'o) run_env \<Rightarrow> ('d, 'h, 'o) sink_run \<Rightarrow> ('d, 'h, 'o) sink_run" where
  "drain_turn W s =
     (case sr_drain s of
        Drain_Idle \<Rightarrow>
          (case sr_inbox s of
             [] \<Rightarrow> if sr_hung_up s then s\<lparr>sr_store := store_close (sr_store s), sr_drain := Drain_Over\<rparr> else s
           | d # rest \<Rightarrow>
               (let (batch, ctx) = unwrap_batch_arc d;
                    s = wl_emit (Wl_Gauge ''logit.component.inbox.batches'' (length rest) # count_received batch)
                          (s\<lparr>sr_inbox := rest, sr_in_hand := Some (batch, ctx)\<rparr>)
                in after_push (store_push (rn_store W) (wl_now W s) (batch, ctx) (sr_store s)) s))
      | Drain_Pushing p \<Rightarrow> after_push (store_push_turn (rn_store W) (wl_now W s) p (sr_store s)) s
      | _ \<Rightarrow> s)"

section \<open>Awaiting\<close>

definition grace_over :: "('d, 'h, 'o) run_env \<Rightarrow> ('d, 'h, 'o) sink_run \<Rightarrow> bool" where
  "grace_over W s = (case sr_deadline s of Some due \<Rightarrow> wl_now W s \<ge> due | None \<Rightarrow> False)"

text \<open>The poll of \<open>shutdown_grace_expired\<close>: the first one after the signal sets the deadline.\<close>

definition poll_grace :: "('d, 'h, 'o) run_env \<Rightarrow> ('d, 'h, 'o) sink_run \<Rightarrow> ('d, 'h, 'o) sink_run" where
  "poll_grace W s =
     (if sr_deadline s = None \<and> rn_signal W (sr_clock s)
      then s\<lparr>sr_deadline := Some (wl_now W s + wc_shutdown_grace (rn_config W))\<rparr> else s)"

text \<open>
  An await of the write loop. Meanwhile batches arrive and are drained. \<open>guarded\<close> awaits race the
  grace: it cuts one that is still pending when its deadline is reached.
\<close>

definition pend :: "('d, 'h, 'o) run_env \<Rightarrow> bool \<Rightarrow> ('d, 'h, 'o) sink_run \<Rightarrow> bool \<times> ('d, 'h, 'o) sink_run" where
  "pend W guarded s =
     (let k = sr_clock s;
          s = s\<lparr>sr_inbox := sr_inbox s @ (if sr_hung_up s then [] else rn_arrives W k), sr_hung_up := sr_hung_up s \<or> rn_hangs_up W k\<rparr>;
          s = (drain_turn W ^^ rn_drains W k) s;
          s = (if guarded \<and> rn_grace_polled W k then poll_grace W s else s);
          s = s\<lparr>sr_clock := k + 1\<rparr>
      in (guarded \<and> rn_pending W k \<and> grace_over W s, s))"

definition answer_of :: "send_error + unit \<Rightarrow> answer" where
  "answer_of r = (case r of Inl e \<Rightarrow> Answer_Err e | Inr _ \<Rightarrow> Answer_Ok)"

text \<open>A call of a method of the sink, or its drop.\<close>

definition call_sink ::
    "('d, 'h, 'o) run_env \<Rightarrow> bool \<Rightarrow> (answer \<Rightarrow> ('d, 'h) wl_effect) \<Rightarrow> ('o \<Rightarrow> (send_error + unit) \<times> 'o) \<Rightarrow> ('o \<Rightarrow> 'o) \<Rightarrow>
     ('d, 'h, 'o) sink_run \<Rightarrow> answer \<times> ('d, 'h, 'o) sink_run" where
  "call_sink W guarded told run dropped s =
     (let (cut_off, s) = pend W guarded s in
      if cut_off then (Answer_Cut, wl_emit [told Answer_Cut] (s\<lparr>sr_output := dropped (sr_output s)\<rparr>))
      else
        (let (r, out) = run (sr_output s)
         in (answer_of r, wl_emit [told (answer_of r)] (s\<lparr>sr_output := out\<rparr>))))"

definition call_send ::
    "('d, 'h, 'o) run_env \<Rightarrow> ('d, 'h) store_item \<Rightarrow> ('d, 'h, 'o) sink_run \<Rightarrow> answer \<times> ('d, 'h, 'o) sink_run" where
  "call_send W item =
     call_sink W True (Wl_Send item) (op_send (rn_ops W) (fst item)) (op_send_cut (rn_ops W) (fst item))"

definition call_submit ::
    "('d, 'h, 'o) run_env \<Rightarrow> bool \<Rightarrow> ('d, 'h) store_item \<Rightarrow> ('d, 'h, 'o) sink_run \<Rightarrow> answer \<times> ('d, 'h, 'o) sink_run" where
  "call_submit W guarded item =
     (case item of (batch, ctx, seq) \<Rightarrow>
        call_sink W guarded (Wl_Submit item) (op_submit (rn_ops W) batch ctx seq) (op_submit_cut (rn_ops W) batch ctx seq))"

definition call_await :: "('d, 'h, 'o) run_env \<Rightarrow> bool \<Rightarrow> ('d, 'h, 'o) sink_run \<Rightarrow> answer \<times> ('d, 'h, 'o) sink_run" where
  "call_await W guarded = call_sink W guarded Wl_Await (op_await_ack (rn_ops W)) (op_await_ack_cut (rn_ops W))"

definition observe :: "('d, 'h, 'o) run_env \<Rightarrow> ('d, 'h) store_item \<Rightarrow> ('d, 'h, 'o) sink_run \<Rightarrow> ('d, 'h, 'o) sink_run" where
  "observe W item s =
     (case item of (batch, ctx, seq) \<Rightarrow>
        wl_emit [Wl_Observe item] (s\<lparr>sr_output := op_observe_batch (rn_ops W) ctx seq (sr_output s)\<rparr>))"

section \<open>Retrying\<close>

text \<open>\<open>Duration::MAX\<close>.\<close>

definition DURATION_MAX :: nat where "DURATION_MAX = 2 ^ 64 * 1000000000 - 1"

fun double_backoff :: "nat \<Rightarrow> nat \<Rightarrow> nat \<Rightarrow> nat" where
  "double_backoff 0 most backoff = backoff"
| "double_backoff (Suc n) most backoff =
     (if backoff \<ge> most then backoff else double_backoff n most (min (2 * backoff) DURATION_MAX))"

definition backoff_for :: "write_config \<Rightarrow> nat \<Rightarrow> nat" where
  "backoff_for c attempt = min (double_backoff (min (attempt - 1) 128) (wc_max_delay c) (wc_base_delay c)) (wc_max_delay c)"

definition retry_failed ::
    "('d, 'h, 'o) run_env \<Rightarrow> fault \<Rightarrow> ('d, 'h, 'o) sink_run \<Rightarrow> ('d, 'h, 'o) sink_run" where
  "retry_failed W fault s =
     (let now = wl_now W s; rt = sr_retrying s;
          failures = rt_failures rt + 1;
          since = (case rt_since rt of Some t \<Rightarrow> t | None \<Rightarrow> now);
          s = s\<lparr>sr_retrying := rt\<lparr>rt_failures := failures, rt_since := Some since\<rparr>\<rparr>;
          s = (if failures = 1 then wl_emit [Wl_Gauge RETRYING_GAUGE 1] s else s)
      in if (case rt_last_line rt of Some t \<Rightarrow> now - t < wc_retrying_log_interval (rn_config W) | None \<Rightarrow> False) then s
         else wl_emit [Wl_Retrying fault (now - since) failures (store_queued (sr_store s))]
                (s\<lparr>sr_retrying := (sr_retrying s)\<lparr>rt_last_line := Some now\<rparr>\<rparr>))"

definition is_retrying :: "('d, 'h, 'o) sink_run \<Rightarrow> bool" where
  "is_retrying s \<longleftrightarrow> rt_failures (sr_retrying s) > 0"

definition retry_settle :: "('d, 'h, 'o) sink_run \<Rightarrow> ('d, 'h, 'o) sink_run" where
  "retry_settle s =
     (if is_retrying s
      then wl_emit [Wl_Gauge RETRYING_GAUGE 0] (s\<lparr>sr_retrying := \<lparr>rt_failures = 0, rt_since = None, rt_last_line = None\<rparr>\<rparr>)
      else s)"

text \<open>What delivering a head came to; an error that is not retried, with its fault.\<close>

datatype delivery = Delivery_Delivered | Delivery_Dropped fault send_error | Delivery_Grace_Expired

text \<open>How a future of the loop ended: with a value, cut by the grace, or not within its turns.\<close>

datatype 'a polled = Came 'a | Was_Cut | Still_Running

text \<open>What follows a failed attempt: \<open>None\<close> to retry, after the failure was announced.\<close>

definition after_fault ::
    "('d, 'h, 'o) run_env \<Rightarrow> delivery_posture \<Rightarrow> send_error \<Rightarrow> ('d, 'h, 'o) sink_run \<Rightarrow> delivery option \<times> ('d, 'h, 'o) sink_run" where
  "after_fault W posture e s =
     (let s = wl_emit [Wl_Count ''logit.component.errors'' 1 []] s; fault = classify e in
      if \<not> is_retryable fault posture then (Some (Delivery_Dropped fault e), s)
      else (None, wl_emit [Wl_Count ''logit.component.retries'' 1 []] (retry_failed W fault s)))"

text \<open>One attempt at a batch: \<open>sending\<close> is set only while the call is in flight.\<close>

definition send_attempt ::
    "('d, 'h, 'o) run_env \<Rightarrow> ('d, 'h) store_item \<Rightarrow> ('d, 'h, 'o) sink_run \<Rightarrow> answer \<times> ('d, 'h, 'o) sink_run" where
  "send_attempt W item s =
     (let started = wl_now W s;
          (r, s) = call_send W item (set_limit 1 1 (s\<lparr>sr_sending := True\<rparr>))
      in if r = Answer_Cut then (r, s)
         else
           (let took = wl_now W s - started
            in (r, set_limit 1 0 (limit_answered took
                     (wl_emit [Wl_Timing ''logit.component.send.duration'' took] (s\<lparr>sr_sending := False\<rparr>))))))"

definition back_off :: "('d, 'h, 'o) run_env \<Rightarrow> bool \<Rightarrow> nat \<Rightarrow> ('d, 'h, 'o) sink_run \<Rightarrow> bool \<times> ('d, 'h, 'o) sink_run" where
  "back_off W guarded attempt s = pend W guarded (wl_emit [Wl_Backoff (backoff_for (rn_config W) attempt)] s)"

fun deliver_with_retry ::
    "nat \<Rightarrow> ('d, 'h, 'o) run_env \<Rightarrow> delivery_posture \<Rightarrow> ('d, 'h) store_item \<Rightarrow> nat \<Rightarrow> ('d, 'h, 'o) sink_run \<Rightarrow>
     delivery polled \<times> ('d, 'h, 'o) sink_run" where
  "deliver_with_retry 0 W posture item attempt s = (Still_Running, s)"
| "deliver_with_retry (Suc n) W posture item attempt s =
     (if grace_over W s then (Came Delivery_Grace_Expired, s)
      else
        (let attempt = min (attempt + 1) U32_MAX in
         case send_attempt W item s of
           (Answer_Cut, s) \<Rightarrow> (Was_Cut, s)
         | (Answer_Ok, s) \<Rightarrow> (Came Delivery_Delivered, s)
         | (Answer_Err e, s) \<Rightarrow>
             (case after_fault W posture e s of
                (Some d, s) \<Rightarrow> (Came d, s)
              | (None, s) \<Rightarrow>
                  (case back_off W True attempt s of
                     (True, s) \<Rightarrow> (Was_Cut, s)
                   | (False, s) \<Rightarrow> deliver_with_retry n W posture item attempt s))))"

section \<open>The window\<close>

definition settle_head :: "window_state \<Rightarrow> window_state" where
  "settle_head w =
     w\<lparr>ws_outstanding := ws_outstanding w - 1, ws_submitted := tl (ws_submitted w),
       ws_closed_window := (ws_outstanding w - 1 \<noteq> 0 \<and> ws_closed_window w)\<rparr>"

definition cut_window :: "window_state \<Rightarrow> window_state" where
  "cut_window w = w\<lparr>ws_outstanding := 0, ws_submitted := [], ws_collecting := False, ws_closed_window := False\<rparr>"

definition owed_round :: "('d, 'h, 'o) run_env \<Rightarrow> ('d, 'h, 'o) sink_run \<Rightarrow> bool" where
  "owed_round W s \<longleftrightarrow> ws_closed_window (sr_window s) \<and> op_window (rn_ops W) (sr_output s) \<noteq> USIZE_MAX"

definition left_the_process :: "window_state \<Rightarrow> nat" where
  "left_the_process w = ws_outstanding w + (if ws_submitting w then 1 else 0)"

datatype window_close = Close_Full | Close_Deadline | Close_Pressure | Close_Memory | Close_Closed | Close_Shutdown

fun close_tag :: "window_close \<Rightarrow> string" where
  "close_tag Close_Full = ''full''"
| "close_tag Close_Deadline = ''deadline''"
| "close_tag Close_Pressure = ''pressure''"
| "close_tag Close_Memory = ''memory''"
| "close_tag Close_Closed = ''closed''"
| "close_tag Close_Shutdown = ''shutdown''"

definition window_limit :: "('d, 'h, 'o) run_env \<Rightarrow> ('d, 'h, 'o) sink_run \<Rightarrow> nat" where
  "window_limit W s = max (min (op_window (rn_ops W) (sr_output s)) (max_in_flight (sr_store s))) 1"

text \<open>\<open>peek_at\<close> of the store; only a disk store awaits.\<close>

definition look_at ::
    "('d, 'h, 'o) run_env \<Rightarrow> bool \<Rightarrow> nat \<Rightarrow> ('d, 'h, 'o) sink_run \<Rightarrow> ('d, 'h) store_item option polled \<times> ('d, 'h, 'o) sink_run" where
  "look_at W guarded pos s =
     (let (cut_off, s) = (case sr_store s of Store_Disk _ \<Rightarrow> pend W guarded s | Store_Memory _ \<Rightarrow> (False, s)) in
      if cut_off then (Was_Cut, s)
      else (let (item, st) = store_peek_at (rn_store W) pos (sr_store s) in (Came item, s\<lparr>sr_store := st\<rparr>)))"

text \<open>The wait for a batch or the signal.\<close>

fun wait_turns ::
    "nat \<Rightarrow> ('d, 'h, 'o) run_env \<Rightarrow> bool \<Rightarrow> nat \<Rightarrow> nat \<Rightarrow> ('d, 'h, 'o) sink_run \<Rightarrow>
     (window_close + ('d, 'h) store_item) polled \<times> ('d, 'h, 'o) sink_run" where
  "wait_turns 0 W guarded pos deadline s = (Still_Running, s)"
| "wait_turns (Suc n) W guarded pos deadline s =
     (let (cut_off, s) = pend W guarded s in
      if cut_off then (Was_Cut, s)
      else if rn_signal W (sr_clock s) \<and> rn_signal_first W (sr_clock s) then (Came (Inl Close_Shutdown), s)
      else
        (case store_wait_at (rn_store W) (wl_now W s) pos deadline (sr_store s) of
           (Wait_Item item, st) \<Rightarrow> (Came (Inr item), s\<lparr>sr_store := st\<rparr>)
         | (Wait_Closed, st) \<Rightarrow> (Came (Inl Close_Closed), s\<lparr>sr_store := st\<rparr>)
         | (Wait_Deadline, st) \<Rightarrow> (Came (Inl Close_Deadline), s\<lparr>sr_store := st\<rparr>)
         | (Wait_Pressure, st) \<Rightarrow> (Came (Inl Close_Pressure), s\<lparr>sr_store := st\<rparr>)
         | (Wait_Parked, st) \<Rightarrow>
             if rn_signal W (sr_clock s) then (Came (Inl Close_Shutdown), s\<lparr>sr_store := st\<rparr>)
             else wait_turns n W guarded pos deadline (s\<lparr>sr_store := st\<rparr>)))"

definition collecting_next ::
    "nat \<Rightarrow> ('d, 'h, 'o) run_env \<Rightarrow> bool \<Rightarrow> nat \<Rightarrow> ('d, 'h, 'o) sink_run \<Rightarrow>
     (window_close + ('d, 'h) store_item) polled \<times> ('d, 'h, 'o) sink_run" where
  "collecting_next n W guarded pos s =
     (case op_collecting (rn_ops W) (sr_output s) of
        None \<Rightarrow> (Came (Inl Close_Full), s)
      | Some deadline \<Rightarrow>
          if wl_now W s \<ge> deadline then (Came (Inl Close_Deadline), s)
          else if ws_staged_bytes (sr_window s) \<ge> wc_window_max_bytes (rn_config W) then (Came (Inl Close_Memory), s)
          else
            (case look_at W guarded pos s of
               (Came (Some item), s) \<Rightarrow> (Came (Inr item), s)
             | (Came None, s) \<Rightarrow>
                 if rn_signal W (sr_clock s) then (Came (Inl Close_Shutdown), s)
                 else wait_turns n W guarded pos deadline s
             | (Was_Cut, s) \<Rightarrow> (Was_Cut, s)
             | (Still_Running, s) \<Rightarrow> (Still_Running, s)))"

text \<open>The next batch of the fill, or what ends it: a close of the window, or no batch.\<close>

definition next_item ::
    "nat \<Rightarrow> ('d, 'h, 'o) run_env \<Rightarrow> bool \<Rightarrow> ('d, 'h) store_item \<Rightarrow> ('d, 'h, 'o) sink_run \<Rightarrow>
     (window_close option + ('d, 'h) store_item) polled \<times> ('d, 'h, 'o) sink_run" where
  "next_item n W guarded head s =
     (let pos = ws_outstanding (sr_window s) in
      if pos = 0 then (Came (Inr head), s)
      else if ws_collecting (sr_window s) then
        (case collecting_next n W guarded pos s of
           (Came (Inl cause), s) \<Rightarrow> (Came (Inl (Some cause)), s)
         | (Came (Inr item), s) \<Rightarrow> (Came (Inr item), s)
         | (Was_Cut, s) \<Rightarrow> (Was_Cut, s)
         | (Still_Running, s) \<Rightarrow> (Still_Running, s))
      else
        (case look_at W guarded pos s of
           (Came (Some item), s) \<Rightarrow> (Came (Inr item), s)
         | (Came None, s) \<Rightarrow> (Came (Inl None), s)
         | (Was_Cut, s) \<Rightarrow> (Was_Cut, s)
         | (Still_Running, s) \<Rightarrow> (Still_Running, s)))"

text \<open>A submitted batch joins the window; the head may open one that collects.\<close>

definition join_window ::
    "('d, 'h, 'o) run_env \<Rightarrow> (symbol, 'd, 'h) event_batch \<Rightarrow> nat \<Rightarrow> ('d, 'h, 'o) sink_run \<Rightarrow> ('d, 'h, 'o) sink_run" where
  "join_window W batch started s =
     (let pos = ws_outstanding (sr_window s);
          s = on_window (\<lambda>w. w\<lparr>ws_outstanding := pos + 1, ws_submitted := ws_submitted w @ [started]\<rparr>) s;
          s = (if pos = 0 \<and> op_collecting (rn_ops W) (sr_output s) \<noteq> None
               then set_limit 1 0 (on_window (\<lambda>w. w\<lparr>ws_collecting := True, ws_staged_bytes := 0\<rparr>) s) else s)
      in if ws_collecting (sr_window s)
         then on_window (\<lambda>w. w\<lparr>ws_staged_bytes := saturating_add (ws_staged_bytes w) (st_weigh (rn_store W) batch)\<rparr>) s
         else s)"

definition observe_once :: "('d, 'h, 'o) run_env \<Rightarrow> ('d, 'h) store_item \<Rightarrow> ('d, 'h, 'o) sink_run \<Rightarrow> ('d, 'h, 'o) sink_run" where
  "observe_once W item s =
     (let pos = ws_outstanding (sr_window s) in
      if pos \<ge> ws_observed (sr_window s)
      then on_window (\<lambda>w. w\<lparr>ws_observed := pos + 1\<rparr>) (observe W item s) else s)"

text \<open>A turn of the fill: \<open>None\<close> to go on, else the head's error or what ended it.\<close>

definition fill_turn ::
    "nat \<Rightarrow> ('d, 'h, 'o) run_env \<Rightarrow> bool \<Rightarrow> ('d, 'h) store_item \<Rightarrow> ('d, 'h, 'o) sink_run \<Rightarrow>
     (send_error + window_close option) option polled \<times> ('d, 'h, 'o) sink_run" where
  "fill_turn n W guarded head s =
     (if ws_outstanding (sr_window s) \<ge> window_limit W s then (Came (Some (Inr (Some Close_Full))), s)
      else
        (case next_item n W guarded head s of
           (Came (Inl why), s) \<Rightarrow> (Came (Some (Inr why)), s)
         | (Came (Inr item), s) \<Rightarrow>
             (let pos = ws_outstanding (sr_window s);
                  s = on_window (\<lambda>w. w\<lparr>ws_submitting := True\<rparr>) (observe_once W item s);
                  started = wl_now W s;
                  (r, s) = call_submit W guarded item s
              in if r = Answer_Cut then (Was_Cut, s)
                 else
                   (let s = on_window (\<lambda>w. w\<lparr>ws_submitting := False\<rparr>) s in
                    case r of
                      Answer_Err e \<Rightarrow>
                        if pos = 0
                        then (Came (Some (Inl e)), on_window (\<lambda>w. w\<lparr>ws_collecting := False, ws_at_fault := 1\<rparr>) s)
                        else (Came (Some (Inr None)), s)
                    | _ \<Rightarrow> (Came None, join_window W (fst item) started s)))
         | (Was_Cut, s) \<Rightarrow> (Was_Cut, s)
         | (Still_Running, s) \<Rightarrow> (Still_Running, s)))"

fun fill ::
    "nat \<Rightarrow> ('d, 'h, 'o) run_env \<Rightarrow> bool \<Rightarrow> ('d, 'h) store_item \<Rightarrow> ('d, 'h, 'o) sink_run \<Rightarrow>
     (send_error + window_close option) polled \<times> ('d, 'h, 'o) sink_run" where
  "fill 0 W guarded head s = (Still_Running, s)"
| "fill (Suc n) W guarded head s =
     (case fill_turn n W guarded head s of
        (Came None, s) \<Rightarrow> fill n W guarded head s
      | (Came (Some r), s) \<Rightarrow> (Came r, s)
      | (Was_Cut, s) \<Rightarrow> (Was_Cut, s)
      | (Still_Running, s) \<Rightarrow> (Still_Running, s))"

text \<open>The head's resubmit after a fault of its own: \<open>None\<close> when the round goes on.\<close>

definition resubmit ::
    "('d, 'h, 'o) run_env \<Rightarrow> bool \<Rightarrow> ('d, 'h) store_item \<Rightarrow> ('d, 'h, 'o) sink_run \<Rightarrow>
     send_error option polled \<times> ('d, 'h, 'o) sink_run" where
  "resubmit W guarded head s =
     (let started = wl_now W s; (r, s) = call_submit W guarded head s in
      case r of
        Answer_Cut \<Rightarrow> (Was_Cut, s)
      | Answer_Err e \<Rightarrow>
          (Came (Some e),
           if is_head_only e then on_window (\<lambda>w. w\<lparr>ws_at_fault := 1\<rparr>) s
           else on_window (\<lambda>w. cut_window (w\<lparr>ws_at_fault := ws_outstanding w\<rparr>)) s)
      | Answer_Ok \<Rightarrow>
          (Came None,
           on_window (\<lambda>w. w\<lparr>ws_submitted := (case ws_submitted w of [] \<Rightarrow> [] | _ # rest \<Rightarrow> started # rest)\<rparr>) s))"

text \<open>A collecting window closes as its fill ends, and is counted if something closed it.\<close>

definition close_window ::
    "('d, 'h, 'o) run_env \<Rightarrow> window_close option \<Rightarrow> ('d, 'h, 'o) sink_run \<Rightarrow> ('d, 'h, 'o) sink_run" where
  "close_window W why s =
     (let s = (if ws_collecting (sr_window s)
               then wl_emit (case why of Some cause \<Rightarrow> [Wl_Count ''logit.component.window.closed'' 1 (close_tag cause)] | None \<Rightarrow> [])
                      (on_window (\<lambda>w. w\<lparr>ws_collecting := False, ws_closed_window := True\<rparr>) s)
               else s)
      in if ws_closed_window (sr_window s) then set_limit 1 1 s
         else set_limit (window_limit W s) (ws_outstanding (sr_window s)) s)"

text \<open>The wait for the head's acknowledgment: \<open>None\<close> when it came.\<close>

definition await_head ::
    "('d, 'h, 'o) run_env \<Rightarrow> bool \<Rightarrow> ('d, 'h, 'o) sink_run \<Rightarrow> send_error option polled \<times> ('d, 'h, 'o) sink_run" where
  "await_head W guarded s =
     (let (r, s) = call_await W guarded s;
          answered = (if op_send_duration_per_batch (rn_ops W) (sr_output s) then op_answered_send_duration (rn_ops W) (sr_output s)
                      else (case ws_submitted (sr_window s) of [] \<Rightarrow> None | t # _ \<Rightarrow> Some (wl_now W s - t)))
      in case r of
           Answer_Cut \<Rightarrow> (Was_Cut, s)
         | Answer_Ok \<Rightarrow> (Came None, on_window (\<lambda>w. w\<lparr>ws_head_answered := answered\<rparr>) s)
         | Answer_Err e \<Rightarrow>
             (Came (Some e),
              if is_head_only e then on_window (\<lambda>w. w\<lparr>ws_head_answered := answered, ws_at_fault := 1\<rparr>) s
              else on_window (\<lambda>w. cut_window (w\<lparr>ws_at_fault := ws_outstanding w\<rparr>)) s))"

definition window_round ::
    "nat \<Rightarrow> ('d, 'h, 'o) run_env \<Rightarrow> bool \<Rightarrow> ('d, 'h) store_item \<Rightarrow> bool \<Rightarrow> ('d, 'h, 'o) sink_run \<Rightarrow>
     send_error option polled \<times> ('d, 'h, 'o) sink_run" where
  "window_round n W guarded head resubmit_head s =
     (case (if resubmit_head \<and> ws_outstanding (sr_window s) > 0 then resubmit W guarded head s else (Came None, s)) of
        (Came None, s) \<Rightarrow>
          (case fill n W guarded head s of
             (Came (Inl e), s) \<Rightarrow> (Came (Some e), s)
           | (Came (Inr why), s) \<Rightarrow> await_head W guarded (close_window W why s)
           | (Was_Cut, s) \<Rightarrow> (Was_Cut, s)
           | (Still_Running, s) \<Rightarrow> (Still_Running, s))
      | (r, s) \<Rightarrow> (r, s))"

text \<open>The timer of a round, dropped when it ends or is cut; none for a sink that times its batches.\<close>

definition time_round :: "('d, 'h, 'o) run_env \<Rightarrow> bool \<Rightarrow> nat \<Rightarrow> ('d, 'h, 'o) sink_run \<Rightarrow> ('d, 'h, 'o) sink_run" where
  "time_round W per_batch started s =
     (if per_batch then s else wl_emit [Wl_Timing ''logit.component.send.duration'' (wl_now W s - started)] s)"

text \<open>The head's answer time is noted once, and reported as the sink says.\<close>

definition note_answered :: "('d, 'h, 'o) run_env \<Rightarrow> bool \<Rightarrow> nat \<Rightarrow> ('d, 'h, 'o) sink_run \<Rightarrow> ('d, 'h, 'o) sink_run" where
  "note_answered W per_batch started s =
     (let s = time_round W per_batch started s in
      case ws_head_answered (sr_window s) of
        None \<Rightarrow> s
      | Some took \<Rightarrow>
          (let s = limit_answered took (on_window (\<lambda>w. w\<lparr>ws_head_answered := None\<rparr>) s)
           in if per_batch then wl_emit [Wl_Timing ''logit.component.send.duration'' took] s else s))"

fun deliver_window ::
    "nat \<Rightarrow> ('d, 'h, 'o) run_env \<Rightarrow> bool \<Rightarrow> delivery_posture \<Rightarrow> ('d, 'h) store_item \<Rightarrow> bool \<Rightarrow> bool \<Rightarrow> nat \<Rightarrow>
     ('d, 'h, 'o) sink_run \<Rightarrow> delivery polled \<times> ('d, 'h, 'o) sink_run" where
  "deliver_window 0 W guarded posture head per_batch resubmit_head attempt s = (Still_Running, s)"
| "deliver_window (Suc n) W guarded posture head per_batch resubmit_head attempt s =
     (if \<not> owed_round W s \<and> grace_over W s then (Came Delivery_Grace_Expired, s)
      else
        (let attempt = min (attempt + 1) U32_MAX; started = wl_now W s in
         case window_round n W guarded head resubmit_head s of
           (Came None, s) \<Rightarrow> (Came Delivery_Delivered, note_answered W per_batch started s)
         | (Came (Some e), s) \<Rightarrow>
             (case after_fault W posture e (note_answered W per_batch started s) of
                (Some d, s) \<Rightarrow> (Came d, s)
              | (None, s) \<Rightarrow>
                  (case back_off W guarded attempt (set_limit (window_limit W s) 0 s) of
                     (True, s) \<Rightarrow> (Was_Cut, s)
                   | (False, s) \<Rightarrow> deliver_window n W guarded posture head per_batch (is_head_only e) attempt s))
         | (Was_Cut, s) \<Rightarrow> (Was_Cut, time_round W per_batch started s)
         | (Still_Running, s) \<Rightarrow> (Still_Running, s)))"

section \<open>The loop\<close>

definition commit_as ::
    "('d, 'h, 'o) run_env \<Rightarrow> settled \<Rightarrow> ('d, 'h, 'o) sink_run \<Rightarrow> ('d, 'h) store_item option \<times> ('d, 'h, 'o) sink_run" where
  "commit_as W why s =
     (let (item, st) = store_commit (rn_store W) (wl_now W s) (sr_store s)
      in (item, wl_emit [Wl_Commit item why] (s\<lparr>sr_store := st\<rparr>)))"

text \<open>So many commits, and what they removed.\<close>

fun commit_many ::
    "nat \<Rightarrow> ('d, 'h, 'o) run_env \<Rightarrow> settled \<Rightarrow> ('d, 'h, 'o) sink_run \<Rightarrow> ('d, 'h) store_item list \<times> ('d, 'h, 'o) sink_run" where
  "commit_many 0 W why s = ([], s)"
| "commit_many (Suc n) W why s =
     (let (item, s) = commit_as W why s; (items, s) = commit_many n W why s
      in ((case item of Some x \<Rightarrow> x # items | None \<Rightarrow> items), s))"

definition count_shutdown_drop :: "nat \<Rightarrow> nat \<Rightarrow> ('d, 'h, 'o) sink_run \<Rightarrow> ('d, 'h, 'o) sink_run" where
  "count_shutdown_drop batches events s =
     (if batches = 0 then s
      else wl_emit [Wl_Count ''logit.component.batches.dropped'' batches ''shutdown'', Wl_Count ''logit.component.events.dropped'' events ''shutdown'']
             (s\<lparr>sr_shutdown_dropped := sr_shutdown_dropped s + batches\<rparr>))"

definition drop_cut_off_at_shutdown ::
    "('d, 'h, 'o) run_env \<Rightarrow> delivery_posture \<Rightarrow> nat \<Rightarrow> ('d, 'h, 'o) sink_run \<Rightarrow> ('d, 'h, 'o) sink_run" where
  "drop_cut_off_at_shutdown W posture n s =
     (if n = 0 \<or> is_retryable Ambiguous posture then s
      else
        (let (items, s) = commit_many n W Settled_Shutdown s;
             s = count_shutdown_drop (length items) (events_of items) s
         in if items \<noteq> [] then wl_emit [Wl_Line ''cut off mid-send at shutdown''] s else s))"

fun drop_reason :: "fault \<Rightarrow> string" where
  "drop_reason Ambiguous = ''ambiguous_at_most_once''"
| "drop_reason _ = ''rejected''"

definition lower_observed :: "window_state \<Rightarrow> window_state" where
  "lower_observed w = w\<lparr>ws_observed := ws_observed w - 1\<rparr>"

text \<open>The head was delivered.\<close>

definition settle_delivered ::
    "('d, 'h, 'o) run_env \<Rightarrow> ('d, 'h) store_item \<Rightarrow> ('d, 'h, 'o) sink_run \<Rightarrow> ('d, 'h, 'o) sink_run" where
  "settle_delivered W item s =
     (let s = on_window (\<lambda>w. lower_observed (settle_head w)) (snd (commit_as W Settled_Delivered s));
          s = wl_emit [Wl_Count ''logit.component.batches.delivered'' 1 [],
                Wl_Count ''logit.component.events.delivered'' (length (b_events (fst item))) []] s;
          s = (if sr_degraded s \<or> is_retrying s then wl_emit [Wl_Line ''recovered''] (s\<lparr>sr_degraded := False\<rparr>) else s)
      in retry_settle s)"

text \<open>
  The head was dropped, and with it, under at-most-once, the other batches a fault of the connection
  left with an unknown outcome.
\<close>

definition settle_dropped ::
    "('d, 'h, 'o) run_env \<Rightarrow> delivery_posture \<Rightarrow> ('d, 'h) store_item \<Rightarrow> bool \<Rightarrow> fault \<Rightarrow> send_error \<Rightarrow> ('d, 'h, 'o) sink_run \<Rightarrow>
     ('d, 'h, 'o) sink_run" where
  "settle_dropped W posture item fast fault e s =
     (let s = on_window settle_head (retry_settle s);
          also_in_flight =
            (if \<not> fast \<and> \<not> is_head_only e \<and> fault = Ambiguous \<and> \<not> is_retryable fault posture
             then ws_at_fault (sr_window s) - 1 else 0);
          s = on_window lower_observed (snd (commit_as W (Settled_Dropped fault) s));
          (others, s) = commit_many also_in_flight W (Settled_Dropped fault) s;
          s = on_window (lower_observed ^^ also_in_flight) s;
          s = wl_emit [Wl_Count ''logit.component.batches.dropped'' (1 + length others) (drop_reason fault),
                Wl_Count ''logit.component.events.dropped'' (length (b_events (fst item)) + events_of others) (drop_reason fault),
                Wl_Line ''send_failed''] s
      in if sr_degraded s then s else wl_emit [Wl_Line ''degraded''] (s\<lparr>sr_degraded := True\<rparr>))"

text \<open>What a cut or an expired grace leaves with an unknown outcome.\<close>

definition cut_off_at ::
    "('d, 'h, 'o) run_env \<Rightarrow> delivery_posture \<Rightarrow> nat \<Rightarrow> ('d, 'h, 'o) sink_run \<Rightarrow> ('d, 'h, 'o) sink_run" where
  "cut_off_at W posture left_over s =
     drop_cut_off_at_shutdown W posture (op_reached_destination (rn_ops W) left_over (sr_output s)) s"

text \<open>Delivering a head, one batch at a time or through the window.\<close>

definition deliver_head ::
    "nat \<Rightarrow> ('d, 'h, 'o) run_env \<Rightarrow> bool \<Rightarrow> delivery_posture \<Rightarrow> ('d, 'h) store_item \<Rightarrow> bool \<Rightarrow> ('d, 'h, 'o) sink_run \<Rightarrow>
     delivery polled \<times> ('d, 'h, 'o) sink_run" where
  "deliver_head n W guarded posture item fast s =
     (if fast then deliver_with_retry n W posture item 0 (observe W item s)
      else deliver_window n W guarded posture item (op_send_duration_per_batch (rn_ops W) (sr_output s)) False 0 s)"

definition takes_send :: "('d, 'h, 'o) run_env \<Rightarrow> ('d, 'h, 'o) sink_run \<Rightarrow> bool" where
  "takes_send W s \<longleftrightarrow>
     ws_outstanding (sr_window s) = 0 \<and> ws_observed (sr_window s) = 0 \<and> op_window (rn_ops W) (sr_output s) \<le> 1"

text \<open>One head: whether the loop goes on.\<close>

definition head_turn ::
    "nat \<Rightarrow> ('d, 'h, 'o) run_env \<Rightarrow> bool \<Rightarrow> delivery_posture \<Rightarrow> ('d, 'h) store_item \<Rightarrow> ('d, 'h, 'o) sink_run \<Rightarrow>
     bool polled \<times> ('d, 'h, 'o) sink_run" where
  "head_turn n W guarded posture item s =
     (let s = s\<lparr>sr_sending := False\<rparr>; fast = takes_send W s in
      case deliver_head n W guarded posture item fast s of
        (Came Delivery_Delivered, s) \<Rightarrow> (Came True, settle_delivered W item s)
      | (Came (Delivery_Dropped fault e), s) \<Rightarrow> (Came True, settle_dropped W posture item fast fault e s)
      | (Came Delivery_Grace_Expired, s) \<Rightarrow> (Came False, cut_off_at W posture (ws_outstanding (sr_window s)) s)
      | (Was_Cut, s) \<Rightarrow>
          (Came False,
           cut_off_at W posture (if fast then (if sr_sending s then 1 else 0) else left_the_process (sr_window s)) s)
      | (Still_Running, s) \<Rightarrow> (Still_Running, s))"

text \<open>One turn of the loop: whether it goes on. A turn in which the store has nothing to hand out goes on.\<close>

definition loop_turn ::
    "nat \<Rightarrow> ('d, 'h, 'o) run_env \<Rightarrow> delivery_posture \<Rightarrow> ('d, 'h, 'o) sink_run \<Rightarrow> bool polled \<times> ('d, 'h, 'o) sink_run" where
  "loop_turn n W posture s =
     (let guarded = (\<not> owed_round W s);
          (cut_off, s) = pend W guarded s
      in if cut_off then (Came False, cut_off_at W posture (ws_outstanding (sr_window s)) s)
         else
           (case store_peek (rn_store W) (sr_store s) of
              (Taken item, st) \<Rightarrow> head_turn n W guarded posture item (s\<lparr>sr_store := st\<rparr>)
            | (Take_Ended, st) \<Rightarrow> (Came False, s\<lparr>sr_store := st\<rparr>)
            | (Take_Parked, st) \<Rightarrow> (Came True, s\<lparr>sr_store := st\<rparr>)))"

fun loop_turns ::
    "nat \<Rightarrow> ('d, 'h, 'o) run_env \<Rightarrow> delivery_posture \<Rightarrow> ('d, 'h, 'o) sink_run \<Rightarrow> unit polled \<times> ('d, 'h, 'o) sink_run" where
  "loop_turns 0 W posture s = (Still_Running, s)"
| "loop_turns (Suc n) W posture s =
     (case loop_turn n W posture s of
        (Came True, s) \<Rightarrow> loop_turns n W posture s
      | (Came False, s) \<Rightarrow> (Came (), s)
      | (_, s) \<Rightarrow> (Still_Running, s))"

definition resolve_posture :: "('d, 'h, 'o) run_env \<Rightarrow> 'o \<Rightarrow> delivery_posture" where
  "resolve_posture W out =
     (case wc_delivery_override (rn_config W) of Some posture \<Rightarrow> posture | None \<Rightarrow> op_default_posture (rn_ops W) out)"

text \<open>\<open>Retrying\<close> settles when the loop returns and drops it.\<close>

definition write_loop ::
    "nat \<Rightarrow> ('d, 'h, 'o) run_env \<Rightarrow> ('d, 'h, 'o) sink_run \<Rightarrow> unit polled \<times> ('d, 'h, 'o) sink_run" where
  "write_loop n W s =
     (let posture = resolve_posture W (sr_output s);
          (r, s) = loop_turns n W posture (s\<lparr>sr_output := op_observe_posture (rn_ops W) posture (sr_output s)\<rparr>)
      in (r, if r = Still_Running then s else retry_settle s))"

section \<open>A sink's task\<close>

definition is_disk :: "('d, 'h) sink_store \<Rightarrow> bool" where
  "is_disk st \<longleftrightarrow> (case st of Store_Disk _ \<Rightarrow> True | Store_Memory _ \<Rightarrow> False)"

definition drop_drain :: "('d, 'h, 'o) run_env \<Rightarrow> ('d, 'h, 'o) sink_run \<Rightarrow> ('d, 'h, 'o) sink_run" where
  "drop_drain W s =
     (case sr_drain s of
        Drain_Pushing p \<Rightarrow> s\<lparr>sr_store := push_dropped (wl_now W s) p (sr_store s), sr_drain := Drain_Over\<rparr>
      | _ \<Rightarrow> s\<lparr>sr_drain := Drain_Over\<rparr>)"

text \<open>A batch that never reached the store: a disk store takes it.\<close>

definition sweep_one ::
    "('d, 'h, 'o) run_env \<Rightarrow> (symbol, 'd, 'h) event_batch \<times> batch_context \<Rightarrow> ('d, 'h, 'o) sink_run \<Rightarrow> ('d, 'h, 'o) sink_run" where
  "sweep_one W item s =
     (if is_disk (sr_store s) then s\<lparr>sr_store := snd (store_push (rn_store W) (wl_now W s) item (sr_store s))\<rparr> else s)"

definition sweep_delivered :: "('d, 'h, 'o) run_env \<Rightarrow> ('d, 'h) delivered \<Rightarrow> ('d, 'h, 'o) sink_run \<Rightarrow> ('d, 'h, 'o) sink_run" where
  "sweep_delivered W d s = (let item = unwrap_batch_arc d in sweep_one W item (wl_emit (count_received (fst item)) s))"

definition count_abandoned :: "((symbol, 'd, 'h) event_batch \<times> batch_context) list \<Rightarrow> ('d, 'h, 'o) sink_run \<Rightarrow> ('d, 'h, 'o) sink_run" where
  "count_abandoned items s =
     (if items = [] then s
      else if is_disk (sr_store s) then wl_emit [Wl_Line ''appended to the disk spool''] s
      else wl_emit [Wl_Line ''never handed to the delivery queue'']
             (count_shutdown_drop (length items) (sum_list (map (\<lambda>(batch, ctx). length (b_events batch)) items)) s))"

definition finish_and_flush :: "('d, 'h, 'o) run_env \<Rightarrow> ('d, 'h, 'o) sink_run \<Rightarrow> ('d, 'h, 'o) sink_run" where
  "finish_and_flush W s =
     (let ((batches, events), st) = store_finish (rn_store W) (wl_now W s) (sr_store s);
          s = s\<lparr>sr_store := st\<rparr>;
          s = (if batches > 0 then wl_emit [Wl_Line ''still queued when this sink stopped''] (count_shutdown_drop batches events s) else s);
          (r, out) = op_flush (rn_ops W) (sr_output s);
          s = wl_emit [Wl_Flush (answer_of r)] (s\<lparr>sr_output := out\<rparr>)
      in case r of
           Inl _ \<Rightarrow> wl_emit [Wl_Count ''logit.component.errors'' 1 ''flush'', Wl_Line ''flush failed''] s
         | Inr _ \<Rightarrow> s)"

text \<open>
  After the write loop: the drain is dropped, the store and the inbox are closed, and what never
  reached the store is swept, with what senders holding a permit still deliver.
\<close>

definition shut_down :: "('d, 'h, 'o) run_env \<Rightarrow> ('d, 'h) delivered list \<Rightarrow> ('d, 'h, 'o) sink_run \<Rightarrow> ('d, 'h, 'o) sink_run" where
  "shut_down W late s =
     (let s = drop_drain W s;
          s = s\<lparr>sr_store := store_close (sr_store s)\<rparr>;
          in_hand = (case sr_in_hand s of Some item \<Rightarrow> [item] | None \<Rightarrow> []);
          swept = sr_inbox s @ late;
          s = fold (sweep_one W) in_hand (s\<lparr>sr_in_hand := None, sr_inbox := [], sr_hung_up := True\<rparr>);
          s = fold (sweep_delivered W) swept s;
          s = count_abandoned (in_hand @ map unwrap_batch_arc swept) s
      in finish_and_flush W s)"

definition sink_start :: "'o \<Rightarrow> ('d, 'h) sink_store \<Rightarrow> ('d, 'h, 'o) sink_run" where
  "sink_start out st =
     \<lparr>sr_output = out, sr_store = st, sr_window = window_default, sr_retrying = \<lparr>rt_failures = 0, rt_since = None, rt_last_line = None\<rparr>,
      sr_deadline = None, sr_degraded = False, sr_sending = False, sr_inbox = [], sr_hung_up = False, sr_in_hand = None,
      sr_drain = Drain_Idle, sr_shutdown_dropped = 0, sr_clock = 0, sr_log = []\<rparr>"

definition run_output ::
    "nat \<Rightarrow> ('d, 'h, 'o) run_env \<Rightarrow> ('d, 'h) store_config \<Rightarrow> ('d, 'h) delivered list \<Rightarrow> 'o \<Rightarrow>
     string + unit polled \<times> ('d, 'h, 'o) sink_run" where
  "run_output n W config late out =
     (case store_open (rn_store W) config of
        Inl e \<Rightarrow> Inl e
      | Inr st \<Rightarrow>
          Inr (case write_loop n W (sink_start out st) of
                 (Came _, s) \<Rightarrow> (Came (), shut_down W late s)
               | (_, s) \<Rightarrow> (Still_Running, s)))"

end
