(* ===== verification/Queue_Run.thy ===== *)
theory Queue_Run
  imports Bounded_Queue "HOL-Library.Multiset"
begin

text \<open>
  What \<open>BoundedQueue\<close> does with the items it is offered, over any operations of its producer and its
  consumer: each is delivered, waits, or is counted as dropped, and their order is kept.
\<close>

section \<open>One operation\<close>

abbreviation queue_contents :: "'a bounded_queue \<Rightarrow> 'a list" where
  "queue_contents q \<equiv> buffer_contents (bq_inner q)"

definition queue_ok :: "'a bounded_queue \<Rightarrow> bool" where
  "queue_ok q \<longleftrightarrow> buffer_ok (bq_inner q) \<and> mb_max_len (bq_inner q) = bq_max_items q \<and>
     mb_max_weight (bq_inner q) = bq_max_weight q"

fun item_drops :: "(string \<Rightarrow> bool) \<Rightarrow> q_effect \<Rightarrow> nat" where
  "item_drops P (Qx_Items_Dropped reason n) = (if P reason then n else 0)"
| "item_drops P _ = 0"

definition drops :: "(string \<Rightarrow> bool) \<Rightarrow> 'a bounded_queue \<Rightarrow> nat" where
  "drops P q = sum_list (map (item_drops P) (bq_log q))"

abbreviation same_limits :: "'a bounded_queue \<Rightarrow> 'a bounded_queue \<Rightarrow> bool" where
  "same_limits q q' \<equiv> bq_closed q' = bq_closed q \<and> bq_block_when_full q' = bq_block_when_full q \<and>
     bq_max_items q' = bq_max_items q \<and> bq_max_weight q' = bq_max_weight q"

text \<open>A step that only writes gauges and lines.\<close>

definition quiet :: "'a bounded_queue \<Rightarrow> 'a bounded_queue \<Rightarrow> bool" where
  "quiet q q' \<longleftrightarrow> bq_inner q' = bq_inner q \<and> same_limits q q' \<and> (\<forall>P. drops P q' = drops P q)"

lemma quiet_refl [simp]: "quiet q q"
  by (simp add: quiet_def)

lemma quiet_trans: "quiet q q' \<Longrightarrow> quiet q' q'' \<Longrightarrow> quiet q q''"
  by (simp add: quiet_def)

lemma quiet_on_watch [simp]: "quiet q (on_watch f q)"
  by (simp add: quiet_def on_watch_def drops_def)

lemma quiet_gauges: "update_gauges F len w q = (u, q') \<Longrightarrow> quiet q q'"
  by (auto simp: update_gauges_def Let_def bq_emit_def quiet_def drops_def)

lemma quiet_waiting [simp]: "quiet q (drop_waiting now waited q)" "quiet q (park now bound waited q)"
  by (simp_all add: drop_waiting_def park_def quiet_def on_watch_def bq_emit_def drops_def)

lemma quiet_consumed [simp]: "quiet q (consumed F now q)"
  by (simp add: consumed_def update_gauges_def Let_def quiet_def on_watch_def bq_emit_def drops_def)

lemma count_shed_all:
  "bq_inner (fold (count_shed Q now) shed q) = bq_inner q \<and> same_limits q (fold (count_shed Q now) shed q) \<and>
   drops P (fold (count_shed Q now) shed q) = drops P q + length (filter (P \<circ> fst) shed)"
proof (induction shed arbitrary: q)
  case (Cons x shed)
  obtain reason item bound where x: "x = (reason, item, bound)" by (cases x)
  have "bq_inner (count_shed Q now x q) = bq_inner q" "same_limits q (count_shed Q now x q)"
    "drops P (count_shed Q now x q) = drops P q + (if P reason then 1 else 0)"
    by (simp_all add: x count_shed_def on_watch_def bq_emit_def drops_def)
  then show ?case using Cons[of "count_shed Q now x q"] x by simp
qed simp

lemmas count_shed_fold = count_shed_all[THEN conjunct1] count_shed_all[THEN conjunct2, THEN conjunct1]
  count_shed_all[THEN conjunct2, THEN conjunct2]

section \<open>What a push adds and sheds\<close>

abbreviation shed_items :: "'a push_outcome \<Rightarrow> 'a list" where
  "shed_items result \<equiv> map snd (outcome_shed result)"

lemma pushed_keeps:
  assumes "pushed item res before result after" and "res \<le> length before"
  shows "mset after + mset (shed_items result) = add_mset item (mset before)" "subseq after (before @ [item])"
proof -
  have "mset after + mset (shed_items result) = add_mset item (mset before) \<and> subseq after (before @ [item])"
  proof (cases result)
    case (Outcome_Evicted evicted)
    then obtain rest where r: "drop res before = evicted @ rest" "after = take res before @ rest @ [item]"
      using assms by (auto simp: pushed_def)
    then have b: "before = take res before @ evicted @ rest" by (metis append_take_drop_id)
    have "subseq (take res before @ rest @ [item]) (take res before @ (evicted @ rest) @ [item])"
      by (intro list_emb_append_mono subseq_order.refl) (simp add: list_emb_append2)
    moreover have "mset before = mset (take res before) + mset evicted + mset rest" by (subst b) simp
    moreover have "before @ [item] = take res before @ (evicted @ rest) @ [item]" by (subst b) simp
    ultimately show ?thesis using Outcome_Evicted r by (simp only: r) (simp add: comp_def)
  qed (use assms in \<open>auto simp: pushed_def\<close>)
  then show "mset after + mset (shed_items result) = add_mset item (mset before)" "subseq after (before @ [item])" by simp_all
qed

lemma buffer_push_limits:
  "buffer_push item w b = (r, b') \<Longrightarrow> buffer_ok b \<Longrightarrow>
     mb_max_len b' = mb_max_len b \<and> mb_max_weight b' = mb_max_weight b \<and> mb_overflow b' = mb_overflow b"
  by (cases rule: buffer_push_cases[of b w item]) (auto simp: append_item_def)

text \<open>A push that did not have to wait under \<open>Block\<close>, open, and that may fit at all, sheds nothing.\<close>

lemma no_overflow_sheds_nothing:
  assumes "buffer_ok b" and "\<not> buffer_would_overflow w b" and "buffer_push item w b = (r, b')"
  shows "outcome_shed r = []"
  using assms by (simp add: buffer_push_def)

lemma queue_push_effect:
  assumes ok: "queue_ok q" and p: "queue_push Q F now item waited q = (r, q')"
  shows "queue_ok q' \<and> same_limits q q' \<and>
    (case r of
       None \<Rightarrow> bq_inner q' = bq_inner q \<and> drops P q' = drops P q
     | Some result \<Rightarrow> \<not> must_wait (qd_weight Q item) (bq_inner q) q \<and>
         buffer_push item (qd_weight Q item) (bq_inner q) = (result, bq_inner q') \<and>
         drops P q' = drops P q + length (filter (P \<circ> fst) (outcome_shed result)))"
proof (cases "must_wait (qd_weight Q item) (bq_inner q) q")
  case True
  then have "r = None" "quiet q q'" using p by (auto simp: queue_push_def Let_def)
  then show ?thesis using ok by (simp add: queue_ok_def quiet_def)
next
  case False
  let ?w = "qd_weight Q item"
  obtain result inner where b: "buffer_push item ?w (bq_inner q) = (result, inner)" by (cases "buffer_push item ?w (bq_inner q)")
  let ?bound = "bound_hit (bq_inner q) (bq_max_items q)"
  let ?q1 = "fold (count_shed Q now) (map (\<lambda>(reason, x). (reason, x, ?bound)) (outcome_shed result)) (q\<lparr>bq_inner := inner\<rparr>)"
  obtain u q2 where u: "update_gauges F (length (mb_items inner)) (mb_weight inner) (drop_waiting now waited ?q1) = (u, q2)"
    by (cases "update_gauges F (length (mb_items inner)) (mb_weight inner) (drop_waiting now waited ?q1)")
  have r: "r = Some result" "quiet q2 q'" using p b False u by (auto simp: queue_push_def Let_def)
  have z: "quiet ?q1 q'" using quiet_trans[OF quiet_trans[OF quiet_waiting(1) quiet_gauges[OF u]] r(2)] .
  have d1: "drops P ?q1 = drops P q + length (filter (P \<circ> fst) (outcome_shed result))"
    by (subst count_shed_fold(3)) (simp add: drops_def filter_map comp_def case_prod_beta)
  have "buffer_ok inner" using mem_buffer.push_law[OF _ b] ok by (simp add: queue_ok_def)
  moreover have "mb_max_len inner = bq_max_items q \<and> mb_max_weight inner = bq_max_weight q"
    using buffer_push_limits[OF b] ok by (simp add: queue_ok_def)
  ultimately show ?thesis using r(1) b False d1 z count_shed_fold(1,2)[of Q now _ "q\<lparr>bq_inner := inner\<rparr>"]
    by (simp add: queue_ok_def quiet_def)
qed

fun shed_item :: "string \<times> 'a \<times> queue_bound \<Rightarrow> 'a" where
  "shed_item (reason, item, bound) = item"

text \<open>The items a call put through, and what it shed of them and of what was there.\<close>

definition went_in :: "'a list \<Rightarrow> 'a list \<Rightarrow> 'a list \<Rightarrow> 'a list \<Rightarrow> bool" where
  "went_in before entered shed after \<longleftrightarrow>
     mset after + mset shed = mset before + mset entered \<and> subseq after (before @ entered)"

lemma went_in_nothing [simp]: "went_in before [] [] before"
  by (simp add: went_in_def)

lemma went_in_trans:
  assumes "went_in a xs shed b" and "went_in b ys shed' c" shows "went_in a (xs @ ys) (shed @ shed') c"
proof -
  have "subseq c (b @ ys)" "subseq b (a @ xs)" using assms by (simp_all add: went_in_def)
  from this(1) list_emb_append_mono[OF this(2) subseq_order.refl[of ys]]
  have "subseq c ((a @ xs) @ ys)" by (rule subseq_order.trans)
  moreover have "mset c + mset (shed @ shed') = mset a + mset (xs @ ys)"
    using assms by (simp add: went_in_def) (metis (no_types, lifting) union_assoc union_commute)
  ultimately show ?thesis by (simp add: went_in_def)
qed

lemma buffer_push_went_in:
  assumes ok: "buffer_ok b" and p: "buffer_push item w b = (r, b')"
  shows "buffer_ok b'" "went_in (buffer_contents b) [item] (shed_items r) (buffer_contents b')"
    "mb_max_len b' = mb_max_len b" "mb_max_weight b' = mb_max_weight b"
proof -
  note l = mem_buffer.push_law[OF ok p]
  show "buffer_ok b'" using l by simp
  show "went_in (buffer_contents b) [item] (shed_items r) (buffer_contents b')"
    using pushed_keeps[of item "mb_reserved b" "buffer_contents b" r "buffer_contents b'"] l ok
    by (simp add: went_in_def buffer_ok_def)
  show "mb_max_len b' = mb_max_len b" "mb_max_weight b' = mb_max_weight b" using buffer_push_limits[OF p ok] by simp_all
qed

lemma admit_run_effect:
  assumes "buffer_ok inner" and "mb_max_len inner = bq_max_items q \<and> mb_max_weight inner = bq_max_weight q"
    and "admit_run Q q items inner = (stop, rest, shed, inner')"
  shows "buffer_ok inner' \<and> mb_max_len inner' = bq_max_items q \<and> mb_max_weight inner' = bq_max_weight q \<and>
    (stop = None \<longleftrightarrow> rest = []) \<and>
    (\<exists>entered. items = entered @ rest \<and>
       went_in (buffer_contents inner) entered (map shed_item shed) (buffer_contents inner'))"
  using assms
proof (induction items arbitrary: inner stop rest shed inner')
  case (Cons item items)
  let ?w = "qd_weight Q item"
  show ?case
  proof (cases "must_wait ?w inner q")
    case True
    then show ?thesis using Cons.prems by auto
  next
    case False
    obtain r inner1 where b: "buffer_push item ?w inner = (r, inner1)" by (cases "buffer_push item ?w inner")
    obtain stop1 rest1 shed1 inner2 where a: "admit_run Q q items inner1 = (stop1, rest1, shed1, inner2)"
      by (cases "admit_run Q q items inner1")
    let ?bound = "bound_hit inner (bq_max_items q)"
    have eq: "stop = stop1" "rest = rest1" "shed = map (\<lambda>(reason, x). (reason, x, ?bound)) (outcome_shed r) @ shed1" "inner' = inner2"
      using Cons.prems(3) False a b by (simp_all add: Let_def)
    note w = buffer_push_went_in[OF Cons.prems(1) b]
    from Cons.IH[OF w(1) _ a] w(3,4) Cons.prems(2)
    obtain entered where e: "items = entered @ rest1"
        "went_in (buffer_contents inner1) entered (map shed_item shed1) (buffer_contents inner2)"
      and oks: "buffer_ok inner2" "mb_max_len inner2 = bq_max_items q" "mb_max_weight inner2 = bq_max_weight q" "(stop1 = None) = (rest1 = [])"
      by auto
    have items: "map shed_item shed = shed_items r @ map shed_item shed1" by (simp add: eq(3) case_prod_beta)
    have "went_in (buffer_contents inner) (item # entered) (map shed_item shed) (buffer_contents inner')"
      unfolding items eq(4) using went_in_trans[OF w(2) e(2)] by simp
    then show ?thesis using e(1) oks eq by auto
  qed
qed (auto simp: went_in_def)

lemma queue_push_many_effect:
  assumes ok: "queue_ok q" and p: "queue_push_many Q F now items waited q = (rest, q')"
  shows "queue_ok q' \<and> same_limits q q' \<and>
    (\<exists>entered shed. items = entered @ rest \<and> went_in (queue_contents q) entered shed (queue_contents q') \<and>
       drops (\<lambda>_. True) q' = drops (\<lambda>_. True) q + length shed)"
proof (cases "items = []")
  case True
  then show ?thesis using ok p by (auto simp: queue_push_many_def went_in_def intro!: exI[of _ "[]"])
next
  case False
  obtain stop rest1 shed inner where a: "admit_run Q q items (bq_inner q) = (stop, rest1, shed, inner)"
    by (cases "admit_run Q q items (bq_inner q)")
  have lim: "buffer_ok (bq_inner q)" "mb_max_len (bq_inner q) = bq_max_items q \<and> mb_max_weight (bq_inner q) = bq_max_weight q"
    using ok by (simp_all add: queue_ok_def)
  from admit_run_effect[OF lim a] obtain entered where e: "items = entered @ rest1"
      "went_in (queue_contents q) entered (map shed_item shed) (buffer_contents inner)"
    and oks: "buffer_ok inner" "mb_max_len inner = bq_max_items q" "mb_max_weight inner = bq_max_weight q" "(stop = None) = (rest1 = [])"
    by auto
  let ?q1 = "fold (count_shed Q now) shed (q\<lparr>bq_inner := inner\<rparr>)"
  have "rest = rest1 \<and> quiet ?q1 q'"
  proof (cases stop)
    case None
    obtain u q2 where u: "update_gauges F (length (mb_items inner)) (mb_weight inner) (drop_waiting now waited ?q1) = (u, q2)"
      by (cases "update_gauges F (length (mb_items inner)) (mb_weight inner) (drop_waiting now waited ?q1)")
    then show ?thesis
      using p a None False oks(4) quiet_trans[OF quiet_waiting(1) quiet_gauges[OF u]] by (auto simp: queue_push_many_def)
  qed (use p a False in \<open>auto simp: queue_push_many_def\<close>)
  then have z: "rest = rest1" "bq_inner q' = inner" "same_limits q q'" "drops (\<lambda>_. True) q' = drops (\<lambda>_. True) q + length shed"
    using count_shed_all[of Q now shed "q\<lparr>bq_inner := inner\<rparr>" "\<lambda>_. True"] by (simp_all add: quiet_def drops_def)
  then show ?thesis using e oks by (auto simp: queue_ok_def intro!: exI[of _ entered] exI[of _ "map shed_item shed"])
qed

section \<open>Consuming\<close>

text \<open>What left at the front.\<close>

definition went_out :: "'a bounded_queue \<Rightarrow> 'a list \<Rightarrow> 'a bounded_queue \<Rightarrow> bool" where
  "went_out q items q' \<longleftrightarrow> queue_ok q' \<and> same_limits q q' \<and> queue_contents q = items @ queue_contents q' \<and>
     (\<forall>P. drops P q' = drops P q)"

lemma buffer_limits:
  "mb_max_len (snd (buffer_commit b)) = mb_max_len b" "mb_max_weight (snd (buffer_commit b)) = mb_max_weight b"
  "mb_max_len (snd (buffer_peek_at n b)) = mb_max_len b" "mb_max_weight (snd (buffer_peek_at n b)) = mb_max_weight b"
  by (simp_all add: buffer_commit_def buffer_peek_at_def Let_def split: list.splits)

lemma went_out_inner:
  assumes ok: "queue_ok q" and i: "buffer_ok inner" "mb_max_len inner = mb_max_len (bq_inner q)"
    "mb_max_weight inner = mb_max_weight (bq_inner q)" "queue_contents q = items @ buffer_contents inner"
    and z: "quiet (q\<lparr>bq_inner := inner\<rparr>) q'"
  shows "went_out q items q'"
  using assms by (simp add: went_out_def queue_ok_def quiet_def drops_def)

lemma buffer_commit_out:
  assumes "buffer_ok b" and "buffer_commit b = (r, b')"
  shows "buffer_ok b'" "buffer_contents b = (case r of Some item \<Rightarrow> [item] | None \<Rightarrow> []) @ buffer_contents b'"
    "mb_max_len b' = mb_max_len b" "mb_max_weight b' = mb_max_weight b" "r = None \<longrightarrow> buffer_contents b = []"
  using mem_buffer.commit_law[OF assms] buffer_limits(1,2)[of b] assms(2) by (auto split: list.splits)

lemma commit_some_out:
  "buffer_ok b \<Longrightarrow> commit_some n b = (items, b') \<Longrightarrow>
     buffer_ok b' \<and> buffer_contents b = items @ buffer_contents b' \<and> mb_max_len b' = mb_max_len b \<and>
     mb_max_weight b' = mb_max_weight b \<and> (length items < n \<longrightarrow> buffer_contents b' = [])"
proof (induction n arbitrary: b items b')
  case (Suc n)
  obtain r b1 where c: "buffer_commit b = (r, b1)" by (cases "buffer_commit b")
  note o = buffer_commit_out[OF Suc.prems(1) c]
  show ?case
  proof (cases r)
    case None
    then show ?thesis using Suc.prems c o by auto
  next
    case (Some item)
    obtain items1 b2 where s: "commit_some n b1 = (items1, b2)" by (cases "commit_some n b1")
    then show ?thesis using Suc.IH[OF o(1) s] Suc.prems c o Some by auto
  qed
qed simp

lemma commit_went_out:
  assumes ok: "queue_ok q" and c: "queue_commit F now q = (r, q')"
  shows "went_out q (case r of Some item \<Rightarrow> [item] | None \<Rightarrow> []) q'"
proof -
  obtain inner where b: "buffer_commit (bq_inner q) = (r, inner)" and q': "q' = consumed F now (q\<lparr>bq_inner := inner\<rparr>)"
    using c by (cases "buffer_commit (bq_inner q)") (simp add: queue_commit_def)
  have "buffer_ok (bq_inner q)" using ok by (simp add: queue_ok_def)
  note o = buffer_commit_out[OF this b]
  show ?thesis by (rule went_out_inner[OF ok o(1,3,4,2)]) (simp add: q')
qed

lemma peek_at_went_out:
  assumes ok: "queue_ok q" and p: "queue_peek_at n q = (r, q')"
  shows "went_out q [] q'" "r = (if n < length (queue_contents q) then Some (queue_contents q ! n) else None)"
proof -
  obtain inner where b: "buffer_peek_at n (bq_inner q) = (r, inner)" and q': "q' = q\<lparr>bq_inner := inner\<rparr>"
    using p by (cases "buffer_peek_at n (bq_inner q)") (simp add: queue_peek_at_def)
  have "buffer_ok (bq_inner q)" using ok by (simp add: queue_ok_def)
  note l = mem_buffer.peek_law[OF this b]
  show "went_out q [] q'"
    using went_out_inner[OF ok, of inner "[]" q'] l buffer_limits(3,4)[of n "bq_inner q"] b q' by simp
  show "r = (if n < length (queue_contents q) then Some (queue_contents q ! n) else None)" using l by auto
qed

lemma peek_went_out:
  assumes "queue_ok q" and "queue_peek q = (r, q')" shows "went_out q [] q'"
  using assms(2) peek_at_went_out(1)[OF assms(1), of 0] by (auto simp: queue_peek_def split: prod.splits option.splits)

lemma wait_at_went_out:
  assumes "queue_ok q" and "queue_wait_at now n deadline q = (r, q')" shows "went_out q [] q'"
  using assms(2) peek_at_went_out(1)[OF assms(1), of n] by (auto simp: queue_wait_at_def split: prod.splits option.splits)

lemma pop_went_out:
  assumes ok: "queue_ok q" and p: "queue_pop F now q = (r, q')"
  shows "went_out q (case r of Taken item \<Rightarrow> [item] | _ \<Rightarrow> []) q'"
proof -
  have ob: "buffer_ok (bq_inner q)" using ok by (simp add: queue_ok_def)
  obtain s inner where b: "buffer_peek_at 0 (bq_inner q) = (s, inner)" by (cases "buffer_peek_at 0 (bq_inner q)")
  note l = mem_buffer.peek_law[OF ob b]
  have lim: "mb_max_len inner = mb_max_len (bq_inner q)" "mb_max_weight inner = mb_max_weight (bq_inner q)"
    using buffer_limits(3,4)[of 0 "bq_inner q"] b by simp_all
  show ?thesis
  proof (cases s)
    case None
    then have "q' = q\<lparr>bq_inner := inner\<rparr>" "(case r of Taken item \<Rightarrow> [item] | _ \<Rightarrow> []) = []"
      using p b by (auto simp: queue_pop_def buffer_peek_def)
    then show ?thesis using went_out_inner[OF ok, of inner "[]" q'] l lim by simp
  next
    case (Some x)
    obtain t inner2 where c: "buffer_commit inner = (t, inner2)" by (cases "buffer_commit inner")
    note o = buffer_commit_out[OF conjunct1[OF l] c]
    have "q' = (case t of Some _ \<Rightarrow> consumed F now (q\<lparr>bq_inner := inner2\<rparr>) | None \<Rightarrow> q\<lparr>bq_inner := inner2\<rparr>)"
        "(case r of Taken item \<Rightarrow> [item] | _ \<Rightarrow> []) = (case t of Some item \<Rightarrow> [item] | None \<Rightarrow> [])"
      using p b c Some by (auto simp: queue_pop_def buffer_peek_def split: option.splits)
    moreover have "queue_contents q = (case t of Some item \<Rightarrow> [item] | None \<Rightarrow> []) @ buffer_contents inner2" using o(2) l by simp
    ultimately show ?thesis using went_out_inner[OF ok o(1), of _ q'] o(3,4) lim by (auto split: option.splits)
  qed
qed

lemma pop_many_went_out:
  assumes ok: "queue_ok q" and p: "queue_pop_many F now most q = (r, q')"
  shows "went_out q (case r of Some items \<Rightarrow> items | None \<Rightarrow> []) q'"
proof -
  obtain items inner where c: "commit_some (max most 1) (bq_inner q) = (items, inner)" by (cases "commit_some (max most 1) (bq_inner q)")
  have "buffer_ok (bq_inner q)" using ok by (simp add: queue_ok_def)
  note o = commit_some_out[OF this c]
  have "quiet (q\<lparr>bq_inner := inner\<rparr>) q'" "(case r of Some items \<Rightarrow> items | None \<Rightarrow> []) = items"
    using p c by (auto simp: queue_pop_many_def Let_def split: if_splits)
  then show ?thesis using went_out_inner[OF ok, of inner items q'] o by simp
qed

lemma take_all_went_out:
  assumes ok: "queue_ok q" and p: "take_all F now q = (items, q')"
  shows "went_out q items q'" "queue_contents q' = []"
proof -
  let ?n = "Suc (length (mb_items (bq_inner q)))"
  obtain its inner where c: "commit_some ?n (bq_inner q) = (its, inner)" by (cases "commit_some ?n (bq_inner q)")
  have "buffer_ok (bq_inner q)" using ok by (simp add: queue_ok_def)
  note o = commit_some_out[OF this c]
  have z: "quiet (q\<lparr>bq_inner := inner\<rparr>) q'" "items = its" using p c by (auto simp: take_all_def Let_def)
  show "went_out q items q'" using went_out_inner[OF ok, of inner items q'] o z by simp
  have "length its \<le> length (mb_items (bq_inner q))" using o by (metis length_append length_map le_add1)
  then show "queue_contents q' = []" using o z by (simp add: quiet_def)
qed

section \<open>Runs\<close>

text \<open>
  \<open>queue_run Q F config q call offered got lost\<close>: a queue may come to state \<open>q\<close> with a push or
  \<open>push_many\<close> waiting on the items of \<open>call\<close>, after items were offered, in that order, and others
  handed out; \<open>lost\<close> are the items of single pushes whose future was dropped while they waited.
\<close>

type_synonym 'a parked_call = "('a list \<times> bool) option"

definition held :: "'a parked_call \<Rightarrow> 'a list" where
  "held call = (case call of Some (items, _) \<Rightarrow> items | None \<Rightarrow> [])"

definition parked :: "'a list \<Rightarrow> bool \<Rightarrow> 'a parked_call" where
  "parked items many = (if items = [] then None else Some (items, many))"

inductive queue_run ::
    "'a queued \<Rightarrow> float_ops \<Rightarrow> queue_config \<Rightarrow> 'a bounded_queue \<Rightarrow> 'a parked_call \<Rightarrow> 'a list \<Rightarrow> 'a list \<Rightarrow> 'a list \<Rightarrow> bool"
  for Q F config where
  started: "queue_run Q F config (with_metrics config) None [] [] []"
| push_one: "queue_run Q F config q None offered got lost \<Longrightarrow> queue_push Q F now item False q = (r, q') \<Longrightarrow>
    queue_run Q F config q' (parked (if r = None then [item] else []) False) (offered @ [item]) got lost"
| push_again: "queue_run Q F config q (Some ([item], False)) offered got lost \<Longrightarrow> queue_push Q F now item True q = (r, q') \<Longrightarrow>
    queue_run Q F config q' (parked (if r = None then [item] else []) False) offered got lost"
| push_gone: "queue_run Q F config q (Some ([item], False)) offered got lost \<Longrightarrow>
    queue_run Q F config (queue_push_dropped now q) None offered got (lost @ [item])"
| push_several: "queue_run Q F config q None offered got lost \<Longrightarrow> queue_push_many Q F now items False q = (rest, q') \<Longrightarrow>
    queue_run Q F config q' (parked rest True) (offered @ items) got lost"
| several_again: "queue_run Q F config q (Some (items, True)) offered got lost \<Longrightarrow> queue_push_many Q F now items True q = (rest, q') \<Longrightarrow>
    queue_run Q F config q' (parked rest True) offered got lost"
| several_gone: "queue_run Q F config q (Some (items, True)) offered got lost \<Longrightarrow>
    queue_run Q F config (queue_push_many_dropped Q now items q) None offered got lost"
| ticked: "queue_run Q F config q (Some call) offered got lost \<Longrightarrow>
    queue_run Q F config (on_watch (watch_tick now) q) (Some call) offered got lost"
| looked_at: "queue_run Q F config q call offered got lost \<Longrightarrow> queue_peek_at n q = (r, q') \<Longrightarrow>
    queue_run Q F config q' call offered got lost"
| looked: "queue_run Q F config q call offered got lost \<Longrightarrow> queue_peek q = (t, q') \<Longrightarrow>
    queue_run Q F config q' call offered got lost"
| waited_at: "queue_run Q F config q call offered got lost \<Longrightarrow> queue_wait_at now n deadline q = (s, q') \<Longrightarrow>
    queue_run Q F config q' call offered got lost"
| committed_one: "queue_run Q F config q call offered got lost \<Longrightarrow> queue_commit F now q = (r, q') \<Longrightarrow>
    queue_run Q F config q' call offered (got @ (case r of Some item \<Rightarrow> [item] | None \<Rightarrow> [])) lost"
| popped: "queue_run Q F config q call offered got lost \<Longrightarrow> queue_pop F now q = (t, q') \<Longrightarrow>
    queue_run Q F config q' call offered (got @ (case t of Taken item \<Rightarrow> [item] | _ \<Rightarrow> [])) lost"
| popped_many: "queue_run Q F config q call offered got lost \<Longrightarrow> queue_pop_many F now most q = (rs, q') \<Longrightarrow>
    queue_run Q F config q' call offered (got @ (case rs of Some items \<Rightarrow> items | None \<Rightarrow> [])) lost"
| took_all: "queue_run Q F config q call offered got lost \<Longrightarrow> take_all F now q = (items, q') \<Longrightarrow>
    queue_run Q F config q' call offered (got @ items) lost"
| shut: "queue_run Q F config q call offered got lost \<Longrightarrow> queue_run Q F config (queue_close q) call offered got lost"
| episode_over: "queue_run Q F config q call offered got lost \<Longrightarrow>
    queue_run Q F config (finish_full_episode now q) call offered got lost"

definition stands :: "'a bounded_queue \<Rightarrow> 'a list \<Rightarrow> 'a list \<Rightarrow> 'a list \<Rightarrow> 'a list \<Rightarrow> bool" where
  "stands q waits offered got lost \<longleftrightarrow> queue_ok q \<and> subseq (got @ queue_contents q @ waits) offered \<and>
     (\<exists>dropped. mset offered = mset got + mset (queue_contents q) + mset waits + mset lost + mset dropped \<and>
        drops (\<lambda>_. True) q = length dropped)"

lemma held_parked [simp]: "held (parked items many) = items" "held None = []" "held (Some (items, many)) = items"
  by (simp_all add: held_def parked_def)

lemma stands_offered:
  assumes "stands q [] offered got lost" shows "stands q items (offered @ items) got lost"
proof -
  from assms obtain dropped where "mset offered = mset got + mset (queue_contents q) + mset [] + mset lost + mset dropped"
      "drops (\<lambda>_. True) q = length dropped" "subseq (got @ queue_contents q @ []) offered" "queue_ok q" unfolding stands_def by blast
  moreover from list_emb_append_mono[OF this(3) subseq_order.refl[of items]] have "subseq (got @ queue_contents q @ items) (offered @ items)" by simp
  ultimately show ?thesis unfolding stands_def by (auto simp: ac_simps simp del: mset_map)
qed

lemma stands_turn:
  assumes s: "stands q (entered @ rest) offered got lost" and w: "went_in (queue_contents q) entered shed (queue_contents q')"
    and q': "queue_ok q'" "drops (\<lambda>_. True) q' = drops (\<lambda>_. True) q + length shed"
  shows "stands q' rest offered got lost"
proof -
  from s obtain dropped where d: "mset offered = mset got + mset (queue_contents q) + mset (entered @ rest) + mset lost + mset dropped"
      "drops (\<lambda>_. True) q = length dropped" and sub: "subseq (got @ queue_contents q @ entered @ rest) offered"
    by (auto simp: stands_def)
  have "subseq (got @ queue_contents q' @ rest) (got @ (queue_contents q @ entered) @ rest)"
    using w by (intro list_emb_append_mono subseq_order.refl) (simp add: went_in_def)
  then have "subseq (got @ queue_contents q' @ rest) offered" using sub subseq_order.trans by fastforce
  moreover have "mset offered = mset got + mset (queue_contents q') + mset rest + mset lost + mset (dropped @ shed)"
  proof -
    have "mset (queue_contents q) + mset entered = mset (queue_contents q') + mset shed" using w by (simp add: went_in_def)
    then show ?thesis unfolding d(1) by (simp add: ac_simps)
  qed
  ultimately show ?thesis using q' d(2) unfolding stands_def by (metis length_append)
qed

lemma stands_out:
  assumes s: "stands q waits offered got lost" and w: "went_out q items q'"
  shows "stands q' waits offered (got @ items) lost"
proof -
  have c: "queue_contents q = items @ queue_contents q'" "drops (\<lambda>_. True) q' = drops (\<lambda>_. True) q" "queue_ok q'"
    using w unfolding went_out_def by blast+
  from s obtain dropped where "mset offered = mset got + mset (queue_contents q) + mset waits + mset lost + mset dropped"
      "drops (\<lambda>_. True) q = length dropped" "subseq (got @ queue_contents q @ waits) offered" unfolding stands_def by blast
  then show ?thesis unfolding stands_def using c by (auto simp: ac_simps simp del: mset_map)
qed

lemma stands_quiet:
  assumes "stands q waits offered got lost" and "quiet q q'" shows "stands q' waits offered got lost"
  using assms by (simp add: stands_def quiet_def queue_ok_def)

lemma drain_dropped_effect:
  "bq_inner (drain_dropped Q push_cut reason items q) = bq_inner q" "same_limits q (drain_dropped Q push_cut reason items q)"
  "drops P (drain_dropped Q push_cut reason items q) = drops P q + (if P reason then length items else 0)"
  by (auto simp: drain_dropped_def bq_emit_def drops_def queue_ok_def Let_def)

text \<open>A turn of a push, of several, and a call that is gone.\<close>

lemma push_turn:
  assumes s: "stands q [item] offered got lost" and p: "queue_push Q F now item waited q = (r, q')"
  shows "stands q' (if r = None then [item] else []) offered got lost"
proof -
  have ok: "queue_ok q" using s by (simp add: stands_def)
  note e = queue_push_effect[OF ok p, of "\<lambda>_. True"]
  show ?thesis
  proof (cases r)
    case None
    then show ?thesis using s e by (simp add: stands_def)
  next
    case (Some result)
    then have b: "buffer_push item (qd_weight Q item) (bq_inner q) = (result, bq_inner q')"
      "drops (\<lambda>_. True) q' = drops (\<lambda>_. True) q + length (shed_items result)" "queue_ok q'"
      using e by (simp_all add: comp_def)
    have "went_in (queue_contents q) [item] (shed_items result) (queue_contents q')"
      using buffer_push_went_in(2)[OF _ b(1)] ok by (simp add: queue_ok_def)
    from stands_turn[OF _ this b(3,2), of "[]" offered got lost] s Some show ?thesis by simp
  qed
qed

lemma many_turn:
  assumes s: "stands q items offered got lost" and p: "queue_push_many Q F now items waited q = (rest, q')"
  shows "stands q' rest offered got lost"
proof -
  have ok: "queue_ok q" using s by (simp add: stands_def)
  from queue_push_many_effect[OF ok p] obtain entered shed where e: "items = entered @ rest"
      "went_in (queue_contents q) entered shed (queue_contents q')" "drops (\<lambda>_. True) q' = drops (\<lambda>_. True) q + length shed" "queue_ok q'"
    by blast
  from stands_turn[OF s[unfolded e(1)] e(2,4,3)] show ?thesis .
qed

lemma stands_gone:
  assumes s: "stands q items offered got lost" and q': "queue_ok q'" "bq_inner q' = bq_inner q"
    and d: "drops (\<lambda>_. True) q' + length items' = drops (\<lambda>_. True) q + length items" and l: "lost' = lost @ items'"
    and sub: "items' = [] \<or> items' = items"
  shows "stands q' [] offered got lost'"
proof -
  from s obtain dropped where m: "mset offered = mset got + mset (queue_contents q) + mset items + mset lost + mset dropped"
      "drops (\<lambda>_. True) q = length dropped" "subseq (got @ queue_contents q @ items) offered" unfolding stands_def by blast
  have "subseq (got @ queue_contents q) (got @ queue_contents q @ items)" by (simp add: list_emb_prefix flip: append_assoc)
  then have "subseq (got @ queue_contents q') offered" using m(3) q'(2) subseq_order.trans by metis
  moreover have "\<exists>dropped. mset offered = mset got + mset (queue_contents q') + mset [] + mset lost' + mset dropped \<and>
      drops (\<lambda>_. True) q' = length dropped"
  proof (cases "items' = []")
    case True
    then have "mset offered = mset got + mset (queue_contents q') + mset [] + mset lost' + mset (dropped @ items)"
      "drops (\<lambda>_. True) q' = length (dropped @ items)" using m d l q'(2) by (simp_all add: ac_simps)
    then show ?thesis by blast
  next
    case False
    then have "mset offered = mset got + mset (queue_contents q') + mset [] + mset lost' + mset dropped"
      "drops (\<lambda>_. True) q' = length dropped" using m d l sub q'(2) by (simp_all add: ac_simps)
    then show ?thesis by blast
  qed
  ultimately show ?thesis using q'(1) by (simp add: stands_def)
qed

lemma queue_run_stands: "queue_run Q F config q call offered got lost \<Longrightarrow> stands q (held call) offered got lost"
proof (induction rule: queue_run.induct)
  case started
  then show ?case by (simp add: stands_def queue_ok_def with_metrics_def buffer_new_def buffer_ok_def drops_def)
next
  case (push_one q offered got lost now item r q')
  from push_one.IH have s: "stands q [item] (offered @ [item]) got lost" using stands_offered[of q offered got lost "[item]"] by simp
  from push_turn[OF s push_one.hyps(2)] show ?case by simp
next
  case (push_again q item offered got lost now r q')
  from push_turn[OF _ push_again.hyps(2)] push_again.IH show ?case by simp
next
  case (push_gone q item offered got lost now)
  have "quiet q (queue_push_dropped now q)" by (simp add: queue_push_dropped_def)
  then have "queue_ok (queue_push_dropped now q)" "bq_inner (queue_push_dropped now q) = bq_inner q"
    "drops (\<lambda>_. True) (queue_push_dropped now q) = drops (\<lambda>_. True) q"
    using push_gone.IH by (simp_all add: quiet_def stands_def queue_ok_def)
  from stands_gone[OF _ this(1,2), of "[item]" offered got lost "[item]"] push_gone.IH this(3) show ?case by simp
next
  case (push_several q offered got lost now items rest q')
  from push_several.IH have "stands q items (offered @ items) got lost" using stands_offered[of q offered got lost items] by simp
  from many_turn[OF this push_several.hyps(2)] show ?case by simp
next
  case (several_again q items offered got lost now rest q')
  from many_turn[OF _ several_again.hyps(2)] several_again.IH show ?case by simp
next
  case (several_gone q items offered got lost now)
  let ?q1 = "drain_dropped Q True ''shutdown'' items q" and ?q = "queue_push_many_dropped Q now items q"
  have "quiet ?q1 ?q" by (simp add: queue_push_many_dropped_def)
  then have "queue_ok ?q" "bq_inner ?q = bq_inner q" "drops (\<lambda>_. True) ?q = drops (\<lambda>_. True) q + length items"
    using several_gone.IH by (simp_all add: quiet_def stands_def queue_ok_def drain_dropped_effect)
  from stands_gone[OF _ this(1,2), of items offered got lost "[]"] several_gone.IH this(3) show ?case by simp
next
  case (ticked q call offered got lost now)
  from stands_quiet[OF ticked.IH] show ?case by simp
next
  case (looked_at q call offered got lost n r q')
  then have "queue_ok q" by (simp add: stands_def)
  from stands_out[OF looked_at.IH peek_at_went_out(1)[OF this looked_at.hyps(2)]] show ?case by simp
next
  case (looked q call offered got lost t q')
  then have "queue_ok q" by (simp add: stands_def)
  from stands_out[OF looked.IH peek_went_out[OF this looked.hyps(2)]] show ?case by simp
next
  case (waited_at q call offered got lost now n deadline s q')
  then have "queue_ok q" by (simp add: stands_def)
  from stands_out[OF waited_at.IH wait_at_went_out[OF this waited_at.hyps(2)]] show ?case by simp
next
  case (committed_one q call offered got lost now r q')
  then have "queue_ok q" by (simp add: stands_def)
  from stands_out[OF committed_one.IH commit_went_out[OF this committed_one.hyps(2)]] show ?case .
next
  case (popped q call offered got lost now t q')
  then have "queue_ok q" by (simp add: stands_def)
  from stands_out[OF popped.IH pop_went_out[OF this popped.hyps(2)]] show ?case .
next
  case (popped_many q call offered got lost now most rs q')
  then have "queue_ok q" by (simp add: stands_def)
  from stands_out[OF popped_many.IH pop_many_went_out[OF this popped_many.hyps(2)]] show ?case .
next
  case (took_all q call offered got lost now items q')
  then have "queue_ok q" by (simp add: stands_def)
  from stands_out[OF took_all.IH take_all_went_out(1)[OF this took_all.hyps(2)]] show ?case .
next
  case (shut q call offered got lost)
  then show ?case by (simp add: stands_def queue_ok_def queue_close_def drops_def)
next
  case (episode_over q call offered got lost now)
  from stands_quiet[OF episode_over.IH] show ?case by (simp add: finish_full_episode_def)
qed

section \<open>Blocking sheds nothing\<close>

definition fits_queue :: "'a queued \<Rightarrow> queue_config \<Rightarrow> 'a \<Rightarrow> bool" where
  "fits_queue Q config item \<longleftrightarrow> qd_weight Q item \<le> qc_max_weight config \<and> qc_max_items config > 0"

definition overflow_reason :: "string \<Rightarrow> bool" where
  "overflow_reason reason \<longleftrightarrow> reason \<in> {''overflow_oldest'', ''overflow_newest''}"

text \<open>The limits of a queue are those of its configuration.\<close>

definition configured :: "queue_config \<Rightarrow> 'a bounded_queue \<Rightarrow> bool" where
  "configured config q \<longleftrightarrow> queue_ok q \<and> bq_block_when_full q = (qc_overflow config = Block) \<and>
     bq_max_items q = qc_max_items config \<and> bq_max_weight q = qc_max_weight config"

lemma blocking_push_fits:
  assumes c: "configured config q" "qc_overflow config = Block" "\<not> bq_closed q" "fits_queue Q config item"
    and i: "buffer_ok inner" "mb_max_len inner = bq_max_items q \<and> mb_max_weight inner = bq_max_weight q"
    and m: "\<not> must_wait (qd_weight Q item) inner q" and p: "buffer_push item (qd_weight Q item) inner = (r, inner')"
  shows "outcome_shed r = []"
proof (rule no_overflow_sheds_nothing[OF i(1) _ p])
  show "\<not> buffer_would_overflow (qd_weight Q item) inner"
    using c i(2) m by (auto simp: configured_def must_wait_def never_fits_def fits_queue_def buffer_would_overflow_def queue_would_overflow_def)
qed

lemma blocking_run_fits:
  assumes c: "configured config q" "qc_overflow config = Block" "\<not> bq_closed q" "\<forall>item \<in> set items. fits_queue Q config item"
    and i: "buffer_ok inner" "mb_max_len inner = bq_max_items q \<and> mb_max_weight inner = bq_max_weight q"
    and a: "admit_run Q q items inner = (stop, rest, shed, inner')"
  shows "shed = []"
  using c(4) i a
proof (induction items arbitrary: inner stop rest shed inner')
  case (Cons item items)
  let ?w = "qd_weight Q item"
  obtain r inner1 where b: "buffer_push item ?w inner = (r, inner1)" by (cases "buffer_push item ?w inner")
  obtain stop1 rest1 shed1 inner2 where a: "admit_run Q q items inner1 = (stop1, rest1, shed1, inner2)"
    by (cases "admit_run Q q items inner1")
  note w = buffer_push_went_in[OF Cons.prems(2) b]
  have "shed1 = []" using Cons.IH[OF _ w(1) _ a] Cons.prems(1,3) w(3,4) by simp
  then show ?case
    using Cons.prems(4) a b blocking_push_fits[OF c(1-3) _ Cons.prems(2,3) _ b] Cons.prems(1)
    by (auto simp: Let_def split: if_splits)
qed simp

lemma queue_push_many_blocking:
  assumes c: "configured config q" "qc_overflow config = Block" "\<not> bq_closed q" "\<forall>item \<in> set items. fits_queue Q config item"
    and p: "queue_push_many Q F now items waited q = (rest, q')"
  shows "drops P q' = drops P q"
proof (cases "items = []")
  case False
  obtain stop rest1 shed inner where a: "admit_run Q q items (bq_inner q) = (stop, rest1, shed, inner)"
    by (cases "admit_run Q q items (bq_inner q)")
  have "shed = []" by (rule blocking_run_fits[OF c _ _ a]) (use c(1) in \<open>simp_all add: configured_def queue_ok_def\<close>)
  then have "quiet (q\<lparr>bq_inner := inner\<rparr>) q'"
    using p a False quiet_trans[OF quiet_waiting(1) quiet_gauges[OF prod.collapse[symmetric]]]
    by (auto simp: queue_push_many_def Let_def split: option.splits)
  then show ?thesis by (simp add: quiet_def drops_def)
qed (use p in \<open>simp add: queue_push_many_def\<close>)

text \<open>What every operation keeps, for the queue of a run.\<close>

definition sheds_nothing :: "'a queued \<Rightarrow> queue_config \<Rightarrow> 'a bounded_queue \<Rightarrow> 'a list \<Rightarrow> bool" where
  "sheds_nothing Q config q offered \<longleftrightarrow> configured config q \<and>
     (qc_overflow config = Block \<and> \<not> bq_closed q \<and> (\<forall>item \<in> set offered. fits_queue Q config item) \<longrightarrow> drops overflow_reason q = 0)"

lemma sheds_nothing_step:
  assumes "sheds_nothing Q config q offered" and "queue_ok q'" "same_limits q q'" "drops overflow_reason q' = drops overflow_reason q"
  shows "sheds_nothing Q config q' offered"
  using assms by (simp add: sheds_nothing_def configured_def)

lemma sheds_nothing_out: "sheds_nothing Q config q offered \<Longrightarrow> went_out q items q' \<Longrightarrow> sheds_nothing Q config q' offered"
  by (rule sheds_nothing_step) (simp_all add: went_out_def)

lemma sheds_nothing_quiet: "sheds_nothing Q config q offered \<Longrightarrow> quiet q q' \<Longrightarrow> sheds_nothing Q config q' offered"
  by (rule sheds_nothing_step) (simp_all add: quiet_def sheds_nothing_def configured_def queue_ok_def)

lemma sheds_nothing_push:
  assumes s: "sheds_nothing Q config q offered" and p: "queue_push Q F now item waited q = (r, q')" and i: "item \<in> set offered'"
    and o: "set offered \<subseteq> set offered'"
  shows "sheds_nothing Q config q' offered'"
proof -
  have c: "configured config q" using s by (simp add: sheds_nothing_def)
  then have ok: "queue_ok q" by (simp add: configured_def)
  note e = queue_push_effect[OF ok p, of overflow_reason]
  have "drops overflow_reason q' = 0"
    if b: "qc_overflow config = Block" "\<not> bq_closed q'" "\<forall>item \<in> set offered'. fits_queue Q config item"
  proof -
    have z: "drops overflow_reason q = 0" "\<not> bq_closed q" "fits_queue Q config item" using s b i o e by (auto simp: sheds_nothing_def)
    show ?thesis
    proof (cases r)
      case (Some result)
      then have f: "\<not> must_wait (qd_weight Q item) (bq_inner q) q" "buffer_push item (qd_weight Q item) (bq_inner q) = (result, bq_inner q')"
        using e by simp_all
      have "outcome_shed result = []"
        by (rule blocking_push_fits[OF c b(1) z(2,3) _ _ f]) (use ok in \<open>simp_all add: queue_ok_def\<close>)
      then show ?thesis using Some e z(1) by simp
    qed (use e z(1) in simp)
  qed
  then show ?thesis using c e by (simp add: sheds_nothing_def configured_def)
qed

lemma sheds_nothing_many:
  assumes s: "sheds_nothing Q config q offered" and p: "queue_push_many Q F now items waited q = (rest, q')"
    and o: "set items \<subseteq> set offered'" "set offered \<subseteq> set offered'"
  shows "sheds_nothing Q config q' offered'"
proof -
  have c: "configured config q" using s by (simp add: sheds_nothing_def)
  then have ok: "queue_ok q" by (simp add: configured_def)
  note e = queue_push_many_effect[OF ok p]
  have "drops overflow_reason q' = 0"
    if b: "qc_overflow config = Block" "\<not> bq_closed q'" "\<forall>item \<in> set offered'. fits_queue Q config item"
  proof -
    have f: "\<not> bq_closed q" "\<forall>item \<in> set items. fits_queue Q config item" "\<forall>item \<in> set offered. fits_queue Q config item"
      using e b o by auto
    have "drops overflow_reason q = 0" using s b(1) f(1,3) by (simp add: sheds_nothing_def)
    then show ?thesis using queue_push_many_blocking[OF c b(1) f(1,2) p, of overflow_reason] by simp
  qed
  then show ?thesis using c e by (simp add: sheds_nothing_def configured_def)
qed

lemma queue_run_configured: "queue_run Q F config q call offered got lost \<Longrightarrow> sheds_nothing Q config q offered \<and> set (held call) \<subseteq> set offered"
proof (induction rule: queue_run.induct)
  case started
  then show ?case by (auto simp: sheds_nothing_def configured_def queue_ok_def with_metrics_def buffer_new_def buffer_ok_def drops_def)
next
  case (push_one q offered got lost now item r q')
  then show ?case using sheds_nothing_push[of Q config q offered F now item False r q' "offered @ [item]"] by auto
next
  case (push_again q item offered got lost now r q')
  then show ?case using sheds_nothing_push[of Q config q offered F now item True r q' offered] by auto
next
  case (push_gone q item offered got lost now)
  then show ?case using sheds_nothing_quiet[of Q config q offered "queue_push_dropped now q"] by (simp add: queue_push_dropped_def)
next
  case (push_several q offered got lost now items rest q')
  moreover have "set rest \<subseteq> set items"
    using queue_push_many_effect[OF _ push_several.hyps(2)] push_several.IH by (auto simp: sheds_nothing_def configured_def)
  ultimately show ?case using sheds_nothing_many[of Q config q offered F now items False rest q' "offered @ items"] by auto
next
  case (several_again q items offered got lost now rest q')
  moreover have "set rest \<subseteq> set items"
    using queue_push_many_effect[OF _ several_again.hyps(2)] several_again.IH by (auto simp: sheds_nothing_def configured_def)
  ultimately show ?case using sheds_nothing_many[of Q config q offered F now items True rest q' offered] by auto
next
  case (several_gone q items offered got lost now)
  let ?q1 = "drain_dropped Q True ''shutdown'' items q"
  have sn: "sheds_nothing Q config q offered" using several_gone.IH by simp
  then have "queue_ok q" by (simp add: sheds_nothing_def configured_def)
  then have "queue_ok ?q1" by (simp add: queue_ok_def drain_dropped_effect)
  moreover have "\<not> overflow_reason ''shutdown''" by (simp add: overflow_reason_def)
  then have "drops overflow_reason ?q1 = drops overflow_reason q" by (simp add: drain_dropped_effect(3))
  ultimately have "sheds_nothing Q config ?q1 offered" using sheds_nothing_step[OF sn _ drain_dropped_effect(2)] by blast
  then show ?case using sheds_nothing_quiet[of Q config ?q1 offered "queue_push_many_dropped Q now items q"] by (simp add: queue_push_many_dropped_def)
next
  case (ticked q call offered got lost now)
  then show ?case using sheds_nothing_quiet[of Q config q offered "on_watch (watch_tick now) q"] by simp
next
  case (looked_at q call offered got lost n r q')
  then have "queue_ok q" by (simp add: sheds_nothing_def configured_def)
  then show ?case using looked_at sheds_nothing_out peek_at_went_out(1) by blast
next
  case (looked q call offered got lost t q')
  then have "queue_ok q" by (simp add: sheds_nothing_def configured_def)
  then show ?case using looked sheds_nothing_out peek_went_out by blast
next
  case (waited_at q call offered got lost now n deadline s q')
  then have "queue_ok q" by (simp add: sheds_nothing_def configured_def)
  then show ?case using waited_at sheds_nothing_out wait_at_went_out by blast
next
  case (committed_one q call offered got lost now r q')
  then have "queue_ok q" by (simp add: sheds_nothing_def configured_def)
  then show ?case using committed_one sheds_nothing_out commit_went_out by blast
next
  case (popped q call offered got lost now t q')
  then have "queue_ok q" by (simp add: sheds_nothing_def configured_def)
  then show ?case using popped sheds_nothing_out pop_went_out by blast
next
  case (popped_many q call offered got lost now most rs q')
  then have "queue_ok q" by (simp add: sheds_nothing_def configured_def)
  then show ?case using popped_many sheds_nothing_out pop_many_went_out by blast
next
  case (took_all q call offered got lost now items q')
  then have "queue_ok q" by (simp add: sheds_nothing_def configured_def)
  then show ?case using took_all sheds_nothing_out take_all_went_out(1) by blast
next
  case (shut q call offered got lost)
  then show ?case by (simp add: sheds_nothing_def configured_def queue_ok_def queue_close_def)
next
  case (episode_over q call offered got lost now)
  then show ?case using sheds_nothing_quiet[of Q config q offered "finish_full_episode now q"] by (simp add: finish_full_episode_def)
qed

section \<open>Properties\<close>

text \<open>A queue of two items under \<open>Block\<close>: a push waits for room, a commit makes it, and the push goes through.\<close>

definition small_config :: queue_config where
  "small_config = \<lparr>qc_max_items = 1, qc_max_weight = 100, qc_overflow = Block, qc_recover_below = 0\<rparr>"

definition small_items :: "nat queued" where
  "small_items = \<lparr>qd_weight = \<lambda>_. 1, qd_units = \<lambda>_. 1\<rparr>"

definition zero_floats :: float_ops where
  "zero_floats = \<lparr>fl_add = \<lambda>_ _. 0, fl_of_i64 = \<lambda>_. 0, fl_of_u64 = \<lambda>_. 0, fl_sub = \<lambda>_ _. 0, fl_mul = \<lambda>_ _. 0,
     fl_div = \<lambda>_ _. 0, fl_ln = \<lambda>_. 0, fl_ln_1p = \<lambda>_. 0, fl_exp = \<lambda>_. 0, fl_powf = \<lambda>_ _. 0, fl_floor = \<lambda>_. 0,
     fl_round = \<lambda>_. 0, fl_round_ties_even = \<lambda>_. 0, fl_of_i32 = \<lambda>_. 0, fl_to_i32 = \<lambda>_. 0, fl_to_u64 = \<lambda>_. 0\<rparr>"

lemma queue_push_waits: "fst (queue_push Q F now item waited q) = None \<longleftrightarrow> must_wait (qd_weight Q item) (bq_inner q) q"
  by (simp add: queue_push_def Let_def split: prod.splits)

lemma small_run:
  "\<exists>q. queue_run small_items zero_floats small_config q None [7, 8] [7] [] \<and> queue_contents q = [8] \<and> \<not> bq_closed q"
proof -
  let ?run = "queue_run small_items zero_floats small_config"
  let ?q0 = "with_metrics small_config :: nat bounded_queue"
  have c0: "configured small_config ?q0" using queue_run_configured[OF started[of small_items zero_floats small_config]] unfolding sheds_nothing_def by blast
  obtain r1 q1 where p1: "queue_push small_items zero_floats 0 7 False ?q0 = (r1, q1)" by (cases "queue_push small_items zero_floats 0 (7 :: nat) False ?q0")
  have lim: "bq_max_items q = 1" "bq_max_weight q = 100" "bq_block_when_full q" "queue_ok q" if "configured small_config q" for q :: "nat bounded_queue"
    using that by (simp_all add: configured_def small_config_def)
  have w: "qd_weight small_items x = 1" for x by (simp add: small_items_def)
  have i0: "bq_inner ?q0 = buffer_new 1 100 Evict_Oldest" "\<not> bq_closed ?q0" by (simp_all add: with_metrics_def small_config_def)
  have "\<not> must_wait 1 (bq_inner ?q0) ?q0"
    using lim[OF c0] by (simp add: must_wait_def queue_would_overflow_def i0 buffer_new_def saturating_add_def USIZE_MAX_def)
  then have "r1 \<noteq> None" using queue_push_waits[of small_items zero_floats 0 7 False ?q0] p1 w by simp
  then obtain o1 where r1: "r1 = Some o1" by blast
  note e1 = queue_push_effect[OF lim(4)[OF c0] p1, of "\<lambda>_. True", unfolded r1 option.case w]
  have "buffer_push 7 1 (bq_inner ?q0) = (Outcome_Accepted, append_item 7 1 (bq_inner ?q0))"
    by (simp add: i0 buffer_push_def buffer_would_overflow_def buffer_new_def saturating_add_def USIZE_MAX_def)
  then have "bq_inner q1 = append_item 7 1 (bq_inner ?q0)" using e1 by (elim conjE) simp
  then have in1: "mb_items (bq_inner q1) = [(7, 1)]" by (simp add: i0 append_item_def buffer_new_def)
  have run1: "?run q1 None [7] [] []" using push_one[OF started p1] r1 by (simp add: parked_def)
  have c1: "configured small_config q1" using queue_run_configured[OF run1] by (simp add: sheds_nothing_def)
  have cl1: "\<not> bq_closed q1" using e1 i0 by simp
  obtain r2 q2 where p2: "queue_push small_items zero_floats 0 8 False q1 = (r2, q2)" by (cases "queue_push small_items zero_floats 0 (8 :: nat) False q1")
  have "must_wait 1 (bq_inner q1) q1"
    using lim[OF c1] cl1 in1 by (simp add: must_wait_def queue_would_overflow_def never_fits_def)
  then have r2: "r2 = None" using queue_push_waits[of small_items zero_floats 0 8 False q1] p2 w by simp
  note e2 = queue_push_effect[OF lim(4)[OF c1] p2, of "\<lambda>_. True", unfolded r2 option.case]
  have run2: "?run q2 (Some ([8], False)) [7, 8] [] []" using push_one[OF run1 p2] r2 by (simp add: parked_def)
  obtain r3 q3 where p3: "queue_commit zero_floats 0 q2 = (r3, q3)" by (cases "queue_commit zero_floats 0 q2")
  have "queue_ok q2" using e2 by simp
  note o3 = commit_went_out[OF this p3]
  have "r3 = Some 7" using p3 e2 in1 by (auto simp: queue_commit_def buffer_commit_def Let_def)
  then have run3: "?run q3 (Some ([8], False)) [7, 8] [7] []" and in3: "mb_items (bq_inner q3) = []" "\<not> bq_closed q3"
    using committed_one[OF run2 p3] o3 e2 in1 cl1 by (simp_all add: went_out_def)
  have c3: "configured small_config q3" using queue_run_configured[OF run3] by (simp add: sheds_nothing_def)
  obtain r4 q4 where p4: "queue_push small_items zero_floats 0 8 True q3 = (r4, q4)" by (cases "queue_push small_items zero_floats 0 (8 :: nat) True q3")
  have "mb_weight (bq_inner q3) = 0" using lim(4)[OF c3] in3 by (simp add: queue_ok_def buffer_ok_def)
  then have ov: "\<not> queue_would_overflow 1 (bq_inner q3) q3" "\<not> buffer_would_overflow 1 (bq_inner q3)"
    using lim[OF c3] in3 by (simp_all add: queue_would_overflow_def buffer_would_overflow_def saturating_add_def queue_ok_def USIZE_MAX_def)
  then have "r4 \<noteq> None" using queue_push_waits[of small_items zero_floats 0 8 True q3] p4 w by (simp add: must_wait_def)
  then obtain o4 where r4: "r4 = Some o4" by blast
  note e4 = queue_push_effect[OF lim(4)[OF c3] p4, of "\<lambda>_. True", unfolded r4 option.case w]
  have "buffer_push 8 1 (bq_inner q3) = (Outcome_Accepted, append_item 8 1 (bq_inner q3))" using ov(2) by (simp add: buffer_push_def)
  then have "bq_inner q4 = append_item 8 1 (bq_inner q3)" using e4 by (elim conjE) simp
  then have "queue_contents q4 = [8]" using in3 by (simp add: append_item_def)
  moreover have "?run q4 None [7, 8] [7] []" using push_again[OF run3 p4] r4 by (simp add: parked_def)
  moreover have "\<not> bq_closed q4" using e4 in3 by simp
  ultimately show ?thesis by (intro exI[of _ q4] conjI)
qed

text \<open>
  C27. Nothing a queue is offered disappears silently, under any overflow policy and over any
  operations, calls parked, resumed and dropped included: every item was handed out, is in the
  queue, is held by a waiting call, was counted as dropped, or belonged to a single push whose future
  was dropped while it waited; and what was handed out, what is queued and what waits stand in the
  order they were offered.
\<close>

theorem queue_conserves:
  assumes run: "queue_run Q F config q call offered got lost"
  shows "subseq (got @ queue_contents q @ held call) offered \<and>
    (\<exists>dropped. mset offered = mset got + mset (queue_contents q) + mset (held call) + mset lost + mset dropped \<and>
       drops (\<lambda>_. True) q = length dropped)"
  using queue_run_stands[OF run] unfolding stands_def by blast

theorem queue_conserves_witness:
  "\<exists>q. subseq ([7] @ queue_contents q @ held None) [7, 8] \<and>
    (\<exists>dropped. mset [7, 8 :: nat] = mset [7] + mset (queue_contents q) + mset (held None) + mset [] + mset dropped \<and>
       drops (\<lambda>_. True) q = length dropped)"
proof -
  obtain q where run: "queue_run small_items zero_floats small_config q None [7, 8] [7] []" using small_run by blast
  show ?thesis by (rule exI, rule queue_conserves[OF run])
qed

text \<open>
  C28. \<open>Block\<close> keeps its promise: as long as a blocking queue is open, and every item offered is one
  an empty queue could hold, no overflow policy drops anything, and when no call was dropped either,
  what was offered is exactly what was handed out, what is queued and what waits, in that order.
\<close>

theorem block_sheds_nothing:
  assumes run: "queue_run Q F config q call offered got lost" and block: "qc_overflow config = Block" "\<not> bq_closed q"
    and fit: "\<forall>item \<in> set offered. fits_queue Q config item"
  shows "drops overflow_reason q = 0 \<and> (drops (\<lambda>_. True) q = 0 \<and> lost = [] \<longrightarrow> offered = got @ queue_contents q @ held call)"
proof (intro conjI impI)
  show "drops overflow_reason q = 0" using queue_run_configured[OF run] block fit by (simp add: sheds_nothing_def)
  assume "drops (\<lambda>_. True) q = 0 \<and> lost = []"
  then have m: "mset offered = mset (got @ queue_contents q @ held call)" and sub: "subseq (got @ queue_contents q @ held call) offered"
    using queue_run_stands[OF run] by (auto simp: stands_def simp del: mset_map)
  have "length (got @ queue_contents q @ held call) = length offered" using mset_eq_length[OF m] by simp
  from subseq_same_length[OF sub this] show "offered = got @ queue_contents q @ held call" by simp
qed

theorem block_sheds_nothing_witness:
  "\<exists>q :: nat bounded_queue. queue_contents q = [8] \<and>
    drops overflow_reason q = 0 \<and> (drops (\<lambda>_. True) q = 0 \<and> [] = ([] :: nat list) \<longrightarrow> [7, 8] = [7] @ queue_contents q @ held None)"
proof -
  obtain q where q: "queue_run small_items zero_floats small_config q None [7, 8] [7] []" "queue_contents q = [8]" "\<not> bq_closed q"
    using small_run by (elim exE conjE)
  have "qc_overflow small_config = Block" by (simp add: small_config_def)
  show ?thesis by (rule exI, rule conjI, rule q(2), rule block_sheds_nothing[OF q(1) \<open>qc_overflow small_config = Block\<close> q(3)])
      (simp add: small_config_def small_items_def fits_queue_def)
qed

end
