(* ===== verification/Handed_Store.thy ===== *)
theory Handed_Store
  imports Sink_Store Queue_Run
begin

text \<open>
  What the write loop relies on of its store, whichever it is: the batches it was shown stay at the
  front, in order, until it commits them one by one, whatever is pushed meanwhile. The in-memory queue
  and the disk spool both promise it, and so does the store that is either.
\<close>

section \<open>The contract\<close>

locale handed_store =
  fixes inv :: "'s \<Rightarrow> bool"
    and handed :: "'s \<Rightarrow> 'i list"
    and peek :: "'s \<Rightarrow> 'i taken \<times> 's"
    and look :: "nat \<Rightarrow> 's \<Rightarrow> 'i option \<times> 's"
    and commit :: "'s \<Rightarrow> 'i option \<times> 's"
  assumes peek_law: "inv s \<Longrightarrow> peek s = (r, s') \<Longrightarrow>
      inv s' \<and> prefix (handed s) (handed s') \<and> (\<forall>x. r = Taken x \<longrightarrow> handed s' \<noteq> [] \<and> hd (handed s') = x)"
    and look_law: "inv s \<Longrightarrow> look n s = (shown, s') \<Longrightarrow> n \<le> length (handed s) \<Longrightarrow>
      inv s' \<and> prefix (handed s) (handed s') \<and> (\<forall>x. shown = Some x \<longrightarrow> n < length (handed s') \<and> handed s' ! n = x)"
    and commit_law: "inv s \<Longrightarrow> commit s = (removed, s') \<Longrightarrow> handed s \<noteq> [] \<Longrightarrow>
      inv s' \<and> removed = Some (hd (handed s)) \<and> handed s' = tl (handed s)"
begin

text \<open>Commits hand back what was shown, in order.\<close>

fun commits :: "nat \<Rightarrow> 's \<Rightarrow> 'i list \<times> 's" where
  "commits 0 s = ([], s)"
| "commits (Suc n) s = (let (r, s) = commit s; (xs, s) = commits n s in ((case r of Some x \<Rightarrow> x # xs | None \<Rightarrow> xs), s))"

lemma commits_handed:
  "inv s \<Longrightarrow> n \<le> length (handed s) \<Longrightarrow> commits n s = (xs, s') \<Longrightarrow>
     xs = take n (handed s) \<and> handed s' = drop n (handed s) \<and> inv s'"
proof (induction n arbitrary: s xs s')
  case (Suc n)
  obtain r s1 where c: "commit s = (r, s1)" by (cases "commit s")
  have ne: "handed s \<noteq> []" using Suc.prems(2) by auto
  note l = commit_law[OF Suc.prems(1) c ne]
  obtain ys s2 where m: "commits n s1 = (ys, s2)" by (cases "commits n s1")
  have "n \<le> length (handed s1)" using l Suc.prems(2) by simp
  from Suc.IH[OF conjunct1[OF l] this m] l c m Suc.prems(3) ne show ?case
    by (cases "handed s") auto
qed simp

text \<open>A batch looked at where one was shown already is that batch.\<close>

lemma look_again:
  assumes "inv s" and "look n s = (Some x, s')" and "n < length (handed s)"
  shows "x = handed s ! n"
  using look_law[OF assms(1,2)] assms(3) by (auto simp: prefix_def nth_append)

end

section \<open>The in-memory queue\<close>

definition queue_handed :: "'a bounded_queue \<Rightarrow> 'a list" where
  "queue_handed q = take (mb_reserved (bq_inner q)) (queue_contents q)"

lemma went_out_ok: "went_out q items q' \<Longrightarrow> queue_ok q'"
  by (simp add: went_out_def)

lemma queue_reserved: "queue_ok q \<Longrightarrow> mb_reserved (bq_inner q) \<le> length (queue_contents q)"
  by (simp add: queue_ok_def buffer_ok_def)

lemma queue_peek_at_handed:
  assumes ok: "queue_ok q" and p: "queue_peek_at n q = (r, q')"
  shows "queue_ok q'" "r = (if n < length (queue_contents q) then Some (queue_contents q ! n) else None)"
    "queue_handed q' = (if n < length (queue_contents q) then take (max (mb_reserved (bq_inner q)) (n + 1)) (queue_contents q)
       else queue_handed q)"
proof -
  note w = peek_at_went_out[OF ok p]
  show "queue_ok q'" by (rule went_out_ok[OF w(1)])
  show "r = (if n < length (queue_contents q) then Some (queue_contents q ! n) else None)" by (rule w(2))
  obtain inner where b: "buffer_peek_at n (bq_inner q) = (r, inner)" and q': "q' = q\<lparr>bq_inner := inner\<rparr>"
    using p by (cases "buffer_peek_at n (bq_inner q)") (simp add: queue_peek_at_def)
  have "buffer_ok (bq_inner q)" using ok by (simp add: queue_ok_def)
  from mem_buffer.peek_law[OF this b] show "queue_handed q' = (if n < length (queue_contents q)
      then take (max (mb_reserved (bq_inner q)) (n + 1)) (queue_contents q) else queue_handed q)"
    by (auto simp: q' queue_handed_def)
qed

lemma prefix_take: "i \<le> j \<Longrightarrow> prefix (take i xs) (take j xs)"
  by (metis take_is_prefix min.absorb1 take_take)

lemma queue_peek_at_law:
  assumes ok: "queue_ok q" and p: "queue_peek_at n q = (r, q')"
  shows "queue_ok q' \<and> prefix (queue_handed q) (queue_handed q') \<and> (\<forall>x. r = Some x \<longrightarrow> n < length (queue_handed q') \<and> queue_handed q' ! n = x)"
  using queue_peek_at_handed[OF ok p] prefix_take[of "mb_reserved (bq_inner q)" "max (mb_reserved (bq_inner q)) (n + 1)" "queue_contents q"]
  by (auto simp: queue_handed_def)

lemma queue_peek_law:
  assumes ok: "queue_ok q" and p: "queue_peek q = (r, q')"
  shows "queue_ok q' \<and> prefix (queue_handed q) (queue_handed q') \<and> (\<forall>x. r = Taken x \<longrightarrow> queue_handed q' \<noteq> [] \<and> hd (queue_handed q') = x)"
proof -
  obtain s q1 where a: "queue_peek_at 0 q = (s, q1)" by (cases "queue_peek_at 0 q")
  then have "q' = q1" "\<forall>x. r = Taken x \<longrightarrow> s = Some x" using p by (auto simp: queue_peek_def split: option.splits if_splits)
  then show ?thesis using queue_peek_at_law[OF ok a] by (auto simp: hd_conv_nth)
qed

lemma queue_commit_law:
  assumes ok: "queue_ok q" and c: "queue_commit F now q = (r, q')" and ne: "queue_handed q \<noteq> []"
  shows "queue_ok q' \<and> r = Some (hd (queue_handed q)) \<and> queue_handed q' = tl (queue_handed q)"
proof -
  obtain inner where b: "buffer_commit (bq_inner q) = (r, inner)" and q': "q' = consumed F now (q\<lparr>bq_inner := inner\<rparr>)"
    using c by (cases "buffer_commit (bq_inner q)") (simp add: queue_commit_def)
  have i: "bq_inner q' = inner" using quiet_consumed[of "q\<lparr>bq_inner := inner\<rparr>" F now] by (simp add: q' quiet_def)
  have "buffer_ok (bq_inner q)" using ok by (simp add: queue_ok_def)
  note l = mem_buffer.commit_law[OF this b]
  obtain x xs where xs: "queue_contents q = x # xs" using ne by (cases "queue_contents q") (auto simp: queue_handed_def)
  have "mb_reserved (bq_inner q) > 0" using ne by (auto simp: queue_handed_def)
  then show ?thesis using l i xs went_out_ok[OF commit_went_out[OF ok c]]
    by (cases "mb_reserved (bq_inner q)") (auto simp: queue_handed_def)
qed

interpretation queue_store: handed_store queue_ok queue_handed queue_peek queue_peek_at "queue_commit F now" for F now
  by (unfold_locales; (rule queue_peek_law queue_peek_at_law queue_commit_law; assumption))

text \<open>Pushing leaves what was shown in place.\<close>

lemma queue_push_handed:
  assumes ok: "queue_ok q" and p: "queue_push Q F now item waited q = (r, q')"
  shows "queue_ok q' \<and> queue_handed q' = queue_handed q"
proof -
  note e = queue_push_effect[OF ok p, where P = "\<lambda>_. True"]
  show ?thesis
  proof (cases r)
    case None
    then show ?thesis using e by (simp add: queue_handed_def)
  next
    case (Some result)
    then have b: "buffer_push item (qd_weight Q item) (bq_inner q) = (result, bq_inner q')" using e by simp
    have "buffer_ok (bq_inner q)" using ok by (simp add: queue_ok_def)
    from mem_buffer.push_law[OF this b] mem_buffer.push_keeps[OF this b] e show ?thesis by (simp add: queue_handed_def)
  qed
qed

lemma quiet_handed: "quiet q q' \<Longrightarrow> queue_ok q' = queue_ok q \<and> queue_handed q' = queue_handed q"
  by (auto simp: quiet_def queue_ok_def queue_handed_def)

section \<open>The disk spool\<close>

definition spool_handed :: "('d, 'h) disk_queue \<Rightarrow> ('d, 'h) store_item list" where
  "spool_handed q = map ra_item (dq_read_ahead q)"

text \<open>Nothing but \<open>peek\<close>, \<open>peek_at\<close> and \<open>commit\<close> changes what was read ahead.\<close>

named_theorems ahead

lemma ahead_emits [ahead]:
  "dq_read_ahead (dq_emit x q) = dq_read_ahead q" "dq_read_ahead (dq_tick q) = dq_read_ahead q"
  "dq_read_ahead (put_file seq bs q) = dq_read_ahead q" "dq_read_ahead (count_dropped reason n q) = dq_read_ahead q"
  "dq_read_ahead (count_fs_error op q) = dq_read_ahead q" "dq_read_ahead (after_change q) = dq_read_ahead q"
  "dq_read_ahead (create_file seq q) = dq_read_ahead q"
  by (simp_all add: dq_emit_def dq_tick_def put_file_def count_dropped_def count_fs_error_def after_change_def create_file_def)

lemma ahead_persist [ahead]: "dq_read_ahead (run_persist_job E job q) = dq_read_ahead q"
proof -
  have u: "dq_read_ahead (fold (unlink_segment E) segs q) = dq_read_ahead q" for segs and q :: "('a, 'b) disk_queue"
    by (induction segs arbitrary: q) (simp_all add: unlink_segment_def ahead)
  show ?thesis by (simp add: run_persist_job_def persist_cursor_def Let_def u ahead split: option.splits)
qed

lemma ahead_queue_persist [ahead]: "dq_read_ahead (queue_persist E job q) = dq_read_ahead q"
  by (simp add: queue_persist_def ahead)

lemma ahead_roll [ahead]: "dq_read_ahead (snd (roll_read_cursor E q)) = dq_read_ahead q"
proof -
  have r: "dq_read_ahead (fold remove_segment segs q) = dq_read_ahead q" for segs and q :: "('a, 'b) disk_queue"
    by (induction segs arbitrary: q) (simp_all add: remove_segment_def Let_def split: option.splits)
  show ?thesis by (simp add: roll_read_cursor_def Let_def r ahead split: prod.splits)
qed

lemma ahead_advance [ahead]:
  "dq_read_ahead (after_cursor_advance E q) = dq_read_ahead q" "dq_read_ahead (advance_read_cursor E n q) = dq_read_ahead q"
  by (simp_all add: after_cursor_advance_def advance_read_cursor_def Let_def ahead)

lemma ahead_read_at [ahead]: "dq_read_ahead (snd (read_at E seq offset n q)) = dq_read_ahead q"
  by (simp add: read_at_def ahead split: io_step.splits option.splits)

lemma ahead_read_grow [ahead]: "dq_read_ahead (snd (read_grow E seq offset left chunk_len q)) = dq_read_ahead q"
proof (induction E seq offset left chunk_len q rule: read_grow.induct)
  case (1 E seq offset left chunk_len q)
  obtain r q1 where r: "read_at E seq offset chunk_len q = (r, q1)" by (cases "read_at E seq offset chunk_len q")
  have "dq_read_ahead q1 = dq_read_ahead q" using ahead_read_at[of E seq offset chunk_len q] r by simp
  then show ?case using "1.IH"[OF r[symmetric]] r
    by (subst read_grow.simps) (auto simp: Let_def split: option.splits sum.splits codec_error.splits)
qed

lemma ahead_past [ahead]: "dq_read_ahead (snd (read_past_corruption E seq offset left buf q)) = dq_read_ahead q"
proof -
  obtain r q1 where r: "(if length buf = left then (Some buf, q) else read_at E seq offset left q) = (r, q1)" by fastforce
  then have "dq_read_ahead q1 = dq_read_ahead q"
    using ahead_read_at[of E seq offset left q] by (cases "length buf = left") auto
  then show ?thesis unfolding read_past_corruption_def r
    by (simp add: Let_def ahead split: option.split list.split prod.split)
qed

lemma ahead_read_record [ahead]: "dq_read_ahead (snd (read_record_at E seq offset q)) = dq_read_ahead q"
proof (cases "find_len seq (dq_segments q)")
  case (Some len)
  let ?left = "len - offset"
  obtain g q1 where g: "read_grow E seq offset ?left (min READ_CHUNK_INITIAL ?left) q = (g, q1)" by fastforce
  then have "dq_read_ahead q1 = dq_read_ahead q" using ahead_read_grow[of E seq offset ?left "min READ_CHUNK_INITIAL ?left" q] by simp
  then show ?thesis using Some by (simp add: read_record_at_def Let_def g ahead split: grown.split)
qed (simp add: read_record_at_def)

lemma ahead_skip [ahead]: "dq_read_ahead (snd (skip_corrupt E seq offset delta q)) = dq_read_ahead q"
  by (simp add: skip_corrupt_def ahead)

lemma ahead_and_then:
  assumes "dq_read_ahead (snd m) = xs" and "\<And>x q. dq_read_ahead q = xs \<Longrightarrow> dq_read_ahead (snd (k x q)) = xs"
  shows "dq_read_ahead (snd (and_then m k)) = xs"
  using assms by (cases m; cases "fst m") (auto simp: and_then_def)

lemma ahead_try_step [ahead]: "dq_read_ahead (snd (try_step E op q)) = dq_read_ahead q"
  by (simp add: try_step_def ahead split: io_step.split)

lemma ahead_truncate [ahead]: "dq_read_ahead (snd (truncate_tail E seq before q)) = dq_read_ahead q"
  by (simp add: truncate_tail_def Let_def ahead split: io_step.split)

lemma ahead_repair [ahead]: "dq_read_ahead (snd (repair_if_needed E q)) = dq_read_ahead q"
  by (auto simp: repair_if_needed_def repair_torn_tail_def ahead split: io_step.split option.split intro!: ahead_and_then)

lemma ahead_open [ahead]: "dq_read_ahead (snd (open_append E seq q)) = dq_read_ahead q"
  by (simp add: open_append_def ahead split: io_step.split)

lemma ahead_rotate [ahead]: "dq_read_ahead (snd (rotate_segment E q)) = dq_read_ahead q"
  by (auto simp: rotate_segment_def Let_def ahead split: io_step.split intro!: ahead_and_then)

lemma ahead_append [ahead]: "dq_read_ahead (snd (append_record E rec q)) = dq_read_ahead q"
  by (simp add: append_record_def Let_def ahead split: io_step.split)

lemma ahead_write [ahead]: "dq_read_ahead (snd (write_record E rec q)) = dq_read_ahead q"
  by (auto simp: write_record_def ahead intro!: ahead_and_then)

lemma ahead_make_room [ahead]: "dq_read_ahead (snd (rotate_consumed_active_segment E q)) = dq_read_ahead q"
  by (auto simp: rotate_consumed_active_segment_def ahead intro!: ahead_and_then)

lemma ahead_push_write [ahead]: "dq_read_ahead (snd (push_write E rec events q)) = dq_read_ahead q"
  using ahead_write[of E rec q]
  by (cases "write_record E rec q"; cases "fst (write_record E rec q)") (simp_all add: push_write_def ahead)

text \<open>An eviction happens only while nothing was read ahead.\<close>

lemma ahead_evict [ahead]: "dq_read_ahead (snd (evict_oldest_record E q)) = dq_read_ahead q"
proof -
  obtain r q1 where r: "read_record_at E (dq_read_seq q) (dq_read_offset q) q = (r, q1)" by fastforce
  then have "dq_read_ahead q1 = dq_read_ahead q" using ahead_read_record[of E "dq_read_seq q" "dq_read_offset q" q] by simp
  then show ?thesis by (simp add: evict_oldest_record_def Let_def r ahead split: read_outcome.split)
qed

lemma ahead_push_loop [ahead]: "dq_read_ahead (snd (push_loop n E rec events made_room q)) = dq_read_ahead q"
proof (induction n arbitrary: made_room q)
  case (Suc n)
  let ?q = "snd (roll_read_cursor E q)"
  obtain r q1 where m: "rotate_consumed_active_segment E ?q = (r, q1)" by fastforce
  obtain b q2 where v: "evict_oldest_record E ?q = (b, q2)" by fastforce
  have "dq_read_ahead q1 = dq_read_ahead q" "dq_read_ahead q2 = dq_read_ahead q"
    using ahead_make_room[of E ?q] ahead_evict[of E ?q] m v by (simp_all add: ahead)
  then show ?case using Suc.IH by (simp add: Let_def m v ahead split: push_action.split attempt.split bool.split)
qed simp

lemma ahead_push_record [ahead]: "dq_read_ahead (snd (push_record E item q)) = dq_read_ahead q"
  by (simp add: push_record_def numbering_next_def Let_def ahead split: prod.split sum.split)

section \<open>Showing and committing records\<close>

lemma peek_turn_ahead:
  assumes "peek_turn E q = (r, q')"
  shows "prefix (dq_read_ahead q) (dq_read_ahead q') \<and> (\<forall>x. r = Peeked x \<longrightarrow> dq_read_ahead q' \<noteq> [] \<and> ra_item (hd (dq_read_ahead q')) = x)"
proof -
  let ?q = "snd (roll_read_cursor E q)"
  obtain o1 q1 where o: "read_record_at E (dq_read_seq ?q) (dq_read_offset ?q) ?q = (o1, q1)" by fastforce
  have "dq_read_ahead q1 = dq_read_ahead q" using ahead_read_record[of E "dq_read_seq ?q" "dq_read_offset ?q" ?q] o by (simp add: ahead)
  moreover obtain still q2 where "roll_read_cursor E ?q = (still, q2)" by fastforce
  moreover from this have "dq_read_ahead q2 = dq_read_ahead q" using ahead_roll[of E ?q] by (simp add: ahead)
  ultimately show ?thesis using assms o
    by (auto simp: peek_turn_def Let_def ahead split: list.splits if_splits read_outcome.splits)
qed

lemma peek_ahead:
  "peek n E q = (r, q') \<Longrightarrow>
     prefix (dq_read_ahead q) (dq_read_ahead q') \<and> (\<forall>x. r = Peeked x \<longrightarrow> dq_read_ahead q' \<noteq> [] \<and> ra_item (hd (dq_read_ahead q')) = x)"
proof (induction n arbitrary: q)
  case (Suc n)
  obtain r1 q1 where t: "peek_turn E q = (r1, q1)" by fastforce
  note l = peek_turn_ahead[OF t]
  show ?case
  proof (cases "r1 = Peek_Again")
    case True
    then show ?thesis using Suc.IH[of q1] Suc.prems t l by (auto intro: prefix_order.trans)
  next
    case False
    then have "r = r1 \<and> q' = q1" using Suc.prems t by (cases r1) auto
    then show ?thesis using l by simp
  qed
qed simp

lemma peek_at_ahead:
  assumes p: "peek_at E n q = (r, q')"
  shows "prefix (dq_read_ahead q) (dq_read_ahead q') \<and>
    (\<forall>x. r = Some x \<longrightarrow> n < length (dq_read_ahead q') \<and> ra_item (dq_read_ahead q' ! n) = x)"
proof -
  define q0 where "q0 = (if n = 0 \<and> dq_read_ahead q = [] then snd (roll_read_cursor E q) else q)"
  have a: "dq_read_ahead q0 = dq_read_ahead q" by (simp add: q0_def ahead)
  note p = p[unfolded peek_at_def Let_def, folded q0_def]
  show ?thesis
  proof (cases "n = length (dq_read_ahead q0)")
    case True
    show ?thesis
    proof (cases "next_read_position q0")
      case (Some at)
      obtain seg offset where at: "at = (seg, offset)" by fastforce
      obtain o1 q1 where o: "read_record_at E seg offset q0 = (o1, q1)" by fastforce
      have "dq_read_ahead q1 = dq_read_ahead q" using ahead_read_record[of E seg offset q0] o a by simp
      then show ?thesis using p True Some at o a
        by (auto simp: ahead split: read_outcome.splits if_splits)
    qed (use p True a in \<open>auto\<close>)
  qed (use p a in \<open>auto split: if_splits\<close>)
qed

lemma commit_ahead:
  assumes "commit E q = (r, q')" and "dq_read_ahead q = head # rest"
  shows "r = Some (ra_item head)" and "dq_read_ahead q' = rest"
  using assms by (auto simp: commit_def Let_def ahead)

lemma prefix_map: "prefix xs ys \<Longrightarrow> prefix (map f xs) (map f ys)"
  by (auto simp: prefix_def)

definition spool_shown :: "('d, 'h) peeked \<times> ('d, 'h) disk_queue \<Rightarrow> ('d, 'h) store_item taken \<times> ('d, 'h) disk_queue" where
  "spool_shown p = (case p of (Peeked item, q) \<Rightarrow> (Taken item, q) | (Peek_Ended, q) \<Rightarrow> (Take_Ended, q) | (_, q) \<Rightarrow> (Take_Parked, q))"

lemma spool_shownD: "spool_shown p = (r, q') \<Longrightarrow> q' = snd p \<and> (\<forall>x. r = Taken x \<longrightarrow> fst p = Peeked x)"
  by (auto simp: spool_shown_def split: prod.splits peeked.splits)

interpretation spool_store: handed_store "\<lambda>_. True" spool_handed "\<lambda>q. spool_shown (peek n E q)" "peek_at E" "commit E" for n E
proof unfold_locales
  fix q q' :: "('a, 'b) disk_queue" and r
  assume "spool_shown (peek n E q) = (r, q')"
  then have "\<exists>r1. peek n E q = (r1, q') \<and> (\<forall>x. r = Taken x \<longrightarrow> r1 = Peeked x)"
    using spool_shownD by (metis prod.collapse)
  then show "True \<and> prefix (spool_handed q) (spool_handed q') \<and> (\<forall>x. r = Taken x \<longrightarrow> spool_handed q' \<noteq> [] \<and> hd (spool_handed q') = x)"
    using peek_ahead[of n E q] by (auto simp: spool_handed_def hd_map intro!: prefix_map)
next
  fix q q' :: "('a, 'b) disk_queue" and i shown
  assume "peek_at E i q = (shown, q')"
  from peek_at_ahead[OF this]
  show "True \<and> prefix (spool_handed q) (spool_handed q') \<and> (\<forall>x. shown = Some x \<longrightarrow> i < length (spool_handed q') \<and> spool_handed q' ! i = x)"
    by (auto simp: spool_handed_def intro!: prefix_map)
next
  fix q q' :: "('a, 'b) disk_queue" and removed
  assume c: "commit E q = (removed, q')" and "spool_handed q \<noteq> []"
  then obtain head rest where "dq_read_ahead q = head # rest" by (cases "dq_read_ahead q") (auto simp: spool_handed_def)
  from commit_ahead[OF c this] this
  show "True \<and> removed = Some (hd (spool_handed q)) \<and> spool_handed q' = tl (spool_handed q)" by (simp add: spool_handed_def)
qed

section \<open>Either store\<close>

fun sink_store_ok :: "('d, 'h) sink_store \<Rightarrow> bool" where
  "sink_store_ok (Store_Memory m) = queue_ok (mq_queue m)"
| "sink_store_ok (Store_Disk _) = True"

fun store_handed :: "('d, 'h) sink_store \<Rightarrow> ('d, 'h) store_item list" where
  "store_handed (Store_Memory m) = queue_handed (mq_queue m)"
| "store_handed (Store_Disk q) = spool_handed q"

lemma store_peek_disk: "store_peek T (Store_Disk q) = map_prod id Store_Disk (spool_shown (peek (st_turns T) (st_spool T) q))"
  by (auto simp: store_peek_def spool_shown_def split: prod.splits peeked.splits)

text \<open>The operations, case by case.\<close>

lemma store_peekE:
  assumes "store_peek T s = (r, s')"
  obtains m q where "s = Store_Memory m" "queue_peek (mq_queue m) = (r, q)" "s' = Store_Memory (m\<lparr>mq_queue := q\<rparr>)"
  | d q where "s = Store_Disk d" "spool_shown (peek (st_turns T) (st_spool T) d) = (r, q)" "s' = Store_Disk q"
proof (cases s)
  case (Store_Disk d)
  then show ?thesis using assms that(2)[of d] store_peek_disk[of T d] by (cases "spool_shown (peek (st_turns T) (st_spool T) d)") auto
qed (use assms that(1) in \<open>auto simp: store_peek_def split: prod.splits\<close>)

lemma store_peek_atE:
  assumes "store_peek_at T n s = (r, s')"
  obtains m q where "s = Store_Memory m" "queue_peek_at n (mq_queue m) = (r, q)" "s' = Store_Memory (m\<lparr>mq_queue := q\<rparr>)"
  | d q where "s = Store_Disk d" "peek_at (st_spool T) n d = (r, q)" "s' = Store_Disk q"
  using assms by (cases s) (auto simp: store_peek_at_def split: prod.splits)

lemma store_commitE:
  assumes "store_commit T now s = (r, s')"
  obtains m q where "s = Store_Memory m" "queue_commit (st_floats T) now (mq_queue m) = (r, q)" "s' = Store_Memory (m\<lparr>mq_queue := q\<rparr>)"
  | d q where "s = Store_Disk d" "commit (st_spool T) d = (r, q)" "s' = Store_Disk q"
  using assms by (cases s) (auto simp: store_commit_def split: prod.splits)

interpretation sink_store: handed_store sink_store_ok store_handed "store_peek T" "store_peek_at T" "store_commit T now" for T now
proof unfold_locales
  fix s s' :: "('a, 'b) sink_store" and r
  assume ok: "sink_store_ok s" and p: "store_peek T s = (r, s')"
  show "sink_store_ok s' \<and> prefix (store_handed s) (store_handed s') \<and> (\<forall>x. r = Taken x \<longrightarrow> store_handed s' \<noteq> [] \<and> hd (store_handed s') = x)"
    using p
  proof (cases rule: store_peekE)
    case (1 m q)
    then show ?thesis using ok queue_store.peek_law[of "mq_queue m" r q] by simp
  next
    case (2 d q)
    then show ?thesis using spool_store.peek_law[of "st_turns T" "st_spool T" d r q] by simp
  qed
next
  fix s s' :: "('a, 'b) sink_store" and n shown
  assume ok: "sink_store_ok s" and p: "store_peek_at T n s = (shown, s')" and le: "n \<le> length (store_handed s)"
  show "sink_store_ok s' \<and> prefix (store_handed s) (store_handed s') \<and> (\<forall>x. shown = Some x \<longrightarrow> n < length (store_handed s') \<and> store_handed s' ! n = x)"
    using p
  proof (cases rule: store_peek_atE)
    case (1 m q)
    then show ?thesis using ok le queue_store.look_law[of "mq_queue m" n shown q] by simp
  next
    case (2 d q)
    then show ?thesis using le spool_store.look_law[of "st_spool T" n d shown q] by simp
  qed
next
  fix s s' :: "('a, 'b) sink_store" and removed
  assume ok: "sink_store_ok s" and p: "store_commit T now s = (removed, s')" and ne: "store_handed s \<noteq> []"
  show "sink_store_ok s' \<and> removed = Some (hd (store_handed s)) \<and> store_handed s' = tl (store_handed s)"
    using p
  proof (cases rule: store_commitE)
    case (1 m q)
    then show ?thesis using ok ne queue_store.commit_law[of "mq_queue m" "st_floats T" now removed q] by simp
  next
    case (2 d q)
    then show ?thesis using ne spool_store.commit_law[of "st_spool T" d removed q] by simp
  qed
qed

text \<open>The producer's operations, and the notes of the write loop, leave what was shown.\<close>

definition keeps_shown :: "('d, 'h) sink_store \<Rightarrow> ('d, 'h) sink_store \<Rightarrow> bool" where
  "keeps_shown s s' \<longleftrightarrow> sink_store_ok s' \<and> store_handed s' = store_handed s"

lemma store_push_turn_keeps:
  assumes ok: "sink_store_ok s" shows "keeps_shown s (snd (store_push_turn T now p s))"
proof (cases s)
  case (Store_Memory m)
  show ?thesis
  proof (cases p)
    case (Waits_Memory item waited)
    obtain r q where p: "queue_push (batch_queued T) (st_floats T) now item waited (mq_queue m) = (r, q)" by fastforce
    from queue_push_handed[OF _ p] ok Store_Memory Waits_Memory p show ?thesis
      by (cases r) (auto simp: store_push_turn_def keeps_shown_def)
  qed (use ok Store_Memory in \<open>simp add: store_push_turn_def keeps_shown_def\<close>)
next
  case (Store_Disk d)
  show ?thesis
  proof (cases p)
    case (Waits_Disk rec events made_room)
    obtain r q where p: "push_loop (st_turns T) (st_spool T) rec events made_room d = (r, q)" by fastforce
    then have "dq_read_ahead q = dq_read_ahead d" using ahead_push_loop[of "st_turns T" "st_spool T" rec events made_room d] by simp
    then show ?thesis using Store_Disk Waits_Disk p
      by (cases r) (auto simp: store_push_turn_def keeps_shown_def spool_handed_def)
  qed (use Store_Disk in \<open>simp add: store_push_turn_def keeps_shown_def\<close>)
qed

lemma store_push_keeps:
  assumes ok: "sink_store_ok s" shows "keeps_shown s (snd (store_push T now item s))"
proof (cases s)
  case (Store_Memory m)
  let ?m = "snd (number_batch m)"
  have "sink_store_ok (Store_Memory ?m)" "store_handed (Store_Memory ?m) = store_handed s"
    using ok Store_Memory by (simp_all add: number_batch_def)
  then show ?thesis using store_push_turn_keeps[of "Store_Memory ?m" T now] Store_Memory
    by (auto simp: store_push_def number_batch_def keeps_shown_def split: prod.splits)
next
  case (Store_Disk d)
  obtain r q where p: "push_record (st_spool T) item d = (r, q)" by fastforce
  then have "store_handed (Store_Disk q) = store_handed s"
    using ahead_push_record[of "st_spool T" item d] Store_Disk by (simp add: spool_handed_def)
  then show ?thesis using store_push_turn_keeps[of "Store_Disk q" T now] Store_Disk p
    by (cases r) (auto simp: store_push_def keeps_shown_def)
qed

lemma queue_quiet_ops [simp]:
  "queue_ok (on_watch g q) = queue_ok q" "queue_handed (on_watch g q) = queue_handed q"
  "queue_ok (queue_push_dropped now q) = queue_ok q" "queue_handed (queue_push_dropped now q) = queue_handed q"
  "queue_ok (queue_close q) = queue_ok q" "queue_handed (queue_close q) = queue_handed q"
  by (simp_all add: quiet_handed[OF quiet_on_watch] quiet_handed[OF quiet_waiting(1)] queue_push_dropped_def)
    (simp_all add: queue_close_def queue_ok_def queue_handed_def)

lemma store_quiet_keeps:
  assumes "sink_store_ok s"
  shows "keeps_shown s (push_dropped now p s)" "keeps_shown s (on_send_limit f s)" "keeps_shown s (store_close s)"
proof -
  show "keeps_shown s (push_dropped now p s)"
    using assms by (cases s; cases p) (simp_all add: push_dropped_def keeps_shown_def split: bool.split)
  show "keeps_shown s (on_send_limit f s)"
    using assms by (cases s) (simp_all add: on_send_limit_def keeps_shown_def)
  show "keeps_shown s (store_close s)"
    using assms by (cases s) (simp_all add: store_close_def keeps_shown_def close_def spool_handed_def)
qed

lemma keeps_shown_refl [simp]: "keeps_shown s s \<longleftrightarrow> sink_store_ok s"
  by (auto simp: keeps_shown_def)

lemma keeps_shown_trans: "keeps_shown s t \<Longrightarrow> keeps_shown t u \<Longrightarrow> keeps_shown s u"
  by (simp add: keeps_shown_def)

text \<open>Waiting for a batch is looking for it.\<close>

lemma store_wait_looks:
  assumes "store_wait_at T now n deadline s = (r, s')"
  shows "\<exists>shown. store_peek_at T n s = (shown, s') \<and> (\<forall>x. r = Wait_Item x \<longrightarrow> shown = Some x)"
  using assms
  by (cases s) (auto simp: store_wait_at_def store_peek_at_def queue_wait_at_def disk_wait_at_def split: prod.splits option.splits if_splits)

end
