(* ===== verification/Delivery_Discipline.thy ===== *)
theory Delivery_Discipline
  imports Write_Loop Handed_Store
begin

text \<open>
  The discipline of delivering from a store, as an automaton over the calls a write loop makes: which
  batch it may observe, send, submit or commit next, given what the sink answered. The rules are those
  of the trait \<open>Output\<close> and of the delivery postures.
\<close>

section \<open>The automaton\<close>

datatype 'i call =
    Call_Observe 'i
  | Call_Send 'i answer
  | Call_Submit 'i answer
  | Call_Await answer
  | Call_Commit "'i option" settled

text \<open>
  What is decided about the oldest batches: nothing; that so many are to be committed, and why; or
  that the loop stops, and up to so many may have reached the destination.
\<close>

datatype verdict = Undecided | Owed settled nat | Stopping nat

text \<open>
  The batches observed and not settled, the oldest first; how many of them are submitted and
  unanswered; whether the oldest has to be submitted again.
\<close>

record 'i dispatch =
  dp_seen :: "'i list"
  dp_out :: nat
  dp_again :: bool
  dp_verdict :: verdict

definition dispatch_start :: "'i dispatch" where
  "dispatch_start = \<lparr>dp_seen = [], dp_out = 0, dp_again = False, dp_verdict = Undecided\<rparr>"

text \<open>A fault that is not retried drops so many batches.\<close>

definition faulted :: "delivery_posture \<Rightarrow> send_error \<Rightarrow> nat \<Rightarrow> verdict" where
  "faulted p e n = (if is_retryable (classify e) p then Undecided else Owed (Settled_Dropped (classify e)) n)"

text \<open>How many batches a fault of the connection leaves without a known outcome, of so many that were out.\<close>

definition at_fault :: "send_error \<Rightarrow> nat \<Rightarrow> nat" where
  "at_fault e n = (if classify e = Ambiguous then n else 1)"

text \<open>An answer to the oldest batch, which is out with the others: its own fault, or the connection's.\<close>

definition answer_head :: "delivery_posture \<Rightarrow> send_error \<Rightarrow> 'i dispatch \<Rightarrow> 'i dispatch" where
  "answer_head p e d =
     (if is_head_only e then d\<lparr>dp_again := is_retryable (classify e) p, dp_verdict := faulted p e 1\<rparr>
      else d\<lparr>dp_out := 0, dp_again := False, dp_verdict := faulted p e (at_fault e (dp_out d))\<rparr>)"

fun discipline :: "delivery_posture \<Rightarrow> 'i call \<Rightarrow> 'i dispatch \<Rightarrow> 'i dispatch option" where
  "discipline p (Call_Observe x) d =
     (if dp_verdict d = Undecided then Some (d\<lparr>dp_seen := dp_seen d @ [x]\<rparr>) else None)"
| "discipline p (Call_Send x a) d =
     (if dp_verdict d = Undecided \<and> dp_seen d = [x] \<and> dp_out d = 0
      then Some (d\<lparr>dp_verdict := (case a of Answer_Ok \<Rightarrow> Owed Settled_Delivered 1 | Answer_Err e \<Rightarrow> faulted p e 1 | Answer_Cut \<Rightarrow> Stopping 1)\<rparr>)
      else None)"
| "discipline p (Call_Submit x a) d =
     (if dp_verdict d \<noteq> Undecided then None
      else if dp_again d then
        (if dp_seen d \<noteq> [] \<and> hd (dp_seen d) = x
         then Some (case a of Answer_Ok \<Rightarrow> d\<lparr>dp_again := False\<rparr> | Answer_Err e \<Rightarrow> answer_head p e d | Answer_Cut \<Rightarrow> d\<lparr>dp_verdict := Stopping (dp_out d)\<rparr>)
         else None)
      else if dp_out d < length (dp_seen d) \<and> dp_seen d ! dp_out d = x then
        Some (case a of
                Answer_Ok \<Rightarrow> d\<lparr>dp_out := dp_out d + 1\<rparr>
              | Answer_Err e \<Rightarrow> if dp_out d = 0 then d\<lparr>dp_verdict := faulted p e 1\<rparr> else d
              | Answer_Cut \<Rightarrow> d\<lparr>dp_verdict := Stopping (dp_out d + 1)\<rparr>)
      else None)"
| "discipline p (Call_Await a) d =
     (if dp_verdict d = Undecided \<and> dp_out d > 0 \<and> \<not> dp_again d
      then Some (case a of
                   Answer_Ok \<Rightarrow> d\<lparr>dp_verdict := Owed Settled_Delivered 1\<rparr>
                 | Answer_Err e \<Rightarrow> answer_head p e d
                 | Answer_Cut \<Rightarrow> d\<lparr>dp_verdict := Stopping (dp_out d)\<rparr>)
      else None)"
| "discipline p (Call_Commit x why) d =
     (if dp_seen d = [] \<or> x \<noteq> Some (hd (dp_seen d)) then None
      else
        map_option (\<lambda>v. d\<lparr>dp_seen := tl (dp_seen d), dp_out := dp_out d - 1, dp_again := False, dp_verdict := v\<rparr>)
          (case dp_verdict d of
             Owed settled n \<Rightarrow> if why = settled \<and> n > 0 then Some (if n = 1 then Undecided else Owed settled (n - 1)) else None
           | Stopping n \<Rightarrow> if why = Settled_Shutdown \<and> p = At_Most_Once \<and> n > 0 then Some (Stopping (n - 1)) else None
           | Undecided \<Rightarrow> if why = Settled_Shutdown \<and> p = At_Most_Once \<and> dp_out d > 0 then Some (Stopping (dp_out d - 1)) else None))"

fun discipline_run :: "delivery_posture \<Rightarrow> 'i call list \<Rightarrow> 'i dispatch \<Rightarrow> 'i dispatch option" where
  "discipline_run p [] d = Some d"
| "discipline_run p (c # cs) d = (case discipline p c d of None \<Rightarrow> None | Some d \<Rightarrow> discipline_run p cs d)"

lemma discipline_run_append:
  "discipline_run p (cs @ cs') d = (case discipline_run p cs d of None \<Rightarrow> None | Some d \<Rightarrow> discipline_run p cs' d)"
  by (induction cs arbitrary: d) (auto split: option.split)

text \<open>The calls in the log of a run.\<close>

fun call_of :: "('d, 'h) wl_effect \<Rightarrow> ('d, 'h) store_item call option" where
  "call_of (Wl_Observe x) = Some (Call_Observe x)"
| "call_of (Wl_Send x a) = Some (Call_Send x a)"
| "call_of (Wl_Submit x a) = Some (Call_Submit x a)"
| "call_of (Wl_Await a) = Some (Call_Await a)"
| "call_of (Wl_Commit x why) = Some (Call_Commit x why)"
| "call_of _ = None"

definition calls :: "('d, 'h) wl_effect list \<Rightarrow> ('d, 'h) store_item call list" where
  "calls log = List.map_filter call_of log"

lemma calls_append [simp]: "calls (xs @ ys) = calls xs @ calls ys"
  by (simp add: calls_def map_filter_def)

lemma calls_simps [simp]:
  "calls [] = []" "calls (x # xs) = (case call_of x of None \<Rightarrow> calls xs | Some c \<Rightarrow> c # calls xs)"
  by (simp_all add: calls_def map_filter_def split: option.split)

section \<open>Steps that make no call\<close>

definition calm :: "('d, 'h, 'o) sink_run \<Rightarrow> ('d, 'h, 'o) sink_run \<Rightarrow> bool" where
  "calm s s' \<longleftrightarrow> keeps_shown (sr_store s) (sr_store s') \<and> sr_window s' = sr_window s \<and> sr_sending s' = sr_sending s \<and>
     calls (sr_log s') = calls (sr_log s)"

lemma calm_refl: "sink_store_ok (sr_store s) \<Longrightarrow> calm s s"
  by (simp add: calm_def)

lemma calm_trans: "calm s t \<Longrightarrow> calm t u \<Longrightarrow> calm s u"
  by (auto simp: calm_def intro: keeps_shown_trans)

lemma calm_ok: "calm s s' \<Longrightarrow> sink_store_ok (sr_store s')"
  by (simp add: calm_def keeps_shown_def)

lemma calm_emit: "sink_store_ok (sr_store s) \<Longrightarrow> calls xs = [] \<Longrightarrow> calm s (wl_emit xs s)"
  by (simp add: calm_def wl_emit_def)

lemma calm_limit: "sink_store_ok (sr_store s) \<Longrightarrow> calm s (set_limit n k s)" "sink_store_ok (sr_store s) \<Longrightarrow> calm s (limit_answered t s)"
  by (simp_all add: calm_def set_limit_def limit_answered_def store_quiet_keeps)

lemma calm_after_push: "keeps_shown (sr_store s) (snd r) \<Longrightarrow> calm s (after_push r s)"
  by (cases r; cases "fst r") (simp_all add: after_push_def calm_def)

lemma calm_drain: assumes "sink_store_ok (sr_store s)" shows "calm s (drain_turn W s)"
proof (cases "sr_drain s")
  case Drain_Idle
  show ?thesis
  proof (cases "sr_inbox s")
    case Nil
    then show ?thesis using Drain_Idle assms by (simp add: drain_turn_def calm_def store_quiet_keeps)
  next
    case (Cons d rest)
    obtain batch ctx where d: "unwrap_batch_arc d = (batch, ctx)" by fastforce
    let ?s = "wl_emit (Wl_Gauge ''logit.component.inbox.batches'' (length rest) # count_received batch)
       (s\<lparr>sr_inbox := rest, sr_in_hand := Some (batch, ctx)\<rparr>)"
    have c: "calm s ?s" using assms by (simp add: calm_def wl_emit_def count_received_def)
    have "calm ?s (drain_turn W s)" unfolding drain_turn_def Drain_Idle Cons
      by (simp add: d Let_def) (rule calm_after_push, rule store_push_keeps, use assms in \<open>simp add: wl_emit_def\<close>)
    with c show ?thesis by (rule calm_trans)
  qed
next
  case (Drain_Pushing p)
  then show ?thesis using assms by (simp add: drain_turn_def) (rule calm_after_push, rule store_push_turn_keeps)
qed (use assms in \<open>simp_all add: drain_turn_def calm_refl\<close>)

lemma calm_drains: "sink_store_ok (sr_store s) \<Longrightarrow> calm s ((drain_turn W ^^ n) s)"
proof (induction n)
  case (Suc n)
  let ?t = "(drain_turn W ^^ n) s"
  have c: "calm s ?t" by (rule Suc.IH[OF Suc.prems])
  show ?case using calm_trans[OF c calm_drain[OF calm_ok[OF c]]] by simp
qed (simp add: calm_refl)

lemma calm_pend:
  assumes ok: "sink_store_ok (sr_store s)" and p: "pend W g s = (c, s')" shows "calm s s'"
proof -
  define s1 where "s1 = s\<lparr>sr_inbox := sr_inbox s @ (if sr_hung_up s then [] else rn_arrives W (sr_clock s)), sr_hung_up := sr_hung_up s \<or> rn_hangs_up W (sr_clock s)\<rparr>"
  define t where "t = (drain_turn W ^^ rn_drains W (sr_clock s)) s1"
  have c1: "calm s s1" using ok by (simp add: calm_def s1_def)
  have c: "calm s t" unfolding t_def by (rule calm_trans[OF c1 calm_drains[OF calm_ok[OF c1]]])
  have "s' = (if g \<and> rn_grace_polled W (sr_clock s) then poll_grace W t else t)\<lparr>sr_clock := sr_clock s + 1\<rparr>"
    using p unfolding pend_def Let_def s1_def[symmetric] t_def[symmetric] by simp
  then have "calm t s'" using calm_ok[OF c] by (simp add: poll_grace_def calm_def)
  with c show ?thesis by (rule calm_trans)
qed

lemma calm_retry:
  assumes "sink_store_ok (sr_store s)"
  shows "calm s (retry_failed W fault s)" "calm s (retry_settle s)"
  using assms by (simp_all add: retry_failed_def retry_settle_def calm_def wl_emit_def Let_def)


lemma call_sink_spec:
  assumes ok: "sink_store_ok (sr_store s)" and c: "call_sink W g told run dropped s = (a, s')"
  shows "keeps_shown (sr_store s) (sr_store s')" "sr_window s' = sr_window s" "sr_sending s' = sr_sending s"
    "calls (sr_log s') = calls (sr_log s) @ calls [told a]"
proof -
  obtain b s1 where p: "pend W g s = (b, s1)" by fastforce
  have "calm s s1" by (rule calm_pend[OF ok p])
  moreover have "sr_store s' = sr_store s1 \<and> sr_window s' = sr_window s1 \<and> sr_sending s' = sr_sending s1 \<and>
      calls (sr_log s') = calls (sr_log s1) @ calls [told a]"
    using c p by (cases "run (sr_output s1)") (auto simp: call_sink_def wl_emit_def split: if_splits)
  ultimately show "keeps_shown (sr_store s) (sr_store s')" "sr_window s' = sr_window s" "sr_sending s' = sr_sending s"
      "calls (sr_log s') = calls (sr_log s) @ calls [told a]" by (simp_all add: calm_def)
qed

section \<open>Following the discipline\<close>

text \<open>The calls so far are accepted, and what the store has shown covers the batches observed.\<close>

definition follows :: "delivery_posture \<Rightarrow> ('d, 'h, 'o) sink_run \<Rightarrow> ('d, 'h) store_item dispatch \<Rightarrow> bool" where
  "follows p s d \<longleftrightarrow> sink_store_ok (sr_store s) \<and> discipline_run p (calls (sr_log s)) dispatch_start = Some d \<and>
     prefix (dp_seen d) (store_handed (sr_store s))"

lemma follows_ok: "follows p s d \<Longrightarrow> sink_store_ok (sr_store s)"
  by (simp add: follows_def)

lemma follows_calm: "follows p s d \<Longrightarrow> calm s s' \<Longrightarrow> follows p s' d"
  by (simp add: follows_def calm_def keeps_shown_def)

lemma follows_call:
  assumes "follows p s d" and "discipline p c d = Some d'" and "calls (sr_log s') = calls (sr_log s) @ [c]"
    and "sink_store_ok (sr_store s')" and "prefix (dp_seen d') (store_handed (sr_store s'))"
  shows "follows p s' d'"
  using assms by (simp add: follows_def discipline_run_append)

lemma follows_shown:
  assumes "follows p s d" and "sink_store_ok st" and "prefix (store_handed (sr_store s)) (store_handed st)"
  shows "follows p (s\<lparr>sr_store := st\<rparr>) d"
  using assms by (auto simp: follows_def intro: prefix_order.trans)

lemma follows_window [simp]: "follows p (on_window f s) d = follows p s d" "follows p (s\<lparr>sr_sending := b\<rparr>) d = follows p s d"
  by (simp_all add: follows_def on_window_def)

text \<open>A call of the sink, step by step.\<close>

lemma follows_call_sink:
  assumes f: "follows p s d" and c: "call_sink W g told run dropped s = (a, s')" and t: "calls [told a] = [k]"
    and d: "discipline p k d = Some d'" and seen: "dp_seen d' = dp_seen d"
  shows "follows p s' d'" "sr_window s' = sr_window s" "sr_sending s' = sr_sending s"
    "store_handed (sr_store s') = store_handed (sr_store s)"
proof -
  note l = call_sink_spec[OF follows_ok[OF f] c]
  show "sr_window s' = sr_window s" "sr_sending s' = sr_sending s" by (rule l)+
  show h: "store_handed (sr_store s') = store_handed (sr_store s)" using l(1) by (simp add: keeps_shown_def)
  show "follows p s' d'"
    by (rule follows_call[OF f d]) (use l t h f seen in \<open>simp_all add: keeps_shown_def follows_def\<close>)
qed

lemma observe_fields [simp]:
  "sr_window (observe W item s) = sr_window s" "sr_store (observe W item s) = sr_store s" "sr_sending (observe W item s) = sr_sending s"
  "calls (sr_log (observe W item s)) = calls (sr_log s) @ [Call_Observe item]"
  by (simp_all add: observe_def wl_emit_def split: prod.split)

lemma follows_observe:
  assumes f: "follows p s d" and "dp_verdict d = Undecided" and "length (dp_seen d) < length (store_handed (sr_store s))"
    and "store_handed (sr_store s) ! length (dp_seen d) = item"
  shows "follows p (observe W item s) (d\<lparr>dp_seen := dp_seen d @ [item]\<rparr>)"
proof (rule follows_call[OF f])
  show "discipline p (Call_Observe item) d = Some (d\<lparr>dp_seen := dp_seen d @ [item]\<rparr>)" using assms(2) by simp
  obtain ys where "store_handed (sr_store s) = dp_seen d @ ys" using f by (auto simp: follows_def prefix_def)
  then have "prefix (dp_seen d @ [item]) (store_handed (sr_store s))" using assms(3,4) by (cases ys) (auto simp: nth_append)
  then show "prefix (dp_seen (d\<lparr>dp_seen := dp_seen d @ [item]\<rparr>)) (store_handed (sr_store (observe W item s)))"
    by simp
qed (use follows_ok[OF f] in simp_all)

text \<open>Committing the oldest batch.\<close>

lemma follows_commit:
  assumes f: "follows p s d" and ne: "dp_seen d \<noteq> []" and c: "commit_as W why s = (r, s')"
    and v: "discipline p (Call_Commit (Some (hd (dp_seen d))) why) d = Some d'"
  shows "follows p s' d'" "r = Some (hd (dp_seen d))" "sr_window s' = sr_window s" "sr_sending s' = sr_sending s"
    "store_handed (sr_store s') = tl (store_handed (sr_store s))"
proof -
  obtain st where st: "store_commit (rn_store W) (wl_now W s) (sr_store s) = (r, st)" and s': "s' = wl_emit [Wl_Commit r why] (s\<lparr>sr_store := st\<rparr>)"
    using c by (auto simp: commit_as_def split: prod.splits)
  obtain ys where h: "store_handed (sr_store s) = dp_seen d @ ys" using f by (auto simp: follows_def prefix_def)
  then have hne: "store_handed (sr_store s) \<noteq> []" using ne by simp
  note l = sink_store.commit_law[OF follows_ok[OF f] st hne]
  show r: "r = Some (hd (dp_seen d))" using l h ne by simp
  have "dp_seen d' = tl (dp_seen d)" using v by (auto split: if_splits verdict.splits)
  then show "follows p s' d'"
    using l h ne r by (intro follows_call[OF f v]) (auto simp: s' wl_emit_def)
  show "sr_window s' = sr_window s" "sr_sending s' = sr_sending s" by (simp_all add: s' wl_emit_def)
  show "store_handed (sr_store s') = tl (store_handed (sr_store s))" using l by (simp add: s' wl_emit_def)
qed

section \<open>One batch at a time\<close>

lemma after_fault_spec:
  assumes "sink_store_ok (sr_store s)" and "after_fault W p e s = (r, s')"
  shows "calm s s'" "r = (if is_retryable (classify e) p then None else Some (Delivery_Dropped (classify e) e))"
proof -
  let ?s = "wl_emit [Wl_Count ''logit.component.errors'' 1 []] s"
  have c: "calm s ?s" using assms(1) by (intro calm_emit) simp_all
  note k = calm_ok[OF c]
  have "calm ?s (wl_emit [Wl_Count ''logit.component.retries'' 1 []] (retry_failed W (classify e) ?s))"
    by (rule calm_trans[OF calm_retry(1)[OF k] calm_emit[OF calm_ok[OF calm_retry(1)[OF k]]]]) simp
  then show "calm s s'" using assms(2) c calm_trans[OF c] by (auto simp: after_fault_def Let_def split: if_splits)
  show "r = (if is_retryable (classify e) p then None else Some (Delivery_Dropped (classify e) e))"
    using assms(2) by (auto simp: after_fault_def Let_def split: if_splits)
qed

text \<open>What the discipline says when a head's delivery ended so.\<close>

fun head_verdict :: "delivery_posture \<Rightarrow> delivery \<Rightarrow> nat \<Rightarrow> verdict \<Rightarrow> bool" where
  "head_verdict p Delivery_Delivered n v \<longleftrightarrow> v = Owed Settled_Delivered 1"
| "head_verdict p (Delivery_Dropped f e) n v \<longleftrightarrow> f = classify e \<and> \<not> is_retryable f p \<and> v = Owed (Settled_Dropped f) n"
| "head_verdict p Delivery_Grace_Expired n v \<longleftrightarrow> v = Undecided"

definition send_verdict :: "delivery_posture \<Rightarrow> delivery polled \<Rightarrow> bool \<Rightarrow> verdict \<Rightarrow> bool" where
  "send_verdict p r sending v \<longleftrightarrow>
     (case r of Came d \<Rightarrow> head_verdict p d 1 v | Was_Cut \<Rightarrow> v = (if sending then Stopping 1 else Undecided) | Still_Running \<Rightarrow> True)"

lemma send_attempt_follows:
  assumes f: "follows p s d" and v: "discipline p (Call_Send item a) d = Some d'" "dp_seen d' = dp_seen d"
    and a: "send_attempt W item s = (a, s')"
  shows "follows p s' d'" "sr_window s' = sr_window s" "sr_sending s' \<longleftrightarrow> a = Answer_Cut"
proof -
  define s0 where "s0 = set_limit 1 1 (s\<lparr>sr_sending := True\<rparr>)"
  have c0: "calm (s\<lparr>sr_sending := True\<rparr>) s0" unfolding s0_def by (rule calm_limit) (simp add: follows_ok[OF f])
  have f0: "follows p s0 d" by (rule follows_calm[OF _ c0]) (simp add: f)
  obtain b s1 where b: "call_send W item s0 = (b, s1)" by fastforce
  have ab: "b = a" using a b by (auto simp: send_attempt_def s0_def Let_def split: if_splits)
  note l = follows_call_sink[OF f0 b[unfolded call_send_def ab] _ v]
  have w1: "sr_window s1 = sr_window s" "sr_sending s1" using l c0 by (simp_all add: calm_def)
  let ?took = "wl_now W s1 - wl_now W s"
  let ?s1 = "s1\<lparr>sr_sending := False\<rparr>"
  have k1: "calm ?s1 (wl_emit [Wl_Timing ''logit.component.send.duration'' ?took] ?s1)" by (rule calm_emit) (use follows_ok[OF l(1)] in simp_all)
  note k2 = calm_trans[OF k1 calm_limit(2)[OF calm_ok[OF k1]], of ?took]
  note k3 = calm_trans[OF k2 calm_limit(1)[OF calm_ok[OF k2], of 1 0]]
  have "follows p ?s1 d'" using l(1) by simp
  note f2 = follows_calm[OF this k3]
  show "follows p s' d'" using a b ab l(1) f2 by (auto simp: send_attempt_def s0_def Let_def split: if_splits)
  show "sr_window s' = sr_window s" using a b ab w1 k3 by (auto simp: send_attempt_def s0_def Let_def calm_def split: if_splits)
  show "sr_sending s' \<longleftrightarrow> a = Answer_Cut" using a b ab w1 k3 by (auto simp: send_attempt_def s0_def Let_def calm_def split: if_splits)
qed

lemma calm_back_off: "sink_store_ok (sr_store s) \<Longrightarrow> back_off W g attempt s = (b, s') \<Longrightarrow> calm s s'"
  unfolding back_off_def by (rule calm_trans[OF calm_emit calm_pend]) (simp_all add: wl_emit_def)

lemma deliver_with_retry_follows:
  "follows p s d \<Longrightarrow> dp_seen d = [item] \<Longrightarrow> dp_out d = 0 \<Longrightarrow> dp_verdict d = Undecided \<Longrightarrow> \<not> sr_sending s \<Longrightarrow>
   deliver_with_retry n W p item attempt s = (r, s') \<Longrightarrow>
     \<exists>d'. follows p s' d' \<and> dp_seen d' = [item] \<and> dp_out d' = 0 \<and> sr_window s' = sr_window s \<and> send_verdict p r (sr_sending s') (dp_verdict d')"
proof (induction n arbitrary: s d attempt)
  case (Suc n)
  note f = Suc.prems(1)
  obtain a s1 where a: "send_attempt W item s = (a, s1)" by fastforce
  let ?d = "d\<lparr>dp_verdict := (case a of Answer_Ok \<Rightarrow> Owed Settled_Delivered 1 | Answer_Err e \<Rightarrow> faulted p e 1 | Answer_Cut \<Rightarrow> Stopping 1)\<rparr>"
  have "discipline p (Call_Send item a) d = Some ?d" using Suc.prems by simp
  note l = send_attempt_follows[OF f this _ a]
  have l1: "follows p s1 ?d" "sr_window s1 = sr_window s" "sr_sending s1 \<longleftrightarrow> a = Answer_Cut" using l by simp_all
  show ?case
  proof (cases "grace_over W s")
    case False
    show ?thesis
    proof (cases a)
      case (Answer_Err e)
      obtain fate s2 where t: "after_fault W p e s1 = (fate, s2)" by fastforce
      note c2 = after_fault_spec[OF follows_ok[OF l1(1)] t]
      have l2: "follows p s2 ?d" "sr_window s2 = sr_window s" "\<not> sr_sending s2"
        using follows_calm[OF l1(1) c2(1)] c2(1) l1 Answer_Err by (simp_all add: calm_def)
      show ?thesis
      proof (cases "is_retryable (classify e) p")
        case True
        obtain b s3 where b: "back_off W True (min (attempt + 1) U32_MAX) s2 = (b, s3)" by fastforce
        have d: "?d = d" using Suc.prems Answer_Err True by (simp add: faulted_def)
        note k = calm_back_off[OF follows_ok[OF l2(1)] b]
        have l3: "follows p s3 d" "sr_window s3 = sr_window s" "\<not> sr_sending s3"
          using follows_calm[OF l2(1) k] k l2 d by (simp_all add: calm_def)
        show ?thesis
        proof (cases b)
          case True
          then have "r = Was_Cut" "s' = s3" using Suc.prems(6) \<open>\<not> grace_over W s\<close> a t b c2(2) Answer_Err \<open>is_retryable (classify e) p\<close> by simp_all
          then show ?thesis using l3 Suc.prems by (intro exI[of _ d]) (simp add: send_verdict_def)
        next
          case False
          then have "deliver_with_retry n W p item (min (attempt + 1) U32_MAX) s3 = (r, s')"
            using Suc.prems(6) \<open>\<not> grace_over W s\<close> a t b c2(2) Answer_Err \<open>is_retryable (classify e) p\<close> by simp
          from Suc.IH[OF l3(1) Suc.prems(2-4) l3(3) this] l3(2) show ?thesis by simp
        qed
      next
        case False
        then have "r = Came (Delivery_Dropped (classify e) e)" "s' = s2"
          using Suc.prems(6) \<open>\<not> grace_over W s\<close> a t c2(2) Answer_Err by simp_all
        then show ?thesis using l2 Answer_Err False Suc.prems by (intro exI[of _ ?d]) (simp add: send_verdict_def faulted_def)
      qed
    qed (use Suc.prems False a l1 in \<open>auto simp: send_verdict_def intro!: exI[of _ ?d]\<close>)
  qed (use Suc.prems in \<open>auto simp: send_verdict_def\<close>)
qed (auto simp: send_verdict_def)

end
