(* ===== verification/Delivery_Window.thy ===== *)
theory Delivery_Window
  imports Delivery_Discipline
begin

text \<open>
  The window of \<open>write_loop\<close> follows the delivery discipline: filling it, resubmitting its head,
  waiting for acknowledgments, and the faults of the head and of the connection.
\<close>

section \<open>Looking ahead\<close>

text \<open>A step that makes no call, but may be shown more of the store.\<close>

definition peeks :: "('d, 'h, 'o) sink_run \<Rightarrow> ('d, 'h, 'o) sink_run \<Rightarrow> bool" where
  "peeks s s' \<longleftrightarrow> sink_store_ok (sr_store s') \<and> prefix (store_handed (sr_store s)) (store_handed (sr_store s')) \<and>
     sr_window s' = sr_window s \<and> sr_sending s' = sr_sending s \<and> calls (sr_log s') = calls (sr_log s)"

lemma calm_peeks: "calm s s' \<Longrightarrow> peeks s s'"
  by (simp add: calm_def peeks_def keeps_shown_def)

lemma peeks_refl: "sink_store_ok (sr_store s) \<Longrightarrow> peeks s s"
  by (simp add: peeks_def)

lemma peeks_trans: "peeks s t \<Longrightarrow> peeks t u \<Longrightarrow> peeks s u"
  by (auto simp: peeks_def intro: prefix_order.trans)

lemma follows_peeks: "follows p s d \<Longrightarrow> peeks s s' \<Longrightarrow> follows p s' d"
  by (auto simp: follows_def peeks_def intro: prefix_order.trans)

abbreviation shown :: "('d, 'h, 'o) sink_run \<Rightarrow> ('d, 'h) store_item list" where
  "shown s \<equiv> store_handed (sr_store s)"

lemma peeks_length: "peeks s s' \<Longrightarrow> length (shown s) \<le> length (shown s')"
  by (simp add: peeks_def prefix_length_le)

lemma store_look:
  assumes "sink_store_ok (sr_store s)" and "store_peek_at T n (sr_store s) = (r, st)" and "n \<le> length (shown s)"
  shows "peeks s (s\<lparr>sr_store := st\<rparr>)" "r = Some x \<Longrightarrow> n < length (store_handed st) \<and> store_handed st ! n = x"
  using sink_store.look_law[OF assms] by (simp_all add: peeks_def)

lemma look_at_peeks:
  assumes ok: "sink_store_ok (sr_store s)" and n: "n \<le> length (shown s)" and l: "look_at W g n s = (r, s')"
  shows "peeks s s'" "r = Came (Some x) \<Longrightarrow> n < length (shown s') \<and> shown s' ! n = x" "r \<noteq> Still_Running"
proof -
  obtain b s1 where p: "(case sr_store s of Store_Disk _ \<Rightarrow> pend W g s | Store_Memory _ \<Rightarrow> (False, s)) = (b, s1)" by fastforce
  then have k: "peeks s s1" using ok calm_peeks[OF calm_pend[OF ok]] by (cases "sr_store s") (auto intro: peeks_refl)
  then have ok1: "sink_store_ok (sr_store s1)" and n1: "n \<le> length (shown s1)" using n peeks_length[OF k] by (simp_all add: peeks_def)
  obtain item st where st: "store_peek_at (rn_store W) n (sr_store s1) = (item, st)" by fastforce
  have e: "(r, s') = (if b then (Was_Cut, s1) else (Came item, s1\<lparr>sr_store := st\<rparr>))"
    using l unfolding look_at_def p by (cases b) (simp_all add: st)
  note l1 = store_look[OF ok1 st n1]
  show "peeks s s'" using e k peeks_trans[OF k l1(1)] by (auto split: if_splits)
  show "r = Came (Some x) \<Longrightarrow> n < length (shown s') \<and> shown s' ! n = x" using e l1(2)[of x] by (auto split: if_splits)
  show "r \<noteq> Still_Running" using e by (auto split: if_splits)
qed

lemma wait_turns_peeks:
  "sink_store_ok (sr_store s) \<Longrightarrow> pos \<le> length (shown s) \<Longrightarrow> wait_turns n W g pos deadline s = (r, s') \<Longrightarrow>
     peeks s s' \<and> (\<forall>x. r = Came (Inr x) \<longrightarrow> pos < length (shown s') \<and> shown s' ! pos = x)"
proof (induction n arbitrary: s)
  case (Suc n)
  obtain b s1 where b: "pend W g s = (b, s1)" by fastforce
  have k: "peeks s s1" by (rule calm_peeks[OF calm_pend[OF Suc.prems(1) b]])
  then have ok1: "sink_store_ok (sr_store s1)" and n1: "pos \<le> length (shown s1)" using Suc.prems(2) peeks_length[OF k] by (simp_all add: peeks_def)
  obtain w st where w: "store_wait_at (rn_store W) (wl_now W s1) pos deadline (sr_store s1) = (w, st)" by fastforce
  obtain sh where sh: "store_peek_at (rn_store W) pos (sr_store s1) = (sh, st)" "\<forall>x. w = Wait_Item x \<longrightarrow> sh = Some x"
    using store_wait_looks[OF w] by blast
  note l = store_look[OF ok1 sh(1) n1]
  have k2: "peeks s (s1\<lparr>sr_store := st\<rparr>)" by (rule peeks_trans[OF k l(1)])
  consider (cut) "b" | (signal) "\<not> b" "rn_signal W (sr_clock s1) \<and> rn_signal_first W (sr_clock s1)"
    | (again) "\<not> b" "\<not> (rn_signal W (sr_clock s1) \<and> rn_signal_first W (sr_clock s1))" "w = Wait_Parked" "\<not> rn_signal W (sr_clock s1)"
    | (ready) "\<not> b" "\<not> (rn_signal W (sr_clock s1) \<and> rn_signal_first W (sr_clock s1))" "w \<noteq> Wait_Parked \<or> rn_signal W (sr_clock s1)" by blast
  then show ?case
  proof cases
    case again
    then have "wait_turns n W g pos deadline (s1\<lparr>sr_store := st\<rparr>) = (r, s')" using Suc.prems(3) b w by simp
    from Suc.IH[OF _ _ this] l(1) k2 show ?thesis using n1 peeks_length[OF l(1)] by (auto simp: peeks_def intro: prefix_order.trans)
  next
    case ready
    then have "s' = s1\<lparr>sr_store := st\<rparr>" "\<forall>x. r = Came (Inr x) \<longrightarrow> w = Wait_Item x" using Suc.prems(3) b w by (cases w; auto)+
    then show ?thesis using k2 l(2) sh(2) by auto
  qed (use Suc.prems(3) b k in auto)
qed (simp add: peeks_refl)

lemma collecting_next_peeks:
  assumes ok: "sink_store_ok (sr_store s)" and pos: "pos \<le> length (shown s)" and c: "collecting_next n W g pos s = (r, s')"
  shows "peeks s s'" "r = Came (Inr x) \<Longrightarrow> pos < length (shown s') \<and> shown s' ! pos = x"
proof -
  obtain v s1 where v: "look_at W g pos s = (v, s1)" by fastforce
  note l = look_at_peeks[OF ok pos v]
  have n1: "sink_store_ok (sr_store s1)" "pos \<le> length (shown s1)" using l(1) pos peeks_length[OF l(1)] by (simp_all add: peeks_def)
  note w = wait_turns_peeks[OF n1, of n W g]
  have "peeks s s' \<and> (\<forall>x. r = Came (Inr x) \<longrightarrow> pos < length (shown s') \<and> shown s' ! pos = x)"
    using c v l w peeks_trans[OF l(1)] peeks_refl[OF ok]
    by (auto simp: collecting_next_def split: option.splits if_splits polled.splits)
  then show "peeks s s'" "r = Came (Inr x) \<Longrightarrow> pos < length (shown s') \<and> shown s' ! pos = x" by blast+
qed

lemma next_item_peeks:
  assumes ok: "sink_store_ok (sr_store s)" and pos: "ws_outstanding (sr_window s) \<le> length (shown s)"
    and head: "shown s \<noteq> []" "hd (shown s) = head" and c: "next_item n W g head s = (r, s')"
  shows "peeks s s'" "r = Came (Inr x) \<Longrightarrow> ws_outstanding (sr_window s) < length (shown s') \<and> shown s' ! ws_outstanding (sr_window s) = x"
    "r = Came (Inl why) \<Longrightarrow> ws_outstanding (sr_window s) > 0"
proof -
  let ?pos = "ws_outstanding (sr_window s)"
  obtain v s1 where v: "look_at W g ?pos s = (v, s1)" by fastforce
  obtain u s2 where u: "collecting_next n W g ?pos s = (u, s2)" by fastforce
  note l = look_at_peeks[OF ok pos v] and k = collecting_next_peeks[OF ok pos u]
  have "peeks s s' \<and> (\<forall>x. r = Came (Inr x) \<longrightarrow> ?pos < length (shown s') \<and> shown s' ! ?pos = x) \<and> (\<forall>why. r = Came (Inl why) \<longrightarrow> ?pos > 0)"
    using c v u l k peeks_refl[OF ok] head
    by (auto simp: next_item_def Let_def hd_conv_nth split: option.splits if_splits polled.splits sum.splits)
  then show "peeks s s'" "r = Came (Inr x) \<Longrightarrow> ?pos < length (shown s') \<and> shown s' ! ?pos = x" "r = Came (Inl why) \<Longrightarrow> ?pos > 0" by blast+
qed

section \<open>The window\<close>

text \<open>The counts of \<open>InFlight\<close> are those of the automaton.\<close>

definition windowed :: "('d, 'h, 'o) sink_run \<Rightarrow> ('d, 'h) store_item dispatch \<Rightarrow> bool" where
  "windowed s d \<longleftrightarrow> length (dp_seen d) = ws_observed (sr_window s) \<and> dp_out d = ws_outstanding (sr_window s) \<and>
     ws_outstanding (sr_window s) \<le> ws_observed (sr_window s)"

text \<open>A round is under way for the head: nothing is decided, no submit is in progress.\<close>

definition in_round :: "delivery_posture \<Rightarrow> ('d, 'h) store_item \<Rightarrow> ('d, 'h, 'o) sink_run \<Rightarrow> ('d, 'h) store_item dispatch \<Rightarrow> bool" where
  "in_round p head s d \<longleftrightarrow> follows p s d \<and> windowed s d \<and> shown s \<noteq> [] \<and> hd (shown s) = head \<and> \<not> ws_submitting (sr_window s) \<and>
     dp_verdict d = Undecided"

lemma in_round_peeks: "in_round p head s d \<Longrightarrow> peeks s s' \<Longrightarrow> in_round p head s' d"
  using follows_peeks[of p s d s'] by (auto simp: in_round_def windowed_def peeks_def prefix_def)

lemmas in_round_calm = in_round_peeks[OF _ calm_peeks]

lemma in_round_ok: "in_round p head s d \<Longrightarrow> sink_store_ok (sr_store s)"
  by (auto simp: in_round_def dest: follows_ok)

lemma in_round_covered: "in_round p head s d \<Longrightarrow> ws_outstanding (sr_window s) \<le> length (shown s)"
  by (auto simp: in_round_def windowed_def follows_def dest!: prefix_length_le)

lemma seen_is_shown: "follows p s d \<Longrightarrow> i < length (dp_seen d) \<Longrightarrow> dp_seen d ! i = shown s ! i"
  by (auto simp: follows_def prefix_def nth_append)

text \<open>The batch at the end of the window is observed, once.\<close>

lemma observe_once_in_round:
  assumes r: "in_round p head s d" and pos: "ws_outstanding (sr_window s) < length (shown s)" "shown s ! ws_outstanding (sr_window s) = item"
  obtains d' where "in_round p head (observe_once W item s) d'" "dp_out d' = dp_out d" "dp_again d' = dp_again d"
    "dp_out d' < length (dp_seen d')" "dp_seen d' ! dp_out d' = item" "sr_store (observe_once W item s) = sr_store s"
proof (cases "ws_observed (sr_window s) \<le> ws_outstanding (sr_window s)")
  case True
  let ?d = "d\<lparr>dp_seen := dp_seen d @ [item]\<rparr>"
  have eq: "length (dp_seen d) = ws_outstanding (sr_window s)" "dp_out d = ws_outstanding (sr_window s)" using r True by (auto simp: in_round_def windowed_def)
  have "follows p (observe W item s) ?d" by (rule follows_observe) (use r pos eq in \<open>simp_all add: in_round_def\<close>)
  then have "in_round p head (observe_once W item s) ?d" using r True eq
    by (simp add: in_round_def observe_once_def Let_def windowed_def) (simp add: on_window_def)
  with eq True show ?thesis by (intro that[of ?d]) (simp_all add: observe_once_def Let_def on_window_def nth_append)
next
  case False
  then have "dp_out d < length (dp_seen d)" using r by (simp add: in_round_def windowed_def)
  moreover from this have "dp_seen d ! dp_out d = item" using r pos seen_is_shown[of p s d "dp_out d"] by (simp add: in_round_def windowed_def)
  ultimately show ?thesis using r False by (intro that[of d]) (simp_all add: observe_once_def)
qed

text \<open>How a turn of the fill, or a whole fill, leaves things.\<close>

definition fill_end ::
    "delivery_posture \<Rightarrow> ('d, 'h) store_item \<Rightarrow> (send_error + window_close option) option polled \<Rightarrow> ('d, 'h, 'o) sink_run \<Rightarrow>
     ('d, 'h) store_item dispatch \<Rightarrow> bool" where
  "fill_end p head r s d \<longleftrightarrow> follows p s d \<and> windowed s d \<and> \<not> dp_again d \<and> shown s \<noteq> [] \<and> hd (shown s) = head \<and>
     (case r of
        Came (Some (Inl e)) \<Rightarrow> dp_verdict d = faulted p e 1 \<and> dp_out d = 0 \<and> dp_seen d \<noteq> [] \<and> ws_at_fault (sr_window s) = 1 \<and> \<not> ws_submitting (sr_window s)
      | Came _ \<Rightarrow> dp_verdict d = Undecided \<and> dp_out d > 0 \<and> \<not> ws_submitting (sr_window s)
      | Was_Cut \<Rightarrow> dp_verdict d = Undecided \<and> \<not> ws_submitting (sr_window s) \<or> dp_verdict d = Stopping (left_the_process (sr_window s))
      | Still_Running \<Rightarrow> True)"

lemma join_window_fields:
  "ws_outstanding (sr_window (join_window W batch t s)) = ws_outstanding (sr_window s) + 1"
  "ws_observed (sr_window (join_window W batch t s)) = ws_observed (sr_window s)"
  "ws_submitting (sr_window (join_window W batch t s)) = ws_submitting (sr_window s)"
  "sink_store_ok (sr_store s) \<Longrightarrow> keeps_shown (sr_store s) (sr_store (join_window W batch t s))"
  "calls (sr_log (join_window W batch t s)) = calls (sr_log s)"
  by (simp_all add: join_window_def Let_def on_window_def set_limit_def store_quiet_keeps)

lemma follows_same:
  assumes "follows p s d" and "keeps_shown (sr_store s) (sr_store s')" and "calls (sr_log s') = calls (sr_log s)"
  shows "follows p s' d" "shown s' = shown s"
  using assms by (simp_all add: follows_def keeps_shown_def)

lemma follows_call_submit:
  assumes "follows p s d" and "call_submit W g item s = (a, s')"
    and "discipline p (Call_Submit item a) d = Some d'" and "dp_seen d' = dp_seen d"
  shows "follows p s' d'" "sr_window s' = sr_window s" "shown s' = shown s"
proof -
  obtain batch ctx seq where item: "item = (batch, ctx, seq)" by (cases item)
  note l = follows_call_sink[OF assms(1) assms(2)[unfolded call_submit_def item prod.case] _ assms(3)[unfolded item] assms(4)]
  show "follows p s' d'" "sr_window s' = sr_window s" "shown s' = shown s" using l by simp_all
qed

lemma submit_turn:
  assumes r: "in_round p head s d" and na: "\<not> dp_again d"
    and pos: "ws_outstanding (sr_window s) < length (shown s)" "shown s ! ws_outstanding (sr_window s) = item"
    and c: "call_submit W g item (on_window (\<lambda>w. w\<lparr>ws_submitting := True\<rparr>) (observe_once W item s)) = (a, s1)"
  obtains d' where "follows p s1 d'" "\<not> dp_again d'" "shown s1 = shown s" "length (dp_seen d') = ws_observed (sr_window s1)"
    "ws_outstanding (sr_window s1) = ws_outstanding (sr_window s)" "ws_outstanding (sr_window s1) < ws_observed (sr_window s1)" "ws_submitting (sr_window s1)"
    "dp_out d' = ws_outstanding (sr_window s) + (if a = Answer_Ok then 1 else 0)"
    "dp_verdict d' = (case a of Answer_Cut \<Rightarrow> Stopping (ws_outstanding (sr_window s) + 1)
       | Answer_Err e \<Rightarrow> if ws_outstanding (sr_window s) = 0 then faulted p e 1 else Undecided | Answer_Ok \<Rightarrow> Undecided)"
proof -
  from observe_once_in_round[OF r pos, where W = W] obtain d1 where d1: "in_round p head (observe_once W item s) d1" "dp_out d1 = dp_out d" "dp_again d1 = dp_again d"
    "dp_out d1 < length (dp_seen d1)" "dp_seen d1 ! dp_out d1 = item" "sr_store (observe_once W item s) = sr_store s" .
  let ?s = "on_window (\<lambda>w. w\<lparr>ws_submitting := True\<rparr>) (observe_once W item s)"
  have v: "dp_verdict d1 = Undecided" "\<not> dp_again d1" using d1 na by (simp_all add: in_round_def)
  let ?d = "case a of Answer_Ok \<Rightarrow> d1\<lparr>dp_out := dp_out d1 + 1\<rparr> | Answer_Err e \<Rightarrow> if dp_out d1 = 0 then d1\<lparr>dp_verdict := faulted p e 1\<rparr> else d1
     | Answer_Cut \<Rightarrow> d1\<lparr>dp_verdict := Stopping (dp_out d1 + 1)\<rparr>"
  have f: "follows p ?s d1" using d1(1) by (simp add: in_round_def)
  have disc: "discipline p (Call_Submit item a) d1 = Some ?d" using v d1(4,5) by (cases a) simp_all
  have "dp_seen ?d = dp_seen d1" by (cases a) simp_all
  note l = follows_call_submit[OF f c disc this]
  have w: "sr_window s1 = (sr_window (observe_once W item s))\<lparr>ws_submitting := True\<rparr>" using l(2) by (simp add: on_window_def)
  have o: "ws_outstanding (sr_window (observe_once W item s)) = ws_outstanding (sr_window s)"
    by (simp add: observe_once_def Let_def on_window_def)
  have out: "dp_out d1 = ws_outstanding (sr_window s)" using d1(2) r by (simp add: in_round_def windowed_def)
  show ?thesis
  proof (rule that[of ?d])
    show "follows p s1 ?d" by (rule l(1))
    show "shown s1 = shown s" using l(3) d1(6) by (simp add: on_window_def)
    show "length (dp_seen ?d) = ws_observed (sr_window s1)" using d1(1) w by (cases a) (simp_all add: in_round_def windowed_def)
    show "ws_outstanding (sr_window s1) < ws_observed (sr_window s1)" using d1(1,4) w by (simp add: in_round_def windowed_def)
  qed (use v w o out in \<open>cases a; simp\<close>)+
qed

lemma fill_turn_follows:
  assumes r: "in_round p head s d" and na: "\<not> dp_again d" and t: "fill_turn n W g head s = (res, s')"
  shows "\<exists>d'. fill_end p head res s' d'"
proof (cases "ws_outstanding (sr_window s) \<ge> window_limit W s")
  case True
  then have "res = Came (Some (Inr (Some Close_Full)))" "s' = s" using t by (simp_all add: fill_turn_def)
  moreover have "dp_out d > 0" using True r by (auto simp: in_round_def windowed_def window_limit_def)
  ultimately show ?thesis using r na by (intro exI[of _ d]) (simp add: fill_end_def in_round_def)
next
  case False
  obtain nx s1 where nx: "next_item n W g head s = (nx, s1)" by fastforce
  note k = next_item_peeks[OF in_round_ok[OF r] in_round_covered[OF r] _ _ nx]
  have k1: "peeks s s1" using r by (intro k(1)) (simp_all add: in_round_def)
  have r1: "in_round p head s1 d" by (rule in_round_peeks[OF r k1])
  have w1: "sr_window s1 = sr_window s" using k1 by (simp add: peeks_def)
  show ?thesis
  proof (cases nx)
    case (Came v)
    show ?thesis
    proof (cases v)
      case (Inl why)
      have "ws_outstanding (sr_window s) > 0" by (rule k(3)) (use r Came Inl in \<open>simp_all add: in_round_def\<close>)
      then show ?thesis using t False nx Came Inl r1 na w1 by (intro exI[of _ d]) (auto simp: fill_turn_def fill_end_def in_round_def windowed_def)
    next
      case (Inr item)
      have pos: "ws_outstanding (sr_window s1) < length (shown s1)" "shown s1 ! ws_outstanding (sr_window s1) = item"
        using k(2)[of item] r Came Inr w1 by (simp_all add: in_round_def)
      let ?s2 = "on_window (\<lambda>w. w\<lparr>ws_submitting := True\<rparr>) (observe_once W item s1)"
      obtain a s3 where a: "call_submit W g item ?s2 = (a, s3)" by fastforce
      from submit_turn[OF r1 na pos a] obtain d' where d': "follows p s3 d'" "\<not> dp_again d'" "shown s3 = shown s1" "length (dp_seen d') = ws_observed (sr_window s3)"
        "ws_outstanding (sr_window s3) = ws_outstanding (sr_window s1)" "ws_outstanding (sr_window s3) < ws_observed (sr_window s3)" "ws_submitting (sr_window s3)"
        "dp_out d' = ws_outstanding (sr_window s1) + (if a = Answer_Ok then 1 else 0)"
        "dp_verdict d' = (case a of Answer_Cut \<Rightarrow> Stopping (ws_outstanding (sr_window s1) + 1)
           | Answer_Err e \<Rightarrow> if ws_outstanding (sr_window s1) = 0 then faulted p e 1 else Undecided | Answer_Ok \<Rightarrow> Undecided)" .
      have hd1: "shown s1 \<noteq> []" "hd (shown s1) = head" using r1 by (simp_all add: in_round_def)
      let ?s4 = "on_window (\<lambda>w. w\<lparr>ws_submitting := False\<rparr>) s3"
      have f4: "follows p ?s4 d'" using d' by simp
      show ?thesis
      proof (cases a)
        case Answer_Ok
        let ?s5 = "join_window W (fst item) (wl_now W ?s2) ?s4"
        have e: "res = Came None" "s' = ?s5" using t False nx Came Inr a Answer_Ok by (simp_all add: fill_turn_def)
        note j = join_window_fields[where s = ?s4 and W = W and batch = "fst item" and t = "wl_now W ?s2"]
        note f5 = follows_same[OF f4 j(4)[OF follows_ok[OF f4]] j(5)]
        show ?thesis unfolding e
          by (intro exI[of _ d']) (use f5 j d' hd1 Answer_Ok in \<open>auto simp: fill_end_def windowed_def on_window_def\<close>)
      next
        case (Answer_Err e)
        have "s' = (if ws_outstanding (sr_window s1) = 0 then on_window (\<lambda>w. w\<lparr>ws_collecting := False, ws_at_fault := 1\<rparr>) ?s4 else ?s4)"
          "res = (if ws_outstanding (sr_window s1) = 0 then Came (Some (Inl e)) else Came (Some (Inr None)))"
          using t False nx Came Inr a Answer_Err by (simp_all add: fill_turn_def Let_def observe_once_def on_window_def split: if_splits)
        then show ?thesis using d' hd1 f4 Answer_Err
          by (intro exI[of _ d']) (auto simp: fill_end_def windowed_def on_window_def follows_def)
      next
        case Answer_Cut
        then have "res = Was_Cut" "s' = s3" using t False nx Came Inr a by (simp_all add: fill_turn_def)
        then show ?thesis using d' hd1 Answer_Cut
          by (intro exI[of _ d']) (auto simp: fill_end_def windowed_def left_the_process_def)
      qed
    qed
  qed (use t False nx r1 na in \<open>auto simp: fill_turn_def fill_end_def in_round_def\<close>)
qed

lemma fill_follows:
  "in_round p head s d \<Longrightarrow> \<not> dp_again d \<Longrightarrow> fill n W g head s = (r, s') \<Longrightarrow>
     \<exists>d'. fill_end p head (case r of Came v \<Rightarrow> Came (Some v) | Was_Cut \<Rightarrow> Was_Cut | Still_Running \<Rightarrow> Still_Running) s' d'"
proof (induction n arbitrary: s d)
  case 0
  then show ?case by (auto simp: fill_end_def in_round_def)
next
  case (Suc n)
  obtain t s1 where t: "fill_turn n W g head s = (t, s1)" by fastforce
  from fill_turn_follows[OF Suc.prems(1,2) t] obtain d1 where d1: "fill_end p head t s1 d1" by blast
  show ?case
  proof (cases "t = Came None")
    case True
    then have "in_round p head s1 d1" "\<not> dp_again d1" using d1 by (simp_all add: fill_end_def in_round_def)
    moreover have "fill n W g head s1 = (r, s')" using Suc.prems(3) t True by simp
    ultimately show ?thesis by (rule Suc.IH)
  next
    case False
    then have "s' = s1" "t = (case r of Came v \<Rightarrow> Came (Some v) | Was_Cut \<Rightarrow> Was_Cut | Still_Running \<Rightarrow> Still_Running)"
      using Suc.prems(3) t by (auto split: polled.splits option.splits)
    then show ?thesis using d1 by auto
  qed
qed

section \<open>A round\<close>

text \<open>How many batches behind the head a fault takes with it.\<close>

definition taken_along :: "('d, 'h, 'o) sink_run \<Rightarrow> send_error \<Rightarrow> nat" where
  "taken_along s e = (if \<not> is_head_only e \<and> classify e = Ambiguous then ws_at_fault (sr_window s) - 1 else 0)"

definition round_end ::
    "delivery_posture \<Rightarrow> ('d, 'h) store_item \<Rightarrow> send_error option polled \<Rightarrow> ('d, 'h, 'o) sink_run \<Rightarrow> ('d, 'h) store_item dispatch \<Rightarrow> bool" where
  "round_end p head r s d \<longleftrightarrow> follows p s d \<and> windowed s d \<and> shown s \<noteq> [] \<and> hd (shown s) = head \<and>
     (case r of
        Came None \<Rightarrow> dp_verdict d = Owed Settled_Delivered 1 \<and> dp_seen d \<noteq> [] \<and> \<not> ws_submitting (sr_window s)
      | Came (Some e) \<Rightarrow>
          dp_verdict d = faulted p e (Suc (taken_along s e)) \<and> Suc (taken_along s e) \<le> length (dp_seen d) \<and>
          (taken_along s e > 0 \<longrightarrow> dp_out d = 0) \<and> \<not> ws_submitting (sr_window s) \<and>
          (is_retryable (classify e) p \<longrightarrow> dp_again d = (is_head_only e \<and> dp_out d > 0))
      | Was_Cut \<Rightarrow> dp_verdict d = Undecided \<and> \<not> ws_submitting (sr_window s) \<or> dp_verdict d = Stopping (left_the_process (sr_window s))
      | Still_Running \<Rightarrow> True)"

text \<open>An answer about the head, to a submit or to the wait for its acknowledgment.\<close>

definition answered_state :: "send_error \<Rightarrow> (window_state \<Rightarrow> window_state) \<Rightarrow> window_state \<Rightarrow> window_state" where
  "answered_state e f w = (if is_head_only e then (f w)\<lparr>ws_at_fault := 1\<rparr> else cut_window (w\<lparr>ws_at_fault := ws_outstanding w\<rparr>))"

lemma answer_head_round:
  assumes f: "follows p s (answer_head p e d)" and w: "windowed s d" and h: "shown s \<noteq> []" "hd (shown s) = head"
    and out: "dp_out d > 0" "\<not> ws_submitting (sr_window s)"
    and same: "\<And>w. ws_outstanding (g w) = ws_outstanding w \<and> ws_observed (g w) = ws_observed w \<and> ws_submitting (g w) = ws_submitting w"
  shows "round_end p head (Came (Some e)) (on_window (answered_state e g) s) (answer_head p e d)"
  using assms
  by (cases "is_head_only e")
    (auto simp: round_end_def answer_head_def answered_state_def windowed_def on_window_def cut_window_def taken_along_def at_fault_def follows_def)

lemma resubmit_follows:
  assumes r: "in_round p head s d" and a: "dp_again d" "dp_out d > 0" and c: "resubmit W g head s = (r, s')"
  shows "case r of Came None \<Rightarrow> in_round p head s' (d\<lparr>dp_again := False\<rparr>) | _ \<Rightarrow> \<exists>d'. round_end p head r s' d'"
proof -
  obtain b s1 where b: "call_submit W g head s = (b, s1)" by fastforce
  let ?d = "case b of Answer_Ok \<Rightarrow> d\<lparr>dp_again := False\<rparr> | Answer_Err e \<Rightarrow> answer_head p e d | Answer_Cut \<Rightarrow> d\<lparr>dp_verdict := Stopping (dp_out d)\<rparr>"
  have seen: "dp_seen d \<noteq> []" using a r by (auto simp: in_round_def windowed_def)
  then have "hd (dp_seen d) = head" using r by (auto simp: in_round_def follows_def prefix_def)
  then have disc: "discipline p (Call_Submit head b) d = Some ?d" using r a seen by (simp add: in_round_def)
  have "dp_seen ?d = dp_seen d" by (cases b) (simp_all add: answer_head_def)
  have f: "follows p s d" using r by (simp add: in_round_def)
  note l = follows_call_submit[OF f b disc \<open>dp_seen ?d = dp_seen d\<close>]
  have w: "windowed s1 d" "shown s1 \<noteq> []" "hd (shown s1) = head" "\<not> ws_submitting (sr_window s1)"
    using l r by (simp_all add: in_round_def windowed_def)
  show ?thesis
  proof (cases b)
    case Answer_Ok
    then have "r = Came None" "follows p s' (d\<lparr>dp_again := False\<rparr>)" "shown s' = shown s1"
        "windowed s' (d\<lparr>dp_again := False\<rparr>)" "\<not> ws_submitting (sr_window s')"
      using c b l w by (auto simp: resubmit_def windowed_def on_window_def follows_def)
    then show ?thesis using r w by (simp add: in_round_def)
  next
    case (Answer_Err e)
    have "r = Came (Some e)" "s' = on_window (answered_state e (\<lambda>w. w)) s1"
      using c b Answer_Err by (cases "is_head_only e"; auto simp: resubmit_def answered_state_def on_window_def)+
    then show ?thesis using answer_head_round[of p s1 e d head "\<lambda>w. w"] l(1) w a Answer_Err by auto
  next
    case Answer_Cut
    then have "r = Was_Cut" "s' = s1" using c b by (simp_all add: resubmit_def)
    then show ?thesis using l(1) w Answer_Cut by (auto simp: round_end_def windowed_def left_the_process_def intro!: exI[of _ ?d])
  qed
qed

lemma await_head_follows:
  assumes r: "in_round p head s d" and a: "\<not> dp_again d" "dp_out d > 0" and c: "await_head W g s = (r, s')"
  shows "\<exists>d'. round_end p head r s' d'"
proof -
  obtain b s1 where b: "call_await W g s = (b, s1)" by fastforce
  let ?d = "case b of Answer_Ok \<Rightarrow> d\<lparr>dp_verdict := Owed Settled_Delivered 1\<rparr> | Answer_Err e \<Rightarrow> answer_head p e d | Answer_Cut \<Rightarrow> d\<lparr>dp_verdict := Stopping (dp_out d)\<rparr>"
  have disc: "discipline p (Call_Await b) d = Some ?d" using r a by (simp add: in_round_def)
  have "dp_seen ?d = dp_seen d" by (cases b) (simp_all add: answer_head_def)
  have f: "follows p s d" using r by (simp add: in_round_def)
  note l = follows_call_sink[OF f b[unfolded call_await_def] _ disc \<open>dp_seen ?d = dp_seen d\<close>, simplified]
  have w: "windowed s1 d" "shown s1 \<noteq> []" "hd (shown s1) = head" "\<not> ws_submitting (sr_window s1)" "dp_seen d \<noteq> []"
    using l r a by (auto simp: in_round_def windowed_def)
  let ?t = "if op_send_duration_per_batch (rn_ops W) (sr_output s1) then op_answered_send_duration (rn_ops W) (sr_output s1)
      else (case ws_submitted (sr_window s1) of [] \<Rightarrow> None | t # _ \<Rightarrow> Some (wl_now W s1 - t))"
  show ?thesis
  proof (cases b)
    case Answer_Ok
    then have "r = Came None" "s' = on_window (\<lambda>w. w\<lparr>ws_head_answered := ?t\<rparr>) s1" using c b by (simp_all add: await_head_def Let_def)
    then show ?thesis using l(1) w Answer_Ok by (auto simp: round_end_def windowed_def on_window_def follows_def intro!: exI[of _ ?d])
  next
    case (Answer_Err e)
    then have "r = Came (Some e)" "s' = on_window (answered_state e (\<lambda>w. w\<lparr>ws_head_answered := ?t\<rparr>)) s1"
      using c b by (cases "is_head_only e"; auto simp: await_head_def Let_def answered_state_def on_window_def)+
    then show ?thesis using answer_head_round[of p s1 e d head "\<lambda>w. w\<lparr>ws_head_answered := ?t\<rparr>"] l(1) w a Answer_Err by auto
  next
    case Answer_Cut
    then have "r = Was_Cut" "s' = s1" using c b by (simp_all add: await_head_def Let_def)
    then show ?thesis using l(1) w Answer_Cut by (auto simp: round_end_def windowed_def left_the_process_def intro!: exI[of _ ?d])
  qed
qed

text \<open>Steps that only note times and close a collecting window.\<close>

definition undisturbed :: "('d, 'h, 'o) sink_run \<Rightarrow> ('d, 'h, 'o) sink_run \<Rightarrow> bool" where
  "undisturbed s s' \<longleftrightarrow> keeps_shown (sr_store s) (sr_store s') \<and> calls (sr_log s') = calls (sr_log s) \<and>
     ws_outstanding (sr_window s') = ws_outstanding (sr_window s) \<and> ws_observed (sr_window s') = ws_observed (sr_window s) \<and>
     ws_submitting (sr_window s') = ws_submitting (sr_window s) \<and> ws_at_fault (sr_window s') = ws_at_fault (sr_window s)"

lemma calm_steady: "calm s s' \<Longrightarrow> undisturbed s s'"
  by (simp add: calm_def undisturbed_def)

lemma undisturbed_trans: "undisturbed s t \<Longrightarrow> undisturbed t u \<Longrightarrow> undisturbed s u"
  by (auto simp: undisturbed_def intro: keeps_shown_trans)

lemma in_round_steady: "in_round p head s d \<Longrightarrow> undisturbed s s' \<Longrightarrow> in_round p head s' d"
  by (auto simp: in_round_def undisturbed_def windowed_def follows_def keeps_shown_def)

lemma round_end_steady: "round_end p head r s d \<Longrightarrow> undisturbed s s' \<Longrightarrow> round_end p head r s' d"
  by (auto simp: round_end_def undisturbed_def windowed_def follows_def keeps_shown_def taken_along_def left_the_process_def
      split: polled.splits option.splits)

lemma round_end_ok: "round_end p head r s d \<Longrightarrow> sink_store_ok (sr_store s)"
  by (simp add: round_end_def follows_def)

lemma undisturbed_close_window: assumes "sink_store_ok (sr_store s)" shows "undisturbed s (close_window W why s)"
  using assms
  by (auto simp: undisturbed_def close_window_def Let_def set_limit_def on_window_def wl_emit_def store_quiet_keeps split: option.split)

lemma calm_time_round: "sink_store_ok (sr_store s) \<Longrightarrow> calm s (time_round W b t s)"
  by (auto simp: time_round_def calm_refl intro: calm_emit)

lemma undisturbed_note_answered: assumes "sink_store_ok (sr_store s)" shows "undisturbed s (note_answered W per_batch started s)"
proof -
  let ?s = "time_round W per_batch started s"
  note k = calm_time_round[OF assms, of W per_batch started]
  have "undisturbed ?s (note_answered W per_batch started s)" using calm_ok[OF k]
    by (auto simp: note_answered_def Let_def undisturbed_def limit_answered_def on_window_def wl_emit_def store_quiet_keeps split: option.split)
  with calm_steady[OF k] show ?thesis by (rule undisturbed_trans)
qed

lemma window_round_follows:
  assumes r: "in_round p head s d" and a: "dp_again d \<longleftrightarrow> rh \<and> dp_out d > 0" and c: "window_round n W g head rh s = (r, s')"
  shows "\<exists>d'. round_end p head r s' d'"
proof -
  have out: "ws_outstanding (sr_window s) = dp_out d" using r by (simp add: in_round_def windowed_def)
  obtain b s1 where b: "(if rh \<and> ws_outstanding (sr_window s) > 0 then resubmit W g head s else (Came None, s)) = (b, s1)" by fastforce
  have "case b of Came None \<Rightarrow> \<exists>d1. in_round p head s1 d1 \<and> \<not> dp_again d1 | _ \<Rightarrow> \<exists>d'. round_end p head b s1 d'"
  proof (cases "dp_again d")
    case True
    then have "resubmit W g head s = (b, s1)" using b a out by simp
    from resubmit_follows[OF r True _ this] True a show ?thesis by (fastforce split: polled.splits option.splits)
  next
    case False
    then have "b = Came None" "s1 = s" using b a out by (auto split: if_splits)
    then show ?thesis using r False by auto
  qed
  note first = this
  show ?thesis
  proof (cases "b = Came None")
    case True
    with first obtain d1 where d1: "in_round p head s1 d1" "\<not> dp_again d1" by auto
    obtain v s2 where v: "fill n W g head s1 = (v, s2)" by fastforce
    from fill_follows[OF d1 v] obtain d2 where
      d2: "fill_end p head (case v of Came v \<Rightarrow> Came (Some v) | Was_Cut \<Rightarrow> Was_Cut | Still_Running \<Rightarrow> Still_Running) s2 d2" by blast
    show ?thesis
    proof (cases "\<exists>why. v = Came (Inr why)")
      case vt: True
      then obtain why where why: "v = Came (Inr why)" by blast
      then have d3: "in_round p head s2 d2" "\<not> dp_again d2" "dp_out d2 > 0" using d2 by (simp_all add: fill_end_def in_round_def)
      have "in_round p head (close_window W why s2) d2" by (rule in_round_steady[OF d3(1) undisturbed_close_window[OF in_round_ok[OF d3(1)]]])
      moreover have "await_head W g (close_window W why s2) = (r, s')" using c v why True b by (simp add: window_round_def)
      ultimately show ?thesis using d3 by (rule_tac await_head_follows)
    next
      case False
      then have "s' = s2 \<and> round_end p head r s2 d2" using c v True b d2
        by (auto simp: window_round_def fill_end_def round_end_def taken_along_def Suc_le_eq split: polled.splits sum.splits)
      then show ?thesis by blast
    qed
  next
    case False
    then have "r = b" "s' = s1" using c b by (auto simp: window_round_def split: polled.splits option.splits)
    then show ?thesis using first False by (auto split: polled.splits option.splits)
  qed
qed

section \<open>Delivering a head through the window\<close>

definition window_verdict :: "delivery_posture \<Rightarrow> delivery polled \<Rightarrow> ('d, 'h, 'o) sink_run \<Rightarrow> ('d, 'h) store_item dispatch \<Rightarrow> bool" where
  "window_verdict p r s d \<longleftrightarrow>
     (case r of
        Came (Delivery_Dropped f e) \<Rightarrow>
          head_verdict p (Delivery_Dropped f e) (Suc (taken_along s e)) (dp_verdict d) \<and> Suc (taken_along s e) \<le> length (dp_seen d) \<and>
          (taken_along s e > 0 \<longrightarrow> dp_out d = 0) \<and> \<not> ws_submitting (sr_window s)
      | Came Delivery_Delivered \<Rightarrow> dp_verdict d = Owed Settled_Delivered 1 \<and> dp_seen d \<noteq> [] \<and> \<not> ws_submitting (sr_window s)
      | Came Delivery_Grace_Expired \<Rightarrow> dp_verdict d = Undecided
      | Was_Cut \<Rightarrow> dp_verdict d = Undecided \<and> \<not> ws_submitting (sr_window s) \<or> dp_verdict d = Stopping (left_the_process (sr_window s))
      | Still_Running \<Rightarrow> True)"

lemma deliver_window_follows:
  "in_round p head s d \<Longrightarrow> dp_again d = (rh \<and> dp_out d > 0) \<Longrightarrow> deliver_window n W g p head per_batch rh attempt s = (r, s') \<Longrightarrow>
     \<exists>d'. follows p s' d' \<and> windowed s' d' \<and> shown s' \<noteq> [] \<and> hd (shown s') = head \<and> window_verdict p r s' d'"
proof (induction n arbitrary: s d rh attempt)
  case 0
  then show ?case by (auto simp: in_round_def window_verdict_def)
next
  case (Suc n)
  show ?case
  proof (cases "\<not> owed_round W s \<and> grace_over W s")
    case True
    then show ?thesis using Suc.prems by (auto simp: in_round_def window_verdict_def)
  next
    case False
    obtain v s1 where v: "window_round n W g head rh s = (v, s1)" by fastforce
    from window_round_follows[OF Suc.prems(1,2) v] obtain d1 where d1: "round_end p head v s1 d1" by blast
    note ok1 = round_end_ok[OF d1]
    let ?s2 = "note_answered W per_batch (wl_now W s) s1"
    have d2: "round_end p head v ?s2 d1" by (rule round_end_steady[OF d1 undisturbed_note_answered[OF ok1]])
    show ?thesis
    proof (cases "\<exists>e. v = Came (Some e)")
      case True
      then obtain e where e: "v = Came (Some e)" by blast
      obtain fate s3 where t: "after_fault W p e ?s2 = (fate, s3)" by fastforce
      note k = after_fault_spec[OF round_end_ok[OF d2] t]
      have d3: "round_end p head v s3 d1" by (rule round_end_steady[OF d2 calm_steady[OF k(1)]])
      show ?thesis
      proof (cases "is_retryable (classify e) p")
        case True
        let ?s4 = "set_limit (window_limit W s3) 0 s3"
        obtain b s5 where b: "back_off W g (min (attempt + 1) U32_MAX) ?s4 = (b, s5)" by fastforce
        note c4 = calm_limit(1)[OF round_end_ok[OF d3], of "window_limit W s3" 0]
        note c5 = calm_trans[OF c4 calm_back_off[OF calm_ok[OF c4] b]]
        have d5: "round_end p head v s5 d1" by (rule round_end_steady[OF d3 calm_steady[OF c5]])
        then have r5: "in_round p head s5 d1" "dp_again d1 = (is_head_only e \<and> dp_out d1 > 0)"
          using e True by (simp_all add: round_end_def in_round_def faulted_def)
        have run: "(r, s') = (if b then (Was_Cut, s5) else deliver_window n W g p head per_batch (is_head_only e) (min (attempt + 1) U32_MAX) s5)"
          using Suc.prems(3) False v e t k(2) True b by (cases b) (simp_all add: Let_def)
        show ?thesis
        proof (cases b)
          case True
          then show ?thesis using run r5 by (auto simp: in_round_def window_verdict_def)
        next
          case False
          with run have "deliver_window n W g p head per_batch (is_head_only e) (min (attempt + 1) U32_MAX) s5 = (r, s')" by simp
          from Suc.IH[OF r5 this] show ?thesis .
        qed
      next
        case nr: False
        then have "r = Came (Delivery_Dropped (classify e) e)" "s' = s3" using Suc.prems(3) False v e t k(2) by (simp_all add: Let_def)
        then show ?thesis using d3 e nr by (auto simp: round_end_def window_verdict_def faulted_def)
      qed
    next
      case ne: False
      show ?thesis
      proof (cases v)
        case (Came x)
        then have "r = Came Delivery_Delivered" "s' = ?s2" "v = Came None"
          using Suc.prems(3) False v ne by (auto simp: Let_def split: option.splits)
        then show ?thesis using d2 by (auto simp: round_end_def window_verdict_def)
      next
        case Was_Cut
        then have "r = Was_Cut" "s' = time_round W per_batch (wl_now W s) s1" using Suc.prems(3) False v by (simp_all add: Let_def)
        moreover have "round_end p head v (time_round W per_batch (wl_now W s) s1) d1"
          by (rule round_end_steady[OF d1 calm_steady[OF calm_time_round[OF ok1]]])
        ultimately show ?thesis using Was_Cut by (auto simp: round_end_def window_verdict_def)
      next
        case Still_Running
        then have "r = Still_Running" "s' = s1" using Suc.prems(3) False v by (simp_all add: Let_def)
        then show ?thesis using d1 by (auto simp: round_end_def window_verdict_def)
      qed
    qed
  qed
qed

end
