(* ===== verification/Delivery_Run.thy ===== *)
theory Delivery_Run
  imports Delivery_Window
begin

text \<open>
  Every run of \<open>write_loop\<close> follows the delivery discipline, over either store and whatever the sink
  answers; and what that means for the batches: observed once and in order, committed in that order,
  as delivered only on the sink's word, and under at-most-once never attempted again once the outcome
  is unknown.
\<close>

section \<open>The automaton's own invariant\<close>

definition dispatch_ok :: "'i dispatch \<Rightarrow> bool" where
  "dispatch_ok d \<longleftrightarrow> dp_out d \<le> length (dp_seen d) \<and> (dp_again d \<longrightarrow> dp_out d > 0) \<and>
     (case dp_verdict d of Undecided \<Rightarrow> True | Owed why n \<Rightarrow> 1 \<le> n \<and> n \<le> length (dp_seen d) | Stopping n \<Rightarrow> n \<le> length (dp_seen d))"

lemma discipline_ok:
  assumes "dispatch_ok d" and "discipline p c d = Some d'" shows "dispatch_ok d'"
proof (cases c)
  case (Call_Submit x a)
  then show ?thesis using assms
    by (cases a) (auto simp: dispatch_ok_def faulted_def answer_head_def at_fault_def Suc_le_eq split: if_splits)
next
  case (Call_Await a)
  then show ?thesis using assms
    by (cases a) (auto simp: dispatch_ok_def faulted_def answer_head_def at_fault_def Suc_le_eq split: if_splits)
next
  case (Call_Commit x why)
  then show ?thesis using assms
    by (cases "dp_verdict d") (auto simp: dispatch_ok_def split: if_splits)
qed (use assms in \<open>auto simp: dispatch_ok_def faulted_def split: if_splits answer.splits\<close>)

lemma discipline_run_ok: "dispatch_ok d \<Longrightarrow> discipline_run p cs d = Some d' \<Longrightarrow> dispatch_ok d'"
  by (induction cs arbitrary: d) (auto split: option.splits intro: discipline_ok)

lemma follows_dispatch_ok: "follows p s d \<Longrightarrow> dispatch_ok d"
  unfolding follows_def by (rule discipline_run_ok[of dispatch_start]) (auto simp: dispatch_ok_def dispatch_start_def)

section \<open>Settling\<close>

lemma commit_many_owed:
  "follows p s d \<Longrightarrow> dp_verdict d = Owed why n \<Longrightarrow> k \<le> n \<Longrightarrow> k \<le> length (dp_seen d) \<Longrightarrow> 0 < n \<Longrightarrow> commit_many k W why s = (items, s') \<Longrightarrow>
     \<exists>d'. follows p s' d' \<and> dp_seen d' = drop k (dp_seen d) \<and> dp_out d' = dp_out d - k \<and>
       dp_verdict d' = (if k = n then Undecided else Owed why (n - k)) \<and> dp_again d' = (k = 0 \<and> dp_again d) \<and>
       sr_window s' = sr_window s \<and> sr_sending s' = sr_sending s"
proof (induction k arbitrary: s d n items s')
  case (Suc k)
  let ?d = "d\<lparr>dp_seen := tl (dp_seen d), dp_out := dp_out d - 1, dp_again := False, dp_verdict := if n = 1 then Undecided else Owed why (n - 1)\<rparr>"
  have ne: "dp_seen d \<noteq> []" using Suc.prems by auto
  obtain r s1 where c: "commit_as W why s = (r, s1)" by fastforce
  have "discipline p (Call_Commit (Some (hd (dp_seen d))) why) d = Some ?d" using Suc.prems ne by simp
  note l = follows_commit[OF Suc.prems(1) ne c this]
  obtain items1 where m: "commit_many k W why s1 = (items1, s')" using Suc.prems(6) c by (auto split: prod.splits)
  show ?case
  proof (cases k)
    case 0
    then have "s' = s1" using m by simp
    then show ?thesis using l 0 ne by (intro exI[of _ ?d]) (auto simp: drop_Suc)
  next
    case (Suc j)
    then have "dp_verdict ?d = Owed why (n - 1)" "k \<le> n - 1" "k \<le> length (dp_seen ?d)" "0 < n - 1" using Suc.prems by auto
    from Suc.IH[OF l(1) this m] l show ?thesis using Suc.prems(3) \<open>k = Suc j\<close> by (auto simp: drop_Suc)
  qed
qed auto

lemma commit_many_stopping:
  "follows At_Most_Once s d \<Longrightarrow> dp_verdict d = Stopping n \<Longrightarrow> k \<le> n \<Longrightarrow> commit_many k W Settled_Shutdown s = (items, s') \<Longrightarrow>
     \<exists>d'. follows At_Most_Once s' d'"
proof (induction k arbitrary: s d n items s')
  case (Suc k)
  let ?d = "d\<lparr>dp_seen := tl (dp_seen d), dp_out := dp_out d - 1, dp_again := False, dp_verdict := Stopping (n - 1)\<rparr>"
  have ne: "dp_seen d \<noteq> []" using follows_dispatch_ok[OF Suc.prems(1)] Suc.prems by (auto simp: dispatch_ok_def)
  obtain r s1 where c: "commit_as W Settled_Shutdown s = (r, s1)" by fastforce
  have "discipline At_Most_Once (Call_Commit (Some (hd (dp_seen d))) Settled_Shutdown) d = Some ?d" using Suc.prems ne by simp
  note l = follows_commit[OF Suc.prems(1) ne c this]
  obtain items1 where m: "commit_many k W Settled_Shutdown s1 = (items1, s')" using Suc.prems(4) c by (auto split: prod.splits)
  from Suc.IH[OF l(1) _ _ m] Suc.prems show ?case by auto
qed auto

text \<open>At shutdown: what may have reached the destination is given up, under at-most-once only.\<close>

lemma follows_emit: "follows p s d \<Longrightarrow> calls xs = [] \<Longrightarrow> follows p (wl_emit xs s) d"
  by (simp add: follows_def wl_emit_def)

lemma drop_cut_off_follows:
  assumes f: "follows p s d" and n: "dp_verdict d = Undecided \<and> n \<le> dp_out d \<or> dp_verdict d = Stopping m \<and> n \<le> m"
  shows "\<exists>d'. follows p (drop_cut_off_at_shutdown W p n s) d'"
proof (cases "n = 0 \<or> is_retryable Ambiguous p")
  case True
  then show ?thesis using f by (auto simp: drop_cut_off_at_shutdown_def)
next
  case False
  then have p: "p = At_Most_Once" by (cases p) auto
  obtain items s1 where c: "commit_many n W Settled_Shutdown s = (items, s1)" by fastforce
  have "\<exists>d'. follows p s1 d'"
  proof (cases "dp_verdict d = Undecided")
    case True
    from False obtain k where k: "n = Suc k" by (cases n) auto
    let ?d = "d\<lparr>dp_seen := tl (dp_seen d), dp_out := dp_out d - 1, dp_again := False, dp_verdict := Stopping (dp_out d - 1)\<rparr>"
    have le: "n \<le> dp_out d" using n True by simp
    have ne: "dp_seen d \<noteq> []" using follows_dispatch_ok[OF f] le k by (auto simp: dispatch_ok_def)
    obtain r s2 where c2: "commit_as W Settled_Shutdown s = (r, s2)" by fastforce
    have "discipline p (Call_Commit (Some (hd (dp_seen d))) Settled_Shutdown) d = Some ?d" using True ne p le k by simp
    note l = follows_commit[OF f ne c2 this]
    obtain items2 where m: "commit_many k W Settled_Shutdown s2 = (items2, s1)" using c c2 k by (auto split: prod.splits)
    from commit_many_stopping[OF l(1)[unfolded p] _ _ m] le k p show ?thesis by simp
  next
    case False
    then show ?thesis using commit_many_stopping[OF _ _ _ c] f n p by blast
  qed
  then obtain d' where "follows p s1 d'" ..
  then have "follows p (count_shutdown_drop (length items) (events_of items) s1) d'" by (simp add: count_shutdown_drop_def follows_def wl_emit_def)
  then have "follows p (drop_cut_off_at_shutdown W p n s) d'" using False c by (auto simp: drop_cut_off_at_shutdown_def Let_def intro: follows_emit)
  then show ?thesis ..
qed

text \<open>Between two heads.\<close>

definition between :: "delivery_posture \<Rightarrow> ('d, 'h, 'o) sink_run \<Rightarrow> ('d, 'h) store_item dispatch \<Rightarrow> bool" where
  "between p s d \<longleftrightarrow> follows p s d \<and> windowed s d \<and> \<not> ws_submitting (sr_window s) \<and> dp_verdict d = Undecided \<and> \<not> dp_again d"

lemma between_calm: "between p s d \<Longrightarrow> calm s s' \<Longrightarrow> between p s' d"
  using follows_calm[of p s d s'] by (auto simp: between_def calm_def windowed_def)

lemma settle_delivered_between:
  assumes f: "follows p s d" and v: "dp_verdict d = Owed Settled_Delivered 1" "dp_seen d \<noteq> []" "\<not> ws_submitting (sr_window s)"
    and w: "windowed s d \<or> length (dp_seen d) = 1 \<and> dp_out d = 0 \<and> ws_observed (sr_window s) = 0 \<and> ws_outstanding (sr_window s) = 0"
  shows "\<exists>d'. between p (settle_delivered W item s) d'"
proof -
  let ?d = "d\<lparr>dp_seen := tl (dp_seen d), dp_out := dp_out d - 1, dp_again := False, dp_verdict := Undecided\<rparr>"
  obtain r s1 where c: "commit_as W Settled_Delivered s = (r, s1)" by fastforce
  have "discipline p (Call_Commit (Some (hd (dp_seen d))) Settled_Delivered) d = Some ?d" using v by simp
  note l = follows_commit[OF f v(2) c this]
  let ?s2 = "on_window (\<lambda>w. lower_observed (settle_head w)) s1"
  have b2: "between p ?s2 ?d" using l v w
    by (auto simp: between_def windowed_def on_window_def lower_observed_def settle_head_def follows_def)
  define s3 where "s3 = wl_emit [Wl_Count ''logit.component.batches.delivered'' 1 [], Wl_Count ''logit.component.events.delivered'' (length (b_events (fst item))) []] ?s2"
  define s4 where "s4 = (if sr_degraded s3 \<or> is_retrying s3 then wl_emit [Wl_Line ''recovered''] (s3\<lparr>sr_degraded := False\<rparr>) else s3)"
  have k: "calm ?s2 s4" using b2 by (auto simp: s4_def s3_def calm_def wl_emit_def between_def follows_def)
  have "settle_delivered W item s = retry_settle s4" by (simp add: settle_delivered_def c s3_def s4_def Let_def)
  then show ?thesis using between_calm[OF b2 calm_trans[OF k calm_retry(2)[OF calm_ok[OF k]]]] by auto
qed

lemma settle_head_fields [simp]:
  "ws_at_fault (settle_head w) = ws_at_fault w" "ws_outstanding (settle_head w) = ws_outstanding w - 1"
  "ws_observed (settle_head w) = ws_observed w" "ws_submitting (settle_head w) = ws_submitting w"
  by (simp_all add: settle_head_def)

lemma lower_observed_fields [simp]:
  "ws_observed ((lower_observed ^^ n) w) = ws_observed w - n" "ws_outstanding ((lower_observed ^^ n) w) = ws_outstanding w"
  "ws_submitting ((lower_observed ^^ n) w) = ws_submitting w"
  by (induction n) (simp_all add: lower_observed_def)

lemma settle_dropped_between:
  assumes f: "follows p s d" and h: "head_verdict p (Delivery_Dropped fault e) (Suc more_out) (dp_verdict d)" "dp_seen d \<noteq> []"
    and sub: "\<not> ws_submitting (sr_window s)" and out: "more_out > 0 \<longrightarrow> dp_out d = 0"
    and w: "if fast then length (dp_seen d) = 1 \<and> dp_out d = 0 \<and> ws_observed (sr_window s) = 0 \<and> ws_outstanding (sr_window s) = 0 \<and> more_out = 0
      else windowed s d \<and> more_out = taken_along s e"
  shows "\<exists>d'. between p (settle_dropped W p item fast fault e s) d'"
proof -
  let ?why = "Settled_Dropped fault"
  define s1 where "s1 = on_window settle_head (retry_settle s)"
  have c: "calm s (retry_settle s)" by (rule calm_retry(2)[OF follows_ok[OF f]])
  have f1: "follows p s1 d" unfolding s1_def using follows_calm[OF f c] by simp
  have w1: "sr_window s1 = settle_head (sr_window s)" using c by (simp add: s1_def on_window_def calm_def)
  have more_out: "(if \<not> fast \<and> \<not> is_head_only e \<and> fault = Ambiguous \<and> \<not> is_retryable fault p then ws_at_fault (sr_window s1) - 1 else 0) = more_out"
    using w h(1) w1 by (auto simp: taken_along_def split: if_splits)
  let ?d = "d\<lparr>dp_seen := tl (dp_seen d), dp_out := dp_out d - 1, dp_again := False, dp_verdict := if more_out = 0 then Undecided else Owed ?why more_out\<rparr>"
  obtain r s2 where k2: "commit_as W ?why s1 = (r, s2)" by fastforce
  have "discipline p (Call_Commit (Some (hd (dp_seen d))) ?why) d = Some ?d" using h by simp
  note l = follows_commit[OF f1 h(2) k2 this]
  let ?s3 = "on_window lower_observed s2"
  obtain others s4 where k4: "commit_many more_out W ?why ?s3 = (others, s4)" by fastforce
  have f3: "follows p ?s3 ?d" using l(1) by simp
  have "more_out \<le> length (dp_seen ?d)" using follows_dispatch_ok[OF f] h by (auto simp: dispatch_ok_def)
  then have "\<exists>d4. follows p s4 d4 \<and> dp_seen d4 = drop more_out (tl (dp_seen d)) \<and> dp_out d4 = dp_out d - 1 - more_out \<and> dp_verdict d4 = Undecided \<and>
      \<not> dp_again d4 \<and> sr_window s4 = sr_window ?s3"
    using commit_many_owed[OF f3, of ?why more_out more_out W others s4] k4 f3 by (cases "more_out = 0") auto
  then obtain d4 where d4: "follows p s4 d4" "dp_seen d4 = drop more_out (tl (dp_seen d))" "dp_out d4 = dp_out d - 1 - more_out" "dp_verdict d4 = Undecided"
      "\<not> dp_again d4" "sr_window s4 = sr_window ?s3" by blast
  let ?s5 = "on_window (lower_observed ^^ more_out) s4"
  have w5: "sr_window ?s5 = (lower_observed ^^ more_out) (lower_observed (settle_head (sr_window s)))" using d4(6) l(3) w1 by (simp add: on_window_def)
  have b5: "between p ?s5 d4" unfolding between_def windowed_def w5 using d4 w sub out
    by (auto simp: windowed_def lower_observed_def split: if_splits)
  have "calm ?s5 (settle_dropped W p item fast fault e s)" using b5 k2 k4
    by (simp add: settle_dropped_def Let_def s1_def[symmetric] more_out calm_def wl_emit_def between_def follows_def)
  from between_calm[OF b5 this] show ?thesis ..
qed

section \<open>The loop\<close>

text \<open>
  The sink's promise at shutdown: of the batches that left the process, at most those reached the
  destination.
\<close>

definition reaches_at_most :: "('d, 'h, 'o) output_ops \<Rightarrow> bool" where
  "reaches_at_most ops \<longleftrightarrow> (\<forall>n out. op_reached_destination ops n out \<le> n)"

lemma cut_off_follows:
  assumes "reaches_at_most (rn_ops W)" and "follows p s d"
    and "dp_verdict d = Undecided \<and> n \<le> dp_out d \<or> dp_verdict d = Stopping m \<and> n \<le> m"
  shows "\<exists>d'. follows p (cut_off_at W p n s) d'"
proof -
  have "op_reached_destination (rn_ops W) n (sr_output s) \<le> n" using assms(1) by (simp add: reaches_at_most_def)
  then show ?thesis unfolding cut_off_at_def using assms(3) by (intro drop_cut_off_follows[OF assms(2), where m = m]) linarith
qed

definition head_end :: "delivery_posture \<Rightarrow> bool polled \<Rightarrow> ('d, 'h, 'o) sink_run \<Rightarrow> bool" where
  "head_end p r s \<longleftrightarrow> (\<exists>d. if r = Came True then between p s d else follows p s d)"

lemma head_end_follows: "head_end p r s \<Longrightarrow> \<exists>d. follows p s d"
  by (auto simp: head_end_def between_def split: if_splits)

lemma head_turn_send:
  assumes R: "reaches_at_most (rn_ops W)" and b: "between p s d" and h: "shown s \<noteq> []" "hd (shown s) = item"
    and fast: "takes_send W (s\<lparr>sr_sending := False\<rparr>)" and t: "head_turn n W g p item s = (r, s')"
  shows "head_end p r s'"
proof -
  let ?s = "s\<lparr>sr_sending := False\<rparr>"
  have w: "ws_outstanding (sr_window s) = 0" "ws_observed (sr_window s) = 0" "dp_seen d = []" "dp_out d = 0" "dp_verdict d = Undecided"
    using fast b by (auto simp: takes_send_def between_def windowed_def)
  let ?d = "d\<lparr>dp_seen := [item]\<rparr>"
  have f: "follows p (observe W item ?s) ?d"
    using follows_observe[of p ?s d item W] b h w by (simp add: between_def hd_conv_nth)
  obtain v s1 where v: "deliver_with_retry n W p item 0 (observe W item ?s) = (v, s1)" by fastforce
  from deliver_with_retry_follows[OF f _ _ _ _ v] w obtain d1 where d1: "follows p s1 d1" "dp_seen d1 = [item]" "dp_out d1 = 0"
    "sr_window s1 = sr_window s" "send_verdict p v (sr_sending s1) (dp_verdict d1)" by auto
  have nosub: "\<not> ws_submitting (sr_window s1)" using b d1(4) by (simp add: between_def)
  have run: "head_turn n W g p item s = (case (v, s1) of
        (Came Delivery_Delivered, s) \<Rightarrow> (Came True, settle_delivered W item s)
      | (Came (Delivery_Dropped fault e), s) \<Rightarrow> (Came True, settle_dropped W p item True fault e s)
      | (Came Delivery_Grace_Expired, s) \<Rightarrow> (Came False, cut_off_at W p (ws_outstanding (sr_window s)) s)
      | (Was_Cut, s) \<Rightarrow> (Came False, cut_off_at W p (if sr_sending s then 1 else 0) s)
      | (Still_Running, s) \<Rightarrow> (Still_Running, s))"
    using fast v by (simp add: head_turn_def deliver_head_def Let_def split: polled.split delivery.split)
  show ?thesis
  proof (cases v)
    case (Came x)
    show ?thesis
    proof (cases x)
      case Delivery_Delivered
      then show ?thesis using settle_delivered_between[OF d1(1), of W item] t run Came d1 w nosub
        by (auto simp: head_end_def send_verdict_def)
    next
      case (Delivery_Dropped fault e)
      have "\<exists>d'. between p (settle_dropped W p item True fault e s1) d'"
        by (rule settle_dropped_between[OF d1(1), of fault e 0]) (use Came Delivery_Dropped d1 w nosub in \<open>auto simp: send_verdict_def\<close>)
      then show ?thesis using t run Came Delivery_Dropped by (auto simp: head_end_def)
    next
      case Delivery_Grace_Expired
      then show ?thesis using cut_off_follows[OF R d1(1), of 0] t run Came d1 w by (auto simp: head_end_def send_verdict_def)
    qed
  next
    case Was_Cut
    have "\<exists>d'. follows p (cut_off_at W p (if sr_sending s1 then 1 else 0) s1) d'"
      by (rule cut_off_follows[OF R d1(1), where m = 1]) (use d1 Was_Cut in \<open>auto simp: send_verdict_def\<close>)
    then show ?thesis using t run Was_Cut by (auto simp: head_end_def)
  next
    case Still_Running
    then show ?thesis using t run d1(1) by (auto simp: head_end_def)
  qed
qed

lemma head_turn_window:
  assumes R: "reaches_at_most (rn_ops W)" and b: "between p s d" and h: "shown s \<noteq> []" "hd (shown s) = item"
    and fast: "\<not> takes_send W (s\<lparr>sr_sending := False\<rparr>)" and t: "head_turn n W g p item s = (r, s')"
  shows "head_end p r s'"
proof -
  let ?s = "s\<lparr>sr_sending := False\<rparr>"
  have r0: "in_round p item ?s d" using b h by (simp add: between_def in_round_def windowed_def)
  obtain v s1 where v: "deliver_window n W g p item (op_send_duration_per_batch (rn_ops W) (sr_output ?s)) False 0 ?s = (v, s1)" by fastforce
  from deliver_window_follows[OF r0 _ v] b obtain d1 where d1: "follows p s1 d1" "windowed s1 d1" "window_verdict p v s1 d1"
    by (auto simp: between_def)
  have run: "head_turn n W g p item s = (case (v, s1) of
        (Came Delivery_Delivered, s) \<Rightarrow> (Came True, settle_delivered W item s)
      | (Came (Delivery_Dropped fault e), s) \<Rightarrow> (Came True, settle_dropped W p item False fault e s)
      | (Came Delivery_Grace_Expired, s) \<Rightarrow> (Came False, cut_off_at W p (ws_outstanding (sr_window s)) s)
      | (Was_Cut, s) \<Rightarrow> (Came False, cut_off_at W p (left_the_process (sr_window s)) s)
      | (Still_Running, s) \<Rightarrow> (Still_Running, s))"
    using fast v by (simp add: head_turn_def deliver_head_def Let_def split: polled.split delivery.split)
  show ?thesis
  proof (cases v)
    case (Came x)
    show ?thesis
    proof (cases x)
      case Delivery_Delivered
      then show ?thesis using settle_delivered_between[OF d1(1), of W item] t run Came d1
        by (auto simp: head_end_def window_verdict_def)
    next
      case (Delivery_Dropped fault e)
      have "\<exists>d'. between p (settle_dropped W p item False fault e s1) d'"
        by (rule settle_dropped_between[OF d1(1), of fault e "taken_along s1 e"])
          (use Came Delivery_Dropped d1 in \<open>auto simp: window_verdict_def\<close>)
      then show ?thesis using t run Came Delivery_Dropped by (auto simp: head_end_def)
    next
      case Delivery_Grace_Expired
      then show ?thesis using cut_off_follows[OF R d1(1), of "ws_outstanding (sr_window s1)"] t run Came d1
        by (auto simp: head_end_def window_verdict_def windowed_def)
    qed
  next
    case Was_Cut
    have "\<exists>d'. follows p (cut_off_at W p (left_the_process (sr_window s1)) s1) d'"
      by (rule cut_off_follows[OF R d1(1), where m = "left_the_process (sr_window s1)"])
        (use d1 Was_Cut in \<open>auto simp: window_verdict_def windowed_def left_the_process_def\<close>)
    then show ?thesis using t run Was_Cut by (auto simp: head_end_def)
  next
    case Still_Running
    then show ?thesis using t run d1(1) by (auto simp: head_end_def)
  qed
qed

lemma loop_turn_follows:
  assumes R: "reaches_at_most (rn_ops W)" and b: "between p s d" and t: "loop_turn n W p s = (r, s')"
  shows "head_end p r s'"
proof -
  let ?g = "\<not> owed_round W s"
  obtain c s1 where c: "pend W ?g s = (c, s1)" by fastforce
  have b1: "between p s1 d" by (rule between_calm[OF b calm_pend[OF _ c]]) (use b in \<open>simp add: between_def follows_def\<close>)
  show ?thesis
  proof (cases c)
    case True
    then show ?thesis using cut_off_follows[OF R, of p s1 d "ws_outstanding (sr_window s1)"] b1 t c
      by (auto simp: loop_turn_def head_end_def between_def windowed_def)
  next
    case False
    obtain pk st where pk: "store_peek (rn_store W) (sr_store s1) = (pk, st)" by fastforce
    have ok1: "sink_store_ok (sr_store s1)" using b1 by (simp add: between_def follows_def)
    note l = sink_store.peek_law[OF ok1 pk]
    let ?s2 = "s1\<lparr>sr_store := st\<rparr>"
    have b2: "between p ?s2 d" using b1 l follows_shown[of p s1 d st] by (simp add: between_def windowed_def)
    show ?thesis
    proof (cases pk)
      case (Taken item)
      have "head_turn n W ?g p item ?s2 = (r, s')" using t c False pk Taken by (simp add: loop_turn_def)
      moreover have "shown ?s2 \<noteq> []" "hd (shown ?s2) = item" using l Taken by simp_all
      ultimately show ?thesis using head_turn_send[OF R b2] head_turn_window[OF R b2] by blast
    qed (use t c False pk b2 in \<open>auto simp: loop_turn_def head_end_def between_def\<close>)
  qed
qed

lemma loop_turns_follow:
  "reaches_at_most (rn_ops W) \<Longrightarrow> between p s d \<Longrightarrow> loop_turns n W p s = (r, s') \<Longrightarrow> \<exists>d'. follows p s' d'"
proof (induction n arbitrary: s d)
  case (Suc n)
  obtain v s1 where v: "loop_turn n W p s = (v, s1)" by fastforce
  note h = loop_turn_follows[OF Suc.prems(1,2) v]
  show ?case
  proof (cases "v = Came True")
    case True
    then obtain d1 where "between p s1 d1" using h by (auto simp: head_end_def)
    moreover have "loop_turns n W p s1 = (r, s')" using Suc.prems(3) v True by simp
    ultimately show ?thesis using Suc.IH[OF Suc.prems(1)] by blast
  next
    case False
    then have "s' = s1" using Suc.prems(3) v by (auto split: polled.splits bool.splits)
    then show ?thesis using head_end_follows[OF h] by simp
  qed
qed (auto simp: between_def)

lemma write_loop_follows:
  assumes R: "reaches_at_most (rn_ops W)" and ok: "sink_store_ok st" and w: "write_loop n W (sink_start out st) = (r, s)"
  shows "\<exists>d. follows (resolve_posture W out) s d"
proof -
  let ?p = "resolve_posture W out"
  let ?s = "(sink_start out st)\<lparr>sr_output := op_observe_posture (rn_ops W) ?p out\<rparr>"
  obtain v s1 where v: "loop_turns n W ?p ?s = (v, s1)" by fastforce
  have "between ?p ?s dispatch_start" using ok
    by (simp add: between_def follows_def windowed_def sink_start_def window_default_def dispatch_start_def)
  from loop_turns_follow[OF R this v] obtain d where d: "follows ?p s1 d" ..
  have "s = (if v = Still_Running then s1 else retry_settle s1)" using w v by (auto simp: write_loop_def sink_start_def)
  then show ?thesis using d follows_calm[OF d calm_retry(2)[OF follows_ok[OF d]]] by (auto split: if_splits)
qed

lemma opened_store_ok: "store_open T config = Inr st \<Longrightarrow> sink_store_ok st"
  by (auto simp: store_open_def sink_queue_new_def with_metrics_def buffer_new_def queue_ok_def buffer_ok_def into_queue_config_def
      split: store_config.splits sum.splits)

section \<open>What the discipline means\<close>

fun observes :: "'i call \<Rightarrow> 'i list" where
  "observes (Call_Observe x) = [x]"
| "observes _ = []"

fun settles :: "'i call \<Rightarrow> 'i list" where
  "settles (Call_Commit (Some x) why) = [x]"
| "settles _ = []"

fun attempts :: "'i call \<Rightarrow> 'i list" where
  "attempts (Call_Send x a) = [x]"
| "attempts (Call_Submit x a) = [x]"
| "attempts _ = []"

abbreviation observed :: "'i call list \<Rightarrow> 'i list" where "observed cs \<equiv> concat (map observes cs)"

abbreviation committed :: "'i call list \<Rightarrow> 'i list" where "committed cs \<equiv> concat (map settles cs)"

abbreviation attempted :: "'i call list \<Rightarrow> 'i list" where "attempted cs \<equiv> concat (map attempts cs)"

text \<open>What was observed is what was committed, in order, and what is still in hand.\<close>

lemma discipline_step_keeps:
  assumes "discipline p c d = Some d'" shows "dp_seen d @ observes c = settles c @ dp_seen d'"
proof (cases c)
  case (Call_Submit x a)
  then show ?thesis using assms by (cases a) (auto simp: answer_head_def split: if_splits)
next
  case (Call_Await a)
  then show ?thesis using assms by (cases a) (auto simp: answer_head_def split: if_splits)
qed (use assms in \<open>auto split: if_splits verdict.splits\<close>)

lemma discipline_run_keeps: "discipline_run p cs d = Some d' \<Longrightarrow> dp_seen d @ observed cs = committed cs @ dp_seen d'"
proof (induction cs arbitrary: d)
  case (Cons c cs)
  then obtain d1 where d1: "discipline p c d = Some d1" "discipline_run p cs d1 = Some d'" by (auto split: option.splits)
  show ?case using discipline_step_keeps[OF d1(1)] Cons.IH[OF d1(2)] by simp (metis append_assoc)
qed simp

text \<open>A batch leaves as delivered only on the sink's word, and is dropped only as the posture allows.\<close>

definition word_for :: "'i call list \<Rightarrow> 'i \<Rightarrow> bool" where
  "word_for cs x \<longleftrightarrow> cs \<noteq> [] \<and> (last cs = Call_Send x Answer_Ok \<or> last cs = Call_Await Answer_Ok)"

text \<open>A verdict of delivery stands right after the answer that gave it.\<close>

definition spoken :: "delivery_posture \<Rightarrow> 'i call list \<Rightarrow> 'i dispatch \<Rightarrow> bool" where
  "spoken p cs d \<longleftrightarrow>
     (case dp_verdict d of
        Owed why n \<Rightarrow>
          (case why of
             Settled_Delivered \<Rightarrow> n = 1 \<and> (dp_seen d \<noteq> [] \<longrightarrow> word_for cs (hd (dp_seen d)))
           | Settled_Dropped f \<Rightarrow> \<not> is_retryable f p
           | Settled_Shutdown \<Rightarrow> False)
      | _ \<Rightarrow> True)"

text \<open>Every commit among the calls was due.\<close>

definition commits_due :: "delivery_posture \<Rightarrow> 'i call list \<Rightarrow> bool" where
  "commits_due p cs \<longleftrightarrow>
     (\<forall>before x why after. cs = before @ Call_Commit x why # after \<longrightarrow>
        (case why of
           Settled_Delivered \<Rightarrow> \<exists>y. x = Some y \<and> word_for before y
         | Settled_Dropped f \<Rightarrow> \<not> is_retryable f p
         | Settled_Shutdown \<Rightarrow> p = At_Most_Once))"

lemma commits_due_snoc:
  assumes "commits_due p cs" and "\<And>x why. c = Call_Commit x why \<Longrightarrow>
      (case why of Settled_Delivered \<Rightarrow> \<exists>y. x = Some y \<and> word_for cs y | Settled_Dropped f \<Rightarrow> \<not> is_retryable f p | Settled_Shutdown \<Rightarrow> p = At_Most_Once)"
  shows "commits_due p (cs @ [c])"
  unfolding commits_due_def
proof (intro allI impI)
  fix before x why after
  assume eq: "cs @ [c] = before @ Call_Commit x why # after"
  show "case why of Settled_Delivered \<Rightarrow> \<exists>y. x = Some y \<and> word_for before y | Settled_Dropped f \<Rightarrow> \<not> is_retryable f p | Settled_Shutdown \<Rightarrow> p = At_Most_Once"
  proof (cases after rule: rev_cases)
    case Nil
    then show ?thesis using eq assms(2)[of x why] by auto
  next
    case (snoc ys y)
    then have "cs = before @ Call_Commit x why # ys" using eq by simp
    then show ?thesis using assms(1) by (simp add: commits_due_def)
  qed
qed

lemma discipline_spoken:
  assumes s: "spoken p cs d" and k: "dispatch_ok d" and c: "discipline p c d = Some d'"
  shows "spoken p (cs @ [c]) d'" "commits_due p cs \<Longrightarrow> commits_due p (cs @ [c])"
proof -
  show "spoken p (cs @ [c]) d'"
  proof (cases c)
    case (Call_Submit x a)
    then show ?thesis using c by (cases a) (auto simp: spoken_def faulted_def answer_head_def split: if_splits)
  next
    case (Call_Await a)
    then show ?thesis using c by (cases a) (auto simp: spoken_def faulted_def answer_head_def word_for_def split: if_splits)
  next
    case (Call_Send x a)
    then show ?thesis using c by (cases a) (auto simp: spoken_def faulted_def word_for_def split: if_splits)
  next
    case (Call_Commit x why)
    then show ?thesis using c s by (cases "dp_verdict d"; cases why) (auto simp: spoken_def split: if_splits)
  qed (use c in \<open>auto simp: spoken_def split: if_splits\<close>)
  assume due: "commits_due p cs"
  show "commits_due p (cs @ [c])"
  proof (rule commits_due_snoc[OF due])
    fix x why
    assume "c = Call_Commit x why"
    then show "case why of Settled_Delivered \<Rightarrow> \<exists>y. x = Some y \<and> word_for cs y | Settled_Dropped f \<Rightarrow> \<not> is_retryable f p | Settled_Shutdown \<Rightarrow> p = At_Most_Once"
      using c s by (cases "dp_verdict d"; cases why) (auto simp: spoken_def split: if_splits)
  qed
qed

lemma discipline_run_due:
  "discipline_run p cs dispatch_start = Some d \<Longrightarrow> spoken p cs d \<and> commits_due p cs"
proof (induction cs arbitrary: d rule: rev_induct)
  case (snoc c cs)
  then obtain d1 where d1: "discipline_run p cs dispatch_start = Some d1" "discipline p c d1 = Some d"
    by (auto simp: discipline_run_append split: option.splits)
  have "dispatch_ok (dispatch_start :: 'a dispatch)" by (simp add: dispatch_ok_def dispatch_start_def)
  from discipline_run_ok[OF this d1(1)] snoc.IH[OF d1(1)] discipline_spoken[OF _ _ d1(2)] show ?case by blast
qed (simp add: spoken_def dispatch_start_def commits_due_def)

text \<open>What is attempted was observed and not settled yet.\<close>

lemma discipline_attempts:
  assumes "discipline p c d = Some d'" shows "set (attempts c) \<subseteq> set (dp_seen d)"
  using assms by (cases c) (auto split: if_splits)

lemma discipline_run_attempts:
  "discipline_run p cs d = Some d' \<Longrightarrow> set (attempted cs) \<subseteq> set (dp_seen d) \<union> set (observed cs)"
proof (induction cs arbitrary: d)
  case (Cons c cs)
  then obtain d1 where d1: "discipline p c d = Some d1" "discipline_run p cs d1 = Some d'" by (auto split: option.splits)
  have "set (dp_seen d1) \<subseteq> set (dp_seen d) \<union> set (observes c)"
    using arg_cong[where f = set, OF discipline_step_keeps[OF d1(1)]] by auto
  then show ?case using discipline_attempts[OF d1(1)] Cons.IH[OF d1(2)] by auto
qed simp

text \<open>Once decided, the oldest batches are not attempted again, unless they are observed anew.\<close>

lemma owed_not_attempted:
  "dp_verdict d = Owed why n \<Longrightarrow> discipline_run p cs d = Some d' \<Longrightarrow> set (attempted cs) \<subseteq> set (drop n (dp_seen d)) \<union> set (observed cs)"
proof (induction cs arbitrary: d n)
  case (Cons c cs)
  then obtain d1 where d1: "discipline p c d = Some d1" "discipline_run p cs d1 = Some d'" by (auto split: option.splits)
  obtain x w where c: "c = Call_Commit x w" using d1(1) Cons.prems(1) by (cases c) (auto split: if_splits)
  then have n: "n > 0" "dp_seen d1 = tl (dp_seen d)" "dp_verdict d1 = (if n = 1 then Undecided else Owed why (n - 1))"
    using d1(1) Cons.prems(1) by (auto split: if_splits)
  then have dr: "drop (n - 1) (dp_seen d1) = drop n (dp_seen d)" by (cases n) (simp_all add: drop_Suc)
  show ?case
  proof (cases "n = 1")
    case True
    then show ?thesis using discipline_run_attempts[OF d1(2)] dr c by simp
  next
    case False
    then show ?thesis using Cons.IH[OF _ d1(2), of "n - 1"] n(3) dr c by simp
  qed
qed simp

lemma stopping_not_attempted:
  "dp_verdict d = Stopping n \<Longrightarrow> discipline_run p cs d = Some d' \<Longrightarrow> attempted cs = []"
proof (induction cs arbitrary: d n)
  case (Cons c cs)
  then obtain d1 where d1: "discipline p c d = Some d1" "discipline_run p cs d1 = Some d'" by (auto split: option.splits)
  obtain x w where c: "c = Call_Commit x w" using d1(1) Cons.prems(1) by (cases c) (auto split: if_splits)
  then have "dp_verdict d1 = Stopping (n - 1)" using d1(1) Cons.prems(1) by (auto split: if_splits)
  then show ?case using Cons.IH[OF _ d1(2)] c by simp
qed simp

text \<open>The batches submitted and unanswered after the calls so far.\<close>

definition in_the_air :: "delivery_posture \<Rightarrow> 'i call list \<Rightarrow> 'i list" where
  "in_the_air p cs = (case discipline_run p cs dispatch_start of Some d \<Rightarrow> take (dp_out d) (dp_seen d) | None \<Rightarrow> [])"

text \<open>The outcome of an attempt is unknown: it failed so, or it was cut.\<close>

fun unknown :: "answer \<Rightarrow> bool" where
  "unknown Answer_Ok = False"
| "unknown (Answer_Err e) = (classify e = Ambiguous)"
| "unknown Answer_Cut = True"

fun own_fault :: "answer \<Rightarrow> bool" where
  "own_fault (Answer_Err e) = is_head_only e"
| "own_fault _ = False"

text \<open>
  The batches whose outcome a call leaves unknown. A send leaves its batch. A submit with nothing in
  the air leaves its batch; the oldest batch's resubmit leaves that batch when the fault is its own, and
  else everything in the air, as the answer to it does; a submit behind others that is cut leaves them
  and its batch. A submit behind others that fails says nothing of any batch: by the contract of
  \<open>Output::submit\<close> that failure is never classified, and the outcome is told by the answers to the
  batches in the air.
\<close>

definition in_doubt :: "delivery_posture \<Rightarrow> 'i call list \<Rightarrow> 'i call \<Rightarrow> 'i list" where
  "in_doubt p cs c =
     (let air = in_the_air p cs in
      case c of
        Call_Send x a \<Rightarrow> if unknown a then [x] else []
      | Call_Submit x a \<Rightarrow>
          if \<not> unknown a then []
          else if air = [] then [x]
          else if x = hd air then (if own_fault a then [x] else air)
          else (if a = Answer_Cut then air @ [x] else [])
      | Call_Await a \<Rightarrow> if unknown a then (if own_fault a then take 1 air else air) else []
      | _ \<Rightarrow> [])"

lemma in_the_air_run: "discipline_run p cs dispatch_start = Some d \<Longrightarrow> in_the_air p cs = take (dp_out d) (dp_seen d)"
  by (simp add: in_the_air_def)

lemma in_doubt_submit:
  assumes c: "discipline At_Most_Once (Call_Submit x a) d = Some d'" and ok: "dispatch_ok d" and dist: "distinct (dp_seen d)"
    and air: "in_the_air At_Most_Once cs = take (dp_out d) (dp_seen d)" and y: "in_doubt At_Most_Once cs (Call_Submit x a) \<noteq> []"
  shows "\<exists>n. in_doubt At_Most_Once cs (Call_Submit x a) = take n (dp_seen d') \<and> ((\<exists>why. dp_verdict d' = Owed why n) \<or> dp_verdict d' = Stopping n)"
proof (cases "dp_out d = 0")
  case True
  then show ?thesis using c ok y air
    by (cases a) (auto simp: in_doubt_def Let_def dispatch_ok_def faulted_def take_Suc hd_conv_nth split: if_splits)
next
  case False
  then have ne: "take (dp_out d) (dp_seen d) \<noteq> []" "hd (take (dp_out d) (dp_seen d)) = hd (dp_seen d)" "dp_seen d \<noteq> []"
    using ok by (auto simp: dispatch_ok_def)
  show ?thesis
  proof (cases "dp_again d")
    case True
    then show ?thesis using c y air ne
      by (cases a) (auto simp: in_doubt_def Let_def faulted_def answer_head_def at_fault_def take_Suc split: if_splits)
  next
    case again: False
    then have x: "dp_out d < length (dp_seen d)" "dp_seen d ! dp_out d = x" using c by (auto split: if_splits)
    then have "x \<noteq> hd (dp_seen d)" using dist False ne(3) by (auto simp: hd_conv_nth nth_eq_iff_index_eq)
    then show ?thesis using c y air ne again x
      by (cases a) (auto simp: in_doubt_def Let_def take_Suc_conv_app_nth split: if_splits)
  qed
qed

lemma discipline_in_doubt:
  assumes d: "discipline_run At_Most_Once cs dispatch_start = Some d" and c: "discipline At_Most_Once c d = Some d'"
    and y: "in_doubt At_Most_Once cs c \<noteq> []" and dist: "distinct (dp_seen d)"
  shows "\<exists>n. in_doubt At_Most_Once cs c = take n (dp_seen d') \<and> ((\<exists>why. dp_verdict d' = Owed why n) \<or> dp_verdict d' = Stopping n)"
proof -
  have "dispatch_ok (dispatch_start :: 'a dispatch)" by (simp add: dispatch_ok_def dispatch_start_def)
  then have k: "dispatch_ok d" using d by (rule discipline_run_ok)
  note u = in_the_air_run[OF d]
  show ?thesis
  proof (cases c)
    case (Call_Send x a)
    then show ?thesis using c y by (cases a) (auto simp: in_doubt_def faulted_def split: if_splits)
  next
    case (Call_Submit x a)
    then show ?thesis using in_doubt_submit[OF _ k dist u] c y by simp
  next
    case (Call_Await a)
    then show ?thesis using c y u
      by (cases a) (auto simp: in_doubt_def Let_def faulted_def answer_head_def at_fault_def min_def split: if_splits)
  qed (use y in \<open>simp_all add: in_doubt_def\<close>)
qed

lemma doubted_not_attempted:
  assumes run: "discipline_run At_Most_Once (before @ c # after) dispatch_start = Some d" and dist: "distinct (observed (before @ c # after))"
    and y: "y \<in> set (in_doubt At_Most_Once before c)"
  shows "y \<notin> set (attempted after)"
proof -
  obtain d0 d1 where d0: "discipline_run At_Most_Once before dispatch_start = Some d0" "discipline At_Most_Once c d0 = Some d1"
      "discipline_run At_Most_Once after d1 = Some d"
    using run by (auto simp: discipline_run_append split: option.splits)
  have "in_doubt At_Most_Once before c \<noteq> []" using y by auto
  moreover have "distinct (dp_seen d0)"
    using dist arg_cong[where f = distinct, OF discipline_run_keeps[OF d0(1)]] by (simp add: dispatch_start_def)
  ultimately obtain n where n: "in_doubt At_Most_Once before c = take n (dp_seen d1)"
    "(\<exists>why. dp_verdict d1 = Owed why n) \<or> dp_verdict d1 = Stopping n"
    using discipline_in_doubt[OF d0(1,2)] by blast
  have "discipline_run At_Most_Once (before @ [c]) dispatch_start = Some d1" using d0 by (simp add: discipline_run_append)
  from discipline_run_keeps[OF this] have "observed (before @ c # after) = committed (before @ [c]) @ dp_seen d1 @ observed after"
    by (simp add: dispatch_start_def)
  then have "distinct (dp_seen d1 @ observed after)" using dist by (simp only: distinct_append)
  then have "distinct ((take n (dp_seen d1) @ drop n (dp_seen d1)) @ observed after)" by (simp only: append_take_drop_id)
  then have ny: "y \<notin> set (drop n (dp_seen d1)) \<union> set (observed after)" using y n(1) by (simp only: distinct_append set_append) blast
  from n(2) show ?thesis
  proof (elim disjE exE)
    fix why
    assume "dp_verdict d1 = Owed why n"
    from owed_not_attempted[OF this d0(3)] ny show ?thesis by (rule_tac contra_subsetD)
  next
    assume "dp_verdict d1 = Stopping n"
    from stopping_not_attempted[OF this d0(3)] show ?thesis by simp
  qed
qed

end
