(* ===== verification/Spool_Stream.thy ===== *)
theory Spool_Stream
  imports Disk_Open "HOL-Library.Sublist"
begin

text \<open>
  The bytes of a spool seen as one stream of records: how a stream is cut into its records, and
  how the positions the queue keeps (a segment and an offset) lie in the stream.
\<close>

section \<open>Records in a stream\<close>

text \<open>A record the spool keeps: it reads back at any time, and no part of it reads as a record.\<close>

definition kept :: "('d, 'h) spool_env \<Rightarrow> bytes \<Rightarrow> bool" where
  "kept E r \<longleftrightarrow>
     (\<forall>c p rest. \<exists>item. parse_record (sv_record E) (sv_table E c p) (r @ rest) = Inr (item, length r)) \<and>
     (\<forall>c p n. n < length r \<longrightarrow>
        (\<exists>k. parse_record (sv_record E) (sv_table E c p) (take n r) = Inl (Truncated k) \<and> 0 < k \<and> k \<le> length r - n)) \<and>
     (\<forall>c good n. n < length r \<longrightarrow>
        resync_after (sv_record E) (sv_table E c) (good @ take n r) (length good) = None)"

text \<open>What a reader gets for a record.\<close>

definition reads :: "('d, 'h) spool_env \<Rightarrow> bytes \<Rightarrow> ('d, 'h) store_item \<Rightarrow> bool" where
  "reads E r item \<longleftrightarrow> (\<exists>c p rest. parse_record (sv_record E) (sv_table E c p) (r @ rest) = Inr (item, length r))"

function chop :: "('d, 'h) spool_env \<Rightarrow> bytes \<Rightarrow> bytes list" where
  "chop E bs =
     (case parse_record (sv_record E) (sv_table E 0 0) bs of
        Inr (item, n) \<Rightarrow> take n bs # chop E (drop n bs)
      | Inl _ \<Rightarrow> [])"
  by pat_completeness auto
termination
  by (relation "measure (\<lambda>(E, bs). length bs)") (auto dest: parse_record_len simp: CONTEXT_LEN_def)

declare chop.simps [simp del]

definition sealed :: "(bytes \<Rightarrow> bool) \<Rightarrow> bytes \<Rightarrow> bool" where
  "sealed P bs \<longleftrightarrow> (\<exists>rs. list_all P rs \<and> concat rs = bs)"

lemma sealed_Nil [simp]: "sealed P []"
  by (auto simp: sealed_def intro: exI[of _ "[]"])

lemma sealed_append [intro]: "sealed P a \<Longrightarrow> sealed P b \<Longrightarrow> sealed P (a @ b)"
  by (metis concat_append list_all_append sealed_def)

lemma sealed_one: "P r \<Longrightarrow> sealed P r"
  by (auto simp: sealed_def intro: exI[of _ "[r]"])

lemma sealed_concat: "\<forall>x \<in> set xs. sealed P (f x) \<Longrightarrow> sealed P (concat (map f xs))"
  by (induction xs) auto

lemma sealed_head: "sealed P bs \<Longrightarrow> bs \<noteq> [] \<Longrightarrow> \<exists>r rest. P r \<and> sealed P rest \<and> bs = r @ rest"
  unfolding sealed_def
  by (metis concat.simps(1) concat.simps(2) list.pred_inject(2) neq_Nil_conv)

lemma kept_len: "kept E r \<Longrightarrow> CONTEXT_LEN \<le> length r"
  unfolding kept_def by (metis append_Nil2 parse_record_len)

lemma kept_nonempty: "kept E r \<Longrightarrow> r \<noteq> []"
  using kept_len[of E r] by (auto simp: CONTEXT_LEN_def)

lemma chop_kept: "kept E r \<Longrightarrow> chop E (r @ rest) = r # chop E rest"
proof -
  assume "kept E r"
  then obtain item where "parse_record (sv_record E) (sv_table E 0 0) (r @ rest) = Inr (item, length r)"
    unfolding kept_def by blast
  then show ?thesis by (simp add: chop.simps[of E "r @ rest"])
qed

lemma chop_Nil [simp]: "chop E [] = []"
  by (simp add: chop.simps[of E "[]"] parse_record_def CONTEXT_LEN_def)

text \<open>
  A kind of records the spool may hold: what holds of every stream of such records. The queue's
  lemmas are stated for any such kind, so that they also bound where a record can come from.
\<close>

locale record_kind =
  fixes E :: "('d, 'h) spool_env" and P :: "bytes \<Rightarrow> bool"
  assumes kind_kept: "P r \<Longrightarrow> kept E r"
begin

lemma chop_records: "list_all P rs \<Longrightarrow> chop E (concat rs @ rest) = rs @ chop E rest"
  by (induction rs) (auto simp: chop_kept kind_kept)

lemma chop_append: "sealed P a \<Longrightarrow> chop E (a @ b) = chop E a @ chop E b"
  unfolding sealed_def using chop_records chop_records[of _ "[]"] by auto

lemma chop_sealed: "sealed P a \<Longrightarrow> list_all P (chop E a) \<and> concat (chop E a) = a"
  unfolding sealed_def using chop_records[of _ "[]"] by auto

lemma chop_one: "P r \<Longrightarrow> chop E r = [r]"
  using chop_kept[of E r "[]"] kind_kept by simp

lemma chop_empty: "sealed P a \<Longrightarrow> chop E a = [] \<longleftrightarrow> a = []"
  using chop_sealed by fastforce

lemma chop_head: "P r \<Longrightarrow> chop E (r @ rest) = r # chop E rest"
  using chop_kept kind_kept by blast

end

interpretation kept_records: record_kind E "kept E"
  by unfold_locales

section \<open>Positions in the segments\<close>

abbreviation ascending :: "segment list \<Rightarrow> bool" where
  "ascending segs \<equiv> sorted_wrt (<) (map seg_seq segs)"

abbreviation seg_sum :: "segment list \<Rightarrow> nat" where
  "seg_sum segs \<equiv> sum_list (map seg_len segs)"

text \<open>How far into the stream a position lies.\<close>

definition pos_of :: "segment list \<Rightarrow> nat \<Rightarrow> nat \<Rightarrow> nat" where
  "pos_of segs seg offset = seg_sum (takeWhile (\<lambda>s. seg_seq s \<noteq> seg) segs) + offset"

lemma ascending_split:
  assumes "ascending (pre @ s # post)"
  shows "\<forall>x \<in> set pre. seg_seq x < seg_seq s" and "\<forall>x \<in> set post. seg_seq s < seg_seq x"
    and "ascending (s # post)" and "ascending pre"
  using assms by (auto simp: sorted_wrt_append)

lemma find_split:
  assumes "ascending (pre @ s # post)"
  shows "find (\<lambda>x. seg_seq x = seg_seq s) (pre @ s # post) = Some s"
    and "find_len (seg_seq s) (pre @ s # post) = Some (seg_len s)"
proof -
  have "\<forall>x \<in> set pre. seg_seq x \<noteq> seg_seq s" using ascending_split(1)[OF assms] by auto
  then have "find (\<lambda>x. seg_seq x = seg_seq s) (pre @ xs) = find (\<lambda>x. seg_seq x = seg_seq s) xs" for xs
    by (induction pre) auto
  then show "find (\<lambda>x. seg_seq x = seg_seq s) (pre @ s # post) = Some s" by simp
  then show "find_len (seg_seq s) (pre @ s # post) = Some (seg_len s)" by (simp add: find_len_def)
qed

lemma pos_of_split:
  assumes "ascending (pre @ s # post)"
  shows "pos_of (pre @ s # post) (seg_seq s) offset = seg_sum pre + offset"
proof -
  have "\<forall>x \<in> set pre. seg_seq x \<noteq> seg_seq s" using ascending_split(1)[OF assms] by auto
  then have "takeWhile (\<lambda>x. seg_seq x \<noteq> seg_seq s) (pre @ s # post) = pre" by (simp add: takeWhile_tail)
  then show ?thesis by (simp add: pos_of_def)
qed

lemma next_seq_split:
  assumes "ascending (pre @ s # post)"
  shows "next_seq (seg_seq s) (pre @ s # post) = (case post of [] \<Rightarrow> None | x # _ \<Rightarrow> Some (seg_seq x))"
proof -
  have "\<forall>x \<in> set pre. \<not> seg_seq s < seg_seq x" using ascending_split(1)[OF assms] by auto
  then have "find (\<lambda>x. seg_seq s < x) (map seg_seq pre @ xs) = find (\<lambda>x. seg_seq s < x) xs" for xs
    by (induction pre) auto
  then show ?thesis
    using ascending_split(2)[OF assms] by (auto simp: next_seq_def split: list.splits)
qed

lemma last_split:
  assumes "ascending (pre @ s # post)"
  shows "seg_seq (last (pre @ s # post)) = seg_seq s \<longleftrightarrow> post = []"
  using ascending_split(2)[OF assms] last_in_set[of post] by (cases "post = []") fastforce+

text \<open>The next record behind a position: at the same place of the stream, or there is none.\<close>

lemma next_position_split:
  assumes "ascending (pre @ s # post)" and "offset \<le> seg_len s"
  shows "(\<exists>pre' s' post' off. next_position_from (pre @ s # post) (seg_seq s) offset = Some (seg_seq s', off) \<and>
            pre @ s # post = pre' @ s' # post' \<and> off < seg_len s' \<and> seg_sum pre' + off = seg_sum pre + offset) \<or>
         (next_position_from (pre @ s # post) (seg_seq s) offset = None \<and> seg_sum pre + offset = seg_sum (pre @ s # post))"
  using assms
proof (induction post arbitrary: pre s offset)
  case Nil
  have e: "next_position_from (pre @ [s]) (seg_seq s) offset = (if offset < seg_len s then Some (seg_seq s, offset) else None)"
    using find_split(2)[OF Nil.prems(1)] by (simp add: next_position_from.simps[of _ "seg_seq s"])
  show ?case
  proof (cases "offset < seg_len s")
    case True
    then show ?thesis using e by (intro disjI1 exI[of _ pre] exI[of _ s] exI[of _ "[]"]) auto
  qed (use e Nil.prems(2) in auto)
next
  case (Cons x post)
  note sp = find_split(2)[OF Cons.prems(1)] next_seq_split[OF Cons.prems(1)] last_split[OF Cons.prems(1)]
  show ?case
  proof (cases "offset < seg_len s")
    case True
    then have "next_position_from (pre @ s # x # post) (seg_seq s) offset = Some (seg_seq s, offset)"
      using sp by (simp add: next_position_from.simps[of _ "seg_seq s"])
    then show ?thesis using True by (intro disjI1 exI[of _ pre] exI[of _ s] exI[of _ "x # post"]) auto
  next
    case False
    then have o: "offset = seg_len s" using Cons.prems(2) by simp
    have e: "next_position_from (pre @ s # x # post) (seg_seq s) offset = next_position_from ((pre @ [s]) @ x # post) (seg_seq x) 0"
      using sp o by (simp add: next_position_from.simps[of _ "seg_seq s"])
    have "ascending ((pre @ [s]) @ x # post)" using Cons.prems(1) by simp
    from Cons.IH[OF this, of 0] show ?thesis unfolding e using o by simp
  qed
qed

text \<open>The roll of the read cursor takes off the finished segments.\<close>

lemma roll_loop_split:
  assumes "ascending (pre @ s # post)" and "offset \<le> seg_len s"
  shows "\<exists>gone s' post' off. roll_loop (pre @ s # post) (seg_seq s) offset dels = (seg_seq s', off, dels @ map seg_seq gone) \<and>
      s # post = gone @ s' # post' \<and> off + seg_sum gone = offset \<and> off \<le> seg_len s' \<and> (post' = [] \<or> off < seg_len s')"
  using assms
proof (induction post arbitrary: pre s offset dels)
  case Nil
  then show ?case
    using find_split(2)[OF Nil.prems(1)]
    by (intro exI[of _ "[]"] exI[of _ s] exI[of _ offset]) (simp add: roll_loop.simps[of _ "seg_seq s"])
next
  case (Cons x post)
  note sp = find_split(2)[OF Cons.prems(1)] next_seq_split[OF Cons.prems(1)] last_split[OF Cons.prems(1)]
  show ?case
  proof (cases "offset < seg_len s")
    case True
    then have "roll_loop (pre @ s # x # post) (seg_seq s) offset dels = (seg_seq s, offset, dels)"
      using sp by (simp add: roll_loop.simps[of _ "seg_seq s"])
    then show ?thesis using True by (intro exI[of _ "[]"] exI[of _ s] exI[of _ "x # post"] exI[of _ offset]) auto
  next
    case False
    then have o: "offset = seg_len s" using Cons.prems(2) by simp
    have e: "roll_loop (pre @ s # x # post) (seg_seq s) offset dels = roll_loop ((pre @ [s]) @ x # post) (seg_seq x) 0 (dels @ [seg_seq s])"
      using sp o by (simp add: roll_loop.simps[of _ "seg_seq s"])
    have "ascending ((pre @ [s]) @ x # post)" using Cons.prems(1) by simp
    from Cons.IH[OF this, of 0 "dels @ [seg_seq s]"] obtain gone s' post' off where
      "roll_loop ((pre @ [s]) @ x # post) (seg_seq x) 0 (dels @ [seg_seq s]) = (seg_seq s', off, (dels @ [seg_seq s]) @ map seg_seq gone)"
      "x # post = gone @ s' # post'" "off + seg_sum gone = 0" "off \<le> seg_len s'" "post' = [] \<or> off < seg_len s'"
      by auto
    then show ?thesis unfolding e using o
      by (intro exI[of _ "s # gone"] exI[of _ s'] exI[of _ post'] exI[of _ off]) auto
  qed
qed

end
