(* ===== verification/Spool_Invariant.thy ===== *)
theory Spool_Invariant
  imports Spool_Stream
begin

text \<open>
  The invariant of the disk spool and the operations that keep it: the segments and their files
  agree, the read cursor stands between two records, what is read ahead are the first waiting
  records, and every cursor that was or may still be persisted lies at or before the read cursor.
\<close>

section \<open>The invariant\<close>

definition on_disk :: "(nat \<times> bytes) list \<Rightarrow> nat \<Rightarrow> bytes" where
  "on_disk files seq = (case map_of files seq of Some bs \<Rightarrow> bs | None \<Rightarrow> [])"

definition body :: "(nat \<times> bytes) list \<Rightarrow> segment \<Rightarrow> bytes" where
  "body files s = take (seg_len s) (on_disk files (seg_seq s))"

text \<open>The bytes from the read cursor on, and the records in them.\<close>

definition stream :: "('d, 'h) disk_queue \<Rightarrow> bytes" where
  "stream q = drop (dq_read_offset q) (concat (map (body (dq_files q)) (dq_segments q)))"

definition waiting :: "('d, 'h) spool_env \<Rightarrow> ('d, 'h) disk_queue \<Rightarrow> bytes list" where
  "waiting E q = chop E (stream q)"

definition segments_ok ::
    "(bytes \<Rightarrow> bool) \<Rightarrow> (nat \<times> bytes) list \<Rightarrow> segment list \<Rightarrow> nat \<Rightarrow> nat \<Rightarrow> bool" where
  "segments_ok P files segs read_seq total_bytes \<longleftrightarrow>
     segs \<noteq> [] \<and> ascending segs \<and> read_seq = seg_seq (hd segs) \<and> total_bytes = seg_sum segs \<and>
     (\<forall>s \<in> set segs. map_of files (seg_seq s) \<noteq> None \<and> seg_len s \<le> length (on_disk files (seg_seq s)) \<and>
        sealed P (body files s))"

text \<open>
  Only the active segment may end in bytes that no push has confirmed, a part of one record, and
  then a repair is due. A file the queue does not track is finished, or is the empty file of a
  rotation that did not come to its end.
\<close>

definition file_known ::
    "(bytes \<Rightarrow> bool) \<Rightarrow> segment list \<Rightarrow> nat \<Rightarrow> nat option \<Rightarrow> bool \<Rightarrow> nat \<Rightarrow> bytes \<Rightarrow> bool" where
  "file_known P segs read_seq repair rotating seq bs \<longleftrightarrow>
     seq < read_seq \<and> sealed P bs \<or> seq \<in> seg_seq ` set segs \<or>
     seq = seg_seq (last segs) + 1 \<and> bs = [] \<and> rotating \<and> repair = None"

definition files_ok ::
    "(bytes \<Rightarrow> bool) \<Rightarrow> (nat \<times> bytes) list \<Rightarrow> segment list \<Rightarrow> nat \<Rightarrow> nat option \<Rightarrow> bool \<Rightarrow> bool" where
  "files_ok P files segs read_seq repair rotating \<longleftrightarrow>
     distinct (map fst files) \<and>
     (\<forall>s \<in> set (butlast segs). length (on_disk files (seg_seq s)) = seg_len s) \<and>
     (length (on_disk files (seg_seq (last segs))) = seg_len (last segs) \<or>
      repair \<noteq> None \<and> (\<exists>u n. P u \<and> on_disk files (seg_seq (last segs)) = body files (last segs) @ take n u)) \<and>
     (\<forall>n. repair = Some n \<longrightarrow> n = seg_len (last segs)) \<and>
     (\<forall>seq bs. map_of files seq = Some bs \<longrightarrow> file_known P segs read_seq repair rotating seq bs)"

definition cursor_ok :: "(bytes \<Rightarrow> bool) \<Rightarrow> bytes \<Rightarrow> nat \<Rightarrow> nat \<Rightarrow> bool" where
  "cursor_ok P first len offset \<longleftrightarrow>
     offset \<le> len \<and> sealed P (take offset first) \<and> sealed P (drop offset first)"

text \<open>What is read ahead, and where the last of it ends.\<close>

definition ends_at :: "segment list \<Rightarrow> nat \<Rightarrow> ('d, 'h) read_ahead \<Rightarrow> bool" where
  "ends_at segs pos e \<longleftrightarrow>
     (\<exists>pre s post. segs = pre @ s # post \<and> seg_seq s = ra_seg e \<and> ra_offset e + ra_len e \<le> seg_len s \<and>
        seg_sum pre + (ra_offset e + ra_len e) = pos)"

definition ahead_ok ::
    "('d, 'h) spool_env \<Rightarrow> segment list \<Rightarrow> nat \<Rightarrow> bytes list \<Rightarrow> ('d, 'h) read_ahead list \<Rightarrow> bool" where
  "ahead_ok E segs offset pending ahead \<longleftrightarrow>
     list_all2 (\<lambda>e r. ra_len e = length r \<and> reads E r (ra_item e)) ahead (take (length ahead) pending) \<and>
     (ahead \<noteq> [] \<longrightarrow> ends_at segs (offset + sum_list (map ra_len ahead)) (last ahead))"

text \<open>The cursors a crash may leave behind, each at or before the read cursor and between records.\<close>

definition saved :: "cursor_file \<Rightarrow> persist_job list \<Rightarrow> (nat \<times> nat) set" where
  "saved doc jobs = pj_cursor ` set jobs \<union>
     (case doc of Cursor_Doc version seg offset \<Rightarrow> if version = 1 then {(seg, offset)} else {} | _ \<Rightarrow> {})"

definition fits ::
    "(bytes \<Rightarrow> bool) \<Rightarrow> (nat \<times> bytes) list \<Rightarrow> nat \<Rightarrow> bytes \<Rightarrow> nat \<Rightarrow> nat \<Rightarrow> nat \<times> nat \<Rightarrow> bool" where
  "fits P files end_seq first read_seq offset at \<longleftrightarrow>
     fst at < end_seq \<and> map_of files (fst at) = None \<or>
     fst at < read_seq \<and>
       (\<exists>bs. map_of files (fst at) = Some bs \<and> snd at \<le> length bs \<and> sealed P (take (snd at) bs) \<and> sealed P (drop (snd at) bs)) \<or>
     fst at = read_seq \<and> snd at \<le> offset \<and> sealed P (take (snd at) first) \<and> sealed P (drop (snd at) (take offset first))"

definition saved_ok ::
    "(bytes \<Rightarrow> bool) \<Rightarrow> (nat \<times> bytes) list \<Rightarrow> nat \<Rightarrow> bytes \<Rightarrow> nat \<Rightarrow> nat \<Rightarrow> cursor_file \<Rightarrow> persist_job list \<Rightarrow> bool" where
  "saved_ok P files end_seq first read_seq offset doc jobs \<longleftrightarrow>
     (\<forall>at \<in> saved doc jobs. fits P files end_seq first read_seq offset at) \<and>
     (\<forall>j \<in> set jobs. \<forall>seq \<in> set (pj_unlink j). seq < read_seq)"

abbreviation last_seq :: "('d, 'h) disk_queue \<Rightarrow> nat" where
  "last_seq q \<equiv> seg_seq (last (dq_segments q))"

definition first_body :: "('d, 'h) disk_queue \<Rightarrow> bytes" where
  "first_body q = body (dq_files q) (hd (dq_segments q))"

definition spool_ok :: "('d, 'h) spool_env \<Rightarrow> (bytes \<Rightarrow> bool) \<Rightarrow> ('d, 'h) disk_queue \<Rightarrow> bool" where
  "spool_ok E P q \<longleftrightarrow>
     segments_ok P (dq_files q) (dq_segments q) (dq_read_seq q) (dq_total_bytes q) \<and>
     files_ok P (dq_files q) (dq_segments q) (dq_read_seq q) (dq_needs_repair q) (dq_rotation_started q) \<and>
     cursor_ok P (first_body q) (seg_len (hd (dq_segments q))) (dq_read_offset q) \<and>
     ahead_ok E (dq_segments q) (dq_read_offset q) (waiting E q) (dq_read_ahead q) \<and>
     saved_ok P (dq_files q) (last_seq q) (first_body q) (dq_read_seq q) (dq_read_offset q) (dq_cursor q) (dq_jobs q)"

text \<open>The depth the queue reports.\<close>

definition counted :: "('d, 'h) spool_env \<Rightarrow> ('d, 'h) disk_queue \<Rightarrow> bool" where
  "counted E q \<longleftrightarrow> dq_queued_records q = length (waiting E q)"

section \<open>What an operation leaves alone\<close>

text \<open>The queue without its clock, log, handles and numbering.\<close>

definition core :: "('d, 'h) disk_queue \<Rightarrow> ('d, 'h) disk_queue" where
  "core q = q\<lparr>dq_write_file := False, dq_read_file := None, dq_last_checkpoint := 0, dq_worker := False,
     dq_id := [], dq_next := 0, dq_clock := 0, dq_log := []\<rparr>"

text \<open>And without what a crash leaves.\<close>

definition front :: "('d, 'h) disk_queue \<Rightarrow> ('d, 'h) disk_queue" where
  "front q = (core q)\<lparr>dq_files := [], dq_cursor := No_Cursor, dq_jobs := []\<rparr>"

lemma core_updates [simp]:
  "core (dq_tick q) = core q" "core (dq_emit x q) = core q" "core (count_dropped a b q) = core q"
  "core (count_fs_error a q) = core q" "core (after_change q) = core q"
  "core (q\<lparr>dq_write_file := w\<rparr>) = core q" "core (q\<lparr>dq_read_file := f\<rparr>) = core q"
  "core (q\<lparr>dq_last_checkpoint := t\<rparr>) = core q" "core (q\<lparr>dq_worker := w\<rparr>) = core q"
  "core (q\<lparr>dq_clock := c\<rparr>) = core q" "core (q\<lparr>dq_next := m\<rparr>) = core q"
  by (simp_all add: core_def dq_tick_def dq_emit_def count_dropped_def count_fs_error_def after_change_def)

lemma core_fields:
  assumes "core q' = core q"
  shows "dq_config q' = dq_config q" "dq_segments q' = dq_segments q" "dq_read_seq q' = dq_read_seq q"
    "dq_read_offset q' = dq_read_offset q" "dq_total_bytes q' = dq_total_bytes q"
    "dq_queued_records q' = dq_queued_records q" "dq_read_ahead q' = dq_read_ahead q"
    "dq_needs_repair q' = dq_needs_repair q" "dq_rotation_started q' = dq_rotation_started q"
    "dq_closed q' = dq_closed q" "dq_files q' = dq_files q" "dq_cursor q' = dq_cursor q" "dq_jobs q' = dq_jobs q"
  using assms by (cases q; cases q'; simp add: core_def)+

lemma core_stream:
  assumes "core q' = core q" shows "stream q' = stream q"
  by (simp add: stream_def core_fields[OF assms])

lemma core_waiting:
  assumes "core q' = core q" shows "waiting E q' = waiting E q"
  by (simp add: waiting_def core_stream[OF assms])

lemma core_ok:
  assumes "core q' = core q" shows "spool_ok E P q' = spool_ok E P q"
  by (simp add: spool_ok_def first_body_def core_fields[OF assms] core_waiting[OF assms])

lemma core_front:
  assumes "core q' = core q" shows "front q' = front q"
  by (simp add: front_def assms)

lemma front_fields:
  assumes "front q' = front q"
  shows "dq_config q' = dq_config q" "dq_segments q' = dq_segments q" "dq_read_seq q' = dq_read_seq q"
    "dq_read_offset q' = dq_read_offset q" "dq_total_bytes q' = dq_total_bytes q"
    "dq_queued_records q' = dq_queued_records q" "dq_read_ahead q' = dq_read_ahead q"
    "dq_needs_repair q' = dq_needs_repair q" "dq_rotation_started q' = dq_rotation_started q"
    "dq_closed q' = dq_closed q"
  using assms by (cases q; cases q'; simp add: core_def front_def)+

text \<open>A step that changes nothing a producer or a consumer can see.\<close>

definition unseen :: "('d, 'h) spool_env \<Rightarrow> (bytes \<Rightarrow> bool) \<Rightarrow> ('d, 'h) disk_queue \<Rightarrow> ('d, 'h) disk_queue \<Rightarrow> bool" where
  "unseen E P q q' \<longleftrightarrow> spool_ok E P q' \<and> stream q' = stream q \<and> front q' = front q"

lemma unseen_core:
  assumes "spool_ok E P q" and "core q' = core q" shows "unseen E P q q'"
  using assms(1) by (simp add: unseen_def core_ok[OF assms(2)] core_stream[OF assms(2)] core_front[OF assms(2)])

lemma unseen_trans: "unseen E P q q' \<Longrightarrow> unseen E P q' q'' \<Longrightarrow> unseen E P q q''"
  by (simp add: unseen_def)

lemma unseen_after_core:
  assumes "unseen E P q q'" and "core q'' = core q'" shows "unseen E P q q''"
  using assms(1) by (simp add: unseen_def core_ok[OF assms(2)] core_stream[OF assms(2)] core_front[OF assms(2)])

lemma unseenD:
  assumes "unseen E P q q'"
  shows "spool_ok E P q'" "stream q' = stream q" "waiting E q' = waiting E q" "front q' = front q"
  using assms by (simp_all add: unseen_def waiting_def)

lemma unseen_read_seq:
  assumes "unseen E P q q'" shows "dq_read_seq q' = dq_read_seq q"
  using front_fields(3)[OF unseenD(4)[OF assms]] .

section \<open>Persisting\<close>

lemma on_disk_same: "map_of files' seq = map_of files seq \<Longrightarrow> on_disk files' seq = on_disk files seq"
  by (simp add: on_disk_def)

lemma body_same: "map_of files' (seg_seq s) = map_of files (seg_seq s) \<Longrightarrow> body files' s = body files s"
  by (simp add: body_def on_disk_def)

text \<open>Later bytes and later segments leave the saved cursors alone.\<close>

lemma saved_ok_later:
  assumes ok: "saved_ok P files end_seq first read_seq offset doc jobs" and le: "read_seq \<le> end_seq" "end_seq \<le> end_seq'"
    and same: "\<And>k. k < end_seq \<Longrightarrow> map_of files' k = map_of files k" "take offset first' = take offset first"
  shows "saved_ok P files' end_seq' first' read_seq offset doc jobs"
proof -
  have "fits P files' end_seq' first' read_seq offset at" if f: "fits P files end_seq first read_seq offset at" for at
  proof -
    have "take (snd at) first' = take (snd at) first" if "snd at \<le> offset"
      using same(2) that by (metis min.absorb1 take_take)
    then show ?thesis using f le same by (auto simp: fits_def)
  qed
  then show ?thesis using ok by (auto simp: saved_ok_def)
qed

lemma tracked_from:
  assumes "segments_ok P files segs read_seq total_bytes" and "s \<in> set segs"
  shows "read_seq \<le> seg_seq s"
  using assms by (cases segs) (auto simp: segments_ok_def less_imp_le)

lemma ok_with_cursor:
  assumes "spool_ok E P q" and "fits P (dq_files q) (last_seq q) (first_body q) (dq_read_seq q) (dq_read_offset q) at"
  shows "unseen E P q (q\<lparr>dq_cursor := Cursor_Doc 1 (fst at) (snd at)\<rparr>)"
  using assms
  by (auto simp: spool_ok_def saved_ok_def saved_def first_body_def waiting_def stream_def unseen_def front_def core_def)

lemma persist_cursor_unseen:
  assumes "spool_ok E P q" and "fits P (dq_files q) (last_seq q) (first_body q) (dq_read_seq q) (dq_read_offset q) at"
  shows "unseen E P q (persist_cursor E at q)"
proof -
  have c: "core ((dq_tick q)\<lparr>dq_cursor := d\<rparr>) = core (q\<lparr>dq_cursor := d\<rparr>)" for d by (simp add: core_def dq_tick_def)
  show ?thesis
    using unseen_after_core[OF ok_with_cursor[OF assms]] unseen_core[OF assms(1)]
    by (auto simp: persist_cursor_def Let_def c split: option.splits)
qed

lemma ok_without_file:
  assumes ok: "spool_ok E P q" and seq: "seq < dq_read_seq q"
  shows "unseen E P q (q\<lparr>dq_files := AList.delete seq (dq_files q)\<rparr>)"
proof -
  let ?files = "AList.delete seq (dq_files q)"
  have so: "segments_ok P (dq_files q) (dq_segments q) (dq_read_seq q) (dq_total_bytes q)"
    using ok by (simp add: spool_ok_def)
  have m: "map_of ?files k = (if k = seq then None else map_of (dq_files q) k)" for k
    by (simp add: AList.delete_conv')
  have ne: "s \<in> set (dq_segments q) \<Longrightarrow> seg_seq s \<noteq> seq" for s using tracked_from[OF so] seq by fastforce
  have same: "s \<in> set (dq_segments q) \<Longrightarrow> map_of ?files (seg_seq s) = map_of (dq_files q) (seg_seq s)" for s
    using ne m by simp
  note b = body_same[OF same] and d = on_disk_same[OF same]
  have nn: "dq_segments q \<noteq> []" using so by (simp add: segments_ok_def)
  have l: "last (dq_segments q) \<in> set (dq_segments q)" and h: "hd (dq_segments q) \<in> set (dq_segments q)" using nn by simp_all
  have bl: "s \<in> set (butlast (dq_segments q)) \<Longrightarrow> s \<in> set (dq_segments q)" for s by (rule in_set_butlastD)
  have mb: "map (body ?files) (dq_segments q) = map (body (dq_files q)) (dq_segments q)" using b by (intro map_cong) simp_all
  let ?q = "q\<lparr>dq_files := ?files\<rparr>"
  have st: "stream ?q = stream q" using arg_cong[OF mb, of "\<lambda>x. drop (dq_read_offset q) (concat x)"] by (simp add: stream_def del: map_eq_conv)
  have w: "waiting E ?q = waiting E q" using st by (simp add: waiting_def)
  have fb: "first_body ?q = first_body q" using b[OF h] by (simp add: first_body_def)
  have "segments_ok P ?files (dq_segments q) (dq_read_seq q) (dq_total_bytes q)"
    using so b d same by (simp add: segments_ok_def)
  moreover have "files_ok P ?files (dq_segments q) (dq_read_seq q) (dq_needs_repair q) (dq_rotation_started q)"
  proof -
    have fo: "files_ok P (dq_files q) (dq_segments q) (dq_read_seq q) (dq_needs_repair q) (dq_rotation_started q)"
      using ok by (simp add: spool_ok_def)
    have "distinct (map fst ?files)" using fo by (simp add: files_ok_def AList.distinct_delete)
    moreover have "\<forall>s \<in> set (butlast (dq_segments q)). length (on_disk ?files (seg_seq s)) = seg_len s"
      using fo d bl by (simp add: files_ok_def)
    moreover have "\<forall>k bs. map_of ?files k = Some bs \<longrightarrow>
        file_known P (dq_segments q) (dq_read_seq q) (dq_needs_repair q) (dq_rotation_started q) k bs"
      using fo m by (auto simp: files_ok_def)
    ultimately show ?thesis using fo d[OF l] b[OF l] by (simp add: files_ok_def)
  qed
  moreover have "saved_ok P ?files (last_seq q) (first_body q) (dq_read_seq q) (dq_read_offset q) (dq_cursor q) (dq_jobs q)"
  proof -
    have "dq_read_seq q \<le> last_seq q" using tracked_from[OF so l] .
    then show ?thesis using ok m seq unfolding spool_ok_def saved_ok_def fits_def by (auto split: if_splits)
  qed
  ultimately have "spool_ok E P ?q" using ok fb w by (simp add: spool_ok_def)
  then show ?thesis using st by (simp add: unseen_def front_def core_def)
qed

lemma unlink_segment_unseen:
  assumes "spool_ok E P q" and "seq < dq_read_seq q"
  shows "unseen E P q (unlink_segment E seq q)"
proof -
  have "core ((dq_tick q)\<lparr>dq_files := f\<rparr>) = core (q\<lparr>dq_files := f\<rparr>)" for f by (simp add: core_def dq_tick_def)
  then show ?thesis
    using unseen_after_core[OF ok_without_file[OF assms]] unseen_core[OF assms(1)]
    by (simp add: unlink_segment_def)
qed

lemma unlink_all_unseen:
  assumes "spool_ok E P q" and "\<forall>seq \<in> set seqs. seq < dq_read_seq q"
  shows "unseen E P q (fold (unlink_segment E) seqs q)"
  using assms
proof (induction seqs arbitrary: q)
  case Nil
  then show ?case by (simp add: unseen_def)
next
  case (Cons seq seqs)
  have u: "unseen E P q (unlink_segment E seq q)" using Cons.prems by (simp add: unlink_segment_unseen)
  note ok = unseenD(1)[OF u] unseen_read_seq[OF u]
  from Cons.IH[OF ok(1)] ok(2) Cons.prems(2) u show ?case by (auto intro: unseen_trans)
qed

definition job_ok :: "(bytes \<Rightarrow> bool) \<Rightarrow> ('d, 'h) disk_queue \<Rightarrow> persist_job \<Rightarrow> bool" where
  "job_ok P q job \<longleftrightarrow>
     fits P (dq_files q) (last_seq q) (first_body q) (dq_read_seq q) (dq_read_offset q) (pj_cursor job) \<and>
     (\<forall>seq \<in> set (pj_unlink job). seq < dq_read_seq q)"

lemma run_persist_job_unseen:
  assumes "spool_ok E P q" and "job_ok P q job"
  shows "unseen E P q (run_persist_job E job q)"
proof -
  have u: "unseen E P q (persist_cursor E (pj_cursor job) q)" (is "unseen E P q ?q")
    using assms by (intro persist_cursor_unseen) (simp_all add: job_ok_def)
  note ok = unseenD(1)[OF u] unseen_read_seq[OF u]
  show ?thesis
    using u assms(2) unlink_all_unseen[OF ok(1), of "pj_unlink job"] ok(2)
    by (auto simp: run_persist_job_def job_ok_def intro: unseen_trans)
qed

lemma queue_persist_unseen:
  assumes "spool_ok E P q" and "job_ok P q job"
  shows "unseen E P q (queue_persist E job q)"
proof (cases "dq_worker q")
  case True
  have "spool_ok E P (q\<lparr>dq_jobs := dq_jobs q @ [job]\<rparr>)"
    using assms by (auto simp: spool_ok_def saved_ok_def saved_def job_ok_def first_body_def waiting_def stream_def)
  then show ?thesis using True by (simp add: queue_persist_def unseen_def stream_def front_def core_def)
qed (use run_persist_job_unseen[OF assms] in \<open>simp add: queue_persist_def\<close>)

lemma worker_turn_unseen:
  assumes "spool_ok E P q"
  shows "unseen E P q (worker_turn E q)"
proof (cases "dq_jobs q")
  case Nil
  then show ?thesis using assms by (simp add: worker_turn_def unseen_def)
next
  case (Cons job jobs)
  let ?q = "q\<lparr>dq_jobs := jobs\<rparr>"
  have "spool_ok E P ?q" using assms Cons
    by (auto simp: spool_ok_def saved_ok_def saved_def first_body_def waiting_def stream_def)
  moreover have "job_ok P ?q job" using assms Cons
    by (auto simp: spool_ok_def saved_ok_def saved_def job_ok_def first_body_def)
  ultimately have "unseen E P ?q (run_persist_job E job ?q)" by (rule run_persist_job_unseen)
  moreover have "stream ?q = stream q" "front ?q = front q" by (simp_all add: stream_def front_def core_def)
  ultimately show ?thesis using Cons by (simp add: worker_turn_def unseen_def)
qed


section \<open>Rolling the read cursor\<close>

lemma remove_segments:
  assumes "dq_segments q = gone @ rest" and "ascending (gone @ rest)"
  shows "\<exists>f. fold remove_segment (map seg_seq gone) q =
    q\<lparr>dq_segments := rest, dq_total_bytes := dq_total_bytes q - seg_sum gone, dq_read_file := f\<rparr>"
  using assms
proof (induction gone arbitrary: q)
  case Nil
  then show ?case by (intro exI[of _ "dq_read_file q"]) simp
next
  case (Cons s gone)
  let ?q = "remove_segment (seg_seq s) q"
  let ?f = "if dq_read_file q = Some (seg_seq s) then None else dq_read_file q"
  have q: "?q = q\<lparr>dq_segments := gone @ rest, dq_total_bytes := dq_total_bytes q - seg_len s, dq_read_file := ?f\<rparr>"
    using Cons.prems(1) by (cases q) (simp add: remove_segment_def Let_def)
  from Cons.IH[of ?q] Cons.prems obtain g where
    "fold remove_segment (map seg_seq gone) ?q =
       ?q\<lparr>dq_segments := rest, dq_total_bytes := dq_total_bytes ?q - seg_sum gone, dq_read_file := g\<rparr>"
    by (auto simp: q)
  then show ?case by (intro exI[of _ g]) (simp add: q)
qed

lemma length_bodies:
  "\<forall>s \<in> set segs. seg_len s \<le> length (on_disk files (seg_seq s)) \<Longrightarrow> length (concat (map (body files) segs)) = seg_sum segs"
  by (induction segs) (auto simp: body_def)

lemma reads_len: "reads E r item \<Longrightarrow> 0 < length r"
  by (auto simp: reads_def CONTEXT_LEN_def dest!: parse_record_len)

lemma ahead_positive:
  assumes "ahead_ok E segs offset pending ahead" and "ahead \<noteq> []"
  shows "0 < ra_len (hd ahead)"
proof -
  obtain e rest where "ahead = e # rest" using assms(2) by (cases ahead) auto
  then show ?thesis using assms(1) reads_len[of E "[]" "ra_item e"] by (cases pending) (auto simp: ahead_ok_def)
qed

lemma ends_at_roll:
  assumes at: "ends_at (gone @ rest) pos e" and past: "seg_sum gone < pos"
  shows "ends_at rest (pos - seg_sum gone) e"
proof -
  obtain pre s post where p: "gone @ rest = pre @ s # post" "seg_seq s = ra_seg e"
      "ra_offset e + ra_len e \<le> seg_len s" "seg_sum pre + (ra_offset e + ra_len e) = pos"
    using at by (auto simp: ends_at_def)
  obtain us where us: "(gone = pre @ us \<and> us @ rest = s # post) \<or> (gone @ us = pre \<and> rest = us @ s # post)"
    using p(1) by (auto simp: append_eq_append_conv2)
  have "\<exists>us. pre = gone @ us \<and> rest = us @ s # post"
  proof (cases us)
    case (Cons x xs)
    then show ?thesis using us p(3,4) past by auto
  qed (use us in auto)
  then obtain us where u: "pre = gone @ us" "rest = us @ s # post" by blast
  then have "seg_sum us + (ra_offset e + ra_len e) = pos - seg_sum gone" using p(4) by simp
  with p(2,3) u(2) show ?thesis unfolding ends_at_def by blast
qed

lemma ahead_ok_roll:
  assumes ok: "ahead_ok E (gone @ rest) offset pending ahead" and off: "off + seg_sum gone = offset"
  shows "ahead_ok E rest off pending ahead"
proof (cases "ahead = []")
  case True
  then show ?thesis by (simp add: ahead_ok_def)
next
  case False
  have pos: "0 < sum_list (map ra_len ahead)"
    using ahead_positive[OF ok False] False by (cases ahead) auto
  have "ends_at (gone @ rest) (offset + sum_list (map ra_len ahead)) (last ahead)"
    using ok False by (simp add: ahead_ok_def)
  from ends_at_roll[OF this] off pos
  have "ends_at rest (off + sum_list (map ra_len ahead)) (last ahead)" by fastforce
  then show ?thesis using ok by (simp add: ahead_ok_def)
qed

lemma files_ok_roll:
  assumes so: "segments_ok P files (gone @ rest) read_seq total_bytes" and rest: "rest \<noteq> []"
    and fo: "files_ok P files (gone @ rest) read_seq repair rotating"
  shows "files_ok P files rest (seg_seq (hd rest)) repair rotating"
proof -
  have asc: "\<forall>x \<in> set gone. seg_seq x < seg_seq (hd rest)"
    using so rest by (cases rest) (auto simp: segments_ok_def sorted_wrt_append)
  have rs: "read_seq \<le> seg_seq (hd rest)" using tracked_from[OF so] rest by simp
  have gone: "sealed P (on_disk files (seg_seq x))" if "x \<in> set gone" for x
  proof -
    have "length (on_disk files (seg_seq x)) = seg_len x" "sealed P (body files x)"
      using that fo so rest by (auto simp: files_ok_def segments_ok_def butlast_append)
    then show ?thesis by (simp add: body_def)
  qed
  have "file_known P rest (seg_seq (hd rest)) repair rotating seq bs" if "map_of files seq = Some bs" for seq bs
  proof -
    have known: "file_known P (gone @ rest) read_seq repair rotating seq bs" using fo that by (simp add: files_ok_def)
    show ?thesis
    proof (cases "seq \<in> seg_seq ` set gone")
      case True
      then obtain x where x: "x \<in> set gone" "seq = seg_seq x" by blast
      from gone[OF x(1)] x asc that show ?thesis by (simp add: file_known_def on_disk_def)
    qed (use known rs rest in \<open>auto simp: file_known_def\<close>)
  qed
  then show ?thesis using fo rest by (simp add: files_ok_def butlast_append)
qed

lemma saved_ok_roll:
  assumes so: "segments_ok P files (gone @ s # post) read_seq total_bytes"
    and fo: "files_ok P files (gone @ s # post) read_seq repair rotating"
    and gone: "gone \<noteq> []" and offset: "offset = seg_len (hd gone)"
    and ok: "saved_ok P files end_seq (body files (hd gone)) read_seq offset doc jobs"
  shows "saved_ok P files end_seq first (seg_seq s) off doc jobs"
proof -
  have rs: "read_seq = seg_seq (hd gone)" "read_seq < seg_seq s"
    using so gone by (auto simp: segments_ok_def sorted_wrt_append)
  have whole_file: "take offset (body files (hd gone)) = on_disk files read_seq" "length (on_disk files read_seq) = offset"
    using fo gone rs(1) offset by (auto simp: files_ok_def body_def butlast_append)
  have there: "map_of files read_seq \<noteq> None" using so gone rs(1) by (cases gone) (auto simp: segments_ok_def)
  have "fits P files end_seq first (seg_seq s) off at" if f: "fits P files end_seq (body files (hd gone)) read_seq offset at" for at
  proof (cases "fst at = read_seq")
    case True
    then have "snd at \<le> offset" "sealed P (take (snd at) (take offset (body files (hd gone))))"
        "sealed P (drop (snd at) (take offset (body files (hd gone))))"
      using f there rs(2) by (auto simp: fits_def min_def)
    then show ?thesis unfolding whole_file(1) using whole_file(2) True there rs(2) by (auto simp: fits_def on_disk_def)
  qed (use f rs in \<open>auto simp: fits_def\<close>)
  then show ?thesis using ok rs(2) by (fastforce simp: saved_ok_def)
qed

lemma rolled_ok:
  assumes ok: "spool_ok E P q" and segs: "dq_segments q = gone @ s # post"
    and off: "off + seg_sum gone = dq_read_offset q" "off \<le> seg_len s"
  shows "spool_ok E P (q\<lparr>dq_segments := s # post, dq_total_bytes := dq_total_bytes q - seg_sum gone,
           dq_read_seq := seg_seq s, dq_read_offset := off\<rparr>)" (is "spool_ok E P ?q")
    and "stream (q\<lparr>dq_segments := s # post, dq_total_bytes := dq_total_bytes q - seg_sum gone,
           dq_read_seq := seg_seq s, dq_read_offset := off\<rparr>) = stream q"
proof -
  note parts = ok[unfolded spool_ok_def segs]
  have so: "segments_ok P (dq_files q) (gone @ s # post) (dq_read_seq q) (dq_total_bytes q)" using parts by blast
  have fo: "files_ok P (dq_files q) (gone @ s # post) (dq_read_seq q) (dq_needs_repair q) (dq_rotation_started q)" using parts by blast
  have "length (concat (map (body (dq_files q)) gone)) = seg_sum gone"
    using so by (intro length_bodies) (simp add: segments_ok_def)
  then have e: "dq_read_offset q = length (concat (map (body (dq_files q)) gone)) + off" using off(1) by simp
  have d: "drop (length a + n) (a @ b) = drop n b" for a b :: bytes and n by simp
  show st: "stream ?q = stream q"
    unfolding stream_def segs e map_append concat_append d by simp
  then have w: "waiting E ?q = waiting E q" by (simp add: waiting_def)
  show "spool_ok E P ?q"
  proof (cases gone)
    case Nil
    then have "?q = q" using off segs so by (cases q) (simp add: segments_ok_def)
    then show ?thesis using ok by simp
  next
    case (Cons g gs)
    have "dq_read_offset q \<le> seg_len g" using parts Cons by (simp add: cursor_ok_def)
    then have z: "off = 0" "dq_read_offset q = seg_len g" using off Cons by auto
    have "segments_ok P (dq_files q) (s # post) (seg_seq s) (dq_total_bytes q - seg_sum gone)"
      using so ascending_split(3)[of gone s post] by (simp add: segments_ok_def)
    moreover have "files_ok P (dq_files q) (s # post) (seg_seq s) (dq_needs_repair q) (dq_rotation_started q)"
      using files_ok_roll[OF so _ fo] by simp
    moreover have "cursor_ok P (body (dq_files q) s) (seg_len s) off"
      using parts so z by (simp add: cursor_ok_def segments_ok_def)
    moreover have "ahead_ok E (s # post) off (waiting E q) (dq_read_ahead q)"
      using ahead_ok_roll[OF _ off(1)] parts by blast
    moreover have "saved_ok P (dq_files q) (seg_seq (last (s # post))) (body (dq_files q) s) (seg_seq s) off (dq_cursor q) (dq_jobs q)"
    proof -
      have "saved_ok P (dq_files q) (seg_seq (last (s # post))) (body (dq_files q) (hd gone)) (dq_read_seq q) (dq_read_offset q) (dq_cursor q) (dq_jobs q)"
        using ok Cons segs by (simp add: spool_ok_def first_body_def)
      then show ?thesis using z Cons by (intro saved_ok_roll[OF so fo]) simp_all
    qed
    ultimately show ?thesis by (simp add: spool_ok_def w first_body_def)
  qed
qed

text \<open>What rolling the cursor does: finished segments go, and the records waiting stay the same.\<close>

definition rolled :: "('d, 'h) spool_env \<Rightarrow> (bytes \<Rightarrow> bool) \<Rightarrow> ('d, 'h) disk_queue \<Rightarrow> ('d, 'h) disk_queue \<Rightarrow> bool" where
  "rolled E P q q' \<longleftrightarrow> spool_ok E P q' \<and> stream q' = stream q \<and>
     (\<exists>gone. dq_segments q = gone @ dq_segments q' \<and> seg_seq ` set gone \<subseteq> {..<dq_read_seq q'} \<and>
        front q' = front (q\<lparr>dq_segments := dq_segments q', dq_total_bytes := dq_total_bytes q',
          dq_read_seq := dq_read_seq q', dq_read_offset := dq_read_offset q'\<rparr>))"

lemma rolledD:
  assumes "rolled E P q q'"
  shows "spool_ok E P q'" "stream q' = stream q" "waiting E q' = waiting E q"
    "dq_config q' = dq_config q" "dq_queued_records q' = dq_queued_records q" "dq_read_ahead q' = dq_read_ahead q"
    "dq_needs_repair q' = dq_needs_repair q" "dq_rotation_started q' = dq_rotation_started q"
    "dq_closed q' = dq_closed q" "last (dq_segments q') = last (dq_segments q)"
proof -
  obtain gone where g: "dq_segments q = gone @ dq_segments q'"
    and f: "front q' = front (q\<lparr>dq_segments := dq_segments q', dq_total_bytes := dq_total_bytes q',
          dq_read_seq := dq_read_seq q', dq_read_offset := dq_read_offset q'\<rparr>)"
    using assms by (auto simp: rolled_def)
  show "spool_ok E P q'" "stream q' = stream q" "waiting E q' = waiting E q"
    using assms by (simp_all add: rolled_def waiting_def)
  then have "dq_segments q' \<noteq> []" by (simp add: spool_ok_def segments_ok_def)
  then show "last (dq_segments q') = last (dq_segments q)" using g by simp
  show "dq_config q' = dq_config q" "dq_queued_records q' = dq_queued_records q" "dq_read_ahead q' = dq_read_ahead q"
    "dq_needs_repair q' = dq_needs_repair q" "dq_rotation_started q' = dq_rotation_started q" "dq_closed q' = dq_closed q"
    using front_fields[OF f] by simp_all
qed

lemma rolled_refl: "spool_ok E P q \<Longrightarrow> rolled E P q q"
  by (auto simp: rolled_def intro: exI[of _ "[]"])

lemma readable_stream:
  assumes ok: "spool_ok E P q" and fin: "tl (dq_segments q) = [] \<or> dq_read_offset q < seg_len (hd (dq_segments q))"
  shows "readable q \<longleftrightarrow> stream q \<noteq> []"
proof -
  obtain s post where segs: "dq_segments q = s # post" using ok by (cases "dq_segments q") (auto simp: spool_ok_def segments_ok_def)
  have l: "length (body (dq_files q) s) = seg_len s" using ok segs by (auto simp: spool_ok_def segments_ok_def body_def)
  have "readable q \<longleftrightarrow> dq_read_offset q < seg_len s"
    using ok segs by (simp add: readable_def spool_ok_def segments_ok_def find_len_def)
  then show ?thesis using fin segs l by (auto simp: stream_def)
qed

lemma roll_read_cursor_rolled:
  assumes ok: "spool_ok E P q"
  shows "rolled E P q (snd (roll_read_cursor E q))"
    and "fst (roll_read_cursor E q) \<longleftrightarrow> stream q \<noteq> []"
    and "readable (snd (roll_read_cursor E q)) \<longleftrightarrow> stream q \<noteq> []"
    and "tl (dq_segments (snd (roll_read_cursor E q))) = [] \<or>
      dq_read_offset (snd (roll_read_cursor E q)) < seg_len (hd (dq_segments (snd (roll_read_cursor E q))))"
proof -
  obtain s post where segs: "dq_segments q = s # post" using ok by (cases "dq_segments q") (auto simp: spool_ok_def segments_ok_def)
  have asc: "ascending (s # post)" and rs: "dq_read_seq q = seg_seq s" and off: "dq_read_offset q \<le> seg_len s"
    using ok segs by (auto simp: spool_ok_def segments_ok_def cursor_ok_def)
  from roll_loop_split[of "[]" s post "dq_read_offset q" "[]"] asc off obtain gone s' post' off' where
      loop: "roll_loop (dq_segments q) (dq_read_seq q) (dq_read_offset q) [] = (seg_seq s', off', map seg_seq gone)"
    and sp: "s # post = gone @ s' # post'" and sum: "off' + seg_sum gone = dq_read_offset q" and le: "off' \<le> seg_len s'"
    and fin: "post' = [] \<or> off' < seg_len s'"
    by (auto simp: segs rs)
  let ?q0 = "q\<lparr>dq_read_seq := seg_seq s', dq_read_offset := off'\<rparr>"
  let ?q1 = "q\<lparr>dq_segments := s' # post', dq_total_bytes := dq_total_bytes q - seg_sum gone,
      dq_read_seq := seg_seq s', dq_read_offset := off'\<rparr>"
  obtain f where "fold remove_segment (map seg_seq gone) ?q0 =
      ?q0\<lparr>dq_segments := s' # post', dq_total_bytes := dq_total_bytes ?q0 - seg_sum gone, dq_read_file := f\<rparr>"
    using remove_segments[of ?q0 gone "s' # post'"] asc segs sp by auto
  then have fold: "fold remove_segment (map seg_seq gone) ?q0 = ?q1\<lparr>dq_read_file := f\<rparr>" by simp
  have ok1: "spool_ok E P ?q1" and st1: "stream ?q1 = stream q"
    using rolled_ok[OF ok _ sum le] segs sp by simp_all
  have less: "\<forall>x \<in> set gone. seg_seq x < seg_seq s'" using asc sp ascending_split(1)[of gone s' post'] by simp
  let ?job = "\<lparr>pj_cursor = (seg_seq s', off'), pj_unlink = map seg_seq gone\<rparr>"
  have job: "job_ok P q' ?job" if "core q' = core ?q1" for q'
    using less core_fields[OF that] ok1 by (simp add: job_ok_def fits_def spool_ok_def cursor_ok_def first_body_def)
  have roll: "roll_read_cursor E q = (let q' = fold remove_segment (map seg_seq gone) ?q0 in
      if gone = [] then (readable q', q')
      else (readable q', queue_persist E ?job (q'\<lparr>dq_last_checkpoint := sv_now E (dq_clock q')\<rparr>)))"
    unfolding roll_read_cursor_def loop by (simp add: Let_def)
  have res: "\<exists>q'. roll_read_cursor E q = (readable ?q1, q') \<and> unseen E P ?q1 q'"
  proof (cases "gone = []")
    case True
    then have "roll_read_cursor E q = (readable ?q1, ?q1\<lparr>dq_read_file := f\<rparr>)"
      unfolding roll fold Let_def by (simp add: readable_def split: option.split)
    then show ?thesis using unseen_core[OF ok1] by simp
  next
    case False
    let ?q2 = "?q1\<lparr>dq_read_file := f, dq_last_checkpoint := sv_now E (dq_clock q)\<rparr>"
    have c: "core ?q2 = core ?q1" by simp
    have "unseen E P ?q2 (queue_persist E ?job ?q2)"
      by (rule queue_persist_unseen[OF iffD2[OF core_ok[OF c] ok1] job[OF c]])
    from unseen_trans[OF unseen_core[OF ok1 c] this] have "unseen E P ?q1 (queue_persist E ?job ?q2)" .
    moreover have "roll_read_cursor E q = (readable ?q1, queue_persist E ?job ?q2)"
      unfolding roll fold Let_def using False by (simp add: readable_def split: option.split)
    ultimately show ?thesis by blast
  qed
  then obtain q' where q': "roll_read_cursor E q = (readable ?q1, q')" "unseen E P ?q1 q'" by blast
  note ff = front_fields[OF unseenD(4)[OF q'(2)]]
  have rd: "readable q' \<longleftrightarrow> stream q' \<noteq> []"
    using fin ff by (intro readable_stream[OF unseenD(1)[OF q'(2)]]) auto
  have rd1: "readable ?q1 \<longleftrightarrow> stream q \<noteq> []"
    using readable_stream[OF ok1] fin st1 by auto
  show "rolled E P q (snd (roll_read_cursor E q))"
    unfolding rolled_def q'(1) snd_conv
    using unseenD[OF q'(2)] ff st1 segs sp less
    by (intro conjI exI[of _ gone]) auto
  show "fst (roll_read_cursor E q) \<longleftrightarrow> stream q \<noteq> []" using q'(1) rd1 by simp
  show "readable (snd (roll_read_cursor E q)) \<longleftrightarrow> stream q \<noteq> []"
    using q'(1) rd unseenD(2)[OF q'(2)] st1 by simp
  show "tl (dq_segments (snd (roll_read_cursor E q))) = [] \<or>
      dq_read_offset (snd (roll_read_cursor E q)) < seg_len (hd (dq_segments (snd (roll_read_cursor E q))))"
    using fin ff q'(1) by auto
qed


lemma rolled_unseen:
  assumes "rolled E P q q'" and "unseen E P q' q''" shows "rolled E P q q''"
  using assms front_fields[OF unseenD(4)[OF assms(2)]] by (auto simp: rolled_def unseen_def)

lemma rolled_trans_core:
  assumes "rolled E P q q'" and "core q'' = core q'" shows "rolled E P q q''"
  using rolled_unseen[OF assms(1) unseen_core[OF rolledD(1)[OF assms(1)] assms(2)]] .

lemma after_cursor_advance_rolled:
  assumes "spool_ok E P q"
  shows "rolled E P q (after_cursor_advance E q)"
proof -
  let ?q = "snd (roll_read_cursor E q)"
  have r: "rolled E P q ?q" using roll_read_cursor_rolled(1)[OF assms] .
  have "unseen E P ?q (after_cursor_advance E q)"
  proof (cases "sv_now E (dq_clock ?q) - dq_last_checkpoint ?q \<ge> cf_checkpoint_interval (dq_config ?q)")
    case True
    let ?q' = "?q\<lparr>dq_last_checkpoint := sv_now E (dq_clock ?q)\<rparr>"
    have u: "unseen E P ?q ?q'" by (rule unseen_core[OF rolledD(1)[OF r]]) simp
    have "job_ok P ?q' \<lparr>pj_cursor = (dq_read_seq ?q, dq_read_offset ?q), pj_unlink = []\<rparr>"
      using rolledD(1)[OF r] by (simp add: job_ok_def fits_def spool_ok_def cursor_ok_def first_body_def)
    from unseen_trans[OF u queue_persist_unseen[OF unseenD(1)[OF u] this]] True
    show ?thesis by (simp add: after_cursor_advance_def Let_def)
  qed (use rolledD(1)[OF r] in \<open>simp add: after_cursor_advance_def Let_def unseen_def\<close>)
  from rolled_unseen[OF r this] show ?thesis .
qed

end
