(* ===== verification/Spool_Reader.thy ===== *)
theory Spool_Reader
  imports Spool_Invariant
begin

text \<open>
  The consumer's side of the spool: reading a record, looking ahead, committing and evicting, each
  keeping the invariant, with what it does to the records waiting.
\<close>

section \<open>Reading\<close>

lemma read_at_core: "core (snd (read_at E seq offset n q)) = core q"
  by (simp add: read_at_def split: io_step.split option.split)

lemma file_bytes_core:
  assumes "core q' = core q" shows "file_bytes seq q' = file_bytes seq q"
  by (simp add: file_bytes_def core_fields[OF assms])

text \<open>The result of reading where the record \<open>r\<close> stands: the record, or nothing when the disk does not answer.\<close>

definition read_whole ::
    "('d, 'h) spool_env \<Rightarrow> bytes \<Rightarrow> ('d, 'h) disk_queue \<Rightarrow> ('d, 'h) read_outcome \<times> ('d, 'h) disk_queue \<Rightarrow> bool" where
  "read_whole E r q res \<longleftrightarrow> core (snd res) = core q \<and>
     ((\<exists>item. fst res = Read_Record item (length r) \<and> reads E r item) \<or>
      fst res = Read_Unavailable \<and> \<not> (\<forall>c. sv_io E c = Io_Ok))"

lemma read_grow_whole:
  assumes r: "kept E r" and bs: "file_bytes seq q = Some bs" and at: "take left (drop offset bs) = r @ rest"
    and len: "length (r @ rest) = left" and chunk: "0 < chunk" "chunk \<le> left"
  shows "\<exists>q'. core q' = core q \<and>
    ((\<exists>item. read_grow E seq offset left chunk q = (Grown_Record item (length r), q') \<and> reads E r item) \<or>
     read_grow E seq offset left chunk q = (Grown_Nothing, q') \<and> \<not> (\<forall>c. sv_io E c = Io_Ok))"
  using bs chunk
proof (induction "left - chunk" arbitrary: chunk q rule: less_induct)
  case less
  have buf: "take chunk (drop offset bs) = take chunk (r @ rest)"
    using at less.prems(3) by (metis min.absorb1 take_take)
  show ?case
  proof (cases "sv_io E (dq_clock q) = Io_Ok")
    case False
    then have "read_at E seq offset chunk q = (None, (dq_tick q)\<lparr>dq_read_file := None\<rparr>)"
      by (simp add: read_at_def split: io_step.splits)
    then show ?thesis using False
      by (intro exI[of _ "(dq_tick q)\<lparr>dq_read_file := None\<rparr>"]) (auto simp: read_grow.simps[of E])
  next
    case True
    let ?q = "(dq_tick q)\<lparr>dq_read_file := Some seq\<rparr>"
    have c: "core ?q = core q" by simp
    have ra: "read_at E seq offset chunk q = (Some (take chunk (r @ rest)), ?q)"
      using True less.prems(1) buf by (simp add: read_at_def)
    have full: "length (take chunk (r @ rest)) = chunk" using len less.prems(3) by simp
    let ?t = "sv_table E (dq_clock ?q) offset"
    show ?thesis
    proof (cases "chunk < length r")
      case True
      then obtain k where k: "parse_record (sv_record E) ?t (take chunk r) = Inl (Truncated k)" "0 < k" "k \<le> length r - chunk"
        using r unfolding kept_def by blast
      have lt: "chunk < left" "chunk + k \<le> left" using True len k(3) by auto
      then have rg: "read_grow E seq offset left chunk q = read_grow E seq offset left (chunk + k) ?q"
        using ra full True k by (simp add: read_grow.simps[of E seq offset left chunk] Let_def)
      have fb: "file_bytes seq ?q = Some bs" using less.prems(1) file_bytes_core[OF c] by simp
      have "left - (chunk + k) < left - chunk" using lt k(2) by simp
      from less.hyps[OF this fb _ lt(2)] less.prems(2) show ?thesis unfolding rg c by simp
    next
      case False
      then have t: "take chunk (r @ rest) = r @ take (chunk - length r) rest" by simp
      obtain item where "parse_record (sv_record E) ?t (r @ take (chunk - length r) rest) = Inr (item, length r)"
        using r unfolding kept_def by blast
      then have "read_grow E seq offset left chunk q = (Grown_Record item (length r), ?q)" "reads E r item"
        using ra full t by (auto simp: read_grow.simps[of E seq offset left chunk] reads_def simp del: take_append)
      then show ?thesis using c by blast
    qed
  qed
qed

lemma tracked_file:
  assumes "spool_ok E P q" and "s \<in> set (dq_segments q)"
  shows "file_bytes (seg_seq s) q = Some (on_disk (dq_files q) (seg_seq s))"
    and "seg_len s \<le> length (on_disk (dq_files q) (seg_seq s))" and "sealed P (body (dq_files q) s)"
  using assms by (auto simp: spool_ok_def segments_ok_def file_bytes_def on_disk_def split: option.splits)

lemma read_record_at_whole:
  assumes ok: "spool_ok E P q" and segs: "dq_segments q = pre @ s # post" and r: "kept E r"
    and at: "drop offset (body (dq_files q) s) = r @ rest"
  shows "read_whole E r q (read_record_at E (seg_seq s) offset q)"
proof -
  let ?left = "seg_len s - offset" and ?bs = "on_disk (dq_files q) (seg_seq s)"
  have s: "s \<in> set (dq_segments q)" using segs by simp
  note tf = tracked_file[OF ok s]
  have fl: "find_len (seg_seq s) (dq_segments q) = Some (seg_len s)"
    using ok segs find_split(2) by (simp add: spool_ok_def segments_ok_def)
  have tk: "take ?left (drop offset ?bs) = r @ rest" using at by (simp add: body_def drop_take)
  have len: "length (r @ rest) = ?left" using at tf(2) by (simp add: body_def flip: at)
  then have lt: "offset < seg_len s" using kept_nonempty[OF r] by (cases "offset < seg_len s") auto
  have "0 < min READ_CHUNK_INITIAL ?left" using lt by (simp add: READ_CHUNK_INITIAL_def)
  from read_grow_whole[OF r tf(1) tk len this] obtain q' where "core q' = core q"
    "(\<exists>item. read_grow E (seg_seq s) offset ?left (min READ_CHUNK_INITIAL ?left) q = (Grown_Record item (length r), q') \<and> reads E r item) \<or>
     read_grow E (seg_seq s) offset ?left (min READ_CHUNK_INITIAL ?left) q = (Grown_Nothing, q') \<and> \<not> (\<forall>c. sv_io E c = Io_Ok)"
    by auto
  then show ?thesis using fl lt by (auto simp: read_whole_def read_record_at_def)
qed

section \<open>The record at the cursor\<close>

lemma stream_split:
  assumes ok: "spool_ok E P q"
  shows "stream q = drop (dq_read_offset q) (first_body q) @ concat (map (body (dq_files q)) (tl (dq_segments q)))"
proof -
  obtain s post where segs: "dq_segments q = s # post" using ok by (cases "dq_segments q") (auto simp: spool_ok_def segments_ok_def)
  have "length (body (dq_files q) s) = seg_len s" using tracked_file(2)[OF ok, of s] segs by (simp add: body_def)
  then show ?thesis using ok segs by (simp add: stream_def first_body_def spool_ok_def cursor_ok_def)
qed

lemma nonempty_segments: "spool_ok E P q \<Longrightarrow> dq_segments q \<noteq> []"
  by (simp add: spool_ok_def segments_ok_def)

lemma sealed_stream:
  assumes ok: "spool_ok E P q" shows "sealed P (stream q)"
proof -
  have "sealed P (concat (map (body (dq_files q)) (tl (dq_segments q))))"
    using tracked_file(3)[OF ok] by (intro sealed_concat) (metis (no_types) list.set_sel(2) nonempty_segments[OF ok])
  then show ?thesis using ok by (auto simp: stream_split[OF ok] spool_ok_def cursor_ok_def)
qed

lemma length_first:
  assumes ok: "spool_ok E P q" shows "length (first_body q) = seg_len (hd (dq_segments q))"
  using tracked_file(2)[OF ok, of "hd (dq_segments q)"] nonempty_segments[OF ok] by (simp add: first_body_def body_def)

context record_kind
begin

lemma waiting_concat: "spool_ok E P q \<Longrightarrow> list_all P (waiting E q) \<and> concat (waiting E q) = stream q"
  using chop_sealed[OF sealed_stream] by (simp add: waiting_def)

lemma waiting_empty: "spool_ok E P q \<Longrightarrow> waiting E q = [] \<longleftrightarrow> stream q = []"
  using chop_empty[OF sealed_stream] by (simp add: waiting_def)

lemma record_at_cursor:
  assumes ok: "spool_ok E P q" and rd: "dq_read_offset q < seg_len (hd (dq_segments q))"
  shows "\<exists>r rest. P r \<and> sealed P rest \<and> drop (dq_read_offset q) (first_body q) = r @ rest \<and>
    waiting E q = r # chop E (rest @ concat (map (body (dq_files q)) (tl (dq_segments q))))"
proof -
  have "sealed P (drop (dq_read_offset q) (first_body q))" using ok by (simp add: spool_ok_def cursor_ok_def)
  moreover have "drop (dq_read_offset q) (first_body q) \<noteq> []" using rd length_first[OF ok] by simp
  ultimately obtain r rest where r: "P r" "sealed P rest" "drop (dq_read_offset q) (first_body q) = r @ rest"
    using sealed_head by blast
  then show ?thesis using chop_head stream_split[OF ok] by (auto simp: waiting_def)
qed

text \<open>Moving the cursor over that record, with the entry read ahead for it, if any.\<close>

lemma advance_ok:
  assumes ok: "spool_ok E P q" and r: "P r" "sealed P rest" "drop (dq_read_offset q) (first_body q) = r @ rest"
    and q': "q' = q\<lparr>dq_read_offset := dq_read_offset q + length r, dq_read_ahead := tl (dq_read_ahead q), dq_queued_records := n\<rparr>"
  shows "spool_ok E P q'" and "waiting E q = r # waiting E q'"
proof -
  let ?off = "dq_read_offset q"
  have fb: "first_body q' = first_body q" by (simp add: q' first_body_def)
  have len: "?off + length r \<le> seg_len (hd (dq_segments q))"
    using length_first[OF ok] arg_cong[OF r(3), of length] kept_nonempty[OF kind_kept[OF r(1)]]
    by (cases "?off \<le> length (first_body q)") auto
  have d: "drop (?off + length r) (first_body q) = rest" using r(3) by (metis add.commute append_eq_conv_conj drop_drop)
  have t: "take (?off + length r) (first_body q) = take ?off (first_body q) @ r" using r(3) by (simp add: take_add)
  have "stream q' = rest @ concat (map (body (dq_files q)) (tl (dq_segments q)))"
  proof -
    have "stream q' = drop (?off + length r) (first_body q @ concat (map (body (dq_files q)) (tl (dq_segments q))))"
      using nonempty_segments[OF ok] by (cases "dq_segments q") (simp_all add: q' stream_def first_body_def)
    then show ?thesis using d len length_first[OF ok] by simp
  qed
  then have st: "stream q = r @ stream q'" using stream_split[OF ok] r(3) by simp
  then show w: "waiting E q = r # waiting E q'" using chop_head[OF r(1)] by (simp add: waiting_def)
  have "cursor_ok P (first_body q) (seg_len (hd (dq_segments q))) (?off + length r)"
    using ok r(1,2) len t d by (auto simp: spool_ok_def cursor_ok_def sealed_one)
  moreover have "ahead_ok E (dq_segments q) (?off + length r) (waiting E q') (tl (dq_read_ahead q))"
  proof (cases "dq_read_ahead q")
    case (Cons e es)
    then have "ra_len e = length r" and a: "ahead_ok E (dq_segments q) ?off (r # waiting E q') (e # es)"
      using ok by (auto simp: spool_ok_def ahead_ok_def w)
    then show ?thesis using Cons by (auto simp: ahead_ok_def add.assoc)
  qed (simp add: ahead_ok_def)
  moreover have "saved_ok P (dq_files q) (last_seq q) (first_body q) (dq_read_seq q) (?off + length r) (dq_cursor q) (dq_jobs q)"
  proof -
    have there: "map_of (dq_files q) (dq_read_seq q) \<noteq> None"
      using ok by (cases "dq_segments q") (auto simp: spool_ok_def segments_ok_def)
    have "fits P (dq_files q) (last_seq q) (first_body q) (dq_read_seq q) (?off + length r) at"
      if f: "fits P (dq_files q) (last_seq q) (first_body q) (dq_read_seq q) ?off at" for at
    proof (cases "fst at = dq_read_seq q")
      case True
      then have "fst at = dq_read_seq q" "snd at \<le> ?off" "sealed P (take (snd at) (first_body q))"
          "sealed P (drop (snd at) (take ?off (first_body q)) @ r)"
        using f there r(1) sealed_one[of P r] by (auto simp: fits_def)
      moreover have "length (take ?off (first_body q)) = ?off" using len length_first[OF ok] by simp
      ultimately show ?thesis unfolding fits_def t by simp
    qed (use f in \<open>auto simp: fits_def\<close>)
    then show ?thesis using ok by (auto simp: spool_ok_def saved_ok_def)
  qed
  ultimately show "spool_ok E P q'"
    using ok fb unfolding spool_ok_def by (simp add: q')
qed

section \<open>Looking ahead\<close>

lemma records_align:
  assumes eq: "rs @ rs' = xs @ ys" and all: "list_all P (rs @ rs')" and le: "length (concat xs) \<le> length (concat rs)"
  shows "\<exists>zs. rs = xs @ zs \<and> ys = zs @ rs'"
proof -
  obtain us where us: "(rs = xs @ us \<and> us @ rs' = ys) \<or> (rs @ us = xs \<and> rs' = us @ ys)"
    using eq by (auto simp: append_eq_append_conv2)
  have "us = []" if "rs @ us = xs" "rs' = us @ ys"
  proof (rule ccontr)
    assume "us \<noteq> []"
    then obtain u vs where "us = u # vs" by (cases us) auto
    then show False using that le all kept_nonempty[OF kind_kept[of u]] by auto
  qed
  then show ?thesis using us by auto
qed

lemma record_within:
  assumes st: "stream q = a @ b @ c" and sealed: "sealed P a" "sealed P b" "sealed P c"
    and at: "length a + k = length (concat (take n (waiting E q)))" and k: "k < length b"
  shows "\<exists>r rest. P r \<and> drop k b = r @ rest \<and> n < length (waiting E q) \<and> waiting E q ! n = r"
proof -
  let ?w = "waiting E q"
  have w: "?w = chop E a @ chop E b @ chop E c" using chop_append sealed by (simp add: waiting_def st)
  note ca = chop_sealed[OF sealed(1)] and cb = chop_sealed[OF sealed(2)] and cc = chop_sealed[OF sealed(3)]
  have all: "list_all P (take n ?w @ drop n ?w)" using ca cb cc w by (metis append_take_drop_id list_all_append)
  have "take n ?w @ drop n ?w = chop E a @ (chop E b @ chop E c)" unfolding append_take_drop_id by (rule w)
  from records_align[OF this all] ca at obtain zs where
    zs: "take n ?w = chop E a @ zs" "chop E b @ chop E c = zs @ drop n ?w" by auto
  have lz: "length (concat zs) = k" using at ca zs(1) by simp
  have "list_all P (chop E b @ chop E c)" using cb cc by simp
  from records_align[OF zs(2) this] cb lz k obtain ys where ys: "chop E b = zs @ ys" "drop n ?w = ys @ chop E c" by auto
  have d: "drop k b = concat ys" using cb ys(1) lz by (metis append_eq_conv_conj concat_append)
  then have "ys \<noteq> []" using k by (metis concat.simps(1) drop_eq_Nil not_less)
  then obtain r ys' where r: "ys = r # ys'" by (cases ys) auto
  then have dn: "drop n ?w = r # (ys' @ chop E c)" using ys(2) by simp
  then have "n < length ?w" by (metis drop_eq_Nil list.distinct(1) not_less)
  moreover have "?w ! n = r" using dn calculation by (metis Cons_nth_drop_Suc list.inject)
  moreover have "P r" using cb ys(1) r by simp
  ultimately show ?thesis using d r by auto
qed

lemma sealed_bodies:
  assumes "spool_ok E P q" and "set segs \<subseteq> set (dq_segments q)"
  shows "sealed P (concat (map (body (dq_files q)) segs))"
  using assms tracked_file(3)[OF assms(1)] by (intro sealed_concat) auto

text \<open>A position inside a segment, at the end of the first \<open>n\<close> waiting records, has the next of them.\<close>

lemma record_at_position:
  assumes ok: "spool_ok E P q" and segs: "dq_segments q = pre @ s # post" and off: "off < seg_len s"
    and at: "seg_sum pre + off = dq_read_offset q + length (concat (take n (waiting E q)))"
  shows "\<exists>r rest. P r \<and> drop off (body (dq_files q) s) = r @ rest \<and> n < length (waiting E q) \<and> waiting E q ! n = r"
proof -
  let ?b = "body (dq_files q)" and ?o = "dq_read_offset q"
  have len: "length (?b s) = seg_len s" using tracked_file(2)[OF ok, of s] segs by (simp add: body_def)
  have sc: "sealed P (concat (map ?b post))" using sealed_bodies[OF ok] segs by auto
  show ?thesis
  proof (cases pre)
    case Nil
    have o: "?o \<le> seg_len s" "sealed P (drop ?o (?b s))"
      using ok segs Nil by (simp_all add: spool_ok_def cursor_ok_def first_body_def)
    have st: "stream q = [] @ drop ?o (?b s) @ concat (map ?b post)" using segs Nil o len by (simp add: stream_def)
    have "off - ?o < length (drop ?o (?b s))" "length [] + (off - ?o) = length (concat (take n (waiting E q)))"
      using off at len Nil by auto
    from record_within[OF st _ o(2) sc this(2,1)] at Nil show ?thesis by (simp add: add.commute)
  next
    case (Cons g gs)
    have o: "?o \<le> seg_len g" "sealed P (drop ?o (?b g))"
      using ok segs Cons by (simp_all add: spool_ok_def cursor_ok_def first_body_def)
    have lg: "length (?b g) = seg_len g" using tracked_file(2)[OF ok, of g] segs Cons by (simp add: body_def)
    have "length (concat (map ?b gs)) = seg_sum gs"
      using tracked_file(2)[OF ok] segs Cons by (intro length_bodies) simp
    then have la: "length (drop ?o (?b g) @ concat (map ?b gs)) + off = length (concat (take n (waiting E q)))"
      using at Cons lg o(1) by simp
    have sa: "sealed P (drop ?o (?b g) @ concat (map ?b gs))" using o(2) sealed_bodies[OF ok, of gs] segs Cons by auto
    have st: "stream q = (drop ?o (?b g) @ concat (map ?b gs)) @ ?b s @ concat (map ?b post)"
      using segs Cons o lg by (simp add: stream_def)
    have "sealed P (?b s)" using tracked_file(3)[OF ok, of s] segs by simp
    from record_within[OF st sa this sc la] off len show ?thesis by simp
  qed
qed

lemma ahead_sum:
  assumes ok: "spool_ok E P q"
  shows "sum_list (map ra_len (dq_read_ahead q)) = length (concat (take (length (dq_read_ahead q)) (waiting E q)))"
proof -
  have "list_all2 (\<lambda>e r. ra_len e = length r \<and> reads E r (ra_item e)) es rs \<Longrightarrow> sum_list (map ra_len es) = length (concat rs)" for es rs
    by (induction rule: list_all2_induct) auto
  moreover have "list_all2 (\<lambda>e r. ra_len e = length r \<and> reads E r (ra_item e)) (dq_read_ahead q)
      (take (length (dq_read_ahead q)) (waiting E q))" using ok by (simp add: spool_ok_def ahead_ok_def)
  ultimately show ?thesis by blast
qed

lemma next_record:
  assumes ok: "spool_ok E P q"
  shows "(\<exists>pre s post off r rest. next_read_position q = Some (seg_seq s, off) \<and> dq_segments q = pre @ s # post \<and> P r \<and>
            drop off (body (dq_files q) s) = r @ rest \<and>
            seg_sum pre + off = dq_read_offset q + sum_list (map ra_len (dq_read_ahead q)) \<and>
            length (dq_read_ahead q) < length (waiting E q) \<and> waiting E q ! length (dq_read_ahead q) = r) \<or>
         next_read_position q = None \<and> dq_read_offset q + sum_list (map ra_len (dq_read_ahead q)) = seg_sum (dq_segments q)"
proof -
  let ?pos = "dq_read_offset q + sum_list (map ra_len (dq_read_ahead q))"
  have asc: "ascending (dq_segments q)" using ok by (simp add: spool_ok_def segments_ok_def)
  obtain pre s post offset where p: "dq_segments q = pre @ s # post" "offset \<le> seg_len s" "seg_sum pre + offset = ?pos"
    and n: "next_read_position q = next_position_from (dq_segments q) (seg_seq s) offset"
  proof (cases "dq_read_ahead q = []")
    case True
    then show ?thesis using ok that[of "[]" "hd (dq_segments q)" "tl (dq_segments q)" "dq_read_offset q"]
      by (simp add: spool_ok_def segments_ok_def cursor_ok_def next_read_position_def)
  next
    case False
    let ?l = "last (dq_read_ahead q)"
    have "ends_at (dq_segments q) ?pos ?l" using ok False by (simp add: spool_ok_def ahead_ok_def)
    then obtain pre s post where "dq_segments q = pre @ s # post" "seg_seq s = ra_seg ?l"
        "ra_offset ?l + ra_len ?l \<le> seg_len s" "seg_sum pre + (ra_offset ?l + ra_len ?l) = ?pos"
      unfolding ends_at_def by blast
    then show ?thesis using False that[of pre s post "ra_offset ?l + ra_len ?l"] by (simp add: next_read_position_def Let_def)
  qed
  have "ascending (pre @ s # post)" using asc p(1) by simp
  from next_position_split[OF this p(2)]
  consider pre' s' post' off where "next_read_position q = Some (seg_seq s', off)" "dq_segments q = pre' @ s' # post'"
      "off < seg_len s'" "seg_sum pre' + off = ?pos"
    | "next_read_position q = None" "?pos = seg_sum (dq_segments q)"
    using p(1,3) n by auto
  then show ?thesis
  proof cases
    case 1
    from record_at_position[OF ok 1(2,3), of "length (dq_read_ahead q)"] 1(4) ahead_sum[OF ok]
    show ?thesis using 1(1,2,4) by auto
  qed simp
qed

lemma look_ok:
  assumes ok: "spool_ok E P q" and segs: "dq_segments q = pre @ s # post"
    and at: "seg_sum pre + off = dq_read_offset q + sum_list (map ra_len (dq_read_ahead q))"
    and r: "off + length r \<le> seg_len s" "reads E r item"
      "length (dq_read_ahead q) < length (waiting E q)" "waiting E q ! length (dq_read_ahead q) = r"
  shows "spool_ok E P (q\<lparr>dq_read_ahead := dq_read_ahead q @
    [\<lparr>ra_item = item, ra_seg = seg_seq s, ra_offset = off, ra_len = length r\<rparr>]\<rparr>)" (is "spool_ok E P (q\<lparr>dq_read_ahead := _ @ [?e]\<rparr>)")
proof -
  have "ends_at (dq_segments q) (dq_read_offset q + sum_list (map ra_len (dq_read_ahead q @ [?e]))) ?e"
    unfolding ends_at_def using segs at r(1) by (intro exI[of _ pre] exI[of _ s] exI[of _ post]) simp
  then have "ahead_ok E (dq_segments q) (dq_read_offset q) (waiting E q) (dq_read_ahead q @ [?e])"
    using ok r(2-4) by (auto simp: spool_ok_def ahead_ok_def take_Suc_conv_app_nth intro: list_all2_appendI)
  then show ?thesis using ok by (simp add: spool_ok_def first_body_def waiting_def stream_def)
qed

end

section \<open>The consumer's operations\<close>

text \<open>A step that takes nothing off the queue; it may have read further ahead.\<close>

definition looked :: "('d, 'h) spool_env \<Rightarrow> (bytes \<Rightarrow> bool) \<Rightarrow> ('d, 'h) disk_queue \<Rightarrow> ('d, 'h) disk_queue \<Rightarrow> bool" where
  "looked E P q q' \<longleftrightarrow> spool_ok E P q' \<and> stream q' = stream q \<and> dq_config q' = dq_config q \<and>
     dq_queued_records q' = dq_queued_records q \<and> dq_closed q' = dq_closed q \<and>
     prefix (dq_read_ahead q) (dq_read_ahead q')"

lemma looked_trans: "looked E P q q' \<Longrightarrow> looked E P q' q'' \<Longrightarrow> looked E P q q''"
  by (auto simp: looked_def)

lemma looked_rolled: "rolled E P q q' \<Longrightarrow> looked E P q q'"
  by (auto simp: looked_def dest: rolledD)

lemma looked_core:
  assumes "spool_ok E P q" and "core q' = core q" shows "looked E P q q'"
  using assms core_fields[OF assms(2)] core_stream[OF assms(2)] core_ok[OF assms(2)] by (simp add: looked_def)

lemma lookedD:
  assumes "looked E P q q'"
  shows "spool_ok E P q'" "stream q' = stream q" "waiting E q' = waiting E q" "dq_config q' = dq_config q"
    "dq_queued_records q' = dq_queued_records q" "dq_closed q' = dq_closed q" "prefix (dq_read_ahead q) (dq_read_ahead q')"
  using assms by (simp_all add: looked_def waiting_def)

lemma looked_counted:
  assumes "looked E P q q'" and "counted E q" shows "counted E q'"
  using assms(2) lookedD(3,5)[OF assms(1)] by (simp add: counted_def)

lemma at_head_core:
  assumes "core q' = core q" shows "at_head seq offset q' = at_head seq offset q"
  by (simp add: at_head_def core_fields[OF assms])

lemma readable_offset:
  assumes "spool_ok E P q" shows "readable q \<longleftrightarrow> dq_read_offset q < seg_len (hd (dq_segments q))"
  using assms nonempty_segments[OF assms] find_split(2)[of "[]" "hd (dq_segments q)" "tl (dq_segments q)"]
  by (simp add: readable_def spool_ok_def segments_ok_def)

lemma readable_core:
  assumes "core q' = core q" shows "readable q' = readable q"
  unfolding readable_def core_fields[OF assms] ..

lemma ahead_item:
  assumes "spool_ok E P q" and "n < length (dq_read_ahead q)"
  shows "n < length (waiting E q)" and "reads E (waiting E q ! n) (ra_item (dq_read_ahead q ! n))"
    and "ra_len (dq_read_ahead q ! n) = length (waiting E q ! n)"
proof -
  have a: "list_all2 (\<lambda>e r. ra_len e = length r \<and> reads E r (ra_item e)) (dq_read_ahead q)
      (take (length (dq_read_ahead q)) (waiting E q))"
    using assms(1) by (simp add: spool_ok_def ahead_ok_def)
  then have "length (dq_read_ahead q) = length (take (length (dq_read_ahead q)) (waiting E q))" by (rule list_all2_lengthD)
  then show "n < length (waiting E q)" using assms(2) by simp
  show "reads E (waiting E q ! n) (ra_item (dq_read_ahead q ! n))" "ra_len (dq_read_ahead q ! n) = length (waiting E q ! n)"
    using list_all2_nthD[OF a assms(2)] assms(2) by simp_all
qed

text \<open>What one look at the head may answer.\<close>

definition peek_answer :: "('d, 'h) spool_env \<Rightarrow> ('d, 'h) disk_queue \<Rightarrow> ('d, 'h) disk_queue \<Rightarrow> ('d, 'h) peeked \<Rightarrow> bool" where
  "peek_answer E q q' res \<longleftrightarrow>
     (case res of
        Peeked item \<Rightarrow> waiting E q \<noteq> [] \<and> reads E (hd (waiting E q)) item \<and>
          dq_read_ahead q' \<noteq> [] \<and> ra_item (hd (dq_read_ahead q')) = item
      | Peek_Ended \<Rightarrow> waiting E q = [] \<and> dq_closed q
      | Peek_Parked \<Rightarrow> waiting E q = [] \<and> \<not> dq_closed q
      | Peek_Again \<Rightarrow> waiting E q \<noteq> [] \<and> ((\<forall>c. sv_io E c = Io_Ok) \<longrightarrow> dq_read_ahead q = [] \<and> dq_read_ahead q' \<noteq> [])
      | Peek_Spins \<Rightarrow> False)"

context record_kind
begin

lemma read_at_head:
  assumes ok: "spool_ok E P q" and empty: "dq_read_ahead q = []" and rd: "readable q"
  shows "\<exists>r q'. core q' = core q \<and> waiting E q \<noteq> [] \<and> hd (waiting E q) = r \<and>
    ((\<exists>item. read_record_at E (dq_read_seq q) (dq_read_offset q) q = (Read_Record item (length r), q') \<and> reads E r item \<and>
        spool_ok E P (q'\<lparr>dq_read_ahead := [\<lparr>ra_item = item, ra_seg = dq_read_seq q, ra_offset = dq_read_offset q, ra_len = length r\<rparr>]\<rparr>)) \<or>
     read_record_at E (dq_read_seq q) (dq_read_offset q) q = (Read_Unavailable, q') \<and> \<not> (\<forall>c. sv_io E c = Io_Ok))"
proof -
  have off: "dq_read_offset q < seg_len (hd (dq_segments q))" using rd readable_offset[OF ok] by simp
  from record_at_cursor[OF ok this] obtain r rest w where r: "P r" "drop (dq_read_offset q) (first_body q) = r @ rest"
    "waiting E q = r # w" by blast
  obtain s post where segs: "dq_segments q = [] @ s # post" using nonempty_segments[OF ok] by (cases "dq_segments q") auto
  then have rs: "dq_read_seq q = seg_seq s" using ok by (simp add: spool_ok_def segments_ok_def)
  obtain res q' where res: "read_record_at E (dq_read_seq q) (dq_read_offset q) q = (res, q')" by (cases "read_record_at E (dq_read_seq q) (dq_read_offset q) q")
  have w: "read_whole E r q (res, q')"
    using read_record_at_whole[OF ok segs kind_kept[OF r(1)], of "dq_read_offset q" rest] r(2) segs rs res by (simp add: first_body_def)
  then have c: "core q' = core q" by (simp add: read_whole_def)
  note cf = core_fields[OF c]
  have len: "dq_read_offset q + length r \<le> seg_len s"
    using arg_cong[OF r(2), of length] length_first[OF ok] segs off by simp
  have look: "spool_ok E P (q'\<lparr>dq_read_ahead := [\<lparr>ra_item = item, ra_seg = dq_read_seq q, ra_offset = dq_read_offset q, ra_len = length r\<rparr>]\<rparr>)"
    if "reads E r item" for item
    using look_ok[of q' "[]" s post "dq_read_offset q" r item] core_ok[OF c] ok cf segs empty len that core_waiting[OF c] r(3) rs by simp
  show ?thesis
    using w c r(3) res look by (intro exI[of _ r] exI[of _ q']) (auto simp: read_whole_def)
qed

lemma peek_turn_ok:
  assumes ok: "spool_ok E P q" and res: "peek_turn E q = (res, q')"
  shows "looked E P q q' \<and> peek_answer E q q' res"
proof -
  let ?q = "snd (roll_read_cursor E q)"
  note roll = roll_read_cursor_rolled[OF ok]
  have ok1: "spool_ok E P ?q" and l1: "looked E P q ?q" using rolledD(1)[OF roll(1)] looked_rolled[OF roll(1)] by simp_all
  note d = rolledD[OF roll(1)]
  have w: "waiting E ?q = waiting E q" "stream ?q = stream q" using d by simp_all
  have ne: "stream q \<noteq> [] \<longleftrightarrow> waiting E q \<noteq> []" using waiting_empty[OF ok] by simp
  show ?thesis
  proof (cases "dq_read_ahead ?q")
    case (Cons e es)
    then have "res = Peeked (ra_item e)" "q' = ?q" using res by (auto simp: peek_turn_def Let_def)
    moreover have "waiting E ?q \<noteq> []" "reads E (hd (waiting E ?q)) (ra_item e)"
      using ahead_item[OF ok1, of 0] Cons by (auto simp: hd_conv_nth)
    ultimately show ?thesis using l1 w Cons by (simp add: peek_answer_def)
  next
    case Nil
    show ?thesis
    proof (cases "readable ?q")
      case False
      then have st: "stream q = []" using roll(3) by simp
      show ?thesis
      proof (cases "dq_closed ?q")
        case True
        then have "res = Peek_Ended" "q' = ?q" using res Nil False by (auto simp: peek_turn_def Let_def)
        then show ?thesis using l1 st ne True d by (simp add: peek_answer_def)
      next
        case alive: False
        have "fst (roll_read_cursor E ?q) = False" using roll_read_cursor_rolled(2)[OF ok1] w st by simp
        moreover have r2: "rolled E P ?q (snd (roll_read_cursor E ?q))" using roll_read_cursor_rolled(1)[OF ok1] .
        ultimately have "res = Peek_Parked" "q' = snd (roll_read_cursor E ?q)"
          using res Nil False alive rolledD(9)[OF r2] by (auto simp: peek_turn_def Let_def split: prod.splits if_splits)
        then show ?thesis
          using looked_trans[OF l1 looked_rolled[OF r2]] st ne alive d by (simp add: peek_answer_def)
      qed
    next
      case True
      from read_at_head[OF ok1 Nil this] obtain r q1 where c: "core q1 = core ?q" and wr: "waiting E ?q \<noteq> []"
        and cs: "(\<exists>item. read_record_at E (dq_read_seq ?q) (dq_read_offset ?q) ?q = (Read_Record item (length r), q1) \<and> reads E r item \<and>
            spool_ok E P (q1\<lparr>dq_read_ahead := [\<lparr>ra_item = item, ra_seg = dq_read_seq ?q, ra_offset = dq_read_offset ?q, ra_len = length r\<rparr>]\<rparr>)) \<or>
          read_record_at E (dq_read_seq ?q) (dq_read_offset ?q) ?q = (Read_Unavailable, q1) \<and> \<not> (\<forall>c. sv_io E c = Io_Ok)"
        by blast
      have hd1: "at_head (dq_read_seq ?q) (dq_read_offset ?q) q1" using Nil core_fields[OF c] by (simp add: at_head_def)
      have lc: "looked E P q q1" using looked_trans[OF l1 looked_core[OF ok1 c]] .
      from cs show ?thesis
      proof (elim disjE exE conjE)
        fix item
        let ?q2 = "q1\<lparr>dq_read_ahead := [\<lparr>ra_item = item, ra_seg = dq_read_seq ?q, ra_offset = dq_read_offset ?q, ra_len = length r\<rparr>]\<rparr>"
        assume "read_record_at E (dq_read_seq ?q) (dq_read_offset ?q) ?q = (Read_Record item (length r), q1)" and ok2: "spool_ok E P ?q2"
        then have "res = Peek_Again" "q' = ?q2" using res Nil True hd1 by (auto simp: peek_turn_def Let_def)
        moreover have "looked E P q ?q2" using lc ok2 Nil d(6) by (simp add: looked_def stream_def)
        ultimately show ?thesis using wr w Nil d(6) by (simp add: peek_answer_def)
      next
        assume "read_record_at E (dq_read_seq ?q) (dq_read_offset ?q) ?q = (Read_Unavailable, q1)" and io: "\<not> (\<forall>c. sv_io E c = Io_Ok)"
        then have "res = Peek_Again" "q' = dq_tick q1" using res Nil True by (auto simp: peek_turn_def Let_def)
        moreover have "looked E P q (dq_tick q1)" using looked_trans[OF lc looked_core[OF lookedD(1)[OF lc]]] by simp
        ultimately show ?thesis using wr w io by (auto simp: peek_answer_def)
      qed
    qed
  qed
qed

lemma peek_ok:
  assumes "spool_ok E P q" and "peek n E q = (res, q')"
  shows "looked E P q q' \<and> (res = Peek_Again \<or> peek_answer E q q' res)"
  using assms
proof (induction n arbitrary: q)
  case 0
  then show ?case using rolled_refl[THEN looked_rolled] by simp
next
  case (Suc n)
  obtain res1 q1 where t: "peek_turn E q = (res1, q1)" by (cases "peek_turn E q")
  note p = peek_turn_ok[OF Suc.prems(1) t]
  show ?case
  proof (cases "res1 = Peek_Again")
    case True
    then have e: "peek n E q1 = (res, q')" using Suc.prems(2) t by simp
    from Suc.IH[OF lookedD(1) e] p have i: "looked E P q1 q' \<and> (res = Peek_Again \<or> peek_answer E q1 q' res)" by blast
    have "peek_answer E q q' res" if "peek_answer E q1 q' res" "res \<noteq> Peek_Again"
      using that lookedD(3,6)[of E P q q1] p by (cases res) (simp_all add: peek_answer_def)
    then show ?thesis using i p looked_trans by blast
  next
    case False
    then have "res = res1" "q' = q1" using Suc.prems(2) t by (auto split: peeked.splits)
    then show ?thesis using p by simp
  qed
qed

text \<open>On a disk that answers, two turns are enough.\<close>

lemma peek_ends:
  assumes ok: "spool_ok E P q" and io: "\<forall>c. sv_io E c = Io_Ok"
  shows "fst (peek (Suc (Suc n)) E q) \<noteq> Peek_Again"
proof -
  obtain res1 q1 where t1: "peek_turn E q = (res1, q1)" by (cases "peek_turn E q")
  note p1 = peek_turn_ok[OF ok t1]
  show ?thesis
  proof (cases "res1 = Peek_Again")
    case True
    obtain res2 q2 where t2: "peek_turn E q1 = (res2, q2)" by (cases "peek_turn E q1")
    have ok1: "spool_ok E P q1" using p1 lookedD(1) by blast
    have "dq_read_ahead q1 \<noteq> []" using p1 True io by (simp add: peek_answer_def)
    then have "res2 \<noteq> Peek_Again" using peek_turn_ok[OF ok1 t2] io by (auto simp: peek_answer_def)
    then show ?thesis using t1 t2 True by (auto split: peeked.splits)
  qed (use t1 in \<open>auto split: peeked.splits\<close>)
qed


lemma peek_at_ok:
  assumes ok: "spool_ok E P q" and res: "peek_at E n q = (res, q')"
  shows "looked E P q q' \<and>
    (\<forall>item. res = Some item \<longrightarrow> n < length (waiting E q) \<and> reads E (waiting E q ! n) item \<and>
       n < length (dq_read_ahead q') \<and> ra_item (dq_read_ahead q' ! n) = item)"
proof -
  define q0 where "q0 = (if n = 0 \<and> dq_read_ahead q = [] then snd (roll_read_cursor E q) else q)"
  note pa = res[unfolded peek_at_def Let_def, folded q0_def]
  have l1: "looked E P q q0" unfolding q0_def using looked_rolled[OF roll_read_cursor_rolled(1)[OF ok]] looked_rolled[OF rolled_refl[OF ok]] by simp
  note ok1 = lookedD(1)[OF l1] and w1 = lookedD(3)[OF l1]
  consider (held) "n < length (dq_read_ahead q0)" | (beyond) "n > length (dq_read_ahead q0)" | (next_one) "n = length (dq_read_ahead q0)" by linarith
  then show ?thesis
  proof cases
    case held
    then have "res = Some (ra_item (dq_read_ahead q0 ! n))" "q' = q0" using pa by auto
    then show ?thesis using l1 w1 ahead_item[OF ok1 held] held by simp
  next
    case beyond
    then have "res = None" "q' = q0" using pa by auto
    then show ?thesis using l1 by simp
  next
    case next_one
    from next_record[OF ok1] show ?thesis
    proof (elim disjE exE conjE)
      assume "next_read_position q0 = None"
      then have "res = None" "q' = q0" using pa next_one by auto
      then show ?thesis using l1 by simp
    next
      fix pre s post off r rest
      assume a: "next_read_position q0 = Some (seg_seq s, off)" "dq_segments q0 = pre @ s # post" "P r"
        "drop off (body (dq_files q0) s) = r @ rest"
        "seg_sum pre + off = dq_read_offset q0 + sum_list (map ra_len (dq_read_ahead q0))"
        "length (dq_read_ahead q0) < length (waiting E q0)" "waiting E q0 ! length (dq_read_ahead q0) = r"
      obtain out q1 where o: "read_record_at E (seg_seq s) off q0 = (out, q1)" by (cases "read_record_at E (seg_seq s) off q0")
      have rw: "read_whole E r q0 (out, q1)" using read_record_at_whole[OF ok1 a(2) kind_kept[OF a(3)] a(4)] o by simp
      then have c: "core q1 = core q0" by (simp add: read_whole_def)
      have lc: "looked E P q q1" using looked_trans[OF l1 looked_core[OF ok1 c]] .
      note cf = core_fields[OF c]
      have np: "next_read_position q1 = next_read_position q0" by (simp add: next_read_position_def cf)
      have pk: "peek_at E n q = (case (out, q1) of
          (Read_Record item len, q) \<Rightarrow>
            if length (dq_read_ahead q) \<noteq> n \<or> next_read_position q \<noteq> Some (seg_seq s, off) then (None, q)
            else (Some item, q\<lparr>dq_read_ahead := dq_read_ahead q @
                [\<lparr>ra_item = item, ra_seg = seg_seq s, ra_offset = off, ra_len = len\<rparr>]\<rparr>)
        | (Read_Skip delta, q) \<Rightarrow> (None, if n = 0 then snd (skip_corrupt E (seg_seq s) off delta q) else q)
        | (_, q) \<Rightarrow> (None, q))"
        unfolding peek_at_def Let_def q0_def[symmetric] using next_one a(1) o by simp
      from rw consider (unavailable) "out = Read_Unavailable" | (item) item where "out = Read_Record item (length r)" "reads E r item"
        by (auto simp: read_whole_def)
      then show ?thesis
      proof cases
        case unavailable
        then show ?thesis using pk res lc by simp
      next
        case item
        let ?e = "\<lparr>ra_item = item, ra_seg = seg_seq s, ra_offset = off, ra_len = length r\<rparr>"
        have len: "off + length r \<le> seg_len s"
          using arg_cong[OF a(4), of length] tracked_file(2)[OF ok1, of s] a(2) kept_len[OF kind_kept[OF a(3)]]
          by (simp add: body_def CONTEXT_LEN_def)
        have q': "res = Some item" "q' = q1\<lparr>dq_read_ahead := dq_read_ahead q1 @ [?e]\<rparr>"
          using pk res item(1) next_one cf(7) np a(1) by auto
        have "spool_ok E P q'" unfolding q'
          using len item(2) a(2,5-7) cf core_waiting[OF c]
          by (intro look_ok[OF lookedD(1)[OF lc]]) simp_all
        then have "looked E P q q'" using lc unfolding q' by (auto simp: looked_def stream_def)
        moreover have "n < length (dq_read_ahead q')" "ra_item (dq_read_ahead q' ! n) = item"
          using cf(7) next_one by (simp_all add: q')
        ultimately show ?thesis using q'(1) a(6,7) next_one w1 item(2) by simp
      qed
    qed
  qed
qed

text \<open>The cursor moves over the record at the head, and the queue is rolled and checkpointed.\<close>

lemma advance_read_cursor_ok:
  assumes ok: "spool_ok E P q" and rd: "readable q" and len: "n = length (hd (waiting E q))"
  shows "\<exists>q1. q1 = q\<lparr>dq_read_offset := dq_read_offset q + n, dq_read_ahead := tl (dq_read_ahead q), dq_queued_records := k\<rparr> \<and>
     rolled E P q1 (advance_read_cursor E n (q\<lparr>dq_read_ahead := tl (dq_read_ahead q), dq_queued_records := k\<rparr>)) \<and>
     waiting E q = hd (waiting E q) # waiting E q1"
proof -
  from record_at_cursor[OF ok] rd readable_offset[OF ok] obtain r rest w where
    r: "P r" "sealed P rest" "drop (dq_read_offset q) (first_body q) = r @ rest" "waiting E q = r # w" by auto
  let ?q = "q\<lparr>dq_read_offset := dq_read_offset q + n, dq_read_ahead := tl (dq_read_ahead q), dq_queued_records := k\<rparr>"
  have "?q = q\<lparr>dq_read_offset := dq_read_offset q + length r, dq_read_ahead := tl (dq_read_ahead q), dq_queued_records := k\<rparr>"
    using len r(4) by simp
  note adv = advance_ok[OF ok r(1-3) this]
  have "advance_read_cursor E n (q\<lparr>dq_read_ahead := tl (dq_read_ahead q), dq_queued_records := k\<rparr>) = after_cursor_advance E ?q"
    unfolding advance_read_cursor_def by (rule arg_cong[of _ _ "after_cursor_advance E"]) (cases q, simp)
  with after_cursor_advance_rolled[OF adv(1)] adv(2) r(4) show ?thesis by simp
qed

text \<open>A commit takes off the head that was read, or does nothing when none was.\<close>

lemma commit_ok:
  assumes ok: "spool_ok E P q" and res: "commit E q = (res, q')"
  shows "spool_ok E P q' \<and> dq_config q' = dq_config q \<and> dq_closed q' = dq_closed q \<and>
    (case res of
       None \<Rightarrow> dq_read_ahead q = [] \<and> waiting E q' = waiting E q \<and> dq_read_ahead q' = [] \<and> dq_queued_records q' = dq_queued_records q
     | Some item \<Rightarrow> dq_read_ahead q \<noteq> [] \<and> item = ra_item (hd (dq_read_ahead q)) \<and> reads E (hd (waiting E q)) item \<and>
         waiting E q \<noteq> [] \<and> waiting E q' = tl (waiting E q) \<and> dq_read_ahead q' = tl (dq_read_ahead q) \<and>
         dq_queued_records q' = dq_queued_records q - 1)"
proof -
  let ?q = "snd (roll_read_cursor E q)"
  note roll = roll_read_cursor_rolled[OF ok]
  note d = rolledD[OF roll(1)]
  show ?thesis
  proof (cases "dq_read_ahead q")
    case Nil
    then have "res = None" "q' = ?q" using res d(6) by (auto simp: commit_def Let_def)
    then show ?thesis using d Nil by simp
  next
    case (Cons e es)
    then have e: "dq_read_ahead ?q = e # es" using d(6) by simp
    let ?q1 = "?q\<lparr>dq_read_ahead := es, dq_queued_records := dq_queued_records ?q - 1\<rparr>"
    have q': "res = Some (ra_item e)" "q' = after_change (advance_read_cursor E (ra_len e) ?q1)"
      using res e by (auto simp: commit_def Let_def)
    have i: "waiting E ?q \<noteq> []" "reads E (hd (waiting E ?q)) (ra_item e)" "ra_len e = length (hd (waiting E ?q))"
      using ahead_item[OF d(1), of 0] e by (auto simp: hd_conv_nth)
    have rd: "readable ?q" using roll(3) i(1) d waiting_empty[OF ok] by simp
    from advance_read_cursor_ok[OF d(1) rd i(3), of "dq_queued_records ?q - 1"] e obtain q2 where
        q2: "q2 = ?q\<lparr>dq_read_offset := dq_read_offset ?q + ra_len e, dq_read_ahead := es, dq_queued_records := dq_queued_records ?q - 1\<rparr>"
      and r2: "rolled E P q2 (advance_read_cursor E (ra_len e) ?q1)"
      and w2: "waiting E ?q = hd (waiting E ?q) # waiting E q2" by auto
    have "rolled E P q2 q'" unfolding q' by (rule rolled_trans_core[OF r2]) simp
    note d2 = rolledD[OF this]
    have "waiting E q2 = tl (waiting E q)" using w2 d(3) by (metis list.sel(3))
    then show ?thesis using d2 d(3-9) q'(1) i(1,2) Cons by (simp add: q2)
  qed
qed

text \<open>An eviction takes off the head when nothing is read ahead and the disk answers.\<close>

lemma evict_ok:
  assumes ok: "spool_ok E P q" and res: "evict_oldest_record E q = (res, q')"
    and rolled: "readable q \<longleftrightarrow> stream q \<noteq> []"
  shows "spool_ok E P q' \<and> dq_config q' = dq_config q \<and> dq_closed q' = dq_closed q \<and> dq_read_ahead q' = dq_read_ahead q \<and>
    (if res then dq_read_ahead q = [] \<and> waiting E q \<noteq> [] \<and> waiting E q' = tl (waiting E q) \<and>
       dq_queued_records q' = dq_queued_records q - 1 \<and> last (dq_segments q') = last (dq_segments q) \<and>
       dq_needs_repair q' = dq_needs_repair q \<and> dq_rotation_started q' = dq_rotation_started q
     else core q' = core q)"
proof (cases "dq_read_ahead q = [] \<and> readable q")
  case False
  have "core q' = core q \<and> \<not> res"
  proof (cases "dq_read_ahead q = []")
    case True
    then have "\<not> dq_read_offset q < seg_len (hd (dq_segments q))" using False readable_offset[OF ok] by simp
    then have "read_record_at E (dq_read_seq q) (dq_read_offset q) q = (Read_Unavailable, q)"
      using False True by (simp add: read_record_at_def readable_def split: option.splits)
    then show ?thesis using res True by (simp add: evict_oldest_record_def Let_def)
  qed (use res in \<open>auto simp: evict_oldest_record_def\<close>)
  then show ?thesis using core_ok core_fields ok by metis
next
  case True
  from read_at_head[OF ok] True obtain r q1 where c: "core q1 = core q" and w: "waiting E q \<noteq> []" "hd (waiting E q) = r"
    and cs: "(\<exists>item. read_record_at E (dq_read_seq q) (dq_read_offset q) q = (Read_Record item (length r), q1)) \<or>
      read_record_at E (dq_read_seq q) (dq_read_offset q) q = (Read_Unavailable, q1)" by blast
  note cf = core_fields[OF c]
  have ok1: "spool_ok E P q1" using core_ok[OF c] ok by simp
  have rd1: "readable q1" using True readable_core[OF c] by simp
  have hd1: "at_head (dq_read_seq q) (dq_read_offset q) q1" using True cf by (simp add: at_head_def)
  from cs show ?thesis
  proof (elim disjE exE)
    fix item assume r: "read_record_at E (dq_read_seq q) (dq_read_offset q) q = (Read_Record item (length r), q1)"
    let ?q2 = "advance_read_cursor E (length r) q1"
    let ?q3 = "count_dropped ''overflow_oldest'' (length (b_events (fst item))) ?q2"
    have q': "res" "q' = ?q3\<lparr>dq_queued_records := dq_queued_records ?q3 - 1\<rparr>"
      using res r hd1 True by (auto simp: evict_oldest_record_def Let_def)
    have "length r = length (hd (waiting E q1))" using w core_waiting[OF c] by simp
    from advance_read_cursor_ok[OF ok1 rd1 this, of "dq_queued_records q1"] True cf(7) obtain q4 where
        q4: "q4 = q1\<lparr>dq_read_offset := dq_read_offset q1 + length r, dq_read_ahead := [], dq_queued_records := dq_queued_records q1\<rparr>"
      and r4: "rolled E P q4 (advance_read_cursor E (length r) (q1\<lparr>dq_read_ahead := [], dq_queued_records := dq_queued_records q1\<rparr>))"
      and w4: "waiting E q1 = hd (waiting E q1) # waiting E q4" by auto
    have "q1\<lparr>dq_read_ahead := [], dq_queued_records := dq_queued_records q1\<rparr> = q1" using True cf(7) by (cases q1) simp
    then have r3: "rolled E P q4 ?q3" using rolled_trans_core[OF r4] by simp
    note d = rolledD[OF r3]
    have "spool_ok E P q'" "waiting E q' = waiting E ?q3"
      using d(1) by (simp_all add: q' spool_ok_def first_body_def waiting_def stream_def)
    moreover have "waiting E q4 = tl (waiting E q)" using w4 core_waiting[OF c] by (metis list.sel(3))
    ultimately show ?thesis using d q' True w(1) cf by (simp add: q4)
  next
    assume "read_record_at E (dq_read_seq q) (dq_read_offset q) q = (Read_Unavailable, q1)"
    then have "\<not> res" "q' = q1" using res True by (auto simp: evict_oldest_record_def Let_def)
    then show ?thesis using ok1 c cf by simp
  qed
qed

end

end
