(* ===== verification/Spool_Writer.thy ===== *)
theory Spool_Writer
  imports Spool_Reader
begin

text \<open>
  The producer's side of the spool: repairing the active segment, rotating it, appending a record,
  and the loop of a push over them. Whatever fails or is cut off half way keeps the invariant.
\<close>

section \<open>The active segment's file\<close>

abbreviation active_seq :: "('d, 'h) disk_queue \<Rightarrow> nat" where
  "active_seq q \<equiv> seg_seq (active_segment q)"

lemma active_in:
  assumes "spool_ok E P q" shows "active_segment q \<in> set (dq_segments q)"
  using nonempty_segments[OF assms] by (simp add: active_segment_def)

lemma saved_part:
  "spool_ok E P q \<Longrightarrow>
   saved_ok P (dq_files q) (last_seq q) (first_body q) (dq_read_seq q) (dq_read_offset q) (dq_cursor q) (dq_jobs q)"
  by (simp add: spool_ok_def)

lemma contents_eq: "contents seq q = on_disk (dq_files q) seq"
  by (simp add: contents_def file_bytes_def on_disk_def)

lemma on_disk_update: "on_disk (AList.update seq bs files) k = (if k = seq then bs else on_disk files k)"
  by (simp add: on_disk_def AList.update_conv')

lemma tracked_distinct:
  assumes "spool_ok E P q" and "s \<in> set (dq_segments q)" and "seg_seq s = active_seq q"
  shows "s = active_segment q"
  using assms active_in[OF assms(1)] strict_sorted_iff[of "map seg_seq (dq_segments q)"]
  by (auto simp: spool_ok_def segments_ok_def strict_sorted_iff distinct_map inj_on_def)

lemma tracked_up_to:
  assumes "spool_ok E P q" and "s \<in> set (dq_segments q)" shows "seg_seq s \<le> active_seq q"
proof -
  have "dq_segments q = butlast (dq_segments q) @ [active_segment q]"
    using nonempty_segments[OF assms(1)] by (simp add: active_segment_def)
  moreover have "ascending (dq_segments q)" using assms(1) by (simp add: spool_ok_def segments_ok_def)
  ultimately have "\<forall>x \<in> set (butlast (dq_segments q)). seg_seq x < active_seq q"
    using ascending_split(1)[of "butlast (dq_segments q)" "active_segment q" "[]"] by simp
  then show ?thesis using assms(2) \<open>dq_segments q = _\<close> by (metis append_butlast_last_id in_set_butlast_appendI less_imp_le list.set_intros(1) Un_iff set_append set_ConsD empty_iff list.set(1) order_refl)
qed

lemma read_up_to_active:
  assumes "spool_ok E P q" shows "dq_read_seq q \<le> active_seq q"
proof -
  have "segments_ok P (dq_files q) (dq_segments q) (dq_read_seq q) (dq_total_bytes q)" using assms by (simp add: spool_ok_def)
  from tracked_from[OF this active_in[OF assms]] show ?thesis .
qed

text \<open>The next segment's file is there only while a rotation is under way.\<close>

lemma no_next_file:
  assumes ok: "spool_ok E P q" and n: "\<not> dq_rotation_started q \<or> dq_needs_repair q \<noteq> None"
  shows "map_of (dq_files q) (active_seq q + 1) = None"
proof (cases "map_of (dq_files q) (active_seq q + 1)")
  case (Some bs)
  then have "file_known P (dq_segments q) (dq_read_seq q) (dq_needs_repair q) (dq_rotation_started q) (active_seq q + 1) bs"
    using ok by (simp add: spool_ok_def files_ok_def)
  moreover have "active_seq q + 1 \<notin> seg_seq ` set (dq_segments q)" using tracked_up_to[OF ok] by fastforce
  moreover have "dq_read_seq q \<le> active_seq q" using read_up_to_active[OF ok] .
  ultimately show ?thesis using n by (auto simp: file_known_def)
qed

text \<open>Other bytes behind the records of the active segment, with the repair they call for.\<close>

lemma ok_active_file:
  assumes ok: "spool_ok E P q" and next_file: "map_of (dq_files q) (active_seq q + 1) = None \<or> repair = None"
    and bs: "bs = body (dq_files q) (active_segment q) @ take n u"
    and rep: "repair = Some (seg_len (active_segment q)) \<and> P u \<or> take n u = [] \<and> repair \<in> {None, Some (seg_len (active_segment q))}"
  shows "spool_ok E P (q\<lparr>dq_files := AList.update (active_seq q) bs (dq_files q), dq_needs_repair := repair\<rparr>)" (is "spool_ok E P ?q")
    and "stream (q\<lparr>dq_files := AList.update (active_seq q) bs (dq_files q), dq_needs_repair := repair\<rparr>) = stream q"
proof -
  let ?act = "active_segment q" and ?files = "AList.update (active_seq q) bs (dq_files q)"
  have len: "length (body (dq_files q) ?act) = seg_len ?act" using tracked_file(2)[OF ok active_in[OF ok]] by (simp add: body_def)
  have b: "body ?files s = body (dq_files q) s" if "s \<in> set (dq_segments q)" for s
  proof (cases "seg_seq s = active_seq q")
    case True
    then show ?thesis using tracked_distinct[OF ok that] bs len by (simp add: body_def on_disk_update)
  qed (simp add: body_def on_disk_update)
  have mb: "map (body ?files) (dq_segments q) = map (body (dq_files q)) (dq_segments q)" using b by (intro map_cong) simp_all
  show st: "stream ?q = stream q" using arg_cong[OF mb, of "\<lambda>x. drop (dq_read_offset q) (concat x)"] by (simp add: stream_def del: map_eq_conv)
  have w: "waiting E ?q = waiting E q" using st by (simp add: waiting_def)
  have fb: "first_body ?q = first_body q" using b nonempty_segments[OF ok] by (simp add: first_body_def)
  have rs: "dq_read_seq q \<le> active_seq q" using read_up_to_active[OF ok] .
  have so: "segments_ok P (dq_files q) (dq_segments q) (dq_read_seq q) (dq_total_bytes q)" using ok by (simp add: spool_ok_def)
  have "segments_ok P ?files (dq_segments q) (dq_read_seq q) (dq_total_bytes q)"
  proof -
    have "seg_len s \<le> length (on_disk ?files (seg_seq s))" if "s \<in> set (dq_segments q)" for s
      using tracked_file(2)[OF ok that] tracked_distinct[OF ok that] bs len by (auto simp: on_disk_update)
    then show ?thesis using so b unfolding segments_ok_def by (auto simp: AList.update_conv')
  qed
  moreover have "files_ok P ?files (dq_segments q) (dq_read_seq q) repair (dq_rotation_started q)"
  proof -
    have fo: "files_ok P (dq_files q) (dq_segments q) (dq_read_seq q) (dq_needs_repair q) (dq_rotation_started q)"
      using ok by (simp add: spool_ok_def)
    have "file_known P (dq_segments q) (dq_read_seq q) repair (dq_rotation_started q) k x" if "map_of ?files k = Some x" for k x
    proof (cases "k = active_seq q")
      case True
      then show ?thesis using active_in[OF ok] by (auto simp: file_known_def)
    next
      case False
      then have m: "map_of (dq_files q) k = Some x" using that by (simp add: AList.update_conv')
      then have "file_known P (dq_segments q) (dq_read_seq q) (dq_needs_repair q) (dq_rotation_started q) k x"
        using fo unfolding files_ok_def by blast
      then show ?thesis using next_file m by (auto simp: file_known_def active_segment_def)
    qed
    moreover have "seg_seq s \<noteq> active_seq q" if "s \<in> set (butlast (dq_segments q))" for s
      using that so append_butlast_last_id[OF nonempty_segments[OF ok]]
        ascending_split(1)[of "butlast (dq_segments q)" "last (dq_segments q)" "[]"]
      by (fastforce simp: segments_ok_def active_segment_def)
    moreover have "body ?files (last (dq_segments q)) = body (dq_files q) (last (dq_segments q))"
      using b active_in[OF ok] by (simp add: active_segment_def)
    ultimately show ?thesis
      using fo bs rep len by (auto simp: files_ok_def on_disk_update AList.distinct_update active_segment_def split: if_splits)
  qed
  moreover have "saved_ok P ?files (last_seq q) (first_body q) (dq_read_seq q) (dq_read_offset q) (dq_cursor q) (dq_jobs q)"
    by (rule saved_ok_later[OF saved_part[OF ok]])
      (use rs in \<open>simp_all add: AList.update_conv' active_segment_def\<close>)
  ultimately show "spool_ok E P ?q" using ok w fb by (simp add: spool_ok_def)
qed

text \<open>The file of the next segment, and the segment itself.\<close>

lemma ok_next_file:
  assumes ok: "spool_ok E P q" and rot: "dq_rotation_started q" "dq_needs_repair q = None"
  shows "spool_ok E P (q\<lparr>dq_files := AList.update (active_seq q + 1) [] (dq_files q)\<rparr>)" (is "spool_ok E P ?q")
    and "stream (q\<lparr>dq_files := AList.update (active_seq q + 1) [] (dq_files q)\<rparr>) = stream q"
proof -
  let ?files = "AList.update (active_seq q + 1) [] (dq_files q)"
  have ne: "seg_seq s \<noteq> active_seq q + 1" if "s \<in> set (dq_segments q)" for s using tracked_up_to[OF ok that] by simp
  have d: "on_disk ?files (seg_seq s) = on_disk (dq_files q) (seg_seq s)" if "s \<in> set (dq_segments q)" for s
    using ne[OF that] by (simp add: on_disk_update)
  then have b: "body ?files s = body (dq_files q) s" if "s \<in> set (dq_segments q)" for s using that by (simp add: body_def)
  have mb: "map (body ?files) (dq_segments q) = map (body (dq_files q)) (dq_segments q)" using b by (intro map_cong) simp_all
  show st: "stream ?q = stream q" using arg_cong[OF mb, of "\<lambda>x. drop (dq_read_offset q) (concat x)"] by (simp add: stream_def del: map_eq_conv)
  have w: "waiting E ?q = waiting E q" using st by (simp add: waiting_def)
  have fb: "first_body ?q = first_body q" using b nonempty_segments[OF ok] by (simp add: first_body_def)
  have rs: "dq_read_seq q \<le> active_seq q" using read_up_to_active[OF ok] .
  have so: "segments_ok P (dq_files q) (dq_segments q) (dq_read_seq q) (dq_total_bytes q)" using ok by (simp add: spool_ok_def)
  have "segments_ok P ?files (dq_segments q) (dq_read_seq q) (dq_total_bytes q)"
    using so b d ne unfolding segments_ok_def by (auto simp: AList.update_conv')
  moreover have "files_ok P ?files (dq_segments q) (dq_read_seq q) (dq_needs_repair q) (dq_rotation_started q)"
  proof -
    have fo: "files_ok P (dq_files q) (dq_segments q) (dq_read_seq q) (dq_needs_repair q) (dq_rotation_started q)"
      using ok by (simp add: spool_ok_def)
    have "file_known P (dq_segments q) (dq_read_seq q) None True k x" if "map_of ?files k = Some x" for k x
    proof (cases "k = active_seq q + 1")
      case True
      then show ?thesis using that by (simp add: file_known_def active_segment_def AList.update_conv')
    next
      case False
      then have "map_of (dq_files q) k = Some x" using that by (simp add: AList.update_conv')
      then show ?thesis using fo rot by (simp add: files_ok_def)
    qed
    moreover have "last (dq_segments q) \<in> set (dq_segments q)" using nonempty_segments[OF ok] by simp
    moreover have "\<forall>s \<in> set (butlast (dq_segments q)). s \<in> set (dq_segments q)" by (auto dest: in_set_butlastD)
    ultimately show ?thesis
      using fo rot d b by (simp add: files_ok_def AList.distinct_update)
  qed
  moreover have "saved_ok P ?files (last_seq q) (first_body q) (dq_read_seq q) (dq_read_offset q) (dq_cursor q) (dq_jobs q)"
    by (rule saved_ok_later[OF saved_part[OF ok]])
      (use rs in \<open>simp_all add: AList.update_conv' active_segment_def\<close>)
  ultimately show "spool_ok E P ?q" using ok w fb by (simp add: spool_ok_def)
qed

lemma ok_new_segment:
  assumes ok: "spool_ok E P q" and new_file: "map_of (dq_files q) (active_seq q + 1) = Some []" and rep: "dq_needs_repair q = None"
  shows "spool_ok E P (q\<lparr>dq_segments := dq_segments q @ [\<lparr>seg_seq = active_seq q + 1, seg_len = 0\<rparr>], dq_rotation_started := False\<rparr>)"
      (is "spool_ok E P ?q")
    and "stream (q\<lparr>dq_segments := dq_segments q @ [\<lparr>seg_seq = active_seq q + 1, seg_len = 0\<rparr>], dq_rotation_started := False\<rparr>) = stream q"
proof -
  let ?new = "\<lparr>seg_seq = active_seq q + 1, seg_len = 0\<rparr>"
  have b: "body (dq_files q) ?new = []" by (simp add: body_def)
  show st: "stream ?q = stream q" using b by (simp add: stream_def)
  have w: "waiting E ?q = waiting E q" using st by (simp add: waiting_def)
  have nn: "dq_segments q \<noteq> []" using nonempty_segments[OF ok] .
  have fb: "first_body ?q = first_body q" using nn by (simp add: first_body_def)
  have so: "segments_ok P (dq_files q) (dq_segments q) (dq_read_seq q) (dq_total_bytes q)" using ok by (simp add: spool_ok_def)
  have "\<forall>s \<in> set (dq_segments q). seg_seq s < active_seq q + 1" using tracked_up_to[OF ok] by (simp add: less_Suc_eq_le)
  then have "segments_ok P (dq_files q) (dq_segments q @ [?new]) (dq_read_seq q) (dq_total_bytes q)"
    using so new_file b by (simp add: segments_ok_def sorted_wrt_append)
  moreover have "files_ok P (dq_files q) (dq_segments q @ [?new]) (dq_read_seq q) (dq_needs_repair q) False"
  proof -
    have fo: "files_ok P (dq_files q) (dq_segments q) (dq_read_seq q) None (dq_rotation_started q)"
      using ok rep by (simp add: spool_ok_def)
    then have "file_known P (dq_segments q @ [?new]) (dq_read_seq q) None False k x" if "map_of (dq_files q) k = Some x" for k x
      using that by (fastforce simp: files_ok_def file_known_def active_segment_def)
    moreover have "length (on_disk (dq_files q) (seg_seq s)) = seg_len s" if "s \<in> set (dq_segments q)" for s
      using that fo append_butlast_last_id[OF nn] by (metis Un_iff files_ok_def set_ConsD set_append empty_iff empty_set)
    ultimately show ?thesis using fo new_file rep by (simp add: files_ok_def on_disk_def butlast_append)
  qed
  moreover have "ahead_ok E (dq_segments q @ [?new]) (dq_read_offset q) (waiting E q) (dq_read_ahead q)"
    using ok by (auto simp: spool_ok_def ahead_ok_def ends_at_def) (metis append.assoc append_Cons)
  moreover have "saved_ok P (dq_files q) (active_seq q + 1) (first_body q) (dq_read_seq q) (dq_read_offset q) (dq_cursor q) (dq_jobs q)"
    by (rule saved_ok_later[OF saved_part[OF ok]])
      (use read_up_to_active[OF ok] in \<open>simp_all add: active_segment_def\<close>)
  ultimately show "spool_ok E P ?q" using ok w fb nn by (simp add: spool_ok_def)
qed


section \<open>The steps of a write\<close>

text \<open>A step that changes none of the records.\<close>

definition steady :: "('d, 'h) spool_env \<Rightarrow> (bytes \<Rightarrow> bool) \<Rightarrow> ('d, 'h) disk_queue \<Rightarrow> ('d, 'h) disk_queue \<Rightarrow> bool" where
  "steady E P q q' \<longleftrightarrow> spool_ok E P q' \<and> stream q' = stream q \<and> dq_config q' = dq_config q \<and>
     dq_queued_records q' = dq_queued_records q \<and> dq_closed q' = dq_closed q \<and> dq_read_ahead q' = dq_read_ahead q"

lemma steady_trans: "steady E P q q' \<Longrightarrow> steady E P q' q'' \<Longrightarrow> steady E P q q''"
  by (simp add: steady_def)

lemma steady_refl: "spool_ok E P q \<Longrightarrow> steady E P q q"
  by (simp add: steady_def)

lemma steady_core:
  assumes "spool_ok E P q" and "core q' = core q" shows "steady E P q q'"
  using assms(1) core_fields[OF assms(2)] core_stream[OF assms(2)] core_ok[OF assms(2)] by (simp add: steady_def)

lemma steady_after_core:
  assumes "steady E P q q'" and "core q'' = core q'" shows "steady E P q q''"
  using steady_trans[OF assms(1) steady_core[OF _ assms(2)]] assms(1) by (simp add: steady_def)

lemma steady_rolled:
  assumes "rolled E P q q'" shows "steady E P q q'"
  using rolledD[OF assms] by (simp add: steady_def)

lemma steadyD:
  assumes "steady E P q q'"
  shows "spool_ok E P q'" "stream q' = stream q" "waiting E q' = waiting E q" "dq_config q' = dq_config q"
    "dq_queued_records q' = dq_queued_records q" "dq_closed q' = dq_closed q" "dq_read_ahead q' = dq_read_ahead q"
  using assms by (simp_all add: steady_def waiting_def)

text \<open>A step of the write path: what holds when it ran, and that it is steady in any case.\<close>

definition steps ::
    "('d, 'h) spool_env \<Rightarrow> (bytes \<Rightarrow> bool) \<Rightarrow> ('d, 'h) disk_queue \<Rightarrow> (('d, 'h) disk_queue \<Rightarrow> bool) \<Rightarrow>
     'a attempt \<times> ('d, 'h) disk_queue \<Rightarrow> bool" where
  "steps E P q Q res \<longleftrightarrow>
     (case res of
        (Ran _, q') \<Rightarrow> steady E P q q' \<and> Q q'
      | (_, q') \<Rightarrow> steady E P q q')"

lemma steps_then:
  assumes m: "steps E P q Q m" and k: "\<And>x q'. steady E P q q' \<Longrightarrow> Q q' \<Longrightarrow> steps E P q' Q' (k x q')"
  shows "steps E P q Q' (and_then m k)"
proof (cases m)
  case (Pair r q')
  then show ?thesis
    using m k[of q'] steady_trans[of E P q q']
    by (cases r) (fastforce simp: steps_def and_then_def split: prod.splits attempt.splits)+
qed

lemma steps_mono: "steps E P q Q res \<Longrightarrow> (\<And>q'. steady E P q q' \<Longrightarrow> Q q' \<Longrightarrow> Q' q') \<Longrightarrow> steps E P q Q' res"
  by (auto simp: steps_def split: prod.splits attempt.splits)

lemma try_step_steps:
  assumes "spool_ok E P q"
  shows "steps E P q (\<lambda>q'. core q' = core q) (try_step E op q)"
  using steady_core[OF assms] by (auto simp: steps_def try_step_def split: io_step.split)

lemma truncate_tail_steps:
  assumes ok: "spool_ok E P q" and rep: "dq_needs_repair q = Some before"
  shows "steps E P q (\<lambda>q'. dq_needs_repair q' = None \<and> dq_rotation_started q' = dq_rotation_started q)
    (truncate_tail E (active_seq q) before q)"
proof -
  have before: "before = seg_len (active_segment q)" using ok rep by (simp add: spool_ok_def files_ok_def active_segment_def)
  let ?bs = "body (dq_files q) (active_segment q)"
  have cut: "set_len before (contents (active_seq q) q) = ?bs @ take 0 []"
    using tracked_file(2)[OF ok active_in[OF ok]] by (simp add: set_len_def contents_eq before body_def)
  let ?files = "AList.update (active_seq q) ?bs (dq_files q)"
  have a: "spool_ok E P (q\<lparr>dq_files := ?files, dq_needs_repair := None\<rparr>)" "stream (q\<lparr>dq_files := ?files, dq_needs_repair := None\<rparr>) = stream q"
    using ok_active_file[OF ok, of None ?bs 0 "[]"] by simp_all
  have b: "spool_ok E P (q\<lparr>dq_files := ?files\<rparr>)" "stream (q\<lparr>dq_files := ?files\<rparr>) = stream q"
  proof -
    have "q\<lparr>dq_files := ?files, dq_needs_repair := Some before\<rparr> = q\<lparr>dq_files := ?files\<rparr>" using rep by (cases q) simp
    moreover have "spool_ok E P (q\<lparr>dq_files := ?files, dq_needs_repair := Some before\<rparr>)"
        "stream (q\<lparr>dq_files := ?files, dq_needs_repair := Some before\<rparr>) = stream q"
      using ok_active_file[OF ok, of "Some before" ?bs 0 "[]"] no_next_file[OF ok] rep before by simp_all
    ultimately show "spool_ok E P (q\<lparr>dq_files := ?files\<rparr>)" "stream (q\<lparr>dq_files := ?files\<rparr>) = stream q" by simp_all
  qed
  have c: "core (put_file (active_seq q) ?bs (dq_tick q)) = core (q\<lparr>dq_files := ?files\<rparr>)"
      "core ((put_file (active_seq q) ?bs (dq_tick q))\<lparr>dq_needs_repair := None\<rparr>) = core (q\<lparr>dq_files := ?files, dq_needs_repair := None\<rparr>)"
    by (simp_all add: core_def put_file_def dq_tick_def)
  have sa: "steady E P q (q\<lparr>dq_files := ?files, dq_needs_repair := None\<rparr>)" and sb: "steady E P q (q\<lparr>dq_files := ?files\<rparr>)"
    using a b by (simp_all add: steady_def)
  show ?thesis
    using steady_after_core[OF sa c(2)] steady_after_core[OF sb c(1)] steady_core[OF ok] cut
    by (auto simp: steps_def truncate_tail_def Let_def put_file_def dq_tick_def split: io_step.split)
qed


lemma repair_if_needed_steps:
  assumes ok: "spool_ok E P q"
  shows "steps E P q (\<lambda>q'. dq_needs_repair q' = None \<and> dq_rotation_started q' = dq_rotation_started q) (repair_if_needed E q)"
proof (cases "dq_needs_repair q")
  case None
  then show ?thesis using steady_refl[OF ok] by (simp add: repair_if_needed_def steps_def)
next
  case (Some before)
  let ?Q = "\<lambda>q'. dq_needs_repair q' = None \<and> dq_rotation_started q' = dq_rotation_started q"
  have cut: "steps E P q' ?Q (truncate_tail E (active_seq q) before q')" if c: "core q' = core q" for q'
    using truncate_tail_steps[of E P q' before] core_fields[OF c] core_ok[OF c] ok Some by (simp add: active_segment_def)
  show ?thesis
  proof (cases "dq_write_file q")
    case True
    then show ?thesis
      using Some steps_then[OF try_step_steps[OF ok, of "''flush''"], of ?Q "\<lambda>_. truncate_tail E (active_seq q) before"] cut
      by (simp add: repair_if_needed_def repair_torn_tail_def)
  next
    case False
    let ?q = "(dq_tick q)\<lparr>dq_write_file := True\<rparr>"
    have "steps E P q ?Q (truncate_tail E (active_seq q) before ?q)"
      using steps_then[of E P q "\<lambda>q'. core q' = core q" "(Ran (), ?q)" ?Q "\<lambda>_. truncate_tail E (active_seq q) before"]
        steady_core[OF ok, of ?q] cut by (simp add: steps_def and_then_def)
    then show ?thesis
      using Some False steady_core[OF ok]
      by (auto simp: repair_if_needed_def repair_torn_tail_def steps_def split: io_step.split)
  qed
qed

lemma started_ok:
  assumes "spool_ok E P q" shows "steady E P q (q\<lparr>dq_rotation_started := True\<rparr>)"
proof -
  have "files_ok P (dq_files q) (dq_segments q) (dq_read_seq q) (dq_needs_repair q) True"
    using assms unfolding spool_ok_def files_ok_def file_known_def by blast
  then show ?thesis using assms by (simp add: steady_def spool_ok_def first_body_def waiting_def stream_def)
qed

lemma create_next_steady:
  assumes ok: "spool_ok E P q" and rot: "dq_rotation_started q" "dq_needs_repair q = None"
  shows "steady E P q (create_file (active_seq q + 1) q)"
    and "map_of (dq_files (create_file (active_seq q + 1) q)) (active_seq q + 1) = Some []"
proof -
  have "contents (active_seq q + 1) q = []"
  proof (cases "map_of (dq_files q) (active_seq q + 1)")
    case (Some bs)
    then have "file_known P (dq_segments q) (dq_read_seq q) (dq_needs_repair q) (dq_rotation_started q) (active_seq q + 1) bs"
      using ok by (simp add: spool_ok_def files_ok_def)
    moreover have "active_seq q + 1 \<notin> seg_seq ` set (dq_segments q)" using tracked_up_to[OF ok] by fastforce
    ultimately have "bs = []" using read_up_to_active[OF ok] by (auto simp: file_known_def)
    then show ?thesis using Some by (simp add: contents_eq on_disk_def)
  qed (simp add: contents_eq on_disk_def)
  then have c: "create_file (active_seq q + 1) q = q\<lparr>dq_files := AList.update (active_seq q + 1) [] (dq_files q)\<rparr>"
    by (simp add: create_file_def put_file_def)
  show "steady E P q (create_file (active_seq q + 1) q)"
    unfolding c using ok_next_file[OF ok rot] by (simp add: steady_def)
  show "map_of (dq_files (create_file (active_seq q + 1) q)) (active_seq q + 1) = Some []"
    unfolding c by (simp add: AList.update_conv')
qed

lemma rotation_ends:
  assumes ok: "spool_ok E P q" and none: "map_of (dq_files q) (active_seq q + 1) = None"
  shows "steady E P q (q\<lparr>dq_rotation_started := False\<rparr>)"
proof -
  have "file_known P (dq_segments q) (dq_read_seq q) (dq_needs_repair q) False k bs" if m: "map_of (dq_files q) k = Some bs" for k bs
  proof -
    have "file_known P (dq_segments q) (dq_read_seq q) (dq_needs_repair q) (dq_rotation_started q) k bs"
      using ok m unfolding spool_ok_def files_ok_def by blast
    then show ?thesis using m none by (auto simp: file_known_def active_segment_def)
  qed
  then have "files_ok P (dq_files q) (dq_segments q) (dq_read_seq q) (dq_needs_repair q) False"
    using ok unfolding spool_ok_def files_ok_def by blast
  then show ?thesis using ok by (simp add: steady_def spool_ok_def first_body_def waiting_def stream_def)
qed

text \<open>The last step of a rotation, once both files are synced.\<close>

lemma rotate_create_steps:
  assumes ok: "spool_ok E P q" and rot: "dq_rotation_started q" "dq_needs_repair q = None" and new: "new_seq = active_seq q + 1"
  shows "steps E P q (\<lambda>q'. dq_needs_repair q' = None \<and> \<not> dq_rotation_started q')
    (case sv_io E (dq_clock q) of
        Io_Ok \<Rightarrow>
          and_then (try_step E ''fsync'' (create_file new_seq (dq_tick q))) (\<lambda>_ q.
            (Ran (), q\<lparr>dq_write_file := True, dq_rotation_started := False,
               dq_segments := dq_segments q @ [\<lparr>seg_seq = new_seq, seg_len = 0\<rparr>]\<rparr>))
      | Io_Fails disk_full \<Rightarrow>
          (let q = count_fs_error ''create'' (dq_tick q) in
           if file_bytes new_seq q \<noteq> None then (Write_Error_At disk_full, q)
           else (Ran (), q\<lparr>dq_rotation_started := False\<rparr>))
      | Io_Dropped \<Rightarrow>
          (Push_Gone, if sv_happened E (dq_clock q) then create_file new_seq (dq_tick q) else dq_tick q))"
proof -
  let ?q = "dq_tick q" and ?Q = "\<lambda>q'. dq_needs_repair q' = None \<and> \<not> dq_rotation_started q'"
  have c: "core ?q = core q" by simp
  note cf = core_fields[OF c]
  have s1: "steady E P q ?q" using steady_core[OF ok c] .
  have act: "active_segment ?q = active_segment q" by (simp add: active_segment_def cf)
  note cr = create_next_steady[OF steadyD(1)[OF s1], unfolded act cf, OF rot]
  have s2: "steady E P q (create_file new_seq ?q)" using steady_trans[OF s1 cr(1)] new by simp
  have made: "?Q q'' \<and> steady E P q' q''"
    if ok': "spool_ok E P q'" and c': "core q' = core (create_file new_seq ?q)"
      and q'': "q'' = q'\<lparr>dq_write_file := True, dq_rotation_started := False,
               dq_segments := dq_segments q' @ [\<lparr>seg_seq = new_seq, seg_len = 0\<rparr>]\<rparr>" for q' q''
  proof -
    note cf' = core_fields[OF c']
    have f: "dq_segments q' = dq_segments q" "dq_needs_repair q' = None" "map_of (dq_files q') (active_seq q' + 1) = Some []"
      using cf' rot cr(2) new by (simp_all add: create_file_def put_file_def active_segment_def dq_tick_def)
    have act': "active_seq q' + 1 = new_seq" using new f(1) by (simp add: active_segment_def)
    let ?q3 = "q'\<lparr>dq_segments := dq_segments q' @ [\<lparr>seg_seq = new_seq, seg_len = 0\<rparr>], dq_rotation_started := False\<rparr>"
    have "core q'' = core ?q3" by (simp add: q'' core_def)
    moreover have "steady E P q' ?q3" using ok_new_segment[OF ok' f(3,2)] act' by (simp add: steady_def)
    ultimately show ?thesis using steady_after_core f(2) by (auto simp: q'')
  qed
  show ?thesis
  proof (cases "sv_io E (dq_clock q)")
    case Io_Ok
    have "steps E P (create_file new_seq ?q) ?Q
      (and_then (try_step E ''fsync'' (create_file new_seq ?q)) (\<lambda>_ q.
            (Ran (), q\<lparr>dq_write_file := True, dq_rotation_started := False,
               dq_segments := dq_segments q @ [\<lparr>seg_seq = new_seq, seg_len = 0\<rparr>]\<rparr>)))"
    proof (rule steps_then[OF try_step_steps[OF steadyD(1)[OF s2]]])
      fix q' assume "steady E P (create_file new_seq ?q) q'" "core q' = core (create_file new_seq ?q)"
      from made[OF steadyD(1)[OF this(1)] this(2) refl]
      show "steps E P q' ?Q (Ran (), q'\<lparr>dq_write_file := True, dq_rotation_started := False,
               dq_segments := dq_segments q' @ [\<lparr>seg_seq = new_seq, seg_len = 0\<rparr>]\<rparr>)" by (simp add: steps_def)
    qed
    then show ?thesis using Io_Ok steady_trans[OF s2] by (auto simp: steps_def split: prod.splits attempt.splits)
  next
    case (Io_Fails full)
    let ?q2 = "count_fs_error ''create'' ?q"
    have c2: "core ?q2 = core q" by simp
    note cf2 = core_fields[OF c2]
    have s3: "steady E P q ?q2" using steady_core[OF ok c2] .
    have "steady E P q (?q2\<lparr>dq_rotation_started := False\<rparr>)" if "file_bytes new_seq ?q2 = None"
      using that steady_trans[OF s3 rotation_ends[OF steadyD(1)[OF s3]]] new cf2 by (simp add: file_bytes_def active_segment_def)
    then show ?thesis using Io_Fails s3 rot cf2 by (auto simp: steps_def Let_def)
  next
    case Io_Dropped
    then show ?thesis using s1 s2 by (simp add: steps_def)
  qed
qed

lemma rotate_segment_steps:
  assumes ok: "spool_ok E P q" and rep: "dq_needs_repair q = None"
  shows "steps E P q (\<lambda>q'. dq_needs_repair q' = None \<and> \<not> dq_rotation_started q') (rotate_segment E q)"
proof -
  let ?q = "q\<lparr>dq_rotation_started := True\<rparr>" and ?Q = "\<lambda>q'. dq_needs_repair q' = None \<and> \<not> dq_rotation_started q'"
  have s: "steady E P q ?q" using started_ok[OF ok] .
  let ?C = "\<lambda>q'. core q' = core ?q"
  have flush: "steps E P ?q ?C (if dq_write_file ?q then try_step E ''flush'' ?q else (Ran (), ?q))"
    using try_step_steps[OF steadyD(1)[OF s]] steady_refl[OF steadyD(1)[OF s]] by (simp add: steps_def)
  have sync: "steps E P q' ?C (try_step E ''fsync'' q')" if "steady E P ?q q'" "?C q'" for q'
    using try_step_steps[OF steadyD(1)[OF that(1)]] that(2) by simp
  have "steps E P ?q ?Q (rotate_segment E q)"
    unfolding rotate_segment_def Let_def
    apply (rule steps_then[OF flush], rule steps_then[OF sync], assumption, assumption)
    subgoal for x q1 y q2
      using core_fields[of q2 ?q] rep steadyD(1)[of E P q1 q2] by (intro rotate_create_steps[unfolded Let_def]) (simp_all add: active_segment_def)
    done
  then show ?thesis using steady_trans[OF s] by (auto simp: steps_def split: prod.splits attempt.splits)
qed

lemma open_append_steps:
  assumes ok: "spool_ok E P q" and rep: "dq_needs_repair q = None"
  shows "steps E P q (\<lambda>q'. dq_needs_repair q' = None \<and> dq_rotation_started q' = dq_rotation_started q)
    (open_append E (active_seq q) q)"
proof -
  have full: "contents (active_seq q) q = body (dq_files q) (active_segment q) @ take 0 []"
    using ok rep by (simp add: spool_ok_def files_ok_def contents_eq body_def active_segment_def)
  let ?files = "AList.update (active_seq q) (contents (active_seq q) q) (dq_files q)"
  have e: "q\<lparr>dq_files := ?files, dq_needs_repair := None\<rparr> = q\<lparr>dq_files := ?files\<rparr>" using rep by (cases q) simp
  have s: "steady E P q (q\<lparr>dq_files := ?files\<rparr>)"
    using ok_active_file[OF ok, of None, OF _ full] unfolding e by (simp add: steady_def)
  have c: "core (create_file (active_seq q) (dq_tick q)) = core (q\<lparr>dq_files := ?files\<rparr>)"
      "core (create_file (active_seq q) ((dq_tick q)\<lparr>dq_write_file := True\<rparr>)) = core (q\<lparr>dq_files := ?files\<rparr>)"
    by (simp_all add: core_def create_file_def put_file_def dq_tick_def contents_def file_bytes_def)
  have f: "dq_needs_repair (create_file k q') = dq_needs_repair q'" "dq_rotation_started (create_file k q') = dq_rotation_started q'"
    for k and q' :: "('a, 'b) disk_queue" by (simp_all add: create_file_def put_file_def)
  show ?thesis
    using steady_after_core[OF s c(1)] steady_after_core[OF s c(2)] steady_core[OF ok] rep
    by (auto simp: steps_def open_append_def f dq_tick_def split: io_step.split)
qed


section \<open>Appending\<close>

text \<open>The active segment with one more record in its file.\<close>

definition appended :: "bytes \<Rightarrow> ('d, 'h) disk_queue \<Rightarrow> ('d, 'h) disk_queue" where
  "appended r q = q\<lparr>dq_files := AList.update (active_seq q) (body (dq_files q) (active_segment q) @ r) (dq_files q),
     dq_needs_repair := None,
     dq_segments := butlast (dq_segments q) @ [(active_segment q)\<lparr>seg_len := seg_len (active_segment q) + length r\<rparr>],
     dq_total_bytes := dq_total_bytes q + length r, dq_queued_records := dq_queued_records q + 1\<rparr>"

lemma ends_at_grow:
  assumes "ends_at (pre @ [s]) pos e"
  shows "ends_at (pre @ [s\<lparr>seg_len := seg_len s + k\<rparr>]) pos e"
proof -
  obtain pre' s' post' where p: "pre @ [s] = pre' @ s' # post'" "seg_seq s' = ra_seg e" "ra_offset e + ra_len e \<le> seg_len s'"
      "seg_sum pre' + (ra_offset e + ra_len e) = pos"
    using assms by (auto simp: ends_at_def)
  show ?thesis
  proof (cases "post' = []")
    case True
    then have "pre = pre'" "s = s'" using p(1) by auto
    then show ?thesis unfolding ends_at_def using p(2-4)
      by (intro exI[of _ pre] exI[of _ "s\<lparr>seg_len := seg_len s + k\<rparr>"] exI[of _ "[]"]) auto
  next
    case False
    then obtain post where "post' = post @ [s]" "pre = pre' @ s' # post" using p(1)
      by (metis append_butlast_last_id butlast.simps(2) butlast_append butlast_snoc last.simps last_appendR last_snoc list.distinct(1))
    then show ?thesis unfolding ends_at_def using p(2-4)
      by (intro exI[of _ pre'] exI[of _ s'] exI[of _ "post @ [s\<lparr>seg_len := seg_len s + k\<rparr>]"]) auto
  qed
qed

context record_kind
begin

lemma appended_ok:
  assumes ok: "spool_ok E P q" and rep: "dq_needs_repair q = None" "\<not> dq_rotation_started q" and r: "P r"
  shows "spool_ok E P (appended r q)" and "waiting E (appended r q) = waiting E q @ [r]"
proof -
  let ?act = "active_segment q"
  let ?new = "?act\<lparr>seg_len := seg_len ?act + length r\<rparr>"
  let ?files = "AList.update (active_seq q) (body (dq_files q) ?act @ r) (dq_files q)"
  let ?pre = "butlast (dq_segments q)" and ?q = "appended r q"
  have nn: "dq_segments q \<noteq> []" using nonempty_segments[OF ok] .
  have segs: "dq_segments q = ?pre @ [?act]" using nn by (simp add: active_segment_def)
  have so: "segments_ok P (dq_files q) (?pre @ [?act]) (dq_read_seq q) (dq_total_bytes q)"
    and fo: "files_ok P (dq_files q) (?pre @ [?act]) (dq_read_seq q) None False"
    using ok rep by (simp_all add: spool_ok_def flip: segs)
  have asc: "\<forall>s \<in> set ?pre. seg_seq s < active_seq q" using so by (simp add: segments_ok_def sorted_wrt_append)
  have len: "length (body (dq_files q) ?act) = seg_len ?act" using tracked_file(2)[OF ok active_in[OF ok]] by (simp add: body_def)
  have bp: "s \<in> set ?pre \<Longrightarrow> on_disk ?files (seg_seq s) = on_disk (dq_files q) (seg_seq s)" for s
    using asc by (auto simp: on_disk_update)
  then have mb: "map (body ?files) ?pre = map (body (dq_files q)) ?pre" by (intro map_cong) (simp_all add: body_def)
  have bn: "body ?files ?new = body (dq_files q) ?act @ r" using len by (simp add: body_def[of ?files] on_disk_update)
  have off: "dq_read_offset q \<le> length (concat (map (body (dq_files q)) ?pre) @ body (dq_files q) ?act)"
  proof -
    have "dq_read_offset q \<le> length (first_body q)" using ok length_first[OF ok] by (simp add: spool_ok_def cursor_ok_def)
    then show ?thesis using segs len by (cases ?pre) (auto simp: first_body_def)
  qed
  have "stream ?q = drop (dq_read_offset q) (concat (map (body (dq_files q)) ?pre) @ (body (dq_files q) ?act @ r))"
  proof -
    have "stream ?q = drop (dq_read_offset q) (concat (map (body ?files) ?pre) @ body ?files ?new)"
      by (simp add: stream_def appended_def del: drop_append)
    then show ?thesis unfolding mb bn .
  qed
  also have "\<dots> = drop (dq_read_offset q) (concat (map (body (dq_files q)) (?pre @ [?act]))) @ r" using off by simp
  also have "\<dots> = stream q @ r" by (simp only: stream_def flip: segs)
  finally have st: "stream ?q = stream q @ r" .
  then show w: "waiting E ?q = waiting E q @ [r]" using chop_append[OF sealed_stream[OF ok]] chop_one[OF r] by (simp add: waiting_def)
  have fb: "first_body ?q = (if ?pre = [] then first_body q @ r else first_body q)"
  proof (cases ?pre)
    case Nil
    then have "first_body ?q = body ?files ?new" "first_body q = body (dq_files q) ?act" using segs by (simp_all add: first_body_def appended_def)
    then show ?thesis using bn Nil by simp
  next
    case (Cons s ss)
    then have "first_body ?q = body ?files s" "first_body q = body (dq_files q) s" using segs by (simp_all add: first_body_def appended_def)
    then show ?thesis using bp[of s] Cons by (simp add: body_def)
  qed
  have offl: "dq_read_offset q \<le> length (first_body q)" using ok length_first[OF ok] by (simp add: spool_ok_def cursor_ok_def)
  have "segments_ok P ?files (?pre @ [?new]) (dq_read_seq q) (dq_total_bytes q + length r)"
  proof -
    have "\<forall>s \<in> set ?pre. map_of ?files (seg_seq s) \<noteq> None \<and> seg_len s \<le> length (on_disk ?files (seg_seq s)) \<and> sealed P (body ?files s)"
      using so bp by (auto simp: segments_ok_def body_def AList.update_conv')
    moreover have "sealed P (body ?files ?new)" unfolding bn using so sealed_one[of P, OF r] by (auto simp: segments_ok_def)
    moreover have "seg_seq (hd (?pre @ [?act])) = seg_seq (hd (?pre @ [?new]))" by (cases ?pre) auto
    ultimately show ?thesis using so len by (auto simp: segments_ok_def on_disk_update AList.update_conv' sorted_wrt_append)
  qed
  moreover have "files_ok P ?files (?pre @ [?new]) (dq_read_seq q) None False"
  proof -
    have "file_known P (?pre @ [?new]) (dq_read_seq q) None False k x" if "map_of ?files k = Some x" for k x
    proof (cases "k = active_seq q")
      case False
      then have "map_of (dq_files q) k = Some x" using that by (simp add: AList.update_conv')
      then have "file_known P (?pre @ [?act]) (dq_read_seq q) None False k x" using fo unfolding files_ok_def by blast
      then show ?thesis using False by (auto simp: file_known_def)
    qed (simp add: file_known_def)
    then show ?thesis using fo bp len by (simp add: files_ok_def on_disk_update AList.distinct_update)
  qed
  moreover have "cursor_ok P (first_body ?q) (seg_len (hd (?pre @ [?new]))) (dq_read_offset q)"
  proof (cases ?pre)
    case Nil
    have "hd (dq_segments q) = ?act" using segs Nil by simp
    then show ?thesis using ok fb offl Nil sealed_one[of P, OF r] by (auto simp: spool_ok_def cursor_ok_def)
  next
    case (Cons s ss)
    have "hd (dq_segments q) = s" using segs Cons by simp
    then show ?thesis using ok fb Cons by (auto simp: spool_ok_def cursor_ok_def)
  qed
  moreover have "ahead_ok E (?pre @ [?new]) (dq_read_offset q) (waiting E q @ [r]) (dq_read_ahead q)"
  proof -
    have a: "ahead_ok E (?pre @ [?act]) (dq_read_offset q) (waiting E q) (dq_read_ahead q)"
      using ok by (simp add: spool_ok_def flip: segs)
    then have "length (dq_read_ahead q) \<le> length (waiting E q)" by (auto simp: ahead_ok_def dest: list_all2_lengthD)
    then show ?thesis using a ends_at_grow by (auto simp: ahead_ok_def)
  qed
  moreover have "saved_ok P ?files (active_seq q) (first_body ?q) (dq_read_seq q) (dq_read_offset q) (dq_cursor q) (dq_jobs q)"
  proof -
    have t: "take (dq_read_offset q) (first_body ?q) = take (dq_read_offset q) (first_body q)" using fb offl by auto
    show ?thesis
      by (rule saved_ok_later[OF saved_part[OF ok] _ _ _ t]) (use read_up_to_active[OF ok] in \<open>simp_all add: AList.update_conv' active_segment_def\<close>)
  qed
  ultimately show "spool_ok E P ?q" using w rep by (simp add: spool_ok_def) (simp add: appended_def)
qed

lemma append_record_ok:
  assumes ok: "spool_ok E P q" and rep: "dq_needs_repair q = None" "\<not> dq_rotation_started q" and r: "P r"
    and res: "append_record E r (q\<lparr>dq_needs_repair := Some (seg_len (active_segment q))\<rparr>) = (res, q')"
  shows "case res of Ran _ \<Rightarrow> core q' = core (appended r q) | _ \<Rightarrow> steady E P q q'"
proof -
  let ?act = "active_segment q" and ?q = "q\<lparr>dq_needs_repair := Some (seg_len (active_segment q))\<rparr>"
  have full: "contents (active_seq q) q = body (dq_files q) ?act"
    using ok rep by (simp add: spool_ok_def files_ok_def contents_eq body_def active_segment_def)
  have a: "active_segment ?q = ?act" by (simp add: active_segment_def)
  have torn: "steady E P q q''"
    if "core q'' = core (q\<lparr>dq_files := AList.update (active_seq q) (body (dq_files q) ?act @ take n r) (dq_files q),
      dq_needs_repair := Some (seg_len ?act)\<rparr>)" for q'' n
  proof -
    have "steady E P q (q\<lparr>dq_files := AList.update (active_seq q) (body (dq_files q) ?act @ take n r) (dq_files q),
        dq_needs_repair := Some (seg_len ?act)\<rparr>)"
      using ok_active_file[OF ok _ refl, of "Some (seg_len ?act)" r n] no_next_file[OF ok] rep r by (simp add: steady_def)
    from steady_after_core[OF this that] show ?thesis .
  qed
  have full': "contents (active_seq q) (q\<lparr>dq_needs_repair := x, dq_clock := c\<rparr>) = body (dq_files q) ?act" for x c
    using full by (simp add: contents_def file_bytes_def)
  show ?thesis
  proof (cases "if sv_io E (dq_clock q) = Io_Ok then sv_io E (dq_clock q + 1) else sv_io E (dq_clock q)")
    case Io_Ok
    then show ?thesis
      using res by (auto simp: append_record_def Let_def a full' put_file_def dq_tick_def appended_def core_def active_segment_def[of "_\<lparr>dq_clock := _\<rparr>"]
          simp flip: active_segment_def split: if_splits)
  next
    case (Io_Fails x)
    then have "res = Write_Error_At x \<and> core q' = core (q\<lparr>dq_files := AList.update (active_seq q) (body (dq_files q) ?act @ take (sv_landed E (dq_clock q + 1)) r) (dq_files q),
      dq_needs_repair := Some (seg_len ?act)\<rparr>)"
      using res by (auto simp: append_record_def Let_def a full' put_file_def dq_tick_def core_def dq_emit_def split: if_splits)
    then show ?thesis using torn by simp
  next
    case Io_Dropped
    then have "res = Push_Gone \<and> core q' = core (q\<lparr>dq_files := AList.update (active_seq q) (body (dq_files q) ?act @ take (sv_landed E (dq_clock q + 1)) r) (dq_files q),
      dq_needs_repair := Some (seg_len ?act)\<rparr>)"
      using res by (auto simp: append_record_def Let_def a full' put_file_def dq_tick_def core_def split: if_splits)
    then show ?thesis using torn by simp
  qed
qed


lemma write_record_ok:
  assumes ok: "spool_ok E P q" and r: "P r" and res: "write_record E r q = (res, q')"
  shows "case res of
      Ran _ \<Rightarrow> \<exists>q1. steady E P q q1 \<and> spool_ok E P q' \<and> waiting E q' = waiting E q @ [r] \<and> core q' = core (appended r q1)
    | _ \<Rightarrow> steady E P q q'"
proof -
  let ?Q = "\<lambda>q'. dq_needs_repair q' = None \<and> \<not> dq_rotation_started q'"
  let ?pre = "and_then (repair_if_needed E q) (\<lambda>_ q.
     and_then
       (if dq_rotation_started q \<or> seg_len (active_segment q) \<ge> cf_segment_bytes (dq_config q)
        then rotate_segment E q else (Ran (), q)) (\<lambda>_ q.
       (if dq_write_file q then (Ran (), q) else open_append E (active_seq q) q)))"
  have pre: "steps E P q ?Q ?pre"
  proof (rule steps_then[OF repair_if_needed_steps[OF ok]])
    fix x q1 assume s1: "steady E P q q1" and Q1: "dq_needs_repair q1 = None \<and> dq_rotation_started q1 = dq_rotation_started q"
    have rot: "steps E P q1 ?Q (if dq_rotation_started q1 \<or> seg_len (active_segment q1) \<ge> cf_segment_bytes (dq_config q1)
        then rotate_segment E q1 else (Ran (), q1))"
      using rotate_segment_steps[OF steadyD(1)[OF s1]] steady_refl[OF steadyD(1)[OF s1]] Q1 by (auto simp: steps_def)
    show "steps E P q1 ?Q (and_then (if dq_rotation_started q1 \<or> seg_len (active_segment q1) \<ge> cf_segment_bytes (dq_config q1)
        then rotate_segment E q1 else (Ran (), q1)) (\<lambda>_ q. if dq_write_file q then (Ran (), q) else open_append E (active_seq q) q))"
    proof (rule steps_then[OF rot])
      fix y q2 assume s2: "steady E P q1 q2" and Q2: "?Q q2"
      show "steps E P q2 ?Q (if dq_write_file q2 then (Ran (), q2) else open_append E (active_seq q2) q2)"
        using steps_mono[OF open_append_steps[OF steadyD(1)[OF s2]], of ?Q] steady_refl[OF steadyD(1)[OF s2]] Q2
        by (auto simp: steps_def)
    qed
  qed
  have w: "write_record E r q = and_then ?pre (\<lambda>_ q. append_record E r (q\<lparr>dq_needs_repair := Some (seg_len (active_segment q))\<rparr>))"
    unfolding write_record_def by (auto simp: and_then_def split: prod.splits attempt.splits)
  obtain x q1 where p: "?pre = (x, q1)" by (cases ?pre)
  show ?thesis
  proof (cases x)
    case (Ran u)
    then have s1: "steady E P q q1" and Q1: "?Q q1" using pre p by (auto simp: steps_def)
    have a: "append_record E r (q1\<lparr>dq_needs_repair := Some (seg_len (active_segment q1))\<rparr>) = (res, q')"
      using w p Ran res by (simp add: and_then_def)
    note ok1 = steadyD(1)[OF s1]
    have ar: "case res of Ran _ \<Rightarrow> core q' = core (appended r q1) | _ \<Rightarrow> steady E P q1 q'"
      using append_record_ok[OF ok1 _ _ r a] Q1 by simp
    have ap: "spool_ok E P (appended r q1)" "waiting E (appended r q1) = waiting E q1 @ [r]"
      using appended_ok[OF ok1 _ _ r] Q1 by simp_all
    show ?thesis
    proof (cases res)
      case (Ran v)
      then have c: "core q' = core (appended r q1)" using ar by simp
      then show ?thesis
        using Ran s1 ap core_ok[OF c] core_waiting[OF c] steadyD(3)[OF s1] by auto
    qed (use ar steady_trans[OF s1] in auto)
  qed (use pre p w res in \<open>auto simp: steps_def and_then_def\<close>)
qed

lemma rotate_consumed_steps:
  assumes ok: "spool_ok E P q"
  shows "steps E P q (\<lambda>_. True) (rotate_consumed_active_segment E q)"
  unfolding rotate_consumed_active_segment_def
proof (rule steps_then[OF repair_if_needed_steps[OF ok]], rule steps_then)
  fix q1 assume a: "steady E P q q1" "dq_needs_repair q1 = None \<and> dq_rotation_started q1 = dq_rotation_started q"
  then have "dq_needs_repair q1 = None" by simp
  from rotate_segment_steps[OF steadyD(1)[OF a(1)] this]
  show "steps E P q1 (\<lambda>_. True) (rotate_segment E q1)" by (rule steps_mono) simp
next
  fix q1 q2 assume "steady E P q1 q2"
  from steady_rolled[OF roll_read_cursor_rolled(1)[OF steadyD(1)[OF this]]]
  show "steps E P q2 (\<lambda>_. True) (Ran (), snd (roll_read_cursor E q2))" by (simp add: steps_def)
qed

section \<open>Pushing\<close>

text \<open>
  What a push comes to: the oldest records may have been evicted for it, and its own record is at
  the end of the queue exactly when it was written.
\<close>

end

definition push_done ::
    "('d, 'h) spool_env \<Rightarrow> (bytes \<Rightarrow> bool) \<Rightarrow> bytes \<Rightarrow> ('d, 'h) disk_queue \<Rightarrow> push_end \<times> ('d, 'h) disk_queue \<Rightarrow> bool" where
  "push_done E P r q res \<longleftrightarrow> spool_ok E P (snd res) \<and> counted E (snd res) \<and> dq_config (snd res) = dq_config q \<and>
     dq_closed (snd res) = dq_closed q \<and> dq_read_ahead (snd res) = dq_read_ahead q \<and>
     (\<exists>k \<le> length (waiting E q). (k = 0 \<or> cf_overflow (dq_config q) = Drop_Oldest \<and> dq_read_ahead q = []) \<and>
        waiting E (snd res) = drop k (waiting E q) @ (if fst res = Pushed then [r] else []))"

lemma push_done_steady:
  assumes "steady E P q q'" and "counted E q" and "e \<noteq> Pushed" and "core q'' = core q'"
  shows "push_done E P r q (e, q'')"
proof -
  note d = steadyD[OF steady_after_core[OF assms(1,4)]]
  show ?thesis using d assms(2,3) by (auto simp: push_done_def counted_def intro: exI[of _ 0])
qed

lemma push_done_after:
  assumes d: "push_done E P r q' res" and w: "waiting E q' = drop k (waiting E q)" "k \<le> length (waiting E q)"
    and k: "k = 0 \<or> cf_overflow (dq_config q) = Drop_Oldest \<and> dq_read_ahead q = []"
    and same: "dq_config q' = dq_config q" "dq_closed q' = dq_closed q" "dq_read_ahead q' = dq_read_ahead q"
  shows "push_done E P r q res"
proof -
  from d obtain j where j: "j \<le> length (waiting E q')" "j = 0 \<or> cf_overflow (dq_config q) = Drop_Oldest \<and> dq_read_ahead q = []"
    "waiting E (snd res) = drop j (waiting E q') @ (if fst res = Pushed then [r] else [])"
    using same by (auto simp: push_done_def)
  then have "\<exists>k \<le> length (waiting E q). (k = 0 \<or> cf_overflow (dq_config q) = Drop_Oldest \<and> dq_read_ahead q = []) \<and>
        waiting E (snd res) = drop k (waiting E q) @ (if fst res = Pushed then [r] else [])"
    using w k by (intro exI[of _ "k + j"]) (auto simp: add.commute)
  then show ?thesis using d same by (simp add: push_done_def)
qed

context record_kind
begin

lemma push_write_done:
  assumes ok: "spool_ok E P q" and cnt: "counted E q" and r: "P r"
  shows "push_done E P r q (push_write E r events q)"
proof -
  obtain res q' where w: "write_record E r q = (res, q')" by (cases "write_record E r q")
  note wr = write_record_ok[OF ok r w]
  show ?thesis
  proof (cases res)
    case (Ran u)
    from wr Ran obtain q1 where s: "steady E P q q1" and ok': "spool_ok E P q'" and wt: "waiting E q' = waiting E q @ [r]"
      and c: "core q' = core (appended r q1)" by auto
    have c': "core (after_change q') = core q'" by simp
    note cf = core_fields[OF c] core_fields[OF c']
    have "push_write E r events q = (Pushed, after_change q')" using w Ran by (simp add: push_write_def)
    moreover have "dq_queued_records q' = dq_queued_records q + 1" "dq_config q' = dq_config q" "dq_closed q' = dq_closed q"
        "dq_read_ahead q' = dq_read_ahead q"
      using cf steadyD[OF s] by (simp_all add: appended_def)
    ultimately show ?thesis
      using ok' wt cnt core_ok[OF c'] core_waiting[OF c'] cf
      by (auto simp: push_done_def counted_def intro: exI[of _ 0])
  next
    case (Write_Error_At full)
    then show ?thesis using wr w push_done_steady[OF _ cnt, of P q' Push_Dropped] by (simp add: push_write_def)
  next
    case Push_Gone
    then show ?thesis using wr w push_done_steady[OF _ cnt, of P q' Push_Cancelled] by (simp add: push_write_def)
  qed
qed

lemma push_loop_done:
  assumes "spool_ok E P q" and "counted E q" and r: "P r"
  shows "push_done E P r q (push_loop n E r events made_room q)"
  using assms(1,2)
proof (induction n arbitrary: made_room q)
  case 0
  then show ?case using push_done_steady[OF steady_refl[OF 0(1)] 0(2), of Push_Unfinished] by simp
next
  case (Suc n)
  let ?q = "snd (roll_read_cursor E q)"
  note roll = roll_read_cursor_rolled[OF Suc.prems(1)]
  note d = rolledD[OF roll(1)]
  have cnt: "counted E ?q" using Suc.prems(2) d by (simp add: counted_def)
  have sr: "steady E P q ?q" using steady_rolled[OF roll(1)] .
  have from_rolled: "push_done E P r q res" if "push_done E P r ?q res" for res
    using push_done_after[OF that, of 0 q] d by simp
  have "push_done E P r ?q (push_loop (Suc n) E r events made_room q)"
  proof (cases "push_action (length r) made_room ?q")
    case Act_Write
    then show ?thesis using push_write_done[OF d(1) cnt r] by (simp add: Let_def)
  next
    case Act_Block
    then show ?thesis using push_done_steady[OF steady_refl[OF d(1)] cnt, of "Push_Parked made_room"] by (simp add: Let_def)
  next
    case Act_Drop_Newest
    then show ?thesis using push_done_steady[OF steady_refl[OF d(1)] cnt, of Push_Dropped] by (simp add: Let_def)
  next
    case Act_Make_Room
    obtain res q1 where c: "rotate_consumed_active_segment E ?q = (res, q1)" by (cases "rotate_consumed_active_segment E ?q")
    have s1: "steady E P ?q q1" using rotate_consumed_steps[OF d(1)] c by (auto simp: steps_def split: attempt.splits)
    note d1 = steadyD[OF s1]
    have "counted E q1" using cnt d1 by (simp add: counted_def)
    from Suc.IH[OF d1(1) this, of True] have "push_done E P r ?q (push_loop n E r events True q1)"
      using push_done_after[of E P r q1 _ 0 ?q] d1 by simp
    then show ?thesis
      using Act_Make_Room c push_done_steady[OF s1 cnt, of Push_Dropped] push_done_steady[OF s1 cnt, of Push_Cancelled]
      by (cases res) (simp_all add: Let_def)
  next
    case Act_Evict
    obtain res q1 where c: "evict_oldest_record E ?q = (res, q1)" by (cases "evict_oldest_record E ?q")
    note ev = evict_ok[OF d(1) c] 
    have rd: "readable ?q \<longleftrightarrow> stream ?q \<noteq> []" using roll(3) d(2) by simp
    show ?thesis
    proof (cases res)
      case True
      have pol: "cf_overflow (dq_config ?q) = Drop_Oldest"
        using Act_Evict by (auto simp: push_action_def Let_def split: if_splits overflow_policy.splits)
      have c1: "counted E q1" using ev[OF rd] True cnt by (simp add: counted_def)
      have w1: "waiting E q1 = drop 1 (waiting E ?q)" "1 \<le> length (waiting E ?q)"
        using ev[OF rd] True by (simp_all add: drop_Suc Suc_le_eq)
      have "push_done E P r q1 (push_loop n E r events made_room q1)" using Suc.IH c1 ev[OF rd] by simp
      from push_done_after[OF this w1] ev[OF rd] True pol
      have "push_done E P r ?q (push_loop n E r events made_room q1)" by simp
      then show ?thesis using Act_Evict c True by (simp add: Let_def)
    next
      case False
      then have co: "core q1 = core ?q" using ev[OF rd] by simp
      have s1: "steady E P ?q q1" using steady_core[OF d(1) co] .
      have "push_done E P r q1 (push_write E r events q1)"
        using push_write_done[OF steadyD(1)[OF s1] _ r] cnt steadyD[OF s1] by (simp add: counted_def)
      then have "push_done E P r ?q (push_write E r events q1)"
        using push_done_after[of E P r q1 _ 0 ?q] steadyD[OF s1] by simp
      then show ?thesis using Act_Evict c False by (simp add: Let_def)
    qed
  qed
  then show ?case by (rule from_rolled)
qed


text \<open>One turn for every record waiting and two more are enough for a push to come to its end.\<close>

lemma push_loop_ends:
  assumes "spool_ok E P q" and "length (waiting E q) + (if made_room then 1 else 2) \<le> n"
  shows "fst (push_loop n E r events made_room q) \<noteq> Push_Unfinished"
  using assms
proof (induction n arbitrary: made_room q)
  case 0
  then show ?case by (simp split: if_splits)
next
  case (Suc n)
  let ?q = "snd (roll_read_cursor E q)"
  note roll = roll_read_cursor_rolled[OF Suc.prems(1)]
  note d = rolledD[OF roll(1)]
  have pw: "fst (push_write E r events q') \<noteq> Push_Unfinished" for q'
    by (simp add: push_write_def split: prod.splits attempt.splits)
  show ?case
  proof (cases "push_action (length r) made_room ?q")
    case Act_Make_Room
    then have m: "\<not> made_room" by (auto simp: push_action_def Let_def split: if_splits overflow_policy.splits)
    obtain res q1 where c: "rotate_consumed_active_segment E ?q = (res, q1)" by (cases "rotate_consumed_active_segment E ?q")
    have "steady E P ?q q1" using rotate_consumed_steps[OF d(1)] c by (auto simp: steps_def split: attempt.splits)
    note d1 = steadyD[OF this]
    have "fst (push_loop n E r events True q1) \<noteq> Push_Unfinished"
      using Suc.IH[OF d1(1), of True] Suc.prems(2) m d1(3) d(3) by simp
    then show ?thesis using Act_Make_Room c by (cases res) (simp_all add: Let_def)
  next
    case Act_Evict
    obtain res q1 where c: "evict_oldest_record E ?q = (res, q1)" by (cases "evict_oldest_record E ?q")
    have rd: "readable ?q \<longleftrightarrow> stream ?q \<noteq> []" using roll(3) d(2) by simp
    note ev = evict_ok[OF d(1) c rd]
    show ?thesis
    proof (cases res)
      case True
      then have "length (waiting E q) = length (waiting E q1) + 1" using ev d(3) by (cases "waiting E q") auto
      then have "fst (push_loop n E r events made_room q1) \<noteq> Push_Unfinished"
        using Suc.IH[of q1 made_room] ev Suc.prems(2) by simp
      then show ?thesis using Act_Evict c True by (simp add: Let_def)
    qed (use Act_Evict c pw in \<open>simp add: Let_def\<close>)
  qed (use pw in \<open>simp_all add: Let_def\<close>)
qed

end

section \<open>Shutting down\<close>

lemma run_persist_job_jobs:
  "run_persist_job E job (q\<lparr>dq_jobs := js\<rparr>) = (run_persist_job E job q)\<lparr>dq_jobs := js\<rparr>"
proof -
  have p: "persist_cursor E at (q\<lparr>dq_jobs := js\<rparr>) = (persist_cursor E at q)\<lparr>dq_jobs := js\<rparr>" for at and q :: "('a, 'b) disk_queue"
    by (simp add: persist_cursor_def dq_tick_def dq_emit_def Let_def split: option.split)
  have u: "unlink_segment E seq (q\<lparr>dq_jobs := js\<rparr>) = (unlink_segment E seq q)\<lparr>dq_jobs := js\<rparr>" for seq and q :: "('a, 'b) disk_queue"
    by (auto simp: unlink_segment_def dq_tick_def count_fs_error_def dq_emit_def file_bytes_def)
  have "fold (unlink_segment E) seqs (q\<lparr>dq_jobs := js\<rparr>) = (fold (unlink_segment E) seqs q)\<lparr>dq_jobs := js\<rparr>" for seqs and q :: "('a, 'b) disk_queue"
    by (induction seqs arbitrary: q) (simp_all add: u)
  then show ?thesis by (simp add: run_persist_job_def p)
qed

lemma run_jobs_unseen:
  assumes "spool_ok E P (q\<lparr>dq_jobs := jobs\<rparr>)"
  shows "unseen E P q (fold (run_persist_job E) jobs (q\<lparr>dq_jobs := []\<rparr>))"
  using assms
proof (induction jobs arbitrary: q)
  case Nil
  then show ?case by (simp add: unseen_def stream_def front_def core_def)
next
  case (Cons job jobs)
  let ?q = "run_persist_job E job q"
  have w: "worker_turn E (q\<lparr>dq_jobs := job # jobs\<rparr>) = ?q\<lparr>dq_jobs := jobs\<rparr>"
    by (simp add: worker_turn_def flip: run_persist_job_jobs)
  have u: "unseen E P (q\<lparr>dq_jobs := job # jobs\<rparr>) (?q\<lparr>dq_jobs := jobs\<rparr>)"
    using worker_turn_unseen[OF Cons.prems] w by simp
  have "unseen E P ?q (fold (run_persist_job E) jobs (?q\<lparr>dq_jobs := []\<rparr>))"
    using Cons.IH[of ?q] unseenD(1)[OF u] by simp
  moreover have "stream ?q = stream q" "front ?q = front q"
    using unseenD(2,4)[OF u] by (simp_all add: stream_def front_def core_def)
  ultimately show ?case by (simp add: unseen_def run_persist_job_jobs)
qed

lemma steady_unseen:
  assumes "unseen E P q q'" shows "steady E P q q'"
  using unseenD[OF assms] front_fields[OF unseenD(4)[OF assms]] by (simp add: steady_def)

lemma finish_steady:
  assumes ok: "spool_ok E P q" shows "steady E P q (finish E q)"
proof -
  let ?q = "q\<lparr>dq_last_checkpoint := sv_now E (dq_clock q)\<rparr>"
  let ?job = "\<lparr>pj_cursor = (dq_read_seq ?q, dq_read_offset ?q), pj_unlink = []\<rparr>"
  let ?q1 = "queue_persist E ?job ?q"
  let ?q2 = "fold (run_persist_job E) (dq_jobs ?q1) (?q1\<lparr>dq_jobs := []\<rparr>)"
  have s: "steady E P q ?q" by (rule steady_core[OF ok]) simp
  have "job_ok P ?q ?job" using ok by (simp add: job_ok_def fits_def spool_ok_def cursor_ok_def first_body_def)
  then have u1: "unseen E P ?q ?q1" using queue_persist_unseen[OF steadyD(1)[OF s]] by simp
  have "spool_ok E P (?q1\<lparr>dq_jobs := dq_jobs ?q1\<rparr>)" using unseenD(1)[OF u1] by simp
  from run_jobs_unseen[OF this] have u2: "unseen E P ?q1 ?q2" .
  have s2: "steady E P q ?q2" using steady_trans[OF s steady_trans[OF steady_unseen[OF u1] steady_unseen[OF u2]]] .
  have fs: "core (finish_step E op q') = core q'" for op q' by (simp add: finish_step_def)
  have "core (finish E q) = core ?q2" by (simp add: finish_def Let_def fs)
  from steady_after_core[OF s2 this] show ?thesis .
qed

lemma close_ok:
  assumes "spool_ok E P q"
  shows "spool_ok E P (close q)" "stream (close q) = stream q" "dq_queued_records (close q) = dq_queued_records q"
    "dq_read_ahead (close q) = dq_read_ahead q" "dq_config (close q) = dq_config q"
  using assms by (simp_all add: close_def spool_ok_def first_body_def waiting_def stream_def)

text \<open>The number a push takes changes nothing else.\<close>

lemma push_record_core: "core (snd (push_record E item q)) = core q"
  by (simp add: push_record_def numbering_next_def Let_def split: prod.split sum.split)

end
