(* ===== verification/Spool_Recovery.thy ===== *)
theory Spool_Recovery
  imports Spool_Writer
begin

text \<open>
  Recovery: whatever state a process was in when it stopped, opening the spool again gives a queue
  with every record that was waiting, in order, after the records between the persisted cursor and the
  read position, and before what the active segment holds of the push that was never confirmed, if
  that is a whole record.
\<close>

section \<open>The steps of an open\<close>

lemma open_step_Inr: "open_step E what q = Inr q' \<longleftrightarrow> sv_io E (dq_clock q) = Io_Ok \<and> q' = dq_tick q"
  by (auto simp: open_step_def)

text \<open>What an open step may change of the state: the clock and the log, and the files or the cursor where it says so.\<close>

definition disk_only :: "('d, 'h) disk_queue \<Rightarrow> ('d, 'h) disk_queue \<Rightarrow> bool" where
  "disk_only q q' \<longleftrightarrow> core q' = core (q\<lparr>dq_files := dq_files q', dq_cursor := dq_cursor q'\<rparr>)"

lemma disk_only_core:
  assumes "core q' = core q" shows "disk_only q q'"
  using assms core_fields[OF assms] by (cases q; cases q') (simp add: disk_only_def core_def)

lemma disk_only_trans:
  assumes "disk_only q q'" and "disk_only q' q''" shows "disk_only q q''"
  using assms by (cases q; cases q'; cases q'') (simp add: disk_only_def core_def)

lemma persist_cursor_effect:
  "disk_only q (persist_cursor E at q) \<and> dq_files (persist_cursor E at q) = dq_files q \<and>
   (dq_cursor (persist_cursor E at q) = Cursor_Doc 1 (fst at) (snd at) \<or> dq_cursor (persist_cursor E at q) = dq_cursor q)"
  by (cases q) (auto simp: persist_cursor_def disk_only_def core_def dq_tick_def dq_emit_def Let_def split: option.split)

lemma unlink_effect:
  assumes "distinct (map fst (dq_files q))"
  shows "disk_only q (fold (unlink_segment E) seqs q) \<and> distinct (map fst (dq_files (fold (unlink_segment E) seqs q))) \<and>
    dq_cursor (fold (unlink_segment E) seqs q) = dq_cursor q \<and>
    (\<forall>k. map_of (dq_files (fold (unlink_segment E) seqs q)) k = map_of (dq_files q) k \<or>
         k \<in> set seqs \<and> map_of (dq_files (fold (unlink_segment E) seqs q)) k = None)"
  using assms
proof (induction seqs arbitrary: q)
  case Nil
  then show ?case by (cases q) (simp add: disk_only_def core_def)
next
  case (Cons seq seqs)
  let ?q = "unlink_segment E seq q"
  have one: "disk_only q ?q" "distinct (map fst (dq_files ?q))" "dq_cursor ?q = dq_cursor q"
    "\<forall>k. map_of (dq_files ?q) k = map_of (dq_files q) k \<or> k = seq \<and> map_of (dq_files ?q) k = None"
    using Cons.prems
    by (auto simp: unlink_segment_def disk_only_def core_def dq_tick_def count_fs_error_def dq_emit_def
        AList.distinct_delete AList.delete_conv')
  from Cons.IH[OF one(2)] one disk_only_trans[OF one(1)] show ?case by (simp del: fun_upd_apply) metis
qed

section \<open>Walking what is left\<close>

text \<open>What recovery keeps of bytes that no push confirmed: all of them if they are a whole record.\<close>

definition whole_tail :: "(bytes \<Rightarrow> bool) \<Rightarrow> bytes \<Rightarrow> bytes" where
  "whole_tail P bs = (if P bs then bs else [])"

context record_kind
begin

lemma walk_sealed:
  assumes all: "list_all P rs" and torn: "torn (sv_record E) (sv_table E c) (good @ concat rs) tail"
  shows "wo_good_len (walk_segment (sv_record E) (sv_table E c) (good @ concat rs @ tail) (length good)) = length good + length (concat rs)"
    and "wo_valid_count (walk_segment (sv_record E) (sv_table E c) (good @ concat rs @ tail) (length good)) = length rs"
    and "wo_corrupt_skipped (walk_segment (sv_record E) (sv_table E c) (good @ concat rs @ tail) (length good)) = 0"
proof -
  have parses: "\<exists>item. parse_record (sv_record E) (sv_table E c p) (r @ rest) = Inr (item, length r)" if "r \<in> set rs" for r p rest
    using that all kind_kept[of r] by (auto simp: list_all_iff kept_def)
  let ?w = "\<lparr>wo_good_len = 0, wo_valid_count = 0, wo_corrupt_skipped = 0, wo_records = []\<rparr> :: ('d, 'h) walk_outcome"
  have "\<exists>found. walk_from (sv_record E) (sv_table E c) (good @ concat rs @ tail) (length good) ?w =
      ?w\<lparr>wo_good_len := length good + length (concat rs), wo_valid_count := wo_valid_count ?w + length rs,
        wo_records := wo_records ?w @ found\<rparr>"
    using walk_from_records[OF _ torn, of ?w] parses by blast
  then show
    "wo_good_len (walk_segment (sv_record E) (sv_table E c) (good @ concat rs @ tail) (length good)) = length good + length (concat rs)"
    "wo_valid_count (walk_segment (sv_record E) (sv_table E c) (good @ concat rs @ tail) (length good)) = length rs"
    "wo_corrupt_skipped (walk_segment (sv_record E) (sv_table E c) (good @ concat rs @ tail) (length good)) = 0"
    unfolding walk_segment_def by auto
qed

text \<open>The end of the active segment: all of the last record landed, or it is cut away.\<close>

lemma cut_record: "P u \<Longrightarrow> n < length u \<Longrightarrow> \<not> P (take n u)"
proof
  assume "P u" "n < length u" "P (take n u)"
  then have "\<exists>j. parse_record (sv_record E) (sv_table E 0 0) (take n u) = Inl (Truncated j)"
    "\<exists>item. parse_record (sv_record E) (sv_table E 0 0) (take n u @ []) = Inr (item, length (take n u))"
    using kind_kept unfolding kept_def by blast+
  then show False by auto
qed

lemma walk_recovers:
  assumes good: "sealed P good" and u: "P u \<or> take n u = []"
  shows "\<exists>x. (x = [] \<or> P u \<and> x = u \<and> take n u = u) \<and> x = whole_tail P (take n u) \<and>
    wo_good_len (walk_segment (sv_record E) (sv_table E c) (good @ take n u) 0) = length (good @ x) \<and>
    take (length (good @ x)) (good @ take n u) = good @ x"
proof -
  obtain rs where rs: "list_all P rs" "concat rs = good" using good by (auto simp: sealed_def)
  have t0: "torn (sv_record E) (sv_table E c) g []" for g by (simp add: torn_def)
  consider (none) "take n u = []" | (all) "P u" "take n u = u" | (cut) "P u" "0 < n" "n < length u" "take n u \<noteq> []"
    using u by (cases "take n u = []"; cases "n < length u") auto
  then show ?thesis
  proof cases
    case none
    from walk_sealed(1)[of rs c "[]" "[]"] t0 rs show ?thesis unfolding none by (intro exI[of _ "[]"]) (simp add: whole_tail_def)
  next
    case all
    from walk_sealed(1)[of "rs @ [u]" c "[]" "[]"] t0 rs all(1) show ?thesis unfolding all(2) by (intro exI[of _ u]) (simp add: whole_tail_def)
  next
    case cut
    have k: "kept E u" using kind_kept[OF cut(1)] .
    have "\<exists>j. parse_record (sv_record E) (sv_table E c (length good)) (take n u) = Inl (Truncated j)"
      using k cut(3) unfolding kept_def by blast
    moreover have "resync_after (sv_record E) (sv_table E c) (good @ take n u) (length good) = None"
      using k cut(3) unfolding kept_def by blast
    ultimately have "torn (sv_record E) (sv_table E c) good (take n u)" by (simp add: torn_def)
    from walk_sealed(1)[of rs c "[]" "take n u"] this rs cut_record[OF cut(1,3)] show ?thesis
      by (intro exI[of _ "[]"]) (simp add: whole_tail_def)
  qed
qed

lemma recover_active_effect:
  assumes res: "recover_active E seq q = Inr (s, torn_at, q')" and bs: "map_of (dq_files q) seq = Some (good @ take n u)"
    and good: "sealed P good" and u: "P u \<or> take n u = []" and dist: "distinct (map fst (dq_files q))"
  shows "\<exists>x. (x = [] \<or> P u \<and> x = u \<and> take n u = u) \<and> x = whole_tail P (take n u) \<and> s = \<lparr>seg_seq = seq, seg_len = length (good @ x)\<rparr> \<and> disk_only q q' \<and>
    dq_cursor q' = dq_cursor q \<and> distinct (map fst (dq_files q')) \<and> map_of (dq_files q') = (map_of (dq_files q))(seq \<mapsto> good @ x)"
proof -
  let ?q = "dq_tick q"
  have c: "core ?q = core q" by simp
  note cf = core_fields[OF c]
  have con: "contents seq ?q = good @ take n u" using bs cf by (simp add: contents_def file_bytes_def)
  obtain x where x: "(x = [] \<or> P u \<and> x = u \<and> take n u = u) \<and> x = whole_tail P (take n u)"
    "wo_good_len (walk_segment (sv_record E) (sv_table E (dq_clock ?q)) (good @ take n u) 0) = length (good @ x)"
    "take (length (good @ x)) (good @ take n u) = good @ x"
    using walk_recovers[OF good u, of "dq_clock ?q"] by blast
  note r = res[unfolded recover_active_def, unfolded bnd_eq_Inr open_step_Inr, simplified, unfolded Let_def con x(2)]
  show ?thesis
  proof (cases "length (good @ x) < length (good @ take n u)")
    case True
    have "set_len (length (good @ x)) (good @ take n u) = good @ x" using x(3) True by (simp add: set_len_def)
    then have "s = \<lparr>seg_seq = seq, seg_len = length (good @ x)\<rparr>" "q' = put_file seq (good @ x) (dq_tick ?q)"
      using r True by (auto simp: bnd_eq_Inr open_step_Inr)
    then show ?thesis using x(1) dist
      by (intro exI[of _ x]) (auto simp: put_file_def disk_only_def core_def dq_tick_def AList.distinct_update AList.update_conv' fun_eq_iff)
  next
    case False
    then have "good @ x = good @ take n u" using x(3) by (metis not_less take_all)
    moreover have "s = \<lparr>seg_seq = seq, seg_len = length (good @ x)\<rparr>" "q' = ?q" using r False by auto
    ultimately show ?thesis using x(1) dist bs cf disk_only_core[OF c] by (intro exI[of _ x]) auto
  qed
qed


text \<open>The scan finds every segment with the bytes its file ends up with.\<close>

lemma scan_effect:
  assumes "scan_segments E active (pre @ [active]) q = Inr (segs, torn_at, q')" and "active \<notin> set pre"
    and bs: "map_of (dq_files q) active = Some (good @ take n u)"
    and good: "sealed P good" and u: "P u \<or> take n u = []" and dist: "distinct (map fst (dq_files q))"
  shows "\<exists>x. (x = [] \<or> P u \<and> x = u \<and> take n u = u) \<and> x = whole_tail P (take n u) \<and> disk_only q q' \<and> dq_cursor q' = dq_cursor q \<and>
    distinct (map fst (dq_files q')) \<and> map_of (dq_files q') = (map_of (dq_files q))(active \<mapsto> good @ x) \<and>
    segs = map (\<lambda>k. \<lparr>seg_seq = k, seg_len = length (on_disk (dq_files q') k)\<rparr>) (pre @ [active])"
  using assms(1,2) bs dist
proof (induction pre arbitrary: q segs torn_at)
  case Nil
  have c: "core (dq_tick q) = core q" by simp
  note cf = core_fields[OF c]
  from Nil.prems(1) obtain s where s: "recover_active E active (dq_tick q) = Inr (s, torn_at, q')" "segs = [s]"
    by (auto simp: bnd_eq_Inr open_step_Inr)
  have "map_of (dq_files (dq_tick q)) active = Some (good @ take n u)" "distinct (map fst (dq_files (dq_tick q)))"
    using Nil.prems cf by simp_all
  from recover_active_effect[OF s(1) this(1) good u this(2)] obtain x where x: "(x = [] \<or> P u \<and> x = u \<and> take n u = u) \<and> x = whole_tail P (take n u)"
      "s = \<lparr>seg_seq = active, seg_len = length (good @ x)\<rparr>" "disk_only (dq_tick q) q'" "dq_cursor q' = dq_cursor (dq_tick q)"
      "distinct (map fst (dq_files q'))" "map_of (dq_files q') = (map_of (dq_files (dq_tick q)))(active \<mapsto> good @ x)"
    by blast
  have "segs = map (\<lambda>k. \<lparr>seg_seq = k, seg_len = length (on_disk (dq_files q') k)\<rparr>) ([] @ [active])"
    using s(2) x(2,6) by (simp add: on_disk_def)
  then show ?case
    using x(1,5) x(4,6)[unfolded cf] disk_only_trans[OF disk_only_core[OF c] x(3)] by blast
next
  case (Cons k pre)
  have c: "core (dq_tick q) = core q" by simp
  note cf = core_fields[OF c]
  have k: "k \<noteq> active" using Cons.prems(2) by auto
  from Cons.prems(1) k obtain segs' torn' where
      rest: "scan_segments E active (pre @ [active]) (dq_tick q) = Inr (segs', torn', q')"
    and segs: "segs = \<lparr>seg_seq = k, seg_len = length (contents k (dq_tick q))\<rparr> # segs'"
    by (auto simp: bnd_eq_Inr open_step_Inr)
  have "map_of (dq_files (dq_tick q)) active = Some (good @ take n u)" "distinct (map fst (dq_files (dq_tick q)))" "active \<notin> set pre"
    using Cons.prems cf by simp_all
  from Cons.IH[OF rest this(3,1,2)] obtain x where x: "(x = [] \<or> P u \<and> x = u \<and> take n u = u) \<and> x = whole_tail P (take n u)" "disk_only (dq_tick q) q'"
      "dq_cursor q' = dq_cursor q" "distinct (map fst (dq_files q'))" "map_of (dq_files q') = (map_of (dq_files q))(active \<mapsto> good @ x)"
      "segs' = map (\<lambda>k. \<lparr>seg_seq = k, seg_len = length (on_disk (dq_files q') k)\<rparr>) (pre @ [active])"
    unfolding cf by blast
  have "contents k (dq_tick q) = on_disk (dq_files q') k"
    using k x(5) cf by (simp add: contents_eq on_disk_def)
  then have "segs = map (\<lambda>k. \<lparr>seg_seq = k, seg_len = length (on_disk (dq_files q') k)\<rparr>) ((k # pre) @ [active])"
    using segs x(6) by simp
  then show ?case using x(1,3-5) disk_only_trans[OF disk_only_core[OF c] x(2)] by blast
qed

text \<open>The replay counts the records from the cursor on.\<close>

lemma count_replayed_effect:
  assumes "count_replayed E start segs q = Inr (replayed, corrupt, q')"
    and "\<forall>s \<in> set segs. sealed P (contents (seg_seq s) q) \<and> seg_len s = length (contents (seg_seq s) q)"
    and "segs \<noteq> [] \<Longrightarrow> start \<le> seg_len (hd segs) \<and> sealed P (drop start (contents (seg_seq (hd segs)) q))"
    and "segs = [] \<Longrightarrow> start = 0"
  shows "core q' = core q \<and> replayed = length (chop E (drop start (concat (map (\<lambda>s. contents (seg_seq s) q) segs)))) \<and> corrupt = 0"
  using assms
proof (induction segs arbitrary: start q replayed corrupt)
  case Nil
  then show ?case by simp
next
  case (Cons s segs)
  let ?q = "dq_tick q" and ?bs = "contents (seg_seq s) q"
  have c: "core ?q = core q" by simp
  have con: "contents k ?q = contents k q" for k using core_fields[OF c] by (simp add: contents_def file_bytes_def)
  let ?w = "walk_segment (sv_record E) (sv_table E (dq_clock ?q)) (take (seg_len s) ?bs) start"
  obtain replayed' corrupt' where rest: "count_replayed E 0 segs ?q = Inr (replayed', corrupt', q')"
    and r: "replayed = wo_valid_count ?w + replayed'" "corrupt = wo_corrupt_skipped ?w + corrupt'"
    using Cons.prems(1) by (auto simp: bnd_eq_Inr open_step_Inr Let_def con)
  have le: "start \<le> length ?bs" and sd: "sealed P (drop start ?bs)" using Cons.prems(2,3) by simp_all
  let ?rs = "chop E (drop start ?bs)"
  have rs: "list_all P ?rs" "concat ?rs = drop start ?bs" using chop_sealed[OF sd] by simp_all
  have bs: "take (seg_len s) ?bs = take start ?bs @ concat ?rs @ []" using Cons.prems(2) rs(2) by simp
  have len: "length (take start ?bs) = start" using le by simp
  have "torn (sv_record E) (sv_table E (dq_clock ?q)) (take start ?bs @ concat ?rs) []" by (simp add: torn_def)
  from walk_sealed(2,3)[OF rs(1) this] have w: "wo_valid_count ?w = length ?rs" "wo_corrupt_skipped ?w = 0"
    unfolding bs len by simp_all
  have h: "sealed P (contents (seg_seq (hd segs)) ?q)" if "segs \<noteq> []" using Cons.prems(2) that con by simp
  have "core q' = core ?q \<and> replayed' = length (chop E (drop 0 (concat (map (\<lambda>s. contents (seg_seq s) ?q) segs)))) \<and> corrupt' = 0"
    by (rule Cons.IH[OF rest]) (use Cons.prems(2) h con in auto)
  moreover have "drop start (concat (map (\<lambda>s. contents (seg_seq s) q) (s # segs))) = drop start ?bs @ concat (map (\<lambda>s. contents (seg_seq s) q) segs)"
    using le by simp
  ultimately show ?case using r w c chop_append[OF sd] con by simp
qed

end

section \<open>The files a process leaves\<close>

lemma sorted_split:
  fixes xs :: "nat list"
  assumes "sorted xs" shows "filter (\<lambda>k. k < a) xs @ filter (\<lambda>k. a \<le> k) xs = xs"
  using assms
proof (induction xs)
  case (Cons x xs)
  show ?case
  proof (cases "x < a")
    case False
    then have "filter (\<lambda>k. k < a) xs = []" using Cons.prems by (auto simp: filter_empty_conv)
    then show ?thesis using Cons False by simp
  qed (use Cons in simp)
qed simp

lemma sorted_last: "sorted xs \<Longrightarrow> k \<in> set xs \<Longrightarrow> k \<le> last xs"
  by (induction xs) auto

lemma list_segments_props:
  assumes "distinct (map fst (dq_files q))"
  shows "sorted (list_segments q)" "distinct (list_segments q)" "set (list_segments q) = {k. map_of (dq_files q) k \<noteq> None}"
  using assms by (auto simp: list_segments_def map_of_eq_None_iff dom_map_of_conv_image_fst image_iff)

lemma files_distinct: "spool_ok E P q \<Longrightarrow> distinct (map fst (dq_files q))"
  by (simp add: spool_ok_def files_ok_def)

lemma tracked_keys:
  assumes ok: "spool_ok E P q"
  shows "filter (\<lambda>k. dq_read_seq q \<le> k) (list_segments q) =
    map seg_seq (dq_segments q) @ (if map_of (dq_files q) (active_seq q + 1) = None then [] else [active_seq q + 1])" (is "?l = ?r")
proof -
  note ls = list_segments_props[OF files_distinct[OF ok]]
  have so: "segments_ok P (dq_files q) (dq_segments q) (dq_read_seq q) (dq_total_bytes q)" using ok by (simp add: spool_ok_def)
  have asc: "sorted_wrt (<) (map seg_seq (dq_segments q))" using so by (simp add: segments_ok_def)
  have up: "\<forall>s \<in> set (dq_segments q). seg_seq s < active_seq q + 1" using tracked_up_to[OF ok] by (simp add: less_Suc_eq_le)
  have "sorted_wrt (<) ?r" using asc up by (auto simp: sorted_wrt_append)
  then have "sorted ?r" "distinct ?r" by (simp_all add: strict_sorted_iff)
  moreover have "set ?l = set ?r"
  proof -
    have "k \<in> set ?r" if "map_of (dq_files q) k = Some bs" "dq_read_seq q \<le> k" for k bs
    proof -
      have "file_known P (dq_segments q) (dq_read_seq q) (dq_needs_repair q) (dq_rotation_started q) k bs"
        using ok that(1) unfolding spool_ok_def files_ok_def by blast
      then show ?thesis using that by (auto simp: file_known_def active_segment_def)
    qed
    moreover have "map_of (dq_files q) k \<noteq> None \<and> dq_read_seq q \<le> k" if "k \<in> set ?r" for k
      using that so tracked_from[OF so] read_up_to_active[OF ok] by (auto simp: segments_ok_def split: if_splits)
    ultimately have "k \<in> set ?l \<longleftrightarrow> k \<in> set ?r" for k unfolding set_filter ls(3) by blast
    then show ?thesis by blast
  qed
  moreover have "sorted ?l" "distinct ?l" using sorted_wrt_filter[OF ls(1)] ls(2) by simp_all
  ultimately show ?thesis by (simp add: sorted_distinct_set_unique)
qed

lemma active_left:
  assumes ok: "spool_ok E P q"
  shows "list_segments q \<noteq> []" and "\<exists>good n u.
    map_of (dq_files q) (last (list_segments q)) = Some (good @ take n u) \<and> sealed P good \<and> (P u \<and> dq_needs_repair q \<noteq> None \<or> take n u = []) \<and>
    (last (list_segments q) = active_seq q \<and> good = body (dq_files q) (active_segment q) \<or>
     last (list_segments q) = active_seq q + 1 \<and> good = [] \<and> take n u = [] \<and>
       on_disk (dq_files q) (active_seq q) = body (dq_files q) (active_segment q))"
proof -
  let ?act = "active_segment q" and ?next = "map_of (dq_files q) (active_seq q + 1)"
  note ls = list_segments_props[OF files_distinct[OF ok]]
  have nn: "map seg_seq (dq_segments q) \<noteq> []" using nonempty_segments[OF ok] by simp
  have ne: "filter (\<lambda>k. dq_read_seq q \<le> k) (list_segments q) \<noteq> []" using nn unfolding tracked_keys[OF ok] by simp
  have "last (list_segments q) = last (filter (\<lambda>k. k < dq_read_seq q) (list_segments q) @ filter (\<lambda>k. dq_read_seq q \<le> k) (list_segments q))"
    unfolding sorted_split[OF ls(1)] ..
  then have l: "last (list_segments q) = (if ?next = None then active_seq q else active_seq q + 1)"
    using ne nn tracked_keys[OF ok] by (simp add: last_append active_segment_def last_map)
  show lne: "list_segments q \<noteq> []" using ne by auto
  have b: "map_of (dq_files q) (active_seq q) = Some (on_disk (dq_files q) (active_seq q))"
    using tracked_file(1)[OF ok active_in[OF ok]] by (simp add: file_bytes_def)
  have sb: "sealed P (body (dq_files q) ?act)" using tracked_file(3)[OF ok active_in[OF ok]] .
  show "\<exists>good n u.
    map_of (dq_files q) (last (list_segments q)) = Some (good @ take n u) \<and> sealed P good \<and> (P u \<and> dq_needs_repair q \<noteq> None \<or> take n u = []) \<and>
    (last (list_segments q) = active_seq q \<and> good = body (dq_files q) (active_segment q) \<or>
     last (list_segments q) = active_seq q + 1 \<and> good = [] \<and> take n u = [] \<and>
       on_disk (dq_files q) (active_seq q) = body (dq_files q) (active_segment q))"
  proof (cases ?next)
    case None
    have "(on_disk (dq_files q) (active_seq q) = body (dq_files q) ?act @ take 0 []) \<or>
        (\<exists>u n. P u \<and> dq_needs_repair q \<noteq> None \<and> on_disk (dq_files q) (active_seq q) = body (dq_files q) ?act @ take n u)"
      using ok unfolding spool_ok_def files_ok_def by (auto simp: active_segment_def body_def)
    then show ?thesis using l None b sb by (elim disjE exE conjE) (auto intro: exI[of _ "[] :: bytes"])
  next
    case (Some bs)
    then have "file_known P (dq_segments q) (dq_read_seq q) (dq_needs_repair q) (dq_rotation_started q) (active_seq q + 1) bs"
      using ok unfolding spool_ok_def files_ok_def by blast
    then have "bs = []" "dq_needs_repair q = None"
      using tracked_up_to[OF ok] read_up_to_active[OF ok] by (fastforce simp: file_known_def)+
    moreover have "on_disk (dq_files q) (active_seq q) = body (dq_files q) ?act"
      using ok calculation(2) by (auto simp: spool_ok_def files_ok_def active_segment_def body_def)
    ultimately show ?thesis using l Some by (intro exI[of _ "[] :: bytes"] exI[of _ 0]) auto
  qed
qed

text \<open>What the files hold once the active one is cut back.\<close>

lemma recovered_contents:
  assumes ok: "spool_ok E P q" and f': "map_of files' = (map_of (dq_files q))(last (list_segments q) \<mapsto> good @ x)"
    and good: "sealed P good" "sealed P x"
    and l: "last (list_segments q) = active_seq q \<and> good = body (dq_files q) (active_segment q) \<or>
     last (list_segments q) = active_seq q + 1 \<and> good = [] \<and> x = [] \<and>
       on_disk (dq_files q) (active_seq q) = body (dq_files q) (active_segment q)"
  shows "map_of files' k = Some bs \<Longrightarrow> sealed P bs"
    and "concat (map (on_disk files') (filter (\<lambda>k. dq_read_seq q \<le> k) (list_segments q))) =
      concat (map (body (dq_files q)) (dq_segments q)) @ x"
    and "\<exists>y. on_disk files' (dq_read_seq q) = first_body q @ y \<and> sealed P y"
proof -
  let ?L = "last (list_segments q)" and ?act = "active_segment q"
  have segs: "dq_segments q = butlast (dq_segments q) @ [?act]"
    using nonempty_segments[OF ok] by (simp add: active_segment_def)
  have asc: "\<forall>s \<in> set (butlast (dq_segments q)). seg_seq s < active_seq q"
    using ok ascending_split(1)[of "butlast (dq_segments q)" ?act "[]"] segs by (simp add: spool_ok_def segments_ok_def)
  have pre: "on_disk files' (seg_seq s) = body (dq_files q) s" if "s \<in> set (butlast (dq_segments q))" for s
  proof -
    have "on_disk files' (seg_seq s) = on_disk (dq_files q) (seg_seq s)" using f' l asc that by (auto simp: on_disk_def)
    then show ?thesis using ok that by (auto simp: spool_ok_def files_ok_def body_def)
  qed
  have act: "on_disk files' (active_seq q) = body (dq_files q) ?act @ (if ?L = active_seq q then x else [])"
    using l f' by (auto simp: on_disk_def)
  have nxt: "map_of (dq_files q) (active_seq q + 1) = None \<longleftrightarrow> ?L = active_seq q"
  proof -
    note ls = list_segments_props[OF files_distinct[OF ok]]
    have ne: "list_segments q \<noteq> []" using ls(3) tracked_file(1)[OF ok active_in[OF ok]] by (auto simp: file_bytes_def)
    have "?L \<in> set (list_segments q)" using last_in_set[OF ne] .
    moreover have "k \<le> ?L" if "k \<in> set (list_segments q)" for k
      using sorted_last[OF ls(1) that] .
    ultimately show ?thesis using l ls(3) by (metis (mono_tags, lifting) add_le_same_cancel1 mem_Collect_eq not_one_le_zero)
  qed
  have mp: "map (on_disk files' \<circ> seg_seq) (butlast (dq_segments q)) = map (body (dq_files q)) (butlast (dq_segments q))"
    using pre by (intro map_cong) simp_all
  have "concat (map (on_disk files') (map seg_seq (dq_segments q))) =
      concat (map (on_disk files' \<circ> seg_seq) (butlast (dq_segments q))) @ on_disk files' (active_seq q)"
    by (subst segs) simp
  also have "\<dots> = concat (map (body (dq_files q)) (butlast (dq_segments q) @ [?act])) @ (if ?L = active_seq q then x else [])"
    unfolding mp act by simp
  finally show "concat (map (on_disk files') (filter (\<lambda>k. dq_read_seq q \<le> k) (list_segments q))) =
      concat (map (body (dq_files q)) (dq_segments q)) @ x"
    unfolding tracked_keys[OF ok] nxt using l f' by (auto simp: on_disk_def simp flip: segs)
  show "sealed P bs" if "map_of files' k = Some bs"
  proof (cases "k = ?L")
    case True
    then show ?thesis using that f' good by auto
  next
    case False
    then have m: "map_of (dq_files q) k = Some bs" using that f' by simp
    then have "file_known P (dq_segments q) (dq_read_seq q) (dq_needs_repair q) (dq_rotation_started q) k bs"
      using ok unfolding spool_ok_def files_ok_def by blast
    then consider "sealed P bs" | s where "s \<in> set (butlast (dq_segments q) @ [?act])" "k = seg_seq s" | "bs = []"
      using segs by (auto simp: file_known_def)
    then show ?thesis
    proof cases
      case 2
      then have "bs = on_disk files' (seg_seq s)" using that by (simp add: on_disk_def)
      then have "bs = body (dq_files q) s" using pre[of s] act False 2 l by auto
      then show ?thesis using tracked_file(3)[OF ok, of s] 2(1) segs by simp
    qed simp_all
  qed
  show "\<exists>y. on_disk files' (dq_read_seq q) = first_body q @ y \<and> sealed P y"
  proof (cases "butlast (dq_segments q)")
    case Nil
    then have h: "hd (dq_segments q) = ?act" using segs by (metis append_Nil list.sel(1))
    then have "dq_read_seq q = active_seq q" using ok by (simp add: spool_ok_def segments_ok_def)
    then show ?thesis using act h good(2) by (auto simp: first_body_def)
  next
    case (Cons s ss)
    then have h: "hd (dq_segments q) = s" using segs by (metis append_Cons list.sel(1))
    then have "dq_read_seq q = seg_seq s" using ok by (simp add: spool_ok_def segments_ok_def)
    then show ?thesis using pre[of s] Cons h by (auto simp: first_body_def intro: exI[of _ "[]"])
  qed
qed

section \<open>Where the open resumes\<close>

definition resumes :: "(bytes \<Rightarrow> bool) \<Rightarrow> ('d, 'h) disk_queue \<Rightarrow> (nat \<times> bytes) list \<Rightarrow> nat \<times> nat \<Rightarrow> bool" where
  "resumes P q files' at \<longleftrightarrow>
     fst at \<in> set (list_segments q) \<and> fst at \<le> dq_read_seq q \<and> snd at \<le> length (on_disk files' (fst at)) \<and>
     sealed P (take (snd at) (on_disk files' (fst at))) \<and> sealed P (drop (snd at) (on_disk files' (fst at))) \<and>
     (fst at = dq_read_seq q \<longrightarrow> snd at \<le> dq_read_offset q \<and> sealed P (drop (snd at) (take (dq_read_offset q) (first_body q))))"

text \<open>
  The position an open resumes at: the one of the cursor file, if it is readable and the segment is
  still there, else the start of the oldest segment. What the files hold from there up to the read
  position, and what the active one holds behind the bytes that pushes confirmed.
\<close>

definition resume_at :: "('d, 'h) disk_queue \<Rightarrow> nat \<times> nat" where
  "resume_at q =
     (let oldest = (hd (list_segments q), 0) in
      case dq_cursor q of
        Cursor_Doc version seg offset \<Rightarrow> if version = 1 \<and> seg \<in> set (list_segments q) then (seg, offset) else oldest
      | _ \<Rightarrow> oldest)"

definition taken_from :: "nat \<times> nat \<Rightarrow> ('d, 'h) disk_queue \<Rightarrow> bytes" where
  "taken_from at q =
     drop (snd at) (concat (map (on_disk (dq_files q)) (filter (\<lambda>k. fst at \<le> k \<and> k < dq_read_seq q) (list_segments q))) @
       take (dq_read_offset q) (first_body q))"

definition unconfirmed :: "('d, 'h) disk_queue \<Rightarrow> bytes" where
  "unconfirmed q = drop (seg_len (active_segment q)) (on_disk (dq_files q) (seg_seq (active_segment q)))"

lemma find_len_map: "find_len k (map (\<lambda>k. \<lparr>seg_seq = k, seg_len = f k\<rparr>) ks) = (if k \<in> set ks then Some (f k) else None)"
  by (induction ks) (auto simp: find_len_def)

lemma read_seq_listed:
  assumes ok: "spool_ok E P q" shows "dq_read_seq q \<in> set (list_segments q)"
proof -
  have "map_of (dq_files q) (dq_read_seq q) \<noteq> None"
    using ok nonempty_segments[OF ok] by (simp add: spool_ok_def segments_ok_def)
  then show ?thesis using list_segments_props(3)[OF files_distinct[OF ok]] by simp
qed

lemma offset_in_first:
  assumes ok: "spool_ok E P q" shows "dq_read_offset q \<le> length (first_body q)"
  using ok length_first[OF ok] by (simp add: spool_ok_def cursor_ok_def)

lemma drop_within: "n \<le> m \<Longrightarrow> m \<le> length xs \<Longrightarrow> drop n xs = drop n (take m xs) @ drop m xs"
  using drop_append[of n "take m xs" "drop m xs"] by (simp only: append_take_drop_id) simp

lemma resumes_saved:
  assumes ok: "spool_ok E P q"
    and files': "\<And>k. k < active_seq q \<Longrightarrow> map_of files' k = map_of (dq_files q) k"
      "on_disk files' (dq_read_seq q) = first_body q @ y" "sealed P y"
    and f: "fits P (dq_files q) (last_seq q) (first_body q) (dq_read_seq q) (dq_read_offset q) at"
    and there: "map_of (dq_files q) (fst at) \<noteq> None"
  shows "resumes P q files' at"
proof (cases "fst at < dq_read_seq q")
  case True
  then obtain bs where "map_of (dq_files q) (fst at) = Some bs" "snd at \<le> length bs" "sealed P (take (snd at) bs)" "sealed P (drop (snd at) bs)"
    using f there by (auto simp: fits_def)
  moreover have "map_of files' (fst at) = map_of (dq_files q) (fst at)" using files'(1) True read_up_to_active[OF ok] by simp
  ultimately show ?thesis
    using True list_segments_props(3)[OF files_distinct[OF ok]] by (simp add: resumes_def on_disk_def)
next
  case False
  let ?off = "dq_read_offset q"
  have at: "fst at = dq_read_seq q" "snd at \<le> ?off" "sealed P (take (snd at) (first_body q))" "sealed P (drop (snd at) (take ?off (first_body q)))"
    using f there False by (auto simp: fits_def)
  have le: "?off \<le> length (first_body q)" using offset_in_first[OF ok] .
  have "drop (snd at) (first_body q @ y) = drop (snd at) (take ?off (first_body q)) @ drop ?off (first_body q) @ y"
    using drop_within[OF at(2) le] at(2) le by simp
  moreover have "sealed P (drop ?off (first_body q))" using ok by (simp add: spool_ok_def cursor_ok_def)
  ultimately have "sealed P (drop (snd at) (first_body q @ y))" using at(4) files'(3) by auto
  then show ?thesis using at le files'(2) read_seq_listed[OF ok] by (simp add: resumes_def)
qed

lemma resumes_oldest:
  assumes ok: "spool_ok E P q" and sealed: "\<And>k bs. map_of files' k = Some bs \<Longrightarrow> sealed P bs"
  shows "resumes P q files' (hd (list_segments q), 0)"
proof -
  note ls = list_segments_props[OF files_distinct[OF ok]]
  have ne: "list_segments q \<noteq> []" using read_seq_listed[OF ok] by auto
  have "hd (list_segments q) \<le> dq_read_seq q" using ls(1) ne read_seq_listed[OF ok] by (cases "list_segments q") auto
  moreover have "sealed P (on_disk files' k)" for k using sealed by (auto simp: on_disk_def split: option.split)
  ultimately show ?thesis using ne ok by (simp add: resumes_def spool_ok_def cursor_ok_def)
qed

lemma clamp_resumes:
  assumes ok: "spool_ok E P q" and cur: "dq_cursor q0 = dq_cursor q"
    and load: "load_cursor q0 = (loaded, q1)"
    and clamp: "clamp_cursor (map (\<lambda>k. \<lparr>seg_seq = k, seg_len = length (on_disk files' k)\<rparr>) (list_segments q)) loaded q1 = (at, q2)"
    and sealed: "\<And>k bs. map_of files' k = Some bs \<Longrightarrow> sealed P bs"
    and files': "\<And>k. k < active_seq q \<Longrightarrow> map_of files' k = map_of (dq_files q) k"
      "on_disk files' (dq_read_seq q) = first_body q @ y" "sealed P y"
  shows "core q2 = core q0 \<and> resumes P q files' at \<and> resume_at q = at \<and>
    (\<forall>seg offset. dq_cursor q = Cursor_Doc 1 seg offset \<longrightarrow>
       (seg, offset) = at \<or> map_of (dq_files q) seg = None \<and> seg < active_seq q)"
proof -
  note ls = list_segments_props[OF files_distinct[OF ok]]
  let ?oldest = "hd (list_segments q)"
  have ne: "list_segments q \<noteq> []" using read_seq_listed[OF ok] by auto
  have hdm: "seg_seq (hd (map (\<lambda>k. \<lparr>seg_seq = k, seg_len = length (on_disk files' k)\<rparr>) (list_segments q))) = ?oldest"
    using ne by (simp add: hd_map)
  have c1: "core q1 = core q0" using load by (auto simp: load_cursor_def split: cursor_file.splits if_splits)
  have c2: "core q2 = core q1" using clamp by (auto simp: clamp_cursor_def Let_def split: option.splits if_splits prod.splits)
  have inlist: "k \<in> set (list_segments q) \<Longrightarrow> ?oldest \<le> k" for k using ls(1) by (cases "list_segments q") auto
  show ?thesis
  proof (cases loaded)
    case None
    have "?oldest \<in> set (list_segments q)" using ne by simp
    then have "at = (?oldest, 0)" using clamp None hdm by (auto simp: clamp_cursor_def Let_def find_len_map split: option.splits if_splits)
    moreover have "\<forall>seg offset. dq_cursor q \<noteq> Cursor_Doc 1 seg offset"
      using load None cur by (auto simp: load_cursor_def CURSOR_VERSION_def split: if_splits)
    ultimately show ?thesis using c1 c2 resumes_oldest[OF ok sealed] by (auto simp: resume_at_def Let_def split: cursor_file.split)
  next
    case (Some saved_at)
    obtain seg offset where sa: "saved_at = (seg, offset)" by (cases saved_at)
    have doc: "dq_cursor q = Cursor_Doc 1 seg offset"
      using load Some cur sa by (auto simp: load_cursor_def CURSOR_VERSION_def split: cursor_file.splits if_splits)
    have f: "fits P (dq_files q) (last_seq q) (first_body q) (dq_read_seq q) (dq_read_offset q) (seg, offset)"
      using saved_part[OF ok] doc by (simp add: saved_ok_def saved_def)
    show ?thesis
    proof (cases "map_of (dq_files q) seg = None")
      case True
      then have "seg < active_seq q" using f read_up_to_active[OF ok] read_seq_listed[OF ok] ls(3)
        by (auto simp: fits_def active_segment_def)
      moreover have sl: "seg \<notin> set (list_segments q)" using ls(3) True by simp
      then have "at = (?oldest, 0)" using clamp Some sa hdm by (simp add: clamp_cursor_def Let_def find_len_map)
      ultimately show ?thesis using c1 c2 doc True sl resumes_oldest[OF ok sealed] by (simp add: resume_at_def)
    next
      case False
      have r: "resumes P q files' (seg, offset)" using resumes_saved[OF ok files' f] False by simp
      then have sl: "seg \<in> set (list_segments q)" "offset \<le> length (on_disk files' seg)" by (simp_all add: resumes_def)
      then have "at = (seg, offset)" using clamp Some sa hdm inlist[of seg] by (auto simp: clamp_cursor_def Let_def find_len_map split: if_splits)
      then show ?thesis using c1 c2 doc r sl by (simp add: resume_at_def)
    qed
  qed
qed

text \<open>From there on, the stream is what was waiting, behind records already taken off and before what else landed.\<close>

lemma resumed_stream:
  assumes ok: "spool_ok E P q" and at: "resumes P q files' at"
    and sealed: "\<And>k bs. map_of files' k = Some bs \<Longrightarrow> sealed P bs"
    and con: "concat (map (on_disk files') (filter (\<lambda>k. dq_read_seq q \<le> k) (list_segments q))) =
      concat (map (body (dq_files q)) (dq_segments q)) @ x"
    and old: "\<And>k. k < dq_read_seq q \<Longrightarrow> on_disk files' k = on_disk (dq_files q) k"
  shows "sealed P (taken_from at q) \<and>
    drop (snd at) (concat (map (on_disk files') (filter (\<lambda>k. fst at \<le> k) (list_segments q)))) = taken_from at q @ stream q @ x"
proof -
  let ?rs = "dq_read_seq q" and ?off = "dq_read_offset q" and ?ls = "list_segments q"
  note ls = list_segments_props[OF files_distinct[OF ok]]
  have sk: "sealed P (on_disk files' k)" for k using sealed by (auto simp: on_disk_def split: option.split)
  have le: "?off \<le> length (first_body q)" using offset_in_first[OF ok] .
  have bodies: "concat (map (body (dq_files q)) (dq_segments q)) = take ?off (first_body q) @ stream q"
    using nonempty_segments[OF ok] stream_split[OF ok] by (cases "dq_segments q") (auto simp: first_body_def)
  show ?thesis
  proof (cases "fst at = ?rs")
    case True
    then have a: "snd at \<le> ?off" "sealed P (drop (snd at) (take ?off (first_body q)))" using at by (simp_all add: resumes_def)
    have "drop (snd at) (concat (map (on_disk files') (filter (\<lambda>k. fst at \<le> k) ?ls))) =
        drop (snd at) (take ?off (first_body q)) @ stream q @ x"
      unfolding True con bodies using a(1) le by simp
    moreover have "taken_from at q = drop (snd at) (take ?off (first_body q))"
      unfolding taken_from_def True by (simp add: filter_empty_conv)
    ultimately show ?thesis using a(2) by simp
  next
    case False
    then have lt: "fst at < ?rs" "fst at \<in> set ?ls" using at by (auto simp: resumes_def)
    let ?mid = "filter (\<lambda>k. k < ?rs) (filter (\<lambda>k. fst at \<le> k) ?ls)"
    have ff: "filter (\<lambda>k. ?rs \<le> k) (filter (\<lambda>k. fst at \<le> k) ?ls) = filter (\<lambda>k. ?rs \<le> k) ?ls"
      using lt(1) by (auto simp: filter_filter intro: filter_cong)
    have split: "filter (\<lambda>k. fst at \<le> k) ?ls = ?mid @ filter (\<lambda>k. ?rs \<le> k) ?ls"
      using sorted_split[OF sorted_wrt_filter[OF ls(1)], of ?rs "\<lambda>k. fst at \<le> k"] ff by simp
    have "fst at \<in> set ?mid" using lt by simp
    moreover have "sorted ?mid" using ls(1) by (simp add: sorted_wrt_filter)
    moreover have "\<forall>k \<in> set ?mid. fst at \<le> k" by simp
    ultimately obtain ms where ms: "?mid = fst at # ms"
      by (metis list.set_cases list.set_intros(1) order_antisym sorted_simps(2) set_ConsD)
    let ?dup = "drop (snd at) (on_disk files' (fst at)) @ concat (map (on_disk files') ms) @ take ?off (first_body q)"
    have "snd at \<le> length (on_disk files' (fst at))" "sealed P (drop (snd at) (on_disk files' (fst at)))" using at by (simp_all add: resumes_def)
    then have "drop (snd at) (concat (map (on_disk files') (filter (\<lambda>k. fst at \<le> k) ?ls))) = ?dup @ stream q @ x"
    proof -
      have "concat (map (on_disk files') (filter (\<lambda>k. fst at \<le> k) ?ls)) =
          concat (map (on_disk files') ?mid) @ concat (map (on_disk files') (filter (\<lambda>k. ?rs \<le> k) ?ls))"
        by (subst split) simp
      also have "\<dots> = on_disk files' (fst at) @ concat (map (on_disk files') ms) @ take ?off (first_body q) @ stream q @ x"
        unfolding con bodies ms by simp
      finally show ?thesis using \<open>snd at \<le> length (on_disk files' (fst at))\<close> by simp
    qed
    moreover have "sealed P ?dup"
      using \<open>sealed P (drop (snd at) (on_disk files' (fst at)))\<close> sk ok by (auto simp: spool_ok_def cursor_ok_def intro!: sealed_append sealed_concat)
    moreover have "taken_from at q = ?dup"
    proof -
      have "filter (\<lambda>k. fst at \<le> k \<and> k < ?rs) ?ls = fst at # ms" using ms by (simp add: filter_filter conj_commute)
      moreover have "k < ?rs" if "k \<in> set (fst at # ms)" for k using that unfolding ms[symmetric] by simp
      then have "map (on_disk (dq_files q)) (fst at # ms) = map (on_disk files') (fst at # ms)"
        using old by (intro map_cong) simp_all
      ultimately show ?thesis using \<open>snd at \<le> length (on_disk files' (fst at))\<close>
        unfolding taken_from_def by (simp only:) simp
    qed
    ultimately show ?thesis by simp
  qed
qed

text \<open>A queue just opened, on files that hold whole records only.\<close>

lemma fresh_ok:
  assumes ks: "sorted ks" "distinct ks" "ks \<noteq> []" "dq_segments q = map (\<lambda>k. \<lparr>seg_seq = k, seg_len = length (on_disk (dq_files q) k)\<rparr>) ks"
    and files: "distinct (map fst (dq_files q))" "\<And>k. k \<in> set ks \<Longrightarrow> map_of (dq_files q) k \<noteq> None"
      "\<And>k bs. map_of (dq_files q) k = Some bs \<Longrightarrow> sealed P bs \<and> (k < hd ks \<or> k \<in> set ks)"
    and cur: "dq_read_seq q = hd ks" "dq_read_offset q \<le> length (on_disk (dq_files q) (hd ks))"
      "sealed P (take (dq_read_offset q) (on_disk (dq_files q) (hd ks)))" "sealed P (drop (dq_read_offset q) (on_disk (dq_files q) (hd ks)))"
    and doc: "\<And>seg offset. dq_cursor q = Cursor_Doc 1 seg offset \<Longrightarrow>
      (seg, offset) = (hd ks, dq_read_offset q) \<or> map_of (dq_files q) seg = None \<and> seg < last ks"
    and rest: "dq_total_bytes q = seg_sum (dq_segments q)" "dq_read_ahead q = []" "dq_needs_repair q = None" "dq_jobs q = []"
  shows "spool_ok E P q" and "stream q = drop (dq_read_offset q) (concat (map (on_disk (dq_files q)) ks))"
proof -
  let ?seg = "\<lambda>k. \<lparr>seg_seq = k, seg_len = length (on_disk (dq_files q) k)\<rparr>"
  have b: "body (dq_files q) (?seg k) = on_disk (dq_files q) k" for k by (simp add: body_def)
  have hd: "hd (dq_segments q) = ?seg (hd ks)" "last (dq_segments q) = ?seg (last ks)" using ks(3,4) by (simp_all add: hd_map last_map)
  have fb: "first_body q = on_disk (dq_files q) (hd ks)" using hd b by (simp add: first_body_def)
  have sk: "sealed P (on_disk (dq_files q) k)" for k using files(3) by (auto simp: on_disk_def split: option.split)
  show "stream q = drop (dq_read_offset q) (concat (map (on_disk (dq_files q)) ks))"
    by (simp add: stream_def ks(4) comp_def b)
  have "sorted_wrt (<) ks" using ks(1,2) by (simp add: strict_sorted_iff)
  then have "segments_ok P (dq_files q) (dq_segments q) (dq_read_seq q) (dq_total_bytes q)"
    using ks(3,4) hd cur(1) rest(1) files(2) sk by (auto simp: segments_ok_def comp_def b)
  moreover have "files_ok P (dq_files q) (dq_segments q) (dq_read_seq q) (dq_needs_repair q) (dq_rotation_started q)"
  proof -
    have "file_known P (dq_segments q) (dq_read_seq q) None (dq_rotation_started q) k bs" if "map_of (dq_files q) k = Some bs" for k bs
      using files(3)[OF that] cur(1) ks(4) by (force simp: file_known_def)
    moreover have "\<forall>s \<in> set (butlast (dq_segments q)). length (on_disk (dq_files q) (seg_seq s)) = seg_len s"
      using ks(4) in_set_butlastD[of _ "dq_segments q"] by fastforce
    ultimately show ?thesis using files(1) hd(2) rest(3) unfolding files_ok_def by simp
  qed
  moreover have "saved_ok P (dq_files q) (last_seq q) (first_body q) (dq_read_seq q) (dq_read_offset q) (dq_cursor q) (dq_jobs q)"
  proof -
    have "fits P (dq_files q) (last_seq q) (first_body q) (dq_read_seq q) (dq_read_offset q) at" if "at \<in> saved (dq_cursor q) []" for at
      using that doc cur hd(2) fb by (fastforce simp: saved_def fits_def split: cursor_file.splits if_splits)
    then show ?thesis using rest(4) by (simp add: saved_ok_def)
  qed
  ultimately show "spool_ok E P q"
    using cur(2-4) hd(1) fb rest(2) by (simp add: spool_ok_def cursor_ok_def ahead_ok_def)
qed

section \<open>Opening after a stop\<close>

lemma disk_only_fields:
  assumes "disk_only q q'"
  shows "dq_config q' = dq_config q" "dq_read_ahead q' = dq_read_ahead q" "dq_needs_repair q' = dq_needs_repair q"
    "dq_jobs q' = dq_jobs q" "dq_closed q' = dq_closed q"
  using core_fields[OF assms[unfolded disk_only_def]] by simp_all

lemma report_opened_core: "core (report_opened torn_at lost corrupt replayed q) = core q"
  by (simp add: report_opened_def Let_def)

lemma ascending_dropWhile:
  "sorted ks \<Longrightarrow> takeWhile (\<lambda>k. k < a) ks = filter (\<lambda>k. k < a) ks \<and> dropWhile (\<lambda>k. k < a) ks = filter (\<lambda>k. a \<le> k) ks" for a :: nat
proof (induction ks)
  case (Cons k ks)
  show ?case
  proof (cases "k < a")
    case False
    then have "filter (\<lambda>k. k < a) ks = []" "filter (\<lambda>k. a \<le> k) ks = ks"
      using Cons.prems by (auto simp: filter_empty_conv filter_id_conv)
    then show ?thesis using False by simp
  qed (use Cons in simp)
qed simp

lemma find_segments_Inr:
  assumes "find_segments E q = Inr (segs, at, torn_at, lost, q')" and "list_segments q \<noteq> []"
  shows "\<exists>q1 loaded q2. scan_segments E (last (list_segments q)) (list_segments q) q = Inr (segs, torn_at, q1) \<and>
    load_cursor q1 = (loaded, q2) \<and> clamp_cursor segs loaded q2 = (at, q')"
proof -
  obtain segs0 torn0 q1 where s: "scan_segments E (last (list_segments q)) (list_segments q) q = Inr (segs0, torn0, q1)"
    using assms by (auto simp: find_segments_def bnd_eq_Inr Let_def)
  obtain loaded q2 where l: "load_cursor q1 = (loaded, q2)" by (cases "load_cursor q1")
  obtain at0 q3 where c: "clamp_cursor segs0 loaded q2 = (at0, q3)" by (cases "clamp_cursor segs0 loaded q2")
  show ?thesis using assms s l c by (auto simp: find_segments_def Let_def)
qed

text \<open>The last steps of an open: the replay is counted, the cursor is persisted and the segments behind it unlinked.\<close>

definition opened ::
    "('d, 'h) spool_env \<Rightarrow> (nat \<times> nat) \<Rightarrow> segment list \<Rightarrow> nat \<Rightarrow> ('d, 'h) disk_queue \<Rightarrow> ('d, 'h) disk_queue" where
  "opened E at segs replayed q =
     after_change (q\<lparr>dq_segments := segs, dq_read_seq := fst at, dq_read_offset := snd at,
       dq_total_bytes := seg_sum segs, dq_queued_records := replayed, dq_last_checkpoint := sv_now E (dq_clock q),
       dq_worker := True, dq_id := sv_identity E (dq_clock q), dq_next := 1\<rparr>)"

lemma disk_open_Inr:
  assumes "disk_open E config q = Inr q'"
  shows "\<exists>q1 segs at torn_at lost q2 replayed corrupt q3.
    core q1 = core (before_open config q) \<and> find_segments E q1 = Inr (segs, at, torn_at, lost, q2) \<and>
    count_replayed E (snd at) (dropWhile (\<lambda>s. seg_seq s < fst at) segs) q2 = Inr (replayed, corrupt, q3) \<and>
    q' = opened E at (dropWhile (\<lambda>s. seg_seq s < fst at) segs) replayed
      (dq_tick (fold (unlink_segment E) (map seg_seq (takeWhile (\<lambda>s. seg_seq s < fst at) segs))
        (persist_cursor E at (report_opened torn_at lost corrupt replayed q3))))"
proof -
  let ?q1 = "dq_tick (dq_tick (dq_tick (dq_tick (before_open config q))))"
  have c: "core ?q1 = core (before_open config q)" by simp
  from assms show ?thesis
    unfolding disk_open_def bnd_eq_Inr open_step_Inr Let_def
    by (clarsimp simp: bnd_eq_Inr open_step_Inr opened_def simp del: fold_simps) (use c in blast)
qed

text \<open>What an open has found once the active segment is cut back and the cursor clamped; \<open>x\<close> is what landed of the last push.\<close>

definition found :: "(bytes \<Rightarrow> bool) \<Rightarrow> ('d, 'h) disk_queue \<Rightarrow> (nat \<times> bytes) list \<Rightarrow> nat \<times> nat \<Rightarrow> bytes \<Rightarrow> bool" where
  "found P q files at x \<longleftrightarrow>
     distinct (map fst files) \<and> (\<forall>k. map_of files k \<noteq> None \<longleftrightarrow> k \<in> set (list_segments q)) \<and>
     (\<forall>k bs. map_of files k = Some bs \<longrightarrow> sealed P bs) \<and> resumes P q files at \<and> resume_at q = at \<and>
     (\<forall>k < dq_read_seq q. on_disk files k = on_disk (dq_files q) k) \<and> whole_tail P (unconfirmed q) = x \<and>
     (\<forall>seg offset. dq_cursor q = Cursor_Doc 1 seg offset \<longrightarrow>
        (seg, offset) = at \<or> seg \<notin> set (list_segments q) \<and> seg < active_seq q) \<and>
     concat (map (on_disk files) (filter (\<lambda>k. dq_read_seq q \<le> k) (list_segments q))) =
       concat (map (body (dq_files q)) (dq_segments q)) @ x \<and>
     (x = [] \<or> P x \<and> dq_needs_repair q \<noteq> None)"

abbreviation whole_segments :: "(nat \<times> bytes) list \<Rightarrow> nat list \<Rightarrow> segment list" where
  "whole_segments files \<equiv> map (\<lambda>k. \<lparr>seg_seq = k, seg_len = length (on_disk files k)\<rparr>)"

text \<open>The segments from the cursor on.\<close>

lemma from_cursor:
  assumes "sorted ls" and "a \<in> set ls"
  shows "sorted (filter (\<lambda>k. a \<le> k) ls)" and "filter (\<lambda>k. a \<le> k) ls \<noteq> []" and "hd (filter (\<lambda>k. a \<le> k) ls) = (a :: nat)"
    and "dropWhile (\<lambda>s. seg_seq s < a) (whole_segments files ls) = whole_segments files (filter (\<lambda>k. a \<le> k) ls)"
    and "map seg_seq (takeWhile (\<lambda>s. seg_seq s < a) (whole_segments files ls)) = filter (\<lambda>k. k < a) ls"
proof -
  let ?ks = "filter (\<lambda>k. a \<le> k) ls"
  show s: "sorted ?ks" using assms(1) by (simp add: sorted_wrt_filter)
  have kin: "a \<in> set ?ks" using assms(2) by simp
  then show "?ks \<noteq> []" by fastforce
  have "\<forall>k \<in> set ?ks. a \<le> k" by simp
  then show "hd ?ks = a"
    using s kin by (metis list.sel(1) list.set_cases list.set_intros(1) order_antisym set_ConsD sorted_simps(2))
  show "dropWhile (\<lambda>s. seg_seq s < a) (whole_segments files ls) = whole_segments files ?ks"
    "map seg_seq (takeWhile (\<lambda>s. seg_seq s < a) (whole_segments files ls)) = filter (\<lambda>k. k < a) ls"
    unfolding dropWhile_map takeWhile_map comp_def using ascending_dropWhile[OF assms(1), of a] by (simp_all add: comp_def)
qed

context record_kind
begin

lemma find_segments_found:
  assumes ok: "spool_ok E P q" and q1: "dq_files q1 = dq_files q" "dq_cursor q1 = dq_cursor q"
    and find: "find_segments E q1 = Inr (segs, at, torn_at, lost, q2)"
  shows "\<exists>x. found P q (dq_files q2) at x \<and> segs = whole_segments (dq_files q2) (list_segments q) \<and> disk_only q1 q2 \<and> dq_cursor q2 = dq_cursor q"
proof -
  let ?ls = "list_segments q"
  note ls = list_segments_props[OF files_distinct[OF ok]]
  note lne = active_left(1)[OF ok]
  have ls1: "list_segments q1 = ?ls" using q1 by (simp add: list_segments_def)
  from active_left(2)[OF ok] obtain good n u where
      lf: "map_of (dq_files q) (last ?ls) = Some (good @ take n u)" and good: "sealed P good"
    and u: "P u \<and> dq_needs_repair q \<noteq> None \<or> take n u = []"
    and l: "last ?ls = active_seq q \<and> good = body (dq_files q) (active_segment q) \<or>
     last ?ls = active_seq q + 1 \<and> good = [] \<and> take n u = [] \<and>
       on_disk (dq_files q) (active_seq q) = body (dq_files q) (active_segment q)"
    by blast
  have lsplit: "?ls = butlast ?ls @ [last ?ls]" "last ?ls \<notin> set (butlast ?ls)"
    using lne ls(2) by (simp, metis append_butlast_last_id distinct_butlast not_distinct_conv_prefix)
  obtain q1' loaded q1'' where scan: "scan_segments E (last ?ls) ?ls q1 = Inr (segs, torn_at, q1')"
    and load: "load_cursor q1' = (loaded, q1'')" and clamp: "clamp_cursor segs loaded q1'' = (at, q2)"
    using find_segments_Inr[OF find, unfolded ls1, OF lne] by blast
  have "\<exists>x. (x = [] \<or> P u \<and> x = u \<and> take n u = u) \<and> x = whole_tail P (take n u) \<and> disk_only q1 q1' \<and> dq_cursor q1' = dq_cursor q1 \<and>
    distinct (map fst (dq_files q1')) \<and> map_of (dq_files q1') = (map_of (dq_files q1))(last ?ls \<mapsto> good @ x) \<and>
    segs = whole_segments (dq_files q1') (butlast ?ls @ [last ?ls])"
  proof (rule scan_effect)
    show "scan_segments E (last ?ls) (butlast ?ls @ [last ?ls]) q1 = Inr (segs, torn_at, q1')" using scan lsplit(1) by simp
  qed (use lsplit(2) good u lf q1 files_distinct[OF ok] in auto)
  then obtain x where x: "x = [] \<or> P u \<and> x = u \<and> take n u = u" and wx: "x = whole_tail P (take n u)" and d1: "disk_only q1 q1'" and cur1: "dq_cursor q1' = dq_cursor q"
    and dist1: "distinct (map fst (dq_files q1'))" and f1: "map_of (dq_files q1') = (map_of (dq_files q))(last ?ls \<mapsto> good @ x)"
    and segs: "segs = whole_segments (dq_files q1') ?ls"
    unfolding q1 by (subst (asm) lsplit(1)[symmetric]) blast
  let ?F = "dq_files q1'"
  have sx: "sealed P x" using x sealed_one[of P u] by auto
  have l': "last ?ls = active_seq q \<and> good = body (dq_files q) (active_segment q) \<or>
     last ?ls = active_seq q + 1 \<and> good = [] \<and> x = [] \<and>
       on_disk (dq_files q) (active_seq q) = body (dq_files q) (active_segment q)"
    using l x by auto
  note rc = recovered_contents[OF ok f1 good sx l']
  have below: "map_of ?F k = map_of (dq_files q) k" if "k < active_seq q" for k using f1 l that by auto
  obtain y where y: "on_disk ?F (dq_read_seq q) = first_body q @ y" "sealed P y" using rc(3) by blast
  have cl: "core q2 = core q1' \<and> resumes P q ?F at \<and> resume_at q = at \<and>
    (\<forall>seg offset. dq_cursor q = Cursor_Doc 1 seg offset \<longrightarrow>
       (seg, offset) = at \<or> map_of (dq_files q) seg = None \<and> seg < active_seq q)"
    by (rule clamp_resumes[OF ok cur1 load clamp[unfolded segs]]) (use rc(1) below y in auto)
  then have c2: "core q2 = core q1'" by simp
  have "\<forall>k. map_of ?F k \<noteq> None \<longleftrightarrow> k \<in> set ?ls" using f1 ls(3) lf by auto
  moreover have "x = [] \<or> P x \<and> dq_needs_repair q \<noteq> None" using x u by auto
  moreover have "on_disk ?F k = on_disk (dq_files q) k" if "k < dq_read_seq q" for k
    using below[of k] that read_up_to_active[OF ok] by (simp add: on_disk_def)
  moreover have "on_disk (dq_files q) (active_seq q) = body (dq_files q) (active_segment q) @ take n u"
    using l lf by (elim disjE conjE) (simp_all add: on_disk_def)
  then have "unconfirmed q = take n u"
    using tracked_file(2)[OF ok active_in[OF ok]] unfolding unconfirmed_def by (metis append_eq_conv_conj body_def length_take min.absorb2)
  ultimately have "found P q ?F at x" using cl dist1 rc(1,2) ls(3) wx[symmetric] by (simp add: found_def)
  then show ?thesis
    using segs cur1 core_fields[OF c2] disk_only_trans[OF d1 disk_only_core[OF c2]] by auto
qed

lemma found_replayed:
  assumes ok: "spool_ok E P q" and f: "found P q (dq_files q2) at x"
    and count: "count_replayed E (snd at) (whole_segments (dq_files q2) (filter (\<lambda>k. fst at \<le> k) (list_segments q))) q2 = Inr (replayed, corrupt, q3)"
  shows "core q3 = core q2 \<and>
    replayed = length (chop E (drop (snd at) (concat (map (on_disk (dq_files q2)) (filter (\<lambda>k. fst at \<le> k) (list_segments q))))))"
proof -
  let ?F = "dq_files q2" and ?ks = "filter (\<lambda>k. fst at \<le> k) (list_segments q)"
  note ls = list_segments_props[OF files_distinct[OF ok]]
  have at: "resumes P q ?F at" using f unfolding found_def by blast
  note fc = from_cursor[OF ls(1), of "fst at"]
  have kin: "fst at \<in> set (list_segments q)" using at by (simp add: resumes_def)
  have sk: "sealed P (on_disk ?F k)" for k using f by (auto simp: found_def on_disk_def split: option.split)
  have "core q3 = core q2 \<and> replayed = length (chop E (drop (snd at) (concat (map (\<lambda>s. contents (seg_seq s) q2) (whole_segments ?F ?ks))))) \<and> corrupt = 0"
  proof (rule count_replayed_effect[OF count])
    show "\<forall>s \<in> set (whole_segments ?F ?ks). sealed P (contents (seg_seq s) q2) \<and> seg_len s = length (contents (seg_seq s) q2)"
      by (simp add: contents_eq sk)
    show "snd at \<le> seg_len (hd (whole_segments ?F ?ks)) \<and> sealed P (drop (snd at) (contents (seg_seq (hd (whole_segments ?F ?ks))) q2))"
      if "whole_segments ?F ?ks \<noteq> []" using that at fc(3)[OF kin] by (simp add: hd_map contents_eq resumes_def)
    show "snd at = 0" if "whole_segments ?F ?ks = []" using that fc(2)[OF kin] by simp
  qed
  then show ?thesis by (simp add: contents_eq comp_def)
qed

text \<open>The queue an open ends with: the files found, less those unlinked behind the cursor.\<close>

lemma found_opened:
  assumes ok: "spool_ok E P q" and f: "found P q files at x" and ks: "ks = filter (\<lambda>k. fst at \<le> k) (list_segments q)"
    and q': "dq_segments q' = whole_segments files ks" "dq_read_seq q' = fst at" "dq_read_offset q' = snd at"
      "dq_total_bytes q' = seg_sum (dq_segments q')" "dq_read_ahead q' = []" "dq_needs_repair q' = None" "dq_jobs q' = []"
      "distinct (map fst (dq_files q'))"
    and left: "\<And>k. map_of (dq_files q') k = map_of files k \<or> k < fst at \<and> map_of (dq_files q') k = None"
    and cur: "dq_cursor q' = Cursor_Doc 1 (fst at) (snd at) \<or> dq_cursor q' = dq_cursor q"
  shows "spool_ok E P q'" and "stream q' = drop (snd at) (concat (map (on_disk files) ks))"
proof -
  note ls = list_segments_props[OF files_distinct[OF ok]]
  have at: "resumes P q files at" using f unfolding found_def by blast
  have kin: "fst at \<in> set (list_segments q)" using at by (simp add: resumes_def)
  note fc = from_cursor[OF ls(1) kin]
  have same: "map_of (dq_files q') k = map_of files k" if "fst at \<le> k" for k using left[of k] that by auto
  have fewer: "map_of (dq_files q') k = map_of files k \<or> map_of (dq_files q') k = None" for k using left[of k] by auto
  have dom: "map_of files k \<noteq> None \<longleftrightarrow> k \<in> set (list_segments q)" for k using f unfolding found_def by blast
  have od: "on_disk (dq_files q') k = on_disk files k" if "k \<in> set ks" for k using same[of k] that ks by (simp add: on_disk_def)
  have mo: "map (on_disk (dq_files q')) ks = map (on_disk files) ks" using od by (intro map_cong) simp_all
  have kp: "sorted ks" "distinct ks" "ks \<noteq> []" "hd ks = fst at" using fc ls(2) ks by simp_all
  have sg: "dq_segments q' = whole_segments (dq_files q') ks" unfolding q'(1) using od by (intro map_cong) simp_all
  have fi: "map_of (dq_files q') k \<noteq> None" if "k \<in> set ks" for k using that same[of k] dom[of k] ks by simp
  have fk: "sealed P bs \<and> (k < hd ks \<or> k \<in> set ks)" if "map_of (dq_files q') k = Some bs" for k bs
  proof -
    have m: "map_of files k = Some bs" using that fewer[of k] by simp
    then have "sealed P bs" using f unfolding found_def by blast
    then show ?thesis using m dom[of k] kp(4) ks by (auto simp: not_less)
  qed
  have oh: "on_disk (dq_files q') (hd ks) = on_disk files (fst at)" using od[of "fst at"] kp(4) kin ks by simp
  have hr: "dq_read_seq q' = hd ks" "dq_read_offset q' \<le> length (on_disk (dq_files q') (hd ks))"
      "sealed P (take (dq_read_offset q') (on_disk (dq_files q') (hd ks)))" "sealed P (drop (dq_read_offset q') (on_disk (dq_files q') (hd ks)))"
    using at kp(4) q'(2,3) unfolding oh by (simp_all add: resumes_def)
  have cd: "(seg, offset) = (hd ks, dq_read_offset q') \<or> map_of (dq_files q') seg = None \<and> seg < last ks"
    if c: "dq_cursor q' = Cursor_Doc 1 seg offset" for seg offset
  proof (cases "(seg, offset) = at")
    case True
    then show ?thesis using kp(4) q'(3) by auto
  next
    case False
    then have "dq_cursor q = Cursor_Doc 1 seg offset" using c cur by auto
    then have s: "seg \<notin> set (list_segments q)" "seg < active_seq q" using f False by (auto simp: found_def)
    have "active_seq q \<in> set ks"
      using ls(3) tracked_file(1)[OF ok active_in[OF ok]] at read_up_to_active[OF ok] ks by (simp add: file_bytes_def resumes_def)
    then show ?thesis using sorted_last[OF kp(1)] s dom[of seg] fewer[of seg] by fastforce
  qed
  note fresh = fresh_ok[OF kp(1-3) sg q'(8) fi fk hr cd q'(4-7)]
  show "spool_ok E P q'" using fresh(1) by blast
  show "stream q' = drop (snd at) (concat (map (on_disk files) ks))" using fresh(2) mo q'(3) by simp
qed

lemma disk_open_ok:
  assumes ok: "spool_ok E P q" and res: "disk_open E config q = Inr q'"
  shows "spool_ok E P q' \<and> counted E q' \<and> dq_config q' = config \<and> \<not> dq_closed q' \<and> dq_read_ahead q' = [] \<and>
    sealed P (taken_from (resume_at q) q) \<and>
    waiting E q' = chop E (taken_from (resume_at q) q) @ waiting E q @ chop E (whole_tail P (unconfirmed q)) \<and>
    (\<exists>dup extra. waiting E q' = dup @ waiting E q @ extra \<and> list_all P dup \<and> list_all P extra \<and>
       length extra \<le> 1 \<and> (dq_needs_repair q = None \<longrightarrow> extra = []))"
proof -
  from disk_open_Inr[OF res] obtain q1 segs at torn_at lost q2 replayed corrupt q3 where
      c1: "core q1 = core (before_open config q)" and find: "find_segments E q1 = Inr (segs, at, torn_at, lost, q2)"
    and count: "count_replayed E (snd at) (dropWhile (\<lambda>s. seg_seq s < fst at) segs) q2 = Inr (replayed, corrupt, q3)"
    and q': "q' = opened E at (dropWhile (\<lambda>s. seg_seq s < fst at) segs) replayed
      (dq_tick (fold (unlink_segment E) (map seg_seq (takeWhile (\<lambda>s. seg_seq s < fst at) segs))
        (persist_cursor E at (report_opened torn_at lost corrupt replayed q3))))"
    by blast
  have q1: "dq_files q1 = dq_files q" "dq_cursor q1 = dq_cursor q" using core_fields[OF c1] by (simp_all add: before_open_def)
  from find_segments_found[OF ok q1 find] obtain x where f: "found P q (dq_files q2) at x"
    and segs: "segs = whole_segments (dq_files q2) (list_segments q)" and d2: "disk_only q1 q2" "dq_cursor q2 = dq_cursor q" by blast
  let ?ks = "filter (\<lambda>k. fst at \<le> k) (list_segments q)" and ?F = "dq_files q2"
  have at: "resumes P q ?F at" using f unfolding found_def by blast
  then have kin: "fst at \<in> set (list_segments q)" by (simp add: resumes_def)
  note fc = from_cursor[OF list_segments_props(1)[OF files_distinct[OF ok]] kin]
  have rp: "core q3 = core q2 \<and> replayed = length (chop E (drop (snd at) (concat (map (on_disk ?F) ?ks))))"
    using found_replayed[OF ok f] count unfolding segs fc(4) by blast
  let ?q4 = "report_opened torn_at lost corrupt replayed q3"
  let ?q5 = "persist_cursor E at ?q4"
  let ?q6 = "fold (unlink_segment E) (filter (\<lambda>k. k < fst at) (list_segments q)) ?q5"
  have c4: "core ?q4 = core q2" using rp report_opened_core[of torn_at lost corrupt replayed q3] by simp
  note p5 = persist_cursor_effect[of ?q4 E at]
  have f5: "dq_files ?q5 = ?F" using p5 core_fields(11)[OF c4] by simp
  have dist: "distinct (map fst ?F)" using f by (simp add: found_def)
  note e6 = unlink_effect[of ?q5 E "filter (\<lambda>k. k < fst at) (list_segments q)", unfolded f5, OF dist]
  have d6: "disk_only (before_open config q) (dq_tick ?q6)"
    using disk_only_trans[OF disk_only_trans[OF disk_only_core[OF c1] d2(1)] disk_only_core[OF c4]]
      p5 e6 disk_only_trans disk_only_core[of "dq_tick ?q6" ?q6] by (metis core_updates(1))
  have q'': "q' = opened E at (whole_segments ?F ?ks) replayed (dq_tick ?q6)" unfolding q' segs fc(4,5) ..
  have ct: "core (dq_tick ?q6) = core ?q6" by simp
  have fields: "dq_segments q' = whole_segments ?F ?ks" "dq_read_seq q' = fst at" "dq_read_offset q' = snd at"
      "dq_total_bytes q' = seg_sum (dq_segments q')" "dq_queued_records q' = replayed" "dq_files q' = dq_files ?q6" "dq_cursor q' = dq_cursor ?q6"
      "dq_read_ahead q' = []" "dq_needs_repair q' = None" "dq_jobs q' = []" "dq_config q' = config" "dq_closed q' = False"
    unfolding q'' opened_def
    using disk_only_fields[OF d6] core_fields[OF ct] by (simp_all add: after_change_def dq_emit_def before_open_def)
  have left: "map_of (dq_files q') k = map_of ?F k \<or> k < fst at \<and> map_of (dq_files q') k = None" for k
    unfolding fields(6) using spec[OF conjunct2[OF conjunct2[OF conjunct2[OF e6]]], of k] by (elim disjE conjE) simp_all
  have cur: "dq_cursor q' = Cursor_Doc 1 (fst at) (snd at) \<or> dq_cursor q' = dq_cursor q"
    unfolding fields(7) using p5 e6 core_fields(12)[OF c4] d2(2) by simp
  have fd: "distinct (map fst (dq_files q'))" unfolding fields(6) using e6 by simp
  note done_ok = found_opened[OF ok f refl fields(1-4,8-10) fd left cur]
  let ?dup = "taken_from (resume_at q) q"
  have dup: "sealed P ?dup" "drop (snd at) (concat (map (on_disk ?F) ?ks)) = ?dup @ stream q @ x"
    using resumed_stream[OF ok at] f unfolding found_def by simp_all
  have x: "x = [] \<or> P x \<and> dq_needs_repair q \<noteq> None" using f by (simp add: found_def)
  then have sx: "sealed P x" using sealed_one[of P x] by auto
  have w: "waiting E q' = chop E ?dup @ waiting E q @ chop E x"
    unfolding waiting_def done_ok(2) dup(2) using chop_append[OF dup(1)] chop_append[OF sealed_stream[OF ok]] by simp
  have "\<exists>dup extra. waiting E q' = dup @ waiting E q @ extra \<and> list_all P dup \<and> list_all P extra \<and>
       length extra \<le> 1 \<and> (dq_needs_repair q = None \<longrightarrow> extra = [])"
    using w chop_sealed[OF dup(1)] chop_sealed[OF sx] x chop_one[of x]
    by (intro exI[of _ "chop E ?dup"] exI[of _ "chop E x"] conjI) auto
  moreover have "whole_tail P (unconfirmed q) = x" using f by (simp add: found_def)
  moreover have "counted E q'" using rp done_ok(2) fields(5) by (simp add: counted_def waiting_def)
  ultimately show ?thesis using done_ok(1) fields(8,11,12) w dup(1) by (intro conjI) simp_all
qed

end

end
