(* ===== verification/Spool_Progress.thy ===== *)
theory Spool_Progress
  imports Spool_Recovery
begin

text \<open>
  On a disk whose operations succeed, the spool makes progress: it opens, and a push that finds room is
  written, also when room has to be made by starting a new segment behind one that is read to its end.
  What is turned away is turned away by a full spool, for the reason its policy gives.
\<close>

definition disk_works :: "('d, 'h) spool_env \<Rightarrow> bool" where
  "disk_works E \<longleftrightarrow> (\<forall>c. sv_io E c = Io_Ok)"

section \<open>Opening\<close>

lemma open_step_works: "disk_works E \<Longrightarrow> open_step E what q = Inr (dq_tick q)"
  by (simp add: disk_works_def open_step_def)

lemma recover_active_works: "disk_works E \<Longrightarrow> \<exists>x. recover_active E seq q = Inr x"
  by (simp add: recover_active_def open_step_works Let_def)

lemma scan_segments_works: "disk_works E \<Longrightarrow> \<exists>x. scan_segments E active seqs q = Inr x"
proof (induction seqs arbitrary: q)
  case (Cons seq seqs)
  obtain s torn_at q1 where "(if seq = active then recover_active E seq (dq_tick q)
      else Inr (\<lparr>seg_seq = seq, seg_len = length (contents seq (dq_tick q))\<rparr>, None, dq_tick q)) = Inr (s, torn_at, q1)"
    using recover_active_works[OF Cons.prems, of seq "dq_tick q"] by (cases "seq = active") auto
  moreover obtain y where "scan_segments E active seqs q1 = Inr y" using Cons by blast
  ultimately show ?case using Cons.prems by (cases y) (simp add: open_step_works)
qed simp

lemma count_replayed_works: "disk_works E \<Longrightarrow> \<exists>x. count_replayed E start segs q = Inr x"
proof (induction segs arbitrary: start q)
  case (Cons s segs)
  then obtain x where "count_replayed E 0 segs (dq_tick q) = Inr x" by blast
  then show ?case using Cons.prems by (cases x) (simp add: open_step_works Let_def)
qed simp

lemma find_segments_works:
  assumes w: "disk_works E" shows "\<exists>x. find_segments E q = Inr x"
proof (cases "list_segments q = []")
  case False
  obtain segs torn_at q1 where "scan_segments E (last (list_segments q)) (list_segments q) q = Inr (segs, torn_at, q1)"
    using scan_segments_works[OF w] by (metis prod_cases3)
  then show ?thesis using False by (simp add: find_segments_def Let_def split: prod.split)
qed (use open_step_works[OF w] in \<open>auto simp: find_segments_def\<close>)

lemma disk_open_works:
  assumes w: "disk_works E" shows "\<exists>q'. disk_open E config q = Inr q'"
proof -
  let ?q = "dq_tick (dq_tick (dq_tick (dq_tick (before_open config q))))"
  obtain segs at torn_at lost q1 where f: "find_segments E ?q = Inr (segs, at, torn_at, lost, q1)"
    using find_segments_works[OF w] by (metis prod_cases5)
  obtain replayed corrupt q2 where "count_replayed E (snd at) (dropWhile (\<lambda>s. seg_seq s < fst at) segs) q1 = Inr (replayed, corrupt, q2)"
    using count_replayed_works[OF w] by (metis prod_cases3)
  with f show ?thesis by (simp add: disk_open_def open_step_works[OF w] Let_def)
qed

section \<open>Writing\<close>

definition all_ran :: "unit attempt \<times> ('d, 'h) disk_queue \<Rightarrow> bool" where
  "all_ran res \<longleftrightarrow> fst res = Ran ()"

lemma all_ran_then: "all_ran m \<Longrightarrow> (\<And>q. all_ran (k () q)) \<Longrightarrow> all_ran (and_then m k)"
  by (cases m) (auto simp: all_ran_def and_then_def split: prod.splits)

lemma try_step_works: "disk_works E \<Longrightarrow> all_ran (try_step E op q)"
  by (simp add: all_ran_def try_step_def disk_works_def)

lemma truncate_tail_works: "disk_works E \<Longrightarrow> all_ran (truncate_tail E seq before q)"
  by (simp add: all_ran_def truncate_tail_def disk_works_def Let_def)

lemma repair_if_needed_works: "disk_works E \<Longrightarrow> all_ran (repair_if_needed E q)"
  unfolding repair_if_needed_def repair_torn_tail_def
  by (auto simp: all_ran_def disk_works_def truncate_tail_works[unfolded all_ran_def disk_works_def] split: option.split
      intro!: all_ran_then[unfolded all_ran_def] try_step_works[unfolded all_ran_def disk_works_def])

lemma rotate_segment_works: "disk_works E \<Longrightarrow> all_ran (rotate_segment E q)"
proof -
  assume w: "disk_works E"
  then have io: "sv_io E c = Io_Ok" for c by (simp add: disk_works_def)
  have finished: "all_ran (Ran (), x)" for x :: "('a, 'b) disk_queue" by (simp add: all_ran_def)
  show ?thesis
    unfolding rotate_segment_def Let_def io io_step.case
    by (auto intro!: all_ran_then try_step_works[OF w] finished)
qed

lemma open_append_works: "disk_works E \<Longrightarrow> all_ran (open_append E seq q)"
  by (simp add: all_ran_def open_append_def disk_works_def)

lemma append_record_works: "disk_works E \<Longrightarrow> all_ran (append_record E r q)"
  by (simp add: all_ran_def append_record_def disk_works_def Let_def)

lemma write_record_works:
  assumes w: "disk_works E" shows "all_ran (write_record E r q)"
  unfolding write_record_def
  using repair_if_needed_works[OF w] rotate_segment_works[OF w] open_append_works[OF w] append_record_works[OF w]
  by (intro all_ran_then) (auto simp: all_ran_def)

lemma rolled_total:
  assumes ok: "spool_ok E P q" and r: "rolled E P q q'" shows "dq_total_bytes q' \<le> dq_total_bytes q"
proof -
  obtain gone where "dq_segments q = gone @ dq_segments q'" using r by (auto simp: rolled_def)
  moreover have "dq_total_bytes q = seg_sum (dq_segments q)" "dq_total_bytes q' = seg_sum (dq_segments q')"
    using ok rolledD(1)[OF r] by (simp_all add: spool_ok_def segments_ok_def)
  ultimately show ?thesis by simp
qed

text \<open>A push that fits is accepted in its first turn.\<close>

lemma push_loop_works:
  assumes w: "disk_works E" and ok: "spool_ok E P q" and room: "dq_total_bytes q + length r \<le> cf_max_bytes (dq_config q)"
  shows "fst (push_loop (Suc n) E r events made_room q) = Pushed"
proof -
  let ?q = "snd (roll_read_cursor E q)"
  note roll = roll_read_cursor_rolled(1)[OF ok]
  have "dq_total_bytes ?q + length r \<le> cf_max_bytes (dq_config ?q)"
    using rolled_total[OF ok roll] rolledD(4)[OF roll] room by simp
  then have "push_action (length r) made_room ?q = Act_Write" by (simp add: push_action_def Let_def)
  moreover have "fst (push_write E r events ?q) = Pushed"
    using write_record_works[OF w, of r ?q] by (auto simp: push_write_def all_ran_def split: prod.splits attempt.splits)
  ultimately show ?thesis by (simp add: Let_def)
qed

section \<open>Pushes that are turned away\<close>

text \<open>
  Why a record is not taken on a disk that works: it could fit, but the open spool is full; under
  \<open>Block\<close> it waits for records that are queued, under \<open>Drop_Newest\<close> it is dropped, and under
  \<open>Drop_Oldest\<close> only if the oldest records are handed out.
\<close>

definition turned_away ::
    "('d, 'h) spool_env \<Rightarrow> bytes \<Rightarrow> bool \<Rightarrow> push_end \<Rightarrow> ('d, 'h) disk_queue \<Rightarrow> bool" where
  "turned_away E r made_room e q \<longleftrightarrow>
     length r \<le> cf_max_bytes (dq_config q) \<and> cf_max_bytes (dq_config q) < dq_total_bytes q + length r \<and> \<not> dq_closed q \<and>
     (case cf_overflow (dq_config q) of
        Block \<Rightarrow> (\<exists>b. e = Push_Parked b) \<and> waiting E q \<noteq> []
      | Drop_Newest \<Rightarrow> e = Push_Dropped \<and> (waiting E q \<noteq> [] \<or> made_room)
      | Drop_Oldest \<Rightarrow> e = Push_Dropped \<and> dq_read_ahead q \<noteq> [])"

lemma turned_away_core: "core q' = core q \<Longrightarrow> turned_away E r m e q' = turned_away E r m e q"
  by (simp add: turned_away_def core_fields[of q' q] core_waiting[of q' q] split: overflow_policy.split)

context record_kind
begin

text \<open>With the read position rolled forward, the spool sees nothing queued when nothing waits.\<close>

lemma nothing_queued_rolled:
  assumes ok: "spool_ok E P q"
  shows "nothing_queued (snd (roll_read_cursor E q)) \<longleftrightarrow> waiting E q = []"
proof -
  let ?q = "snd (roll_read_cursor E q)"
  note roll = roll_read_cursor_rolled[OF ok]
  note d = rolledD[OF roll(1)]
  obtain s post where segs: "dq_segments ?q = s # post" using nonempty_segments[OF d(1)] by (cases "dq_segments ?q") auto
  have asc: "ascending (s # post)" and rs: "dq_read_seq ?q = seg_seq s"
    using d(1) segs by (auto simp: spool_ok_def segments_ok_def)
  have rd: "dq_read_offset ?q < seg_len s \<longleftrightarrow> stream q \<noteq> []" using roll(3) readable_offset[OF d(1)] segs by simp
  have wt: "waiting E q = [] \<longleftrightarrow> stream q = []" by (rule waiting_empty[OF ok])
  have ahead: "dq_read_ahead ?q = []" if "waiting E q = []"
    using ahead_item(1)[OF d(1), of 0] d(3) that by auto
  have post: "post = []" if "last (s # post) = t" "seg_seq t = seg_seq s" for t
    using that ascending_split(2)[of "[]" s post] asc by (cases post rule: rev_cases) auto
  show ?thesis
  proof
    assume nq: "nothing_queued ?q"
    then have "post = []" using segs rs by (intro post[OF refl]) (simp add: nothing_queued_def active_segment_def)
    then show "waiting E q = []" using nq rd wt segs by (simp add: nothing_queued_def active_segment_def)
  next
    assume e: "waiting E q = []"
    then have "post = []" using rd wt roll(4) segs by simp
    then show "nothing_queued ?q" using e rd wt segs rs ahead by (simp add: nothing_queued_def active_segment_def)
  qed
qed

lemma push_loop_parked:
  assumes "spool_ok E P q" and "push_loop n E r events made_room q = (Push_Parked b, q')"
  shows "turned_away E r made_room (Push_Parked b) q'"
  using assms
proof (induction n arbitrary: made_room q)
  case (Suc n)
  let ?q = "snd (roll_read_cursor E q)"
  note d = rolledD[OF roll_read_cursor_rolled(1)[OF Suc.prems(1)]]
  note nq = nothing_queued_rolled[OF Suc.prems(1)]
  have away: "turned_away E r m (Push_Parked b) q'" if "turned_away E r m' (Push_Parked b) q'" for m m'
    using that by (simp add: turned_away_def split: overflow_policy.splits)
  show ?case
  proof (cases "push_action (length r) made_room ?q")
    case Act_Block
    then show ?thesis using Suc.prems(2) nq d(3)
      by (auto simp: Let_def turned_away_def push_action_def split: if_splits overflow_policy.splits)
  next
    case Act_Make_Room
    then obtain q1 where c: "rotate_consumed_active_segment E ?q = (Ran (), q1)" "push_loop n E r events True q1 = (Push_Parked b, q')"
      using Suc.prems(2) by (auto simp: Let_def split: prod.splits attempt.splits)
    have "steady E P ?q q1" using rotate_consumed_steps[OF d(1)] c(1) by (simp add: steps_def)
    from Suc.IH[OF steadyD(1)[OF this] c(2)] show ?thesis by (rule away)
  next
    case Act_Evict
    obtain res q1 where c: "evict_oldest_record E ?q = (res, q1)" by (cases "evict_oldest_record E ?q")
    have rd: "readable ?q \<longleftrightarrow> stream ?q \<noteq> []" using roll_read_cursor_rolled(3)[OF Suc.prems(1)] d(2) by simp
    have "res" using Suc.prems(2) Act_Evict c by (cases res) (auto simp: Let_def push_write_def split: prod.splits attempt.splits)
    then show ?thesis using Suc.IH[of q1 made_room] evict_ok[OF d(1) c rd] Suc.prems(2) Act_Evict c by (simp add: Let_def)
  qed (use Suc.prems(2) in \<open>auto simp: Let_def push_write_def split: prod.splits attempt.splits\<close>)
qed simp

text \<open>A spool with nothing waiting makes room by starting a new segment: nothing is left in it.\<close>

lemma rotate_segment_adds:
  assumes w: "disk_works E" and r: "rotate_segment E q = (res, q')"
  shows "res = Ran () \<and> seg_len (last (dq_segments q')) = 0"
proof -
  have io: "sv_io E c = Io_Ok" for c using w by (simp add: disk_works_def)
  show ?thesis using r
    by (auto simp: rotate_segment_def and_then_def try_step_def io Let_def split: if_splits)
qed

lemma room_made:
  assumes w: "disk_works E" and ok: "spool_ok E P q" and e: "stream q = []"
    and c: "rotate_consumed_active_segment E q = (res, q')"
  shows "res = Ran () \<and> spool_ok E P q' \<and> dq_total_bytes q' = 0 \<and> dq_config q' = dq_config q"
proof -
  obtain q1 where q1: "repair_if_needed E q = (Ran (), q1)"
    using repair_if_needed_works[OF w, of q] by (cases "repair_if_needed E q") (simp add: all_ran_def)
  obtain q2 where q2: "rotate_segment E q1 = (Ran (), q2)" and z: "seg_len (last (dq_segments q2)) = 0"
    using rotate_segment_adds[OF w] by (cases "rotate_segment E q1") auto
  have q': "res = Ran ()" "q' = snd (roll_read_cursor E q2)"
    using c q1 q2 by (simp_all add: rotate_consumed_active_segment_def and_then_def)
  have s: "steady E P q q'" using rotate_consumed_steps[OF ok] c q'(1) by (simp add: steps_def)
  have s1: "steady E P q q1" "dq_needs_repair q1 = None" using repair_if_needed_steps[OF ok] q1 by (simp_all add: steps_def)
  have s2: "steady E P q1 q2" using rotate_segment_steps[OF steadyD(1)[OF s1(1)] s1(2)] q2 by (simp add: steps_def)
  note ok2 = steadyD(1)[OF s2]
  note d2 = rolledD[OF roll_read_cursor_rolled(1)[OF ok2]]
  have "stream q2 = []" using steadyD(2)[OF s1(1)] steadyD(2)[OF s2] e by simp
  then have "\<not> readable q'" using roll_read_cursor_rolled(3)[OF ok2] q'(2) by simp
  then have "tl (dq_segments q') = []"
    using roll_read_cursor_rolled(4)[OF ok2] readable_offset[OF steadyD(1)[OF s]] q'(2) by simp
  then have "dq_segments q' = [last (dq_segments q')]" using nonempty_segments[OF steadyD(1)[OF s]] by (cases "dq_segments q'") auto
  moreover have "seg_len (last (dq_segments q')) = 0" using d2(10) q'(2) z by simp
  moreover have "dq_total_bytes q' = seg_sum (dq_segments q')" using steadyD(1)[OF s] by (simp add: spool_ok_def segments_ok_def)
  ultimately have "dq_total_bytes q' = 0" by (metis list.simps(8,9) sum_list.Cons sum_list.Nil add.right_neutral)
  then show ?thesis using q'(1) steadyD[OF s] by simp
qed

lemma push_loop_turned_away:
  assumes w: "disk_works E" and "spool_ok E P q" and "push_loop n E r events made_room q = (e, q')"
    and "e \<noteq> Pushed" and "e \<noteq> Push_Unfinished"
  shows "turned_away E r made_room e q'"
  using assms(2-)
proof (induction n arbitrary: made_room q)
  case (Suc n)
  let ?q = "snd (roll_read_cursor E q)"
  note d = rolledD[OF roll_read_cursor_rolled(1)[OF Suc.prems(1)]]
  note nq = nothing_queued_rolled[OF Suc.prems(1)]
  have pw: "fst (push_write E r events q'') = Pushed" for q''
    using write_record_works[OF w, of r q''] by (auto simp: push_write_def all_ran_def split: prod.splits attempt.splits)
  show ?case
  proof (cases "push_action (length r) made_room ?q")
    case Act_Write
    then show ?thesis using Suc.prems(2,3) pw[of ?q] by (simp add: Let_def)
  next
    case Act_Block
    then have "e = Push_Parked made_room" using Suc.prems(2) by (simp add: Let_def)
    then show ?thesis using push_loop_parked[OF Suc.prems(1)] Suc.prems(2) by blast
  next
    case Act_Drop_Newest
    then have e: "e = Push_Dropped" "core q' = core ?q" using Suc.prems(2) by (auto simp: Let_def)
    have "turned_away E r made_room Push_Dropped ?q" using Act_Drop_Newest nq d(3)
      by (simp add: turned_away_def push_action_def Let_def split: if_splits overflow_policy.splits)
    then show ?thesis by (simp only: e(1) turned_away_core[OF e(2)])
  next
    case Act_Make_Room
    then have "nothing_queued ?q" and len: "length r \<le> cf_max_bytes (dq_config ?q)"
      by (simp_all add: push_action_def Let_def split: if_splits overflow_policy.splits)
    then have m: "stream ?q = []" using nq waiting_empty[OF d(1)] d(3) by simp
    obtain res q1 where c: "rotate_consumed_active_segment E ?q = (res, q1)" by (cases "rotate_consumed_active_segment E ?q")
    note rm = room_made[OF w d(1) m c]
    have l: "push_loop n E r events True q1 = (e, q')" using Suc.prems(2) Act_Make_Room c rm by (simp add: Let_def)
    moreover from l Suc.prems(4) obtain k where "n = Suc k" by (cases n) auto
    ultimately have "e = Pushed" using push_loop_works[OF w, of P q1 r k events True] rm len by simp
    then show ?thesis using Suc.prems(3) by simp
  next
    case Act_Evict
    obtain res q1 where c: "evict_oldest_record E ?q = (res, q1)" by (cases "evict_oldest_record E ?q")
    have rd: "readable ?q \<longleftrightarrow> stream ?q \<noteq> []" using roll_read_cursor_rolled(3)[OF Suc.prems(1)] d(2) by simp
    show ?thesis
    proof (cases res)
      case True
      then show ?thesis using Suc.IH[of q1 made_room] evict_ok[OF d(1) c rd] Suc.prems Act_Evict c by (simp add: Let_def)
    next
      case False
      then show ?thesis using Suc.prems(2,3) Act_Evict c pw[of q1] by (simp add: Let_def)
    qed
  qed
qed simp

end

end
