(* ===== verification/Spool_Run.thy ===== *)
theory Spool_Run
  imports Spool_Progress Listener
begin

text \<open>
  The spool over its whole life: pushes that park, are resumed or dropped, a consumer that looks
  ahead and commits, the persist worker, shutdowns, and stops after which the spool is opened
  again. What was accepted is delivered or still waiting.
\<close>

section \<open>Records of pushed batches\<close>

text \<open>What a batch says, with every name spelled out.\<close>

definition item_text ::
    "interner \<Rightarrow> ('d, 'h) store_item \<Rightarrow> (bytes, 'd, 'h) event_batch \<times> bytes provenance \<times> hop_trace \<times> seq_id" where
  "item_text t item =
     (case item of (batch, ctx, seq) \<Rightarrow> (batch_text t batch, provenance_text t (bc_provenance ctx), bc_trace ctx, seq))"

text \<open>What the spool relies on of its surroundings: the compressor, and string tables without duplicates.\<close>

definition env_ok :: "('d, 'h) spool_env \<Rightarrow> bool" where
  "env_ok E \<longleftrightarrow> frame_laws (re_frame (sv_record E)) \<and> (\<forall>c. interner_ok (sv_names E c)) \<and> (\<forall>c p. distinct (sv_table E c p))"

text \<open>No part of a record reads as a record of its own.\<close>

definition unmistakable :: "('d, 'h) spool_env \<Rightarrow> bytes \<Rightarrow> bool" where
  "unmistakable E r \<longleftrightarrow>
     (\<forall>c good n. n < length r \<longrightarrow> resync_after (sv_record E) (sv_table E c) (good @ take n r) (length good) = None)"

definition wrote ::
    "('d, 'h) spool_env \<Rightarrow> (bytes, 'd, 'h) event_batch \<times> bytes provenance \<times> hop_trace \<times> seq_id \<Rightarrow> bytes \<Rightarrow> bool" where
  "wrote E said r \<longleftrightarrow>
     (\<exists>c z item. storable (sv_record E) (sv_names E c) item \<and> said = item_text (sv_names E c) item \<and>
        record_bytes (sv_record E) (resolve_str (sv_names E c)) z item = Inr r)"

definition offered :: "('d, 'h) spool_env \<Rightarrow> bytes \<Rightarrow> bool" where
  "offered E r \<longleftrightarrow> env_ok E \<and> (\<exists>said. wrote E said r) \<and> unmistakable E r"

lemma carries_text: "carries names item item' \<longleftrightarrow> (\<exists>t'. distinct t' \<and> item_text t' item' = item_text names item)"
  by (auto simp: carries_def item_text_def split: prod.splits)

lemma wrote_reads:
  assumes ok: "env_ok E" and w: "wrote E said r" and rd: "reads E r item'"
  shows "\<exists>t'. distinct t' \<and> item_text t' item' = said"
proof -
  obtain c z item where i: "storable (sv_record E) (sv_names E c) item" "said = item_text (sv_names E c) item"
      "record_bytes (sv_record E) (resolve_str (sv_names E c)) z item = Inr r" using w by (auto simp: wrote_def)
  obtain c' p rest where p: "parse_record (sv_record E) (sv_table E c' p) (r @ rest) = Inr (item', length r)"
    using rd by (auto simp: reads_def)
  have "frame_laws (re_frame (sv_record E))" "interner_ok (sv_names E c)" "distinct (sv_table E c' p)" using ok by (simp_all add: env_ok_def)
  from parse_record_written[OF this i(1,3), of rest] p i(2) show ?thesis by (auto simp: carries_text)
qed

lemma offered_kept: "offered E r \<Longrightarrow> kept E r"
proof -
  assume o: "offered E r"
  then obtain c z item where i: "storable (sv_record E) (sv_names E c) item"
      "record_bytes (sv_record E) (resolve_str (sv_names E c)) z item = Inr r" by (auto simp: offered_def wrote_def)
  have e: "env_ok E" and u: "unmistakable E r" using o by (simp_all add: offered_def)
  have "whole (sv_record E) r" using e i by (intro record_whole) (simp_all add: env_ok_def)
  then show ?thesis using e u by (simp add: kept_def whole_def env_ok_def unmistakable_def)
qed

interpretation offered_records: record_kind E "offered E"
  by unfold_locales (rule offered_kept)

text \<open>A record without the frame magic behind its header is one: only a magic makes a candidate.\<close>

lemma resync_None_prefix:
  assumes "resync bs = None" shows "resync (take k bs) = None"
proof (rule ccontr)
  assume "resync (take k bs) \<noteq> None"
  then obtain j where j: "resync (take k bs) = Some j" by auto
  note r = resync_Some[OF j]
  have "take 4 (drop j bs) = MAGIC" using r by (auto simp: drop_take min_def split: if_splits)
  then show False using assms resync_from_spec[of 0 bs None] r(1) by (auto simp: resync_def)
qed

lemma unmistakable_magic:
  assumes "resync (drop (CONTEXT_LEN + 1) r) = None" shows "unmistakable E r"
proof -
  have "resync_after (sv_record E) (sv_table E c) (good @ take n r) (length good) = None" for c good n
  proof -
    have "drop (length good + CONTEXT_LEN + 1) (good @ take n r) = take (n - (CONTEXT_LEN + 1)) (drop (CONTEXT_LEN + 1) r)"
      by (simp add: drop_take)
    then show ?thesis
      using resync_None_prefix[OF assms] by (simp add: resync_after_def resync_scan.simps[of "sv_record E"])
  qed
  then show ?thesis by (simp add: unmistakable_def)
qed

section \<open>Opening an empty directory\<close>

context record_kind
begin

lemma disk_open_empty:
  assumes empty: "dq_files q = []" "dq_cursor q = No_Cursor" and res: "disk_open E config q = Inr q'"
  shows "spool_ok E P q'" "waiting E q' = []" "counted E q'" "dq_config q' = config" "dq_read_ahead q' = []"
    "dq_total_bytes q' = 0"
proof -
  from disk_open_Inr[OF res] obtain q1 segs at torn_at lost q2 replayed corrupt q3 where
      c1: "core q1 = core (before_open config q)" and find: "find_segments E q1 = Inr (segs, at, torn_at, lost, q2)"
    and count: "count_replayed E (snd at) (dropWhile (\<lambda>s. seg_seq s < fst at) segs) q2 = Inr (replayed, corrupt, q3)"
    and q': "q' = opened E at (dropWhile (\<lambda>s. seg_seq s < fst at) segs) replayed
      (dq_tick (fold (unlink_segment E) (map seg_seq (takeWhile (\<lambda>s. seg_seq s < fst at) segs))
        (persist_cursor E at (report_opened torn_at lost corrupt replayed q3))))"
    by blast
  note cf1 = core_fields[OF c1]
  have f1: "dq_files q1 = []" "dq_cursor q1 = No_Cursor" using cf1 empty by (simp_all add: before_open_def)
  have at: "segs = [\<lparr>seg_seq = 0, seg_len = 0\<rparr>]" "at = (0, 0)" "q2 = put_file 0 [] (dq_tick q1)"
    using find f1 by (auto simp: find_segments_def list_segments_def bnd_eq_Inr open_step_Inr)
  have f2: "dq_files q2 = [(0, [])]" "dq_cursor q2 = No_Cursor" "disk_only q1 q2"
    using f1 by (simp_all add: at put_file_def dq_tick_def disk_only_def core_def)
  have con: "contents 0 q2 = []" by (simp add: contents_eq f2 on_disk_def)
  have cr: "core q3 = core q2" "replayed = 0"
    using count_replayed_effect[of "snd at" "dropWhile (\<lambda>s. seg_seq s < fst at) segs", OF count] at con by simp_all
  let ?q4 = "report_opened torn_at lost corrupt replayed q3"
  have c4: "core ?q4 = core q2" using cr report_opened_core[of torn_at lost corrupt replayed q3] by simp
  note p5 = persist_cursor_effect[of ?q4 E at]
  let ?q6 = "dq_tick (persist_cursor E at ?q4)"
  have d6: "disk_only (before_open config q) ?q6"
    using disk_only_trans[OF disk_only_trans[OF disk_only_core[OF c1] f2(3)] disk_only_core[OF c4]]
      p5 disk_only_trans disk_only_core[of ?q6 "persist_cursor E at ?q4"] by (metis core_updates(1))
  have ct: "core ?q6 = core (persist_cursor E at ?q4)" by simp
  have fields: "dq_segments q' = [\<lparr>seg_seq = 0, seg_len = 0\<rparr>]" "dq_read_seq q' = 0" "dq_read_offset q' = 0"
      "dq_total_bytes q' = 0" "dq_queued_records q' = 0" "dq_files q' = [(0, [])]"
      "dq_cursor q' = Cursor_Doc 1 0 0 \<or> dq_cursor q' = No_Cursor"
      "dq_read_ahead q' = []" "dq_needs_repair q' = None" "dq_jobs q' = []" "dq_config q' = config"
    unfolding q' opened_def
    using disk_only_fields[OF d6] core_fields[OF ct] p5 core_fields[OF c4] f2 at cr
    by (simp_all add: after_change_def dq_emit_def before_open_def)
  show ok: "spool_ok E P q'"
    by (rule fresh_ok(1)[where ks = "[0]"]) (use fields in \<open>auto simp: on_disk_def split: if_splits\<close>)
  have "stream q' = []" by (simp add: stream_def fields body_def)
  then show "waiting E q' = []" by (simp add: waiting_def)
  then show "counted E q'" "dq_config q' = config" "dq_read_ahead q' = []" "dq_total_bytes q' = 0"
    using fields by (simp_all add: counted_def)
qed

end

section \<open>Runs of a spool\<close>

type_synonym ('d, 'h) batch_text = "(bytes, 'd, 'h) event_batch \<times> bytes provenance \<times> hop_trace \<times> seq_id"

text \<open>A push that waits for room: its record, its events, whether it already made room, and its text.\<close>

type_synonym ('d, 'h) waiting_push = "bytes \<times> nat \<times> bool \<times> ('d, 'h) batch_text"

definition still_waiting :: "push_end \<Rightarrow> bytes \<Rightarrow> nat \<Rightarrow> ('d, 'h) batch_text \<Rightarrow> ('d, 'h) waiting_push option" where
  "still_waiting e r events said = (case e of Push_Parked made_room \<Rightarrow> Some (r, events, made_room, said) | _ \<Rightarrow> None)"

definition accepted :: "push_end \<Rightarrow> ('d, 'h) batch_text \<Rightarrow> ('d, 'h) batch_text list" where
  "accepted e said = (if e = Pushed then [said] else [])"

definition lossless :: "spool_config \<Rightarrow> bool" where
  "lossless config \<longleftrightarrow> cf_overflow config \<noteq> Drop_Oldest"

text \<open>
  \<open>spool_run E q parked acc got stops\<close>: a spool started in an empty directory may come to state \<open>q\<close>,
  with a push waiting, the batches \<open>acc\<close> accepted and the items \<open>got\<close> committed, both in order,
  after that many stops. A stop may come at any moment: the next process has the files and the
  cursor, and nothing else.
\<close>

inductive spool_run ::
    "('d, 'h) spool_env \<Rightarrow> ('d, 'h) disk_queue \<Rightarrow> ('d, 'h) waiting_push option \<Rightarrow> ('d, 'h) batch_text list \<Rightarrow>
     ('d, 'h) store_item list \<Rightarrow> nat \<Rightarrow> bool" for E where
  created: "dq_files q0 = [] \<Longrightarrow> dq_cursor q0 = No_Cursor \<Longrightarrow> lossless config \<Longrightarrow> disk_open E config q0 = Inr q \<Longrightarrow>
    spool_run E q None [] [] 0"
| pushes: "spool_run E q None acc got stops \<Longrightarrow> push_record E (batch, ctx) q = (Inr r, q1) \<Longrightarrow>
    item = (batch, ctx, fst (numbering_next q)) \<Longrightarrow> storable (sv_record E) (sv_names E (dq_clock q)) item \<Longrightarrow>
    unmistakable E r \<Longrightarrow> said = item_text (sv_names E (dq_clock q)) item \<Longrightarrow>
    push_loop n E r (length (b_events batch)) False q1 = (e, q2) \<Longrightarrow> e \<noteq> Push_Unfinished \<Longrightarrow>
    spool_run E q2 (still_waiting e r (length (b_events batch)) said) (acc @ accepted e said) got stops"
| refused: "spool_run E q None acc got stops \<Longrightarrow> push_record E (batch, ctx) q = (Inl err, q') \<Longrightarrow>
    spool_run E q' None acc got stops"
| resumed: "spool_run E q (Some (r, events, made_room, said)) acc got stops \<Longrightarrow>
    push_loop n E r events made_room q = (e, q') \<Longrightarrow> e \<noteq> Push_Unfinished \<Longrightarrow>
    spool_run E q' (still_waiting e r events said) (acc @ accepted e said) got stops"
| dropped: "spool_run E q parked acc got stops \<Longrightarrow> spool_run E q None acc got stops"
| peeked: "spool_run E q parked acc got stops \<Longrightarrow> peek n E q = (res, q') \<Longrightarrow> spool_run E q' parked acc got stops"
| looked_ahead: "spool_run E q parked acc got stops \<Longrightarrow> peek_at E n q = (res, q') \<Longrightarrow> spool_run E q' parked acc got stops"
| committed: "spool_run E q parked acc got stops \<Longrightarrow> commit E q = (res, q') \<Longrightarrow>
    spool_run E q' parked acc (got @ (case res of Some item \<Rightarrow> [item] | None \<Rightarrow> [])) stops"
| persisted: "spool_run E q parked acc got stops \<Longrightarrow> spool_run E (worker_turn E q) parked acc got stops"
| closed: "spool_run E q parked acc got stops \<Longrightarrow> spool_run E (close q) parked acc got stops"
| finished: "spool_run E q parked acc got stops \<Longrightarrow> spool_run E (finish E q) parked acc got stops"
| stopped: "spool_run E q parked acc got stops \<Longrightarrow> lossless config \<Longrightarrow> disk_open E config q = Inr q' \<Longrightarrow>
    spool_run E q' None acc got (stops + 1)"

text \<open>What holds of every state of a run; \<open>rs\<close> are the accepted records, \<open>ds\<close> the delivered ones.\<close>

definition run_ok ::
    "('d, 'h) spool_env \<Rightarrow> ('d, 'h) disk_queue \<Rightarrow> ('d, 'h) waiting_push option \<Rightarrow> ('d, 'h) batch_text list \<Rightarrow>
     ('d, 'h) store_item list \<Rightarrow> nat \<Rightarrow> bytes list \<Rightarrow> bytes list \<Rightarrow> bool" where
  "run_ok E q parked acc got stops rs ds \<longleftrightarrow>
     spool_ok E (offered E) q \<and> counted E q \<and> lossless (dq_config q) \<and>
     (\<forall>r events made_room said. parked = Some (r, events, made_room, said) \<longrightarrow> offered E r \<and> wrote E said r) \<and>
     list_all2 (wrote E) acc rs \<and> list_all2 (reads E) ds got \<and> list_all (offered E) ds \<and>
     subseq rs (ds @ waiting E q) \<and> (stops = 0 \<longrightarrow> rs = ds @ waiting E q)"

lemma run_ok_same:
  assumes ok: "run_ok E q parked acc got stops rs ds" and q': "spool_ok E (offered E) q'" "waiting E q' = waiting E q"
    "dq_config q' = dq_config q" "dq_queued_records q' = dq_queued_records q"
  shows "run_ok E q' parked acc got stops rs ds"
  using ok q' by (simp add: run_ok_def counted_def)

lemma run_ok_core:
  assumes ok: "run_ok E q parked acc got stops rs ds" and c: "core q' = core q"
  shows "run_ok E q' parked acc got stops rs ds"
  using ok core_ok[OF c] core_waiting[OF c] core_fields[OF c] by (simp add: run_ok_def counted_def)

text \<open>A turn of a push: its record goes to the end, or nothing changes.\<close>

lemma run_ok_push:
  assumes ok: "run_ok E q parked acc got stops rs ds" and r: "offered E r" "wrote E said r"
    and p: "push_loop n E r events made_room q = (e, q')"
  shows "run_ok E q' (still_waiting e r events said) (acc @ accepted e said) got stops (rs @ (if e = Pushed then [r] else [])) ds"
proof -
  have o: "spool_ok E (offered E) q" "counted E q" "lossless (dq_config q)" using ok by (simp_all add: run_ok_def)
  from offered_records.push_loop_done[OF o(1,2) r(1), of n events made_room] p
  have d: "push_done E (offered E) r q (e, q')" by simp
  then have w: "waiting E q' = waiting E q @ (if e = Pushed then [r] else [])"
    using o(3) by (auto simp: push_done_def lossless_def)
  have "subseq (rs @ (if e = Pushed then [r] else [])) (ds @ waiting E q')"
    using ok unfolding w run_ok_def by (auto intro: list_emb_append_mono simp flip: append_assoc)
  moreover have "list_all2 (wrote E) (acc @ accepted e said) (rs @ (if e = Pushed then [r] else []))"
    using ok r by (auto simp: run_ok_def accepted_def intro: list_all2_appendI)
  ultimately show ?thesis
    using ok d r w by (auto simp: run_ok_def push_done_def still_waiting_def split: push_end.splits)
qed

lemma run_ok_commit:
  assumes ok: "run_ok E q parked acc got stops rs ds" and c: "commit E q = (res, q')"
  shows "\<exists>ds. run_ok E q' parked acc (got @ (case res of Some item \<Rightarrow> [item] | None \<Rightarrow> [])) stops rs ds"
proof -
  have o: "spool_ok E (offered E) q" "counted E q" using ok by (simp_all add: run_ok_def)
  note cm = offered_records.commit_ok[OF o(1) c]
  show ?thesis
  proof (cases res)
    case None
    then have "run_ok E q' parked acc got stops rs ds" using run_ok_same[OF ok] cm by simp
    then show ?thesis using None by auto
  next
    case (Some item)
    then have w: "waiting E q \<noteq> []" "waiting E q' = tl (waiting E q)" "reads E (hd (waiting E q)) item"
        "dq_queued_records q' = dq_queued_records q - 1" "spool_ok E (offered E) q'" "dq_config q' = dq_config q"
      using cm by auto
    have "(ds @ [hd (waiting E q)]) @ waiting E q' = ds @ waiting E q" using w(1,2) by simp
    moreover have "offered E (hd (waiting E q))"
      using offered_records.waiting_concat[OF o(1)] w(1) by (cases "waiting E q") auto
    ultimately have "run_ok E q' parked acc (got @ [item]) stops rs (ds @ [hd (waiting E q)])"
      using ok w by (auto simp: run_ok_def counted_def intro: list_all2_appendI)
    then show ?thesis using Some by auto
  qed
qed

lemma run_ok_stop:
  assumes ok: "run_ok E q parked acc got stops rs ds" and l: "lossless config" and d: "disk_open E config q = Inr q'"
  shows "run_ok E q' None acc got (stops + 1) rs ds"
proof -
  have o: "spool_ok E (offered E) q" using ok by (simp add: run_ok_def)
  note op = offered_records.disk_open_ok[OF o d]
  then obtain dup extra where w: "waiting E q' = dup @ waiting E q @ extra" by blast
  have "subseq rs (ds @ waiting E q)" using ok by (simp add: run_ok_def)
  moreover have "subseq (ds @ waiting E q) (ds @ dup @ waiting E q @ extra)"
    by (intro list_emb_append_mono subseq_order.refl) (simp add: list_emb_append2 list_emb_prefix)
  ultimately have "subseq rs (ds @ waiting E q')" unfolding w by (rule subseq_order.trans)
  then show ?thesis using ok op l by (auto simp: run_ok_def)
qed

lemma spool_run_ok: "spool_run E q parked acc got stops \<Longrightarrow> env_ok E \<Longrightarrow> \<exists>rs ds. run_ok E q parked acc got stops rs ds"
proof (induction rule: spool_run.induct)
  case (created q0 config q)
  have "run_ok E q None [] [] 0 [] []"
    using offered_records.disk_open_empty[OF created(1,2,4)] created(3) by (simp add: run_ok_def)
  then show ?case by blast
next
  case (pushes q acc got stops batch ctx r q1 item said n e q2)
  then obtain rs ds where ok: "run_ok E q None acc got stops rs ds" by blast
  have c: "core q1 = core q" using push_record_core[of E "(batch, ctx)" q] pushes(2) by simp
  have "record_bytes (sv_record E) (resolve_str (sv_names E (dq_clock q))) (cf_compression (dq_config q)) item = Inr r"
    using pushes(2,3) by (auto simp: push_record_def numbering_next_def Let_def split: sum.splits)
  then have w: "wrote E said r" using pushes(4,6) unfolding wrote_def by blast
  then have "offered E r" using pushes.prems pushes(5) unfolding offered_def by blast
  from run_ok_push[OF run_ok_core[OF ok c] this w pushes(7)] show ?case by blast
next
  case (refused q acc got stops batch ctx err q')
  then have c: "core q' = core q" using push_record_core[of E "(batch, ctx)" q] by simp
  from refused obtain rs ds where "run_ok E q None acc got stops rs ds" by blast
  from run_ok_core[OF this c] show ?case by blast
next
  case (resumed q r events made_room said acc got stops n e q')
  then obtain rs ds where ok: "run_ok E q (Some (r, events, made_room, said)) acc got stops rs ds" by blast
  then have "offered E r" "wrote E said r" unfolding run_ok_def by blast+
  from run_ok_push[OF ok this resumed(2)] show ?case by blast
next
  case (dropped q parked acc got stops)
  then show ?case by (auto simp: run_ok_def)
next
  case (peeked q parked acc got stops n res q')
  then obtain rs ds where ok: "run_ok E q parked acc got stops rs ds" by blast
  then have "looked E (offered E) q q'" using offered_records.peek_ok[OF _ peeked(2)] by (auto simp: run_ok_def)
  from run_ok_same[OF ok lookedD(1,3,4,5)[OF this]] show ?case by blast
next
  case (looked_ahead q parked acc got stops n res q')
  then obtain rs ds where ok: "run_ok E q parked acc got stops rs ds" by blast
  then have "looked E (offered E) q q'" using offered_records.peek_at_ok[OF _ looked_ahead(2)] by (auto simp: run_ok_def)
  from run_ok_same[OF ok lookedD(1,3,4,5)[OF this]] show ?case by blast
next
  case (committed q parked acc got stops res q')
  then show ?case using run_ok_commit by blast
next
  case (persisted q parked acc got stops)
  then obtain rs ds where ok: "run_ok E q parked acc got stops rs ds" by blast
  then have "unseen E (offered E) q (worker_turn E q)" by (intro worker_turn_unseen) (simp add: run_ok_def)
  from run_ok_same[OF ok steadyD(1,3,4,5)[OF steady_unseen[OF this]]] show ?case by blast
next
  case (closed q parked acc got stops)
  then obtain rs ds where ok: "run_ok E q parked acc got stops rs ds" by blast
  then have "run_ok E (close q) parked acc got stops rs ds"
    using close_ok[of E "offered E" q] by (intro run_ok_same[OF ok]) (simp_all add: run_ok_def waiting_def)
  then show ?case by blast
next
  case (finished q parked acc got stops)
  then obtain rs ds where ok: "run_ok E q parked acc got stops rs ds" by blast
  then have "steady E (offered E) q (finish E q)" by (intro finish_steady) (simp add: run_ok_def)
  from run_ok_same[OF ok steadyD(1,3,4,5)[OF this]] show ?case by blast
next
  case (stopped q parked acc got stops config q')
  then show ?case using run_ok_stop by blast
qed


text \<open>On a disk that works, the head of the queue is there after two turns of a peek, and a commit takes it off.\<close>

lemma run_spool_ok:
  assumes "spool_run E q parked acc got stops" and "env_ok E"
  shows "spool_ok E (offered E) q" "counted E q"
  using spool_run_ok[OF assms] by (auto simp: run_ok_def)

text \<open>The same environment once every operation of the disk succeeds.\<close>

definition healed :: "('d, 'h) spool_env \<Rightarrow> ('d, 'h) spool_env" where
  "healed E = E\<lparr>sv_io := \<lambda>_. Io_Ok\<rparr>"

lemma healed_works: "disk_works (healed E)"
  by (simp add: disk_works_def healed_def)

lemma healed_fields [simp]:
  "sv_record (healed E) = sv_record E" "sv_names (healed E) = sv_names E" "sv_table (healed E) = sv_table E"
  by (simp_all add: healed_def)

lemma healed_chop [simp]: "chop (healed E) bs = chop E bs"
proof (induction E bs rule: chop.induct)
  case (1 E bs)
  show ?case
    unfolding chop.simps[of E bs] chop.simps[of "healed E" bs] using 1 by (simp split: sum.split)
qed

lemma healed_kinds [simp]:
  "waiting (healed E) q = waiting E q" "reads (healed E) = reads E" "offered (healed E) = offered E" "env_ok (healed E) = env_ok E"
  by (simp_all add: waiting_def fun_eq_iff reads_def offered_def env_ok_def wrote_def unmistakable_def)

lemma healed_spool_ok [simp]: "spool_ok (healed E) P q = spool_ok E P q" "counted (healed E) q = counted E q"
  by (simp_all add: spool_ok_def ahead_ok_def counted_def)

lemma unconfirmed_repair: "spool_ok E P q \<Longrightarrow> dq_needs_repair q = None \<Longrightarrow> unconfirmed q = []"
  by (auto simp: spool_ok_def files_ok_def unconfirmed_def active_segment_def)

lemma head_answers:
  assumes ok: "spool_ok E (offered E) q" and w: "disk_works E"
  shows "case waiting E q of
      [] \<Rightarrow> fst (peek (Suc (Suc n)) E q) = (if dq_closed q then Peek_Ended else Peek_Parked)
    | r # rest \<Rightarrow> \<exists>item q1 q2. peek (Suc (Suc n)) E q = (Peeked item, q1) \<and> reads E r item \<and>
        commit E q1 = (Some item, q2) \<and> waiting E q2 = rest"
proof -
  obtain res q1 where p: "peek (Suc (Suc n)) E q = (res, q1)" by (cases "peek (Suc (Suc n)) E q")
  have "res \<noteq> Peek_Again" using offered_records.peek_ends[OF ok, of n] w p by (simp add: disk_works_def)
  then have l: "looked E (offered E) q q1" and a: "peek_answer E q q1 res" using offered_records.peek_ok[OF ok p] by auto
  show ?thesis
  proof (cases "waiting E q")
    case Nil
    then show ?thesis using a p by (auto simp: peek_answer_def split: peeked.splits)
  next
    case (Cons r rest)
    then obtain item where i: "res = Peeked item" "reads E r item" "dq_read_ahead q1 \<noteq> []" "ra_item (hd (dq_read_ahead q1)) = item"
      using a \<open>res \<noteq> Peek_Again\<close> by (cases res) (auto simp: peek_answer_def)
    obtain res' q2 where c: "commit E q1 = (res', q2)" by (cases "commit E q1")
    have "res' = Some item \<and> waiting E q2 = rest"
      using offered_records.commit_ok[OF lookedD(1)[OF l] c] i lookedD(3)[OF l] Cons by (cases res') auto
    then show ?thesis using Cons p i c by auto
  qed
qed

section \<open>A run\<close>

text \<open>A spool on a disk that works, in an empty directory, and one empty batch pushed to it.\<close>

definition quiet_spool :: "(unit, unit) spool_env" where
  "quiet_spool = \<lparr>sv_record = \<lparr>re_frame = stored_env, re_blobs = ie_blobs (quiet_env (\<lambda>_. True)), re_layout = ie_layout (quiet_env (\<lambda>_. True))\<rparr>,
     sv_names = \<lambda>_. [], sv_table = \<lambda>_ _. [], sv_io = \<lambda>_. Io_Ok, sv_landed = \<lambda>_. 0, sv_happened = \<lambda>_. False,
     sv_durable = \<lambda>_. None, sv_unlinks = \<lambda>_. True, sv_now = \<lambda>c. c, sv_identity = \<lambda>_. replicate 16 3\<rparr>"

definition quiet_config :: spool_config where
  "quiet_config = \<lparr>cf_max_bytes = 1000, cf_segment_bytes = 100, cf_overflow = Block, cf_compression = Compression_None,
     cf_checkpoint_interval = 10\<rparr>"

definition empty_directory :: "(unit, unit) disk_queue" where
  "empty_directory = \<lparr>dq_config = quiet_config, dq_segments = [], dq_read_seq = 0, dq_read_offset = 0, dq_total_bytes = 0,
      dq_queued_records = 0, dq_read_ahead = [], dq_write_file = False, dq_needs_repair = None,
      dq_rotation_started = False, dq_read_file = None, dq_last_checkpoint = 0, dq_worker = False, dq_jobs = [],
      dq_closed = False, dq_id = [], dq_next = 1, dq_files = [], dq_cursor = No_Cursor, dq_clock = 0, dq_log = []\<rparr>"

definition quiet_number :: seq_id where
  "quiet_number = \<lparr>sq_id = replicate 16 3, sq_seq = 1\<rparr>"

definition quiet_item :: "(unit, unit) store_item" where
  "quiet_item = (quiet_batch, no_context, quiet_number)"

definition quiet_record :: bytes where
  "quiet_record = encode_context (bc_trace no_context) @
     header_write (frame_header_of stored_env CODEC_HOP_BATCH Compression_None 0 (replicate 16 3 @ [1, 0, 0, 0, 0, 0])) @
     (replicate 16 3 @ [1, 0, 0, 0, 0, 0])"

lemma quiet_spool_simps [simp]:
  "sv_names quiet_spool c = []" "sv_table quiet_spool c p = []" "sv_io quiet_spool c = Io_Ok"
  "sv_identity quiet_spool c = replicate 16 3" "re_frame (sv_record quiet_spool) = stored_env"
  "re_blobs (sv_record quiet_spool) = ie_blobs (quiet_env (\<lambda>_. True))"
  "re_layout (sv_record quiet_spool) = ie_layout (quiet_env (\<lambda>_. True))"
  by (simp_all add: quiet_spool_def)

lemma quiet_env_ok: "env_ok quiet_spool" and quiet_works: "disk_works quiet_spool"
  using stored_env_laws by (simp_all add: env_ok_def disk_works_def interner_ok_def)

lemma quiet_encoded:
  "encode_hop_batch (ie_blobs (quiet_env (\<lambda>_. True))) (resolve_str []) (quiet_batch :: (symbol, unit, unit) event_batch)
     (bc_provenance no_context) None quiet_number = replicate 16 3 @ [1, 0, 0, 0, 0, 0]"
  by code_simp

lemma quiet_written: "record_bytes (sv_record quiet_spool) (resolve_str []) Compression_None quiet_item = Inr quiet_record"
  unfolding quiet_item_def record_bytes_eq
  by (simp add: quiet_encoded write_frame_def write_frame_eq quiet_record_def frame_body_def MAX_SANE_UNCOMPRESSED_LEN_def)

lemma quiet_record_len: "length quiet_record = 70"
  by (simp add: quiet_record_def HEADER_LEN_def encode_context_def no_context_def)

lemma quiet_unmistakable: "unmistakable quiet_spool quiet_record"
proof (rule unmistakable_magic)
  show "resync (drop (CONTEXT_LEN + 1) quiet_record) = None" by code_simp
qed

lemma quiet_storable: "storable (sv_record quiet_spool) [] quiet_item"
proof -
  let ?B = "ie_blobs (quiet_env (\<lambda>_. True))"
  have sym: "batch_symbols ?B (quiet_batch :: (symbol, unit, unit) event_batch) = []" by code_simp
  have "batch_ok ?B (quiet_batch :: (symbol, unit, unit) event_batch)"
    "length (encode_batch ?B (resolve_str []) (quiet_batch :: (symbol, unit, unit) event_batch)) = 4"
    "batch_cost ?B (ie_layout (quiet_env (\<lambda>_. True))) (resolve_str []) (quiet_batch :: (symbol, unit, unit) event_batch) = 0"
    subgoal by (simp add: batch_ok_def quiet_batch_def resource_default_def attrs_ok_def)
    subgoal by code_simp
    subgoal unfolding batch_cost_def using sym by (simp add: sections_cost_def quiet_batch_def resource_default_def batch_scope_cost_def dict_cost_def list_cost_def
        attrs_cost_def saturating_mul_def)
    done
  then show ?thesis
    using sym by (simp add: storable_def quiet_item_def decodable_def provenance_ok_def no_context_def quiet_number_def) (simp add: quiet_batch_def)
qed


lemma disk_open_number:
  assumes "disk_open E config q = Inr q'" shows "dq_next q' = 1" and "\<exists>c. dq_id q' = sv_identity E c"
  using disk_open_Inr[OF assms] by (auto simp: opened_def after_change_def dq_emit_def)

abbreviation quiet_text :: "(unit, unit) batch_text" where
  "quiet_text \<equiv> item_text [] quiet_item"

lemma quiet_offered: "offered quiet_spool quiet_record"
proof -
  have "wrote quiet_spool quiet_text quiet_record"
    unfolding wrote_def using quiet_storable quiet_written by (intro exI[of _ 0] exI[of _ Compression_None] exI[of _ quiet_item]) simp
  then show ?thesis using quiet_env_ok quiet_unmistakable unfolding offered_def by blast
qed

text \<open>Created, and the batch pushed.\<close>

lemma quiet_pushed:
  "\<exists>q. spool_run quiet_spool q None [quiet_text] [] 0 \<and> waiting quiet_spool q = [quiet_record] \<and> dq_read_ahead q = []"
proof -
  obtain q1 where o: "disk_open quiet_spool quiet_config empty_directory = Inr q1" using disk_open_works[OF quiet_works] by blast
  have e: "dq_files empty_directory = []" "dq_cursor empty_directory = No_Cursor" "lossless quiet_config"
    by (simp_all add: empty_directory_def lossless_def quiet_config_def)
  note run1 = created[OF e o] and op = offered_records.disk_open_empty[OF e(1,2) o]
  have num: "fst (numbering_next q1) = quiet_number"
    using disk_open_number[OF o] by (auto simp: numbering_next_def quiet_number_def)
  let ?q = "q1\<lparr>dq_next := dq_next q1 + 1\<rparr>"
  have pr: "push_record quiet_spool (quiet_batch, no_context) q1 = (Inr quiet_record, ?q)"
    using num quiet_written op(4) by (simp add: push_record_def numbering_next_def quiet_item_def quiet_config_def)
  have c: "core ?q = core q1" by simp
  note cf = core_fields[OF c]
  have ok: "spool_ok quiet_spool (offered quiet_spool) ?q" "counted quiet_spool ?q"
    using core_ok[OF c] op(1,3) core_waiting[OF c] cf by (simp_all add: counted_def)
  obtain e q2 where p: "push_loop 1 quiet_spool quiet_record 0 False ?q = (e, q2)" by (cases "push_loop 1 quiet_spool quiet_record 0 False ?q")
  have fin: "e = Pushed"
    using push_loop_works[OF quiet_works ok(1), of quiet_record 0 0 False] p cf op(4,6) quiet_record_len by (simp add: quiet_config_def)
  from offered_records.push_loop_done[OF ok quiet_offered, of 1 0 False] p fin
  have "waiting quiet_spool q2 = waiting quiet_spool ?q @ [quiet_record]" "dq_read_ahead q2 = dq_read_ahead ?q"
    using cf(1) op(4) by (auto simp: push_done_def quiet_config_def)
  then have "waiting quiet_spool q2 = [quiet_record]" "dq_read_ahead q2 = []" using op(2,5) core_waiting[OF c] by simp_all
  moreover have "spool_run quiet_spool q2 (still_waiting e quiet_record (length (b_events (quiet_batch :: (symbol, unit, unit) event_batch))) quiet_text)
      ([] @ accepted e quiet_text) [] 0"
  proof (rule pushes[OF run1 pr])
    show "quiet_item = (quiet_batch, no_context, fst (numbering_next q1))" using num by (simp add: quiet_item_def)
    show "storable (sv_record quiet_spool) (sv_names quiet_spool (dq_clock q1)) quiet_item" using quiet_storable by simp
    show "push_loop 1 quiet_spool quiet_record (length (b_events (quiet_batch :: (symbol, unit, unit) event_batch))) False ?q = (e, q2)"
      using p by (simp add: quiet_batch_def)
  qed (use quiet_unmistakable fin in simp_all)
  ultimately show ?thesis using fin by (auto simp: still_waiting_def accepted_def)
qed


lemma quiet_committed: "\<exists>q item. spool_run quiet_spool q None [quiet_text] [item] 0"
proof -
  obtain q where q: "spool_run quiet_spool q None [quiet_text] [] 0" "waiting quiet_spool q = [quiet_record]" using quiet_pushed by blast
  note ok = run_spool_ok(1)[OF q(1) quiet_env_ok]
  from head_answers[OF ok quiet_works, of 0] obtain n item q1 q2 where
    p: "peek n quiet_spool q = (Peeked item, q1)" "commit quiet_spool q1 = (Some item, q2)"
    unfolding q(2) list.case by blast
  from committed[OF peeked[OF q(1) p(1)] p(2)] show ?thesis unfolding option.case append_Nil by blast
qed

lemma quiet_stopped: "\<exists>q item. spool_run quiet_spool q None [quiet_text] [item] 1"
proof -
  obtain q item where q: "spool_run quiet_spool q None [quiet_text] [item] 0" using quiet_committed by blast
  obtain q' where o: "disk_open quiet_spool quiet_config q = Inr q'" using disk_open_works[OF quiet_works] by blast
  have "lossless quiet_config" by (simp add: lossless_def quiet_config_def)
  from stopped[OF q this o] show ?thesis unfolding add_0 by blast
qed

text \<open>A push whose write is dropped once so many bytes of its record have landed.\<close>

definition cut_spool :: "nat \<Rightarrow> (unit, unit) spool_env" where
  "cut_spool n = quiet_spool\<lparr>sv_io := \<lambda>c. if c = 9 then Io_Dropped else Io_Ok, sv_landed := \<lambda>_. n\<rparr>"

definition cut_start :: "nat \<Rightarrow> (unit, unit) disk_queue" where
  "cut_start n = (case disk_open (cut_spool n) quiet_config empty_directory of Inr q \<Rightarrow> q | Inl _ \<Rightarrow> empty_directory)"

definition cut_end :: "nat \<Rightarrow> (unit, unit) disk_queue" where
  "cut_end n = snd (push_loop 1 (cut_spool n) quiet_record 0 False ((cut_start n)\<lparr>dq_next := 2\<rparr>))"

lemma cut_kinds [simp]: "offered (cut_spool n) = offered quiet_spool" "env_ok (cut_spool n)" "chop (cut_spool n) = chop quiet_spool"
proof -
  show "offered (cut_spool n) = offered quiet_spool" "env_ok (cut_spool n)"
    using quiet_env_ok by (simp_all add: fun_eq_iff offered_def env_ok_def wrote_def unmistakable_def cut_spool_def)
  have "chop (cut_spool n) bs = chop quiet_spool bs" for bs
  proof (induction "quiet_spool" bs rule: chop.induct)
    case (1 bs)
    show ?case unfolding chop.simps[of quiet_spool bs] chop.simps[of "cut_spool n" bs]
      using 1 by (simp add: cut_spool_def split: sum.split)
  qed
  then show "chop (cut_spool n) = chop quiet_spool" by blast
qed

lemma cut_states:
  "disk_open (cut_spool 70) quiet_config empty_directory = Inr (cut_start 70)"
  "disk_open (cut_spool 40) quiet_config empty_directory = Inr (cut_start 40)"
  "dq_id (cut_start 70) = replicate 16 3" "dq_next (cut_start 70) = 1" "dq_id (cut_start 40) = replicate 16 3" "dq_next (cut_start 40) = 1"
  "dq_config (cut_start 70) = quiet_config" "dq_config (cut_start 40) = quiet_config"
  "fst (push_loop 1 (cut_spool 70) quiet_record 0 False ((cut_start 70)\<lparr>dq_next := 2\<rparr>)) = Push_Cancelled"
  "fst (push_loop 1 (cut_spool 40) quiet_record 0 False ((cut_start 40)\<lparr>dq_next := 2\<rparr>)) = Push_Cancelled"
  "unconfirmed (cut_end 70) = quiet_record" "unconfirmed (cut_end 40) = take 40 quiet_record"
  "stream (cut_end 70) = []" "stream (cut_end 40) = []"
  "taken_from (resume_at (cut_end 70)) (cut_end 70) = []" "taken_from (resume_at (cut_end 40)) (cut_end 40) = []"
  by code_simp+

lemma cut_run:
  assumes o: "disk_open (cut_spool n) quiet_config empty_directory = Inr (cut_start n)"
    and num: "dq_id (cut_start n) = replicate 16 3" "dq_next (cut_start n) = 1" "dq_config (cut_start n) = quiet_config"
    and p: "fst (push_loop 1 (cut_spool n) quiet_record 0 False ((cut_start n)\<lparr>dq_next := 2\<rparr>)) = Push_Cancelled"
  shows "spool_run (cut_spool n) (cut_end n) None [] [] 0"
proof -
  have e: "dq_files empty_directory = []" "dq_cursor empty_directory = No_Cursor" "lossless quiet_config"
    by (simp_all add: empty_directory_def lossless_def quiet_config_def)
  have f: "sv_record (cut_spool n) = sv_record quiet_spool" "sv_names (cut_spool n) c = []" "sv_table (cut_spool n) = sv_table quiet_spool" for c
    by (simp_all add: cut_spool_def)
  have pr: "push_record (cut_spool n) (quiet_batch, no_context) (cut_start n) = (Inr quiet_record, (cut_start n)\<lparr>dq_next := 2\<rparr>)"
    using num quiet_written by (simp add: push_record_def numbering_next_def quiet_item_def quiet_number_def quiet_config_def f)
  have "spool_run (cut_spool n) (cut_end n)
      (still_waiting Push_Cancelled quiet_record (length (b_events (quiet_batch :: (symbol, unit, unit) event_batch))) quiet_text)
      ([] @ accepted Push_Cancelled quiet_text) [] 0"
  proof (rule pushes[OF created[OF e o] pr])
    show "quiet_item = (quiet_batch, no_context, fst (numbering_next (cut_start n)))"
      using num by (simp add: quiet_item_def quiet_number_def numbering_next_def)
    show "storable (sv_record (cut_spool n)) (sv_names (cut_spool n) (dq_clock (cut_start n))) quiet_item" using quiet_storable by (simp add: f)
    show "unmistakable (cut_spool n) quiet_record" using quiet_unmistakable by (simp add: unmistakable_def f)
    show "push_loop 1 (cut_spool n) quiet_record (length (b_events (quiet_batch :: (symbol, unit, unit) event_batch))) False
        ((cut_start n)\<lparr>dq_next := 2\<rparr>) = (Push_Cancelled, cut_end n)"
      using p by (simp add: cut_end_def quiet_batch_def prod_eq_iff)
  qed (simp_all add: f)
  then show ?thesis by (simp add: still_waiting_def accepted_def)
qed

lemma subseq_related:
  assumes "list_all2 R ds got" and "subseq rs ds" shows "\<exists>got'. subseq got' got \<and> list_all2 R rs got'"
  using assms(2,1)
proof (induction arbitrary: got rule: list_emb.induct)
  case (list_emb_Nil ys)
  then show ?case by (intro exI[of _ "[]"]) simp
next
  case (list_emb_Cons xs ys y)
  then obtain g gs where g: "got = g # gs" "list_all2 R ys gs" by (auto simp: list_all2_Cons1)
  from list_emb_Cons.IH[OF g(2)] show ?case using g(1) by (auto intro: list_emb.list_emb_Cons)
next
  case (list_emb_Cons2 x y xs ys)
  then obtain g gs where g: "got = g # gs" "R y g" "list_all2 R ys gs" by (auto simp: list_all2_Cons1)
  from list_emb_Cons2.IH[OF g(3)] obtain got' where "subseq got' gs" "list_all2 R xs got'" by blast
  then show ?case using g list_emb_Cons2.hyps(1) by (intro exI[of _ "g # got'"]) simp
qed

text \<open>A delivered item says what was pushed: its text, read through the table of the process that reads it.\<close>

definition says :: "('d, 'h) batch_text \<Rightarrow> ('d, 'h) store_item \<Rightarrow> bool" where
  "says said item \<longleftrightarrow> (\<exists>t. distinct t \<and> item_text t item = said)"

lemma delivered_says:
  assumes e: "env_ok E" and w: "list_all2 (wrote E) acc rs" and rd: "list_all2 (reads E) rs got"
  shows "list_all2 says acc got"
proof -
  have "list_all2 (wrote E OO reads E) acc got" using w rd by (auto simp: list.rel_compp)
  then show ?thesis by (rule list.rel_mono_strong) (auto simp: says_def dest: wrote_reads[OF e])
qed

section \<open>Properties\<close>

text \<open>
  C3. What the spool accepted is not lost. In any run of a spool that does not evict, with any
  failures of the disk, pushes dropped at any point, and stops at any moment after which the spool
  is opened again, the accepted batches fall into a first part, each of which a commit handed out,
  in the order of the pushes and with the text they were pushed with, and the others, whose records
  wait in the spool, in that order.
\<close>

theorem spool_keeps_accepted:
  assumes e: "env_ok E" and run: "spool_run E q parked acc got stops"
  shows "\<exists>gone todo got' pend. acc = gone @ todo \<and> subseq got' got \<and> list_all2 says gone got' \<and>
    subseq pend (waiting E q) \<and> list_all2 (wrote E) todo pend"
proof -
  from spool_run_ok[OF run e] obtain rs ds where ok: "run_ok E q parked acc got stops rs ds" by blast
  then have "subseq rs (ds @ waiting E q)" by (simp add: run_ok_def)
  then obtain rs1 rs2 where rs: "rs = rs1 @ rs2" "subseq rs1 ds" "subseq rs2 (waiting E q)" by (auto simp: subseq_append_iff)
  have "list_all2 (wrote E) acc (rs1 @ rs2)" using ok rs(1) by (simp add: run_ok_def)
  then obtain acc1 acc2 where acc: "acc = acc1 @ acc2" "list_all2 (wrote E) acc1 rs1" "list_all2 (wrote E) acc2 rs2"
    by (auto simp: list_all2_append2)
  have "list_all2 (reads E) ds got" using ok by (simp add: run_ok_def)
  from subseq_related[OF this rs(2)] obtain got' where g: "subseq got' got" "list_all2 (reads E) rs1 got'" by blast
  show ?thesis
    using acc(1,3) g(1) rs(3) delivered_says[OF e acc(2) g(2)] by blast
qed

theorem spool_keeps_accepted_witness:
  "\<exists>q item. spool_run quiet_spool q None [quiet_text] [item] 1 \<and>
    (\<exists>gone todo got' pend. [quiet_text] = gone @ todo \<and> subseq got' [item] \<and> list_all2 says gone got' \<and>
      subseq pend (waiting quiet_spool q) \<and> list_all2 (wrote quiet_spool) todo pend)"
proof -
  obtain q item where "spool_run quiet_spool q None [quiet_text] [item] 1" using quiet_stopped by blast
  note run = this
  show ?thesis by (rule exI, rule exI, rule conjI, rule run, rule spool_keeps_accepted[OF quiet_env_ok run])
qed

text \<open>
  C7. Within one process the spool is a queue: what the commits handed out are the first accepted
  batches, each once, in order and with their text, and the records waiting are exactly those of
  the others, as many as the depth the spool reports.
\<close>

theorem spool_in_order:
  assumes e: "env_ok E" and run: "spool_run E q parked acc got 0"
  shows "\<exists>gone todo. acc = gone @ todo \<and> list_all2 says gone got \<and> list_all2 (wrote E) todo (waiting E q) \<and>
    dq_queued_records q = length todo"
proof -
  from spool_run_ok[OF run e] obtain rs ds where ok: "run_ok E q parked acc got 0 rs ds" by blast
  then have "list_all2 (wrote E) acc (ds @ waiting E q)" unfolding run_ok_def by blast
  then obtain acc1 acc2 where acc: "acc = acc1 @ acc2" "list_all2 (wrote E) acc1 ds" "list_all2 (wrote E) acc2 (waiting E q)"
    by (auto simp: list_all2_append2)
  have "list_all2 says acc1 got" using delivered_says[OF e acc(2)] ok by (simp add: run_ok_def)
  moreover have "dq_queued_records q = length acc2" using ok list_all2_lengthD[OF acc(3)] by (simp add: run_ok_def counted_def)
  ultimately show ?thesis using acc by blast
qed

theorem spool_in_order_witness:
  "\<exists>q item. spool_run quiet_spool q None [quiet_text] [item] 0 \<and>
    (\<exists>gone todo. [quiet_text] = gone @ todo \<and> list_all2 says gone [item] \<and> list_all2 (wrote quiet_spool) todo (waiting quiet_spool q) \<and>
      dq_queued_records q = length todo)"
proof -
  obtain q item where "spool_run quiet_spool q None [quiet_text] [item] 0" using quiet_committed by blast
  note run = this
  show ?thesis by (rule exI, rule exI, rule conjI, rule run, rule spool_in_order[OF quiet_env_ok run])
qed

text \<open>
  C10. A spool can be opened again. Whatever the disk did to a run and wherever the run stopped, a push
  cut off in the middle of its write included: once the disk works, opening succeeds, and the queue is
  exactly what was waiting, in its order, behind the records that the files still hold between the
  position in the cursor file and the read position of the stopped process (from the oldest segment on,
  if that file is missing, unreadable or points to a segment that is gone), and in front of the bytes at
  the end of the active segment that no push had confirmed, kept if they are one whole record and cut
  away otherwise. The reported depth is right from the start.
\<close>

theorem spool_reopens:
  assumes e: "env_ok E" and run: "spool_run E q parked acc got stops"
  shows "\<exists>q' again. disk_open (healed E) config q = Inr q' \<and>
    waiting E q' = again @ waiting E q @ (if offered E (unconfirmed q) then [unconfirmed q] else []) \<and>
    concat again = taken_from (resume_at q) q \<and> list_all (offered E) again \<and>
    (dq_needs_repair q = None \<longrightarrow> unconfirmed q = []) \<and> dq_queued_records q' = length (waiting E q') \<and> \<not> dq_closed q'"
proof -
  obtain q' where o: "disk_open (healed E) config q = Inr q'" using disk_open_works[OF healed_works] by blast
  note ok = run_spool_ok(1)[OF run e]
  have "spool_ok (healed E) (offered (healed E)) q" using ok by simp
  note op = offered_records.disk_open_ok[OF this o, simplified]
  let ?again = "chop E (taken_from (resume_at q) q)"
  have "chop E (whole_tail (offered E) (unconfirmed q)) = (if offered E (unconfirmed q) then [unconfirmed q] else [])"
    using offered_records.chop_one[of E "unconfirmed q"] by (simp add: whole_tail_def)
  moreover have "list_all (offered E) ?again \<and> concat ?again = taken_from (resume_at q) q"
    using op offered_records.chop_sealed by blast
  ultimately show ?thesis
    using o op unconfirmed_repair[OF ok] by (intro exI[of _ q'] exI[of _ ?again] conjI) (auto simp: counted_def)
qed

theorem spool_reopens_witness:
  "(\<exists>q'. spool_run (cut_spool 70) (cut_end 70) None [] [] 0 \<and> disk_open (healed (cut_spool 70)) quiet_config (cut_end 70) = Inr q' \<and>
      waiting (cut_spool 70) q' = [quiet_record]) \<and>
   (\<exists>q'. spool_run (cut_spool 40) (cut_end 40) None [] [] 0 \<and> disk_open (healed (cut_spool 40)) quiet_config (cut_end 40) = Inr q' \<and>
      waiting (cut_spool 40) q' = [])"
proof -
  have again: "xs = []" if "concat xs = []" "list_all (offered quiet_spool) xs" for xs
    using offered_records.chop_records[OF that(2), of "[]"] that(1) by simp
  have w: "waiting (cut_spool n) (cut_end n) = []" if "stream (cut_end n) = []" for n using that by (simp add: waiting_def)
  have "\<not> offered quiet_spool (take 40 quiet_record)"
    using offered_records.cut_record[OF quiet_offered] quiet_record_len by simp
  note run = cut_run[of 70] cut_run[of 40]
  show ?thesis
    using spool_reopens[OF cut_kinds(2) run(1), of quiet_config] spool_reopens[OF cut_kinds(2) run(2), of quiet_config]
      run cut_states w again quiet_offered \<open>\<not> offered quiet_spool (take 40 quiet_record)\<close> by fastforce
qed

text \<open>
  C13. The consumer is not stuck. On a disk that works two turns of the wait loop are enough: when a
  record is waiting, peeking hands out what it says and committing that removes exactly it; when
  none is, the peek parks, or ends once the spool is closed.
\<close>

theorem spool_head_answers:
  assumes e: "env_ok E" and d: "disk_works E" and run: "spool_run E q parked acc got stops" and n: "2 \<le> n"
  shows "case waiting E q of
      [] \<Rightarrow> fst (peek n E q) = (if dq_closed q then Peek_Ended else Peek_Parked)
    | r # rest \<Rightarrow> \<exists>item q1 q2. peek n E q = (Peeked item, q1) \<and> reads E r item \<and>
        commit E q1 = (Some item, q2) \<and> waiting E q2 = rest"
proof -
  obtain k where "n = Suc (Suc k)" using n by (metis Suc_le_D Suc_le_mono numeral_2_eq_2)
  then show ?thesis using head_answers[OF run_spool_ok(1)[OF run e] d, of k] by metis
qed

theorem spool_head_answers_witness:
  "\<exists>q. waiting quiet_spool q = [quiet_record] \<and>
    (\<exists>item q1 q2. peek 2 quiet_spool q = (Peeked item, q1) \<and> reads quiet_spool quiet_record item \<and>
      commit quiet_spool q1 = (Some item, q2) \<and> waiting quiet_spool q2 = [])"
proof -
  obtain q where q: "spool_run quiet_spool q None [quiet_text] [] 0" "waiting quiet_spool q = [quiet_record]" using quiet_pushed by blast
  from spool_head_answers[OF quiet_env_ok quiet_works q(1) order_refl]
  have "\<exists>item q1 q2. peek 2 quiet_spool q = (Peeked item, q1) \<and> reads quiet_spool quiet_record item \<and>
      commit quiet_spool q1 = (Some item, q2) \<and> waiting quiet_spool q2 = []"
    unfolding q(2) list.case .
  then show ?thesis by (intro exI[of _ q] conjI q(2))
qed

text \<open>
  C14. A push is decided within one turn for every record waiting and two more, under every overflow
  policy and whatever the disk does: then the record stands at the end of the queue exactly if the push
  says so, and nothing else has changed in it, except that under \<open>Drop_Oldest\<close>, and only while no item
  is handed out, records at its front may have been evicted for it. A push is parked only under \<open>Block\<close>,
  in a full spool that is open, when the record could fit and records wait that can make room for it:
  never with nothing waiting. On a disk that works a record is refused for no other reason than a full
  spool: one that fits, or finds nothing waiting, is taken, whatever stale bytes the segments hold.
\<close>

theorem push_comes_to_end:
  assumes ok: "spool_ok E (offered E) q" "counted E q" and r: "offered E r" and n: "length (waiting E q) + 2 \<le> n"
  shows "case push_loop n E r events made_room q of (e, q') \<Rightarrow>
    e \<noteq> Push_Unfinished \<and> spool_ok E (offered E) q' \<and> counted E q' \<and> dq_read_ahead q' = dq_read_ahead q \<and>
    (\<exists>k \<le> length (waiting E q). (k = 0 \<or> cf_overflow (dq_config q) = Drop_Oldest \<and> dq_read_ahead q = []) \<and>
       waiting E q' = drop k (waiting E q) @ (if e = Pushed then [r] else [])) \<and>
    (\<forall>b. e = Push_Parked b \<longrightarrow> turned_away E r made_room e q') \<and>
    (disk_works E \<longrightarrow> e = Pushed \<or> turned_away E r made_room e q')"
proof -
  obtain e q' where p: "push_loop n E r events made_room q = (e, q')" by (cases "push_loop n E r events made_room q")
  have "e \<noteq> Push_Unfinished" using offered_records.push_loop_ends[OF ok(1), of made_room n r events] n p by simp
  moreover have "\<forall>b. e = Push_Parked b \<longrightarrow> turned_away E r made_room e q'"
    using offered_records.push_loop_parked[OF ok(1)] p by blast
  ultimately show ?thesis
    using offered_records.push_loop_done[OF ok r, of n events made_room] p
      offered_records.push_loop_turned_away[OF _ ok(1) p] unfolding push_done_def by auto
qed

theorem push_comes_to_end_witness:
  "\<exists>q. counted quiet_spool q \<and> waiting quiet_spool q = [quiet_record] \<and> disk_works quiet_spool \<and>
    (case push_loop 3 quiet_spool quiet_record 0 False q of (e, q') \<Rightarrow>
      e \<noteq> Push_Unfinished \<and> spool_ok quiet_spool (offered quiet_spool) q' \<and> counted quiet_spool q' \<and> dq_read_ahead q' = dq_read_ahead q \<and>
      (\<exists>k \<le> length (waiting quiet_spool q). (k = 0 \<or> cf_overflow (dq_config q) = Drop_Oldest \<and> dq_read_ahead q = []) \<and>
         waiting quiet_spool q' = drop k (waiting quiet_spool q) @ (if e = Pushed then [quiet_record] else [])) \<and>
      (\<forall>b. e = Push_Parked b \<longrightarrow> turned_away quiet_spool quiet_record False e q') \<and>
      (disk_works quiet_spool \<longrightarrow> e = Pushed \<or> turned_away quiet_spool quiet_record False e q'))"
proof -
  obtain q where q: "spool_run quiet_spool q None [quiet_text] [] 0" "waiting quiet_spool q = [quiet_record]" using quiet_pushed by blast
  note ok = run_spool_ok[OF q(1) quiet_env_ok]
  have n: "length (waiting quiet_spool q) + 2 \<le> 3" using q(2) by simp
  show ?thesis
    by (rule exI, rule conjI, rule ok(2), rule conjI, rule q(2), rule conjI, rule quiet_works, rule push_comes_to_end[OF ok quiet_offered n])
qed

text \<open>
  C16. The state of the spool and its files keep in step in every run: the segments ascend and their
  lengths, which sum to the bytes it accounts for, are on the disk in files that hold whole records;
  the read position is within the first; the cursor file is not ahead of it; the reported depth is
  the number of records waiting.
\<close>

theorem spool_state_invariant:
  assumes e: "env_ok E" and run: "spool_run E q parked acc got stops"
  shows "spool_ok E (offered E) q \<and> counted E q \<and> list_all (offered E) (waiting E q) \<and> concat (waiting E q) = stream q \<and>
    dq_total_bytes q = seg_sum (dq_segments q) \<and> dq_read_offset q \<le> seg_len (hd (dq_segments q))"
proof -
  note ok = run_spool_ok[OF run e]
  have "dq_total_bytes q = seg_sum (dq_segments q)" "dq_read_offset q \<le> seg_len (hd (dq_segments q))"
    using ok(1) by (simp_all add: spool_ok_def segments_ok_def cursor_ok_def)
  then show ?thesis using ok offered_records.waiting_concat[OF ok(1)] by blast
qed

theorem spool_state_invariant_witness:
  "\<exists>q item. spool_run quiet_spool q None [quiet_text] [item] 1 \<and>
    (spool_ok quiet_spool (offered quiet_spool) q \<and> counted quiet_spool q \<and> list_all (offered quiet_spool) (waiting quiet_spool q) \<and>
     concat (waiting quiet_spool q) = stream q \<and>
     dq_total_bytes q = seg_sum (dq_segments q) \<and> dq_read_offset q \<le> seg_len (hd (dq_segments q)))"
proof -
  obtain q item where run: "spool_run quiet_spool q None [quiet_text] [item] 1" using quiet_stopped by blast
  show ?thesis by (rule exI, rule exI, rule conjI, rule run, rule spool_state_invariant[OF quiet_env_ok run])
qed

text \<open>
  A record of the spool reads back. Whatever follows it in the segment, a process with any table
  parses exactly its bytes and gets the text, provenance, trace context and number it was written
  with; cut short anywhere, it parses as truncated, and never asks for more than what is missing.
\<close>

theorem spooled_record_round_trip:
  assumes laws: "frame_laws (re_frame R)" and ok: "interner_ok names" "distinct t" "storable R names item"
    and r: "record_bytes R (resolve_str names) z item = Inr r"
  shows "(\<exists>item'. parse_record R t (r @ rest) = Inr (item', length r) \<and> carries names item item') \<and>
    (\<forall>n < length r. \<exists>k. parse_record R t (take n r) = Inl (Truncated k) \<and> 0 < k \<and> k \<le> length r - n)"
  using parse_record_written[OF laws ok r] parse_record_cut[OF laws ok(3) r] by blast

theorem spooled_record_round_trip_witness:
  "(\<exists>item'. parse_record (sv_record quiet_spool) [ [97] ] (quiet_record @ [1, 2]) = Inr (item', length quiet_record) \<and>
      carries [] quiet_item item') \<and>
   (\<exists>k. parse_record (sv_record quiet_spool) [ [97] ] (take 60 quiet_record) = Inl (Truncated k) \<and> 0 < k \<and> k \<le> 10)"
proof -
  have laws: "frame_laws (re_frame (sv_record quiet_spool))" using quiet_env_ok by (simp add: env_ok_def)
  have tables: "interner_ok []" "distinct [ [97 :: u8] ]" by (simp_all add: interner_ok_def)
  note rt = spooled_record_round_trip[OF laws tables quiet_storable quiet_written]
  have "60 < length quiet_record" "length quiet_record - 60 = 10" by (simp_all add: quiet_record_len)
  then show ?thesis using rt[of "[1, 2]"] by metis
qed

end
