(* ===== verification/Sink_Drain.thy ===== *)
theory Sink_Drain
  imports Delivery_Run Spool_Run
begin

text \<open>
  The write loop over a memory store whose input is over, without a shutdown and with a sink of window
  at most 1: it is the plain loop that takes the batches in order and tries each until it is delivered
  or given up, and it ends precisely when the sink settles each batch. Then the properties of
  \<open>write_loop\<close>.
\<close>

section \<open>The plain loop\<close>

text \<open>The attempts at one batch, at most so many; \<open>None\<close> when they were not enough.\<close>

fun send_answers ::
    "nat \<Rightarrow> ('d, 'h, 'o) output_ops \<Rightarrow> delivery_posture \<Rightarrow> (symbol, 'd, 'h) event_batch \<Rightarrow> 'o \<Rightarrow> (answer list \<times> 'o) option" where
  "send_answers 0 ops p batch out = None"
| "send_answers (Suc k) ops p batch out =
     (case op_send ops batch out of
        (Inr _, out) \<Rightarrow> Some ([Answer_Ok], out)
      | (Inl e, out) \<Rightarrow>
          if is_retryable (classify e) p then map_option (apfst (Cons (Answer_Err e))) (send_answers k ops p batch out)
          else Some ([Answer_Err e], out))"

fun settled_as :: "answer \<Rightarrow> settled" where
  "settled_as Answer_Ok = Settled_Delivered"
| "settled_as (Answer_Err e) = Settled_Dropped (classify e)"
| "settled_as Answer_Cut = Settled_Shutdown"

text \<open>The batches one after another.\<close>

fun deliver_each ::
    "nat \<Rightarrow> ('d, 'h, 'o) output_ops \<Rightarrow> delivery_posture \<Rightarrow> ('d, 'h) store_item list \<Rightarrow> 'o \<Rightarrow>
     (('d, 'h) store_item call list \<times> 'o) option" where
  "deliver_each k ops p [] out = Some ([], out)"
| "deliver_each k ops p ((batch, ctx, seq) # items) out =
     (case send_answers k ops p batch (op_observe_batch ops ctx seq out) of
        None \<Rightarrow> None
      | Some (answers, out) \<Rightarrow>
          map_option (apfst (\<lambda>cs. Call_Observe (batch, ctx, seq) # map (Call_Send (batch, ctx, seq)) answers @
              Call_Commit (Some (batch, ctx, seq)) (settled_as (last answers)) # cs))
            (deliver_each k ops p items out))"

section \<open>At rest\<close>

text \<open>The store holds so many batches and no more will come.\<close>

definition holds_last :: "('d, 'h) store_item list \<Rightarrow> ('d, 'h) sink_store \<Rightarrow> bool" where
  "holds_last xs st \<longleftrightarrow> (\<exists>m. st = Store_Memory m \<and> bq_closed (mq_queue m) \<and> queue_contents (mq_queue m) = xs)"

definition resting :: "('d, 'h) store_item list \<Rightarrow> ('d, 'h, 'o) sink_run \<Rightarrow> bool" where
  "resting xs s \<longleftrightarrow> holds_last xs (sr_store s) \<and> sr_drain s = Drain_Over \<and> sr_deadline s = None \<and>
     ws_outstanding (sr_window s) = 0 \<and> ws_observed (sr_window s) = 0"

definition undisturbed_sink :: "('d, 'h, 'o) run_env \<Rightarrow> bool" where
  "undisturbed_sink W \<longleftrightarrow> (\<forall>k. \<not> rn_signal W k) \<and> (\<forall>out. op_window (rn_ops W) out \<le> 1)"

lemma holds_last_limit [simp]: "holds_last xs (on_send_limit f st) = holds_last xs st"
  by (cases st) (auto simp: holds_last_def on_send_limit_def on_watch_def)

lemma holds_last_peek:
  "holds_last (x # xs) st \<Longrightarrow> \<exists>st'. store_peek T st = (Taken x, st') \<and> holds_last (x # xs) st'"
  "holds_last [] st \<Longrightarrow> \<exists>st'. store_peek T st = (Take_Ended, st')"
  by (auto simp: holds_last_def store_peek_def queue_peek_def queue_peek_at_def buffer_peek_at_def)

lemma holds_last_commit: "holds_last (x # xs) st \<Longrightarrow> \<exists>st'. store_commit T now st = (Some x, st') \<and> holds_last xs st'"
  by (auto simp: holds_last_def store_commit_def queue_commit_def buffer_commit_def consumed_def update_gauges_def Let_def
      on_watch_def bq_emit_def split: prod.splits)

lemma drain_over: "sr_drain s = Drain_Over \<Longrightarrow> (drain_turn W ^^ n) s = s"
  by (induction n) (simp_all add: drain_turn_def)

text \<open>What one step of a resting run came to.\<close>

definition rests :: "('d, 'h) store_item list \<Rightarrow> 'o \<Rightarrow> ('d, 'h) store_item call list \<Rightarrow> ('d, 'h, 'o) sink_run \<Rightarrow> bool" where
  "rests xs out cs s \<longleftrightarrow> resting xs s \<and> sr_output s = out \<and> calls (sr_log s) = cs"

lemma rests_simps [simp]:
  "rests xs out cs (set_limit n k s) = rests xs out cs s" "rests xs out cs (limit_answered n s) = rests xs out cs s"
  "rests xs out cs (s\<lparr>sr_sending := b\<rparr>) = rests xs out cs s" "rests xs out cs (s\<lparr>sr_degraded := b\<rparr>) = rests xs out cs s"
  "rests xs out cs (s\<lparr>sr_retrying := t\<rparr>) = rests xs out cs s"
  "calls ys = [] \<Longrightarrow> rests xs out cs (wl_emit ys s) = rests xs out cs s"
  by (simp_all add: rests_def resting_def set_limit_def limit_answered_def wl_emit_def)

lemma rests_window: "rests xs out cs s \<Longrightarrow> rests xs out cs (on_window settle_head s)" "rests xs out cs s \<Longrightarrow> rests xs out cs (on_window lower_observed s)"
  by (simp_all add: rests_def resting_def on_window_def lower_observed_def)

lemma rests_retry:
  "rests xs out cs (retry_settle s) = rests xs out cs s" "rests xs out cs (retry_failed W fault s) = rests xs out cs s"
  by (simp_all add: retry_settle_def retry_failed_def Let_def)

lemma pend_rests:
  assumes "undisturbed_sink W" and "rests xs out cs s"
  shows "\<exists>s'. pend W g s = (False, s') \<and> rests xs out cs s'"
  using assms by (auto simp: pend_def Let_def rests_def resting_def drain_over undisturbed_sink_def poll_grace_def grace_over_def)

lemma send_attempt_rests:
  assumes u: "undisturbed_sink W" and s: "rests xs out cs s" and r: "op_send (rn_ops W) (fst item) out = (r, out')"
  shows "\<exists>s'. send_attempt W item s = (answer_of r, s') \<and> rests xs out' (cs @ [Call_Send item (answer_of r)]) s'"
proof -
  let ?s = "set_limit 1 1 (s\<lparr>sr_sending := True\<rparr>)"
  have "rests xs out cs ?s" using s by simp
  from pend_rests[OF u this] obtain s1 where p: "pend W True ?s = (False, s1)" and s1: "rests xs out cs s1" by blast
  then have "call_send W item ?s = (answer_of r, wl_emit [Wl_Send item (answer_of r)] (s1\<lparr>sr_output := out'\<rparr>))" (is "_ = (_, ?s2)")
    using r by (simp add: call_send_def call_sink_def rests_def)
  moreover have "rests xs out' (cs @ [Call_Send item (answer_of r)]) ?s2" using s1 by (simp add: rests_def resting_def wl_emit_def)
  moreover have "answer_of r \<noteq> Answer_Cut" by (cases r) (simp_all add: answer_of_def)
  ultimately show ?thesis by (simp add: send_attempt_def Let_def)
qed

lemma deliver_with_retry_rests:
  "undisturbed_sink W \<Longrightarrow> rests xs out cs s \<Longrightarrow> k \<le> n \<Longrightarrow> send_answers k (rn_ops W) p (fst item) out = Some (answers, out') \<Longrightarrow>
   \<exists>v s'. deliver_with_retry n W p item attempt s = (Came v, s') \<and> rests xs out' (cs @ map (Call_Send item) answers) s' \<and> answers \<noteq> [] \<and>
     (v = Delivery_Delivered \<and> last answers = Answer_Ok \<or> (\<exists>e. v = Delivery_Dropped (classify e) e \<and> last answers = Answer_Err e))"
proof (induction k arbitrary: n attempt s out cs answers)
  case (Suc k)
  then obtain m where n: "n = Suc m" "k \<le> m" by (cases n) auto
  obtain r out1 where r: "op_send (rn_ops W) (fst item) out = (r, out1)" by fastforce
  from send_attempt_rests[OF Suc.prems(1,2) r] obtain s1 where a: "send_attempt W item s = (answer_of r, s1)"
    and s1: "rests xs out1 (cs @ [Call_Send item (answer_of r)]) s1" by blast
  have g: "\<not> grace_over W s" using Suc.prems(2) by (simp add: rests_def resting_def grace_over_def)
  show ?case
  proof (cases r)
    case (Inr u)
    then show ?thesis using Suc.prems(4) r a s1 g by (auto simp: n answer_of_def)
  next
    case (Inl e)
    then have s1: "rests xs out1 (cs @ [Call_Send item (Answer_Err e)]) s1" and a: "send_attempt W item s = (Answer_Err e, s1)"
      using s1 a by (simp_all add: answer_of_def)
    show ?thesis
    proof (cases "is_retryable (classify e) p")
      case False
      then show ?thesis using Suc.prems(4) r a s1 g Inl by (auto simp: n after_fault_def Let_def)
    next
      case True
      then obtain rest where rest: "send_answers k (rn_ops W) p (fst item) out1 = Some (rest, out')" "answers = Answer_Err e # rest"
        using Suc.prems(4) r Inl by auto
      let ?s2 = "wl_emit [Wl_Count ''logit.component.retries'' 1 []] (retry_failed W (classify e) (wl_emit [Wl_Count ''logit.component.errors'' 1 []] s1))"
      let ?next = "min (attempt + 1) U32_MAX"
      have "rests xs out1 (cs @ [Call_Send item (Answer_Err e)]) (wl_emit [Wl_Backoff (backoff_for (rn_config W) ?next)] ?s2)"
        using s1 by (simp add: rests_retry)
      from pend_rests[OF Suc.prems(1) this] obtain s3 where b: "back_off W True ?next ?s2 = (False, s3)"
        and s3: "rests xs out1 (cs @ [Call_Send item (Answer_Err e)]) s3" unfolding back_off_def by blast
      have "deliver_with_retry n W p item attempt s = deliver_with_retry m W p item ?next s3"
        using g a b True by (simp add: n after_fault_def Let_def)
      then show ?thesis using Suc.IH[OF Suc.prems(1) s3 n(2) rest(1), of ?next] rest(2) by auto
    qed
  qed
qed simp

text \<open>More attempts than were needed change nothing; too few leave the loop running.\<close>

lemma send_answers_more: "send_answers k ops p batch out = Some y \<Longrightarrow> k \<le> k' \<Longrightarrow> send_answers k' ops p batch out = Some y"
proof (induction k arbitrary: k' out y)
  case (Suc k)
  then obtain j where j: "k' = Suc j" "k \<le> j" by (cases k') auto
  obtain r out1 where r: "op_send ops batch out = (r, out1)" by fastforce
  show ?case
  proof (cases "\<exists>e. r = Inl e \<and> is_retryable (classify e) p")
    case True
    then obtain z where "send_answers k ops p batch out1 = Some z" using Suc.prems(1) r by auto
    from Suc.IH[OF this j(2)] this show ?thesis using Suc.prems(1) r True j(1) by auto
  next
    case False
    then show ?thesis using Suc.prems(1) r j(1) by (cases r) auto
  qed
qed simp

lemma deliver_each_more: "deliver_each k ops p xs out = Some y \<Longrightarrow> k \<le> k' \<Longrightarrow> deliver_each k' ops p xs out = Some y"
proof (induction k ops p xs out arbitrary: y rule: deliver_each.induct)
  case (2 k ops p batch ctx seq items out)
  from 2(2) obtain answers out1 z where a: "send_answers k ops p batch (op_observe_batch ops ctx seq out) = Some (answers, out1)"
    "deliver_each k ops p items out1 = Some z" by (auto split: option.splits)
  from 2(1)[OF a(1) refl a(2) 2(3)] send_answers_more[OF a(1) 2(3)] a show ?case using 2(2) by simp
qed simp

lemma deliver_with_retry_waits:
  "undisturbed_sink W \<Longrightarrow> rests xs out cs s \<Longrightarrow> send_answers n (rn_ops W) p (fst item) out = None \<Longrightarrow>
   \<exists>s'. deliver_with_retry n W p item attempt s = (Still_Running, s')"
proof (induction n arbitrary: attempt s out cs)
  case (Suc n)
  obtain r out1 where r: "op_send (rn_ops W) (fst item) out = (r, out1)" by fastforce
  then obtain e where e: "r = Inl e" "is_retryable (classify e) p" "send_answers n (rn_ops W) p (fst item) out1 = None"
    using Suc.prems(3) by (cases r) (auto split: if_splits)
  from send_attempt_rests[OF Suc.prems(1,2) r] e(1) obtain s1 where a: "send_attempt W item s = (Answer_Err e, s1)"
    and s1: "rests xs out1 (cs @ [Call_Send item (Answer_Err e)]) s1" by (auto simp: answer_of_def)
  have g: "\<not> grace_over W s" using Suc.prems(2) by (simp add: rests_def resting_def grace_over_def)
  let ?s2 = "wl_emit [Wl_Count ''logit.component.retries'' 1 []] (retry_failed W (classify e) (wl_emit [Wl_Count ''logit.component.errors'' 1 []] s1))"
  let ?next = "min (attempt + 1) U32_MAX"
  have "rests xs out1 (cs @ [Call_Send item (Answer_Err e)]) (wl_emit [Wl_Backoff (backoff_for (rn_config W) ?next)] ?s2)"
    using s1 by (simp add: rests_retry)
  from pend_rests[OF Suc.prems(1) this] obtain s3 where b: "back_off W True ?next ?s2 = (False, s3)"
    and s3: "rests xs out1 (cs @ [Call_Send item (Answer_Err e)]) s3" unfolding back_off_def by blast
  have "deliver_with_retry (Suc n) W p item attempt s = deliver_with_retry n W p item ?next s3"
    using g a b e(2) by (simp add: after_fault_def Let_def)
  then show ?case using Suc.IH[OF Suc.prems(1) s3 e(3)] by simp
qed simp

lemma commit_rests:
  assumes "rests (x # xs) out cs s"
  shows "\<exists>s'. commit_as W why s = (Some x, s') \<and> rests xs out (cs @ [Call_Commit (Some x) why]) s'"
proof -
  have "holds_last (x # xs) (sr_store s)" using assms by (simp add: rests_def resting_def)
  from holds_last_commit[OF this] obtain st where "store_commit (rn_store W) (wl_now W s) (sr_store s) = (Some x, st)" "holds_last xs st" by blast
  then show ?thesis using assms by (simp add: commit_as_def rests_def resting_def wl_emit_def)
qed

lemma settle_rests:
  assumes s: "rests (x # xs) out cs s"
  shows "rests xs out (cs @ [Call_Commit (Some x) Settled_Delivered]) (settle_delivered W x s)"
    "rests xs out (cs @ [Call_Commit (Some x) (Settled_Dropped fault)]) (settle_dropped W p x True fault e s)"
proof -
  obtain s1 where c: "commit_as W Settled_Delivered s = (Some x, s1)" and s1: "rests xs out (cs @ [Call_Commit (Some x) Settled_Delivered]) s1"
    using commit_rests[OF s] by blast
  have "rests xs out (cs @ [Call_Commit (Some x) Settled_Delivered]) (on_window (\<lambda>w. lower_observed (settle_head w)) s1)"
    using rests_window(2)[OF rests_window(1)[OF s1]] by (simp add: on_window_def)
  then show "rests xs out (cs @ [Call_Commit (Some x) Settled_Delivered]) (settle_delivered W x s)"
    by (simp add: settle_delivered_def c Let_def rests_retry)
  have "rests (x # xs) out cs (on_window settle_head (retry_settle s))" using s by (intro rests_window) (simp add: rests_retry)
  from commit_rests[OF this] obtain s2 where c2: "commit_as W (Settled_Dropped fault) (on_window settle_head (retry_settle s)) = (Some x, s2)"
    and s2: "rests xs out (cs @ [Call_Commit (Some x) (Settled_Dropped fault)]) s2" by blast
  show "rests xs out (cs @ [Call_Commit (Some x) (Settled_Dropped fault)]) (settle_dropped W p x True fault e s)"
    using rests_window(2)[OF s2] by (simp add: settle_dropped_def c2 Let_def) (simp add: on_window_def)
qed

lemma loop_turn_rests:
  assumes u: "undisturbed_sink W" and p: "pend W (\<not> owed_round W s) s = (False, s1)" and s1: "rests ((batch, ctx, seq) # xs) out cs s1"
    and k: "k \<le> n"
    and a: "send_answers k (rn_ops W) p batch (op_observe_batch (rn_ops W) ctx seq out) = Some (answers, out')"
  shows "\<exists>s'. loop_turn n W p s = (Came True, s') \<and>
    rests xs out' (cs @ Call_Observe (batch, ctx, seq) # map (Call_Send (batch, ctx, seq)) answers @
      [Call_Commit (Some (batch, ctx, seq)) (settled_as (last answers))]) s'"
proof -
  let ?x = "(batch, ctx, seq)"
  obtain st where st: "store_peek (rn_store W) (sr_store s1) = (Taken ?x, st)" "holds_last (?x # xs) st"
    using s1 holds_last_peek(1) unfolding rests_def resting_def by blast
  let ?s2 = "s1\<lparr>sr_store := st, sr_sending := False\<rparr>"
  have fast: "takes_send W ?s2" using s1 u by (simp add: takes_send_def rests_def resting_def undisturbed_sink_def)
  have "rests (?x # xs) (op_observe_batch (rn_ops W) ctx seq out) (cs @ [Call_Observe ?x]) (observe W ?x ?s2)"
    using s1 st(2) by (simp add: rests_def resting_def observe_def wl_emit_def)
  from deliver_with_retry_rests[OF u this k, of p ?x answers out' 0] a
  obtain v s3 where v: "deliver_with_retry n W p ?x 0 (observe W ?x ?s2) = (Came v, s3)"
    and s3: "rests (?x # xs) out' ((cs @ [Call_Observe ?x]) @ map (Call_Send ?x) answers) s3"
    and l: "v = Delivery_Delivered \<and> last answers = Answer_Ok \<or> (\<exists>e. v = Delivery_Dropped (classify e) e \<and> last answers = Answer_Err e)" by auto
  have t: "loop_turn n W p s = (case v of Delivery_Delivered \<Rightarrow> (Came True, settle_delivered W ?x s3)
      | Delivery_Dropped fault e \<Rightarrow> (Came True, settle_dropped W p ?x True fault e s3)
      | Delivery_Grace_Expired \<Rightarrow> (Came False, cut_off_at W p (ws_outstanding (sr_window s3)) s3))"
    using p st v fast by (simp add: loop_turn_def head_turn_def deliver_head_def split: delivery.split)
  from l show ?thesis using settle_rests[OF s3] t by auto
qed

lemma loop_turns_rests:
  "undisturbed_sink W \<Longrightarrow> pend W (\<not> owed_round W s) s = (False, s1) \<Longrightarrow> rests xs out cs s1 \<Longrightarrow> length xs + k < n \<Longrightarrow> deliver_each k (rn_ops W) p xs out = Some (cs', out') \<Longrightarrow>
   \<exists>s'. loop_turns n W p s = (Came (), s') \<and> calls (sr_log s') = cs @ cs' \<and> sr_output s' = out'"
proof (induction k "rn_ops W" p xs out arbitrary: s s1 cs cs' n rule: deliver_each.induct)
  case (1 k p out)
  then obtain m where n: "n = Suc m" by (cases n) auto
  obtain st where "store_peek (rn_store W) (sr_store s1) = (Take_Ended, st)" using 1(3) holds_last_peek(2) unfolding rests_def resting_def by blast
  then show ?case using 1(2,3,5) by (simp add: n loop_turn_def rests_def)
next
  case (2 k p batch ctx seq items out)
  from 2(5) obtain m where n: "n = Suc m" "k \<le> m" "length items + k < m" by (cases n) auto
  from 2(6) obtain answers out1 cs1 where a: "send_answers k (rn_ops W) p batch (op_observe_batch (rn_ops W) ctx seq out) = Some (answers, out1)"
    "deliver_each k (rn_ops W) p items out1 = Some (cs1, out')"
    "cs' = Call_Observe (batch, ctx, seq) # map (Call_Send (batch, ctx, seq)) answers @ Call_Commit (Some (batch, ctx, seq)) (settled_as (last answers)) # cs1"
    by (auto split: option.splits)
  from loop_turn_rests[OF 2(2-4) n(2) a(1)] obtain s2 where t: "loop_turn m W p s = (Came True, s2)"
    and s2: "rests items out1 (cs @ Call_Observe (batch, ctx, seq) # map (Call_Send (batch, ctx, seq)) answers @
      [Call_Commit (Some (batch, ctx, seq)) (settled_as (last answers))]) s2" by blast
  from pend_rests[OF 2(2) s2] obtain s3 where s3: "pend W (\<not> owed_round W s2) s2 = (False, s3)"
    "rests items out1 (cs @ Call_Observe (batch, ctx, seq) # map (Call_Send (batch, ctx, seq)) answers @
      [Call_Commit (Some (batch, ctx, seq)) (settled_as (last answers))]) s3" by blast
  from 2(1)[OF a(1) refl 2(2) s3 n(3) a(2)] show ?case using t a(3) by (simp add: n)
qed

lemma loop_turn_waits:
  assumes u: "undisturbed_sink W" and p: "pend W (\<not> owed_round W s) s = (False, s1)" and s1: "rests ((batch, ctx, seq) # xs) out cs s1"
    and a: "send_answers n (rn_ops W) p batch (op_observe_batch (rn_ops W) ctx seq out) = None"
  shows "\<exists>s'. loop_turn n W p s = (Still_Running, s')"
proof -
  let ?x = "(batch, ctx, seq)"
  obtain st where st: "store_peek (rn_store W) (sr_store s1) = (Taken ?x, st)" "holds_last (?x # xs) st"
    using s1 holds_last_peek(1) unfolding rests_def resting_def by blast
  let ?s2 = "s1\<lparr>sr_store := st, sr_sending := False\<rparr>"
  have fast: "takes_send W ?s2" using s1 u by (simp add: takes_send_def rests_def resting_def undisturbed_sink_def)
  have "rests (?x # xs) (op_observe_batch (rn_ops W) ctx seq out) (cs @ [Call_Observe ?x]) (observe W ?x ?s2)"
    using s1 st(2) by (simp add: rests_def resting_def observe_def wl_emit_def)
  from deliver_with_retry_waits[OF u this, of n p ?x 0] a show ?thesis
    using p st fast by (auto simp: loop_turn_def head_turn_def deliver_head_def)
qed

lemma loop_turns_returned:
  "undisturbed_sink W \<Longrightarrow> pend W (\<not> owed_round W s) s = (False, s1) \<Longrightarrow> rests xs out cs s1 \<Longrightarrow> loop_turns n W p s = (Came (), s') \<Longrightarrow>
   \<exists>cs'. deliver_each n (rn_ops W) p xs out = Some (cs', sr_output s') \<and> calls (sr_log s') = cs @ cs'"
proof (induction n arbitrary: s s1 xs out cs)
  case (Suc n)
  show ?case
  proof (cases xs)
    case Nil
    obtain st where "store_peek (rn_store W) (sr_store s1) = (Take_Ended, st)"
      using Suc.prems(3) Nil holds_last_peek(2) unfolding rests_def resting_def by blast
    then show ?thesis using Suc.prems(2-4) Nil by (auto simp: loop_turn_def rests_def)
  next
    case (Cons x items)
    obtain batch ctx seq where x: "x = (batch, ctx, seq)" by (cases x) auto
    note s1 = Suc.prems(3)[unfolded Cons x]
    obtain answers out1 where a: "send_answers n (rn_ops W) p batch (op_observe_batch (rn_ops W) ctx seq out) = Some (answers, out1)"
      using loop_turn_waits[OF Suc.prems(1,2) s1, of n p] Suc.prems(4) by (cases "send_answers n (rn_ops W) p batch (op_observe_batch (rn_ops W) ctx seq out)") auto
    from loop_turn_rests[OF Suc.prems(1,2) s1 order_refl a] obtain s2 where t: "loop_turn n W p s = (Came True, s2)"
      and s2: "rests items out1 (cs @ Call_Observe x # map (Call_Send x) answers @ [Call_Commit (Some x) (settled_as (last answers))]) s2"
      unfolding x by blast
    from pend_rests[OF Suc.prems(1) s2] obtain s3 where s3: "pend W (\<not> owed_round W s2) s2 = (False, s3)"
      "rests items out1 (cs @ Call_Observe x # map (Call_Send x) answers @ [Call_Commit (Some x) (settled_as (last answers))]) s3" by blast
    have "loop_turns n W p s2 = (Came (), s')" using Suc.prems(4) t by simp
    from Suc.IH[OF Suc.prems(1) s3 this] obtain cs1 where d: "deliver_each n (rn_ops W) p items out1 = Some (cs1, sr_output s')"
      "calls (sr_log s') = (cs @ Call_Observe x # map (Call_Send x) answers @ [Call_Commit (Some x) (settled_as (last answers))]) @ cs1" by blast
    have "deliver_each (Suc n) (rn_ops W) p items out1 = Some (cs1, sr_output s')" using d(1) by (rule deliver_each_more) simp
    moreover have "send_answers (Suc n) (rn_ops W) p batch (op_observe_batch (rn_ops W) ctx seq out) = Some (answers, out1)"
      using a by (rule send_answers_more) simp
    ultimately show ?thesis using d(2) by (simp add: Cons x del: send_answers.simps)
  qed
qed simp

section \<open>Backing off\<close>

lemma double_backoff_power:
  assumes "most \<le> DURATION_MAX" shows "min (double_backoff n most b) most = min (b * 2 ^ n) most"
proof (induction n arbitrary: b)
  case (Suc n)
  show ?case
  proof (cases "b \<ge> most")
    case True
    then have "b * 2 ^ Suc n \<ge> most" using mult_le_mono[of most b 1 "2 ^ Suc n"] by simp
    then show ?thesis using True by simp
  next
    case False
    show ?thesis
    proof (cases "2 * b \<le> DURATION_MAX")
      case True
      then show ?thesis using False Suc.IH[of "2 * b"] by (simp add: ac_simps)
    next
      case big: False
      have "most \<le> DURATION_MAX * 2 ^ n" using assms mult_le_mono[of most DURATION_MAX 1 "2 ^ n"] by simp
      moreover have "most \<le> b * 2 ^ Suc n" using assms big mult_le_mono[of most "2 * b" 1 "2 ^ n"] by (simp add: ac_simps)
      ultimately show ?thesis using False big Suc.IH[of DURATION_MAX] by simp
    qed
  qed
qed simp

lemma double_backoff_enough:
  assumes "most \<le> DURATION_MAX" shows "min (b * 2 ^ min n 128) most = min (b * 2 ^ n) most"
proof (cases "n \<le> 128 \<or> b = 0")
  case False
  have "most \<le> 2 ^ 128" using assms by (simp add: DURATION_MAX_def)
  also have "(2 :: nat) ^ 128 \<le> b * 2 ^ 128" using False by simp
  finally have low: "most \<le> b * 2 ^ 128" .
  also have "b * 2 ^ 128 \<le> b * 2 ^ n" using False by (intro mult_le_mono2 power_increasing) simp_all
  finally show ?thesis using low False by (simp add: min_def)
qed auto

section \<open>A sink and a run\<close>

text \<open>A sink whose first attempt fails with its outcome unknown, and two batches for it.\<close>

definition quiet_store :: "(unit, unit) store_env" where
  "quiet_store =
     \<lparr>st_spool = quiet_spool, st_floats = zero_floats, st_weigh = \<lambda>_. 1, st_turns = 10, st_pressure = \<lambda>_. False,
      st_identity = replicate 16 3\<rparr>"

definition quiet_memory :: sink_queue_config where
  "quiet_memory = \<lparr>sc_max_batches = 4, sc_max_bytes = 100, sc_overflow = Block, sc_recover_below = 0\<rparr>"

definition lost_answer :: send_error where "lost_answer = with_fault Ambiguous []"

definition faulty_sink :: "(unit, unit, nat) output_ops" where
  "faulty_sink =
     \<lparr>op_send = \<lambda>_ n. (if n = 0 then Inl lost_answer else Inr (), n + 1), op_observe_batch = \<lambda>_ _ n. n, op_window = \<lambda>_. 1,
      op_collecting = \<lambda>_. None, op_reached_destination = \<lambda>k _. k, op_send_duration_per_batch = \<lambda>_. False,
      op_answered_send_duration = \<lambda>_. None, op_submit = \<lambda>_ _ _ n. (Inr (), n), op_await_ack = \<lambda>n. (Inr (), n),
      op_flush = \<lambda>n. (Inr (), n), op_default_posture = \<lambda>_. At_Least_Once, op_observe_posture = \<lambda>_ n. n, op_send_cut = \<lambda>_ n. n,
      op_submit_cut = \<lambda>_ _ _ n. n, op_await_ack_cut = \<lambda>n. n\<rparr>"

definition two_batches :: "delivery_posture option \<Rightarrow> (unit, unit, nat) run_env" where
  "two_batches posture =
     \<lparr>rn_store = quiet_store, rn_ops = faulty_sink,
      rn_config = \<lparr>wc_base_delay = 1, wc_max_delay = 8, wc_shutdown_grace = 5, wc_delivery_override = posture,
        wc_retrying_log_interval = 10, wc_window_max_bytes = 100\<rparr>,
      rn_now = \<lambda>k. k, rn_arrives = \<lambda>k. if k = 0 then [Owned quiet_batch no_context, Shared quiet_batch no_context] else [],
      rn_hangs_up = \<lambda>_. True, rn_drains = \<lambda>_. 3, rn_signal = \<lambda>_. False, rn_grace_polled = \<lambda>_. True, rn_pending = \<lambda>_. True,
      rn_signal_first = \<lambda>_. True\<rparr>"

definition quiet_numbered :: "u64 \<Rightarrow> (unit, unit) store_item" where
  "quiet_numbered n = (quiet_batch, no_context, \<lparr>sq_id = replicate 16 3, sq_seq = n\<rparr>)"

definition quiet_start :: "(unit, unit) sink_store" where
  "quiet_start = Store_Memory (sink_queue_new quiet_store quiet_memory)"

lemma quiet_opens: "store_open (rn_store (two_batches p)) (Memory_Config quiet_memory) = Inr quiet_start"
  by (simp add: store_open_def two_batches_def quiet_start_def)

lemma quiet_reaches: "reaches_at_most (rn_ops (two_batches p))"
  by (simp add: reaches_at_most_def two_batches_def faulty_sink_def)

definition stocked :: "(unit, unit) store_item list \<Rightarrow> u64 \<Rightarrow> (unit, unit) sink_store \<Rightarrow> bool" where
  "stocked xs n st \<longleftrightarrow> (\<exists>m. st = Store_Memory m \<and> mq_id m = replicate 16 3 \<and> mq_next m = n \<and> \<not> bq_closed (mq_queue m) \<and>
     bq_max_items (mq_queue m) = 4 \<and> bq_max_weight (mq_queue m) = 100 \<and> mb_items (bq_inner (mq_queue m)) = map (\<lambda>x. (x, 1)) xs \<and>
     mb_weight (bq_inner (mq_queue m)) = length xs \<and> mb_max_len (bq_inner (mq_queue m)) = 4 \<and> mb_max_weight (bq_inner (mq_queue m)) = 100)"

lemma stocked_start: "stocked [] 1 quiet_start"
  by (simp add: stocked_def quiet_start_def sink_queue_new_def with_metrics_def into_queue_config_def buffer_new_def quiet_memory_def quiet_store_def)

lemma stocked_push:
  assumes "stocked xs n st" and "length xs < 4"
  shows "\<exists>st'. store_push quiet_store now (quiet_batch, no_context) st = (Push_Done, st') \<and> stocked (xs @ [quiet_numbered n]) (n + 1) st'"
  using assms by (auto simp: stocked_def store_push_def store_push_turn_def number_batch_def queue_push_def must_wait_def queue_would_overflow_def
      buffer_push_def buffer_would_overflow_def append_item_def update_gauges_def drop_waiting_def quiet_store_def batch_queued_def
      saturating_add_def USIZE_MAX_def Let_def quiet_numbered_def on_watch_def bq_emit_def)

lemma stocked_close: "stocked xs n st \<Longrightarrow> holds_last xs (store_close st)"
  by (auto simp: stocked_def holds_last_def store_close_def queue_close_def comp_def)

lemma two_batches_pend:
  "\<exists>s1. pend (two_batches p) True (sink_start 0 quiet_start) = (False, s1) \<and> rests [quiet_numbered 1, quiet_numbered 2] 0 [] s1"
proof -
  let ?W = "two_batches p" and ?a = "Owned quiet_batch no_context :: (unit, unit) delivered" and ?b = "Shared quiet_batch no_context :: (unit, unit) delivered"
  define s0 where "s0 = (sink_start (0 :: nat) quiet_start)\<lparr>sr_inbox := [?a, ?b], sr_hung_up := True\<rparr>"
  have W: "rn_store ?W = quiet_store" by (simp add: two_batches_def)
  obtain st1 where st1: "store_push quiet_store (wl_now ?W s0) (quiet_batch, no_context) quiet_start = (Push_Done, st1)" "stocked [quiet_numbered 1] 2 st1"
    using stocked_push[OF stocked_start] by auto
  define s1 where "s1 = drain_turn ?W s0"
  have s1: "sr_store s1 = st1" "sr_drain s1 = Drain_Idle" "sr_inbox s1 = [?b]" "sr_hung_up s1" "sr_output s1 = 0" "sr_clock s1 = 0" "calls (sr_log s1) = []"
      "sr_window s1 = window_default" "sr_deadline s1 = None"
    using st1 by (simp_all add: s1_def drain_turn_def s0_def sink_start_def after_push_def wl_emit_def wl_now_def W count_received_def)
  obtain st2 where st2: "store_push quiet_store (wl_now ?W s1) (quiet_batch, no_context) st1 = (Push_Done, st2)"
      "stocked [quiet_numbered 1, quiet_numbered 2] 3 st2"
    using stocked_push[OF st1(2)] by auto
  define s2 where "s2 = drain_turn ?W s1"
  have s2: "sr_store s2 = st2" "sr_drain s2 = Drain_Idle" "sr_inbox s2 = []" "sr_hung_up s2" "sr_output s2 = 0" "sr_clock s2 = 0" "calls (sr_log s2) = []"
      "sr_window s2 = window_default" "sr_deadline s2 = None"
    using st2 s1 by (simp_all add: s2_def drain_turn_def after_push_def wl_emit_def wl_now_def W count_received_def)
  define s3 where "s3 = drain_turn ?W s2"
  have s3: "rests [quiet_numbered 1, quiet_numbered 2] 0 [] s3" "sr_deadline s3 = None"
    using stocked_close[OF st2(2)] s2 by (simp_all add: s3_def drain_turn_def rests_def resting_def window_default_def)
  have three: "(drain_turn ?W ^^ 3) s0 = s3" by (simp add: s3_def s2_def s1_def eval_nat_numeral)
  have "pend ?W True (sink_start 0 quiet_start) = (False, s3\<lparr>sr_clock := 1\<rparr>)"
    using three s3(2) unfolding s0_def
    by (simp add: pend_def Let_def two_batches_def sink_start_def poll_grace_def grace_over_def)
  moreover have "rests [quiet_numbered 1, quiet_numbered 2] 0 [] (s3\<lparr>sr_clock := 1\<rparr>)" using s3 by (simp add: rests_def resting_def)
  ultimately show ?thesis by blast
qed

text \<open>Under at-most-once the first batch is given up and the second delivered; under at-least-once both are delivered.\<close>

definition quiet_calls :: "(unit, unit) store_item call list" where
  "quiet_calls = [Call_Observe (quiet_numbered 1), Call_Send (quiet_numbered 1) (Answer_Err lost_answer),
     Call_Commit (Some (quiet_numbered 1)) (Settled_Dropped Ambiguous), Call_Observe (quiet_numbered 2), Call_Send (quiet_numbered 2) Answer_Ok,
     Call_Commit (Some (quiet_numbered 2)) Settled_Delivered]"

lemma two_batches_run:
  "\<exists>s. write_loop 6 (two_batches (Some At_Most_Once)) (sink_start 0 quiet_start) = (Came (), s) \<and> calls (sr_log s) = quiet_calls"
proof -
  let ?W = "two_batches (Some At_Most_Once)"
  obtain s1 where p: "pend ?W True (sink_start 0 quiet_start) = (False, s1)" and s1: "rests [quiet_numbered 1, quiet_numbered 2] 0 [] s1"
    using two_batches_pend by blast
  have u: "undisturbed_sink ?W" by (simp add: undisturbed_sink_def two_batches_def faulty_sink_def)
  have p: "pend ?W (\<not> owed_round ?W (sink_start 0 quiet_start)) (sink_start 0 quiet_start) = (False, s1)"
    using p by (simp add: owed_round_def sink_start_def window_default_def)
  have "deliver_each 1 (rn_ops ?W) At_Most_Once [quiet_numbered 1, quiet_numbered 2] 0 = Some (quiet_calls, 2)"
    by (simp add: quiet_numbered_def quiet_calls_def two_batches_def faulty_sink_def lost_answer_def with_fault_def classify_def)
  from loop_turns_rests[OF u p s1 _ this, of 6] obtain s where
    s: "loop_turns 6 ?W At_Most_Once (sink_start 0 quiet_start) = (Came (), s)" "calls (sr_log s) = quiet_calls" by auto
  have c: "calls (sr_log (retry_settle s)) = quiet_calls" using s(2) by (simp add: retry_settle_def wl_emit_def)
  have "write_loop 6 ?W (sink_start 0 quiet_start) = (Came (), retry_settle s)"
    using s(1) by (simp add: write_loop_def resolve_posture_def two_batches_def faulty_sink_def sink_start_def)
  then show ?thesis using c by blast
qed

text \<open>A run whose input is over, with so many batches in its store.\<close>

definition quiet_rest :: "(unit, unit) store_item list \<Rightarrow> (unit, unit, nat) sink_run" where
  "quiet_rest xs =
     (let m = sink_queue_new quiet_store quiet_memory; b = (bq_inner (mq_queue m))\<lparr>mb_items := map (\<lambda>x. (x, 1)) xs, mb_weight := length xs\<rparr>
      in (sink_start 0 (Store_Memory (m\<lparr>mq_queue := (mq_queue m)\<lparr>bq_inner := b, bq_closed := True\<rparr>\<rparr>)))\<lparr>sr_drain := Drain_Over\<rparr>)"

lemma quiet_rest_resting: "resting xs (quiet_rest xs)"
  by (simp add: resting_def quiet_rest_def Let_def sink_start_def holds_last_def window_default_def comp_def)

section \<open>Properties\<close>

text \<open>
  C5. Whatever the store is, memory or disk, whatever the sink answers, and wherever the shutdown grace
  cuts a call: a run of \<open>write_loop\<close> makes its calls as the delivery discipline allows. A batch is
  observed once before its first attempt; the batches go out in order; an attempt is repeated only
  after a fault its posture retries; the oldest batch is committed exactly when its verdict is in.
\<close>

theorem write_loop_refines_discipline:
  assumes "reaches_at_most (rn_ops W)" and "store_open (rn_store W) config = Inr st" and "write_loop n W (sink_start out st) = (r, s)"
  shows "discipline_run (resolve_posture W out) (calls (sr_log s)) dispatch_start \<noteq> None"
  using write_loop_follows[OF assms(1) opened_store_ok[OF assms(2)] assms(3)] by (auto simp: follows_def)

theorem write_loop_refines_discipline_witness:
  "\<exists>s. write_loop 6 (two_batches (Some At_Most_Once)) (sink_start 0 quiet_start) = (Came (), s) \<and> calls (sr_log s) = quiet_calls \<and>
     discipline_run (resolve_posture (two_batches (Some At_Most_Once)) 0) (calls (sr_log s)) dispatch_start \<noteq> None"
proof -
  obtain s where s: "write_loop 6 (two_batches (Some At_Most_Once)) (sink_start 0 quiet_start) = (Came (), s)" "calls (sr_log s) = quiet_calls"
    using two_batches_run by blast
  show ?thesis by (rule exI, intro conjI, rule s(1), rule s(2), rule write_loop_refines_discipline[OF quiet_reaches quiet_opens s(1)])
qed

text \<open>
  C9. Batches leave the store in the order the sink saw them, each for a reason the posture allows:
  as delivered only right after the sink said so, as dropped only for a fault the posture does not
  retry, and at shutdown with an unknown outcome only under at-most-once.
\<close>

theorem delivered_in_order:
  assumes "reaches_at_most (rn_ops W)" and "store_open (rn_store W) config = Inr st" and "write_loop n W (sink_start out st) = (r, s)"
  shows "prefix (committed (calls (sr_log s))) (observed (calls (sr_log s))) \<and> commits_due (resolve_posture W out) (calls (sr_log s))"
proof -
  obtain d where d: "discipline_run (resolve_posture W out) (calls (sr_log s)) dispatch_start = Some d"
    using write_loop_follows[OF assms(1) opened_store_ok[OF assms(2)] assms(3)] by (auto simp: follows_def)
  show ?thesis using discipline_run_keeps[OF d] discipline_run_due[OF d] by (simp add: dispatch_start_def)
qed

theorem delivered_in_order_witness:
  "\<exists>s. write_loop 6 (two_batches (Some At_Most_Once)) (sink_start 0 quiet_start) = (Came (), s) \<and>
     committed (calls (sr_log s)) = [quiet_numbered 1, quiet_numbered 2] \<and>
     prefix (committed (calls (sr_log s))) (observed (calls (sr_log s))) \<and>
     commits_due (resolve_posture (two_batches (Some At_Most_Once)) 0) (calls (sr_log s))"
proof -
  obtain s where s: "write_loop 6 (two_batches (Some At_Most_Once)) (sink_start 0 quiet_start) = (Came (), s)" "calls (sr_log s) = quiet_calls"
    using two_batches_run by blast
  have c: "committed (calls (sr_log s)) = [quiet_numbered 1, quiet_numbered 2]" by (simp add: s(2) quiet_calls_def)
  show ?thesis by (rule exI, intro conjI, rule s(1), rule c) (use delivered_in_order[OF quiet_reaches quiet_opens s(1)] in blast)+
qed

text \<open>
  C8. At-most-once: a batch whose attempt ended with its outcome unknown, because the connection failed
  or the shutdown cut it, is not attempted again in this run. With a window that is every batch
  submitted and unanswered at that moment, not the oldest alone: when the wait for an answer or the
  oldest batch's resubmit loses the connection, and, with the batch being submitted, when a submit is
  cut. A fault marked the batch's own concerns the oldest alone. The one failure left out is a submit
  that returns an error behind batches in flight, which \<open>Output::submit\<close> declares unclassified. The
  batches are told apart by their numbers.
\<close>

theorem at_most_once_no_second_attempt:
  assumes "reaches_at_most (rn_ops W)" and "store_open (rn_store W) config = Inr st" and "write_loop n W (sink_start out st) = (r, s)"
    and "resolve_posture W out = At_Most_Once" and "calls (sr_log s) = before @ c # after" and "distinct (observed (calls (sr_log s)))"
    and "y \<in> set (in_doubt At_Most_Once before c)"
  shows "y \<notin> set (attempted after)"
proof -
  obtain d where "discipline_run At_Most_Once (before @ c # after) dispatch_start = Some d"
    using write_loop_follows[OF assms(1) opened_store_ok[OF assms(2)] assms(3)] assms(4,5) by (auto simp: follows_def)
  then show ?thesis using assms(5-7) by (intro doubted_not_attempted) simp_all
qed

theorem at_most_once_no_second_attempt_witness:
  "\<exists>s after. write_loop 6 (two_batches (Some At_Most_Once)) (sink_start 0 quiet_start) = (Came (), s) \<and>
     calls (sr_log s) = [Call_Observe (quiet_numbered 1)] @ Call_Send (quiet_numbered 1) (Answer_Err lost_answer) # after \<and>
     attempted after = [quiet_numbered 2] \<and> quiet_numbered 1 \<notin> set (attempted after)"
proof -
  obtain s where s: "write_loop 6 (two_batches (Some At_Most_Once)) (sink_start 0 quiet_start) = (Came (), s)" "calls (sr_log s) = quiet_calls"
    using two_batches_run by blast
  let ?after = "drop 2 quiet_calls"
  have c: "calls (sr_log s) = [Call_Observe (quiet_numbered 1)] @ Call_Send (quiet_numbered 1) (Answer_Err lost_answer) # ?after"
    and a: "attempted ?after = [quiet_numbered 2]" and o1: "distinct (observed (calls (sr_log s)))"
    by (simp_all add: s(2) quiet_calls_def quiet_numbered_def)
  have "resolve_posture (two_batches (Some At_Most_Once)) 0 = At_Most_Once" by (simp add: resolve_posture_def two_batches_def)
  moreover have "quiet_numbered 1 \<in> set (in_doubt At_Most_Once [Call_Observe (quiet_numbered 1)] (Call_Send (quiet_numbered 1) (Answer_Err lost_answer)))"
    by (simp add: in_doubt_def Let_def lost_answer_def with_fault_def classify_def)
  ultimately have "quiet_numbered 1 \<notin> set (attempted ?after)"
    by (rule at_most_once_no_second_attempt[OF quiet_reaches quiet_opens s(1) _ c o1])
  with s(1) c a show ?thesis by blast
qed

text \<open>
  C15. What a sink that takes one batch at a time (\<open>window\<close> at most 1) makes of a memory store whose
  input is over, with no shutdown signal: the write loop is the plain loop \<open>deliver_each\<close>, in which each
  batch in order is observed, attempted until the sink takes it or answers with a fault its posture does
  not retry, and committed as that last answer says. The loop ends precisely when the sink settles each
  batch within some number of attempts: then as many turns as batches and attempts are enough, and a
  run that ended made exactly those calls; a sink that refuses one batch for ever is the only thing
  that keeps the loop running.
\<close>

theorem unwindowed_drain_ends:
  assumes "undisturbed_sink W" and "resting xs s"
  shows "((\<exists>n s'. loop_turns n W p s = (Came (), s')) \<longleftrightarrow> (\<exists>k y. deliver_each k (rn_ops W) p xs (sr_output s) = Some y)) \<and>
    (\<forall>k n cs out. deliver_each k (rn_ops W) p xs (sr_output s) = Some (cs, out) \<longrightarrow> length xs + k < n \<longrightarrow>
       (\<exists>s'. loop_turns n W p s = (Came (), s') \<and> calls (sr_log s') = calls (sr_log s) @ cs \<and> sr_output s' = out)) \<and>
    (\<forall>n s'. loop_turns n W p s = (Came (), s') \<longrightarrow>
       (\<exists>cs. deliver_each n (rn_ops W) p xs (sr_output s) = Some (cs, sr_output s') \<and> calls (sr_log s') = calls (sr_log s) @ cs))"
proof -
  have "rests xs (sr_output s) (calls (sr_log s)) s" using assms(2) by (simp add: rests_def)
  from pend_rests[OF assms(1) this] obtain s1 where s1: "pend W (\<not> owed_round W s) s = (False, s1)"
    "rests xs (sr_output s) (calls (sr_log s)) s1" by blast
  note ends = loop_turns_rests[OF assms(1) s1] and ended = loop_turns_returned[OF assms(1) s1]
  show ?thesis
  proof (intro conjI allI impI iffI)
    assume "\<exists>n s'. loop_turns n W p s = (Came (), s')"
    then show "\<exists>k y. deliver_each k (rn_ops W) p xs (sr_output s) = Some y" using ended by blast
  next
    assume "\<exists>k y. deliver_each k (rn_ops W) p xs (sr_output s) = Some y"
    then show "\<exists>n s'. loop_turns n W p s = (Came (), s')" using ends by (metis lessI surj_pair)
  qed (use ends ended in blast)+
qed

theorem unwindowed_drain_ends_witness:
  "(\<exists>s' :: (unit, unit, nat) sink_run.
     loop_turns 5 (two_batches None) At_Least_Once (quiet_rest [quiet_numbered 1]) = (Came (), s') \<and>
     calls (sr_log s') = [Call_Observe (quiet_numbered 1), Call_Send (quiet_numbered 1) (Answer_Err lost_answer),
       Call_Send (quiet_numbered 1) Answer_Ok, Call_Commit (Some (quiet_numbered 1)) Settled_Delivered] \<and> sr_output s' = 2) \<and>
   \<not> (\<exists>s'. loop_turns 1 (two_batches None) At_Least_Once (quiet_rest [quiet_numbered 1]) = (Came (), s'))"
proof -
  have u: "undisturbed_sink (two_batches None)" by (simp add: undisturbed_sink_def two_batches_def faulty_sink_def)
  have d: "deliver_each 2 (rn_ops (two_batches None)) At_Least_Once [quiet_numbered 1] (sr_output (quiet_rest [quiet_numbered 1])) =
      Some ([Call_Observe (quiet_numbered 1), Call_Send (quiet_numbered 1) (Answer_Err lost_answer),
       Call_Send (quiet_numbered 1) Answer_Ok, Call_Commit (Some (quiet_numbered 1)) Settled_Delivered], 2)"
    and short: "deliver_each 1 (rn_ops (two_batches None)) At_Least_Once [quiet_numbered 1] (sr_output (quiet_rest [quiet_numbered 1])) = None"
    by (simp_all add: quiet_numbered_def quiet_rest_def Let_def sink_start_def two_batches_def faulty_sink_def lost_answer_def with_fault_def classify_def eval_nat_numeral)
  note drain = unwindowed_drain_ends[OF u quiet_rest_resting[of "[quiet_numbered 1]"], of At_Least_Once]
  have "\<exists>s'. loop_turns 5 (two_batches None) At_Least_Once (quiet_rest [quiet_numbered 1]) = (Came (), s') \<and>
     calls (sr_log s') = calls (sr_log (quiet_rest [quiet_numbered 1])) @ [Call_Observe (quiet_numbered 1), Call_Send (quiet_numbered 1) (Answer_Err lost_answer),
       Call_Send (quiet_numbered 1) Answer_Ok, Call_Commit (Some (quiet_numbered 1)) Settled_Delivered] \<and> sr_output s' = 2"
    by (rule conjunct1[OF conjunct2[OF drain], rule_format, OF d]) simp
  moreover have "\<not> (\<exists>s'. loop_turns 1 (two_batches None) At_Least_Once (quiet_rest [quiet_numbered 1]) = (Came (), s'))"
    using conjunct2[OF conjunct2[OF drain]] short by fastforce
  ultimately show ?thesis by (simp add: quiet_rest_def Let_def sink_start_def)
qed

text \<open>
  The wait before attempt \<open>n + 1\<close> is the base delay doubled \<open>n - 1\<close> times and capped: the loop
  of at most 128 saturating doublings computes exactly that, at every base delay and attempt.
\<close>

theorem backoff_is_capped_doubling:
  assumes "wc_max_delay c \<le> DURATION_MAX"
  shows "backoff_for c attempt = min (wc_base_delay c * 2 ^ (attempt - 1)) (wc_max_delay c)"
  by (simp add: backoff_for_def double_backoff_power[OF assms] double_backoff_enough[OF assms])

theorem backoff_is_capped_doubling_witness:
  "backoff_for (rn_config (two_batches None)) 3 = 4 \<and> backoff_for (rn_config (two_batches None)) 1000 = 8"
proof -
  have le: "wc_max_delay (rn_config (two_batches None)) \<le> DURATION_MAX" by (simp add: two_batches_def DURATION_MAX_def)
  have "(8 :: nat) \<le> 2 ^ 999" using power_increasing[of 3 999 "2 :: nat"] by simp
  then show ?thesis unfolding backoff_is_capped_doubling[OF le] by (simp add: two_batches_def min_def)
qed

end
