(* ===== verification/Framing.thy ===== *)
theory Framing
  imports Prelude
begin

text \<open>
  \<open>crates/logit-proto/src/framing.rs\<close>: \<open>Framer\<close>, which cuts the byte stream of a connection into
  messages for the stream listeners: RFC 6587 octet counting, lines, and length prefixes. An error
  keeps its variant and the constant part of its text.
\<close>

section \<open>Bounds and modes\<close>

definition MAX_FRAME_BYTES :: nat where "MAX_FRAME_BYTES = 65536"

definition READ_BUFFER_BYTES :: nat where "READ_BUFFER_BYTES = 8 * 1024"

definition LENGTH_PREFIX_BYTES :: nat where "LENGTH_PREFIX_BYTES = 4"

datatype oversize = Fatal | Drain_To_Next_Line

datatype framing_mode = Rfc6587_Auto | Lines oversize | Length_Prefixed | Length_Prefixed_Le

datatype framing = Octet_Counting | Non_Transparent | Prefixed | Prefixed_Le

fun framing_as_str :: "framing \<Rightarrow> string" where
  "framing_as_str Octet_Counting = ''octet_counting''"
| "framing_as_str Non_Transparent = ''non_transparent''"
| "framing_as_str Prefixed = ''length_prefixed''"
| "framing_as_str Prefixed_Le = ''length_prefixed_le''"

datatype framing_error =
    Fe_Oversize string
  | Fe_Malformed string
  | Fe_Truncated string
  | Fe_Oversize_Skipped string
  | Fe_Drained string

fun framing_reason :: "framing_error \<Rightarrow> string" where
  "framing_reason (Fe_Oversize _) = ''oversize''"
| "framing_reason (Fe_Oversize_Skipped _) = ''oversize''"
| "framing_reason (Fe_Drained _) = ''drained''"
| "framing_reason (Fe_Malformed _) = ''malformed''"
| "framing_reason (Fe_Truncated _) = ''truncated''"

fun is_fatal :: "framing_error \<Rightarrow> bool" where
  "is_fatal (Fe_Oversize_Skipped _) = False"
| "is_fatal (Fe_Drained _) = False"
| "is_fatal _ = True"

section \<open>Bytes\<close>

abbreviation LF :: u8 where "LF \<equiv> 10"

abbreviation CR :: u8 where "CR \<equiv> 13"

definition is_ascii_digit :: "u8 \<Rightarrow> bool" where
  "is_ascii_digit b \<longleftrightarrow> 48 \<le> b \<and> b \<le> 57"

definition is_ascii_whitespace :: "u8 \<Rightarrow> bool" where
  "is_ascii_whitespace b \<longleftrightarrow> b \<in> {32, 9, 10, 12, 13}"

fun byte_at :: "u8 \<Rightarrow> bytes \<Rightarrow> nat option" where
  "byte_at b [] = None"
| "byte_at b (x # xs) = (if x = b then Some 0 else map_option Suc (byte_at b xs))"

definition strip_cr :: "bytes \<Rightarrow> bytes" where
  "strip_cr line = (if line \<noteq> [] \<and> last line = CR then butlast line else line)"

section \<open>The framer\<close>

record framer =
  fr_mode :: framing_mode
  fr_max_frame_bytes :: nat
  fr_framing :: "framing option"
  fr_buf :: bytes
  fr_scanned :: nat
  fr_draining :: bool
  fr_seen_bytes :: bool

definition framer_new :: "framing_mode \<Rightarrow> nat \<Rightarrow> framer" where
  "framer_new mode max_frame_bytes =
     \<lparr>fr_mode = mode, fr_max_frame_bytes = max_frame_bytes,
      fr_framing = (case mode of Rfc6587_Auto \<Rightarrow> None | Lines _ \<Rightarrow> Some Non_Transparent | Length_Prefixed \<Rightarrow> Some Prefixed | Length_Prefixed_Le \<Rightarrow> Some Prefixed_Le),
      fr_buf = [], fr_scanned = 0, fr_draining = False, fr_seen_bytes = False\<rparr>"

definition first_byte_seen :: "framer \<Rightarrow> bool" where
  "first_byte_seen f = fr_seen_bytes f"

definition framer_buffered :: "framer \<Rightarrow> nat" where
  "framer_buffered f = length (fr_buf f)"

definition oversize_policy :: "framer \<Rightarrow> oversize" where
  "oversize_policy f = (case fr_mode f of Lines oversize \<Rightarrow> oversize | _ \<Rightarrow> Fatal)"

definition remainder_is_blank :: "framer \<Rightarrow> bool" where
  "remainder_is_blank f =
     (case (fr_framing f, fr_mode f) of
        (Some Non_Transparent, Lines _) \<Rightarrow> list_all is_ascii_whitespace (fr_buf f)
      | (Some Non_Transparent, _) \<Rightarrow> fr_buf f = [] \<or> fr_buf f = [CR]
      | _ \<Rightarrow> fr_buf f = [])"

definition clear_buf :: "framer \<Rightarrow> framer" where
  "clear_buf f = f\<lparr>fr_buf := [], fr_scanned := 0\<rparr>"

definition abandon :: "framer \<Rightarrow> framing_error option \<times> framer" where
  "abandon f =
     (if fr_buf f \<noteq> [] \<and> \<not> fr_draining f \<and> \<not> remainder_is_blank f
      then Some (Fe_Truncated ''the connection ended abruptly'') else None, clear_buf f)"

definition framer_push :: "bytes \<Rightarrow> framer \<Rightarrow> framer" where
  "framer_push bs f =
     (let f = f\<lparr>fr_buf := fr_buf f @ bs, fr_seen_bytes := fr_seen_bytes f \<or> bs \<noteq> []\<rparr> in
      if fr_mode f = Rfc6587_Auto \<and> fr_framing f = None then
        (case fr_buf f of
           [] \<Rightarrow> f
         | b # _ \<Rightarrow> f\<lparr>fr_framing := Some (if is_ascii_digit b then Octet_Counting else Non_Transparent)\<rparr>)
      else f)"

subsection \<open>Lines\<close>

text \<open>The first part of \<open>next_line\<close>: an abandoned line is discarded up to its \<open>LF\<close>; whether it is over.\<close>

definition drain_line :: "framer \<Rightarrow> bool \<times> framer" where
  "drain_line f =
     (if \<not> fr_draining f then (True, f)
      else
        (case byte_at LF (fr_buf f) of
           Some at \<Rightarrow> (True, f\<lparr>fr_buf := drop (at + 1) (fr_buf f), fr_draining := False, fr_scanned := 0\<rparr>)
         | None \<Rightarrow> (False, clear_buf f)))"

definition next_line :: "framer \<Rightarrow> (framing_error + bytes option) \<times> framer" where
  "next_line f =
     (case drain_line f of
        (False, f) \<Rightarrow> (Inr None, f)
      | (True, f) \<Rightarrow>
          (case byte_at LF (drop (fr_scanned f) (fr_buf f)) of
             None \<Rightarrow>
               (let f = f\<lparr>fr_scanned := length (fr_buf f)\<rparr> in
                if length (fr_buf f) > fr_max_frame_bytes f then
                  (case oversize_policy f of
                     Fatal \<Rightarrow> (Inl (Fe_Oversize ''a non-transparent line with no LF''), f)
                   | Drain_To_Next_Line \<Rightarrow> (Inl (Fe_Drained ''a line with no LF''), (clear_buf f)\<lparr>fr_draining := True\<rparr>))
                else (Inr None, f))
           | Some offset \<Rightarrow>
               (let idx = fr_scanned f + offset in
                if idx > fr_max_frame_bytes f then
                  (case oversize_policy f of
                     Fatal \<Rightarrow> (Inl (Fe_Oversize ''a non-transparent line''), f)
                   | Drain_To_Next_Line \<Rightarrow>
                       (Inl (Fe_Oversize_Skipped ''a line''), f\<lparr>fr_buf := drop (idx + 1) (fr_buf f), fr_scanned := 0\<rparr>))
                else
                  (Inr (Some (strip_cr (take idx (fr_buf f)))), f\<lparr>fr_buf := drop (idx + 1) (fr_buf f), fr_scanned := 0\<rparr>))))"

subsection \<open>Length prefixes\<close>

definition next_length_prefixed :: "(bytes \<Rightarrow> u32) \<Rightarrow> framer \<Rightarrow> (framing_error + bytes option) \<times> framer" where
  "next_length_prefixed read_len f =
     (if length (fr_buf f) < LENGTH_PREFIX_BYTES then (Inr None, f)
      else
        (let payload_len = unat (read_len (take LENGTH_PREFIX_BYTES (fr_buf f))) in
         if payload_len > fr_max_frame_bytes f then (Inl (Fe_Oversize ''a length-prefixed frame''), f)
         else if length (fr_buf f) < LENGTH_PREFIX_BYTES + payload_len then (Inr None, f)
         else
           (let rest = drop LENGTH_PREFIX_BYTES (fr_buf f)
            in (Inr (Some (take payload_len rest)), f\<lparr>fr_buf := drop payload_len rest, fr_scanned := 0\<rparr>))))"

subsection \<open>Octet counting\<close>

definition MAX_COUNT_DIGITS :: nat where "MAX_COUNT_DIGITS = 9"

text \<open>How many digits stand before the space; \<open>None\<close> while it has not arrived.\<close>

fun count_digits :: "nat \<Rightarrow> bytes \<Rightarrow> framing_error + nat option" where
  "count_digits digits [] = Inr None"
| "count_digits digits (b # bs) =
     (if is_ascii_digit b then
        (if digits = MAX_COUNT_DIGITS then Inl (Fe_Malformed ''an octet count of too many digits'') else count_digits (digits + 1) bs)
      else if b = 32 then Inr (Some digits)
      else Inl (Fe_Malformed ''expected a digit or SP in an octet count''))"

definition parse_digits :: "bytes \<Rightarrow> nat" where
  "parse_digits ds = foldl (\<lambda>n d. 10 * n + unat (d - 48)) 0 ds"

definition next_octet_counted :: "framer \<Rightarrow> (framing_error + bytes option) \<times> framer" where
  "next_octet_counted f =
     (case count_digits 0 (fr_buf f) of
        Inl e \<Rightarrow> (Inl e, f)
      | Inr None \<Rightarrow> (Inr None, f)
      | Inr (Some digits) \<Rightarrow>
          if digits = 0 then (Inl (Fe_Malformed ''an octet count with no digits''), f)
          else if hd (fr_buf f) = 48 then
            (Inl (Fe_Malformed (if digits = 1 then ''an octet count of zero'' else ''an octet count with a leading zero'')), f)
          else
            (let len = parse_digits (take digits (fr_buf f)) in
             if len > fr_max_frame_bytes f then (Inl (Fe_Oversize ''an octet count''), f)
             else if length (fr_buf f) < digits + 1 + len then (Inr None, f)
             else
               (let rest = drop (digits + 1) (fr_buf f)
                in (Inr (Some (take len rest)), f\<lparr>fr_buf := drop len rest, fr_scanned := 0\<rparr>))))"

subsection \<open>Frames\<close>

lemma byte_at_less: "byte_at b xs = Some n \<Longrightarrow> n < length xs"
  by (induction xs arbitrary: n) (auto split: if_splits)

lemma next_line_shrinks:
  assumes "next_line f = (r, f')" and "r \<noteq> Inr None" and "\<And>e. r = Inl e \<Longrightarrow> \<not> is_fatal e"
  shows "length (fr_buf f') < length (fr_buf f)"
proof -
  obtain go g where d: "drain_line f = (go, g)" by fastforce
  have le: "length (fr_buf g) \<le> length (fr_buf f)" using d by (auto simp: drain_line_def clear_buf_def split: if_splits option.splits)
  have "go" using assms(1,2) d by (cases go) (auto simp: next_line_def)
  have "length (fr_buf f') < length (fr_buf g)" using assms d \<open>go\<close>
    by (auto simp: next_line_def clear_buf_def Let_def dest!: byte_at_less split: option.splits if_splits oversize.splits)
  then show ?thesis using le by simp
qed

function next_frame :: "framer \<Rightarrow> (framing_error + bytes option) \<times> framer" where
  "next_frame f =
     (case fr_framing f of
        None \<Rightarrow> (Inr None, f)
      | Some Octet_Counting \<Rightarrow> next_octet_counted f
      | Some Prefixed \<Rightarrow> next_length_prefixed from_be_bytes f
      | Some Prefixed_Le \<Rightarrow> next_length_prefixed from_le_bytes f
      | Some Non_Transparent \<Rightarrow>
          (case next_line f of
             (Inr (Some []), f) \<Rightarrow> next_frame f
           | (r, f) \<Rightarrow> (r, f)))"
  by pat_completeness auto
termination
  by (relation "measure (length \<circ> fr_buf)") (auto dest!: next_line_shrinks[OF sym])

declare next_frame.simps [simp del]

definition framer_finish :: "framer \<Rightarrow> (framing_error + bytes option) \<times> framer" where
  "framer_finish f =
     (if fr_buf f = [] then (Inr None, f)
      else
        (case fr_framing f of
           None \<Rightarrow> (Inr None, f)
         | Some Octet_Counting \<Rightarrow> (Inl (Fe_Truncated ''octet-counted bytes of an incomplete frame''), clear_buf f)
         | Some Non_Transparent \<Rightarrow>
             if fr_draining f then (Inr None, clear_buf f)
             else if length (fr_buf f) > fr_max_frame_bytes f then
               (Inl (case oversize_policy f of
                       Fatal \<Rightarrow> Fe_Oversize ''the peer closed with an unterminated line''
                     | Drain_To_Next_Line \<Rightarrow> Fe_Oversize_Skipped ''the peer closed with an unterminated line''), clear_buf f)
             else if remainder_is_blank f then (Inr None, clear_buf f)
             else
               (case fr_mode f of
                  Lines _ \<Rightarrow> (Inl (Fe_Truncated ''an unterminated line''), clear_buf f)
                | _ \<Rightarrow> (Inr (Some (strip_cr (fr_buf f))), clear_buf f))
         | _ \<Rightarrow> (Inl (Fe_Truncated ''bytes of an incomplete length-prefixed frame''), clear_buf f)))"

end
