(* ===== verification/Framing_Stream.thy ===== *)
theory Framing_Stream
  imports Framing
begin

text \<open>
  A connection's stream, however its reads cut it: the messages a \<open>Framer\<close> hands out depend on the
  bytes alone. The reference is a scan of the whole stream by one step per message.
\<close>

section \<open>Scanning a stream\<close>

text \<open>What came out: a message, a line dropped for its length, or the error that ends the connection, by its reason.\<close>

datatype outcome = Framed bytes | Dropped_Line | Broken string

datatype 's scan = Wants_More | Took "outcome list" 's bytes | Stopped outcome

datatype 's tail = Waiting 's bytes | Over

fun scan_run :: "nat \<Rightarrow> ('s \<Rightarrow> bytes \<Rightarrow> 's scan) \<Rightarrow> 's \<Rightarrow> bytes \<Rightarrow> outcome list \<times> 's tail" where
  "scan_run 0 step s b = ([], Waiting s b)"
| "scan_run (Suc n) step s b =
     (case step s b of
        Wants_More \<Rightarrow> ([], Waiting s b)
      | Stopped x \<Rightarrow> ([x], Over)
      | Took xs s' rest \<Rightarrow> apfst ((@) xs) (scan_run n step s' rest))"

definition scan_all :: "('s \<Rightarrow> bytes \<Rightarrow> 's scan) \<Rightarrow> 's \<Rightarrow> bytes \<Rightarrow> outcome list \<times> 's tail" where
  "scan_all step s b = scan_run (Suc (length b)) step s b"

lemma apfst_append: "apfst ((@) xs) (apfst ((@) ys) p) = apfst ((@) (xs @ ys)) p"
  by (cases p) simp

lemma apfst_Nil [simp]: "apfst ((@) []) p = p"
  by (cases p) simp

text \<open>
  A step that may be resumed: with more bytes behind, it takes what it took, or stops where it
  stopped. A step that takes nothing from more bytes of its own is folded into the one before.
\<close>

locale incremental =
  fixes step :: "'s \<Rightarrow> bytes \<Rightarrow> 's scan"
  assumes shrinks: "step s b = Took xs s' rest \<Longrightarrow> length rest < length b"
    and more_took: "step s b = Took xs s' rest \<Longrightarrow>
      step s (b @ c) = Took xs s' (rest @ c) \<or> (\<exists>s'' rest'. step s (b @ c) = Took xs s'' rest' \<and> step s' (rest @ c) = Took [] s'' rest')"
    and more_stopped: "step s b = Stopped x \<Longrightarrow> step s (b @ c) = Stopped x"
begin

lemma scan_run_enough: "length b < n \<Longrightarrow> length b < m \<Longrightarrow> scan_run n step s b = scan_run m step s b"
proof (induction n arbitrary: m s b)
  case (Suc n)
  then obtain k where m: "m = Suc k" by (cases m) auto
  show ?case
  proof (cases "step s b")
    case (Took xs s' rest)
    then have "length rest < n" "length rest < k" using shrinks[OF Took] Suc.prems m by auto
    from Suc.IH[OF this] show ?thesis by (simp add: Took m)
  qed (simp_all add: m)
qed simp

lemma scan_all_step:
  "scan_all step s b = (case step s b of
     Wants_More \<Rightarrow> ([], Waiting s b) | Stopped x \<Rightarrow> ([x], Over) | Took xs s' rest \<Rightarrow> apfst ((@) xs) (scan_all step s' rest))"
proof (cases "step s b")
  case (Took xs s' rest)
  have "scan_run (length b) step s' rest = scan_all step s' rest"
    unfolding scan_all_def by (rule scan_run_enough) (use shrinks[OF Took] in simp_all)
  then show ?thesis using Took by (simp add: scan_all_def)
qed (simp_all add: scan_all_def)

lemma scan_all_waits: "scan_all step s b = (xs, Waiting s' rest) \<Longrightarrow> step s' rest = Wants_More"
proof (induction "length b" arbitrary: s b xs rule: less_induct)
  case less
  show ?case
  proof (cases "step s b")
    case (Took ys t c)
    then obtain zs where "scan_all step t c = (zs, Waiting s' rest)" using less.prems scan_all_step[of s b] by (cases "scan_all step t c") auto
    then show ?thesis using less.hyps shrinks[OF Took] by blast
  qed (use less.prems scan_all_step[of s b] in auto)
qed

text \<open>Scanning in two parts is scanning the whole.\<close>

lemma scan_all_append:
  "scan_all step s (b @ c) =
     (case scan_all step s b of (xs, Over) \<Rightarrow> (xs, Over) | (xs, Waiting s' rest) \<Rightarrow> apfst ((@) xs) (scan_all step s' (rest @ c)))"
proof (induction "length b" arbitrary: s b rule: less_induct)
  case less
  show ?case
  proof (cases "step s b")
    case Wants_More
    then show ?thesis by (simp add: scan_all_step[of s b])
  next
    case (Stopped x)
    then show ?thesis using more_stopped[OF Stopped] by (simp add: scan_all_step[of s])
  next
    case (Took xs s' rest)
    note ih = less[OF shrinks[OF Took], of s']
    have "scan_all step s (b @ c) = apfst ((@) xs) (scan_all step s' (rest @ c))"
      using more_took[OF Took, of c]
    proof (elim disjE exE conjE)
      fix s'' rest'
      assume a: "step s (b @ c) = Took xs s'' rest'" "step s' (rest @ c) = Took [] s'' rest'"
      have "scan_all step s' (rest @ c) = scan_all step s'' rest'" using scan_all_step[of s' "rest @ c"] a(2) by simp
      then show ?thesis using scan_all_step[of s "b @ c"] a(1) by simp
    qed (simp add: scan_all_step[of s "b @ c"])
    then show ?thesis using ih Took by (simp add: scan_all_step[of s b] apfst_append split: prod.split tail.split)
  qed
qed

end

section \<open>The four framings\<close>

definition octet_step :: "nat \<Rightarrow> bool \<Rightarrow> bytes \<Rightarrow> bool scan" where
  "octet_step bound s b =
     (case count_digits 0 b of
        Inl e \<Rightarrow> Stopped (Broken ''malformed'')
      | Inr None \<Rightarrow> Wants_More
      | Inr (Some digits) \<Rightarrow>
          if digits = 0 \<or> hd b = 48 then Stopped (Broken ''malformed'')
          else
            (let len = parse_digits (take digits b); rest = drop (digits + 1) b in
             if len > bound then Stopped (Broken ''oversize'')
             else if length b < digits + 1 + len then Wants_More
             else Took [Framed (take len rest)] s (drop len rest)))"

definition prefix_step :: "(bytes \<Rightarrow> u32) \<Rightarrow> nat \<Rightarrow> bool \<Rightarrow> bytes \<Rightarrow> bool scan" where
  "prefix_step read_len bound s b =
     (if length b < 4 then Wants_More
      else
        (let len = unat (read_len (take 4 b)); rest = drop 4 b in
         if len > bound then Stopped (Broken ''oversize'')
         else if length b < 4 + len then Wants_More
         else Took [Framed (take len rest)] s (drop len rest)))"

text \<open>The state says whether the line before is still being discarded.\<close>

definition line_step :: "oversize \<Rightarrow> nat \<Rightarrow> bool \<Rightarrow> bytes \<Rightarrow> bool scan" where
  "line_step policy bound draining b =
     (if draining then
        (case byte_at LF b of Some i \<Rightarrow> Took [] False (drop (i + 1) b) | None \<Rightarrow> if b = [] then Wants_More else Took [] True [])
      else
        (case byte_at LF b of
           None \<Rightarrow>
             if length b > bound then (case policy of Fatal \<Rightarrow> Stopped (Broken ''oversize'') | Drain_To_Next_Line \<Rightarrow> Took [Dropped_Line] True [])
             else Wants_More
         | Some i \<Rightarrow>
             if i > bound then
               (case policy of Fatal \<Rightarrow> Stopped (Broken ''oversize'') | Drain_To_Next_Line \<Rightarrow> Took [Dropped_Line] False (drop (i + 1) b))
             else
               (let line = strip_cr (take i b) in Took (if line = [] then [] else [Framed line]) False (drop (i + 1) b))))"

lemma byte_at_append:
  "byte_at x (b @ c) = (case byte_at x b of Some i \<Rightarrow> Some i | None \<Rightarrow> map_option ((+) (length b)) (byte_at x c))"
  by (induction b; cases "byte_at x c") (auto split: option.split)

lemma count_digits_append:
  "count_digits n (b @ c) = (case count_digits n b of Inr None \<Rightarrow> count_digits (n + length b) c | r \<Rightarrow> r)"
  by (induction n b rule: count_digits.induct) (auto split: sum.split option.split)

lemma count_digits_some: "count_digits n b = Inr (Some d) \<Longrightarrow> n \<le> d \<and> d - n < length b"
  by (induction n b rule: count_digits.induct) (auto split: if_splits)

interpretation octets: incremental "octet_step bound"
proof
  fix s b xs s' rest
  assume "octet_step bound s b = Took xs s' rest"
  then obtain d where d: "count_digits 0 b = Inr (Some d)" "d \<noteq> 0" "hd b \<noteq> 48" "parse_digits (take d b) \<le> bound"
    "d + 1 + parse_digits (take d b) \<le> length b" "xs = [Framed (take (parse_digits (take d b)) (drop (d + 1) b))]"
    "s' = s" "rest = drop (parse_digits (take d b)) (drop (d + 1) b)"
    by (auto simp: octet_step_def Let_def split: sum.splits option.splits if_splits)
  show "length rest < length b" using d by simp
  have "b \<noteq> []" using d(5) by auto
  have "octet_step bound s (b @ c) = Took xs s' (rest @ c)" for c
    using d count_digits_some[OF d(1)] \<open>b \<noteq> []\<close> by (simp add: octet_step_def count_digits_append Let_def)
  then show "octet_step bound s (b @ c) = Took xs s' (rest @ c) \<or>
      (\<exists>s'' rest'. octet_step bound s (b @ c) = Took xs s'' rest' \<and> octet_step bound s' (rest @ c) = Took [] s'' rest')" for c by blast
next
  fix s b x c
  assume a: "octet_step bound s b = Stopped x"
  show "octet_step bound s (b @ c) = Stopped x"
  proof (cases "count_digits 0 b")
    case (Inl e)
    then show ?thesis using a by (simp add: octet_step_def count_digits_append)
  next
    case (Inr r)
    then obtain d where d: "r = Some d" using a by (cases r) (auto simp: octet_step_def)
    have "d < length b" "b \<noteq> []" using count_digits_some[of 0 b d] Inr d by auto
    then show ?thesis using a Inr d by (auto simp: octet_step_def count_digits_append Let_def split: if_splits)
  qed
qed

interpretation prefixes: incremental "prefix_step read_len bound"
proof
  fix s b xs s' rest c
  assume a: "prefix_step read_len bound s b = Took xs s' rest"
  show "length rest < length b" using a by (auto simp: prefix_step_def Let_def split: if_splits)
  have "prefix_step read_len bound s (b @ c) = Took xs s' (rest @ c)" using a by (auto simp: prefix_step_def Let_def split: if_splits)
  then show "prefix_step read_len bound s (b @ c) = Took xs s' (rest @ c) \<or>
      (\<exists>s'' rest'. prefix_step read_len bound s (b @ c) = Took xs s'' rest' \<and> prefix_step read_len bound s' (rest @ c) = Took [] s'' rest')" by blast
next
  fix s b x c
  assume "prefix_step read_len bound s b = Stopped x"
  then show "prefix_step read_len bound s (b @ c) = Stopped x" by (auto simp: prefix_step_def Let_def split: if_splits)
qed

interpretation lines: incremental "line_step policy bound"
proof
  fix s b xs s' rest c
  assume a: "line_step policy bound s b = Took xs s' rest"
  show "length rest < length b"
    using a by (auto simp: line_step_def Let_def dest!: byte_at_less split: if_splits option.splits oversize.splits)
  show "line_step policy bound s (b @ c) = Took xs s' (rest @ c) \<or>
      (\<exists>s'' rest'. line_step policy bound s (b @ c) = Took xs s'' rest' \<and> line_step policy bound s' (rest @ c) = Took [] s'' rest')"
  proof (cases "byte_at LF b")
    case (Some i)
    then have "i < length b" by (rule byte_at_less)
    then show ?thesis using a Some by (auto simp: line_step_def Let_def byte_at_append split: if_splits oversize.splits)
  next
    case None
    then have s: "s' = True" "rest = []" "xs = (if s then [] else [Dropped_Line])" "\<not> s \<longrightarrow> length b > bound \<and> policy = Drain_To_Next_Line" "b \<noteq> []"
      using a by (auto simp: line_step_def split: if_splits oversize.splits)
    show ?thesis
    proof (cases "c = []")
      case False
      then show ?thesis using None s by (cases "byte_at LF c") (auto simp: line_step_def byte_at_append)
    qed (use a in simp)
  qed
next
  fix s b x c
  assume a: "line_step policy bound s b = Stopped x"
  then show "line_step policy bound s (b @ c) = Stopped x"
    by (auto simp: line_step_def Let_def byte_at_append split: if_splits option.splits oversize.splits)
qed

section \<open>The framer as a scan\<close>

fun framer_step :: "framing_mode \<Rightarrow> nat \<Rightarrow> framing \<Rightarrow> bool \<Rightarrow> bytes \<Rightarrow> bool scan" where
  "framer_step mode bound Octet_Counting = octet_step bound"
| "framer_step mode bound Prefixed = prefix_step from_be_bytes bound"
| "framer_step mode bound Prefixed_Le = prefix_step from_le_bytes bound"
| "framer_step mode bound Non_Transparent = line_step (case mode of Lines policy \<Rightarrow> policy | _ \<Rightarrow> Fatal) bound"

abbreviation framer_scan :: "framer \<Rightarrow> outcome list \<times> bool tail" where
  "framer_scan f \<equiv> scan_all (framer_step (fr_mode f) (fr_max_frame_bytes f) (the (fr_framing f))) (fr_draining f) (fr_buf f)"

lemma framer_step_incremental: "incremental (framer_step mode bound fg)"
  using octets.incremental_axioms prefixes.incremental_axioms lines.incremental_axioms by (cases fg) simp_all

text \<open>The part of the buffer already searched has no \<open>LF\<close>; before the first byte there is nothing; only lines are discarded.\<close>

definition framer_ok :: "framer \<Rightarrow> bool" where
  "framer_ok f \<longleftrightarrow> byte_at LF (take (fr_scanned f) (fr_buf f)) = None \<and> fr_scanned f \<le> length (fr_buf f) \<and>
     (fr_framing f = None \<longrightarrow> fr_buf f = [] \<and> fr_mode f = Rfc6587_Auto) \<and> (fr_draining f \<longrightarrow> fr_framing f = Some Non_Transparent)"

definition same_kind :: "framer \<Rightarrow> framer \<Rightarrow> bool" where
  "same_kind f f' \<longleftrightarrow> fr_mode f' = fr_mode f \<and> fr_max_frame_bytes f' = fr_max_frame_bytes f \<and> fr_framing f' = fr_framing f"

fun outcome_of :: "framing_error + bytes \<Rightarrow> outcome" where
  "outcome_of (Inr m) = Framed m"
| "outcome_of (Inl e) = (if is_fatal e then Broken (framing_reason e) else Dropped_Line)"

text \<open>What one call says, as a scan.\<close>

definition says_scan :: "framer \<Rightarrow> (framing_error + bytes option) \<times> framer \<Rightarrow> bool" where
  "says_scan f r \<longleftrightarrow>
     (case r of
        (Inr None, f') \<Rightarrow> framer_scan f = ([], Waiting (fr_draining f') (fr_buf f')) \<and> framer_ok f' \<and> same_kind f f'
      | (Inr (Some m), f') \<Rightarrow> framer_scan f = apfst ((@) [Framed m]) (framer_scan f') \<and> framer_ok f' \<and> same_kind f f'
      | (Inl e, f') \<Rightarrow>
          if is_fatal e then framer_scan f = ([Broken (framing_reason e)], Over)
          else framer_scan f = apfst ((@) [Dropped_Line]) (framer_scan f') \<and> framer_ok f' \<and> same_kind f f')"

lemma count_digits_malformed: "count_digits n b = Inl e \<Longrightarrow> framing_reason e = ''malformed'' \<and> is_fatal e"
  by (induction n b rule: count_digits.induct) (auto split: if_splits)

lemma octet_says: "framer_ok f \<Longrightarrow> fr_framing f = Some Octet_Counting \<Longrightarrow> says_scan f (next_octet_counted f)"
  by (auto simp: says_scan_def next_octet_counted_def octets.scan_all_step[of _ _ "fr_buf f"] octet_step_def Let_def framer_ok_def same_kind_def
      dest: count_digits_malformed split: sum.splits option.splits)

lemma prefix_says:
  "framer_ok f \<Longrightarrow> fr_framing f = Some Prefixed \<Longrightarrow> says_scan f (next_length_prefixed from_be_bytes f)"
  "framer_ok f \<Longrightarrow> fr_framing f = Some Prefixed_Le \<Longrightarrow> says_scan f (next_length_prefixed from_le_bytes f)"
  by (auto simp: says_scan_def next_length_prefixed_def prefixes.scan_all_step[of _ _ _ "fr_buf f"] prefix_step_def Let_def framer_ok_def same_kind_def
      LENGTH_PREFIX_BYTES_def)

text \<open>Searching from where the last search ended finds what a search of the whole finds.\<close>

lemma byte_at_scanned:
  assumes "framer_ok f"
  shows "byte_at LF (fr_buf f) = map_option ((+) (fr_scanned f)) (byte_at LF (drop (fr_scanned f) (fr_buf f)))"
  using byte_at_append[of LF "take (fr_scanned f) (fr_buf f)" "drop (fr_scanned f) (fr_buf f)"] assms by (simp add: framer_ok_def min_def)

lemma byte_at_take: "byte_at x b = None \<Longrightarrow> byte_at x (take n b) = None"
  by (induction b arbitrary: n) (auto simp: take_Cons' split: if_splits)

lemma drain_line_scan:
  assumes "framer_ok f" and "fr_framing f = Some Non_Transparent" and "drain_line f = (go, g)"
  shows "framer_ok g" "same_kind f g" "go \<Longrightarrow> framer_scan f = framer_scan g \<and> \<not> fr_draining g"
    "\<not> go \<Longrightarrow> framer_scan f = ([], Waiting (fr_draining g) (fr_buf g))"
proof -
  show "framer_ok g" using assms by (auto simp: drain_line_def framer_ok_def clear_buf_def split: if_splits option.splits)
  show k: "same_kind f g" using assms by (auto simp: drain_line_def same_kind_def clear_buf_def split: if_splits option.splits)
  show "framer_scan f = framer_scan g \<and> \<not> fr_draining g" if go
    using assms k that lines.scan_all_step[of _ _ True "fr_buf f"]
    by (auto simp: drain_line_def same_kind_def line_step_def split: if_splits option.splits)
  show "framer_scan f = ([], Waiting (fr_draining g) (fr_buf g))" if "\<not> go"
    using assms k that lines.scan_all_step[of _ _ True "fr_buf f"] lines.scan_all_step[of _ _ True "[]"]
    by (cases "fr_buf f = []") (auto simp: drain_line_def clear_buf_def line_step_def split: if_splits option.splits)
qed

lemma next_line_scan:
  assumes ok: "framer_ok f" and fr: "fr_framing f = Some Non_Transparent" and n: "next_line f = (r, f')"
  shows "case r of
       Inr (Some []) \<Rightarrow> framer_scan f = framer_scan f' \<and> framer_ok f' \<and> same_kind f f'
     | _ \<Rightarrow> says_scan f (r, f')"
proof -
  obtain go g where d: "drain_line f = (go, g)" by fastforce
  note l = drain_line_scan[OF ok fr d]
  show ?thesis
  proof (cases go)
    case False
    then show ?thesis using l n d by (auto simp: next_line_def says_scan_def)
  next
    case True
    have g: "fr_framing g = Some Non_Transparent" "\<not> fr_draining g" "framer_scan f = framer_scan g" using l fr True by (simp_all add: same_kind_def)
    define P where "P = oversize_policy g"
    have P: "(case fr_mode g of Lines policy \<Rightarrow> policy | _ \<Rightarrow> Fatal) = P" by (simp add: P_def oversize_policy_def)
    have pol: "oversize_policy (g\<lparr>fr_scanned := n\<rparr>) = P" for n by (simp add: P_def oversize_policy_def)
    have fg: "same_kind f h = same_kind g h" for h using l(2) by (simp add: same_kind_def)
    note st = lines.scan_all_step[of P "fr_max_frame_bytes g" False "fr_buf g"]
    note b = byte_at_scanned[OF l(1)]
    show ?thesis
    proof (cases "byte_at LF (drop (fr_scanned g) (fr_buf g))")
      case None
      then have none: "byte_at LF (fr_buf g) = None" using b by simp
      let ?w = "g\<lparr>fr_scanned := length (fr_buf g)\<rparr>" and ?d = "g\<lparr>fr_buf := [], fr_scanned := 0, fr_draining := True\<rparr>"
      have k: "same_kind g ?w" "same_kind g ?d" "framer_ok ?w" "framer_ok ?d" using none g by (simp_all add: same_kind_def framer_ok_def)
      have "(r, f') = (if length (fr_buf g) > fr_max_frame_bytes g then (case P of Fatal \<Rightarrow> (Inl (Fe_Oversize ''a non-transparent line with no LF''), ?w)
          | Drain_To_Next_Line \<Rightarrow> (Inl (Fe_Drained ''a line with no LF''), ?d)) else (Inr None, ?w))"
        using n d True None by (cases P) (auto simp: next_line_def Let_def pol clear_buf_def)
      then show ?thesis using st none g k
        by (auto simp: says_scan_def fg P g(3) line_step_def split: if_splits oversize.splits)
    next
      case (Some i)
      then have some: "byte_at LF (fr_buf g) = Some (fr_scanned g + i)" using b by simp
      let ?i = "fr_scanned g + i"
      let ?w = "g\<lparr>fr_buf := drop (?i + 1) (fr_buf g), fr_scanned := 0\<rparr>"
      have k: "same_kind g ?w" "framer_ok ?w" using g by (simp_all add: same_kind_def framer_ok_def)
      have "(r, f') = (if ?i > fr_max_frame_bytes g then (case P of Fatal \<Rightarrow> (Inl (Fe_Oversize ''a non-transparent line''), g)
          | Drain_To_Next_Line \<Rightarrow> (Inl (Fe_Oversize_Skipped ''a line''), ?w)) else (Inr (Some (strip_cr (take ?i (fr_buf g)))), ?w))"
        using n d True Some by (cases P) (auto simp: next_line_def Let_def P_def)
      then show ?thesis using st some g k
        by (auto simp: says_scan_def fg P g(3) line_step_def Let_def split: if_splits oversize.splits list.splits)
    qed
  qed
qed

lemma next_frame_scan: "framer_ok f \<Longrightarrow> fr_framing f \<noteq> None \<Longrightarrow> says_scan f (next_frame f)"
proof (induction f rule: next_frame.induct)
  case (1 f)
  then obtain fg where fg: "fr_framing f = Some fg" by auto
  show ?case
  proof (cases "fg = Non_Transparent")
    case False
    then show ?thesis using 1(2) fg octet_says prefix_says by (cases fg) (simp_all add: next_frame.simps[of f])
  next
    case True
    obtain r f' where n: "next_line f = (r, f')" by fastforce
    have fr: "fr_framing f = Some Non_Transparent" using fg True by simp
    note l = next_line_scan[OF 1(2) fr n]
    show ?thesis
    proof (cases "r = Inr (Some [])")
      case empty: True
      then have l: "framer_scan f = framer_scan f'" "framer_ok f'" "same_kind f f'" using l empty by simp_all
      have "says_scan f' (next_frame f')"
        using 1(1)[of Non_Transparent r f' "Some []" "[]"] fg True n empty l by (simp add: same_kind_def)
      then show ?thesis using l n empty fg True
        by (auto simp: next_frame.simps[of f] says_scan_def same_kind_def split: sum.splits option.splits prod.splits if_splits)
    next
      case False
      then have "says_scan f (r, f')" using l by (auto split: sum.splits option.splits list.splits)
      moreover have "next_frame f = (r, f')" using False n fg True by (simp add: next_frame.simps[of f] split: sum.splits option.splits list.splits)
      ultimately show ?thesis by simp
    qed
  qed
qed

section \<open>A connection's reads\<close>

lemma next_length_prefixed_shrinks:
  "next_length_prefixed read_len f = (Inr (Some m), f') \<Longrightarrow> length (fr_buf f') < length (fr_buf f)"
  "next_length_prefixed read_len f = (Inl e, f') \<Longrightarrow> is_fatal e"
  by (auto simp: next_length_prefixed_def LENGTH_PREFIX_BYTES_def Let_def split: if_splits)

lemma next_octet_counted_shrinks:
  "next_octet_counted f = (Inr (Some m), f') \<Longrightarrow> length (fr_buf f') < length (fr_buf f)"
  "next_octet_counted f = (Inl e, f') \<Longrightarrow> is_fatal e"
  by (auto simp: next_octet_counted_def Let_def dest: count_digits_malformed split: if_splits sum.splits option.splits)

lemma next_frame_shrinks:
  "next_frame f = (r, f') \<Longrightarrow> r \<noteq> Inr None \<Longrightarrow> (\<And>e. r = Inl e \<Longrightarrow> \<not> is_fatal e) \<Longrightarrow> length (fr_buf f') < length (fr_buf f)"
proof (induction f rule: next_frame.induct)
  case (1 f)
  show ?case
  proof (cases "fr_framing f = Some Non_Transparent")
    case True
    obtain q g where n: "next_line f = (q, g)" by fastforce
    show ?thesis
    proof (cases "q = Inr (Some [])")
      case empty: True
      then have "next_frame g = (r, f')" using 1(2) True n by (simp add: next_frame.simps[of f])
      from 1(1)[OF True refl n[symmetric] empty refl refl this 1(3,4)] next_line_shrinks[OF n] empty show ?thesis by auto
    next
      case False
      then have "q = r" "g = f'" using 1(2) True n by (auto simp: next_frame.simps[of f] split: sum.splits option.splits list.splits)
      then show ?thesis using next_line_shrinks[OF n] 1(3,4) by blast
    qed
  next
    case False
    show ?thesis
    proof (cases "fr_framing f")
      case None
      then show ?thesis using 1(2,3) by (simp add: next_frame.simps[of f])
    next
      case (Some fg)
      then show ?thesis using False 1(2-4) next_length_prefixed_shrinks next_octet_counted_shrinks
        by (cases fg; cases r) (fastforce simp: next_frame.simps[of f])+
    qed
  qed
qed

text \<open>The frames of what is buffered, up to the first fatal error.\<close>

function take_frames :: "framer \<Rightarrow> (framing_error + bytes) list \<times> framer" where
  "take_frames f =
     (case next_frame f of
        (Inr None, f) \<Rightarrow> ([], f)
      | (Inr (Some m), f) \<Rightarrow> apfst (Cons (Inr m)) (take_frames f)
      | (Inl e, f) \<Rightarrow> if is_fatal e then ([Inl e], f) else apfst (Cons (Inl e)) (take_frames f))"
  by pat_completeness auto
termination
  by (relation "measure (length \<circ> fr_buf)") (auto dest!: next_frame_shrinks[OF sym])

declare take_frames.simps [simp del]

lemma take_frames_unlatched: "fr_framing f = None \<Longrightarrow> take_frames f = ([], f)"
  by (simp add: take_frames.simps[of f] next_frame.simps[of f])

definition ends_connection :: "(framing_error + bytes) list \<Rightarrow> bool" where
  "ends_connection rs \<longleftrightarrow> (\<exists>e. Inl e \<in> set rs \<and> is_fatal e)"

lemma ends_connection_simps [simp]:
  "ends_connection [] = False" "ends_connection (Inr m # rs) = ends_connection rs"
  "ends_connection (Inl e # rs) \<longleftrightarrow> is_fatal e \<or> ends_connection rs" "ends_connection (xs @ rs) \<longleftrightarrow> ends_connection xs \<or> ends_connection rs"
  by (auto simp: ends_connection_def)

lemma same_kind_trans: "same_kind f g \<Longrightarrow> same_kind g h \<Longrightarrow> same_kind f h"
  by (simp add: same_kind_def)

lemma take_frames_scan:
  "framer_ok f \<Longrightarrow> fr_framing f \<noteq> None \<Longrightarrow> take_frames f = (rs, f') \<Longrightarrow>
     framer_scan f = (map outcome_of rs, if ends_connection rs then Over else Waiting (fr_draining f') (fr_buf f')) \<and>
     (\<not> ends_connection rs \<longrightarrow> framer_ok f' \<and> same_kind f f')"
proof (induction f arbitrary: rs rule: take_frames.induct)
  case (1 f)
  obtain r g where n: "next_frame f = (r, g)" by fastforce
  have s: "says_scan f (r, g)" using next_frame_scan[OF 1(3,4)] n by simp
  note t = take_frames.simps[of f, unfolded n]
  have rest: "framer_scan g = (map outcome_of rs', if ends_connection rs' then Over else Waiting (fr_draining f') (fr_buf f')) \<and>
      (\<not> ends_connection rs' \<longrightarrow> framer_ok f' \<and> same_kind g f')"
    if asm: "take_frames g = (rs', f')" "framer_ok g" "same_kind f g" "r \<noteq> Inr None" "\<And>e. r = Inl e \<Longrightarrow> \<not> is_fatal e" for rs'
  proof -
    have "fr_framing g \<noteq> None" using asm(3) 1(4) by (simp add: same_kind_def)
    show ?thesis
    proof (cases r)
      case (Inl e)
      then show ?thesis using 1(1)[OF n[symmetric] Inl] asm \<open>fr_framing g \<noteq> None\<close> by blast
    next
      case (Inr x)
      then obtain m where "x = Some m" using asm(4) by (cases x) auto
      then show ?thesis using 1(2)[OF n[symmetric] Inr] asm \<open>fr_framing g \<noteq> None\<close> by blast
    qed
  qed
  show ?case
  proof (cases "r = Inr None \<or> (\<exists>e. r = Inl e \<and> is_fatal e)")
    case True
    then show ?thesis using s t 1(5) by (auto simp: says_scan_def)
  next
    case False
    obtain rs' h where h: "take_frames g = (rs', h)" by fastforce
    have "h = f'" "rs = (case r of Inl e \<Rightarrow> Inl e # rs' | Inr (Some m) \<Rightarrow> Inr m # rs' | Inr None \<Rightarrow> rs')"
      using t 1(5) h False by (auto split: sum.splits option.splits)
    moreover have "framer_ok g" "same_kind f g" using s False by (auto simp: says_scan_def split: sum.splits option.splits)
    ultimately show ?thesis using rest[of rs'] h s False same_kind_trans[of f g f']
      by (auto simp: says_scan_def split: sum.splits option.splits)
  qed
qed

text \<open>The reads of a connection: each is pushed and its frames taken, until an error ends it.\<close>

fun feed :: "bytes list \<Rightarrow> framer \<Rightarrow> (framing_error + bytes) list \<times> framer" where
  "feed [] f = ([], f)"
| "feed (c # cs) f =
     (let (rs, f) = take_frames (framer_push c f)
      in if ends_connection rs then (rs, f) else apfst ((@) rs) (feed cs f))"

text \<open>The whole stream at once.\<close>

definition framing_for :: "framing_mode \<Rightarrow> bytes \<Rightarrow> framing" where
  "framing_for mode bs =
     (case mode of
        Rfc6587_Auto \<Rightarrow> if bs \<noteq> [] \<and> is_ascii_digit (hd bs) then Octet_Counting else Non_Transparent
      | Lines _ \<Rightarrow> Non_Transparent | Length_Prefixed \<Rightarrow> Prefixed | Length_Prefixed_Le \<Rightarrow> Prefixed_Le)"

definition stream_scan :: "framing_mode \<Rightarrow> nat \<Rightarrow> bytes \<Rightarrow> outcome list \<times> bool tail" where
  "stream_scan mode bound bs = scan_all (framer_step mode bound (framing_for mode bs)) False bs"

definition framer_waits :: "framer \<Rightarrow> bool" where
  "framer_waits f \<longleftrightarrow> framer_ok f \<and> fr_framing f \<noteq> None \<and>
     framer_step (fr_mode f) (fr_max_frame_bytes f) (the (fr_framing f)) (fr_draining f) (fr_buf f) = Wants_More"

lemma framer_push_ok: "framer_ok f \<Longrightarrow> framer_ok (framer_push c f)"
  by (auto simp: framer_push_def framer_ok_def Let_def split: list.split)

lemma framer_push_latched:
  assumes "fr_framing f \<noteq> None"
  shows "framer_push c f = f\<lparr>fr_buf := fr_buf f @ c, fr_seen_bytes := fr_seen_bytes f \<or> c \<noteq> []\<rparr>"
  using assms by (auto simp: framer_push_def Let_def)

text \<open>Taking frames leaves the framer waiting for more, unless the connection ended.\<close>

lemma take_frames_waits:
  assumes "framer_ok f" and "fr_framing f \<noteq> None" and "take_frames f = (rs, f')" and "\<not> ends_connection rs"
  shows "framer_waits f' \<and> same_kind f f'"
proof -
  note s = take_frames_scan[OF assms(1-3)]
  have "framer_scan f = (map outcome_of rs, Waiting (fr_draining f') (fr_buf f'))" "framer_ok f'" "same_kind f f'" using s assms(4) by simp_all
  then show ?thesis using incremental.scan_all_waits[OF framer_step_incremental] assms(2) by (force simp: framer_waits_def same_kind_def)
qed

lemma feed_latched:
  "framer_waits f \<Longrightarrow> feed cs f = (rs, f') \<Longrightarrow>
     scan_all (framer_step (fr_mode f) (fr_max_frame_bytes f) (the (fr_framing f))) (fr_draining f) (fr_buf f @ concat cs) =
       (map outcome_of rs, if ends_connection rs then Over else Waiting (fr_draining f') (fr_buf f')) \<and>
     (\<not> ends_connection rs \<longrightarrow> framer_waits f' \<and> same_kind f f')"
proof (induction cs arbitrary: f rs)
  case Nil
  then show ?case using incremental.scan_all_step[OF framer_step_incremental] by (simp add: framer_waits_def same_kind_def)
next
  case (Cons c cs)
  let ?step = "framer_step (fr_mode f) (fr_max_frame_bytes f) (the (fr_framing f))"
  let ?p = "framer_push c f"
  have f: "framer_ok f" "fr_framing f \<noteq> None" using Cons.prems(1) by (simp_all add: framer_waits_def)
  note p = framer_push_latched[OF f(2), of c]
  obtain xs g where t: "take_frames ?p = (xs, g)" by fastforce
  have pn: "fr_framing ?p \<noteq> None" using f(2) by (simp add: p)
  have s: "scan_all ?step (fr_draining f) (fr_buf f @ c) = (map outcome_of xs, if ends_connection xs then Over else Waiting (fr_draining g) (fr_buf g))"
    using take_frames_scan[OF framer_push_ok[OF f(1)] pn t] by (simp add: p)
  note app = incremental.scan_all_append[OF framer_step_incremental, of "fr_mode f" "fr_max_frame_bytes f" "the (fr_framing f)" "fr_draining f" "fr_buf f @ c" "concat cs"]
  show ?case
  proof (cases "ends_connection xs")
    case True
    then show ?thesis using Cons.prems(2) t s app by simp
  next
    case False
    have g: "framer_waits g" "same_kind ?p g" using take_frames_waits[OF framer_push_ok[OF f(1)] pn t False] by simp_all
    then have k: "same_kind f g" by (simp add: p same_kind_def)
    obtain ys where ys: "feed cs g = (ys, f')" "rs = xs @ ys" using Cons.prems(2) t False by (cases "feed cs g") auto
    show ?thesis using Cons.IH[OF g(1) ys(1)] ys(2) s app False k by (auto simp: same_kind_def)
  qed
qed

lemma framer_step_empty: "framer_step mode bound fg False [] = Wants_More"
  by (cases fg) (simp_all add: octet_step_def prefix_step_def line_step_def)

lemma feed_fresh:
  "framer_ok f \<Longrightarrow> fr_framing f = None \<Longrightarrow> feed cs f = (rs, f') \<Longrightarrow>
     stream_scan (fr_mode f) (fr_max_frame_bytes f) (concat cs) = (map outcome_of rs, if ends_connection rs then Over else Waiting (fr_draining f') (fr_buf f'))"
proof (induction cs arbitrary: f rs)
  case Nil
  then show ?case using incremental.scan_all_step[OF framer_step_incremental] by (simp add: stream_scan_def framer_step_empty framer_ok_def)
next
  case (Cons c cs)
  have f: "fr_buf f = []" "\<not> fr_draining f" "fr_mode f = Rfc6587_Auto" using Cons.prems(1,2) by (simp_all add: framer_ok_def)
  show ?case
  proof (cases "c = []")
    case True
    then have p: "framer_push c f = f" using f by (simp add: framer_push_def Let_def)
    have "take_frames f = ([], f)" using Cons.prems(2) by (rule take_frames_unlatched)
    then have "feed cs f = (rs, f')" using Cons.prems(3) p by (cases "feed cs f") simp
    from Cons.IH[OF Cons.prems(1,2) this] True show ?thesis by simp
  next
    case False
    let ?p = "framer_push c f"
    have k: "fr_framing ?p = Some (framing_for Rfc6587_Auto (c @ concat cs))" "fr_buf ?p = c" "fr_mode ?p = Rfc6587_Auto"
        "fr_max_frame_bytes ?p = fr_max_frame_bytes f" "\<not> fr_draining ?p"
      using f Cons.prems(2) False by (cases c; simp add: framer_push_def Let_def framing_for_def)+
    obtain xs g where t: "take_frames ?p = (xs, g)" by fastforce
    have pn: "fr_framing ?p \<noteq> None" using k by simp
    note s = take_frames_scan[OF framer_push_ok[OF Cons.prems(1)] pn t]
    note app = incremental.scan_all_append[OF framer_step_incremental, of Rfc6587_Auto "fr_max_frame_bytes f" "framing_for Rfc6587_Auto (c @ concat cs)" False c "concat cs"]
    show ?thesis
    proof (cases "ends_connection xs")
      case True
      then show ?thesis using Cons.prems(3) t s app k f by (simp add: stream_scan_def)
    next
      case nofatal: False
      have g: "framer_waits g" "same_kind ?p g" using take_frames_waits[OF framer_push_ok[OF Cons.prems(1)] pn t nofatal] by simp_all
      obtain ys where ys: "feed cs g = (ys, f')" "rs = xs @ ys" using Cons.prems(3) t nofatal by (cases "feed cs g") auto
      show ?thesis using feed_latched[OF g(1) ys(1)] ys(2) s app k f nofatal g(2) by (simp add: stream_scan_def same_kind_def)
    qed
  qed
qed

lemma feed_stream:
  assumes "feed cs (framer_new mode bound) = (rs, f')"
  shows "stream_scan mode bound (concat cs) = (map outcome_of rs, if ends_connection rs then Over else Waiting (fr_draining f') (fr_buf f'))"
proof (cases "mode = Rfc6587_Auto")
  case True
  then show ?thesis using feed_fresh[OF _ _ assms] by (simp add: framer_new_def framer_ok_def)
next
  case False
  have k: "fr_framing (framer_new mode bound) = Some (framing_for mode (concat cs))" using False by (cases mode) (simp_all add: framer_new_def framing_for_def)
  then have "framer_waits (framer_new mode bound)"
    by (simp add: framer_waits_def framer_ok_def) (simp add: framer_new_def framer_step_empty)
  from feed_latched[OF this assms] k show ?thesis by (simp add: stream_scan_def) (simp add: framer_new_def)
qed

section \<open>What a waiting framer holds\<close>

fun overhead :: "framing \<Rightarrow> nat" where
  "overhead Octet_Counting = 10"
| "overhead Prefixed = 4"
| "overhead Prefixed_Le = 4"
| "overhead Non_Transparent = 0"

lemma count_digits_bound:
  "n \<le> MAX_COUNT_DIGITS \<Longrightarrow> count_digits n b = Inr (Some d) \<Longrightarrow> d \<le> MAX_COUNT_DIGITS"
  "n \<le> MAX_COUNT_DIGITS \<Longrightarrow> count_digits n b = Inr None \<Longrightarrow> n + length b \<le> MAX_COUNT_DIGITS"
  by (induction n b rule: count_digits.induct) (auto split: if_splits)

lemma waiting_bound:
  assumes "framer_step mode bound fg draining b = Wants_More"
  shows "length b \<le> bound + overhead fg" "fg = Non_Transparent \<Longrightarrow> draining \<Longrightarrow> b = []"
proof -
  show "length b \<le> bound + overhead fg"
  proof (cases fg)
    case Octet_Counting
    then show ?thesis using assms count_digits_bound[of 0 b]
      by (fastforce simp: octet_step_def Let_def MAX_COUNT_DIGITS_def split: sum.splits option.splits if_splits)
  qed (use assms in \<open>auto simp: prefix_step_def line_step_def Let_def split: if_splits option.splits oversize.splits\<close>)
  show "b = []" if "fg = Non_Transparent" "draining" using that assms by (auto simp: line_step_def split: if_splits option.splits)
qed

text \<open>What is left at the end of a connection that no error ended.\<close>

lemma feed_waits:
  assumes "feed cs (framer_new mode bound) = (rs, f)" and "\<not> ends_connection rs" and "concat cs \<noteq> [] \<or> mode \<noteq> Rfc6587_Auto"
  shows "framer_waits f \<and> fr_mode f = mode \<and> fr_max_frame_bytes f = bound \<and> fr_framing f = Some (framing_for mode (concat cs))"
  using assms
proof (induction cs arbitrary: rs)
  case Nil
  then have "fr_framing (framer_new mode bound) = Some (framing_for mode [])" by (cases mode) (auto simp: framer_new_def framing_for_def)
  then show ?case using Nil by (auto simp: framer_waits_def framer_ok_def) (simp_all add: framer_new_def framer_step_empty)
next
  case (Cons c cs)
  let ?n = "framer_new mode bound" and ?p = "framer_push c (framer_new mode bound)"
  have ok: "framer_ok ?n" by (cases mode) (simp_all add: framer_new_def framer_ok_def)
  show ?case
  proof (cases "mode = Rfc6587_Auto \<and> c = []")
    case True
    then have "?p = ?n" by (simp add: framer_push_def framer_new_def Let_def)
    moreover have "take_frames ?n = ([], ?n)" by (rule take_frames_unlatched) (simp add: True framer_new_def)
    ultimately have "feed cs ?n = (rs, f)" using Cons.prems(1) by (cases "feed cs ?n") simp
    from Cons.IH[OF this Cons.prems(2)] Cons.prems(3) True show ?thesis by simp
  next
    case False
    have k: "fr_framing ?p = Some (framing_for mode (c @ concat cs))" "fr_mode ?p = mode" "fr_max_frame_bytes ?p = bound"
      using False by (cases mode; cases c; simp add: framer_push_def framer_new_def Let_def framing_for_def)+
    obtain xs g where t: "take_frames ?p = (xs, g)" by fastforce
    have pn: "fr_framing ?p \<noteq> None" using k by simp
    have nx: "\<not> ends_connection xs" using Cons.prems(1,2) t by (auto split: if_splits prod.splits)
    have g: "framer_waits g" "same_kind ?p g" using take_frames_waits[OF framer_push_ok[OF ok] pn t nx] by simp_all
    obtain ys where ys: "feed cs g = (ys, f)" "rs = xs @ ys" using Cons.prems(1) t nx by (cases "feed cs g") auto
    show ?thesis using feed_latched[OF g(1) ys(1)] ys(2) Cons.prems(2) g(2) k by (auto simp: same_kind_def)
  qed
qed

lemma feed_empty:
  assumes "feed cs (framer_new Rfc6587_Auto bound) = (rs, f)" and "concat cs = []" shows "fr_buf f = []" "rs = []"
proof -
  have "framer_ok (framer_new Rfc6587_Auto bound)" by (simp add: framer_new_def framer_ok_def)
  from feed_fresh[OF this _ assms(1)] assms(2) incremental.scan_all_step[OF framer_step_incremental]
  show "fr_buf f = []" "rs = []" by (auto simp: framer_new_def stream_scan_def framer_step_empty split: if_splits)
qed

section \<open>Messages put on a stream\<close>

fun decimal :: "nat \<Rightarrow> bytes" where
  "decimal n = (if n < 10 then [48 + of_nat n] else decimal (n div 10) @ [48 + of_nat (n mod 10)])"

declare decimal.simps [simp del]

lemma digit_byte: "d < 10 \<Longrightarrow> is_ascii_digit (48 + of_nat d) \<and> unat (48 + of_nat d - 48 :: u8) = d"
proof -
  assume "d < 10"
  then have "d \<in> {0, 1, 2, 3, 4, 5, 6, 7, 8, 9}" by auto
  then show ?thesis by (auto simp: is_ascii_digit_def)
qed

lemma unat_digit [simp]: "d < 10 \<Longrightarrow> unat (word_of_nat d :: u8) = d"
  by (simp add: unsigned_of_nat take_bit_nat_eq_self_iff)

lemma decimal_digits: "list_all is_ascii_digit (decimal n)"
  by (induction n rule: decimal.induct) (subst decimal.simps, auto simp: digit_byte)

lemma parse_decimal: "parse_digits (decimal n) = n"
proof (induction n rule: decimal.induct)
  case (1 n)
  then show ?case by (subst decimal.simps) (auto simp: parse_digits_def digit_byte)
qed

lemma decimal_length: "0 < k \<Longrightarrow> n < 10 ^ k \<Longrightarrow> length (decimal n) \<le> k"
proof (induction n arbitrary: k rule: decimal.induct)
  case (1 n)
  show ?case
  proof (cases "n < 10")
    case False
    then obtain j where j: "k = Suc j" "0 < j" using 1(2,3) by (cases k; cases "k - 1") auto
    then have "n div 10 < 10 ^ j" using 1(3) by (simp add: less_mult_imp_div_less mult.commute)
    from 1(1)[OF False j(2) this] False j show ?thesis by (subst decimal.simps) simp
  qed (use 1 in \<open>subst decimal.simps, simp\<close>)
qed

lemma decimal_head: "0 < n \<Longrightarrow> decimal n \<noteq> [] \<and> hd (decimal n) \<noteq> 48"
proof (induction n rule: decimal.induct)
  case (1 n)
  show ?case
  proof (cases "n < 10")
    case True
    then have "n \<in> {1, 2, 3, 4, 5, 6, 7, 8, 9}" using 1(2) by auto
    then show ?thesis by (subst (1 2) decimal.simps) auto
  next
    case False
    then have "0 < n div 10" by simp
    from 1(1)[OF False this] False show ?thesis by (subst (1 2) decimal.simps) (simp add: hd_append)
  qed
qed

lemma count_digits_all:
  "list_all is_ascii_digit ds \<Longrightarrow> n + length ds \<le> MAX_COUNT_DIGITS \<Longrightarrow> count_digits n (ds @ 32 # rest) = Inr (Some (n + length ds))"
  by (induction ds arbitrary: n) (auto simp: is_ascii_digit_def)

text \<open>A message as a sender of each framing writes it, and the messages it can carry.\<close>

fun wrap_message :: "framing \<Rightarrow> bytes \<Rightarrow> bytes" where
  "wrap_message Octet_Counting m = decimal (length m) @ 32 # m"
| "wrap_message Prefixed m = be_bytes 4 (word_of_nat (length m) :: u32) @ m"
| "wrap_message Prefixed_Le m = le_bytes 4 (word_of_nat (length m) :: u32) @ m"
| "wrap_message Non_Transparent m = m @ [LF]"

fun framing_carries :: "framing \<Rightarrow> bytes \<Rightarrow> bool" where
  "framing_carries Octet_Counting m \<longleftrightarrow> 0 < length m \<and> length m < 10 ^ 9"
| "framing_carries Prefixed m \<longleftrightarrow> length m < 2 ^ 32"
| "framing_carries Prefixed_Le m \<longleftrightarrow> length m < 2 ^ 32"
| "framing_carries Non_Transparent m \<longleftrightarrow> m \<noteq> [] \<and> LF \<notin> set m \<and> last m \<noteq> CR"

lemma byte_at_absent: "x \<notin> set b \<Longrightarrow> byte_at x (b @ x # c) = Some (length b)"
  by (induction b) auto

lemma wrapped_step:
  assumes "framing_carries fg m" and "length m \<le> bound"
  shows "framer_step mode bound fg False (wrap_message fg m @ rest) = Took [Framed m] False rest"
proof (cases fg)
  case Octet_Counting
  have d: "list_all is_ascii_digit (decimal (length m))" "length (decimal (length m)) \<le> MAX_COUNT_DIGITS" "decimal (length m) \<noteq> []" "hd (decimal (length m)) \<noteq> 48"
    using assms Octet_Counting decimal_digits decimal_length[of 9] decimal_head by (auto simp: MAX_COUNT_DIGITS_def)
  have "count_digits 0 (decimal (length m) @ 32 # m @ rest) = Inr (Some (length (decimal (length m))))"
    using count_digits_all[of "decimal (length m)" 0 "m @ rest"] d by simp
  then show ?thesis using d assms Octet_Counting by (simp add: octet_step_def Let_def parse_decimal)
next
  case Non_Transparent
  then have "byte_at LF (m @ LF # rest) = Some (length m)" "strip_cr m = m" using assms by (simp_all add: byte_at_absent strip_cr_def)
  then show ?thesis using assms Non_Transparent by (simp add: line_step_def)
next
  case Prefixed
  have "unat (word_of_nat (length m) :: u32) = length m" using assms Prefixed by (simp add: unsigned_of_nat take_bit_nat_eq_self_iff)
  then show ?thesis using assms Prefixed by (simp add: prefix_step_def Let_def length_be_bytes from_be_bytes_be_bytes)
next
  case Prefixed_Le
  have "unat (word_of_nat (length m) :: u32) = length m" using assms Prefixed_Le by (simp add: unsigned_of_nat take_bit_nat_eq_self_iff)
  then show ?thesis using assms Prefixed_Le by (simp add: prefix_step_def Let_def length_le_bytes from_le_bytes_le_bytes)
qed

lemma wrapped_scan:
  "list_all (\<lambda>m. framing_carries fg m \<and> length m \<le> bound) ms \<Longrightarrow>
   scan_all (framer_step mode bound fg) False (concat (map (wrap_message fg) ms)) = (map Framed ms, Waiting False [])"
proof (induction ms)
  case Nil
  then show ?case using incremental.scan_all_step[OF framer_step_incremental] by (simp add: framer_step_empty)
next
  case (Cons m ms)
  then show ?case
    using incremental.scan_all_step[OF framer_step_incremental, of mode bound fg False "concat (map (wrap_message fg) (m # ms))"]
      wrapped_step[of fg m bound mode "concat (map (wrap_message fg) ms)"] by simp
qed

lemma outcomes_framed: "map outcome_of rs = map Framed ms \<Longrightarrow> rs = map Inr ms"
proof (induction rs arbitrary: ms)
  case (Cons r rs)
  then show ?case by (cases r; cases ms) (auto split: if_splits)
qed simp

section \<open>Properties\<close>

text \<open>
  C21. What a connection's framer hands out depends on the bytes alone, not on how the reads cut them:
  the messages, the lines dropped for their length, the error that ends the connection and the bytes
  still held are those of one scan of the whole stream, under every framing and bound.
\<close>

theorem framing_split_independent:
  "case feed cs (framer_new mode bound) of (rs, f) \<Rightarrow>
     stream_scan mode bound (concat cs) = (map outcome_of rs, if ends_connection rs then Over else Waiting (fr_draining f) (fr_buf f))"
  using feed_stream by (auto split: prod.split)

text \<open>
  C22. Messages put on a stream as its framing writes them come out as they went in, however the reads
  cut the stream, and nothing is left over.
\<close>

theorem framed_messages_arrive:
  assumes "list_all (\<lambda>m. framing_carries fg m \<and> length m \<le> bound) ms" and "concat cs = concat (map (wrap_message fg) ms)"
    and "framing_for mode (concat cs) = fg"
  shows "\<exists>f. feed cs (framer_new mode bound) = (map Inr ms, f) \<and> fr_buf f = [] \<and> fst (framer_finish f) = Inr None"
proof -
  obtain rs f where f: "feed cs (framer_new mode bound) = (rs, f)" by fastforce
  note s = feed_stream[OF f] wrapped_scan[OF assms(1), of mode]
  have "map outcome_of rs = map Framed ms" "fr_buf f = []" using s assms(2,3) by (auto simp: stream_scan_def split: if_splits)
  then show ?thesis using f outcomes_framed by (auto simp: framer_finish_def)
qed

theorem framed_messages_arrive_witness:
  "\<exists>f. feed [[53], [32, 104, 101], [108, 108, 111, 49], [32, 120]] (framer_new Rfc6587_Auto 10) = (map Inr [[104, 101, 108, 108, 111], [120]], f) \<and>
     fr_buf f = [] \<and> fst (framer_finish f) = Inr None"
  by (rule framed_messages_arrive[where fg = Octet_Counting])
    (simp_all add: decimal.simps framing_for_def is_ascii_digit_def)

text \<open>
  C23. A connection holds little: once the frames of a read are taken, at most the frame bound under
  lines, ten bytes more under octet counting and four more under a length prefix; and nothing while
  the rest of a line is being discarded.
\<close>

theorem framer_holds_little:
  assumes "feed cs (framer_new mode bound) = (rs, f)" and "\<not> ends_connection rs"
  shows "framer_buffered f \<le> bound + overhead (framing_for mode (concat cs)) \<and>
    (framing_for mode (concat cs) = Non_Transparent \<and> fr_draining f \<longrightarrow> framer_buffered f = 0)"
proof (cases "concat cs \<noteq> [] \<or> mode \<noteq> Rfc6587_Auto")
  case True
  from feed_waits[OF assms True] show ?thesis using waiting_bound by (auto simp: framer_waits_def framer_buffered_def)
next
  case False
  then show ?thesis using feed_empty[of cs bound rs f] assms(1) by (simp add: framer_buffered_def)
qed

theorem framer_holds_little_witness:
  "\<exists>rs f. feed [[97, 98], [99, 100, 101], [102]] (framer_new (Lines Drain_To_Next_Line) 4) = (rs, f) \<and> \<not> ends_connection rs \<and>
     framer_buffered f \<le> 4 + overhead (framing_for (Lines Drain_To_Next_Line) [97, 98, 99, 100, 101, 102])"
proof -
  obtain rs f where f: "feed [[97, 98], [99, 100, 101], [102]] (framer_new (Lines Drain_To_Next_Line) 4) = (rs, f)" by fastforce
  have "\<not> ends_connection rs" using f
    by (auto simp: framer_new_def framer_push_def take_frames.simps next_frame.simps next_line_def drain_line_def oversize_policy_def clear_buf_def
        split: if_splits)
  then show ?thesis using framer_holds_little[OF f] f by auto
qed

section \<open>The end of a connection\<close>

text \<open>What is left of a stream behind its last frame.\<close>

definition left_over :: "framing_mode \<Rightarrow> nat \<Rightarrow> bytes \<Rightarrow> bytes" where
  "left_over mode bound bs = (case snd (stream_scan mode bound bs) of Waiting draining rest \<Rightarrow> rest | Over \<Rightarrow> [])"

text \<open>Whether that is no loss: nothing, or under lines the white space of an empty line.\<close>

definition ends_blank :: "framing_mode \<Rightarrow> framing \<Rightarrow> bytes \<Rightarrow> bool" where
  "ends_blank mode fg rest \<longleftrightarrow>
     (if fg = Non_Transparent then (if mode = Rfc6587_Auto then strip_cr rest = [] else list_all is_ascii_whitespace rest) else rest = [])"

text \<open>The bytes behind the last \<open>LF\<close>.\<close>

definition unterminated :: "bytes \<Rightarrow> bytes" where
  "unterminated bs = rev (takeWhile (\<lambda>b. b \<noteq> LF) (rev bs))"

lemma strip_cr_empty: "strip_cr b = [] \<longleftrightarrow> b = [] \<or> b = [CR]"
  by (cases b rule: rev_cases) (auto simp: strip_cr_def)

lemma byte_at_none: "byte_at x b = None \<Longrightarrow> x \<notin> set b"
  by (induction b) (auto split: if_splits)

lemma byte_at_split: "byte_at x b = Some i \<Longrightarrow> b = take i b @ x # drop (i + 1) b"
  by (induction b arbitrary: i) (auto split: if_splits)

lemma unterminated_all: "LF \<notin> set b \<Longrightarrow> unterminated (a @ LF # b) = b" "LF \<notin> set b \<Longrightarrow> unterminated b = b"
proof -
  assume n: "LF \<notin> set b"
  have t: "takeWhile (\<lambda>b. b \<noteq> LF) (rev b @ c) = rev b @ takeWhile (\<lambda>b. b \<noteq> LF) c" for c
    by (rule takeWhile_append2) (use n in auto)
  show "unterminated (a @ LF # b) = b" using t[of "LF # rev a"] by (simp add: unterminated_def)
  show "unterminated b = b" unfolding unterminated_def using t[of "[]"] by (simp only: append_Nil2 takeWhile.simps(1) rev_rev_ident)
qed

lemma unterminated_after: "unterminated (a @ LF # b) = unterminated b"
proof (cases "LF \<in> set b")
  case True
  then show ?thesis by (simp add: unterminated_def)
qed (simp add: unterminated_all)

lemma unterminated_line: "byte_at LF b = None \<Longrightarrow> unterminated b = b"
  by (simp add: byte_at_none unterminated_all(2))

lemma unterminated_next: "byte_at LF b = Some i \<Longrightarrow> unterminated (drop (i + 1) b) = unterminated b"
  using unterminated_after[of "take i b" "drop (i + 1) b"] byte_at_split[of LF b i] by simp

lemma lines_left_over: "scan_all (line_step policy bound) s b = (xs, Waiting False rest) \<Longrightarrow> rest = unterminated b"
proof (induction "length b" arbitrary: s b xs rule: less_induct)
  case less
  note step = lines.scan_all_step[of policy bound s b]
  show ?case
  proof (cases "line_step policy bound s b")
    case Wants_More
    then have "byte_at LF b = None" "rest = b" using less.prems step by (auto simp: line_step_def Let_def split: if_splits option.splits oversize.splits)
    then show ?thesis by (simp add: unterminated_line)
  next
    case (Stopped x)
    then show ?thesis using less.prems step by simp
  next
    case (Took ys t c)
    obtain zs where z: "scan_all (line_step policy bound) t c = (zs, Waiting False rest)"
      using less.prems step Took by (cases "scan_all (line_step policy bound) t c") auto
    have "t = True \<and> c = [] \<or> (\<exists>i. byte_at LF b = Some i \<and> c = drop (i + 1) b)"
      using Took by (auto simp: line_step_def Let_def split: if_splits option.splits oversize.splits)
    then show ?thesis
    proof (elim disjE exE conjE)
      assume "t = True" "c = []"
      then show ?thesis using z lines.scan_all_step[of policy bound True "[]"] by (simp add: line_step_def)
    next
      fix i assume "byte_at LF b = Some i" "c = drop (i + 1) b"
      then show ?thesis using less.hyps[OF lines.shrinks[OF Took] z] unterminated_next by simp
    qed
  qed
qed

text \<open>
  C24. A clean end and an abrupt one agree about what is left of a connection. When that is no loss,
  neither reports it; otherwise the abrupt end counts it as truncated, and so does the clean one,
  except under lines of RFC 6587, where it is delivered as the last message, without a trailing \<open>CR\<close>.
  Under lines what is left is what stands behind the last \<open>LF\<close>, or nothing.
\<close>

theorem fin_and_reset_agree:
  assumes "feed cs (framer_new mode bound) = (rs, f)" and "\<not> ends_connection rs"
  shows "let bs = concat cs; fg = framing_for mode bs; rest = left_over mode bound bs in
    (if ends_blank mode fg rest then fst (framer_finish f) = Inr None \<and> fst (abandon f) = None
     else
       (\<exists>e. fst (abandon f) = Some e \<and> framing_reason e = ''truncated'') \<and>
       (if mode = Rfc6587_Auto \<and> fg = Non_Transparent then fst (framer_finish f) = Inr (Some (strip_cr rest))
        else \<exists>e. fst (framer_finish f) = Inl e \<and> framing_reason e = ''truncated'')) \<and>
    (fg = Non_Transparent \<longrightarrow> rest = [] \<or> rest = unterminated bs)"
proof (cases "concat cs \<noteq> [] \<or> mode \<noteq> Rfc6587_Auto")
  case False
  then have "fr_buf f = []" "mode = Rfc6587_Auto" using feed_empty[of cs bound rs f] assms(1) by simp_all
  then show ?thesis using feed_stream[OF assms(1)] assms(2)
    by (simp add: framer_finish_def abandon_def left_over_def ends_blank_def strip_cr_empty)
next
  case True
  let ?bs = "concat cs" and ?fg = "framing_for mode (concat cs)"
  note w = feed_waits[OF assms True]
  have sc: "stream_scan mode bound ?bs = (map outcome_of rs, Waiting (fr_draining f) (fr_buf f))" using feed_stream[OF assms(1)] assms(2) by simp
  then have rest: "left_over mode bound ?bs = fr_buf f" by (simp add: left_over_def)
  have le: "?fg = Non_Transparent \<Longrightarrow> length (fr_buf f) \<le> bound" "?fg = Non_Transparent \<Longrightarrow> fr_draining f \<Longrightarrow> fr_buf f = []"
    using waiting_bound[of mode bound Non_Transparent "fr_draining f" "fr_buf f"] w by (auto simp: framer_waits_def)
  have "fr_buf f = [] \<or> fr_buf f = unterminated ?bs" if "?fg = Non_Transparent"
    using le(2)[OF that] lines_left_over[of _ bound False ?bs] sc that by (cases "fr_draining f") (auto simp: stream_scan_def)
  then show ?thesis using w le unfolding Let_def rest
    by (cases mode; cases ?fg)
      (auto simp: framer_finish_def abandon_def remainder_is_blank_def strip_cr_empty framing_for_def framer_waits_def framer_ok_def ends_blank_def split: if_splits)
qed

text \<open>The end of an RFC 6587 stream without its last \<open>LF\<close>.\<close>

theorem fin_and_reset_agree_witness:
  "\<exists>f. feed [[97], [10, 98], [13]] (framer_new Rfc6587_Auto 4) = ([Inr [97]], f) \<and> fst (framer_finish f) = Inr (Some [98]) \<and>
     (\<exists>e. fst (abandon f) = Some e \<and> framing_reason e = ''truncated'')"
proof -
  let ?cs = "[[97], [10, 98], [13]] :: bytes list"
  obtain rs f where f: "feed ?cs (framer_new Rfc6587_Auto 4) = (rs, f)" by fastforce
  then have n: "rs = [Inr [97]]" "fr_buf f = [98, 13]"
    by (auto simp: framer_new_def framer_push_def take_frames.simps next_frame.simps next_line_def drain_line_def is_ascii_digit_def
        oversize_policy_def strip_cr_def split: if_splits)
  have fg: "framing_for Rfc6587_Auto (concat ?cs) = Non_Transparent" by (simp add: framing_for_def is_ascii_digit_def)
  have "\<not> ends_connection rs" by (simp add: n)
  note t = fin_and_reset_agree[OF f this]
  have "left_over Rfc6587_Auto 4 (concat ?cs) = [98, 13]" using feed_stream[OF f] n by (simp add: left_over_def)
  then show ?thesis using t f n(1) by (simp add: fg Let_def ends_blank_def strip_cr_def del: concat.simps)
qed

end
