(* ===== verification/Accumulator.thy ===== *)
theory Accumulator
  imports Native_Batch
begin

text \<open>
  \<open>crates/logit-pipeline/src/accumulator.rs\<close>: \<open>BatchAccumulator\<close>, which merges the small batches a
  listener decodes. An \<open>Arc\<close> is the identity of its allocation, and what it points to never changes.
  Heap estimates and the growth of a vector's capacity are functions of the environment; the deadline
  is \<open>advance_flush_deadline\<close> of \<open>crates/logit-pipeline/src/runtime.rs\<close>, over instants as naturals.
\<close>

datatype flush_reason = Max_Events | Max_Bytes | Interval | Resource_Change | Scope_Change | Shutdown | Closed

fun flush_reason_as_str :: "flush_reason \<Rightarrow> string" where
  "flush_reason_as_str Max_Events = ''max_events''"
| "flush_reason_as_str Max_Bytes = ''max_bytes''"
| "flush_reason_as_str Interval = ''interval''"
| "flush_reason_as_str Resource_Change = ''resource_change''"
| "flush_reason_as_str Scope_Change = ''scope_change''"
| "flush_reason_as_str Shutdown = ''shutdown''"
| "flush_reason_as_str Closed = ''closed''"

type_synonym arc = nat

record ('k, 'd, 'h) heap_env =
  hp_resource :: "arc \<Rightarrow> 'k resource"
  hp_scope :: "arc \<Rightarrow> 'k scope"
  hp_resource_bytes :: "'k resource \<Rightarrow> nat"
  hp_scope_bytes :: "'k scope \<Rightarrow> nat"
  hp_event_bytes :: "('k, 'd, 'h) event \<Rightarrow> nat"
  hp_event_size :: nat
  hp_grown :: "nat \<Rightarrow> nat \<Rightarrow> nat"

text \<open>\<open>Vec::append\<close>: the capacity grows only when what is held does not fit, to at least what does.\<close>

definition grown_capacity :: "('k, 'd, 'h) heap_env \<Rightarrow> nat \<Rightarrow> nat \<Rightarrow> nat" where
  "grown_capacity H capacity needed = (if needed \<le> capacity then capacity else max needed (hp_grown H capacity needed))"

record ('k, 'd, 'h) accumulator =
  ac_resource :: "arc option"
  ac_scope :: "arc option"
  ac_events :: "('k, 'd, 'h) event list"
  ac_capacity :: nat
  ac_resource_weight :: nat
  ac_scope_weight :: nat
  ac_events_weight :: nat
  ac_max_events :: nat
  ac_max_bytes :: nat

definition accumulator_new :: "nat \<Rightarrow> nat \<Rightarrow> ('k, 'd, 'h) accumulator" where
  "accumulator_new max_events max_bytes =
     \<lparr>ac_resource = None, ac_scope = None, ac_events = [], ac_capacity = 0, ac_resource_weight = 0, ac_scope_weight = 0,
      ac_events_weight = 0, ac_max_events = max_events, ac_max_bytes = max_bytes\<rparr>"

definition current_weight :: "('k, 'd, 'h) heap_env \<Rightarrow> ('k, 'd, 'h) accumulator \<Rightarrow> nat" where
  "current_weight H a = ac_resource_weight a + ac_scope_weight a + ac_capacity a * hp_event_size H + ac_events_weight a"

definition accumulator_take ::
    "('k, 'd, 'h) heap_env \<Rightarrow> ('k, 'd, 'h) accumulator \<Rightarrow> ('k, 'd, 'h) event_batch option \<times> ('k, 'd, 'h) accumulator" where
  "accumulator_take H a =
     (case ac_resource a of
        None \<Rightarrow> (None, a)
      | Some resource \<Rightarrow>
          (Some \<lparr>b_resource = hp_resource H resource, b_scope = map_option (hp_scope H) (ac_scope a), b_events = ac_events a\<rparr>,
           a\<lparr>ac_resource := None, ac_scope := None, ac_events := [], ac_capacity := 0, ac_resource_weight := 0,
             ac_scope_weight := 0, ac_events_weight := 0\<rparr>))"

text \<open>Two \<open>None\<close>s are equal, and two \<open>Some\<close>s when they are one allocation.\<close>

definition scope_eq :: "arc option \<Rightarrow> arc option \<Rightarrow> bool" where
  "scope_eq a b = (case (a, b) of (None, None) \<Rightarrow> True | (Some a, Some b) \<Rightarrow> a = b | _ \<Rightarrow> False)"

text \<open>A key is adopted with the weights of what it points to.\<close>

definition hold_key :: "('k, 'd, 'h) heap_env \<Rightarrow> arc \<Rightarrow> arc option \<Rightarrow> ('k, 'd, 'h) accumulator \<Rightarrow> ('k, 'd, 'h) accumulator" where
  "hold_key H resource scope a =
     a\<lparr>ac_resource_weight := hp_resource_bytes H (hp_resource H resource),
       ac_scope_weight := (case scope of Some s \<Rightarrow> hp_scope_bytes H (hp_scope H s) | None \<Rightarrow> 0),
       ac_resource := Some resource, ac_scope := scope\<rparr>"

definition append_events ::
    "('k, 'd, 'h) heap_env \<Rightarrow> ('k, 'd, 'h) event list \<Rightarrow> ('k, 'd, 'h) accumulator \<Rightarrow> ('k, 'd, 'h) accumulator" where
  "append_events H events a =
     a\<lparr>ac_events := ac_events a @ events, ac_capacity := grown_capacity H (ac_capacity a) (length (ac_events a) + length events)\<rparr>"

definition absorb ::
    "('k, 'd, 'h) heap_env \<Rightarrow> arc \<Rightarrow> arc option \<Rightarrow> ('k, 'd, 'h) event list \<Rightarrow> ('k, 'd, 'h) accumulator \<Rightarrow>
     (('k, 'd, 'h) event_batch \<times> flush_reason) option \<times> ('k, 'd, 'h) accumulator" where
  "absorb H resource scope events a =
     (if events = [] then (None, a)
      else
        (let resource_changed = (case ac_resource a of Some held \<Rightarrow> held \<noteq> resource | None \<Rightarrow> False);
             scope_changed = (ac_resource a \<noteq> None \<and> \<not> scope_eq (ac_scope a) scope);
             incoming_weight = sum_list (map (hp_event_bytes H) events)
         in if resource_changed \<or> scope_changed then
              (let (flushed, a) = accumulator_take H a;
                   a = (append_events H events (hold_key H resource scope a))\<lparr>ac_events_weight := incoming_weight\<rparr>
               in (map_option (\<lambda>b. (b, if resource_changed then Resource_Change else Scope_Change)) flushed, a))
            else
              (let a = (if ac_resource a = None then hold_key H resource scope a else a\<lparr>ac_resource := Some resource, ac_scope := scope\<rparr>);
                   a = append_events H events a;
                   a = a\<lparr>ac_events_weight := ac_events_weight a + incoming_weight\<rparr>
               in if length (ac_events a) \<ge> ac_max_events a then apfst (map_option (\<lambda>b. (b, Max_Events))) (accumulator_take H a)
                  else if current_weight H a \<ge> ac_max_bytes a then apfst (map_option (\<lambda>b. (b, Max_Bytes))) (accumulator_take H a)
                  else (None, a))))"

definition cadence_remainder :: "nat \<Rightarrow> nat \<Rightarrow> nat" where
  "cadence_remainder lateness interval = lateness mod max interval 1"

text \<open>\<open>latest\<close> is the last instant the platform can represent.\<close>

definition instant_checked_add :: "nat \<Rightarrow> nat \<Rightarrow> nat \<Rightarrow> nat option" where
  "instant_checked_add latest instant d = (if instant + d \<le> latest then Some (instant + d) else None)"

text \<open>The next point of the cadence strictly after \<open>now\<close>.\<close>

definition advance_flush_deadline :: "nat \<Rightarrow> nat \<Rightarrow> nat \<Rightarrow> nat \<Rightarrow> nat" where
  "advance_flush_deadline latest deadline now interval =
     (let remainder = cadence_remainder (now - deadline) interval;
          until_next = (if remainder = 0 then interval else interval - remainder)
      in case instant_checked_add latest now until_next of
           Some t \<Rightarrow> t
         | None \<Rightarrow> (case instant_checked_add latest now 1 of Some t \<Rightarrow> t | None \<Rightarrow> now))"

section \<open>What is held\<close>

text \<open>Events under the resource and scope they were decoded with.\<close>

definition under :: "('k, 'd, 'h) heap_env \<Rightarrow> arc \<Rightarrow> arc option \<Rightarrow> ('k, 'd, 'h) event list \<Rightarrow> ('k resource \<times> 'k scope option \<times> ('k, 'd, 'h) event) list" where
  "under H resource scope events = map (\<lambda>e. (hp_resource H resource, map_option (hp_scope H) scope, e)) events"

definition batch_events :: "('k, 'd, 'h) event_batch \<Rightarrow> ('k resource \<times> 'k scope option \<times> ('k, 'd, 'h) event) list" where
  "batch_events b = map (\<lambda>e. (b_resource b, b_scope b, e)) (b_events b)"

definition held_events :: "('k, 'd, 'h) heap_env \<Rightarrow> ('k, 'd, 'h) accumulator \<Rightarrow> ('k resource \<times> 'k scope option \<times> ('k, 'd, 'h) event) list" where
  "held_events H a = (case ac_resource a of None \<Rightarrow> [] | Some resource \<Rightarrow> under H resource (ac_scope a) (ac_events a))"

text \<open>Something is held exactly when there are events, and the cached weights are those of what is held.\<close>

definition accumulator_ok :: "('k, 'd, 'h) heap_env \<Rightarrow> ('k, 'd, 'h) accumulator \<Rightarrow> bool" where
  "accumulator_ok H a \<longleftrightarrow> (ac_resource a = None \<longleftrightarrow> ac_events a = []) \<and> length (ac_events a) \<le> ac_capacity a \<and>
     ac_events_weight a = sum_list (map (hp_event_bytes H) (ac_events a)) \<and>
     ac_resource_weight a = (case ac_resource a of None \<Rightarrow> 0 | Some r \<Rightarrow> hp_resource_bytes H (hp_resource H r)) \<and>
     ac_scope_weight a = (case ac_scope a of None \<Rightarrow> 0 | Some s \<Rightarrow> hp_scope_bytes H (hp_scope H s)) \<and>
     (ac_resource a = None \<longrightarrow> ac_scope a = None \<and> ac_capacity a = 0)"

lemma scope_eq_iff [simp]: "scope_eq a b \<longleftrightarrow> a = b"
  by (cases a; cases b) (simp_all add: scope_eq_def)

lemma accumulator_new_ok: "accumulator_ok H (accumulator_new m n)" "held_events H (accumulator_new m n) = []"
  by (simp_all add: accumulator_ok_def accumulator_new_def held_events_def)

definition flushed_events :: "('k, 'd, 'h) event_batch option \<Rightarrow> ('k resource \<times> 'k scope option \<times> ('k, 'd, 'h) event) list" where
  "flushed_events b = (case b of None \<Rightarrow> [] | Some b \<Rightarrow> batch_events b)"

lemma accumulator_take_spec:
  assumes "accumulator_ok H a" and "accumulator_take H a = (b, a')"
  shows "accumulator_ok H a'" "held_events H a' = []" "flushed_events b = held_events H a" "ac_max_events a' = ac_max_events a" "ac_max_bytes a' = ac_max_bytes a"
    "b = None \<longleftrightarrow> held_events H a = []"
  using assms by (auto simp: accumulator_take_def accumulator_ok_def held_events_def flushed_events_def batch_events_def under_def split: option.splits)

lemma append_events_fields [simp]:
  "ac_resource (append_events H es a) = ac_resource a" "ac_scope (append_events H es a) = ac_scope a"
  "ac_events (append_events H es a) = ac_events a @ es" "ac_resource_weight (append_events H es a) = ac_resource_weight a"
  "ac_scope_weight (append_events H es a) = ac_scope_weight a" "ac_events_weight (append_events H es a) = ac_events_weight a"
  "ac_max_events (append_events H es a) = ac_max_events a" "ac_max_bytes (append_events H es a) = ac_max_bytes a"
  "length (ac_events a) + length es \<le> ac_capacity (append_events H es a)"
  by (simp_all add: append_events_def grown_capacity_def)

text \<open>What goes in is held or goes out, in order and under its key.\<close>

lemma absorb_spec:
  assumes ok: "accumulator_ok H a" and ab: "absorb H resource scope events a = (r, a')"
  shows "accumulator_ok H a' \<and> held_events H a @ under H resource scope events = flushed_events (map_option fst r) @ held_events H a' \<and>
    ac_max_events a' = ac_max_events a \<and> ac_max_bytes a' = ac_max_bytes a"
proof (cases "events = []")
  case True
  then show ?thesis using ok ab by (simp add: absorb_def under_def flushed_events_def)
next
  case ne: False
  let ?changed = "(case ac_resource a of Some held \<Rightarrow> held \<noteq> resource | None \<Rightarrow> False) \<or> (ac_resource a \<noteq> None \<and> ac_scope a \<noteq> scope)"
  show ?thesis
  proof (cases ?changed)
    case True
    obtain b a1 where t: "accumulator_take H a = (b, a1)" by fastforce
    note l = accumulator_take_spec[OF ok t]
    have a1: "ac_events a1 = []" using l(1,2) by (auto simp: accumulator_ok_def held_events_def under_def split: option.splits)
    define a2 where "a2 = (append_events H events (hold_key H resource scope a1))\<lparr>ac_events_weight := sum_list (map (hp_event_bytes H) events)\<rparr>"
    have k2: "accumulator_ok H a2" "held_events H a2 = under H resource scope events" "ac_max_events a2 = ac_max_events a1" "ac_max_bytes a2 = ac_max_bytes a1"
      using a1 ne append_events_fields(9)[of "hold_key H resource scope a1" events H]
      by (auto simp: a2_def accumulator_ok_def hold_key_def held_events_def under_def split: option.splits)
    have "a' = a2" "map_option fst r = b" using ab ne True t by (auto simp: absorb_def Let_def a2_def option.map_comp comp_def option.map_ident)
    then show ?thesis using l k2 by simp
  next
    case False
    define a1 where "a1 = (if ac_resource a = None then hold_key H resource scope a else a\<lparr>ac_resource := Some resource, ac_scope := scope\<rparr>)"
    define a2 where "a2 = (append_events H events a1)\<lparr>ac_events_weight := ac_events_weight a1 + sum_list (map (hp_event_bytes H) events)\<rparr>"
    have k2: "accumulator_ok H a2" "held_events H a2 = held_events H a @ under H resource scope events" "ac_max_events a2 = ac_max_events a" "ac_max_bytes a2 = ac_max_bytes a"
      using ok False ne append_events_fields(9)[of a1 events H]
      by (auto simp: a2_def a1_def accumulator_ok_def hold_key_def held_events_def under_def split: option.splits if_splits)
    have r: "(r, a') = (if length (ac_events a2) \<ge> ac_max_events a2 then apfst (map_option (\<lambda>b. (b, Max_Events))) (accumulator_take H a2)
        else if current_weight H a2 \<ge> ac_max_bytes a2 then apfst (map_option (\<lambda>b. (b, Max_Bytes))) (accumulator_take H a2) else (None, a2))"
      using ab ne False by (auto simp: absorb_def Let_def a2_def a1_def)
    obtain b a3 where t: "accumulator_take H a2 = (b, a3)" by fastforce
    note l = accumulator_take_spec[OF k2(1) t]
    show ?thesis using r k2 l t by (auto simp: option.map_comp comp_def option.map_ident flushed_events_def split: if_splits)
  qed
qed
section \<open>Runs\<close>

text \<open>What a listener's loop does with its accumulator: absorb a decoded message, or take what is held.\<close>

datatype ('k, 'd, 'h) accumulator_op = Op_Absorb arc "arc option" "('k, 'd, 'h) event list" | Op_Take

fun accumulator_op_step :: "('k, 'd, 'h) heap_env \<Rightarrow> ('k, 'd, 'h) accumulator_op \<Rightarrow> ('k, 'd, 'h) accumulator \<Rightarrow> ('k, 'd, 'h) accumulator" where
  "accumulator_op_step H (Op_Absorb resource scope events) a = snd (absorb H resource scope events a)"
| "accumulator_op_step H Op_Take a = snd (accumulator_take H a)"

definition accumulator_run :: "('k, 'd, 'h) heap_env \<Rightarrow> ('k, 'd, 'h) accumulator_op list \<Rightarrow> ('k, 'd, 'h) accumulator \<Rightarrow> ('k, 'd, 'h) accumulator" where
  "accumulator_run H = fold (accumulator_op_step H)"

lemma accumulator_op_ok:
  assumes "accumulator_ok H a"
  shows "accumulator_ok H (accumulator_op_step H x a) \<and> ac_max_events (accumulator_op_step H x a) = ac_max_events a \<and>
    ac_max_bytes (accumulator_op_step H x a) = ac_max_bytes a"
proof (cases x)
  case (Op_Absorb r s es)
  then show ?thesis using absorb_spec[OF assms] by (cases "absorb H r s es a") simp
next
  case Op_Take
  then show ?thesis using accumulator_take_spec[OF assms] by (cases "accumulator_take H a") simp
qed

lemma accumulator_run_ok:
  "accumulator_ok H a \<Longrightarrow> accumulator_ok H (accumulator_run H xs a) \<and> ac_max_events (accumulator_run H xs a) = ac_max_events a \<and>
     ac_max_bytes (accumulator_run H xs a) = ac_max_bytes a"
proof (induction xs arbitrary: a)
  case (Cons x xs)
  from Cons.IH[OF conjunct1[OF accumulator_op_ok[OF Cons.prems]]] accumulator_op_ok[OF Cons.prems]
  show ?case by (simp add: accumulator_run_def)
qed (simp add: accumulator_run_def)

text \<open>The full recompute of \<open>EventBatch::estimated_heap_bytes\<close>, for a vector of the given capacity.\<close>

definition recomputed_weight :: "('k, 'd, 'h) heap_env \<Rightarrow> nat \<Rightarrow> ('k, 'd, 'h) event_batch option \<Rightarrow> nat" where
  "recomputed_weight H capacity b =
     (case b of
        None \<Rightarrow> 0
      | Some b \<Rightarrow> hp_resource_bytes H (b_resource b) + (case b_scope b of Some s \<Rightarrow> hp_scope_bytes H s | None \<Rightarrow> 0) +
          capacity * hp_event_size H + sum_list (map (hp_event_bytes H) (b_events b)))"

lemma cached_weight_exact: "accumulator_ok H a \<Longrightarrow> current_weight H a = recomputed_weight H (ac_capacity a) (fst (accumulator_take H a))"
  by (auto simp: accumulator_ok_def current_weight_def recomputed_weight_def accumulator_take_def split: option.split)

lemma absorb_quiet:
  assumes "absorb H resource scope events a = (None, a')" and "events \<noteq> []" and "accumulator_ok H a"
  shows "length (ac_events a') < ac_max_events a \<and> current_weight H a' < ac_max_bytes a"
proof -
  have r: "ac_resource a = None \<Longrightarrow> ac_scope a = None" using assms(3) by (simp add: accumulator_ok_def)
  show ?thesis
    using assms(1,2) by (auto simp: absorb_def Let_def accumulator_take_def hold_key_def append_events_def split: if_splits option.splits)
qed

lemma absorb_full:
  "absorb H resource scope events a = (Some (b, why), a') \<Longrightarrow> why = Max_Events \<or> why = Max_Bytes \<Longrightarrow>
   ac_events a' = [] \<and> (why = Max_Events \<longrightarrow> ac_max_events a \<le> length (b_events b))"
  by (auto simp: absorb_def Let_def accumulator_take_def hold_key_def append_events_def split: if_splits option.splits)

section \<open>Properties\<close>

text \<open>
  C26. The accumulator's bounds: after any run, the weight it keeps incrementally is the one a full
  recompute of the batch it would emit gives; a message that does not flush leaves fewer events and
  less weight than the bounds; and a flush for a bound leaves nothing behind, the decoded message
  being never split.
\<close>

theorem accumulator_bounds:
  assumes "absorb H resource scope events (accumulator_run H xs (accumulator_new max_events max_bytes)) = (flushed, a)" and "events \<noteq> []"
  shows "current_weight H a = recomputed_weight H (ac_capacity a) (fst (accumulator_take H a)) \<and>
    (case flushed of
       None \<Rightarrow> length (ac_events a) < max_events \<and> current_weight H a < max_bytes
     | Some (b, why) \<Rightarrow> if why = Max_Events \<or> why = Max_Bytes then ac_events a = [] else ac_events a = events)"
proof -
  let ?a = "accumulator_run H xs (accumulator_new max_events max_bytes)"
  have ok: "accumulator_ok H ?a" "ac_max_events ?a = max_events" "ac_max_bytes ?a = max_bytes"
    using accumulator_run_ok[OF accumulator_new_ok(1)] by (auto simp: accumulator_new_def)
  have "accumulator_ok H a" using absorb_spec[OF ok(1) assms(1)] by simp
  note w = cached_weight_exact[OF this]
  show ?thesis
  proof (cases flushed)
    case None
    then show ?thesis using w absorb_quiet[OF assms(1)[unfolded None] assms(2) ok(1)] ok by simp
  next
    case (Some x)
    obtain b why where x: "x = (b, why)" by fastforce
    have "\<not> (why = Max_Events \<or> why = Max_Bytes) \<Longrightarrow> ac_events a = events"
      using assms Some x by (auto simp: absorb_def Let_def accumulator_take_def hold_key_def append_events_def split: if_splits option.splits)
    then show ?thesis using w Some x absorb_full[OF assms(1)[unfolded Some x]] by auto
  qed
qed

definition example_heap :: "(nat, nat, nat) heap_env" where
  "example_heap = \<lparr>hp_resource = (\<lambda>a. \<lparr>res_attributes = [], res_dropped_attributes_count = of_nat a, res_schema_url = None\<rparr>),
     hp_scope = (\<lambda>a. \<lparr>scope_name = [], scope_version = [], scope_attributes = [], scope_dropped_attributes_count = of_nat a, scope_schema_url = None\<rparr>),
     hp_resource_bytes = (\<lambda>_. 24), hp_scope_bytes = (\<lambda>_. 80), hp_event_bytes = (\<lambda>e. 40 * length (ev_attributes e)), hp_event_size = 160,
     hp_grown = (\<lambda>c n. 2 * c)\<rparr>"

definition example_event :: "i64 \<Rightarrow> bytes \<Rightarrow> (nat, nat, nat) event" where
  "example_event at m = \<lparr>ev_timestamp = at, ev_attributes = [(0, V_Str m)], ev_log = None, ev_metrics = [], ev_span = None\<rparr>"

theorem accumulator_bounds_witness:
  "\<exists>a. absorb example_heap 1 None [example_event 7 [98]]
      (accumulator_run example_heap [Op_Absorb 1 None [example_event 5 [97]]] (accumulator_new 4 1000)) = (None, a) \<and>
    current_weight example_heap a = recomputed_weight example_heap (ac_capacity a) (fst (accumulator_take example_heap a)) \<and>
    length (ac_events a) < 4 \<and> current_weight example_heap a < 1000"
proof -
  let ?a = "accumulator_run example_heap [Op_Absorb 1 None [example_event 5 [97]]] (accumulator_new 4 1000)"
  obtain f a where r: "absorb example_heap 1 None [example_event 7 [98]] ?a = (f, a)" by fastforce
  moreover have "f = None" using r
    by (simp add: absorb_def accumulator_run_def accumulator_new_def append_events_def hold_key_def grown_capacity_def
        current_weight_def example_heap_def example_event_def Let_def split: if_splits)
  ultimately show ?thesis using accumulator_bounds[OF r] by auto
qed

text \<open>
  A flush deadline that passed moves to the first point of its cadence after the clock: later than
  now, no further than one interval, and a whole number of intervals from where it was; and where the
  platform has no such instant, it still moves past the clock while there is one later.
\<close>

theorem flush_deadline_cadence:
  assumes "deadline \<le> now" and "0 < interval" and "now < latest"
  shows "now < advance_flush_deadline latest deadline now interval \<and> advance_flush_deadline latest deadline now interval \<le> now + interval \<and>
    (now + interval \<le> latest \<longrightarrow> (\<exists>k. advance_flush_deadline latest deadline now interval = deadline + k * interval))"
proof -
  let ?q = "(now - deadline) div interval" and ?r = "(now - deadline) mod interval"
  have m: "now = deadline + ?q * interval + ?r" using assms(1) by simp
  have lt: "?r < interval" using assms(2) by simp
  have c: "cadence_remainder (now - deadline) interval = ?r" using assms(2) by (cases interval) (simp_all add: cadence_remainder_def)
  have u: "(if ?r = 0 then interval else interval - ?r) = interval - ?r" by simp
  have k: "now + (interval - ?r) = deadline + Suc ?q * interval" using m lt unfolding mult_Suc by linarith
  show ?thesis
  proof (cases "now + (interval - ?r) \<le> latest")
    case True
    then have "advance_flush_deadline latest deadline now interval = now + (interval - ?r)"
      unfolding advance_flush_deadline_def c u Let_def instant_checked_add_def by simp
    then show ?thesis using lt k by (auto intro: exI[of _ "Suc ?q"])
  next
    case False
    then have "advance_flush_deadline latest deadline now interval = now + 1"
      unfolding advance_flush_deadline_def c u Let_def instant_checked_add_def using assms(3) by (simp only: if_False option.case) simp
    then show ?thesis using assms(2) False by auto
  qed
qed

theorem flush_deadline_cadence_witness:
  "37 < advance_flush_deadline 100 10 37 5 \<and> advance_flush_deadline 100 10 37 5 \<le> 37 + 5 \<and> (\<exists>k. advance_flush_deadline 100 10 37 5 = 10 + k * 5)"
  using flush_deadline_cadence[of 10 37 5 100] by simp

end
