(* ===== verification/Stream_Listener.thy ===== *)
theory Stream_Listener
  imports Framing_Stream Accumulator
begin

text \<open>
  \<open>crates/logit-inputs/src/tcp.rs\<close>: a connection of a stream listener, from its first read to its
  end: framing, decoding, accumulating, the flush interval, the first-byte and idle deadlines and the
  shutdown, with the address stamping of \<open>crates/logit-inputs/src/peer.rs\<close>. The decoder is a
  function over a state of its own. What a read gives, when the shutdown is seen and what the clock
  reads are functions of a counter. The log also has the reads. Accepting, TLS and the PROXY header are left out.
\<close>

section \<open>Addresses\<close>

record 'k peer_attrs =
  pa_keys :: "'k \<times> 'k"
  pa_address :: "'k attr_value"
  pa_port :: "'k attr_value option"

record 'k connection_attrs =
  cn_peer :: "'k peer_attrs option"
  cn_client :: "'k peer_attrs option"

definition stamp_event :: "'k::linorder peer_attrs \<Rightarrow> ('k, 'd, 'h) event \<Rightarrow> ('k, 'd, 'h) event" where
  "stamp_event p e =
     (let e = e\<lparr>ev_attributes := insert_sym (fst (pa_keys p)) (pa_address p) (ev_attributes e)\<rparr>
      in case pa_port p of
           Some port \<Rightarrow> e\<lparr>ev_attributes := insert_sym (snd (pa_keys p)) port (ev_attributes e)\<rparr>
         | None \<Rightarrow> e)"

definition peer_stamp :: "'k::linorder peer_attrs \<Rightarrow> ('k, 'd, 'h) event list \<Rightarrow> ('k, 'd, 'h) event list" where
  "peer_stamp p events = map (stamp_event p) events"

definition connection_stamp :: "'k::linorder connection_attrs \<Rightarrow> ('k, 'd, 'h) event list \<Rightarrow> ('k, 'd, 'h) event list" where
  "connection_stamp attrs events =
     fold (\<lambda>p events. case p of Some p \<Rightarrow> peer_stamp p events | None \<Rightarrow> events) [cn_peer attrs, cn_client attrs] events"

section \<open>A connection\<close>

record tcp_config =
  tl_batch_max_events :: nat
  tl_batch_max_bytes :: nat
  tl_batch_flush_interval :: nat
  tl_handshake_timeout :: nat
  tl_idle_timeout :: "nat option"

datatype tcp_read = Read_Bytes bytes | Read_Eof | Read_Shutdown | Read_Failed bool

record ('k, 'd, 'h, 's) tcp_env =
  te_heap :: "('k, 'd, 'h) heap_env"
  te_config :: tcp_config
  te_attrs :: "'k connection_attrs option"
  te_decode :: "bytes \<Rightarrow> i64 \<Rightarrow> 's \<Rightarrow> (codec_error + arc \<times> arc option \<times> ('k, 'd, 'h) event list) \<times> 's"
  te_now :: "nat \<Rightarrow> nat"
  te_latest :: nat
  te_received_at :: "nat \<Rightarrow> i64"
  te_shutdown :: "nat \<Rightarrow> bool"
  te_read :: "nat \<Rightarrow> tcp_read option"

datatype ('k, 'd, 'h) tcp_effect =
    Tx_Read bytes i64
  | Tx_Eof i64
  | Tx_Count string nat string
  | Tx_Send "('k, 'd, 'h) event_batch"
  | Tx_Line string

record ('k, 'd, 'h, 's) tcp_conn =
  tc_framer :: framer
  tc_accumulator :: "('k, 'd, 'h) accumulator"
  tc_decoder :: 's
  tc_next_flush :: "nat option"
  tc_last_progress :: nat
  tc_first_byte_deadline :: nat
  tc_clock :: nat
  tc_log :: "('k, 'd, 'h) tcp_effect list"

definition tc_emit :: "('k, 'd, 'h) tcp_effect list \<Rightarrow> ('k, 'd, 'h, 's) tcp_conn \<Rightarrow> ('k, 'd, 'h, 's) tcp_conn" where
  "tc_emit xs c = c\<lparr>tc_log := tc_log c @ xs\<rparr>"

text \<open>Time passes between two looks at the clock.\<close>

definition tc_tick :: "('k, 'd, 'h, 's) tcp_conn \<Rightarrow> ('k, 'd, 'h, 's) tcp_conn" where
  "tc_tick c = c\<lparr>tc_clock := tc_clock c + 1\<rparr>"

definition tc_now :: "('k, 'd, 'h, 's) tcp_env \<Rightarrow> ('k, 'd, 'h, 's) tcp_conn \<Rightarrow> nat" where
  "tc_now E c = te_now E (tc_clock c)"

definition tcp_open :: "('k, 'd, 'h, 's) tcp_env \<Rightarrow> framer \<Rightarrow> 's \<Rightarrow> ('k, 'd, 'h, 's) tcp_conn" where
  "tcp_open E framer decoder =
     (let now = te_now E 0; interval = tl_batch_flush_interval (te_config E)
      in \<lparr>tc_framer = framer,
          tc_accumulator = accumulator_new (tl_batch_max_events (te_config E)) (tl_batch_max_bytes (te_config E)),
          tc_decoder = decoder, tc_next_flush = (if interval = 0 then None else Some (now + interval)), tc_last_progress = now,
          tc_first_byte_deadline = now + tl_handshake_timeout (te_config E), tc_clock = 1, tc_log = []\<rparr>)"

section \<open>Its steps\<close>

definition emit_batch :: "('k, 'd, 'h) event_batch \<Rightarrow> flush_reason \<Rightarrow> ('k, 'd, 'h, 's) tcp_conn \<Rightarrow> ('k, 'd, 'h, 's) tcp_conn" where
  "emit_batch b reason c =
     tc_tick (tc_emit [Tx_Count ''logit.component.receive.flushed'' 1 (flush_reason_as_str reason), Tx_Send b] c)"

text \<open>What is held goes out; whether anything was.\<close>

definition flush_held ::
    "('k, 'd, 'h, 's) tcp_env \<Rightarrow> flush_reason \<Rightarrow> ('k, 'd, 'h, 's) tcp_conn \<Rightarrow> bool \<times> ('k, 'd, 'h, 's) tcp_conn" where
  "flush_held E reason c =
     (case accumulator_take (te_heap E) (tc_accumulator c) of
        (Some b, a) \<Rightarrow> (True, emit_batch b reason (c\<lparr>tc_accumulator := a\<rparr>))
      | (None, a) \<Rightarrow> (False, c\<lparr>tc_accumulator := a\<rparr>))"

definition report_frame_error :: "framing_error \<Rightarrow> ('k, 'd, 'h, 's) tcp_conn \<Rightarrow> ('k, 'd, 'h, 's) tcp_conn" where
  "report_frame_error e c = tc_emit [Tx_Count ''logit.input.frames.dropped'' 1 (framing_reason e), Tx_Line ''framing_error''] c"

definition report_buffered_tail :: "('k, 'd, 'h, 's) tcp_conn \<Rightarrow> ('k, 'd, 'h, 's) tcp_conn" where
  "report_buffered_tail c =
     (case abandon (tc_framer c) of
        (Some e, f) \<Rightarrow> report_frame_error e (c\<lparr>tc_framer := f\<rparr>)
      | (None, f) \<Rightarrow> c\<lparr>tc_framer := f\<rparr>)"

definition absorb_frame ::
    "('k::linorder, 'd, 'h, 's) tcp_env \<Rightarrow> bytes \<Rightarrow> i64 \<Rightarrow> ('k, 'd, 'h, 's) tcp_conn \<Rightarrow> ('k, 'd, 'h, 's) tcp_conn" where
  "absorb_frame E frame received_at c =
     (let c = tc_emit [Tx_Count ''logit.input.frames'' 1 [], Tx_Count ''logit.input.frame.bytes'' (length frame) []] c in
      case te_decode E frame received_at (tc_decoder c) of
        (Inr (resource, scope, events), d) \<Rightarrow>
          (let events = (case te_attrs E of Some attrs \<Rightarrow> connection_stamp attrs events | None \<Rightarrow> events);
               (flushed, a) = absorb (te_heap E) resource scope events (tc_accumulator c);
               c = c\<lparr>tc_decoder := d, tc_accumulator := a\<rparr>
           in case flushed of Some (b, reason) \<Rightarrow> emit_batch b reason c | None \<Rightarrow> c)
      | (Inl _, d) \<Rightarrow>
          tc_emit [Tx_Count ''logit.input.frames.dropped'' 1 ''undecodable'', Tx_Line ''bad_frame''] (c\<lparr>tc_decoder := d\<rparr>))"

lemma tc_framer_simps [simp]:
  "tc_framer (tc_emit xs c) = tc_framer c" "tc_framer (tc_tick c) = tc_framer c" "tc_framer (emit_batch b r c) = tc_framer c"
  "tc_framer (report_frame_error e c) = tc_framer c" "tc_framer (absorb_frame E frame at c) = tc_framer c" "tc_framer (snd (flush_held E r c)) = tc_framer c"
  by (simp_all add: tc_emit_def tc_tick_def emit_batch_def report_frame_error_def absorb_frame_def flush_held_def Let_def split: prod.split sum.split option.split)

text \<open>The frames of a read; whether the connection goes on.\<close>

function frames_loop :: "('k::linorder, 'd, 'h, 's) tcp_env \<Rightarrow> i64 \<Rightarrow> ('k, 'd, 'h, 's) tcp_conn \<Rightarrow> bool \<times> ('k, 'd, 'h, 's) tcp_conn" where
  "frames_loop E received_at c =
     (case next_frame (tc_framer c) of
        (Inr (Some frame), f) \<Rightarrow> frames_loop E received_at (absorb_frame E frame received_at (c\<lparr>tc_framer := f\<rparr>))
      | (Inr None, f) \<Rightarrow> (True, c\<lparr>tc_framer := f\<rparr>)
      | (Inl e, f) \<Rightarrow>
          (let c = report_frame_error e (c\<lparr>tc_framer := f\<rparr>)
           in if \<not> is_fatal e then frames_loop E received_at c else (False, snd (flush_held E Closed c))))"
  by pat_completeness auto

termination
  by (relation "measure (\<lambda>(E, r, c). length (fr_buf (tc_framer c)))") (auto dest!: next_frame_shrinks[OF sym])

declare frames_loop.simps [simp del]

text \<open>The interval trigger.\<close>

definition interval_flush :: "('k, 'd, 'h, 's) tcp_env \<Rightarrow> ('k, 'd, 'h, 's) tcp_conn \<Rightarrow> ('k, 'd, 'h, 's) tcp_conn" where
  "interval_flush E c =
     (case tc_next_flush c of
        None \<Rightarrow> c
      | Some deadline \<Rightarrow>
          if deadline \<le> tc_now E c then
            (let now = tc_now E c;
                 (sent, c) = flush_held E Interval c;
                 c = (if sent then c\<lparr>tc_last_progress := tc_now E c\<rparr> else c);
                 now = (if sent then tc_last_progress c else now)
             in c\<lparr>tc_next_flush := Some (advance_flush_deadline (te_latest E) deadline now (tl_batch_flush_interval (te_config E)))\<rparr>)
          else c)"

text \<open>The next-byte deadline; \<open>None\<close> is the far future.\<close>

definition next_byte_deadline :: "('k, 'd, 'h, 's) tcp_env \<Rightarrow> ('k, 'd, 'h, 's) tcp_conn \<Rightarrow> nat option" where
  "next_byte_deadline E c =
     (if \<not> first_byte_seen (tc_framer c) then Some (tc_first_byte_deadline c)
      else Option.bind (tl_idle_timeout (te_config E)) (instant_checked_add (te_latest E) (tc_last_progress c)))"

datatype tcp_end = Ended_Ok | Ended_Err

text \<open>One turn: the end of the connection, or \<open>None\<close> while it goes on.\<close>

definition tcp_turn :: "('k::linorder, 'd, 'h, 's) tcp_env \<Rightarrow> ('k, 'd, 'h, 's) tcp_conn \<Rightarrow> tcp_end option \<times> ('k, 'd, 'h, 's) tcp_conn" where
  "tcp_turn E c =
     (let c = interval_flush E c in
      if te_shutdown E (tc_clock c) then (Some Ended_Ok, snd (flush_held E Shutdown (report_buffered_tail c)))
      else
        (let awaiting_first_byte = (\<not> first_byte_seen (tc_framer c));
             due = next_byte_deadline E c;
             step = te_read E (tc_clock c);
             c = tc_tick c
         in case step of
              None \<Rightarrow>
                if (case due of Some t \<Rightarrow> tc_now E c \<ge> t | None \<Rightarrow> False) then
                  (if awaiting_first_byte then (Some Ended_Ok, tc_emit [Tx_Count ''logit.input.connections.closed'' 1 ''handshake_timeout''] c)
                   else
                     (Some Ended_Ok,
                      tc_emit [Tx_Count ''logit.input.connections.closed'' 1 ''idle''] (snd (flush_held E Closed (report_buffered_tail c)))))
                else (None, c)
            | Some Read_Shutdown \<Rightarrow> (Some Ended_Ok, snd (flush_held E Shutdown (report_buffered_tail c)))
            | Some Read_Eof \<Rightarrow>
                (let received_at = te_received_at E (tc_clock c);
                     (r, f) = framer_finish (tc_framer c);
                     c = tc_emit [Tx_Eof received_at] (c\<lparr>tc_framer := f\<rparr>);
                     c = (case r of
                            Inr (Some frame) \<Rightarrow> absorb_frame E frame received_at c
                          | Inr None \<Rightarrow> c
                          | Inl e \<Rightarrow> report_frame_error e c)
                 in (Some Ended_Ok, snd (flush_held E Closed c)))
            | Some (Read_Failed reset) \<Rightarrow>
                if awaiting_first_byte \<and> reset then (Some Ended_Ok, c)
                else
                  (let c = (if reset then tc_emit [Tx_Count ''logit.input.connections.closed'' 1 ''reset''] c else c)
                   in (Some Ended_Err, snd (flush_held E Closed (report_buffered_tail c))))
            | Some (Read_Bytes bs) \<Rightarrow>
                (let received_at = te_received_at E (tc_clock c);
                     (on, c) = frames_loop E received_at (tc_emit [Tx_Read bs received_at] (c\<lparr>tc_framer := framer_push bs (tc_framer c)\<rparr>))
                 in if on then (None, tc_tick (c\<lparr>tc_last_progress := tc_now E c\<rparr>)) else (Some Ended_Ok, c))))"

fun tcp_serve_connection ::
    "nat \<Rightarrow> ('k::linorder, 'd, 'h, 's) tcp_env \<Rightarrow> ('k, 'd, 'h, 's) tcp_conn \<Rightarrow> tcp_end option \<times> ('k, 'd, 'h, 's) tcp_conn" where
  "tcp_serve_connection 0 E c = (None, c)"
| "tcp_serve_connection (Suc n) E c =
     (case tcp_turn E c of
        (None, c) \<Rightarrow> tcp_serve_connection n E c
      | r \<Rightarrow> r)"

section \<open>What goes through\<close>

fun conn_reads :: "('k, 'd, 'h) tcp_effect list \<Rightarrow> bytes list" where
  "conn_reads [] = []"
| "conn_reads (Tx_Read bs at # log) = bs # conn_reads log"
| "conn_reads (_ # log) = conn_reads log"

fun came_to_eof :: "('k, 'd, 'h) tcp_effect list \<Rightarrow> bool" where
  "came_to_eof [] = False"
| "came_to_eof (Tx_Eof at # log) = True"
| "came_to_eof (_ # log) = came_to_eof log"

fun sent_events :: "('k, 'd, 'h) tcp_effect list \<Rightarrow> ('k resource \<times> 'k scope option \<times> ('k, 'd, 'h) event) list" where
  "sent_events [] = []"
| "sent_events (Tx_Send b # log) = batch_events b @ sent_events log"
| "sent_events (_ # log) = sent_events log"

lemma log_append [simp]:
  "conn_reads (xs @ ys) = conn_reads xs @ conn_reads ys" "came_to_eof (xs @ ys) \<longleftrightarrow> came_to_eof xs \<or> came_to_eof ys" "sent_events (xs @ ys) = sent_events xs @ sent_events ys"
  by (induction xs rule: conn_reads.induct; simp)+

text \<open>The messages among the outcomes, and what a decoder makes of messages with their times.\<close>

fun messages :: "(framing_error + bytes) list \<Rightarrow> bytes list" where
  "messages [] = []"
| "messages (Inr m # rs) = m # messages rs"
| "messages (Inl e # rs) = messages rs"

lemma messages_append [simp]: "messages (xs @ ys) = messages xs @ messages ys"
  by (induction xs rule: messages.induct) simp_all

fun decode_all ::
    "('k::linorder, 'd, 'h, 's) tcp_env \<Rightarrow> (bytes \<times> i64) list \<Rightarrow> 's \<Rightarrow> ('k resource \<times> 'k scope option \<times> ('k, 'd, 'h) event) list \<times> 's" where
  "decode_all E [] d = ([], d)"
| "decode_all E ((frame, at) # fs) d =
     (case te_decode E frame at d of
        (Inr (resource, scope, events), d) \<Rightarrow>
          apfst ((@) (under (te_heap E) resource scope (case te_attrs E of Some attrs \<Rightarrow> connection_stamp attrs events | None \<Rightarrow> events)))
            (decode_all E fs d)
      | (Inl _, d) \<Rightarrow> decode_all E fs d)"

lemma decode_all_append:
  "decode_all E (xs @ ys) d = (let (es, d) = decode_all E xs d in apfst ((@) es) (decode_all E ys d))"
  by (induction E xs d rule: decode_all.induct) (auto simp: apfst_append split: prod.split sum.split)

text \<open>A step of a connection decoded so much, and what it holds and sent shows it.\<close>

definition through ::
    "('k::linorder, 'd, 'h, 's) tcp_env \<Rightarrow> (bytes \<times> i64) list \<Rightarrow> ('k, 'd, 'h, 's) tcp_conn \<Rightarrow> ('k, 'd, 'h, 's) tcp_conn \<Rightarrow> bool" where
  "through E fs c c' \<longleftrightarrow> accumulator_ok (te_heap E) (tc_accumulator c') \<and>
     (\<exists>es. decode_all E fs (tc_decoder c) = (es, tc_decoder c') \<and>
        sent_events (tc_log c') @ held_events (te_heap E) (tc_accumulator c') = sent_events (tc_log c) @ held_events (te_heap E) (tc_accumulator c) @ es) \<and>
     conn_reads (tc_log c') = conn_reads (tc_log c) \<and> came_to_eof (tc_log c') = came_to_eof (tc_log c)"

lemma through_refl: "accumulator_ok (te_heap E) (tc_accumulator c) \<Longrightarrow> through E [] c c"
  by (simp add: through_def)

lemma through_trans: "through E xs c c' \<Longrightarrow> through E ys c' c'' \<Longrightarrow> through E (xs @ ys) c c''"
  by (auto simp: through_def decode_all_append)

lemma through_ok: "through E fs c c' \<Longrightarrow> accumulator_ok (te_heap E) (tc_accumulator c')"
  by (simp add: through_def)

lemma flush_held_through:
  assumes "accumulator_ok (te_heap E) (tc_accumulator c)" and "flush_held E r c = (b, c')"
  shows "through E [] c c'" "held_events (te_heap E) (tc_accumulator c') = []"
proof -
  obtain x a where t: "accumulator_take (te_heap E) (tc_accumulator c) = (x, a)" by fastforce
  note l = accumulator_take_spec[OF assms(1) t]
  show "through E [] c c'" "held_events (te_heap E) (tc_accumulator c') = []"
    using assms(2) t l by (auto simp: flush_held_def through_def emit_batch_def tc_tick_def tc_emit_def flushed_events_def split: option.splits)
qed

lemma absorb_frame_through:
  assumes ok: "accumulator_ok (te_heap E) (tc_accumulator c)"
  shows "through E [(frame, at)] c (absorb_frame E frame at c)"
proof -
  obtain r d where r: "te_decode E frame at (tc_decoder c) = (r, d)" by fastforce
  show ?thesis
  proof (cases r)
    case (Inl e)
    then show ?thesis using ok r by (simp add: absorb_frame_def through_def tc_emit_def)
  next
    case (Inr x)
    obtain resource scope events where x: "x = (resource, scope, events)" by (cases x)
    define es where "es = (case te_attrs E of Some attrs \<Rightarrow> connection_stamp attrs events | None \<Rightarrow> events)"
    obtain y a where a: "absorb (te_heap E) resource scope es (tc_accumulator c) = (y, a)" by fastforce
    from absorb_spec[OF ok a] show ?thesis
      by (cases y) (auto simp: absorb_frame_def Let_def r Inr x es_def[symmetric] a through_def tc_emit_def emit_batch_def tc_tick_def flushed_events_def)
  qed
qed

lemma report_frame_error_through:
  "accumulator_ok (te_heap E) (tc_accumulator c) \<Longrightarrow> through E [] c (report_frame_error e c)"
  by (simp add: through_def report_frame_error_def tc_emit_def)

lemma framer_set_through: "accumulator_ok (te_heap E) (tc_accumulator c) \<Longrightarrow> through E [] c (c\<lparr>tc_framer := f\<rparr>)"
  by (simp add: through_def)

lemma report_buffered_tail_through:
  assumes "accumulator_ok (te_heap E) (tc_accumulator c)" shows "through E [] c (report_buffered_tail c)"
proof -
  obtain r f where a: "abandon (tc_framer c) = (r, f)" by fastforce
  show ?thesis
  proof (cases r)
    case None
    then show ?thesis using framer_set_through[OF assms] a by (simp add: report_buffered_tail_def)
  next
    case (Some e)
    then show ?thesis using through_trans[OF framer_set_through[OF assms, of f] report_frame_error_through] assms a by (simp add: report_buffered_tail_def)
  qed
qed

lemma frames_loop_through:
  "accumulator_ok (te_heap E) (tc_accumulator c) \<Longrightarrow> frames_loop E at c = (on, c') \<Longrightarrow> take_frames (tc_framer c) = (rs, f') \<Longrightarrow>
     on = (\<not> ends_connection rs) \<and> tc_framer c' = f' \<and> through E (map (\<lambda>m. (m, at)) (messages rs)) c c' \<and>
     (\<not> on \<longrightarrow> held_events (te_heap E) (tc_accumulator c') = [])"
proof (induction E at c arbitrary: rs rule: frames_loop.induct)
  case (1 E at c)
  obtain r f where n: "next_frame (tc_framer c) = (r, f)" by fastforce
  let ?c = "c\<lparr>tc_framer := f\<rparr>"
  have q: "through E [] c ?c" by (rule framer_set_through[OF 1(3)])
  note t = frames_loop.simps[of E at c, unfolded n] take_frames.simps[of "tc_framer c", unfolded n]
  show ?case
  proof (cases r)
    case (Inr x)
    show ?thesis
    proof (cases x)
      case None
      then show ?thesis using t 1(4,5) Inr q by simp
    next
      case (Some frame)
      let ?d = "absorb_frame E frame at ?c"
      have d: "through E [(frame, at)] ?c ?d" using absorb_frame_through[OF through_ok[OF q]] .
      obtain rs' where rs': "take_frames (tc_framer ?d) = (rs', f')" "rs = Inr frame # rs'" using t(2) 1(5) Inr Some by (cases "take_frames f") auto
      have "frames_loop E at ?d = (on, c')" using t(1) 1(4) Inr Some by simp
      from 1(2)[OF n[symmetric] Inr Some through_ok[OF d] this rs'(1)] show ?thesis
        using rs'(2) through_trans[OF through_trans[OF q d]] by (auto simp: append_Cons)
    qed
  next
    case (Inl e)
    let ?d = "report_frame_error e ?c"
    have d: "through E [] ?c ?d" using report_frame_error_through[OF through_ok[OF q]] .
    note qd = through_trans[OF q d, simplified]
    show ?thesis
    proof (cases "is_fatal e")
      case True
      obtain b g where g: "flush_held E Closed ?d = (b, g)" by fastforce
      have "c' = g" "\<not> on" "rs = [Inl e]" "f' = f" using t 1(4,5) Inl True g by auto
      moreover have "tc_framer g = f" using tc_framer_simps(6)[of E Closed ?d] g by simp
      ultimately show ?thesis using through_trans[OF qd flush_held_through(1)[OF through_ok[OF d] g]] flush_held_through(2)[OF through_ok[OF d] g] True by simp
    next
      case False
      obtain rs' where rs': "take_frames (tc_framer ?d) = (rs', f')" "rs = Inl e # rs'" using t(2) 1(5) Inl False by (cases "take_frames f") auto
      have "frames_loop E at ?d = (on, c')" using t(1) 1(4) Inl False by simp
      from 1(1)[OF n[symmetric] Inl refl False through_ok[OF d] this rs'(1)] show ?thesis
        using rs'(2) False through_trans[OF qd] by auto
    qed
  qed
qed

section \<open>A connection's run\<close>

lemma feed_snoc:
  "feed (cs @ [b]) f = (let (rs, f) = feed cs f in if ends_connection rs then (rs, f) else apfst ((@) rs) (take_frames (framer_push b f)))"
proof (induction cs arbitrary: f)
  case Nil
  then show ?case by (cases "take_frames (framer_push b f)") simp
next
  case (Cons a cs)
  obtain xs g where t: "take_frames (framer_push a f) = (xs, g)" by fastforce
  show ?case by (cases "feed cs g"; cases "ends_connection xs") (auto simp: t Cons.IH apfst_append split: prod.split)
qed

lemma seen_bytes_kept: "fr_seen_bytes (snd (take_frames f)) = fr_seen_bytes f"
proof (induction f rule: take_frames.induct)
  case (1 f)
  have l: "fr_seen_bytes (snd (next_line g)) = fr_seen_bytes g" for g
    by (auto simp: next_line_def drain_line_def clear_buf_def Let_def split: option.split oversize.split prod.split if_split)
  have n: "fr_seen_bytes (snd (next_frame g)) = fr_seen_bytes g" for g
  proof (induction g rule: next_frame.induct)
    case (1 g)
    obtain r h where h: "next_line g = (r, h)" by fastforce
    show ?case
    proof (cases "fr_framing g = Some Non_Transparent \<and> r = Inr (Some [])")
      case True
      then show ?thesis using 1 h l[of g] by (simp add: next_frame.simps[of g])
    next
      case False
      then show ?thesis using h l[of g]
        by (auto simp: next_frame.simps[of g] next_octet_counted_def next_length_prefixed_def Let_def
            split: option.split framing.split sum.split list.split if_split)
    qed
  qed
  obtain r h where h: "next_frame f = (r, h)" by fastforce
  then have "fr_seen_bytes h = fr_seen_bytes f" using n[of f] by simp
  then show ?case using 1 h by (auto simp: take_frames.simps[of f] split: sum.split option.split)
qed

lemma unseen_feed:
  "\<not> fr_seen_bytes (snd (feed cs f)) \<Longrightarrow> \<not> ends_connection (fst (feed cs f)) \<Longrightarrow> concat cs = [] \<and> \<not> fr_seen_bytes f"
proof (induction cs arbitrary: f)
  case (Cons c cs)
  obtain xs g where t: "take_frames (framer_push c f) = (xs, g)" by fastforce
  have g: "fr_seen_bytes g \<longleftrightarrow> fr_seen_bytes f \<or> c \<noteq> []"
    using seen_bytes_kept[of "framer_push c f"] t by (auto simp: framer_push_def Let_def split: if_splits list.splits)
  show ?case using Cons.prems Cons.IH[of g] g t by (auto split: if_splits)
qed simp

text \<open>While it runs: the frames so far are decoded, and what they gave was sent or is held.\<close>

definition serving :: "('k::linorder, 'd, 'h, 's) tcp_env \<Rightarrow> framing_mode \<Rightarrow> nat \<Rightarrow> 's \<Rightarrow> ('k, 'd, 'h, 's) tcp_conn \<Rightarrow> bool" where
  "serving E mode bound d c \<longleftrightarrow>
     accumulator_ok (te_heap E) (tc_accumulator c) \<and> \<not> came_to_eof (tc_log c) \<and>
     (\<exists>rs taken. feed (conn_reads (tc_log c)) (framer_new mode bound) = (rs, tc_framer c) \<and> \<not> ends_connection rs \<and> map fst taken = messages rs \<and>
        decode_all E taken d = (sent_events (tc_log c) @ held_events (te_heap E) (tc_accumulator c), tc_decoder c))"

text \<open>The message a clean end delivers.\<close>

definition last_message :: "('k, 'd, 'h) tcp_effect list \<Rightarrow> framer \<Rightarrow> bytes list" where
  "last_message log f = (if came_to_eof log then (case fst (framer_finish f) of Inr (Some m) \<Rightarrow> [m] | _ \<Rightarrow> []) else [])"

definition served :: "('k::linorder, 'd, 'h, 's) tcp_env \<Rightarrow> framing_mode \<Rightarrow> nat \<Rightarrow> 's \<Rightarrow> ('k, 'd, 'h) tcp_effect list \<Rightarrow> bool" where
  "served E mode bound d log \<longleftrightarrow>
     (\<exists>rs f taken. feed (conn_reads log) (framer_new mode bound) = (rs, f) \<and> map fst taken = messages rs @ last_message log f \<and>
        fst (decode_all E taken d) = sent_events log)"

lemma servingI:
  "accumulator_ok (te_heap E) (tc_accumulator c) \<Longrightarrow> \<not> came_to_eof (tc_log c) \<Longrightarrow>
   feed (conn_reads (tc_log c)) (framer_new mode bound) = (rs, tc_framer c) \<Longrightarrow> \<not> ends_connection rs \<Longrightarrow> map fst taken = messages rs \<Longrightarrow>
   decode_all E taken d = (sent_events (tc_log c) @ held_events (te_heap E) (tc_accumulator c), tc_decoder c) \<Longrightarrow> serving E mode bound d c"
  unfolding serving_def by blast

lemma servedI:
  "feed (conn_reads log) (framer_new mode bound) = (rs, f) \<Longrightarrow> map fst taken = messages rs @ last_message log f \<Longrightarrow>
   fst (decode_all E taken d) = sent_events log \<Longrightarrow> served E mode bound d log"
  unfolding served_def by blast

lemma serving_ok: "serving E mode bound d c \<Longrightarrow> accumulator_ok (te_heap E) (tc_accumulator c)"
  by (simp add: serving_def)

lemma serving_through: "serving E mode bound d c \<Longrightarrow> through E [] c c' \<Longrightarrow> tc_framer c' = tc_framer c \<Longrightarrow> serving E mode bound d c'"
  by (auto simp: serving_def through_def)

text \<open>An end that loses nothing decoded: what is held goes out, or nothing is held.\<close>

lemma served_end:
  assumes s: "serving E mode bound d c" and t: "through E [] c c'" and h: "held_events (te_heap E) (tc_accumulator c') = []"
  shows "served E mode bound d (tc_log c')"
proof -
  obtain rs taken where l: "feed (conn_reads (tc_log c)) (framer_new mode bound) = (rs, tc_framer c)" "map fst taken = messages rs"
      "decode_all E taken d = (sent_events (tc_log c) @ held_events (te_heap E) (tc_accumulator c), tc_decoder c)"
    using s by (auto simp: serving_def)
  have "fst (decode_all E taken d) = sent_events (tc_log c')" "conn_reads (tc_log c') = conn_reads (tc_log c)" "\<not> came_to_eof (tc_log c')"
    using l(3) t h s by (auto simp: through_def serving_def)
  then show ?thesis using l(1,2) by (auto simp: served_def last_message_def)
qed

lemma flush_end:
  assumes s: "serving E mode bound d c" and t: "through E [] c c'" and x: "through E [] (snd (flush_held E r c')) c''"
    and h: "tc_accumulator c'' = tc_accumulator (snd (flush_held E r c'))"
  shows "served E mode bound d (tc_log c'')"
proof -
  obtain b g where g: "flush_held E r c' = (b, g)" by fastforce
  note l = flush_held_through[OF through_ok[OF t] g]
  have "through E [] c c''" using through_trans[OF through_trans[OF t l(1)]] x g by simp
  from served_end[OF s this] l(2) h g show ?thesis by simp
qed

lemma interval_flush_serving:
  assumes s: "serving E mode bound d c" shows "serving E mode bound d (interval_flush E c)"
proof -
  obtain b g where g: "flush_held E Interval c = (b, g)" by fastforce
  note l = flush_held_through(1)[OF serving_ok[OF s] g]
  have "tc_framer g = tc_framer c" using tc_framer_simps(6)[of E Interval c] g by simp
  then have "serving E mode bound d g" using serving_through[OF s l] by simp
  then show ?thesis using s g by (auto simp: interval_flush_def Let_def serving_def split: option.split)
qed

text \<open>Before the first byte nothing is held.\<close>

lemma serving_unseen:
  assumes "serving E mode bound d c" and "\<not> first_byte_seen (tc_framer c)"
  shows "held_events (te_heap E) (tc_accumulator c) = []"
proof -
  obtain rs taken where l: "feed (conn_reads (tc_log c)) (framer_new mode bound) = (rs, tc_framer c)" "\<not> ends_connection rs" "map fst taken = messages rs"
      "decode_all E taken d = (sent_events (tc_log c) @ held_events (te_heap E) (tc_accumulator c), tc_decoder c)"
    using assms(1) by (auto simp: serving_def)
  have "concat (conn_reads (tc_log c)) = []" using unseen_feed[of "conn_reads (tc_log c)" "framer_new mode bound"] l(1,2) assms(2) by (simp add: first_byte_seen_def)
  moreover have "stream_scan mode bound [] = ([], Waiting False [])"
    using incremental.scan_all_step[OF framer_step_incremental] by (simp add: stream_scan_def framer_step_empty)
  ultimately have "([], Waiting False []) = (map outcome_of rs, if ends_connection rs then Over else Waiting (fr_draining (tc_framer c)) (fr_buf (tc_framer c)))"
    using feed_stream[OF l(1)] by (simp only:)
  then have "rs = []" by auto
  then show ?thesis using l(3,4) by simp
qed

lemma serving_read:
  assumes s: "serving E mode bound d c"
    and l: "frames_loop E at (tc_emit [Tx_Read bs at] (c\<lparr>tc_framer := framer_push bs (tc_framer c)\<rparr>)) = (on, c')"
  shows "if on then serving E mode bound d c' else served E mode bound d (tc_log c')"
proof -
  let ?c = "tc_emit [Tx_Read bs at] (c\<lparr>tc_framer := framer_push bs (tc_framer c)\<rparr>)"
  obtain rs taken where r: "feed (conn_reads (tc_log c)) (framer_new mode bound) = (rs, tc_framer c)" "\<not> ends_connection rs" "map fst taken = messages rs"
      "decode_all E taken d = (sent_events (tc_log c) @ held_events (te_heap E) (tc_accumulator c), tc_decoder c)"
    using s by (auto simp: serving_def)
  obtain ys f where y: "take_frames (tc_framer ?c) = (ys, f)" by fastforce
  have ok: "accumulator_ok (te_heap E) (tc_accumulator ?c)" using serving_ok[OF s] by (simp add: tc_emit_def)
  note t = frames_loop_through[OF ok l y]
  have fd: "feed (conn_reads (tc_log c) @ [bs]) (framer_new mode bound) = (rs @ ys, f)" using r(1,2) y by (simp add: feed_snoc tc_emit_def)
  let ?taken = "taken @ map (\<lambda>m. (m, at)) (messages ys)"
  have m: "map fst ?taken = messages (rs @ ys)" using r(3) by (simp add: comp_def)
  have d: "decode_all E ?taken d = (sent_events (tc_log c') @ held_events (te_heap E) (tc_accumulator c'), tc_decoder c')"
    and k: "conn_reads (tc_log c') = conn_reads (tc_log c) @ [bs]" "\<not> came_to_eof (tc_log c')"
    using t s r(4) by (auto simp: through_def tc_emit_def decode_all_append serving_def)
  show ?thesis
  proof (cases on)
    case True
    then have "feed (conn_reads (tc_log c')) (framer_new mode bound) = (rs @ ys, tc_framer c')" "\<not> ends_connection (rs @ ys)"
      using fd k t r(2) by auto
    then have "serving E mode bound d c'" using t k(2) m d by (intro servingI[of E c' mode bound "rs @ ys" ?taken]) (auto dest: through_ok)
    then show ?thesis using True by simp
  next
    case False
    then have "fst (decode_all E ?taken d) = sent_events (tc_log c')" using d t by simp
    then have "served E mode bound d (tc_log c')" using fd k m by (intro servedI[of _ mode bound "rs @ ys" f ?taken]) (simp_all add: last_message_def)
    then show ?thesis using False by simp
  qed
qed

lemma serving_eof:
  assumes s: "serving E mode bound d c" and f: "framer_finish (tc_framer c) = (r, f)"
    and c': "c' = (case r of Inr (Some frame) \<Rightarrow> absorb_frame E frame at (tc_emit [Tx_Eof at] (c\<lparr>tc_framer := f\<rparr>))
        | Inr None \<Rightarrow> tc_emit [Tx_Eof at] (c\<lparr>tc_framer := f\<rparr>)
        | Inl e \<Rightarrow> report_frame_error e (tc_emit [Tx_Eof at] (c\<lparr>tc_framer := f\<rparr>)))"
  shows "served E mode bound d (tc_log (snd (flush_held E Closed c')))"
proof -
  let ?c = "tc_emit [Tx_Eof at] (c\<lparr>tc_framer := f\<rparr>)" and ?ms = "case r of Inr (Some m) \<Rightarrow> [m] | _ \<Rightarrow> []"
  obtain rs taken where r: "feed (conn_reads (tc_log c)) (framer_new mode bound) = (rs, tc_framer c)" "map fst taken = messages rs"
      "decode_all E taken d = (sent_events (tc_log c) @ held_events (te_heap E) (tc_accumulator c), tc_decoder c)"
    using s by (auto simp: serving_def)
  have ok: "accumulator_ok (te_heap E) (tc_accumulator ?c)" using serving_ok[OF s] by (simp add: tc_emit_def)
  have t: "through E (map (\<lambda>m. (m, at)) ?ms) ?c c'"
    using c' absorb_frame_through[OF ok] through_refl[OF ok] report_frame_error_through[OF ok] by (auto split: sum.split option.split)
  obtain b g where g: "flush_held E Closed c' = (b, g)" by fastforce
  note h = flush_held_through[OF through_ok[OF t] g]
  note tg = through_trans[OF t h(1), simplified]
  let ?taken = "taken @ map (\<lambda>m. (m, at)) ?ms"
  have "fst (decode_all E ?taken d) = sent_events (tc_log g)" "conn_reads (tc_log g) = conn_reads (tc_log c)" "came_to_eof (tc_log g)"
    using tg h(2) r(3) by (auto simp: through_def tc_emit_def decode_all_append)
  moreover from this have "map fst ?taken = messages rs @ last_message (tc_log g) (tc_framer c)"
    using r(2) f by (simp add: last_message_def comp_def)
  ultimately show ?thesis using r(1) g by (intro servedI[of _ mode bound rs "tc_framer c" ?taken]) simp_all
qed

lemma tick_through: "accumulator_ok (te_heap E) (tc_accumulator c) \<Longrightarrow> through E [] c (tc_tick c)"
  by (simp add: through_def tc_tick_def)

lemma count_through: "accumulator_ok (te_heap E) (tc_accumulator c) \<Longrightarrow> through E [] c (tc_emit [Tx_Count n k l] c)"
  by (simp add: through_def tc_emit_def)

lemma flush_ok:
  "accumulator_ok (te_heap E) (tc_accumulator c) \<Longrightarrow> accumulator_ok (te_heap (E :: ('k::linorder, 'd, 'h, 's) tcp_env)) (tc_accumulator (snd (flush_held E r c)))"
  by (rule through_ok[OF flush_held_through(1)[of E c r "fst (flush_held E r c)"]]) simp_all

lemma tcp_turn_serves:
  assumes s: "serving E mode bound d c" and t: "tcp_turn E c = (r, c')"
  shows "case r of None \<Rightarrow> serving E mode bound d c' | Some e \<Rightarrow> served E mode bound d (tc_log c')"
proof -
  let ?i = "interval_flush E c" and ?c = "tc_tick (interval_flush E c)"
  have i: "serving E mode bound d ?i" by (rule interval_flush_serving[OF s])
  have c: "serving E mode bound d ?c" by (rule serving_through[OF i tick_through[OF serving_ok[OF i]]]) simp
  have tail: "serving E mode bound d x \<Longrightarrow> served E mode bound d (tc_log (snd (flush_held E q (report_buffered_tail x))))" for x q
    by (rule flush_end[OF _ report_buffered_tail_through through_refl])
      (auto intro: flush_ok through_ok report_buffered_tail_through serving_ok)
  show ?thesis
  proof (cases "te_shutdown E (tc_clock ?i)")
    case True
    then show ?thesis using t tail[OF i] by (auto simp: tcp_turn_def)
  next
    case up: False
    have unseen: "\<not> first_byte_seen (tc_framer ?i) \<Longrightarrow> through E [] ?c x \<Longrightarrow> tc_accumulator x = tc_accumulator ?c \<Longrightarrow> served E mode bound d (tc_log x)" for x
      using served_end[OF c] serving_unseen[OF c] by simp
    show ?thesis
    proof (cases "te_read E (tc_clock ?i)")
      case None
      have "served E mode bound d (tc_log (tc_emit [Tx_Count x y z] (snd (flush_held E Closed (report_buffered_tail ?c)))))" for x y z
        by (rule flush_end[OF c report_buffered_tail_through count_through])
          (auto simp: tc_emit_def intro: flush_ok through_ok report_buffered_tail_through serving_ok[OF c])
      moreover have "\<not> first_byte_seen (tc_framer ?i) \<Longrightarrow> served E mode bound d (tc_log (tc_emit [Tx_Count x y z] ?c))" for x y z
        by (rule unseen[OF _ count_through[OF serving_ok[OF c]]]) (simp_all add: tc_emit_def)
      ultimately show ?thesis using t up None c by (auto simp: tcp_turn_def Let_def split: if_splits)
    next
      case (Some step)
      show ?thesis
      proof (cases step)
        case (Read_Bytes bs)
        let ?at = "te_received_at E (tc_clock ?c)"
        obtain on x where x: "frames_loop E ?at (tc_emit [Tx_Read bs ?at] (?c\<lparr>tc_framer := framer_push bs (tc_framer ?c)\<rparr>)) = (on, x)" by fastforce
        have y: "serving E mode bound d x \<Longrightarrow> serving E mode bound d (tc_tick (x\<lparr>tc_last_progress := n\<rparr>))" for n
          by (auto simp: serving_def tc_tick_def)
        show ?thesis using t up Some Read_Bytes x serving_read[OF c x] y by (auto simp: tcp_turn_def Let_def split: if_splits)
      next
        case Read_Eof
        let ?at = "te_received_at E (tc_clock ?c)"
        obtain q f where f: "framer_finish (tc_framer ?c) = (q, f)" by fastforce
        show ?thesis using t up Some Read_Eof f serving_eof[OF c f refl, of ?at] by (auto simp: tcp_turn_def Let_def)
      next
        case Read_Shutdown
        then show ?thesis using t up Some tail[OF c] by (auto simp: tcp_turn_def Let_def)
      next
        case (Read_Failed reset)
        have "serving E mode bound d (tc_emit [Tx_Count x y z] ?c)" for x y z
          by (rule serving_through[OF c count_through[OF serving_ok[OF c]]]) simp
        then show ?thesis using t up Some Read_Failed tail c unseen[OF _ through_refl[OF serving_ok[OF c]]]
          by (auto simp: tcp_turn_def Let_def split: if_splits)
      qed
    qed
  qed
qed

lemma serve_serves:
  "serving E mode bound d c \<Longrightarrow> tcp_serve_connection n E c = (Some e, c') \<Longrightarrow> served E mode bound d (tc_log c')"
proof (induction n arbitrary: c)
  case (Suc n)
  obtain r x where x: "tcp_turn E c = (r, x)" by fastforce
  from tcp_turn_serves[OF Suc.prems(1) x] show ?case using Suc.IH Suc.prems(2) x by (cases r) auto
qed simp

lemma serving_open: "serving E mode bound d (tcp_open E (framer_new mode bound) d)"
  by (simp add: serving_def tcp_open_def Let_def accumulator_ok_def held_events_def accumulator_new_def)

section \<open>Its end\<close>

lemma tc_clock_mono:
  "tc_clock (tc_emit xs c) = tc_clock c" "tc_clock (emit_batch b r c) = Suc (tc_clock c)" "tc_clock c \<le> tc_clock (snd (flush_held E q c))"
  "tc_clock (report_frame_error e c) = tc_clock c" "tc_clock c \<le> tc_clock (absorb_frame E frame at c)" "tc_clock c \<le> tc_clock (interval_flush E c)"
  by (auto simp: tc_emit_def tc_tick_def emit_batch_def report_frame_error_def absorb_frame_def flush_held_def interval_flush_def Let_def split: prod.split sum.split option.split)

lemma frames_loop_clock: "tc_clock c \<le> tc_clock (snd (frames_loop E at c))"
proof (induction E at c rule: frames_loop.induct)
  case (1 E at c)
  obtain r f where n: "next_frame (tc_framer c) = (r, f)" by fastforce
  show ?case
  proof (cases r)
    case (Inl e)
    then show ?thesis using 1(1)[OF n[symmetric] Inl refl] n tc_clock_mono(3)[of "report_frame_error e (c\<lparr>tc_framer := f\<rparr>)" E Closed]
      by (cases "is_fatal e") (simp_all add: frames_loop.simps[of E at c] tc_clock_mono)
  next
    case (Inr x)
    then show ?thesis using 1(2)[OF n[symmetric] Inr] n tc_clock_mono(5)[of "c\<lparr>tc_framer := f\<rparr>" E _ at]
      by (cases x) (auto simp: frames_loop.simps[of E at c] intro: le_trans)
  qed
qed

lemma tcp_turn_clock:
  assumes "tcp_turn E c = (None, c')" shows "tc_clock c < tc_clock c' \<and> (\<exists>k \<ge> tc_clock c. \<not> te_shutdown E k)"
proof -
  let ?i = "interval_flush E c"
  have i: "tc_clock c \<le> tc_clock ?i" by (rule tc_clock_mono)
  have up: "\<not> te_shutdown E (tc_clock ?i)" using assms by (auto simp: tcp_turn_def)
  have t: "tc_clock (tc_tick x) = Suc (tc_clock x)" for x by (simp add: tc_tick_def)
  have "tc_clock ?i < tc_clock c'"
  proof (cases "te_read E (tc_clock ?i)")
    case None
    then show ?thesis using assms up by (auto simp: tcp_turn_def Let_def t split: if_splits)
  next
    case (Some step)
    then obtain bs where s: "step = Read_Bytes bs" using assms up by (cases step) (auto simp: tcp_turn_def Let_def split: if_splits prod.splits)
    let ?at = "te_received_at E (tc_clock (tc_tick ?i))"
    let ?c = "tc_emit [Tx_Read bs ?at] (tc_tick ?i\<lparr>tc_framer := framer_push bs (tc_framer (tc_tick ?i))\<rparr>)"
    have "c' = tc_tick ((snd (frames_loop E ?at ?c))\<lparr>tc_last_progress := tc_now E (snd (frames_loop E ?at ?c))\<rparr>)"
      using assms up Some s by (auto simp: tcp_turn_def Let_def split: if_splits prod.splits)
    then show ?thesis using frames_loop_clock[of ?c E ?at] by (simp add: t tc_clock_mono)
  qed
  then show ?thesis using i up by auto
qed

lemma serve_ends:
  "(\<And>k. N \<le> k \<Longrightarrow> te_shutdown E k) \<Longrightarrow> N < n + tc_clock c \<Longrightarrow> 0 < n \<Longrightarrow> \<exists>e c'. tcp_serve_connection n E c = (Some e, c')"
proof (induction n arbitrary: c)
  case (Suc n)
  obtain r x where x: "tcp_turn E c = (r, x)" by fastforce
  show ?case
  proof (cases r)
    case None
    note k = tcp_turn_clock[OF x[unfolded None]]
    then have "tc_clock c < N" using Suc.prems(1) by (meson not_less order_trans)
    then have "N < n + tc_clock x" "0 < n" using k Suc.prems(2) by auto
    from Suc.IH[OF Suc.prems(1) this] show ?thesis using x None by simp
  qed (use x in simp)
qed simp

section \<open>Properties\<close>

text \<open>
  C17. A connection delivers what it reads. Once a shutdown is signalled it ends, if nothing ended it
  before; and however it ended, the events it sent downstream are those its decoder made of the
  messages its framer took from the bytes read, the unterminated last one included on a clean end:
  each event once, in order, stamped with its addresses and under the resource and scope it was
  decoded with, whatever flushes cut the batches.
\<close>

theorem stream_listener_delivers:
  assumes "\<And>k. N \<le> k \<Longrightarrow> te_shutdown E k"
  shows "\<exists>e c. tcp_serve_connection (Suc N) E (tcp_open E (framer_new mode bound) d) = (Some e, c) \<and>
    (\<exists>rs f taken. feed (conn_reads (tc_log c)) (framer_new mode bound) = (rs, f) \<and> map fst taken = messages rs @ last_message (tc_log c) f \<and>
       fst (decode_all E taken d) = sent_events (tc_log c))"
proof -
  have "N < Suc N + tc_clock (tcp_open E (framer_new mode bound) d)" by (simp add: tcp_open_def Let_def)
  from serve_ends[OF assms this] obtain e c where c: "tcp_serve_connection (Suc N) E (tcp_open E (framer_new mode bound) d) = (Some e, c)" by auto
  from serve_serves[OF serving_open c] show ?thesis using c unfolding served_def by blast
qed

definition example_tcp_env :: "(nat, nat, nat, nat) tcp_env" where
  "example_tcp_env =
     \<lparr>te_heap = example_heap,
      te_config = \<lparr>tl_batch_max_events = 3, tl_batch_max_bytes = 4096, tl_batch_flush_interval = 2, tl_handshake_timeout = 100, tl_idle_timeout = Some 50\<rparr>,
      te_attrs = None, te_decode = (\<lambda>frame at d. (Inr (d, None, [example_event at frame]), Suc d)),
      te_now = id, te_latest = 1000, te_received_at = word_of_nat, te_shutdown = (\<lambda>k. 9 \<le> k),
      te_read = (\<lambda>k. if k = 1 then Some (Read_Bytes [97, 98, 10, 99]) else Some Read_Eof)\<rparr>"

theorem stream_listener_delivers_witness:
  "\<exists>e c. tcp_serve_connection (Suc 9) example_tcp_env (tcp_open example_tcp_env (framer_new Rfc6587_Auto 8) 0) = (Some e, c) \<and>
    (\<exists>rs f taken. feed (conn_reads (tc_log c)) (framer_new Rfc6587_Auto 8) = (rs, f) \<and> map fst taken = messages rs @ last_message (tc_log c) f \<and>
       fst (decode_all example_tcp_env taken 0) = sent_events (tc_log c))"
  by (rule stream_listener_delivers) (simp add: example_tcp_env_def)

end
