(* ===== verification/Destinations.thy ===== *)
theory Destinations
  imports Event_Model
begin

text \<open>
  \<open>crates/logit-pipeline/src/router.rs\<close>: the mark a router gives an event, a set of destination slots
  in a \<open>u64\<close>. Slot 0 is the router's own edge, slot \<open>n + 1\<close> target \<open>n\<close>. The bit counts of the standard
  library are read off the bits; the contract a routing loop relies on is the locale \<open>slot_set\<close>.
\<close>

section \<open>Bit counts\<close>

definition count_ones :: "u64 \<Rightarrow> nat" where
  "count_ones bits = length (filter (bit bits) [0..<64])"

definition trailing_zeros :: "u64 \<Rightarrow> nat" where
  "trailing_zeros bits = length (takeWhile (\<lambda>i. \<not> bit bits i) [0..<64])"

definition leading_zeros_u64 :: "u64 \<Rightarrow> nat" where
  "leading_zeros_u64 bits = length (takeWhile (\<lambda>i. \<not> bit bits i) (rev [0..<64]))"

section \<open>Marks\<close>

type_synonym destinations = u64

definition MAX_TARGETS :: nat where "MAX_TARGETS = 63"

definition FORWARD :: destinations where "FORWARD = 1"

definition NO_DESTINATION :: destinations where "NO_DESTINATION = 0"

definition target_mark :: "u16 \<Rightarrow> destinations" where
  "target_mark n = (if unat n + 1 < 64 then push_bit (unat n + 1) 1 else NO_DESTINATION)"

definition with_mark :: "destinations \<Rightarrow> destinations \<Rightarrow> destinations" where
  "with_mark m other = m OR other"

definition mark_is_empty :: "destinations \<Rightarrow> bool" where
  "mark_is_empty m \<longleftrightarrow> m = 0"

definition mark_len :: "destinations \<Rightarrow> nat" where
  "mark_len m = count_ones m"

definition contains_slot :: "destinations \<Rightarrow> nat \<Rightarrow> bool" where
  "contains_slot m slot \<longleftrightarrow> slot < 64 \<and> m AND push_bit slot 1 \<noteq> 0"

lemma and_less_one: "bits \<noteq> 0 \<Longrightarrow> unat (bits AND (bits - 1) :: u64) < unat bits"
proof -
  assume "bits \<noteq> 0"
  have "bits AND (bits - 1) \<le> bits - 1" using word_and_le1 .
  also have "bits - 1 < bits" using \<open>bits \<noteq> 0\<close> by (simp add: measure_unat word_less_nat_alt)
  finally show ?thesis by (simp add: word_less_nat_alt)
qed

function mark_slots :: "destinations \<Rightarrow> nat list" where
  "mark_slots bits = (if bits = 0 then [] else trailing_zeros bits # mark_slots (bits AND (bits - 1)))"
  by pat_completeness auto

termination
  by (relation "measure unat") (simp_all add: and_less_one)

declare mark_slots.simps [simp del]

definition highest_slot :: "destinations \<Rightarrow> nat option" where
  "highest_slot m = (if m = 0 then None else Some (63 - leading_zeros_u64 m))"

definition without_slot :: "destinations \<Rightarrow> nat \<Rightarrow> destinations" where
  "without_slot m slot = m AND NOT (push_bit slot 1)"

definition mark_within :: "destinations \<Rightarrow> nat \<Rightarrow> destinations \<times> bool" where
  "mark_within m slots =
     (let valid = (if slots = 0 then 0 else if slots \<ge> 64 then - 1 else push_bit slots 1 - 1)
      in (m AND valid, m AND NOT valid \<noteq> 0))"

section \<open>The signals of an event\<close>

definition signal_index :: "('k, 'd, 'h) event \<Rightarrow> nat" where
  "signal_index e = (if ev_log e \<noteq> None then 1 else 0) + (if ev_metrics e \<noteq> [] then 2 else 0) + (if ev_span e \<noteq> None then 4 else 0)"

text \<open>Entry \<open>c\<close> of the eight is the union over the bits of \<open>c\<close>.\<close>

definition signal_masks :: "destinations list \<Rightarrow> destinations \<Rightarrow> destinations list" where
  "signal_masks per_signal none =
     none # map (\<lambda>carried. fold (\<lambda>b mark. with_mark mark (per_signal ! b)) (filter (bit carried) [0..<3]) NO_DESTINATION) [1..<8]"

section \<open>A mark as a set of slots\<close>

lemma bit_above: "64 \<le> n \<Longrightarrow> \<not> bit (m :: u64) n"
  by (auto dest: bit_imp_le_length)

lemma mark_zero_iff: "m = 0 \<longleftrightarrow> (\<forall>i < 64. \<not> bit (m :: u64) i)"
  using bit_above by (auto simp: bit_eq_iff not_le[symmetric])

lemma takeWhile_stops: "x \<in> set xs \<Longrightarrow> \<not> P x \<Longrightarrow> length (takeWhile P xs) < length xs"
  by (induction xs) auto

lemma lowest_bit:
  assumes "m \<noteq> 0" shows "trailing_zeros m < 64 \<and> bit m (trailing_zeros m) \<and> (\<forall>i < trailing_zeros m. \<not> bit m i)"
proof -
  let ?xs = "[0..<64::nat]" and ?P = "\<lambda>i. \<not> bit m i"
  obtain j where "j < 64" "bit m j" using assms mark_zero_iff by auto
  then have lt: "trailing_zeros m < 64" unfolding trailing_zeros_def using takeWhile_stops[of j ?xs ?P] by auto
  then have "bit m (?xs ! trailing_zeros m)" using nth_length_takeWhile[of ?P ?xs] unfolding trailing_zeros_def by simp
  moreover have "\<not> bit m i" if "i < trailing_zeros m" for i
  proof -
    have "?P (takeWhile ?P ?xs ! i)" using nth_mem[of i "takeWhile ?P ?xs"] that set_takeWhileD unfolding trailing_zeros_def by fastforce
    then show ?thesis using that lt takeWhile_nth[of i ?P ?xs] unfolding trailing_zeros_def by simp
  qed
  ultimately show ?thesis using lt by simp
qed

text \<open>\<open>bits & (bits - 1)\<close> clears the lowest bit.\<close>

lemma clear_lowest:
  assumes "m \<noteq> 0" shows "bit (m AND (m - 1)) i \<longleftrightarrow> bit m i \<and> i \<noteq> trailing_zeros m"
proof -
  define t where "t = trailing_zeros m"
  define p :: u64 where "p = push_bit t 1"
  define c where "c = m AND NOT p"
  have l: "t < 64" "bit m t" "\<And>i. i < t \<Longrightarrow> \<not> bit m i" using lowest_bit[OF assms] by (simp_all add: t_def)
  have t: "bit p j \<longleftrightarrow> j = t" for j using l(1) by (auto simp: p_def bit_simps)
  have c: "bit c j \<longleftrightarrow> bit m j \<and> j \<noteq> t" for j
    unfolding c_def bit_and_iff bit_not_iff t by (auto dest: bit_imp_possible_bit)
  have k: "bit (mask t :: u64) j \<longleftrightarrow> j < t" for j using l(1) by (auto simp: bit_mask_iff)
  have "c + p = c OR p" by (intro disjunctive_add_eq_or bit_word_eqI) (auto simp: bit_and_iff c t)
  also have "\<dots> = m" by (rule bit_word_eqI) (use l(2) in \<open>auto simp: bit_or_iff c t\<close>)
  finally have "m - 1 = c + mask t" by (auto simp: p_def mask_eq_exp_minus_1)
  also have "\<dots> = c OR mask t"
    by (intro disjunctive_add_eq_or bit_word_eqI) (use l(3) in \<open>auto simp: bit_and_iff c k\<close>)
  finally show ?thesis using l by (auto simp: bit_and_iff bit_or_iff c k t_def[symmetric])
qed

lemma filter_min: "sorted_wrt (<) xs \<Longrightarrow> t \<in> set xs \<Longrightarrow> P t \<Longrightarrow> (\<And>i. i \<in> set xs \<Longrightarrow> i < t \<Longrightarrow> \<not> P i) \<Longrightarrow>
   filter P xs = (t :: nat) # filter (\<lambda>i. P i \<and> i \<noteq> t) xs"
proof (induction xs)
  case (Cons x xs)
  show ?case
  proof (cases "x = t")
    case True
    then have "filter P xs = filter (\<lambda>i. P i \<and> i \<noteq> t) xs" using Cons.prems(1) by (intro filter_cong) auto
    then show ?thesis using True Cons.prems(3) by simp
  next
    case False
    then have "\<not> P x" "t \<in> set xs" using Cons.prems by auto
    then show ?thesis using Cons.IH Cons.prems by auto
  qed
qed simp

lemma mark_slots_eq: "mark_slots m = filter (bit m) [0..<64]"
proof (induction m rule: mark_slots.induct)
  case (1 m)
  show ?case
  proof (cases "m = 0")
    case True
    then show ?thesis by (simp add: mark_slots.simps)
  next
    case False
    note l = lowest_bit[OF False]
    have "filter (bit m) [0..<64] = trailing_zeros m # filter (\<lambda>i. bit m i \<and> i \<noteq> trailing_zeros m) [0..<64]"
      by (rule filter_min) (use l in auto)
    then show ?thesis using 1[OF False] False by (simp add: mark_slots.simps[of m] clear_lowest)
  qed
qed
lemma slots_ascending: "sorted_wrt (<) (mark_slots m)"
  by (simp add: mark_slots_eq sorted_wrt_filter)

lemma set_mark_slots [simp]: "set (mark_slots m) = {i. bit m i}"
  using bit_above by (auto simp: mark_slots_eq not_le[symmetric])

lemma mark_len_slots: "mark_len m = length (mark_slots m)"
  by (simp add: mark_len_def count_ones_def mark_slots_eq)

lemma mark_slots_empty [simp]: "mark_slots m = [] \<longleftrightarrow> m = 0"
  by (simp add: mark_slots.simps[of m])

lemma mark_slots_inject: "mark_slots m = mark_slots m' \<Longrightarrow> m = m'"
  by (rule bit_word_eqI) (metis mem_Collect_eq set_mark_slots)

lemma bit_without_slot [simp]: "bit (without_slot m h) i \<longleftrightarrow> bit m i \<and> i \<noteq> h"
  unfolding without_slot_def bit_and_iff bit_not_iff bit_push_bit_iff by (auto simp: bit_1_iff dest: bit_imp_possible_bit)

lemma bit_with_mark [simp]: "bit (with_mark m m') i \<longleftrightarrow> bit m i \<or> bit m' i"
  by (simp add: with_mark_def bit_or_iff)

lemma bit_FORWARD [simp]: "bit FORWARD i \<longleftrightarrow> i = 0"
  by (auto simp: FORWARD_def bit_1_iff)

lemma bit_NO_DESTINATION [simp]: "\<not> bit NO_DESTINATION i"
  by (simp add: NO_DESTINATION_def)

lemma bit_target_mark [simp]: "bit (target_mark n) i \<longleftrightarrow> i = unat n + 1 \<and> unat n < MAX_TARGETS"
  by (auto simp: target_mark_def MAX_TARGETS_def bit_simps)

lemma contains_slot_iff: "contains_slot m slot \<longleftrightarrow> bit m slot"
  using bit_above[of slot m] by (auto simp: contains_slot_def bit_iff_and_push_bit_not_eq_0 not_le[symmetric])

lemma mark_within_kept:
  assumes "slots \<le> 64" shows "bit (fst (mark_within m slots)) i \<longleftrightarrow> bit m i \<and> i < slots"
proof -
  consider "slots = 0" | "0 < slots" "slots < 64" | "slots = 64" using assms by linarith
  then show ?thesis
  proof cases
    case 2
    then have "fst (mark_within m slots) = m AND mask slots" by (simp add: mark_within_def mask_eq_exp_minus_1 Let_def)
    then show ?thesis using 2 by (auto simp: bit_and_iff bit_mask_iff)
  qed (use bit_above[of i m] in \<open>auto simp: mark_within_def not_le[symmetric]\<close>)
qed

lemma mark_within_outside:
  assumes "slots \<le> 64" shows "snd (mark_within m slots) \<longleftrightarrow> (\<exists>i \<ge> slots. bit m i)"
proof -
  have split: "m AND NOT v = 0 \<longleftrightarrow> m AND v = m" for v
    by (metis (no_types) and.assoc and.commute and.idem bit.conj_cancel_right bit.conj_zero_right bit.conj_disj_distrib bit.disj_zero_right bit.conj_one_right bit.disj_cancel_right)
  have "snd (mark_within m slots) \<longleftrightarrow> fst (mark_within m slots) \<noteq> m" by (auto simp: mark_within_def Let_def split)
  also have "\<dots> \<longleftrightarrow> (\<exists>i. bit m i \<and> \<not> i < slots)" using mark_within_kept[OF assms, of m] by (metis bit_word_eqI)
  finally show ?thesis by (auto simp: not_less)
qed

lemma highest_bit:
  assumes "m \<noteq> 0" shows "bit m (63 - leading_zeros_u64 m) \<and> (\<forall>i. bit m i \<longrightarrow> i \<le> 63 - leading_zeros_u64 m)"
proof -
  let ?xs = "rev [0..<64::nat]" and ?P = "\<lambda>i. \<not> bit m i"
  obtain j where j: "j < 64" "bit m j" using assms mark_zero_iff by auto
  then have lt: "leading_zeros_u64 m < 64" unfolding leading_zeros_u64_def using takeWhile_stops[of j ?xs ?P] by auto
  have nth: "?xs ! k = 63 - k" if "k < 64" for k using that by (simp add: rev_nth)
  have "bit m (?xs ! leading_zeros_u64 m)" using lt nth_length_takeWhile[of ?P ?xs] unfolding leading_zeros_u64_def by simp
  moreover have "i \<le> 63 - leading_zeros_u64 m" if b: "bit m i" for i
  proof (rule ccontr)
    assume "\<not> i \<le> 63 - leading_zeros_u64 m"
    moreover have "i < 64" using b bit_above not_less by blast
    ultimately have k: "63 - i < leading_zeros_u64 m" "63 - i < 64" "?xs ! (63 - i) = i" using nth[of "63 - i"] by auto
    then have "?P (takeWhile ?P ?xs ! (63 - i))"
      using nth_mem[of "63 - i" "takeWhile ?P ?xs"] set_takeWhileD unfolding leading_zeros_u64_def by fastforce
    then show False using b k takeWhile_nth[of "63 - i" ?P ?xs] unfolding leading_zeros_u64_def by simp
  qed
  ultimately show ?thesis using lt nth by simp
qed

lemma filter_max: "sorted_wrt (<) xs \<Longrightarrow> t \<in> set xs \<Longrightarrow> P t \<Longrightarrow> (\<And>i. i \<in> set xs \<Longrightarrow> t < i \<Longrightarrow> \<not> P i) \<Longrightarrow>
   filter P xs = filter (\<lambda>i. P i \<and> i \<noteq> t) xs @ [t :: nat]"
proof (induction xs rule: rev_induct)
  case (snoc x xs)
  show ?case
  proof (cases "x = t")
    case True
    then have "filter P xs = filter (\<lambda>i. P i \<and> i \<noteq> t) xs" using snoc.prems(1) by (intro filter_cong) (auto simp: sorted_wrt_append)
    then show ?thesis using True snoc.prems(3) by simp
  next
    case False
    then have "\<not> P x" "t \<in> set xs" using snoc.prems by (auto simp: sorted_wrt_append)
    then show ?thesis using snoc.IH snoc.prems by (auto simp: sorted_wrt_append)
  qed
qed simp

section \<open>What a routing loop relies on\<close>

text \<open>The event goes into the buffer of its slot.\<close>

definition push_event :: "'e \<Rightarrow> nat \<Rightarrow> 'e list list \<Rightarrow> 'e list list" where
  "push_event e slot dests = dests[slot := dests ! slot @ [e]]"

lemma push_event_length [simp]: "length (push_event e slot dests) = length dests"
  by (simp add: push_event_def)

locale slot_set =
  fixes slots :: "'m \<Rightarrow> nat list" and highest :: "'m \<Rightarrow> nat option" and without :: "'m \<Rightarrow> nat \<Rightarrow> 'm"
  assumes ascending_slots: "sorted_wrt (<) (slots m)"
    and highest_none: "highest m = None \<longleftrightarrow> slots m = []"
    and highest_some: "highest m = Some h \<Longrightarrow> slots m = slots (without m h) @ [h]"
begin

lemma distinct_slots: "distinct (slots m)"
  using ascending_slots by (simp add: strict_sorted_iff)

lemma pushes_length: "length (fold (\<lambda>s d. push_event (f s) s d) ss dests) = length dests"
  by (induction ss arbitrary: dests) simp_all

lemma pushes_nth:
  "distinct ss \<Longrightarrow> s < length dests \<Longrightarrow> fold (\<lambda>s d. push_event (f s) s d) ss dests ! s = dests ! s @ (if s \<in> set ss then [f s] else [])"
proof (induction ss arbitrary: dests)
  case (Cons a ss)
  then show ?case by (cases "s = a") (simp_all add: push_event_def)
qed simp

text \<open>Pushing into every slot but the highest, then into that one, is pushing into every slot.\<close>

lemma push_last:
  assumes "highest m = Some h" and "s < length dests" and "\<And>s. s \<noteq> h \<Longrightarrow> g s = f s" and "e = f h"
  shows "push_event e h (fold (\<lambda>s d. push_event (g s) s d) (slots (without m h)) dests) ! s = dests ! s @ (if s \<in> set (slots m) then [f s] else [])"
proof -
  let ?ss = "slots (without m h)"
  note hs = highest_some[OF assms(1)]
  have nh: "h \<notin> set ?ss" using distinct_slots[of m] hs by simp
  have "fold (\<lambda>s d. push_event (g s) s d) ?ss dests = fold (\<lambda>s d. push_event (f s) s d) ?ss dests"
    by (rule fold_cong) (use nh assms(3) in \<open>force+\<close>)
  then have "push_event e h (fold (\<lambda>s d. push_event (g s) s d) ?ss dests) = fold (\<lambda>s d. push_event (f s) s d) (slots m) dests"
    using assms(4) hs by simp
  then show ?thesis using pushes_nth[OF distinct_slots assms(2)] by simp
qed

end

lemma highest_without:
  assumes "highest_slot m = Some h" shows "mark_slots m = mark_slots (without_slot m h) @ [h]"
proof -
  have m: "m \<noteq> 0" "h = 63 - leading_zeros_u64 m" using assms by (auto simp: highest_slot_def split: if_splits)
  note b = highest_bit[OF m(1), folded m(2)]
  have "h < 64" using b bit_above not_less by blast
  then have "filter (bit m) [0..<64] = filter (\<lambda>i. bit m i \<and> i \<noteq> h) [0..<64] @ [h]"
    by (intro filter_max) (use b in \<open>auto simp: not_le[symmetric]\<close>)
  moreover have "bit (without_slot m h) = (\<lambda>i. bit m i \<and> i \<noteq> h)" by auto
  ultimately show ?thesis by (simp add: mark_slots_eq)
qed

interpretation marks: slot_set mark_slots highest_slot without_slot
  by unfold_locales (simp_all add: slots_ascending highest_without, simp add: highest_slot_def)

end
