(* ===== verification/Fanout.thy ===== *)
theory Fanout
  imports Write_Loop
begin

text \<open>
  \<open>crates/logit-pipeline/src/fanout.rs\<close>: sending a batch to every consumer of a node. A node has one
  \<open>Fanout\<close> for its own edge and one per target, told apart by a slot. What a consumer's inbox says to
  an offer is a function of a counter. An \<open>Arc\<close> shares content that nobody writes. Spans, timers and
  the count of sends in flight are left out.
\<close>

record fanout =
  fo_slot :: nat
  fo_component :: "symbol option"
  fo_consumers :: "symbol list"

text \<open>An inbox with room, one found full (and whether it took the batch in the end), or a closed one.\<close>

datatype inbox = Inbox_Room | Inbox_Full bool | Inbox_Closed

datatype ('d, 'h) node_effect =
    Ne_Take nat nat "('d, 'h) delivered"
  | Ne_Count string nat string
  | Ne_Inbox_Full nat nat
  | Ne_Warn nat nat

record ('d, 'h) node =
  nd_clock :: nat
  nd_warned :: "(nat \<times> nat) list"
  nd_log :: "('d, 'h) node_effect list"

record node_env =
  ne_inbox :: "nat \<Rightarrow> nat \<Rightarrow> nat \<Rightarrow> inbox"
  ne_span_id :: "nat \<Rightarrow> bytes"
  ne_trace_id :: "nat \<Rightarrow> bytes"

definition node_emit :: "('d, 'h) node_effect list \<Rightarrow> ('d, 'h) node \<Rightarrow> ('d, 'h) node" where
  "node_emit xs nd = nd\<lparr>nd_log := nd_log nd @ xs\<rparr>"

definition node_tick :: "('d, 'h) node \<Rightarrow> ('d, 'h) node" where
  "node_tick nd = nd\<lparr>nd_clock := nd_clock nd + 1\<rparr>"

definition node_new :: "('d, 'h) node" where
  "node_new = \<lparr>nd_clock = 0, nd_warned = [], nd_log = []\<rparr>"

section \<open>Contexts\<close>

text \<open>\<open>random_id_bytes\<close> gives what the environment says.\<close>

definition trace_new_root :: "node_env \<Rightarrow> ('d, 'h) node \<Rightarrow> hop_trace" where
  "trace_new_root E nd = \<lparr>ht_trace_id = ne_trace_id E (nd_clock nd), ht_span_id = ne_span_id E (nd_clock nd)\<rparr>"

definition trace_child :: "node_env \<Rightarrow> ('d, 'h) node \<Rightarrow> hop_trace \<Rightarrow> hop_trace" where
  "trace_child E nd t = \<lparr>ht_trace_id = ht_trace_id t, ht_span_id = ne_span_id E (nd_clock nd)\<rparr>"

definition trace_context :: "hop_trace \<Rightarrow> batch_context" where
  "trace_context t = \<lparr>bc_trace = t, bc_provenance = \<lparr>pv_origin = None, pv_previous = None\<rparr>\<rparr>"

definition get_or_insert :: "'a \<Rightarrow> 'a option \<Rightarrow> 'a option" where
  "get_or_insert v x = (case x of Some y \<Rightarrow> Some y | None \<Rightarrow> Some v)"

definition stamp :: "fanout \<Rightarrow> batch_context \<Rightarrow> batch_context" where
  "stamp f ctx =
     (case fo_component f of
        Some me \<Rightarrow>
          ctx\<lparr>bc_provenance := \<lparr>pv_origin = get_or_insert me (pv_origin (bc_provenance ctx)), pv_previous = Some me\<rparr>\<rparr>
      | None \<Rightarrow> ctx)"

definition stamp_relayed :: "fanout \<Rightarrow> batch_context \<Rightarrow> batch_context" where
  "stamp_relayed f ctx =
     (case fo_component f of
        Some me \<Rightarrow>
          ctx\<lparr>bc_provenance :=
            \<lparr>pv_origin = get_or_insert me (pv_origin (bc_provenance ctx)), pv_previous = get_or_insert me (pv_previous (bc_provenance ctx))\<rparr>\<rparr>
      | None \<Rightarrow> ctx)"

section \<open>Sending\<close>

definition offer :: "node_env \<Rightarrow> fanout \<Rightarrow> nat \<Rightarrow> ('d, 'h) delivered \<Rightarrow> ('d, 'h) node \<Rightarrow> bool \<times> ('d, 'h) node" where
  "offer E f edge item nd =
     (case ne_inbox E (nd_clock nd) (fo_slot f) edge of
        Inbox_Room \<Rightarrow> (True, node_tick (node_emit [Ne_Take (fo_slot f) edge item] nd))
      | Inbox_Closed \<Rightarrow> (False, node_tick nd)
      | Inbox_Full taken \<Rightarrow>
          (taken, node_tick (node_emit (Ne_Inbox_Full (fo_slot f) edge # (if taken then [Ne_Take (fo_slot f) edge item] else [])) nd)))"

definition record_send :: "nat \<Rightarrow> ('d, 'h) node \<Rightarrow> ('d, 'h) node" where
  "record_send n nd = node_emit [Ne_Count ''logit.component.batches.sent'' 1 [], Ne_Count ''logit.component.events.sent'' n []] nd"

definition record_dropped_on_close :: "fanout \<Rightarrow> nat \<Rightarrow> nat \<Rightarrow> ('d, 'h) node \<Rightarrow> ('d, 'h) node" where
  "record_dropped_on_close f edge n nd =
     (let nd = node_emit [Ne_Count ''logit.component.events.dropped'' n ''closed_consumer''] nd in
      if (fo_slot f, edge) \<in> set (nd_warned nd) then nd
      else node_emit [Ne_Warn (fo_slot f) edge] (nd\<lparr>nd_warned := (fo_slot f, edge) # nd_warned nd\<rparr>))"

text \<open>One edge's turn in a loop over edges.\<close>

definition offer_or_count ::
    "node_env \<Rightarrow> fanout \<Rightarrow> ('d, 'h) delivered \<Rightarrow> nat \<Rightarrow> nat \<Rightarrow> bool \<times> ('d, 'h) node \<Rightarrow> bool \<times> ('d, 'h) node" where
  "offer_or_count E f item n edge r =
     (case offer E f edge item (snd r) of
        (False, nd) \<Rightarrow> (fst r, record_dropped_on_close f edge n nd)
      | (True, nd) \<Rightarrow> (True, nd))"

definition offer_shared ::
    "node_env \<Rightarrow> fanout \<Rightarrow> nat list \<Rightarrow> nat \<Rightarrow> (symbol, 'd, 'h) event_batch \<Rightarrow> batch_context \<Rightarrow> nat \<Rightarrow> ('d, 'h) node \<Rightarrow> bool \<times> ('d, 'h) node" where
  "offer_shared E f rest final batch ctx n nd =
     offer_or_count E f (Shared batch ctx) n final (fold (offer_or_count E f (Shared batch ctx) n) rest (False, nd))"

text \<open>\<open>split_last\<close> on the indices of the edges.\<close>

definition split_last :: "fanout \<Rightarrow> (nat \<times> nat list) option" where
  "split_last f = (if fo_consumers f = [] then None else Some (length (fo_consumers f) - 1, [0..<length (fo_consumers f) - 1]))"

definition fanout_deliver ::
    "node_env \<Rightarrow> fanout \<Rightarrow> (symbol, 'd, 'h) event_batch \<Rightarrow> batch_context \<Rightarrow> ('d, 'h) node \<Rightarrow> bool \<times> ('d, 'h) node" where
  "fanout_deliver E f batch ctx nd =
     (case split_last f of
        None \<Rightarrow> (False, nd)
      | Some (final, rest) \<Rightarrow>
          (let n = length (b_events batch); nd = record_send n nd in
           if rest = [] then
             (case offer E f final (Owned batch ctx) nd of
                (False, nd) \<Rightarrow> (False, record_dropped_on_close f final n nd)
              | (True, nd) \<Rightarrow> (True, nd))
           else offer_shared E f rest final batch ctx n nd))"

definition send_with_own_context ::
    "node_env \<Rightarrow> fanout \<Rightarrow> (symbol, 'd, 'h) event_batch \<Rightarrow> batch_context \<Rightarrow> ('d, 'h) node \<Rightarrow> bool \<times> ('d, 'h) node" where
  "send_with_own_context E f batch ctx nd = fanout_deliver E f batch (stamp f ctx) nd"

definition send_shared_with_own_context ::
    "node_env \<Rightarrow> fanout \<Rightarrow> (symbol, 'd, 'h) event_batch \<Rightarrow> batch_context \<Rightarrow> ('d, 'h) node \<Rightarrow> bool \<times> ('d, 'h) node" where
  "send_shared_with_own_context E f batch ctx nd =
     (case split_last f of
        None \<Rightarrow> (False, nd)
      | Some (final, rest) \<Rightarrow>
          (let n = length (b_events batch) in offer_shared E f rest final batch (stamp f ctx) n (record_send n nd)))"

definition fanout_send :: "node_env \<Rightarrow> fanout \<Rightarrow> (symbol, 'd, 'h) event_batch \<Rightarrow> ('d, 'h) node \<Rightarrow> bool \<times> ('d, 'h) node" where
  "fanout_send E f batch nd = send_with_own_context E f batch (trace_context (trace_new_root E nd)) (node_tick nd)"

definition send_with_context ::
    "node_env \<Rightarrow> fanout \<Rightarrow> (symbol, 'd, 'h) event_batch \<Rightarrow> hop_trace \<Rightarrow> ('d, 'h) node \<Rightarrow> bool \<times> ('d, 'h) node" where
  "send_with_context E f batch parent nd = send_with_own_context E f batch (trace_context (trace_child E nd parent)) (node_tick nd)"

definition send_relayed ::
    "node_env \<Rightarrow> fanout \<Rightarrow> (symbol, 'd, 'h) event_batch \<Rightarrow> symbol provenance \<Rightarrow> hop_trace option \<Rightarrow> ('d, 'h) node \<Rightarrow> bool \<times> ('d, 'h) node" where
  "send_relayed E f batch provenance parent nd =
     (let trace = (case parent of Some p \<Rightarrow> trace_child E nd p | None \<Rightarrow> trace_new_root E nd)
      in fanout_deliver E f batch (stamp_relayed f \<lparr>bc_trace = trace, bc_provenance = provenance\<rparr>) (node_tick nd))"

section \<open>What a consumer takes\<close>

fun delivered_batch :: "('d, 'h) delivered \<Rightarrow> (symbol, 'd, 'h) event_batch \<times> batch_context" where
  "delivered_batch (Owned b ctx) = (b, ctx)"
| "delivered_batch (Shared b ctx) = (b, ctx)"

fun taken_at :: "nat \<Rightarrow> nat \<Rightarrow> ('d, 'h) node_effect list \<Rightarrow> ((symbol, 'd, 'h) event_batch \<times> batch_context) list" where
  "taken_at slot edge [] = []"
| "taken_at slot edge (Ne_Take s e item # log) = (if s = slot \<and> e = edge then delivered_batch item # taken_at slot edge log else taken_at slot edge log)"
| "taken_at slot edge (_ # log) = taken_at slot edge log"

lemma taken_at_append [simp]: "taken_at slot edge (xs @ ys) = taken_at slot edge xs @ taken_at slot edge ys"
  by (induction slot edge xs rule: taken_at.induct) simp_all

text \<open>The sum of a counter under a tag.\<close>

fun counter_total :: "string \<Rightarrow> string \<Rightarrow> ('d, 'h) node_effect list \<Rightarrow> nat" where
  "counter_total name tag [] = 0"
| "counter_total name tag (Ne_Count m n t # log) = (if m = name \<and> t = tag then n else 0) + counter_total name tag log"
| "counter_total name tag (_ # log) = counter_total name tag log"

lemma counted_append [simp]: "counter_total name tag (xs @ ys) = counter_total name tag xs + counter_total name tag ys"
  by (induction name tag xs rule: counter_total.induct) simp_all

text \<open>How often an edge's closing was warned of.\<close>

fun warnings :: "nat \<Rightarrow> nat \<Rightarrow> ('d, 'h) node_effect list \<Rightarrow> nat" where
  "warnings slot edge [] = 0"
| "warnings slot edge (Ne_Warn s e # log) = (if s = slot \<and> e = edge then 1 else 0) + warnings slot edge log"
| "warnings slot edge (_ # log) = warnings slot edge log"

lemma warnings_append [simp]: "warnings slot edge (xs @ ys) = warnings slot edge xs + warnings slot edge ys"
  by (induction slot edge xs rule: warnings.induct) simp_all

definition warned_once :: "('d, 'h) node \<Rightarrow> bool" where
  "warned_once nd \<longleftrightarrow> (\<forall>slot edge. warnings slot edge (nd_log nd) = (if (slot, edge) \<in> set (nd_warned nd) then 1 else 0))"

text \<open>An inbox that never refuses a batch.\<close>

definition stays_open :: "node_env \<Rightarrow> nat \<Rightarrow> nat \<Rightarrow> bool" where
  "stays_open E slot edge \<longleftrightarrow> (\<forall>t. ne_inbox E t slot edge = Inbox_Room \<or> ne_inbox E t slot edge = Inbox_Full True)"
text \<open>
  Between two states the edges of \<open>took\<close> took the content, the other edges of \<open>edges\<close> were counted,
  and nothing else was taken or counted as dropped.
\<close>

definition sent_to ::
    "node_env \<Rightarrow> nat \<Rightarrow> (symbol, 'd, 'h) event_batch \<times> batch_context \<Rightarrow> nat list \<Rightarrow> nat list \<Rightarrow> ('d, 'h) node \<Rightarrow> ('d, 'h) node \<Rightarrow> bool" where
  "sent_to E slot content edges took nd nd' \<longleftrightarrow>
     set took \<subseteq> set edges \<and> distinct took \<and> {e \<in> set edges. stays_open E slot e} \<subseteq> set took \<and>
     (\<forall>s e. taken_at s e (nd_log nd') = taken_at s e (nd_log nd) @ (if s = slot \<and> e \<in> set took then [content] else [])) \<and>
     counter_total ''logit.component.events.dropped'' ''closed_consumer'' (nd_log nd') =
       counter_total ''logit.component.events.dropped'' ''closed_consumer'' (nd_log nd) + length (b_events (fst content)) * (length edges - length took) \<and>
     (warned_once nd \<longrightarrow> warned_once nd')"

lemma sent_to_empty: "sent_to E slot content [] [] nd nd"
  by (simp add: sent_to_def)

lemma offer_taken:
  assumes "offer E f edge item nd = (ok, nd')"
  shows "taken_at s e (nd_log nd') = taken_at s e (nd_log nd) @ (if ok \<and> s = fo_slot f \<and> e = edge then [delivered_batch item] else [])"
    "counter_total m t (nd_log nd') = counter_total m t (nd_log nd)" "warnings s e (nd_log nd') = warnings s e (nd_log nd)" "nd_warned nd' = nd_warned nd"
    "stays_open E (fo_slot f) edge \<Longrightarrow> ok" "nd_clock nd' = nd_clock nd + 1"
proof -
  note d = assms[unfolded offer_def node_emit_def node_tick_def]
  show "taken_at s e (nd_log nd') = taken_at s e (nd_log nd) @ (if ok \<and> s = fo_slot f \<and> e = edge then [delivered_batch item] else [])"
    "counter_total m t (nd_log nd') = counter_total m t (nd_log nd)" "warnings s e (nd_log nd') = warnings s e (nd_log nd)" "nd_warned nd' = nd_warned nd"
    "nd_clock nd' = nd_clock nd + 1"
    using d by (auto split: inbox.splits if_splits)
  show "stays_open E (fo_slot f) edge \<Longrightarrow> ok"
    using d unfolding stays_open_def by (auto split: inbox.splits dest!: spec[of _ "nd_clock nd"])
qed

lemma record_dropped_sent:
  "taken_at s e (nd_log (record_dropped_on_close f edge n nd)) = taken_at s e (nd_log nd)"
  "counter_total ''logit.component.events.dropped'' ''closed_consumer'' (nd_log (record_dropped_on_close f edge n nd)) =
     counter_total ''logit.component.events.dropped'' ''closed_consumer'' (nd_log nd) + n"
  "warned_once nd \<Longrightarrow> warned_once (record_dropped_on_close f edge n nd)"
  by (auto simp: record_dropped_on_close_def node_emit_def Let_def warned_once_def)

lemma offer_or_count_sent:
  assumes "offer_or_count E f item n edge r = (ok, nd')" and "n = length (b_events (fst (delivered_batch item)))"
  shows "\<exists>took. sent_to E (fo_slot f) (delivered_batch item) [edge] took (snd r) nd' \<and> (ok \<longleftrightarrow> fst r \<or> took \<noteq> [])"
proof -
  obtain b nd1 where o1: "offer E f edge item (snd r) = (b, nd1)" by fastforce
  note l = offer_taken[OF o1]
  have w: "warned_once (snd r) \<Longrightarrow> warned_once nd1" using l(3,4) by (simp add: warned_once_def)
  show ?thesis
  proof (cases b)
    case True
    then have "sent_to E (fo_slot f) (delivered_batch item) [edge] [edge] (snd r) nd'" "ok"
      using assms(1) o1 l w by (auto simp: offer_or_count_def sent_to_def)
    then show ?thesis by auto
  next
    case False
    then have "nd' = record_dropped_on_close f edge n nd1" "ok = fst r" using assms(1) o1 by (auto simp: offer_or_count_def)
    moreover have "\<not> stays_open E (fo_slot f) edge" using l(5) False by auto
    ultimately have "sent_to E (fo_slot f) (delivered_batch item) [edge] [] (snd r) nd'" "ok = fst r"
      using False l(1,2) w assms(2) by (auto simp: sent_to_def record_dropped_sent)
    then show ?thesis by auto
  qed
qed

lemma sent_to_append:
  assumes "sent_to E slot content xs ts nd nd1" and "sent_to E slot content ys us nd1 nd2" and "set xs \<inter> set ys = {}"
  shows "sent_to E slot content (xs @ ys) (ts @ us) nd nd2"
proof -
  have le: "length ts \<le> length xs" "length us \<le> length ys"
    using assms(1,2) by (auto simp: sent_to_def dest!: card_mono[rotated] simp: distinct_card)
      (metis card_length distinct_card le_trans)+
  have "length (b_events (fst content)) * (length (xs @ ys) - length (ts @ us)) =
      length (b_events (fst content)) * (length xs - length ts) + length (b_events (fst content)) * (length ys - length us)"
    using le by (simp add: distrib_left[symmetric])
  then show ?thesis using assms by (auto simp: sent_to_def)
qed

lemma offers_sent:
  "distinct edges \<Longrightarrow> n = length (b_events (fst (delivered_batch item))) \<Longrightarrow> fold (offer_or_count E f item n) edges r = (ok, nd') \<Longrightarrow>
   \<exists>took. sent_to E (fo_slot f) (delivered_batch item) edges took (snd r) nd' \<and> (ok \<longleftrightarrow> fst r \<or> took \<noteq> [])"
proof (induction edges arbitrary: r)
  case Nil
  then show ?case by (intro exI[of _ "[]"]) (auto simp: sent_to_def)
next
  case (Cons e edges)
  obtain b nd1 where o1: "offer_or_count E f item n e r = (b, nd1)" by fastforce
  obtain t where t: "sent_to E (fo_slot f) (delivered_batch item) [e] t (snd r) nd1" "b \<longleftrightarrow> fst r \<or> t \<noteq> []"
    using offer_or_count_sent[OF o1 Cons.prems(2)] by blast
  have "fold (offer_or_count E f item n) edges (b, nd1) = (ok, nd')" using Cons.prems(3) o1 by simp
  from Cons.IH[OF _ Cons.prems(2) this] Cons.prems(1) obtain u where
    u: "sent_to E (fo_slot f) (delivered_batch item) edges u nd1 nd'" "ok \<longleftrightarrow> b \<or> u \<noteq> []" by auto
  have "sent_to E (fo_slot f) (delivered_batch item) ([e] @ edges) (t @ u) (snd r) nd'"
    by (rule sent_to_append[OF t(1) u(1)]) (use Cons.prems(1) in auto)
  then show ?case using t(2) u(2) by (intro exI[of _ "t @ u"]) auto
qed

text \<open>A send reaches every edge once.\<close>

lemma record_send_sent: "sent_to E slot content es t (record_send n nd) nd' \<Longrightarrow> sent_to E slot content es t nd nd'"
proof -
  have "warned_once (record_send n nd) = warned_once nd" by (simp add: record_send_def node_emit_def warned_once_def)
  moreover assume "sent_to E slot content es t (record_send n nd) nd'"
  ultimately show ?thesis by (simp add: sent_to_def) (simp add: record_send_def node_emit_def)
qed

lemma offer_shared_sent:
  assumes "offer_shared E f [0..<k] k batch ctx (length (b_events batch)) (record_send n nd) = (ok, nd')"
  shows "\<exists>took. sent_to E (fo_slot f) (batch, ctx) [0..<Suc k] took nd nd' \<and> (ok \<longleftrightarrow> took \<noteq> [])"
proof -
  have "fold (offer_or_count E f (Shared batch ctx) (length (b_events batch))) [0..<Suc k] (False, record_send n nd) = (ok, nd')"
    using assms by (simp add: offer_shared_def)
  from offers_sent[OF _ _ this] show ?thesis by (auto dest: record_send_sent)
qed

lemma split_last_some: "split_last f = Some (final, rest) \<Longrightarrow> rest = [0..<final] \<and> length (fo_consumers f) = Suc final"
  by (auto simp: split_last_def split: if_splits)

lemma fanout_deliver_sent:
  assumes "fanout_deliver E f batch ctx nd = (ok, nd')"
  shows "\<exists>took. sent_to E (fo_slot f) (batch, ctx) [0..<length (fo_consumers f)] took nd nd' \<and> (ok \<longleftrightarrow> took \<noteq> [])"
proof (cases "split_last f")
  case None
  then show ?thesis using assms sent_to_empty by (intro exI[of _ "[]"]) (auto simp: fanout_deliver_def split_last_def split: if_splits)
next
  case (Some x)
  obtain final rest where x: "x = (final, rest)" by fastforce
  note l = split_last_some[OF Some[unfolded x]]
  show ?thesis
  proof (cases "rest = []")
    case True
    then have "offer_or_count E f (Owned batch ctx) (length (b_events batch)) final (False, record_send (length (b_events batch)) nd) = (ok, nd')"
      using assms Some x by (simp add: fanout_deliver_def offer_or_count_def Let_def split: prod.splits bool.splits)
    from offer_or_count_sent[OF this] show ?thesis using True l by (auto dest: record_send_sent)
  next
    case False
    then have "offer_shared E f [0..<final] final batch ctx (length (b_events batch)) (record_send (length (b_events batch)) nd) = (ok, nd')"
      using assms Some x l by (simp add: fanout_deliver_def Let_def)
    from offer_shared_sent[OF this] show ?thesis using l by simp
  qed
qed

lemma send_shared_sent:
  assumes "send_shared_with_own_context E f batch ctx nd = (ok, nd')"
  shows "\<exists>took. sent_to E (fo_slot f) (batch, stamp f ctx) [0..<length (fo_consumers f)] took nd nd' \<and> (ok \<longleftrightarrow> took \<noteq> [])"
proof (cases "split_last f")
  case None
  then show ?thesis using assms sent_to_empty by (intro exI[of _ "[]"]) (auto simp: send_shared_with_own_context_def split_last_def split: if_splits)
next
  case (Some x)
  obtain final rest where x: "x = (final, rest)" by fastforce
  note l = split_last_some[OF Some[unfolded x]]
  then have "offer_shared E f [0..<final] final batch (stamp f ctx) (length (b_events batch)) (record_send (length (b_events batch)) nd) = (ok, nd')"
    using assms Some x by (simp add: send_shared_with_own_context_def Let_def)
  from offer_shared_sent[OF this] show ?thesis using l by simp
qed

end
