(* ===== verification/Routing.thy ===== *)
theory Routing
  imports Destinations Fanout Float64
begin

text \<open>
  Routing nodes: \<open>route_batch\<close> and \<open>run_router\<close> of \<open>crates/logit-pipeline/src/runtime.rs\<close>, with the
  scratch of \<open>router.rs\<close>. A \<open>Router\<close> is the record of its trait's methods over a state of its own.
  Capacities are left out, and of a mark that names no slot in range the release build's repair is
  modelled, not the assertion of debug builds.
\<close>

record ('d, 'h, 's) router_ops =
  ro_route :: "symbol resource \<Rightarrow> (symbol, 'd, 'h) event \<Rightarrow> 's \<Rightarrow> destinations \<times> 's"
  ro_observe_batch_context :: "hop_trace \<Rightarrow> 's \<Rightarrow> 's"
  ro_observe_provenance :: "symbol provenance \<Rightarrow> 's \<Rightarrow> 's"
  ro_observe_scope :: "symbol scope option \<Rightarrow> 's \<Rightarrow> 's"
  ro_map_resource :: "symbol resource \<Rightarrow> 's \<Rightarrow> symbol resource option \<times> 's"

record ('d, 'h) router_scratch =
  rs_marks :: "destinations list"
  rs_counts :: "nat list"
  rs_dests :: "(symbol, 'd, 'h) event list list"

definition router_scratch_new :: "nat \<Rightarrow> ('d, 'h) router_scratch" where
  "router_scratch_new targets = \<lparr>rs_marks = [], rs_counts = replicate (targets + 1) 0, rs_dests = replicate (targets + 1) []\<rparr>"

datatype ('d, 'h) partition = Part_Owned "(symbol, 'd, 'h) event_batch" | Part_Shared "(symbol, 'd, 'h) event_batch"

fun partition_batch :: "('d, 'h) partition \<Rightarrow> (symbol, 'd, 'h) event_batch" where
  "partition_batch (Part_Owned b) = b"
| "partition_batch (Part_Shared b) = b"

section \<open>The passes\<close>

definition checked_mark :: "destinations \<Rightarrow> nat \<Rightarrow> destinations" where
  "checked_mark mark slots =
     (case mark_within mark slots of
        (kept, out_of_range) \<Rightarrow>
          if \<not> out_of_range \<and> \<not> mark_is_empty kept then kept
          else if mark_is_empty kept then FORWARD else kept)"

text \<open>Pass 1.\<close>

fun route_marks ::
    "('d, 'h, 's) router_ops \<Rightarrow> nat \<Rightarrow> symbol resource \<Rightarrow> (symbol, 'd, 'h) event list \<Rightarrow> 's \<Rightarrow> destinations list \<times> 's" where
  "route_marks R slots resource [] s = ([], s)"
| "route_marks R slots resource (e # es) s =
     (let (mark, s) = ro_route R resource e s; (marks, s) = route_marks R slots resource es s
      in (checked_mark mark slots # marks, s))"

text \<open>The hooks before it, and the resource the partitions go out under.\<close>

definition mark_batch ::
    "('d, 'h, 's) router_ops \<Rightarrow> nat \<Rightarrow> (symbol, 'd, 'h) event_batch \<Rightarrow> 's \<Rightarrow> symbol resource \<times> destinations list \<times> 's" where
  "mark_batch R slots batch s =
     (let (r, s) = ro_map_resource R (b_resource batch) (ro_observe_scope R (b_scope batch) s);
          resource = (case r of Some r \<Rightarrow> r | None \<Rightarrow> b_resource batch)
      in (resource, route_marks R slots resource (b_events batch) s))"

text \<open>Passes 2 and 3: the deliveries past each event's first, the destinations used, and the counts.\<close>

definition count_slots :: "destinations list \<Rightarrow> nat list \<Rightarrow> nat list" where
  "count_slots marks counts = fold (\<lambda>m. fold (\<lambda>slot c. c[slot := c ! slot + 1]) (mark_slots m)) marks counts"

definition count_and_reserve :: "('d, 'h) router_scratch \<Rightarrow> (nat \<times> nat) \<times> ('d, 'h) router_scratch" where
  "count_and_reserve sc =
     (let counts = count_slots (rs_marks sc) (rs_counts sc)
      in ((sum_list (map (\<lambda>m. mark_len m - 1) (rs_marks sc)),
           length (filter (\<lambda>(dest, count). count > 0) (zip (rs_dests sc) counts))), sc\<lparr>rs_counts := counts\<rparr>))"

text \<open>Pass 4.\<close>

fun move_events :: "((symbol, 'd, 'h) event \<times> destinations) list \<Rightarrow> (symbol, 'd, 'h) event list list \<Rightarrow> (symbol, 'd, 'h) event list list" where
  "move_events [] dests = dests"
| "move_events ((event, mark) # ems) dests =
     (case highest_slot mark of
        None \<Rightarrow> move_events ems dests
      | Some h \<Rightarrow> move_events ems (push_event event h (fold (\<lambda>slot. push_event event slot) (mark_slots (without_slot mark h)) dests)))"

definition take_partitions ::
    "symbol resource \<Rightarrow> symbol scope option \<Rightarrow> ('d, 'h) router_scratch \<Rightarrow> (nat \<times> ('d, 'h) partition) list \<times> ('d, 'h) router_scratch" where
  "take_partitions resource scope sc =
     (map (\<lambda>(slot, events). (slot, Part_Owned \<lparr>b_resource = resource, b_scope = scope, b_events = events\<rparr>))
        (filter (\<lambda>(slot, events). events \<noteq> []) (enumerate 0 (rs_dests sc))),
      sc\<lparr>rs_dests := map (\<lambda>_. []) (rs_dests sc)\<rparr>)"

definition count_node_received :: "(symbol, 'd, 'h) event_batch \<Rightarrow> ('d, 'h) node \<Rightarrow> ('d, 'h) node" where
  "count_node_received batch = node_emit [Ne_Count ''logit.component.batches.received'' 1 [],
     Ne_Count ''logit.component.events.received'' (length (b_events batch)) []]"

definition count_copied :: "nat \<Rightarrow> ('d, 'h) node \<Rightarrow> ('d, 'h) node" where
  "count_copied n nd = node_emit [Ne_Count ''logit.component.events.copied'' n []] nd"

text \<open>Whether every event carries one mark that names several slots.\<close>

definition shared_mark :: "destinations list \<Rightarrow> destinations option" where
  "shared_mark marks =
     (case marks of
        [] \<Rightarrow> None
      | first # _ \<Rightarrow> if mark_len first > 1 \<and> list_all (\<lambda>mark. mark = first) marks then Some first else None)"

definition share_batch :: "destinations \<Rightarrow> (symbol, 'd, 'h) event_batch \<Rightarrow> (nat \<times> ('d, 'h) partition) list" where
  "share_batch first batch = map (\<lambda>slot. (slot, Part_Shared batch)) (mark_slots first)"

definition route_batch ::
    "('d, 'h, 's) router_ops \<Rightarrow> (symbol, 'd, 'h) event_batch \<Rightarrow> ('d, 'h) router_scratch \<times> 's \<times> ('d, 'h) node \<Rightarrow>
     (nat \<times> ('d, 'h) partition) list \<times> ('d, 'h) router_scratch \<times> 's \<times> ('d, 'h) node" where
  "route_batch R batch st =
     (case st of (sc, s, nd) \<Rightarrow>
        (let nd = count_node_received batch nd;
             slots = length (rs_dests sc);
             (resource, marks, s) = mark_batch R slots batch s;
             events = b_events batch;
             sc = sc\<lparr>rs_marks := marks, rs_counts := replicate slots 0\<rparr>
         in case shared_mark marks of
              Some first \<Rightarrow>
                (share_batch first \<lparr>b_resource = resource, b_scope = b_scope batch, b_events = events\<rparr>, sc, s,
                 count_copied ((mark_len first - 1) * length events) nd)
            | None \<Rightarrow>
                (let ((copies, used), sc) = count_and_reserve sc;
                     sc = sc\<lparr>rs_dests := move_events (zip events marks) (rs_dests sc)\<rparr>;
                     nd = (if copies > 0 then count_copied copies nd else nd);
                     (parts, sc) = take_partitions resource (b_scope batch) sc
                 in (parts, sc, s, nd))))"

section \<open>The node\<close>

definition destination_of :: "fanout \<Rightarrow> fanout list \<Rightarrow> nat \<Rightarrow> fanout option" where
  "destination_of own targets slot =
     (if slot = 0 then Some own else if slot - 1 < length targets then Some (targets ! (slot - 1)) else None)"

definition send_partition ::
    "node_env \<Rightarrow> fanout \<Rightarrow> fanout list \<Rightarrow> batch_context \<Rightarrow> nat \<times> ('d, 'h) partition \<Rightarrow> ('d, 'h) node \<Rightarrow> ('d, 'h) node" where
  "send_partition E own targets ctx p nd =
     (case p of (slot, out) \<Rightarrow>
        (case destination_of own targets slot of
           None \<Rightarrow> nd
         | Some f \<Rightarrow>
             (case out of
                Part_Owned batch \<Rightarrow> snd (send_with_own_context E f batch ctx nd)
              | Part_Shared batch \<Rightarrow> snd (send_shared_with_own_context E f batch ctx nd))))"

text \<open>\<open>unwrap_batch\<close> gives the content, whoever else holds the \<open>Arc\<close>.\<close>

definition router_turn ::
    "node_env \<Rightarrow> ('d, 'h, 's) router_ops \<Rightarrow> fanout \<Rightarrow> fanout list \<Rightarrow> ('d, 'h) delivered \<Rightarrow>
     ('d, 'h) router_scratch \<times> 's \<times> ('d, 'h) node \<Rightarrow> ('d, 'h) router_scratch \<times> 's \<times> ('d, 'h) node" where
  "router_turn E R own targets d st =
     (case st of (sc, s, nd) \<Rightarrow>
        (let (batch, parent) = delivered_batch d;
             s = ro_observe_provenance R (bc_provenance parent) (ro_observe_batch_context R (bc_trace parent) s);
             ctx = \<lparr>bc_trace = trace_child E nd (bc_trace parent), bc_provenance = bc_provenance parent\<rparr>;
             (parts, sc, s, nd) = route_batch R batch (sc, s, node_tick nd)
         in (sc, s, fold (send_partition E own targets ctx) parts nd)))"

definition run_router ::
    "node_env \<Rightarrow> ('d, 'h, 's) router_ops \<Rightarrow> fanout \<Rightarrow> fanout list \<Rightarrow> ('d, 'h) delivered list \<Rightarrow> 's \<Rightarrow>
     ('d, 'h) router_scratch \<times> 's \<times> ('d, 'h) node" where
  "run_router E R own targets inbox s = fold (router_turn E R own targets) inbox (router_scratch_new (length targets), s, node_new)"

section \<open>The native router\<close>

text \<open>
  \<open>crates/logit-transforms/src/route.rs\<close> and \<open>value_matches\<close> of its \<open>lib.rs\<close>, over routes resolved to
  marks. Parsing a float and the conversions to one are operations of an environment.
\<close>

record number_ops = f64_ops +
  fl_parse :: "bytes \<Rightarrow> f64 option"

fun numeric_of :: "number_ops \<Rightarrow> 'k attr_value \<Rightarrow> f64 option" where
  "numeric_of fl (V_I64 n) = Some (fl_of_i64 fl n)"
| "numeric_of fl (V_U64 n) = Some (fl_of_u64 fl n)"
| "numeric_of fl (V_F64 x) = Some x"
| "numeric_of fl (V_Str b) = fl_parse fl b"
| "numeric_of fl _ = None"

definition numeric :: "number_ops \<Rightarrow> 'k attr_value \<Rightarrow> f64 option" where
  "numeric fl v = Option.bind (numeric_of fl v) (\<lambda>x. if is_finite x then Some x else None)"

definition numerics_match :: "number_ops \<Rightarrow> 'k attr_value \<Rightarrow> 'k attr_value \<Rightarrow> bool" where
  "numerics_match fl a b = (case (numeric fl a, numeric fl b) of (Some x, Some y) \<Rightarrow> f64_eq x y | _ \<Rightarrow> False)"

fun numeric_kind :: "'k attr_value \<Rightarrow> bool" where
  "numeric_kind (V_I64 n) = True"
| "numeric_kind (V_U64 n) = True"
| "numeric_kind (V_F64 x) = True"
| "numeric_kind (V_Str b) = True"
| "numeric_kind _ = False"

definition value_matches :: "number_ops \<Rightarrow> 'k attr_value \<Rightarrow> 'k attr_value \<Rightarrow> bool" where
  "value_matches fl configured actual =
     (case (configured, actual) of
        (V_Null, V_Null) \<Rightarrow> True
      | (V_Bool a, V_Bool b) \<Rightarrow> a = b
      | (V_Timestamp a, V_Timestamp b) \<Rightarrow> a = b
      | (V_Str a, V_Str b) \<Rightarrow> a = b
      | (V_Str a, V_Bytes b) \<Rightarrow> a = b
      | (V_Bytes a, V_Str b) \<Rightarrow> a = b
      | (V_Bytes a, V_Bytes b) \<Rightarrow> a = b
      | (V_I64 a, V_I64 b) \<Rightarrow> a = b
      | (V_U64 a, V_U64 b) \<Rightarrow> a = b
      | (V_I64 a, V_U64 b) \<Rightarrow> 0 \<le> sint a \<and> a = b
      | (V_U64 b, V_I64 a) \<Rightarrow> 0 \<le> sint a \<and> a = b
      | _ \<Rightarrow> numeric_kind configured \<and> numeric_kind actual \<and> numerics_match fl configured actual)"

lemma f64_eq_commute: "f64_eq a b \<longleftrightarrow> f64_eq b a"
  by (auto simp: f64_eq_def)

lemma numerics_match_commute: "numerics_match fl a b \<longleftrightarrow> numerics_match fl b a"
  by (simp add: numerics_match_def f64_eq_commute split: option.split)

text \<open>It is symmetric, as its documentation says.\<close>

lemma value_matches_commute: "value_matches fl a b \<longleftrightarrow> value_matches fl b a"
  using numerics_match_commute[of fl a b] by (cases a; cases b) (auto simp: value_matches_def)

datatype route_by =
    By_Origin "(symbol \<times> destinations) list"
  | By_Previous "(symbol \<times> destinations) list"
  | By_Attribute symbol "(symbol attr_value \<times> destinations) list"
  | By_Resource symbol "(symbol attr_value \<times> destinations) list"

record route =
  rt_by :: route_by
  rt_provenance :: "symbol provenance"

text \<open>The slot of an id among the targets; the source panics where there is none.\<close>

fun position_of :: "('a \<Rightarrow> bool) \<Rightarrow> 'a list \<Rightarrow> nat option" where
  "position_of P [] = None"
| "position_of P (x # xs) = (if P x then Some 0 else map_option Suc (position_of P xs))"

definition mark_of :: "bytes list \<Rightarrow> bytes list \<Rightarrow> destinations option" where
  "mark_of targets ids =
     fold (\<lambda>target mark.
       Option.bind mark (\<lambda>m. map_option (\<lambda>slot. with_mark m (target_mark (word_of_nat slot))) (position_of ((=) target) targets))) ids (Some NO_DESTINATION)"

definition first_route :: "('a \<Rightarrow> bool) \<Rightarrow> ('a \<times> destinations) list \<Rightarrow> destinations" where
  "first_route P routes = (case find (P \<circ> fst) routes of Some (_, mark) \<Rightarrow> mark | None \<Rightarrow> FORWARD)"

definition by_symbol :: "(symbol \<times> destinations) list \<Rightarrow> symbol \<Rightarrow> destinations" where
  "by_symbol routes actual = first_route (\<lambda>configured. configured = actual) routes"

definition by_value :: "number_ops \<Rightarrow> ('k attr_value \<times> destinations) list \<Rightarrow> 'k attr_value \<Rightarrow> destinations" where
  "by_value fl routes actual = first_route (\<lambda>configured. value_matches fl configured actual) routes"

definition route_event :: "number_ops \<Rightarrow> symbol resource \<Rightarrow> (symbol, 'd, 'h) event \<Rightarrow> route \<Rightarrow> destinations" where
  "route_event fl resource e rt =
     (case rt_by rt of
        By_Origin routes \<Rightarrow> (case pv_origin (rt_provenance rt) of Some origin \<Rightarrow> by_symbol routes origin | None \<Rightarrow> FORWARD)
      | By_Previous routes \<Rightarrow> (case pv_previous (rt_provenance rt) of Some previous \<Rightarrow> by_symbol routes previous | None \<Rightarrow> FORWARD)
      | By_Attribute key routes \<Rightarrow> (case get_sym key (ev_attributes e) of Some v \<Rightarrow> by_value fl routes v | None \<Rightarrow> FORWARD)
      | By_Resource key routes \<Rightarrow> (case get_sym key (res_attributes resource) of Some v \<Rightarrow> by_value fl routes v | None \<Rightarrow> FORWARD))"

definition route_router :: "number_ops \<Rightarrow> ('d, 'h, route) router_ops" where
  "route_router fl =
     \<lparr>ro_route = (\<lambda>resource e rt. (route_event fl resource e rt, rt)), ro_observe_batch_context = (\<lambda>_ rt. rt),
      ro_observe_provenance = (\<lambda>p rt. rt\<lparr>rt_provenance := p\<rparr>), ro_observe_scope = (\<lambda>_ rt. rt), ro_map_resource = (\<lambda>_ rt. (None, rt))\<rparr>"

section \<open>The partitions\<close>

text \<open>The events whose mark names a slot, in order.\<close>

definition marked_for :: "nat \<Rightarrow> 'e list \<Rightarrow> destinations list \<Rightarrow> 'e list" where
  "marked_for slot events marks = map fst (filter (\<lambda>(e, m). bit m slot) (zip events marks))"

lemma checked_mark_nonempty:
  assumes "0 < slots" and "slots \<le> 64" shows "checked_mark m slots \<noteq> 0 \<and> (\<forall>i. bit (checked_mark m slots) i \<longrightarrow> i < slots)"
proof -
  obtain kept out where w: "mark_within m slots = (kept, out)" by fastforce
  have "bit kept i \<Longrightarrow> i < slots" for i using mark_within_kept[OF assms(2), of m i] w by simp
  moreover have "(FORWARD :: u64) \<noteq> 0" by (simp add: FORWARD_def)
  ultimately show ?thesis using w assms(1) by (auto simp: checked_mark_def mark_is_empty_def)
qed

lemma route_marks_ok:
  "0 < slots \<Longrightarrow> slots \<le> 64 \<Longrightarrow> route_marks R slots resource es s = (marks, s') \<Longrightarrow>
   length marks = length es \<and> list_all (\<lambda>m. m \<noteq> 0 \<and> (\<forall>i. bit m i \<longrightarrow> i < slots)) marks"
proof (induction es arbitrary: s marks)
  case (Cons e es)
  then show ?case using checked_mark_nonempty by (fastforce simp: Let_def split: prod.splits)
qed simp

lemma mark_batch_ok:
  "0 < slots \<Longrightarrow> slots \<le> 64 \<Longrightarrow> mark_batch R slots batch s = (resource, marks, s') \<Longrightarrow>
   length marks = length (b_events batch) \<and> list_all (\<lambda>m. m \<noteq> 0 \<and> (\<forall>i. bit m i \<longrightarrow> i < slots)) marks"
  by (auto simp: mark_batch_def Let_def split: prod.splits dest!: route_marks_ok)

lemma move_events_length: "length (move_events ems dests) = length dests"
  by (induction ems dests rule: move_events.induct) (simp_all add: marks.pushes_length[of "\<lambda>_. e" for e] split: option.split)

lemma move_events_nth:
  "s < length dests \<Longrightarrow> move_events ems dests ! s = dests ! s @ map fst (filter (\<lambda>(e, m). bit m s) ems)"
proof (induction ems dests rule: move_events.induct)
  case (2 event mark ems dests)
  show ?case
  proof (cases "highest_slot mark")
    case None
    then show ?thesis using 2 by (auto simp: highest_slot_def split: if_splits)
  next
    case (Some h)
    let ?d = "push_event event h (fold (\<lambda>slot. push_event event slot) (mark_slots (without_slot mark h)) dests)"
    have "?d ! s = dests ! s @ (if bit mark s then [event] else [])"
      using marks.push_last[OF Some 2(3), of "\<lambda>_. event" "\<lambda>_. event"] by simp
    moreover have "s < length ?d" using 2(3) marks.pushes_length[of "\<lambda>_. event"] by simp
    ultimately show ?thesis using 2(2)[OF Some] Some by simp
  qed
qed simp
lemma enumerate_upt: "enumerate 0 xs = map (\<lambda>i. (i, xs ! i)) [0..<length xs]"
  by (rule nth_equalityI) (simp_all add: nth_enumerate_eq)

lemma slots_below:
  assumes "\<forall>i. bit m i \<longrightarrow> i < slots" and "slots \<le> 64" shows "mark_slots m = filter (bit m) [0..<slots]"
proof -
  have "[0..<64] = [0..<slots] @ [slots..<64]" using assms(2) upt_add_eq_append[of 0 slots "64 - slots"] by simp
  moreover have "filter (bit m) [slots..<64] = []" using assms(1) by (fastforce simp: filter_empty_conv)
  ultimately show ?thesis by (simp add: mark_slots_eq)
qed

lemma marked_for_Cons: "marked_for slot (e # es) (m # ms) = (if bit m slot then [e] else []) @ marked_for slot es ms"
  by (simp add: marked_for_def)

lemma marked_for_same: "length es = length ms \<Longrightarrow> list_all (\<lambda>m. m = first) ms \<Longrightarrow> marked_for slot es ms = (if bit first slot then es else [])"
  by (induction es ms rule: list_induct2) (auto simp: marked_for_Cons, simp_all add: marked_for_def)

text \<open>What the partitions hold, as a reference.\<close>

definition partitions_of ::
    "symbol resource \<Rightarrow> symbol scope option \<Rightarrow> nat \<Rightarrow> (symbol, 'd, 'h) event list \<Rightarrow> destinations list \<Rightarrow> (nat \<times> (symbol, 'd, 'h) event_batch) list" where
  "partitions_of resource scope slots events marks =
     map (\<lambda>slot. (slot, \<lparr>b_resource = resource, b_scope = scope, b_events = marked_for slot events marks\<rparr>))
       (filter (\<lambda>slot. marked_for slot events marks \<noteq> []) [0..<slots])"

abbreviation part_batches :: "(nat \<times> ('d, 'h) partition) list \<Rightarrow> (nat \<times> (symbol, 'd, 'h) event_batch) list" where
  "part_batches parts \<equiv> map (\<lambda>(slot, p). (slot, partition_batch p)) parts"

lemma take_partitions_of:
  assumes n: "length (rs_dests sc) = slots" "\<And>i. i < slots \<Longrightarrow> rs_dests sc ! i = F i" and t: "take_partitions resource scope sc = (parts, sc')"
  shows "part_batches parts = map (\<lambda>slot. (slot, \<lparr>b_resource = resource, b_scope = scope, b_events = F slot\<rparr>)) (filter (\<lambda>slot. F slot \<noteq> []) [0..<slots]) \<and>
    rs_dests sc' = replicate slots []"
proof -
  have f: "filter (\<lambda>x. rs_dests sc ! x \<noteq> []) [0..<slots] = filter (\<lambda>slot. F slot \<noteq> []) [0..<slots]"
    by (rule filter_cong) (simp_all add: n(2))
  then show ?thesis using t n
    by (auto simp: take_partitions_def enumerate_upt filter_map comp_def map_replicate_const simp flip: f)
qed

lemma take_partitions_moved:
  assumes "rs_dests sc = move_events (zip events marks) (replicate slots [])" and "take_partitions resource scope sc = (parts, sc')"
  shows "part_batches parts = partitions_of resource scope slots events marks \<and> rs_dests sc' = replicate slots []"
  unfolding partitions_of_def
  by (rule take_partitions_of[OF _ _ assms(2)]) (simp_all add: assms(1) move_events_length move_events_nth marked_for_def)

lemma share_batch_parts:
  assumes "shared_mark marks = Some first" and "length events = length marks" and "\<forall>i. bit first i \<longrightarrow> i < slots" and "slots \<le> 64"
  shows "part_batches (share_batch first \<lparr>b_resource = resource, b_scope = scope, b_events = events\<rparr>) = partitions_of resource scope slots events marks"
proof -
  have l: "list_all (\<lambda>m. m = first) marks" "marks \<noteq> []" using assms(1) by (auto simp: shared_mark_def split: list.splits if_splits)
  then have "events \<noteq> []" using assms(2) by auto
  then have "marked_for slot events marks = (if bit first slot then events else [])" "marked_for slot events marks \<noteq> [] \<longleftrightarrow> bit first slot" for slot
    using marked_for_same[OF assms(2) l(1)] by auto
  then show ?thesis using slots_below[OF assms(3,4)] by (auto simp: share_batch_def partitions_of_def)
qed

definition scratch_clean :: "nat \<Rightarrow> ('d, 'h) router_scratch \<Rightarrow> bool" where
  "scratch_clean slots sc \<longleftrightarrow> rs_dests sc = replicate slots []"

text \<open>Nothing but counters moves.\<close>

definition only_counts :: "('d, 'h) node \<Rightarrow> ('d, 'h) node \<Rightarrow> bool" where
  "only_counts nd nd' \<longleftrightarrow> (\<forall>s e. taken_at s e (nd_log nd') = taken_at s e (nd_log nd)) \<and> (warned_once nd \<longrightarrow> warned_once nd') \<and>
     counter_total ''logit.component.events.dropped'' ''closed_consumer'' (nd_log nd') = counter_total ''logit.component.events.dropped'' ''closed_consumer'' (nd_log nd)"

lemma only_counts_trans: "only_counts a b \<Longrightarrow> only_counts b c \<Longrightarrow> only_counts a c"
  by (auto simp: only_counts_def)

lemma counts_only: "only_counts nd (count_node_received batch nd)" "only_counts nd (count_copied n nd)" "only_counts nd (node_tick nd)" "only_counts nd nd"
  by (auto simp: only_counts_def count_node_received_def count_copied_def node_emit_def node_tick_def warned_once_def)

lemma count_counts:
  "counter_total ''logit.component.events.received'' [] (nd_log (count_node_received batch nd)) =
     counter_total ''logit.component.events.received'' [] (nd_log nd) + length (b_events batch)"
  "counter_total ''logit.component.events.copied'' [] (nd_log (count_node_received batch nd)) = counter_total ''logit.component.events.copied'' [] (nd_log nd)"
  "counter_total ''logit.component.events.received'' [] (nd_log (count_copied n nd)) = counter_total ''logit.component.events.received'' [] (nd_log nd)"
  "counter_total ''logit.component.events.copied'' [] (nd_log (count_copied n nd)) = counter_total ''logit.component.events.copied'' [] (nd_log nd) + n"
  by (simp_all add: count_node_received_def count_copied_def node_emit_def)

lemma shared_copies:
  "shared_mark marks = Some first \<Longrightarrow> (mark_len first - 1) * length marks = sum_list (map (\<lambda>m. mark_len m - 1) marks)"
proof -
  assume "shared_mark marks = Some first"
  then have "list_all (\<lambda>m. m = first) marks" by (auto simp: shared_mark_def split: list.splits if_splits)
  then show ?thesis by (induction marks) simp_all
qed

lemma route_batch_spec:
  assumes clean: "scratch_clean slots sc" and slots: "0 < slots" "slots \<le> 64"
    and m: "mark_batch R slots batch s = (resource, marks, s1)" and r: "route_batch R batch (sc, s, nd) = (parts, sc', s', nd')"
  shows "part_batches parts = partitions_of resource (b_scope batch) slots (b_events batch) marks" "scratch_clean slots sc'" "s' = s1" "only_counts nd nd'"
    "counter_total ''logit.component.events.received'' [] (nd_log nd') = counter_total ''logit.component.events.received'' [] (nd_log nd) + length (b_events batch)"
    "counter_total ''logit.component.events.copied'' [] (nd_log nd') = counter_total ''logit.component.events.copied'' [] (nd_log nd) + sum_list (map (\<lambda>m. mark_len m - 1) marks)"
proof -
  note ok = mark_batch_ok[OF slots m]
  have l: "length (rs_dests sc) = slots" using clean by (simp add: scratch_clean_def)
  let ?nd = "count_node_received batch nd"
  have nd: "only_counts nd ?nd" "only_counts nd (count_copied n ?nd)" for n using counts_only only_counts_trans by blast+
  have all: "part_batches parts = partitions_of resource (b_scope batch) slots (b_events batch) marks \<and> scratch_clean slots sc' \<and> s' = s1 \<and>
    (\<exists>n. n = sum_list (map (\<lambda>m. mark_len m - 1) marks) \<and> (nd' = count_copied n ?nd \<or> n = 0 \<and> nd' = ?nd))"
  proof (cases "shared_mark marks")
    case (Some first)
    then have "first \<in> set marks" by (auto simp: shared_mark_def split: list.splits if_splits)
    then have "\<forall>i. bit first i \<longrightarrow> i < slots" using ok by (simp add: list_all_iff)
    from share_batch_parts[OF Some _ this slots(2)] ok shared_copies[OF Some] clean r m Some
    show ?thesis by (auto simp: route_batch_def l scratch_clean_def Let_def)
  next
    case None
    let ?sc = "sc\<lparr>rs_marks := marks, rs_counts := replicate slots 0\<rparr>"
    obtain copies used sc1 where k: "count_and_reserve ?sc = ((copies, used), sc1)" by (metis prod.collapse)
    have s1: "rs_dests sc1 = replicate slots []" "copies = sum_list (map (\<lambda>m. mark_len m - 1) marks)"
      using k clean by (auto simp: count_and_reserve_def Let_def scratch_clean_def)
    let ?sc2 = "sc1\<lparr>rs_dests := move_events (zip (b_events batch) marks) (rs_dests sc1)\<rparr>"
    obtain ps sc3 where t: "take_partitions resource (b_scope batch) ?sc2 = (ps, sc3)" by fastforce
    have "parts = ps" "sc' = sc3" "s' = s1" "nd' = (if copies > 0 then count_copied copies ?nd else ?nd)"
      using r m None k t by (auto simp: route_batch_def l Let_def)
    moreover have "part_batches ps = partitions_of resource (b_scope batch) slots (b_events batch) marks \<and> rs_dests sc3 = replicate slots []"
      by (rule take_partitions_moved[OF _ t]) (simp add: s1)
    ultimately show ?thesis using s1(2) by (auto simp: scratch_clean_def)
  qed
  show "part_batches parts = partitions_of resource (b_scope batch) slots (b_events batch) marks" "scratch_clean slots sc'" "s' = s1" using all by auto
  show "only_counts nd nd'" using all nd by auto
  show "counter_total ''logit.component.events.received'' [] (nd_log nd') = counter_total ''logit.component.events.received'' [] (nd_log nd) + length (b_events batch)"
    "counter_total ''logit.component.events.copied'' [] (nd_log nd') = counter_total ''logit.component.events.copied'' [] (nd_log nd) + sum_list (map (\<lambda>m. mark_len m - 1) marks)"
    using all by (auto simp: count_counts)
qed

lemma marked_total:
  "length es = length ms \<Longrightarrow> list_all (\<lambda>m. \<forall>i. bit m i \<longrightarrow> i < slots) ms \<Longrightarrow> slots \<le> 64 \<Longrightarrow>
   sum_list (map (\<lambda>slot. length (marked_for slot es ms)) [0..<slots]) = sum_list (map mark_len ms)"
proof (induction es ms rule: list_induct2)
  case Nil
  then show ?case by (simp add: marked_for_def sum_list_0)
next
  case (Cons e es m ms)
  have "sum_list (map (\<lambda>slot. if bit m slot then 1 else 0) xs) = length (filter (bit m) xs)" for xs :: "nat list" by (induction xs) auto
  moreover have "mark_len m = length (filter (bit m) [0..<slots])" using Cons.prems slots_below[of m slots] by (simp add: mark_len_slots)
  moreover have "(\<lambda>slot. length (marked_for slot (e # es) (m # ms))) = (\<lambda>slot. (if bit m slot then 1 else 0) + length (marked_for slot es ms))"
    by (auto simp: marked_for_Cons)
  ultimately show ?case using Cons.IH Cons.prems by (simp only: sum_list_addf) simp
qed
section \<open>A run of the node\<close>

text \<open>A fan-out is told apart by the slot it serves.\<close>

definition well_slotted :: "fanout \<Rightarrow> fanout list \<Rightarrow> bool" where
  "well_slotted own targets \<longleftrightarrow> fo_slot own = 0 \<and> list_all (\<lambda>(n, f). fo_slot f = n + 1) (enumerate 0 targets)"

lemma destination_slot: "well_slotted own targets \<Longrightarrow> destination_of own targets slot = Some f \<Longrightarrow> fo_slot f = slot"
  by (auto simp: well_slotted_def destination_of_def enumerate_upt list_all_iff split: if_splits)

lemma destination_exists: "slot \<le> length targets \<Longrightarrow> \<exists>f. destination_of own targets slot = Some f"
  by (auto simp: destination_of_def)

lemma sent_taken:
  "sent_to E slot' content edges took nd nd' \<Longrightarrow> stays_open E slot edge \<Longrightarrow> (slot' = slot \<Longrightarrow> edge \<in> set edges) \<Longrightarrow>
   taken_at slot edge (nd_log nd') = taken_at slot edge (nd_log nd) @ (if slot' = slot then [content] else [])"
  by (auto simp: sent_to_def)

lemma send_partition_taken:
  assumes "well_slotted own targets" and "destination_of own targets slot = Some f" and "edge < length (fo_consumers f)" and "stays_open E slot edge"
    and "slot' \<le> length targets"
  shows "taken_at slot edge (nd_log (send_partition E own targets ctx (slot', out) nd)) =
    taken_at slot edge (nd_log nd) @ (if slot' = slot then [(partition_batch out, stamp f ctx)] else [])"
proof -
  obtain f' where f': "destination_of own targets slot' = Some f'" using destination_exists[OF assms(5)] by blast
  note k = destination_slot[OF assms(1) f'] destination_slot[OF assms(1,2)]
  have e: "slot' = slot \<Longrightarrow> f' = f" using f' assms(2) by simp
  have sent: "sent_to E (fo_slot f') (partition_batch out, stamp f' ctx) [0..<length (fo_consumers f')] took nd nd' \<Longrightarrow>
      taken_at slot edge (nd_log nd') = taken_at slot edge (nd_log nd) @ (if slot' = slot then [(partition_batch out, stamp f ctx)] else [])" for took nd'
  proof -
    assume a: "sent_to E (fo_slot f') (partition_batch out, stamp f' ctx) [0..<length (fo_consumers f')] took nd nd'"
    have "fo_slot f' = slot \<Longrightarrow> edge \<in> set [0..<length (fo_consumers f')]" using e k assms(3) by auto
    from sent_taken[OF a assms(4) this] show ?thesis using e k by auto
  qed
  show ?thesis
  proof (cases out)
    case (Part_Owned b)
    obtain ok nd' where r: "send_with_own_context E f' b ctx nd = (ok, nd')" by fastforce
    then show ?thesis using fanout_deliver_sent[OF r[unfolded send_with_own_context_def]] sent Part_Owned f' by (auto simp: send_partition_def)
  next
    case (Part_Shared b)
    obtain ok nd' where r: "send_shared_with_own_context E f' b ctx nd = (ok, nd')" by fastforce
    then show ?thesis using send_shared_sent[OF r] sent Part_Shared f' by (auto simp: send_partition_def)
  qed
qed

lemma send_partitions_taken:
  assumes "well_slotted own targets" and "destination_of own targets slot = Some f" and "edge < length (fo_consumers f)" and "stays_open E slot edge"
  shows "list_all (\<lambda>(slot, out). slot \<le> length targets) parts \<Longrightarrow>
    taken_at slot edge (nd_log (fold (send_partition E own targets ctx) parts nd)) =
    taken_at slot edge (nd_log nd) @ map (\<lambda>(slot, b). (b, stamp f ctx)) (filter (\<lambda>(slot', b). slot' = slot) (part_batches parts))"
proof (induction parts arbitrary: nd)
  case (Cons p parts)
  obtain slot' out where p: "p = (slot', out)" by fastforce
  then show ?case using Cons.IH Cons.prems send_partition_taken[OF assms, of slot' ctx out nd] by auto
qed simp

lemma partitions_at:
  "slot < slots \<Longrightarrow> filter (\<lambda>(slot', b). slot' = slot) (partitions_of resource scope slots events marks) =
     (if marked_for slot events marks = [] then [] else [(slot, \<lparr>b_resource = resource, b_scope = scope, b_events = marked_for slot events marks\<rparr>)])"
proof -
  assume s: "slot < slots"
  have "filter (\<lambda>i. P i \<and> i = slot) [0..<slots] = (if P slot then [slot] else [])" for P
  proof -
    have "filter (\<lambda>i. P i \<and> i = slot) xs = (if P slot \<and> slot \<in> set xs then [slot] else [])" if "distinct xs" for xs
      using that by (induction xs) auto
    then show ?thesis using s by simp
  qed
  from this[of "\<lambda>i. marked_for i events marks \<noteq> []"] show ?thesis by (auto simp: partitions_of_def filter_map comp_def)
qed

text \<open>What a destination is to get of an inbox: the events marked for it, under the trace and provenance of their batch.\<close>

definition batch_view :: "(symbol, 'd, 'h) event_batch \<times> batch_context \<Rightarrow> (symbol, 'd, 'h) event_batch \<times> bytes \<times> symbol provenance" where
  "batch_view x = (fst x, ht_trace_id (bc_trace (snd x)), bc_provenance (snd x))"

fun routed_to ::
    "('d, 'h, 's) router_ops \<Rightarrow> nat \<Rightarrow> nat \<Rightarrow> fanout \<Rightarrow> ('d, 'h) delivered list \<Rightarrow> 's \<Rightarrow>
     ((symbol, 'd, 'h) event_batch \<times> bytes \<times> symbol provenance) list" where
  "routed_to R slots slot f [] s = []"
| "routed_to R slots slot f (d # ds) s =
     (let (batch, parent) = delivered_batch d;
          s = ro_observe_provenance R (bc_provenance parent) (ro_observe_batch_context R (bc_trace parent) s);
          (resource, marks, s) = mark_batch R slots batch s;
          chosen = marked_for slot (b_events batch) marks
      in (if chosen = [] then []
          else [(\<lparr>b_resource = resource, b_scope = b_scope batch, b_events = chosen\<rparr>, ht_trace_id (bc_trace parent), bc_provenance (stamp f parent))]) @
         routed_to R slots slot f ds s)"

lemma stamp_view: "batch_view (b, stamp f ctx) = (b, ht_trace_id (bc_trace ctx), bc_provenance (stamp f ctx))"
  by (simp add: batch_view_def stamp_def split: option.split)

lemma stamp_provenance: "bc_provenance ctx = bc_provenance ctx' \<Longrightarrow> bc_provenance (stamp f ctx) = bc_provenance (stamp f ctx')"
  by (simp add: stamp_def split: option.split)

lemma router_run_taken:
  assumes ws: "well_slotted own targets" and f: "destination_of own targets slot = Some f" and e: "edge < length (fo_consumers f)" "stays_open E slot edge"
    and n: "length targets \<le> MAX_TARGETS" "slot \<le> length targets"
  shows "scratch_clean (length targets + 1) sc \<Longrightarrow> fold (router_turn E R own targets) inbox (sc, s, nd) = (sc', s', nd') \<Longrightarrow>
    map batch_view (taken_at slot edge (nd_log nd')) =
    map batch_view (taken_at slot edge (nd_log nd)) @ routed_to R (length targets + 1) slot f inbox s"
proof (induction inbox arbitrary: sc s nd)
  case (Cons d ds)
  let ?slots = "length targets + 1"
  obtain batch parent where d: "delivered_batch d = (batch, parent)" by fastforce
  define s0 where "s0 = ro_observe_provenance R (bc_provenance parent) (ro_observe_batch_context R (bc_trace parent) s)"
  define ctx where "ctx = \<lparr>bc_trace = trace_child E nd (bc_trace parent), bc_provenance = bc_provenance parent\<rparr>"
  obtain resource marks s1 where m: "mark_batch R ?slots batch s0 = (resource, marks, s1)" by (metis prod.collapse)
  obtain parts sc1 s2 nd1 where r: "route_batch R batch (sc, s0, node_tick nd) = (parts, sc1, s2, nd1)" by (metis prod.collapse)
  have slots: "0 < ?slots" "?slots \<le> 64" using n(1) by (simp_all add: MAX_TARGETS_def)
  note l = route_batch_spec[OF Cons.prems(1) slots m r]
  let ?nd2 = "fold (send_partition E own targets ctx) parts nd1"
  have t: "router_turn E R own targets d (sc, s, nd) = (sc1, s1, ?nd2)" using d r l(3) by (simp add: router_turn_def s0_def ctx_def Let_def)
  have "list_all (\<lambda>(slot, b). slot \<le> length targets) (part_batches parts)"
    using l(1) by (auto simp: partitions_of_def list_all_iff)
  then have "list_all (\<lambda>(slot, out). slot \<le> length targets) parts" by (auto simp: list_all_iff)
  from send_partitions_taken[OF ws f e this]
  have "taken_at slot edge (nd_log ?nd2) = taken_at slot edge (nd_log nd1) @
      map (\<lambda>(slot, b). (b, stamp f ctx)) (filter (\<lambda>(slot', b). slot' = slot) (partitions_of resource (b_scope batch) ?slots (b_events batch) marks))"
    unfolding l(1) .
  moreover have "taken_at slot edge (nd_log nd1) = taken_at slot edge (nd_log nd)"
    using l(4) counts_only(3)[of nd] by (simp add: only_counts_def)
  ultimately have k: "map batch_view (taken_at slot edge (nd_log ?nd2)) = map batch_view (taken_at slot edge (nd_log nd)) @
      (if marked_for slot (b_events batch) marks = [] then []
       else [(\<lparr>b_resource = resource, b_scope = b_scope batch, b_events = marked_for slot (b_events batch) marks\<rparr>,
          ht_trace_id (bc_trace parent), bc_provenance (stamp f parent))])"
    using partitions_at[of slot ?slots resource "b_scope batch" "b_events batch" marks] n(2) stamp_provenance[of ctx parent f]
    by (simp add: stamp_view ctx_def trace_child_def)
  have "fold (router_turn E R own targets) ds (sc1, s1, ?nd2) = (sc', s', nd')" using Cons.prems(2) t by simp
  from Cons.IH[OF l(2) this] k show ?case using d m by (simp add: s0_def)
qed simp
section \<open>Properties\<close>

text \<open>
  C20. Routing a batch is partitioning it: whatever a router answers, the partitions are, in slot order
  and without empty ones, the events whose mark names the slot, in their order, under the batch's
  scope and the router's resource, whether the events were moved, cloned or shared; every event is in
  one at least, the events in them are those received plus those counted as copied, and the scratch
  is left empty for the next batch.
\<close>

theorem route_batch_partitions:
  assumes "rs_dests sc = replicate slots []" and "0 < slots" and "slots \<le> 64"
    and "mark_batch R slots batch s = (resource, marks, s1)" and "route_batch R batch (sc, s, nd) = (parts, sc', s', nd')"
  shows "map (\<lambda>(slot, p). (slot, partition_batch p)) parts =
      map (\<lambda>slot. (slot, \<lparr>b_resource = resource, b_scope = b_scope batch, b_events = marked_for slot (b_events batch) marks\<rparr>))
        (filter (\<lambda>slot. marked_for slot (b_events batch) marks \<noteq> []) [0..<slots]) \<and>
    length marks = length (b_events batch) \<and> list_all (\<lambda>m. \<exists>slot < slots. bit m slot) marks \<and>
    sum_list (map (\<lambda>(slot, p). length (b_events (partition_batch p))) parts) + counter_total ''logit.component.events.copied'' [] (nd_log nd) =
      length (b_events batch) + counter_total ''logit.component.events.copied'' [] (nd_log nd') \<and>
    rs_dests sc' = replicate slots []"
proof -
  note l = route_batch_spec[OF assms(1)[folded scratch_clean_def] assms(2-5)] and ok = mark_batch_ok[OF assms(2-4)]
  let ?len = "\<lambda>slot. length (marked_for slot (b_events batch) marks)"
  have "sum_list (map (\<lambda>(slot, p). length (b_events (partition_batch p))) parts) = sum_list (map (\<lambda>(slot, b). length (b_events b)) (part_batches parts))"
    by (simp add: comp_def case_prod_unfold)
  also have "\<dots> = sum_list (map ?len (filter (\<lambda>slot. marked_for slot (b_events batch) marks \<noteq> []) [0..<slots]))"
    unfolding l(1) partitions_of_def by (simp add: comp_def)
  also have "\<dots> = sum_list (map ?len [0..<slots])" by (rule sum_list_map_filter) simp
  also have "\<dots> = sum_list (map mark_len marks)" using marked_total[of "b_events batch" marks slots] ok assms(3) by (auto simp: list_all_iff)
  also have "\<dots> = length marks + sum_list (map (\<lambda>m. mark_len m - 1) marks)"
  proof -
    have "list_all (\<lambda>m. 0 < mark_len m) marks" using ok by (auto simp: list_all_iff mark_len_slots)
    then show ?thesis by (induction marks) auto
  qed
  finally have total: "sum_list (map (\<lambda>(slot, p). length (b_events (partition_batch p))) parts) =
      length (b_events batch) + sum_list (map (\<lambda>m. mark_len m - 1) marks)" using ok by simp
  have "\<exists>slot < slots. bit m slot" if "m \<in> set marks" for m
    using ok that mark_zero_iff[of m] by (auto simp: list_all_iff)
  then show ?thesis using l ok total by (auto simp: partitions_of_def scratch_clean_def list_all_iff)
qed

definition example_router :: "(nat, nat, nat) router_ops" where
  "example_router =
     \<lparr>ro_route = (\<lambda>_ e n. (if even n then target_mark 0 else with_mark FORWARD (target_mark 1), Suc n)), ro_observe_batch_context = (\<lambda>_ n. n),
      ro_observe_provenance = (\<lambda>_ n. n), ro_observe_scope = (\<lambda>_ n. n), ro_map_resource = (\<lambda>_ n. (None, n))\<rparr>"

definition plain_event :: "i64 \<Rightarrow> (symbol, nat, nat) event" where
  "plain_event at = \<lparr>ev_timestamp = at, ev_attributes = [], ev_log = None, ev_metrics = [], ev_span = None\<rparr>"

definition plain_batch :: "(symbol, nat, nat) event_batch" where
  "plain_batch = \<lparr>b_resource = \<lparr>res_attributes = [], res_dropped_attributes_count = 0, res_schema_url = None\<rparr>, b_scope = None,
     b_events = [plain_event 1, plain_event 2, plain_event 3]\<rparr>"

theorem route_batch_partitions_witness:
  "\<exists>resource marks s1 parts sc' s' nd'. mark_batch example_router 3 plain_batch 0 = (resource, marks, s1) \<and>
     route_batch example_router plain_batch (router_scratch_new 2, 0, node_new) = (parts, sc', s', nd') \<and>
     map (\<lambda>(slot, p). (slot, partition_batch p)) parts =
       map (\<lambda>slot. (slot, \<lparr>b_resource = resource, b_scope = None, b_events = marked_for slot (b_events plain_batch) marks\<rparr>))
         (filter (\<lambda>slot. marked_for slot (b_events plain_batch) marks \<noteq> []) [0..<3])"
proof -
  obtain resource marks s1 where m: "mark_batch example_router 3 plain_batch 0 = (resource, marks, s1)" by (metis prod.collapse)
  obtain parts sc' s' nd' where r: "route_batch example_router plain_batch (router_scratch_new 2, 0, node_new) = (parts, sc', s', nd')" by (metis prod.collapse)
  have "rs_dests (router_scratch_new 2 :: (nat, nat) router_scratch) = replicate 3 []" by (simp add: router_scratch_new_def)
  from route_batch_partitions[OF this _ _ m r] m r show ?thesis by (auto simp: plain_batch_def)
qed

text \<open>
  C18. A routing node delivers: a consumer of any destination whose inbox stays open takes, from every
  run over any inbox, exactly the batches of the events marked for that destination, in order, each
  once, in the trace of the batch it came from and stamped with the destination's component as previous.
\<close>

theorem router_delivers:
  assumes "run_router E R own targets inbox s = (sc, s', nd)" and "well_slotted own targets" and "length targets \<le> MAX_TARGETS"
    and "destination_of own targets slot = Some f" and "slot \<le> length targets" and "edge < length (fo_consumers f)" and "stays_open E slot edge"
  shows "map batch_view (taken_at slot edge (nd_log nd)) = routed_to R (length targets + 1) slot f inbox s"
proof -
  have "scratch_clean (length targets + 1) (router_scratch_new (length targets))" by (simp add: scratch_clean_def router_scratch_new_def)
  from router_run_taken[OF assms(2,4,6,7,3,5) this assms(1)[unfolded run_router_def]] show ?thesis by (simp add: node_new_def)
qed
definition example_node_env :: node_env where
  "example_node_env = \<lparr>ne_inbox = (\<lambda>_ _ _. Inbox_Room), ne_span_id = (\<lambda>n. replicate 8 (word_of_nat n)), ne_trace_id = (\<lambda>n. replicate 16 (word_of_nat n))\<rparr>"

theorem router_delivers_witness:
  "\<exists>sc s' nd. run_router example_node_env example_router \<lparr>fo_slot = 0, fo_component = Some 1, fo_consumers = [2]\<rparr>
      [\<lparr>fo_slot = 1, fo_component = Some 3, fo_consumers = [4, 5]\<rparr>, \<lparr>fo_slot = 2, fo_component = Some 6, fo_consumers = [7]\<rparr>]
      [Owned plain_batch no_context] 0 = (sc, s', nd) \<and>
    map batch_view (taken_at 1 1 (nd_log nd)) =
      routed_to example_router (2 + 1) 1 \<lparr>fo_slot = 1, fo_component = Some 3, fo_consumers = [4, 5]\<rparr> [Owned plain_batch no_context] 0"
proof -
  let ?own = "\<lparr>fo_slot = 0, fo_component = Some 1, fo_consumers = [2]\<rparr>"
  let ?ts = "[\<lparr>fo_slot = 1, fo_component = Some 3, fo_consumers = [4, 5]\<rparr>, \<lparr>fo_slot = 2, fo_component = Some 6, fo_consumers = [7]\<rparr>]"
  obtain sc s' nd where r: "run_router example_node_env example_router ?own ?ts [Owned plain_batch no_context] 0 = (sc, s', nd)" by (metis prod.collapse)
  have "well_slotted ?own ?ts" "length ?ts \<le> MAX_TARGETS" "destination_of ?own ?ts 1 = Some (hd ?ts)" "stays_open example_node_env 1 1"
    by (simp_all add: well_slotted_def MAX_TARGETS_def destination_of_def stays_open_def example_node_env_def)
  from router_delivers[OF r this(1-3) _ _ this(4)] r show ?thesis by (auto simp: numeral_3_eq_3)
qed

end
