(* ===== verification/Signal_Routing.thy ===== *)
theory Signal_Routing
  imports Routing
begin

text \<open>
  \<open>crates/logit-pipeline/src/route_signals.rs\<close>: sending each signal an event carries to its target,
  splitting a mixed event under \<open>strip\<close>, and the node around it (\<open>run_route_signals\<close> of \<open>runtime.rs\<close>).
  A set of signals is a natural number with bit 0 for a log, 1 for metrics and 2 for a span; where the
  source clears bits with \<open>a & !b\<close>, the model has \<open>a - (a AND b)\<close>.
\<close>

record signal_targets =
  sg_logs :: "bytes option"
  sg_metrics :: "bytes option"
  sg_traces :: "bytes option"
  sg_none :: "bytes option"

record signal_routes =
  sr_slots :: "nat option list"
  sr_masks :: "destinations list"
  sr_listed :: nat
  sr_strip :: bool
  sr_targets :: nat

text \<open>The slot of a configured id; \<open>None\<close> also where the source panics, which \<open>ids_resolve\<close> rules out.\<close>

definition slot_of :: "bytes list \<Rightarrow> bytes option \<Rightarrow> nat option" where
  "slot_of targets name = Option.bind name (\<lambda>t. map_option Suc (position_of ((=) t) targets))"

definition slot_mark :: "nat option \<Rightarrow> destinations" where
  "slot_mark slot = (case slot of Some n \<Rightarrow> target_mark (word_of_nat (n - 1)) | None \<Rightarrow> NO_DESTINATION)"

definition ids_resolve :: "signal_targets \<Rightarrow> bytes list \<Rightarrow> bool" where
  "ids_resolve signals targets \<longleftrightarrow>
     list_all (\<lambda>name. case name of Some t \<Rightarrow> t \<in> set targets | None \<Rightarrow> True) [sg_logs signals, sg_metrics signals, sg_traces signals, sg_none signals]"

definition signal_routes_new :: "signal_targets \<Rightarrow> bool \<Rightarrow> bytes list \<Rightarrow> signal_routes option" where
  "signal_routes_new signals strip targets =
     (if length targets > MAX_TARGETS \<or> \<not> ids_resolve signals targets then None
      else
        (let slots = map (slot_of targets) [sg_logs signals, sg_metrics signals, sg_traces signals];
             listed = (if slots ! 0 \<noteq> None then 1 else 0) + (if slots ! 1 \<noteq> None then 2 else 0) + (if slots ! 2 \<noteq> None then 4 else 0)
         in Some \<lparr>sr_slots = slots, sr_masks = signal_masks (map slot_mark slots) (slot_mark (slot_of targets (sg_none signals))),
                  sr_listed = listed, sr_strip = strip, sr_targets = length targets\<rparr>))"

definition split_off :: "signal_routes \<Rightarrow> nat \<Rightarrow> ('k, 'd, 'h) event \<Rightarrow> ('k, 'd, 'h) event \<times> ('k, 'd, 'h) event" where
  "split_off routes slot e =
     (let here = (\<lambda>b. sr_slots routes ! b = Some slot) in
      (\<lparr>ev_timestamp = ev_timestamp e, ev_attributes = ev_attributes e, ev_log = (if here 0 then ev_log e else None),
        ev_metrics = (if here 1 then ev_metrics e else []), ev_span = (if here 2 then ev_span e else None)\<rparr>,
       e\<lparr>ev_log := (if here 0 then None else ev_log e), ev_metrics := (if here 1 then [] else ev_metrics e),
         ev_span := (if here 2 then None else ev_span e)\<rparr>))"

definition strip_unlisted :: "nat \<Rightarrow> ('k, 'd, 'h) event \<Rightarrow> nat list \<Rightarrow> ('k, 'd, 'h) event \<times> nat list" where
  "strip_unlisted unlisted e stripped =
     (let (e, stripped) = (if bit unlisted 0 then (e\<lparr>ev_log := None\<rparr>, stripped[0 := stripped ! 0 + 1]) else (e, stripped));
          (e, stripped) = (if bit unlisted 1 then (e\<lparr>ev_metrics := []\<rparr>, stripped[1 := stripped ! 1 + 1]) else (e, stripped))
      in if bit unlisted 2 then (e\<lparr>ev_span := None\<rparr>, stripped[2 := stripped ! 2 + 1]) else (e, stripped))"

text \<open>Pass 1: the events stripped, their marks, and what was stripped.\<close>

fun mark_signals ::
    "signal_routes \<Rightarrow> ('k, 'd, 'h) event list \<Rightarrow> nat list \<Rightarrow> ('k, 'd, 'h) event list \<times> destinations list \<times> nat list" where
  "mark_signals routes [] stripped = ([], [], stripped)"
| "mark_signals routes (e # es) stripped =
     (let carried = signal_index e;
          unlisted = carried - (carried AND sr_listed routes);
          (e, stripped) = (if sr_strip routes \<and> unlisted \<noteq> 0 then strip_unlisted unlisted e stripped else (e, stripped));
          (es, marks, stripped) = mark_signals routes es stripped
      in (e # es, sr_masks routes ! carried # marks, stripped))"

definition SIGNAL_NAMES :: "string list" where "SIGNAL_NAMES = [''logs'', ''metrics'', ''traces'']"

text \<open>Pass 4.\<close>

definition push_part ::
    "signal_routes \<Rightarrow> nat \<Rightarrow> (symbol, 'd, 'h) event \<times> (symbol, 'd, 'h) event list list \<Rightarrow> (symbol, 'd, 'h) event \<times> (symbol, 'd, 'h) event list list" where
  "push_part routes slot x =
     (case x of (e, dests) \<Rightarrow>
        (let (part, e) = (if sr_strip routes then split_off routes slot e else (e, e)) in (e, push_event part slot dests)))"

fun move_signals ::
    "signal_routes \<Rightarrow> ((symbol, 'd, 'h) event \<times> destinations) list \<Rightarrow> (symbol, 'd, 'h) event list list \<Rightarrow> (symbol, 'd, 'h) event list list" where
  "move_signals routes [] dests = dests"
| "move_signals routes ((e, mark) # ems) dests =
     (case highest_slot mark of
        None \<Rightarrow> move_signals routes ems dests
      | Some h \<Rightarrow>
          (let (e, dests) = fold (push_part routes) (mark_slots (without_slot mark h)) (e, dests)
           in move_signals routes ems (push_event e h dests)))"

definition route_signals_batch ::
    "signal_routes \<Rightarrow> (symbol, 'd, 'h) event_batch \<Rightarrow> ('d, 'h) router_scratch \<times> ('d, 'h) node \<Rightarrow>
     (nat \<times> ('d, 'h) partition) list \<times> ('d, 'h) router_scratch \<times> ('d, 'h) node" where
  "route_signals_batch routes batch st =
     (case st of (sc, nd) \<Rightarrow>
        (let nd = count_node_received batch nd;
             (events, marks, stripped) = mark_signals routes (b_events batch) [0, 0, 0];
             discarded = length (filter mark_is_empty marks);
             sc = sc\<lparr>rs_marks := marks, rs_counts := replicate (length (rs_dests sc)) 0\<rparr>;
             nd = node_emit (map (\<lambda>(count, signal). Ne_Count ''logit.transform.payloads.stripped'' count signal)
               (filter (\<lambda>(count, signal). count > 0) (zip stripped SIGNAL_NAMES))) nd;
             nd = (if discarded > 0 then node_emit [Ne_Count ''logit.component.events.discarded'' discarded []] nd else nd)
         in case (if sr_strip routes then None else shared_mark marks) of
              Some first \<Rightarrow>
                (share_batch first \<lparr>b_resource = b_resource batch, b_scope = b_scope batch, b_events = events\<rparr>, sc,
                 count_copied ((mark_len first - 1) * length events) nd)
            | None \<Rightarrow>
                (let ((copies, used), sc) = count_and_reserve sc;
                     sc = sc\<lparr>rs_dests := move_signals routes (zip events marks) (rs_dests sc)\<rparr>;
                     nd = (if copies > 0 then count_copied copies nd else nd);
                     (parts, sc) = take_partitions (b_resource batch) (b_scope batch) sc
                 in (parts, sc, nd))))"

text \<open>The node: slot 0 has no fan-out.\<close>

definition send_signal_part ::
    "node_env \<Rightarrow> fanout list \<Rightarrow> batch_context \<Rightarrow> nat \<times> ('d, 'h) partition \<Rightarrow> ('d, 'h) node \<Rightarrow> ('d, 'h) node" where
  "send_signal_part E targets ctx p nd =
     (case p of (slot, out) \<Rightarrow>
        if slot = 0 \<or> length targets \<le> slot - 1 then nd
        else
          (case out of
             Part_Owned batch \<Rightarrow> snd (send_with_own_context E (targets ! (slot - 1)) batch ctx nd)
           | Part_Shared batch \<Rightarrow> snd (send_shared_with_own_context E (targets ! (slot - 1)) batch ctx nd)))"

definition signals_turn ::
    "node_env \<Rightarrow> signal_routes \<Rightarrow> fanout list \<Rightarrow> ('d, 'h) delivered \<Rightarrow> ('d, 'h) router_scratch \<times> ('d, 'h) node \<Rightarrow> ('d, 'h) router_scratch \<times> ('d, 'h) node" where
  "signals_turn E routes targets d st =
     (case st of (sc, nd) \<Rightarrow>
        (let (batch, parent) = delivered_batch d;
             ctx = \<lparr>bc_trace = trace_child E nd (bc_trace parent), bc_provenance = bc_provenance parent\<rparr>;
             (parts, sc, nd) = route_signals_batch routes batch (sc, node_tick nd)
         in (sc, fold (send_signal_part E targets ctx) parts nd)))"

definition run_route_signals ::
    "node_env \<Rightarrow> signal_routes \<Rightarrow> fanout list \<Rightarrow> ('d, 'h) delivered list \<Rightarrow> ('d, 'h) router_scratch \<times> ('d, 'h) node" where
  "run_route_signals E routes targets inbox = fold (signals_turn E routes targets) inbox (router_scratch_new (length targets), node_new)"

section \<open>What each target is to get\<close>

text \<open>Where the configuration sends the signals of an event, and the part of it a target gets.\<close>

definition destined :: "signal_targets \<Rightarrow> bytes list \<Rightarrow> nat \<Rightarrow> ('k, 'd, 'h) event \<Rightarrow> bool" where
  "destined signals targets slot e \<longleftrightarrow>
     ev_log e \<noteq> None \<and> slot_of targets (sg_logs signals) = Some slot \<or>
     ev_metrics e \<noteq> [] \<and> slot_of targets (sg_metrics signals) = Some slot \<or>
     ev_span e \<noteq> None \<and> slot_of targets (sg_traces signals) = Some slot \<or>
     ev_log e = None \<and> ev_metrics e = [] \<and> ev_span e = None \<and> slot_of targets (sg_none signals) = Some slot"

definition part_for :: "signal_targets \<Rightarrow> bytes list \<Rightarrow> bool \<Rightarrow> nat \<Rightarrow> ('k, 'd, 'h) event \<Rightarrow> ('k, 'd, 'h) event" where
  "part_for signals targets strip slot e =
     (if strip then
        e\<lparr>ev_log := (if slot_of targets (sg_logs signals) = Some slot then ev_log e else None),
          ev_metrics := (if slot_of targets (sg_metrics signals) = Some slot then ev_metrics e else []),
          ev_span := (if slot_of targets (sg_traces signals) = Some slot then ev_span e else None)\<rparr>
      else e)"

lemma position_less: "position_of P xs = Some n \<Longrightarrow> n < length xs"
  by (induction xs arbitrary: n) (auto split: if_splits)

lemma slot_mark_bit:
  assumes "length targets \<le> MAX_TARGETS" shows "bit (slot_mark (slot_of targets name)) slot \<longleftrightarrow> slot_of targets name = Some slot"
proof (cases "slot_of targets name")
  case None
  then show ?thesis by (simp add: slot_mark_def)
next
  case (Some n)
  then obtain k where k: "n = Suc k" "k < length targets" by (auto simp: slot_of_def dest: position_less split: Option.bind_splits)
  then have "k < MAX_TARGETS" using assms by simp
  moreover have "unat (word_of_nat k :: u16) = k" using calculation by (simp add: unsigned_of_nat take_bit_nat_eq_self_iff MAX_TARGETS_def)
  ultimately show ?thesis using Some k by (auto simp: slot_mark_def)
qed

lemma signal_index_bits:
  "bit (signal_index e) 0 \<longleftrightarrow> ev_log e \<noteq> None" "bit (signal_index e) 1 \<longleftrightarrow> ev_metrics e \<noteq> []" "bit (signal_index e) 2 \<longleftrightarrow> ev_span e \<noteq> None"
  "signal_index e < 8"
  by (auto simp: signal_index_def bit_iff_odd)

lemma union_bits:
  "bit (fold (\<lambda>b mark. with_mark mark (ps ! b)) xs m) slot \<longleftrightarrow> bit m slot \<or> (\<exists>b \<in> set xs. bit (ps ! b) slot)"
  by (induction xs arbitrary: m) auto

lemma signal_masks_bits:
  "bit (signal_masks [a, b, c] n ! signal_index e) slot \<longleftrightarrow>
     ev_log e \<noteq> None \<and> bit a slot \<or> ev_metrics e \<noteq> [] \<and> bit b slot \<or> ev_span e \<noteq> None \<and> bit c slot \<or>
     ev_log e = None \<and> ev_metrics e = [] \<and> ev_span e = None \<and> bit n slot"
proof (cases "signal_index e = 0")
  case True
  then have "ev_log e = None" "ev_metrics e = []" "ev_span e = None" using signal_index_bits[of e] by auto
  then show ?thesis by (simp add: True signal_masks_def)
next
  case False
  let ?i = "signal_index e"
  have "signal_masks [a, b, c] n ! ?i = fold (\<lambda>b' mark. with_mark mark ([a, b, c] ! b')) (filter (bit ?i) [0..<3]) NO_DESTINATION"
    using False signal_index_bits(4)[of e] by (cases ?i) (simp_all add: signal_masks_def)
  moreover have "ev_log e \<noteq> None \<or> ev_metrics e \<noteq> [] \<or> ev_span e \<noteq> None" using False by (auto simp: signal_index_def)
  moreover have "filter (bit ?i) [0..<3] = (if ev_log e \<noteq> None then [0] else []) @ (if ev_metrics e \<noteq> [] then [1] else []) @ (if ev_span e \<noteq> None then [2] else [])"
  proof -
    have "[0..<3] = [0, 1, 2 :: nat]" by (simp add: numeral_3_eq_3 numeral_2_eq_2)
    then show ?thesis by (simp only: filter.simps signal_index_bits) simp
  qed
  ultimately show ?thesis by (cases "ev_log e"; cases "ev_span e"; auto simp: union_bits)
qed

section \<open>The passes\<close>

text \<open>The payloads of the listed signals.\<close>

definition keep_listed :: "signal_routes \<Rightarrow> ('k, 'd, 'h) event \<Rightarrow> ('k, 'd, 'h) event" where
  "keep_listed routes e =
     (if sr_strip routes then
        e\<lparr>ev_log := (if sr_slots routes ! 0 = None then None else ev_log e), ev_metrics := (if sr_slots routes ! 1 = None then [] else ev_metrics e),
          ev_span := (if sr_slots routes ! 2 = None then None else ev_span e)\<rparr>
      else e)"

definition listed_ok :: "signal_routes \<Rightarrow> bool" where
  "listed_ok routes \<longleftrightarrow> (\<forall>b < 3. bit (sr_listed routes) b \<longleftrightarrow> sr_slots routes ! b \<noteq> None)"

lemma minus_and_bits: "bit (a - (a AND b)) i \<longleftrightarrow> bit a i \<and> \<not> bit (b :: nat) i"
proof -
  define c where "c = nat (int a AND NOT (int b))"
  have c: "bit c i \<longleftrightarrow> bit a i \<and> \<not> bit b i" for i
    by (auto simp: c_def bit_nat_iff bit_and_iff bit_not_int_iff bit_of_nat_iff_bit)
  have "(a AND b) + c = (a AND b) OR c" by (rule disjunctive_add_eq_or) (auto simp: bit_eq_iff bit_and_iff c)
  also have "\<dots> = a" by (rule bit_eqI) (auto simp: bit_or_iff bit_and_iff c)
  finally have "a - (a AND b) = c" by simp
  then show ?thesis by (simp add: c)
qed

lemma strip_listed:
  assumes "listed_ok routes" and "sr_strip routes"
  shows "fst (if signal_index e - (signal_index e AND sr_listed routes) \<noteq> 0 then strip_unlisted (signal_index e - (signal_index e AND sr_listed routes)) e stripped else (e, stripped)) =
    keep_listed routes e"
proof -
  let ?u = "signal_index e - (signal_index e AND sr_listed routes)"
  have u: "bit ?u 0 \<longleftrightarrow> ev_log e \<noteq> None \<and> sr_slots routes ! 0 = None" "bit ?u 1 \<longleftrightarrow> ev_metrics e \<noteq> [] \<and> sr_slots routes ! 1 = None"
      "bit ?u 2 \<longleftrightarrow> ev_span e \<noteq> None \<and> sr_slots routes ! 2 = None"
    using assms(1) signal_index_bits[of e] by (auto simp: minus_and_bits listed_ok_def)
  have z: "?u = 0 \<Longrightarrow> \<not> bit ?u i" for i by simp
  have "fst (strip_unlisted ?u e stripped) = keep_listed routes e"
    using u assms(2) by (cases e) (auto simp: strip_unlisted_def keep_listed_def Let_def)
  moreover have "?u = 0 \<Longrightarrow> keep_listed routes e = e" using u z assms(2) by (cases e) (auto simp: keep_listed_def)
  ultimately show ?thesis by auto
qed

lemma mark_signals_ok:
  "listed_ok routes \<Longrightarrow> mark_signals routes es stripped = (es', marks, stripped') \<Longrightarrow>
   es' = map (keep_listed routes) es \<and> marks = map (\<lambda>e. sr_masks routes ! signal_index e) es"
proof (induction es arbitrary: stripped es' marks stripped')
  case (Cons e es)
  let ?u = "signal_index e - (signal_index e AND sr_listed routes)"
  obtain e1 st1 where e1: "(if sr_strip routes \<and> ?u \<noteq> 0 then strip_unlisted ?u e stripped else (e, stripped)) = (e1, st1)" by fastforce
  have "e1 = keep_listed routes e"
  proof (cases "sr_strip routes")
    case True
    then show ?thesis using strip_listed[OF Cons.prems(1) True, of e stripped] e1 by (auto split: if_splits)
  next
    case False
    then show ?thesis using e1 by (simp add: keep_listed_def)
  qed
  moreover obtain es1 ms1 st2 where m: "mark_signals routes es st1 = (es1, ms1, st2)" by (metis prod.collapse)
  ultimately show ?case using Cons.IH[OF Cons.prems(1) m] Cons.prems(2)[unfolded mark_signals.simps Let_def e1] m by simp
qed simp

text \<open>The part of an event for a slot, and what splitting leaves.\<close>

definition part_at :: "signal_routes \<Rightarrow> nat \<Rightarrow> ('k, 'd, 'h) event \<Rightarrow> ('k, 'd, 'h) event" where
  "part_at routes slot e = (if sr_strip routes then fst (split_off routes slot e) else e)"

definition left_by :: "signal_routes \<Rightarrow> nat list \<Rightarrow> ('k, 'd, 'h) event \<Rightarrow> ('k, 'd, 'h) event" where
  "left_by routes ss e =
     (let gone = (\<lambda>b. sr_strip routes \<and> sr_slots routes ! b \<in> Some ` set ss)
      in e\<lparr>ev_log := (if gone 0 then None else ev_log e), ev_metrics := (if gone 1 then [] else ev_metrics e), ev_span := (if gone 2 then None else ev_span e)\<rparr>)"

lemma push_parts:
  "distinct ss \<Longrightarrow> fold (push_part routes) ss (e, dests) = (left_by routes ss e, fold (\<lambda>s. push_event (part_at routes s e) s) ss dests)"
proof (induction ss arbitrary: e dests)
  case Nil
  then show ?case by (simp add: left_by_def)
next
  case (Cons s ss)
  have "part_at routes t (left_by routes [s] e) = part_at routes t e" if "t \<in> set ss" for t
    using that Cons.prems by (auto simp: part_at_def left_by_def split_off_def Let_def)
  then have "fold (\<lambda>t. push_event (part_at routes t (left_by routes [s] e)) t) ss d = fold (\<lambda>t. push_event (part_at routes t e) t) ss d" for d
    by (intro fold_cong) simp_all
  moreover have "push_part routes s (e, dests) = (left_by routes [s] e, push_event (part_at routes s e) s dests)"
    by (auto simp: push_part_def left_by_def part_at_def split_off_def Let_def)
  moreover have "left_by routes ss (left_by routes [s] e) = left_by routes (s # ss) e" by (auto simp: left_by_def Let_def)
  ultimately show ?case using Cons by simp
qed

text \<open>An event whose payloads all go to slots of its mark.\<close>

definition placed :: "signal_routes \<Rightarrow> ('k, 'd, 'h) event \<Rightarrow> destinations \<Rightarrow> bool" where
  "placed routes e m \<longleftrightarrow> (sr_strip routes \<longrightarrow>
     (ev_log e \<noteq> None \<longrightarrow> (\<exists>s. sr_slots routes ! 0 = Some s \<and> bit m s)) \<and>
     (ev_metrics e \<noteq> [] \<longrightarrow> (\<exists>s. sr_slots routes ! 1 = Some s \<and> bit m s)) \<and>
     (ev_span e \<noteq> None \<longrightarrow> (\<exists>s. sr_slots routes ! 2 = Some s \<and> bit m s)))"

lemma left_for_highest:
  assumes "placed routes e m" and "mark_slots m = ss @ [h]"
  shows "left_by routes ss e = part_at routes h e"
proof -
  have b: "bit m s \<longleftrightarrow> s \<in> set ss \<or> s = h" for s using set_mark_slots[of m] assms(2) by auto
  have h: "h \<notin> set ss" using slots_ascending[of m] assms(2) by (auto simp: sorted_wrt_append)
  show ?thesis
    using assms(1) b h by (cases e) (auto simp: left_by_def part_at_def split_off_def placed_def Let_def image_iff)
qed

lemma move_signals_length: "length (move_signals routes ems dests) = length dests"
proof (induction routes ems dests rule: move_signals.induct)
  case (2 routes e mark ems dests)
  have "length (snd (fold (push_part routes) ss x)) = length (snd x)" for ss x
    by (induction ss arbitrary: x) (simp_all add: push_part_def Let_def split: prod.split)
  from this[of _ "(e, dests)"] have "fold (push_part routes) ss (e, dests) = (a, b) \<Longrightarrow> length b = length dests" for ss a b
    by (metis snd_conv)
  then show ?case using 2 by (auto split: option.split prod.split)
qed simp

lemma move_signals_nth:
  "s < length dests \<Longrightarrow> list_all (\<lambda>(e, m). placed routes e m) ems \<Longrightarrow>
   move_signals routes ems dests ! s = dests ! s @ map (\<lambda>(e, m). part_at routes s e) (filter (\<lambda>(e, m). bit m s) ems)"
proof (induction routes ems dests rule: move_signals.induct)
  case (2 routes e mark ems dests)
  show ?case
  proof (cases "highest_slot mark")
    case None
    then show ?thesis using 2 by (auto simp: highest_slot_def split: if_splits)
  next
    case (Some h)
    let ?ss = "mark_slots (without_slot mark h)"
    note hs = highest_without[OF Some]
    have d: "distinct ?ss" by (rule marks.distinct_slots)
    let ?d = "fold (\<lambda>s. push_event (part_at routes s e) s) ?ss dests"
    have l: "left_by routes ?ss e = part_at routes h e" using left_for_highest[OF _ hs, of routes e] 2(4) by simp
    have n: "push_event (part_at routes h e) h ?d ! s = dests ! s @ (if bit mark s then [part_at routes s e] else [])"
      using marks.push_last[OF Some 2(3), of "\<lambda>s. part_at routes s e" "\<lambda>s. part_at routes s e"] by simp
    have len: "length (push_event (part_at routes h e) h ?d) = length dests" by (simp add: marks.pushes_length)
    from 2(2)[OF Some push_parts[OF d, symmetric] refl] have
      "move_signals routes ems (push_event (left_by routes ?ss e) h ?d) ! s =
        push_event (left_by routes ?ss e) h ?d ! s @ map (\<lambda>(e, m). part_at routes s e) (filter (\<lambda>(e, m). bit m s) ems)"
      using 2(3,4) len l by simp
    then show ?thesis using Some push_parts[OF d, of routes e dests] n l by simp
  qed
qed simp
section \<open>Against the configuration\<close>

lemma routes_fields:
  assumes "signal_routes_new signals strip targets = Some routes"
  shows "length targets \<le> MAX_TARGETS" "sr_strip routes = strip" "sr_targets routes = length targets"
    "sr_slots routes = [slot_of targets (sg_logs signals), slot_of targets (sg_metrics signals), slot_of targets (sg_traces signals)]"
    "sr_masks routes = signal_masks [slot_mark (slot_of targets (sg_logs signals)), slot_mark (slot_of targets (sg_metrics signals)), slot_mark (slot_of targets (sg_traces signals))]
       (slot_mark (slot_of targets (sg_none signals)))"
    "listed_ok routes"
proof -
  note d = assms[unfolded signal_routes_new_def]
  show "length targets \<le> MAX_TARGETS" "sr_strip routes = strip" "sr_targets routes = length targets"
    "sr_slots routes = [slot_of targets (sg_logs signals), slot_of targets (sg_metrics signals), slot_of targets (sg_traces signals)]"
    "sr_masks routes = signal_masks [slot_mark (slot_of targets (sg_logs signals)), slot_mark (slot_of targets (sg_metrics signals)), slot_mark (slot_of targets (sg_traces signals))]
       (slot_mark (slot_of targets (sg_none signals)))"
    using d by (auto simp: Let_def split: if_splits)
  have "sr_listed routes = (if slot_of targets (sg_logs signals) \<noteq> None then 1 else 0) + (if slot_of targets (sg_metrics signals) \<noteq> None then 2 else 0) +
      (if slot_of targets (sg_traces signals) \<noteq> None then 4 else 0)" using d by (auto simp: Let_def split: if_splits)
  moreover have "bit ((if p then 1 else 0) + (if q then 2 else 0) + (if r then 4 else 0) :: nat) b \<longleftrightarrow> [p, q, r] ! b" if "b < 3" for p q r b
  proof -
    from that have "b = 0 \<or> b = 1 \<or> b = 2" by linarith
    then show ?thesis by (cases p; cases q; cases r) (auto simp: bit_iff_odd)
  qed
  moreover have "b < 3 \<Longrightarrow> [p \<noteq> None, q \<noteq> None, r \<noteq> None] ! b \<longleftrightarrow> [p, q, r] ! b \<noteq> None" for b :: nat and p q r :: "nat option"
    by (cases b rule: nat.exhaust; simp add: nth_Cons split: nat.split)
  ultimately show "listed_ok routes"
    using d by (auto simp: listed_ok_def Let_def split: if_splits)
qed

lemma routes_mask:
  assumes "signal_routes_new signals strip targets = Some routes"
  shows "bit (sr_masks routes ! signal_index e) slot \<longleftrightarrow> destined signals targets slot e"
  using slot_mark_bit[OF routes_fields(1)[OF assms]] by (auto simp: routes_fields[OF assms] signal_masks_bits destined_def)

lemma routes_placed:
  assumes n: "signal_routes_new signals strip targets = Some routes"
  shows "placed routes (keep_listed routes e) (sr_masks routes ! signal_index e)"
    "part_at routes slot (keep_listed routes e) = part_for signals targets strip slot e"
proof -
  note f = routes_fields[OF n]
  show "placed routes (keep_listed routes e) (sr_masks routes ! signal_index e)"
    by (auto simp: placed_def keep_listed_def routes_mask[OF n] destined_def f(4) split: if_splits)
  show "part_at routes slot (keep_listed routes e) = part_for signals targets strip slot e"
    by (cases e) (auto simp: part_at_def keep_listed_def part_for_def split_off_def f Let_def)
qed

lemma destined_slot: "destined signals targets slot e \<Longrightarrow> 0 < slot \<and> slot \<le> length targets"
  by (auto simp: destined_def slot_of_def dest!: position_less split: Option.bind_splits)

lemma mask_below:
  assumes "signal_routes_new signals strip targets = Some routes" and "bit (sr_masks routes ! signal_index e) i" shows "i < length targets + 1"
proof -
  have "destined signals targets i e" using assms(2) by (simp add: routes_mask[OF assms(1)])
  from destined_slot[OF this] show ?thesis by simp
qed

lemma zip_map_filter:
  "map (\<lambda>(e, m). f e) (filter (\<lambda>(e, m). P m) (zip (map g es) (map h es))) = map (f \<circ> g) (filter (P \<circ> h) es)"
  by (induction es) auto

lemma marked_map: "marked_for slot (map g es) (map h es) = map g (filter (\<lambda>e. bit (h e) slot) es)"
  by (induction es) (simp_all add: marked_for_def)

lemma only_counts_emit:
  "list_all (\<lambda>x. \<exists>m n t. x = Ne_Count m n t \<and> m \<noteq> ''logit.component.events.dropped'') xs \<Longrightarrow> only_counts nd (node_emit xs nd)"
  by (induction xs rule: rev_induct) (auto simp: only_counts_def node_emit_def warned_once_def)

lemma counted_stripped:
  "m \<noteq> ''logit.transform.payloads.stripped'' \<Longrightarrow>
   counter_total m t (map (\<lambda>(count, signal). Ne_Count ''logit.transform.payloads.stripped'' count signal) xs) = 0"
  by (induction xs) auto
section \<open>Properties\<close>

definition count_discarded :: "nat \<Rightarrow> ('d, 'h) node \<Rightarrow> ('d, 'h) node" where
  "count_discarded n nd = (if n > 0 then node_emit [Ne_Count ''logit.component.events.discarded'' n []] nd else nd)"

lemma destined_total:
  fixes es :: "('k, 'd, 'h) event list"
  assumes n: "signal_routes_new signals strip targets = Some routes"
  shows "sum_list (map (\<lambda>slot. length (filter (destined signals targets slot) es)) [0..<length targets + 1]) +
      length (filter mark_is_empty (map (\<lambda>e. sr_masks routes ! signal_index e) es)) =
    length es + sum_list (map (\<lambda>m. mark_len m - 1) (map (\<lambda>e. sr_masks routes ! signal_index e) es))"
proof -
  let ?h = "\<lambda>e :: ('k, 'd, 'h) event. sr_masks routes ! signal_index e" and ?slots = "length targets + 1"
  have b: "\<forall>i. bit (?h e) i \<longrightarrow> i < ?slots" for e using mask_below[OF n] by blast
  have s: "?slots \<le> 64" using routes_fields(1)[OF n] by (simp add: MAX_TARGETS_def)
  have "list_all (\<lambda>m. \<forall>i. bit m i \<longrightarrow> i < ?slots) (map ?h es)" using b by (simp add: list_all_iff)
  from marked_total[OF _ this s, of es] have
    "sum_list (map (\<lambda>slot. length (filter (destined signals targets slot) es)) [0..<?slots]) = sum_list (map (mark_len \<circ> ?h) es)"
    using marked_map[of _ "\<lambda>x. x" es ?h] by (simp add: routes_mask[OF n] comp_def)
  moreover have "sum_list (map (mark_len \<circ> ?h) es) + length (filter mark_is_empty (map ?h es)) = length es + sum_list (map (\<lambda>m. mark_len m - 1) (map ?h es))"
  proof (induction es)
    case (Cons e es)
    have "mark_len (?h e) = 0 \<longleftrightarrow> mark_is_empty (?h e)" by (simp add: mark_len_slots mark_is_empty_def)
    then show ?case using Cons by (auto simp: comp_def)
  qed simp
  ultimately show ?thesis by simp
qed

lemma route_signals_spec:
  fixes batch :: "(symbol, 'd, 'h) event_batch"
  assumes n: "signal_routes_new signals strip targets = Some routes" and clean: "scratch_clean (length targets + 1) sc"
    and r: "route_signals_batch routes batch (sc, nd) = (parts, sc', nd')"
  shows "part_batches parts =
      map (\<lambda>slot. (slot, \<lparr>b_resource = b_resource batch, b_scope = b_scope batch,
          b_events = map (part_for signals targets strip slot) (filter (destined signals targets slot) (b_events batch))\<rparr>))
        (filter (\<lambda>slot. filter (destined signals targets slot) (b_events batch) \<noteq> []) [0..<length targets + 1])"
    "scratch_clean (length targets + 1) sc'"
    "\<exists>xs. nd_log nd' = nd_log nd @ xs \<and>
       counter_total ''logit.component.events.discarded'' [] xs = length (filter mark_is_empty (map (\<lambda>e. sr_masks routes ! signal_index e) (b_events batch))) \<and>
       counter_total ''logit.component.events.copied'' [] xs = sum_list (map (\<lambda>m. mark_len m - 1) (map (\<lambda>e. sr_masks routes ! signal_index e) (b_events batch)))"
proof -
  let ?h = "\<lambda>e :: (symbol, 'd, 'h) event. sr_masks routes ! signal_index e" and ?k = "keep_listed routes :: (symbol, 'd, 'h) event \<Rightarrow> _" and ?slots = "length targets + 1" and ?es = "b_events batch"
  note f = routes_fields[OF n]
  obtain es marks st where m: "mark_signals routes ?es [0, 0, 0] = (es, marks, st)" by (metis prod.collapse)
  have es: "es = map ?k ?es" "marks = map ?h ?es" using mark_signals_ok[OF f(6) m] by simp_all
  have l: "length (rs_dests sc) = ?slots" "rs_dests sc = replicate ?slots []" using clean by (simp_all add: scratch_clean_def)
  let ?sc = "sc\<lparr>rs_marks := marks, rs_counts := replicate ?slots 0\<rparr>" and ?copies = "sum_list (map (\<lambda>m. mark_len m - 1) marks)"
  let ?nd = "count_discarded (length (filter mark_is_empty marks)) (node_emit (map (\<lambda>(count, signal). Ne_Count ''logit.transform.payloads.stripped'' count signal)
      (filter (\<lambda>(count, signal). count > 0) (zip st SIGNAL_NAMES))) (count_node_received batch nd))"
  have parts: "part_batches parts = map (\<lambda>slot. (slot, \<lparr>b_resource = b_resource batch, b_scope = b_scope batch,
          b_events = map (part_for signals targets strip slot) (filter (destined signals targets slot) ?es)\<rparr>))
        (filter (\<lambda>slot. filter (destined signals targets slot) ?es \<noteq> []) [0..<?slots]) \<and> scratch_clean ?slots sc' \<and>
      (nd' = count_copied ?copies ?nd \<or> ?copies = 0 \<and> nd' = ?nd)"
  proof (cases "if sr_strip routes then None else shared_mark marks")
    case (Some first)
    then have sh: "shared_mark marks = Some first" "\<not> strip" using f(2) by (auto split: if_splits)
    then have "first \<in> set marks" by (auto simp: shared_mark_def split: list.splits if_splits)
    then obtain e where "first = ?h e" using es(2) by auto
    then have "\<forall>i. bit first i \<longrightarrow> i < ?slots" using mask_below[OF n] by blast
    moreover have "?slots \<le> 64" using f(1) by (simp add: MAX_TARGETS_def)
    ultimately have "part_batches (share_batch first \<lparr>b_resource = b_resource batch, b_scope = b_scope batch, b_events = es\<rparr>) =
        partitions_of (b_resource batch) (b_scope batch) ?slots es marks" using share_batch_parts[OF sh(1), of es ?slots "b_resource batch" "b_scope batch"] es by simp
    moreover have "?k = (\<lambda>e. e)" using sh(2) f(2) by (auto simp: keep_listed_def)
    then have "marked_for slot es marks = filter (destined signals targets slot) ?es" "part_for signals targets strip slot = (\<lambda>e :: (symbol, 'd, 'h) event. e)" for slot
      using es marked_map[of slot ?k ?es ?h] sh(2) by (auto simp: part_for_def routes_mask[OF n])
    moreover have "parts = share_batch first \<lparr>b_resource = b_resource batch, b_scope = b_scope batch, b_events = es\<rparr>" "sc' = ?sc"
        "nd' = count_copied ((mark_len first - 1) * length es) ?nd"
      using r m Some l by (auto simp: route_signals_batch_def count_discarded_def Let_def)
    moreover have "length es = length marks" using es by simp
    ultimately show ?thesis using shared_copies[OF sh(1)] l by (auto simp: partitions_of_def scratch_clean_def)
  next
    case None
    obtain copies used sc1 where k: "count_and_reserve ?sc = ((copies, used), sc1)" by (metis prod.collapse)
    have s1: "rs_dests sc1 = replicate ?slots []" "copies = ?copies" using k l by (auto simp: count_and_reserve_def Let_def)
    let ?sc2 = "sc1\<lparr>rs_dests := move_signals routes (zip es marks) (rs_dests sc1)\<rparr>"
    obtain ps sc3 where t: "take_partitions (b_resource batch) (b_scope batch) ?sc2 = (ps, sc3)" by fastforce
    have "list_all (\<lambda>(e, m). placed routes e m) (zip es marks)"
      by (simp add: es list_all_iff zip_map_map zip_same_conv_map routes_placed(1)[OF n])
    then have d: "i < ?slots \<Longrightarrow> rs_dests ?sc2 ! i = map (part_for signals targets strip i) (filter (destined signals targets i) ?es)" for i
      using move_signals_nth[of i "replicate ?slots []" routes "zip es marks"] zip_map_filter[of "part_at routes i" "\<lambda>m. bit m i" ?k ?es ?h]
      by (simp add: s1 es routes_placed(2)[OF n] routes_mask[OF n] comp_def del: replicate_Suc)
    have len: "length (rs_dests ?sc2) = ?slots" by (simp add: move_signals_length s1)
    have "parts = ps" "sc' = sc3" "nd' = (if copies > 0 then count_copied copies ?nd else ?nd)"
      using r m None k t l by (auto simp: route_signals_batch_def count_discarded_def Let_def)
    then show ?thesis using take_partitions_of[OF len d t] s1(2) by (auto simp: scratch_clean_def)
  qed
  then show "part_batches parts = map (\<lambda>slot. (slot, \<lparr>b_resource = b_resource batch, b_scope = b_scope batch,
          b_events = map (part_for signals targets strip slot) (filter (destined signals targets slot) ?es)\<rparr>))
        (filter (\<lambda>slot. filter (destined signals targets slot) ?es \<noteq> []) [0..<?slots])" "scratch_clean ?slots sc'" by auto
  show "\<exists>xs. nd_log nd' = nd_log nd @ xs \<and>
       counter_total ''logit.component.events.discarded'' [] xs = length (filter mark_is_empty (map ?h ?es)) \<and>
       counter_total ''logit.component.events.copied'' [] xs = sum_list (map (\<lambda>m. mark_len m - 1) (map ?h ?es))"
    using parts by (auto simp: es count_copied_def count_discarded_def node_emit_def count_node_received_def counted_stripped)
qed
text \<open>
  C19. Routing by signal is splitting by signal: each target gets, in order, its part of every event
  with a payload for it (with stripping, the payloads of the signals sent to it and no other, under
  the event's timestamp and attributes; without, the whole event), and of every event without a
  payload if it is the target of those; nothing goes to the node's own edge; and the parts and the
  events counted as discarded are the events received and those counted as copied.
\<close>

theorem route_signals_splits:
  assumes "signal_routes_new signals strip targets = Some routes" and "rs_dests sc = replicate (length targets + 1) []"
    and "route_signals_batch routes batch (sc, nd) = (parts, sc', nd')"
  shows "map (\<lambda>(slot, p). (slot, partition_batch p)) parts =
      map (\<lambda>slot. (slot, \<lparr>b_resource = b_resource batch, b_scope = b_scope batch,
          b_events = map (part_for signals targets strip slot) (filter (destined signals targets slot) (b_events batch))\<rparr>))
        (filter (\<lambda>slot. filter (destined signals targets slot) (b_events batch) \<noteq> []) [0..<length targets + 1]) \<and>
    list_all (\<lambda>(slot, p). 0 < slot) parts \<and> rs_dests sc' = replicate (length targets + 1) [] \<and>
    (\<exists>xs. nd_log nd' = nd_log nd @ xs \<and>
       sum_list (map (\<lambda>(slot, p). length (b_events (partition_batch p))) parts) + counter_total ''logit.component.events.discarded'' [] xs =
       length (b_events batch) + counter_total ''logit.component.events.copied'' [] xs)"
proof -
  let ?dest = "\<lambda>slot. filter (destined signals targets slot) (b_events batch)" and ?slots = "length targets + 1"
  note l = route_signals_spec[OF assms(1) assms(2)[folded scratch_clean_def] assms(3)]
  have "sum_list (map (\<lambda>(slot, p). length (b_events (partition_batch p))) parts) = sum_list (map (\<lambda>(slot, b). length (b_events b)) (part_batches parts))"
    by (simp add: comp_def case_prod_unfold)
  also have "\<dots> = sum_list (map (\<lambda>slot. length (?dest slot)) (filter (\<lambda>slot. ?dest slot \<noteq> []) [0..<?slots]))" unfolding l(1) by (simp add: comp_def)
  also have "\<dots> = sum_list (map (\<lambda>slot. length (?dest slot)) [0..<?slots])" by (rule sum_list_map_filter) simp
  finally have total: "sum_list (map (\<lambda>(slot, p). length (b_events (partition_batch p))) parts) = sum_list (map (\<lambda>slot. length (?dest slot)) [0..<?slots])" .
  have "list_all (\<lambda>(slot, b). 0 < slot) (part_batches parts)"
    unfolding l(1) using destined_slot by (auto simp: list_all_iff filter_empty_conv)
  then have "list_all (\<lambda>(slot, p). 0 < slot) parts" by (auto simp: list_all_iff)
  moreover obtain xs where "nd_log nd' = nd_log nd @ xs"
      "counter_total ''logit.component.events.discarded'' [] xs = length (filter mark_is_empty (map (\<lambda>e. sr_masks routes ! signal_index e) (b_events batch)))"
      "counter_total ''logit.component.events.copied'' [] xs = sum_list (map (\<lambda>m. mark_len m - 1) (map (\<lambda>e. sr_masks routes ! signal_index e) (b_events batch)))"
    using l(3) by blast
  ultimately show ?thesis using l(1,2) total destined_total[OF assms(1), of "b_events batch"] by (auto simp: scratch_clean_def)
qed

definition example_signals :: signal_targets where
  "example_signals = \<lparr>sg_logs = Some [97], sg_metrics = Some [98], sg_traces = None, sg_none = Some [97]\<rparr>"

theorem route_signals_splits_witness:
  "\<exists>routes parts sc' nd'. signal_routes_new example_signals True [[97], [98]] = Some routes \<and>
     route_signals_batch routes plain_batch (router_scratch_new 2, node_new) = (parts, sc', nd') \<and>
     map (\<lambda>(slot, p). (slot, partition_batch p)) parts =
       map (\<lambda>slot. (slot, \<lparr>b_resource = b_resource plain_batch, b_scope = b_scope plain_batch,
           b_events = map (part_for example_signals [[97], [98]] True slot) (filter (destined example_signals [[97], [98]] slot) (b_events plain_batch))\<rparr>))
         (filter (\<lambda>slot. filter (destined example_signals [[97], [98]] slot) (b_events plain_batch) \<noteq> []) [0..<length [[97 :: u8], [98]] + 1])"
proof -
  obtain routes where r: "signal_routes_new example_signals True [[97], [98]] = Some routes"
    by (simp add: signal_routes_new_def example_signals_def ids_resolve_def MAX_TARGETS_def Let_def)
  obtain parts sc' nd' where b: "route_signals_batch routes plain_batch (router_scratch_new 2, node_new) = (parts, sc', nd')" by (metis prod.collapse)
  have "rs_dests (router_scratch_new 2 :: (nat, nat) router_scratch) = replicate (length [[97 :: u8], [98]] + 1) []" by (simp add: router_scratch_new_def numeral_3_eq_3)
  from route_signals_splits[OF r this b] r b show ?thesis by blast
qed

end
