(* ===== verification/Transform_Node.thy ===== *)
theory Transform_Node
  imports Fanout Accumulator
begin

text \<open>
  Transform nodes: \<open>process_batch\<close>, \<open>run_flush\<close> and \<open>run_transform\<close> of
  \<open>crates/logit-pipeline/src/runtime.rs\<close>, over any transform, the record of its trait's methods
  (\<open>transform.rs\<close>) with a state of its own. What the inbox gives and what the two clocks read are
  functions of the node's counter. Wall-clock nanoseconds are integers in the range of an \<open>i64\<close>.
  The stamps the flushes were called with are kept in a list. Spans and their links are left out.
\<close>

record ('d, 'h, 's) transform_ops =
  to_process_into :: "symbol resource \<Rightarrow> (symbol, 'd, 'h) event \<Rightarrow> 's \<Rightarrow> bool \<times> (symbol, 'd, 'h) event \<times> (symbol, 'd, 'h) event list \<times> 's"
  to_observe_batch_context :: "hop_trace \<Rightarrow> 's \<Rightarrow> 's"
  to_observe_provenance :: "symbol provenance \<Rightarrow> 's \<Rightarrow> 's"
  to_observe_scope :: "symbol scope option \<Rightarrow> 's \<Rightarrow> 's"
  to_map_resource :: "symbol resource \<Rightarrow> 's \<Rightarrow> symbol resource option \<times> 's"
  to_begin_batch :: "symbol resource \<Rightarrow> symbol scope option \<Rightarrow> (symbol, 'd, 'h) event list \<Rightarrow> 's \<Rightarrow> (symbol, 'd, 'h) event list \<times> 's"
  to_end_batch :: "'s \<Rightarrow> 's"
  to_flush_interval :: "'s \<Rightarrow> nat option"
  to_flush :: "int \<Rightarrow> 's \<Rightarrow> (symbol resource \<times> symbol scope option \<times> (symbol, 'd, 'h) event list) list \<times> 's"

section \<open>A batch\<close>

text \<open>\<open>Vec::retain_mut\<close> over \<open>process_into\<close>: the events kept, and what was pushed onto \<open>emitted\<close>, in order.\<close>

fun retain_events ::
    "('d, 'h, 's) transform_ops \<Rightarrow> symbol resource \<Rightarrow> (symbol, 'd, 'h) event list \<Rightarrow> (symbol, 'd, 'h) event list \<Rightarrow> 's \<Rightarrow>
     (symbol, 'd, 'h) event list \<times> (symbol, 'd, 'h) event list \<times> 's" where
  "retain_events T resource [] emitted s = ([], emitted, s)"
| "retain_events T resource (e # es) emitted s =
     (let (keep, e, pushed, s) = to_process_into T resource e s;
          (kept, emitted, s) = retain_events T resource es (emitted @ pushed) s
      in (if keep then e # kept else kept, emitted, s))"

definition process_batch ::
    "('d, 'h, 's) transform_ops \<Rightarrow> (symbol, 'd, 'h) event_batch \<Rightarrow> (symbol, 'd, 'h) event list \<times> 's \<times> ('d, 'h) node \<Rightarrow>
     (symbol, 'd, 'h) event_batch option \<times> (symbol, 'd, 'h) event list \<times> 's \<times> ('d, 'h) node" where
  "process_batch T batch st =
     (case st of (emitted, s, nd) \<Rightarrow>
        (let nd = node_emit [Ne_Count ''logit.component.batches.received'' 1 [],
               Ne_Count ''logit.component.events.received'' (length (b_events batch)) []] nd;
             (r, s) = to_map_resource T (b_resource batch) (to_observe_scope T (b_scope batch) s);
             resource = (case r of Some r \<Rightarrow> r | None \<Rightarrow> b_resource batch);
             before = length (b_events batch);
             (events, s) = to_begin_batch T resource (b_scope batch) (b_events batch) s;
             (events, emitted, s) = retain_events T resource events emitted s;
             s = to_end_batch T s;
             discarded = before - length events;
             nd = (if discarded > 0 then node_emit [Ne_Count ''logit.component.events.discarded'' discarded []] nd else nd);
             events = events @ emitted
         in (if events = [] then None else Some \<lparr>b_resource = resource, b_scope = b_scope batch, b_events = events\<rparr>, [], s, nd)))"

section \<open>A flush\<close>

definition deadline_stamp :: "int \<Rightarrow> nat \<Rightarrow> nat \<Rightarrow> int" where
  "deadline_stamp wall_now lateness interval =
     (let behind = int (cadence_remainder lateness interval);
          behind = (if behind < 2 ^ 63 then behind else 2 ^ 63 - 1)
      in max (- (2 ^ 63)) (wall_now - behind))"

definition flush_group ::
    "node_env \<Rightarrow> fanout \<Rightarrow> batch_context \<Rightarrow> symbol resource \<times> symbol scope option \<times> (symbol, 'd, 'h) event list \<Rightarrow> ('d, 'h) node \<Rightarrow> ('d, 'h) node" where
  "flush_group E f ctx g nd =
     (case g of (resource, scope, events) \<Rightarrow>
        if events = [] then nd
        else
          snd (send_with_own_context E f \<lparr>b_resource = resource, b_scope = scope, b_events = events\<rparr> ctx
            (node_emit [Ne_Count ''logit.component.flush.events'' (length events) []] nd)))"

definition run_flush ::
    "node_env \<Rightarrow> fanout \<Rightarrow> ('d, 'h, 's) transform_ops \<Rightarrow> int \<Rightarrow> 's \<times> ('d, 'h) node \<Rightarrow> 's \<times> ('d, 'h) node" where
  "run_flush E f T now st =
     (case st of (s, nd) \<Rightarrow>
        (let ctx = trace_context (trace_new_root E nd); (flushed, s) = to_flush T now s
         in (s, fold (flush_group E f ctx) flushed (node_tick nd))))"

section \<open>The loop\<close>

datatype ('d, 'h) recv = Recv_Batch "('d, 'h) delivered" | Recv_Elapsed | Recv_Closed

record ('d, 'h) transform_env =
  tx_node :: node_env
  tx_now :: "nat \<Rightarrow> nat"
  tx_latest :: nat
  tx_wall :: "nat \<Rightarrow> int"
  tx_recv :: "nat \<Rightarrow> ('d, 'h) recv"

record ('d, 'h, 's) transform_run =
  tr_next_flush :: "nat option"
  tr_emitted :: "(symbol, 'd, 'h) event list"
  tr_state :: 's
  tr_node :: "('d, 'h) node"
  tr_stamps :: "int list"

definition transform_start :: "('d, 'h) transform_env \<Rightarrow> ('d, 'h, 's) transform_ops \<Rightarrow> 's \<Rightarrow> ('d, 'h, 's) transform_run" where
  "transform_start X T s =
     \<lparr>tr_next_flush = map_option ((+) (tx_now X 0)) (to_flush_interval T s), tr_emitted = [], tr_state = s, tr_node = node_tick node_new, tr_stamps = []\<rparr>"

definition flush_with ::
    "('d, 'h) transform_env \<Rightarrow> fanout \<Rightarrow> ('d, 'h, 's) transform_ops \<Rightarrow> int \<Rightarrow> ('d, 'h, 's) transform_run \<Rightarrow> ('d, 'h, 's) transform_run" where
  "flush_with X f T now t =
     (let (s, nd) = run_flush (tx_node X) f T now (tr_state t, tr_node t)
      in t\<lparr>tr_state := s, tr_node := nd, tr_stamps := tr_stamps t @ [now]\<rparr>)"

text \<open>The deadline part of a turn. The interval is asked for again; it is there where a deadline is.\<close>

definition flush_if_due ::
    "('d, 'h) transform_env \<Rightarrow> fanout \<Rightarrow> ('d, 'h, 's) transform_ops \<Rightarrow> ('d, 'h, 's) transform_run \<Rightarrow> ('d, 'h, 's) transform_run" where
  "flush_if_due X f T t =
     (case tr_next_flush t of
        None \<Rightarrow> t
      | Some deadline \<Rightarrow>
          (let clock = nd_clock (tr_node t); now = tx_now X clock in
           if deadline \<le> now then
             (case to_flush_interval T (tr_state t) of
                None \<Rightarrow> t
              | Some interval \<Rightarrow>
                  (flush_with X f T (deadline_stamp (tx_wall X clock) (now - deadline) interval) t)
                    \<lparr>tr_next_flush := Some (advance_flush_deadline (tx_latest X) deadline now interval)\<rparr>)
           else t))"

definition transform_take ::
    "('d, 'h) transform_env \<Rightarrow> fanout \<Rightarrow> ('d, 'h, 's) transform_ops \<Rightarrow> ('d, 'h) delivered \<Rightarrow> ('d, 'h, 's) transform_run \<Rightarrow> ('d, 'h, 's) transform_run" where
  "transform_take X f T d t =
     (let (batch, parent) = delivered_batch d; nd = tr_node t;
          s = to_observe_provenance T (bc_provenance parent) (to_observe_batch_context T (bc_trace parent) (tr_state t));
          ctx = \<lparr>bc_trace = trace_child (tx_node X) nd (bc_trace parent), bc_provenance = bc_provenance parent\<rparr>;
          (out, emitted, s, nd) = process_batch T batch (tr_emitted t, s, node_tick nd);
          nd = (case out of Some b \<Rightarrow> snd (send_with_own_context (tx_node X) f b ctx nd) | None \<Rightarrow> nd)
      in t\<lparr>tr_emitted := emitted, tr_state := s, tr_node := nd\<rparr>)"

text \<open>One turn; whether the node goes on.\<close>

definition transform_turn ::
    "('d, 'h) transform_env \<Rightarrow> fanout \<Rightarrow> ('d, 'h, 's) transform_ops \<Rightarrow> ('d, 'h, 's) transform_run \<Rightarrow> bool \<times> ('d, 'h, 's) transform_run" where
  "transform_turn X f T t =
     (let t = flush_if_due X f T t;
          got = tx_recv X (nd_clock (tr_node t));
          t = t\<lparr>tr_node := node_tick (tr_node t)\<rparr>
      in case got of
           Recv_Elapsed \<Rightarrow> (True, t)
         | Recv_Closed \<Rightarrow>
             (False, if tr_next_flush t \<noteq> None then flush_with X f T (tx_wall X (nd_clock (tr_node t))) t else t)
         | Recv_Batch d \<Rightarrow> (True, transform_take X f T d t))"

fun run_transform ::
    "nat \<Rightarrow> ('d, 'h) transform_env \<Rightarrow> fanout \<Rightarrow> ('d, 'h, 's) transform_ops \<Rightarrow> ('d, 'h, 's) transform_run \<Rightarrow> bool \<times> ('d, 'h, 's) transform_run" where
  "run_transform 0 X f T t = (True, t)"
| "run_transform (Suc n) X f T t =
     (case transform_turn X f T t of
        (True, t) \<Rightarrow> run_transform n X f T t
      | (False, t) \<Rightarrow> (False, t))"

section \<open>What is kept of a batch\<close>

lemma retain_events_length:
  "retain_events T resource es emitted s = (kept, emitted', s') \<Longrightarrow> length kept \<le> length es \<and> (\<exists>ps. emitted' = emitted @ ps)"
proof (induction es arbitrary: emitted s kept emitted' s')
  case (Cons e es)
  then show ?case by (fastforce simp: Let_def split: prod.splits if_splits)
qed simp
text \<open>
  A transform node accounts for what it received: the batch that leaves is what the transform kept,
  in order, then what it emitted, in order, under its resource and the batch's scope; the events kept
  and those counted as discarded are those received; no empty batch leaves, and nothing emitted waits
  for the next one.
\<close>

theorem process_batch_accounts:
  assumes "\<And>r sc es s. length (fst (to_begin_batch T r sc es s)) \<le> length es"
    and "process_batch T batch ([], s, nd) = (out, emitted, s', nd')"
  shows "emitted = [] \<and> (\<exists>resource events s1 kept pushed s2 xs. retain_events T resource events [] s1 = (kept, pushed, s2) \<and>
    out = (if kept @ pushed = [] then None else Some \<lparr>b_resource = resource, b_scope = b_scope batch, b_events = kept @ pushed\<rparr>) \<and>
    nd_log nd' = nd_log nd @ xs \<and> length kept + counter_total ''logit.component.events.discarded'' [] xs = length (b_events batch) \<and>
    counter_total ''logit.component.events.received'' [] xs = length (b_events batch))"
proof -
  obtain r s0 where r: "to_map_resource T (b_resource batch) (to_observe_scope T (b_scope batch) s) = (r, s0)" by fastforce
  define resource where "resource = (case r of Some r \<Rightarrow> r | None \<Rightarrow> b_resource batch)"
  obtain events s1 where b: "to_begin_batch T resource (b_scope batch) (b_events batch) s0 = (events, s1)" by fastforce
  obtain kept pushed s2 where k: "retain_events T resource events [] s1 = (kept, pushed, s2)" by (metis prod.collapse)
  have "length kept \<le> length (b_events batch)"
    using retain_events_length[OF k] assms(1)[of resource "b_scope batch" "b_events batch" s0] b by simp
  then have "\<exists>xs. nd_log nd' = nd_log nd @ xs \<and> length kept + counter_total ''logit.component.events.discarded'' [] xs = length (b_events batch) \<and>
      counter_total ''logit.component.events.received'' [] xs = length (b_events batch)"
    using assms(2) r b k by (auto simp: process_batch_def resource_def Let_def node_emit_def split: if_splits)
  moreover have "out = (if kept @ pushed = [] then None else Some \<lparr>b_resource = resource, b_scope = b_scope batch, b_events = kept @ pushed\<rparr>)" "emitted = []"
    using assms(2) r b k by (auto simp: process_batch_def resource_def Let_def)
  ultimately show ?thesis using k by blast
qed

text \<open>A transform that drops every other event and emits a copy of each it drops.\<close>

definition example_transform :: "(nat, nat, nat) transform_ops" where
  "example_transform =
     \<lparr>to_process_into = (\<lambda>_ e n. (even n, e, if even n then [] else [e], Suc n)), to_observe_batch_context = (\<lambda>_ n. n), to_observe_provenance = (\<lambda>_ n. n),
      to_observe_scope = (\<lambda>_ n. n), to_map_resource = (\<lambda>_ n. (None, n)), to_begin_batch = (\<lambda>_ _ es n. (es, n)), to_end_batch = (\<lambda>n. n),
      to_flush_interval = (\<lambda>_. Some 5), to_flush = (\<lambda>_ n. ([], n))\<rparr>"

definition example_input :: "(symbol, nat, nat) event_batch" where
  "example_input = \<lparr>b_resource = \<lparr>res_attributes = [], res_dropped_attributes_count = 0, res_schema_url = None\<rparr>, b_scope = None,
     b_events = [example_event 1 [97], example_event 2 [98]]\<rparr>"

theorem process_batch_accounts_witness:
  "\<exists>out emitted s' nd'. process_batch example_transform example_input ([], 0, node_new) = (out, emitted, s', nd') \<and> emitted = [] \<and>
     (\<exists>(kept :: (symbol, nat, nat) event list) xs. nd_log nd' = nd_log node_new @ xs \<and> length kept + counter_total ''logit.component.events.discarded'' [] xs = length (b_events example_input) \<and>
        counter_total ''logit.component.events.received'' [] xs = length (b_events example_input))"
proof -
  obtain out emitted s' nd' where r: "process_batch example_transform example_input ([], 0, node_new) = (out, emitted, s', nd')" by (metis prod.collapse)
  have "length (fst (to_begin_batch example_transform r sc es s)) \<le> length es" for r sc es s by (simp add: example_transform_def)
  from process_batch_accounts[OF this r] r show ?thesis by blast
qed

section \<open>The stamps\<close>

lemma late_stamp:
  assumes "d \<le> now" and "0 < interval" and "interval < 2 ^ 63" and "- (2 ^ 63) \<le> off"
  shows "deadline_stamp (off + int now) (now - d) interval = off + int (d + (now - d) div interval * interval)"
proof -
  let ?r = "(now - d) mod interval" and ?q = "(now - d) div interval"
  have "cadence_remainder (now - d) interval = ?r" using assms(2) by (cases interval) (simp_all add: cadence_remainder_def)
  moreover have "now = d + ?q * interval + ?r" using assms(1) by simp
  then have n: "int now = int (d + ?q * interval) + int ?r" by (metis of_nat_add)
  moreover have "?r < interval" using assms(2) by simp
  moreover have "off \<le> off + int (d + ?q * interval)" by linarith
  then have "max (- (2 ^ 63)) (off + int (d + ?q * interval)) = off + int (d + ?q * interval)" using assms(4) by linarith
  ultimately show ?thesis using assms(3) by (simp add: deadline_stamp_def Let_def)
qed

lemma advance_exact:
  assumes "d \<le> now" and "0 < interval" and "now + interval \<le> latest"
  shows "advance_flush_deadline latest d now interval = d + Suc ((now - d) div interval) * interval"
proof -
  let ?q = "(now - d) div interval" and ?r = "(now - d) mod interval"
  have m: "now = d + ?q * interval + ?r" using assms(1) by simp
  have lt: "?r < interval" using assms(2) by simp
  have c: "cadence_remainder (now - d) interval = ?r" using assms(2) by (cases interval) (simp_all add: cadence_remainder_def)
  have u: "(if ?r = 0 then interval else interval - ?r) = interval - ?r" by simp
  have "now + (interval - ?r) \<le> latest" using assms(3) by simp
  then have "advance_flush_deadline latest d now interval = now + (interval - ?r)"
    unfolding advance_flush_deadline_def c u Let_def instant_checked_add_def by simp
  then show ?thesis using m lt unfolding mult_Suc by linarith
qed

lemma transform_fields [simp]:
  "tr_next_flush (transform_take X f T d t) = tr_next_flush t" "tr_stamps (transform_take X f T d t) = tr_stamps t"
  "tr_next_flush (flush_with X f T st t) = tr_next_flush t" "tr_stamps (flush_with X f T st t) = tr_stamps t @ [st]"
  by (simp_all add: transform_take_def flush_with_def Let_def split: prod.split)

text \<open>Clocks in step, and a transform with a constant interval.\<close>

definition clocks_in_step :: "int \<Rightarrow> nat \<Rightarrow> ('d, 'h) transform_env \<Rightarrow> bool" where
  "clocks_in_step off interval X \<longleftrightarrow> - (2 ^ 63) \<le> off \<and> interval < 2 ^ 63 \<and> (\<forall>k. tx_wall X k = off + int (tx_now X k) \<and> tx_now X k + interval \<le> tx_latest X)"

text \<open>The instants a deadline may fall on.\<close>

definition on_cadence :: "nat \<Rightarrow> nat \<Rightarrow> nat \<Rightarrow> bool" where
  "on_cadence start interval d \<longleftrightarrow> (\<exists>m > 0. d = start + m * interval)"

definition deadline_stamps :: "int \<Rightarrow> nat \<Rightarrow> nat \<Rightarrow> int list \<Rightarrow> bool" where
  "deadline_stamps off start interval xs \<longleftrightarrow> sorted_wrt (\<lambda>a b. a + int interval \<le> b) xs \<and>
     (\<forall>a \<in> set xs. \<exists>d. a = off + int d \<and> on_cadence start interval d)"

definition stamps_apart :: "int \<Rightarrow> nat \<Rightarrow> nat \<Rightarrow> ('d, 'h, 's) transform_run \<Rightarrow> bool" where
  "stamps_apart off start interval t \<longleftrightarrow> deadline_stamps off start interval (tr_stamps t) \<and>
     (\<exists>d. tr_next_flush t = Some d \<and> on_cadence start interval d \<and> (\<forall>a \<in> set (tr_stamps t). a + int interval \<le> off + int d))"

lemma on_cadence_later:
  assumes "on_cadence start interval d" shows "on_cadence start interval (d + k * interval)"
proof -
  obtain m where "m > 0" "d = start + m * interval" using assms by (auto simp: on_cadence_def)
  then have "m + k > 0" "d + k * interval = start + (m + k) * interval" by (simp_all add: add_mult_distrib)
  then show ?thesis unfolding on_cadence_def by blast
qed

lemma flush_if_due_apart:
  assumes c: "clocks_in_step off interval X" and i: "\<And>s. to_flush_interval T s = Some interval" "0 < interval" and t: "stamps_apart off start interval t"
  shows "stamps_apart off start interval (flush_if_due X f T t)"
proof -
  obtain d where d: "tr_next_flush t = Some d" "on_cadence start interval d" "\<forall>a \<in> set (tr_stamps t). a + int interval \<le> off + int d"
    using t by (auto simp: stamps_apart_def)
  let ?now = "tx_now X (nd_clock (tr_node t))"
  show ?thesis
  proof (cases "d \<le> ?now")
    case False
    then show ?thesis using t d(1) by (simp add: flush_if_due_def)
  next
    case True
    let ?q = "(?now - d) div interval"
    have k: "tx_wall X (nd_clock (tr_node t)) = off + int ?now" "?now + interval \<le> tx_latest X" "- (2 ^ 63) \<le> off" "interval < 2 ^ 63"
      using c by (auto simp: clocks_in_step_def)
    note st = late_stamp[OF True i(2) k(4,3)] and ad = advance_exact[OF True i(2) k(2)]
    define p where "p = d + ?q * interval"
    have q: "d + Suc ?q * interval = p + interval" "d \<le> p" by (simp_all add: p_def)
    have cad: "on_cadence start interval p" "on_cadence start interval (p + interval)"
      using on_cadence_later[OF d(2), of ?q] on_cadence_later[OF d(2), of "Suc ?q"] unfolding q(1) by (simp_all only: p_def)
    have run: "flush_if_due X f T t = (flush_with X f T (off + int p) t)\<lparr>tr_next_flush := Some (p + interval)\<rparr>"
      using d(1) True i(1) by (simp add: flush_if_due_def k(1) st ad q(1)[symmetric] p_def[symmetric] Let_def)
    have le: "a + int interval \<le> off + int p" "a + int interval \<le> off + int (p + interval)" if "a \<in> set (tr_stamps t)" for a
      using bspec[OF d(3) that] q(2) by linarith+
    then show ?thesis using t cad unfolding run by (auto simp: stamps_apart_def deadline_stamps_def sorted_wrt_append)
  qed
qed

text \<open>The stamps of a run: those of the deadlines, and, once the inbox closed, the time right after.\<close>

definition stamped :: "int \<Rightarrow> nat \<Rightarrow> nat \<Rightarrow> ('d, 'h) transform_env \<Rightarrow> bool \<Rightarrow> int list \<Rightarrow> bool" where
  "stamped off start interval X going stamps \<longleftrightarrow>
     (if going then deadline_stamps off start interval stamps
      else \<exists>xs k. stamps = xs @ [tx_wall X (k + 1)] \<and> tx_recv X k = Recv_Closed \<and> deadline_stamps off start interval xs)"

lemma run_transform_apart:
  assumes "clocks_in_step off interval X" and "\<And>s. to_flush_interval T s = Some interval" "0 < interval"
  shows "stamps_apart off start interval t \<Longrightarrow> run_transform n X f T t = (going, t') \<Longrightarrow> stamped off start interval X going (tr_stamps t')"
proof (induction n arbitrary: t)
  case 0
  then show ?case by (auto simp: stamped_def stamps_apart_def)
next
  case (Suc n)
  let ?t = "flush_if_due X f T t"
  have s: "stamps_apart off start interval ?t" by (rule flush_if_due_apart[OF assms Suc.prems(1)])
  then have k: "stamps_apart off start interval (?t\<lparr>tr_node := nd\<rparr>)" "stamps_apart off start interval (transform_take X f T d (?t\<lparr>tr_node := nd\<rparr>))" for nd d
    by (auto simp: stamps_apart_def)
  show ?case
  proof (cases "tx_recv X (nd_clock (tr_node ?t))")
    case (Recv_Batch d)
    then have "run_transform n X f T (transform_take X f T d (?t\<lparr>tr_node := node_tick (tr_node ?t)\<rparr>)) = (going, t')"
      using Suc.prems(2) by (simp add: transform_turn_def Let_def)
    from Suc.IH[OF k(2) this] show ?thesis .
  next
    case Recv_Elapsed
    then have "run_transform n X f T (?t\<lparr>tr_node := node_tick (tr_node ?t)\<rparr>) = (going, t')"
      using Suc.prems(2) by (simp add: transform_turn_def Let_def)
    from Suc.IH[OF k(1) this] show ?thesis .
  next
    case Recv_Closed
    then have "\<not> going" "tr_stamps t' = tr_stamps ?t @ [tx_wall X (nd_clock (tr_node ?t) + 1)]"
      using Suc.prems(2) s by (auto simp: transform_turn_def Let_def stamps_apart_def node_tick_def)
    then show ?thesis using Recv_Closed s by (auto simp: stamped_def stamps_apart_def)
  qed
qed

text \<open>
  C25. While the wall clock goes with the monotonic one, a transform's flushes carry these stamps, however
  late each one ran: a flush at a deadline is stamped with an instant of the cadence that started with
  the node, later by at least an interval than the one before; and once the inbox closes, the flush
  after it, the last one, is always made and stamped with the time itself.
\<close>

theorem flush_stamps_apart:
  assumes "clocks_in_step off interval X" and "\<And>s. to_flush_interval T s = Some interval" and "0 < interval"
    and "run_transform n X f T (transform_start X T s) = (going, t)"
  shows "stamped off (tx_now X 0) interval X going (tr_stamps t)"
proof -
  have "on_cadence (tx_now X 0) interval (tx_now X 0 + interval)" unfolding on_cadence_def by (rule exI[of _ 1]) simp
  then have "stamps_apart off (tx_now X 0) interval (transform_start X T s)"
    by (simp add: stamps_apart_def deadline_stamps_def transform_start_def assms(2))
  from run_transform_apart[OF assms(1-3) this assms(4)] show ?thesis .
qed

definition example_transform_env :: "(nat, nat) transform_env" where
  "example_transform_env =
     \<lparr>tx_node = \<lparr>ne_inbox = (\<lambda>_ _ _. Inbox_Room), ne_span_id = (\<lambda>_. replicate 8 1), ne_trace_id = (\<lambda>_. replicate 16 1)\<rparr>,
      tx_now = (\<lambda>k. min (7 * k) 100), tx_latest = 200, tx_wall = (\<lambda>k. 1000 + int (min (7 * k) 100)),
      tx_recv = (\<lambda>k. if k < 4 then Recv_Elapsed else Recv_Closed)\<rparr>"

text \<open>Deadlines at 5, 10 and so on, flushed at 7 and 21, and a close, flushed at 35.\<close>

theorem flush_stamps_apart_witness:
  "\<exists>going t. run_transform 12 example_transform_env \<lparr>fo_slot = 0, fo_component = Some 1, fo_consumers = [2]\<rparr> example_transform
      (transform_start example_transform_env example_transform 0) = (going, t) \<and> tr_stamps t = [1005, 1020, 1035] \<and>
    stamped 1000 0 5 example_transform_env going (tr_stamps t)"
proof -
  let ?f = "\<lparr>fo_slot = 0, fo_component = Some 1, fo_consumers = [2]\<rparr>"
  obtain going t where r: "run_transform 12 example_transform_env ?f example_transform (transform_start example_transform_env example_transform 0) = (going, t)"
    by fastforce
  have "clocks_in_step 1000 5 example_transform_env" by (auto simp: clocks_in_step_def example_transform_env_def)
  moreover have "to_flush_interval example_transform s = Some 5" for s by (simp add: example_transform_def)
  ultimately have "stamped 1000 (tx_now example_transform_env 0) 5 example_transform_env going (tr_stamps t)"
    using flush_stamps_apart[OF _ _ _ r] by simp
  moreover have "tx_now example_transform_env 0 = 0" by (simp add: example_transform_env_def)
  moreover have "tr_stamps (snd (run_transform 12 example_transform_env ?f example_transform (transform_start example_transform_env example_transform 0))) =
      [1005, 1020, 1035]" by code_simp
  then have "tr_stamps t = [1005, 1020, 1035]" unfolding r snd_conv .
  ultimately show ?thesis using r by auto
qed

end
