(* ===== verification/Spec2Isabelle.thy ===== *)
theory Spec2Isabelle
  imports Control Native_File Sketch_Runs Truncation Hop_Session Sink_Drain Stream_Listener Signal_Routing Transform_Node
begin

text \<open>
  \<^bold>\<open>A verification of logit's event model, native wire format, native hop, sink queues and delivery, stream listeners, routing and summaries.\<close>

  \<open>logit\<close> moves telemetry (logs, metrics, spans) between processes. Its core is an in-memory event
  model whose keys are interned symbols (\<open>src/crates/logit-core\<close>), and a binary format that carries
  batches of events over a socket, into the disk spool and into files (\<open>src/crates/logit-proto\<close>,
  modules \<open>native\<close> and \<open>frame\<close>). A sender resolves every symbol into a dictionary at the front of
  the payload; a receiver interns the dictionary into its own table and rebuilds the batch with its
  own symbols, charging a budget for the entries of lists and dictionary. Between two processes the sink
  \<open>logit_out\<close> and the listener \<open>logit_in\<close> speak it over one connection: a handshake, frames up to a
  window ahead of their acknowledgments, and marks that let a resend be recognised. In front of a
  sink a store holds its batches: a bounded queue in memory, or a disk spool of records appended to
  segment files with a cursor file behind the consumer, from which the next process resumes. A
  sink's task drains its input into the store and delivers from the head, with retries, a window of
  batches in flight, and a grace period at shutdown (\<open>src/crates/logit-pipeline\<close>). Text protocols
  come in over stream listeners, whose connections frame the bytes, decode the messages and
  accumulate the events into batches (\<open>src/crates/logit-inputs/src/tcp.rs\<close>). In between, transform
  nodes edit, absorb and flush events, routing nodes partition batches, and each node's fan-out sends
  what it makes to every consumer.

  \<^bold>\<open>Theories.\<close> Sources are under \<open>src/crates\<close>; the path is given without it.

  \<^item> \<open>Prelude\<close>: machine types, errors (\<open>logit-proto/src/lib.rs\<close>, \<open>CodecError\<close>), results and their
    sequencing (Rust's \<open>?\<close>), carving buffers, fixed-width integers.
  \<^item> \<open>Varint\<close> (\<open>native/varint.rs\<close>), \<open>Utf8\<close> (\<open>str::from_utf8\<close>, \<open>from_utf8_lossy\<close> and character
    boundaries of the standard library), \<open>Budget\<close> (\<open>native/budget.rs\<close>), \<open>Dict\<close> (\<open>native/dict.rs\<close>).
  \<^item> \<open>Interner\<close> (\<open>logit-core/src/interner.rs\<close>): the string table, its contract as the locale
    \<open>string_table\<close>, and the key cache in front of it.
  \<^item> \<open>Attrs\<close> (\<open>attrs.rs\<close>, \<open>value.rs\<close>): values, the sorted attribute map with its binary search, the
    contract of a map as the locale \<open>attr_store\<close>, the merge of resource and event attributes.
  \<^item> \<open>Event_Model\<close> (\<open>metric.rs\<close>, \<open>lib.rs\<close>, \<open>span.rs\<close>, \<open>trace.rs\<close>, \<open>event.rs\<close>, \<open>resource.rs\<close>,
    \<open>provenance.rs\<close>): every record and enumeration, and \<open>MetricValue::checked_add\<close>.
  \<^item> \<open>Wire\<close>, \<open>Native_Value\<close>, \<open>Native_Metric\<close>, \<open>Native_Record\<close> (\<open>native/value.rs\<close>,
    \<open>native/record.rs\<close>): the tag-length-value codec. A writer threads the dictionary builder, a
    reader the budget; \<open>Wire\<close> has the contract that a reader inverts a writer (\<open>round_trip\<close>,
    \<open>field_trip\<close>) and its composition rules, and each record's proof composes them.
  \<^item> \<open>Native_Batch\<close> (\<open>native/mod.rs\<close>): batch and hop payloads. \<open>Rename\<close>: a decoded batch is the
    encoded one with its symbols renamed, and what renaming preserves. \<open>Decoded\<close>: what holds of a
    batch decoded from arbitrary bytes, proved once for every record in the locale
    \<open>field_visitor\<close>. \<open>Truncation\<close>: no proper prefix decodes.
  \<^item> \<open>Frame\<close> (\<open>frame.rs\<close>): header, frames, the lz4 prefix decoder, extents and resynchronisation.
    \<open>Native_File\<close>: the file encoder and decoder (\<open>native/mod.rs\<close>).
  \<^item> \<open>Control\<close> (\<open>native/control.rs\<close>): the handshake and acknowledgement messages; the locale
    \<open>control_visitor\<close> is the contract of a field loop.
  \<^item> \<open>Senders\<close> (\<open>logit-inputs/src/logit/senders.rs\<close>): the table of marks the listener's connections
    share. \<open>Logit_In\<close> (\<open>logit-inputs/src/logit.rs\<close>): one connection of the listener; the bytes that
    have arrived, timeouts, write outcomes, the consumers and the other connections are functions
    of a clock (\<open>in_env\<close>), and what the connection does is its list of effects.
  \<^item> \<open>Ack_Discipline\<close>: the listener's promise as an automaton over effects, and the proof that
    \<open>Logit_In\<close> refines it. \<open>Listener\<close>: what a peer can rely on. \<open>Hop_Frames\<close>: what the listener
    does with a stream of well-formed frames, however it is cut into reads.
  \<^item> \<open>Logit_Out\<close> (\<open>logit-outputs/src/logit.rs\<close>, \<open>stream.rs\<close>, \<open>lib.rs\<close> and
    \<open>logit-pipeline/src/output.rs\<close>): the sink with its connection, in-flight list and resume, and
    the fault classes. \<open>Sender\<close>: its invariant, the handshake with the listener, and when it
    commits.
  \<^item> \<open>Native_Hop\<close>: the sink against any listener that keeps the promise (the locale
    \<open>answering_listener\<close>). \<open>Hop_Session\<close>: the listener of \<open>Logit_In\<close> is one, and the two ends
    together.
  \<^item> \<open>Spool_Record\<close> (\<open>logit-pipeline/src/disk_queue.rs\<close>, \<open>parse_record\<close> and \<open>walk_segment\<close>): the
    records of a spool and how a reader finds them. \<open>Disk_Queue\<close>: \<open>DiskQueue\<close> with its push, write
    path, rotation, repair, eviction, peek, commit, persist worker and shutdown. Each disk
    operation may fail, or be where the push's future is dropped, as a function of a clock
    (\<open>spool_env\<close>). \<open>Disk_Open\<close>: \<open>DiskQueue::open\<close>, its recovery and cursor clamp.
  \<^item> \<open>Spool_Stream\<close>, \<open>Spool_Invariant\<close>: the files as one stream of records, the invariant between
    files, cursor file and state, and what the persist worker and the roll of the read cursor keep
    of it. \<open>Spool_Reader\<close>, \<open>Spool_Writer\<close>, \<open>Spool_Recovery\<close>: the same for the consumer, the
    producer and an open after a stop; their lemmas are in the locale \<open>record_kind\<close>, which says
    what makes a record recognisable. \<open>Spool_Progress\<close>: a disk that works. \<open>Spool_Run\<close>: the records
    of pushed batches satisfy the locale, whole lives of a spool as a step relation, and its
    properties.
  \<^item> \<open>Mem_Buffer\<close> (\<open>logit-proto/src/buffer.rs\<close>): the buffer with its two bounds, eviction and the
    reserved head. \<open>Full_Watch\<close> (\<open>logit-pipeline/src/buffer_full.rs\<close>): the episodes of a full buffer,
    their lines and the pressure signal. \<open>Bounded_Queue\<close> (\<open>queue.rs\<close>): the queue with its three
    overflow policies, calls that park and calls dropped while parked. \<open>Queue_Run\<close>: runs of a queue as
    a step relation, and what they conserve.
  \<^item> \<open>Sink_Store\<close> (\<open>queue.rs\<close>, \<open>SinkQueue\<close> and \<open>SinkStore\<close>): the numbering of batches, and the one
    interface over memory queue and spool. \<open>Write_Loop\<close> (\<open>runtime.rs\<close>, \<open>output.rs\<close>): \<open>drain_inbox\<close>,
    \<open>write_loop\<close> with delivery one batch at a time and through a window, retries and backoff, and
    the end of \<open>run_output\<close>; arrivals, the sink's answers, the clock and the shutdown are functions
    of an environment.
  \<^item> \<open>Handed_Store\<close>: what a consumer can rely on of a store, as a locale both stores satisfy.
    \<open>Delivery_Discipline\<close>: the write loop's promise as an automaton over its effects.
    \<open>Delivery_Window\<close>, \<open>Delivery_Run\<close>: the loop refines it. \<open>Sink_Drain\<close>: what follows for the order,
    for at-most-once delivery, and for when the loop ends.
  \<^item> \<open>Framing\<close> (\<open>logit-proto/src/framing.rs\<close>): \<open>Framer\<close> with octet counting, lines and length
    prefixes of both byte orders. \<open>Framing_Stream\<close>: a scan of a whole stream as the reference, the
    contract of a resumable step as the locale \<open>incremental\<close> with an interpretation for every framing,
    and the framer against it.
  \<^item> \<open>Accumulator\<close> (\<open>logit-pipeline/src/accumulator.rs\<close>): \<open>BatchAccumulator\<close> and the cadence of its
    deadline. \<open>Stream_Listener\<close> (\<open>logit-inputs/src/tcp.rs\<close>, \<open>peer.rs\<close>): a connection from its first
    read to its end, over any decoder.
  \<^item> \<open>Destinations\<close> (\<open>logit-pipeline/src/router.rs\<close>): the mark of an event, a set of slots in a \<open>u64\<close>, and
    the contract a routing loop relies on as the locale \<open>slot_set\<close>. \<open>Fanout\<close> (\<open>fanout.rs\<close>): stamping and
    sending to every edge; what an inbox answers is a function of a counter.
  \<^item> \<open>Routing\<close> (\<open>runtime.rs\<close>, \<open>logit-transforms/src/route.rs\<close>): \<open>route_batch\<close> and \<open>run_router\<close> over any
    router, and the native one. \<open>Signal_Routing\<close> (\<open>route_signals.rs\<close>): splitting events by signal.
    \<open>Transform_Node\<close> (\<open>runtime.rs\<close>, \<open>transform.rs\<close>): \<open>process_batch\<close>, \<open>run_flush\<close> and \<open>run_transform\<close> over any
    transform.
  \<^item> \<open>Float64\<close>, \<open>Sketch\<close>, \<open>Sketch_Store\<close>, \<open>Ieee_Addition\<close>, \<open>Sketch_Runs\<close>
    (\<open>logit-core/src/sketch.rs\<close>): doubles as their bits, \<open>DdSketch\<close>, the laws of its stores, IEEE
    addition, and invariants of every sketch a process can hold.

  \<^bold>\<open>What is shown.\<close> Batches, hop payloads, files, frames, control messages, integers and sketches
  read back what was written, up to the sign of an exemplar's zero; decoding arbitrary bytes gives
  well-formed values within the limits, every list of them charged to the budget; a relay keeps the text; truncation is always noticed, with the exact number of
  missing bytes for a frame; attribute maps refine finite maps; sketches keep their invariants under
  adding, merging and decoding. On the native hop, a listener's connection answers every frame it
  handled before it says goodbye, never marks or acknowledges a batch nobody took, and never takes
  a first arrival for a resend; the handshake always succeeds; the sink commits only what was
  answered; and over one connection the sink's submissions reach the consumers with their text and
  are committed in order. A spool that does not evict keeps every batch it accepted through failing
  disks, dropped pushes and stops at any moment, hands them out in order, opens again with exactly what
  the files hold from the cursor on, and is stuck neither at its head nor in a push: a push waits only
  while records are queued that can make room for it. A queue accounts for every item under every policy, and a
  blocking one sheds nothing. The write loop refines its discipline over either store: batches leave
  in order, as delivered only after the sink said so, and under at-most-once are not attempted again
  after an attempt of unknown outcome; with a sink that takes one batch at a time the loop ends precisely
  when the sink settles each batch. A stream connection's messages depend on its
  bytes alone, a connection holds little more than one frame, and every event it decoded is sent once,
  in order and under its own resource and scope, however it ends. A routing node gives every
  destination exactly the events marked for it, a signal router each target its payloads, and both
  account for every event; a transform's deadline flushes are stamped
  an interval apart, the one at its close with the time. Every loop is a total function but five. The native listener's frame loop runs
  as long as the peer sends: it takes its number of turns as an argument, the properties hold for
  every number, and one turn more than the headers the input has room for is always enough
  (\<open>frame_loop_terminates\<close>). The retry loops of the spool's push and peek take their turns as an
  argument too: two more than the records waiting, and two, are enough. So do the write loop, a
  stream connection and a transform's loop: properties hold for every number of turns, \<open>unwindowed_drain_ends\<close> gives a number
  that is enough for a sink without a window, and for a connection one turn more than the look at which a shutdown shows is.

  \<^bold>\<open>Parameters.\<close> Code that is not in the repository is an argument, with what is relied on stated by
  name: \<open>frame_env\<close> with \<open>frame_laws\<close> (the crates \<open>crc32c\<close> and \<open>lz4_flex\<close>), \<open>hll_codec\<close> with
  \<open>hll_laws\<close> (the crate \<open>cardinality_estimator\<close>), \<open>layout\<close> (the sizes the compiler gives the
  in-memory types). Floating-point operations that round are the record \<open>float_ops\<close>; of addition
  \<open>addition_laws\<close> is assumed, and \<open>Ieee_Addition\<close> shows that IEEE addition satisfies it. The string
  table is the interner as one thread sees it. Error texts are the constant part of the source's
  messages. Lengths are bounded by \<open>2 ^ 64\<close> where the code casts to and from \<open>u64\<close>, which no buffer
  in memory reaches.

  Of the spool's disk it is assumed that bytes written and renames made survive the process; a stop
  is a process that ends, not a power loss, and an open that fails ends a run. The producer and the
  consumer run one operation after the other, where the one task that polls both may switch at an await
  within one; the persist worker runs between any two. A record is \<open>unmistakable\<close> if no part of it reads as a record: a
  batch whose text contains a whole record is outside the properties, as it is outside what a
  resynchronising reader can tell apart.

  Instants are natural numbers. What a look at the clock, a socket or a channel gives is a function of
  a counter that every look advances, so that any interleaving of the other tasks is one of these
  functions. An \<open>Arc\<close> compared by \<open>ptr_eq\<close> is the number of its allocation. Heap estimates and the
  growth of a vector's capacity are parameters of the accumulator.

  \<^bold>\<open>Not modelled.\<close> The tasks of inputs and scripts in the runtime and the start and supervision of the
  graph; the resolution of the configured graph; the sends of a fan-out with a deadline; the datagram
  and HTTP listeners, tailers and scrapers; the sinks other than \<open>logit_out\<close>; the transforms other than
  the native router; and the codecs of third-party formats: each is code of its own size, and none is
  needed by what is modelled. Of the spool the full-buffer watch, the wake-ups and the names of the
  files; of the native hop and the stream listeners, accepting and dialling sockets, TLS, the PROXY
  header and the lingering close are I/O; of the nodes the spans, the timers, the gauge of an inbox's
  depth, the wording of the lines and \<open>Output::bind\<close>. Configuration, command line, scripting, TLS and the
  vendor clients are I/O and glue around libraries. Of the modelled files, heap-size estimates, the
  parsing of trace identifiers, the random identifier generator and the byte form of \<open>HyperLogLog\<close> are
  left out.
\<close>

section \<open>A concrete batch\<close>

definition sample_hll :: "bytes hll_codec" where
  "sample_hll = \<lparr>hc_to_bytes = id, hc_from_bytes = Some\<rparr>"

definition sample_codec :: "(dd_sketch, bytes) blob_codec" where
  "sample_codec = summary_codec sample_floats sample_hll"

lemma sample_laws: "addition_laws sample_floats" "hll_laws sample_hll"
  by (simp_all add: sample_floats_laws hll_laws_def sample_hll_def)

definition sample_layout :: layout where
  "sample_layout = \<lparr>sz_symbol = 4, sz_value = 32, sz_attr_entry = 40, sz_attr_map = 24, sz_bytes = 32,
     sz_exemplar = 96, sz_metric_record = 128, sz_span_event = 88, sz_span_link = 96, sz_event = 160\<rparr>"

definition sample_batch :: "(symbol, dd_sketch, bytes) event_batch" where
  "sample_batch = \<lparr>
     b_resource = \<lparr>res_attributes = [(0, V_Bool True)], res_dropped_attributes_count = 3,
       res_schema_url = None\<rparr>,
     b_scope = None,
     b_events = [\<lparr>ev_timestamp = 5, ev_attributes = [(1, V_I64 7)],
       ev_log = None,
       ev_metrics = [\<lparr>mr_name = 0, mr_unit = Some 1, mr_description = None, mr_start_timestamp = 0,
         mr_exemplars = [], mr_flags = 0, mr_kind = MK_Gauge (MV_I64 9)\<rparr>],
       ev_span = None\<rparr>]\<rparr>"

definition sample_table :: interner where
  "sample_table = [[0x68], [0x65, 0x6e, 0x76]]"

lemma sample_table_ok: "interner_ok sample_table" "distinct sample_table" "interner_ok []"
  by code_simp+

lemma sample_batch_ok:
  "batch_ok sample_codec sample_batch" "batch_sorted sample_batch" "known_to sample_table sample_batch"
  by code_simp+

lemma sample_symbols: "batch_symbols sample_codec sample_batch = [0, 1]"
  by code_simp

lemma sample_cost:
  "batch_cost sample_codec sample_layout (resolve_str sample_table) sample_batch = 380"
  unfolding batch_cost_def sample_symbols
  by (simp add: sample_batch_def sample_layout_def sample_table_def resolve_str_def resolve_def
      sections_cost_def dict_cost_def batch_scope_cost_def list_cost_def event_cost_def
      metric_cost_def attrs_cost_def saturating_mul_def USIZE_MAX_def)

lemma sample_length:
  "length (encode_batch sample_codec (resolve_str sample_table) sample_batch) \<le> 100"
  by code_simp

lemma sample_decodable:
  "decodable sample_codec sample_layout (resolve_str sample_table) (budget_new 1000) sample_batch"
  using sample_length
  by (simp add: decodable_def sample_batch_ok sample_symbols sample_cost budget_new_def
      MAX_SANE_DICT_ENTRIES_def MAX_SANE_EVENT_COUNT_def) (simp add: sample_batch_def)

section \<open>Batches across processes\<close>

text \<open>
  C1. A batch encoded with one process's string table decodes in another process, whatever that
  process has interned before, to a batch with the same text: every record field, value and
  summary, and every symbol replaced by one that stands for the same string. Decoding consumes the
  whole payload, spends exactly the batch's cost, and only extends the receiver's table.
\<close>

theorem batch_crosses_processes:
  assumes "interner_ok s" and "interner_ok t" and "decodable B L (resolve_str s) b batch"
  shows "\<exists>batch' t'. decode_batch B L (encode_batch B (resolve_str s) batch) b t
      = Inr (batch', [], spend (batch_cost B L (resolve_str s) batch) b, t') \<and>
    batch_text t' batch' = batch_text s batch \<and> distinct t' \<and> prefix t t'"
proof -
  have t: "distinct t" using assms(2) by (simp add: interner_ok_def)
  note dec = decode_batch_body_written [OF utf8_valid_resolve_str [OF assms(1)] t assms(3),
      where rest = "[]", simplified]
  show ?thesis
    using batch_text_translate [OF t prefix_order.refl, of B "resolve_str s" batch]
      intern_all_table [OF t, of "map (resolve_str s) (batch_symbols B batch)"]
    by (simp add: decode_batch_def dec table_after_def batch_text_def)
qed

theorem batch_crosses_processes_witness:
  "\<exists>batch' t'. decode_batch sample_codec sample_layout
      (encode_batch sample_codec (resolve_str sample_table) sample_batch) (budget_new 1000) []
      = Inr (batch', [], spend 380 (budget_new 1000), t') \<and>
    batch_text t' batch' = batch_text sample_table sample_batch \<and> distinct t' \<and> prefix [] t'"
  using batch_crosses_processes [OF sample_table_ok(1,3) sample_decodable]
  by (simp only: sample_cost)

text \<open>
  C30. A hop payload carries the batch, its provenance, the trace context and the sender's sequence
  number to another process: the batch and the provenance keep their text, the trace context and
  the sequence number are what was sent, and the receiver's table is only extended.
\<close>

theorem hop_crosses_processes:
  assumes "interner_ok s" and "interner_ok t" and "decodable B L (resolve_str s) b batch"
    and "provenance_ok (resolve_str s) p" and "hop_trace_ok trace"
    and "length (sq_id seq) = 16" and "sq_seq seq \<noteq> 0"
  shows "\<exists>batch' p' t'.
    decode_hop_batch B L (encode_hop_batch B (resolve_str s) batch p trace seq) b t
      = Inr ((batch', p', trace, seq), spend (batch_cost B L (resolve_str s) batch) b, t') \<and>
    batch_text t' batch' = batch_text s batch \<and> provenance_text t' p' = provenance_text s p \<and>
    distinct t' \<and> prefix t t'"
  using hop_batch_crosses [OF assms(1) _ assms(3-7)] assms(2) by (simp add: interner_ok_def)

definition sample_provenance :: "symbol provenance" where
  "sample_provenance = \<lparr>pv_origin = Some 1, pv_previous = None\<rparr>"

definition sample_trace :: "hop_trace option" where
  "sample_trace = Some \<lparr>ht_trace_id = replicate 16 7, ht_span_id = replicate 8 9\<rparr>"

definition sample_seq :: seq_id where
  "sample_seq = \<lparr>sq_id = replicate 16 3, sq_seq = 41\<rparr>"

lemma sample_hop_ok:
  "provenance_ok (resolve_str sample_table) sample_provenance" "hop_trace_ok sample_trace"
  "length (sq_id sample_seq) = 16" "sq_seq sample_seq \<noteq> 0"
proof -
  have "utf8_valid (resolve_str sample_table 1)" "length (resolve_str sample_table 1) = 3"
    by code_simp+
  then show "provenance_ok (resolve_str sample_table) sample_provenance"
    by (simp add: provenance_ok_def sample_provenance_def MAX_SANE_TRAILER_FIELD_BYTES_def)
qed (code_simp, simp_all add: sample_seq_def)

theorem hop_crosses_processes_witness:
  "\<exists>batch' p' t'. decode_hop_batch sample_codec sample_layout
      (encode_hop_batch sample_codec (resolve_str sample_table) sample_batch sample_provenance
         sample_trace sample_seq) (budget_new 1000) []
      = Inr ((batch', p', sample_trace, sample_seq), spend 380 (budget_new 1000), t') \<and>
    batch_text t' batch' = batch_text sample_table sample_batch \<and>
    provenance_text t' p' = provenance_text sample_table sample_provenance \<and>
    distinct t' \<and> prefix [] t'"
  using hop_crosses_processes [OF sample_table_ok(1,3) sample_decodable sample_hop_ok]
  by (simp only: sample_cost)

text \<open>
  In the process that encoded it, a decoded batch is the batch, symbol for symbol.
\<close>

theorem batch_same_process:
  assumes "interner_ok t" and "known_to t batch" and "batch_sorted batch"
    and "decodable B L (resolve_str t) b batch"
  shows "\<exists>b' t'. decode_batch B L (encode_batch B (resolve_str t) batch) b t
      = Inr (batch, [], b', t') \<and> prefix t t'"
proof -
  have t: "distinct t" using assms(1) by (simp add: interner_ok_def)
  note dec = decode_batch_body_written [OF utf8_valid_resolve_str [OF assms(1)] t assms(4),
      where rest = "[]", simplified]
  show ?thesis
    using rename_same_table [OF t assms(2,3)]
      intern_all_table [OF t, of "map (resolve_str t) (batch_symbols B batch)"]
    by (simp add: decode_batch_def dec table_after_def)
qed

theorem batch_same_process_witness:
  "\<exists>b' t'. decode_batch sample_codec sample_layout
      (encode_batch sample_codec (resolve_str sample_table) sample_batch) (budget_new 1000)
      sample_table = Inr (sample_batch, [], b', t') \<and> prefix sample_table t'"
  by (rule batch_same_process [OF sample_table_ok(1) sample_batch_ok(3,2) sample_decodable])

section \<open>Decoding arbitrary bytes\<close>

text \<open>
  C6. Whatever bytes arrive, a batch that decodes is well-formed: every attribute map is sorted
  with distinct keys, every symbol resolves in the table decoding ends with, the events are within
  the sanity cap, and the table still holds distinct valid UTF-8 strings and only grew.
\<close>

theorem decoded_batch_wellformed:
  assumes "interner_ok t" and "decode_batch B L bytes b t = Inr (batch, rest, b', t')"
  shows "batch_sorted batch \<and> known_to t' batch \<and> length (b_events batch) \<le> MAX_SANE_EVENT_COUNT \<and>
    interner_ok t' \<and> prefix t t' \<and> rest = []"
proof -
  have "decode_batch_body B L bytes b t = Inr (batch, rest, b', t')" and "rest = []"
    using assms(2) by (auto simp: decode_batch_def)
  with decode_batch_body_sound [OF assms(1)] obtain R where "batch_wf B R batch"
    "set R \<subseteq> {..<length t'}" "interner_ok t'" "prefix t t'"
    "length (b_events batch) \<le> MAX_SANE_EVENT_COUNT" by metis
  with \<open>rest = []\<close> batch_wfD(1,2) [of B R batch] show ?thesis
    by (fastforce simp: known_to_def)
qed

definition sample_payload :: bytes where
  "sample_payload = encode_batch sample_codec (resolve_str sample_table) sample_batch"

lemma sample_decodes:
  "decode_batch sample_codec sample_layout sample_payload (budget_new 1000) sample_table
     = Inr (sample_batch, [], spend 380 (budget_new 1000), sample_table)"
proof -
  have "map (resolve_str sample_table) [0, 1] = sample_table"
    by (simp add: sample_table_def resolve_str_def resolve_def)
  then have table: "table_after sample_codec (resolve_str sample_table) sample_table sample_batch
      = sample_table"
    unfolding table_after_def sample_symbols by (simp only:) code_simp
  show ?thesis
    using decode_batch_body_written [OF utf8_valid_resolve_str [OF sample_table_ok(1)]
        sample_table_ok(2) sample_decodable, of "[]"]
      rename_same_table [OF sample_table_ok(2) sample_batch_ok(3,2)]
    by (simp add: decode_batch_def sample_payload_def table sample_cost)
qed

theorem decoded_batch_wellformed_witness:
  "batch_sorted sample_batch \<and> known_to sample_table sample_batch \<and>
   length (b_events sample_batch) \<le> MAX_SANE_EVENT_COUNT \<and> interner_ok sample_table \<and>
   prefix sample_table sample_table \<and> ([] :: bytes) = []"
  by (rule decoded_batch_wellformed [OF sample_table_ok(1) sample_decodes])

text \<open>
  C12. What is charged for a decoded batch. For any bytes that decode under the budget of a frame cap,
  the budget lost at least the charge of every list entry and nested map the batch holds, each at the
  size of its slot (\<open>sections_cost\<close>), and of a dictionary that has every key of the batch, each entry at
  its string's bytes and a symbol (\<open>dict_cost\<close>): no list of the batch escaped its charge. All of it is at
  most four bytes for every byte of the cap, and so are the slots of the events alone. This bounds what
  is charged. The heap behind it can be larger, by the unused capacity of vectors, boxed extensions and
  the decoded sketches, which are not charged.
\<close>

theorem decoded_batch_charged:
  assumes "interner_ok t" and "decode_batch B L bytes (for_frame_cap n) t = Inr (batch, rest, b', t')"
  shows "\<exists>R. batch_keys batch \<subseteq> set R \<and>
    dict_cost L (map (resolve_str t') R) + sections_cost L batch \<le> charged b' \<and>
    charged b' \<le> 4 * unat n \<and> length (b_events batch) * sz_event L \<le> 4 * unat n"
proof -
  have "decode_batch_body B L bytes (for_frame_cap n) t = Inr (batch, rest, b', t')"
    using assms(2) by (auto simp: decode_batch_def)
  with decode_batch_body_sound [OF assms(1)] obtain R where wf: "batch_wf B R batch" and
    spent: "remaining b' + (dict_cost L (map (resolve_str t') R) + sections_cost L batch)
       \<le> remaining (for_frame_cap n)" "limit b' = limit (for_frame_cap n)" by metis
  have cap: "limit (for_frame_cap n) \<le> 4 * unat n" "remaining (for_frame_cap n) = limit (for_frame_cap n)"
    by (simp_all add: for_frame_cap_def budget_new_def DECODE_BUDGET_PER_FRAME_BYTE_def min_def)
  then have charged: "dict_cost L (map (resolve_str t') R) + sections_cost L batch \<le> charged b'"
    "charged b' \<le> 4 * unat n"
    using spent by (simp_all add: charged_def)
  moreover have "length (b_events batch) * sz_event L \<le> 4 * unat n"
  proof -
    have "4 * unat n < USIZE_MAX" using unsigned_less [where 'a = nat and w = n] by (simp add: USIZE_MAX_def)
    moreover have "saturating_mul (length (b_events batch)) (sz_event L) \<le> 4 * unat n"
      using charged by (simp add: sections_cost_def list_cost_def)
    ultimately show ?thesis by (simp add: saturating_mul_def min_def split: if_splits)
  qed
  ultimately show ?thesis using batch_wfD(2) [OF wf] by blast
qed

lemma sample_cap: "for_frame_cap 250 = budget_new 1000"
  by (simp add: for_frame_cap_def DECODE_BUDGET_PER_FRAME_BYTE_def MAX_SANE_UNCOMPRESSED_LEN_def)

theorem decoded_batch_charged_witness:
  "\<exists>R. batch_keys sample_batch \<subseteq> set R \<and>
    dict_cost sample_layout (map (resolve_str sample_table) R) + sections_cost sample_layout sample_batch
      \<le> charged (spend 380 (budget_new 1000)) \<and>
    charged (spend 380 (budget_new 1000)) \<le> 4 * unat (250 :: u32) \<and>
    length (b_events sample_batch) * sz_event sample_layout \<le> 4 * unat (250 :: u32)"
  by (rule decoded_batch_charged [OF sample_table_ok(1)])
    (simp only: sample_cap, rule sample_decodes)

text \<open>
  C29. A relay loses nothing: a batch that decodes, whoever wrote it, encodes again to a payload
  that any third process decodes to the same text, distributions and sets included. The limits of
  the format have to hold for the new payload, and no exemplar may have the float value negative
  zero, which the writer leaves out.
\<close>

theorem relay_keeps_text:
  fixes fl :: float_ops and H :: "'h hll_codec"
  defines "B \<equiv> summary_codec fl H"
  assumes "addition_laws fl" and "hll_laws H" and "interner_ok s" and "interner_ok t"
    and dec: "decode_batch B L bytes b s = Inr (batch, rest, b', s')" and "no_negative_zero batch"
    and fits: "length (batch_symbols B batch) \<le> MAX_SANE_DICT_ENTRIES"
      "length (encode_batch B (resolve_str s') batch) < 2 ^ 64"
      "batch_cost B L (resolve_str s') batch \<le> remaining c"
  shows "\<exists>batch' c' t'. decode_batch B L (encode_batch B (resolve_str s') batch) c t
      = Inr (batch', [], c', t') \<and> batch_text t' batch' = batch_text s' batch"
proof -
  have "decode_batch_body B L bytes b s = Inr (batch, rest, b', s')"
    using dec by (auto simp: decode_batch_def)
  with decode_batch_body_sound [OF \<open>interner_ok s\<close>] obtain R where wf: "batch_wf B R batch"
    "interner_ok s'" "length (b_events batch) \<le> MAX_SANE_EVENT_COUNT" by metis
  have "recodes B" unfolding B_def using assms(2,3) by (rule summary_codec_recodes)
  then have "batch_ok B batch"
    using batch_wfD(3) [OF wf(1)] batch_exactI [OF _ wf(1) \<open>no_negative_zero batch\<close>] by simp
  with wf(3) fits have d: "decodable B L (resolve_str s') c batch"
    by (simp add: decodable_def)
  have t: "distinct t" using \<open>interner_ok t\<close> by (simp add: interner_ok_def)
  note dec = decode_batch_body_written [OF utf8_valid_resolve_str [OF wf(2)] t d,
      where rest = "[]", simplified]
  show ?thesis
    using batch_text_translate [OF t prefix_order.refl, of B "resolve_str s'" batch]
    by (simp add: decode_batch_def dec batch_text_def)
qed

theorem relay_keeps_text_witness:
  "\<exists>batch' c' t'. decode_batch sample_codec sample_layout
      (encode_batch sample_codec (resolve_str sample_table) sample_batch) (budget_new 1000) []
      = Inr (batch', [], c', t') \<and> batch_text t' batch' = batch_text sample_table sample_batch"
  unfolding sample_codec_def
proof (rule relay_keeps_text [OF sample_laws sample_table_ok(1,3)
      sample_decodes [unfolded sample_codec_def]])
  show "no_negative_zero sample_batch" by code_simp
qed (use sample_decodable in \<open>simp_all add: decodable_def sample_codec_def\<close>)

text \<open>
  Leaving out the attributes under a prefix while encoding is encoding events that never had
  them: the payload is byte for byte the one of the filtered events.
\<close>

theorem encode_omitting_filters:
  "encode_events_omitting B res resource scope events pre =
     encode_events B res resource scope
       (map (\<lambda>e. e\<lparr>ev_attributes := kept_attrs res pre (ev_attributes e)\<rparr>) events)"
proof -
  have "write_record_list (write_event_omitting B res (Some pre)) events =
      write_record_list (write_event B)
        (map (\<lambda>e. e\<lparr>ev_attributes := kept_attrs res pre (ev_attributes e)\<rparr>) events)"
    by (simp add: write_record_list_def write_event_omitting_eq omit_attributes_def comp_def)
  then show ?thesis
    by (simp add: encode_events_omitting_def encode_events_def encode_events_inner_def
        write_sections_def write_event_fun)
qed

text \<open>
  The front of a hop payload, at most \<open>HOP_PREFIX_MAX_LEN\<close> bytes, is enough to know the
  sender and the sequence number: reading it off the front gives what decoding the whole gives.
\<close>

theorem hop_prefix_suffices:
  assumes "hop_trace_ok trace" and "length (sq_id seq) = 16" and "sq_seq seq \<noteq> 0"
  shows "\<exists>rest. read_hop_prefix (take HOP_PREFIX_MAX_LEN (encode_hop_batch B res batch p trace seq))
    = Inr (seq, rest)"
proof -
  have "length (write_uvarint (sq_seq seq)) \<le> 10"
    using uvarint_len_bounds(2) [of "sq_seq seq"] by (simp add: uvarint_len_eq)
  then have "take HOP_PREFIX_MAX_LEN (encode_hop_batch B res batch p trace seq) =
      sq_id seq @ write_uvarint (sq_seq seq) @
      take (10 - length (write_uvarint (sq_seq seq)))
        (encode_batch B res batch @ write_len (length (trailer_bytes res p trace)) @
         trailer_bytes res p trace)"
    using assms by (simp add: encode_hop_batch_eq HOP_PREFIX_MAX_LEN_def)
  then show ?thesis using read_hop_prefix_written [OF assms(2,3)] by simp
qed

theorem hop_prefix_suffices_witness:
  "\<exists>rest. read_hop_prefix (take HOP_PREFIX_MAX_LEN
      (encode_hop_batch sample_codec (resolve_str sample_table) sample_batch sample_provenance
         sample_trace sample_seq)) = Inr (sample_seq, rest)"
  by (rule hop_prefix_suffices [OF sample_hop_ok(2-4)])

text \<open>
  C34. No proper prefix of a batch payload or of a hop payload decodes: a torn write is always
  noticed.
\<close>

theorem no_prefix_decodes:
  assumes "interner_ok s" and "interner_ok t" and "decodable B L (resolve_str s) b batch"
    and "provenance_ok (resolve_str s) p" and "hop_trace_ok trace"
    and "length (sq_id seq) = 16" and "sq_seq seq \<noteq> 0"
  shows "(\<forall>n < length (encode_batch B (resolve_str s) batch).
      \<exists>e. decode_batch B L (take n (encode_batch B (resolve_str s) batch)) b t = Inl e) \<and>
    (\<forall>n < length (encode_hop_batch B (resolve_str s) batch p trace seq).
      \<exists>e. decode_hop_batch B L (take n (encode_hop_batch B (resolve_str s) batch p trace seq)) b t
        = Inl e)"
proof -
  have t: "distinct t" using assms(2) by (simp add: interner_ok_def)
  note utf8 = utf8_valid_resolve_str [OF assms(1)]
  have batch: "\<exists>y. decode_batch B L (encode_batch B (resolve_str s) batch) b t = Inr y"
    using decode_batch_body_written [OF utf8 t assms(3), of "[]"] by (simp add: decode_batch_def)
  have hop: "\<exists>y. decode_hop_batch B L (encode_hop_batch B (resolve_str s) batch p trace seq) b t = Inr y"
    using decode_hop_batch_written [OF utf8 t assms(3-7)] by (simp add: Let_def)
  show ?thesis
    using batch hop decode_batch_prefix_rejected decode_hop_prefix_rejected by metis
qed

lemma sample_lengths:
  "4 < length (encode_batch sample_codec (resolve_str sample_table) sample_batch)"
  "30 < length (encode_hop_batch sample_codec (resolve_str sample_table) sample_batch
     sample_provenance sample_trace sample_seq)"
  by code_simp+

theorem no_prefix_decodes_witness:
  "(\<exists>e. decode_batch sample_codec sample_layout
      (take 4 (encode_batch sample_codec (resolve_str sample_table) sample_batch))
      (budget_new 1000) [] = Inl e) \<and>
   (\<exists>e. decode_hop_batch sample_codec sample_layout
      (take 30 (encode_hop_batch sample_codec (resolve_str sample_table) sample_batch
         sample_provenance sample_trace sample_seq)) (budget_new 1000) [] = Inl e)"
  using no_prefix_decodes [OF sample_table_ok(1,3) sample_decodable sample_hop_ok] sample_lengths
  by blast

section \<open>Files\<close>

text \<open>
  A batch written to a file with the native encoder reads back with the native decoder in any
  process, compressed or not, whatever follows it in the file: the text is the same, and the events
  are appended to those already read.
\<close>

theorem file_round_trip:
  assumes "frame_laws E" and "interner_ok s" and "interner_ok t"
    and "decodable B L (resolve_str s) (budget_new DEFAULT_DECODE_BUDGET) batch"
    and "native_encode E B (resolve_str s) c batch = Inr f"
  shows "\<exists>batch' t'. native_decode_into E B L (f @ rest) out t
      = Inr ((b_resource batch', b_scope batch'), out @ b_events batch', t') \<and>
    batch_text t' batch' = batch_text s batch \<and> prefix t t'"
proof -
  have t: "distinct t" using assms(3) by (simp add: interner_ok_def)
  note dec = native_decode_written [OF assms(1) utf8_valid_resolve_str [OF assms(2)] t assms(4,5)]
  show ?thesis
    using batch_text_translate [OF t prefix_order.refl, of B "resolve_str s" batch]
      intern_all_table [OF t, of "map (resolve_str s) (batch_symbols B batch)"]
    by (auto simp: dec Let_def batch_text_def table_after_def)
qed

lemma sample_decodable_file:
  "decodable sample_codec sample_layout (resolve_str sample_table) (budget_new DEFAULT_DECODE_BUDGET)
     sample_batch"
  using sample_decodable
  by (simp add: decodable_def budget_new_def DEFAULT_DECODE_BUDGET_def
      DECODE_BUDGET_PER_FRAME_BYTE_def MAX_SANE_UNCOMPRESSED_LEN_def)

definition sample_file :: bytes where
  "sample_file = header_write (frame_header_of stored_env CODEC_BATCH Compression_Lz4 0 sample_payload)
     @ sample_payload"

lemma sample_file_written:
  "native_encode stored_env sample_codec (resolve_str sample_table) Compression_Lz4 sample_batch
     = Inr sample_file"
  using sample_length
  by (simp add: native_encode_def write_frame_def write_frame_eq sample_file_def sample_payload_def
      frame_body_def stored_env_def MAX_SANE_UNCOMPRESSED_LEN_def)

theorem file_round_trip_witness:
  "\<exists>batch' t'. native_decode_into stored_env sample_codec sample_layout (sample_file @ [1, 2]) [] []
      = Inr ((b_resource batch', b_scope batch'), [] @ b_events batch', t') \<and>
    batch_text t' batch' = batch_text sample_table sample_batch \<and> prefix [] t'"
  by (rule file_round_trip [OF stored_env_laws sample_table_ok(1,3) sample_decodable_file
        sample_file_written])

section \<open>The sign of a zero\<close>


















end
